(* ===== verification/Winvm_Prelude.thy ===== *)
theory Winvm_Prelude
  imports "HOL-Library.Word" "HOL-Library.Signed_Division" "HOL-Library.Monad_Syntax"
begin

text \<open>
  Shared vocabulary of the development: the names of Rust's machine types, the
  generic lemmas on lists, words and bit fields that the component theories use,
  the \<^theory_text>\<open>named_theorems\<close> collections they extend, and two interfaces that
  several components implement:
  \<^item> \<open>word_field\<close>: a bit field packed in a machine word (a getter, a setter and the
    values the field can hold), with the laws a reader of the field relies on;
  \<^item> \<open>codec\<close>: a byte-stream writer with the reader that undoes it, from which the
    codecs of counted sequences and of pairs follow once and for all.
\<close>

unbundle bit_operations_syntax

subsection \<open>Names of the machine types\<close>

type_synonym u8 = "8 word"
type_synonym u16 = "16 word"
type_synonym u32 = "32 word"
type_synonym u64 = "64 word"

text \<open>
  Rust's \<open>i64\<close> is an \<^typ>\<open>int\<close> in this range; each operation that can leave the
  range is written with its check. \<open>usize\<close> is a \<^typ>\<open>nat\<close>: a subtraction that would
  underflow, an index out of range or a failed assertion is a panic, the value
  \<^const>\<open>None\<close> of an \<^typ>\<open>'a option\<close> result.
\<close>

definition I64_MIN :: int where "I64_MIN = - (2 ^ 63)"
definition I64_MAX :: int where "I64_MAX = 2 ^ 63 - 1"
definition U16_MAX :: nat where "U16_MAX = 65535"

definition in_i64 :: "int \<Rightarrow> bool" where
  "in_i64 v \<longleftrightarrow> I64_MIN \<le> v \<and> v \<le> I64_MAX"

lemmas i64_bounds = in_i64_def I64_MIN_def I64_MAX_def

named_theorems field_defs "definitions of packed-field getters and setters"
named_theorems codec_simps "round-trip equations of the byte-stream codecs"
named_theorems step_defs "operations unfolded together in invariant proofs"

subsection \<open>Panicking code\<close>

text \<open>Rust's \<open>assert!\<close> (and \<open>debug_assert!\<close>, which the checked build runs).\<close>

definition rust_assert :: "bool \<Rightarrow> unit option" where
  "rust_assert c = (if c then Some () else None)"

lemma rust_assert_simps [simp]:
  "rust_assert True = Some ()" "rust_assert False = None"
  by (simp_all add: rust_assert_def)

lemma rust_assert_eq_Some [simp]: "rust_assert c = Some u \<longleftrightarrow> c"
  by (simp add: rust_assert_def)

text \<open>Slice indexing: out of bounds is a panic.\<close>

definition slice_get :: "'a list \<Rightarrow> nat \<Rightarrow> 'a option" where
  "slice_get xs i = (if i < length xs then Some (xs ! i) else None)"

lemma slice_get_append [simp]:
  "slice_get (xs @ y # ys) (length xs) = Some y"
  by (simp add: slice_get_def)

lemma slice_get_in: "i < length xs \<Longrightarrow> slice_get xs i = Some (xs ! i)"
  by (simp add: slice_get_def)

lemma slice_get_SomeD: "slice_get xs i = Some y \<Longrightarrow> i < length xs \<and> y = xs ! i"
  by (auto simp: slice_get_def split: if_splits)

subsection \<open>Bit fields in words\<close>

definition field_get :: "nat \<Rightarrow> nat \<Rightarrow> 'a::len word \<Rightarrow> 'a word" where
  "field_get s n w = drop_bit s (w AND push_bit s (mask n))"

definition field_put :: "nat \<Rightarrow> nat \<Rightarrow> 'a::len word \<Rightarrow> 'a word \<Rightarrow> 'a word" where
  "field_put s n v w = (w AND NOT (push_bit s (mask n))) OR push_bit s v"

lemma bit_field_get:
  "bit (field_get s n w) i \<longleftrightarrow> i < n \<and> bit w (s + i)" for w :: "'a::len word"
  by (auto simp: field_get_def bit_simps dest: bit_imp_le_length)

lemma bit_take_bitD: "take_bit n v = v \<Longrightarrow> bit v i \<Longrightarrow> i < n" for v :: "'a::len word"
  by (metis bit_take_bit_iff)

lemma field_get_put:
  "s + n \<le> LENGTH('a) \<Longrightarrow> take_bit n v = v \<Longrightarrow> field_get s n (field_put s n v w) = v"
  for v :: "'a::len word"
  by (rule bit_word_eqI) (auto simp: bit_field_get field_put_def bit_simps dest: bit_take_bitD)

lemma field_get_put_other:
  "t + m \<le> s \<or> s + n \<le> t \<Longrightarrow> take_bit n v = v \<Longrightarrow>
   field_get t m (field_put s n v w) = field_get t m w" for v :: "'a::len word"
  by (rule bit_word_eqI)
    (auto simp: bit_field_get field_put_def bit_simps dest: bit_take_bitD bit_imp_le_length)

lemma field_put_put:
  "take_bit n u = u \<Longrightarrow> field_put s n v (field_put s n u w) = field_put s n v w"
  for v :: "'a::len word"
  by (rule bit_word_eqI) (auto simp: field_put_def bit_simps dest: bit_take_bitD)

lemma field_put_get: "field_put s n (field_get s n w) w = w" for w :: "'a::len word"
  by (rule bit_word_eqI) (auto simp: bit_field_get field_put_def bit_simps)

lemma take_bit_word_less: "v < 2 ^ n \<Longrightarrow> n < LENGTH('a) \<Longrightarrow> take_bit n v = v"
  for v :: "'a::len word"
  by (metis less_mask_eq take_bit_eq_mask)

lemma and_single_bit: "m AND push_bit n 1 \<noteq> 0 \<longleftrightarrow> bit m n" for m :: "'a::len word"
proof -
  have "m AND push_bit n 1 = (if bit m n then push_bit n 1 else 0)"
    by (rule bit_word_eqI) (auto simp: bit_simps)
  then show ?thesis
    using bit_imp_le_length [of m n] by (auto simp: push_bit_of_1)
qed

text \<open>
  The contract of a field packed into a word: what the reader of the field relies on.
  \<open>ok\<close> says which values the field can hold.
\<close>

locale word_field =
  fixes get :: "'w \<Rightarrow> 'v"
    and put :: "'v \<Rightarrow> 'w \<Rightarrow> 'w"
    and ok :: "'v \<Rightarrow> bool"
  assumes get_put: "ok v \<Longrightarrow> get (put v w) = v"
    and put_put: "ok u \<Longrightarrow> ok v \<Longrightarrow> put v (put u w) = put v w"
    and put_get: "put (get w) w = w"
    and get_ok: "ok (get w)"
begin

lemma put_noop_iff: "ok v \<Longrightarrow> put v w = w \<longleftrightarrow> get w = v"
  using get_put put_get by metis

lemma last_write_wins: "ok v \<Longrightarrow> (\<forall>u \<in> set us. ok u) \<Longrightarrow> get (fold put (us @ [v]) w) = v"
  by (induction us arbitrary: w) (auto simp: get_put)

lemma restore: "ok v \<Longrightarrow> put (get w) (put v w) = w"
  by (simp add: put_put put_get get_ok)

end

text \<open>Two fields of one word that do not disturb each other.\<close>

locale word_field_pair =
  fst_f: word_field get1 put1 ok1 + snd_f: word_field get2 put2 ok2
  for get1 :: "'w \<Rightarrow> 'v" and put1 ok1 and get2 :: "'w \<Rightarrow> 'u" and put2 ok2 +
  assumes get1_put2: "ok2 u \<Longrightarrow> get1 (put2 u w) = get1 w"
    and get2_put1: "ok1 v \<Longrightarrow> get2 (put1 v w) = get2 w"
    and put_commute: "ok1 v \<Longrightarrow> ok2 u \<Longrightarrow> put1 v (put2 u w) = put2 u (put1 v w)"
begin

lemma both_read_back:
  "ok1 v \<Longrightarrow> ok2 u \<Longrightarrow> get1 (put2 u (put1 v w)) = v \<and> get2 (put2 u (put1 v w)) = u"
  by (simp add: fst_f.get_put snd_f.get_put get1_put2)

end

subsection \<open>Byte-stream codecs\<close>

type_synonym bytes = "u8 list"
type_synonym 'a reader = "bytes \<Rightarrow> nat \<Rightarrow> ('a \<times> nat) option"

text \<open>The source's \<open>(0..n).map(|_| read(buf, &mut pos)).collect()\<close>.\<close>

fun read_seq :: "'a reader \<Rightarrow> nat \<Rightarrow> 'a list reader" where
  "read_seq rd 0 buf pos = Some ([], pos)"
| "read_seq rd (Suc n) buf pos =
     (case rd buf pos of None \<Rightarrow> None
      | Some (x, pos') \<Rightarrow> (case read_seq rd n buf pos' of None \<Rightarrow> None
          | Some (xs, pos'') \<Rightarrow> Some (x # xs, pos'')))"

text \<open>A buffer holds \<open>bs\<close> from position \<open>pos\<close> on: how a record sits inside a packed blob.\<close>

definition holds_at :: "'a list \<Rightarrow> nat \<Rightarrow> 'a list \<Rightarrow> bool" where
  "holds_at buf pos bs \<longleftrightarrow> (\<exists>pre post. buf = pre @ bs @ post \<and> length pre = pos)"

lemma holds_at_Nil [simp]: "holds_at buf pos [] \<longleftrightarrow> pos \<le> length buf"
proof
  assume "pos \<le> length buf"
  then show "holds_at buf pos []"
    unfolding holds_at_def by (intro exI [of _ "take pos buf"] exI [of _ "drop pos buf"]) simp
qed (auto simp: holds_at_def)

lemma holds_at_append [simp]:
  "holds_at buf pos (as @ bs) \<longleftrightarrow> holds_at buf pos as \<and> holds_at buf (pos + length as) bs"
proof
  assume "holds_at buf pos (as @ bs)"
  then obtain pre post where "buf = pre @ as @ bs @ post" "length pre = pos"
    by (auto simp: holds_at_def)
  then show "holds_at buf pos as \<and> holds_at buf (pos + length as) bs"
    by (auto simp: holds_at_def intro: exI [of _ "pre @ as"])
next
  assume "holds_at buf pos as \<and> holds_at buf (pos + length as) bs"
  then obtain pre post pre' post' where
    1: "buf = pre @ as @ post" "length pre = pos" and
    2: "buf = pre' @ bs @ post'" "length pre' = pos + length as"
    unfolding holds_at_def by blast
  then have "(pre @ as) @ post = pre' @ bs @ post'" "length (pre @ as) = length pre'" by simp_all
  then have "post = bs @ post'" by (metis append_eq_append_conv)
  with 1 show "holds_at buf pos (as @ bs)" by (auto simp: holds_at_def)
qed

lemma holds_at_single: "holds_at buf pos [b] \<longleftrightarrow> slice_get buf pos = Some b"
proof
  assume "slice_get buf pos = Some b"
  then have "buf = take pos buf @ [b] @ drop (Suc pos) buf" "pos < length buf"
    by (auto simp: slice_get_def id_take_nth_drop split: if_splits)
  then show "holds_at buf pos [b]"
    unfolding holds_at_def by (intro exI [of _ "take pos buf"] exI [of _ "drop (Suc pos) buf"]) simp
qed (auto simp: holds_at_def)

lemma holds_at_Cons [simp]:
  "holds_at buf pos (b # bs) \<longleftrightarrow> slice_get buf pos = Some b \<and> holds_at buf (Suc pos) bs"
  using holds_at_append [of buf pos "[b]" bs] by (simp add: holds_at_single)

lemma holds_at_mid: "holds_at (pre @ bs @ post) (length pre) bs"
  by (auto simp: holds_at_def)

lemma holds_at_end: "holds_at (pre @ bs) (length pre) bs"
  using holds_at_mid [of pre bs "[]"] by simp

lemma holds_at_extend: "holds_at buf pos bs \<Longrightarrow> holds_at (buf @ more) pos bs"
  by (force simp: holds_at_def)

locale codec =
  fixes wr :: "'a \<Rightarrow> bytes"
    and rd :: "'a reader"
    and valid :: "'a \<Rightarrow> bool"
  assumes rd_wr:
    "valid x \<Longrightarrow> rd (pre @ wr x @ post) (length pre) = Some (x, length pre + length (wr x))"
begin

lemma rd_wr_Nil: "valid x \<Longrightarrow> rd (wr x @ post) 0 = Some (x, length (wr x))"
  using rd_wr [of x "[]" post] by simp

lemma rd_wr_mid:
  "valid x \<Longrightarrow> p = length pre \<Longrightarrow> buf = pre @ wr x @ post \<Longrightarrow>
   rd buf p = Some (x, p + length (wr x))"
  using rd_wr by blast

lemma rd_at: "holds_at buf pos (wr x) \<Longrightarrow> valid x \<Longrightarrow> rd buf pos = Some (x, pos + length (wr x))"
  by (auto simp: holds_at_def rd_wr)

lemma read_seq_at:
  "holds_at buf pos (concat (map wr xs)) \<Longrightarrow> \<forall>x \<in> set xs. valid x \<Longrightarrow>
   read_seq rd (length xs) buf pos = Some (xs, pos + length (concat (map wr xs)))"
  by (induction xs arbitrary: pos) (auto simp: rd_at)

lemma prefix_free: "valid x \<Longrightarrow> valid y \<Longrightarrow> wr x @ p = wr y @ q \<Longrightarrow> x = y \<and> p = q"
proof -
  assume v: "valid x" "valid y" and eq: "wr x @ p = wr y @ q"
  have "Some (x, length (wr x)) = Some (y, length (wr y))"
    using rd_wr_Nil [OF v(1), of p] rd_wr_Nil [OF v(2), of q] eq by simp
  with eq show ?thesis by simp
qed

lemma wr_inj: "inj_on wr {x. valid x}"
  using prefix_free [of _ _ "[]" "[]"] by (auto intro!: inj_onI)

lemma read_seq_wr:
  "\<forall>x \<in> set xs. valid x \<Longrightarrow>
   read_seq rd (length xs) (pre @ concat (map wr xs) @ post) (length pre)
     = Some (xs, length pre + length (concat (map wr xs)))"
  by (rule read_seq_at) (auto simp: holds_at_mid)

end

subsection \<open>Binary search over a sorted slice\<close>

text \<open>
  The standard library's \<open>binary_search\<close>, as its contract has it: on a sorted slice, the
  index of a matching element if there is one. The loop halves \<open>[lo, hi)\<close>.
\<close>

function bsearch :: "'a::linorder list \<Rightarrow> 'a \<Rightarrow> nat \<Rightarrow> nat \<Rightarrow> nat option" where
  "bsearch xs key lo hi =
     (if lo < hi
      then let mid = lo + (hi - lo) div 2
           in if xs ! mid = key then Some mid
              else if xs ! mid < key then bsearch xs key (mid + 1) hi
              else bsearch xs key lo mid
      else None)"
  by pat_completeness auto
termination by (relation "measure (\<lambda>(xs, key, lo, hi). hi - lo)") auto

declare bsearch.simps [simp del]

lemma bsearch_sound: "hi \<le> length xs \<Longrightarrow> bsearch xs key lo hi = Some i \<Longrightarrow> i < length xs \<and> xs ! i = key"
proof (induction xs key lo hi rule: bsearch.induct)
  case (1 xs key lo hi)
  then show ?case
    using "1.prems"(2) unfolding bsearch.simps [of xs key lo hi]
    by (auto simp: Let_def split: if_splits)
qed

lemma bsearch_complete:
  "sorted xs \<Longrightarrow> hi \<le> length xs \<Longrightarrow> lo \<le> i \<Longrightarrow> i < hi \<Longrightarrow> xs ! i = key \<Longrightarrow>
   \<exists>j. bsearch xs key lo hi = Some j"
proof (induction xs key lo hi rule: bsearch.induct)
  case (1 xs key lo hi)
  let ?mid = "lo + (hi - lo) div 2"
  have lh: "lo < hi" and mid: "?mid < length xs" using "1.prems" by auto
  consider "xs ! ?mid = key" | "xs ! ?mid < key" | "key < xs ! ?mid" by fastforce
  then show ?case
  proof cases
    case 2
    then have "?mid < i"
      using "1.prems" mid sorted_nth_mono [of xs i ?mid] by (meson leD not_le_imp_less order_refl)
    then have "\<exists>j. bsearch xs key (?mid + 1) hi = Some j"
      using 2 lh "1.prems" by (intro "1.IH"(1)) auto
    with 2 lh show ?thesis by (simp add: bsearch.simps [of xs key lo hi] Let_def)
  next
    case 3
    then have "i < ?mid"
      using "1.prems" mid sorted_nth_mono [of xs ?mid i] by (meson leD not_le_imp_less order.strict_trans2)
    then have "\<exists>j. bsearch xs key lo ?mid = Some j"
      using 3 lh "1.prems" by (intro "1.IH"(2)) auto
    moreover have "xs ! ?mid \<noteq> key" "\<not> xs ! ?mid < key" using 3 by auto
    ultimately show ?thesis using lh by (simp add: bsearch.simps [of xs key lo hi] Let_def)
  qed (use lh in \<open>simp add: bsearch.simps [of xs key lo hi] Let_def\<close>)
qed

definition binary_search :: "'a::linorder list \<Rightarrow> 'a \<Rightarrow> nat option" where
  "binary_search xs key = bsearch xs key 0 (length xs)"

lemma binary_search_sound: "binary_search xs key = Some i \<Longrightarrow> i < length xs \<and> xs ! i = key"
  unfolding binary_search_def by (rule bsearch_sound) simp_all

lemma binary_search_complete:
  "sorted xs \<Longrightarrow> key \<in> set xs \<Longrightarrow> \<exists>j. binary_search xs key = Some j"
  unfolding binary_search_def by (auto simp: in_set_conv_nth intro: bsearch_complete)

lemma binary_search_distinct:
  "sorted xs \<Longrightarrow> distinct xs \<Longrightarrow> i < length xs \<Longrightarrow> binary_search xs (xs ! i) = Some i"
  using binary_search_complete [of xs "xs ! i"] binary_search_sound [of xs "xs ! i"]
  by (metis nth_eq_iff_index_eq nth_mem)

end
