(* ===== verification/Oops.thy ===== *)
theory Oops
  imports Winvm_Prelude
begin

text \<open>
  The tagged-word object references of \<open>src/src/oops/\<close>: the layout constants
  (\<open>layout.rs\<close>), the \<open>Oop\<close> word and its tag predicates (\<open>mod.rs\<close>), small
  integers with their overflow-checked and floored arithmetic (\<open>smi.rs\<close>), the
  header mark word (\<open>mark.rs\<close>) and the packed home reference of a closure
  (\<open>home_ref.rs\<close>). An \<open>Oop\<close>, a \<open>SmallInt\<close> and a \<open>Mark\<close> are one 64-bit word each.
  An \<open>i64\<close> value is an \<^typ>\<open>int\<close>.
\<close>

type_synonym oop = u64
type_synonym mark = u64

subsection \<open>Tag scheme and small-integer range (layout.rs)\<close>

definition TAG_BITS :: nat where "TAG_BITS = 2"
definition TAG_MASK :: u64 where "TAG_MASK = 3"
definition INT_TAG :: u64 where "INT_TAG = 0"
definition MEM_TAG :: u64 where "MEM_TAG = 1"
definition RESERVED_TAG :: u64 where "RESERVED_TAG = 2"
definition MARK_TAG :: u64 where "MARK_TAG = 3"
definition NLR_SENTINEL :: u64 where "NLR_SENTINEL = 6"
definition PRIM_FAIL_SENTINEL :: u64 where "PRIM_FAIL_SENTINEL = 10"
definition POISON :: u64 where "POISON = 0xF0F0F0F0F0F0F0F3"
definition SMI_SHIFT :: nat where "SMI_SHIFT = 2"
definition SMI_BITS :: nat where "SMI_BITS = 62"
definition SMI_MAX :: int where "SMI_MAX = 2 ^ 61 - 1"
definition SMI_MIN :: int where "SMI_MIN = - (2 ^ 61)"

lemmas tag_defs = TAG_BITS_def TAG_MASK_def INT_TAG_def MEM_TAG_def RESERVED_TAG_def MARK_TAG_def
lemmas smi_bounds = SMI_MAX_def SMI_MIN_def

subsection \<open>The tagged word (mod.rs)\<close>

text \<open>The checked build rejects the reserved and the mark tag.\<close>

definition oop_tag :: "oop \<Rightarrow> u64" where
  "oop_tag o1 = o1 AND TAG_MASK"

definition oop_from_raw :: "u64 \<Rightarrow> oop option" where
  "oop_from_raw w = do {
     rust_assert (w AND TAG_MASK \<noteq> RESERVED_TAG);
     rust_assert (w AND TAG_MASK \<noteq> MARK_TAG);
     Some w }"

definition is_smi :: "oop \<Rightarrow> bool" where
  "is_smi o1 \<longleftrightarrow> oop_tag o1 = INT_TAG"

definition is_mem :: "oop \<Rightarrow> bool" where
  "is_mem o1 \<longleftrightarrow> oop_tag o1 = MEM_TAG"

definition mem_addr :: "oop \<Rightarrow> u64 option" where
  "mem_addr o1 = do { rust_assert (is_mem o1); Some (o1 - MEM_TAG) }"

lemmas oop_tag_defs = oop_tag_def is_smi_def is_mem_def tag_defs

lemma oop_tag_take_bit: "oop_tag w = take_bit 2 w"
  by (simp add: oop_tag_def TAG_MASK_def take_bit_eq_mask mask_eq_exp_minus_1)

lemma oop_tag_bits: "oop_tag w = of_bool (bit w 0) + 2 * of_bool (bit w 1)"
  by (simp add: oop_tag_take_bit numeral_2_eq_2 take_bit_Suc bit_0 bit_Suc mod_2_eq_odd)

lemma is_smi_bits: "is_smi w \<longleftrightarrow> \<not> bit w 0 \<and> \<not> bit w 1"
  by (cases "bit w 0"; cases "bit w 1") (simp_all add: is_smi_def oop_tag_bits INT_TAG_def)

lemma is_mem_bits: "is_mem w \<longleftrightarrow> bit w 0 \<and> \<not> bit w 1"
  by (cases "bit w 0"; cases "bit w 1") (simp_all add: is_mem_def oop_tag_bits MEM_TAG_def)

subsection \<open>Small integers (smi.rs)\<close>

definition smi_try_new :: "int \<Rightarrow> oop option" where
  "smi_try_new v =
     (if \<not> (SMI_MIN \<le> v \<and> v \<le> SMI_MAX) then None
      else Some (push_bit SMI_SHIFT (word_of_int v)))"

definition smi_new :: "int \<Rightarrow> oop option" where
  "smi_new v = (case smi_try_new v of None \<Rightarrow> None | Some s \<Rightarrow> Some s)"

definition smi_value :: "oop \<Rightarrow> int" where
  "smi_value s = sint (signed_drop_bit SMI_SHIFT s)"

definition smi_try_from :: "oop \<Rightarrow> oop option" where
  "smi_try_from o1 = (if is_smi o1 then Some o1 else None)"

definition checked_i64 :: "int \<Rightarrow> int option" where
  "checked_i64 v = (if in_i64 v then Some v else None)"

definition smi_checked_add :: "oop \<Rightarrow> oop \<Rightarrow> oop option" where
  "smi_checked_add a b = checked_i64 (smi_value a + smi_value b) \<bind> smi_try_new"

definition smi_checked_sub :: "oop \<Rightarrow> oop \<Rightarrow> oop option" where
  "smi_checked_sub a b = checked_i64 (smi_value a - smi_value b) \<bind> smi_try_new"

definition smi_checked_mul :: "oop \<Rightarrow> oop \<Rightarrow> oop option" where
  "smi_checked_mul a b = checked_i64 (smi_value a * smi_value b) \<bind> smi_try_new"

text \<open>Rust's \<open>/\<close> and \<open>%\<close> truncate: \<open>sdiv\<close> and \<open>smod\<close> of \<open>Signed_Division\<close>.\<close>

definition floor_div :: "int \<Rightarrow> int \<Rightarrow> int" where
  "floor_div a b =
     (let q = a sdiv b; r = a smod b
      in if r \<noteq> 0 \<and> (r < 0) \<noteq> (b < 0) then q - 1 else q)"

definition floor_mod :: "int \<Rightarrow> int \<Rightarrow> int" where
  "floor_mod a b =
     (let r = a smod b in if r \<noteq> 0 \<and> (r < 0) \<noteq> (b < 0) then r + b else r)"

definition smi_checked_div :: "oop \<Rightarrow> oop \<Rightarrow> oop option" where
  "smi_checked_div x y =
     (let a = smi_value x; b = smi_value y
      in if b = 0 then None else smi_try_new (floor_div a b))"

definition smi_checked_rem :: "oop \<Rightarrow> oop \<Rightarrow> oop option" where
  "smi_checked_rem x y =
     (let a = smi_value x; b = smi_value y
      in if b = 0 then None else smi_try_new (floor_mod a b))"

text \<open>The shift runs on an \<open>i128\<close>, wide enough for any \<open>i64\<close> shifted by less than 64.\<close>

definition smi_checked_shl :: "oop \<Rightarrow> nat \<Rightarrow> oop option" where
  "smi_checked_shl x by1 =
     (if by1 \<ge> 64 then None
      else let shifted = push_bit by1 (smi_value x)
           in if shifted > SMI_MAX \<or> shifted < SMI_MIN then None else smi_try_new shifted)"

subsection \<open>The header mark word (mark.rs)\<close>

definition MARK_SENTINEL_SHIFT :: nat where "MARK_SENTINEL_SHIFT = 2"
definition MARK_NEAR_DEATH_SHIFT :: nat where "MARK_NEAR_DEATH_SHIFT = 3"
definition MARK_TAGGED_CONTENTS_SHIFT :: nat where "MARK_TAGGED_CONTENTS_SHIFT = 4"
definition MARK_AGE_SHIFT :: nat where "MARK_AGE_SHIFT = 5"
definition MARK_AGE_BITS :: nat where "MARK_AGE_BITS = 7"
definition MARK_AGE_MAX :: u8 where "MARK_AGE_MAX = 127"
definition MARK_HASH_SHIFT :: nat where "MARK_HASH_SHIFT = 12"
definition MARK_HASH_BITS :: nat where "MARK_HASH_BITS = 32"
definition MARK_GC_MARK_SHIFT :: nat where "MARK_GC_MARK_SHIFT = 44"

definition MARK_SENTINEL_MASK :: u64 where
  "MARK_SENTINEL_MASK = push_bit MARK_SENTINEL_SHIFT 1"
definition MARK_NEAR_DEATH_MASK :: u64 where
  "MARK_NEAR_DEATH_MASK = push_bit MARK_NEAR_DEATH_SHIFT 1"
definition MARK_TAGGED_CONTENTS_MASK :: u64 where
  "MARK_TAGGED_CONTENTS_MASK = push_bit MARK_TAGGED_CONTENTS_SHIFT 1"
definition MARK_AGE_MASK :: u64 where
  "MARK_AGE_MASK = push_bit MARK_AGE_SHIFT (push_bit MARK_AGE_BITS 1 - 1)"
definition MARK_HASH_MASK :: u64 where
  "MARK_HASH_MASK = push_bit MARK_HASH_SHIFT (push_bit MARK_HASH_BITS 1 - 1)"
definition MARK_GC_MARK_MASK :: u64 where
  "MARK_GC_MARK_MASK = push_bit MARK_GC_MARK_SHIFT 1"
definition MARK_PRISTINE :: u64 where
  "MARK_PRISTINE = MARK_TAG OR MARK_SENTINEL_MASK"

lemmas mark_shift_defs =
  MARK_SENTINEL_SHIFT_def MARK_NEAR_DEATH_SHIFT_def MARK_TAGGED_CONTENTS_SHIFT_def
  MARK_AGE_SHIFT_def MARK_AGE_BITS_def MARK_HASH_SHIFT_def MARK_HASH_BITS_def
  MARK_GC_MARK_SHIFT_def
lemmas mark_mask_defs =
  MARK_SENTINEL_MASK_def MARK_NEAR_DEATH_MASK_def MARK_TAGGED_CONTENTS_MASK_def
  MARK_AGE_MASK_def MARK_HASH_MASK_def MARK_GC_MARK_MASK_def mark_shift_defs

definition mark_from_word :: "u64 \<Rightarrow> mark option" where
  "mark_from_word w = do {
     rust_assert (w AND TAG_MASK = MARK_TAG);
     rust_assert (w AND MARK_SENTINEL_MASK \<noteq> 0);
     Some w }"

definition mark_age :: "mark \<Rightarrow> u8" where
  "mark_age m = ucast (drop_bit MARK_AGE_SHIFT (m AND MARK_AGE_MASK))"

text \<open>\<open>with_age\<close>'s debug assertion is the field's range, \<open>age_ok\<close> below.\<close>

definition mark_with_age :: "mark \<Rightarrow> u8 \<Rightarrow> mark" where
  "mark_with_age m age = (m AND NOT MARK_AGE_MASK) OR push_bit MARK_AGE_SHIFT (ucast age)"

definition age_ok :: "u8 \<Rightarrow> bool" where
  "age_ok age \<longleftrightarrow> age \<le> MARK_AGE_MAX"

definition mark_hash :: "mark \<Rightarrow> u32" where
  "mark_hash m = ucast (drop_bit MARK_HASH_SHIFT (m AND MARK_HASH_MASK))"

definition mark_with_hash :: "mark \<Rightarrow> u32 \<Rightarrow> mark" where
  "mark_with_hash m h = (m AND NOT MARK_HASH_MASK) OR push_bit MARK_HASH_SHIFT (ucast h)"

definition mark_near_death :: "mark \<Rightarrow> bool" where
  "mark_near_death m \<longleftrightarrow> m AND MARK_NEAR_DEATH_MASK \<noteq> 0"

definition mark_with_near_death :: "mark \<Rightarrow> bool \<Rightarrow> mark" where
  "mark_with_near_death m v =
     (if v then m OR MARK_NEAR_DEATH_MASK else m AND NOT MARK_NEAR_DEATH_MASK)"

definition mark_tagged_contents :: "mark \<Rightarrow> bool" where
  "mark_tagged_contents m \<longleftrightarrow> m AND MARK_TAGGED_CONTENTS_MASK \<noteq> 0"

definition mark_with_tagged_contents :: "mark \<Rightarrow> bool \<Rightarrow> mark" where
  "mark_with_tagged_contents m v =
     (if v then m OR MARK_TAGGED_CONTENTS_MASK else m AND NOT MARK_TAGGED_CONTENTS_MASK)"

definition mark_gc_mark :: "mark \<Rightarrow> bool" where
  "mark_gc_mark m \<longleftrightarrow> m AND MARK_GC_MARK_MASK \<noteq> 0"

definition mark_with_gc_mark :: "mark \<Rightarrow> bool \<Rightarrow> mark" where
  "mark_with_gc_mark m v =
     (if v then m OR MARK_GC_MARK_MASK else m AND NOT MARK_GC_MARK_MASK)"

definition mark_is_pristine :: "mark \<Rightarrow> bool" where
  "mark_is_pristine m \<longleftrightarrow> m = MARK_PRISTINE"

definition word_is_forwarded :: "u64 \<Rightarrow> bool" where
  "word_is_forwarded w \<longleftrightarrow> w AND TAG_MASK = MEM_TAG"

definition forwardee :: "u64 \<Rightarrow> oop option" where
  "forwardee w = do { rust_assert (word_is_forwarded w); Some w }"

subsection \<open>Home references of closures (home_ref.rs)\<close>

definition HOME_REF_FP_BITS :: nat where "HOME_REF_FP_BITS = 22"
definition HOME_REF_SERIAL_BITS :: nat where "HOME_REF_SERIAL_BITS = 32"
definition HOME_REF_PROC_BITS :: nat where "HOME_REF_PROC_BITS = 8"
definition HOME_REF_FP_SHIFT :: nat where "HOME_REF_FP_SHIFT = 0"
definition HOME_REF_SERIAL_SHIFT :: nat where
  "HOME_REF_SERIAL_SHIFT = HOME_REF_FP_SHIFT + HOME_REF_FP_BITS"
definition HOME_REF_PROC_SHIFT :: nat where
  "HOME_REF_PROC_SHIFT = HOME_REF_SERIAL_SHIFT + HOME_REF_SERIAL_BITS"
definition HOME_REF_FP_MAX :: u64 where "HOME_REF_FP_MAX = push_bit HOME_REF_FP_BITS 1 - 1"
definition HOME_REF_FP_MASK :: u64 where
  "HOME_REF_FP_MASK = push_bit HOME_REF_FP_SHIFT (push_bit HOME_REF_FP_BITS 1 - 1)"
definition HOME_REF_SERIAL_MASK :: u64 where
  "HOME_REF_SERIAL_MASK = push_bit HOME_REF_SERIAL_SHIFT (push_bit HOME_REF_SERIAL_BITS 1 - 1)"
definition HOME_REF_PROC_MASK :: u64 where
  "HOME_REF_PROC_MASK = push_bit HOME_REF_PROC_SHIFT (push_bit HOME_REF_PROC_BITS 1 - 1)"
definition HOME_REF_ALL_MASK :: u64 where
  "HOME_REF_ALL_MASK = HOME_REF_FP_MASK OR HOME_REF_SERIAL_MASK OR HOME_REF_PROC_MASK"

lemmas home_ref_shift_defs =
  HOME_REF_FP_BITS_def HOME_REF_SERIAL_BITS_def HOME_REF_PROC_BITS_def HOME_REF_FP_SHIFT_def
  HOME_REF_SERIAL_SHIFT_def HOME_REF_PROC_SHIFT_def
lemmas home_ref_mask_defs =
  HOME_REF_FP_MAX_def HOME_REF_FP_MASK_def HOME_REF_SERIAL_MASK_def HOME_REF_PROC_MASK_def
  HOME_REF_ALL_MASK_def home_ref_shift_defs

text \<open>\<open>fp\<close> is a \<open>usize\<close>, kept here at its 64-bit width.\<close>

record home_ref =
  hr_proc :: u8
  hr_serial :: u32
  hr_fp :: u64

definition home_ref_raw :: "home_ref \<Rightarrow> u64" where
  "home_ref_raw h =
     push_bit HOME_REF_PROC_SHIFT (ucast (hr_proc h)) OR
     push_bit HOME_REF_SERIAL_SHIFT (ucast (hr_serial h)) OR
     push_bit HOME_REF_FP_SHIFT (hr_fp h)"

definition pack_home_ref :: "home_ref \<Rightarrow> oop option" where
  "pack_home_ref h = do {
     rust_assert (hr_fp h \<le> HOME_REF_FP_MAX);
     smi_new (sint (signed_drop_bit 2 (push_bit 2 (home_ref_raw h)))) }"

definition unpack_home_ref :: "oop \<Rightarrow> home_ref" where
  "unpack_home_ref s =
     (let raw = word_of_int (smi_value s) AND HOME_REF_ALL_MASK
      in \<lparr>hr_proc = ucast (drop_bit HOME_REF_PROC_SHIFT raw),
          hr_serial = ucast (drop_bit HOME_REF_SERIAL_SHIFT raw),
          hr_fp = drop_bit HOME_REF_FP_SHIFT raw AND HOME_REF_FP_MAX\<rparr>)"

definition home_dead_sentinel :: "oop option" where
  "home_dead_sentinel = pack_home_ref \<lparr>hr_proc = 1, hr_serial = 0, hr_fp = 0\<rparr>"

subsection \<open>Small integers: tagging and arithmetic\<close>

lemma smi_value_tag:
  assumes "SMI_MIN \<le> v" and "v \<le> SMI_MAX"
  shows "smi_value (push_bit SMI_SHIFT (word_of_int v)) = v"
proof -
  have "push_bit 2 (word_of_int v) = (word_of_int (4 * v) :: u64)"
    by (simp add: push_bit_eq_mult)
  moreover have "sint (word_of_int (4 * v) :: u64) = 4 * v"
    using assms by (subst sint_sbintrunc') (auto simp: smi_bounds intro!: signed_take_bit_int_eq_self)
  ultimately show ?thesis
    by (simp add: smi_value_def SMI_SHIFT_def sint_signed_drop_bit_eq drop_bit_eq_div)
qed

lemma smi_tag_is_smi: "is_smi (push_bit SMI_SHIFT w)"
  by (simp add: is_smi_bits SMI_SHIFT_def bit_simps)

lemma smi_value_range: "SMI_MIN \<le> smi_value s \<and> smi_value s \<le> SMI_MAX"
proof -
  have "- 9223372036854775808 \<le> sint s" "sint s < 9223372036854775808"
    using sint_ge [of s] sint_lt [of s] by simp_all
  then have "- 2305843009213693952 \<le> sint s div 4" "sint s div 4 \<le> 2305843009213693951"
    by auto
  then show ?thesis
    by (simp add: smi_value_def SMI_SHIFT_def sint_signed_drop_bit_eq drop_bit_eq_div smi_bounds)
qed

lemma smi_retag:
  assumes "is_smi s"
  shows "push_bit SMI_SHIFT (word_of_int (smi_value s)) = s"
proof (rule bit_word_eqI)
  fix n assume n: "n < LENGTH(64)"
  have "\<not> bit s 0" "\<not> bit s (Suc 0)" using assms by (auto simp: is_smi_bits)
  then show "bit (push_bit SMI_SHIFT (word_of_int (smi_value s)) :: u64) n = bit s n"
    using n by (cases n; cases "n - 1") (auto simp: smi_value_def SMI_SHIFT_def bit_simps)
qed

lemma smi_try_new_value: "is_smi s \<Longrightarrow> smi_try_new (smi_value s) = Some s"
  using smi_value_range [of s] by (simp add: smi_try_new_def smi_retag)

lemma smi_try_new_SomeD: "smi_try_new v = Some s \<Longrightarrow> smi_value s = v \<and> is_smi s"
  by (auto simp: smi_try_new_def smi_value_tag smi_tag_is_smi split: if_splits)

lemma smi_try_new_eq_Some:
  "smi_try_new v = Some s \<longleftrightarrow> is_smi s \<and> smi_value s = v"
  using smi_try_new_SomeD smi_try_new_value by auto

lemma smi_try_new_None: "smi_try_new v = None \<longleftrightarrow> \<not> (SMI_MIN \<le> v \<and> v \<le> SMI_MAX)"
  by (simp add: smi_try_new_def)

lemma smi_new_eq: "smi_new v = smi_try_new v"
  by (simp add: smi_new_def option.case_eq_if)

lemma checked_i64_try_new: "checked_i64 v \<bind> smi_try_new = smi_try_new v"
  by (auto simp: checked_i64_def i64_bounds smi_try_new_def smi_bounds)

lemmas smi_arith_defs =
  smi_checked_add_def smi_checked_sub_def smi_checked_mul_def checked_i64_try_new

lemma floor_adjust_iff:
  fixes a b :: int
  assumes "b \<noteq> 0"
  shows "(a smod b \<noteq> 0 \<and> (a smod b < 0) \<noteq> (b < 0)) \<longleftrightarrow> (sgn a \<noteq> sgn b \<and> \<not> b dvd a)"
proof (cases "b dvd a")
  case True
  then show ?thesis by (simp add: smod_int_alt_def)
next
  case False
  then have "0 < \<bar>a\<bar> mod \<bar>b\<bar>" and "a \<noteq> 0"
    using assms by (auto simp: mod_eq_0_iff_dvd order_less_le)
  then show ?thesis
    using False assms by (auto simp: smod_int_alt_def sgn_if mult_less_0_iff)
qed

lemma floor_div_eq_div: "b \<noteq> 0 \<Longrightarrow> floor_div a b = a div b"
  using floor_adjust_iff [of b a]
  by (auto simp: floor_div_def Let_def divide_int_eq_signed_divide_int)

lemma floor_mod_eq_mod: "b \<noteq> 0 \<Longrightarrow> floor_mod a b = a mod b"
  using floor_adjust_iff [of b a]
  by (auto simp: floor_mod_def Let_def modulo_int_eq_signed_modulo_int)

subsection \<open>The mark word's fields\<close>

lemma mark_masks_fields:
  "MARK_AGE_MASK = push_bit 5 (mask 7)" "MARK_HASH_MASK = push_bit 12 (mask 32)"
  by (simp_all add: mark_mask_defs mask_eq_exp_minus_1)

lemma sentinel_bit: "m AND MARK_SENTINEL_MASK \<noteq> 0 \<longleftrightarrow> bit m 2"
  using and_single_bit [of m 2] by (simp add: mark_mask_defs)

lemma age_ok_bits: "age_ok a \<longleftrightarrow> \<not> bit a 7"
proof -
  have "unat a < 256" using unsigned_less [of a] by simp
  moreover have "bit a 7 \<longleftrightarrow> odd (unat a div 128)"
    using bit_iff_odd [of "unat a" 7] by (simp add: bit_unsigned_iff)
  moreover have "age_ok a \<longleftrightarrow> unat a \<le> 127"
    by (simp add: age_ok_def MARK_AGE_MAX_def word_le_nat_alt)
  moreover have "unat a div 128 = (if unat a < 128 then 0 else 1)" if "unat a < 256"
    using that by (auto intro!: div_nat_eqI)
  ultimately show ?thesis by (auto split: if_splits)
qed

lemma bit_mark_fields [field_defs]:
  "bit (mark_age m) i \<longleftrightarrow> i < 7 \<and> bit m (5 + i)"
  "bit (mark_hash m) i \<longleftrightarrow> i < 32 \<and> bit m (12 + i)"
  "mark_near_death m \<longleftrightarrow> bit m 3"
  "mark_tagged_contents m \<longleftrightarrow> bit m 4"
  "mark_gc_mark m \<longleftrightarrow> bit m 44"
  by (auto simp: mark_age_def mark_hash_def mark_masks_fields mark_near_death_def
      mark_tagged_contents_def mark_gc_mark_def mark_mask_defs and_single_bit bit_simps
      simp del: push_bit_of_1)

lemma bit_mark_puts [field_defs]:
  "age_ok a \<Longrightarrow> bit (mark_with_age m a) i \<longleftrightarrow>
     (if 5 \<le> i \<and> i < 12 then bit a (i - 5) else bit m i)"
  "bit (mark_with_hash m h) i \<longleftrightarrow> (if 12 \<le> i \<and> i < 44 then bit h (i - 12) else bit m i)"
  "bit (mark_with_near_death m v) i \<longleftrightarrow> (if i = 3 then v else bit m i)"
  "bit (mark_with_tagged_contents m v) i \<longleftrightarrow> (if i = 4 then v else bit m i)"
  "bit (mark_with_gc_mark m v) i \<longleftrightarrow> (if i = 44 then v else bit m i)"
proof -
  assume "age_ok a"
  then have "i - 5 < 7" if "bit a (i - 5)"
    using that bit_imp_le_length [of a "i - 5"] by (cases "i - 5 = 7") (auto simp: age_ok_bits)
  then show "bit (mark_with_age m a) i \<longleftrightarrow>
     (if 5 \<le> i \<and> i < 12 then bit a (i - 5) else bit m i)"
    using bit_imp_le_length [of m i] \<open>bit a (i - 5) \<Longrightarrow> i - 5 < 7\<close>
    by (auto simp: mark_with_age_def mark_masks_fields mark_shift_defs bit_simps)
qed (auto simp: mark_with_hash_def mark_masks_fields mark_with_near_death_def
    mark_with_tagged_contents_def mark_with_gc_mark_def mark_mask_defs bit_simps
    dest: bit_imp_le_length simp del: push_bit_of_1)

lemma mark_age_ok: "age_ok (mark_age m)"
  by (simp add: age_ok_bits field_defs)

lemma age_ok_bitD: "age_ok a \<Longrightarrow> bit a i \<Longrightarrow> i < 7"
  using bit_imp_le_length [of a i] by (cases "i = 7") (auto simp: age_ok_bits)

interpretation age_f: word_field mark_age "\<lambda>a m. mark_with_age m a" age_ok
  by unfold_locales
    (auto intro!: bit_word_eqI simp: field_defs mark_age_ok split: if_splits
      dest: age_ok_bitD bit_imp_le_length)

interpretation hash_f: word_field mark_hash "\<lambda>h m. mark_with_hash m h" "\<lambda>_. True"
  by unfold_locales (auto intro!: bit_word_eqI simp: field_defs split: if_splits dest: bit_imp_le_length)

interpretation near_death_f:
  word_field mark_near_death "\<lambda>v m. mark_with_near_death m v" "\<lambda>_. True"
  by unfold_locales (auto intro!: bit_word_eqI simp: field_defs split: if_splits)

interpretation tagged_f:
  word_field mark_tagged_contents "\<lambda>v m. mark_with_tagged_contents m v" "\<lambda>_. True"
  by unfold_locales (auto intro!: bit_word_eqI simp: field_defs split: if_splits)

interpretation gc_f: word_field mark_gc_mark "\<lambda>v m. mark_with_gc_mark m v" "\<lambda>_. True"
  by unfold_locales (auto intro!: bit_word_eqI simp: field_defs split: if_splits)

interpretation age_hash: word_field_pair
  mark_age "\<lambda>a m. mark_with_age m a" age_ok mark_hash "\<lambda>h m. mark_with_hash m h" "\<lambda>_. True"
  by unfold_locales (auto intro!: bit_word_eqI simp: field_defs split: if_splits dest: age_ok_bitD bit_imp_le_length)

interpretation gc_age: word_field_pair
  mark_gc_mark "\<lambda>v m. mark_with_gc_mark m v" "\<lambda>_. True" mark_age "\<lambda>a m. mark_with_age m a" age_ok
  by unfold_locales (auto intro!: bit_word_eqI simp: field_defs split: if_splits dest: age_ok_bitD bit_imp_le_length)

interpretation gc_hash: word_field_pair
  mark_gc_mark "\<lambda>v m. mark_with_gc_mark m v" "\<lambda>_. True"
  mark_hash "\<lambda>h m. mark_with_hash m h" "\<lambda>_. True"
  by unfold_locales (auto intro!: bit_word_eqI simp: field_defs split: if_splits dest: bit_imp_le_length)

subsection \<open>Home references\<close>

lemma home_ref_masks:
  "HOME_REF_FP_MAX = mask 22" "HOME_REF_ALL_MASK = mask 62"
  by (simp_all add: home_ref_mask_defs mask_eq_exp_minus_1)

lemma fp_ok_bitD: "fp \<le> HOME_REF_FP_MAX \<Longrightarrow> bit fp i \<Longrightarrow> i < 22"
proof -
  assume "fp \<le> HOME_REF_FP_MAX" and b: "bit fp i"
  then have "fp < 2 ^ 22" by (simp add: home_ref_mask_defs word_le_nat_alt word_less_nat_alt)
  then have "take_bit 22 fp = fp" by (rule take_bit_word_less) simp
  with b show ?thesis by (rule bit_take_bitD [rotated])
qed

lemma bit_home_ref_raw:
  assumes "hr_fp h \<le> HOME_REF_FP_MAX"
  shows "bit (home_ref_raw h) i \<longleftrightarrow>
     (if i < 22 then bit (hr_fp h) i else if i < 54 then bit (hr_serial h) (i - 22)
      else i < 62 \<and> bit (hr_proc h) (i - 54))"
  using fp_ok_bitD [OF assms, of i] bit_imp_le_length [of "hr_serial h" "i - 22"]
    bit_imp_le_length [of "hr_proc h" "i - 54"]
  by (auto simp: home_ref_raw_def home_ref_shift_defs bit_simps)

lemma pack_home_ref_eq:
  assumes "hr_fp h \<le> HOME_REF_FP_MAX"
  shows "pack_home_ref h = Some (push_bit 2 (home_ref_raw h))"
proof -
  have "sint (signed_drop_bit 2 (push_bit 2 (home_ref_raw h))) = smi_value (push_bit 2 (home_ref_raw h))"
    by (simp add: smi_value_def SMI_SHIFT_def)
  moreover have "is_smi (push_bit 2 (home_ref_raw h))"
    using smi_tag_is_smi [of "home_ref_raw h"] by (simp add: SMI_SHIFT_def)
  ultimately show ?thesis
    using assms by (simp add: pack_home_ref_def smi_new_eq smi_try_new_value)
qed

lemma home_ref_raw_unshift:
  assumes "hr_fp h \<le> HOME_REF_FP_MAX"
  shows "word_of_int (smi_value (push_bit 2 (home_ref_raw h))) AND HOME_REF_ALL_MASK = home_ref_raw h"
  by (rule bit_word_eqI)
    (auto simp: smi_value_def SMI_SHIFT_def home_ref_masks bit_home_ref_raw [OF assms] bit_simps
      min_def split: if_splits)

lemma unpack_pack_home_ref:
  assumes "hr_fp h \<le> HOME_REF_FP_MAX"
  shows "unpack_home_ref (push_bit 2 (home_ref_raw h)) = h"
proof -
  have "ucast (drop_bit 54 (home_ref_raw h)) = hr_proc h"
    by (rule bit_word_eqI) (auto simp: bit_simps bit_home_ref_raw [OF assms])
  moreover have "ucast (drop_bit 22 (home_ref_raw h)) = hr_serial h"
    by (rule bit_word_eqI) (auto simp: bit_simps bit_home_ref_raw [OF assms])
  moreover have "home_ref_raw h AND mask 22 = hr_fp h"
    by (rule bit_word_eqI)
      (use fp_ok_bitD [OF assms] in \<open>auto simp: bit_simps bit_home_ref_raw [OF assms]\<close>)
  ultimately show ?thesis
    unfolding unpack_home_ref_def Let_def home_ref_raw_unshift [OF assms]
    by (simp add: home_ref_shift_defs home_ref_masks)
qed

subsection \<open>Properties\<close>

text \<open>
  C17. Small-integer tagging is exact: \<open>try_new\<close> succeeds on a value exactly when the value is
  in the 62-bit range, and the word it makes is the one small-integer word whose \<open>value\<close> is
  that number (sign included), so tagging and untagging are mutually inverse.
\<close>
theorem smi_tagging_exact:
  "((smi_try_new v = Some s) = (is_smi s \<and> smi_value s = v)) \<and>
   ((smi_try_new v = None) = (v < SMI_MIN \<or> SMI_MAX < v))"
  by (auto simp: smi_try_new_eq_Some smi_try_new_None)

text \<open>The mathematical result of an operation, when a small integer can hold it.\<close>

definition smi_fits :: "int \<Rightarrow> int option" where
  "smi_fits r = (if SMI_MIN \<le> r \<and> r \<le> SMI_MAX then Some r else None)"

lemma value_try_new: "map_option smi_value (smi_try_new r) = smi_fits r"
  by (simp add: smi_try_new_def smi_fits_def smi_value_tag)

lemma value_checked_shl:
  "map_option smi_value (smi_checked_shl a n) = (if n < 64 then smi_fits (smi_value a * 2 ^ n) else None)"
  unfolding smi_checked_shl_def Let_def push_bit_eq_mult [symmetric]
  by (auto simp: value_try_new) (auto simp: smi_fits_def)

text \<open>
  C18. Small-integer arithmetic is the mathematical one: addition, subtraction and
  multiplication return the exact result when it fits the 62-bit range and fail otherwise,
  \<open>//\<close> and \<open>\\\<close> are floored division and modulo (the remainder has the divisor's sign) that
  fail exactly on a zero divisor or on a quotient out of range, and a left shift is
  multiplication by a power of two.
\<close>
theorem smi_arithmetic_exact:
  "map_option smi_value (smi_checked_add a b) = smi_fits (smi_value a + smi_value b) \<and>
   map_option smi_value (smi_checked_sub a b) = smi_fits (smi_value a - smi_value b) \<and>
   map_option smi_value (smi_checked_mul a b) = smi_fits (smi_value a * smi_value b) \<and>
   map_option smi_value (smi_checked_div a b) =
     (if smi_value b = 0 then None else smi_fits (smi_value a div smi_value b)) \<and>
   map_option smi_value (smi_checked_rem a b) =
     (if smi_value b = 0 then None else Some (smi_value a mod smi_value b)) \<and>
   map_option smi_value (smi_checked_shl a n) =
     (if n < 64 then smi_fits (smi_value a * 2 ^ n) else None)"
proof -
  have "smi_fits (smi_value a mod smi_value b) = Some (smi_value a mod smi_value b)"
    if "smi_value b \<noteq> 0"
  proof (cases "0 < smi_value b")
    case True
    then have "0 \<le> smi_value a mod smi_value b" "smi_value a mod smi_value b < smi_value b" by simp_all
    with smi_value_range [of b] show ?thesis unfolding smi_fits_def smi_bounds by simp
  next
    case False
    with that have "smi_value a mod smi_value b \<le> 0" "smi_value b < smi_value a mod smi_value b" by simp_all
    with smi_value_range [of b] show ?thesis unfolding smi_fits_def smi_bounds by simp
  qed
  then show ?thesis
    by (simp add: smi_arith_defs smi_checked_div_def smi_checked_rem_def Let_def value_try_new
        floor_div_eq_div floor_mod_eq_mod value_checked_shl)
qed

text \<open>All five fields written in a row.\<close>

definition mark_write_all :: "mark \<Rightarrow> u8 \<Rightarrow> u32 \<Rightarrow> bool \<Rightarrow> bool \<Rightarrow> bool \<Rightarrow> mark" where
  "mark_write_all m a h nd tc g =
     mark_with_gc_mark (mark_with_tagged_contents (mark_with_near_death
       (mark_with_hash (mark_with_age m a) h) nd) tc) g"

text \<open>
  A mark word holds its fields independently: whatever header word the fields are written
  into, age, identity hash, the near-death, tagged-contents and full-GC flags each read back
  the value last written to them, writing them leaves the tag and the sentinel bit alone, and
  clearing the full-GC mark of an unmarked header restores the exact word.
\<close>
theorem mark_fields_independent:
  assumes "age_ok a"
  shows "let m' = mark_write_all m a h nd tc g in
    mark_age m' = a \<and> mark_hash m' = h \<and> mark_near_death m' = nd \<and>
    mark_tagged_contents m' = tc \<and> mark_gc_mark m' = g \<and>
    oop_tag m' = oop_tag m \<and> ((m' AND MARK_SENTINEL_MASK \<noteq> 0) = (m AND MARK_SENTINEL_MASK \<noteq> 0)) \<and>
    mark_with_gc_mark (mark_with_gc_mark m g) (mark_gc_mark m) = m"
  unfolding Let_def
proof (intro conjI)
  show "mark_age (mark_write_all m a h nd tc g) = a"
    using assms(1)
    by (auto intro!: bit_word_eqI simp: mark_write_all_def field_defs)
      (meson age_ok_bitD leD)+
  show "mark_hash (mark_write_all m a h nd tc g) = h"
    using assms(1) by (auto intro!: bit_word_eqI simp: mark_write_all_def field_defs)
  show "(mark_write_all m a h nd tc g AND MARK_SENTINEL_MASK \<noteq> 0) = (m AND MARK_SENTINEL_MASK \<noteq> 0)"
    using assms(1) by (simp add: mark_write_all_def sentinel_bit field_defs)
  show "mark_with_gc_mark (mark_with_gc_mark m g) (mark_gc_mark m) = m"
    by (rule gc_f.restore) simp
qed (use assms(1) in \<open>auto simp: mark_write_all_def field_defs oop_tag_bits\<close>)

theorem mark_fields_independent_witness:
  "age_ok 127 \<and> mark_age (mark_write_all MARK_PRISTINE 127 0xDEADBEEF True False True) = 127"
proof -
  have h: "age_ok 127" by (simp add: age_ok_def MARK_AGE_MAX_def)
  show ?thesis using h mark_fields_independent
      [OF h, where m = MARK_PRISTINE and h = "0xDEADBEEF" and nd = True and tc = False and g = True]
    by (simp add: Let_def)
qed

text \<open>
  C19. A home reference survives packing: every process, serial and 22-bit frame index packs into
  a small integer (a negative one when the process number's top bit is set) without panicking,
  and unpacking returns the same three fields.
\<close>
theorem home_ref_roundtrip:
  assumes "hr_fp h \<le> HOME_REF_FP_MAX"
  shows "\<exists>s. pack_home_ref h = Some s \<and> is_smi s \<and> unpack_home_ref s = h"
  using pack_home_ref_eq [OF assms] unpack_pack_home_ref [OF assms]
    smi_tag_is_smi [of "home_ref_raw h"] by (simp add: SMI_SHIFT_def)

theorem home_ref_roundtrip_witness:
  "\<exists>s. pack_home_ref \<lparr>hr_proc = 255, hr_serial = 0xFFFFFFFF, hr_fp = 0x3FFFFF\<rparr> = Some s \<and>
     is_smi s \<and> unpack_home_ref s = \<lparr>hr_proc = 255, hr_serial = 0xFFFFFFFF, hr_fp = 0x3FFFFF\<rparr>"
proof -
  have "hr_fp \<lparr>hr_proc = 255, hr_serial = 0xFFFFFFFF, hr_fp = 0x3FFFFF\<rparr> \<le> HOME_REF_FP_MAX"
    by (simp add: home_ref_mask_defs)
  then show ?thesis by (rule home_ref_roundtrip)
qed

end
