(* ===== verification/Leb128.thy ===== *)
theory Leb128
  imports Winvm_Prelude
begin

text \<open>
  The variable-length integers of \<open>src/src/compiler/scopes.rs\<close>: unsigned and signed LEB128,
  seven payload bits per byte, high bit set on every byte but the last. A \<open>u64\<close> or \<open>i64\<close>
  is a 64-bit word (an \<open>i64\<close> read through \<^const>\<open>sint\<close>, its \<open>>>\<close> the arithmetic shift). The readers return
  \<^const>\<open>None\<close> where the source panics: a read past the end of the buffer, or the assertion
  against an overlong encoding. Both pairs are instances of the \<open>codec\<close> interface.
\<close>

function write_uleb :: "u64 \<Rightarrow> bytes" where
  "write_uleb v =
     (let byte = ucast (v AND 0x7f) :: u8; v' = drop_bit 7 v
      in if v' = 0 then [byte] else (byte OR 0x80) # write_uleb v')"
  by pat_completeness auto
termination
proof (relation "measure unat")
  fix v v' :: u64 and byte :: u8
  assume "v' = drop_bit 7 v" "v' \<noteq> 0"
  then have "v \<noteq> 0" by auto
  then have "0 < unat v" by (simp add: unat_gt_0)
  then have "unat v div 128 < unat v" by simp
  with \<open>v' = drop_bit 7 v\<close> show "(v', v) \<in> measure unat"
    by (simp add: drop_bit_eq_div unat_div)
qed simp

declare write_uleb.simps [simp del]

function read_uleb_loop :: "bytes \<Rightarrow> nat \<Rightarrow> u64 \<Rightarrow> nat \<Rightarrow> (u64 \<times> nat) option" where
  "read_uleb_loop buf pos result shift =
     (case slice_get buf pos of None \<Rightarrow> None
      | Some byte \<Rightarrow>
          let pos' = pos + 1;
              result' = result OR push_bit shift (ucast (byte AND 0x7f))
          in if byte AND 0x80 = 0 then Some (result', pos')
             else let shift' = shift + 7
                  in if shift' < 64 then read_uleb_loop buf pos' result' shift' else None)"
  by pat_completeness auto
termination by (relation "measure (\<lambda>(buf, pos, result, shift). 64 - shift)") auto

declare read_uleb_loop.simps [simp del]

definition read_uleb :: "u64 reader" where
  "read_uleb buf pos = read_uleb_loop buf pos 0 0"

lemma abs_div_128_less: "x \<noteq> 0 \<Longrightarrow> x \<noteq> -1 \<Longrightarrow> \<bar>x div 128\<bar> < \<bar>x\<bar>" for x :: int
proof -
  assume x: "x \<noteq> 0" "x \<noteq> -1"
  have "128 * (x div 128) \<le> x" "x < 128 * (x div 128) + 128"
    using mult_div_mod_eq [of 128 x] pos_mod_sign [of 128 x] pos_mod_bound [of 128 x] by linarith+
  with x show ?thesis by linarith
qed

function write_sleb :: "u64 \<Rightarrow> bytes" where
  "write_sleb v =
     (let byte = ucast (v AND 0x7f) :: u8; v' = signed_drop_bit 7 v;
          sign_bit_set = (byte AND 0x40 \<noteq> 0)
      in if (v' = 0 \<and> \<not> sign_bit_set) \<or> (v' = -1 \<and> sign_bit_set) then [byte]
         else (byte OR 0x80) # write_sleb v')"
  by pat_completeness auto
termination
proof (relation "measure (\<lambda>v. nat \<bar>sint v\<bar>)")
  fix v v' :: u64 and byte :: u8 and sign_bit_set
  assume byte: "byte = ucast (v AND 0x7f)" and v': "v' = signed_drop_bit 7 v"
    and sgn: "sign_bit_set = (byte AND 0x40 \<noteq> 0)"
    and cont: "\<not> ((v' = 0 \<and> \<not> sign_bit_set) \<or> (v' = -1 \<and> sign_bit_set))"
  have "v \<noteq> 0" using cont byte v' sgn by auto
  moreover have "v \<noteq> -1"
    using cont byte v' sgn by auto
  ultimately have "sint v \<noteq> sint (0 :: u64) \<and> sint v \<noteq> sint (-1 :: u64)"
    using signed_word_eqI [of v 0] signed_word_eqI [of v "-1"] by blast
  then have "sint v \<noteq> 0" "sint v \<noteq> -1" by simp_all
  then have "\<bar>sint v div 128\<bar> < \<bar>sint v\<bar>" by (rule abs_div_128_less)
  then show "(v', v) \<in> measure (\<lambda>v. nat \<bar>sint v\<bar>)"
    by (simp add: v' sint_signed_drop_bit_eq drop_bit_eq_div)
qed simp

declare write_sleb.simps [simp del]

function read_sleb_loop :: "bytes \<Rightarrow> nat \<Rightarrow> u64 \<Rightarrow> nat \<Rightarrow> (u64 \<times> nat) option" where
  "read_sleb_loop buf pos result shift =
     (case slice_get buf pos of None \<Rightarrow> None
      | Some byte \<Rightarrow>
          let pos' = pos + 1;
              result' = result OR push_bit shift (ucast (byte AND 0x7f));
              shift' = shift + 7
          in if byte AND 0x80 = 0
             then Some (if shift' < 64 \<and> byte AND 0x40 \<noteq> 0
                        then result' OR push_bit shift' (-1) else result', pos')
             else if shift' < 64 then read_sleb_loop buf pos' result' shift' else None)"
  by pat_completeness auto
termination by (relation "measure (\<lambda>(buf, pos, result, shift). 64 - shift)") auto

declare read_sleb_loop.simps [simp del]

definition read_sleb :: "u64 reader" where
  "read_sleb buf pos = read_sleb_loop buf pos 0 0"

subsection \<open>Bits of one group\<close>

lemma and_7f: "x AND 0x7f = take_bit 7 x" "y AND 0x7f = take_bit 7 y" for x :: u64 and y :: u8
  by (simp_all add: take_bit_eq_mask mask_eq_exp_minus_1)

lemma byte_masks: "(0x80 :: u8) = push_bit 7 1" "(0x40 :: u8) = push_bit 6 1"
  by simp_all

lemma and_byte_masks: "b AND 0x80 = 0 \<longleftrightarrow> \<not> bit b 7" "b AND 0x40 = 0 \<longleftrightarrow> \<not> bit b 6" for b :: u8
  unfolding byte_masks using and_single_bit [of b 7] and_single_bit [of b 6] by blast+

lemma bit_or_80: "bit (b OR 0x80) i \<longleftrightarrow> bit b i \<or> i = 7" for b :: u8
  unfolding byte_masks by (auto simp: bit_simps simp del: push_bit_of_1)

lemma group_bits: "bit (ucast (v AND 0x7f) :: u8) i \<longleftrightarrow> i < 7 \<and> bit v i" for v :: u64
  by (auto simp: and_7f bit_simps)

lemmas leb_bits = and_7f and_byte_masks bit_or_80 group_bits bit_simps

lemma group_back:
  "ucast ((ucast (v AND 0x7f) :: u8) AND 0x7f) = take_bit 7 v"
  "ucast (((ucast (v AND 0x7f) :: u8) OR 0x80) AND 0x7f) = take_bit 7 v" for v :: u64
  by (rule bit_word_eqI, auto simp: and_7f bit_or_80 bit_simps)+

lemma group_flags:
  "(ucast (v AND 0x7f) :: u8) AND 0x80 = 0"
  "((ucast (v AND 0x7f) :: u8) OR 0x80) AND 0x80 \<noteq> 0"
  "((ucast (v AND 0x7f) :: u8) AND 0x40 = 0) \<longleftrightarrow> \<not> bit v 6" for v :: u64
  by (simp_all add: and_byte_masks bit_or_80 group_bits)

lemma or_group_join:
  fixes r v v' :: u64
  assumes "\<And>i. i < 57 \<Longrightarrow> bit v' i = bit v (7 + i)"
  shows "(r OR push_bit s (take_bit 7 v)) OR push_bit (s + 7) v' = r OR push_bit s v"
proof (rule bit_word_eqI)
  fix n assume n: "n < LENGTH(64)"
  show "bit ((r OR push_bit s (take_bit 7 v)) OR push_bit (s + 7) v') n = bit (r OR push_bit s v) n"
  proof (cases "s + 7 \<le> n")
    case True
    then obtain i where i: "n = s + 7 + i" using le_Suc_ex by blast
    with n have "bit v' i = bit v (7 + i)" by (intro assms) simp
    with n i show ?thesis by (simp add: bit_simps)
  qed (use n in \<open>auto simp: bit_simps\<close>)
qed

subsection \<open>Unsigned round trip\<close>

lemma read_uleb_loop_write:
  assumes "\<And>i. bit v i \<Longrightarrow> i + s < 64"
  shows "read_uleb_loop (pre @ write_uleb v @ post) (length pre) r s
    = Some (r OR push_bit s v, length pre + length (write_uleb v))"
  using assms
proof (induction v arbitrary: pre r s rule: write_uleb.induct)
  case (1 v)
  show ?case
  proof (cases "drop_bit 7 v = 0")
    case True
    then have "take_bit 7 v = v" by (metis bits_ident add.right_neutral push_bit_of_0 add_0)
    with True show ?thesis
      by (simp add: write_uleb.simps [of v] read_uleb_loop.simps Let_def group_back group_flags)
  next
    case False
    then obtain i where "bit (drop_bit 7 v) i" by (auto simp: bit_eq_iff)
    then have s7: "s + 7 < 64" using "1.prems" [of "7 + i"] by (simp add: bit_simps)
    have "read_uleb_loop ((pre @ [ucast (v AND 0x7f) OR 0x80]) @ write_uleb (drop_bit 7 v) @ post)
        (length (pre @ [ucast (v AND 0x7f) OR 0x80])) (r OR push_bit s (take_bit 7 v)) (s + 7)
      = Some ((r OR push_bit s (take_bit 7 v)) OR push_bit (s + 7) (drop_bit 7 v),
          length (pre @ [ucast (v AND 0x7f) OR 0x80 :: u8]) + length (write_uleb (drop_bit 7 v)))"
    proof (rule "1.IH")
      fix i assume "bit (drop_bit 7 v) i"
      then show "i + (s + 7) < 64" using "1.prems" [of "7 + i"] by (simp add: bit_simps)
    qed (use False in auto)
    moreover have "(r OR push_bit s (take_bit 7 v)) OR push_bit (s + 7) (drop_bit 7 v) = r OR push_bit s v"
      by (rule or_group_join) (simp add: bit_simps)
    ultimately show ?thesis
      using False s7 by (simp add: write_uleb.simps [of v] read_uleb_loop.simps [of _ "length pre"]
          Let_def group_back group_flags)
  qed
qed

interpretation uleb: codec write_uleb read_uleb "\<lambda>_. True"
proof
  fix x :: u64 and pre post
  have "read_uleb_loop (pre @ write_uleb x @ post) (length pre) 0 0
      = Some (0 OR push_bit 0 x, length pre + length (write_uleb x))"
    by (rule read_uleb_loop_write) (auto dest: bit_imp_le_length)
  then show "read_uleb (pre @ write_uleb x @ post) (length pre)
      = Some (x, length pre + length (write_uleb x))"
    by (simp add: read_uleb_def)
qed

subsection \<open>Signed round trip\<close>

lemma bit_sdb7: "bit (signed_drop_bit 7 v) i \<longleftrightarrow> i < 64 \<and> bit v (min (7 + i) 63)" for v :: u64
  by (auto simp: bit_signed_drop_bit_iff min_def dest: bit_imp_le_length)

lemma sleb_last_iff:
  "(signed_drop_bit 7 v = 0 \<and> \<not> bit v 6) \<or> (signed_drop_bit 7 v = -1 \<and> bit v 6) \<longleftrightarrow>
   (\<forall>j. 6 \<le> j \<and> j < 64 \<longrightarrow> bit v j = bit v 6)" for v :: u64
proof -
  have shift: "(\<forall>j. 6 \<le> j \<and> j < 64 \<longrightarrow> bit v j = bit v 6) \<longleftrightarrow>
      (\<forall>i < 64. bit (signed_drop_bit 7 v) i = bit v 6)"
  proof (rule iffI; intro allI impI)
    fix j :: nat assume h: "\<forall>i < 64. bit (signed_drop_bit 7 v) i = bit v 6" and j: "6 \<le> j \<and> j < 64"
    show "bit v j = bit v 6"
      using h [rule_format, of "j - 7"] j by (cases "j = 6") (auto simp: bit_sdb7 min_def)
  next
    fix i :: nat assume h: "\<forall>j. 6 \<le> j \<and> j < 64 \<longrightarrow> bit v j = bit v 6" and i: "i < 64"
    show "bit (signed_drop_bit 7 v) i = bit v 6"
      using h [rule_format, of "min (7 + i) 63"] i by (simp add: bit_sdb7)
  qed
  show ?thesis
    unfolding shift by (cases "bit v 6") (auto simp: bit_eq_iff bit_minus_1_iff)
qed

lemma read_sleb_loop_write:
  assumes "\<And>j. 63 - s \<le> j \<Longrightarrow> j < 64 \<Longrightarrow> bit v j = bit v 63" and "s < 64"
  shows "read_sleb_loop (pre @ write_sleb v @ post) (length pre) r s
    = Some (r OR push_bit s v, length pre + length (write_sleb v))"
  using assms
proof (induction v arbitrary: pre r s rule: write_sleb.induct)
  case (1 v)
  let ?b = "ucast (v AND 0x7f) :: u8" and ?v' = "signed_drop_bit 7 v"
  show ?case
  proof (cases "\<forall>j. 6 \<le> j \<and> j < 64 \<longrightarrow> bit v j = bit v 6")
    case True
    then have "(?v' = 0 \<and> \<not> bit v 6) \<or> (?v' = -1 \<and> bit v 6)" using sleb_last_iff by blast
    then have "write_sleb v = [?b]" by (simp add: write_sleb.simps [of v] Let_def group_flags)
    moreover have "(if s + 7 < 64 \<and> bit v 6
        then (r OR push_bit s (take_bit 7 v)) OR push_bit (s + 7) (-1)
        else r OR push_bit s (take_bit 7 v)) = r OR push_bit s v"
    proof (rule bit_word_eqI)
      fix i assume i: "i < LENGTH(64)"
      have "bit v (i - s) = bit v 6" if "s + 7 \<le> i"
        using i that by (intro True [rule_format]) (simp, linarith)
      then show "bit (if s + 7 < 64 \<and> bit v 6
          then (r OR push_bit s (take_bit 7 v)) OR push_bit (s + 7) (-1)
          else r OR push_bit s (take_bit 7 v)) i = bit (r OR push_bit s v) i"
        using i by (cases "s + 7 \<le> i") (auto simp: bit_simps)
    qed
    ultimately show ?thesis
      by (simp add: read_sleb_loop.simps [of _ "length pre"] Let_def group_back group_flags)
  next
    case False
    then have "\<not> ((?v' = 0 \<and> \<not> bit v 6) \<or> (?v' = -1 \<and> bit v 6))" using sleb_last_iff by blast
    then have cont: "\<not> ((?v' = 0 \<and> \<not> ?b AND 0x40 \<noteq> 0) \<or> (?v' = -1 \<and> ?b AND 0x40 \<noteq> 0))"
      by (simp add: group_flags)
    have s7: "s + 7 < 64"
    proof (rule ccontr)
      assume "\<not> s + 7 < 64"
      then have top: "bit v j = bit v 63" if "6 \<le> j" "j < 64" for j
        using "1.prems"(1) [of j] that by linarith
      have "bit v 6 = bit v 63" by (rule top) simp_all
      with False top show False by blast
    qed
    have "read_sleb_loop ((pre @ [?b OR 0x80]) @ write_sleb ?v' @ post)
        (length (pre @ [?b OR 0x80])) (r OR push_bit s (take_bit 7 v)) (s + 7)
      = Some ((r OR push_bit s (take_bit 7 v)) OR push_bit (s + 7) ?v',
          length (pre @ [?b OR 0x80]) + length (write_sleb ?v'))"
    proof (rule "1.IH")
      fix j assume "63 - (s + 7) \<le> j" "j < 64"
      then show "bit ?v' j = bit ?v' 63"
        using "1.prems"(1) [of "min (7 + j) 63"] s7 by (auto simp: bit_sdb7 min_def)
    qed (use cont s7 in auto)
    moreover have "(r OR push_bit s (take_bit 7 v)) OR push_bit (s + 7) ?v' = r OR push_bit s v"
      by (rule or_group_join) (simp add: bit_sdb7 min_def)
    moreover have "write_sleb v = (?b OR 0x80) # write_sleb ?v'"
      using cont by (subst write_sleb.simps) (simp only: Let_def if_False)
    ultimately show ?thesis
      using s7 by (simp add: read_sleb_loop.simps [of _ "length pre"] Let_def group_back group_flags)
  qed
qed

interpretation sleb: codec write_sleb read_sleb "\<lambda>_. True"
proof
  fix x :: u64 and pre post
  have "read_sleb_loop (pre @ write_sleb x @ post) (length pre) 0 0
      = Some (0 OR push_bit 0 x, length pre + length (write_sleb x))"
    by (rule read_sleb_loop_write) (auto simp: le_less_Suc_eq eval_nat_numeral)
  then show "read_sleb (pre @ write_sleb x @ post) (length pre)
      = Some (x, length pre + length (write_sleb x))"
    by (simp add: read_sleb_def)
qed

subsection \<open>Length\<close>

lemma read_uleb_loop_pos:
  "read_uleb_loop buf pos r s = Some (v, pos') \<Longrightarrow> s < 64 \<Longrightarrow> pos < pos' \<and> pos' \<le> pos + (70 - s) div 7"
proof (induction buf pos r s rule: read_uleb_loop.induct)
  case (1 buf pos r s)
  have "(63 - s) div 7 + 1 = (70 - s) div 7" if "s + 7 < 64" using that by simp
  then show ?case
    using 1 by (subst (asm) (2) read_uleb_loop.simps)
      (fastforce simp: Let_def split: option.splits if_splits)
qed

lemma read_sleb_loop_pos:
  "read_sleb_loop buf pos r s = Some (v, pos') \<Longrightarrow> s < 64 \<Longrightarrow> pos < pos' \<and> pos' \<le> pos + (70 - s) div 7"
proof (induction buf pos r s rule: read_sleb_loop.induct)
  case (1 buf pos r s)
  have "(63 - s) div 7 + 1 = (70 - s) div 7" if "s + 7 < 64" using that by simp
  then show ?case
    using 1 by (subst (asm) (2) read_sleb_loop.simps)
      (fastforce simp: Let_def split: option.splits if_splits)
qed

text \<open>
  LEB128: any \<open>u64\<close> (any \<open>i64\<close>) written anywhere in a buffer is read back with the position
  just past it, the reader never panics there, and an encoding takes one to ten bytes.
\<close>
theorem leb128_roundtrip:
  "read_uleb (pre @ write_uleb u @ post) (length pre) = Some (u, length pre + length (write_uleb u)) \<and>
   read_sleb (pre @ write_sleb i @ post) (length pre) = Some (i, length pre + length (write_sleb i)) \<and>
   length (write_uleb u) \<in> {1..10} \<and> length (write_sleb i) \<in> {1..10}"
proof -
  have "read_uleb_loop (write_uleb u) 0 0 0 = Some (u, length (write_uleb u))"
    using uleb.rd_wr_Nil [of u "[]"] by (simp add: read_uleb_def)
  from read_uleb_loop_pos [OF this] have "length (write_uleb u) \<in> {1..10}" by (simp add: Suc_le_eq)
  moreover have "read_sleb_loop (write_sleb i) 0 0 0 = Some (i, length (write_sleb i))"
    using sleb.rd_wr_Nil [of i "[]"] by (simp add: read_sleb_def)
  from read_sleb_loop_pos [OF this] have "length (write_sleb i) \<in> {1..10}" by (simp add: Suc_le_eq)
  ultimately show ?thesis by (simp add: uleb.rd_wr sleb.rd_wr)
qed

end
