(* ===== verification/Scopes.thy ===== *)
theory Scopes
  imports Leb128
begin

text \<open>
  Deoptimization metadata, \<open>src/src/compiler/scopes.rs\<close>: the location and scope types, the
  recorder that the emitter drives, the packed blob with its sorted \<open>PcDesc\<close> array, the decoder
  and the lookup of the virtual frames at a native pc, and the map of an on-stack-replacement entry.
  A writer that appends to \<open>out\<close> is the function giving the bytes it appends; \<open>u32\<close>, \<open>i32\<close>,
  \<open>u16\<close> fields are words of their width and every \<open>as\<close> cast is written out.
  The main result is that packing loses nothing: at the pc of every recorded site the decoder
  gives back the recorded state and the whole chain of inlined scopes.
\<close>

subsection \<open>Locations\<close>

datatype value_loc =
    ConstPool u32
  | ConstSmi u64
  | FrameSlot u32
  | NilLoc
  | ElidedClosure u32
  | DoubleSlot u32

fun write_loc :: "value_loc \<Rightarrow> bytes" where
  "write_loc (ConstPool ix) = 0 # write_uleb (ucast ix)"
| "write_loc (ConstSmi v) = 1 # write_sleb v"
| "write_loc (FrameSlot off) = 2 # write_sleb (scast off)"
| "write_loc NilLoc = [3]"
| "write_loc (ElidedClosure ix) = 4 # write_uleb (ucast ix)"
| "write_loc (DoubleSlot off) = 5 # write_sleb (scast off)"

definition read_loc :: "value_loc reader" where
  "read_loc buf pos0 = do {
     tag \<leftarrow> slice_get buf pos0;
     let pos = pos0 + 1;
     if tag = 0 then do { (v, pos) \<leftarrow> read_uleb buf pos; Some (ConstPool (ucast v), pos) }
     else if tag = 1 then do { (v, pos) \<leftarrow> read_sleb buf pos; Some (ConstSmi v, pos) }
     else if tag = 2 then do { (v, pos) \<leftarrow> read_sleb buf pos; Some (FrameSlot (ucast v), pos) }
     else if tag = 3 then Some (NilLoc, pos)
     else if tag = 4 then do { (v, pos) \<leftarrow> read_uleb buf pos; Some (ElidedClosure (ucast v), pos) }
     else if tag = 5 then do { (v, pos) \<leftarrow> read_sleb buf pos; Some (DoubleSlot (ucast v), pos) }
     else None
   }"

definition write_locs :: "value_loc list \<Rightarrow> bytes" where
  "write_locs vs = write_uleb (of_nat (length vs)) @ concat (map write_loc vs)"

definition read_locs :: "value_loc list reader" where
  "read_locs buf pos = do {
     (n, pos) \<leftarrow> read_uleb buf pos;
     read_seq read_loc (unat n) buf pos
   }"

datatype ctx_loc =
    CtxNone
  | Materialized value_loc
  | Elided "value_loc list"

fun ctx_kind :: "ctx_loc \<Rightarrow> u8" where
  "ctx_kind CtxNone = 0"
| "ctx_kind (Materialized _) = 1"
| "ctx_kind (Elided _) = 2"

fun write_ctx :: "ctx_loc \<Rightarrow> bytes" where
  "write_ctx CtxNone = []"
| "write_ctx (Materialized loc) = write_loc loc"
| "write_ctx (Elided temps) = write_locs temps"

definition read_ctx :: "u8 \<Rightarrow> ctx_loc reader" where
  "read_ctx kind buf pos =
     (if kind = 0 then Some (CtxNone, pos)
      else if kind = 1 then do { (loc, pos) \<leftarrow> read_loc buf pos; Some (Materialized loc, pos) }
      else if kind = 2 then do { (temps, pos) \<leftarrow> read_locs buf pos; Some (Elided temps, pos) }
      else None)"

subsection \<open>Scopes, safepoints and the recorder\<close>

type_synonym scope_id = u32

record sender_link =
  sender :: scope_id
  sender_bci :: u16
  pending_stack :: "value_loc list"

record scope_desc_data =
  method_pool_ix :: u32
  is_block :: bool
  sender_of :: "sender_link option"
  receiver :: value_loc
  slots :: "value_loc list"
  ctx :: ctx_loc

datatype safepoint_kind = CallK | LoopPollK | AllocK | UncommonTrapK

fun to_bits :: "safepoint_kind \<Rightarrow> u8" where
  "to_bits CallK = 0"
| "to_bits LoopPollK = 1"
| "to_bits AllocK = 2"
| "to_bits UncommonTrapK = 3"

definition from_bits :: "u8 \<Rightarrow> safepoint_kind option" where
  "from_bits b = (if b = 0 then Some CallK else if b = 1 then Some LoopPollK
     else if b = 2 then Some AllocK else if b = 3 then Some UncommonTrapK else None)"

record safepoint_state =
  st_scope :: scope_id
  st_bci :: u16
  st_kind :: safepoint_kind
  st_reexecute :: bool
  st_stack :: "value_loc list"

record pc_desc =
  code_off :: u32
  site_off :: u32

definition find_pc_desc :: "pc_desc list \<Rightarrow> u32 \<Rightarrow> pc_desc option" where
  "find_pc_desc descs off = (case binary_search (map code_off descs) off of
       Some idx \<Rightarrow> Some (descs ! idx)
     | None \<Rightarrow> None)"

record recorder =
  rec_scopes :: "scope_desc_data list"
  rec_sites :: "(u32 \<times> safepoint_state) list"

definition new_recorder :: recorder where
  "new_recorder = \<lparr>rec_scopes = [], rec_sites = []\<rparr>"

definition begin_scope :: "scope_desc_data \<Rightarrow> recorder \<Rightarrow> (scope_id \<times> recorder) option" where
  "begin_scope data r = do {
     rust_assert (case sender_of data of None \<Rightarrow> True
        | Some link \<Rightarrow> unat (sender link) < length (rec_scopes r));
     Some (of_nat (length (rec_scopes r)), r\<lparr>rec_scopes := rec_scopes r @ [data]\<rparr>)
   }"

definition record_site :: "u32 \<Rightarrow> safepoint_state \<Rightarrow> recorder \<Rightarrow> recorder option" where
  "record_site off state r = do {
     rust_assert (unat (st_scope state) < length (rec_scopes r));
     rust_assert (\<not> (st_kind state = CallK \<and> st_reexecute state));
     Some (r\<lparr>rec_sites := rec_sites r @ [(off, state)]\<rparr>)
   }"

subsection \<open>Packing\<close>

definition write_scope_record :: "scope_desc_data \<Rightarrow> u32 list \<Rightarrow> bytes option" where
  "write_scope_record scope scope_offs = do {
     let flags = (if sender_of scope \<noteq> None then 1 else 0)
               OR push_bit 1 (if is_block scope then 1 else 0)
               OR push_bit 2 (ctx_kind (ctx scope));
     link_bytes \<leftarrow> (case sender_of scope of
         None \<Rightarrow> Some []
       | Some link \<Rightarrow> do {
           off \<leftarrow> slice_get scope_offs (unat (sender link));
           Some (write_uleb (ucast off) @ write_uleb (ucast (sender_bci link))
                 @ write_locs (pending_stack link))
         });
     Some (flags # write_uleb (ucast (method_pool_ix scope)) @ link_bytes
           @ write_loc (receiver scope) @ write_locs (slots scope) @ write_ctx (ctx scope))
   }"

definition write_safepoint_record :: "safepoint_state \<Rightarrow> u32 list \<Rightarrow> bytes option" where
  "write_safepoint_record state scope_offs = do {
     off \<leftarrow> slice_get scope_offs (unat (st_scope state));
     let flags = (if st_reexecute state then 1 else 0) OR push_bit 1 (to_bits (st_kind state));
     Some (write_uleb (ucast off) @ write_uleb (ucast (st_bci state))
           @ flags # write_locs (st_stack state))
   }"

fun pack_scopes :: "scope_desc_data list \<Rightarrow> bytes \<Rightarrow> u32 list \<Rightarrow> (bytes \<times> u32 list) option" where
  "pack_scopes [] blob scope_offs = Some (blob, scope_offs)"
| "pack_scopes (scope # scopes) blob scope_offs = do {
     let scope_offs = scope_offs @ [of_nat (length blob)];
     rec \<leftarrow> write_scope_record scope scope_offs;
     pack_scopes scopes (blob @ rec) scope_offs
   }"

fun pack_sites :: "u32 list \<Rightarrow> (u32 \<times> safepoint_state) list \<Rightarrow> bytes \<Rightarrow> pc_desc list
    \<Rightarrow> (bytes \<times> pc_desc list) option" where
  "pack_sites scope_offs [] blob pcdescs = Some (blob, pcdescs)"
| "pack_sites scope_offs ((off, state) # sites) blob pcdescs = do {
     rec \<leftarrow> write_safepoint_record state scope_offs;
     pack_sites scope_offs sites (blob @ rec)
       (pcdescs @ [\<lparr>code_off = off, site_off = of_nat (length blob)\<rparr>])
   }"

definition pack :: "recorder \<Rightarrow> (bytes \<times> pc_desc list) option" where
  "pack r = do {
     (blob, scope_offs) \<leftarrow> pack_scopes (rec_scopes r) [] [];
     (blob, pcdescs) \<leftarrow> pack_sites scope_offs (rec_sites r) blob [];
     Some (blob, sort_key code_off pcdescs)
   }"

subsection \<open>Decoding\<close>

record decoded_scope =
  d_method_pool_ix :: u32
  d_is_block :: bool
  d_sender :: "(u32 \<times> u16 \<times> value_loc list) option"
  d_receiver :: value_loc
  d_slots :: "value_loc list"
  d_ctx :: ctx_loc

record decoded_site =
  d_scope_off :: u32
  d_bci :: u16
  d_kind :: safepoint_kind
  d_reexecute :: bool
  d_stack :: "value_loc list"

definition decode_scope :: "bytes \<Rightarrow> u32 \<Rightarrow> decoded_scope option" where
  "decode_scope blob off = do {
     flags \<leftarrow> slice_get blob (unat off);
     let pos = unat off + 1;
     let has_sender = (flags AND 1 \<noteq> 0);
     let is_block = (flags AND 2 \<noteq> 0);
     let kind = drop_bit 2 flags AND 3;
     (ix, pos) \<leftarrow> read_uleb blob pos;
     (snd_link, pos) \<leftarrow> (if has_sender then do {
         (sender_off, pos) \<leftarrow> read_uleb blob pos;
         (bci, pos) \<leftarrow> read_uleb blob pos;
         (pending, pos) \<leftarrow> read_locs blob pos;
         Some (Some (ucast sender_off, ucast bci, pending), pos)
       } else Some (None, pos));
     (rcv, pos) \<leftarrow> read_loc blob pos;
     (sl, pos) \<leftarrow> read_locs blob pos;
     (c, pos) \<leftarrow> read_ctx kind blob pos;
     Some \<lparr>d_method_pool_ix = ucast ix, d_is_block = is_block, d_sender = snd_link,
           d_receiver = rcv, d_slots = sl, d_ctx = c\<rparr>
   }"

definition decode_site :: "bytes \<Rightarrow> u32 \<Rightarrow> decoded_site option" where
  "decode_site blob off = do {
     (scope_off, pos) \<leftarrow> read_uleb blob (unat off);
     (bci, pos) \<leftarrow> read_uleb blob pos;
     flags \<leftarrow> slice_get blob pos;
     let pos = pos + 1;
     let reexecute = (flags AND 1 \<noteq> 0);
     kind \<leftarrow> from_bits (drop_bit 1 flags AND 7);
     (stack, pos) \<leftarrow> read_locs blob pos;
     Some \<lparr>d_scope_off = ucast scope_off, d_bci = ucast bci, d_kind = kind,
           d_reexecute = reexecute, d_stack = stack\<rparr>
   }"

record deopt_state =
  ds_blob :: bytes
  ds_site :: decoded_site

definition at_parts :: "bytes \<Rightarrow> pc_desc list \<Rightarrow> u32 \<Rightarrow> deopt_state option" where
  "at_parts blob pcdescs off = do {
     pc \<leftarrow> find_pc_desc pcdescs off;
     site \<leftarrow> decode_site blob (site_off pc);
     Some \<lparr>ds_blob = blob, ds_site = site\<rparr>
   }"

definition innermost :: "deopt_state \<Rightarrow> decoded_scope option" where
  "innermost ds = decode_scope (ds_blob ds) (d_scope_off (ds_site ds))"

record scope_chain_iter =
  it_blob :: bytes
  it_next_off :: "u32 option"

definition ds_scopes :: "deopt_state \<Rightarrow> scope_chain_iter" where
  "ds_scopes ds = \<lparr>it_blob = ds_blob ds, it_next_off = Some (d_scope_off (ds_site ds))\<rparr>"

text \<open>
  One step of the iterator: the outer option is a panic of the decoder, the inner one the
  iterator's own \<open>Option<DecodedScope>\<close>.
\<close>

definition chain_next :: "scope_chain_iter \<Rightarrow> (decoded_scope option \<times> scope_chain_iter) option" where
  "chain_next it = (case it_next_off it of
       None \<Rightarrow> Some (None, it)
     | Some off \<Rightarrow> do {
         scope \<leftarrow> decode_scope (it_blob it) off;
         Some (Some scope, it\<lparr>it_next_off := map_option fst (d_sender scope)\<rparr>)
       })"

text \<open>Draining the iterator (\<open>for scope in state.scopes()\<close>); a cyclic blob would never end.\<close>

partial_function (option) chain_collect :: "scope_chain_iter \<Rightarrow> decoded_scope list option" where
  "chain_collect it = do {
     (item, it') \<leftarrow> chain_next it;
     case item of None \<Rightarrow> Some []
     | Some scope \<Rightarrow> do { rest \<leftarrow> chain_collect it'; Some (scope # rest) }
   }"

subsection \<open>The on-stack-replacement map\<close>

datatype osr_source = OsrReceiver | OsrArgSlot u16 | OsrStackSlot u16 | OsrContext

record osr_slot =
  src :: osr_source
  dst_frame_off :: u32

record osr_map =
  osr_bci :: u16
  entry_off :: u32
  frame_words :: u32
  osr_slots :: "osr_slot list"

definition TAG_RECEIVER :: u64 where "TAG_RECEIVER = 0"
definition TAG_SLOT :: u64 where "TAG_SLOT = 1"
definition TAG_STACK :: u64 where "TAG_STACK = 2"
definition TAG_CONTEXT :: u64 where "TAG_CONTEXT = 3"

text \<open>Negating an \<open>i32\<close> panics on the least value, which has no negation.\<close>

definition i32_neg :: "u32 \<Rightarrow> u32 option" where
  "i32_neg v = (if v = 0x80000000 then None else Some (- v))"

fun write_osr_source :: "osr_source \<Rightarrow> bytes" where
  "write_osr_source OsrReceiver = write_uleb TAG_RECEIVER"
| "write_osr_source (OsrArgSlot i) = write_uleb TAG_SLOT @ write_uleb (ucast i)"
| "write_osr_source (OsrStackSlot i) = write_uleb TAG_STACK @ write_uleb (ucast i)"
| "write_osr_source OsrContext = write_uleb TAG_CONTEXT"

definition pack_osr_slot :: "osr_slot \<Rightarrow> bytes option" where
  "pack_osr_slot s = do {
     rust_assert (sint (dst_frame_off s) < 0);
     mag \<leftarrow> i32_neg (dst_frame_off s);
     Some (write_osr_source (src s) @ write_uleb (scast mag))
   }"

fun pack_osr_slots :: "osr_slot list \<Rightarrow> bytes option" where
  "pack_osr_slots [] = Some []"
| "pack_osr_slots (s # ss) = do {
     b \<leftarrow> pack_osr_slot s;
     rest \<leftarrow> pack_osr_slots ss;
     Some (b @ rest)
   }"

definition pack_osr :: "osr_map \<Rightarrow> bytes option" where
  "pack_osr m = do {
     body \<leftarrow> pack_osr_slots (osr_slots m);
     Some (write_uleb (ucast (osr_bci m)) @ write_uleb (ucast (entry_off m))
           @ write_uleb (ucast (frame_words m))
           @ write_uleb (of_nat (length (osr_slots m))) @ body)
   }"

definition read_osr_source :: "osr_source reader" where
  "read_osr_source buf pos = do {
     (tag, pos) \<leftarrow> read_uleb buf pos;
     if tag = TAG_RECEIVER then Some (OsrReceiver, pos)
     else if tag = TAG_SLOT then do { (i, pos) \<leftarrow> read_uleb buf pos; Some (OsrArgSlot (ucast i), pos) }
     else if tag = TAG_STACK then do { (i, pos) \<leftarrow> read_uleb buf pos; Some (OsrStackSlot (ucast i), pos) }
     else if tag = TAG_CONTEXT then Some (OsrContext, pos)
     else None
   }"

definition read_osr_slot :: "osr_slot reader" where
  "read_osr_slot buf pos = do {
     (source, pos) \<leftarrow> read_osr_source buf pos;
     (mag, pos) \<leftarrow> read_uleb buf pos;
     dst \<leftarrow> i32_neg (ucast mag);
     Some (\<lparr>src = source, dst_frame_off = dst\<rparr>, pos)
   }"

definition unpack_osr :: "bytes \<Rightarrow> osr_map option" where
  "unpack_osr buf = do {
     (bci, pos) \<leftarrow> read_uleb buf 0;
     (entry, pos) \<leftarrow> read_uleb buf pos;
     (words, pos) \<leftarrow> read_uleb buf pos;
     (n, pos) \<leftarrow> read_uleb buf pos;
     (ss, pos) \<leftarrow> read_seq read_osr_slot (unat n) buf pos;
     Some \<lparr>osr_bci = ucast bci, entry_off = ucast entry, frame_words = ucast words,
           osr_slots = ss\<rparr>
   }"

subsection \<open>Casts and the codecs of the parts\<close>

lemma cast_back [simp]:
  "(ucast (ucast x :: u64) :: u32) = x" "(ucast (scast x :: u64) :: u32) = x"
  "(ucast (ucast y :: u64) :: u16) = y" for x :: u32 and y :: u16
  by (rule bit_word_eqI, auto simp: bit_simps)+

lemma uleb_at [codec_simps]:
  "holds_at buf pos (write_uleb v) \<Longrightarrow> read_uleb buf pos = Some (v, pos + length (write_uleb v))"
  by (rule uleb.rd_at) simp_all

lemma sleb_at [codec_simps]:
  "holds_at buf pos (write_sleb v) \<Longrightarrow> read_sleb buf pos = Some (v, pos + length (write_sleb v))"
  by (rule sleb.rd_at) simp_all

interpretation loc: codec write_loc read_loc "\<lambda>_. True"
proof
  fix l pre post
  have "holds_at (pre @ write_loc l @ post) (length pre) (write_loc l)" by (rule holds_at_mid)
  then show "read_loc (pre @ write_loc l @ post) (length pre) = Some (l, length pre + length (write_loc l))"
    by (cases l) (simp_all add: read_loc_def codec_simps)
qed

lemma loc_at [codec_simps]:
  "holds_at buf pos (write_loc l) \<Longrightarrow> read_loc buf pos = Some (l, pos + length (write_loc l))"
  by (rule loc.rd_at) simp_all

definition short_locs :: "value_loc list \<Rightarrow> bool" where
  "short_locs vs \<longleftrightarrow> length vs < 2 ^ 64"

lemma unat_of_short: "short_locs vs \<Longrightarrow> unat (of_nat (length vs) :: u64) = length vs"
  by (simp add: short_locs_def unat_of_nat take_bit_nat_eq_self)

interpretation locs: codec write_locs read_locs short_locs
proof
  fix vs pre post assume vs: "short_locs vs"
  have "holds_at (pre @ write_locs vs @ post) (length pre) (write_locs vs)" by (rule holds_at_mid)
  then show "read_locs (pre @ write_locs vs @ post) (length pre)
      = Some (vs, length pre + length (write_locs vs))"
    using vs by (auto simp: read_locs_def write_locs_def codec_simps unat_of_short loc.read_seq_at)
qed

lemmas locs_at [codec_simps] = locs.rd_at

fun short_ctx :: "ctx_loc \<Rightarrow> bool" where
  "short_ctx (Elided temps) = short_locs temps"
| "short_ctx _ = True"

lemma ctx_at [codec_simps]:
  "holds_at buf pos (write_ctx c) \<Longrightarrow> short_ctx c \<Longrightarrow>
   read_ctx (ctx_kind c) buf pos = Some (c, pos + length (write_ctx c))"
  by (cases c) (simp_all add: read_ctx_def codec_simps)

subsection \<open>One record\<close>

definition short_scope :: "scope_desc_data \<Rightarrow> bool" where
  "short_scope s \<longleftrightarrow> short_locs (slots s) \<and> short_ctx (ctx s) \<and>
     (\<forall>l. sender_of s = Some l \<longrightarrow> short_locs (pending_stack l))"

text \<open>What the decoder gives for a scope whose sender record starts at a known offset.\<close>

definition decoded_of :: "u32 list \<Rightarrow> scope_desc_data \<Rightarrow> decoded_scope" where
  "decoded_of offs s = \<lparr>d_method_pool_ix = method_pool_ix s, d_is_block = is_block s,
     d_sender = map_option (\<lambda>l. (offs ! unat (sender l), sender_bci l, pending_stack l)) (sender_of s),
     d_receiver = receiver s, d_slots = slots s, d_ctx = ctx s\<rparr>"

lemma scope_flags:
  fixes s :: scope_desc_data
  defines "f \<equiv> (if sender_of s \<noteq> None then 1 else 0) OR push_bit 1 (if is_block s then 1 else 0)
               OR push_bit 2 (ctx_kind (ctx s))"
  shows "f AND 1 \<noteq> 0 \<longleftrightarrow> sender_of s \<noteq> None" "f AND 2 \<noteq> 0 \<longleftrightarrow> is_block s"
    "drop_bit 2 f AND 3 = ctx_kind (ctx s)"
  unfolding f_def by (cases "sender_of s"; cases "is_block s"; cases "ctx s"; simp)+

lemma decode_scope_record:
  assumes rec: "write_scope_record s offs = Some bs" and h: "holds_at blob (unat off) bs"
    and short: "short_scope s"
  shows "decode_scope blob off = Some (decoded_of offs s)"
proof (cases "sender_of s")
  case None
  then show ?thesis
    using rec h short scope_flags [of s]
    by (auto simp: write_scope_record_def decode_scope_def decoded_of_def short_scope_def Let_def codec_simps)
next
  case (Some l)
  then show ?thesis
    using rec h short scope_flags [of s]
    by (auto simp: write_scope_record_def decode_scope_def decoded_of_def short_scope_def Let_def codec_simps
        bind_eq_Some_conv dest!: slice_get_SomeD)
qed

lemma from_to_bits: "from_bits (to_bits k) = Some k"
  by (cases k) (simp_all add: from_bits_def)

lemma site_flags:
  "((if b then 1 else 0) OR push_bit 1 (to_bits k)) AND 1 \<noteq> 0 \<longleftrightarrow> b"
  "drop_bit 1 ((if b then 1 else 0) OR push_bit 1 (to_bits k)) AND 7 = to_bits k"
  by (cases b; cases k; simp)+

lemma decode_site_record:
  assumes rec: "write_safepoint_record st offs = Some bs" and h: "holds_at blob (unat off) bs"
    and short: "short_locs (st_stack st)"
  shows "decode_site blob off = Some \<lparr>d_scope_off = offs ! unat (st_scope st), d_bci = st_bci st,
      d_kind = st_kind st, d_reexecute = st_reexecute st, d_stack = st_stack st\<rparr>"
proof -
  define f where "f = (if st_reexecute st then 1 else 0) OR push_bit 1 (to_bits (st_kind st))"
  have f: "f AND 1 \<noteq> 0 \<longleftrightarrow> st_reexecute st" "drop_bit 1 f AND 7 = to_bits (st_kind st)"
    unfolding f_def by (rule site_flags)+
  have "bs = write_uleb (ucast (offs ! unat (st_scope st))) @ write_uleb (ucast (st_bci st))
      @ f # write_locs (st_stack st)"
    using rec by (auto simp: write_safepoint_record_def Let_def f_def slice_get_def
        bind_eq_Some_conv split: if_splits)
  with h short show ?thesis
    unfolding decode_site_def by (auto simp: codec_simps f(1) f(2) [simplified] from_to_bits)
qed

subsection \<open>Where the records end up\<close>

lemma write_scope_record_mono:
  "write_scope_record s offs = Some bs \<Longrightarrow> write_scope_record s (offs @ ext) = Some bs"
  by (auto simp: write_scope_record_def slice_get_def Let_def nth_append bind_eq_Some_conv
      split: option.splits if_splits)

definition placed :: "bytes \<Rightarrow> u32 list \<Rightarrow> nat \<Rightarrow> scope_desc_data \<Rightarrow> bool" where
  "placed blob offs i s \<longleftrightarrow>
     (\<exists>bs. write_scope_record s offs = Some bs \<and> holds_at blob (unat (offs ! i)) bs)"

lemma placed_mono: "placed blob offs i s \<Longrightarrow> i < length offs \<Longrightarrow> placed (blob @ b) (offs @ ext) i s"
  by (auto simp: placed_def nth_append intro: write_scope_record_mono holds_at_extend)

lemma pack_scopes_extends:
  "pack_scopes ss blob offs = Some (blob', offs') \<Longrightarrow>
   (\<exists>b. blob' = blob @ b) \<and> (\<exists>ext. offs' = offs @ ext \<and> length ext = length ss)"
  by (induction ss blob offs rule: pack_scopes.induct) (fastforce simp: bind_eq_Some_conv Let_def)+

lemma unat_of_pos: "n < 2 ^ 32 \<Longrightarrow> unat (of_nat n :: u32) = n"
  by (simp add: unat_of_nat take_bit_nat_eq_self)

lemma pack_scopes_placed:
  "pack_scopes ss blob offs = Some (blob', offs') \<Longrightarrow> length blob' < 2 ^ 32 \<Longrightarrow> i < length ss \<Longrightarrow>
   placed blob' offs' (length offs + i) (ss ! i)"
proof (induction ss arbitrary: blob offs i)
  case (Cons s ss)
  let ?offs = "offs @ [of_nat (length blob)]"
  obtain bs where bs: "write_scope_record s ?offs = Some bs"
    and rest: "pack_scopes ss (blob @ bs) ?offs = Some (blob', offs')"
    using Cons.prems(1) by (auto simp: bind_eq_Some_conv Let_def)
  obtain b ext where eqs: "blob' = (blob @ bs) @ b" "offs' = ?offs @ ext"
    using pack_scopes_extends [OF rest] by blast
  show ?case
  proof (cases i)
    case 0
    have "placed (blob @ bs) ?offs (length offs) s"
      using bs Cons.prems(2) eqs by (auto simp: placed_def unat_of_pos intro: holds_at_end)
    then show ?thesis using 0 by (auto simp: eqs intro!: placed_mono simp del: append_assoc)
  next
    case (Suc j)
    then show ?thesis using Cons.IH [OF rest Cons.prems(2), of j] Cons.prems(3) by simp
  qed
qed simp

lemma pack_scopes_total:
  "\<forall>i < length ss. \<forall>l. sender_of (ss ! i) = Some l \<longrightarrow> unat (sender l) < length offs + i \<Longrightarrow>
   \<exists>blob' offs'. pack_scopes ss blob offs = Some (blob', offs')"
proof (induction ss arbitrary: blob offs)
  case (Cons s ss)
  let ?offs = "offs @ [of_nat (length blob) :: u32]"
  have "unat (sender l) < length ?offs" if "sender_of s = Some l" for l
    using Cons.prems [rule_format, of 0 l] that by simp
  then obtain bs where "write_scope_record s ?offs = Some bs"
    by (cases "sender_of s") (auto simp: write_scope_record_def slice_get_def Let_def)
  moreover have "\<exists>blob' offs'. pack_scopes ss (blob @ bs) ?offs = Some (blob', offs')"
  proof (rule Cons.IH, intro allI impI)
    fix i l assume "i < length ss" "sender_of (ss ! i) = Some l"
    then show "unat (sender l) < length ?offs + i" using Cons.prems [rule_format, of "Suc i" l] by simp
  qed
  ultimately show ?case by simp
qed simp

lemma pack_sites_extends:
  "pack_sites offs sites blob pcs = Some (blob', pcs') \<Longrightarrow>
   (\<exists>b. blob' = blob @ b) \<and> (\<exists>ext. pcs' = pcs @ ext \<and> map code_off ext = map fst sites)"
  by (induction offs sites blob pcs rule: pack_sites.induct) (fastforce simp: bind_eq_Some_conv)+

lemma pack_sites_placed:
  "pack_sites offs sites blob pcs = Some (blob', pcs') \<Longrightarrow> length blob' < 2 ^ 32 \<Longrightarrow>
   (off, st) \<in> set sites \<Longrightarrow>
   \<exists>pc \<in> set pcs'. \<exists>bs. code_off pc = off \<and> write_safepoint_record st offs = Some bs \<and>
     holds_at blob' (unat (site_off pc)) bs"
proof (induction offs sites blob pcs rule: pack_sites.induct)
  case (2 offs off' st' sites blob pcs)
  let ?pc = "\<lparr>code_off = off', site_off = of_nat (length blob)\<rparr> :: pc_desc"
  obtain bs where bs: "write_safepoint_record st' offs = Some bs"
    and rest: "pack_sites offs sites (blob @ bs) (pcs @ [?pc]) = Some (blob', pcs')"
    using 2(2) by (auto simp: bind_eq_Some_conv)
  obtain b ext where eqs: "blob' = (blob @ bs) @ b" "pcs' = (pcs @ [?pc]) @ ext"
    using pack_sites_extends [OF rest] by blast
  show ?case
  proof (cases "(off, st) \<in> set sites")
    case True
    then show ?thesis using 2(1) [OF bs rest "2.prems"(2)] by blast
  next
    case False
    then have eq: "off = off'" "st = st'" using "2.prems"(3) by auto
    have "holds_at blob' (unat (of_nat (length blob) :: u32)) bs"
      using "2.prems"(2) eqs by (auto simp: unat_of_pos intro: holds_at_mid)
    then show ?thesis using bs eqs eq by (intro bexI [of _ ?pc]) auto
  qed
qed simp

lemma pack_sites_total:
  "\<forall>(off, st) \<in> set sites. unat (st_scope st) < length offs \<Longrightarrow>
   \<exists>blob' pcs'. pack_sites offs sites blob pcs = Some (blob', pcs')"
  by (induction offs sites blob pcs rule: pack_sites.induct)
    (auto simp: write_safepoint_record_def slice_get_def Let_def)

subsection \<open>What a recorder holds\<close>

text \<open>The recorders the compiler can build: a fresh one, extended by the two operations.\<close>

inductive recording :: "recorder \<Rightarrow> bool" where
  recording_new: "recording new_recorder"
| recording_scope: "recording r \<Longrightarrow> begin_scope data r = Some (i, r') \<Longrightarrow> recording r'"
| recording_site: "recording r \<Longrightarrow> record_site off st r = Some r' \<Longrightarrow> recording r'"

definition wf_recorder :: "recorder \<Rightarrow> bool" where
  "wf_recorder r \<longleftrightarrow>
     (\<forall>i < length (rec_scopes r). \<forall>l. sender_of (rec_scopes r ! i) = Some l \<longrightarrow> unat (sender l) < i) \<and>
     (\<forall>(off, st) \<in> set (rec_sites r). unat (st_scope st) < length (rec_scopes r) \<and>
        \<not> (st_kind st = CallK \<and> st_reexecute st))"

lemma recording_wf: "recording r \<Longrightarrow> wf_recorder r"
proof (induction rule: recording.induct)
  case (recording_scope r data i r')
  then show ?case
    by (fastforce simp: begin_scope_def wf_recorder_def bind_eq_Some_conv nth_append less_Suc_eq
        split: option.splits)
qed (fastforce simp: wf_recorder_def new_recorder_def record_site_def bind_eq_Some_conv)+

definition short_recorder :: "recorder \<Rightarrow> bool" where
  "short_recorder r \<longleftrightarrow> (\<forall>s \<in> set (rec_scopes r). short_scope s) \<and>
     (\<forall>(off, st) \<in> set (rec_sites r). short_locs (st_stack st))"

text \<open>The virtual frames of a scope: itself, then the scopes it is inlined into.\<close>

function virtual_frames :: "scope_desc_data list \<Rightarrow> nat \<Rightarrow> scope_desc_data list" where
  "virtual_frames ss i =
     (if i < length ss
      then ss ! i # (case sender_of (ss ! i) of
             None \<Rightarrow> []
           | Some l \<Rightarrow> if unat (sender l) < i then virtual_frames ss (unat (sender l)) else [])
      else [])"
  by pat_completeness auto
termination by (relation "measure snd") auto

declare virtual_frames.simps [simp del]

definition data_view :: "scope_desc_data \<Rightarrow>
    u32 \<times> bool \<times> (u16 \<times> value_loc list) option \<times> value_loc \<times> value_loc list \<times> ctx_loc" where
  "data_view s = (method_pool_ix s, is_block s,
     map_option (\<lambda>l. (sender_bci l, pending_stack l)) (sender_of s), receiver s, slots s, ctx s)"

definition scope_view :: "decoded_scope \<Rightarrow>
    u32 \<times> bool \<times> (u16 \<times> value_loc list) option \<times> value_loc \<times> value_loc list \<times> ctx_loc" where
  "scope_view d = (d_method_pool_ix d, d_is_block d, map_option snd (d_sender d),
     d_receiver d, d_slots d, d_ctx d)"

lemma scope_view_decoded_of [simp]: "scope_view (decoded_of offs s) = data_view s"
  by (simp add: scope_view_def data_view_def decoded_of_def option.map_comp comp_def)

lemma chain_collect_frames:
  assumes placed: "\<And>i. i < length ss \<Longrightarrow> placed blob offs i (ss ! i)"
    and short: "\<And>s. s \<in> set ss \<Longrightarrow> short_scope s"
    and acyclic: "\<And>i l. i < length ss \<Longrightarrow> sender_of (ss ! i) = Some l \<Longrightarrow> unat (sender l) < i"
  shows "i < length ss \<Longrightarrow>
    chain_collect \<lparr>it_blob = blob, it_next_off = Some (offs ! i)\<rparr>
      = Some (map (decoded_of offs) (virtual_frames ss i))"
proof (induction i rule: less_induct)
  case (less i)
  have dec: "decode_scope blob (offs ! i) = Some (decoded_of offs (ss ! i))"
    using placed [OF less.prems] short less.prems by (auto simp: placed_def intro: decode_scope_record)
  show ?case
  proof (cases "sender_of (ss ! i)")
    case None
    then show ?thesis
      using dec less.prems
      by (subst chain_collect.simps, subst chain_collect.simps)
        (simp add: chain_next_def decoded_of_def virtual_frames.simps [of ss i])
  next
    case (Some l)
    with less.prems have l: "unat (sender l) < i" by (rule acyclic)
    with less have "chain_collect \<lparr>it_blob = blob, it_next_off = Some (offs ! unat (sender l))\<rparr>
      = Some (map (decoded_of offs) (virtual_frames ss (unat (sender l))))" by simp
    then show ?thesis
      using dec less.prems l Some
      by (subst chain_collect.simps)
        (simp add: chain_next_def decoded_of_def virtual_frames.simps [of ss i])
  qed
qed

lemma find_pc_desc_sorted:
  assumes "pc \<in> set pcs" "distinct (map code_off pcs)"
  shows "find_pc_desc (sort_key code_off pcs) (code_off pc) = Some pc"
proof -
  let ?ks = "map code_off (sort_key code_off pcs)"
  obtain i where i: "i < length pcs" "sort_key code_off pcs ! i = pc"
    using assms(1) by (metis in_set_conv_nth length_sort set_sort)
  have "distinct ?ks"
    using assms(2) by (metis distinct_map distinct_sort set_sort)
  then have "binary_search ?ks (?ks ! i) = Some i"
    using i by (intro binary_search_distinct) auto
  then show ?thesis using i by (simp add: find_pc_desc_def)
qed

subsection \<open>Packing loses nothing\<close>

lemma pack_total: "wf_recorder r \<Longrightarrow> \<exists>blob pcs. pack r = Some (blob, pcs)"
proof -
  assume wf: "wf_recorder r"
  obtain blob offs where ps: "pack_scopes (rec_scopes r) [] [] = Some (blob, offs)"
    using pack_scopes_total [of "rec_scopes r" "[]" "[]"] wf by (auto simp: wf_recorder_def)
  then have "length offs = length (rec_scopes r)" using pack_scopes_extends by fastforce
  then have "\<exists>b p. pack_sites offs (rec_sites r) blob [] = Some (b, p)"
    using wf by (intro pack_sites_total) (auto simp: wf_recorder_def)
  with ps show ?thesis by (auto simp: pack_def)
qed

lemma pack_decode:
  assumes wf: "wf_recorder r" and short: "short_recorder r" and pk: "pack r = Some (blob, pcs)"
    and len: "length blob < 2 ^ 32" and dist: "distinct (map fst (rec_sites r))"
    and site: "(off, st) \<in> set (rec_sites r)"
  shows "\<exists>ds. at_parts blob pcs off = Some ds \<and>
      d_bci (ds_site ds) = st_bci st \<and> d_kind (ds_site ds) = st_kind st \<and>
      d_reexecute (ds_site ds) = st_reexecute st \<and> d_stack (ds_site ds) = st_stack st \<and>
      map_option scope_view (innermost ds) = Some (data_view (rec_scopes r ! unat (st_scope st))) \<and>
      map_option (map scope_view) (chain_collect (ds_scopes ds))
        = Some (map data_view (virtual_frames (rec_scopes r) (unat (st_scope st))))"
proof -
  obtain blob0 offs pcs0 where scs: "pack_scopes (rec_scopes r) [] [] = Some (blob0, offs)"
    and sts: "pack_sites offs (rec_sites r) blob0 [] = Some (blob, pcs0)" and pcs: "pcs = sort_key code_off pcs0"
    using pk by (auto simp: pack_def bind_eq_Some_conv)
  obtain b where blob: "blob = blob0 @ b" and codes: "map code_off pcs0 = map fst (rec_sites r)"
    using pack_sites_extends [OF sts] by auto
  have lo: "length offs = length (rec_scopes r)" using pack_scopes_extends [OF scs] by auto
  have pl: "placed blob offs i (rec_scopes r ! i)" if "i < length (rec_scopes r)" for i
    using pack_scopes_placed [OF scs _ that] len blob lo that placed_mono [of blob0 offs i _ b "[]"] by simp
  have sc: "unat (st_scope st) < length (rec_scopes r)" using wf site by (auto simp: wf_recorder_def)
  have chain: "chain_collect \<lparr>it_blob = blob, it_next_off = Some (offs ! unat (st_scope st))\<rparr>
      = Some (map (decoded_of offs) (virtual_frames (rec_scopes r) (unat (st_scope st))))"
    using wf short sc
    by (intro chain_collect_frames pl) (auto simp: wf_recorder_def short_recorder_def)
  have inner: "decode_scope blob (offs ! unat (st_scope st))
      = Some (decoded_of offs (rec_scopes r ! unat (st_scope st)))"
    using pl [OF sc] short sc by (auto simp: placed_def short_recorder_def intro: decode_scope_record)
  obtain pc bs where pc: "pc \<in> set pcs0" "code_off pc = off"
    and bs: "write_safepoint_record st offs = Some bs" "holds_at blob (unat (site_off pc)) bs"
    using pack_sites_placed [OF sts len site] by blast
  have "find_pc_desc pcs off = Some pc"
    using find_pc_desc_sorted [OF pc(1)] dist codes pc(2) pcs by simp
  then show ?thesis
    using decode_site_record [OF bs] short site chain inner
    by (auto simp: at_parts_def short_recorder_def innermost_def ds_scopes_def comp_def)
qed

lemma at_parts_miss:
  assumes "pack r = Some (blob, pcs)" "off \<notin> fst ` set (rec_sites r)"
  shows "at_parts blob pcs off = None"
proof -
  obtain blob0 offs pcs0 where sts: "pack_sites offs (rec_sites r) blob0 [] = Some (blob, pcs0)"
    and pcs: "pcs = sort_key code_off pcs0"
    using assms(1) by (auto simp: pack_def bind_eq_Some_conv)
  have "code_off ` set pcs0 = fst ` set (rec_sites r)"
    using pack_sites_extends [OF sts] by (metis append_Nil set_map)
  then have "off \<notin> set (map code_off pcs)" using assms(2) pcs by simp
  then have "binary_search (map code_off pcs) off = None"
    using binary_search_sound [of "map code_off pcs" off] by (metis not_None_eq nth_mem)
  then show ?thesis by (simp add: at_parts_def find_pc_desc_def)
qed

text \<open>
  C9. Deoptimization metadata survives packing. For every recorder the compiler can build
  (operand lists shorter than \<open>2^64\<close>, one site per code offset), \<open>pack\<close> does not panic, and when the
  blob stays below 4 GiB, looking up the code offset of any recorded site returns exactly the recorded
  bci, kind, reexecute flag and operand stack, its innermost scope, and the full chain of inlined scopes
  out to the root, each with its method, receiver, slots, context and pending sender stack; the chain
  walk ends. A code offset that was not recorded panics.
\<close>
theorem deopt_metadata_lossless:
  assumes "recording r" and "short_recorder r" and "distinct (map fst (rec_sites r))"
  shows "\<exists>blob pcs. pack r = Some (blob, pcs) \<and>
    (\<forall>off. off \<notin> fst ` set (rec_sites r) \<longrightarrow> at_parts blob pcs off = None) \<and>
    (length blob < 2 ^ 32 \<longrightarrow>
     (\<forall>(off, st) \<in> set (rec_sites r). \<exists>ds. at_parts blob pcs off = Some ds \<and>
      d_bci (ds_site ds) = st_bci st \<and> d_kind (ds_site ds) = st_kind st \<and>
      d_reexecute (ds_site ds) = st_reexecute st \<and> d_stack (ds_site ds) = st_stack st \<and>
      map_option scope_view (innermost ds) = Some (data_view (rec_scopes r ! unat (st_scope st))) \<and>
      map_option (map scope_view) (chain_collect (ds_scopes ds))
        = Some (map data_view (virtual_frames (rec_scopes r) (unat (st_scope st))))))"
proof -
  have wf: "wf_recorder r" using assms(1) by (rule recording_wf)
  then obtain blob pcs where pk: "pack r = Some (blob, pcs)" using pack_total by blast
  show ?thesis
    using pack_decode [OF wf assms(2) pk _ assms(3)] at_parts_miss [OF pk]
    by (intro exI [of _ blob] exI [of _ pcs] conjI pk allI impI ballI) auto
qed

text \<open>A method with one inlined block: its own scope, the block's scope, a call and a trap.\<close>

definition demo_root :: scope_desc_data where
  "demo_root = \<lparr>method_pool_ix = 3, is_block = False, sender_of = None, receiver = FrameSlot (-8),
     slots = [ConstSmi (-5), NilLoc], ctx = Materialized (FrameSlot (-24))\<rparr>"

definition demo_inlined :: scope_desc_data where
  "demo_inlined = \<lparr>method_pool_ix = 300, is_block = True,
     sender_of = Some \<lparr>sender = 0, sender_bci = 17, pending_stack = [ConstPool 2, DoubleSlot (-32)]\<rparr>,
     receiver = NilLoc, slots = [ElidedClosure 7], ctx = Elided [ConstSmi 1000000]\<rparr>"

definition demo_call :: safepoint_state where
  "demo_call = \<lparr>st_scope = 0, st_bci = 4, st_kind = CallK, st_reexecute = False, st_stack = [NilLoc]\<rparr>"

definition demo_trap :: safepoint_state where
  "demo_trap = \<lparr>st_scope = 1, st_bci = 9, st_kind = UncommonTrapK, st_reexecute = True,
     st_stack = [FrameSlot (-40), ConstSmi 2]\<rparr>"

definition demo_recorder :: recorder where
  "demo_recorder = \<lparr>rec_scopes = [demo_root, demo_inlined],
     rec_sites = [(128, demo_trap), (64, demo_call)]\<rparr>"

lemmas demo_defs = demo_recorder_def demo_root_def demo_inlined_def demo_call_def demo_trap_def

lemma demo_recording: "recording demo_recorder"
proof -
  have 1: "recording \<lparr>rec_scopes = [demo_root], rec_sites = []\<rparr>"
    by (rule recording_scope [OF recording_new, of demo_root 0])
      (simp add: begin_scope_def new_recorder_def demo_root_def)
  have 2: "recording \<lparr>rec_scopes = [demo_root, demo_inlined], rec_sites = []\<rparr>"
    by (rule recording_scope [OF 1, of demo_inlined 1]) (simp add: begin_scope_def demo_inlined_def)
  have 3: "recording \<lparr>rec_scopes = [demo_root, demo_inlined], rec_sites = [(128, demo_trap)]\<rparr>"
    by (rule recording_site [OF 2, of 128 demo_trap]) (simp add: record_site_def demo_trap_def)
  show ?thesis
    unfolding demo_recorder_def
    by (rule recording_site [OF 3, of 64 demo_call]) (simp add: record_site_def demo_call_def)
qed

lemma demo_short: "short_recorder demo_recorder"
  by (simp add: short_recorder_def short_scope_def short_locs_def demo_defs)

lemma demo_pack: "map_option (length \<circ> fst) (pack demo_recorder) = Some 42"
  by code_simp

theorem deopt_metadata_lossless_witness:
  "recording demo_recorder \<and> short_recorder demo_recorder \<and> distinct (map fst (rec_sites demo_recorder)) \<and>
   (\<exists>blob pcs ds. pack demo_recorder = Some (blob, pcs) \<and> length blob < 2 ^ 32 \<and>
      at_parts blob pcs 128 = Some ds \<and> d_stack (ds_site ds) = [FrameSlot (-40), ConstSmi 2] \<and>
      map_option (map scope_view) (chain_collect (ds_scopes ds))
        = Some [data_view demo_inlined, data_view demo_root])"
proof -
  have d: "distinct (map fst (rec_sites demo_recorder))" by (simp add: demo_recorder_def)
  have fr: "virtual_frames (rec_scopes demo_recorder) (unat (st_scope demo_trap)) = [demo_inlined, demo_root]"
    by (simp add: demo_defs virtual_frames.simps)
  show ?thesis
    using deopt_metadata_lossless [OF demo_recording demo_short d] demo_recording demo_short d demo_pack fr
    by (auto simp: demo_recorder_def demo_trap_def)
qed

subsection \<open>The on-stack-replacement map round trip\<close>

interpretation osr_src: codec write_osr_source read_osr_source "\<lambda>_. True"
proof
  fix x pre post
  have "holds_at (pre @ write_osr_source x @ post) (length pre) (write_osr_source x)" by (rule holds_at_mid)
  then show "read_osr_source (pre @ write_osr_source x @ post) (length pre)
      = Some (x, length pre + length (write_osr_source x))"
    by (cases x) (auto simp: read_osr_source_def codec_simps TAG_RECEIVER_def TAG_SLOT_def
        TAG_STACK_def TAG_CONTEXT_def)
qed

definition osr_slot_ok :: "osr_slot \<Rightarrow> bool" where
  "osr_slot_ok s \<longleftrightarrow> sint (dst_frame_off s) < 0 \<and> dst_frame_off s \<noteq> 0x80000000"

definition osr_slot_bytes :: "osr_slot \<Rightarrow> bytes" where
  "osr_slot_bytes s = write_osr_source (src s) @ write_uleb (scast (- dst_frame_off s))"

interpretation osr_slot: codec osr_slot_bytes read_osr_slot osr_slot_ok
proof
  fix x pre post assume ok: "osr_slot_ok x"
  have "- dst_frame_off x \<noteq> 0x80000000"
  proof
    assume "- dst_frame_off x = 0x80000000"
    then have "- (- dst_frame_off x) = - 0x80000000" by (rule arg_cong)
    with ok show False by (simp add: osr_slot_ok_def)
  qed
  moreover have "holds_at (pre @ osr_slot_bytes x @ post) (length pre) (osr_slot_bytes x)"
    by (rule holds_at_mid)
  ultimately show "read_osr_slot (pre @ osr_slot_bytes x @ post) (length pre)
      = Some (x, length pre + length (osr_slot_bytes x))"
    by (auto simp: read_osr_slot_def osr_slot_bytes_def codec_simps osr_src.rd_at i32_neg_def)
qed

lemma pack_osr_slot_bytes:
  "pack_osr_slot s = (if osr_slot_ok s then Some (osr_slot_bytes s) else None)"
  by (simp add: pack_osr_slot_def osr_slot_ok_def osr_slot_bytes_def i32_neg_def rust_assert_def)

lemma pack_osr_slots_bytes:
  "pack_osr_slots ss = (if \<forall>s \<in> set ss. osr_slot_ok s then Some (concat (map osr_slot_bytes ss)) else None)"
  by (induction ss) (simp_all add: pack_osr_slot_bytes)

text \<open>
  C20. The on-stack-replacement map: packing panics exactly when some destination is not a
  negative frame offset (or is the one \<open>i32\<close> without a negation), and unpacking what was
  packed returns the map.
\<close>
theorem osr_map_roundtrip:
  assumes "length (osr_slots m) < 2 ^ 64"
  shows "(pack_osr m = None \<longleftrightarrow> (\<exists>s \<in> set (osr_slots m).
            sint (dst_frame_off s) \<ge> 0 \<or> dst_frame_off s = 0x80000000)) \<and>
         (\<forall>buf. pack_osr m = Some buf \<longrightarrow> unpack_osr buf = Some m)"
proof -
  have n: "unat (of_nat (length (osr_slots m)) :: u64) = length (osr_slots m)"
    using assms by (simp add: unat_of_nat take_bit_nat_eq_self)
  have "unpack_osr buf = Some m" if "pack_osr m = Some buf" for buf
  proof -
    from that have ok: "\<forall>s \<in> set (osr_slots m). osr_slot_ok s"
      and buf: "holds_at buf 0 (write_uleb (ucast (osr_bci m)) @ write_uleb (ucast (entry_off m))
           @ write_uleb (ucast (frame_words m))
           @ write_uleb (of_nat (length (osr_slots m))) @ concat (map osr_slot_bytes (osr_slots m)))"
      using holds_at_end [of "[]" buf]
      by (auto simp: pack_osr_def pack_osr_slots_bytes split: if_splits)
    from buf show ?thesis
      by (auto simp: unpack_osr_def codec_simps n osr_slot.read_seq_at ok)
  qed
  then show ?thesis
    by (auto simp: pack_osr_def pack_osr_slots_bytes osr_slot_ok_def not_less)
qed

theorem osr_map_roundtrip_witness:
  "length (osr_slots \<lparr>osr_bci = 12, entry_off = 256, frame_words = 6, osr_slots =
     [\<lparr>src = OsrReceiver, dst_frame_off = - 8\<rparr>, \<lparr>src = OsrArgSlot 1, dst_frame_off = - 16\<rparr>]\<rparr>) < 2 ^ 64 \<and>
   unpack_osr (the (pack_osr \<lparr>osr_bci = 12, entry_off = 256, frame_words = 6, osr_slots =
     [\<lparr>src = OsrReceiver, dst_frame_off = - 8\<rparr>, \<lparr>src = OsrArgSlot 1, dst_frame_off = - 16\<rparr>]\<rparr>))
   = Some \<lparr>osr_bci = 12, entry_off = 256, frame_words = 6, osr_slots =
     [\<lparr>src = OsrReceiver, dst_frame_off = - 8\<rparr>, \<lparr>src = OsrArgSlot 1, dst_frame_off = - 16\<rparr>]\<rparr>"
  using osr_map_roundtrip [of "\<lparr>osr_bci = 12, entry_off = 256, frame_words = 6, osr_slots =
     [\<lparr>src = OsrReceiver, dst_frame_off = - 8\<rparr>, \<lparr>src = OsrArgSlot 1, dst_frame_off = - 16\<rparr>]\<rparr>"]
  by (auto simp: pack_osr_def)

end
