(* ===== verification/Compiled_Method.thy ===== *)
theory Compiled_Method
  imports Oops
begin

text \<open>
  The header of a compiled method, \<open>src/src/bytecode/method.rs\<close>, with the loop counter of
  \<open>src/src/runtime/osr.rs\<close>. A method is a record of its body words (the fields are oops, so
  the flags and the counters are tagged small integers) and its bytecode bytes. Every accessor that
  reads a field through \<open>expect\<close> returns \<^const>\<open>None\<close> where it would panic.
\<close>

record method_oop =
  m_selector :: oop
  m_holder :: oop
  m_flags :: oop
  m_primitive :: oop
  m_counters :: oop
  m_literals :: "oop list"
  m_ics :: "oop list"
  m_bytes :: bytes

subsection \<open>Layout constants\<close>

definition METHOD_FLAGS_ARGC_SHIFT :: nat where "METHOD_FLAGS_ARGC_SHIFT = 0"
definition METHOD_FLAGS_ARGC_BITS :: nat where "METHOD_FLAGS_ARGC_BITS = 4"
definition METHOD_FLAGS_NTEMPS_SHIFT :: nat where "METHOD_FLAGS_NTEMPS_SHIFT = 4"
definition METHOD_FLAGS_NTEMPS_BITS :: nat where "METHOD_FLAGS_NTEMPS_BITS = 8"
definition METHOD_FLAGS_HAS_CTX_SHIFT :: nat where "METHOD_FLAGS_HAS_CTX_SHIFT = 12"
definition METHOD_FLAGS_IS_BLOCK_SHIFT :: nat where "METHOD_FLAGS_IS_BLOCK_SHIFT = 13"
definition METHOD_FLAGS_PRIM_FAILS_SHIFT :: nat where "METHOD_FLAGS_PRIM_FAILS_SHIFT = 14"
definition METHOD_FLAGS_CAPTURES_CTX_SHIFT :: nat where "METHOD_FLAGS_CAPTURES_CTX_SHIFT = 15"
definition METHOD_FLAGS_NCTX_SHIFT :: nat where "METHOD_FLAGS_NCTX_SHIFT = 16"
definition METHOD_FLAGS_NCTX_BITS :: nat where "METHOD_FLAGS_NCTX_BITS = 8"

definition METHOD_FLAGS_ARGC_MASK :: int where
  "METHOD_FLAGS_ARGC_MASK = push_bit METHOD_FLAGS_ARGC_SHIFT (push_bit METHOD_FLAGS_ARGC_BITS 1 - 1)"
definition METHOD_FLAGS_NTEMPS_MASK :: int where
  "METHOD_FLAGS_NTEMPS_MASK = push_bit METHOD_FLAGS_NTEMPS_SHIFT (push_bit METHOD_FLAGS_NTEMPS_BITS 1 - 1)"
definition METHOD_FLAGS_HAS_CTX_MASK :: int where
  "METHOD_FLAGS_HAS_CTX_MASK = push_bit METHOD_FLAGS_HAS_CTX_SHIFT 1"
definition METHOD_FLAGS_IS_BLOCK_MASK :: int where
  "METHOD_FLAGS_IS_BLOCK_MASK = push_bit METHOD_FLAGS_IS_BLOCK_SHIFT 1"
definition METHOD_FLAGS_PRIM_FAILS_MASK :: int where
  "METHOD_FLAGS_PRIM_FAILS_MASK = push_bit METHOD_FLAGS_PRIM_FAILS_SHIFT 1"
definition METHOD_FLAGS_CAPTURES_CTX_MASK :: int where
  "METHOD_FLAGS_CAPTURES_CTX_MASK = push_bit METHOD_FLAGS_CAPTURES_CTX_SHIFT 1"
definition METHOD_FLAGS_NCTX_MASK :: int where
  "METHOD_FLAGS_NCTX_MASK = push_bit METHOD_FLAGS_NCTX_SHIFT (push_bit METHOD_FLAGS_NCTX_BITS 1 - 1)"

definition METHOD_ARGC_MAX :: nat where "METHOD_ARGC_MAX = 2 ^ METHOD_FLAGS_ARGC_BITS - 1"
definition METHOD_NTEMPS_MAX :: nat where "METHOD_NTEMPS_MAX = 2 ^ METHOD_FLAGS_NTEMPS_BITS - 1"
definition METHOD_NCTX_MAX :: nat where "METHOD_NCTX_MAX = 2 ^ METHOD_FLAGS_NCTX_BITS - 1"

definition COUNTERS_INVOCATION_MASK :: int where "COUNTERS_INVOCATION_MASK = 0xFFFF"
definition COUNTERS_INVOCATION_MAX :: int where "COUNTERS_INVOCATION_MAX = 0xFFFF"
definition COUNTERS_LOOP_SHIFT :: nat where "COUNTERS_LOOP_SHIFT = 16"
definition COUNTERS_LOOP_MASK :: int where "COUNTERS_LOOP_MASK = push_bit COUNTERS_LOOP_SHIFT 0xFFFF"
definition LOOP_COUNTER_LIMIT :: int where "LOOP_COUNTER_LIMIT = 10000"
definition COUNTERS_COMPILE_DISABLED_BIT :: int where "COUNTERS_COMPILE_DISABLED_BIT = push_bit 33 1"
definition COUNTERS_HAS_BP_BIT :: int where "COUNTERS_HAS_BP_BIT = push_bit 32 1"

subsection \<open>The flags word\<close>

definition flags_value :: "method_oop \<Rightarrow> int option" where
  "flags_value m = map_option smi_value (smi_try_from (m_flags m))"

definition set_flags_value :: "int \<Rightarrow> method_oop \<Rightarrow> method_oop option" where
  "set_flags_value v m = do { s \<leftarrow> smi_new v; Some (m\<lparr>m_flags := s\<rparr>) }"

definition argc :: "method_oop \<Rightarrow> nat option" where
  "argc m = do { v \<leftarrow> flags_value m;
     Some (nat (drop_bit METHOD_FLAGS_ARGC_SHIFT (v AND METHOD_FLAGS_ARGC_MASK))) }"

definition ntemps :: "method_oop \<Rightarrow> nat option" where
  "ntemps m = do { v \<leftarrow> flags_value m;
     Some (nat (drop_bit METHOD_FLAGS_NTEMPS_SHIFT (v AND METHOD_FLAGS_NTEMPS_MASK))) }"

definition has_ctx :: "method_oop \<Rightarrow> bool option" where
  "has_ctx m = do { v \<leftarrow> flags_value m; Some (v AND METHOD_FLAGS_HAS_CTX_MASK \<noteq> 0) }"

definition is_block_method :: "method_oop \<Rightarrow> bool option" where
  "is_block_method m = do { v \<leftarrow> flags_value m; Some (v AND METHOD_FLAGS_IS_BLOCK_MASK \<noteq> 0) }"

definition prim_fails :: "method_oop \<Rightarrow> bool option" where
  "prim_fails m = do { v \<leftarrow> flags_value m; Some (v AND METHOD_FLAGS_PRIM_FAILS_MASK \<noteq> 0) }"

definition captures_ctx :: "method_oop \<Rightarrow> bool option" where
  "captures_ctx m = do { v \<leftarrow> flags_value m; Some (v AND METHOD_FLAGS_CAPTURES_CTX_MASK \<noteq> 0) }"

definition nctx :: "method_oop \<Rightarrow> nat option" where
  "nctx m = do { v \<leftarrow> flags_value m;
     Some (nat (drop_bit METHOD_FLAGS_NCTX_SHIFT (v AND METHOD_FLAGS_NCTX_MASK))) }"

definition set_flags ::
  "nat \<Rightarrow> nat \<Rightarrow> bool \<Rightarrow> bool \<Rightarrow> bool \<Rightarrow> bool \<Rightarrow> nat \<Rightarrow> method_oop \<Rightarrow> method_oop option" where
  "set_flags ac nt hc ib pf cc nc m = do {
     rust_assert (ac < 2 ^ METHOD_FLAGS_ARGC_BITS);
     rust_assert (nt < 2 ^ METHOD_FLAGS_NTEMPS_BITS);
     rust_assert (nc < 2 ^ METHOD_FLAGS_NCTX_BITS);
     let v = push_bit METHOD_FLAGS_ARGC_SHIFT (int ac);
     let v = v OR push_bit METHOD_FLAGS_NTEMPS_SHIFT (int nt);
     let v = (if hc then v OR METHOD_FLAGS_HAS_CTX_MASK else v);
     let v = (if ib then v OR METHOD_FLAGS_IS_BLOCK_MASK else v);
     let v = (if pf then v OR METHOD_FLAGS_PRIM_FAILS_MASK else v);
     let v = (if cc then v OR METHOD_FLAGS_CAPTURES_CTX_MASK else v);
     let v = v OR push_bit METHOD_FLAGS_NCTX_SHIFT (int nc);
     set_flags_value v m
   }"

subsection \<open>Primitive number and counters\<close>

definition primitive :: "method_oop \<Rightarrow> int option" where
  "primitive m = map_option smi_value (smi_try_from (m_primitive m))"

definition set_primitive :: "int \<Rightarrow> method_oop \<Rightarrow> method_oop option" where
  "set_primitive v m = do { s \<leftarrow> smi_new v; Some (m\<lparr>m_primitive := s\<rparr>) }"

definition counters :: "method_oop \<Rightarrow> int option" where
  "counters m = map_option smi_value (smi_try_from (m_counters m))"

definition set_counters :: "int \<Rightarrow> method_oop \<Rightarrow> method_oop option" where
  "set_counters v m = do { s \<leftarrow> smi_new v; Some (m\<lparr>m_counters := s\<rparr>) }"

definition compile_disabled :: "method_oop \<Rightarrow> bool option" where
  "compile_disabled m = do { c \<leftarrow> counters m; Some (c AND COUNTERS_COMPILE_DISABLED_BIT \<noteq> 0) }"

definition set_compile_disabled :: "method_oop \<Rightarrow> method_oop option" where
  "set_compile_disabled m = set_counters COUNTERS_COMPILE_DISABLED_BIT m"

definition saturate_invocation :: "int \<Rightarrow> method_oop \<Rightarrow> (bool \<times> method_oop) option" where
  "saturate_invocation n m = do {
     c \<leftarrow> counters m;
     let cur = c AND COUNTERS_INVOCATION_MASK;
     let want = max 0 (min n COUNTERS_INVOCATION_MAX);
     if cur \<ge> want then Some (False, m)
     else do {
       m' \<leftarrow> set_counters ((c AND NOT COUNTERS_INVOCATION_MASK) OR want) m;
       Some (True, m')
     }
   }"

definition clear_compile_disabled :: "method_oop \<Rightarrow> method_oop option" where
  "clear_compile_disabled m = do {
     c \<leftarrow> counters m; set_counters (c AND NOT COUNTERS_COMPILE_DISABLED_BIT) m }"

definition has_bp :: "method_oop \<Rightarrow> bool option" where
  "has_bp m = do { c \<leftarrow> counters m; Some (c AND COUNTERS_HAS_BP_BIT \<noteq> 0) }"

definition set_has_bp :: "method_oop \<Rightarrow> method_oop option" where
  "set_has_bp m = do { c \<leftarrow> counters m; set_counters (c OR COUNTERS_HAS_BP_BIT) m }"

definition clear_has_bp :: "method_oop \<Rightarrow> method_oop option" where
  "clear_has_bp m = do { c \<leftarrow> counters m; set_counters (c AND NOT COUNTERS_HAS_BP_BIT) m }"

definition bump_loop_counter :: "method_oop \<Rightarrow> (bool \<times> method_oop) option" where
  "bump_loop_counter m = do {
     c \<leftarrow> counters m;
     let cur = drop_bit COUNTERS_LOOP_SHIFT (c AND COUNTERS_LOOP_MASK);
     let bumped = min (cur + 1) 0xFFFF;
     m' \<leftarrow> set_counters ((c AND NOT COUNTERS_LOOP_MASK) OR push_bit COUNTERS_LOOP_SHIFT bumped) m;
     Some (bumped \<ge> LOOP_COUNTER_LIMIT, m')
   }"

definition reset_loop_counter :: "method_oop \<Rightarrow> method_oop option" where
  "reset_loop_counter m = do {
     c \<leftarrow> counters m;
     set_counters (c AND NOT COUNTERS_LOOP_MASK) m
   }"

text \<open>The invocation counter of \<open>src/src/interpreter/send.rs\<close>.\<close>

definition bump_invocation :: "method_oop \<Rightarrow> (int \<times> method_oop) option" where
  "bump_invocation m = do {
     c \<leftarrow> counters m;
     let inv = c AND COUNTERS_INVOCATION_MASK;
     let bumped = min (inv + 1) COUNTERS_INVOCATION_MAX;
     m' \<leftarrow> set_counters ((c AND NOT COUNTERS_INVOCATION_MASK) OR bumped) m;
     Some (bumped, m')
   }"

subsection \<open>Bytecode bytes\<close>

definition bytecode_len :: "method_oop \<Rightarrow> nat" where
  "bytecode_len m = length (m_bytes m)"

definition bytecode_byte :: "method_oop \<Rightarrow> nat \<Rightarrow> u8 option" where
  "bytecode_byte m bci = slice_get (m_bytes m) bci"

definition set_bytecode_byte :: "nat \<Rightarrow> u8 \<Rightarrow> method_oop \<Rightarrow> method_oop option" where
  "set_bytecode_byte bci b m = do {
     rust_assert (bci < bytecode_len m);
     Some (m\<lparr>m_bytes := (m_bytes m)[bci := b]\<rparr>)
   }"

subsection \<open>Bits of the packed words\<close>

lemmas flag_shift_defs =
  METHOD_FLAGS_ARGC_SHIFT_def METHOD_FLAGS_ARGC_BITS_def METHOD_FLAGS_NTEMPS_SHIFT_def
  METHOD_FLAGS_NTEMPS_BITS_def METHOD_FLAGS_HAS_CTX_SHIFT_def METHOD_FLAGS_IS_BLOCK_SHIFT_def
  METHOD_FLAGS_PRIM_FAILS_SHIFT_def METHOD_FLAGS_CAPTURES_CTX_SHIFT_def METHOD_FLAGS_NCTX_SHIFT_def
  METHOD_FLAGS_NCTX_BITS_def

lemma mask_consts:
  "METHOD_FLAGS_ARGC_MASK = mask 4" "METHOD_FLAGS_NTEMPS_MASK = push_bit 4 (mask 8)"
  "METHOD_FLAGS_NCTX_MASK = push_bit 16 (mask 8)"
  "METHOD_FLAGS_HAS_CTX_MASK = push_bit 12 1" "METHOD_FLAGS_IS_BLOCK_MASK = push_bit 13 1"
  "METHOD_FLAGS_PRIM_FAILS_MASK = push_bit 14 1" "METHOD_FLAGS_CAPTURES_CTX_MASK = push_bit 15 1"
  "COUNTERS_INVOCATION_MASK = mask 16" "COUNTERS_LOOP_MASK = push_bit 16 (mask 16)"
  "COUNTERS_COMPILE_DISABLED_BIT = push_bit 33 1" "COUNTERS_HAS_BP_BIT = push_bit 32 1"
  by (simp_all add: METHOD_FLAGS_ARGC_MASK_def METHOD_FLAGS_NTEMPS_MASK_def METHOD_FLAGS_NCTX_MASK_def
      METHOD_FLAGS_HAS_CTX_MASK_def METHOD_FLAGS_IS_BLOCK_MASK_def METHOD_FLAGS_PRIM_FAILS_MASK_def
      METHOD_FLAGS_CAPTURES_CTX_MASK_def flag_shift_defs COUNTERS_INVOCATION_MASK_def
      COUNTERS_LOOP_MASK_def COUNTERS_LOOP_SHIFT_def COUNTERS_COMPILE_DISABLED_BIT_def
      COUNTERS_HAS_BP_BIT_def mask_eq_exp_minus_1)

lemma int_and_single_bit: "v AND push_bit n 1 \<noteq> 0 \<longleftrightarrow> bit v n" for v :: int
  by (metis push_bit_eq_mult mult_1 and_exp_eq_0_iff_not_bit)

lemma int_small_bits: "0 \<le> v \<Longrightarrow> v < 2 ^ n \<Longrightarrow> bit v i \<Longrightarrow> i < n" for v :: int
  by (metis bit_take_bit_iff take_bit_int_eq_self)

lemma smi_new_bits: "(\<And>i. 61 \<le> i \<Longrightarrow> bit v i = bit v 61) \<Longrightarrow> \<exists>s. smi_new v = Some s"
proof -
  assume h: "\<And>i. 61 \<le> i \<Longrightarrow> bit v i = bit v 61"
  have "signed_take_bit 61 v = v"
  proof (rule bit_eqI)
    fix i show "bit (signed_take_bit 61 v) i = bit v i"
      using h [of i] by (cases "61 \<le> i") (simp_all add: bit_signed_take_bit_iff min_def)
  qed
  then have "- (2 ^ 61) \<le> v \<and> v < 2 ^ 61" by (simp only: signed_take_bit_int_eq_self_iff)
  then show ?thesis by (simp add: smi_new_eq smi_try_new_def smi_bounds)
qed

lemma smi_value_bits: "61 \<le> i \<Longrightarrow> bit (smi_value s) i = bit (smi_value s) 61"
proof -
  assume i: "61 \<le> i"
  have "signed_take_bit 61 (smi_value s) = smi_value s"
    unfolding signed_take_bit_int_eq_self_iff using smi_value_range [of s] by (simp add: smi_bounds)
  moreover have "bit (signed_take_bit 61 (smi_value s)) i = bit (smi_value s) 61"
    using i by (simp add: bit_signed_take_bit_iff min_def)
  ultimately show ?thesis by metis
qed

text \<open>
  Writing a counters word that keeps the sign of the old one never panics and is read back.
\<close>

lemma set_counters_ok:
  assumes "counters m = Some c" and "\<And>i. 61 \<le> i \<Longrightarrow> bit v i = bit c i"
  shows "\<exists>m'. set_counters v m = Some m' \<and> counters m' = Some v"
proof -
  have "\<exists>s. smi_new v = Some s"
    using assms smi_value_bits by (intro smi_new_bits) (auto simp: counters_def)
  then obtain s where s: "smi_new v = Some s" ..
  then have "is_smi s" "smi_value s = v" using smi_try_new_SomeD by (simp_all add: smi_new_eq)
  with s show ?thesis by (simp add: set_counters_def counters_def smi_try_from_def)
qed

subsection \<open>Fields of the counters word\<close>

definition invocation_field :: "int \<Rightarrow> int" where
  "invocation_field c = c AND COUNTERS_INVOCATION_MASK"

definition loop_field :: "int \<Rightarrow> int" where
  "loop_field c = drop_bit COUNTERS_LOOP_SHIFT (c AND COUNTERS_LOOP_MASK)"

definition put_invocation :: "int \<Rightarrow> int \<Rightarrow> int" where
  "put_invocation v c = (c AND NOT COUNTERS_INVOCATION_MASK) OR v"

definition put_loop :: "int \<Rightarrow> int \<Rightarrow> int" where
  "put_loop v c = (c AND NOT COUNTERS_LOOP_MASK) OR push_bit COUNTERS_LOOP_SHIFT v"

definition put_flag :: "nat \<Rightarrow> bool \<Rightarrow> int \<Rightarrow> int" where
  "put_flag n b c = (if b then c OR push_bit n 1 else c AND NOT (push_bit n 1))"

definition count16 :: "int \<Rightarrow> bool" where
  "count16 v \<longleftrightarrow> 0 \<le> v \<and> v \<le> 0xFFFF"

lemma count16_bits: "count16 v \<Longrightarrow> bit v i \<Longrightarrow> i < 16"
  by (rule int_small_bits [of v]) (simp_all add: count16_def)

lemma bit_counter_fields [field_defs]:
  "bit (invocation_field c) i \<longleftrightarrow> i < 16 \<and> bit c i"
  "bit (loop_field c) i \<longleftrightarrow> i < 16 \<and> bit c (16 + i)"
  "count16 v \<Longrightarrow> bit (put_invocation v c) i \<longleftrightarrow> (if i < 16 then bit v i else bit c i)"
  "count16 v \<Longrightarrow> bit (put_loop v c) i \<longleftrightarrow> (if 16 \<le> i \<and> i < 32 then bit v (i - 16) else bit c i)"
  "bit (put_flag n b c) i \<longleftrightarrow> (if i = n then b else bit c i)"
  using count16_bits [of v i] count16_bits [of v "i - 16"]
  by (auto simp: invocation_field_def loop_field_def put_invocation_def put_loop_def put_flag_def
      mask_consts COUNTERS_LOOP_SHIFT_def bit_simps simp del: push_bit_of_1)

lemma field_count16: "count16 (invocation_field c)" "count16 (loop_field c)"
proof -
  have "invocation_field c = take_bit 16 c" "loop_field c = take_bit 16 (drop_bit 16 c)"
    by (rule bit_eqI, simp add: field_defs bit_simps)+
  then show "count16 (invocation_field c)" "count16 (loop_field c)"
    using take_bit_int_less_exp [of 16 c] take_bit_int_less_exp [of 16 "drop_bit 16 c"]
    by (simp_all add: count16_def)
qed

interpretation inv_f: word_field invocation_field put_invocation count16
  by unfold_locales (auto intro!: bit_eqI [where 'a = int] simp: field_defs field_count16 split: if_splits dest: count16_bits)

interpretation loop_f: word_field loop_field put_loop count16
  by unfold_locales (auto intro!: bit_eqI [where 'a = int] simp: field_defs field_count16 split: if_splits dest: count16_bits)

interpretation flag_f: word_field "\<lambda>c. bit c n" "put_flag n" "\<lambda>_. True" for n
  by unfold_locales (auto intro!: bit_eqI [where 'a = int] simp: field_defs split: if_splits)

interpretation inv_loop: word_field_pair invocation_field put_invocation count16 loop_field put_loop count16
  by unfold_locales (auto intro!: bit_eqI [where 'a = int] simp: field_defs split: if_splits dest: count16_bits)

subsection \<open>The operations in terms of the fields\<close>

lemma put_high_bits:
  "count16 v \<Longrightarrow> 61 \<le> i \<Longrightarrow> bit (put_invocation v c) i = bit c i"
  "count16 v \<Longrightarrow> 61 \<le> i \<Longrightarrow> bit (put_loop v c) i = bit c i"
  "n < 61 \<Longrightarrow> 61 \<le> i \<Longrightarrow> bit (put_flag n b c) i = bit c i"
  by (simp_all add: field_defs)

lemma count16_bump: "count16 (min (invocation_field c + 1) 0xFFFF)" "count16 (min (loop_field c + 1) 0xFFFF)"
  using field_count16 [of c] by (simp_all add: count16_def)

lemma counters_flags:
  "counters m = Some c \<Longrightarrow> compile_disabled m = Some (bit c 33)"
  "counters m = Some c \<Longrightarrow> has_bp m = Some (bit c 32)"
  by (simp_all add: compile_disabled_def has_bp_def mask_consts int_and_single_bit del: push_bit_of_1)

lemma flag_puts:
  "c AND NOT COUNTERS_COMPILE_DISABLED_BIT = put_flag 33 False c"
  "c AND NOT COUNTERS_HAS_BP_BIT = put_flag 32 False c"
  "c OR COUNTERS_HAS_BP_BIT = put_flag 32 True c"
  "c AND NOT COUNTERS_LOOP_MASK = put_loop 0 c"
  by (simp_all add: put_flag_def put_loop_def mask_consts)

lemma field_other:
  "count16 v \<Longrightarrow> bit (put_loop v c) 32 = bit c 32" "count16 v \<Longrightarrow> bit (put_loop v c) 33 = bit c 33"
  "count16 v \<Longrightarrow> bit (put_invocation v c) 32 = bit c 32" "count16 v \<Longrightarrow> bit (put_invocation v c) 33 = bit c 33"
  "32 \<le> n \<Longrightarrow> invocation_field (put_flag n b c) = invocation_field c"
  "32 \<le> n \<Longrightarrow> loop_field (put_flag n b c) = loop_field c"
  by (auto intro!: bit_eqI [where 'a = int] simp: field_defs split: if_splits)

lemma count16_0 [simp]: "count16 0"
  by (simp add: count16_def)

lemma bump_loop_counter_field:
  assumes c: "counters m = Some c"
  shows "\<exists>m'. bump_loop_counter m = Some (min (loop_field c + 1) 0xFFFF \<ge> LOOP_COUNTER_LIMIT, m') \<and>
    counters m' = Some (put_loop (min (loop_field c + 1) 0xFFFF) c)"
  using set_counters_ok [OF c put_high_bits(2) [OF count16_bump(2)]] c
  by (force simp: bump_loop_counter_def put_loop_def loop_field_def)

lemma bump_invocation_field:
  assumes c: "counters m = Some c"
  shows "\<exists>m'. bump_invocation m = Some (min (invocation_field c + 1) 0xFFFF, m') \<and>
    counters m' = Some (put_invocation (min (invocation_field c + 1) 0xFFFF) c)"
  using set_counters_ok [OF c put_high_bits(1) [OF count16_bump(1)]] c
  by (force simp: bump_invocation_def put_invocation_def invocation_field_def COUNTERS_INVOCATION_MAX_def)

lemma saturate_invocation_field:
  fixes n :: int
  assumes c: "counters m = Some c"
  defines "want \<equiv> max 0 (min n 0xFFFF)"
  shows "\<exists>m'. saturate_invocation n m = Some (invocation_field c < want, m') \<and>
    counters m' = Some (put_invocation (max (invocation_field c) want) c)"
proof (cases "invocation_field c \<ge> want")
  case True
  then have "max (invocation_field c) want = invocation_field c" by simp
  with True c inv_f.put_get [of c] show ?thesis
    by (simp add: saturate_invocation_def want_def [symmetric] COUNTERS_INVOCATION_MAX_def
        invocation_field_def [symmetric])
next
  case False
  have "count16 want" by (simp add: want_def count16_def)
  from set_counters_ok [OF c put_high_bits(1) [OF this]] False c show ?thesis
    by (force simp: saturate_invocation_def want_def put_invocation_def invocation_field_def
        COUNTERS_INVOCATION_MAX_def max_def)
qed

lemma flag_op_field:
  assumes "counters m = Some c" "n < 61"
  shows "\<exists>m'. set_counters (put_flag n b c) m = Some m' \<and> counters m' = Some (put_flag n b c)"
  using set_counters_ok [OF assms(1) put_high_bits(3) [OF assms(2)]] by blast

lemma reset_loop_counter_field:
  assumes c: "counters m = Some c"
  shows "\<exists>m'. reset_loop_counter m = Some m' \<and> counters m' = Some (put_loop 0 c)"
  using set_counters_ok [OF c put_high_bits(2) [OF count16_0]] c
  by (simp add: reset_loop_counter_def flag_puts)

lemma set_compile_disabled_field:
  "\<exists>m'. set_compile_disabled m = Some m' \<and> counters m' = Some (put_flag 33 True 0)"
proof -
  have eq: "COUNTERS_COMPILE_DISABLED_BIT = put_flag 33 True 0"
    by (simp add: put_flag_def COUNTERS_COMPILE_DISABLED_BIT_def)
  have "\<exists>s. smi_new (put_flag 33 True 0) = Some s"
    by (rule smi_new_bits) (simp add: field_defs)
  then obtain s where s: "smi_new (put_flag 33 True 0) = Some s" ..
  then have "is_smi s" "smi_value s = put_flag 33 True 0"
    using smi_try_new_SomeD by (simp_all add: smi_new_eq)
  with s show ?thesis
    by (simp add: set_compile_disabled_def eq set_counters_def counters_def smi_try_from_def)
qed

text \<open>The four fields of the counters word: loop count, invocation count, breakpoint, compile-disabled.\<close>

definition counter_fields :: "method_oop \<Rightarrow> (int \<times> int \<times> bool \<times> bool) option" where
  "counter_fields m = do {
     c \<leftarrow> counters m; bp \<leftarrow> has_bp m; dis \<leftarrow> compile_disabled m;
     Some (loop_field c, invocation_field c, bp, dis) }"

lemma counter_fields_eq:
  "counters m = Some c \<Longrightarrow> counter_fields m = Some (loop_field c, invocation_field c, bit c 32, bit c 33)"
  by (simp add: counter_fields_def counters_flags)

lemma counter_fields_SomeD:
  "counter_fields m = Some (l, i, bp, dis) \<Longrightarrow>
   \<exists>c. counters m = Some c \<and> l = loop_field c \<and> i = invocation_field c \<and> bp = bit c 32 \<and> dis = bit c 33"
  by (cases "counters m") (simp_all add: counter_fields_eq, simp add: counter_fields_def)

text \<open>
  The four fields of the counters word are independent. On a method whose counters are a
  small integer no operation panics; bumping the loop counter adds one up to 65535 and reports the
  limit, bumping the invocation counter adds one up to 65535, \<open>saturate_invocation\<close> only raises, and each of
  them (like resetting the loop counter and the breakpoint operations) leaves the other fields
  alone: the compile-disabled bit survives every counter update. Only \<open>set_compile_disabled\<close>
  rewrites the whole word, clearing both counts and the breakpoint bit.
\<close>
theorem method_counters_independent:
  assumes "counter_fields m = Some (l, i, bp, dis)"
  shows "map_option (map_prod id counter_fields) (bump_loop_counter m)
           = Some (min (l + 1) 0xFFFF \<ge> LOOP_COUNTER_LIMIT, Some (min (l + 1) 0xFFFF, i, bp, dis)) \<and>
         map_option counter_fields (reset_loop_counter m) = Some (Some (0, i, bp, dis)) \<and>
         map_option (map_prod id counter_fields) (bump_invocation m)
           = Some (min (i + 1) 0xFFFF, Some (l, min (i + 1) 0xFFFF, bp, dis)) \<and>
         map_option (map_prod id counter_fields) (saturate_invocation n m)
           = Some (i < max 0 (min n 0xFFFF), Some (l, max i (max 0 (min n 0xFFFF)), bp, dis)) \<and>
         map_option counter_fields (set_has_bp m) = Some (Some (l, i, True, dis)) \<and>
         map_option counter_fields (clear_has_bp m) = Some (Some (l, i, False, dis)) \<and>
         map_option counter_fields (clear_compile_disabled m) = Some (Some (l, i, bp, False)) \<and>
         map_option counter_fields (set_compile_disabled m) = Some (Some (0, 0, False, True))"
proof -
  from assms obtain c where c: "counters m = Some c"
    and fs: "l = loop_field c" "i = invocation_field c" "bp = bit c 32" "dis = bit c 33"
    by (auto dest: counter_fields_SomeD)
  have cnt: "count16 (max (invocation_field c) (max 0 (min n 0xFFFF)))"
    using field_count16 [of c] by (simp add: count16_def)
  have zero: "loop_field 0 = 0" "invocation_field 0 = 0"
    by (simp_all add: loop_field_def invocation_field_def)
  note rw = counter_fields_eq field_other loop_f.get_put inv_f.get_put inv_loop.get1_put2
    inv_loop.get2_put1 count16_bump cnt flag_f.get_put fs c zero bit_counter_fields(5)
  show ?thesis
    using bump_loop_counter_field [OF c] reset_loop_counter_field [OF c] bump_invocation_field [OF c]
      saturate_invocation_field [OF c, of n] set_compile_disabled_field [of m]
      flag_op_field [OF c, of 32 True] flag_op_field [OF c, of 32 False] flag_op_field [OF c, of 33 False]
    by (intro conjI)
      (auto simp: rw set_has_bp_def clear_has_bp_def clear_compile_disabled_def flag_puts)
qed

definition demo_method :: method_oop where
  "demo_method = \<lparr>m_selector = 1, m_holder = 1, m_flags = 0, m_primitive = 0,
     m_counters = push_bit 2 (push_bit 33 1 OR push_bit 16 9999 OR 65535),
     m_literals = [], m_ics = [], m_bytes = [0x41]\<rparr>"

theorem method_counters_independent_witness:
  "counter_fields demo_method = Some (9999, 65535, False, True) \<and>
   map_option (map_prod id counter_fields) (bump_loop_counter demo_method)
     = Some (True, Some (10000, 65535, False, True)) \<and>
   map_option (map_prod id counter_fields) (bump_invocation demo_method)
     = Some (65535, Some (9999, 65535, False, True))"
proof -
  have "smi_value (push_bit 2 (push_bit 33 1 OR push_bit 16 9999 OR 65535)) = 2 ^ 33 + 9999 * 65536 + 65535"
    by (simp add: smi_value_def SMI_SHIFT_def)
  then have c: "counters demo_method = Some (2 ^ 33 + 9999 * 65536 + 65535)"
    by (simp add: counters_def demo_method_def smi_try_from_def is_smi_bits bit_simps)
  have f: "counter_fields demo_method = Some (9999, 65535, False, True)"
    unfolding counter_fields_eq [OF c]
    by (simp add: loop_field_def invocation_field_def mask_consts COUNTERS_LOOP_SHIFT_def bit_iff_odd
        mask_eq_exp_minus_1)
  show ?thesis
    using method_counters_independent [OF f] f by (simp add: LOOP_COUNTER_LIMIT_def)
qed

text \<open>The packed flags as one expression, and its bits.\<close>

definition flags_word :: "nat \<Rightarrow> nat \<Rightarrow> bool \<Rightarrow> bool \<Rightarrow> bool \<Rightarrow> bool \<Rightarrow> nat \<Rightarrow> int" where
  "flags_word ac nt hc ib pf cc nc = int ac OR push_bit 4 (int nt) OR push_bit 12 (of_bool hc)
     OR push_bit 13 (of_bool ib) OR push_bit 14 (of_bool pf) OR push_bit 15 (of_bool cc)
     OR push_bit 16 (int nc)"

lemma int_nat_bits: "n < 2 ^ k \<Longrightarrow> bit (int n) i \<Longrightarrow> i < k"
proof -
  assume "n < 2 ^ k" "bit (int n) i"
  then have "int n < 2 ^ k" by (metis of_nat_less_iff of_nat_numeral of_nat_power)
  with \<open>bit (int n) i\<close> show "i < k" by (intro int_small_bits [of "int n"]) simp_all
qed

lemma flags_word_bits:
  assumes "ac < 16" "nt < 256" "nc < 256"
  shows "bit (flags_word ac nt hc ib pf cc nc) i \<longleftrightarrow>
    (if i < 4 then bit (int ac) i else if i < 12 then bit (int nt) (i - 4) else if i = 12 then hc
     else if i = 13 then ib else if i = 14 then pf else if i = 15 then cc
     else bit (int nc) (i - 16))"
  using int_nat_bits [of ac 4 i] int_nat_bits [of nt 8 "i - 4"] assms
  by (auto simp: flags_word_def bit_simps)

lemma flags_word_fields:
  fixes hc ib pf cc :: bool
  assumes "ac < 16" "nt < 256" "nc < 256"
  defines "v \<equiv> flags_word ac nt hc ib pf cc nc"
  shows "v AND mask 4 = int ac" "drop_bit 4 (v AND push_bit 4 (mask 8)) = int nt"
    "drop_bit 16 (v AND push_bit 16 (mask 8)) = int nc"
    "bit v 12 = hc" "bit v 13 = ib" "bit v 14 = pf" "bit v 15 = cc"
proof -
  note b = flags_word_bits [OF assms(1-3)]
  show "v AND mask 4 = int ac"
    using int_nat_bits [of ac 4] assms by (intro bit_eqI) (auto simp: b bit_simps)
  show "drop_bit 4 (v AND push_bit 4 (mask 8)) = int nt"
    using int_nat_bits [of nt 8] assms by (intro bit_eqI) (auto simp: b bit_simps)
  show "drop_bit 16 (v AND push_bit 16 (mask 8)) = int nc"
    using int_nat_bits [of nc 8] assms by (intro bit_eqI) (auto simp: b bit_simps)
qed (simp_all add: v_def flags_word_bits [OF assms(1-3)])

lemma flags_word_smi:
  assumes "ac < 16" "nt < 256" "nc < 256"
  shows "\<exists>s. smi_new (flags_word ac nt hc ib pf cc nc) = Some s"
proof (rule smi_new_bits)
  fix i :: nat assume "61 \<le> i"
  then show "bit (flags_word ac nt hc ib pf cc nc) i = bit (flags_word ac nt hc ib pf cc nc) 61"
    using int_nat_bits [of nc 8 "i - 16"] int_nat_bits [of nc 8 45] assms(3)
    by (auto simp: flags_word_bits [OF assms])
qed

lemma set_flags_eq:
  "set_flags ac nt hc ib pf cc nc m =
   (if ac < 16 \<and> nt < 256 \<and> nc < 256 then set_flags_value (flags_word ac nt hc ib pf cc nc) m else None)"
proof -
  have "set_flags ac nt hc ib pf cc nc m = (if ac < 16 \<and> nt < 256 \<and> nc < 256
      then set_flags_value (((((int ac OR push_bit 4 (int nt)) OR push_bit 12 (of_bool hc))
        OR push_bit 13 (of_bool ib)) OR push_bit 14 (of_bool pf)) OR push_bit 15 (of_bool cc)
        OR push_bit 16 (int nc)) m else None)"
    by (auto simp: set_flags_def Let_def mask_consts flag_shift_defs rust_assert_def or.assoc)
  then show ?thesis by (simp add: flags_word_def or.assoc)
qed

text \<open>
  The method flags word. Packing panics exactly when the argument count exceeds 15 or the
  temporary or context-slot count exceeds 255; otherwise all seven fields read back as they were
  packed, and no other word of the method changes.
\<close>
theorem method_flags_roundtrip:
  "(set_flags ac nt hc ib pf cc nc m = None \<longleftrightarrow> ac > 15 \<or> nt > 255 \<or> nc > 255) \<and>
   (\<forall>m'. set_flags ac nt hc ib pf cc nc m = Some m' \<longrightarrow>
      argc m' = Some ac \<and> ntemps m' = Some nt \<and> has_ctx m' = Some hc \<and> is_block_method m' = Some ib \<and>
      prim_fails m' = Some pf \<and> captures_ctx m' = Some cc \<and> nctx m' = Some nc \<and>
      m'\<lparr>m_flags := m_flags m\<rparr> = m)"
proof -
  have "argc m' = Some ac \<and> ntemps m' = Some nt \<and> has_ctx m' = Some hc \<and> is_block_method m' = Some ib \<and>
      prim_fails m' = Some pf \<and> captures_ctx m' = Some cc \<and> nctx m' = Some nc \<and>
      m'\<lparr>m_flags := m_flags m\<rparr> = m"
    if ok: "ac < 16" "nt < 256" "nc < 256"
      and set: "set_flags_value (flags_word ac nt hc ib pf cc nc) m = Some m'" for m'
  proof -
    from set have "flags_value m' = Some (flags_word ac nt hc ib pf cc nc)" "m'\<lparr>m_flags := m_flags m\<rparr> = m"
      by (auto simp: set_flags_value_def flags_value_def smi_new_eq smi_try_from_def bind_eq_Some_conv
          dest!: smi_try_new_SomeD)
    then show ?thesis
      by (simp add: argc_def ntemps_def has_ctx_def is_block_method_def prim_fails_def captures_ctx_def
          nctx_def mask_consts flag_shift_defs int_and_single_bit flags_word_fields [OF ok]
          del: push_bit_of_1 drop_bit_and)
  qed
  moreover have "set_flags_value (flags_word ac nt hc ib pf cc nc) m \<noteq> None"
    if "ac < 16" "nt < 256" "nc < 256"
    using flags_word_smi [OF that, of hc ib pf cc] by (auto simp: set_flags_value_def)
  ultimately show ?thesis by (auto simp: set_flags_eq)
qed

theorem method_flags_roundtrip_witness:
  "\<exists>m'. set_flags 15 255 True False True False 200 demo_method = Some m' \<and>
     ntemps m' = Some 255 \<and> nctx m' = Some 200"
  using method_flags_roundtrip [of 15 255 True False True False 200 demo_method] by auto

end
