(* ===== verification/Bytecode.thy ===== *)
theory Bytecode
  imports Compiled_Method
begin

text \<open>
  The instruction set of \<open>src/src/bytecode/opcode.rs\<close>: opcode bytes, the decoded form
  \<open>Instr\<close> and \<open>decode_at\<close>. The decoder reads the method through its bytecode bytes only, so it
  takes those; a read past the end and an undefined opcode are panics. \<open>instr_bytes\<close> is the
  encoding the builder emits (the narrow form whenever the operand fits); with the decoder it is
  an instance of the \<open>codec\<close> interface.
\<close>

definition OP_PUSH_SELF :: u8 where "OP_PUSH_SELF = 0x00"
definition OP_PUSH_NIL :: u8 where "OP_PUSH_NIL = 0x01"
definition OP_PUSH_TRUE :: u8 where "OP_PUSH_TRUE = 0x02"
definition OP_PUSH_FALSE :: u8 where "OP_PUSH_FALSE = 0x03"
definition OP_PUSH_SMI_I8 :: u8 where "OP_PUSH_SMI_I8 = 0x04"
definition OP_PUSH_LITERAL :: u8 where "OP_PUSH_LITERAL = 0x05"
definition OP_PUSH_TEMP :: u8 where "OP_PUSH_TEMP = 0x06"
definition OP_STORE_TEMP :: u8 where "OP_STORE_TEMP = 0x07"
definition OP_STORE_TEMP_POP :: u8 where "OP_STORE_TEMP_POP = 0x08"
definition OP_PUSH_INSTVAR :: u8 where "OP_PUSH_INSTVAR = 0x09"
definition OP_STORE_INSTVAR_POP :: u8 where "OP_STORE_INSTVAR_POP = 0x0A"
definition OP_PUSH_GLOBAL :: u8 where "OP_PUSH_GLOBAL = 0x0B"
definition OP_STORE_GLOBAL_POP :: u8 where "OP_STORE_GLOBAL_POP = 0x0C"
definition OP_POP :: u8 where "OP_POP = 0x0D"
definition OP_DUP :: u8 where "OP_DUP = 0x0E"
definition OP_PUSH_CTX_TEMP :: u8 where "OP_PUSH_CTX_TEMP = 0x0F"
definition OP_STORE_CTX_TEMP_POP :: u8 where "OP_STORE_CTX_TEMP_POP = 0x10"
definition OP_PUSH_CLOSURE :: u8 where "OP_PUSH_CLOSURE = 0x11"
definition OP_PUSH_LITERAL_W :: u8 where "OP_PUSH_LITERAL_W = 0x12"
definition OP_SEND :: u8 where "OP_SEND = 0x20"
definition OP_SEND_SUPER :: u8 where "OP_SEND_SUPER = 0x21"
definition OP_SEND_W :: u8 where "OP_SEND_W = 0x22"
definition OP_SEND_SUPER_W :: u8 where "OP_SEND_SUPER_W = 0x23"
definition OP_JUMP_FWD :: u8 where "OP_JUMP_FWD = 0x30"
definition OP_JUMP_BACK :: u8 where "OP_JUMP_BACK = 0x31"
definition OP_BR_TRUE_FWD :: u8 where "OP_BR_TRUE_FWD = 0x32"
definition OP_BR_FALSE_FWD :: u8 where "OP_BR_FALSE_FWD = 0x33"
definition OP_RETURN_TOS :: u8 where "OP_RETURN_TOS = 0x40"
definition OP_RETURN_SELF :: u8 where "OP_RETURN_SELF = 0x41"
definition OP_BLOCK_RETURN_TOS :: u8 where "OP_BLOCK_RETURN_TOS = 0x42"
definition OP_NLR_TOS :: u8 where "OP_NLR_TOS = 0x43"

lemmas op_defs =
  OP_PUSH_SELF_def OP_PUSH_NIL_def OP_PUSH_TRUE_def OP_PUSH_FALSE_def OP_PUSH_SMI_I8_def
  OP_PUSH_LITERAL_def OP_PUSH_TEMP_def OP_STORE_TEMP_def OP_STORE_TEMP_POP_def OP_PUSH_INSTVAR_def
  OP_STORE_INSTVAR_POP_def OP_PUSH_GLOBAL_def OP_STORE_GLOBAL_POP_def OP_POP_def OP_DUP_def
  OP_PUSH_CTX_TEMP_def OP_STORE_CTX_TEMP_POP_def OP_PUSH_CLOSURE_def OP_PUSH_LITERAL_W_def
  OP_SEND_def OP_SEND_SUPER_def OP_SEND_W_def OP_SEND_SUPER_W_def OP_JUMP_FWD_def OP_JUMP_BACK_def
  OP_BR_TRUE_FWD_def OP_BR_FALSE_FWD_def OP_RETURN_TOS_def OP_RETURN_SELF_def
  OP_BLOCK_RETURN_TOS_def OP_NLR_TOS_def

datatype instr =
    PushSelf | PushNil | PushTrue | PushFalse
  | PushSmi u8
  | PushLiteral u16
  | PushTemp u8 | StoreTemp u8 | StoreTempPop u8
  | PushInstvar u8 | StoreInstvarPop u8
  | PushGlobal u8 | StoreGlobalPop u8
  | Pop | Dup
  | PushCtxTemp u8 u8 | StoreCtxTempPop u8 u8
  | PushClosure u8 u8
  | Send u16 bool
  | JumpFwd u16 | JumpBack u16 | BrTrueFwd u16 | BrFalseFwd u16
  | ReturnTos | ReturnSelf | BlockReturnTos | NlrTos

definition read_u16 :: "bytes \<Rightarrow> nat \<Rightarrow> u16 option" where
  "read_u16 bs bci = do {
     lo \<leftarrow> slice_get bs bci;
     hi \<leftarrow> slice_get bs (bci + 1);
     Some (ucast lo OR push_bit 8 (ucast hi))
   }"

definition decode_at :: "bytes \<Rightarrow> nat \<Rightarrow> (instr \<times> nat) option" where
  "decode_at bs bci = do {
     op \<leftarrow> slice_get bs bci;
     let u8_arg = slice_get bs (bci + 1);
     let u8_arg2 = slice_get bs (bci + 2);
     let u16_arg = read_u16 bs (bci + 1);
     if op = OP_PUSH_SELF then Some (PushSelf, bci + 1)
     else if op = OP_PUSH_NIL then Some (PushNil, bci + 1)
     else if op = OP_PUSH_TRUE then Some (PushTrue, bci + 1)
     else if op = OP_PUSH_FALSE then Some (PushFalse, bci + 1)
     else if op = OP_PUSH_SMI_I8 then do { x \<leftarrow> u8_arg; Some (PushSmi x, bci + 2) }
     else if op = OP_PUSH_LITERAL then do { x \<leftarrow> u8_arg; Some (PushLiteral (ucast x), bci + 2) }
     else if op = OP_PUSH_TEMP then do { x \<leftarrow> u8_arg; Some (PushTemp x, bci + 2) }
     else if op = OP_STORE_TEMP then do { x \<leftarrow> u8_arg; Some (StoreTemp x, bci + 2) }
     else if op = OP_STORE_TEMP_POP then do { x \<leftarrow> u8_arg; Some (StoreTempPop x, bci + 2) }
     else if op = OP_PUSH_INSTVAR then do { x \<leftarrow> u8_arg; Some (PushInstvar x, bci + 2) }
     else if op = OP_STORE_INSTVAR_POP then do { x \<leftarrow> u8_arg; Some (StoreInstvarPop x, bci + 2) }
     else if op = OP_PUSH_GLOBAL then do { x \<leftarrow> u8_arg; Some (PushGlobal x, bci + 2) }
     else if op = OP_STORE_GLOBAL_POP then do { x \<leftarrow> u8_arg; Some (StoreGlobalPop x, bci + 2) }
     else if op = OP_POP then Some (Pop, bci + 1)
     else if op = OP_DUP then Some (Dup, bci + 1)
     else if op = OP_PUSH_CTX_TEMP then
       do { d \<leftarrow> u8_arg; i \<leftarrow> u8_arg2; Some (PushCtxTemp d i, bci + 3) }
     else if op = OP_STORE_CTX_TEMP_POP then
       do { d \<leftarrow> u8_arg; i \<leftarrow> u8_arg2; Some (StoreCtxTempPop d i, bci + 3) }
     else if op = OP_PUSH_CLOSURE then
       do { l \<leftarrow> u8_arg; n \<leftarrow> u8_arg2; Some (PushClosure l n, bci + 3) }
     else if op = OP_PUSH_LITERAL_W then do { x \<leftarrow> u16_arg; Some (PushLiteral x, bci + 3) }
     else if op = OP_SEND then do { x \<leftarrow> u8_arg; Some (Send (ucast x) False, bci + 2) }
     else if op = OP_SEND_SUPER then do { x \<leftarrow> u8_arg; Some (Send (ucast x) True, bci + 2) }
     else if op = OP_SEND_W then do { x \<leftarrow> u16_arg; Some (Send x False, bci + 3) }
     else if op = OP_SEND_SUPER_W then do { x \<leftarrow> u16_arg; Some (Send x True, bci + 3) }
     else if op = OP_JUMP_FWD then do { x \<leftarrow> u16_arg; Some (JumpFwd x, bci + 3) }
     else if op = OP_JUMP_BACK then do { x \<leftarrow> u16_arg; Some (JumpBack x, bci + 3) }
     else if op = OP_BR_TRUE_FWD then do { x \<leftarrow> u16_arg; Some (BrTrueFwd x, bci + 3) }
     else if op = OP_BR_FALSE_FWD then do { x \<leftarrow> u16_arg; Some (BrFalseFwd x, bci + 3) }
     else if op = OP_RETURN_TOS then Some (ReturnTos, bci + 1)
     else if op = OP_RETURN_SELF then Some (ReturnSelf, bci + 1)
     else if op = OP_BLOCK_RETURN_TOS then Some (BlockReturnTos, bci + 1)
     else if op = OP_NLR_TOS then Some (NlrTos, bci + 1)
     else None
   }"

subsection \<open>The encoding\<close>

definition le16 :: "u16 \<Rightarrow> bytes" where
  "le16 v = [ucast (v AND 0xFF), ucast (drop_bit 8 v)]"

fun instr_bytes :: "instr \<Rightarrow> bytes" where
  "instr_bytes PushSelf = [OP_PUSH_SELF]"
| "instr_bytes PushNil = [OP_PUSH_NIL]"
| "instr_bytes PushTrue = [OP_PUSH_TRUE]"
| "instr_bytes PushFalse = [OP_PUSH_FALSE]"
| "instr_bytes (PushSmi x) = [OP_PUSH_SMI_I8, x]"
| "instr_bytes (PushLiteral x) = (if x \<le> 255 then [OP_PUSH_LITERAL, ucast x] else OP_PUSH_LITERAL_W # le16 x)"
| "instr_bytes (PushTemp x) = [OP_PUSH_TEMP, x]"
| "instr_bytes (StoreTemp x) = [OP_STORE_TEMP, x]"
| "instr_bytes (StoreTempPop x) = [OP_STORE_TEMP_POP, x]"
| "instr_bytes (PushInstvar x) = [OP_PUSH_INSTVAR, x]"
| "instr_bytes (StoreInstvarPop x) = [OP_STORE_INSTVAR_POP, x]"
| "instr_bytes (PushGlobal x) = [OP_PUSH_GLOBAL, x]"
| "instr_bytes (StoreGlobalPop x) = [OP_STORE_GLOBAL_POP, x]"
| "instr_bytes Pop = [OP_POP]"
| "instr_bytes Dup = [OP_DUP]"
| "instr_bytes (PushCtxTemp d i) = [OP_PUSH_CTX_TEMP, d, i]"
| "instr_bytes (StoreCtxTempPop d i) = [OP_STORE_CTX_TEMP_POP, d, i]"
| "instr_bytes (PushClosure l n) = [OP_PUSH_CLOSURE, l, n]"
| "instr_bytes (Send x False) = (if x \<le> 255 then [OP_SEND, ucast x] else OP_SEND_W # le16 x)"
| "instr_bytes (Send x True) = (if x \<le> 255 then [OP_SEND_SUPER, ucast x] else OP_SEND_SUPER_W # le16 x)"
| "instr_bytes (JumpFwd x) = OP_JUMP_FWD # le16 x"
| "instr_bytes (JumpBack x) = OP_JUMP_BACK # le16 x"
| "instr_bytes (BrTrueFwd x) = OP_BR_TRUE_FWD # le16 x"
| "instr_bytes (BrFalseFwd x) = OP_BR_FALSE_FWD # le16 x"
| "instr_bytes ReturnTos = [OP_RETURN_TOS]"
| "instr_bytes ReturnSelf = [OP_RETURN_SELF]"
| "instr_bytes BlockReturnTos = [OP_BLOCK_RETURN_TOS]"
| "instr_bytes NlrTos = [OP_NLR_TOS]"

lemma le16_join: "ucast (ucast (v AND 0xFF) :: u8) OR push_bit 8 (ucast (ucast (drop_bit 8 v) :: u8)) = v"
  for v :: u16
proof -
  have m: "(0xFF :: u16) = mask 8" by (simp add: mask_eq_exp_minus_1)
  show ?thesis unfolding m by (rule bit_word_eqI) (auto simp: bit_simps)
qed

lemma read_u16_le16 [codec_simps]: "holds_at bs p (le16 v) \<Longrightarrow> read_u16 bs p = Some v"
  by (simp add: read_u16_def le16_def le16_join)

lemma narrow_back: "x \<le> 255 \<Longrightarrow> ucast (ucast x :: u8) = x" for x :: u16
proof -
  assume "x \<le> 255"
  then have "x < 2 ^ 8" by (simp add: word_le_nat_alt word_less_nat_alt)
  then have "take_bit 8 x = x" by (rule take_bit_word_less) simp
  then show ?thesis by (intro bit_word_eqI) (auto simp: bit_simps dest: bit_take_bitD)
qed

lemma length_le16 [simp]: "length (le16 v) = 2"
  by (simp add: le16_def)

interpretation instr: codec instr_bytes decode_at "\<lambda>_. True"
proof
  fix i pre post
  let ?bs = "pre @ instr_bytes i @ post" and ?p = "length pre"
  have h: "holds_at ?bs ?p (instr_bytes i)" by (rule holds_at_mid)
  show "decode_at ?bs ?p = Some (i, ?p + length (instr_bytes i))"
    using h by (cases i rule: instr_bytes.cases)
      (auto simp: decode_at_def op_defs codec_simps narrow_back Let_def split: if_splits)
qed

lemma decode_at_progress: "decode_at bs bci = Some (i, next) \<Longrightarrow> bci < next \<and> next \<le> bci + 3"
  by (auto simp: decode_at_def Let_def bind_eq_Some_conv split: if_splits)

lemma decode_at_bounds: "decode_at bs bci = Some (i, next) \<Longrightarrow> next \<le> length bs"
  by (auto simp: decode_at_def Let_def bind_eq_Some_conv read_u16_def split: if_splits dest!: slice_get_SomeD)

text \<open>
  C21. Bytecode encoding and decoding. Every instruction, encoded anywhere in a method's
  bytes, decodes to itself with the position just after it; whatever decodes advances by one to three bytes
  and stays inside the method.
\<close>
theorem decode_at_roundtrip:
  "decode_at (pre @ instr_bytes i @ post) (length pre) = Some (i, length pre + length (instr_bytes i)) \<and>
   (\<forall>bs bci j next. decode_at bs bci = Some (j, next) \<longrightarrow> bci < next \<and> next \<le> bci + 3 \<and> next \<le> length bs)"
  using decode_at_progress decode_at_bounds by (auto simp: instr.rd_wr)

theorem decode_at_roundtrip_witness:
  "decode_at ([OP_DUP] @ instr_bytes (Send 300 True) @ [OP_POP]) (length [OP_DUP]) = Some (Send 300 True, 4)"
  using decode_at_roundtrip [of "[OP_DUP]" "Send 300 True" "[OP_POP]"] by simp

end
