(* ===== verification/Builder.thy ===== *)
theory Builder
  imports Bytecode
begin

text \<open>
  The bytecode assembler, \<open>src/src/bytecode/builder.rs\<close>. The builder is a record with the fields of
  the source; its handle-backed vectors (\<open>literals\<close>, \<open>ic_sites\<close>) hold the current oops of their
  handles, and a collection between two calls is the function \<open>relocate\<close>, which moves what the handles hold and
  leaves the address-keyed dedup cache stale. A heap object returned by an allocation is the record of
  its contents. Assertion failures, unbound labels and out-of-range patches are panics.
  The main result is that the assembler is correct: the bytes of a finished method decode, at
  every instruction position, to the instruction that was emitted, with each jump landing on the
  position its label was bound at.
\<close>

datatype label_state =
    Bound nat
  | Unbound "nat list"

record builder =
  code :: bytes
  literals :: "oop list"
  literal_index :: "u64 \<rightharpoonup> nat"
  n_ics :: nat
  ic_sites :: "(oop \<times> u8) list"
  labels :: "label_state list"
  line_map :: "(u16 \<times> u32) list"

definition new_builder :: builder where
  "new_builder = \<lparr>code = [], literals = [], literal_index = Map.empty, n_ics = 0, ic_sites = [],
     labels = [], line_map = []\<rparr>"

definition relocate :: "(oop \<Rightarrow> oop) \<Rightarrow> builder \<Rightarrow> builder" where
  "relocate f b = b\<lparr>literals := map f (literals b), ic_sites := map (map_prod f id) (ic_sites b)\<rparr>"

definition note_line :: "u32 \<Rightarrow> builder \<Rightarrow> builder" where
  "note_line line b =
     (if line = 0 then b
      else if line_map b \<noteq> [] \<and> snd (last (line_map b)) = line then b
      else b\<lparr>line_map := line_map b @ [(of_nat (length (code b)), line)]\<rparr>)"

subsection \<open>Straight-line emission\<close>

definition emit_u8 :: "u8 \<Rightarrow> builder \<Rightarrow> builder" where
  "emit_u8 x b = b\<lparr>code := code b @ [x]\<rparr>"

definition emit_u16 :: "u16 \<Rightarrow> builder \<Rightarrow> builder" where
  "emit_u16 v b = b\<lparr>code := code b @ [ucast (v AND 0xFF), ucast (drop_bit 8 v)]\<rparr>"

definition push_self :: "builder \<Rightarrow> builder" where "push_self b = emit_u8 OP_PUSH_SELF b"
definition push_nil :: "builder \<Rightarrow> builder" where "push_nil b = emit_u8 OP_PUSH_NIL b"
definition push_true :: "builder \<Rightarrow> builder" where "push_true b = emit_u8 OP_PUSH_TRUE b"
definition push_false :: "builder \<Rightarrow> builder" where "push_false b = emit_u8 OP_PUSH_FALSE b"

definition push_smi_i8 :: "u8 \<Rightarrow> builder \<Rightarrow> builder" where
  "push_smi_i8 v b = emit_u8 v (emit_u8 OP_PUSH_SMI_I8 b)"

definition intern_literal :: "oop \<Rightarrow> builder \<Rightarrow> (nat \<times> builder) option" where
  "intern_literal o1 b = do {
     hit \<leftarrow> (case literal_index b o1 of
         None \<Rightarrow> Some None
       | Some idx \<Rightarrow> do { v \<leftarrow> slice_get (literals b) idx; Some (if v = o1 then Some idx else None) });
     case hit of
       Some idx \<Rightarrow> Some (idx, b)
     | None \<Rightarrow>
         let idx = length (literals b)
         in Some (idx, b\<lparr>literals := literals b @ [o1], literal_index := (literal_index b)(o1 \<mapsto> idx)\<rparr>)
   }"

definition emit_literal_ref :: "nat \<Rightarrow> builder \<Rightarrow> builder" where
  "emit_literal_ref idx b =
     (if idx \<le> 255 then emit_u8 (of_nat idx) (emit_u8 OP_PUSH_LITERAL b)
      else emit_u16 (of_nat idx) (emit_u8 OP_PUSH_LITERAL_W b))"

definition push_literal :: "oop \<Rightarrow> builder \<Rightarrow> builder option" where
  "push_literal o1 b = do { (idx, b) \<leftarrow> intern_literal o1 b; Some (emit_literal_ref idx b) }"

definition push_temp :: "u8 \<Rightarrow> builder \<Rightarrow> builder" where
  "push_temp t b = emit_u8 t (emit_u8 OP_PUSH_TEMP b)"
definition store_temp :: "u8 \<Rightarrow> builder \<Rightarrow> builder" where
  "store_temp t b = emit_u8 t (emit_u8 OP_STORE_TEMP b)"
definition store_temp_pop :: "u8 \<Rightarrow> builder \<Rightarrow> builder" where
  "store_temp_pop t b = emit_u8 t (emit_u8 OP_STORE_TEMP_POP b)"
definition push_instvar :: "u8 \<Rightarrow> builder \<Rightarrow> builder" where
  "push_instvar i b = emit_u8 i (emit_u8 OP_PUSH_INSTVAR b)"
definition store_instvar_pop :: "u8 \<Rightarrow> builder \<Rightarrow> builder" where
  "store_instvar_pop i b = emit_u8 i (emit_u8 OP_STORE_INSTVAR_POP b)"
definition push_ctx_temp :: "u8 \<Rightarrow> u8 \<Rightarrow> builder \<Rightarrow> builder" where
  "push_ctx_temp depth idx b = emit_u8 idx (emit_u8 depth (emit_u8 OP_PUSH_CTX_TEMP b))"
definition store_ctx_temp_pop :: "u8 \<Rightarrow> u8 \<Rightarrow> builder \<Rightarrow> builder" where
  "store_ctx_temp_pop depth idx b = emit_u8 idx (emit_u8 depth (emit_u8 OP_STORE_CTX_TEMP_POP b))"

text \<open>The index is truncated to the one-byte operand (\<open>idx as u8\<close>), without a check.\<close>

definition push_global :: "oop \<Rightarrow> builder \<Rightarrow> builder option" where
  "push_global assoc b = do {
     (idx, b) \<leftarrow> intern_literal assoc b;
     Some (emit_u8 (of_nat idx) (emit_u8 OP_PUSH_GLOBAL b))
   }"

definition store_global_pop :: "oop \<Rightarrow> builder \<Rightarrow> builder option" where
  "store_global_pop assoc b = do {
     (idx, b) \<leftarrow> intern_literal assoc b;
     Some (emit_u8 (of_nat idx) (emit_u8 OP_STORE_GLOBAL_POP b))
   }"

definition pop_op :: "builder \<Rightarrow> builder" where "pop_op b = emit_u8 OP_POP b"
definition dup_op :: "builder \<Rightarrow> builder" where "dup_op b = emit_u8 OP_DUP b"
definition ret_tos :: "builder \<Rightarrow> builder" where "ret_tos b = emit_u8 OP_RETURN_TOS b"
definition ret_self :: "builder \<Rightarrow> builder" where "ret_self b = emit_u8 OP_RETURN_SELF b"
definition block_return_tos :: "builder \<Rightarrow> builder" where
  "block_return_tos b = emit_u8 OP_BLOCK_RETURN_TOS b"
definition nlr_tos :: "builder \<Rightarrow> builder" where "nlr_tos b = emit_u8 OP_NLR_TOS b"

subsection \<open>Sends and closures\<close>

definition add_send :: "oop \<Rightarrow> u8 \<Rightarrow> builder \<Rightarrow> (u16 \<times> builder) option" where
  "add_send selector ac b = do {
     let idx = n_ics b;
     rust_assert (idx \<le> U16_MAX);
     Some (of_nat idx, b\<lparr>n_ics := n_ics b + 1, ic_sites := ic_sites b @ [(selector, ac)]\<rparr>)
   }"

definition emit_send :: "u8 \<Rightarrow> u8 \<Rightarrow> oop \<Rightarrow> u8 \<Rightarrow> builder \<Rightarrow> builder option" where
  "emit_send op_narrow op_wide selector ac b = do {
     (ic_idx, b) \<leftarrow> add_send selector ac b;
     Some (if ic_idx \<le> 255 then emit_u8 (ucast ic_idx) (emit_u8 op_narrow b)
           else emit_u16 ic_idx (emit_u8 op_wide b))
   }"

definition send :: "oop \<Rightarrow> u8 \<Rightarrow> builder \<Rightarrow> builder option" where
  "send selector ac b = emit_send OP_SEND OP_SEND_W selector ac b"

definition send_super :: "oop \<Rightarrow> u8 \<Rightarrow> builder \<Rightarrow> builder option" where
  "send_super selector ac b = emit_send OP_SEND_SUPER OP_SEND_SUPER_W selector ac b"

definition push_closure :: "nat \<Rightarrow> u8 \<Rightarrow> builder \<Rightarrow> builder option" where
  "push_closure lit n_value_captures b = do {
     rust_assert (lit \<le> 255);
     Some (emit_u8 n_value_captures (emit_u8 (of_nat lit) (emit_u8 OP_PUSH_CLOSURE b)))
   }"

subsection \<open>Labels and jumps\<close>

definition here :: "builder \<Rightarrow> nat" where
  "here b = length (code b)"

definition new_label :: "builder \<Rightarrow> nat \<times> builder" where
  "new_label b = (length (labels b), b\<lparr>labels := labels b @ [Unbound []]\<rparr>)"

definition patch_u16 :: "nat \<Rightarrow> nat \<Rightarrow> bytes \<Rightarrow> bytes option" where
  "patch_u16 site distance bs = do {
     rust_assert (distance \<le> U16_MAX);
     rust_assert (site + 1 < length bs);
     Some (bs[site := of_nat distance AND 0xFF, site + 1 := of_nat (distance div 256)])
   }"

fun patch_sites :: "nat \<Rightarrow> nat list \<Rightarrow> bytes \<Rightarrow> bytes option" where
  "patch_sites bci [] bs = Some bs"
| "patch_sites bci (site # sites) bs = do {
     rust_assert (bci \<ge> site + 2);
     bs \<leftarrow> patch_u16 site (bci - (site + 2)) bs;
     patch_sites bci sites bs
   }"

definition bind_label :: "nat \<Rightarrow> builder \<Rightarrow> builder option" where
  "bind_label l b = do {
     let bci = length (code b);
     prev \<leftarrow> slice_get (labels b) l;
     case prev of
       Bound _ \<Rightarrow> None
     | Unbound sites \<Rightarrow> do {
         bs \<leftarrow> patch_sites bci sites (code b);
         Some (b\<lparr>code := bs, labels := (labels b)[l := Bound bci]\<rparr>)
       }
   }"

definition emit_fwd_jump :: "u8 \<Rightarrow> nat \<Rightarrow> builder \<Rightarrow> builder option" where
  "emit_fwd_jump op l b = do {
     let b = emit_u8 op b;
     let operand_pos = length (code b);
     let b = emit_u16 0xFFFF b;
     st \<leftarrow> slice_get (labels b) l;
     case st of
       Unbound sites \<Rightarrow> Some (b\<lparr>labels := (labels b)[l := Unbound (sites @ [operand_pos])]\<rparr>)
     | Bound target \<Rightarrow> do {
         rust_assert (target \<ge> operand_pos + 2);
         bs \<leftarrow> patch_u16 operand_pos (target - (operand_pos + 2)) (code b);
         Some (b\<lparr>code := bs\<rparr>)
       }
   }"

definition jump_fwd :: "nat \<Rightarrow> builder \<Rightarrow> builder option" where
  "jump_fwd l b = emit_fwd_jump OP_JUMP_FWD l b"
definition br_true_fwd :: "nat \<Rightarrow> builder \<Rightarrow> builder option" where
  "br_true_fwd l b = emit_fwd_jump OP_BR_TRUE_FWD l b"
definition br_false_fwd :: "nat \<Rightarrow> builder \<Rightarrow> builder option" where
  "br_false_fwd l b = emit_fwd_jump OP_BR_FALSE_FWD l b"

definition jump_back :: "nat \<Rightarrow> builder \<Rightarrow> builder option" where
  "jump_back l b = do {
     st \<leftarrow> slice_get (labels b) l;
     target \<leftarrow> (case st of Bound bci \<Rightarrow> Some bci | Unbound _ \<Rightarrow> None);
     let next_bci = length (code b) + 3;
     rust_assert (target \<le> next_bci);
     let distance = next_bci - target;
     rust_assert (distance \<le> U16_MAX);
     Some (emit_u16 (of_nat distance) (emit_u8 OP_JUMP_BACK b))
   }"

subsection \<open>Finishing\<close>

definition BCI_SENTINEL_BASE :: nat where "BCI_SENTINEL_BASE = 0x7FFF0000"
definition IC_STRIDE :: nat where "IC_STRIDE = 4"
definition IC_SEL_OFFSET :: nat where "IC_SEL_OFFSET = 0"
definition IC_META_OFFSET :: nat where "IC_META_OFFSET = 1"
definition IC_GUARD_OFFSET :: nat where "IC_GUARD_OFFSET = 2"
definition IC_TARGET_OFFSET :: nat where "IC_TARGET_OFFSET = 3"
definition IC_META_ARGC_SHIFT :: nat where "IC_META_ARGC_SHIFT = 0"

text \<open>The decode walk that finds the last instruction (the loop ends: each step advances).\<close>

function last_instr :: "bytes \<Rightarrow> nat \<Rightarrow> instr option \<Rightarrow> instr option option" where
  "last_instr bs bci li =
     (if bci < length bs
      then (case decode_at bs bci of None \<Rightarrow> None
            | Some (i, next) \<Rightarrow> last_instr bs next (Some i))
      else Some li)"
  by pat_completeness auto
termination
  by (relation "measure (\<lambda>(bs, bci, li). length bs - bci)") (auto dest: decode_at_progress)

declare last_instr.simps [simp del]

definition is_return :: "instr option \<Rightarrow> bool" where
  "is_return i \<longleftrightarrow> i \<in> {Some ReturnTos, Some ReturnSelf, Some BlockReturnTos, Some NlrTos}"

text \<open>Array stores of the inline-cache array, four words per send site.\<close>

definition at_put :: "nat \<Rightarrow> oop \<Rightarrow> oop list \<Rightarrow> oop list option" where
  "at_put i v xs = (if i < length xs then Some (xs[i := v]) else None)"

fun fill_ics :: "oop \<Rightarrow> nat \<Rightarrow> (oop \<times> u8) list \<Rightarrow> oop list \<Rightarrow> oop list option" where
  "fill_ics nil_obj i [] ics = Some ics"
| "fill_ics nil_obj i ((selector, ac) # sites) ics = do {
     let base = i * IC_STRIDE;
     meta \<leftarrow> smi_new (push_bit IC_META_ARGC_SHIFT (uint ac));
     ics \<leftarrow> at_put (base + IC_SEL_OFFSET) selector ics;
     ics \<leftarrow> at_put (base + IC_META_OFFSET) meta ics;
     ics \<leftarrow> at_put (base + IC_GUARD_OFFSET) nil_obj ics;
     ics \<leftarrow> at_put (base + IC_TARGET_OFFSET) nil_obj ics;
     fill_ics nil_obj (i + 1) sites ics
   }"

definition finish :: "oop \<Rightarrow> oop \<Rightarrow> nat \<Rightarrow> nat \<Rightarrow> builder \<Rightarrow> method_oop option" where
  "finish nil_obj selector ac nt b = do {
     rust_assert (ac \<le> METHOD_ARGC_MAX);
     rust_assert (nt \<le> METHOD_NTEMPS_MAX);
     rust_assert (length (code b) < BCI_SENTINEL_BASE);
     rust_assert (\<forall>l \<in> set (labels b). case l of Bound _ \<Rightarrow> True | Unbound _ \<Rightarrow> False);
     rust_assert (code b \<noteq> []);
     li \<leftarrow> last_instr (code b) 0 None;
     rust_assert (is_return li);
     ics \<leftarrow> fill_ics nil_obj 0 (ic_sites b) (replicate (n_ics b * IC_STRIDE) nil_obj);
     zero \<leftarrow> smi_new 0;
     set_flags ac nt False False False False 0
       \<lparr>m_selector = selector, m_holder = nil_obj, m_flags = zero, m_primitive = zero,
        m_counters = zero, m_literals = literals b, m_ics = ics, m_bytes = code b\<rparr>
   }"

text \<open>
  A block is built in a builder of its own; \<open>body\<close> is the caller's closure and \<open>alloc\<close> gives the
  oop under which the finished block lives in the heap.
\<close>

definition build_standalone_block ::
  "oop \<Rightarrow> oop \<Rightarrow> nat \<Rightarrow> nat \<Rightarrow> bool \<Rightarrow> nat \<Rightarrow> bool \<Rightarrow> (builder \<Rightarrow> builder option) \<Rightarrow> method_oop option" where
  "build_standalone_block nil_obj a_block ac nt hc nc cc body = do {
     inner \<leftarrow> body new_builder;
     blk \<leftarrow> finish nil_obj a_block ac nt inner;
     set_flags ac nt hc True False cc nc blk
   }"

definition intern_block_literal :: "oop \<Rightarrow> builder \<Rightarrow> (nat \<times> builder) option" where
  "intern_block_literal blk b = intern_literal blk b"

definition build_block ::
  "(method_oop \<Rightarrow> oop) \<Rightarrow> oop \<Rightarrow> oop \<Rightarrow> nat \<Rightarrow> nat \<Rightarrow> bool \<Rightarrow> nat \<Rightarrow> bool \<Rightarrow>
   (builder \<Rightarrow> builder option) \<Rightarrow> builder \<Rightarrow> (nat \<times> builder) option" where
  "build_block alloc nil_obj a_block ac nt hc nc cc body b = do {
     blk \<leftarrow> build_standalone_block nil_obj a_block ac nt hc nc cc body;
     intern_block_literal (alloc blk) b
   }"

subsection \<open>Abstract programs\<close>

text \<open>
  What a sequence of calls is meant to emit: instructions, and jumps to labels. \<open>lab\<close> gives the
  position of a bound label.
\<close>

datatype fwd_kind = FJump | FBrTrue | FBrFalse

datatype asm =
    Ins instr
  | Fwd fwd_kind nat
  | Back nat

fun fwd_op :: "fwd_kind \<Rightarrow> u8" where
  "fwd_op FJump = OP_JUMP_FWD"
| "fwd_op FBrTrue = OP_BR_TRUE_FWD"
| "fwd_op FBrFalse = OP_BR_FALSE_FWD"

fun fwd_instr :: "fwd_kind \<Rightarrow> u16 \<Rightarrow> instr" where
  "fwd_instr FJump d = JumpFwd d"
| "fwd_instr FBrTrue d = BrTrueFwd d"
| "fwd_instr FBrFalse d = BrFalseFwd d"

fun resolve_asm :: "(nat \<rightharpoonup> nat) \<Rightarrow> nat \<Rightarrow> asm \<Rightarrow> instr" where
  "resolve_asm lab pos (Ins i) = i"
| "resolve_asm lab pos (Fwd k l) =
     fwd_instr k (case lab l of None \<Rightarrow> 0xFFFF | Some t \<Rightarrow> of_nat (t - (pos + 3)))"
| "resolve_asm lab pos (Back l) = JumpBack (of_nat (pos + 3 - the (lab l)))"

fun asm_size :: "asm \<Rightarrow> nat" where
  "asm_size (Ins i) = length (instr_bytes i)"
| "asm_size _ = 3"

fun layout :: "(nat \<rightharpoonup> nat) \<Rightarrow> nat \<Rightarrow> asm list \<Rightarrow> bytes" where
  "layout lab pos [] = []"
| "layout lab pos (a # as) = instr_bytes (resolve_asm lab pos a) @ layout lab (pos + asm_size a) as"

definition pos_of :: "asm list \<Rightarrow> nat \<Rightarrow> nat" where
  "pos_of as k = sum_list (map asm_size (take k as))"

fun fwd_sites :: "nat \<Rightarrow> nat \<Rightarrow> asm list \<Rightarrow> nat list" where
  "fwd_sites l pos [] = []"
| "fwd_sites l pos (Fwd k l' # as) = (if l' = l then [pos + 1] else []) @ fwd_sites l (pos + 3) as"
| "fwd_sites l pos (a # as) = fwd_sites l (pos + asm_size a) as"

fun asm_ok :: "(nat \<rightharpoonup> nat) \<Rightarrow> nat \<Rightarrow> nat \<Rightarrow> asm \<Rightarrow> bool" where
  "asm_ok lab nl pos (Ins i) \<longleftrightarrow> True"
| "asm_ok lab nl pos (Fwd k l) \<longleftrightarrow> l < nl \<and>
     (case lab l of None \<Rightarrow> True | Some t \<Rightarrow> pos + 3 \<le> t \<and> t \<le> pos + 3 + U16_MAX)"
| "asm_ok lab nl pos (Back l) \<longleftrightarrow> l < nl \<and>
     (case lab l of None \<Rightarrow> False | Some t \<Rightarrow> t \<le> pos + 3 \<and> pos + 3 \<le> t + U16_MAX)"

fun prog_ok :: "(nat \<rightharpoonup> nat) \<Rightarrow> nat \<Rightarrow> nat \<Rightarrow> asm list \<Rightarrow> bool" where
  "prog_ok lab nl pos [] \<longleftrightarrow> True"
| "prog_ok lab nl pos (a # as) \<longleftrightarrow> asm_ok lab nl pos a \<and> prog_ok lab nl (pos + asm_size a) as"

lemma length_resolve [simp]: "length (instr_bytes (resolve_asm lab pos a)) = asm_size a"
proof (cases a)
  case (Fwd k l)
  then show ?thesis by (cases k) simp_all
qed simp_all

lemma layout_append:
  "layout lab pos (as @ bs) = layout lab pos as @ layout lab (pos + sum_list (map asm_size as)) bs"
  by (induction as arbitrary: pos) (simp_all add: add.assoc)

lemma length_layout [simp]: "length (layout lab pos as) = sum_list (map asm_size as)"
  by (induction as arbitrary: pos) simp_all

lemma fwd_sites_append:
  "fwd_sites l pos (as @ bs) = fwd_sites l pos as @ fwd_sites l (pos + sum_list (map asm_size as)) bs"
  by (induction l pos as rule: fwd_sites.induct) (simp_all add: add.assoc)

lemma prog_ok_append:
  "prog_ok lab nl pos (as @ bs) \<longleftrightarrow>
   prog_ok lab nl pos as \<and> prog_ok lab nl (pos + sum_list (map asm_size as)) bs"
  by (induction as arbitrary: pos) (simp_all add: add.assoc)

subsection \<open>Patching\<close>

lemma le16_of_nat:
  "d \<le> U16_MAX \<Longrightarrow> le16 (of_nat d) = [of_nat d AND 0xFF, of_nat (d div 256)]"
proof -
  have m: "(0xFF :: u16) = mask 8" "(0xFF :: u8) = mask 8" by (simp_all add: mask_eq_exp_minus_1)
  have 1: "(ucast ((of_nat d :: u16) AND 0xFF) :: u8) = of_nat d AND 0xFF"
    unfolding m by (rule bit_word_eqI) (auto simp: bit_simps)
  have "(ucast (drop_bit 8 (of_nat d :: u16)) :: u8) = of_nat (drop_bit 8 d)"
    by (rule bit_word_eqI) (auto simp: bit_simps)
  then have 2: "(ucast (drop_bit 8 (of_nat d :: u16)) :: u8) = of_nat (d div 256)"
    by (simp add: drop_bit_eq_div)
  show ?thesis unfolding le16_def 1 2 ..
qed

lemma patch_u16_at:
  "patch_u16 (length pre + 1) d (pre @ op # x # y # post) =
   (if d \<le> U16_MAX then Some (pre @ op # le16 (of_nat d) @ post) else None)"
  by (auto simp: patch_u16_def rust_assert_def le16_of_nat list_update_append)

lemma patch_sites_at:
  "patch_sites bci ((length pre + 1) # sites) (pre @ op # x # y # post) =
   (if length pre + 3 \<le> bci \<and> bci - (length pre + 3) \<le> U16_MAX
    then patch_sites bci sites (pre @ op # le16 (of_nat (bci - (length pre + 3))) @ post) else None)"
proof -
  have "length pre + 1 + 2 = length pre + 3" by simp
  then show ?thesis
    unfolding patch_sites.simps patch_u16_at by (simp only: rust_assert_def) simp
qed

lemma fwd_bytes: "instr_bytes (fwd_instr k d) = fwd_op k # le16 d"
  by (cases k) simp_all

lemma resolve_other:
  "asm_ok lab nl pos a \<Longrightarrow> lab l = None \<Longrightarrow> (\<forall>k. a \<noteq> Fwd k l) \<Longrightarrow>
   resolve_asm (lab(l \<mapsto> t)) pos a = resolve_asm lab pos a \<and> asm_ok (lab(l \<mapsto> t)) nl pos a \<and>
   fwd_sites l pos (a # as) = fwd_sites l (pos + asm_size a) as"
  by (cases a) auto

lemma patch_sites_layout:
  assumes "lab l = None" "prog_ok lab nl (length pre) as"
    and "patch_sites bci (fwd_sites l (length pre) as) (pre @ layout lab (length pre) as) = Some bs"
  shows "bs = pre @ layout (lab(l \<mapsto> bci)) (length pre) as \<and> prog_ok (lab(l \<mapsto> bci)) nl (length pre) as"
  using assms
proof (induction as arbitrary: pre)
  case (Cons a as)
  show ?case
  proof (cases "\<exists>k. a = Fwd k l")
    case True
    then obtain k where a: "a = Fwd k l" by blast
    let ?d = "bci - (length pre + 3)"
    have step: "length pre + 3 \<le> bci" "?d \<le> U16_MAX"
      and rest: "patch_sites bci (fwd_sites l (length pre + 3) as)
          (pre @ fwd_op k # le16 (of_nat ?d) @ layout lab (length pre + 3) as) = Some bs"
    proof -
      have "patch_sites bci ((length pre + 1) # fwd_sites l (length pre + 3) as)
          (pre @ fwd_op k # 0xFF # 0xFF # layout lab (length pre + 3) as) = Some bs"
        using Cons.prems a by (simp add: fwd_bytes le16_def del: patch_sites.simps)
      then show "length pre + 3 \<le> bci" "?d \<le> U16_MAX"
        "patch_sites bci (fwd_sites l (length pre + 3) as)
          (pre @ fwd_op k # le16 (of_nat ?d) @ layout lab (length pre + 3) as) = Some bs"
        unfolding patch_sites_at by (simp_all split: if_splits del: of_nat_diff)
    qed
    have "bs = (pre @ fwd_op k # le16 (of_nat ?d)) @ layout (lab(l \<mapsto> bci)) (length pre + 3) as \<and>
        prog_ok (lab(l \<mapsto> bci)) nl (length pre + 3) as"
      using Cons.IH [of "pre @ fwd_op k # le16 (of_nat ?d)"] Cons.prems(1,2) rest a
      by (simp del: of_nat_diff fun_upd_apply)
    then show ?thesis
      using step Cons.prems(2) a by (auto simp: fwd_bytes fun_upd_same simp del: of_nat_diff fun_upd_apply)
  next
    case False
    let ?pre = "pre @ instr_bytes (resolve_asm lab (length pre) a)"
    have ok: "asm_ok lab nl (length pre) a" using Cons.prems(2) by simp
    have other: "resolve_asm (lab(l \<mapsto> bci)) (length pre) a = resolve_asm lab (length pre) a"
      "asm_ok (lab(l \<mapsto> bci)) nl (length pre) a"
      "fwd_sites l (length pre) (a # as) = fwd_sites l (length pre + asm_size a) as"
      using resolve_other [OF ok Cons.prems(1), of bci as] False by blast+
    have "bs = ?pre @ layout (lab(l \<mapsto> bci)) (length ?pre) as \<and> prog_ok (lab(l \<mapsto> bci)) nl (length ?pre) as"
      using Cons.prems other(3) by (intro Cons.IH) simp_all
    then show ?thesis using other by (simp del: fun_upd_apply)
  qed
qed simp

subsection \<open>The calls of a build\<close>

datatype call =
    Plain instr
  | PushLit oop | PushGlob oop | StoreGlob oop
  | SendTo oop u8 | SendSuperTo oop u8
  | Closure nat u8 | InternBlock oop
  | NewLabel | BindAt nat
  | FwdTo fwd_kind nat | BackTo nat
  | NoteLine u32
  | Collect "oop \<Rightarrow> oop"

fun plain_op :: "instr \<Rightarrow> builder \<Rightarrow> builder option" where
  "plain_op PushSelf b = Some (push_self b)"
| "plain_op PushNil b = Some (push_nil b)"
| "plain_op PushTrue b = Some (push_true b)"
| "plain_op PushFalse b = Some (push_false b)"
| "plain_op (PushSmi v) b = Some (push_smi_i8 v b)"
| "plain_op (PushTemp t) b = Some (push_temp t b)"
| "plain_op (StoreTemp t) b = Some (store_temp t b)"
| "plain_op (StoreTempPop t) b = Some (store_temp_pop t b)"
| "plain_op (PushInstvar i) b = Some (push_instvar i b)"
| "plain_op (StoreInstvarPop i) b = Some (store_instvar_pop i b)"
| "plain_op (PushCtxTemp d i) b = Some (push_ctx_temp d i b)"
| "plain_op (StoreCtxTempPop d i) b = Some (store_ctx_temp_pop d i b)"
| "plain_op Pop b = Some (pop_op b)"
| "plain_op Dup b = Some (dup_op b)"
| "plain_op ReturnTos b = Some (ret_tos b)"
| "plain_op ReturnSelf b = Some (ret_self b)"
| "plain_op BlockReturnTos b = Some (block_return_tos b)"
| "plain_op NlrTos b = Some (nlr_tos b)"
| "plain_op _ b = None"

fun do_call :: "call \<Rightarrow> builder \<Rightarrow> builder option" where
  "do_call (Plain i) b = plain_op i b"
| "do_call (PushLit v) b = push_literal v b"
| "do_call (PushGlob v) b = push_global v b"
| "do_call (StoreGlob v) b = store_global_pop v b"
| "do_call (SendTo s n) b = send s n b"
| "do_call (SendSuperTo s n) b = send_super s n b"
| "do_call (Closure l n) b = push_closure l n b"
| "do_call (InternBlock v) b = map_option snd (intern_block_literal v b)"
| "do_call NewLabel b = Some (snd (new_label b))"
| "do_call (BindAt l) b = bind_label l b"
| "do_call (FwdTo FJump l) b = jump_fwd l b"
| "do_call (FwdTo FBrTrue l) b = br_true_fwd l b"
| "do_call (FwdTo FBrFalse l) b = br_false_fwd l b"
| "do_call (BackTo l) b = jump_back l b"
| "do_call (NoteLine n) b = Some (note_line n b)"
| "do_call (Collect f) b = Some (relocate f b)"

text \<open>The index under which a literal ends up, and what a call is meant to emit.\<close>

definition lit_of :: "oop \<Rightarrow> builder \<Rightarrow> nat" where
  "lit_of v b = (case intern_literal v b of None \<Rightarrow> 0 | Some (idx, _) \<Rightarrow> idx)"

fun emitted :: "call \<Rightarrow> builder \<Rightarrow> asm list" where
  "emitted (Plain i) b = [Ins i]"
| "emitted (PushLit v) b = [Ins (PushLiteral (of_nat (lit_of v b)))]"
| "emitted (PushGlob v) b = [Ins (PushGlobal (of_nat (lit_of v b)))]"
| "emitted (StoreGlob v) b = [Ins (StoreGlobalPop (of_nat (lit_of v b)))]"
| "emitted (SendTo s n) b = [Ins (Send (of_nat (n_ics b)) False)]"
| "emitted (SendSuperTo s n) b = [Ins (Send (of_nat (n_ics b)) True)]"
| "emitted (Closure l n) b = [Ins (PushClosure (of_nat l) n)]"
| "emitted (FwdTo k l) b = [Fwd k l]"
| "emitted (BackTo l) b = [Back l]"
| "emitted _ b = []"

inductive building :: "builder \<Rightarrow> asm list \<Rightarrow> bool" where
  building_new: "building new_builder []"
| building_call: "building b as \<Longrightarrow> do_call c b = Some b' \<Longrightarrow> building b' (as @ emitted c b)"

definition lab_of :: "builder \<Rightarrow> nat \<rightharpoonup> nat" where
  "lab_of b l = (if l < length (labels b)
     then (case labels b ! l of Bound t \<Rightarrow> Some t | Unbound _ \<Rightarrow> None) else None)"

definition asm_inv :: "builder \<Rightarrow> asm list \<Rightarrow> bool" where
  "asm_inv b as \<longleftrightarrow>
     code b = layout (lab_of b) 0 as \<and> prog_ok (lab_of b) (length (labels b)) 0 as \<and>
     (\<forall>l sites. l < length (labels b) \<longrightarrow> labels b ! l = Unbound sites \<longrightarrow> sites = fwd_sites l 0 as) \<and>
     (\<forall>l t. lab_of b l = Some t \<longrightarrow> (\<exists>k \<le> length as. t = pos_of as k))"

definition lit_inv :: "builder \<Rightarrow> bool" where
  "lit_inv b \<longleftrightarrow> (\<forall>v idx. literal_index b v = Some idx \<longrightarrow> idx < length (literals b)) \<and>
     n_ics b = length (ic_sites b)"

lemma pos_of_append: "k \<le> length as \<Longrightarrow> pos_of (as @ bs) k = pos_of as k"
  by (simp add: pos_of_def)

lemma asm_inv_emit:
  assumes inv: "asm_inv b as" and code: "code b' = code b @ instr_bytes i" and labs: "labels b' = labels b"
  shows "asm_inv b' (as @ [Ins i])"
proof -
  have lab: "lab_of b' = lab_of b" using labs by (auto simp: lab_of_def fun_eq_iff)
  show ?thesis
    unfolding asm_inv_def lab labs
    using inv code
    by (auto simp: asm_inv_def layout_append prog_ok_append fwd_sites_append)
      (metis le_SucI pos_of_append)
qed

lemma asm_inv_same:
  "asm_inv b as \<Longrightarrow> code b' = code b \<Longrightarrow> labels b' = labels b \<Longrightarrow> asm_inv b' as"
proof -
  assume inv: "asm_inv b as" and same: "code b' = code b" "labels b' = labels b"
  have "lab_of b' = lab_of b" using same by (auto simp: lab_of_def fun_eq_iff)
  with inv same show "asm_inv b' as" by (simp add: asm_inv_def)
qed

lemmas emit_defs = emit_u8_def emit_u16_def push_self_def push_nil_def push_true_def push_false_def
  push_smi_i8_def push_temp_def store_temp_def store_temp_pop_def push_instvar_def
  store_instvar_pop_def push_ctx_temp_def store_ctx_temp_pop_def pop_op_def dup_op_def ret_tos_def
  ret_self_def block_return_tos_def nlr_tos_def

lemma plain_op_code:
  "plain_op i b = Some b' \<Longrightarrow> code b' = code b @ instr_bytes i \<and> labels b' = labels b \<and>
     literals b' = literals b \<and> literal_index b' = literal_index b \<and> n_ics b' = n_ics b \<and>
     ic_sites b' = ic_sites b"
  by (induction i b rule: plain_op.induct) (simp_all add: emit_defs, (drule sym, simp)+)

definition append_literal :: "oop \<Rightarrow> builder \<Rightarrow> builder" where
  "append_literal v b = b\<lparr>literals := literals b @ [v],
     literal_index := (literal_index b)(v \<mapsto> length (literals b))\<rparr>"

lemma intern_literal_eq:
  "intern_literal v b = (case literal_index b v of
      None \<Rightarrow> Some (length (literals b), append_literal v b)
    | Some idx \<Rightarrow> if idx < length (literals b)
        then if literals b ! idx = v then Some (idx, b) else Some (length (literals b), append_literal v b)
        else None)"
  by (simp add: intern_literal_def append_literal_def Let_def slice_get_def split: option.split)

lemma intern_literal_cases:
  assumes "intern_literal v b = Some (idx, b')"
  shows "(b' = b \<and> idx < length (literals b) \<and> literals b ! idx = v) \<or>
     (b' = append_literal v b \<and> idx = length (literals b))"
proof (cases "literal_index b v")
  case None
  then show ?thesis using assms by (simp add: intern_literal_eq)
next
  case (Some i)
  then show ?thesis using assms
    by (cases "i < length (literals b)"; cases "literals b ! i = v") (simp_all add: intern_literal_eq)
qed

lemma intern_literal_frame:
  "intern_literal v b = Some (idx, b') \<Longrightarrow>
   code b' = code b \<and> labels b' = labels b \<and> n_ics b' = n_ics b \<and> ic_sites b' = ic_sites b"
  by (drule intern_literal_cases) (elim disjE conjE; simp add: append_literal_def)

lemma lit_inv_append: "lit_inv b \<Longrightarrow> lit_inv (append_literal v b)"
  by (auto simp: lit_inv_def append_literal_def less_Suc_eq)

lemma intern_literal_total: "lit_inv b \<Longrightarrow> \<exists>idx b'. intern_literal v b = Some (idx, b')"
  by (cases "literal_index b v")
    (simp_all add: intern_literal_eq lit_inv_def)

lemma intern_literal_spec:
  assumes "lit_inv b"
  shows "\<exists>idx b'. intern_literal v b = Some (idx, b') \<and> idx < length (literals b') \<and>
    literals b' ! idx = v \<and> lit_inv b' \<and> take (length (literals b)) (literals b') = literals b"
proof -
  from intern_literal_total [OF assms] obtain idx b' where i: "intern_literal v b = Some (idx, b')"
    by blast
  have "idx < length (literals b') \<and> literals b' ! idx = v \<and> lit_inv b' \<and>
      take (length (literals b)) (literals b') = literals b"
    using intern_literal_cases [OF i] assms lit_inv_append [OF assms, of v]
    by (elim disjE conjE) (simp_all add: append_literal_def)
  with i show ?thesis by blast
qed

subsection \<open>Every call keeps the invariant\<close>

lemma ucast_of_nat_u8: "(ucast (of_nat n :: u16) :: u8) = of_nat n"
  by (rule bit_word_eqI) (auto simp: bit_simps)

lemma of_nat_u16_le: "n \<le> 65535 \<Longrightarrow> (of_nat n :: u16) \<le> 255 \<longleftrightarrow> n \<le> 255"
  by (simp add: word_le_nat_alt unat_of_nat take_bit_nat_eq_self)

lemma emit_literal_ref_code:
  "idx \<le> 65535 \<Longrightarrow> code (emit_literal_ref idx b) = code b @ instr_bytes (PushLiteral (of_nat idx))"
  by (simp add: emit_literal_ref_def emit_defs of_nat_u16_le ucast_of_nat_u8 le16_def)

lemma emit_literal_ref_labels [simp]: "labels (emit_literal_ref idx b) = labels b"
  by (simp add: emit_literal_ref_def emit_defs)

lemma emit_send_code:
  "emit_send OP_SEND OP_SEND_W s n b = Some b' \<Longrightarrow>
     code b' = code b @ instr_bytes (Send (of_nat (n_ics b)) False) \<and> labels b' = labels b"
  "emit_send OP_SEND_SUPER OP_SEND_SUPER_W s n b = Some b' \<Longrightarrow>
     code b' = code b @ instr_bytes (Send (of_nat (n_ics b)) True) \<and> labels b' = labels b"
  by (auto simp: emit_send_def add_send_def emit_defs bind_eq_Some_conv le16_def Let_def split: if_splits)

lemma lit_of_eq: "intern_literal v b = Some (idx, b1) \<Longrightarrow> lit_of v b = idx"
  by (simp add: lit_of_def)

lemma fwd_sites_fresh: "prog_ok lab nl pos as \<Longrightarrow> nl \<le> l \<Longrightarrow> fwd_sites l pos as = []"
  by (induction l pos as rule: fwd_sites.induct) auto

lemma prog_ok_mono: "prog_ok lab nl pos as \<Longrightarrow> nl \<le> nl' \<Longrightarrow> prog_ok lab nl' pos as"
proof (induction as arbitrary: pos)
  case (Cons a as)
  then show ?case by (cases a) (auto split: option.splits)
qed simp

lemma pos_of_le: "pos_of as k \<le> sum_list (map asm_size as)"
proof -
  have "sum_list (map asm_size as) = pos_of as k + sum_list (map asm_size (drop k as))"
    unfolding pos_of_def by (metis append_take_drop_id map_append sum_list_append)
  then show ?thesis by simp
qed

lemma pos_of_length: "pos_of as (length as) = sum_list (map asm_size as)"
  by (simp add: pos_of_def)

lemma lab_target_le: "asm_inv b as \<Longrightarrow> lab_of b l = Some t \<Longrightarrow> t \<le> length (code b)"
  using pos_of_le [of as] unfolding asm_inv_def by fastforce

lemma lab_boundary:
  assumes "asm_inv b as" "lab_of b l = Some t"
  shows "\<exists>j \<le> length (as @ bs). t = pos_of (as @ bs) j"
proof -
  obtain j where j: "j \<le> length as" "t = pos_of as j" using assms unfolding asm_inv_def by blast
  then have "t = pos_of (as @ bs) j" "j \<le> length (as @ bs)" by (simp_all add: pos_of_append)
  then show ?thesis by blast
qed

lemma asm_inv_new_label: "asm_inv b as \<Longrightarrow> asm_inv (snd (new_label b)) as"
proof -
  assume inv: "asm_inv b as"
  have lab: "lab_of (snd (new_label b)) = lab_of b"
    by (auto simp: lab_of_def new_label_def nth_append fun_eq_iff less_Suc_eq)
  show ?thesis
    using inv fwd_sites_fresh [of "lab_of b" "length (labels b)" 0 as "length (labels b)"]
    unfolding asm_inv_def lab
    by (auto simp: new_label_def nth_append less_Suc_eq intro: prog_ok_mono)
qed

lemma asm_inv_bind:
  assumes inv: "asm_inv b as" and bind: "bind_label l b = Some b'"
  shows "asm_inv b' as"
proof -
  let ?n = "length (code b)"
  obtain sites bs where l: "l < length (labels b)" "labels b ! l = Unbound sites"
    and bs: "patch_sites ?n sites (code b) = Some bs"
    and b': "b' = b\<lparr>code := bs, labels := (labels b)[l := Bound ?n]\<rparr>"
    using bind by (auto simp: bind_label_def Let_def slice_get_def bind_eq_Some_conv
        split: if_splits label_state.splits)
  have lab: "lab_of b' = (lab_of b)(l \<mapsto> ?n)"
    using l b' by (auto simp: lab_of_def fun_eq_iff)
  have "lab_of b l = None" using l by (simp add: lab_of_def)
  moreover have "sites = fwd_sites l 0 as" "code b = layout (lab_of b) 0 as"
    "prog_ok (lab_of b) (length (labels b)) 0 as"
    using inv l by (auto simp: asm_inv_def)
  ultimately have "bs = layout (lab_of b') 0 as \<and> prog_ok (lab_of b') (length (labels b)) 0 as"
    using patch_sites_layout [of "lab_of b" l "length (labels b)" "[]" as ?n bs] bs lab by simp
  moreover have "?n = pos_of as (length as)" using inv by (simp add: asm_inv_def pos_of_length)
  ultimately show ?thesis
    using inv l lab b' by (auto simp: asm_inv_def nth_list_update split: if_splits)
qed

lemma asm_inv_fwd:
  assumes inv: "asm_inv b as" and jump: "emit_fwd_jump (fwd_op k) l b = Some b'"
  shows "asm_inv b' (as @ [Fwd k l])"
proof -
  have l: "l < length (labels b)"
    using jump by (auto simp: emit_fwd_jump_def emit_defs slice_get_def Let_def split: if_splits)
  show ?thesis
  proof (cases "labels b ! l")
    case (Bound t)
    then have "lab_of b l = Some t" using l by (simp add: lab_of_def)
    then have "t \<le> length (code b)" using inv by (rule lab_target_le [rotated])
    then show ?thesis
      using jump l Bound by (simp add: emit_fwd_jump_def emit_defs slice_get_def Let_def bind_eq_Some_conv)
  next
    case (Unbound sites)
    then have code: "code b' = code b @ fwd_op k # le16 0xFFFF"
      and labs: "labels b' = (labels b)[l := Unbound (sites @ [length (code b) + 1])]"
      using jump l by (auto simp: emit_fwd_jump_def emit_defs slice_get_def Let_def le16_def)
    have lab: "lab_of b' = lab_of b" and none: "lab_of b l = None"
      using l labs Unbound by (auto simp: lab_of_def fun_eq_iff nth_list_update)
    have bnd: "\<exists>j \<le> Suc (length as). t = pos_of (as @ [Fwd k l]) j" if "lab_of b l' = Some t" for l' t
      using lab_boundary [OF inv that, of "[Fwd k l]"] by simp
    show ?thesis
      using inv l Unbound bnd none unfolding asm_inv_def lab
      by (auto simp: code labs layout_append prog_ok_append fwd_sites_append fwd_bytes
          nth_list_update split: if_splits)
  qed
qed

lemma asm_inv_back:
  assumes inv: "asm_inv b as" and jump: "jump_back l b = Some b'"
  shows "asm_inv b' (as @ [Back l])"
proof -
  let ?n = "length (code b) + 3"
  obtain t where l: "l < length (labels b)" "labels b ! l = Bound t" "t \<le> ?n" "?n - t \<le> U16_MAX"
    and b': "b' = emit_u16 (of_nat (?n - t)) (emit_u8 OP_JUMP_BACK b)"
    using jump by (auto simp: jump_back_def slice_get_def Let_def bind_eq_Some_conv
        split: if_splits label_state.splits)
  have lab: "lab_of b' = lab_of b" and t: "lab_of b l = Some t"
    using l b' by (auto simp: lab_of_def fun_eq_iff emit_defs)
  have code: "code b' = code b @ OP_JUMP_BACK # le16 (of_nat (?n - t))" "labels b' = labels b"
    by (simp_all add: b' emit_defs le16_def)
  have bnd: "\<exists>j \<le> Suc (length as). t = pos_of (as @ [Back l]) j" if "lab_of b l' = Some t" for l' t
    using lab_boundary [OF inv that, of "[Back l]"] by simp
  show ?thesis
    using inv l t bnd unfolding asm_inv_def lab
    by (auto simp: code layout_append prog_ok_append fwd_sites_append simp del: of_nat_diff)
qed

lemma asm_inv_lit_op:
  assumes inv: "asm_inv b as" and lit: "intern_literal v b = Some (idx, b1)"
    and code: "code b' = code b1 @ instr_bytes i" and labs: "labels b' = labels b1"
  shows "asm_inv b' (as @ [Ins i])"
  using intern_literal_frame [OF lit] code labs by (intro asm_inv_emit [OF inv]) simp_all

lemma asm_inv_call:
  assumes inv: "asm_inv b as" and li: "lit_inv b" and call: "do_call c b = Some b'"
    and short: "length (literals b') \<le> 65536"
  shows "asm_inv b' (as @ emitted c b)"
proof (cases c)
  case (Plain i)
  with call plain_op_code [of i b b'] show ?thesis by (auto intro: asm_inv_emit [OF inv])
next
  case (PushLit v)
  obtain idx b1 where lit: "intern_literal v b = Some (idx, b1)" "idx < length (literals b1)"
    using intern_literal_spec [OF li, of v] by blast
  with PushLit call have b': "b' = emit_literal_ref idx b1" by (simp add: push_literal_def)
  then have "idx \<le> 65535" using short lit(2) by (simp add: emit_literal_ref_def emit_defs split: if_splits)
  with b' lit(1) PushLit show ?thesis
    by (auto simp: lit_of_eq emit_literal_ref_code intro!: asm_inv_lit_op [OF inv lit(1)])
next
  case (PushGlob v)
  then obtain idx b1 where lit: "intern_literal v b = Some (idx, b1)"
    and b': "b' = emit_u8 (of_nat idx) (emit_u8 OP_PUSH_GLOBAL b1)"
    using call by (auto simp: push_global_def bind_eq_Some_conv)
  with PushGlob show ?thesis
    by (auto simp: lit_of_eq emit_defs intro!: asm_inv_lit_op [OF inv lit])
next
  case (StoreGlob v)
  then obtain idx b1 where lit: "intern_literal v b = Some (idx, b1)"
    and b': "b' = emit_u8 (of_nat idx) (emit_u8 OP_STORE_GLOBAL_POP b1)"
    using call by (auto simp: store_global_pop_def bind_eq_Some_conv)
  with StoreGlob show ?thesis
    by (auto simp: lit_of_eq emit_defs intro!: asm_inv_lit_op [OF inv lit])
next
  case (SendTo s n)
  with call emit_send_code(1) [of s n b b'] show ?thesis
    by (auto simp: send_def simp del: instr_bytes.simps intro: asm_inv_emit [OF inv])
next
  case (SendSuperTo s n)
  with call emit_send_code(2) [of s n b b'] show ?thesis
    by (auto simp: send_super_def simp del: instr_bytes.simps intro: asm_inv_emit [OF inv])
next
  case (Closure l n)
  with call show ?thesis
    by (auto simp: push_closure_def emit_defs bind_eq_Some_conv intro!: asm_inv_emit [OF inv])
next
  case (InternBlock v)
  with call intern_literal_frame show ?thesis
    by (fastforce simp: intern_block_literal_def intro: asm_inv_same [OF inv])
next
  case (FwdTo k l)
  with call have "emit_fwd_jump (fwd_op k) l b = Some b'"
    by (cases k) (simp_all add: jump_fwd_def br_true_fwd_def br_false_fwd_def)
  with FwdTo show ?thesis using asm_inv_fwd [OF inv] by simp
next
  case (NoteLine n)
  with call show ?thesis by (auto simp: note_line_def intro: asm_inv_same [OF inv])
next
  case (Collect f)
  with call show ?thesis by (auto simp: relocate_def intro: asm_inv_same [OF inv])
qed (use call inv in \<open>auto intro: asm_inv_new_label asm_inv_bind asm_inv_back\<close>)

lemma lit_inv_same:
  "lit_inv b \<Longrightarrow> literals b' = literals b \<Longrightarrow> literal_index b' = literal_index b \<Longrightarrow>
   n_ics b' = n_ics b \<Longrightarrow> ic_sites b' = ic_sites b \<Longrightarrow>
   lit_inv b' \<and> length (literals b) \<le> length (literals b')"
  by (simp add: lit_inv_def)

lemma lit_inv_intern:
  assumes "lit_inv b" "intern_literal v b = Some (idx, b1)"
    and "literals b' = literals b1" "literal_index b' = literal_index b1"
    and "n_ics b' = n_ics b1" "ic_sites b' = ic_sites b1"
  shows "lit_inv b' \<and> length (literals b) \<le> length (literals b')"
proof -
  have "lit_inv b1 \<and> length (literals b) \<le> length (literals b1)"
    using intern_literal_cases [OF assms(2)] assms(1) lit_inv_append [OF assms(1), of v]
    by (elim disjE conjE) (simp_all add: append_literal_def)
  with assms show ?thesis by (auto simp: lit_inv_def)
qed

lemma lit_inv_send:
  "lit_inv b \<Longrightarrow> emit_send x y s n b = Some b' \<Longrightarrow> lit_inv b' \<and> length (literals b) \<le> length (literals b')"
  by (auto simp: emit_send_def add_send_def emit_defs bind_eq_Some_conv Let_def lit_inv_def split: if_splits)

lemma emit_fwd_jump_frame:
  "emit_fwd_jump op l b = Some b' \<Longrightarrow> literals b' = literals b \<and> literal_index b' = literal_index b \<and>
     n_ics b' = n_ics b \<and> ic_sites b' = ic_sites b"
proof (cases "labels b ! l")
  case (Bound t)
  assume "emit_fwd_jump op l b = Some b'"
  with Bound show ?thesis
    by (auto simp: emit_fwd_jump_def emit_defs Let_def slice_get_def bind_eq_Some_conv split: if_splits)
next
  case (Unbound sites)
  assume "emit_fwd_jump op l b = Some b'"
  with Unbound show ?thesis
    by (auto simp: emit_fwd_jump_def emit_defs Let_def slice_get_def split: if_splits)
qed

lemma lit_inv_call:
  assumes inv: "lit_inv b" and call: "do_call c b = Some b'"
  shows "lit_inv b' \<and> length (literals b) \<le> length (literals b')"
proof (cases c)
  case (Plain i)
  with call plain_op_code [of i b b'] show ?thesis by (simp add: lit_inv_same [OF inv])
next
  case (PushLit v)
  then obtain idx b1 where lit: "intern_literal v b = Some (idx, b1)" and b': "b' = emit_literal_ref idx b1"
    using call by (auto simp: push_literal_def bind_eq_Some_conv)
  show ?thesis by (rule lit_inv_intern [OF inv lit]) (simp_all add: b' emit_literal_ref_def emit_defs)
next
  case (PushGlob v)
  then obtain idx b1 where lit: "intern_literal v b = Some (idx, b1)" and b': "b' = emit_u8 (of_nat idx) (emit_u8 OP_PUSH_GLOBAL b1)"
    using call by (auto simp: push_global_def bind_eq_Some_conv)
  show ?thesis by (rule lit_inv_intern [OF inv lit]) (simp_all add: b' emit_literal_ref_def emit_defs)
next
  case (StoreGlob v)
  then obtain idx b1 where lit: "intern_literal v b = Some (idx, b1)" and b': "b' = emit_u8 (of_nat idx) (emit_u8 OP_STORE_GLOBAL_POP b1)"
    using call by (auto simp: store_global_pop_def bind_eq_Some_conv)
  show ?thesis by (rule lit_inv_intern [OF inv lit]) (simp_all add: b' emit_literal_ref_def emit_defs)
next
  case (InternBlock v)
  then obtain idx where lit: "intern_literal v b = Some (idx, b')"
    using call by (auto simp: intern_block_literal_def)
  show ?thesis by (rule lit_inv_intern [OF inv lit]) simp_all
next
  case (FwdTo k l)
  with call have "emit_fwd_jump (fwd_op k) l b = Some b'"
    by (cases k) (simp_all add: jump_fwd_def br_true_fwd_def br_false_fwd_def)
  then show ?thesis using emit_fwd_jump_frame lit_inv_same [OF inv] by blast
next
  case (SendTo s n)
  with call lit_inv_send [OF inv] show ?thesis by (simp add: send_def)
next
  case (SendSuperTo s n)
  with call lit_inv_send [OF inv] show ?thesis by (simp add: send_super_def)
next
  case (BindAt l)
  with call have "b' \<in> {b\<lparr>code := bs, labels := ls\<rparr> | bs ls. True}"
    by (cases "labels b ! l")
      (auto simp: bind_label_def Let_def slice_get_def bind_eq_Some_conv split: if_splits)
  then show ?thesis using inv by (auto simp: lit_inv_def)
next
  case (BackTo l)
  with call have "b' \<in> {b\<lparr>code := bs\<rparr> | bs. True}"
    by (cases "labels b ! l")
      (auto simp: jump_back_def emit_defs Let_def slice_get_def bind_eq_Some_conv split: if_splits)
  then show ?thesis using inv by (auto simp: lit_inv_def)
qed (use call inv in \<open>auto simp: push_closure_def new_label_def note_line_def relocate_def emit_defs
      bind_eq_Some_conv lit_inv_def split: if_splits\<close>)

lemma building_inv:
  "building b as \<Longrightarrow> lit_inv b \<and> (length (literals b) \<le> 65536 \<longrightarrow> asm_inv b as)"
proof (induction rule: building.induct)
  case building_new
  show ?case by (simp add: lit_inv_def asm_inv_def new_builder_def lab_of_def)
next
  case (building_call b as c b')
  then show ?case using lit_inv_call [of b c b'] asm_inv_call [of b as c b'] by linarith
qed

subsection \<open>The assembler is correct\<close>

text \<open>Where a jump instruction whose next instruction is at \<open>next\<close> goes.\<close>

fun jump_target :: "instr \<Rightarrow> nat \<Rightarrow> nat option" where
  "jump_target (JumpFwd d) next = Some (next + unat d)"
| "jump_target (BrTrueFwd d) next = Some (next + unat d)"
| "jump_target (BrFalseFwd d) next = Some (next + unat d)"
| "jump_target (JumpBack d) next = Some (next - unat d)"
| "jump_target _ next = None"

lemma layout_holds:
  "k < length as \<Longrightarrow>
   holds_at (layout lab 0 as) (pos_of as k) (instr_bytes (resolve_asm lab (pos_of as k) (as ! k)))"
proof -
  assume k: "k < length as"
  then have as: "as = take k as @ as ! k # drop (Suc k) as" by (rule id_take_nth_drop)
  have "layout lab 0 as = layout lab 0 (take k as) @ instr_bytes (resolve_asm lab (pos_of as k) (as ! k))
      @ layout lab (pos_of as k + asm_size (as ! k)) (drop (Suc k) as)"
    by (subst as) (simp add: layout_append pos_of_def)
  moreover have "pos_of as k = length (layout lab 0 (take k as))" by (simp add: pos_of_def)
  ultimately show ?thesis by (metis holds_at_mid)
qed

lemma pos_of_Suc: "k < length as \<Longrightarrow> pos_of as (Suc k) = pos_of as k + asm_size (as ! k)"
  by (simp add: pos_of_def take_Suc_conv_app_nth)

lemma layout_decode:
  "k < length as \<Longrightarrow> decode_at (layout lab 0 as) (pos_of as k)
     = Some (resolve_asm lab (pos_of as k) (as ! k), pos_of as (Suc k))"
  using instr.rd_at [OF layout_holds, of k as lab] by (simp add: pos_of_Suc)

lemma prog_ok_nth: "prog_ok lab nl p as \<Longrightarrow> k < length as \<Longrightarrow> asm_ok lab nl (p + pos_of as k) (as ! k)"
proof (induction as arbitrary: p k)
  case (Cons a as)
  show ?case
  proof (cases k)
    case (Suc j)
    then show ?thesis using Cons.IH [of "p + asm_size a" j] Cons.prems by (simp add: pos_of_def add.assoc)
  qed (use Cons.prems in \<open>simp add: pos_of_def\<close>)
qed simp

lemma unat_u16_small: "d \<le> U16_MAX \<Longrightarrow> unat (of_nat d :: u16) = d"
  by (simp add: U16_MAX_def unat_of_nat take_bit_nat_eq_self)

lemma resolve_target:
  assumes ok: "asm_ok lab nl pos a" and a: "(\<exists>k. a = Fwd k l) \<or> a = Back l" and t: "lab l = Some t"
  shows "jump_target (resolve_asm lab pos a) (pos + 3) = Some t"
  using a
proof
  assume "\<exists>k. a = Fwd k l"
  then obtain k where k: "a = Fwd k l" ..
  with ok t have "pos + 3 \<le> t" "t - (pos + 3) \<le> U16_MAX" by auto
  with k t show ?thesis by (cases k) (simp_all add: unat_u16_small del: of_nat_diff)
next
  assume k: "a = Back l"
  with ok t have "t \<le> pos + 3" "pos + 3 - t \<le> U16_MAX" by auto
  with k t show ?thesis by (simp add: unat_u16_small del: of_nat_diff)
qed

lemma set_flags_bytes: "set_flags ac nt hc ib pf cc nc m = Some m' \<Longrightarrow> m' = m\<lparr>m_flags := m_flags m'\<rparr>"
  by (auto simp: set_flags_eq set_flags_value_def bind_eq_Some_conv split: if_splits)

lemma finish_parts:
  assumes "finish nil_obj sel ac nt b = Some m"
  shows "m_bytes m = code b \<and> m_literals m = literals b \<and> m_selector m = sel \<and> m_holder m = nil_obj \<and>
    (\<forall>l < length (labels b). \<exists>t. labels b ! l = Bound t) \<and>
    (\<exists>li. last_instr (code b) 0 None = Some li \<and> is_return li)"
proof -
  from assms obtain ics zero where
    fl: "set_flags ac nt False False False False 0
       \<lparr>m_selector = sel, m_holder = nil_obj, m_flags = zero, m_primitive = zero,
        m_counters = zero, m_literals = literals b, m_ics = ics, m_bytes = code b\<rparr> = Some m"
    and lbl: "\<forall>l \<in> set (labels b). case l of Bound _ \<Rightarrow> True | Unbound _ \<Rightarrow> False"
    and ret: "\<exists>li. last_instr (code b) 0 None = Some li \<and> is_return li"
    by (auto simp: finish_def bind_eq_Some_conv)
  have "\<exists>t. labels b ! l = Bound t" if "l < length (labels b)" for l
    using lbl nth_mem [OF that] by (cases "labels b ! l") auto
  with set_flags_bytes [OF fl] ret show ?thesis
    by (metis (no_types, lifting) method_oop.select_convs(1,2,6,8) method_oop.surjective
        method_oop.update_convs(3))
qed

lemma jump_lands:
  assumes inv: "asm_inv b as" and bound: "\<forall>l < length (labels b). \<exists>t. labels b ! l = Bound t"
    and k: "k < length as" and j: "(\<exists>fk. as ! k = Fwd fk l) \<or> as ! k = Back l"
  shows "\<exists>t j. labels b ! l = Bound t \<and>
      jump_target (resolve_asm (lab_of b) (pos_of as k) (as ! k)) (pos_of as (Suc k)) = Some t \<and>
      j \<le> length as \<and> t = pos_of as j"
proof -
  have aok: "asm_ok (lab_of b) (length (labels b)) (pos_of as k) (as ! k)"
    using inv prog_ok_nth [OF _ k, of "lab_of b" _ 0] by (simp add: asm_inv_def)
  then have "l < length (labels b)" using j by auto
  then obtain t where t: "labels b ! l = Bound t" "lab_of b l = Some t"
    using bound by (auto simp: lab_of_def)
  have "pos_of as (Suc k) = pos_of as k + 3" using pos_of_Suc [OF k] j by auto
  then have "jump_target (resolve_asm (lab_of b) (pos_of as k) (as ! k)) (pos_of as (Suc k)) = Some t"
    using resolve_target [OF aok j t(2)] by simp
  with t inv show ?thesis unfolding asm_inv_def by blast
qed

text \<open>
  C7. The assembler is correct. For any sequence of builder calls (literals, sends, closures, labels,
  forward and backward jumps, with collections moving the literals at any moment) with at most
  65536 literals, if \<open>finish\<close> returns a method then, at the position of every emitted
  instruction, the method's bytes decode to exactly that instruction and to the position of the
  next one; every jump lands where its label was bound, which is the position of an instruction (or the
  end of the code).
\<close>
theorem assembler_correct:
  assumes "building b as" and "length (literals b) \<le> 65536" and "finish nil_obj sel ac nt b = Some m"
  shows "length (m_bytes m) = pos_of as (length as) \<and>
    (\<forall>k < length as. \<exists>i.
      decode_at (m_bytes m) (pos_of as k) = Some (i, pos_of as (Suc k)) \<and>
      (\<forall>j. as ! k = Ins j \<longrightarrow> i = j) \<and>
      (\<forall>l. (\<exists>fk. as ! k = Fwd fk l) \<or> as ! k = Back l \<longrightarrow>
         (\<exists>t j. labels b ! l = Bound t \<and> jump_target i (pos_of as (Suc k)) = Some t \<and>
                j \<le> length as \<and> t = pos_of as j)))"
proof -
  have inv: "asm_inv b as" using building_inv assms by blast
  note fin = finish_parts [OF assms(3)]
  have bound: "\<forall>l < length (labels b). \<exists>t. labels b ! l = Bound t" using fin by blast
  have code: "m_bytes m = layout (lab_of b) 0 as" using inv fin by (simp add: asm_inv_def)
  have "length (m_bytes m) = pos_of as (length as)" by (simp add: code pos_of_length)
  moreover have "decode_at (m_bytes m) (pos_of as k)
      = Some (resolve_asm (lab_of b) (pos_of as k) (as ! k), pos_of as (Suc k))" if "k < length as" for k
    using that by (simp add: code layout_decode)
  moreover have "as ! k = Ins j \<longrightarrow> resolve_asm (lab_of b) (pos_of as k) (as ! k) = j" for k j by simp
  ultimately show ?thesis using jump_lands [OF inv bound] by blast
qed

text \<open>Running a list of calls, with what they emit.\<close>

fun run_calls :: "call list \<Rightarrow> builder \<Rightarrow> asm list \<Rightarrow> (builder \<times> asm list) option" where
  "run_calls [] b as = Some (b, as)"
| "run_calls (c # cs) b as = (case do_call c b of None \<Rightarrow> None
     | Some b' \<Rightarrow> run_calls cs b' (as @ emitted c b))"

lemma run_calls_building: "building b as \<Longrightarrow> run_calls cs b as = Some (b', as') \<Longrightarrow> building b' as'"
  by (induction cs arbitrary: b as) (auto split: option.splits intro: building_call)

definition demo_calls :: "call list" where
  "demo_calls = [NewLabel, NewLabel, BindAt 0, Plain PushTrue, FwdTo FBrFalse 1, PushLit 8,
     Collect (\<lambda>x. x + 16), PushLit 8, SendTo 9 1, Plain Pop, BackTo 0, BindAt 1, Plain ReturnSelf]"

definition demo_asm :: "asm list" where
  "demo_asm = [Ins PushTrue, Fwd FBrFalse 1, Ins (PushLiteral 0), Ins (PushLiteral 1), Ins (Send 0 False),
     Ins Pop, Back 0, Ins ReturnSelf]"

definition demo_code :: bytes where
  "demo_code = [0x02, 0x33, 0x0A, 0x00, 0x05, 0x00, 0x05, 0x01, 0x20, 0x00, 0x0D, 0x31, 0x0E, 0x00, 0x41]"

lemma demo_run:
  "\<exists>b. run_calls demo_calls new_builder [] = Some (b, demo_asm) \<and> code b = demo_code \<and>
     literals b = [24, 8] \<and> labels b = [Bound 0, Bound 14] \<and> n_ics b = 1 \<and> ic_sites b = [(9, 1)]"
  by (simp add: demo_calls_def demo_asm_def demo_code_def new_builder_def new_label_def bind_label_def
      emit_defs br_false_fwd_def emit_fwd_jump_def slice_get_def push_literal_def intern_literal_def
      emit_literal_ref_def relocate_def send_def emit_send_def add_send_def jump_back_def patch_u16_def
      op_defs U16_MAX_def lit_of_def)

lemma demo_finish:
  assumes "code b = demo_code" "literals b = [24, 8]" "labels b = [Bound 0, Bound 14]" "n_ics b = 1"
    "ic_sites b = [(9, 1)]"
  shows "\<exists>m. finish 1 13 0 0 b = Some m"
proof -
  have "last_instr demo_code 0 None = Some (Some ReturnSelf)"
    by (simp add: demo_code_def last_instr.simps decode_at_def slice_get_def read_u16_def op_defs)
  moreover have "\<exists>f. set_flags 0 0 False False False False 0 m = Some f" for m
    using flags_word_smi [of 0 0 0 False False False False] by (auto simp: set_flags_eq set_flags_value_def)
  ultimately show ?thesis
    by (simp add: finish_def assms METHOD_ARGC_MAX_def METHOD_NTEMPS_MAX_def BCI_SENTINEL_BASE_def
        demo_code_def is_return_def IC_STRIDE_def IC_SEL_OFFSET_def IC_META_OFFSET_def
        IC_GUARD_OFFSET_def IC_TARGET_OFFSET_def IC_META_ARGC_SHIFT_def at_put_def smi_new_eq
        smi_try_new_def smi_bounds)
qed

theorem assembler_correct_witness:
  "\<exists>b m. building b demo_asm \<and> length (literals b) \<le> 65536 \<and> finish 1 13 0 0 b = Some m \<and>
     (\<exists>i. decode_at (m_bytes m) (pos_of demo_asm 1) = Some (i, pos_of demo_asm 2) \<and>
          jump_target i (pos_of demo_asm 2) = Some 14)"
proof -
  obtain b where run: "run_calls demo_calls new_builder [] = Some (b, demo_asm)"
    and b: "code b = demo_code" "literals b = [24, 8]" "labels b = [Bound 0, Bound 14]" "n_ics b = 1"
      "ic_sites b = [(9, 1)]"
    using demo_run by blast
  have bld: "building b demo_asm" using run_calls_building [OF building_new run] .
  have lits: "length (literals b) \<le> 65536" by (simp add: b)
  obtain m where m: "finish 1 13 0 0 b = Some m" using demo_finish [OF b] by blast
  have one: "1 < length demo_asm" "demo_asm ! 1 = Fwd FBrFalse 1" by (simp_all add: demo_asm_def)
  show ?thesis
    using assembler_correct [OF bld lits m, THEN conjunct2, rule_format, OF one(1)] one(2) bld lits m b(3)
    by (auto simp: numeral_2_eq_2)
qed

text \<open>
  C22. Literal operands. Whatever was built before and however often the collector moved
  the literals, interning a literal never panics and returns the index of a slot that holds it, keeping
  all earlier slots; the \<open>push_literal\<close> that follows decodes to an instruction whose operand is that slot
  (up to 65536 literals), and the same holds of \<open>push_global\<close> and
  \<open>store_global_pop\<close> while the slot index fits their one-byte operand.
\<close>
theorem literal_operands_correct:
  assumes "building b as"
  shows "\<exists>idx b'. intern_literal v b = Some (idx, b') \<and> idx < length (literals b') \<and>
      literals b' ! idx = v \<and> take (length (literals b)) (literals b') = literals b \<and>
      (idx \<le> 65535 \<longrightarrow> (\<exists>b2 x n. push_literal v b = Some b2 \<and> literals b2 = literals b' \<and> unat x = idx \<and>
         decode_at (code b2) (length (code b)) = Some (PushLiteral x, n))) \<and>
      (idx \<le> 255 \<longrightarrow> (\<exists>b2 b3 x. push_global v b = Some b2 \<and> store_global_pop v b = Some b3 \<and>
         literals b2 = literals b' \<and> literals b3 = literals b' \<and> unat x = idx \<and>
         decode_at (code b2) (length (code b)) = Some (PushGlobal x, length (code b) + 2) \<and>
         decode_at (code b3) (length (code b)) = Some (StoreGlobalPop x, length (code b) + 2)))"
proof -
  obtain idx b' where lit: "intern_literal v b = Some (idx, b')" and spec: "idx < length (literals b')"
      "literals b' ! idx = v" "take (length (literals b)) (literals b') = literals b"
    using intern_literal_spec [of b v] building_inv [OF assms] by blast
  have fr: "code b' = code b" using intern_literal_frame [OF lit] by simp
  have dec: "decode_at (code b @ instr_bytes i) (length (code b)) = Some (i, length (code b) + length (instr_bytes i))"
    for i using instr.rd_wr [where x = i and pre = "code b" and post = "[]"] by simp
  have 1: "\<exists>b2 x n. push_literal v b = Some b2 \<and> literals b2 = literals b' \<and> unat x = idx \<and>
         decode_at (code b2) (length (code b)) = Some (PushLiteral x, n)" if i: "idx \<le> 65535"
  proof -
    have "code (emit_literal_ref idx b') = code b @ instr_bytes (PushLiteral (of_nat idx))"
      "literals (emit_literal_ref idx b') = literals b'"
      using emit_literal_ref_code [OF i, of b'] fr by (simp_all add: emit_literal_ref_def emit_defs)
    moreover have "unat (of_nat idx :: u16) = idx" using i by (intro unat_u16_small) (simp add: U16_MAX_def)
    ultimately show ?thesis using lit dec by (simp add: push_literal_def del: instr_bytes.simps)
  qed
  have 2: "unat (of_nat idx :: u8) = idx" if "idx \<le> 255"
    using that by (simp add: unat_of_nat take_bit_nat_eq_self)
  show ?thesis
    using lit spec 1 2 dec [of "PushGlobal (of_nat idx)"] dec [of "StoreGlobalPop (of_nat idx)"]
    by (intro exI [of _ idx] exI [of _ b'])
      (auto simp: push_global_def store_global_pop_def emit_defs fr)
qed

theorem literal_operands_correct_witness:
  "building new_builder [] \<and> (\<exists>idx b'. intern_literal 8 new_builder = Some (idx, b') \<and> literals b' ! idx = 8)"
  using literal_operands_correct [OF building_new, of 8] building_new by blast

text \<open>
  C23. A global beyond the first 256 literals is miscompiled. When 256 other literals are
  already interned, \<open>push_global\<close> interns the association as literal 256 and emits operand 0: the decoded
  instruction names the wrong literal. Nothing panics.
\<close>
theorem push_global_truncates:
  assumes "length (literals b) = 256" and "literal_index b assoc = None" and "literals b ! 0 \<noteq> assoc"
  shows "\<exists>b'. push_global assoc b = Some b' \<and> literals b' ! 256 = assoc \<and>
     decode_at (code b') (length (code b)) = Some (PushGlobal 0, length (code b) + 2) \<and>
     literals b' ! 0 \<noteq> assoc"
proof -
  have z: "(256 :: u8) = 0" by simp
  have "push_global assoc b = Some (emit_u8 0 (emit_u8 OP_PUSH_GLOBAL (append_literal assoc b)))"
    using assms by (simp add: push_global_def intern_literal_eq z)
  then show ?thesis
    using assms instr.rd_wr [where x = "PushGlobal 0" and pre = "code b" and post = "[]"]
    by (simp add: emit_defs append_literal_def nth_append)
qed

theorem push_global_truncates_witness:
  "length (literals (new_builder\<lparr>literals := replicate 256 4\<rparr>)) = 256 \<and>
   (\<exists>b'. push_global 9 (new_builder\<lparr>literals := replicate 256 4\<rparr>) = Some b' \<and>
      decode_at (code b') 0 = Some (PushGlobal 0, 2))"
  using push_global_truncates [of "new_builder\<lparr>literals := replicate 256 4\<rparr>" 9]
  by (auto simp: new_builder_def)

end
