(* ===== verification/Linear_Probing.thy ===== *)
theory Linear_Probing
  imports Winvm_Prelude
begin

text \<open>
  What the open-addressed tables of the virtual machine (method dictionaries, the symbol table) have in
  common: a power-of-two array of optional keys, each key reachable from its home slot without
  crossing an empty one. The lemmas say where a linear probe stops and that filling the slot it
  stops at keeps the shape.
\<close>

definition slot_path :: "nat \<Rightarrow> nat \<Rightarrow> nat \<Rightarrow> nat" where
  "slot_path n h j = (h + j) mod n"

definition lp_ok :: "('k \<Rightarrow> nat) \<Rightarrow> 'k option list \<Rightarrow> bool" where
  "lp_ok home ks \<longleftrightarrow>
     (\<forall>i < length ks. \<forall>k. ks ! i = Some k \<longrightarrow>
        (\<exists>j < length ks. i = slot_path (length ks) (home k) j \<and>
           (\<forall>j' < j. ks ! slot_path (length ks) (home k) j' \<noteq> None))) \<and>
     (\<forall>i < length ks. \<forall>i' < length ks. ks ! i \<noteq> None \<longrightarrow> ks ! i = ks ! i' \<longrightarrow> i = i')"

definition stops_at :: "'k option list \<Rightarrow> nat \<Rightarrow> 'k \<Rightarrow> nat \<Rightarrow> bool" where
  "stops_at ks h k j \<longleftrightarrow> j < length ks \<and>
     ks ! slot_path (length ks) h j \<in> {None, Some k} \<and>
     (\<forall>j' < j. ks ! slot_path (length ks) h j' \<notin> {None, Some k})"

lemma slot_path_less [simp]: "0 < n \<Longrightarrow> slot_path n h j < n"
  by (simp add: slot_path_def)

lemma slot_path_0: "slot_path n h 0 = h mod n"
  by (simp add: slot_path_def)

lemma slot_path_Suc: "slot_path n h (Suc j) = (slot_path n h j + 1) mod n"
  by (simp add: slot_path_def mod_simps)

lemma slot_path_surj: "i < n \<Longrightarrow> \<exists>j < n. slot_path n h j = i"
proof -
  assume i: "i < n"
  have h: "h mod n < n" using i by simp
  show ?thesis
  proof (cases "h mod n \<le> i")
    case True
    then have "(h mod n + (i - h mod n)) mod n = i" using i by simp
    then have "slot_path n h (i - h mod n) = i" by (simp add: slot_path_def mod_simps)
    with i show ?thesis by (intro exI [of _ "i - h mod n"]) simp
  next
    case False
    then have "h mod n + (i + n - h mod n) = i + n" using h by simp
    then have "(h mod n + (i + n - h mod n)) mod n = i" using i by simp
    then have "slot_path n h (i + n - h mod n) = i" by (simp add: slot_path_def mod_simps)
    with False h show ?thesis by (intro exI [of _ "i + n - h mod n"]) simp
  qed
qed

lemma slot_path_no_return: "j < n \<Longrightarrow> 0 < j \<Longrightarrow> slot_path n h j \<noteq> h mod n"
proof
  assume j: "j < n" "0 < j" and eq: "slot_path n h j = h mod n"
  then have "n dvd j" using mod_eq_dvd_iff_nat [of h "h + j" n] by (simp add: slot_path_def)
  with j show False by (simp add: nat_dvd_not_less)
qed

text \<open>A probe in a table with an empty slot stops, at the key if the table has it.\<close>

lemma stops_exists:
  assumes "None \<in> set ks"
  shows "\<exists>j. stops_at ks h k j"
proof -
  obtain i where "i < length ks" "ks ! i = None" using assms by (auto simp: in_set_conv_nth)
  then obtain j where j: "j < length ks" "ks ! slot_path (length ks) h j \<in> {None, Some k}"
    using slot_path_surj [of i "length ks" h] by auto
  define P where "P j \<longleftrightarrow> ks ! slot_path (length ks) h j \<in> {None, Some k}" for j
  have "\<exists>j. P j" using j(2) by (auto simp: P_def)
  then obtain j0 where j0: "P j0" "\<forall>j' < j0. \<not> P j'" using exists_least_iff [of P] by blast
  have "P j" using j(2) by (simp add: P_def)
  then have "j0 \<le> j" using j0(2) not_le_imp_less by blast
  with j0 j(1) have "stops_at ks h k j0" unfolding stops_at_def P_def by auto
  then show ?thesis ..
qed

lemma stops_unique: "stops_at ks h k j \<Longrightarrow> stops_at ks h k j' \<Longrightarrow> j = j'"
  by (metis linorder_neqE_nat stops_at_def)

lemma stops_at_key:
  assumes ok: "lp_ok home ks" and k: "Some k \<in> set ks" and stop: "stops_at ks (home k) k j"
  shows "ks ! slot_path (length ks) (home k) j = Some k"
proof (rule ccontr)
  assume n: "ks ! slot_path (length ks) (home k) j \<noteq> Some k"
  obtain i where i: "i < length ks" "ks ! i = Some k" using k by (auto simp: in_set_conv_nth)
  then obtain j0 where j0: "j0 < length ks" "i = slot_path (length ks) (home k) j0"
    "\<forall>j' < j0. ks ! slot_path (length ks) (home k) j' \<noteq> None"
    using ok unfolding lp_ok_def by blast
  have "ks ! slot_path (length ks) (home k) j = None" using n stop by (auto simp: stops_at_def)
  with j0(3) have "j0 \<le> j" by (metis not_le_imp_less)
  moreover have "j0 \<noteq> j" using n i j0(2) by auto
  ultimately show False using stop i j0(2) by (auto simp: stops_at_def)
qed

lemma stops_at_absent:
  "Some k \<notin> set ks \<Longrightarrow> stops_at ks h k j \<Longrightarrow> ks ! slot_path (length ks) h j = None"
  unfolding stops_at_def by (metis insertE nth_mem singletonD slot_path_less gr_implies_not0 neq0_conv)

lemma lp_ok_unique:
  "lp_ok home ks \<Longrightarrow> i < length ks \<Longrightarrow> i' < length ks \<Longrightarrow> ks ! i = Some k \<Longrightarrow> ks ! i' = Some k \<Longrightarrow> i = i'"
  unfolding lp_ok_def by (metis option.distinct(1))

text \<open>Filling the slot where the probe of an absent key stopped keeps the shape.\<close>

lemma lp_ok_insert:
  assumes ok: "lp_ok home ks" and absent: "Some k \<notin> set ks" and stop: "stops_at ks (home k) k j"
  shows "lp_ok home (ks[slot_path (length ks) (home k) j := Some k])"
proof -
  let ?n = "length ks" and ?p = "slot_path (length ks) (home k) j"
  let ?ks = "ks[?p := Some k]"
  have p: "?p < ?n" using stop by (intro slot_path_less) (auto simp: stops_at_def)
  have keep: "ks ! i \<noteq> None \<Longrightarrow> ?ks ! i \<noteq> None" for i
    using p by (cases "i = ?p") auto
  have "\<exists>j < ?n. i = slot_path ?n (home k') j \<and> (\<forall>j' < j. ?ks ! slot_path ?n (home k') j' \<noteq> None)"
    if i: "i < ?n" "?ks ! i = Some k'" for i k'
  proof (cases "i = ?p")
    case True
    with i p have "k' = k" by simp
    with True stop keep show ?thesis unfolding stops_at_def by blast
  next
    case False
    with i have "ks ! i = Some k'" by simp
    with ok i(1) obtain j0 where "j0 < ?n" "i = slot_path ?n (home k') j0"
      "\<forall>j' < j0. ks ! slot_path ?n (home k') j' \<noteq> None"
      unfolding lp_ok_def by blast
    with keep show ?thesis by blast
  qed
  moreover have "i = i'" if "i < ?n" "i' < ?n" "?ks ! i = Some k'" "?ks ! i' = Some k'" for i i' k'
  proof -
    have "ks ! i' \<noteq> Some k" "ks ! i \<noteq> Some k" using absent that nth_mem by metis+
    then show ?thesis
      using that p lp_ok_unique [OF ok that(1,2), of k'] by (auto simp: nth_list_update split: if_splits)
  qed
  ultimately show ?thesis unfolding lp_ok_def by (auto simp: not_None_eq)
qed

lemma lp_ok_empty: "lp_ok home (replicate n None)"
  by (simp add: lp_ok_def)

lemma Some_in_update:
  assumes "p < length ks" "ks ! p = None"
  shows "Some x \<in> set (ks[p := Some k]) \<longleftrightarrow> x = k \<or> Some x \<in> set ks"
proof -
  have "Some x \<in> set (ks[p := Some k]) \<longleftrightarrow> (\<exists>i < length ks. (ks[p := Some k]) ! i = Some x)"
    by (auto simp: in_set_conv_nth)
  also have "\<dots> \<longleftrightarrow> x = k \<or> (\<exists>i < length ks. ks ! i = Some x)"
    using assms by (auto simp: nth_list_update split: if_splits) (metis option.distinct(1))
  finally show ?thesis by (auto simp: in_set_conv_nth)
qed

definition occupied :: "'k option list \<Rightarrow> nat" where
  "occupied ks = card {i. i < length ks \<and> ks ! i \<noteq> None}"

lemma occupied_update:
  assumes "p < length ks" "ks ! p = None"
  shows "occupied (ks[p := Some k]) = Suc (occupied ks)"
proof -
  have "{i. i < length ks \<and> (ks[p := Some k]) ! i \<noteq> None}
      = insert p {i. i < length ks \<and> ks ! i \<noteq> None}"
    using assms(1) by (auto simp: nth_list_update)
  then show ?thesis using assms(2) by (simp add: occupied_def)
qed

lemma occupied_replicate [simp]: "occupied (replicate n None) = 0"
  by (simp add: occupied_def)

lemma occupied_less: "occupied ks < length ks \<Longrightarrow> None \<in> set ks"
proof (rule ccontr)
  assume less: "occupied ks < length ks" and "None \<notin> set ks"
  then have "{i. i < length ks \<and> ks ! i \<noteq> None} = {..<length ks}" by (auto simp: in_set_conv_nth)
  with less show False by (simp add: occupied_def)
qed

lemma occupied_card: "lp_ok home ks \<Longrightarrow> occupied ks = card {k. Some k \<in> set ks}"
proof -
  assume ok: "lp_ok home ks"
  let ?I = "{i. i < length ks \<and> ks ! i \<noteq> None}"
  have "inj_on (\<lambda>i. the (ks ! i)) ?I"
    by (rule inj_onI) (use lp_ok_unique [OF ok] in auto)
  moreover have "(\<lambda>i. the (ks ! i)) ` ?I = {k. Some k \<in> set ks}"
  proof (rule set_eqI)
    fix k
    have "Some k \<in> set ks \<longleftrightarrow> (\<exists>i. i < length ks \<and> ks ! i = Some k)" by (auto simp: in_set_conv_nth)
    then show "k \<in> (\<lambda>i. the (ks ! i)) ` ?I \<longleftrightarrow> k \<in> {k. Some k \<in> set ks}"
      by (auto simp: image_iff)
  qed
  ultimately show ?thesis unfolding occupied_def using card_image by fastforce
qed

text \<open>The mask of a power-of-two capacity is the remainder.\<close>

lemma and_pow2_mask: "i AND (2 ^ p - Suc 0) = i mod 2 ^ p" for i :: nat
proof -
  have "i AND mask p = take_bit p i" by (simp add: take_bit_eq_mask)
  then show ?thesis by (simp add: take_bit_eq_mod mask_eq_exp_minus_1)
qed

end
