(* ===== verification/Method_Dict.thy ===== *)
theory Method_Dict
  imports Linear_Probing Oops
begin

text \<open>
  Method dictionaries, \<open>src/src/oops/method_dict.rs\<close>: an open-addressed table of selector and method
  oops in an alternating tail, its capacity a power of two, grown at three quarters load. What the
  operations read of the heap (nil, the identity hash in a selector's mark word, whether an oop is a
  symbol or a method) is the record \<open>obj_view\<close>. Object identity is abstract: a collection
  during growth does not change which object an oop stands for, so the handle bookkeeping has no counterpart.
  The dictionary is shown to implement a finite map, the contract \<open>map_store\<close> that lookup relies on.
\<close>

record obj_view =
  ov_nil :: oop
  ov_hash :: "oop \<Rightarrow> u32"
  ov_is_symbol :: "oop \<Rightarrow> bool"
  ov_is_method :: "oop \<Rightarrow> bool"

record method_dict =
  md_tally :: nat
  md_tail :: "oop list"

definition capacity :: "method_dict \<Rightarrow> nat" where
  "capacity d = length (md_tail d) div 2"

definition key_at :: "method_dict \<Rightarrow> nat \<Rightarrow> oop option" where
  "key_at d slot = slice_get (md_tail d) (2 * slot)"

definition value_at :: "method_dict \<Rightarrow> nat \<Rightarrow> oop option" where
  "value_at d slot = slice_get (md_tail d) (2 * slot + 1)"

definition set_key_at :: "nat \<Rightarrow> oop \<Rightarrow> method_dict \<Rightarrow> method_dict option" where
  "set_key_at slot k d = do {
     rust_assert (2 * slot < length (md_tail d));
     Some (d\<lparr>md_tail := (md_tail d)[2 * slot := k]\<rparr>)
   }"

definition set_value_at :: "nat \<Rightarrow> oop \<Rightarrow> method_dict \<Rightarrow> method_dict option" where
  "set_value_at slot v d = do {
     rust_assert (2 * slot + 1 < length (md_tail d));
     Some (d\<lparr>md_tail := (md_tail d)[2 * slot + 1 := v]\<rparr>)
   }"

definition set_tally :: "nat \<Rightarrow> method_dict \<Rightarrow> method_dict" where
  "set_tally n d = d\<lparr>md_tally := n\<rparr>"

text \<open>
  The probe loop. On a table whose capacity is not a power of two it could run forever, so it is a
  partial function; the outer option is a panic or no return, the inner one the result.
\<close>

partial_function (option) probe_loop ::
  "oop \<Rightarrow> method_dict \<Rightarrow> oop \<Rightarrow> nat \<Rightarrow> nat \<Rightarrow> nat \<Rightarrow> nat option option" where
  "probe_loop nil_obj d selector msk start i = do {
     k \<leftarrow> key_at d i;
     if k = nil_obj then Some None
     else if k = selector then Some (Some i)
     else let i' = (i + 1) AND msk
          in if i' = start then Some None
             else probe_loop nil_obj d selector msk start i'
   }"

definition probe_slot :: "obj_view \<Rightarrow> method_dict \<Rightarrow> oop \<Rightarrow> nat option option" where
  "probe_slot v d selector =
     (if capacity d = 0 then Some None
      else do {
        let msk = capacity d - 1;
        let hash = ov_hash v selector;
        rust_assert (hash \<noteq> 0);
        let i = unat hash AND msk;
        probe_loop (ov_nil v) d selector msk i i
      })"

definition probe :: "obj_view \<Rightarrow> method_dict \<Rightarrow> oop \<Rightarrow> oop option option" where
  "probe v d selector = do {
     slot \<leftarrow> probe_slot v d selector;
     case slot of None \<Rightarrow> Some None
     | Some i \<Rightarrow> do { m \<leftarrow> value_at d i; Some (if ov_is_method v m then Some m else None) }
   }"

text \<open>The pairs \<open>each_pair\<close> passes to its callback, in table order.\<close>

fun each_pair_from :: "obj_view \<Rightarrow> method_dict \<Rightarrow> nat list \<Rightarrow> (oop \<times> oop) list option" where
  "each_pair_from v d [] = Some []"
| "each_pair_from v d (slot # slots) = do {
     k \<leftarrow> key_at d slot;
     if k = ov_nil v then each_pair_from v d slots
     else do {
       rust_assert (ov_is_symbol v k);
       m \<leftarrow> value_at d slot;
       rust_assert (ov_is_method v m);
       rest \<leftarrow> each_pair_from v d slots;
       Some ((k, m) # rest)
     }
   }"

definition each_pair :: "obj_view \<Rightarrow> method_dict \<Rightarrow> (oop \<times> oop) list option" where
  "each_pair v d = each_pair_from v d [0..<capacity d]"

function raw_insert_loop ::
  "oop \<Rightarrow> oop \<Rightarrow> oop \<Rightarrow> nat \<Rightarrow> nat \<Rightarrow> nat \<Rightarrow> method_dict \<Rightarrow> method_dict option" where
  "raw_insert_loop nil_obj selector m msk i probes d =
     (case key_at d i of None \<Rightarrow> None
      | Some k \<Rightarrow>
          if k = nil_obj then do { d \<leftarrow> set_key_at i selector d; set_value_at i m d }
          else let i' = (i + 1) AND msk; probes' = probes + 1
               in if probes' > capacity d then None
                  else raw_insert_loop nil_obj selector m msk i' probes' d)"
  by pat_completeness auto
termination
  by (relation "measure (\<lambda>(nil_obj, selector, m, msk, i, probes, d). Suc (capacity d) - probes)") auto

declare raw_insert_loop.simps [simp del]

definition raw_insert_new :: "obj_view \<Rightarrow> oop \<Rightarrow> oop \<Rightarrow> method_dict \<Rightarrow> method_dict option" where
  "raw_insert_new v selector m d = do {
     rust_assert (capacity d \<ge> 1);
     let msk = capacity d - 1;
     raw_insert_loop (ov_nil v) selector m msk (unat (ov_hash v selector) AND msk) 0 d
   }"

definition is_power_of_two :: "nat \<Rightarrow> bool" where
  "is_power_of_two n \<longleftrightarrow> n > 0 \<and> n AND (n - 1) = 0"

definition alloc_method_dict :: "obj_view \<Rightarrow> nat \<Rightarrow> method_dict option" where
  "alloc_method_dict v cap = do {
     rust_assert (is_power_of_two cap);
     Some \<lparr>md_tally = 0, md_tail = replicate (cap * 2) (ov_nil v)\<rparr>
   }"

text \<open>The rehash of a growing insert.\<close>

fun rehash_into :: "obj_view \<Rightarrow> method_dict \<Rightarrow> nat list \<Rightarrow> method_dict \<Rightarrow> method_dict option" where
  "rehash_into v old [] grown = Some grown"
| "rehash_into v old (i # is) grown = do {
     k \<leftarrow> key_at old i;
     if k \<noteq> ov_nil v then do {
       rust_assert (ov_is_symbol v k);
       m \<leftarrow> value_at old i;
       rust_assert (ov_is_method v m);
       grown \<leftarrow> raw_insert_new v k m grown;
       rehash_into v old is grown
     } else rehash_into v old is grown
   }"

definition grow :: "obj_view \<Rightarrow> method_dict \<Rightarrow> method_dict option" where
  "grow v d = do {
     let new_capacity = max (capacity d * 2) 8;
     grown \<leftarrow> alloc_method_dict v new_capacity;
     grown \<leftarrow> rehash_into v d [0..<capacity d] grown;
     Some (set_tally (md_tally d) grown)
   }"

definition md_insert :: "obj_view \<Rightarrow> oop \<Rightarrow> oop \<Rightarrow> method_dict \<Rightarrow> method_dict option" where
  "md_insert v selector m d = do {
     slot \<leftarrow> probe_slot v d selector;
     case slot of
       Some i \<Rightarrow> set_value_at i m d
     | None \<Rightarrow> do {
         dict \<leftarrow> (if capacity d = 0 \<or> 4 * (md_tally d + 1) > 3 * capacity d then grow v d else Some d);
         dict \<leftarrow> raw_insert_new v selector m dict;
         Some (set_tally (md_tally dict + 1) dict)
       }
   }"

subsection \<open>The table as keys and values\<close>

definition keys :: "obj_view \<Rightarrow> method_dict \<Rightarrow> oop option list" where
  "keys v d = map (\<lambda>i. if md_tail d ! (2 * i) = ov_nil v then None else Some (md_tail d ! (2 * i)))
     [0..<capacity d]"

definition home :: "obj_view \<Rightarrow> oop \<Rightarrow> nat" where
  "home v k = unat (ov_hash v k)"

definition val :: "method_dict \<Rightarrow> nat \<Rightarrow> oop" where
  "val d i = md_tail d ! (2 * i + 1)"

text \<open>The map a dictionary stands for.\<close>

definition md_map :: "obj_view \<Rightarrow> method_dict \<Rightarrow> oop \<rightharpoonup> oop" where
  "md_map v d k = (case find (\<lambda>i. keys v d ! i = Some k) [0..<capacity d] of
      None \<Rightarrow> None | Some i \<Rightarrow> Some (val d i))"

definition sel_ok :: "obj_view \<Rightarrow> oop \<Rightarrow> bool" where
  "sel_ok v k \<longleftrightarrow> k \<noteq> ov_nil v \<and> ov_is_symbol v k \<and> ov_hash v k \<noteq> 0"

definition md_shape :: "obj_view \<Rightarrow> method_dict \<Rightarrow> bool" where
  "md_shape v d \<longleftrightarrow> (\<exists>p. capacity d = 2 ^ p) \<and> length (md_tail d) = 2 * capacity d \<and>
     lp_ok (home v) (keys v d) \<and> (\<forall>k. Some k \<in> set (keys v d) \<longrightarrow> sel_ok v k) \<and>
     (\<forall>i < capacity d. keys v d ! i \<noteq> None \<longrightarrow> ov_is_method v (val d i))"

definition md_inv :: "obj_view \<Rightarrow> method_dict \<Rightarrow> bool" where
  "md_inv v d \<longleftrightarrow> (md_tail d = [] \<or> md_shape v d) \<and> md_tally d = occupied (keys v d) \<and>
     4 * md_tally d \<le> 3 * capacity d"

lemma length_keys [simp]: "length (keys v d) = capacity d"
  by (simp add: keys_def)

lemma slot_bounds: "i < capacity d \<Longrightarrow> 2 * i < length (md_tail d) \<and> 2 * i + 1 < length (md_tail d)"
  by (auto simp: capacity_def)

lemma key_at_in: "i < capacity d \<Longrightarrow> key_at d i = Some (md_tail d ! (2 * i))"
  by (simp add: key_at_def slice_get_def slot_bounds)

lemma value_at_in: "i < capacity d \<Longrightarrow> value_at d i = Some (val d i)"
  using slot_bounds [of i d] by (simp add: value_at_def slice_get_def val_def)

lemma keys_nth: "i < capacity d \<Longrightarrow>
   keys v d ! i = (if md_tail d ! (2 * i) = ov_nil v then None else Some (md_tail d ! (2 * i)))"
  by (simp add: keys_def)

lemma md_map_key:
  assumes "lp_ok (home v) (keys v d)" "i < capacity d" "keys v d ! i = Some k"
  shows "md_map v d k = Some (val d i)"
proof -
  obtain j where j: "find (\<lambda>i. keys v d ! i = Some k) [0..<capacity d] = Some j"
    using assms(2,3) by (cases "find (\<lambda>i. keys v d ! i = Some k) [0..<capacity d]")
      (auto simp: find_None_iff)
  then have "j < capacity d" "keys v d ! j = Some k" by (auto simp: find_Some_iff)
  then have "j = i" using lp_ok_unique [OF assms(1)] assms(2,3) by (metis length_keys)
  with j show ?thesis by (simp add: md_map_def)
qed

lemma md_map_None: "md_map v d k = None \<longleftrightarrow> Some k \<notin> set (keys v d)"
  by (auto simp: md_map_def find_None_iff in_set_conv_nth split: option.splits dest!: find_Some_iff [THEN iffD1])

definition place :: "nat \<Rightarrow> oop \<Rightarrow> oop \<Rightarrow> method_dict \<Rightarrow> method_dict" where
  "place i k m d = d\<lparr>md_tail := (md_tail d)[2 * i := k, 2 * i + 1 := m]\<rparr>"

lemma capacity_place [simp]: "capacity (place i k m d) = capacity d"
  by (simp add: place_def capacity_def)

lemma two_i_neq: "2 * i \<noteq> Suc (2 * j)" for i j :: nat
  by presburger

lemma tail_place:
  "length (md_tail (place i k m d)) = length (md_tail d)"
  "i < capacity d \<Longrightarrow> md_tail (place i k m d) ! (2 * j) = (if j = i then k else md_tail d ! (2 * j))"
  using slot_bounds [of i d] two_i_neq [of j i] by (auto simp: place_def nth_list_update)

lemma keys_place:
  "i < capacity d \<Longrightarrow> k \<noteq> ov_nil v \<Longrightarrow> keys v (place i k m d) = (keys v d)[i := Some k]"
proof (rule nth_equalityI)
  fix j assume i: "i < capacity d" "k \<noteq> ov_nil v" and "j < length (keys v (place i k m d))"
  then have j: "j < capacity d" by simp
  with i show "keys v (place i k m d) ! j = (keys v d)[i := Some k] ! j"
    by (cases "j = i") (simp_all add: keys_nth tail_place)
qed simp

lemma val_place: "i < capacity d \<Longrightarrow> val (place i k m d) j = (if j = i then m else val d j)"
  using slot_bounds [of i d] two_i_neq [of i j] by (auto simp: val_def place_def nth_list_update)

lemma sel_ok_nil: "sel_ok v k \<Longrightarrow> k \<noteq> ov_nil v"
  by (simp add: sel_ok_def)

text \<open>Placing a new key at the slot its probe stopped at.\<close>

lemma place_new:
  assumes sh: "md_shape v d" and absent: "Some k \<notin> set (keys v d)" and k: "sel_ok v k"
    and m: "ov_is_method v m" and stop: "stops_at (keys v d) (home v k) k j"
  defines "i \<equiv> slot_path (capacity d) (home v k) j"
  shows "md_shape v (place i k m d)" "occupied (keys v (place i k m d)) = Suc (occupied (keys v d))"
    "md_map v (place i k m d) = (md_map v d)(k \<mapsto> m)"
proof -
  have i: "i < capacity d" using sh by (auto simp: i_def md_shape_def)
  have none: "keys v d ! i = None"
    using stops_at_absent [OF absent stop] by (simp add: i_def)
  note ks = keys_place [OF i sel_ok_nil [OF k], where m = m]
  have ok: "lp_ok (home v) (keys v d)" using sh by (simp add: md_shape_def)
  have lp: "lp_ok (home v) (keys v (place i k m d))"
    using lp_ok_insert [OF ok absent stop] ks by (simp add: i_def)
  show "occupied (keys v (place i k m d)) = Suc (occupied (keys v d))"
    using occupied_update [of i "keys v d"] i none by (simp add: ks)
  show sh': "md_shape v (place i k m d)"
    using sh lp k m i none Some_in_update [of i "keys v d"]
    by (auto simp: md_shape_def ks val_place nth_list_update tail_place split: if_splits)
  show "md_map v (place i k m d) = (md_map v d)(k \<mapsto> m)"
  proof (rule ext)
    fix x
    show "md_map v (place i k m d) x = ((md_map v d)(k \<mapsto> m)) x"
    proof (cases "Some x \<in> set (keys v (place i k m d))")
      case True
      then obtain n where n: "n < capacity d" "keys v (place i k m d) ! n = Some x"
        by (auto simp: in_set_conv_nth)
      then have new: "md_map v (place i k m d) x = Some (val (place i k m d) n)"
        using md_map_key [OF lp, of n x] by simp
      show ?thesis
      proof (cases "n = i")
        case True
        then have "x = k" using n i by (simp add: ks)
        with new True i show ?thesis by (simp add: val_place)
      next
        case False
        then have old: "keys v d ! n = Some x" using n i by (simp add: ks)
        then have "x \<noteq> k" using absent n(1) by (metis length_keys nth_mem)
        with new False i md_map_key [OF ok n(1) old] show ?thesis by (simp add: val_place)
      qed
    next
      case False
      then have "x \<noteq> k" "Some x \<notin> set (keys v d)"
        using Some_in_update [of i "keys v d" x k] i none by (simp_all add: ks)
      then have "md_map v d x = None" "md_map v (place i k m d) x = None"
        using md_map_None False by blast+
      with \<open>x \<noteq> k\<close> show ?thesis by simp
    qed
  qed
qed

subsection \<open>The loops\<close>

lemma probe_loop_stop:
  assumes sh: "md_shape v d" and stop: "stops_at (keys v d) h k j0" and k: "k \<noteq> ov_nil v"
    and j: "j \<le> j0"
  defines "n \<equiv> capacity d"
  shows "probe_loop (ov_nil v) d k (n - 1) (h mod n) (slot_path n h j)
    = Some (if keys v d ! slot_path n h j0 = Some k then Some (slot_path n h j0) else None)"
  using j
proof (induction "j0 - j" arbitrary: j)
  case 0
  then have "j = j0" by simp
  moreover have "slot_path n h j0 < capacity d" "keys v d ! slot_path n h j0 \<in> {None, Some k}"
    using sh stop by (auto simp: n_def md_shape_def stops_at_def)
  ultimately show ?case
    using k by (subst probe_loop.simps) (auto simp: key_at_in keys_nth n_def split: if_splits)
next
  case (Suc x)
  obtain p where p: "n = 2 ^ p" using sh by (auto simp: md_shape_def n_def)
  have lt: "j < j0" "Suc j < n" and in_cap: "slot_path n h j < capacity d"
    using Suc stop sh by (auto simp: stops_at_def n_def md_shape_def)
  have "keys v d ! slot_path n h j \<notin> {None, Some k}"
    using stop lt(1) by (simp add: stops_at_def n_def)
  then have kk: "md_tail d ! (2 * slot_path n h j) \<noteq> ov_nil v" "md_tail d ! (2 * slot_path n h j) \<noteq> k"
    using keys_nth [OF in_cap, of v] by (auto split: if_splits)
  have next_i: "(slot_path n h j + 1) AND (n - 1) = slot_path n h (Suc j)"
    by (simp add: p and_pow2_mask slot_path_Suc)
  have "slot_path n h (Suc j) \<noteq> h mod n" using lt(2) by (intro slot_path_no_return) simp_all
  moreover have "probe_loop (ov_nil v) d k (n - 1) (h mod n) (slot_path n h (Suc j))
    = Some (if keys v d ! slot_path n h j0 = Some k then Some (slot_path n h j0) else None)"
    using Suc lt by (intro Suc.hyps) auto
  ultimately show ?case
    using kk next_i in_cap by (subst probe_loop.simps) (simp add: key_at_in Let_def)
qed

lemma probe_slot_spec:
  assumes sh: "md_shape v d" and free: "None \<in> set (keys v d)" and k: "sel_ok v k"
  shows "(\<exists>i. probe_slot v d k = Some (Some i) \<and> i < capacity d \<and> keys v d ! i = Some k \<and>
            md_map v d k = Some (val d i)) \<or>
         (probe_slot v d k = Some None \<and> Some k \<notin> set (keys v d) \<and> md_map v d k = None)"
proof -
  let ?n = "capacity d" and ?h = "home v k"
  obtain p where p: "?n = 2 ^ p" using sh by (auto simp: md_shape_def)
  obtain j where j: "stops_at (keys v d) ?h k j" using stops_exists [OF free] by blast
  have ok: "lp_ok (home v) (keys v d)" using sh by (simp add: md_shape_def)
  have "unat (ov_hash v k) AND (?n - 1) = ?h mod ?n" by (simp add: p and_pow2_mask home_def)
  then have ps: "probe_slot v d k = Some (if keys v d ! slot_path ?n ?h j = Some k
      then Some (slot_path ?n ?h j) else None)"
    using probe_loop_stop [OF sh j sel_ok_nil [OF k], of 0] k p
    by (simp add: probe_slot_def slot_path_0 sel_ok_def Let_def)
  have in_cap: "slot_path ?n ?h j < ?n" by (simp add: p)
  show ?thesis
  proof (cases "Some k \<in> set (keys v d)")
    case True
    then have "keys v d ! slot_path ?n ?h j = Some k" using stops_at_key [OF ok True j] by simp
    with ps in_cap md_map_key [OF ok in_cap] show ?thesis by auto
  next
    case False
    then have "keys v d ! slot_path ?n ?h j = None" using stops_at_absent [OF False j] by simp
    with ps False md_map_None show ?thesis by auto
  qed
qed

lemma raw_insert_loop_stop:
  assumes sh: "md_shape v d" and stop: "stops_at (keys v d) h k j0" and absent: "Some k \<notin> set (keys v d)"
    and j: "j \<le> j0"
  defines "n \<equiv> capacity d"
  shows "raw_insert_loop (ov_nil v) k m (n - 1) (slot_path n h j) j d = Some (place (slot_path n h j0) k m d)"
  using j
proof (induction "j0 - j" arbitrary: j)
  case 0
  then have "j = j0" by simp
  moreover have in_cap: "slot_path n h j0 < capacity d" using sh by (auto simp: n_def md_shape_def)
  moreover have "keys v d ! slot_path n h j0 = None" using stops_at_absent [OF absent stop] by (simp add: n_def)
  ultimately show ?case
    using keys_nth [OF in_cap, of v] slot_bounds [OF in_cap]
    by (subst raw_insert_loop.simps)
      (simp add: key_at_in set_key_at_def set_value_at_def place_def split: if_splits)
next
  case (Suc x)
  obtain p where p: "n = 2 ^ p" using sh by (auto simp: md_shape_def n_def)
  have lt: "j < j0" "Suc j < n" and in_cap: "slot_path n h j < capacity d"
    using Suc stop sh by (auto simp: stops_at_def n_def md_shape_def)
  have "keys v d ! slot_path n h j \<noteq> None" using stop lt(1) by (simp add: stops_at_def n_def)
  then have kk: "md_tail d ! (2 * slot_path n h j) \<noteq> ov_nil v"
    using keys_nth [OF in_cap, of v] by (auto split: if_splits)
  have next_i: "(slot_path n h j + 1) AND (n - 1) = slot_path n h (Suc j)"
    by (simp add: p and_pow2_mask slot_path_Suc)
  have "raw_insert_loop (ov_nil v) k m (n - 1) (slot_path n h (Suc j)) (Suc j) d
      = Some (place (slot_path n h j0) k m d)"
    using Suc lt by (intro Suc.hyps) auto
  then show ?case
    using kk next_i in_cap lt(2) by (subst raw_insert_loop.simps) (simp add: key_at_in Let_def n_def)
qed

lemma raw_insert_new_spec:
  assumes sh: "md_shape v d" and free: "None \<in> set (keys v d)" and absent: "Some k \<notin> set (keys v d)"
    and k: "sel_ok v k" and m: "ov_is_method v m"
  shows "\<exists>d'. raw_insert_new v k m d = Some d' \<and> md_shape v d' \<and> capacity d' = capacity d \<and>
    md_tally d' = md_tally d \<and> occupied (keys v d') = Suc (occupied (keys v d)) \<and>
    md_map v d' = (md_map v d)(k \<mapsto> m)"
proof -
  let ?n = "capacity d" and ?h = "home v k"
  obtain p where p: "?n = 2 ^ p" using sh by (auto simp: md_shape_def)
  obtain j where j: "stops_at (keys v d) ?h k j" using stops_exists [OF free] by blast
  have "unat (ov_hash v k) AND (?n - 1) = ?h mod ?n" by (simp add: p and_pow2_mask home_def)
  then have "raw_insert_new v k m d = Some (place (slot_path ?n ?h j) k m d)"
    using raw_insert_loop_stop [OF sh j absent, of 0 m] p
    by (simp add: raw_insert_new_def slot_path_0 Let_def)
  moreover have "md_tally (place (slot_path ?n ?h j) k m d) = md_tally d" by (simp add: place_def)
  ultimately show ?thesis using place_new [OF sh absent k m j] by (intro exI conjI) auto
qed

subsection \<open>Insert implements map update\<close>

lemma alloc_method_dict_spec:
  assumes "cap = 2 ^ p"
  shows "\<exists>d. alloc_method_dict v cap = Some d \<and> md_shape v d \<and> capacity d = cap \<and>
    keys v d = replicate cap None \<and> md_map v d = Map.empty \<and> md_tally d = 0"
proof -
  let ?d = "\<lparr>md_tally = 0, md_tail = replicate (cap * 2) (ov_nil v)\<rparr>"
  have "is_power_of_two cap" using assms and_pow2_mask [of "2 ^ p" p] by (simp add: is_power_of_two_def)
  then have "alloc_method_dict v cap = Some ?d" by (simp add: alloc_method_dict_def)
  moreover have cap: "capacity ?d = cap" by (simp add: capacity_def)
  moreover have ks: "keys v ?d = replicate cap None"
    by (rule nth_equalityI) (simp_all add: cap keys_nth)
  moreover have "md_map v ?d = Map.empty" by (rule ext) (simp add: md_map_None ks)
  moreover have "md_shape v ?d"
    unfolding md_shape_def cap ks using assms by (auto simp: lp_ok_empty)
  ultimately show ?thesis by (metis method_dict.select_convs(1))
qed

lemma Some_in_keys_map: "Some k \<in> set (keys v d) \<longleftrightarrow> k \<in> dom (md_map v d)"
  using md_map_None by (auto simp: dom_def)

text \<open>Rehashing the slots \<open>is\<close> of a well-formed table into one with room for them.\<close>

definition live :: "obj_view \<Rightarrow> method_dict \<Rightarrow> nat list \<Rightarrow> nat list" where
  "live v d is = filter (\<lambda>i. keys v d ! i \<noteq> None) is"

lemma occupied_live: "occupied (keys v d) = length (live v d [0..<capacity d])"
proof -
  have "set (live v d [0..<capacity d]) = {i. i < length (keys v d) \<and> keys v d ! i \<noteq> None}"
    by (auto simp: live_def)
  moreover have "distinct (live v d [0..<capacity d])" by (simp add: live_def)
  ultimately show ?thesis unfolding occupied_def using distinct_card by fastforce
qed

lemma set_tally_same [simp]:
  "capacity (set_tally t d) = capacity d" "keys v (set_tally t d) = keys v d"
  "val (set_tally t d) = val d" "md_tally (set_tally t d) = t"
  by (simp_all add: set_tally_def capacity_def keys_def val_def fun_eq_iff)

lemma set_tally_same_map [simp]:
  "md_map v (set_tally t d) = md_map v d" "md_shape v (set_tally t d) = md_shape v d"
  by (rule ext) (simp_all add: md_map_def md_shape_def split: option.split, simp add: set_tally_def)

lemma rehash_into_spec:
  assumes sh: "md_shape v d" and "distinct is" "set is \<subseteq> {..<capacity d}"
    and "md_shape v g" "\<forall>i \<in> set is. \<forall>k. keys v d ! i = Some k \<longrightarrow> md_map v g k = None"
    and "occupied (keys v g) + length (live v d is) < capacity g"
  shows "\<exists>r. rehash_into v d is g = Some r \<and> md_shape v r \<and> capacity r = capacity g \<and>
    occupied (keys v r) = occupied (keys v g) + length (live v d is) \<and>
    (\<forall>k. md_map v r k = (if Some k \<in> (!) (keys v d) ` set is then md_map v d k else md_map v g k))"
  using assms(2-)
proof (induction "is" arbitrary: g)
  case Nil
  then show ?case by (simp add: live_def)
next
  case (Cons i "is")
  have i: "i < capacity d" and ok: "lp_ok (home v) (keys v d)" using Cons.prems sh by (auto simp: md_shape_def)
  show ?case
  proof (cases "keys v d ! i")
    case None
    then have "md_tail d ! (2 * i) = ov_nil v" using keys_nth [OF i, of v] by (auto split: if_splits)
    with None show ?thesis using Cons.IH [of g] Cons.prems i by (auto simp: key_at_in live_def)
  next
    case (Some k)
    then have k: "md_tail d ! (2 * i) = k" "k \<noteq> ov_nil v" using keys_nth [OF i, of v] by (auto split: if_splits)
    have "Some k \<in> set (keys v d)" using Some i by (metis length_keys nth_mem)
    then have sel: "sel_ok v k" and m: "ov_is_method v (val d i)"
      using sh Some i by (auto simp: md_shape_def)
    have absent: "Some k \<notin> set (keys v g)" using Cons.prems(4) Some md_map_None by auto
    have "occupied (keys v g) < length (keys v g)" using Cons.prems(5) by simp
    then have free: "None \<in> set (keys v g)" by (rule occupied_less)
    obtain g' where g': "raw_insert_new v k (val d i) g = Some g'" "md_shape v g'" "capacity g' = capacity g"
      "occupied (keys v g') = Suc (occupied (keys v g))" "md_map v g' = (md_map v g)(k \<mapsto> val d i)"
      using raw_insert_new_spec [OF Cons.prems(3) free absent sel m] by blast
    have other: "keys v d ! i' \<noteq> Some k" if "i' \<in> set is" for i'
    proof
      assume "keys v d ! i' = Some k"
      then have "i' = i" using lp_ok_unique [OF ok _ _ _ Some, of i'] that i Cons.prems(2) by auto
      with that Cons.prems(1) show False by simp
    qed
    have "\<exists>r. rehash_into v d is g' = Some r \<and> md_shape v r \<and> capacity r = capacity g' \<and>
        occupied (keys v r) = occupied (keys v g') + length (live v d is) \<and>
        (\<forall>k. md_map v r k = (if Some k \<in> (!) (keys v d) ` set is then md_map v d k else md_map v g' k))"
      using Cons.prems g' other Some by (intro Cons.IH) (auto simp: live_def)
    then show ?thesis
      using g' k sel m i Some other md_map_key [OF ok i Some]
      by (auto simp: key_at_in value_at_in sel_ok_def live_def image_iff)
  qed
qed

lemma grow_spec:
  assumes inv: "md_inv v d"
  shows "\<exists>g. grow v d = Some g \<and> md_shape v g \<and> capacity g = max (capacity d * 2) 8 \<and>
    md_tally g = md_tally d \<and> md_tally g = occupied (keys v g) \<and> md_map v g = md_map v d"
proof -
  let ?n = "max (capacity d * 2) 8"
  have "\<exists>p. ?n = 2 ^ p"
  proof (cases "md_tail d = []")
    case True
    then show ?thesis by (intro exI [of _ 3]) (simp add: capacity_def)
  next
    case False
    then obtain p where p: "capacity d = 2 ^ p" using inv by (auto simp: md_inv_def md_shape_def)
    have "?n = 2 ^ max (Suc p) 3"
    proof (cases "Suc p \<le> 3")
      case True
      then have "(2 :: nat) ^ Suc p \<le> 2 ^ 3" by (intro power_increasing) simp_all
      with True p show ?thesis by (simp add: max_def)
    next
      case False
      then have "(2 :: nat) ^ 3 \<le> 2 ^ Suc p" by (intro power_increasing) simp_all
      with False p show ?thesis by (simp add: max_def)
    qed
    then show ?thesis by blast
  qed
  then obtain p where p: "?n = 2 ^ p" ..
  obtain e where e: "alloc_method_dict v ?n = Some e" "md_shape v e" "capacity e = ?n"
    "keys v e = replicate ?n None" "md_map v e = Map.empty"
    using alloc_method_dict_spec [OF p, of v] by blast
  have room: "occupied (keys v d) < ?n" using inv by (simp add: md_inv_def max_def)
  have "\<exists>r. rehash_into v d [0..<capacity d] e = Some r \<and> md_shape v r \<and> capacity r = capacity e \<and>
      occupied (keys v r) = md_tally d \<and> md_map v r = md_map v d"
  proof (cases "md_tail d = []")
    case True
    then have "capacity d = 0" "keys v d = []" by (simp_all add: capacity_def keys_def)
    moreover have "md_map v d = Map.empty" using calculation by (intro ext) (simp add: md_map_None)
    ultimately show ?thesis using e inv by (simp add: md_inv_def occupied_def)
  next
    case False
    then have sh: "md_shape v d" using inv by (simp add: md_inv_def)
    have sub: "set [0..<capacity d] \<subseteq> {..<capacity d}" by auto
    obtain r where r: "rehash_into v d [0..<capacity d] e = Some r" "md_shape v r" "capacity r = capacity e"
      "occupied (keys v r) = occupied (keys v e) + length (live v d [0..<capacity d])"
      "\<forall>k. md_map v r k = (if Some k \<in> (!) (keys v d) ` set [0..<capacity d] then md_map v d k else md_map v e k)"
      using rehash_into_spec [OF sh _ sub e(2)] e room occupied_live [of v d] by auto
    have "(!) (keys v d) ` set [0..<capacity d] = set (keys v d)"
      by (simp add: set_conv_nth) (auto simp: image_def)
    then have "md_map v r k = md_map v d k" for k
      using r(5) e(5) md_map_None [of v d k] by (cases "Some k \<in> set (keys v d)") simp_all
    then have "md_map v r = md_map v d" by (rule ext)
    with r e inv occupied_live [of v d] show ?thesis by (simp add: md_inv_def)
  qed
  then obtain r where r: "rehash_into v d [0..<capacity d] e = Some r" "md_shape v r" "capacity r = capacity e"
      "occupied (keys v r) = md_tally d" "md_map v r = md_map v d" by blast
  show ?thesis using e(1,3) r by (simp add: grow_def Let_def)
qed

lemma md_map_empty_tail: "md_tail d = [] \<Longrightarrow> md_map v d = Map.empty \<and> capacity d = 0"
  by (auto simp: md_map_def capacity_def)

lemma md_inv_free: "md_inv v d \<Longrightarrow> md_tail d \<noteq> [] \<Longrightarrow> None \<in> set (keys v d)"
proof (rule occupied_less)
  assume "md_inv v d" "md_tail d \<noteq> []"
  then have "4 * occupied (keys v d) \<le> 3 * capacity d" "0 < capacity d"
    by (auto simp: md_inv_def md_shape_def)
  then show "occupied (keys v d) < length (keys v d)" by simp
qed

lemma probe_slot_cases:
  assumes "md_inv v d" "sel_ok v k"
  shows "(\<exists>i. probe_slot v d k = Some (Some i) \<and> i < capacity d \<and> keys v d ! i = Some k \<and>
            md_map v d k = Some (val d i) \<and> md_shape v d) \<or>
         (probe_slot v d k = Some None \<and> Some k \<notin> set (keys v d) \<and> md_map v d k = None)"
proof (cases "md_tail d = []")
  case True
  then show ?thesis by (auto simp: probe_slot_def capacity_def md_map_def keys_def)
next
  case False
  then have "md_shape v d" using assms(1) by (simp add: md_inv_def)
  then show ?thesis using probe_slot_spec [OF _ md_inv_free [OF assms(1) False] assms(2)] by blast
qed

lemma probe_spec:
  assumes inv: "md_inv v d" and k: "sel_ok v k"
  shows "probe v d k = Some (md_map v d k)"
  using probe_slot_cases [OF assms]
  by (auto simp: probe_def value_at_in md_shape_def)

lemma overwrite_spec:
  assumes inv: "md_inv v d" and sh: "md_shape v d" and i: "i < capacity d" "keys v d ! i = Some k"
    and m: "ov_is_method v m"
  shows "\<exists>d'. set_value_at i m d = Some d' \<and> md_inv v d' \<and> md_map v d' = (md_map v d)(k \<mapsto> m)"
proof -
  have k: "md_tail d ! (2 * i) = k" "k \<noteq> ov_nil v" using keys_nth [OF i(1), of v] i(2) by (auto split: if_splits)
  have eq: "set_value_at i m d = Some (place i k m d)"
    using slot_bounds [OF i(1)] k(1) by (auto simp: set_value_at_def place_def)
  have ks: "keys v (place i k m d) = keys v d"
    using keys_place [OF i(1) k(2)] i(2) by (metis list_update_id)
  have ok: "lp_ok (home v) (keys v d)" using sh by (simp add: md_shape_def)
  have "md_shape v (place i k m d)"
    using sh i m by (auto simp: md_shape_def ks val_place tail_place)
  then have "md_inv v (place i k m d)"
    using inv ks by (simp add: md_inv_def) (simp add: place_def)
  moreover have "md_map v (place i k m d) x = ((md_map v d)(k \<mapsto> m)) x" for x
  proof (cases "Some x \<in> set (keys v d)")
    case True
    then obtain n where n: "n < capacity d" "keys v d ! n = Some x" by (auto simp: in_set_conv_nth)
    have "n = i \<longleftrightarrow> x = k" using n i lp_ok_unique [OF ok] by auto
    then show ?thesis
      using md_map_key [OF ok n] md_map_key [of v "place i k m d" n x] n i ok ks by (auto simp: val_place)
  next
    case False
    then have "x \<noteq> k" using i by (metis length_keys nth_mem)
    with False md_map_None [of v d x] md_map_None [of v "place i k m d" x] ks show ?thesis by simp
  qed
  ultimately show ?thesis using eq by (intro exI conjI ext) auto
qed

lemma insert_spec:
  assumes inv: "md_inv v d" and k: "sel_ok v k" and m: "ov_is_method v m"
  shows "\<exists>d'. md_insert v k m d = Some d' \<and> md_inv v d' \<and> md_map v d' = (md_map v d)(k \<mapsto> m)"
  using probe_slot_cases [OF inv k]
proof
  assume "\<exists>i. probe_slot v d k = Some (Some i) \<and> i < capacity d \<and> keys v d ! i = Some k \<and>
            md_map v d k = Some (val d i) \<and> md_shape v d"
  then show ?thesis using overwrite_spec [OF inv _ _ _ m] by (auto simp: md_insert_def)
next
  assume miss: "probe_slot v d k = Some None \<and> Some k \<notin> set (keys v d) \<and> md_map v d k = None"
  obtain g where g: "(if capacity d = 0 \<or> 4 * (md_tally d + 1) > 3 * capacity d then grow v d else Some d) = Some g"
    "md_shape v g" "md_tally g = occupied (keys v g)" "4 * (md_tally g + 1) \<le> 3 * capacity g"
    "md_map v g = md_map v d"
  proof (cases "capacity d = 0 \<or> 4 * (md_tally d + 1) > 3 * capacity d")
    case True
    then show ?thesis
      using grow_spec [OF inv] inv that by (auto simp: md_inv_def max_def split: if_splits)
  next
    case False
    then show ?thesis using inv that by (auto simp: md_inv_def capacity_def)
  qed
  have "occupied (keys v g) < length (keys v g)" using g by simp
  then have free: "None \<in> set (keys v g)" by (rule occupied_less)
  have absent: "Some k \<notin> set (keys v g)" using miss g(5) md_map_None [of v g k] by simp
  obtain r where r: "raw_insert_new v k m g = Some r" "md_shape v r" "capacity r = capacity g"
    "md_tally r = md_tally g" "occupied (keys v r) = Suc (occupied (keys v g))"
    "md_map v r = (md_map v g)(k \<mapsto> m)"
    using raw_insert_new_spec [OF g(2) free absent k m] by blast
  have "md_insert v k m d = Some (set_tally (md_tally r + 1) r)"
    using miss g(1) r(1) by (simp add: md_insert_def)
  moreover have "md_inv v (set_tally (md_tally r + 1) r)"
    using r g by (simp add: md_inv_def)
  ultimately show ?thesis using r(6) g(5) by simp
qed

subsection \<open>The contract of a dictionary\<close>

text \<open>A store with a failing lookup and update that implements a map under an invariant.\<close>

fun update_all :: "('k \<Rightarrow> 'v \<Rightarrow> 't \<Rightarrow> 't option) \<Rightarrow> ('k \<times> 'v) list \<Rightarrow> 't \<Rightarrow> 't option" where
  "update_all upd [] t = Some t"
| "update_all upd ((k, x) # kxs) t = do { t \<leftarrow> upd k x t; update_all upd kxs t }"

locale map_store =
  fixes look :: "'t \<Rightarrow> 'k \<Rightarrow> 'v option option"
    and upd :: "'k \<Rightarrow> 'v \<Rightarrow> 't \<Rightarrow> 't option"
    and abs :: "'t \<Rightarrow> 'k \<rightharpoonup> 'v"
    and inv :: "'t \<Rightarrow> bool"
    and ok_key :: "'k \<Rightarrow> bool"
    and ok_val :: "'v \<Rightarrow> bool"
  assumes look_abs: "inv t \<Longrightarrow> ok_key k \<Longrightarrow> look t k = Some (abs t k)"
    and upd_abs: "inv t \<Longrightarrow> ok_key k \<Longrightarrow> ok_val x \<Longrightarrow>
      \<exists>t'. upd k x t = Some t' \<and> inv t' \<and> abs t' = (abs t)(k \<mapsto> x)"
begin

lemma look_after_upd:
  assumes "inv t" "ok_key k" "ok_key k'" "ok_val x"
  shows "\<exists>t'. upd k x t = Some t' \<and> inv t' \<and> look t' k' = Some (if k' = k then Some x else abs t k')"
proof -
  obtain t' where t': "upd k x t = Some t'" "inv t'" "abs t' = (abs t)(k \<mapsto> x)"
    using upd_abs [OF assms(1,2,4)] by blast
  with look_abs [OF t'(2) assms(3)] show ?thesis by auto
qed

lemma update_all_abs:
  "inv t \<Longrightarrow> \<forall>(k, x) \<in> set kxs. ok_key k \<and> ok_val x \<Longrightarrow>
   \<exists>t'. update_all upd kxs t = Some t' \<and> inv t' \<and> abs t' = abs t ++ map_of (rev kxs)"
proof (induction kxs arbitrary: t)
  case (Cons kx kxs)
  obtain k x where kx: "kx = (k, x)" by (cases kx)
  obtain t1 where t1: "upd k x t = Some t1" "inv t1" "abs t1 = (abs t)(k \<mapsto> x)"
    using upd_abs [of t k x] Cons.prems kx by auto
  obtain t2 where "update_all upd kxs t1 = Some t2" "inv t2" "abs t2 = abs t1 ++ map_of (rev kxs)"
    using Cons.IH [OF t1(2)] Cons.prems by auto
  with t1 kx show ?case by (auto simp: map_add_def fun_eq_iff split: option.splits)
qed simp

end

interpretation md: map_store "probe v" "md_insert v" "md_map v" "md_inv v" "sel_ok v" "ov_is_method v" for v
  by unfold_locales (rule probe_spec, assumption+, rule insert_spec, assumption+)

lemma each_pair_from_spec:
  assumes sh: "md_shape v d"
  shows "\<forall>i \<in> set is. i < capacity d \<Longrightarrow> \<exists>ps. each_pair_from v d is = Some ps \<and> length ps = length (live v d is) \<and>
     set ps = {(k, val d i) | k i. i \<in> set is \<and> keys v d ! i = Some k}"
proof (induction "is")
  case (Cons i "is")
  then obtain ps where ps: "each_pair_from v d is = Some ps" "length ps = length (live v d is)"
    "set ps = {(k, val d i) | k i. i \<in> set is \<and> keys v d ! i = Some k}" by auto
  have i: "i < capacity d" using Cons.prems by simp
  show ?case
  proof (cases "keys v d ! i")
    case None
    then have "md_tail d ! (2 * i) = ov_nil v" using keys_nth [OF i, of v] by (auto split: if_splits)
    with None ps i show ?thesis by (auto simp: key_at_in live_def)
  next
    case (Some k)
    then have k: "md_tail d ! (2 * i) = k" "k \<noteq> ov_nil v" using keys_nth [OF i, of v] by (auto split: if_splits)
    have "Some k \<in> set (keys v d)" using Some i by (metis length_keys nth_mem)
    then have "sel_ok v k" "ov_is_method v (val d i)" using sh Some i by (auto simp: md_shape_def)
    with Some k ps i show ?thesis by (auto simp: key_at_in value_at_in live_def sel_ok_def)
  qed
qed (simp add: live_def)

lemma each_pair_spec:
  assumes inv: "md_inv v d"
  shows "\<exists>ps. each_pair v d = Some ps \<and> length ps = md_tally d \<and> set ps = {(k, m). md_map v d k = Some m}"
proof (cases "md_tail d = []")
  case True
  then show ?thesis using inv by (auto simp: each_pair_def capacity_def md_map_def md_inv_def keys_def occupied_def)
next
  case False
  then have sh: "md_shape v d" using inv by (simp add: md_inv_def)
  then have ok: "lp_ok (home v) (keys v d)" by (simp add: md_shape_def)
  obtain ps where ps: "each_pair v d = Some ps" "length ps = length (live v d [0..<capacity d])"
    "set ps = {(k, val d i) | k i. i < capacity d \<and> keys v d ! i = Some k}"
    using each_pair_from_spec [OF sh, of "[0..<capacity d]"] by (auto simp: each_pair_def)
  have "md_map v d k = Some m \<longleftrightarrow> (\<exists>i < capacity d. keys v d ! i = Some k \<and> m = val d i)" for k m
  proof
    assume "md_map v d k = Some m"
    then show "\<exists>i < capacity d. keys v d ! i = Some k \<and> m = val d i"
      by (auto simp: md_map_def find_Some_iff split: option.splits)
  qed (use md_map_key [OF ok] in auto)
  with ps inv occupied_live [of v d] show ?thesis by (auto simp: md_inv_def)
qed

lemma md_tally_card: "md_inv v d \<Longrightarrow> md_tally d = card (dom (md_map v d))"
proof -
  assume inv: "md_inv v d"
  have "lp_ok (home v) (keys v d)"
  proof (cases "md_tail d = []")
    case True
    then show ?thesis by (simp add: keys_def capacity_def lp_ok_def)
  qed (use inv in \<open>simp add: md_inv_def md_shape_def\<close>)
  moreover have "{k. Some k \<in> set (keys v d)} = dom (md_map v d)" using Some_in_keys_map by blast
  ultimately show ?thesis using inv occupied_card [of "home v" "keys v d"] by (simp add: md_inv_def)
qed

text \<open>
  C8. A method dictionary is a finite map. Starting from a fresh dictionary of any power-of-two
  capacity, any sequence of inserts of valid selectors and methods (collisions, overwrites and
  growth included) succeeds: no probe loops forever, no assertion fails. Afterwards probing a
  selector returns the method inserted last for it, or nothing; the tally counts the distinct selectors, the
  load stays within three quarters, and \<open>each_pair\<close> enumerates exactly the bindings.
\<close>
theorem method_dict_is_map:
  assumes "\<forall>(k, m) \<in> set kms. sel_ok v k \<and> ov_is_method v m" and "sel_ok v s"
  shows "\<exists>d d' ps. alloc_method_dict v (2 ^ p) = Some d \<and> update_all (md_insert v) kms d = Some d' \<and>
     probe v d' s = Some (map_of (rev kms) s) \<and>
     each_pair v d' = Some ps \<and> set ps = {(k, m). map_of (rev kms) k = Some m} \<and>
     length ps = md_tally d' \<and> md_tally d' = card (fst ` set kms) \<and> 4 * md_tally d' \<le> 3 * capacity d'"
proof -
  obtain d where d: "alloc_method_dict v (2 ^ p) = Some d" "md_shape v d" "md_map v d = Map.empty"
    "keys v d = replicate (2 ^ p) None" "md_tally d = 0"
    using alloc_method_dict_spec [OF refl, of v p] by blast
  then have inv: "md_inv v d" by (simp add: md_inv_def)
  obtain d' where d': "update_all (md_insert v) kms d = Some d'" "md_inv v d'"
    "md_map v d' = map_of (rev kms)"
    using md.update_all_abs [OF inv assms(1)] d(3) by auto
  obtain ps where "each_pair v d' = Some ps" "length ps = md_tally d'"
    "set ps = {(k, m). md_map v d' k = Some m}" using each_pair_spec [OF d'(2)] by blast
  moreover have "4 * md_tally d' \<le> 3 * capacity d'" using d'(2) by (simp add: md_inv_def)
  moreover have "md_tally d' = card (fst ` set kms)"
    using md_tally_card [OF d'(2)] d'(3) by (simp add: dom_map_of_conv_image_fst)
  ultimately show ?thesis using d(1) d' probe_spec [OF d'(2) assms(2)] by auto
qed

definition demo_view :: obj_view where
  "demo_view = \<lparr>ov_nil = 1, ov_hash = (\<lambda>k. if k < 64 then 8 else ucast k), ov_is_symbol = (\<lambda>k. k \<noteq> 1),
     ov_is_method = (\<lambda>m. m \<noteq> 1)\<rparr>"

theorem method_dict_is_map_witness:
  "\<exists>d d'. alloc_method_dict demo_view (2 ^ 3) = Some d \<and>
     update_all (md_insert demo_view) [(5, 101), (9, 105), (13, 109), (5, 113)] d = Some d' \<and>
     probe demo_view d' 5 = Some (Some 113)"
proof -
  have "\<forall>(k, m) \<in> set [(5, 101), (9, 105), (13, 109), (5, 113)]. sel_ok demo_view k \<and> ov_is_method demo_view m"
    "sel_ok demo_view 5" by (simp_all add: sel_ok_def demo_view_def)
  from method_dict_is_map [OF this, of 3] show ?thesis by auto
qed

end
