(* ===== verification/Heap_Spaces.thy ===== *)
theory Heap_Spaces
  imports Oops
begin

text \<open>
  The geometry and bookkeeping of the generational heap under \<open>src/src/memory/\<close>: the space bounds
  (\<open>layout.rs\<close>), the bump allocators of eden, the survivors and the old generation
  (\<open>spaces.rs\<close>, \<open>alloc.rs\<close>), the card table (\<open>cards.rs\<close>), the object-start offset table
  (\<open>offsets.rs\<close>) and the store barrier (\<open>store.rs\<close>). Addresses and sizes are \<open>usize\<close>, so \<^typ>\<open>nat\<close>;
  an addition that the source checks is written with its 64-bit limit. Tables are byte lists; an index
  past their end fails the source's assertion. The memory that \<open>fill\<close> initializes and the pages
  \<open>Reservation\<close> commits are the operating system's and are not modelled.
\<close>

definition USIZE_MAX :: nat where "USIZE_MAX = 2 ^ 64 - 1"

definition checked_add :: "nat \<Rightarrow> nat \<Rightarrow> nat option" where
  "checked_add a b = (if a + b \<le> USIZE_MAX then Some (a + b) else None)"

definition WORD_SIZE :: nat where "WORD_SIZE = 8"
definition BODY_OFFSET :: nat where "BODY_OFFSET = 16"
definition HEADER_WORDS :: nat where "HEADER_WORDS = 2"
definition CARD_SHIFT :: nat where "CARD_SHIFT = 9"
definition CARD_SIZE :: nat where "CARD_SIZE = 2 ^ CARD_SHIFT"
definition CARD_DIRTY :: u8 where "CARD_DIRTY = 0"
definition CARD_CLEAN :: u8 where "CARD_CLEAN = 1"
definition MAX_DIRECT :: u8 where "MAX_DIRECT = 64"
definition MAX_CHAIN_SKIP :: nat where "MAX_CHAIN_SKIP = 191"
definition SURVIVOR_SIZE :: nat where "SURVIVOR_SIZE = 512 * 2 ^ 10"
definition DEFAULT_EDEN_SIZE :: nat where "DEFAULT_EDEN_SIZE = 32 * 2 ^ 20"

lemmas heap_consts = WORD_SIZE_def BODY_OFFSET_def HEADER_WORDS_def CARD_SHIFT_def CARD_SIZE_def
  CARD_DIRTY_def CARD_CLEAN_def MAX_DIRECT_def MAX_CHAIN_SKIP_def

subsection \<open>Space bounds (layout.rs)\<close>

record space_bounds =
  sb_start :: nat
  sb_end :: nat

definition sb_contains :: "space_bounds \<Rightarrow> nat \<Rightarrow> bool" where
  "sb_contains b addr \<longleftrightarrow> addr \<ge> sb_start b \<and> addr < sb_end b"

definition sb_len :: "space_bounds \<Rightarrow> nat option" where
  "sb_len b = (if sb_start b \<le> sb_end b then Some (sb_end b - sb_start b) else None)"

record heap_layout =
  hl_eden :: space_bounds
  hl_from :: space_bounds
  hl_to :: space_bounds
  hl_old :: space_bounds
  hl_old_start :: nat

definition default_eden_for :: "nat \<Rightarrow> nat" where
  "default_eden_for total_len = min DEFAULT_EDEN_SIZE (total_len div 4)"

definition new_layout :: "nat \<Rightarrow> nat \<Rightarrow> nat \<Rightarrow> heap_layout option" where
  "new_layout base total_len eden_size = do {
     let eden = \<lparr>sb_start = base, sb_end = base + eden_size\<rparr>;
     let from = \<lparr>sb_start = sb_end eden, sb_end = sb_end eden + SURVIVOR_SIZE\<rparr>;
     let to = \<lparr>sb_start = sb_end from, sb_end = sb_end from + SURVIVOR_SIZE\<rparr>;
     let old_start = sb_end to;
     let reservation_end = base + total_len;
     rust_assert (old_start \<le> reservation_end);
     let old = \<lparr>sb_start = old_start, sb_end = reservation_end\<rparr>;
     Some \<lparr>hl_eden = eden, hl_from = from, hl_to = to, hl_old = old, hl_old_start = old_start\<rparr>
   }"

definition is_old :: "heap_layout \<Rightarrow> nat \<Rightarrow> bool" where
  "is_old l a \<longleftrightarrow> a \<ge> hl_old_start l"

definition is_new :: "heap_layout \<Rightarrow> nat \<Rightarrow> bool" where
  "is_new l a \<longleftrightarrow> a < hl_old_start l"

subsection \<open>Cards (cards.rs)\<close>

record card_table =
  ct_old_start :: nat
  ct_cards :: bytes

definition n_cards_for :: "nat \<Rightarrow> nat" where
  "n_cards_for len = max ((len + CARD_SIZE - 1) div CARD_SIZE) 1"

definition new_cards :: "space_bounds \<Rightarrow> card_table option" where
  "new_cards old = do {
     len \<leftarrow> sb_len old;
     Some \<lparr>ct_old_start = sb_start old, ct_cards = replicate (n_cards_for len) CARD_CLEAN\<rparr>
   }"

definition card_index :: "nat \<Rightarrow> nat \<Rightarrow> nat option" where
  "card_index old_start addr =
     (if old_start \<le> addr then Some ((addr - old_start) div CARD_SIZE) else None)"

definition card_base :: "nat \<Rightarrow> nat \<Rightarrow> nat" where
  "card_base old_start i = old_start + i * CARD_SIZE"

definition set_card :: "nat \<Rightarrow> u8 \<Rightarrow> card_table \<Rightarrow> card_table option" where
  "set_card i x t = do {
     rust_assert (i < length (ct_cards t));
     Some (t\<lparr>ct_cards := (ct_cards t)[i := x]\<rparr>)
   }"

definition dirty_for_slot :: "nat \<Rightarrow> card_table \<Rightarrow> card_table option" where
  "dirty_for_slot slot_addr t = do {
     i \<leftarrow> card_index (ct_old_start t) slot_addr;
     set_card i CARD_DIRTY t
   }"

fun set_cards :: "nat list \<Rightarrow> u8 \<Rightarrow> card_table \<Rightarrow> card_table option" where
  "set_cards [] x t = Some t"
| "set_cards (i # is) x t = do { t \<leftarrow> set_card i x t; set_cards is x t }"

definition record_multistores :: "nat \<Rightarrow> nat \<Rightarrow> card_table \<Rightarrow> card_table option" where
  "record_multistores start end1 t =
     (if start \<ge> end1 then Some t
      else do {
        first \<leftarrow> card_index (ct_old_start t) start;
        last \<leftarrow> card_index (ct_old_start t) (end1 - 1);
        set_cards [first..<last + 1] CARD_DIRTY t
      })"

definition is_dirty :: "card_table \<Rightarrow> nat \<Rightarrow> bool option" where
  "is_dirty t i = map_option (\<lambda>x. x = CARD_DIRTY) (slice_get (ct_cards t) i)"

definition set_clean :: "nat \<Rightarrow> card_table \<Rightarrow> card_table option" where
  "set_clean i t = set_card i CARD_CLEAN t"

subsection \<open>Object starts (offsets.rs)\<close>

record offset_table =
  ot_old_start :: nat
  ot_entries :: bytes

definition new_offsets :: "space_bounds \<Rightarrow> offset_table option" where
  "new_offsets old = do {
     len \<leftarrow> sb_len old;
     Some \<lparr>ot_old_start = sb_start old, ot_entries = replicate (n_cards_for len) 0\<rparr>
   }"

definition set_entry :: "nat \<Rightarrow> u8 \<Rightarrow> offset_table \<Rightarrow> offset_table option" where
  "set_entry i x t = do {
     rust_assert (i < length (ot_entries t));
     Some (t\<lparr>ot_entries := (ot_entries t)[i := x]\<rparr>)
   }"

fun set_entries :: "(nat \<Rightarrow> u8) \<Rightarrow> nat list \<Rightarrow> offset_table \<Rightarrow> offset_table option" where
  "set_entries f [] t = Some t"
| "set_entries f (i # is) t = do { t \<leftarrow> set_entry i (f i) t; set_entries f is t }"

definition clear_through :: "nat \<Rightarrow> offset_table \<Rightarrow> offset_table option" where
  "clear_through old_top_before t =
     (if old_top_before \<le> ot_old_start t then Some t
      else do {
        last \<leftarrow> card_index (ot_old_start t) (old_top_before - 1);
        set_entries (\<lambda>_. 0) [0..<last + 1] t
      })"

text \<open>The entry \<open>record_object\<close> writes for a later card \<open>i\<close> of an object in card \<open>c0\<close>.\<close>

definition later_entry :: "nat \<Rightarrow> nat \<Rightarrow> nat \<Rightarrow> nat \<Rightarrow> u8" where
  "later_entry old_start addr c0 i =
     (let distance_words = (card_base old_start i - addr) div WORD_SIZE
      in if distance_words \<le> unat MAX_DIRECT then of_nat distance_words
         else let skip = min (i - (c0 + 1)) MAX_CHAIN_SKIP in MAX_DIRECT + of_nat skip)"

definition record_object :: "nat \<Rightarrow> nat \<Rightarrow> offset_table \<Rightarrow> offset_table option" where
  "record_object addr size_bytes t = do {
     rust_assert (addr mod WORD_SIZE = 0);
     rust_assert (size_bytes > 0);
     c0 \<leftarrow> card_index (ot_old_start t) addr;
     c_last \<leftarrow> card_index (ot_old_start t) (addr + size_bytes - 1);
     t \<leftarrow> (if addr = card_base (ot_old_start t) c0 then set_entry c0 0 t else Some t);
     set_entries (later_entry (ot_old_start t) addr c0) [c0 + 1..<c_last + 1] t
   }"

function resolve :: "offset_table \<Rightarrow> nat \<Rightarrow> nat option" where
  "resolve t i =
     (case slice_get (ot_entries t) i of None \<Rightarrow> None
      | Some e \<Rightarrow>
          if e \<le> MAX_DIRECT
          then (if unat e * WORD_SIZE \<le> card_base (ot_old_start t) i
                then Some (card_base (ot_old_start t) i - unat e * WORD_SIZE) else None)
          else let skip = unat (e - MAX_DIRECT)
               in if skip \<le> i then resolve t (i - skip) else None)"
  by pat_completeness auto
termination
proof (relation "measure snd")
  fix t :: offset_table and i :: nat and e :: u8 and skip :: nat
  assume "\<not> e \<le> MAX_DIRECT" "skip = unat (e - MAX_DIRECT)" "skip \<le> i"
  moreover have "unat (e - MAX_DIRECT) = unat e - 64" if "\<not> e \<le> MAX_DIRECT"
    using that by (simp add: MAX_DIRECT_def word_le_nat_alt unat_sub_if_size)
  ultimately show "((t, i - skip), (t, i)) \<in> measure snd"
    by (simp add: MAX_DIRECT_def word_le_nat_alt)
qed simp

declare resolve.simps [simp del]

subsection \<open>Spaces (spaces.rs, alloc.rs)\<close>

record bump_space =
  bs_start :: nat
  bs_top :: nat
  bs_end :: nat

definition new_eden :: "nat \<Rightarrow> nat \<Rightarrow> bump_space" where
  "new_eden start size1 = \<lparr>bs_start = start, bs_top = start, bs_end = start + size1\<rparr>"

definition new_survivor :: "space_bounds \<Rightarrow> bump_space" where
  "new_survivor b = \<lparr>bs_start = sb_start b, bs_top = sb_start b, bs_end = sb_end b\<rparr>"

definition bs_remaining :: "bump_space \<Rightarrow> nat option" where
  "bs_remaining s = (if bs_top s \<le> bs_end s then Some (bs_end s - bs_top s) else None)"

definition bs_reset :: "bump_space \<Rightarrow> bump_space" where
  "bs_reset s = s\<lparr>bs_top := bs_start s\<rparr>"

text \<open>\<open>try_bump_eden\<close>: the outer option is the two \<open>expect\<close>s on overflow.\<close>

definition try_bump_eden :: "bump_space \<Rightarrow> nat \<Rightarrow> (nat option \<times> bump_space) option" where
  "try_bump_eden eden words = do {
     size1 \<leftarrow> (if words * WORD_SIZE \<le> USIZE_MAX then Some (words * WORD_SIZE) else None);
     new_top \<leftarrow> checked_add (bs_top eden) size1;
     Some (if new_top > bs_end eden then (None, eden)
           else (Some (bs_top eden), eden\<lparr>bs_top := new_top\<rparr>))
   }"

record old_gen =
  og_bounds :: space_bounds
  og_committed_end :: nat
  og_top :: nat

definition new_old_gen :: "space_bounds \<Rightarrow> nat \<Rightarrow> old_gen option" where
  "new_old_gen bounds committed_end = do {
     rust_assert (committed_end \<le> sb_end bounds);
     Some \<lparr>og_bounds = bounds, og_committed_end = committed_end, og_top = sb_start bounds\<rparr>
   }"

definition og_free_bytes :: "old_gen \<Rightarrow> nat option" where
  "og_free_bytes o1 = (if og_top o1 \<le> og_committed_end o1 then Some (og_committed_end o1 - og_top o1) else None)"

definition og_grow :: "nat \<Rightarrow> old_gen \<Rightarrow> nat \<times> old_gen" where
  "og_grow segment o1 =
     (let new_end = min (min (og_committed_end o1 + max segment 1) USIZE_MAX) (sb_end (og_bounds o1));
          grown = new_end - og_committed_end o1
      in if grown = 0 then (0, o1) else (grown, o1\<lparr>og_committed_end := new_end\<rparr>))"

text \<open>
  \<open>OldGen::allocate\<close>: the outer option is a panic, the inner one the exhausted prefix. The offset
  table is updated with every object.
\<close>

definition og_allocate ::
  "nat \<Rightarrow> old_gen \<Rightarrow> offset_table \<Rightarrow> (nat option \<times> old_gen \<times> offset_table) option" where
  "og_allocate size_bytes o1 offsets = do {
     rust_assert (size_bytes + 7 \<le> USIZE_MAX);
     let size_bytes = ((size_bytes + 7) div 8) * 8;
     case checked_add (og_top o1) size_bytes of
       None \<Rightarrow> Some (None, o1, offsets)
     | Some new_top \<Rightarrow>
         if new_top > og_committed_end o1 then Some (None, o1, offsets)
         else do {
           let addr = og_top o1;
           offsets \<leftarrow> record_object addr size_bytes offsets;
           Some (Some addr, o1\<lparr>og_top := new_top\<rparr>, offsets)
         }
   }"

subsection \<open>The store barrier (store.rs)\<close>

record heap =
  h_layout :: heap_layout
  h_cards :: card_table
  h_mem :: "nat \<rightharpoonup> oop"

definition body_addr :: "nat \<Rightarrow> nat \<Rightarrow> nat" where
  "body_addr obj_addr index = obj_addr + BODY_OFFSET + WORD_SIZE * index"

definition store_slot :: "nat \<Rightarrow> nat \<Rightarrow> oop \<Rightarrow> heap \<Rightarrow> heap option" where
  "store_slot obj_addr word_offset val h = do {
     let slot = body_addr obj_addr word_offset;
     let h = h\<lparr>h_mem := (h_mem h)(slot \<mapsto> val)\<rparr>;
     if is_old (h_layout h) obj_addr \<and> is_mem val
     then do {
       a \<leftarrow> mem_addr val;
       if is_new (h_layout h) (unat a) then do {
         cards \<leftarrow> dirty_for_slot slot (h_cards h);
         Some (h\<lparr>h_cards := cards\<rparr>)
       } else Some h
     } else Some h
   }"

text \<open>The conservative barrier after raw writes into an object of \<open>size_words\<close> words.\<close>

definition post_write_barrier :: "nat \<Rightarrow> nat \<Rightarrow> heap \<Rightarrow> heap option" where
  "post_write_barrier obj_addr size_words h =
     (if is_old (h_layout h) obj_addr
      then do {
        cards \<leftarrow> record_multistores obj_addr (obj_addr + size_words * WORD_SIZE) (h_cards h);
        Some (h\<lparr>h_cards := cards\<rparr>)
      } else Some h)"

subsection \<open>Offset entries\<close>

text \<open>A card is covered by an object when the object contains the card's first byte.\<close>

definition covers :: "nat \<Rightarrow> nat \<Rightarrow> nat \<Rightarrow> nat \<Rightarrow> bool" where
  "covers old_start addr size1 i \<longleftrightarrow> addr \<le> card_base old_start i \<and> card_base old_start i < addr + size1"

definition entry_ok :: "offset_table \<Rightarrow> nat \<Rightarrow> nat \<Rightarrow> bool" where
  "entry_ok t addr i \<longleftrightarrow> i < length (ot_entries t) \<and>
     (let e = unat (ot_entries t ! i) in
      if e \<le> 64 then card_base (ot_old_start t) i = addr + e * 8
      else e - 64 \<le> i \<and> addr \<le> card_base (ot_old_start t) (i - (e - 64)))"

lemma card_base_eq: "card_base s i = s + 512 * i"
  by (simp add: card_base_def heap_consts)

lemma max_direct_le: "e \<le> MAX_DIRECT \<longleftrightarrow> unat e \<le> 64" "\<not> e \<le> MAX_DIRECT \<Longrightarrow> unat (e - MAX_DIRECT) = unat e - 64"
  by (simp_all add: MAX_DIRECT_def word_le_nat_alt unat_sub_if_size)

lemma resolve_covered:
  assumes ok: "\<And>i. covers (ot_old_start t) addr size1 i \<Longrightarrow> entry_ok t addr i"
  shows "covers (ot_old_start t) addr size1 i \<Longrightarrow> resolve t i = Some addr"
proof (induction i rule: less_induct)
  case (less i)
  let ?e = "unat (ot_entries t ! i)"
  have e: "i < length (ot_entries t)"
    "if ?e \<le> 64 then card_base (ot_old_start t) i = addr + ?e * 8
     else ?e - 64 \<le> i \<and> addr \<le> card_base (ot_old_start t) (i - (?e - 64))"
    using ok [OF less.prems] unfolding entry_ok_def Let_def by blast+
  show ?case
  proof (cases "?e \<le> 64")
    case True
    with e show ?thesis
      by (subst resolve.simps) (simp add: slice_get_def max_direct_le WORD_SIZE_def)
  next
    case False
    with e have bk:
      "?e - 64 \<le> i" "addr \<le> card_base (ot_old_start t) (i - (?e - 64))" "i - (?e - 64) < i"
      by auto
    moreover have "card_base (ot_old_start t) (i - (?e - 64)) \<le> card_base (ot_old_start t) i"
      by (simp add: card_base_eq)
    ultimately have "covers (ot_old_start t) addr size1 (i - (?e - 64))"
      using less.prems unfolding covers_def by linarith
    with less.IH bk(3) have "resolve t (i - (?e - 64)) = Some addr" by blast
    with False bk(1) e(1) show ?thesis
      by (subst resolve.simps) (simp add: slice_get_def max_direct_le Let_def)
  qed
qed

lemma set_entries_spec:
  "\<forall>i \<in> set is. i < length (ot_entries t) \<Longrightarrow>
   \<exists>t'. set_entries f is t = Some t' \<and> ot_old_start t' = ot_old_start t \<and>
     length (ot_entries t') = length (ot_entries t) \<and>
     (\<forall>i < length (ot_entries t). ot_entries t' ! i = (if i \<in> set is then f i else ot_entries t ! i))"
proof (induction "is" arbitrary: t)
  case (Cons i "is")
  let ?t = "t\<lparr>ot_entries := (ot_entries t)[i := f i]\<rparr>"
  have s: "set_entry i (f i) t = Some ?t" using Cons.prems by (simp add: set_entry_def)
  obtain t' where t': "set_entries f is ?t = Some t'" "ot_old_start t' = ot_old_start t"
    "length (ot_entries t') = length (ot_entries t)"
    "\<forall>i' < length (ot_entries t). ot_entries t' ! i' = (if i' \<in> set is then f i' else (ot_entries t)[i := f i] ! i')"
    using Cons.IH [of ?t] Cons.prems by auto
  with s show ?case by (auto simp: nth_list_update)
qed simp

lemma later_entry_ok:
  assumes al: "addr mod 8 = 0" "s mod 8 = 0" and le: "s \<le> addr" and c0: "c0 = (addr - s) div 512" and i: "c0 < i"
  defines "e \<equiv> unat (later_entry s addr c0 i)"
  shows "if e \<le> 64 then card_base s i = addr + e * 8 else e - 64 \<le> i \<and> addr \<le> card_base s (i - (e - 64))"
proof -
  let ?d = "card_base s i - addr"
  obtain q where q: "addr = s + q" using le nat_le_iff_add by auto
  have q0: "512 * c0 \<le> q" "q < 512 * (c0 + 1)" using c0 q
    by (simp_all add: div_times_less_eq_dividend mult.commute)
  have i1: "512 * (c0 + 1) \<le> 512 * i" using i by simp
  then have pos: "addr < card_base s i" using q q0 by (simp add: card_base_eq)
  have "s + 512 * i - addr = 512 * i - q" using q by simp
  moreover have "8 dvd q" using al q by presburger
  ultimately have "8 dvd ?d" by (simp add: card_base_eq dvd_diff_nat)
  then have exact: "?d = (?d div 8) * 8" by simp
  show ?thesis
  proof (cases "?d div 8 \<le> 64")
    case True
    then have "e = ?d div 8"
      by (simp add: e_def later_entry_def heap_consts unat_of_nat take_bit_nat_eq_self)
    with True exact pos show ?thesis by simp
  next
    case False
    then have "512 < ?d" using exact by linarith
    then have far: "c0 + 1 < i" using q q0 i by (simp add: card_base_eq) 
    define k where "k = min (i - (c0 + 1)) 191"
    have k: "1 \<le> k" "k \<le> 191" "k \<le> i - (c0 + 1)" using far by (auto simp: k_def)
    have "later_entry s addr c0 i = 64 + of_nat k"
      using False by (simp add: later_entry_def heap_consts Let_def k_def)
    then have "later_entry s addr c0 i = of_nat (64 + k)" by simp
    then have "e = 64 + k" unfolding e_def using k by (simp only: unat_of_nat) (simp add: take_bit_nat_eq_self)
    moreover have "c0 + 1 \<le> i - k" using k far by linarith
    then have "addr \<le> card_base s (i - k)" using q q0 by (simp add: card_base_eq)
    ultimately show ?thesis using k by simp
  qed
qed


lemma covers_iff:
  assumes "s \<le> addr" "0 < size1"
  shows "covers s addr size1 i \<longleftrightarrow>
    (i = (addr - s) div 512 \<and> addr = card_base s i) \<or>
    ((addr - s) div 512 < i \<and> i \<le> (addr + size1 - 1 - s) div 512)"
proof -
  obtain q where q: "addr = s + q" using assms(1) nat_le_iff_add by auto
  obtain r where r: "size1 = Suc r" using assms(2) gr0_implies_Suc by blast
  have "512 * i < q + Suc r \<longleftrightarrow> i \<le> (q + r) div 512"
    by (auto simp: less_eq_div_iff_mult_less_eq)
  moreover have "q \<le> 512 * i \<longleftrightarrow> q div 512 < i \<or> (i = q div 512 \<and> q = 512 * i)"
  proof -
    have "q = 512 * (q div 512) + q mod 512" "q mod 512 < 512" by simp_all
    then show ?thesis by (cases "q div 512" i rule: linorder_cases) auto
  qed
  moreover have "q = 512 * i \<Longrightarrow> i \<le> (q + r) div 512" by (simp add: less_eq_div_iff_mult_less_eq)
  ultimately show ?thesis by (auto simp: covers_def card_base_eq q r)
qed

lemma record_object_spec:
  assumes al: "addr mod 8 = 0" "ot_old_start t mod 8 = 0" and le: "ot_old_start t \<le> addr" and pos: "0 < size1"
    and fits: "(addr + size1 - 1 - ot_old_start t) div 512 < length (ot_entries t)"
  shows "\<exists>t'. record_object addr size1 t = Some t' \<and> ot_old_start t' = ot_old_start t \<and>
    length (ot_entries t') = length (ot_entries t) \<and>
    (\<forall>i. covers (ot_old_start t) addr size1 i \<longrightarrow> entry_ok t' addr i) \<and>
    (\<forall>i < length (ot_entries t). \<not> covers (ot_old_start t) addr size1 i \<longrightarrow> ot_entries t' ! i = ot_entries t ! i)"
proof -
  let ?s = "ot_old_start t"
  define c0 where "c0 = (addr - ?s) div 512"
  define cl where "cl = (addr + size1 - 1 - ?s) div 512"
  have cl: "c0 \<le> cl" unfolding c0_def cl_def using pos by (intro div_le_mono) simp
  have fits: "cl < length (ot_entries t)" using fits by (simp add: cl_def)
  define t1 where "t1 = (if addr = card_base ?s c0 then t\<lparr>ot_entries := (ot_entries t)[c0 := 0]\<rparr> else t)"
  have t1: "ot_old_start t1 = ?s" "length (ot_entries t1) = length (ot_entries t)" by (simp_all add: t1_def)
  have e1: "(if addr = card_base ?s c0 then set_entry c0 0 t else Some t) = Some t1"
    using cl fits by (simp add: t1_def set_entry_def)
  obtain t' where t': "set_entries (later_entry ?s addr c0) [c0 + 1..<cl + 1] t1 = Some t'" "ot_old_start t' = ?s"
    "length (ot_entries t') = length (ot_entries t)"
    "\<And>i. i < length (ot_entries t) \<Longrightarrow> ot_entries t' ! i =
       (if c0 < i \<and> i \<le> cl then later_entry ?s addr c0 i else ot_entries t1 ! i)"
    using set_entries_spec [of "[c0 + 1..<cl + 1]" t1 "later_entry ?s addr c0"] fits t1 by fastforce
  have ci: "card_index ?s addr = Some c0" "card_index ?s (addr + size1 - 1) = Some cl"
    using le pos by (auto simp: card_index_def c0_def cl_def heap_consts)
  have rec: "record_object addr size1 t = Some t'"
    using al pos t' e1 ci t1 by (simp add: record_object_def heap_consts)
  have cov: "covers ?s addr size1 i \<longleftrightarrow> (i = c0 \<and> addr = card_base ?s i) \<or> (c0 < i \<and> i \<le> cl)" for i
    unfolding c0_def cl_def using covers_iff [OF le pos] .
  have "entry_ok t' addr i" if "covers ?s addr size1 i" for i
    using that unfolding cov
  proof
    assume i: "i = c0 \<and> addr = card_base ?s i"
    with cl fits have "ot_entries t' ! i = 0" by (simp add: t' t1_def)
    with i cl fits show ?thesis by (simp add: entry_ok_def t')
  next
    assume i: "c0 < i \<and> i \<le> cl"
    with fits have "ot_entries t' ! i = later_entry ?s addr c0 i" by (simp add: t')
    with later_entry_ok [OF al le c0_def, of i] i fits show ?thesis
      unfolding entry_ok_def Let_def t' by auto
  qed
  moreover have "ot_entries t' ! i = ot_entries t ! i"
    if "i < length (ot_entries t)" "\<not> covers ?s addr size1 i" for i
    using that unfolding cov by (auto simp: t' t1_def nth_list_update)
  ultimately show ?thesis using rec t' by blast
qed

subsection \<open>The old generation is parsable\<close>

text \<open>
  The states the old generation goes through, with the objects allocated so far (latest first): it
  starts empty, its committed prefix may grow by a segment, and \<open>allocate\<close> bumps its top.
\<close>

inductive og_reach :: "old_gen \<Rightarrow> offset_table \<Rightarrow> (nat \<times> nat) list \<Rightarrow> bool" where
  og_init: "sb_start b \<le> sb_end b \<Longrightarrow> sb_start b mod 8 = 0 \<Longrightarrow> new_old_gen b committed = Some o1 \<Longrightarrow>
    new_offsets b = Some t \<Longrightarrow> og_reach o1 t []"
| og_grow_step: "og_reach o1 t objs \<Longrightarrow> og_grow segment o1 = (grown, o2) \<Longrightarrow> og_reach o2 t objs"
| og_alloc_step: "og_reach o1 t objs \<Longrightarrow> og_allocate size1 o1 t = Some (Some addr, o2, t2) \<Longrightarrow>
    og_reach o2 t2 ((addr, og_top o2 - addr) # objs)"

fun tiles :: "nat \<Rightarrow> (nat \<times> nat) list \<Rightarrow> nat \<Rightarrow> bool" where
  "tiles start [] top1 = (top1 = start)"
| "tiles start ((a, n) # objs) top1 = (0 < n \<and> n mod 8 = 0 \<and> a + n = top1 \<and> tiles start objs a)"

definition og_inv :: "old_gen \<Rightarrow> offset_table \<Rightarrow> (nat \<times> nat) list \<Rightarrow> bool" where
  "og_inv o1 t objs \<longleftrightarrow>
     sb_start (og_bounds o1) \<le> sb_end (og_bounds o1) \<and> sb_start (og_bounds o1) mod 8 = 0 \<and>
     ot_old_start t = sb_start (og_bounds o1) \<and>
     length (ot_entries t) = n_cards_for (sb_end (og_bounds o1) - sb_start (og_bounds o1)) \<and>
     og_committed_end o1 \<le> sb_end (og_bounds o1) \<and>
     tiles (sb_start (og_bounds o1)) objs (og_top o1) \<and>
     (\<forall>(a, n) \<in> set objs. \<forall>i. covers (ot_old_start t) a n i \<longrightarrow> entry_ok t a i)"

lemma tiles_bounds:
  "tiles s objs top1 \<Longrightarrow> s \<le> top1"
  "tiles s objs top1 \<Longrightarrow> (a, n) \<in> set objs \<Longrightarrow> s \<le> a \<and> a + n \<le> top1"
  "tiles s objs top1 \<Longrightarrow> s mod 8 = 0 \<Longrightarrow> top1 mod 8 = 0"
proof (induction s objs top1 rule: tiles.induct)
  case (2 start a n objs top1)
  { case 1 with 2 show ?case by force }
  { case 2 with "2.IH" show ?case by (auto; force) }
  { case 3 with "2.IH"(3) show ?case by (auto simp: mod_add_eq) }
qed auto

lemma tiles_pos: "tiles s objs top1 \<Longrightarrow> (a, n) \<in> set objs \<Longrightarrow> 0 < n"
  by (induction s objs top1 rule: tiles.induct) auto

lemma tiles_cover:
  "tiles s objs top1 \<Longrightarrow> s \<le> x \<Longrightarrow> x < top1 \<Longrightarrow> \<exists>(a, n) \<in> set objs. a \<le> x \<and> x < a + n"
  by (induction s objs top1 rule: tiles.induct) (auto, metis leI)

lemma tiles_disjoint:
  "tiles s objs top1 \<Longrightarrow> sorted_wrt (\<lambda>(a, n) (b, k). b + k \<le> a) objs"
  by (induction s objs top1 rule: tiles.induct) (auto dest: tiles_bounds(2))

lemma n_cards_enough:
  assumes "s \<le> x" "x < e"
  shows "(x - s) div 512 < n_cards_for (e - s)"
proof -
  have "(x - s) div 512 \<le> (e - s - 1) div 512" using assms by (intro div_le_mono) linarith
  moreover obtain d where d: "e - s = Suc d" using assms by (metis Suc_diff_Suc le_less_trans)
  have "(e - s + 511) div 512 = (e - s - 1) div 512 + 1" unfolding d by (simp add: div_add_self2)
  moreover have "(e - s + CARD_SIZE - 1) div CARD_SIZE = (e - s + 511) div 512" by (simp add: heap_consts)
  ultimately show ?thesis unfolding n_cards_for_def by linarith
qed

lemma entry_ok_cong:
  "ot_old_start t2 = ot_old_start t \<Longrightarrow> length (ot_entries t2) = length (ot_entries t) \<Longrightarrow>
   ot_entries t2 ! i = ot_entries t ! i \<Longrightarrow> entry_ok t2 a i = entry_ok t a i"
  by (simp only: entry_ok_def)

lemma og_allocate_spec:
  assumes inv: "og_inv o1 t objs" and size1: "0 < size1" "size1 + 7 \<le> USIZE_MAX"
  shows "og_allocate size1 o1 t = Some (None, o1, t) \<or>
    (\<exists>n t2. og_allocate size1 o1 t = Some (Some (og_top o1), o1\<lparr>og_top := og_top o1 + n\<rparr>, t2) \<and>
       size1 \<le> n \<and> n < size1 + 8 \<and> og_top o1 + n \<le> og_committed_end o1 \<and>
       og_inv (o1\<lparr>og_top := og_top o1 + n\<rparr>) t2 ((og_top o1, n) # objs))"
proof -
  define n where "n = ((size1 + 7) div 8) * 8"
  have n: "size1 \<le> n" "n < size1 + 8" "n mod 8 = 0" unfolding n_def by (simp_all add: minus_mod_eq_div_mult [symmetric])
  show ?thesis
  proof (cases "og_top o1 + n \<le> USIZE_MAX \<and> og_top o1 + n \<le> og_committed_end o1")
    case False
    then show ?thesis using size1(2) by (auto simp: og_allocate_def checked_add_def n_def Let_def)
  next
    case True
    let ?s = "sb_start (og_bounds o1)"
    note i = inv [unfolded og_inv_def]
    have top1: "?s \<le> og_top o1" "og_top o1 mod 8 = 0" 
      using i tiles_bounds(1,3) [of ?s objs "og_top o1"] by simp_all
    have "(og_top o1 + n - 1 - ot_old_start t) div 512 < length (ot_entries t)"
      using i top1 n size1 True n_cards_enough [of ?s "og_top o1 + n - 1" "sb_end (og_bounds o1)"] by auto
    then obtain t2 where t2: "record_object (og_top o1) n t = Some t2" "ot_old_start t2 = ot_old_start t"
      "length (ot_entries t2) = length (ot_entries t)"
      "\<And>i. covers (ot_old_start t) (og_top o1) n i \<Longrightarrow> entry_ok t2 (og_top o1) i"
      "\<And>i. i < length (ot_entries t) \<Longrightarrow> \<not> covers (ot_old_start t) (og_top o1) n i \<Longrightarrow>
         ot_entries t2 ! i = ot_entries t ! i"
      using record_object_spec [of "og_top o1" t n] i top1 n size1 by auto
    have res: "og_allocate size1 o1 t = Some (Some (og_top o1), o1\<lparr>og_top := og_top o1 + n\<rparr>, t2)"
      using True size1 t2(1) by (simp add: og_allocate_def checked_add_def n_def [symmetric] Let_def)
    have keep: "entry_ok t2 a i" if "(a, k) \<in> set objs" "covers (ot_old_start t) a k i" for a k i
    proof -
      have "a + k \<le> og_top o1" using that(1) i tiles_bounds(2) by blast
      then have "\<not> covers (ot_old_start t) (og_top o1) n i" using that(2) by (auto simp: covers_def)
      moreover have ok: "entry_ok t a i" using that i by blast
      moreover have "i < length (ot_entries t)" using ok by (simp add: entry_ok_def)
      ultimately show ?thesis using entry_ok_cong [OF t2(2,3)] t2(5) by blast
    qed
    have "tiles ?s ((og_top o1, n) # objs) (og_top o1 + n)" using i n size1 by simp
    then have "og_inv (o1\<lparr>og_top := og_top o1 + n\<rparr>) t2 ((og_top o1, n) # objs)"
      using i t2(2,3,4) keep unfolding og_inv_def by auto
    with res n True show ?thesis by blast
  qed
qed

lemma og_allocate_zero: "og_allocate 0 o1 t = Some (Some addr, o2, t2) \<Longrightarrow> False"
  by (auto simp: og_allocate_def Let_def record_object_def rust_assert_def bind_eq_Some_conv split: option.splits if_splits)

lemma og_reach_inv: "og_reach o1 t objs \<Longrightarrow> og_inv o1 t objs"
proof (induction rule: og_reach.induct)
  case (og_init b committed o1 t)
  then show ?case
    by (auto simp: og_inv_def new_old_gen_def new_offsets_def sb_len_def rust_assert_def split: if_splits)
next
  case (og_grow_step o1 t objs segment grown o2)
  define e where "e = min (og_committed_end o1 + max segment 1) USIZE_MAX"
  have "o2 = o1 \<or> o2 = o1\<lparr>og_committed_end := min e (sb_end (og_bounds o1))\<rparr>"
    using og_grow_step.hyps(2) unfolding og_grow_def Let_def e_def [symmetric] by (simp split: if_splits)
  with og_grow_step.IH show ?case by (elim disjE) (auto simp: og_inv_def)
next
  case (og_alloc_step o1 t objs size1 addr o2 t2)
  have pos: "0 < size1" using og_alloc_step.hyps(2) og_allocate_zero by (cases size1) auto
  have "size1 + 7 \<le> USIZE_MAX" using og_alloc_step.hyps(2)
    by (cases "size1 + 7 \<le> USIZE_MAX") (simp_all only: og_allocate_def rust_assert_simps simp_thms bind.simps option.distinct)
  from og_allocate_spec [OF og_alloc_step.IH pos this] og_alloc_step.hyps(2) show ?case
    by (elim disjE exE conjE) (simp, fastforce)
qed

text \<open>
  C24. The old generation stays parsable. In every state reached by growing the committed prefix and
  allocating, the offset table resolves every card below the allocation top to the header of the
  allocated object that contains the card's first byte (so the chain of skips ends), the allocated
  objects are disjoint, lie between the start of the space and its top and are word sized, and a
  further allocation of a nonzero size never panics: it returns the old top with at least the
  requested size, inside the committed prefix, or leaves the state alone and reports exhaustion.
\<close>
theorem old_gen_parsable:
  assumes "og_reach o1 t objs"
  shows "(\<forall>i. card_base (ot_old_start t) i < og_top o1 \<longrightarrow>
      (\<exists>(a, n) \<in> set objs. covers (ot_old_start t) a n i \<and> resolve t i = Some a)) \<and>
    sorted_wrt (\<lambda>(a, n) (b, k). b + k \<le> a) objs \<and>
    (\<forall>(a, n) \<in> set objs. ot_old_start t \<le> a \<and> a + n \<le> og_top o1 \<and> 0 < n) \<and>
    (\<forall>size1. 0 < size1 \<and> size1 + 7 \<le> USIZE_MAX \<longrightarrow>
      og_allocate size1 o1 t = Some (None, o1, t) \<or>
      (\<exists>n t2. og_allocate size1 o1 t = Some (Some (og_top o1), o1\<lparr>og_top := og_top o1 + n\<rparr>, t2) \<and>
         size1 \<le> n \<and> og_top o1 + n \<le> og_committed_end o1))"
proof -
  note inv = og_reach_inv [OF assms]
  note i = inv [unfolded og_inv_def]
  let ?s = "ot_old_start t"
  have tl: "tiles ?s objs (og_top o1)" using i by simp
  have "\<exists>(a, n) \<in> set objs. covers ?s a n c \<and> resolve t c = Some a" if c: "card_base ?s c < og_top o1" for c
  proof -
    obtain a n where an: "(a, n) \<in> set objs" "covers ?s a n c"
      using tiles_cover [OF tl _ c] by (auto simp: covers_def card_base_eq)
    moreover have "\<And>c. covers ?s a n c \<Longrightarrow> entry_ok t a c" using i an(1) by blast
    ultimately show ?thesis using resolve_covered [of t a n c] by blast
  qed
  moreover have "\<forall>(a, n) \<in> set objs. ?s \<le> a \<and> a + n \<le> og_top o1 \<and> 0 < n"
    using tiles_pos [OF tl] tiles_bounds(2) [OF tl] by blast
  moreover have "og_allocate size1 o1 t = Some (None, o1, t) \<or>
      (\<exists>n t2. og_allocate size1 o1 t = Some (Some (og_top o1), o1\<lparr>og_top := og_top o1 + n\<rparr>, t2) \<and>
         size1 \<le> n \<and> og_top o1 + n \<le> og_committed_end o1)" if "0 < size1 \<and> size1 + 7 \<le> USIZE_MAX" for size1
    using og_allocate_spec [OF inv, of size1] that by metis
  ultimately show ?thesis using tiles_disjoint [OF tl] by simp
qed

theorem old_gen_parsable_witness:
  "\<exists>o1 t. og_reach o1 t [(512, 2040)] \<and> og_top o1 = 2552 \<and>
     (\<forall>i. card_base 512 i < 2552 \<longrightarrow> resolve t i = Some 512)"
proof -
  let ?b = "\<lparr>sb_start = 512, sb_end = 4608\<rparr>"
  let ?t = "\<lparr>ot_old_start = 512, ot_entries = [0, 0, 0, 0, 0, 0, 0, 0 :: u8]\<rparr>"
  let ?o = "\<lparr>og_bounds = ?b, og_committed_end = 4608, og_top = 512\<rparr>"
  let ?t2 = "\<lparr>ot_old_start = 512, ot_entries = [0, 64, 65, 66, 0, 0, 0, 0 :: u8]\<rparr>"
  have "replicate 8 (0 :: u8) = [0, 0, 0, 0, 0, 0, 0, 0]" by (simp add: eval_nat_numeral)
  then have "new_old_gen ?b 4608 = Some ?o" "new_offsets ?b = Some ?t"
    by (simp_all add: new_old_gen_def new_offsets_def sb_len_def n_cards_for_def heap_consts)
  then have "og_reach ?o ?t []" using og_init [of ?b] by simp
  moreover have "og_allocate 2033 ?o ?t = Some (Some 512, ?o\<lparr>og_top := 2552\<rparr>, ?t2)"
    by (simp add: og_allocate_def checked_add_def USIZE_MAX_def record_object_def card_index_def heap_consts
        card_base_def set_entry_def later_entry_def upt_rec)
  ultimately have r: "og_reach (?o\<lparr>og_top := 2552\<rparr>) ?t2 [(512, 2040)]"
    using og_alloc_step by fastforce
  then show ?thesis using old_gen_parsable [OF r] by (intro exI conjI) (assumption, simp, simp)
qed

subsection \<open>The remembered set\<close>

text \<open>
  A slot is remembered when its card is dirty. The scavenger scans only dirty cards for references
  into the new generation, so every slot of the old generation that holds one must be remembered.
\<close>

definition new_ref :: "heap_layout \<Rightarrow> oop \<Rightarrow> bool" where
  "new_ref l v \<longleftrightarrow> (\<exists>a. mem_addr v = Some a \<and> is_new l (unat a))"

definition remembered :: "heap \<Rightarrow> nat \<Rightarrow> bool" where
  "remembered h slot \<longleftrightarrow>
     (case card_index (ct_old_start (h_cards h)) slot of None \<Rightarrow> False
      | Some i \<Rightarrow> is_dirty (h_cards h) i = Some True)"

definition heap_wf :: "heap \<Rightarrow> bool" where
  "heap_wf h \<longleftrightarrow> ct_old_start (h_cards h) = hl_old_start (h_layout h) \<and>
     sb_start (hl_old (h_layout h)) = hl_old_start (h_layout h) \<and>
     hl_old_start (h_layout h) \<le> sb_end (hl_old (h_layout h)) \<and>
     length (ct_cards (h_cards h)) = n_cards_for (sb_end (hl_old (h_layout h)) - hl_old_start (h_layout h))"

definition old_to_new_remembered :: "heap \<Rightarrow> bool" where
  "old_to_new_remembered h \<longleftrightarrow>
     (\<forall>slot v. h_mem h slot = Some v \<and> is_old (h_layout h) slot \<and> new_ref (h_layout h) v \<longrightarrow> remembered h slot)"

text \<open>An object lies in one generation.\<close>

definition within_one_gen :: "heap_layout \<Rightarrow> nat \<Rightarrow> nat \<Rightarrow> bool" where
  "within_one_gen l a n \<longleftrightarrow> a + n \<le> hl_old_start l \<or> (hl_old_start l \<le> a \<and> a + n \<le> sb_end (hl_old l))"

lemma set_cards_spec:
  "\<forall>i \<in> set is. i < length (ct_cards t) \<Longrightarrow>
   \<exists>t'. set_cards is x t = Some t' \<and> ct_old_start t' = ct_old_start t \<and>
     length (ct_cards t') = length (ct_cards t) \<and>
     (\<forall>i < length (ct_cards t). ct_cards t' ! i = (if i \<in> set is then x else ct_cards t ! i))"
proof (induction "is" arbitrary: t)
  case (Cons i "is")
  let ?t = "t\<lparr>ct_cards := (ct_cards t)[i := x]\<rparr>"
  have s: "set_card i x t = Some ?t" using Cons.prems by (simp add: set_card_def)
  obtain t' where t': "set_cards is x ?t = Some t'" "ct_old_start t' = ct_old_start t"
    "length (ct_cards t') = length (ct_cards t)"
    "\<forall>i' < length (ct_cards t). ct_cards t' ! i' = (if i' \<in> set is then x else (ct_cards t)[i := x] ! i')"
    using Cons.IH [of ?t] Cons.prems by auto
  with s show ?case by (auto simp: nth_list_update)
qed simp

text \<open>Cards only gain dirtiness: \<open>dirtier P h h'\<close> when \<open>h'\<close> has the cards of \<open>h\<close> with those in \<open>P\<close> dirtied.\<close>

definition dirtier :: "(nat \<Rightarrow> bool) \<Rightarrow> card_table \<Rightarrow> card_table \<Rightarrow> bool" where
  "dirtier P t t' \<longleftrightarrow> ct_old_start t' = ct_old_start t \<and> length (ct_cards t') = length (ct_cards t) \<and>
     (\<forall>i < length (ct_cards t). ct_cards t' ! i = (if P i then CARD_DIRTY else ct_cards t ! i))"

lemma dirty_for_slot_spec:
  assumes "ct_old_start t \<le> slot" "(slot - ct_old_start t) div 512 < length (ct_cards t)"
  shows "\<exists>t'. dirty_for_slot slot t = Some t' \<and> dirtier (\<lambda>i. i = (slot - ct_old_start t) div 512) t t'"
  using assms by (simp add: dirty_for_slot_def card_index_def set_card_def dirtier_def heap_consts nth_list_update)

lemma record_multistores_spec:
  assumes "ct_old_start t \<le> a" "a < e" "(e - 1 - ct_old_start t) div 512 < length (ct_cards t)"
  shows "\<exists>t'. record_multistores a e t = Some t' \<and>
    dirtier (\<lambda>i. (a - ct_old_start t) div 512 \<le> i \<and> i \<le> (e - 1 - ct_old_start t) div 512) t t'"
proof -
  let ?f = "(a - ct_old_start t) div 512" and ?l = "(e - 1 - ct_old_start t) div 512"
  have "record_multistores a e t = set_cards [?f..<?l + 1] CARD_DIRTY t"
  proof -
    have "card_index (ct_old_start t) a = Some ?f" "card_index (ct_old_start t) (e - 1) = Some ?l"
      using assms by (auto simp: card_index_def heap_consts)
    then show ?thesis using assms(2) by (simp only: record_multistores_def) simp
  qed
  moreover have "\<forall>i \<in> set [?f..<?l + 1]. i < length (ct_cards t)" using assms by auto
  ultimately show ?thesis using set_cards_spec [of "[?f..<?l + 1]" t CARD_DIRTY] unfolding dirtier_def by fastforce
qed

lemma mem_addr_eq: "mem_addr v = (if is_mem v then Some (v - MEM_TAG) else None)"
  by (simp add: mem_addr_def rust_assert_def)

lemma remembered_iff:
  "remembered h slot \<longleftrightarrow> ct_old_start (h_cards h) \<le> slot \<and>
     (slot - ct_old_start (h_cards h)) div 512 < length (ct_cards (h_cards h)) \<and>
     ct_cards (h_cards h) ! ((slot - ct_old_start (h_cards h)) div 512) = CARD_DIRTY"
  by (auto simp: remembered_def card_index_def is_dirty_def slice_get_def heap_consts)

lemma remembered_dirtier:
  assumes "dirtier P (h_cards h) (h_cards h')"
    "remembered h slot \<or> (ct_old_start (h_cards h) \<le> slot \<and> (slot - ct_old_start (h_cards h)) div 512 < length (ct_cards (h_cards h))
       \<and> P ((slot - ct_old_start (h_cards h)) div 512))"
  shows "remembered h' slot"
  using assms by (auto simp: remembered_iff dirtier_def)

lemma card_in_table:
  assumes "heap_wf h" "hl_old_start (h_layout h) \<le> x" "x < sb_end (hl_old (h_layout h))"
  shows "(x - ct_old_start (h_cards h)) div 512 < length (ct_cards (h_cards h))"
  using assms n_cards_enough [of "hl_old_start (h_layout h)" x "sb_end (hl_old (h_layout h))"]
  by (simp add: heap_wf_def)

lemma barrier_keeps:
  assumes wf: "heap_wf h" and rem: "old_to_new_remembered h" and d: "dirtier P (h_cards h) cards"
    and new: "\<And>slot v. m slot = Some v \<Longrightarrow> m slot \<noteq> h_mem h slot \<Longrightarrow> is_old (h_layout h) slot \<Longrightarrow>
      new_ref (h_layout h) v \<Longrightarrow> slot < sb_end (hl_old (h_layout h)) \<and> P ((slot - ct_old_start (h_cards h)) div 512)"
  shows "heap_wf (h\<lparr>h_mem := m, h_cards := cards\<rparr>) \<and> old_to_new_remembered (h\<lparr>h_mem := m, h_cards := cards\<rparr>)"
proof
  show "heap_wf (h\<lparr>h_mem := m, h_cards := cards\<rparr>)" using wf d by (simp add: heap_wf_def dirtier_def)
  have "remembered (h\<lparr>h_mem := m, h_cards := cards\<rparr>) slot"
    if s: "m slot = Some v" "is_old (h_layout h) slot" "new_ref (h_layout h) v" for slot v
  proof (rule remembered_dirtier [where P = P and h = h], simp add: d, cases "m slot = h_mem h slot")
    case True
    then show "remembered h slot \<or> (ct_old_start (h_cards h) \<le> slot \<and>
       (slot - ct_old_start (h_cards h)) div 512 < length (ct_cards (h_cards h)) \<and> P ((slot - ct_old_start (h_cards h)) div 512))"
      using rem s unfolding old_to_new_remembered_def by metis
  next
    case False
    moreover have "ct_old_start (h_cards h) \<le> slot" "hl_old_start (h_layout h) \<le> slot"
      using s(2) wf by (simp_all add: is_old_def heap_wf_def)
    ultimately show "remembered h slot \<or> (ct_old_start (h_cards h) \<le> slot \<and>
       (slot - ct_old_start (h_cards h)) div 512 < length (ct_cards (h_cards h)) \<and> P ((slot - ct_old_start (h_cards h)) div 512))"
      using new [OF s(1) False s(2,3)] card_in_table [OF wf] by blast
  qed
  then show "old_to_new_remembered (h\<lparr>h_mem := m, h_cards := cards\<rparr>)" by (simp add: old_to_new_remembered_def)
qed

lemma dirtier_refl: "dirtier (\<lambda>_. False) t t" by (simp add: dirtier_def)

lemma store_slot_keeps:
  assumes wf: "heap_wf h" and rem: "old_to_new_remembered h"
    and fit: "within_one_gen (h_layout h) obj (8 * size_words)" "BODY_OFFSET + 8 * off < 8 * size_words"
  shows "\<exists>h'. store_slot obj off v h = Some h' \<and> heap_wf h' \<and> old_to_new_remembered h' \<and>
    h_mem h' = (h_mem h)(body_addr obj off \<mapsto> v) \<and> h_layout h' = h_layout h"
proof -
  let ?slot = "body_addr obj off" and ?l = "h_layout h"
  let ?m = "(h_mem h)(?slot \<mapsto> v)"
  have slot: "obj \<le> ?slot" "?slot < obj + 8 * size_words" using fit(2) by (simp_all add: body_addr_def WORD_SIZE_def)
  show ?thesis
  proof (cases "is_old ?l obj \<and> new_ref ?l v")
    case True
    then have old: "hl_old_start ?l \<le> ?slot" "?slot < sb_end (hl_old ?l)"
      using slot fit(1) by (auto simp: is_old_def within_one_gen_def)
    have ct: "ct_old_start (h_cards h) = hl_old_start ?l" using wf by (simp add: heap_wf_def)
    obtain cards where c: "dirty_for_slot ?slot (h_cards h) = Some cards"
      "dirtier (\<lambda>i. i = (?slot - ct_old_start (h_cards h)) div 512) (h_cards h) cards"
      using dirty_for_slot_spec [of "h_cards h" ?slot] card_in_table [OF wf old] old ct by auto
    obtain a where "mem_addr v = Some a" "is_new ?l (unat a)" "is_mem v"
      using True by (auto simp: new_ref_def mem_addr_eq split: if_splits)
    then have "store_slot obj off v h = Some (h\<lparr>h_mem := ?m, h_cards := cards\<rparr>)"
      using True c(1) by (simp add: store_slot_def)
    moreover have "?m s = h_mem h s" if "s \<noteq> ?slot" for s using that by simp
    then have "heap_wf (h\<lparr>h_mem := ?m, h_cards := cards\<rparr>) \<and> old_to_new_remembered (h\<lparr>h_mem := ?m, h_cards := cards\<rparr>)"
      using old by (intro barrier_keeps [OF wf rem c(2)]) metis
    ultimately show ?thesis by simp
  next
    case False
    then have "store_slot obj off v h = Some (h\<lparr>h_mem := ?m, h_cards := h_cards h\<rparr>)"
      by (cases "is_mem v") (simp_all add: store_slot_def new_ref_def mem_addr_eq Let_def)
    moreover have "\<not> (is_old ?l ?slot \<and> new_ref ?l v)"
      using False slot fit(1) by (auto simp: is_old_def within_one_gen_def)
    then have "heap_wf (h\<lparr>h_mem := ?m, h_cards := h_cards h\<rparr>) \<and> old_to_new_remembered (h\<lparr>h_mem := ?m, h_cards := h_cards h\<rparr>)"
      by (intro barrier_keeps [OF wf rem dirtier_refl]) (auto split: if_splits)
    ultimately show ?thesis by simp
  qed
qed

lemma post_write_barrier_keeps:
  assumes wf: "heap_wf h" and rem: "old_to_new_remembered h"
    and fit: "within_one_gen (h_layout h) obj (8 * size_words)" "0 < size_words"
    and wr: "\<And>slot. m slot \<noteq> h_mem h slot \<Longrightarrow> obj \<le> slot \<and> slot < obj + 8 * size_words"
  shows "\<exists>h'. post_write_barrier obj size_words (h\<lparr>h_mem := m\<rparr>) = Some h' \<and> heap_wf h' \<and>
    old_to_new_remembered h' \<and> h_mem h' = m \<and> h_layout h' = h_layout h"
proof -
  let ?l = "h_layout h" and ?e = "obj + 8 * size_words"
  have ct: "ct_old_start (h_cards h) = hl_old_start ?l" using wf by (simp add: heap_wf_def)
  show ?thesis
  proof (cases "is_old ?l obj")
    case True
    then have old: "hl_old_start ?l \<le> obj" "?e \<le> sb_end (hl_old ?l)" "obj < ?e"
      using fit by (auto simp: is_old_def within_one_gen_def)
    have "(?e - 1 - ct_old_start (h_cards h)) div 512 < length (ct_cards (h_cards h))"
      using card_in_table [OF wf, of "?e - 1"] old by simp
    then obtain cards where c: "record_multistores obj ?e (h_cards h) = Some cards"
      "dirtier (\<lambda>i. (obj - hl_old_start ?l) div 512 \<le> i \<and> i \<le> (?e - 1 - hl_old_start ?l) div 512) (h_cards h) cards"
      using record_multistores_spec [of "h_cards h" obj ?e] old unfolding ct by blast
    have "post_write_barrier obj size_words (h\<lparr>h_mem := m\<rparr>) = Some (h\<lparr>h_mem := m, h_cards := cards\<rparr>)"
      using True c(1) by (simp add: post_write_barrier_def WORD_SIZE_def mult.commute)
    moreover have "slot < sb_end (hl_old ?l) \<and> (obj - hl_old_start ?l) div 512 \<le> (slot - hl_old_start ?l) div 512 \<and>
      (slot - hl_old_start ?l) div 512 \<le> (?e - 1 - hl_old_start ?l) div 512" if "m slot \<noteq> h_mem h slot" for slot
      using wr [OF that] old by (intro conjI div_le_mono) linarith+
    then have "heap_wf (h\<lparr>h_mem := m, h_cards := cards\<rparr>) \<and> old_to_new_remembered (h\<lparr>h_mem := m, h_cards := cards\<rparr>)"
      by (intro barrier_keeps [OF wf rem c(2)]) (simp add: ct)
    ultimately show ?thesis by simp
  next
    case False
    then have "\<not> is_old ?l slot" if "m slot \<noteq> h_mem h slot" for slot
      using wr [OF that] fit by (auto simp: is_old_def within_one_gen_def)
    then have "heap_wf (h\<lparr>h_mem := m, h_cards := h_cards h\<rparr>) \<and> old_to_new_remembered (h\<lparr>h_mem := m, h_cards := h_cards h\<rparr>)"
      by (intro barrier_keeps [OF wf rem dirtier_refl]) blast
    then show ?thesis using False by (simp add: post_write_barrier_def)
  qed
qed

text \<open>
  C10. The store barrier keeps the remembered set complete. When every old-generation slot holding a
  new-generation reference lies in a dirty card, it still does after \<open>store\<close> writes any value into any
  body slot of an object, and after \<open>post_write_barrier\<close> follows arbitrary raw writes into an object;
  neither panics, and neither changes memory beyond the store itself.
\<close>
theorem store_barrier_sound:
  assumes "heap_wf h" "old_to_new_remembered h"
  shows "(\<forall>obj size_words off v.
      within_one_gen (h_layout h) obj (8 * size_words) \<and> BODY_OFFSET + 8 * off < 8 * size_words \<longrightarrow>
      (\<exists>h'. store_slot obj off v h = Some h' \<and> heap_wf h' \<and> old_to_new_remembered h' \<and>
        h_mem h' = (h_mem h)(body_addr obj off \<mapsto> v))) \<and>
    (\<forall>obj size_words m.
      within_one_gen (h_layout h) obj (8 * size_words) \<and> 0 < size_words \<and>
      (\<forall>slot. m slot \<noteq> h_mem h slot \<longrightarrow> obj \<le> slot \<and> slot < obj + 8 * size_words) \<longrightarrow>
      (\<exists>h'. post_write_barrier obj size_words (h\<lparr>h_mem := m\<rparr>) = Some h' \<and> heap_wf h' \<and>
        old_to_new_remembered h' \<and> h_mem h' = m))"
proof (intro conjI allI impI)
  fix obj size_words off v
  assume "within_one_gen (h_layout h) obj (8 * size_words) \<and> BODY_OFFSET + 8 * off < 8 * size_words"
  with store_slot_keeps [OF assms]
  show "\<exists>h'. store_slot obj off v h = Some h' \<and> heap_wf h' \<and> old_to_new_remembered h' \<and>
        h_mem h' = (h_mem h)(body_addr obj off \<mapsto> v)" by metis
next
  fix obj size_words m
  assume "within_one_gen (h_layout h) obj (8 * size_words) \<and> 0 < size_words \<and>
      (\<forall>slot. m slot \<noteq> h_mem h slot \<longrightarrow> obj \<le> slot \<and> slot < obj + 8 * size_words)"
  then show "\<exists>h'. post_write_barrier obj size_words (h\<lparr>h_mem := m\<rparr>) = Some h' \<and> heap_wf h' \<and>
        old_to_new_remembered h' \<and> h_mem h' = m"
    using post_write_barrier_keeps [OF assms, of obj size_words m] by blast
qed

theorem store_barrier_sound_witness:
  "\<exists>h h'. heap_wf h \<and> old_to_new_remembered h \<and> store_slot 4096 0 17 h = Some h' \<and> old_to_new_remembered h' \<and>
     new_ref (h_layout h) 17 \<and> h_mem h' (body_addr 4096 0) = Some 17"
proof -
  let ?l = "\<lparr>hl_eden = \<lparr>sb_start = 0, sb_end = 1024\<rparr>, hl_from = \<lparr>sb_start = 1024, sb_end = 2048\<rparr>,
    hl_to = \<lparr>sb_start = 2048, sb_end = 4096\<rparr>, hl_old = \<lparr>sb_start = 4096, sb_end = 5120\<rparr>, hl_old_start = 4096\<rparr>"
  let ?h = "\<lparr>h_layout = ?l, h_cards = \<lparr>ct_old_start = 4096, ct_cards = [CARD_CLEAN, CARD_CLEAN]\<rparr>, h_mem = Map.empty\<rparr>"
  have h: "heap_wf ?h" "old_to_new_remembered ?h"
    by (simp_all add: heap_wf_def old_to_new_remembered_def n_cards_for_def heap_consts)
  have "within_one_gen (h_layout ?h) 4096 (8 * 4) \<and> BODY_OFFSET + 8 * 0 < 8 * 4"
    by (simp add: within_one_gen_def BODY_OFFSET_def)
  then obtain h' where "store_slot 4096 0 17 ?h = Some h'" "old_to_new_remembered h'"
    "h_mem h' = (h_mem ?h)(body_addr 4096 0 \<mapsto> 17)"
    using store_barrier_sound [OF h] by blast
  moreover have "new_ref (h_layout ?h) 17"
    by (simp add: new_ref_def mem_addr_eq is_new_def is_mem_def oop_tag_def TAG_MASK_def MEM_TAG_def)
  ultimately show ?thesis using h by (intro exI [of _ ?h] exI [of _ h'] conjI) (assumption | simp)+
qed

subsection \<open>Layout and eden\<close>

definition bump_wf :: "bump_space \<Rightarrow> bool" where
  "bump_wf s \<longleftrightarrow> bs_start s \<le> bs_top s \<and> bs_top s \<le> bs_end s"

text \<open>
  The reservation is split into eden, two survivors and the old generation. \<open>Layout::new\<close>
  succeeds exactly when they fit; every address of the reservation then lies in exactly one of the
  four spaces, and the one comparison of \<open>is_old\<close> (\<open>is_new\<close>) decides whether that is the old
  generation (one of the other three).
\<close>
theorem layout_partition:
  "case new_layout base total_len eden_size of
     None \<Rightarrow> total_len < eden_size + 2 * SURVIVOR_SIZE
   | Some l \<Rightarrow> eden_size + 2 * SURVIVOR_SIZE \<le> total_len \<and>
       (\<forall>a. base \<le> a \<and> a < base + total_len \<longrightarrow>
         length (filter (\<lambda>b. sb_contains b a) [hl_eden l, hl_from l, hl_to l, hl_old l]) = 1 \<and>
         (is_old l a \<longleftrightarrow> sb_contains (hl_old l) a) \<and>
         (is_new l a \<longleftrightarrow> sb_contains (hl_eden l) a \<or> sb_contains (hl_from l) a \<or> sb_contains (hl_to l) a) \<and>
         (is_new l a \<longleftrightarrow> \<not> is_old l a))"
  by (auto simp: new_layout_def rust_assert_def Let_def sb_contains_def is_old_def is_new_def)

theorem layout_partition_witness:
  "case new_layout 0 (2 * 2 ^ 20) 512 of
     None \<Rightarrow> False
   | Some l \<Rightarrow> length (filter (\<lambda>b. sb_contains b 600) [hl_eden l, hl_from l, hl_to l, hl_old l]) = 1 \<and>
       (is_new l 600 \<longleftrightarrow> \<not> is_old l 600)"
proof (cases "new_layout 0 (2 * 2 ^ 20) 512")
  case None
  then show ?thesis using layout_partition [where base = 0 and total_len = "2 * 2 ^ 20" and eden_size = 512]
    by (simp add: SURVIVOR_SIZE_def)
next
  case (Some l)
  have "(0 :: nat) \<le> 600 \<and> (600 :: nat) < 0 + 2 * 2 ^ 20" by simp
  with Some show ?thesis using layout_partition [where base = 0 and total_len = "2 * 2 ^ 20" and eden_size = 512]
    unfolding Some option.case by blast
qed

text \<open>
  Eden allocates by bumping. From a well-formed eden, \<open>try_bump_eden\<close> returns the old top and
  advances it by the requested words when they fit, leaves eden unchanged and returns nothing when they
  do not, and panics only when the size or the new top exceeds 64 bits; the result is well formed, so
  successive allocations are disjoint and inside eden, and \<open>reset\<close> empties it.
\<close>
theorem eden_bump:
  assumes "bump_wf eden"
  shows "case try_bump_eden eden words of
      None \<Rightarrow> USIZE_MAX < bs_top eden + words * WORD_SIZE
    | Some (None, eden') \<Rightarrow> eden' = eden \<and> bs_end eden < bs_top eden + words * WORD_SIZE
    | Some (Some a, eden') \<Rightarrow> a = bs_top eden \<and> bs_top eden' = a + words * WORD_SIZE \<and>
        bs_start eden' = bs_start eden \<and> bs_end eden' = bs_end eden \<and> bump_wf eden' \<and>
        bs_remaining eden' = map_option (\<lambda>r. r - words * WORD_SIZE) (bs_remaining eden) \<and>
        bs_reset eden' = bs_reset eden \<and> bump_wf (bs_reset eden')"
  using assms by (auto simp: try_bump_eden_def checked_add_def bump_wf_def bs_remaining_def bs_reset_def)

theorem eden_bump_witness:
  "bump_wf (new_eden 1024 512) \<and>
   (case try_bump_eden (new_eden 1024 512) 4 of None \<Rightarrow> False
    | Some (r, eden') \<Rightarrow> r = Some 1024 \<and> bump_wf eden')"
proof -
  have w: "bump_wf (new_eden 1024 512)" by (simp add: bump_wf_def new_eden_def)
  show ?thesis using eden_bump [OF w, of 4] w
    by (auto simp: new_eden_def USIZE_MAX_def WORD_SIZE_def split: option.splits)
qed

end
