(* ===== verification/Code_Cache.thy ===== *)
theory Code_Cache
  imports Winvm_Prelude
begin

text \<open>
  The code cache (\<open>src/src/codecache/mod.rs\<close>): one region of executable memory, allocated by bumping
  \<open>top\<close> with first-fit reuse of freed holes, and the patching of branches in published code.
  Addresses are \<^typ>\<open>nat\<close>; the \<open>BTreeMap\<close> of holes is a list of offset/length pairs in ascending
  order of offset. Memory is a function from addresses to bytes; the write-protect toggling and instruction-cache
  flushing of \<open>JitWriteGuard\<close> do not change it and are left out. The x86-64 form of each patch
  is modelled (the one this port builds), and the full-word AArch64 branch.
\<close>

subsection \<open>Allocation\<close>

record code_handle =
  ch_base :: nat
  ch_len :: nat

record code_cache =
  cc_base :: nat
  cc_cap :: nat
  cc_top :: nat
  cc_free :: "(nat \<times> nat) list"

definition USIZE_LIMIT :: nat where "USIZE_LIMIT = 2 ^ 64"

definition round_up16 :: "nat \<Rightarrow> nat" where
  "round_up16 n = (n + 15) div 16 * 16"

definition new_code_cache :: "nat \<Rightarrow> nat \<Rightarrow> code_cache" where
  "new_code_cache base cap = \<lparr>cc_base = base, cc_cap = cap, cc_top = 0, cc_free = []\<rparr>"

text \<open>The operations of \<open>BTreeMap\<close> the code uses.\<close>

definition bt_remove :: "nat \<Rightarrow> (nat \<times> nat) list \<Rightarrow> (nat \<times> nat) list" where
  "bt_remove k f = filter (\<lambda>(o1, _). o1 \<noteq> k) f"

definition bt_insert :: "nat \<Rightarrow> nat \<Rightarrow> (nat \<times> nat) list \<Rightarrow> (nat \<times> nat) list" where
  "bt_insert k v f = filter (\<lambda>(o1, _). o1 < k) f @ (k, v) # filter (\<lambda>(o1, _). k < o1) f"

definition bt_prev :: "nat \<Rightarrow> (nat \<times> nat) list \<Rightarrow> (nat \<times> nat) option" where
  "bt_prev k f = (let xs = filter (\<lambda>(o1, _). o1 < k) f in if xs = [] then None else Some (last xs))"

definition bt_next :: "nat \<Rightarrow> (nat \<times> nat) list \<Rightarrow> (nat \<times> nat) option" where
  "bt_next k f = find (\<lambda>(o1, _). k \<le> o1) f"

text \<open>\<open>alloc\<close>: \<open>None\<close> when the cache is full. Rounding up does not overflow below \<open>USIZE_LIMIT - 16\<close>.\<close>

definition cc_alloc :: "nat \<Rightarrow> code_cache \<Rightarrow> (code_handle \<times> code_cache) option" where
  "cc_alloc len c =
     (let len = round_up16 len
      in case find (\<lambda>(_, hole_len). len \<le> hole_len) (cc_free c) of
           Some (off, hole_len) \<Rightarrow>
             (let f = bt_remove off (cc_free c);
                  remainder = hole_len - len;
                  (granted, f) = (if 32 \<le> remainder then (len, bt_insert (off + len) remainder f) else (hole_len, f))
              in Some (\<lparr>ch_base = cc_base c + off, ch_len = granted\<rparr>, c\<lparr>cc_free := f\<rparr>))
         | None \<Rightarrow>
             (let off = cc_top c; new_top = off + len
              in if USIZE_LIMIT \<le> new_top then None
                 else if cc_cap c < new_top then None
                 else Some (\<lparr>ch_base = cc_base c + off, ch_len = len\<rparr>, c\<lparr>cc_top := new_top\<rparr>)))"

definition cc_free_handle :: "code_handle \<Rightarrow> code_cache \<Rightarrow> code_cache option" where
  "cc_free_handle h c = do {
     rust_assert (cc_base c \<le> ch_base h);
     let start = ch_base h - cc_base c;
     let len = ch_len h;
     let f = cc_free c;
     let (start, len, f) = (case bt_prev start f of
          Some (prev_off, prev_len) \<Rightarrow>
            if prev_off + prev_len = start then (prev_off, len + prev_len, bt_remove prev_off f) else (start, len, f)
        | None \<Rightarrow> (start, len, f));
     let (len, f) = (case bt_next (start + len) f of
          Some (next_off, next_len) \<Rightarrow>
            if next_off = start + len then (len + next_len, bt_remove next_off f) else (len, f)
        | None \<Rightarrow> (len, f));
     Some (if start + len = cc_top c then c\<lparr>cc_top := start, cc_free := f\<rparr>
           else c\<lparr>cc_free := bt_insert start len f\<rparr>)
   }"

definition cc_contains :: "code_cache \<Rightarrow> nat \<Rightarrow> bool" where
  "cc_contains c addr \<longleftrightarrow> cc_base c \<le> addr \<and> addr < cc_base c + cc_cap c"

definition cc_bounds :: "code_cache \<Rightarrow> nat \<times> nat" where
  "cc_bounds c = (cc_base c, cc_base c + cc_cap c)"

definition used_bytes :: "code_cache \<Rightarrow> nat" where
  "used_bytes c = cc_top c"

subsection \<open>Patching\<close>

type_synonym memory = "nat \<Rightarrow> u8"

definition le_bytes32 :: "u32 \<Rightarrow> bytes" where
  "le_bytes32 w = [ucast w, ucast (drop_bit 8 w), ucast (drop_bit 16 w), ucast (drop_bit 24 w)]"

fun write_bytes :: "nat \<Rightarrow> bytes \<Rightarrow> memory \<Rightarrow> memory" where
  "write_bytes a [] mem = mem"
| "write_bytes a (b # bs) mem = write_bytes (a + 1) bs (mem(a := b))"

definition publish :: "code_handle \<Rightarrow> bytes \<Rightarrow> memory \<Rightarrow> (nat \<times> memory) option" where
  "publish h code mem = do {
     rust_assert (length code \<le> ch_len h);
     Some (ch_base h, write_bytes (ch_base h) code mem)
   }"

text \<open>\<open>i32::try_from\<close> on a displacement between two addresses.\<close>

definition disp32 :: "nat \<Rightarrow> nat \<Rightarrow> u32 option" where
  "disp32 target insn_end = (let disp = int target - int insn_end
     in if - (2 ^ 31) \<le> disp \<and> disp < 2 ^ 31 then Some (word_of_int disp) else None)"

definition patch_call_rel32_at :: "code_handle \<Rightarrow> nat \<Rightarrow> nat \<Rightarrow> memory \<Rightarrow> memory option" where
  "patch_call_rel32_at h off target mem = do {
     rust_assert (off + 5 \<le> ch_len h);
     let site = ch_base h + off;
     rust_assert (mem site = 0xE8);
     d \<leftarrow> disp32 target (site + 5);
     Some (write_bytes (site + 1) (le_bytes32 d) mem)
   }"

definition write_jmp_rel32_at :: "code_handle \<Rightarrow> nat \<Rightarrow> nat \<Rightarrow> memory \<Rightarrow> memory option" where
  "write_jmp_rel32_at h off target mem = do {
     rust_assert (off + 5 \<le> ch_len h);
     let site = ch_base h + off;
     d \<leftarrow> disp32 target (site + 5);
     Some (write_bytes site (0xE9 # le_bytes32 d) mem)
   }"

definition in_branch26_range :: "int \<Rightarrow> bool" where
  "in_branch26_range disp \<longleftrightarrow> - (2 ^ 27) \<le> disp \<and> disp < 2 ^ 27"

definition write_branch26_at :: "code_handle \<Rightarrow> nat \<Rightarrow> nat \<Rightarrow> memory \<Rightarrow> memory option" where
  "write_branch26_at h off target mem = do {
     rust_assert (off + 4 \<le> ch_len h);
     let site = ch_base h + off;
     let disp = int target - int site;
     rust_assert (in_branch26_range disp);
     let word = 0x14000000 OR (word_of_int (drop_bit 2 disp) AND 0x03FFFFFF);
     Some (write_bytes site (le_bytes32 word) mem)
   }"

text \<open>The two dispatchers, on x86-64.\<close>

definition patch_call_site_at :: "code_handle \<Rightarrow> nat \<Rightarrow> nat \<Rightarrow> memory \<Rightarrow> memory option" where
  "patch_call_site_at h off target mem = patch_call_rel32_at h off target mem"

definition write_jump_at :: "code_handle \<Rightarrow> nat \<Rightarrow> nat \<Rightarrow> memory \<Rightarrow> memory option" where
  "write_jump_at h off target mem = write_jmp_rel32_at h off target mem"

definition patch_pool_word :: "nat \<Rightarrow> u64 \<Rightarrow> memory \<Rightarrow> memory" where
  "patch_pool_word addr value mem = write_bytes addr (le_bytes32 (ucast value) @ le_bytes32 (ucast (drop_bit 32 value))) mem"

text \<open>What the processor does at a call or jump: the decoded destination.\<close>

definition read_le32 :: "nat \<Rightarrow> memory \<Rightarrow> u32" where
  "read_le32 a mem = ucast (mem a) OR push_bit 8 (ucast (mem (a + 1))) OR push_bit 16 (ucast (mem (a + 2))) OR push_bit 24 (ucast (mem (a + 3)))"

definition branch_dest :: "u8 \<Rightarrow> nat \<Rightarrow> memory \<Rightarrow> int option" where
  "branch_dest opcode site mem = (if mem site = opcode then Some (int site + 5 + sint (read_le32 (site + 1) mem)) else None)"

definition branch26_dest :: "nat \<Rightarrow> memory \<Rightarrow> int option" where
  "branch26_dest site mem =
     (let w = read_le32 site mem
      in if drop_bit 26 w = 5 then Some (int site + 4 * sint (ucast w :: 26 word)) else None)"

subsection \<open>Branches\<close>

lemma write_bytes_outside: "x < a \<or> a + length bs \<le> x \<Longrightarrow> write_bytes a bs mem x = mem x"
  by (induction a bs mem rule: write_bytes.induct) auto

lemma write_bytes_inside: "i < length bs \<Longrightarrow> write_bytes a bs mem (a + i) = bs ! i"
proof (induction bs arbitrary: a mem i)
  case (Cons b bs)
  show ?case
  proof (cases i)
    case 0
    then show ?thesis using write_bytes_outside [of a "a + 1" bs "mem(a := b)"] by simp
  next
    case (Suc j)
    then show ?thesis using Cons.IH [of j "a + 1" "mem(a := b)"] Cons.prems by (simp del: fun_upd_apply)
  qed
qed simp

lemma le_bytes32_length [simp]: "length (le_bytes32 w) = 4"
  by (simp add: le_bytes32_def)

lemma join_bytes32:
  "ucast (ucast w :: u8) OR push_bit 8 (ucast (ucast (drop_bit 8 w) :: u8)) OR push_bit 16 (ucast (ucast (drop_bit 16 w) :: u8)) OR
   push_bit 24 (ucast (ucast (drop_bit 24 w) :: u8)) = (w :: u32)"
proof (rule bit_word_eqI)
  fix n assume "n < LENGTH(32)"
  then consider "n < 8" | "8 \<le> n \<and> n < 16" | "16 \<le> n \<and> n < 24" | "24 \<le> n \<and> n < 32" by fastforce
  then show "bit (ucast (ucast w :: u8) OR push_bit 8 (ucast (ucast (drop_bit 8 w) :: u8)) OR push_bit 16 (ucast (ucast (drop_bit 16 w) :: u8)) OR
   push_bit 24 (ucast (ucast (drop_bit 24 w) :: u8)) :: u32) n = bit w n"
    by cases (auto simp: bit_simps)
qed

lemma read_le32_write: "read_le32 a (write_bytes a (le_bytes32 w) mem) = w"
proof -
  have b: "write_bytes a (le_bytes32 w) mem (a + i) = le_bytes32 w ! i" if "i < 4" for i
    using that by (intro write_bytes_inside) simp
  have "write_bytes a (le_bytes32 w) mem a = ucast w" using b [of 0] by (simp add: le_bytes32_def)
  moreover have "write_bytes a (le_bytes32 w) mem (a + 1) = ucast (drop_bit 8 w)" using b [of 1] by (simp add: le_bytes32_def)
  moreover have "write_bytes a (le_bytes32 w) mem (a + 2) = ucast (drop_bit 16 w)" using b [of 2] by (simp add: le_bytes32_def)
  moreover have "write_bytes a (le_bytes32 w) mem (a + 3) = ucast (drop_bit 24 w)" using b [of 3] by (simp add: le_bytes32_def)
  ultimately show ?thesis unfolding read_le32_def by (simp only: join_bytes32)
qed

lemma sint32_of_int: "- (2 ^ 31) \<le> x \<Longrightarrow> x < 2 ^ 31 \<Longrightarrow> sint (word_of_int x :: u32) = x"
  by (simp add: signed_of_int signed_take_bit_int_eq_self)

lemma disp32_Some: "disp32 target e = Some d \<Longrightarrow> sint d = int target - int e"
  using sint32_of_int [of "int target - int e"] unfolding disp32_def Let_def
  by (simp only: if_splits option.distinct option.inject simp_thms split: if_splits)

lemma write_jmp_rel32_exact:
  "case write_jmp_rel32_at h off target mem of
     Some mem' \<Rightarrow> branch_dest 0xE9 (ch_base h + off) mem' = Some (int target) \<and>
       (\<forall>x. x < ch_base h + off \<or> ch_base h + off + 5 \<le> x \<longrightarrow> mem' x = mem x)
   | None \<Rightarrow> ch_len h < off + 5 \<or> disp32 target (ch_base h + off + 5) = None"
proof (cases "off + 5 \<le> ch_len h \<and> disp32 target (ch_base h + off + 5) \<noteq> None")
  case True
  let ?s = "ch_base h + off"
  from True obtain d where d: "disp32 target (?s + 5) = Some d" by blast
  let ?m = "write_bytes ?s (0xE9 # le_bytes32 d) mem"
  have "?m ?s = 0xE9" using write_bytes_inside [of 0 "0xE9 # le_bytes32 d" ?s mem] by simp
  moreover have "read_le32 (?s + 1) ?m = d"
    using read_le32_write [of "?s + 1" d "mem(?s := 0xE9)"] by (simp del: fun_upd_apply)
  ultimately have "branch_dest 0xE9 ?s ?m = Some (int target)"
    using disp32_Some [OF d] by (simp add: branch_dest_def)
  moreover have "?m x = mem x" if "x < ?s \<or> ?s + 5 \<le> x" for x using that by (intro write_bytes_outside) simp
  moreover have "write_jmp_rel32_at h off target mem = Some ?m" using True d by (simp add: write_jmp_rel32_at_def Let_def)
  ultimately show ?thesis by (simp del: write_bytes.simps)
qed (auto simp: write_jmp_rel32_at_def)

lemma patch_call_rel32_exact:
  "case patch_call_rel32_at h off target mem of
     Some mem' \<Rightarrow> branch_dest 0xE8 (ch_base h + off) mem' = Some (int target) \<and>
       (\<forall>x. x \<le> ch_base h + off \<or> ch_base h + off + 5 \<le> x \<longrightarrow> mem' x = mem x)
   | None \<Rightarrow> ch_len h < off + 5 \<or> mem (ch_base h + off) \<noteq> 0xE8 \<or> disp32 target (ch_base h + off + 5) = None"
proof (cases "off + 5 \<le> ch_len h \<and> mem (ch_base h + off) = 0xE8 \<and> disp32 target (ch_base h + off + 5) \<noteq> None")
  case True
  let ?s = "ch_base h + off"
  from True obtain d where d: "disp32 target (?s + 5) = Some d" by blast
  let ?m = "write_bytes (?s + 1) (le_bytes32 d) mem"
  have out: "?m x = mem x" if "x \<le> ?s \<or> ?s + 5 \<le> x" for x using that by (intro write_bytes_outside) auto
  then have "branch_dest 0xE8 ?s ?m = Some (int target)"
    using True disp32_Some [OF d] read_le32_write [of "?s + 1" d mem] by (simp add: branch_dest_def)
  moreover have "patch_call_rel32_at h off target mem = Some ?m" using True d by (simp add: patch_call_rel32_at_def)
  ultimately show ?thesis using out by simp
qed (auto simp: patch_call_rel32_at_def)

lemma disp32_defined: "disp32 target e \<noteq> None \<longleftrightarrow> - (2 ^ 31) \<le> int target - int e \<and> int target - int e < 2 ^ 31"
  by (simp add: disp32_def Let_def)

lemma write_jmp_rel32_defined:
  "write_jmp_rel32_at h off target mem \<noteq> None \<longleftrightarrow>
     off + 5 \<le> ch_len h \<and> - (2 ^ 31) \<le> int target - int (ch_base h + off + 5) \<and> int target - int (ch_base h + off + 5) < 2 ^ 31"
  unfolding disp32_defined [symmetric] by (auto simp: write_jmp_rel32_at_def Let_def bind_eq_None_conv rust_assert_def)

lemma patch_call_rel32_defined:
  "patch_call_rel32_at h off target mem \<noteq> None \<longleftrightarrow>
     off + 5 \<le> ch_len h \<and> mem (ch_base h + off) = 0xE8 \<and>
     - (2 ^ 31) \<le> int target - int (ch_base h + off + 5) \<and> int target - int (ch_base h + off + 5) < 2 ^ 31"
  unfolding disp32_defined [symmetric] by (auto simp: patch_call_rel32_at_def Let_def bind_eq_None_conv rust_assert_def)

text \<open>
  C27. Branch patching is exact. Stamping a jump succeeds exactly when the five bytes of the instruction lie in the handle and the target is
  less than 2 GB away from the instruction's end; patching a call succeeds exactly when, besides, the site holds a call. A successful write
  touches no byte outside the instruction, so none outside the handle, and the instruction then transfers control to the target; a patched call keeps its opcode.
\<close>
theorem branch_patching_exact:
  "(write_jmp_rel32_at h off target mem \<noteq> None \<longleftrightarrow>
      off + 5 \<le> ch_len h \<and> - (2 ^ 31) \<le> int target - int (ch_base h + off + 5) \<and> int target - int (ch_base h + off + 5) < 2 ^ 31) \<and>
   (\<forall>mem'. write_jmp_rel32_at h off target mem = Some mem' \<longrightarrow>
      branch_dest 0xE9 (ch_base h + off) mem' = Some (int target) \<and>
      (\<forall>x. x < ch_base h + off \<or> ch_base h + off + 5 \<le> x \<longrightarrow> mem' x = mem x) \<and>
      (\<forall>x. x < ch_base h \<or> ch_base h + ch_len h \<le> x \<longrightarrow> mem' x = mem x)) \<and>
   (patch_call_rel32_at h off target mem \<noteq> None \<longleftrightarrow>
      off + 5 \<le> ch_len h \<and> mem (ch_base h + off) = 0xE8 \<and>
      - (2 ^ 31) \<le> int target - int (ch_base h + off + 5) \<and> int target - int (ch_base h + off + 5) < 2 ^ 31) \<and>
   (\<forall>mem'. patch_call_rel32_at h off target mem = Some mem' \<longrightarrow>
      mem' (ch_base h + off) = 0xE8 \<and> branch_dest 0xE8 (ch_base h + off) mem' = Some (int target) \<and>
      (\<forall>x. x \<le> ch_base h + off \<or> ch_base h + off + 5 \<le> x \<longrightarrow> mem' x = mem x) \<and>
      (\<forall>x. x < ch_base h \<or> ch_base h + ch_len h \<le> x \<longrightarrow> mem' x = mem x))"
proof (intro conjI allI impI)
  note d = write_jmp_rel32_defined [where h = h and off = off and target = target and mem = mem]
    patch_call_rel32_defined [where h = h and off = off and target = target and mem = mem]
  note x = write_jmp_rel32_exact [where h = h and off = off and target = target and mem = mem]
    patch_call_rel32_exact [where h = h and off = off and target = target and mem = mem]
  show "write_jmp_rel32_at h off target mem \<noteq> None \<longleftrightarrow>
      off + 5 \<le> ch_len h \<and> - (2 ^ 31) \<le> int target - int (ch_base h + off + 5) \<and> int target - int (ch_base h + off + 5) < 2 ^ 31"
    by (rule d(1))
  show "patch_call_rel32_at h off target mem \<noteq> None \<longleftrightarrow>
      off + 5 \<le> ch_len h \<and> mem (ch_base h + off) = 0xE8 \<and>
      - (2 ^ 31) \<le> int target - int (ch_base h + off + 5) \<and> int target - int (ch_base h + off + 5) < 2 ^ 31"
    by (rule d(2))
  fix mem' assume w: "write_jmp_rel32_at h off target mem = Some mem'"
  then have "off + 5 \<le> ch_len h" using d(1) by simp
  then show "branch_dest 0xE9 (ch_base h + off) mem' = Some (int target)"
    "\<And>a. a < ch_base h + off \<or> ch_base h + off + 5 \<le> a \<Longrightarrow> mem' a = mem a"
    "\<And>a. a < ch_base h \<or> ch_base h + ch_len h \<le> a \<Longrightarrow> mem' a = mem a"
    using x(1) w by auto
next
  note d = patch_call_rel32_defined [where h = h and off = off and target = target and mem = mem]
  note x = patch_call_rel32_exact [where h = h and off = off and target = target and mem = mem]
  fix mem' assume w: "patch_call_rel32_at h off target mem = Some mem'"
  then have "off + 5 \<le> ch_len h" "mem (ch_base h + off) = 0xE8" using d by simp_all
  then show "mem' (ch_base h + off) = 0xE8" "branch_dest 0xE8 (ch_base h + off) mem' = Some (int target)"
    "\<And>a. a \<le> ch_base h + off \<or> ch_base h + off + 5 \<le> a \<Longrightarrow> mem' a = mem a"
    "\<And>a. a < ch_base h \<or> ch_base h + ch_len h \<le> a \<Longrightarrow> mem' a = mem a"
    using x w by auto
qed

theorem branch_patching_exact_witness:
  "(\<exists>mem'. write_jmp_rel32_at \<lparr>ch_base = 4096, ch_len = 16\<rparr> 3 8192 (\<lambda>_. 0x90) = Some mem' \<and>
     branch_dest 0xE9 4099 mem' = Some 8192 \<and> mem' 4098 = 0x90 \<and> mem' 4104 = 0x90) \<and>
   write_jmp_rel32_at \<lparr>ch_base = 4096, ch_len = 16\<rparr> 12 8192 (\<lambda>_. 0x90) = None"
  using branch_patching_exact [where h = "\<lparr>ch_base = 4096, ch_len = 16\<rparr>" and off = 3 and target = 8192 and mem = "\<lambda>_. 0x90"]
    branch_patching_exact [where h = "\<lparr>ch_base = 4096, ch_len = 16\<rparr>" and off = 12 and target = 8192 and mem = "\<lambda>_. 0x90"]
  by auto


subsection \<open>The allocator's invariant\<close>

text \<open>
  With \<open>live\<close> the offsets and lengths of the handles handed out: live blocks and holes are nonempty,
  16-byte aligned and disjoint, together they cover everything below \<open>top\<close>, no two holes touch and
  no hole touches \<open>top\<close>.
\<close>

type_synonym block = "nat \<times> nat"

fun apart :: "block \<Rightarrow> block \<Rightarrow> bool" where
  "apart (o1, l1) (o2, l2) \<longleftrightarrow> o1 + l1 \<le> o2 \<or> o2 + l2 \<le> o1"

fun before :: "block \<Rightarrow> block \<Rightarrow> bool" where
  "before (o1, l1) (o2, l2) \<longleftrightarrow> o1 + l1 < o2"

fun block_ok :: "nat \<Rightarrow> block \<Rightarrow> bool" where
  "block_ok top1 (o1, l1) \<longleftrightarrow> 0 < l1 \<and> 16 dvd o1 \<and> 16 dvd l1 \<and> o1 + l1 \<le> top1"

definition covered :: "block list \<Rightarrow> nat \<Rightarrow> bool" where
  "covered bs x \<longleftrightarrow> (\<exists>(o1, l1) \<in> set bs. o1 \<le> x \<and> x < o1 + l1)"

definition cc_inv :: "code_cache \<Rightarrow> block list \<Rightarrow> bool" where
  "cc_inv c live \<longleftrightarrow>
     (\<forall>b \<in> set live \<union> set (cc_free c). block_ok (cc_top c) b) \<and>
     sorted_wrt apart live \<and> sorted_wrt before (cc_free c) \<and>
     (\<forall>a \<in> set live. \<forall>b \<in> set (cc_free c). apart a b) \<and>
     (\<forall>x < cc_top c. covered (live @ cc_free c) x) \<and>
     (\<forall>(o1, l1) \<in> set (cc_free c). o1 + l1 \<noteq> cc_top c) \<and>
     16 dvd cc_top c \<and> cc_top c \<le> cc_cap c"

definition block_of :: "code_cache \<Rightarrow> code_handle \<Rightarrow> block" where
  "block_of c h = (ch_base h - cc_base c, ch_len h)"

lemma covered_simps [simp]:
  "\<not> covered [] x" "covered ((o1, l1) # bs) x \<longleftrightarrow> (o1 \<le> x \<and> x < o1 + l1) \<or> covered bs x"
  "covered (as @ bs) x \<longleftrightarrow> covered as x \<or> covered bs x"
  by (auto simp: covered_def)

lemma covered_remove1: "b \<in> set live \<Longrightarrow> covered live x \<longleftrightarrow> covered [b] x \<or> covered (remove1 b live) x"
  by (induction live) auto

lemma sorted_wrt_remove1: "sorted_wrt P xs \<Longrightarrow> sorted_wrt P (remove1 x xs)"
  by (induction xs) (auto dest: notin_set_remove1 set_remove1_subset [THEN subsetD])

lemma apart_sym: "apart a b \<longleftrightarrow> apart b a"
  by (cases a; cases b) auto

lemma apartI:
  assumes "\<And>x. o2 \<le> x \<and> x < o2 + l2 \<Longrightarrow> \<not> (o1 \<le> x \<and> x < o1 + l1)" "0 < l1" "0 < l2"
  shows "apart (o1, l1) (o2, l2)"
  using assms(1) [of o1] assms(1) [of o2] assms(2,3) by fastforce

lemma apart_remove1:
  assumes "sorted_wrt apart live" "b \<in> set live"
  shows "\<forall>a \<in> set (remove1 b live). apart a b"
  using assms
proof (induction live)
  case (Cons c live)
  show ?case
  proof (cases "c = b")
    case True
    then show ?thesis using Cons.prems(1) apart_sym by (auto simp: apart_sym)
  next
    case False
    then show ?thesis using Cons by auto
  qed
qed simp

lemma filter_bounds:
  fixes k :: nat
  shows "\<forall>(o1, l1) \<in> set xs. o1 < k \<Longrightarrow> filter (\<lambda>(o1, _). o1 < k) xs = xs \<and> filter (\<lambda>(o1, _). k < o1) xs = [] \<and>
      filter (\<lambda>(o1, _). o1 \<noteq> k) xs = xs"
    "\<forall>(o1, l1) \<in> set xs. k < o1 \<Longrightarrow> filter (\<lambda>(o1, _). o1 < k) xs = [] \<and> filter (\<lambda>(o1, _). k < o1) xs = xs \<and>
      filter (\<lambda>(o1, _). o1 \<noteq> k) xs = xs"
  by (induction xs) auto

lemma bt_mid:
  assumes "\<forall>(o1, l1) \<in> set as. o1 < k" "\<forall>(o1, l1) \<in> set bs. k < o1"
  shows "bt_remove k (as @ (k, v) # bs) = as @ bs" "bt_insert k v (as @ bs) = as @ (k, v) # bs"
  using filter_bounds(1) [OF assms(1)] filter_bounds(2) [OF assms(2)] by (simp_all add: bt_remove_def bt_insert_def)

lemma before_bounds:
  assumes "sorted_wrt before (as @ (k, v) # bs)"
  shows "\<forall>(o1, l1) \<in> set as. o1 + l1 < k" "\<forall>(o1, l1) \<in> set bs. k + v < o1"
  using assms by (auto simp: sorted_wrt_append)

lemma round_up16_bounds: "n \<le> round_up16 n" "round_up16 n < n + 16" "16 dvd round_up16 n"
  by (simp_all add: round_up16_def minus_mod_eq_div_mult [symmetric])

lemma cc_invD:
  assumes "cc_inv c live"
  shows "\<And>b. b \<in> set live \<Longrightarrow> block_ok (cc_top c) b" "\<And>b. b \<in> set (cc_free c) \<Longrightarrow> block_ok (cc_top c) b"
    "sorted_wrt apart live" "sorted_wrt before (cc_free c)"
    "\<And>a b. a \<in> set live \<Longrightarrow> b \<in> set (cc_free c) \<Longrightarrow> apart a b"
    "\<And>x. x < cc_top c \<Longrightarrow> covered (live @ cc_free c) x"
    "\<And>o1 l1. (o1, l1) \<in> set (cc_free c) \<Longrightarrow> o1 + l1 \<noteq> cc_top c"
    "16 dvd cc_top c" "cc_top c \<le> cc_cap c"
  using assms unfolding cc_inv_def by blast+

lemma find_in: "find P xs = Some x \<Longrightarrow> x \<in> set xs \<and> P x"
  by (induction xs) (auto split: if_splits)

lemma cc_alloc_inv:
  assumes inv: "cc_inv c live" and len: "0 < len" and al: "cc_alloc len c = Some (h, c')"
  shows "cc_inv c' (block_of c h # live) \<and> len \<le> ch_len h \<and> ch_len h < len + 48 \<and> cc_base c \<le> ch_base h \<and>
    ch_base h + ch_len h \<le> cc_base c + cc_cap c \<and> cc_base c' = cc_base c \<and> cc_cap c' = cc_cap c"
proof -
  note i = cc_invD [OF inv]
  define n where "n = round_up16 len"
  have n: "len \<le> n" "n < len + 16" "16 dvd n" "0 < n" using round_up16_bounds [of len] len by (auto simp: n_def)
  show ?thesis
  proof (cases "find (\<lambda>(_, hole_len). n \<le> hole_len) (cc_free c)")
    case None
    then have c': "c' = c\<lparr>cc_top := cc_top c + n\<rparr>" "h = \<lparr>ch_base = cc_base c + cc_top c, ch_len = n\<rparr>" "cc_top c + n \<le> cc_cap c"
      using al by (auto simp: cc_alloc_def Let_def n_def split: if_splits)
    have ok: "block_ok (cc_top c + n) b" if "block_ok (cc_top c) b" for b using that by (cases b) auto
    have "apart (cc_top c, n) b" if "block_ok (cc_top c) b" for b using that by (cases b) auto
    moreover have "o1 + l1 \<noteq> cc_top c + n" if "(o1, l1) \<in> set (cc_free c)" for o1 l1 using i(2) [OF that] n by simp
    moreover have "covered ((cc_top c, n) # live @ cc_free c) x" if "x < cc_top c + n" for x
      using i(6) that by (cases "x < cc_top c") auto
    moreover have "block_ok (cc_top c + n) (cc_top c, n)" using i(8) n by simp
    ultimately have "cc_inv c' ((cc_top c, n) # live)"
      unfolding cc_inv_def c' using i(1-5,8) n(3) ok c'(3) by (auto simp del: block_ok.simps apart.simps simp: dvd_add)
    with c' n show ?thesis by (simp add: block_of_def)
  next
    case (Some hole)
    obtain off hl where hole: "hole = (off, hl)" by fastforce
    with Some have mem: "(off, hl) \<in> set (cc_free c)" "n \<le> hl" using find_in [OF Some] by auto
    obtain as bs where f: "cc_free c = as @ (off, hl) # bs" using split_list [OF mem(1)] by blast
    have srt: "sorted_wrt before (as @ (off, hl) # bs)" using i(4) f by simp
    note bnd = before_bounds [OF srt]
    have ok: "block_ok (cc_top c) (off, hl)" "off + hl \<noteq> cc_top c" using i(2,7) [OF mem(1)] by auto
    have rm: "bt_remove off (cc_free c) = as @ bs" unfolding f using bnd ok by (intro bt_mid) auto
    have srt': "sorted_wrt before (as @ bs)" using srt by (auto simp: sorted_wrt_append)
    have cov: "covered (live @ as @ (off, hl) # bs) x" if "x < cc_top c" for x using i(6) [OF that] f by simp
    have ap: "apart (off, m) b" if "m \<le> hl" "apart (off, hl) b" for m b using that by (cases b) auto
    have apl: "apart (off, hl) a" if "a \<in> set live" for a using i(5) [OF that mem(1)] apart_sym by blast
    have rest: "\<forall>b \<in> set as. block_ok (cc_top c) b" "\<forall>b \<in> set bs. block_ok (cc_top c) b" "\<forall>b \<in> set live. block_ok (cc_top c) b"
      "\<forall>a \<in> set live. \<forall>b \<in> set as. apart a b" "\<forall>a \<in> set live. \<forall>b \<in> set bs. apart a b"
      "\<forall>(o1, l1) \<in> set as. o1 + l1 \<noteq> cc_top c" "\<forall>(o1, l1) \<in> set bs. o1 + l1 \<noteq> cc_top c"
      using i(1,2,5,7) unfolding f by (simp_all del: block_ok.simps apart.simps) fastforce+
    note keep = rest i(3,8,9)
    show ?thesis
    proof (cases "32 \<le> hl - n")
      case True
      have ins: "bt_insert (off + n) (hl - n) (as @ bs) = as @ (off + n, hl - n) # bs"
        using bnd n True by (intro bt_mid) (fastforce, fastforce)
      have c': "c' = c\<lparr>cc_free := as @ (off + n, hl - n) # bs\<rparr>" "h = \<lparr>ch_base = cc_base c + off, ch_len = n\<rparr>"
        using al Some hole rm ins True by (auto simp: cc_alloc_def Let_def n_def)
      have "sorted_wrt before (as @ (off + n, hl - n) # bs)" using srt True n by (fastforce simp: sorted_wrt_append)
      moreover have "block_ok (cc_top c) (off + n, hl - n)" using ok n True by (auto simp: dvd_diff_nat)
      moreover have "block_ok (cc_top c) (off, n)" using ok n True by auto
      moreover have "apart a (off + n, hl - n)" if "a \<in> set live" for a using apl [OF that] True by (cases a) auto
      moreover have "apart (off, n) b" if "b \<in> set as \<union> set bs" for b
        using that bnd mem(2) by (cases b) fastforce
      moreover have "covered ((off, n) # live @ as @ (off + n, hl - n) # bs) x" if "x < cc_top c" for x
        using cov [OF that] True by auto
      moreover have "apart (off, n) (off + n, hl - n)" by simp
      ultimately have "cc_inv c' ((off, n) # live)"
        unfolding cc_inv_def c' using keep apl ap [of n] mem(2) ok(2) True
        by (auto simp del: block_ok.simps apart.simps before.simps)
      with c' n ok(1) i(9) True show ?thesis by (auto simp: block_of_def)
    next
      case False
      have c': "c' = c\<lparr>cc_free := as @ bs\<rparr>" "h = \<lparr>ch_base = cc_base c + off, ch_len = hl\<rparr>"
        using al Some hole rm False by (auto simp: cc_alloc_def Let_def n_def)
      have "apart (off, hl) b" if "b \<in> set as \<union> set bs" for b using that bnd by (cases b) fastforce
      moreover have "covered ((off, hl) # live @ as @ bs) x" if "x < cc_top c" for x using cov [OF that] by auto
      ultimately have "cc_inv c' ((off, hl) # live)"
        unfolding cc_inv_def c' using keep apl ok(1) srt' by (auto simp del: block_ok.simps apart.simps before.simps)
      with c' n ok(1) i(9) False mem(2) show ?thesis by (simp add: block_of_def)
    qed
  qed
qed

text \<open>Freeing: absorbing the hole that ends at the block, then the one that starts where the result ends.\<close>

lemma split_at:
  assumes srt: "sorted_wrt before f" and ap: "\<forall>b \<in> set f. apart (s, n) b \<and> 0 < snd b" and n: "0 < n"
  obtains as bs where "f = as @ bs" "\<forall>(o1, l1) \<in> set as. o1 + l1 \<le> s" "\<forall>(o1, l1) \<in> set bs. s + n \<le> o1"
proof -
  have "\<exists>as bs. f = as @ bs \<and> (\<forall>(o1, l1) \<in> set as. o1 + l1 \<le> s) \<and> (\<forall>(o1, l1) \<in> set bs. s + n \<le> o1)"
    using srt ap
  proof (induction f)
    case (Cons b f)
    obtain o1 l1 where b: "b = (o1, l1)" by fastforce
    show ?case
    proof (cases "o1 + l1 \<le> s")
      case True
      then obtain as bs where "f = as @ bs" "\<forall>(o1, l1) \<in> set as. o1 + l1 \<le> s" "\<forall>(o1, l1) \<in> set bs. s + n \<le> o1"
        using Cons by auto
      then show ?thesis using True b by (intro exI [of _ "b # as"] exI [of _ bs]) simp
    next
      case False
      then have "s + n \<le> o1" using Cons.prems(2) b by auto
      moreover have "o1 + l1 < o2" if "(o2, l2) \<in> set f" for o2 l2 using Cons.prems(1) that b by auto
      ultimately show ?thesis using b by (intro exI [of _ "[]"] exI [of _ "b # f"]) fastforce
    qed
  qed simp
  then show thesis using that by blast
qed

lemma absorb_prev:
  assumes as: "\<forall>(o1, l1) \<in> set as. o1 + l1 \<le> s \<and> 0 < l1" and bs: "\<forall>(o1, l1) \<in> set bs. s < o1"
    and srt: "sorted_wrt before as"
  obtains start len1 as1 as2 where
    "(case bt_prev s (as @ bs) of
        Some (po, pl) \<Rightarrow> if po + pl = s then (po, n + pl, bt_remove po (as @ bs)) else (s, n, as @ bs)
      | None \<Rightarrow> (s, n, as @ bs)) = (start, len1, as1 @ bs)"
    "as = as1 @ as2" "\<forall>(o1, l1) \<in> set as1. o1 + l1 < start" "start + len1 = s + n" "start \<le> s"
    "\<forall>x. start \<le> x \<and> x < start + len1 \<longleftrightarrow> covered as2 x \<or> (s \<le> x \<and> x < s + n)"
    "as2 = [] \<and> start = s \<or> (\<exists>pl. as2 = [(start, pl)])"
proof -
  have flt: "filter (\<lambda>(o1, _). o1 < s) (as @ bs) = as"
  proof -
    have "filter (\<lambda>(o1, _). o1 < s) as = as" using as by (auto intro!: filter_True)
    moreover have "filter (\<lambda>(o1, _). o1 < s) bs = []" using bs by (auto simp: filter_empty_conv)
    ultimately show ?thesis by simp
  qed
  show thesis
  proof (cases "as = []")
    case True
    then show thesis using flt by (intro that [of s n "[]" "[]"]) (simp_all add: bt_prev_def)
  next
    case False
    obtain as1 po pl where asx: "as = as1 @ [(po, pl)]" using False by (metis rev_exhaust surj_pair)
    have prev: "bt_prev s (as @ bs) = Some (po, pl)" using flt asx by (simp add: bt_prev_def)
    have lt: "\<forall>(o1, l1) \<in> set as1. o1 + l1 < po" using srt asx by (auto simp: sorted_wrt_append)
    have po: "0 < pl" "po + pl \<le> s" using as asx by auto
    show thesis
    proof (cases "po + pl = s")
      case True
      have "bt_remove po (as1 @ (po, pl) # bs) = as1 @ bs"
        using lt bs po by (intro bt_mid) fastforce+
      with True prev asx lt show thesis by (intro that [of po "n + pl" as1 "[(po, pl)]"]) auto
    next
      case False
      have "\<forall>(o1, l1) \<in> set as. o1 + l1 < s" using lt po False asx by fastforce
      with False prev show thesis by (intro that [of s n as "[]"]) auto
    qed
  qed
qed

lemma absorb_next:
  assumes as: "\<forall>(o1, l1) \<in> set as. o1 < e" and bs: "\<forall>(o1, l1) \<in> set bs. e \<le> o1 \<and> 0 < l1" and srt: "sorted_wrt before bs"
  obtains len2 bs1 bs2 where
    "(case bt_next e (as @ bs) of
        Some (no, nl) \<Rightarrow> if no = e then (len1 + nl, bt_remove no (as @ bs)) else (len1, as @ bs)
      | None \<Rightarrow> (len1, as @ bs)) = (len2, as @ bs1)"
    "bs = bs2 @ bs1" "\<forall>(o1, l1) \<in> set bs1. e + (len2 - len1) < o1" "len1 \<le> len2"
    "\<forall>x. e \<le> x \<and> x < e + (len2 - len1) \<longleftrightarrow> covered bs2 x" "bs2 = [] \<and> len2 = len1 \<or> bs2 = [(e, len2 - len1)]"
proof -
  have as0: "find (\<lambda>(o1, _). e \<le> o1) as = None" using as by (auto simp: find_None_iff)
  have fd: "bt_next e (as @ bs) = find (\<lambda>(o1, _). e \<le> o1) bs"
    unfolding bt_next_def using as0 by (induction as) (auto split: if_splits)
  show thesis
  proof (cases bs)
    case Nil
    then show thesis using fd by (intro that [of len1 "[]" "[]"]) auto
  next
    case (Cons b bs')
    obtain no nl where b: "b = (no, nl)" by fastforce
    have "e \<le> no" "0 < nl" using bs Cons b by auto
    then have nx: "bt_next e (as @ bs) = Some (no, nl)" using fd Cons b by simp
    have gt: "\<forall>(o1, l1) \<in> set bs'. no + nl < o1" using srt Cons b by auto
    show thesis
    proof (cases "no = e")
      case True
      have "bt_remove no (as @ (no, nl) # bs') = as @ bs'"
        using as gt True by (intro bt_mid) fastforce+
      with True nx Cons b gt show thesis by (intro that [of "len1 + nl" bs' "[(no, nl)]"]) auto
    next
      case False
      have "\<forall>(o1, l1) \<in> set bs. e < o1" using gt False \<open>e \<le> no\<close> Cons b by fastforce
      with False nx show thesis by (intro that [of len1 bs "[]"]) auto
    qed
  qed
qed

lemma cc_free_inv:
  assumes inv: "cc_inv c live" and h: "block_of c h \<in> set live" "cc_base c \<le> ch_base h"
  shows "\<exists>c'. cc_free_handle h c = Some c' \<and> cc_inv c' (remove1 (block_of c h) live) \<and>
    cc_base c' = cc_base c \<and> cc_cap c' = cc_cap c \<and> cc_top c' \<le> cc_top c"
proof -
  note i = cc_invD [OF inv]
  define s n where "s = ch_base h - cc_base c" and "n = ch_len h"
  have sn: "(s, n) \<in> set live" and bl: "block_of c h = (s, n)" using h by (simp_all add: block_of_def s_def n_def)
  have ok: "block_ok (cc_top c) (s, n)" using i(1) [OF sn] .
  have "\<forall>b \<in> set (cc_free c). apart (s, n) b \<and> 0 < snd b" using i(5) [OF sn] i(2) by (fastforce simp del: apart.simps)
  from split_at [OF i(4) this] ok obtain as bs where f: "cc_free c = as @ bs"
    "\<forall>(o1, l1) \<in> set as. o1 + l1 \<le> s" "\<forall>(o1, l1) \<in> set bs. s + n \<le> o1" by auto
  have pos: "\<forall>(o1, l1) \<in> set as. 0 < l1" "\<forall>(o1, l1) \<in> set bs. 0 < l1" using i(2) f(1) by fastforce+
  have srt: "sorted_wrt before as" "sorted_wrt before bs" "\<forall>a \<in> set as. \<forall>b \<in> set bs. before a b"
    using i(4) f(1) by (simp_all add: sorted_wrt_append)
  have "\<forall>(o1, l1) \<in> set as. o1 + l1 \<le> s \<and> 0 < l1" "\<forall>(o1, l1) \<in> set bs. s < o1" using f pos ok by fastforce+
  from absorb_prev [OF this srt(1), of n] obtain start len1 as1 as2 where
    p: "(case bt_prev s (as @ bs) of
        Some (po, pl) \<Rightarrow> if po + pl = s then (po, n + pl, bt_remove po (as @ bs)) else (s, n, as @ bs)
      | None \<Rightarrow> (s, n, as @ bs)) = (start, len1, as1 @ bs)"
    "as = as1 @ as2" "\<forall>(o1, l1) \<in> set as1. o1 + l1 < start" "start + len1 = s + n" "start \<le> s"
    "\<forall>x. start \<le> x \<and> x < start + len1 \<longleftrightarrow> covered as2 x \<or> (s \<le> x \<and> x < s + n)"
    "as2 = [] \<and> start = s \<or> (\<exists>pl. as2 = [(start, pl)])" by blast
  have "\<forall>(o1, l1) \<in> set as1. o1 < start + len1" "\<forall>(o1, l1) \<in> set bs. start + len1 \<le> o1 \<and> 0 < l1"
    using p(3,4) f(3) pos by fastforce+
  from absorb_next [OF this srt(2), of len1] obtain len2 bs1 bs2 where
    q: "(case bt_next (start + len1) (as1 @ bs) of
        Some (no, nl) \<Rightarrow> if no = start + len1 then (len1 + nl, bt_remove no (as1 @ bs)) else (len1, as1 @ bs)
      | None \<Rightarrow> (len1, as1 @ bs)) = (len2, as1 @ bs1)"
    "bs = bs2 @ bs1" "\<forall>(o1, l1) \<in> set bs1. start + len1 + (len2 - len1) < o1" "len1 \<le> len2"
    "\<forall>x. start + len1 \<le> x \<and> x < start + len1 + (len2 - len1) \<longleftrightarrow> covered bs2 x"
    "bs2 = [] \<and> len2 = len1 \<or> bs2 = [(start + len1, len2 - len1)]" by blast
  let ?c = "if start + len2 = cc_top c then c\<lparr>cc_top := start, cc_free := as1 @ bs1\<rparr>
     else c\<lparr>cc_free := bt_insert start len2 (as1 @ bs1)\<rparr>"
  have res: "cc_free_handle h c = Some ?c"
    using h(2) p(1) q(1) f(1) by (simp add: cc_free_handle_def s_def [symmetric] n_def [symmetric])
  have bs1: "\<forall>(o1, l1) \<in> set bs1. start + len2 < o1" using q(3,4) by simp
  have okall: "\<forall>b \<in> set as \<union> set bs. block_ok (cc_top c) b" using i(2) f(1) by simp
  have al: "16 dvd start" "16 dvd len2" "start + len2 \<le> cc_top c" "0 < len2" "s \<le> start + len2"
  proof -
    show st: "16 dvd start" using p(7) ok okall p(2) by auto
    have "16 dvd start + len1" using p(4) ok by simp
    then have l1: "16 dvd len1" using st by (simp add: dvd_add_right_iff)
    have "16 dvd len2 - len1" "start + len2 \<le> cc_top c"
      using q(6) okall q(2,4) p(4) ok by auto
    then show "16 dvd len2" "start + len2 \<le> cc_top c" using l1 q(4) by (auto dest: dvd_diffD)
    show "0 < len2" "s \<le> start + len2" using p(4,5) q(4) ok by auto
  qed
  have cover: "start \<le> x \<and> x < start + len2 \<longleftrightarrow> covered as2 x \<or> (s \<le> x \<and> x < s + n) \<or> covered bs2 x" for x
  proof -
    have "start \<le> x \<and> x < start + len2 \<longleftrightarrow> (start \<le> x \<and> x < start + len1) \<or> (start + len1 \<le> x \<and> x < start + len1 + (len2 - len1))"
      using q(4) by auto
    then show ?thesis using p(6) q(5) by blast
  qed
  let ?live = "remove1 (s, n) live"
  have live: "\<forall>b \<in> set ?live. block_ok (cc_top c) b" "sorted_wrt apart ?live" "\<forall>a \<in> set ?live. apart a (s, n)"
    "\<forall>a \<in> set ?live. \<forall>b \<in> set as \<union> set bs. apart a b"
  proof -
    have sub: "set ?live \<subseteq> set live" by (rule set_remove1_subset)
    show "\<forall>b \<in> set ?live. block_ok (cc_top c) b" using sub i(1) by blast
    show "\<forall>a \<in> set ?live. \<forall>b \<in> set as \<union> set bs. apart a b" using sub i(5) f(1) by (metis set_append subsetD)
  qed (rule sorted_wrt_remove1 [OF i(3)], rule apart_remove1 [OF i(3) sn])
  have new: "apart a (start, len2)" if a: "a \<in> set ?live" for a
  proof -
    obtain o1 l1 where ol: "a = (o1, l1)" by fastforce
    have "\<not> (o1 \<le> x \<and> x < o1 + l1)" if "start \<le> x \<and> x < start + len2" for x
    proof -
      have "covered (as2 @ (s, n) # bs2) x" using that cover by simp
      then obtain o2 l2 where "(o2, l2) \<in> set as \<union> set bs \<union> {(s, n)}" "o2 \<le> x" "x < o2 + l2"
        using p(2) q(2) by (auto simp: covered_def)
      moreover have "apart a (o2, l2)" using live(3,4) a calculation(1) by blast
      ultimately show ?thesis using ol by auto
    qed
    moreover have "0 < l1" using live(1) a ol by auto
    ultimately show ?thesis using al(4) unfolding ol by (rule apartI)
  qed
  have low: "\<forall>b \<in> set as1 \<union> set bs1. block_ok (cc_top c) b" "\<forall>(o1, l1) \<in> set as1 \<union> set bs1. o1 + l1 \<noteq> cc_top c"
    "\<forall>a \<in> set ?live. \<forall>b \<in> set as1 \<union> set bs1. apart a b"
    using okall i(7) f(1) p(2) q(2) live(4) by (auto simp del: block_ok.simps apart.simps)
  have srt1: "sorted_wrt before (as1 @ bs1)" using i(4) f(1) p(2) q(2) by (auto simp: sorted_wrt_append)
  have cov: "covered ?live x \<or> covered as1 x \<or> covered bs1 x \<or> (start \<le> x \<and> x < start + len2)" if "x < cc_top c" for x
    using i(6) [OF that] covered_remove1 [OF sn, of x] cover [of x] f(1) p(2) q(2) by auto
  show ?thesis
  proof (cases "start + len2 = cc_top c")
    case True
    have nil: "bs1 = []" using bs1 low(1) True by (cases bs1) fastforce+
    have "block_ok start b" if "b \<in> set as1" for b
    proof -
      have "block_ok (cc_top c) b" "case b of (o1, l1) \<Rightarrow> o1 + l1 < start" using low(1) p(3) that by auto
      then show ?thesis by (cases b) auto
    qed
    moreover have "block_ok start b" if "b \<in> set ?live" for b
    proof -
      have "block_ok (cc_top c) b" using live(1) that by blast
      then show ?thesis using new [OF that] True al(4) by (cases b) auto
    qed
    moreover have "covered ?live x \<or> covered as1 x" if "x < start" for x using cov [of x] that True nil by auto
    moreover have "o1 + l1 \<noteq> start" if "(o1, l1) \<in> set as1" for o1 l1 using p(3) that by auto
    ultimately have "cc_inv (c\<lparr>cc_top := start, cc_free := as1 @ bs1\<rparr>) ?live"
      using nil live(2) low(3) srt1 al(1,3) i(9) unfolding cc_inv_def
      by (auto simp del: block_ok.simps apart.simps before.simps)
    then show ?thesis using res True bl al(3) by auto
  next
    case False
    have ins: "bt_insert start len2 (as1 @ bs1) = as1 @ (start, len2) # bs1"
      using p(3) bs1 by (intro bt_mid) fastforce+
    have "sorted_wrt before (as1 @ (start, len2) # bs1)" using srt1 p(3) bs1 by (fastforce simp: sorted_wrt_append)
    moreover have "block_ok (cc_top c) (start, len2)" using al by simp
    moreover have "\<forall>x < cc_top c. covered (?live @ as1 @ (start, len2) # bs1) x" using cov by auto
    ultimately have "cc_inv (c\<lparr>cc_free := as1 @ (start, len2) # bs1\<rparr>) ?live"
      using live(1,2) low new False i(8,9) unfolding cc_inv_def
      by (auto simp del: block_ok.simps apart.simps before.simps covered_simps)
    then show ?thesis using res False bl ins by auto
  qed
qed

text \<open>The states of a cache with the handles handed out and not yet freed.\<close>

inductive cc_reach :: "code_cache \<Rightarrow> code_handle list \<Rightarrow> bool" where
  cc_start: "cc_reach (new_code_cache base cap) []"
| cc_take: "cc_reach c hs \<Longrightarrow> 0 < len \<Longrightarrow> cc_alloc len c = Some (h, c') \<Longrightarrow> cc_reach c' (h # hs)"
| cc_give: "cc_reach c hs \<Longrightarrow> h \<in> set hs \<Longrightarrow> cc_free_handle h c = Some c' \<Longrightarrow> cc_reach c' (remove1 h hs)"

definition handle_in :: "code_cache \<Rightarrow> code_handle \<Rightarrow> bool" where
  "handle_in c h \<longleftrightarrow> cc_base c \<le> ch_base h"

lemma map_block_remove1:
  assumes "h \<in> set hs" "\<forall>x \<in> set hs. handle_in c x"
  shows "map (block_of c) (remove1 h hs) = remove1 (block_of c h) (map (block_of c) hs)"
  using assms
proof (induction hs)
  case (Cons x hs)
  have "block_of c x = block_of c h \<longleftrightarrow> x = h"
    using Cons.prems by (cases x; cases h) (auto simp: block_of_def handle_in_def)
  then show ?case using Cons by auto
qed simp

lemma cc_reach_inv: "cc_reach c hs \<Longrightarrow> cc_inv c (map (block_of c) hs) \<and> (\<forall>h \<in> set hs. handle_in c h)"
proof (induction rule: cc_reach.induct)
  case (cc_start base cap)
  then show ?case by (simp add: cc_inv_def new_code_cache_def)
next
  case (cc_take c hs len h c')
  have c': "cc_inv c' (block_of c h # map (block_of c) hs)" "cc_base c \<le> ch_base h" "cc_base c' = cc_base c"
    using cc_alloc_inv [of c _ len h c'] cc_take by auto
  have "block_of c' = block_of c" using c'(3) by (simp add: fun_eq_iff block_of_def)
  with c' cc_take.IH show ?case by (simp add: handle_in_def)
next
  case (cc_give c hs h c')
  have "block_of c h \<in> set (map (block_of c) hs)" "cc_base c \<le> ch_base h"
    using cc_give by (auto simp: handle_in_def)
  from cc_free_inv [OF _ this] cc_give
  have c': "cc_inv c' (remove1 (block_of c h) (map (block_of c) hs))" "cc_base c' = cc_base c" by auto
  have "block_of c' = block_of c" using c'(2) by (simp add: fun_eq_iff block_of_def)
  with c' cc_give map_block_remove1 [of h hs c] show ?case by (auto simp: handle_in_def dest: notin_set_remove1)
qed

lemma disjoint_handles:
  assumes "cc_reach c hs"
  shows "sorted_wrt (\<lambda>h k. ch_base h + ch_len h \<le> ch_base k \<or> ch_base k + ch_len k \<le> ch_base h) hs"
proof -
  have "cc_inv c (map (block_of c) hs)" and hin: "\<forall>h \<in> set hs. handle_in c h" using cc_reach_inv [OF assms] by auto
  then have "sorted_wrt (\<lambda>h k. apart (block_of c h) (block_of c k)) hs" by (simp add: cc_inv_def sorted_wrt_map)
  then show ?thesis
    by (rule sorted_wrt_mono_rel [rotated]) (use hin in \<open>auto simp: block_of_def handle_in_def\<close>)
qed

text \<open>
  C14. The code cache never hands out overlapping code and never loses space. In every state reached by
  allocating and freeing, the live handles are disjoint, 16-byte aligned and inside the region, and every
  byte below \<open>top\<close> belongs to a live handle or a hole; holes never touch each other or \<open>top\<close>. An allocation of a nonzero
  size returns at least that much and less than 48 bytes more, disjoint from every live handle, or fails only when no hole is
  large enough and the region's end is reached; freeing a live handle always succeeds.
\<close>
theorem code_cache_sound:
  assumes "cc_reach c hs"
  shows "sorted_wrt (\<lambda>h k. ch_base h + ch_len h \<le> ch_base k \<or> ch_base k + ch_len k \<le> ch_base h) hs \<and>
    (\<forall>h \<in> set hs. cc_base c \<le> ch_base h \<and> ch_base h + ch_len h \<le> cc_base c + cc_cap c \<and> 16 dvd (ch_base h - cc_base c)) \<and>
    (\<forall>x < cc_top c. (\<exists>h \<in> set hs. ch_base h \<le> cc_base c + x \<and> cc_base c + x < ch_base h + ch_len h) \<or> covered (cc_free c) x) \<and>
    sorted_wrt before (cc_free c) \<and>
    (\<forall>len. 0 < len \<longrightarrow> (case cc_alloc len c of
       None \<Rightarrow> (\<forall>(o1, l1) \<in> set (cc_free c). l1 < round_up16 len) \<and> (cc_cap c < cc_top c + round_up16 len \<or> USIZE_LIMIT \<le> cc_top c + round_up16 len)
     | Some (h, c') \<Rightarrow> cc_reach c' (h # hs) \<and> len \<le> ch_len h \<and> ch_len h < len + 48 \<and>
         (\<forall>k \<in> set hs. ch_base h + ch_len h \<le> ch_base k \<or> ch_base k + ch_len k \<le> ch_base h))) \<and>
    (\<forall>h \<in> set hs. \<exists>c'. cc_free_handle h c = Some c' \<and> cc_reach c' (remove1 h hs))"
proof (intro conjI)
  have inv: "cc_inv c (map (block_of c) hs)" and hin: "\<forall>h \<in> set hs. handle_in c h" using cc_reach_inv [OF assms] by auto
  note i = cc_invD [OF inv]
  show "sorted_wrt (\<lambda>h k. ch_base h + ch_len h \<le> ch_base k \<or> ch_base k + ch_len k \<le> ch_base h) hs"
    using disjoint_handles [OF assms] .
  show "\<forall>h \<in> set hs. cc_base c \<le> ch_base h \<and> ch_base h + ch_len h \<le> cc_base c + cc_cap c \<and> 16 dvd (ch_base h - cc_base c)"
  proof
    fix h assume "h \<in> set hs"
    then have "block_ok (cc_top c) (block_of c h)" "cc_base c \<le> ch_base h" using i(1) hin by (auto simp: handle_in_def)
    then show "cc_base c \<le> ch_base h \<and> ch_base h + ch_len h \<le> cc_base c + cc_cap c \<and> 16 dvd (ch_base h - cc_base c)"
      using i(9) by (auto simp: block_of_def)
  qed
  show "\<forall>x < cc_top c. (\<exists>h \<in> set hs. ch_base h \<le> cc_base c + x \<and> cc_base c + x < ch_base h + ch_len h) \<or> covered (cc_free c) x"
  proof (intro allI impI)
    fix x assume "x < cc_top c"
    then consider "covered (map (block_of c) hs) x" | "covered (cc_free c) x" using i(6) by auto
    then show "(\<exists>h \<in> set hs. ch_base h \<le> cc_base c + x \<and> cc_base c + x < ch_base h + ch_len h) \<or> covered (cc_free c) x"
    proof cases
      case 1
      then obtain h where "h \<in> set hs" "ch_base h - cc_base c \<le> x" "x < ch_base h - cc_base c + ch_len h"
        by (auto simp: covered_def block_of_def)
      then show ?thesis using hin by (intro disjI1 bexI [of _ h]) (auto simp: handle_in_def)
    qed simp
  qed
  show "sorted_wrt before (cc_free c)" by (rule i(4))
  show "\<forall>h \<in> set hs. \<exists>c'. cc_free_handle h c = Some c' \<and> cc_reach c' (remove1 h hs)"
  proof
    fix h assume h: "h \<in> set hs"
    then obtain c' where "cc_free_handle h c = Some c'"
      using cc_free_inv [OF inv, of h] hin by (auto simp: handle_in_def)
    then show "\<exists>c'. cc_free_handle h c = Some c' \<and> cc_reach c' (remove1 h hs)" using cc_give [OF assms h] by blast
  qed
  show "\<forall>len. 0 < len \<longrightarrow> (case cc_alloc len c of
       None \<Rightarrow> (\<forall>(o1, l1) \<in> set (cc_free c). l1 < round_up16 len) \<and> (cc_cap c < cc_top c + round_up16 len \<or> USIZE_LIMIT \<le> cc_top c + round_up16 len)
     | Some (h, c') \<Rightarrow> cc_reach c' (h # hs) \<and> len \<le> ch_len h \<and> ch_len h < len + 48 \<and>
         (\<forall>k \<in> set hs. ch_base h + ch_len h \<le> ch_base k \<or> ch_base k + ch_len k \<le> ch_base h))"
  proof (intro allI impI)
    fix len :: nat assume len: "0 < len"
    show "case cc_alloc len c of
       None \<Rightarrow> (\<forall>(o1, l1) \<in> set (cc_free c). l1 < round_up16 len) \<and> (cc_cap c < cc_top c + round_up16 len \<or> USIZE_LIMIT \<le> cc_top c + round_up16 len)
     | Some (h, c') \<Rightarrow> cc_reach c' (h # hs) \<and> len \<le> ch_len h \<and> ch_len h < len + 48 \<and>
         (\<forall>k \<in> set hs. ch_base h + ch_len h \<le> ch_base k \<or> ch_base k + ch_len k \<le> ch_base h)"
    proof (cases "cc_alloc len c")
      case None
      then have "find (\<lambda>(_, hole_len). round_up16 len \<le> hole_len) (cc_free c) = None"
        by (auto simp: cc_alloc_def Let_def split: option.splits if_splits prod.splits)
      moreover from this None have "cc_cap c < cc_top c + round_up16 len \<or> USIZE_LIMIT \<le> cc_top c + round_up16 len"
        by (auto simp: cc_alloc_def Let_def split: if_splits)
      ultimately show ?thesis using None by (auto simp: find_None_iff not_le)
    next
      case (Some r)
      obtain h c' where r: "r = (h, c')" by fastforce
      have "cc_reach c' (h # hs)" using cc_take [OF assms len] Some r by blast
      moreover from disjoint_handles [OF this]
      have "\<forall>k \<in> set hs. ch_base h + ch_len h \<le> ch_base k \<or> ch_base k + ch_len k \<le> ch_base h" by simp
      ultimately show ?thesis using cc_alloc_inv [OF inv len, of h c'] Some r by simp
    qed
  qed
qed

theorem code_cache_sound_witness:
  "\<exists>c1 h1. cc_alloc 20 (new_code_cache 4096 128) = Some (h1, c1) \<and> cc_reach c1 [h1] \<and> ch_len h1 = 32 \<and>
     (\<exists>c2. cc_free_handle h1 c1 = Some c2 \<and> cc_reach c2 [])"
proof -
  let ?h = "\<lparr>ch_base = 4096, ch_len = 32\<rparr>" and ?c = "new_code_cache 4096 128\<lparr>cc_top := 32\<rparr>"
  have a: "cc_alloc 20 (new_code_cache 4096 128) = Some (?h, ?c)"
    by (simp add: cc_alloc_def new_code_cache_def round_up16_def USIZE_LIMIT_def)
  have r: "cc_reach ?c [?h]" using cc_take [OF cc_start _ a] by simp
  then have "\<exists>c2. cc_free_handle ?h ?c = Some c2 \<and> cc_reach c2 []"
    using code_cache_sound [OF r] by simp
  with a r show ?thesis by auto
qed

end
