(* ===== verification/Code_Table.thy ===== *)
theory Code_Table
  imports Scopes Oops Code_Cache
begin

text \<open>
  The table of compiled methods (\<open>src/src/codecache/nmethod.rs\<close>): safepoint oop maps, the program
  counter descriptors of an nmethod, and the \<open>CodeTable\<close> with its slots and four indexes (by
  customization key, by compiled block, by OSR entry and by code address). Ids are slot numbers,
  addresses are \<^typ>\<open>nat\<close>, an oop held in a Rust field is its raw word. \<open>HashMap\<close>s are maps. Fields of
  \<open>Nmethod\<close> that no table operation reads (counters and statistics) are left out of the record.
\<close>

subsection \<open>Oop maps\<close>

type_synonym oop_map = "u64 list"

definition om_empty :: oop_map where "om_empty = []"

definition om_set :: "nat \<Rightarrow> oop_map \<Rightarrow> oop_map" where
  "om_set slot bits =
     (let word = slot div 64;
          bits = (if word \<ge> length bits then bits @ replicate (word + 1 - length bits) 0 else bits)
      in bits[word := bits ! word OR push_bit (slot mod 64) 1])"

definition om_is_oop :: "oop_map \<Rightarrow> nat \<Rightarrow> bool" where
  "om_is_oop bits slot =
     (case slice_get bits (slot div 64) of
        Some w \<Rightarrow> drop_bit (slot mod 64) w AND 1 \<noteq> 0
      | None \<Rightarrow> False)"

definition om_iter_slots :: "oop_map \<Rightarrow> nat list" where
  "om_iter_slots bits =
     concat (map (\<lambda>(w, word). map (\<lambda>b. w * 64 + b) (filter (\<lambda>b. drop_bit b word AND 1 \<noteq> 0) [0..<64]))
       (enumerate 0 bits))"

subsection \<open>Compiled methods\<close>

datatype nm_state = Alive | NotEntrant | Zombie

record nm_pc_desc =
  npd_pc_off :: u32
  npd_bci :: nat
  npd_oopmap :: nat

datatype ic_state = Unresolved | Mono (mono_klass: oop) (mono_target: nat) | Pic (pic_stub: code_handle) | Mega (mega_stub: code_handle)

record ic_site =
  site_ic_off :: nat
  site_selector :: oop
  site_argc :: nat
  site_state :: ic_state
  site_super_klass :: "oop option"

datatype reloc_kind = RelocOop | RelocKeyKlassOop | RelocRuntimeAddr | RelocInternalWord | RelocInlineCache

record nmethod =
  nm_id :: nat
  nm_key_klass :: oop
  nm_key_selector :: oop
  nm_code_base :: nat
  nm_code_len :: nat
  nm_entry_off :: nat
  nm_verified_entry_off :: nat
  nm_state :: nm_state
  nm_relocs :: "(reloc_kind \<times> nat) list"
  nm_pcdescs :: "nm_pc_desc list"
  nm_oopmaps :: "oop_map list"
  nm_ic_sites :: "ic_site list"
  nm_block_method :: "oop option"
  nm_deopt_scopes :: bytes
  nm_deopt_pcdescs :: "pc_desc list"
  nm_inline_deps :: "(oop \<times> oop) list"
  nm_osr_map :: "osr_map option"
  nm_osr_cold_sends :: nat

definition is_half_warm_osr :: "nmethod \<Rightarrow> bool" where
  "is_half_warm_osr nm \<longleftrightarrow> nm_osr_map nm \<noteq> None \<and> nm_osr_cold_sends nm > 0"

definition oop_relocs :: "nmethod \<Rightarrow> (reloc_kind \<times> nat) list" where
  "oop_relocs nm = filter (\<lambda>(kind, off). kind = RelocOop \<or> kind = RelocKeyKlassOop) (nm_relocs nm)"

text \<open>The standard library's \<open>position\<close> and, on a partitioned slice, \<open>partition_point\<close>.\<close>

fun position :: "('a \<Rightarrow> bool) \<Rightarrow> 'a list \<Rightarrow> nat option" where
  "position P [] = None"
| "position P (x # xs) = (if P x then Some 0 else map_option Suc (position P xs))"

definition partition_point :: "('a \<Rightarrow> bool) \<Rightarrow> 'a list \<Rightarrow> nat" where
  "partition_point P xs = length (takeWhile P xs)"

text \<open>The offset of a program counter: the subtraction panics below the base, the cast to \<open>u32\<close> wraps.\<close>

definition pc_offset :: "nmethod \<Rightarrow> nat \<Rightarrow> u32 option" where
  "pc_offset nm pc = do { rust_assert (nm_code_base nm \<le> pc); Some (of_nat (pc - nm_code_base nm)) }"

definition oopmap_at :: "nmethod \<Rightarrow> nat \<Rightarrow> oop_map option" where
  "oopmap_at nm ret_pc = do {
     off \<leftarrow> pc_offset nm ret_pc;
     idx \<leftarrow> position (\<lambda>d. npd_pc_off d = off) (nm_pcdescs nm);
     slice_get (nm_oopmaps nm) (npd_oopmap (nm_pcdescs nm ! idx))
   }"

definition bci_at :: "nmethod \<Rightarrow> nat \<Rightarrow> nat option" where
  "bci_at nm pc = do {
     off \<leftarrow> pc_offset nm pc;
     let idx = partition_point (\<lambda>d. npd_pc_off d \<le> off) (nm_pcdescs nm);
     if idx = 0 then Some (case nm_pcdescs nm of d # ds \<Rightarrow> npd_bci d | [] \<Rightarrow> 0)
     else Some (npd_bci (nm_pcdescs nm ! (idx - 1)))
   }"

subsection \<open>The table\<close>

record code_table =
  tb_slots :: "nmethod option list"
  tb_by_key :: "oop \<times> oop \<rightharpoonup> nat"
  tb_by_block :: "oop \<rightharpoonup> nat"
  tb_osr :: "oop \<times> oop \<times> u16 \<rightharpoonup> nat"
  tb_by_addr :: "(nat \<times> nat) list"

definition new_table :: code_table where
  "new_table = \<lparr>tb_slots = [], tb_by_key = Map.empty, tb_by_block = Map.empty, tb_osr = Map.empty, tb_by_addr = []\<rparr>"

definition get_nm :: "code_table \<Rightarrow> nat \<Rightarrow> nmethod option" where
  "get_nm t id1 = do { s \<leftarrow> slice_get (tb_slots t) id1; s }"

definition insert_at :: "nat \<Rightarrow> 'a \<Rightarrow> 'a list \<Rightarrow> 'a list" where
  "insert_at pos x xs = take pos xs @ x # drop pos xs"

definition nm_key :: "nmethod \<Rightarrow> oop \<times> oop" where
  "nm_key nm = (nm_key_klass nm, nm_key_selector nm)"

definition install_nm :: "nmethod \<Rightarrow> code_table \<Rightarrow> nat \<times> code_table" where
  "install_nm nm t =
     (let (id1, slots1) = (case position (\<lambda>s. s = None) (tb_slots t) of
            Some idx \<Rightarrow> (idx, tb_slots t)
          | None \<Rightarrow> (length (tb_slots t), tb_slots t @ [None]));
          nm = nm\<lparr>nm_id := id1\<rparr>;
          t = t\<lparr>tb_slots := slots1[id1 := Some nm]\<rparr>;
          t = (case nm_block_method nm of
                 Some bk \<Rightarrow> t\<lparr>tb_by_block := (tb_by_block t)(bk \<mapsto> id1)\<rparr>
               | None \<Rightarrow> t\<lparr>tb_by_key := (tb_by_key t)(nm_key nm \<mapsto> id1)\<rparr>);
          pos = partition_point (\<lambda>(b, _). b < nm_code_base nm) (tb_by_addr t)
      in (id1, t\<lparr>tb_by_addr := insert_at pos (nm_code_base nm, id1) (tb_by_addr t)\<rparr>))"

definition find_by_pc :: "code_table \<Rightarrow> nat \<Rightarrow> nat option" where
  "find_by_pc t pc =
     (let idx = partition_point (\<lambda>(base, _). base \<le> pc) (tb_by_addr t)
      in if idx = 0 then None
         else case tb_by_addr t ! (idx - 1) of
           (base, id1) \<Rightarrow> do {
             nm \<leftarrow> get_nm t id1;
             if pc \<ge> base \<and> pc < base + nm_code_len nm then Some id1 else None
           })"

definition lookup_nm :: "code_table \<Rightarrow> oop \<Rightarrow> oop \<Rightarrow> nat option" where
  "lookup_nm t k sel = tb_by_key t (k, sel)"

definition lookup_block :: "code_table \<Rightarrow> oop \<Rightarrow> nat option" where
  "lookup_block t b = do {
     id1 \<leftarrow> tb_by_block t b;
     nm \<leftarrow> get_nm t id1;
     if nm_state nm = Alive then Some id1 else None
   }"

definition lookup_osr :: "code_table \<Rightarrow> oop \<Rightarrow> oop \<Rightarrow> u16 \<Rightarrow> nat option" where
  "lookup_osr t k sel bci = tb_osr t (k, sel, bci)"

definition install_osr :: "oop \<Rightarrow> oop \<Rightarrow> u16 \<Rightarrow> nat \<Rightarrow> code_table \<Rightarrow> code_table" where
  "install_osr k sel bci id1 t = t\<lparr>tb_osr := (tb_osr t)((k, sel, bci) \<mapsto> id1)\<rparr>"

definition all_nms :: "code_table \<Rightarrow> nmethod list" where
  "all_nms t = List.map_filter (\<lambda>s. s) (tb_slots t)"

definition iter_alive :: "code_table \<Rightarrow> nmethod list" where
  "iter_alive t = filter (\<lambda>nm. nm_state nm = Alive) (all_nms t)"

definition not_entrant_ids :: "code_table \<Rightarrow> nat list" where
  "not_entrant_ids t = map nm_id (filter (\<lambda>nm. nm_state nm = NotEntrant) (all_nms t))"

text \<open>The unhooking shared word for word by \<open>mark_zombie\<close> and \<open>set_not_entrant\<close>.\<close>

definition unhook :: "nat \<Rightarrow> nmethod \<Rightarrow> code_table \<Rightarrow> code_table" where
  "unhook id1 nm t =
     (let key = nm_key nm;
          t = (case nm_osr_map nm of
                 Some m \<Rightarrow> (let okey = (fst key, snd key, osr_bci m)
                    in if tb_osr t okey = Some id1 then t\<lparr>tb_osr := (tb_osr t)(okey := None)\<rparr> else t)
               | None \<Rightarrow> t);
          t = (if tb_by_key t key = Some id1 then t\<lparr>tb_by_key := (tb_by_key t)(key := None)\<rparr> else t)
      in case nm_block_method nm of
           Some bk \<Rightarrow> if tb_by_block t bk = Some id1 then t\<lparr>tb_by_block := (tb_by_block t)(bk := None)\<rparr> else t
         | None \<Rightarrow> t)"

definition retire :: "nm_state \<Rightarrow> nat \<Rightarrow> nmethod \<Rightarrow> code_table \<Rightarrow> code_table" where
  "retire s id1 nm t = unhook id1 nm (t\<lparr>tb_slots := (tb_slots t)[id1 := Some (nm\<lparr>nm_state := s\<rparr>)]\<rparr>)"

definition mark_zombie :: "nat \<Rightarrow> code_table \<Rightarrow> code_table option" where
  "mark_zombie id1 t = do {
     nm \<leftarrow> get_nm t id1;
     Some (retire Zombie id1 nm t)
   }"

definition set_not_entrant :: "nat \<Rightarrow> code_table \<Rightarrow> code_table option" where
  "set_not_entrant id1 t = do {
     nm \<leftarrow> get_nm t id1;
     rust_assert (nm_state nm = Alive);
     Some (retire NotEntrant id1 nm t)
   }"

definition remove_nm :: "nat \<Rightarrow> code_table \<Rightarrow> (nmethod \<times> code_table) option" where
  "remove_nm id1 t = do {
     nm \<leftarrow> get_nm t id1;
     pos \<leftarrow> position (\<lambda>(_, i). i = id1) (tb_by_addr t);
     Some (nm, t\<lparr>tb_slots := (tb_slots t)[id1 := None],
                 tb_by_addr := take pos (tb_by_addr t) @ drop (pos + 1) (tb_by_addr t)\<rparr>)
   }"

subsection \<open>The table under a moving collector\<close>

definition update_site :: "(oop \<Rightarrow> oop) \<Rightarrow> ic_site \<Rightarrow> ic_site" where
  "update_site f s =
     s\<lparr>site_selector := f (site_selector s),
       site_state := (case site_state s of Mono klass target \<Rightarrow> Mono (f klass) target | st \<Rightarrow> st),
       site_super_klass := map_option f (site_super_klass s)\<rparr>"

definition update_nm_keys :: "bool \<Rightarrow> (oop \<Rightarrow> oop) \<Rightarrow> nmethod \<Rightarrow> nmethod" where
  "update_nm_keys include_key_klass f nm =
     nm\<lparr>nm_key_klass := (if include_key_klass then f (nm_key_klass nm) else nm_key_klass nm),
        nm_key_selector := f (nm_key_selector nm),
        nm_block_method := map_option f (nm_block_method nm),
        nm_ic_sites := map (update_site f) (nm_ic_sites nm),
        nm_inline_deps := map (\<lambda>(dk, ds). (f dk, f ds)) (nm_inline_deps nm)\<rparr>"

definition update_keys :: "bool \<Rightarrow> (oop \<Rightarrow> oop) \<Rightarrow> code_table \<Rightarrow> code_table" where
  "update_keys include_key_klass f t =
     t\<lparr>tb_slots := map (map_option (update_nm_keys include_key_klass f)) (tb_slots t)\<rparr>"

definition rehash_one :: "nmethod \<Rightarrow> code_table \<Rightarrow> code_table" where
  "rehash_one nm t =
     (if nm_state nm \<noteq> Alive then t
      else case nm_block_method nm of
        Some b \<Rightarrow> t\<lparr>tb_by_block := (tb_by_block t)(b \<mapsto> nm_id nm)\<rparr>
      | None \<Rightarrow>
          let key = nm_key nm;
              t = t\<lparr>tb_by_key := (tb_by_key t)(key \<mapsto> nm_id nm)\<rparr>
          in case nm_osr_map nm of
               Some m \<Rightarrow> t\<lparr>tb_osr := (tb_osr t)((fst key, snd key, osr_bci m) \<mapsto> nm_id nm)\<rparr>
             | None \<Rightarrow> t)"

definition rehash_table :: "code_table \<Rightarrow> code_table" where
  "rehash_table t =
     fold rehash_one (all_nms t) (t\<lparr>tb_by_key := Map.empty, tb_by_block := Map.empty, tb_osr := Map.empty\<rparr>)"

text \<open>The pool words \<open>oops_do\<close> hands to the collector, in order; \<open>None\<close> when a relocation leaves the code.\<close>

definition oops_do_nm :: "bool \<Rightarrow> nmethod \<Rightarrow> nat list option" where
  "oops_do_nm include_key_klass nm =
     (if nm_state nm = Zombie then Some []
      else let rs = filter (\<lambda>(kind, off). \<not> (\<not> include_key_klass \<and> kind = RelocKeyKlassOop \<and> nm_state nm = Alive))
                      (oop_relocs nm)
           in if \<forall>(kind, off) \<in> set rs. off + 8 \<le> nm_code_len nm
              then Some (map (\<lambda>(kind, off). nm_code_base nm + off) rs) else None)"

fun oops_do_all :: "bool \<Rightarrow> nmethod list \<Rightarrow> nat list option" where
  "oops_do_all include_key_klass [] = Some []"
| "oops_do_all include_key_klass (nm # nms) = do {
     as1 \<leftarrow> oops_do_nm include_key_klass nm;
     as2 \<leftarrow> oops_do_all include_key_klass nms;
     Some (as1 @ as2)
   }"

definition oops_do :: "bool \<Rightarrow> code_table \<Rightarrow> nat list option" where
  "oops_do include_key_klass t = oops_do_all include_key_klass (all_nms t)"

text \<open>\<open>weak_sweep\<close> reads the mark words of the heap, \<open>mark_of\<close>.\<close>

definition weak_sweep :: "(oop \<Rightarrow> u64) \<Rightarrow> code_table \<Rightarrow> nat list" where
  "weak_sweep mark_of t = map nm_id (filter (\<lambda>nm. \<not> mark_gc_mark (mark_of (nm_key_klass nm))) (iter_alive t))"

subsection \<open>Well-formed tables\<close>

text \<open>
  Every index entry names an installed nmethod: the key, block and OSR indexes only alive ones, filed
  under their own key; the address index exactly the installed ones, sorted by base. Installed code
  ranges are disjoint.
\<close>

definition disjoint_code :: "nmethod \<Rightarrow> nmethod \<Rightarrow> bool" where
  "disjoint_code a b \<longleftrightarrow> nm_code_base a + nm_code_len a \<le> nm_code_base b \<or> nm_code_base b + nm_code_len b \<le> nm_code_base a"

definition slots_wf :: "code_table \<Rightarrow> bool" where
  "slots_wf t \<longleftrightarrow>
     (\<forall>i nm. get_nm t i = Some nm \<longrightarrow> nm_id nm = i \<and> 0 < nm_code_len nm) \<and>
     (\<forall>i j a b. get_nm t i = Some a \<longrightarrow> get_nm t j = Some b \<longrightarrow> i \<noteq> j \<longrightarrow> disjoint_code a b)"

definition names_alive :: "code_table \<Rightarrow> nat \<Rightarrow> (nmethod \<Rightarrow> bool) \<Rightarrow> bool" where
  "names_alive t i P \<longleftrightarrow> (\<exists>nm. get_nm t i = Some nm \<and> nm_state nm = Alive \<and> P nm)"

definition keyed :: "oop \<times> oop \<Rightarrow> nmethod \<Rightarrow> bool" where
  "keyed k nm \<longleftrightarrow> nm_block_method nm = None \<and> nm_key nm = k"

definition osr_keyed :: "oop \<times> oop \<times> u16 \<Rightarrow> nmethod \<Rightarrow> bool" where
  "osr_keyed k nm \<longleftrightarrow> (\<exists>m. nm_osr_map nm = Some m \<and> nm_block_method nm = None \<and> k = (nm_key_klass nm, nm_key_selector nm, osr_bci m))"

definition indexes_wf :: "code_table \<Rightarrow> bool" where
  "indexes_wf t \<longleftrightarrow>
     (\<forall>k i. tb_by_key t k = Some i \<longrightarrow> names_alive t i (keyed k)) \<and>
     (\<forall>b i. tb_by_block t b = Some i \<longrightarrow> names_alive t i (\<lambda>nm. nm_block_method nm = Some b)) \<and>
     (\<forall>k i. tb_osr t k = Some i \<longrightarrow> names_alive t i (osr_keyed k))"

definition addrs_wf :: "code_table \<Rightarrow> bool" where
  "addrs_wf t \<longleftrightarrow> sorted (map fst (tb_by_addr t)) \<and> distinct (map snd (tb_by_addr t)) \<and>
     (\<forall>b i. (b, i) \<in> set (tb_by_addr t) \<longleftrightarrow> (\<exists>nm. get_nm t i = Some nm \<and> nm_code_base nm = b))"

definition tb_wf :: "code_table \<Rightarrow> bool" where
  "tb_wf t \<longleftrightarrow> slots_wf t \<and> indexes_wf t \<and> addrs_wf t"

lemma get_nm_eq: "get_nm t i = (if i < length (tb_slots t) then tb_slots t ! i else None)"
  by (simp add: get_nm_def slice_get_def)

lemma get_nm_cong: "tb_slots t' = tb_slots t \<Longrightarrow> get_nm t' i = get_nm t i"
  by (simp add: get_nm_eq)

lemma get_nm_update:
  "i < length (tb_slots t) \<Longrightarrow> get_nm (t\<lparr>tb_slots := (tb_slots t)[i := x]\<rparr>) j = (if j = i then x else get_nm t j)"
  by (auto simp: get_nm_eq)

lemma position_Some: "position P xs = Some i \<Longrightarrow> i < length xs \<and> P (xs ! i) \<and> (\<forall>j < i. \<not> P (xs ! j))"
proof (induction xs arbitrary: i)
  case (Cons x xs)
  then show ?case by (cases i) (auto simp: less_Suc_eq_0_disj split: if_splits)
qed simp

lemma position_None: "position P xs = None \<longleftrightarrow> (\<forall>x \<in> set xs. \<not> P x)"
  by (induction xs) auto

lemma all_nms_set: "nm \<in> set (all_nms t) \<longleftrightarrow> (\<exists>i. get_nm t i = Some nm)"
proof -
  have "nm \<in> set (List.map_filter (\<lambda>s. s) xs) \<longleftrightarrow> Some nm \<in> set xs" for xs
    by (induction xs) (auto simp: List.map_filter_simps split: option.splits)
  then show ?thesis by (auto simp: all_nms_def get_nm_eq in_set_conv_nth split: if_splits)
qed

lemma iter_alive_set: "nm \<in> set (iter_alive t) \<longleftrightarrow> (\<exists>i. get_nm t i = Some nm) \<and> nm_state nm = Alive"
  by (auto simp: iter_alive_def all_nms_set)

lemma unhook_fields:
  "tb_slots (unhook i nm t) = tb_slots t" "tb_by_addr (unhook i nm t) = tb_by_addr t"
  "tb_by_key (unhook i nm t) = (\<lambda>k. if k = nm_key nm \<and> tb_by_key t k = Some i then None else tb_by_key t k)"
  "tb_by_block (unhook i nm t) = (\<lambda>b. if nm_block_method nm = Some b \<and> tb_by_block t b = Some i then None else tb_by_block t b)"
  "tb_osr (unhook i nm t) = (\<lambda>k. if (\<exists>m. nm_osr_map nm = Some m \<and> k = (nm_key_klass nm, nm_key_selector nm, osr_bci m)) \<and>
      tb_osr t k = Some i then None else tb_osr t k)"
  by (auto simp: unhook_def Let_def nm_key_def fun_eq_iff split: option.splits)

lemma retire_get:
  assumes "get_nm t i = Some nm"
  shows "get_nm (retire s i nm t) j = (if j = i then Some (nm\<lparr>nm_state := s\<rparr>) else get_nm t j)"
proof -
  have "i < length (tb_slots t)" using assms by (simp add: get_nm_eq split: if_splits)
  then show ?thesis unfolding retire_def using get_nm_update [of i t] by (simp add: get_nm_eq unhook_fields(1))
qed

lemma indexes_wfD:
  "indexes_wf t \<Longrightarrow> tb_by_key t k = Some i \<Longrightarrow> names_alive t i (keyed k)"
  "indexes_wf t \<Longrightarrow> tb_by_block t b = Some i \<Longrightarrow> names_alive t i (\<lambda>nm. nm_block_method nm = Some b)"
  "indexes_wf t \<Longrightarrow> tb_osr t ok = Some i \<Longrightarrow> names_alive t i (osr_keyed ok)"
  unfolding indexes_wf_def by blast+

lemma retire_indexes:
  assumes wf: "indexes_wf t" and nm: "get_nm t i = Some nm"
  shows "tb_by_key (retire s i nm t) k = (if tb_by_key t k = Some i then None else tb_by_key t k)"
    "tb_by_block (retire s i nm t) b = (if tb_by_block t b = Some i then None else tb_by_block t b)"
    "tb_osr (retire s i nm t) ok = (if tb_osr t ok = Some i then None else tb_osr t ok)"
    "tb_by_addr (retire s i nm t) = tb_by_addr t"
proof -
  have "k = nm_key nm" if "tb_by_key t k = Some i"
    using indexes_wfD(1) [OF wf that] nm by (auto simp: names_alive_def keyed_def)
  moreover have "nm_block_method nm = Some b" if "tb_by_block t b = Some i"
    using indexes_wfD(2) [OF wf that] nm by (auto simp: names_alive_def)
  moreover have "\<exists>m. nm_osr_map nm = Some m \<and> ok = (nm_key_klass nm, nm_key_selector nm, osr_bci m)" if "tb_osr t ok = Some i"
    using indexes_wfD(3) [OF wf that] nm by (auto simp: names_alive_def osr_keyed_def)
  ultimately show "tb_by_key (retire s i nm t) k = (if tb_by_key t k = Some i then None else tb_by_key t k)"
    "tb_by_block (retire s i nm t) b = (if tb_by_block t b = Some i then None else tb_by_block t b)"
    "tb_osr (retire s i nm t) ok = (if tb_osr t ok = Some i then None else tb_osr t ok)"
    "tb_by_addr (retire s i nm t) = tb_by_addr t"
    by (auto simp: retire_def unhook_fields)
qed

lemma names_alive_retire:
  assumes "get_nm t i = Some nm" "names_alive t j P" "j \<noteq> i"
  shows "names_alive (retire s i nm t) j P"
  using assms by (simp add: names_alive_def retire_get)

lemma retire_wf:
  assumes wf: "tb_wf t" and nm: "get_nm t i = Some nm"
  shows "tb_wf (retire s i nm t)"
proof -
  have w: "slots_wf t" "indexes_wf t" "addrs_wf t" using wf by (simp_all add: tb_wf_def)
  note ix = retire_indexes [OF w(2) nm, of s]
  have "slots_wf (retire s i nm t)"
    using w(1) nm unfolding slots_wf_def retire_get [OF nm] by (auto simp: disjoint_code_def)
  moreover have "indexes_wf (retire s i nm t)"
    unfolding indexes_wf_def ix
    using w(2) names_alive_retire [OF nm] unfolding indexes_wf_def by (metis option.discI)
  moreover have "addrs_wf (retire s i nm t)"
    using w(3) nm unfolding addrs_wf_def ix retire_get [OF nm] by auto
  ultimately show ?thesis by (simp add: tb_wf_def)
qed

lemma insert_at_partition:
  "insert_at (partition_point P xs) x xs = takeWhile P xs @ x # dropWhile P xs"
  by (simp add: insert_at_def partition_point_def takeWhile_eq_take [symmetric] dropWhile_eq_drop [symmetric])

lemma dropWhile_less_ge:
  "sorted (map fst xs) \<Longrightarrow> y \<in> set (dropWhile (\<lambda>(b, _). b < (x :: nat)) xs) \<Longrightarrow> x \<le> fst y"
proof (induction xs)
  case (Cons a xs)
  then show ?case by (cases a) (fastforce split: if_splits)
qed simp

lemma sorted_insert_at:
  fixes x :: nat
  assumes s: "sorted (map fst xs)"
  shows "sorted (map fst (insert_at (partition_point (\<lambda>(b, _). b < x) xs) (x, i) xs))"
proof -
  let ?P = "\<lambda>(b, _). b < x"
  have "map fst xs = map fst (takeWhile ?P xs) @ map fst (dropWhile ?P xs)"
    by (metis map_append takeWhile_dropWhile_id)
  with s have "sorted (map fst (takeWhile ?P xs))" "sorted (map fst (dropWhile ?P xs))"
    "\<forall>a \<in> set (takeWhile ?P xs). \<forall>b \<in> set (dropWhile ?P xs). fst a \<le> fst b"
    by (simp_all only: sorted_append) auto
  moreover have "\<forall>y \<in> set (dropWhile ?P xs). x \<le> fst y" using dropWhile_less_ge [OF s] by blast
  moreover have "\<forall>y \<in> set (takeWhile ?P xs). fst y \<le> x" by (auto dest: set_takeWhileD)
  ultimately show ?thesis by (auto simp: insert_at_partition sorted_append)
qed

lemma set_insert_at: "set (insert_at n x xs) = Set.insert x (set xs)"
  by (simp add: insert_at_def) (metis append_take_drop_id set_append)

lemma map_insert_at: "map f (insert_at n x xs) = insert_at n (f x) (map f xs)"
  by (simp add: insert_at_def take_map drop_map)

lemma distinct_insert_at: "distinct (insert_at n x xs) \<longleftrightarrow> x \<notin> set xs \<and> distinct xs"
proof -
  have "distinct (a @ x # b) \<longleftrightarrow> x \<notin> set (a @ b) \<and> distinct (a @ b)" for a b by auto
  from this [of "take n xs" "drop n xs"] show ?thesis by (simp only: insert_at_def append_take_drop_id)
qed

lemma install_shape:
  assumes "install_nm nm t = (i, t')"
  shows "get_nm t i = None" "get_nm t' j = (if j = i then Some (nm\<lparr>nm_id := i\<rparr>) else get_nm t j)"
    "tb_by_key t' = (if nm_block_method nm = None then (tb_by_key t)(nm_key nm \<mapsto> i) else tb_by_key t)"
    "tb_by_block t' = (case nm_block_method nm of Some b \<Rightarrow> (tb_by_block t)(b \<mapsto> i) | None \<Rightarrow> tb_by_block t)"
    "tb_osr t' = tb_osr t"
    "tb_by_addr t' = insert_at (partition_point (\<lambda>(b, _). b < nm_code_base nm) (tb_by_addr t)) (nm_code_base nm, i) (tb_by_addr t)"
proof -
  define s where "s = (case position (\<lambda>s. s = None) (tb_slots t) of
            Some idx \<Rightarrow> (idx, tb_slots t) | None \<Rightarrow> (length (tb_slots t), tb_slots t @ [None]))"
  have i: "i = fst s" and sl: "tb_slots t' = (snd s)[i := Some (nm\<lparr>nm_id := i\<rparr>)]"
    and rest: "tb_by_key t' = (if nm_block_method nm = None then (tb_by_key t)(nm_key nm \<mapsto> i) else tb_by_key t)"
    "tb_by_block t' = (case nm_block_method nm of Some b \<Rightarrow> (tb_by_block t)(b \<mapsto> i) | None \<Rightarrow> tb_by_block t)"
    "tb_osr t' = tb_osr t"
    "tb_by_addr t' = insert_at (partition_point (\<lambda>(b, _). b < nm_code_base nm) (tb_by_addr t)) (nm_code_base nm, i) (tb_by_addr t)"
    using assms unfolding install_nm_def s_def [symmetric] Let_def
    by (auto simp: nm_key_def split: prod.splits option.splits)
  have "i < length (snd s) \<and> snd s ! i = None \<and> (\<forall>j. get_nm t j = (if j < length (snd s) then snd s ! j else None))"
  proof (cases "position (\<lambda>s. s = None) (tb_slots t)")
    case None
    then show ?thesis by (auto simp: i s_def get_nm_eq nth_append)
  next
    case (Some idx)
    then show ?thesis using position_Some [OF Some] by (simp add: i s_def get_nm_eq)
  qed
  then show "get_nm t i = None" "get_nm t' j = (if j = i then Some (nm\<lparr>nm_id := i\<rparr>) else get_nm t j)"
    by (auto simp: get_nm_eq [of t'] sl)
qed (use assms in \<open>auto simp: install_nm_def Let_def nm_key_def split: prod.splits option.splits\<close>)

definition fresh_code :: "nmethod \<Rightarrow> code_table \<Rightarrow> bool" where
  "fresh_code nm t \<longleftrightarrow> nm_state nm = Alive \<and> 0 < nm_code_len nm \<and> (\<forall>i a. get_nm t i = Some a \<longrightarrow> disjoint_code nm a)"

lemma install_wf:
  assumes wf: "tb_wf t" and fr: "fresh_code nm t" and ins: "install_nm nm t = (i, t')"
  shows "tb_wf t'"
proof -
  have w: "slots_wf t" "indexes_wf t" "addrs_wf t" using wf by (simp_all add: tb_wf_def)
  note sh = install_shape [OF ins]
  have "slots_wf t'"
    using w(1) fr unfolding slots_wf_def sh(2) fresh_code_def by (auto simp: disjoint_code_def)
  moreover have keep: "names_alive t' j P" if "names_alive t j P" for j P
    using that sh(1) unfolding names_alive_def sh(2) by (metis option.discI)
  have new: "names_alive t' i P" if "P (nm\<lparr>nm_id := i\<rparr>)" for P
    using fr that unfolding names_alive_def sh(2) fresh_code_def by simp
  have "indexes_wf t'"
    unfolding indexes_wf_def sh(3-5)
    using indexes_wfD [OF w(2)] keep new
    by (auto simp: keyed_def nm_key_def split: option.splits if_splits)
  moreover have "distinct (map snd (tb_by_addr t'))"
  proof -
    have "i \<notin> snd ` set (tb_by_addr t)" using w(3) sh(1) by (auto simp: addrs_wf_def)
    then show ?thesis using w(3) by (simp add: sh(6) map_insert_at distinct_insert_at addrs_wf_def)
  qed
  then have "addrs_wf t'" unfolding addrs_wf_def
    using w(3) sorted_insert_at unfolding addrs_wf_def sh(2,6) set_insert_at by (auto simp: sh(1))
  ultimately show ?thesis by (simp add: tb_wf_def)
qed

lemma drop_nth_set:
  assumes "distinct (map snd xs)" "p < length xs" "xs ! p = (b0, i)"
  shows "(b, j) \<in> set (take p xs @ drop (p + 1) xs) \<longleftrightarrow> (b, j) \<in> set xs \<and> j \<noteq> i"
    "sorted (map fst xs) \<Longrightarrow> sorted (map fst (take p xs @ drop (p + 1) xs))"
    "distinct (map snd (take p xs @ drop (p + 1) xs))"
proof -
  define a c where "a = take p xs" and "c = drop (p + 1) xs"
  have xs: "xs = a @ (b0, i) # c" using assms(2,3) unfolding a_def c_def
    by (metis Suc_eq_plus1 id_take_nth_drop)
  have "distinct (map snd (a @ (b0, i) # c))" using assms(1) xs by simp
  then show "(b, j) \<in> set (take p xs @ drop (p + 1) xs) \<longleftrightarrow> (b, j) \<in> set xs \<and> j \<noteq> i"
    "distinct (map snd (take p xs @ drop (p + 1) xs))"
    unfolding a_def [symmetric] c_def [symmetric] by (force simp: xs, simp)
  show "sorted (map fst (take p xs @ drop (p + 1) xs))" if "sorted (map fst xs)"
    using that unfolding a_def [symmetric] c_def [symmetric] by (simp add: xs sorted_append)
qed

lemma remove_wf:
  assumes wf: "tb_wf t" and un: "\<And>k. tb_by_key t k \<noteq> Some i" "\<And>b. tb_by_block t b \<noteq> Some i" "\<And>k. tb_osr t k \<noteq> Some i"
    and nm: "get_nm t i = Some nm"
  shows "\<exists>t'. remove_nm i t = Some (nm, t') \<and> tb_wf t' \<and> (\<forall>j. get_nm t' j = (if j = i then None else get_nm t j)) \<and>
    tb_by_key t' = tb_by_key t \<and> tb_by_block t' = tb_by_block t \<and> tb_osr t' = tb_osr t"
proof -
  have w: "slots_wf t" "indexes_wf t" "addrs_wf t" using wf by (simp_all add: tb_wf_def)
  have "(nm_code_base nm, i) \<in> set (tb_by_addr t)" using w(3) nm by (simp add: addrs_wf_def)
  then obtain p where pos: "position (\<lambda>(_, k). k = i) (tb_by_addr t) = Some p"
    using position_None [of "\<lambda>(_, k). k = i" "tb_by_addr t"] by fastforce
  obtain b0 where p: "p < length (tb_by_addr t)" "tb_by_addr t ! p = (b0, i)"
    using position_Some [OF pos] by (auto split: prod.splits)
  let ?t = "t\<lparr>tb_slots := (tb_slots t)[i := None], tb_by_addr := take p (tb_by_addr t) @ drop (p + 1) (tb_by_addr t)\<rparr>"
  have get: "get_nm ?t j = (if j = i then None else get_nm t j)" for j
    using nm by (auto simp: get_nm_eq split: if_splits)
  have names: "names_alive ?t j P" if "names_alive t j P" "j \<noteq> i" for j P
    using that unfolding names_alive_def get by simp
  have "slots_wf ?t" using w(1) unfolding slots_wf_def get by (metis option.discI)
  moreover have "indexes_wf ?t"
    unfolding indexes_wf_def using indexes_wfD [OF w(2)] names un by simp metis
  moreover have "addrs_wf ?t"
    using w(3) drop_nth_set [of "tb_by_addr t" p b0 i] p unfolding addrs_wf_def get by auto
  ultimately have "tb_wf ?t" by (simp add: tb_wf_def)
  moreover have "remove_nm i t = Some (nm, ?t)" using nm pos by (simp add: remove_nm_def)
  ultimately show ?thesis using get by (intro exI [of _ ?t]) simp
qed

lemma rehash_fields:
  "tb_slots (fold rehash_one nms t) = tb_slots t \<and> tb_by_addr (fold rehash_one nms t) = tb_by_addr t"
proof (induction nms arbitrary: t)
  case (Cons nm nms)
  have "tb_slots (rehash_one nm t) = tb_slots t \<and> tb_by_addr (rehash_one nm t) = tb_by_addr t"
    by (auto simp: rehash_one_def Let_def split: option.splits)
  with Cons show ?case by simp
qed simp

lemma rehash_sound:
  "tb_by_key (fold rehash_one nms t) k = Some i \<Longrightarrow>
     tb_by_key t k = Some i \<or> (\<exists>nm \<in> set nms. nm_state nm = Alive \<and> keyed k nm \<and> nm_id nm = i)"
  "tb_by_block (fold rehash_one nms t) b = Some i \<Longrightarrow>
     tb_by_block t b = Some i \<or> (\<exists>nm \<in> set nms. nm_state nm = Alive \<and> nm_block_method nm = Some b \<and> nm_id nm = i)"
  "tb_osr (fold rehash_one nms t) ok = Some i \<Longrightarrow>
     tb_osr t ok = Some i \<or> (\<exists>nm \<in> set nms. nm_state nm = Alive \<and> osr_keyed ok nm \<and> nm_id nm = i)"
proof (induction nms arbitrary: t)
  case (Cons nm nms)
  have "tb_by_key (rehash_one nm t) k = Some i \<longrightarrow> tb_by_key t k = Some i \<or> (nm_state nm = Alive \<and> keyed k nm \<and> nm_id nm = i)"
    "tb_by_block (rehash_one nm t) b = Some i \<longrightarrow> tb_by_block t b = Some i \<or> (nm_state nm = Alive \<and> nm_block_method nm = Some b \<and> nm_id nm = i)"
    "tb_osr (rehash_one nm t) ok = Some i \<longrightarrow> tb_osr t ok = Some i \<or> (nm_state nm = Alive \<and> osr_keyed ok nm \<and> nm_id nm = i)" for t
    by (auto simp: rehash_one_def Let_def keyed_def osr_keyed_def nm_key_def split: option.splits if_splits)
  note one = this
  { case 1 then show ?case using Cons.IH(1) [of "rehash_one nm t"] one(1) by auto }
  { case 2 then show ?case using Cons.IH(2) [of "rehash_one nm t"] one(2) by auto }
  { case 3 then show ?case using Cons.IH(3) [of "rehash_one nm t"] one(3) by auto }
qed auto

lemma gc_get: "get_nm (rehash_table (update_keys inc f t)) i = map_option (update_nm_keys inc f) (get_nm t i)"
  by (simp add: rehash_table_def get_nm_eq rehash_fields update_keys_def)

lemma update_nm_keys_simps [simp]:
  "nm_id (update_nm_keys inc f nm) = nm_id nm" "nm_state (update_nm_keys inc f nm) = nm_state nm"
  "nm_code_base (update_nm_keys inc f nm) = nm_code_base nm" "nm_code_len (update_nm_keys inc f nm) = nm_code_len nm"
  "nm_osr_map (update_nm_keys inc f nm) = nm_osr_map nm"
  by (simp_all add: update_nm_keys_def)

lemma gc_wf:
  assumes wf: "tb_wf t"
  shows "tb_wf (rehash_table (update_keys inc f t))"
proof -
  let ?u = "update_keys inc f t" and ?t = "rehash_table (update_keys inc f t)"
  have w: "slots_wf t" "addrs_wf t" using wf by (simp_all add: tb_wf_def)
  have "disjoint_code (update_nm_keys inc f a) (update_nm_keys inc f b) \<longleftrightarrow> disjoint_code a b" for a b
    by (simp add: disjoint_code_def)
  then have slots: "slots_wf ?t" using w(1) unfolding slots_wf_def gc_get by auto
  have "get_nm ?u i = get_nm ?t i" for i by (rule get_nm_cong) (simp add: rehash_table_def rehash_fields)
  note same = this
  have names: "names_alive ?t i P" if ex: "\<exists>nm \<in> set (all_nms ?u). nm_state nm = Alive \<and> P nm \<and> nm_id nm = i" for i P
  proof -
    obtain nm j where nm: "get_nm ?u j = Some nm" "nm_state nm = Alive" "P nm" "nm_id nm = i"
      using ex unfolding Bex_def all_nms_set by blast
    moreover have "get_nm ?t j = Some nm" using nm(1) same by metis
    moreover have "nm_id nm = j" using slots calculation unfolding slots_wf_def by blast
    ultimately show ?thesis unfolding names_alive_def by blast
  qed
  have "indexes_wf ?t" unfolding indexes_wf_def
  proof (intro conjI allI impI)
    fix k i assume "tb_by_key ?t k = Some i"
    from rehash_sound(1) [OF this [unfolded rehash_table_def]] show "names_alive ?t i (keyed k)"
      using names by simp
  next
    fix b i assume "tb_by_block ?t b = Some i"
    from rehash_sound(2) [OF this [unfolded rehash_table_def]] show "names_alive ?t i (\<lambda>nm. nm_block_method nm = Some b)"
      using names by simp
  next
    fix k i assume "tb_osr ?t k = Some i"
    from rehash_sound(3) [OF this [unfolded rehash_table_def]] show "names_alive ?t i (osr_keyed k)"
      using names by simp
  qed
  moreover have "addrs_wf ?t" using w(2) unfolding addrs_wf_def gc_get
    by (auto simp: rehash_table_def rehash_fields update_keys_def)
  ultimately show ?thesis using slots by (simp add: tb_wf_def)
qed

subsection \<open>Address lookup\<close>

lemma sorted_prefix_ge:
  assumes "sorted (map fst xs)" "(b, i) \<in> set xs" "b \<le> (pc :: nat)"
  defines "n \<equiv> partition_point (\<lambda>(base, _). base \<le> pc) xs"
  shows "0 < n \<and> n \<le> length xs \<and> b \<le> fst (xs ! (n - 1))"
proof -
  obtain k where k: "k < length xs" "xs ! k = (b, i)" using assms(2) by (auto simp: in_set_conv_nth)
  have "k < n"
  proof (rule ccontr)
    assume "\<not> k < n"
    then have "n \<le> k" "n < length xs" using k(1) by auto
    then have "fst (xs ! n) \<le> b" using sorted_nth_mono [OF assms(1), of n k] k by simp
    moreover have "\<not> fst (xs ! n) \<le> pc"
      using nth_length_takeWhile [of "\<lambda>(base, _). base \<le> pc" xs] \<open>n < length xs\<close>
      by (simp add: n_def partition_point_def split: prod.splits)
    ultimately show False using assms(3) by simp
  qed
  moreover have "n \<le> length xs" by (simp add: n_def partition_point_def length_takeWhile_le)
  moreover have "b \<le> fst (xs ! (n - 1))"
    using sorted_nth_mono [OF assms(1), of k "n - 1"] k calculation by simp
  ultimately show ?thesis by simp
qed

lemma prefix_le:
  assumes "n = partition_point (\<lambda>(base, _). base \<le> (pc :: nat)) xs" "0 < n"
  shows "n \<le> length xs" "fst (xs ! (n - 1)) \<le> pc"
proof -
  show le: "n \<le> length xs" using assms by (simp add: partition_point_def length_takeWhile_le)
  have "takeWhile (\<lambda>(base, _). base \<le> pc) xs ! (n - 1) = xs ! (n - 1)"
    using assms by (intro takeWhile_nth) (simp add: partition_point_def)
  moreover have "takeWhile (\<lambda>(base, _). base \<le> pc) xs ! (n - 1) \<in> set (takeWhile (\<lambda>(base, _). base \<le> pc) xs)"
    using assms by (intro nth_mem) (simp add: partition_point_def)
  ultimately show "fst (xs ! (n - 1)) \<le> pc" by (auto dest: set_takeWhileD split: prod.splits)
qed

lemma find_by_pc_iff:
  assumes wf: "tb_wf t"
  shows "find_by_pc t pc = Some i \<longleftrightarrow>
    (\<exists>nm. get_nm t i = Some nm \<and> nm_code_base nm \<le> pc \<and> pc < nm_code_base nm + nm_code_len nm)"
proof -
  have w: "slots_wf t" "addrs_wf t" using wf by (simp_all add: tb_wf_def)
  let ?n = "partition_point (\<lambda>(base, _). base \<le> pc) (tb_by_addr t)"
  have at: "\<exists>nm. get_nm t j = Some nm \<and> nm_code_base nm = b" if "0 < ?n" "tb_by_addr t ! (?n - 1) = (b, j)" for b j
  proof -
    have "tb_by_addr t ! (?n - 1) \<in> set (tb_by_addr t)" using prefix_le(1) [OF refl, of pc "tb_by_addr t"] that by (intro nth_mem) simp
    then show ?thesis using that(2) w(2) unfolding addrs_wf_def by simp
  qed
  show ?thesis
  proof
    assume f: "find_by_pc t pc = Some i"
    then have n: "0 < ?n" by (cases "?n = 0") (simp_all add: find_by_pc_def)
    obtain b j where bj: "tb_by_addr t ! (?n - 1) = (b, j)" by fastforce
    from at [OF n bj] obtain nm where "get_nm t j = Some nm" "nm_code_base nm = b" by blast
    with f n bj show "\<exists>nm. get_nm t i = Some nm \<and> nm_code_base nm \<le> pc \<and> pc < nm_code_base nm + nm_code_len nm"
      by (auto simp: find_by_pc_def Let_def split: if_splits)
  next
    assume "\<exists>nm. get_nm t i = Some nm \<and> nm_code_base nm \<le> pc \<and> pc < nm_code_base nm + nm_code_len nm"
    then obtain nm where nm: "get_nm t i = Some nm" "nm_code_base nm \<le> pc" "pc < nm_code_base nm + nm_code_len nm" by blast
    then have "(nm_code_base nm, i) \<in> set (tb_by_addr t)" using w(2) by (simp add: addrs_wf_def)
    from sorted_prefix_ge [OF _ this nm(2)] w(2)
    have n: "0 < ?n" "nm_code_base nm \<le> fst (tb_by_addr t ! (?n - 1))" by (simp_all add: addrs_wf_def)
    obtain b j where bj: "tb_by_addr t ! (?n - 1) = (b, j)" by fastforce
    from at [OF n(1) bj] obtain nm' where nm': "get_nm t j = Some nm'" "nm_code_base nm' = b" by blast
    have "b \<le> pc" using prefix_le(2) [OF refl n(1)] bj by simp
    moreover have "0 < nm_code_len nm'" using w(1) nm' by (simp add: slots_wf_def)
    moreover have "disjoint_code nm nm'" if "j \<noteq> i" using w(1) nm(1) nm'(1) that unfolding slots_wf_def by metis
    ultimately have "j = i" using nm nm'(2) n(2) bj unfolding disjoint_code_def by fastforce
    then show "find_by_pc t pc = Some i" using nm nm' n(1) bj by (simp add: find_by_pc_def)
  qed
qed

subsection \<open>The life of a table\<close>

text \<open>
  The operations the virtual machine performs on the table: publishing a compiled method (with code
  outside every installed range), registering its OSR entry, retiring it, flushing it (zombie, then
  removed) and the collectors' pass over keys followed by \<open>rehash\<close>.
\<close>

inductive table_step :: "code_table \<Rightarrow> code_table \<Rightarrow> bool" where
  step_install: "fresh_code nm t \<Longrightarrow> install_nm nm t = (i, t') \<Longrightarrow> table_step t t'"
| step_osr: "get_nm t i = Some nm \<Longrightarrow> nm_state nm = Alive \<Longrightarrow> nm_block_method nm = None \<Longrightarrow> nm_osr_map nm = Some m \<Longrightarrow>
    table_step t (install_osr (nm_key_klass nm) (nm_key_selector nm) (osr_bci m) i t)"
| step_retire: "set_not_entrant i t = Some t' \<Longrightarrow> table_step t t'"
| step_flush: "mark_zombie i t = Some t1 \<Longrightarrow> remove_nm i t1 = Some (nm, t') \<Longrightarrow> table_step t t'"
| step_gc: "table_step t (rehash_table (update_keys True f t))"

inductive table_reach :: "code_table \<Rightarrow> bool" where
  reach_new: "table_reach new_table"
| reach_step: "table_reach t \<Longrightarrow> table_step t t' \<Longrightarrow> table_reach t'"

lemma new_table_wf: "tb_wf new_table"
  by (simp add: tb_wf_def slots_wf_def indexes_wf_def addrs_wf_def new_table_def get_nm_eq)

lemma install_osr_wf:
  assumes wf: "tb_wf t" and nm: "get_nm t i = Some nm" "nm_state nm = Alive" "nm_block_method nm = None" "nm_osr_map nm = Some m"
  shows "tb_wf (install_osr (nm_key_klass nm) (nm_key_selector nm) (osr_bci m) i t)"
proof -
  let ?t = "install_osr (nm_key_klass nm) (nm_key_selector nm) (osr_bci m) i t"
  have get: "get_nm ?t = get_nm t" by (simp add: fun_eq_iff get_nm_eq install_osr_def)
  have "names_alive t i (osr_keyed (nm_key_klass nm, nm_key_selector nm, osr_bci m))"
    using nm by (simp add: names_alive_def osr_keyed_def)
  then show ?thesis using wf
    unfolding tb_wf_def slots_wf_def indexes_wf_def addrs_wf_def names_alive_def get
    by (simp add: install_osr_def)
qed

lemma flush_spec:
  assumes wf: "tb_wf t" and nm: "get_nm t i = Some nm"
  shows "\<exists>t'. do { t1 \<leftarrow> mark_zombie i t; remove_nm i t1 } = Some (nm\<lparr>nm_state := Zombie\<rparr>, t') \<and> tb_wf t' \<and>
    (\<forall>j. get_nm t' j = (if j = i then None else get_nm t j)) \<and>
    (\<forall>k. tb_by_key t' k = (if tb_by_key t k = Some i then None else tb_by_key t k)) \<and>
    (\<forall>b. tb_by_block t' b = (if tb_by_block t b = Some i then None else tb_by_block t b)) \<and>
    (\<forall>k. tb_osr t' k = (if tb_osr t k = Some i then None else tb_osr t k))"
proof -
  have ix: "indexes_wf t" using wf by (simp add: tb_wf_def)
  let ?t1 = "retire Zombie i nm t"
  have "mark_zombie i t = Some ?t1" using nm by (simp add: mark_zombie_def)
  moreover have "tb_wf ?t1" by (rule retire_wf [OF wf nm])
  moreover obtain t' where "remove_nm i ?t1 = Some (nm\<lparr>nm_state := Zombie\<rparr>, t')" "tb_wf t'"
    "\<forall>j. get_nm t' j = (if j = i then None else get_nm ?t1 j)" "tb_by_key t' = tb_by_key ?t1"
    "tb_by_block t' = tb_by_block ?t1" "tb_osr t' = tb_osr ?t1"
  proof -
    have "tb_by_key ?t1 k \<noteq> Some i" "tb_by_block ?t1 b \<noteq> Some i" "tb_osr ?t1 ok \<noteq> Some i" for k b ok
      by (simp_all only: retire_indexes [OF ix nm]) simp_all
    moreover have "get_nm ?t1 i = Some (nm\<lparr>nm_state := Zombie\<rparr>)" by (simp add: retire_get [OF nm])
    ultimately show thesis using remove_wf [OF retire_wf [OF wf nm]] that by metis
  qed
  ultimately show ?thesis using retire_get [OF nm, of Zombie] retire_indexes(1-3) [OF ix nm, of Zombie] by auto
qed

lemma step_wf: "table_step t t' \<Longrightarrow> tb_wf t \<Longrightarrow> tb_wf t'"
proof (induction rule: table_step.induct)
  case (step_flush i t t1 nm t')
  then obtain nm0 where "get_nm t i = Some nm0" by (auto simp: mark_zombie_def bind_eq_Some_conv)
  with flush_spec [OF step_flush.prems this] step_flush.hyps show ?case by auto
qed (auto simp: set_not_entrant_def bind_eq_Some_conv intro: install_wf install_osr_wf retire_wf gc_wf)

lemma reach_wf: "table_reach t \<Longrightarrow> tb_wf t"
  by (induction rule: table_reach.induct) (auto intro: new_table_wf step_wf)

lemma option_ext: "(\<And>x. a = Some x \<longleftrightarrow> b = Some x) \<Longrightarrow> a = b"
  by (cases a; cases b) auto

lemma find_by_pc_removed:
  assumes "tb_wf t" "tb_wf t'" "\<forall>j. get_nm t' j = (if j = i then None else get_nm t j)"
  shows "find_by_pc t' pc = (if find_by_pc t pc = Some i then None else find_by_pc t pc)"
proof (rule option_ext)
  fix j
  show "find_by_pc t' pc = Some j \<longleftrightarrow> (if find_by_pc t pc = Some i then None else find_by_pc t pc) = Some j"
    using assms(3) find_by_pc_iff [OF assms(1), of pc j] find_by_pc_iff [OF assms(2), of pc j]
    by (cases "j = i") auto
qed

lemma retire_find_by_pc:
  assumes "tb_wf t" "get_nm t i = Some nm"
  shows "find_by_pc (retire s i nm t) pc = find_by_pc t pc"
proof (rule option_ext)
  fix j
  show "find_by_pc (retire s i nm t) pc = Some j \<longleftrightarrow> find_by_pc t pc = Some j"
    unfolding find_by_pc_iff [OF assms(1)] find_by_pc_iff [OF retire_wf [OF assms]] retire_get [OF assms(2)]
    using assms(2) by auto
qed

text \<open>An alive nmethod is what its block index says; the state check of \<open>lookup_block\<close> never fails.\<close>

lemma lookup_block_eq: "indexes_wf t \<Longrightarrow> lookup_block t b = tb_by_block t b"
  unfolding lookup_block_def by (cases "tb_by_block t b") (auto dest!: indexes_wfD(2) simp: names_alive_def)

text \<open>The table without the index entries that name \<open>i\<close>, whether it was retired or flushed.\<close>

definition forgets :: "nat \<Rightarrow> code_table \<Rightarrow> code_table \<Rightarrow> bool" where
  "forgets i t t' \<longleftrightarrow>
     (\<forall>k s. lookup_nm t' k s = (if lookup_nm t k s = Some i then None else lookup_nm t k s)) \<and>
     (\<forall>b. lookup_block t' b = (if lookup_block t b = Some i then None else lookup_block t b)) \<and>
     (\<forall>k s bci. lookup_osr t' k s bci = (if lookup_osr t k s bci = Some i then None else lookup_osr t k s bci))"

lemma retire_forgets:
  assumes "tb_wf t" "get_nm t i = Some nm"
  shows "forgets i t (retire s i nm t)"
proof -
  have ix: "indexes_wf t" "indexes_wf (retire s i nm t)" using assms(1) retire_wf [OF assms] by (simp_all add: tb_wf_def)
  show ?thesis unfolding forgets_def lookup_nm_def lookup_osr_def
    by (simp add: lookup_block_eq [OF ix(1)] lookup_block_eq [OF ix(2)] retire_indexes [OF ix(1) assms(2)])
qed

lemma flush_forgets:
  assumes wf: "tb_wf t" and nm: "get_nm t i = Some nm"
  shows "\<exists>t'. do { t1 \<leftarrow> mark_zombie i t; remove_nm i t1 } = Some (nm\<lparr>nm_state := Zombie\<rparr>, t') \<and>
    (\<forall>j. get_nm t' j = (if j = i then None else get_nm t j)) \<and>
    (\<forall>pc. find_by_pc t' pc = (if find_by_pc t pc = Some i then None else find_by_pc t pc)) \<and> forgets i t t'"
proof -
  obtain t' where
      t': "do { t1 \<leftarrow> mark_zombie i t; remove_nm i t1 } = Some (nm\<lparr>nm_state := Zombie\<rparr>, t')" "tb_wf t'"
      "\<forall>j. get_nm t' j = (if j = i then None else get_nm t j)"
      "\<forall>k. tb_by_key t' k = (if tb_by_key t k = Some i then None else tb_by_key t k)"
      "\<forall>b. tb_by_block t' b = (if tb_by_block t b = Some i then None else tb_by_block t b)"
      "\<forall>k. tb_osr t' k = (if tb_osr t k = Some i then None else tb_osr t k)" using flush_spec [OF wf nm] by blast
  have ix: "indexes_wf t" "indexes_wf t'" using wf t'(2) by (simp_all add: tb_wf_def)
  have "forgets i t t'" unfolding forgets_def lookup_nm_def lookup_osr_def
    by (simp add: lookup_block_eq [OF ix(1)] lookup_block_eq [OF ix(2)] t'(4-6))
  then show ?thesis using t'(1,3) find_by_pc_removed [OF wf t'(2,3)] by blast
qed

text \<open>
  C11. The code table's indexes never go stale. In every state reached by publishing, OSR
  registration, retirement, flushing and collection, a hit in the key, block or OSR index is an installed
  alive nmethod filed under that very key; \<open>find_by_pc\<close> returns an nmethod exactly when the program
  counter lies in its code. Retiring an alive nmethod succeeds, keeps it and every other nmethod findable by address and removes
  from each of the three indexes only the entries that name it, so a replacement already filed under the same key, block or OSR entry stays;
  flushing an nmethod succeeds, removes from the three indexes only the entries that name it, and from the address table only its own code.
\<close>
theorem code_table_consistent:
  assumes "table_reach t"
  shows "(\<forall>k s i. lookup_nm t k s = Some i \<longrightarrow>
      (\<exists>nm. get_nm t i = Some nm \<and> nm_state nm = Alive \<and> nm_block_method nm = None \<and> nm_key nm = (k, s))) \<and>
    (\<forall>b i. lookup_block t b = Some i \<longrightarrow>
      (\<exists>nm. get_nm t i = Some nm \<and> nm_state nm = Alive \<and> nm_block_method nm = Some b)) \<and>
    (\<forall>k s bci i. lookup_osr t k s bci = Some i \<longrightarrow>
      (\<exists>nm m. get_nm t i = Some nm \<and> nm_state nm = Alive \<and> nm_key nm = (k, s) \<and> nm_osr_map nm = Some m \<and> osr_bci m = bci)) \<and>
    (\<forall>pc i. find_by_pc t pc = Some i \<longleftrightarrow>
      (\<exists>nm. get_nm t i = Some nm \<and> nm_code_base nm \<le> pc \<and> pc < nm_code_base nm + nm_code_len nm)) \<and>
    (\<forall>i nm. get_nm t i = Some nm \<and> nm_state nm = Alive \<longrightarrow>
      (\<exists>t'. set_not_entrant i t = Some t' \<and> (\<forall>pc. find_by_pc t' pc = find_by_pc t pc) \<and>
        (\<forall>k s. lookup_nm t' k s = (if lookup_nm t k s = Some i then None else lookup_nm t k s)) \<and>
        (\<forall>b. lookup_block t' b = (if lookup_block t b = Some i then None else lookup_block t b)) \<and>
        (\<forall>k s bci. lookup_osr t' k s bci = (if lookup_osr t k s bci = Some i then None else lookup_osr t k s bci)))) \<and>
    (\<forall>i nm. get_nm t i = Some nm \<longrightarrow>
      (\<exists>nm' t'. do { t1 \<leftarrow> mark_zombie i t; remove_nm i t1 } = Some (nm', t') \<and> nm_code_base nm' = nm_code_base nm \<and>
        (\<forall>j. get_nm t' j = (if j = i then None else get_nm t j)) \<and>
        (\<forall>pc. find_by_pc t' pc = (if find_by_pc t pc = Some i then None else find_by_pc t pc)) \<and>
        (\<forall>k s. lookup_nm t' k s = (if lookup_nm t k s = Some i then None else lookup_nm t k s)) \<and>
        (\<forall>b. lookup_block t' b = (if lookup_block t b = Some i then None else lookup_block t b)) \<and>
        (\<forall>k s bci. lookup_osr t' k s bci = (if lookup_osr t k s bci = Some i then None else lookup_osr t k s bci))))"
proof (intro conjI)
  have wf: "tb_wf t" using reach_wf [OF assms] .
  then have ix: "indexes_wf t" by (simp add: tb_wf_def)
  show "\<forall>k s i. lookup_nm t k s = Some i \<longrightarrow>
      (\<exists>nm. get_nm t i = Some nm \<and> nm_state nm = Alive \<and> nm_block_method nm = None \<and> nm_key nm = (k, s))"
    using indexes_wfD(1) [OF ix] unfolding lookup_nm_def names_alive_def keyed_def by metis
  show "\<forall>b i. lookup_block t b = Some i \<longrightarrow> (\<exists>nm. get_nm t i = Some nm \<and> nm_state nm = Alive \<and> nm_block_method nm = Some b)"
    using indexes_wfD(2) [OF ix] unfolding names_alive_def lookup_block_eq [OF ix] by blast
  show "\<forall>k s bci i. lookup_osr t k s bci = Some i \<longrightarrow>
      (\<exists>nm m. get_nm t i = Some nm \<and> nm_state nm = Alive \<and> nm_key nm = (k, s) \<and> nm_osr_map nm = Some m \<and> osr_bci m = bci)"
    using indexes_wfD(3) [OF ix] unfolding lookup_osr_def names_alive_def osr_keyed_def nm_key_def by fastforce
  show "\<forall>pc i. find_by_pc t pc = Some i \<longleftrightarrow>
      (\<exists>nm. get_nm t i = Some nm \<and> nm_code_base nm \<le> pc \<and> pc < nm_code_base nm + nm_code_len nm)"
    using find_by_pc_iff [OF wf] by blast
qed (use reach_wf [OF assms] retire_find_by_pc retire_forgets [unfolded forgets_def] in \<open>fastforce simp: set_not_entrant_def\<close>,
     use reach_wf [OF assms] flush_forgets [unfolded forgets_def] in fastforce)

definition demo_nm :: nmethod where
  "demo_nm = \<lparr>nm_id = 0, nm_key_klass = 17, nm_key_selector = 33, nm_code_base = 4096, nm_code_len = 64,
     nm_entry_off = 0, nm_verified_entry_off = 16, nm_state = Alive, nm_relocs = [], nm_pcdescs = [], nm_oopmaps = [],
     nm_ic_sites = [], nm_block_method = None, nm_deopt_scopes = [], nm_deopt_pcdescs = [], nm_inline_deps = [],
     nm_osr_map = None, nm_osr_cold_sends = 0\<rparr>"

lemma demo_reach: "table_reach (snd (install_nm demo_nm new_table))"
proof (rule reach_step [OF reach_new])
  have "fresh_code demo_nm new_table" by (simp add: fresh_code_def demo_nm_def get_nm_eq new_table_def)
  then show "table_step new_table (snd (install_nm demo_nm new_table))"
    using step_install by (metis prod.collapse)
qed

text \<open>The same method compiled again before its first version is retired.\<close>

definition demo_table :: code_table where
  "demo_table = snd (install_nm (demo_nm\<lparr>nm_code_base := 8192\<rparr>) (snd (install_nm demo_nm new_table)))"

lemma demo_table_facts:
  "table_reach demo_table" "get_nm demo_table 0 = Some demo_nm" "get_nm demo_table 1 = Some (demo_nm\<lparr>nm_id := 1, nm_code_base := 8192\<rparr>)"
  "lookup_nm demo_table 17 33 = Some 1" "1 < i \<Longrightarrow> get_nm demo_table i = None"
proof -
  let ?t = "snd (install_nm demo_nm new_table)"
  have g: "get_nm ?t i = (if i = 0 then Some demo_nm else None)" for i
    by (simp add: install_nm_def new_table_def demo_nm_def get_nm_eq partition_point_def Let_def)
  have "fresh_code (demo_nm\<lparr>nm_code_base := 8192\<rparr>) ?t"
    unfolding fresh_code_def disjoint_code_def g by (simp add: demo_nm_def)
  then show "table_reach demo_table"
    unfolding demo_table_def by (intro reach_step [OF demo_reach] step_install) (auto intro: prod.collapse [symmetric])
  show "get_nm demo_table 0 = Some demo_nm" "get_nm demo_table 1 = Some (demo_nm\<lparr>nm_id := 1, nm_code_base := 8192\<rparr>)"
    "lookup_nm demo_table 17 33 = Some 1" "1 < i \<Longrightarrow> get_nm demo_table i = None"
    by (simp_all add: demo_table_def install_nm_def new_table_def demo_nm_def get_nm_eq lookup_nm_def nm_key_def partition_point_def Let_def)
qed

theorem code_table_consistent_witness:
  "find_by_pc demo_table 4100 = Some 0 \<and>
   (\<exists>t'. set_not_entrant 0 demo_table = Some t' \<and> lookup_nm t' 17 33 = Some 1 \<and> find_by_pc t' 4100 = Some 0)"
proof -
  note c = code_table_consistent [OF demo_table_facts(1)]
  have "\<exists>nm. get_nm demo_table 0 = Some nm \<and> nm_code_base nm \<le> 4100 \<and> 4100 < nm_code_base nm + nm_code_len nm"
    by (simp add: demo_table_facts) (simp add: demo_nm_def)
  then have f: "find_by_pc demo_table 4100 = Some 0" using c [THEN conjunct2, THEN conjunct2, THEN conjunct2, THEN conjunct1] by blast
  have "get_nm demo_table 0 = Some demo_nm \<and> nm_state demo_nm = Alive" by (simp add: demo_table_facts) (simp add: demo_nm_def)
  from c [THEN conjunct2, THEN conjunct2, THEN conjunct2, THEN conjunct2, THEN conjunct1, rule_format, OF this]
  obtain t' where "set_not_entrant 0 demo_table = Some t'" "\<forall>pc. find_by_pc t' pc = find_by_pc demo_table pc"
    "\<forall>k s. lookup_nm t' k s = (if lookup_nm demo_table k s = Some 0 then None else lookup_nm demo_table k s)" by blast
  then show ?thesis using f by (simp add: demo_table_facts)
qed

subsection \<open>Lookups after a moving collection\<close>

text \<open>
  The rebuilt indexes: of the alive nmethods that claim a key, the one in the highest slot gets it. Two may claim one key, since an OSR
  compilation publishes a second version while the first stays alive.
\<close>

definition newest :: "code_table \<Rightarrow> (nmethod \<Rightarrow> bool) \<Rightarrow> nat \<Rightarrow> bool" where
  "newest t P i \<longleftrightarrow> names_alive t i P \<and> (\<forall>j > i. \<not> names_alive t j P)"

definition oops_in :: "oop set \<Rightarrow> code_table \<Rightarrow> bool" where
  "oops_in L t \<longleftrightarrow> (\<forall>i nm. get_nm t i = Some nm \<longrightarrow>
     nm_key_klass nm \<in> L \<and> nm_key_selector nm \<in> L \<and> (\<forall>b. nm_block_method nm = Some b \<longrightarrow> b \<in> L))"

definition claim :: "(nmethod \<Rightarrow> bool) \<Rightarrow> nmethod list \<Rightarrow> nat option" where
  "claim P nms = (let cs = filter (\<lambda>nm. nm_state nm = Alive \<and> P nm) nms in if cs = [] then None else Some (nm_id (last cs)))"

lemma claim_snoc: "claim P (nms @ [nm]) = (if nm_state nm = Alive \<and> P nm then Some (nm_id nm) else claim P nms)"
  by (simp add: claim_def Let_def)

lemma rehash_claims:
  "tb_by_key (fold rehash_one nms t) k = (case claim (keyed k) nms of None \<Rightarrow> tb_by_key t k | Some i \<Rightarrow> Some i)"
  "tb_by_block (fold rehash_one nms t) b = (case claim (\<lambda>nm. nm_block_method nm = Some b) nms of None \<Rightarrow> tb_by_block t b | Some i \<Rightarrow> Some i)"
  "tb_osr (fold rehash_one nms t) ok = (case claim (osr_keyed ok) nms of None \<Rightarrow> tb_osr t ok | Some i \<Rightarrow> Some i)"
proof (induction nms rule: rev_induct)
  case (snoc nm nms)
  have one: "tb_by_key (rehash_one nm u) k = (if nm_state nm = Alive \<and> keyed k nm then Some (nm_id nm) else tb_by_key u k)"
    "tb_by_block (rehash_one nm u) b = (if nm_state nm = Alive \<and> nm_block_method nm = Some b then Some (nm_id nm) else tb_by_block u b)"
    "tb_osr (rehash_one nm u) ok = (if nm_state nm = Alive \<and> osr_keyed ok nm then Some (nm_id nm) else tb_osr u ok)" for u
    by (auto simp: rehash_one_def Let_def keyed_def osr_keyed_def nm_key_def split: option.splits)
  { case 1 then show ?case using snoc.IH(1) by (simp add: one claim_snoc) }
  { case 2 then show ?case using snoc.IH(2) by (simp add: one claim_snoc) }
  { case 3 then show ?case using snoc.IH(3) by (simp add: one claim_snoc) }
qed (simp_all add: claim_def)

text \<open>The nmethods of a table come in the order of their ids, so the last claim is the highest.\<close>

lemma all_nms_sorted:
  assumes "slots_wf t"
  shows "sorted_wrt (<) (map nm_id (all_nms t))"
proof -
  have "sorted_wrt (<) (map nm_id (List.map_filter (\<lambda>s. s) xs)) \<and> (\<forall>nm \<in> set (List.map_filter (\<lambda>s. s) xs). n \<le> nm_id nm)"
    if "\<forall>i < length xs. \<forall>nm. xs ! i = Some nm \<longrightarrow> nm_id nm = n + i" for xs n
    using that
  proof (induction xs arbitrary: n)
    case (Cons x xs)
    have "\<forall>i < length xs. \<forall>nm. xs ! i = Some nm \<longrightarrow> nm_id nm = Suc n + i" using Cons.prems by force
    from Cons.IH [OF this] show ?case
      using Cons.prems [rule_format, of 0] by (cases x) (auto simp: List.map_filter_simps Suc_le_eq)
  qed (simp add: List.map_filter_simps)
  from this [of "tb_slots t" 0] show ?thesis
    using assms by (auto simp: all_nms_def slots_wf_def get_nm_eq)
qed

lemma last_greatest: "sorted_wrt (<) (map g xs) \<Longrightarrow> x \<in> set xs \<Longrightarrow> (g x :: nat) \<le> g (last xs)"
  by (induction xs rule: rev_induct) (auto simp: sorted_wrt_append less_imp_le)

lemma claim_newest:
  assumes "slots_wf t"
  shows "claim P (all_nms t) = Some i \<longleftrightarrow> newest t P i" "claim P (all_nms t) = None \<longleftrightarrow> (\<forall>j. \<not> names_alive t j P)"
proof -
  let ?fs = "filter (\<lambda>nm. nm_state nm = Alive \<and> P nm) (all_nms t)"
  have mem: "nm \<in> set ?fs \<longleftrightarrow> get_nm t (nm_id nm) = Some nm \<and> nm_state nm = Alive \<and> P nm" for nm
    using assms by (auto simp: all_nms_set slots_wf_def)
  have names: "names_alive t j P \<longleftrightarrow> (\<exists>nm \<in> set ?fs. nm_id nm = j)" for j
    unfolding names_alive_def mem Bex_def using assms [unfolded slots_wf_def, THEN conjunct1] by metis
  have sorted: "sorted_wrt (<) (map nm_id ?fs)"
    using all_nms_sorted [OF assms] by (simp add: sorted_wrt_map sorted_wrt_filter)
  have top: "x \<in> set ?fs \<Longrightarrow> nm_id x \<le> nm_id (last ?fs)" for x
    by (rule last_greatest [OF sorted])
  have c: "claim P (all_nms t) = (if ?fs = [] then None else Some (nm_id (last ?fs)))"
    by (simp add: claim_def Let_def)
  show "claim P (all_nms t) = None \<longleftrightarrow> (\<forall>j. \<not> names_alive t j P)"
    unfolding names c by (cases ?fs) auto
  show "claim P (all_nms t) = Some i \<longleftrightarrow> newest t P i"
  proof (cases "?fs = []")
    case True
    then show ?thesis unfolding newest_def names c by simp
  next
    case False
    then have "last ?fs \<in> set ?fs" by (rule last_in_set)
    then show ?thesis using False top unfolding newest_def names c
      by (metis (no_types, lifting) linorder_not_less option.inject order_antisym_conv)
  qed
qed

lemma moved_claims:
  assumes "inj_on f L" "oops_in L t" "get_nm t i = Some nm" "k \<in> L" "s \<in> L"
  shows "keyed (f k, f s) (update_nm_keys True f nm) \<longleftrightarrow> keyed (k, s) nm"
    "nm_block_method (update_nm_keys True f nm) = Some (f k) \<longleftrightarrow> nm_block_method nm = Some k"
    "osr_keyed (f k, f s, bci) (update_nm_keys True f nm) \<longleftrightarrow> osr_keyed (k, s, bci) nm"
  using assms unfolding oops_in_def
  by (auto simp: keyed_def osr_keyed_def nm_key_def update_nm_keys_def dest: inj_onD)

lemma rebuilt_indexes:
  fixes f t
  assumes wf: "tb_wf t"
    and moved: "\<And>i nm. get_nm t i = Some nm \<Longrightarrow> P' (update_nm_keys True f nm) = P nm"
  defines "u \<equiv> update_keys True f t"
  shows "claim P' (all_nms u) = Some i \<longleftrightarrow> newest t P i" "claim P' (all_nms u) = None \<longleftrightarrow> (\<forall>j. \<not> names_alive t j P)"
proof -
  have get: "get_nm u j = map_option (update_nm_keys True f) (get_nm t j)" for j by (simp add: u_def update_keys_def get_nm_eq)
  have "get_nm (rehash_table u) = get_nm u" by (rule ext, rule get_nm_cong) (simp add: rehash_table_def rehash_fields)
  then have wfu: "slots_wf u" using gc_wf [OF wf, of True f] unfolding tb_wf_def slots_wf_def u_def by simp
  have names: "names_alive u j P' \<longleftrightarrow> names_alive t j P" for j
    using moved by (cases "get_nm t j") (auto simp: names_alive_def get)
  show "claim P' (all_nms u) = Some i \<longleftrightarrow> newest t P i" "claim P' (all_nms u) = None \<longleftrightarrow> (\<forall>j. \<not> names_alive t j P)"
    unfolding claim_newest [OF wfu] newest_def names by (rule refl)+
qed

lemma rehash_lookups:
  "lookup_nm (rehash_table u) k s = claim (keyed (k, s)) (all_nms u)"
  "indexes_wf (rehash_table u) \<Longrightarrow> lookup_block (rehash_table u) b = claim (\<lambda>nm. nm_block_method nm = Some b) (all_nms u)"
  "lookup_osr (rehash_table u) k s bci = claim (osr_keyed (k, s, bci)) (all_nms u)"
proof -
  show "lookup_nm (rehash_table u) k s = claim (keyed (k, s)) (all_nms u)"
    unfolding lookup_nm_def rehash_table_def rehash_claims by (simp split: option.split)
  show "lookup_osr (rehash_table u) k s bci = claim (osr_keyed (k, s, bci)) (all_nms u)"
    unfolding lookup_osr_def rehash_table_def rehash_claims by (simp split: option.split)
  assume w: "indexes_wf (rehash_table u)"
  have "lookup_block (rehash_table u) b = tb_by_block (rehash_table u) b" by (rule lookup_block_eq [OF w])
  also have "\<dots> = claim (\<lambda>nm. nm_block_method nm = Some b) (all_nms u)"
    unfolding rehash_table_def rehash_claims by (simp split: option.split)
  finally show "lookup_block (rehash_table u) b = claim (\<lambda>nm. nm_block_method nm = Some b) (all_nms u)" .
qed

text \<open>
  C25. Compiled code stays reachable across a moving collection. In every table the machine can reach, when the collector's forwarding is
  injective on a set of oops that holds the keys of the nmethods and the oops looked up, updating the keys and rebuilding the indexes gives a table in which the forwarded klass and selector find exactly the alive
  nmethod of that key in the highest slot; the same holds of the block and the OSR index. So a lookup that found an nmethod still finds one, and it finds the same one if
  no other alive nmethod has that key. (When two are alive, as after an OSR compilation, a lookup may change from one to the other.) Code addresses resolve as before.
\<close>
theorem gc_preserves_code_lookup:
  assumes "table_reach t" "oops_in L t" "inj_on f L" "k \<in> L" "s \<in> L"
  shows "let t' = rehash_table (update_keys True f t) in
    (\<forall>i. lookup_nm t' (f k) (f s) = Some i \<longleftrightarrow> newest t (keyed (k, s)) i) \<and>
    (\<forall>i. lookup_block t' (f k) = Some i \<longleftrightarrow> newest t (\<lambda>nm. nm_block_method nm = Some k) i) \<and>
    (\<forall>bci i. lookup_osr t' (f k) (f s) bci = Some i \<longleftrightarrow> newest t (osr_keyed (k, s, bci)) i) \<and>
    (\<forall>i. lookup_nm t k s = Some i \<longrightarrow> lookup_nm t' (f k) (f s) \<noteq> None \<and>
       ((\<forall>j. names_alive t j (keyed (k, s)) \<longrightarrow> j = i) \<longrightarrow> lookup_nm t' (f k) (f s) = Some i)) \<and>
    (\<forall>i. lookup_block t k = Some i \<longrightarrow> lookup_block t' (f k) \<noteq> None \<and>
       ((\<forall>j. names_alive t j (\<lambda>nm. nm_block_method nm = Some k) \<longrightarrow> j = i) \<longrightarrow> lookup_block t' (f k) = Some i)) \<and>
    (\<forall>pc. find_by_pc t' pc = find_by_pc t pc)"
proof -
  let ?u = "update_keys True f t" and ?t = "rehash_table (update_keys True f t)"
  have wf: "tb_wf t" "tb_wf ?t" using reach_wf [OF assms(1)] gc_wf by blast+
  have ix: "indexes_wf t" "indexes_wf ?t" using wf by (simp_all add: tb_wf_def)
  note mv = moved_claims [OF assms(3,2) _ assms(4,5)]
  note claims = rebuilt_indexes [OF wf(1)]
  have keyed_eq: "keyed (f k, f s) (update_nm_keys True f nm) = keyed (k, s) nm" if "get_nm t i = Some nm" for i nm
    by (rule mv(1) [OF that])
  have block_eq: "(nm_block_method (update_nm_keys True f nm) = Some (f k)) = (nm_block_method nm = Some k)" if "get_nm t i = Some nm" for i nm
    by (rule mv(2) [OF that])
  have osr_eq: "osr_keyed (f k, f s, bci) (update_nm_keys True f nm) = osr_keyed (k, s, bci) nm" if "get_nm t i = Some nm" for i nm bci
    by (rule mv(3) [OF that])
  have nm: "lookup_nm ?t (f k) (f s) = Some i \<longleftrightarrow> newest t (keyed (k, s)) i" for i
    unfolding rehash_lookups(1) by (rule claims(1)) (rule keyed_eq)
  have nm_none: "lookup_nm ?t (f k) (f s) = None \<longleftrightarrow> (\<forall>j. \<not> names_alive t j (keyed (k, s)))"
    unfolding rehash_lookups(1) by (rule claims(2)) (rule keyed_eq)
  have bk: "lookup_block ?t (f k) = Some i \<longleftrightarrow> newest t (\<lambda>nm. nm_block_method nm = Some k) i" for i
    unfolding rehash_lookups(2) [OF ix(2)] by (rule claims(1)) (rule block_eq)
  have bk_none: "lookup_block ?t (f k) = None \<longleftrightarrow> (\<forall>j. \<not> names_alive t j (\<lambda>nm. nm_block_method nm = Some k))"
    unfolding rehash_lookups(2) [OF ix(2)] by (rule claims(2)) (rule block_eq)
  have os: "lookup_osr ?t (f k) (f s) bci = Some i \<longleftrightarrow> newest t (osr_keyed (k, s, bci)) i" for bci i
    unfolding rehash_lookups(3) by (rule claims(1)) (rule osr_eq)
  have pc: "find_by_pc ?t pc = find_by_pc t pc" for pc
    by (rule option_ext) (auto simp: find_by_pc_iff [OF wf(1)] find_by_pc_iff [OF wf(2)] gc_get)
  have key_hit: "names_alive t i (keyed (k, s))" if "lookup_nm t k s = Some i" for i
    using indexes_wfD(1) [OF ix(1)] that by (simp add: lookup_nm_def)
  have blk_hit: "names_alive t i (\<lambda>nm. nm_block_method nm = Some k)" if "lookup_block t k = Some i" for i
    using indexes_wfD(2) [OF ix(1)] that by (simp add: lookup_block_eq [OF ix(1)])
  have single: "newest t P i" if "names_alive t i P" "\<forall>j. names_alive t j P \<longrightarrow> j = i" for P i
    unfolding newest_def using that by (metis less_irrefl)
  show ?thesis
    unfolding Let_def
  proof (intro conjI allI impI)
    fix i assume h: "lookup_nm t k s = Some i"
    show "lookup_nm ?t (f k) (f s) \<noteq> None" unfolding nm_none using key_hit [OF h] by blast
    show "lookup_nm ?t (f k) (f s) = Some i" if "\<forall>j. names_alive t j (keyed (k, s)) \<longrightarrow> j = i"
      unfolding nm by (rule single [OF key_hit [OF h] that])
  next
    fix i assume h: "lookup_block t k = Some i"
    show "lookup_block ?t (f k) \<noteq> None" unfolding bk_none using blk_hit [OF h] by blast
    show "lookup_block ?t (f k) = Some i" if "\<forall>j. names_alive t j (\<lambda>nm. nm_block_method nm = Some k) \<longrightarrow> j = i"
      unfolding bk by (rule single [OF blk_hit [OF h] that])
  qed (rule nm bk os pc)+
qed

text \<open>Two versions of one method alive: the newer took over the slot of a flushed nmethod, and a collection gives the key back to the older.\<close>

definition osr_table :: code_table where
  "osr_table = snd (install_nm (demo_nm\<lparr>nm_code_base := 12288\<rparr>)
     (demo_table\<lparr>tb_slots := [None, Some (demo_nm\<lparr>nm_id := 1, nm_code_base := 8192\<rparr>)], tb_by_addr := [(8192, 1)]\<rparr>))"

lemma osr_table_facts:
  "table_reach osr_table" "lookup_nm osr_table 17 33 = Some 0" "newest osr_table (keyed (17, 33)) 1"
proof -
  let ?t = "demo_table\<lparr>tb_slots := [None, Some (demo_nm\<lparr>nm_id := 1, nm_code_base := 8192\<rparr>)], tb_by_addr := [(8192, 1)]\<rparr>"
  have "do { t1 \<leftarrow> mark_zombie 0 demo_table; remove_nm 0 t1 } = Some (demo_nm\<lparr>nm_state := Zombie\<rparr>, ?t)"
    by (simp add: demo_table_def install_nm_def new_table_def demo_nm_def get_nm_eq mark_zombie_def retire_def unhook_def remove_nm_def nm_key_def
        insert_at_def partition_point_def Let_def)
  then have fl: "table_reach ?t" using demo_table_facts(1) by (auto simp: bind_eq_Some_conv intro: reach_step step_flush)
  have g: "get_nm ?t i = (if i = 1 then Some (demo_nm\<lparr>nm_id := 1, nm_code_base := 8192\<rparr>) else None)" for i
    by (auto simp: get_nm_eq nth_Cons')
  have "fresh_code (demo_nm\<lparr>nm_code_base := 12288\<rparr>) ?t"
    unfolding fresh_code_def disjoint_code_def g by (simp add: demo_nm_def)
  then show "table_reach osr_table"
    unfolding osr_table_def by (intro reach_step [OF fl] step_install) (auto intro: prod.collapse [symmetric])
  have g': "get_nm osr_table i = (if i = 0 then Some (demo_nm\<lparr>nm_code_base := 12288\<rparr>) else if i = 1 then Some (demo_nm\<lparr>nm_id := 1, nm_code_base := 8192\<rparr>) else None)" for i
    by (auto simp: osr_table_def install_nm_def demo_nm_def get_nm_eq nm_key_def Let_def nth_Cons')
  show "newest osr_table (keyed (17, 33)) 1"
    unfolding newest_def names_alive_def g' by (auto simp: demo_nm_def keyed_def nm_key_def)
  show "lookup_nm osr_table 17 33 = Some 0"
    by (simp add: osr_table_def install_nm_def demo_nm_def lookup_nm_def nm_key_def Let_def)
qed

theorem gc_preserves_code_lookup_witness:
  "lookup_nm (rehash_table (update_keys True (\<lambda>x. x + 64) demo_table)) 81 97 = Some 1 \<and>
   lookup_nm osr_table 17 33 = Some 0 \<and> lookup_nm (rehash_table (update_keys True (\<lambda>x. x + 64) osr_table)) 81 97 = Some 1"
proof -
  have L: "oops_in UNIV t" "inj_on (\<lambda>x :: oop. x + 64) UNIV" for t by (simp_all add: oops_in_def)
  have g: "get_nm demo_table i = (if i = 0 then Some demo_nm else if i = 1 then Some (demo_nm\<lparr>nm_id := 1, nm_code_base := 8192\<rparr>) else None)" for i
    using demo_table_facts(2,3) demo_table_facts(5) [of i] by (cases "i = 0"; cases "i = 1") auto
  have "newest demo_table (keyed (17, 33)) 1"
    unfolding newest_def names_alive_def g by (auto simp: demo_nm_def keyed_def nm_key_def)
  then have "lookup_nm (rehash_table (update_keys True (\<lambda>x. x + 64) demo_table)) (17 + 64) (33 + 64) = Some 1"
    using gc_preserves_code_lookup [OF demo_table_facts(1) L, of 17 33] unfolding Let_def by blast
  moreover have "lookup_nm (rehash_table (update_keys True (\<lambda>x. x + 64) osr_table)) (17 + 64) (33 + 64) = Some 1"
    using gc_preserves_code_lookup [OF osr_table_facts(1) L, of 17 33] osr_table_facts(3) unfolding Let_def by blast
  ultimately show ?thesis using osr_table_facts(2) by simp
qed

subsection \<open>Oop maps and descriptors\<close>

lemma drop_bit_and_1: "drop_bit b (w :: u64) AND 1 \<noteq> 0 \<longleftrightarrow> bit w b"
  by (simp add: and_one_eq odd_iff_mod_2_eq_one [symmetric] bit_iff_odd_drop_bit)

lemma om_is_oop_eq: "om_is_oop bits s \<longleftrightarrow> s div 64 < length bits \<and> bit (bits ! (s div 64)) (s mod 64)"
  by (simp add: om_is_oop_def slice_get_def drop_bit_and_1)

lemma om_set_spec: "om_is_oop (om_set s bits) x \<longleftrightarrow> x = s \<or> om_is_oop bits x"
proof -
  define bits' where "bits' = (if s div 64 \<ge> length bits then bits @ replicate (s div 64 + 1 - length bits) 0 else bits)"
  have len: "s div 64 < length bits'" by (simp add: bits'_def)
  have same: "x div 64 < length bits' \<and> bit (bits' ! (x div 64)) (x mod 64) \<longleftrightarrow> om_is_oop bits x"
    by (auto simp: bits'_def om_is_oop_eq nth_append)
  have set: "om_set s bits = bits'[s div 64 := bits' ! (s div 64) OR push_bit (s mod 64) 1]"
    by (simp add: om_set_def bits'_def Let_def)
  have b1: "bit (push_bit (s mod 64) 1 :: u64) n \<longleftrightarrow> n = s mod 64" for n by (auto simp: bit_exp_iff)
  have "om_is_oop (om_set s bits) x \<longleftrightarrow> x div 64 < length bits' \<and>
    (bit (bits' ! (x div 64)) (x mod 64) \<or> (x div 64 = s div 64 \<and> x mod 64 = s mod 64))"
    using len unfolding set om_is_oop_eq length_list_update
    by (cases "x div 64 = s div 64") (simp_all only: nth_list_update_eq nth_list_update_neq bit_or_iff b1 simp_thms not_sym)
  also have "\<dots> \<longleftrightarrow> om_is_oop bits x \<or> x = s" using len same by (metis div_mult_mod_eq)
  finally show ?thesis by blast
qed

lemma om_iter_set: "s \<in> set (om_iter_slots bits) \<longleftrightarrow> om_is_oop bits s"
proof
  assume "s \<in> set (om_iter_slots bits)"
  then obtain w b where "w < length bits" "b < 64" "bit (bits ! w) b" "s = w * 64 + b"
    by (auto simp: om_iter_slots_def in_set_enumerate_eq drop_bit_and_1)
  then show "om_is_oop bits s" by (simp add: om_is_oop_eq)
next
  assume "om_is_oop bits s"
  then have "s div 64 < length bits" "bit (bits ! (s div 64)) (s mod 64)" by (simp_all add: om_is_oop_eq)
  then have "(s div 64, bits ! (s div 64)) \<in> set (enumerate 0 bits)" "s mod 64 \<in> set (filter (\<lambda>b. drop_bit b (bits ! (s div 64)) AND 1 \<noteq> 0) [0..<64])"
    by (simp_all add: in_set_enumerate_eq drop_bit_and_1)
  then show "s \<in> set (om_iter_slots bits)"
    by (auto simp: om_iter_slots_def image_iff intro!: bexI [of _ "(s div 64, bits ! (s div 64))"])
      (rule exI [of _ "s mod 64"], simp)
qed

lemma om_iter_ascending:
  "sorted_wrt (<) (concat (map (\<lambda>(w, word). map (\<lambda>b. w * 64 + b) (filter (\<lambda>b. drop_bit b word AND 1 \<noteq> 0) [0..<64])) (enumerate n (bits :: u64 list))))"
proof (induction bits arbitrary: n)
  case (Cons word bits)
  have "sorted_wrt (<) (map (\<lambda>b. n * 64 + b) (filter (\<lambda>b. drop_bit b word AND 1 \<noteq> 0) [0..<64]))"
    by (simp add: sorted_wrt_map sorted_wrt_filter)
  then show ?case using Cons [of "Suc n"] by (auto simp: sorted_wrt_append in_set_enumerate_eq)
qed simp

text \<open>
  A safepoint's oop map is the set of slots put into it: setting a slot adds exactly that slot,
  the empty map has none, and \<open>iter_slots\<close> lists the slots in ascending order without duplicates.
\<close>
theorem oop_map_exact:
  "(om_is_oop (fold om_set ss om_empty) x \<longleftrightarrow> x \<in> set ss) \<and>
   set (om_iter_slots (fold om_set ss om_empty)) = set ss \<and> sorted_wrt (<) (om_iter_slots bits)"
proof -
  have f: "om_is_oop (fold om_set ss m) x \<longleftrightarrow> x \<in> set ss \<or> om_is_oop m x" for m x
    by (induction ss arbitrary: m) (auto simp: om_set_spec)
  have e: "\<not> om_is_oop om_empty x" for x by (simp add: om_is_oop_eq om_empty_def)
  show ?thesis
    using om_iter_ascending [of 0 bits] f e by (auto simp: om_iter_set om_iter_slots_def [of bits])
qed

end
