(* ===== verification/Lookup.thy ===== *)
theory Lookup
  imports Method_Dict
begin

text \<open>
  Method lookup (\<open>src/src/runtime/lookup.rs\<close>): the two-way lookup cache, the walk up the superclass
  chain and method installation. Klasses and methods live in maps from their oops; a klass owns the
  dictionary its \<open>methods\<close> slot holds (\<open>None\<close> when the slot is not a dictionary). Object identities
  are stable in the model, so handles and the write barrier after an installation, which only concern the
  collector, have no counterpart here (the barrier is in \<open>Heap_Spaces\<close>). The client side of the
  dictionary goes through the \<open>map_store\<close> contract.
\<close>

definition LOOKUP_CACHE_SIZE :: nat where "LOOKUP_CACHE_SIZE = 4096"
definition IC_META_EPOCH_BITS :: nat where "IC_META_EPOCH_BITS = 24"

record cache_entry =
  ce_klass :: oop
  ce_selector :: oop
  ce_method :: oop

definition EMPTY_ENTRY :: cache_entry where
  "EMPTY_ENTRY = \<lparr>ce_klass = 0, ce_selector = 0, ce_method = 0\<rparr>"

definition entry_is_empty :: "cache_entry \<Rightarrow> bool" where
  "entry_is_empty e \<longleftrightarrow> ce_klass e = 0"

definition new_cache :: "cache_entry list" where
  "new_cache = replicate (2 * LOOKUP_CACHE_SIZE) EMPTY_ENTRY"

definition cache_hash :: "oop \<Rightarrow> oop \<Rightarrow> nat" where
  "cache_hash klass selector = unat ((drop_bit 3 klass XOR drop_bit 3 selector) AND of_nat (LOOKUP_CACHE_SIZE - 1))"

definition entry_hits :: "oop \<Rightarrow> oop \<Rightarrow> cache_entry \<Rightarrow> bool" where
  "entry_hits klass selector e \<longleftrightarrow> \<not> entry_is_empty e \<and> ce_klass e = klass \<and> ce_selector e = selector"

text \<open>\<open>MethodOop::try_from\<close>.\<close>

definition as_method :: "obj_view \<Rightarrow> oop \<Rightarrow> oop option" where
  "as_method v o1 = (if ov_is_method v o1 then Some o1 else None)"

definition cache_probe :: "obj_view \<Rightarrow> oop \<Rightarrow> oop \<Rightarrow> cache_entry list \<Rightarrow> (oop option \<times> cache_entry list) option" where
  "cache_probe v klass selector entries = do {
     let h = cache_hash klass selector;
     let primary = 2 * h; let victim = 2 * h + 1;
     pe \<leftarrow> slice_get entries primary;
     if entry_hits klass selector pe then Some (as_method v (ce_method pe), entries)
     else do {
       ve \<leftarrow> slice_get entries victim;
       if entry_hits klass selector ve
       then Some (as_method v (ce_method ve), entries[primary := ve, victim := pe])
       else Some (None, entries)
     }
   }"

definition cache_insert :: "oop \<Rightarrow> oop \<Rightarrow> oop \<Rightarrow> cache_entry list \<Rightarrow> cache_entry list option" where
  "cache_insert klass selector method entries = do {
     let h = cache_hash klass selector;
     let primary = 2 * h; let victim = 2 * h + 1;
     rust_assert (victim < length entries);
     Some (entries[victim := entries ! primary,
                   primary := \<lparr>ce_klass = klass, ce_selector = selector, ce_method = method\<rparr>])
   }"

definition cache_flush :: "cache_entry list \<Rightarrow> cache_entry list" where
  "cache_flush entries = map (\<lambda>_. EMPTY_ENTRY) entries"

record klass_desc =
  kd_superclass :: oop
  kd_methods :: "method_dict option"

record method_desc =
  mo_holder :: oop
  mo_is_block :: bool
  mo_literals :: "oop list"

record lookup_vm =
  lv_view :: obj_view
  lv_smi_klass :: oop
  lv_klass_field :: "oop \<rightharpoonup> oop"
  lv_klasses :: "oop \<rightharpoonup> klass_desc"
  lv_methods :: "oop \<rightharpoonup> method_desc"
  lv_cache :: "cache_entry list"
  lv_ic_epoch :: nat

definition klass_of :: "lookup_vm \<Rightarrow> oop \<Rightarrow> oop option" where
  "klass_of vm o1 =
     (if is_smi o1 then Some (lv_smi_klass vm)
      else do { rust_assert (is_mem o1); lv_klass_field vm o1 })"

text \<open>
  The raw walk. A cyclic superclass chain would never end, so the loop is a partial function: the
  outer option is a panic or no return, the inner one the result.
\<close>

partial_function (option) lookup_uncached :: "lookup_vm \<Rightarrow> oop \<Rightarrow> oop \<Rightarrow> oop option option" where
  "lookup_uncached vm klass selector = do {
     kd \<leftarrow> lv_klasses vm klass;
     r \<leftarrow> (case kd_methods kd of Some dict \<Rightarrow> probe (lv_view vm) dict selector | None \<Rightarrow> Some None);
     case r of
       Some m \<Rightarrow> Some (Some m)
     | None \<Rightarrow>
         let sc = kd_superclass kd
         in if sc = ov_nil (lv_view vm) then Some None else lookup_uncached vm sc selector
   }"

definition lookup :: "oop \<Rightarrow> oop \<Rightarrow> lookup_vm \<Rightarrow> (oop option \<times> lookup_vm) option" where
  "lookup klass selector vm = do {
     (r, cache) \<leftarrow> cache_probe (lv_view vm) klass selector (lv_cache vm);
     let vm = vm\<lparr>lv_cache := cache\<rparr>;
     case r of
       Some m \<Rightarrow> Some (Some m, vm)
     | None \<Rightarrow> do {
         hit \<leftarrow> lookup_uncached vm klass selector;
         case hit of
           Some m \<Rightarrow> do {
             cache \<leftarrow> cache_insert klass selector m (lv_cache vm);
             Some (hit, vm\<lparr>lv_cache := cache\<rparr>)
           }
         | None \<Rightarrow> Some (hit, vm)
       }
   }"

definition gc_epilogue :: "lookup_vm \<Rightarrow> lookup_vm" where
  "gc_epilogue vm = vm\<lparr>lv_cache := cache_flush (lv_cache vm)\<rparr>"

text \<open>
  \<open>patch_block_holders\<close>, with its loop over the literals; it recurses into every block literal, so
  it ends only when blocks are not nested in a cycle.
\<close>

partial_function (option) patch_literals ::
  "oop \<Rightarrow> oop list \<Rightarrow> (oop \<rightharpoonup> method_desc) \<Rightarrow> (oop \<rightharpoonup> method_desc) option" where
  "patch_literals klass lits ms =
     (case lits of
        [] \<Rightarrow> Some ms
      | l # rest \<Rightarrow>
          (case ms l of
             Some blk \<Rightarrow>
               if mo_is_block blk
               then do {
                 ms \<leftarrow> patch_literals klass (mo_literals blk) (ms(l \<mapsto> blk\<lparr>mo_holder := klass\<rparr>));
                 patch_literals klass rest ms
               }
               else patch_literals klass rest ms
           | None \<Rightarrow> patch_literals klass rest ms))"

definition patch_block_holders :: "oop \<Rightarrow> oop \<Rightarrow> (oop \<rightharpoonup> method_desc) \<Rightarrow> (oop \<rightharpoonup> method_desc) option" where
  "patch_block_holders klass m ms = do { md \<leftarrow> ms m; patch_literals klass (mo_literals md) ms }"

text \<open>\<open>install_method\<close> up to the invalidation of dependent compiled code.\<close>

definition install_binding :: "oop \<Rightarrow> oop \<Rightarrow> oop \<Rightarrow> lookup_vm \<Rightarrow> lookup_vm option" where
  "install_binding klass selector m vm = do {
     kd \<leftarrow> lv_klasses vm klass;
     dict \<leftarrow> (case kd_methods kd of Some d \<Rightarrow> Some d | None \<Rightarrow> alloc_method_dict (lv_view vm) 8);
     dict \<leftarrow> md_insert (lv_view vm) selector m dict;
     let vm = vm\<lparr>lv_klasses := (lv_klasses vm)(klass \<mapsto> kd\<lparr>kd_methods := Some dict\<rparr>)\<rparr>;
     mo \<leftarrow> lv_methods vm m;
     let vm = vm\<lparr>lv_methods := (lv_methods vm)(m \<mapsto> mo\<lparr>mo_holder := klass\<rparr>)\<rparr>;
     ms \<leftarrow> patch_block_holders klass m (lv_methods vm);
     let vm = vm\<lparr>lv_methods := ms\<rparr>;
     let vm = vm\<lparr>lv_cache := cache_flush (lv_cache vm), lv_ic_epoch := lv_ic_epoch vm + 1\<rparr>;
     rust_assert (lv_ic_epoch vm < 2 ^ IC_META_EPOCH_BITS);
     Some vm
   }"

subsection \<open>The superclass chain\<close>

inductive chain :: "lookup_vm \<Rightarrow> oop \<Rightarrow> oop list \<Rightarrow> bool" for vm where
  chain_top: "lv_klasses vm k = Some kd \<Longrightarrow> kd_superclass kd = ov_nil (lv_view vm) \<Longrightarrow> chain vm k [k]"
| chain_up: "lv_klasses vm k = Some kd \<Longrightarrow> kd_superclass kd \<noteq> ov_nil (lv_view vm) \<Longrightarrow>
    chain vm (kd_superclass kd) ks \<Longrightarrow> chain vm k (k # ks)"

inductive_cases chainE: "chain vm k ks"

definition bound :: "lookup_vm \<Rightarrow> oop \<Rightarrow> oop \<Rightarrow> oop option" where
  "bound vm s k =
     (case lv_klasses vm k of
        Some kd \<Rightarrow> (case kd_methods kd of Some d \<Rightarrow> md_map (lv_view vm) d s | None \<Rightarrow> None)
      | None \<Rightarrow> None)"

text \<open>The specification: the first klass on the chain that binds the selector decides.\<close>

fun resolve_in :: "lookup_vm \<Rightarrow> oop \<Rightarrow> oop list \<Rightarrow> oop option" where
  "resolve_in vm s [] = None"
| "resolve_in vm s (k # ks) = (case bound vm s k of Some m \<Rightarrow> Some m | None \<Rightarrow> resolve_in vm s ks)"

definition dicts_ok :: "lookup_vm \<Rightarrow> bool" where
  "dicts_ok vm \<longleftrightarrow> (\<forall>k kd d. lv_klasses vm k = Some kd \<longrightarrow> kd_methods kd = Some d \<longrightarrow> md_inv (lv_view vm) d)"

definition resolves :: "lookup_vm \<Rightarrow> oop \<Rightarrow> oop \<Rightarrow> oop \<Rightarrow> bool" where
  "resolves vm k s m \<longleftrightarrow> (\<exists>ks. chain vm k ks \<and> resolve_in vm s ks = Some m)"

definition cache_ok :: "lookup_vm \<Rightarrow> bool" where
  "cache_ok vm \<longleftrightarrow> length (lv_cache vm) = 2 * LOOKUP_CACHE_SIZE \<and>
     (\<forall>e \<in> set (lv_cache vm). \<not> entry_is_empty e \<longrightarrow> resolves vm (ce_klass e) (ce_selector e) (ce_method e))"

lemma md_map_method: "md_inv v d \<Longrightarrow> md_map v d k = Some m \<Longrightarrow> ov_is_method v m"
  by (auto simp: md_inv_def md_shape_def md_map_def capacity_def find_Some_iff split: option.splits)

lemma chain_unique: "chain vm k ks \<Longrightarrow> chain vm k ks' \<Longrightarrow> ks' = ks"
  by (induction arbitrary: ks' rule: chain.induct) (erule chainE; simp)+

lemma resolve_in_method: "dicts_ok vm \<Longrightarrow> resolve_in vm s ks = Some m \<Longrightarrow> ov_is_method (lv_view vm) m"
  by (induction ks) (auto simp: bound_def dicts_ok_def split: option.splits dest: md_map_method)

lemma lookup_uncached_chain:
  assumes ok: "dicts_ok vm" and s: "sel_ok (lv_view vm) s"
  shows "chain vm k ks \<Longrightarrow> lookup_uncached vm k s = Some (resolve_in vm s ks)"
proof (induction rule: chain.induct)
  case (chain_top k kd)
  have "(case kd_methods kd of Some d \<Rightarrow> probe (lv_view vm) d s | None \<Rightarrow> Some None) = Some (bound vm s k)"
    using md.look_abs [of "lv_view vm" _ s] s ok chain_top by (auto simp: bound_def dicts_ok_def split: option.splits)
  then show ?case using chain_top by (subst lookup_uncached.simps) (simp split: option.split)
next
  case (chain_up k kd ks)
  have "(case kd_methods kd of Some d \<Rightarrow> probe (lv_view vm) d s | None \<Rightarrow> Some None) = Some (bound vm s k)"
    using md.look_abs [of "lv_view vm" _ s] s ok chain_up by (auto simp: bound_def dicts_ok_def split: option.splits)
  then show ?case using chain_up by (subst lookup_uncached.simps) (simp split: option.split)
qed

lemma cache_hash_less: "cache_hash k s < LOOKUP_CACHE_SIZE"
proof -
  have "cache_hash k s \<le> unat (of_nat (LOOKUP_CACHE_SIZE - 1) :: u64)"
    unfolding cache_hash_def word_le_nat_alt [symmetric] by (rule word_and_le1)
  then show ?thesis by (simp add: LOOKUP_CACHE_SIZE_def)
qed

subsection \<open>The cache\<close>

lemma cache_slots: "length es = 2 * LOOKUP_CACHE_SIZE \<Longrightarrow> 2 * cache_hash k s + 1 < length es"
  using cache_hash_less [of k s] by simp

lemma cache_probe_spec:
  assumes "length es = 2 * LOOKUP_CACHE_SIZE"
  shows "\<exists>r es'. cache_probe v k s es = Some (r, es') \<and> length es' = length es \<and> set es' = set es \<and>
    (\<forall>m. r = Some m \<longrightarrow> (\<exists>e \<in> set es. entry_hits k s e \<and> ce_method e = m))"
proof -
  let ?p = "2 * cache_hash k s" and ?q = "2 * cache_hash k s + 1"
  have b: "?p < length es" "?q < length es" using cache_slots [OF assms, of k s] by simp_all
  have sw: "set (es[?p := es ! ?q, ?q := es ! ?p]) = set es" using set_swap [OF b(2,1)] by (simp add: list_update_swap)
  show ?thesis
  proof (cases "entry_hits k s (es ! ?p)")
    case True
    then have "cache_probe v k s es = Some (as_method v (ce_method (es ! ?p)), es)"
      using b by (simp add: cache_probe_def slice_get_def Let_def)
    then show ?thesis using True b nth_mem [OF b(1)] by (auto simp: as_method_def)
  next
    case False
    then show ?thesis using b sw nth_mem [OF b(2)]
      by (cases "entry_hits k s (es ! ?q)") (auto simp: cache_probe_def slice_get_def Let_def as_method_def)
  qed
qed

lemma cache_insert_spec:
  assumes "length es = 2 * LOOKUP_CACHE_SIZE"
  shows "\<exists>es'. cache_insert k s m es = Some es' \<and> length es' = length es \<and>
    set es' \<subseteq> Set.insert \<lparr>ce_klass = k, ce_selector = s, ce_method = m\<rparr> (set es)"
proof -
  let ?p = "2 * cache_hash k s" and ?q = "2 * cache_hash k s + 1"
  have b: "?p < length es" "?q < length es" using cache_slots [OF assms, of k s] by simp_all
  have "set (es[?q := es ! ?p]) \<subseteq> set es" using set_update_subset_insert [of es ?q "es ! ?p"] nth_mem [OF b(1)] by blast
  then have "set ((es[?q := es ! ?p])[?p := x]) \<subseteq> Set.insert x (set es)" for x
    using set_update_subset_insert [of "es[?q := es ! ?p]" ?p x] by blast
  then show ?thesis using b(2) by (simp add: cache_insert_def Let_def)
qed

lemma chain_cong:
  assumes "lv_view vm' = lv_view vm" "\<And>k. map_option kd_superclass (lv_klasses vm' k) = map_option kd_superclass (lv_klasses vm k)"
  shows "chain vm k ks \<Longrightarrow> chain vm' k ks"
proof (induction rule: chain.induct)
  case (chain_top k kd)
  then obtain kd' where "lv_klasses vm' k = Some kd'" "kd_superclass kd' = kd_superclass kd"
    using assms(2) [of k] by auto
  with chain_top show ?case using chain.chain_top assms(1) by metis
next
  case (chain_up k kd ks)
  then obtain kd' where "lv_klasses vm' k = Some kd'" "kd_superclass kd' = kd_superclass kd"
    using assms(2) [of k] by auto
  with chain_up show ?case using chain.chain_up assms(1) by metis
qed

lemma chain_iff:
  assumes "lv_view vm' = lv_view vm" "\<And>k. map_option kd_superclass (lv_klasses vm' k) = map_option kd_superclass (lv_klasses vm k)"
  shows "chain vm' k ks \<longleftrightarrow> chain vm k ks"
  using chain_cong [of vm' vm k ks] chain_cong [of vm vm' k ks] assms by auto

lemma resolve_in_cong:
  "lv_view vm' = lv_view vm \<Longrightarrow> lv_klasses vm' = lv_klasses vm \<Longrightarrow> resolve_in vm' s ks = resolve_in vm s ks"
  by (induction ks) (auto simp: bound_def split: option.splits)

lemma lookup_cong:
  assumes "lv_view vm' = lv_view vm" "lv_klasses vm' = lv_klasses vm"
  shows "chain vm' k ks \<longleftrightarrow> chain vm k ks" "resolves vm' k s m \<longleftrightarrow> resolves vm k s m" "dicts_ok vm' \<longleftrightarrow> dicts_ok vm"
  using assms chain_iff [of vm' vm] resolve_in_cong [of vm' vm] by (simp_all add: resolves_def dicts_ok_def)

lemma lookup_spec:
  assumes co: "cache_ok vm" and ok: "dicts_ok vm" and s: "sel_ok (lv_view vm) s" and ch: "chain vm k ks"
  shows "\<exists>c. lookup k s vm = Some (resolve_in vm s ks, vm\<lparr>lv_cache := c\<rparr>) \<and> cache_ok (vm\<lparr>lv_cache := c\<rparr>)"
proof -
  have len: "length (lv_cache vm) = 2 * LOOKUP_CACHE_SIZE" using co by (simp add: cache_ok_def)
  obtain r es where pr: "cache_probe (lv_view vm) k s (lv_cache vm) = Some (r, es)" "length es = length (lv_cache vm)"
    "set es = set (lv_cache vm)" "\<And>m. r = Some m \<Longrightarrow> \<exists>e \<in> set (lv_cache vm). entry_hits k s e \<and> ce_method e = m"
    using cache_probe_spec [OF len, of "lv_view vm" k s] by blast
  have co': "cache_ok (vm\<lparr>lv_cache := es\<rparr>)"
    using co pr(2,3) by (simp add: cache_ok_def lookup_cong(2) [of "vm\<lparr>lv_cache := es\<rparr>" vm])
  show ?thesis
  proof (cases r)
    case (Some m)
    then obtain e where e: "e \<in> set (lv_cache vm)" "entry_hits k s e" "ce_method e = m" using pr(4) by blast
    then have "resolves vm k s m" using co by (auto simp: cache_ok_def entry_hits_def)
    then have "resolve_in vm s ks = Some m" using chain_unique [OF ch] by (auto simp: resolves_def)
    with Some pr co' show ?thesis by (auto simp: lookup_def)
  next
    case None
    have walk: "lookup_uncached (vm\<lparr>lv_cache := es\<rparr>) k s = Some (resolve_in vm s ks)"
      using lookup_uncached_chain [of "vm\<lparr>lv_cache := es\<rparr>" s k ks] ok s ch
        lookup_cong [of "vm\<lparr>lv_cache := es\<rparr>" vm] resolve_in_cong [of "vm\<lparr>lv_cache := es\<rparr>" vm] by simp
    show ?thesis
    proof (cases "resolve_in vm s ks")
      case None
      with \<open>r = None\<close> pr walk co' show ?thesis by (auto simp: lookup_def)
    next
      case (Some m)
      obtain es' where es': "cache_insert k s m es = Some es'" "length es' = length es"
        "set es' \<subseteq> Set.insert \<lparr>ce_klass = k, ce_selector = s, ce_method = m\<rparr> (set es)"
        using cache_insert_spec [of es k s m] pr(2) len by auto
      have "resolves vm k s m" using Some ch by (auto simp: resolves_def)
      then have "cache_ok (vm\<lparr>lv_cache := es'\<rparr>)"
        using co pr(2,3) es'(2,3) by (auto simp: cache_ok_def lookup_cong(2) [of "vm\<lparr>lv_cache := es'\<rparr>" vm])
      with Some \<open>r = None\<close> pr walk es'(1) show ?thesis by (auto simp: lookup_def)
    qed
  qed
qed

text \<open>
  C12. Lookup is dispatch to the nearest binding. With well-formed dictionaries, a coherent cache and a
  finite superclass chain, \<open>lookup\<close> returns (it neither panics nor loops) the method bound by the
  first klass on the chain that binds the selector, or nothing when none does: the answer of the uncached walk, whatever
  the cache holds. It changes nothing but the cache, which stays coherent, so the same holds of every later lookup.
\<close>
theorem lookup_correct:
  assumes "cache_ok vm" "dicts_ok vm" "sel_ok (lv_view vm) s" "chain vm k ks"
  shows "lookup_uncached vm k s = Some (resolve_in vm s ks) \<and>
    (\<exists>c. lookup k s vm = Some (resolve_in vm s ks, vm\<lparr>lv_cache := c\<rparr>) \<and> cache_ok (vm\<lparr>lv_cache := c\<rparr>)) \<and>
    cache_ok (gc_epilogue vm)"
  using lookup_spec [OF assms] lookup_uncached_chain [OF assms(2-4)] assms(1)
  by (auto simp: cache_ok_def gc_epilogue_def cache_flush_def entry_is_empty_def EMPTY_ENTRY_def)

subsection \<open>Installation\<close>

text \<open>The blocks nested in a list of literals, given the method objects.\<close>

inductive nested :: "(oop \<rightharpoonup> method_desc) \<Rightarrow> oop list \<Rightarrow> oop \<Rightarrow> bool" for ms where
  nested_here: "b \<in> set lits \<Longrightarrow> ms b = Some bd \<Longrightarrow> mo_is_block bd \<Longrightarrow> nested ms lits b"
| nested_in: "b \<in> set lits \<Longrightarrow> ms b = Some bd \<Longrightarrow> mo_is_block bd \<Longrightarrow> nested ms (mo_literals bd) x \<Longrightarrow> nested ms lits x"

text \<open>\<open>ms'\<close> is \<open>ms\<close> with some holders changed.\<close>

definition same_code :: "(oop \<rightharpoonup> method_desc) \<Rightarrow> (oop \<rightharpoonup> method_desc) \<Rightarrow> bool" where
  "same_code ms ms' \<longleftrightarrow> (\<forall>x. map_option (\<lambda>d. (mo_is_block d, mo_literals d)) (ms' x) = map_option (\<lambda>d. (mo_is_block d, mo_literals d)) (ms x))"

lemma same_codeD: "same_code ms ms' \<Longrightarrow> ms b = Some bd \<Longrightarrow> \<exists>bd'. ms' b = Some bd' \<and> mo_is_block bd' = mo_is_block bd \<and> mo_literals bd' = mo_literals bd"
  unfolding same_code_def by (drule spec [of _ b]) auto

lemma same_code_sym: "same_code ms ms' \<Longrightarrow> same_code ms' ms"
  by (simp add: same_code_def)

lemma nested_same: "nested ms lits x \<Longrightarrow> same_code ms ms' \<Longrightarrow> nested ms' lits x"
proof (induction rule: nested.induct)
  case (nested_here b lits bd)
  then show ?case using same_codeD nested.nested_here by metis
next
  case (nested_in b lits bd x)
  then show ?case using same_codeD nested.nested_in by metis
qed

lemma nested_same_iff: "same_code ms ms' \<Longrightarrow> nested ms' lits x \<longleftrightarrow> nested ms lits x"
  using nested_same same_code_sym by blast

lemma nested_Cons:
  "nested ms (l # rest) x \<longleftrightarrow>
     (\<exists>bd. ms l = Some bd \<and> mo_is_block bd \<and> (x = l \<or> nested ms (mo_literals bd) x)) \<or> nested ms rest x"
  by (subst (1 2) nested.simps) auto

definition patched :: "oop \<Rightarrow> oop list \<Rightarrow> (oop \<rightharpoonup> method_desc) \<Rightarrow> (oop \<rightharpoonup> method_desc)" where
  "patched klass lits ms x = (if nested ms lits x then map_option (mo_holder_update (\<lambda>_. klass)) (ms x) else ms x)"

lemma patched_same: "same_code ms (patched klass lits ms)"
  by (auto simp: same_code_def patched_def option.map_comp comp_def)

definition ranked :: "(oop \<Rightarrow> nat) \<Rightarrow> (oop \<rightharpoonup> method_desc) \<Rightarrow> bool" where
  "ranked rank ms \<longleftrightarrow> (\<forall>m md b bd. ms m = Some md \<longrightarrow> b \<in> set (mo_literals md) \<longrightarrow> ms b = Some bd \<longrightarrow> mo_is_block bd \<longrightarrow> rank b < rank m)"

lemma ranked_same: "ranked rank ms \<Longrightarrow> same_code ms ms' \<Longrightarrow> ranked rank ms'"
proof -
  assume r: "ranked rank ms" and s: "same_code ms ms'"
  show ?thesis unfolding ranked_def
  proof (intro allI impI)
    fix m md b bd
    assume "ms' m = Some md" "b \<in> set (mo_literals md)" "ms' b = Some bd" "mo_is_block bd"
    then obtain md0 bd0 where "ms m = Some md0" "mo_literals md0 = mo_literals md" "ms b = Some bd0" "mo_is_block bd0"
      using same_codeD [OF same_code_sym [OF s]] by metis
    with r \<open>b \<in> set (mo_literals md)\<close> show "rank b < rank m" unfolding ranked_def by metis
  qed
qed

lemma patch_literals_spec:
  assumes "\<And>b bd. b \<in> set lits \<Longrightarrow> ms b = Some bd \<Longrightarrow> mo_is_block bd \<Longrightarrow> rank b < n" "ranked rank ms"
  shows "patch_literals klass lits ms = Some (patched klass lits ms)"
  using assms
proof (induction n arbitrary: lits ms rule: less_induct)
  case (less n)
  from less.prems show ?case
  proof (induction lits arbitrary: ms)
    case Nil
    have "\<not> nested ms [] x" for x by (subst nested.simps) simp
    then show ?case by (subst patch_literals.simps) (simp add: patched_def fun_eq_iff)
  next
    case (Cons l rest)
    show ?case
    proof (cases "\<exists>bd. ms l = Some bd \<and> mo_is_block bd")
      case False
      then have "patch_literals klass (l # rest) ms = patch_literals klass rest ms"
        by (subst patch_literals.simps) (auto split: option.split)
      moreover have "patched klass (l # rest) ms = patched klass rest ms"
        using False by (auto simp: patched_def fun_eq_iff nested_Cons)
      ultimately show ?thesis using Cons.IH Cons.prems by simp
    next
      case True
      then obtain bd where bd: "ms l = Some bd" "mo_is_block bd" by blast
      let ?ms1 = "ms(l \<mapsto> bd\<lparr>mo_holder := klass\<rparr>)"
      let ?ms2 = "patched klass (mo_literals bd) ?ms1"
      have s1: "same_code ms ?ms1" using bd by (simp add: same_code_def)
      have s2: "same_code ms ?ms2" using s1 patched_same [of ?ms1] unfolding same_code_def by simp
      have "patch_literals klass (mo_literals bd) ?ms1 = Some ?ms2"
      proof (rule less.IH)
        show "rank l < n" using Cons.prems(1) bd by simp
        show "ranked rank ?ms1" using ranked_same [OF Cons.prems(2) s1] .
        fix b bd' assume "b \<in> set (mo_literals bd)" "?ms1 b = Some bd'" "mo_is_block bd'"
        moreover obtain bd0 where "ms b = Some bd0" "mo_is_block bd0"
          using same_codeD [OF same_code_sym [OF s1] calculation(2)] calculation(3) by auto
        ultimately show "rank b < rank l" using Cons.prems(2) bd unfolding ranked_def by blast
      qed
      moreover have "patch_literals klass rest ?ms2 = Some (patched klass rest ?ms2)"
      proof (rule Cons.IH)
        show "ranked rank ?ms2" using ranked_same [OF Cons.prems(2) s2] .
        fix b bd' assume "b \<in> set rest" "?ms2 b = Some bd'" "mo_is_block bd'"
        then show "rank b < n" using Cons.prems(1) same_codeD [OF same_code_sym [OF s2]] by (metis list.set_intros(2))
      qed
      moreover have "patched klass rest ?ms2 = patched klass (l # rest) ms"
        using bd by (auto simp: patched_def fun_eq_iff nested_Cons nested_same_iff [OF s1] nested_same_iff [OF s2] option.map_comp comp_def)
      ultimately show ?thesis using bd by (subst patch_literals.simps) simp
    qed
  qed
qed

definition nesting_ok :: "lookup_vm \<Rightarrow> bool" where
  "nesting_ok vm \<longleftrightarrow> (\<exists>rank. ranked rank (lv_methods vm))"

lemma install_spec:
  assumes ok: "dicts_ok vm" and len: "length (lv_cache vm) = 2 * LOOKUP_CACHE_SIZE" and kd: "lv_klasses vm klass = Some kd"
    and s: "sel_ok (lv_view vm) sel" and m: "ov_is_method (lv_view vm) m" "lv_methods vm m = Some mo"
    and ns: "nesting_ok vm" and ep: "lv_ic_epoch vm + 1 < 2 ^ IC_META_EPOCH_BITS"
  shows "\<exists>vm'. install_binding klass sel m vm = Some vm' \<and> lv_view vm' = lv_view vm \<and>
    (\<forall>k. map_option kd_superclass (lv_klasses vm' k) = map_option kd_superclass (lv_klasses vm k)) \<and>
    dicts_ok vm' \<and> lv_cache vm' = cache_flush (lv_cache vm) \<and>
    (\<forall>s' k. bound vm' s' k = (if k = klass \<and> s' = sel then Some m else bound vm s' k)) \<and>
    lv_methods vm' = patched klass (mo_literals mo) ((lv_methods vm)(m \<mapsto> mo\<lparr>mo_holder := klass\<rparr>)) \<and>
    lv_ic_epoch vm' = lv_ic_epoch vm + 1"
proof -
  let ?v = "lv_view vm"
  obtain d where d: "(case kd_methods kd of Some d \<Rightarrow> Some d | None \<Rightarrow> alloc_method_dict ?v 8) = Some d" "md_inv ?v d"
    "\<And>s'. md_map ?v d s' = bound vm s' klass"
  proof (cases "kd_methods kd")
    case None
    obtain d where "alloc_method_dict ?v (2 ^ 3) = Some d" "md_shape ?v d" "md_map ?v d = Map.empty"
      "keys ?v d = replicate (2 ^ 3) None" "md_tally d = 0"
      using alloc_method_dict_spec [OF refl, of ?v 3] by blast
    then show thesis using None kd by (intro that [of d]) (simp_all add: md_inv_def bound_def)
  next
    case (Some d)
    then show thesis using ok kd by (intro that [of d]) (auto simp: dicts_ok_def bound_def)
  qed
  obtain d' where d': "md_insert ?v sel m d = Some d'" "md_inv ?v d'" "md_map ?v d' = (md_map ?v d)(sel \<mapsto> m)"
    using md.upd_abs [OF d(2) s m(1)] by blast
  let ?ms = "(lv_methods vm)(m \<mapsto> mo\<lparr>mo_holder := klass\<rparr>)"
  obtain rank where rk: "ranked rank (lv_methods vm)" using ns by (auto simp: nesting_ok_def)
  have sm: "same_code (lv_methods vm) ?ms" using m(2) by (simp add: same_code_def)
  have rk': "ranked rank ?ms" using ranked_same [OF rk sm] .
  have "patch_literals klass (mo_literals mo) ?ms = Some (patched klass (mo_literals mo) ?ms)"
  proof (rule patch_literals_spec [OF _ rk', where n = "rank m"])
    fix b bd assume "b \<in> set (mo_literals mo)" "?ms b = Some bd" "mo_is_block bd"
    then show "rank b < rank m" using rk' unfolding ranked_def by (metis (no_types, lifting) fun_upd_same method_desc.select_convs(3) method_desc.surjective method_desc.update_convs(1))
  qed
  then have pt: "patch_block_holders klass m ?ms = Some (patched klass (mo_literals mo) ?ms)"
    by (simp add: patch_block_holders_def)
  let ?vm' = "vm\<lparr>lv_klasses := (lv_klasses vm)(klass \<mapsto> kd\<lparr>kd_methods := Some d'\<rparr>), lv_methods := patched klass (mo_literals mo) ?ms,
    lv_cache := cache_flush (lv_cache vm), lv_ic_epoch := lv_ic_epoch vm + 1\<rparr>"
  have "install_binding klass sel m vm = Some ?vm'"
    using kd d(1) d'(1) m(2) pt ep by (simp add: install_binding_def Let_def)
  moreover have "dicts_ok ?vm'" using ok d'(2) by (auto simp: dicts_ok_def)
  moreover have "bound ?vm' s' k = (if k = klass \<and> s' = sel then Some m else bound vm s' k)" for s' k
    using d'(3) d(3) [of s'] by (auto simp: bound_def split: option.split)
  ultimately show ?thesis using kd by (intro exI [of _ ?vm']) simp
qed

lemma resolve_in_update:
  assumes "\<And>s' k. bound vm' s' k = (if k = klass \<and> s' = sel then Some m else bound vm s' k)"
  shows "resolve_in vm' s' ks =
    (if s' = sel \<and> klass \<in> set ks \<and> resolve_in vm s' (takeWhile (\<lambda>x. x \<noteq> klass) ks) = None then Some m
     else resolve_in vm s' ks)"
  by (induction ks) (auto simp: assms split: option.splits)

text \<open>
  C26. Installing a method rebinds exactly one selector of one klass. \<open>install_method\<close>'s binding step
  never panics below the 24-bit epoch limit, allocates the klass's dictionary on first use, leaves
  every superclass chain as it was, and afterwards a lookup finds the new method precisely when the selector
  is the installed one, the klass is on the chain and nothing nearer binds the selector; every other lookup is unchanged. The
  lookup cache is flushed (so it is coherent), the epoch advances, and the method and all blocks nested in its
  literals have the klass as holder, no other method being touched.
\<close>
theorem install_binding_correct:
  assumes "dicts_ok vm" "length (lv_cache vm) = 2 * LOOKUP_CACHE_SIZE" "lv_klasses vm klass = Some kd"
    "sel_ok (lv_view vm) sel" "ov_is_method (lv_view vm) m" "lv_methods vm m = Some mo" "nesting_ok vm"
    "lv_ic_epoch vm + 1 < 2 ^ IC_META_EPOCH_BITS"
  shows "\<exists>vm'. install_binding klass sel m vm = Some vm' \<and> dicts_ok vm' \<and> cache_ok vm' \<and>
    lv_ic_epoch vm' = lv_ic_epoch vm + 1 \<and>
    (\<forall>k ks s'. chain vm k ks \<and> sel_ok (lv_view vm) s' \<longrightarrow> chain vm' k ks \<and>
       lookup_uncached vm' k s' = Some
         (if s' = sel \<and> klass \<in> set ks \<and> resolve_in vm s' (takeWhile (\<lambda>x. x \<noteq> klass) ks) = None then Some m
          else resolve_in vm s' ks)) \<and>
    (\<forall>x. lv_methods vm' x =
       (if x = m \<or> nested (lv_methods vm) (mo_literals mo) x
        then map_option (mo_holder_update (\<lambda>_. klass)) (lv_methods vm x) else lv_methods vm x))"
proof -
  obtain vm' where vm': "install_binding klass sel m vm = Some vm'" "lv_view vm' = lv_view vm"
    "\<And>k. map_option kd_superclass (lv_klasses vm' k) = map_option kd_superclass (lv_klasses vm k)"
    "dicts_ok vm'" "lv_cache vm' = cache_flush (lv_cache vm)"
    "\<And>s' k. bound vm' s' k = (if k = klass \<and> s' = sel then Some m else bound vm s' k)"
    "lv_methods vm' = patched klass (mo_literals mo) ((lv_methods vm)(m \<mapsto> mo\<lparr>mo_holder := klass\<rparr>))"
    "lv_ic_epoch vm' = lv_ic_epoch vm + 1"
    using install_spec [OF assms] by blast
  have "cache_ok vm'" using vm'(5) assms(2)
    by (auto simp: cache_ok_def cache_flush_def entry_is_empty_def EMPTY_ENTRY_def)
  moreover have "chain vm' k ks \<longleftrightarrow> chain vm k ks" for k ks using chain_iff [of vm' vm] vm'(2,3) by simp
  moreover have "lookup_uncached vm' k s' = Some (resolve_in vm' s' ks)" if "chain vm k ks" "sel_ok (lv_view vm) s'" for k ks s'
    using lookup_uncached_chain [OF vm'(4)] calculation(2) that vm'(2) by simp
  moreover have sm: "same_code (lv_methods vm) ((lv_methods vm)(m \<mapsto> mo\<lparr>mo_holder := klass\<rparr>))"
    using assms(6) by (simp add: same_code_def)
  have "lv_methods vm' x = (if x = m \<or> nested (lv_methods vm) (mo_literals mo) x
        then map_option (mo_holder_update (\<lambda>_. klass)) (lv_methods vm x) else lv_methods vm x)" for x
    using assms(6) by (auto simp: vm'(7) patched_def nested_same_iff [OF sm])
  ultimately show ?thesis using vm'(1,4,8) resolve_in_update [of vm' klass sel m vm] vm'(6)
    by (intro exI [of _ vm']) simp
qed

subsection \<open>Witnesses\<close>

text \<open>A klass \<open>1\<close> below \<open>5\<close>, both with no methods yet; \<open>9\<close> is nil, \<open>13\<close> a selector, \<open>17\<close> a method with the block \<open>21\<close>.\<close>

definition demo_vm :: lookup_vm where
  "demo_vm = \<lparr>lv_view = \<lparr>ov_nil = 9, ov_hash = (\<lambda>_. 1), ov_is_symbol = (\<lambda>o1. o1 = 13), ov_is_method = (\<lambda>o1. o1 = 17 \<or> o1 = 21)\<rparr>,
     lv_smi_klass = 5, lv_klass_field = Map.empty,
     lv_klasses = [1 \<mapsto> \<lparr>kd_superclass = 5, kd_methods = None\<rparr>, 5 \<mapsto> \<lparr>kd_superclass = 9, kd_methods = None\<rparr>],
     lv_methods = [17 \<mapsto> \<lparr>mo_holder = 9, mo_is_block = False, mo_literals = [21]\<rparr>, 21 \<mapsto> \<lparr>mo_holder = 9, mo_is_block = True, mo_literals = []\<rparr>],
     lv_cache = new_cache, lv_ic_epoch = 0\<rparr>"

lemma demo_vm_ok:
  "dicts_ok demo_vm" "cache_ok demo_vm" "sel_ok (lv_view demo_vm) 13" "chain demo_vm 1 [1, 5]" "nesting_ok demo_vm"
  "length (lv_cache demo_vm) = 2 * LOOKUP_CACHE_SIZE" "lv_ic_epoch demo_vm + 1 < 2 ^ IC_META_EPOCH_BITS"
  "ov_is_method (lv_view demo_vm) 17" "\<exists>kd. lv_klasses demo_vm 5 = Some kd"
  "lv_methods demo_vm 17 = Some \<lparr>mo_holder = 9, mo_is_block = False, mo_literals = [21]\<rparr>"
proof -
  show "dicts_ok demo_vm" by (simp add: dicts_ok_def demo_vm_def)
  show "cache_ok demo_vm" by (simp add: cache_ok_def demo_vm_def new_cache_def entry_is_empty_def EMPTY_ENTRY_def)
  show "sel_ok (lv_view demo_vm) 13" by (simp add: sel_ok_def demo_vm_def)
  have "chain demo_vm 5 [5]"
    by (rule chain_top [where kd = "\<lparr>kd_superclass = 9, kd_methods = None\<rparr>"]) (simp_all add: demo_vm_def)
  then show "chain demo_vm 1 [1, 5]"
    using chain_up [of demo_vm 1 "\<lparr>kd_superclass = 5, kd_methods = None\<rparr>" "[5]"] by (simp add: demo_vm_def)
  show "nesting_ok demo_vm" unfolding nesting_ok_def
    by (rule exI [of _ "\<lambda>x. if x = 17 then 1 else 0"]) (auto simp: ranked_def demo_vm_def split: if_splits)
qed (simp_all add: demo_vm_def new_cache_def IC_META_EPOCH_BITS_def)

theorem lookup_correct_witness:
  "lookup_uncached demo_vm 1 13 = Some None \<and> (\<exists>vm'. lookup 1 13 demo_vm = Some (None, vm') \<and> cache_ok vm')"
  using lookup_correct [OF demo_vm_ok(2,1,3,4)] by (auto simp: bound_def demo_vm_def)

theorem install_binding_correct_witness:
  "\<exists>vm'. install_binding 5 13 17 demo_vm = Some vm' \<and> lookup_uncached vm' 1 13 = Some (Some 17) \<and> cache_ok vm' \<and>
     map_option mo_holder (lv_methods vm' 21) = Some 5"
proof -
  obtain kd where kd: "lv_klasses demo_vm 5 = Some kd" using demo_vm_ok(9) by blast
  obtain vm' where vm': "install_binding 5 13 17 demo_vm = Some vm'" "cache_ok vm'"
    "\<And>k ks s'. chain demo_vm k ks \<and> sel_ok (lv_view demo_vm) s' \<Longrightarrow>
       lookup_uncached vm' k s' = Some
         (if s' = 13 \<and> 5 \<in> set ks \<and> resolve_in demo_vm s' (takeWhile (\<lambda>x. x \<noteq> 5) ks) = None then Some 17
          else resolve_in demo_vm s' ks)"
    "lv_methods vm' 21 = (if 21 = (17 :: oop) \<or> nested (lv_methods demo_vm) [21] 21
        then map_option (mo_holder_update (\<lambda>_. 5)) (lv_methods demo_vm 21) else lv_methods demo_vm 21)"
    using install_binding_correct [OF demo_vm_ok(1,6) kd demo_vm_ok(3,8,10,5,7)] by auto
  have "nested (lv_methods demo_vm) [21] 21"
    by (rule nested_here [where bd = "\<lparr>mo_holder = 9, mo_is_block = True, mo_literals = []\<rparr>"]) (simp_all add: demo_vm_def)
  moreover have "resolve_in demo_vm 13 [1] = None" by (simp add: bound_def demo_vm_def)
  ultimately show ?thesis using vm'(1,2,4) vm'(3) [of 1 "[1, 5]" 13] demo_vm_ok(3,4)
    by (auto simp: demo_vm_def)
qed

end
