(* ===== verification/Probe_Ring.thy ===== *)
theory Probe_Ring
  imports Winvm_Prelude
begin

text \<open>
  The event ring of \<open>src/src/runtime/vm_state.rs\<close>: a fixed array with a write index that wraps around,
  shown to be a bounded queue. Ids and bytecode indexes are
  \<^typ>\<open>nat\<close>; the \<open>u64\<close> count of events is one too, as no run pushes \<open>2 ^ 64\<close> of them.
\<close>

datatype probe_event = EvCompile (ev_nm: nat) nat | EvDeopt (ev_nm: nat) nat bool | EvInvalidate (ev_nm: nat)

record probe_ring =
  pr_buf :: "probe_event option list"
  pr_next :: nat
  pr_total :: nat

definition PROBE_CAP :: nat where "PROBE_CAP = 256"

definition new_ring :: probe_ring where
  "new_ring = \<lparr>pr_buf = replicate PROBE_CAP None, pr_next = 0, pr_total = 0\<rparr>"

definition ring_push :: "probe_event \<Rightarrow> probe_ring \<Rightarrow> probe_ring option" where
  "ring_push e r = do {
     rust_assert (pr_next r < length (pr_buf r));
     Some (r\<lparr>pr_buf := (pr_buf r)[pr_next r := Some e], pr_next := (pr_next r + 1) mod PROBE_CAP, pr_total := pr_total r + 1\<rparr>)
   }"

definition iter_oldest_first :: "probe_ring \<Rightarrow> probe_event list" where
  "iter_oldest_first r = List.map_filter (\<lambda>e. e) (drop (pr_next r) (pr_buf r) @ take (pr_next r) (pr_buf r))"

definition ring_ok :: "probe_ring \<Rightarrow> bool" where
  "ring_ok r \<longleftrightarrow> length (pr_buf r) = PROBE_CAP \<and> pr_next r < PROBE_CAP"

fun ring_push_all :: "probe_event list \<Rightarrow> probe_ring \<Rightarrow> probe_ring option" where
  "ring_push_all [] r = Some r"
| "ring_push_all (e # es) r = do { r \<leftarrow> ring_push e r; ring_push_all es r }"

definition rotated :: "probe_ring \<Rightarrow> probe_event option list" where
  "rotated r = drop (pr_next r) (pr_buf r) @ take (pr_next r) (pr_buf r)"

lemma ring_push_rotated:
  assumes "ring_ok r"
  shows "\<exists>r'. ring_push e r = Some r' \<and> ring_ok r' \<and> rotated r' = tl (rotated r) @ [Some e] \<and> pr_total r' = pr_total r + 1"
proof -
  let ?b = "pr_buf r" and ?n = "pr_next r"
  have n: "?n < length ?b" "length ?b = PROBE_CAP" using assms by (simp_all add: ring_ok_def)
  let ?r = "r\<lparr>pr_buf := ?b[?n := Some e], pr_next := (?n + 1) mod PROBE_CAP, pr_total := pr_total r + 1\<rparr>"
  have "rotated ?r = drop (?n + 1) ?b @ take ?n ?b @ [Some e]"
  proof (cases "?n + 1 = PROBE_CAP")
    case True
    then have "rotated ?r = ?b[?n := Some e]" by (simp add: rotated_def)
    also have "\<dots> = take ?n ?b @ Some e # drop (?n + 1) ?b" using upd_conv_take_nth_drop [OF n(1)] by simp
    finally show ?thesis using True n by simp
  next
    case False
    then have "(?n + 1) mod PROBE_CAP = ?n + 1" using n by simp
    then show ?thesis using n by (simp add: rotated_def take_Suc_conv_app_nth)
  qed
  moreover have "tl (rotated r) = drop (?n + 1) ?b @ take ?n ?b"
    using n by (simp add: rotated_def tl_append Cons_nth_drop_Suc [symmetric])
  moreover have "ring_push e r = Some ?r" "ring_ok ?r" using n by (simp_all add: ring_push_def ring_ok_def PROBE_CAP_def)
  ultimately show ?thesis by simp
qed

lemma ring_push_all_rotated:
  "ring_ok r \<Longrightarrow> \<exists>r'. ring_push_all es r = Some r' \<and> ring_ok r' \<and> rotated r' = drop (length es) (rotated r @ map Some es) \<and>
     pr_total r' = pr_total r + length es"
proof (induction es arbitrary: r)
  case (Cons e es)
  obtain r1 where r1: "ring_push e r = Some r1" "ring_ok r1" "rotated r1 = tl (rotated r) @ [Some e]" "pr_total r1 = pr_total r + 1"
    using ring_push_rotated [OF Cons.prems] by blast
  have "rotated r \<noteq> []" using Cons.prems by (auto simp: rotated_def ring_ok_def)
  then show ?case using r1 Cons.IH [OF r1(2)] by (cases "rotated r") simp_all
qed (simp)

text \<open>
  C28. The probe ring keeps the most recent events in order: after any sequence of pushes on a new ring,
  reading it oldest first gives exactly the last 256 events pushed (all of them while there are fewer), and the total
  counts every push.
\<close>
theorem probe_ring_refines_queue:
  "\<exists>r. ring_push_all es new_ring = Some r \<and> iter_oldest_first r = drop (length es - PROBE_CAP) es \<and> pr_total r = length es"
proof -
  have "ring_ok new_ring" by (simp add: ring_ok_def new_ring_def PROBE_CAP_def)
  moreover have "rotated new_ring = replicate PROBE_CAP None" by (simp add: rotated_def new_ring_def)
  ultimately obtain r where r: "ring_push_all es new_ring = Some r" "pr_total r = length es"
    "rotated r = drop (length es) (replicate PROBE_CAP None @ map Some es)"
    using ring_push_all_rotated [of new_ring es] by (auto simp: new_ring_def)
  have mf: "List.map_filter (\<lambda>e. e) (replicate k None @ map Some xs) = xs" for k and xs :: "probe_event list"
    by (simp add: List.map_filter_def comp_def filter_map)
  have "iter_oldest_first r = List.map_filter (\<lambda>e. e) (rotated r)" by (simp add: iter_oldest_first_def rotated_def)
  also have "\<dots> = drop (length es - PROBE_CAP) es"
    using mf [of "PROBE_CAP - length es" "drop (length es - PROBE_CAP) es"] by (simp add: r(3) drop_map)
  finally show ?thesis using r by blast
qed

end
