(* ===== verification/Invalidation.thy ===== *)
theory Invalidation
  imports Lookup Code_Table Probe_Ring
begin

text \<open>
  Invalidation of compiled code when a method is redefined: the dependency scan of
  \<open>src/src/runtime/deps.rs\<close>, \<open>make_not_entrant\<close> of \<open>src/src/codecache/flush.rs\<close>, the redirection of return
  addresses of \<open>src/src/runtime/frames.rs\<close> and \<open>install_method\<close> as a whole. The native stack is a map from slot addresses to words and the frames that
  \<open>walk_frames\<close> reports are a list in the state; the walker itself is not modelled.
\<close>

subsection \<open>State\<close>

datatype frame_view =
    FInterpreted (fv_fp: nat)
  | FCompiled (fv_fp: nat) (fv_ret_pc: nat) (fv_nm: nat)
  | FAdapter (fv_fp: nat) (fv_caller_pc: nat)
  | FCallStub (fv_fp: nat)

text \<open>The descriptors of the polymorphic inline-cache stubs (\<open>src/src/codecache/pics.rs\<close>), by the base address of the stub.\<close>

record pic_desc =
  pic_handle :: code_handle
  pic_pairs :: "(oop \<times> nat) list"
  pic_klass_pool_offs :: "nat list"

type_synonym pic_table = "nat \<rightharpoonup> pic_desc"

record pending_deopt =
  pd_orig_ret_pc :: nat
  pd_nm :: nat

record jit_vm =
  jv_lookup :: lookup_vm
  jv_table :: code_table
  jv_mem :: memory
  jv_stack :: "nat \<rightharpoonup> nat"
  jv_frames :: "frame_view list"
  jv_pending_deopts :: "nat \<rightharpoonup> pending_deopt"
  jv_ring :: probe_ring
  jv_pending_deopt_flag :: bool
  jv_poll_flag :: nat
  jv_not_entrant_addr :: nat
  jv_deopt_return_addr :: nat
  jv_cache :: code_cache
  jv_pics :: pic_table
  jv_resolve_addr :: nat

definition nm_code :: "nmethod \<Rightarrow> code_handle" where
  "nm_code nm = \<lparr>ch_base = nm_code_base nm, ch_len = nm_code_len nm\<rparr>"

subsection \<open>Dependencies (deps.rs)\<close>

partial_function (option) superchain_contains :: "lookup_vm \<Rightarrow> oop \<Rightarrow> oop \<Rightarrow> bool option" where
  "superchain_contains vm cur holder =
     (if cur = holder then Some True
      else do {
        kd \<leftarrow> lv_klasses vm cur;
        let sc = kd_superclass kd;
        if sc = ov_nil (lv_view vm) then Some False else superchain_contains vm sc holder
      })"

text \<open>\<open>&&\<close> and \<open>any\<close> stop at the first answer.\<close>

definition dep_affected :: "lookup_vm \<Rightarrow> oop \<Rightarrow> oop \<Rightarrow> oop \<times> oop \<Rightarrow> bool option" where
  "dep_affected vm holder selector d = (case d of (dk, ds) \<Rightarrow>
     if ds = selector then superchain_contains vm dk holder else Some False)"

fun any_affected :: "lookup_vm \<Rightarrow> oop \<Rightarrow> oop \<Rightarrow> (oop \<times> oop) list \<Rightarrow> bool option" where
  "any_affected vm holder selector [] = Some False"
| "any_affected vm holder selector (d # ds) = do {
     b \<leftarrow> dep_affected vm holder selector d;
     if b then Some True else any_affected vm holder selector ds
   }"

fun collect_victims :: "lookup_vm \<Rightarrow> oop \<Rightarrow> oop \<Rightarrow> nmethod list \<Rightarrow> nat list option" where
  "collect_victims vm holder selector [] = Some []"
| "collect_victims vm holder selector (nm # nms) = do {
     own_key_affected \<leftarrow> dep_affected vm holder selector (nm_key nm);
     inline_dep_affected \<leftarrow> any_affected vm holder selector (nm_inline_deps nm);
     rest \<leftarrow> collect_victims vm holder selector nms;
     Some (if own_key_affected \<or> inline_dep_affected then nm_id nm # rest else rest)
   }"

definition affected_by_install :: "jit_vm \<Rightarrow> oop \<Rightarrow> oop \<Rightarrow> nat list option" where
  "affected_by_install vm holder selector = collect_victims (jv_lookup vm) holder selector (iter_alive (jv_table vm))"

subsection \<open>Return redirection (frames.rs)\<close>

fun native_fp :: "frame_view \<Rightarrow> nat option" where
  "native_fp (FCompiled fp _ _) = Some fp"
| "native_fp (FAdapter fp _) = Some fp"
| "native_fp (FInterpreted _) = None"
| "native_fp (FCallStub _) = None"

definition is_call_return :: "nmethod \<Rightarrow> nat \<Rightarrow> bool option" where
  "is_call_return nm saved_lr =
     (case find_pc_desc (nm_deopt_pcdescs nm) (of_nat (saved_lr - nm_code_base nm)) of
        None \<Rightarrow> Some False
      | Some d \<Rightarrow> do {
          site \<leftarrow> decode_site (nm_deopt_scopes nm) (site_off d);
          Some (\<not> d_reexecute site \<and> d_kind site = CallK)
        })"

text \<open>The closure run on each frame: the redirect it records, if any, as slot, saved frame pointer and return address.\<close>

definition redirect_of :: "nmethod \<Rightarrow> nat \<Rightarrow> (nat \<rightharpoonup> nat) \<Rightarrow> frame_view \<Rightarrow> (nat \<times> nat \<times> nat) option option" where
  "redirect_of nm tramp stack fv =
     (case native_fp fv of
        None \<Rightarrow> Some None
      | Some fp \<Rightarrow> do {
          saved_lr \<leftarrow> stack (fp + 8);
          if saved_lr < nm_code_base nm \<or> saved_lr \<ge> nm_code_base nm + nm_code_len nm then Some None
          else if saved_lr = tramp then Some None
          else do {
            c \<leftarrow> is_call_return nm saved_lr;
            if \<not> c then Some None
            else do {
              saved_fp \<leftarrow> stack fp;
              Some (Some (fp + 8, saved_fp, saved_lr))
            }
          }
        })"

fun collect_redirects :: "nmethod \<Rightarrow> nat \<Rightarrow> (nat \<rightharpoonup> nat) \<Rightarrow> frame_view list \<Rightarrow> (nat \<times> nat \<times> nat) list option" where
  "collect_redirects nm tramp stack [] = Some []"
| "collect_redirects nm tramp stack (fv # fvs) = do {
     r \<leftarrow> redirect_of nm tramp stack fv;
     rs \<leftarrow> collect_redirects nm tramp stack fvs;
     Some (case r of Some x \<Rightarrow> x # rs | None \<Rightarrow> rs)
   }"

fun apply_redirects :: "nat \<Rightarrow> nat \<Rightarrow> (nat \<times> nat \<times> nat) list \<Rightarrow> jit_vm \<Rightarrow> jit_vm" where
  "apply_redirects i tramp [] vm = vm"
| "apply_redirects i tramp ((slot, saved_fp, orig) # rs) vm =
     apply_redirects i tramp rs
       (vm\<lparr>jv_pending_deopts := (jv_pending_deopts vm)(saved_fp \<mapsto> \<lparr>pd_orig_ret_pc = orig, pd_nm = i\<rparr>),
           jv_stack := (jv_stack vm)(slot \<mapsto> tramp)\<rparr>)"

definition redirect_returns_into_nm :: "nat \<Rightarrow> nat \<Rightarrow> jit_vm \<Rightarrow> jit_vm option" where
  "redirect_returns_into_nm i tramp vm = do {
     nm \<leftarrow> get_nm (jv_table vm) i;
     rs \<leftarrow> collect_redirects nm tramp (jv_stack vm) (jv_frames vm);
     Some (apply_redirects i tramp rs vm)
   }"

subsection \<open>Making an nmethod not entrant (flush.rs)\<close>

definition stamp_entries :: "nmethod \<Rightarrow> jit_vm \<Rightarrow> jit_vm option" where
  "stamp_entries nm vm = do {
     mem \<leftarrow> write_jump_at (nm_code nm) (nm_entry_off nm) (jv_not_entrant_addr vm) (jv_mem vm);
     mem \<leftarrow> (if nm_verified_entry_off nm \<noteq> nm_entry_off nm
             then write_jump_at (nm_code nm) (nm_verified_entry_off nm) (jv_not_entrant_addr vm) mem
             else Some mem);
     Some (vm\<lparr>jv_mem := mem\<rparr>)
   }"

definition retire_nm :: "nat \<Rightarrow> jit_vm \<Rightarrow> jit_vm option" where
  "retire_nm i vm = do {
     ring \<leftarrow> ring_push (EvInvalidate i) (jv_ring vm);
     table \<leftarrow> set_not_entrant i (jv_table vm);
     Some (vm\<lparr>jv_ring := ring, jv_table := table\<rparr>)
   }"

definition arm_poll :: "jit_vm \<Rightarrow> jit_vm" where
  "arm_poll vm = vm\<lparr>jv_pending_deopt_flag := True, jv_poll_flag := 1\<rparr>"

definition make_not_entrant_lazy :: "nat \<Rightarrow> jit_vm \<Rightarrow> jit_vm option" where
  "make_not_entrant_lazy i vm = do {
     nm \<leftarrow> get_nm (jv_table vm) i;
     vm \<leftarrow> retire_nm i vm;
     vm \<leftarrow> stamp_entries nm vm;
     Some (arm_poll vm)
   }"

definition make_not_entrant :: "nat \<Rightarrow> jit_vm \<Rightarrow> jit_vm option" where
  "make_not_entrant i vm = do {
     nm \<leftarrow> get_nm (jv_table vm) i;
     vm \<leftarrow> retire_nm i vm;
     vm \<leftarrow> stamp_entries nm vm;
     vm \<leftarrow> redirect_returns_into_nm i (jv_deopt_return_addr vm) vm;
     Some (arm_poll vm)
   }"

fun make_all_not_entrant :: "nat list \<Rightarrow> jit_vm \<Rightarrow> jit_vm option" where
  "make_all_not_entrant [] vm = Some vm"
| "make_all_not_entrant (i # is) vm = do { vm \<leftarrow> make_not_entrant i vm; make_all_not_entrant is vm }"

definition invalidate_dependents :: "oop \<Rightarrow> oop \<Rightarrow> jit_vm \<Rightarrow> jit_vm option" where
  "invalidate_dependents holder selector vm = do {
     victims \<leftarrow> affected_by_install vm holder selector;
     make_all_not_entrant victims vm
   }"

text \<open>\<open>install_method\<close> with the debugger inactive (an active one then also arms pending breakpoints).\<close>

definition install_method :: "oop \<Rightarrow> oop \<Rightarrow> oop \<Rightarrow> jit_vm \<Rightarrow> jit_vm option" where
  "install_method klass selector m vm = do {
     lk \<leftarrow> install_binding klass selector m (jv_lookup vm);
     invalidate_dependents klass selector (vm\<lparr>jv_lookup := lk\<rparr>)
   }"


subsection \<open>The state's invariant\<close>

definition native_fps :: "jit_vm \<Rightarrow> nat set" where
  "native_fps vm = {fp. \<exists>fv \<in> set (jv_frames vm). native_fp fv = Some fp}"

text \<open>Every native frame has its saved frame pointer and return address on the stack; frame records do not overlap and no two frames have the same caller frame.\<close>

definition frames_ok :: "jit_vm \<Rightarrow> bool" where
  "frames_ok vm \<longleftrightarrow>
     (\<forall>fp \<in> native_fps vm. jv_stack vm fp \<noteq> None \<and> jv_stack vm (fp + 8) \<noteq> None) \<and>
     (\<forall>a \<in> native_fps vm. \<forall>b \<in> native_fps vm. a + 8 \<noteq> b) \<and> inj_on (jv_stack vm) (native_fps vm)"

definition entry_ok :: "jit_vm \<Rightarrow> nmethod \<Rightarrow> nat \<Rightarrow> bool" where
  "entry_ok vm nm off \<longleftrightarrow> off + 5 \<le> nm_code_len nm \<and> disp32 (jv_not_entrant_addr vm) (nm_code_base nm + off + 5) \<noteq> None"

definition code_ok :: "jit_vm \<Rightarrow> nmethod \<Rightarrow> bool" where
  "code_ok vm nm \<longleftrightarrow> entry_ok vm nm (nm_entry_off nm) \<and> entry_ok vm nm (nm_verified_entry_off nm) \<and>
     (nm_entry_off nm = nm_verified_entry_off nm \<or> nm_entry_off nm + 5 \<le> nm_verified_entry_off nm) \<and>
     (\<forall>d \<in> set (nm_deopt_pcdescs nm). decode_site (nm_deopt_scopes nm) (site_off d) \<noteq> None)"

definition nm_deps :: "nmethod \<Rightarrow> (oop \<times> oop) set" where
  "nm_deps nm = Set.insert (nm_key nm) (set (nm_inline_deps nm))"

definition deps_ok :: "jit_vm \<Rightarrow> nmethod \<Rightarrow> bool" where
  "deps_ok vm nm \<longleftrightarrow> (\<forall>(k, s) \<in> nm_deps nm. (\<exists>ks. chain (jv_lookup vm) k ks) \<and> sel_ok (lv_view (jv_lookup vm)) s)"

definition alive_in :: "jit_vm \<Rightarrow> nat \<Rightarrow> nmethod \<Rightarrow> bool" where
  "alive_in vm i nm \<longleftrightarrow> get_nm (jv_table vm) i = Some nm \<and> nm_state nm = Alive"

definition jit_ok :: "jit_vm \<Rightarrow> bool" where
  "jit_ok vm \<longleftrightarrow> tb_wf (jv_table vm) \<and> ring_ok (jv_ring vm) \<and> frames_ok vm \<and>
     (\<forall>i nm. alive_in vm i nm \<longrightarrow> code_ok vm nm \<and> deps_ok vm nm)"

subsection \<open>The dependency scan\<close>

lemma superchain_contains_chain: "chain vm k ks \<Longrightarrow> superchain_contains vm k holder = Some (holder \<in> set ks)"
proof (induction rule: chain.induct)
  case (chain_top k kd)
  then show ?case by (subst superchain_contains.simps) auto
next
  case (chain_up k kd ks)
  then show ?case by (subst superchain_contains.simps) auto
qed

definition dep_hit :: "lookup_vm \<Rightarrow> oop \<Rightarrow> oop \<Rightarrow> oop \<times> oop \<Rightarrow> bool" where
  "dep_hit vm holder selector d \<longleftrightarrow> snd d = selector \<and> (\<exists>ks. chain vm (fst d) ks \<and> holder \<in> set ks)"

lemma dep_affected_eq:
  "\<exists>ks. chain vm (fst d) ks \<Longrightarrow> dep_affected vm holder selector d = Some (dep_hit vm holder selector d)"
  by (cases d) (auto simp: dep_affected_def dep_hit_def superchain_contains_chain dest: chain_unique)

lemma any_affected_eq:
  "\<forall>d \<in> set ds. \<exists>ks. chain vm (fst d) ks \<Longrightarrow> any_affected vm holder selector ds = Some (\<exists>d \<in> set ds. dep_hit vm holder selector d)"
  by (induction ds) (auto simp: dep_affected_eq)

lemma collect_victims_eq:
  "\<forall>nm \<in> set nms. \<forall>d \<in> nm_deps nm. \<exists>ks. chain vm (fst d) ks \<Longrightarrow>
   collect_victims vm holder selector nms = Some (map nm_id (filter (\<lambda>nm. \<exists>d \<in> nm_deps nm. dep_hit vm holder selector d) nms))"
  by (induction nms) (auto simp: dep_affected_eq any_affected_eq nm_deps_def)

subsection \<open>Redirection\<close>

definition returns_into :: "nmethod \<Rightarrow> nat \<Rightarrow> (nat \<rightharpoonup> nat) \<Rightarrow> nat \<Rightarrow> nat \<Rightarrow> bool" where
  "returns_into nm tramp stack fp lr \<longleftrightarrow> stack (fp + 8) = Some lr \<and> nm_code_base nm \<le> lr \<and>
     lr < nm_code_base nm + nm_code_len nm \<and> lr \<noteq> tramp \<and> is_call_return nm lr = Some True"

lemma returns_into_unique: "returns_into nm tramp stack fp lr \<Longrightarrow> returns_into nm tramp stack fp lr' \<Longrightarrow> lr' = lr"
  by (simp add: returns_into_def)

lemma find_pc_desc_in: "find_pc_desc ds x = Some d \<Longrightarrow> d \<in> set ds"
  by (auto simp: find_pc_desc_def split: option.splits dest!: binary_search_sound)

lemma is_call_return_total:
  "\<forall>d \<in> set (nm_deopt_pcdescs nm). decode_site (nm_deopt_scopes nm) (site_off d) \<noteq> None \<Longrightarrow> is_call_return nm lr \<noteq> None"
  by (auto simp: is_call_return_def split: option.split dest!: find_pc_desc_in)

lemma redirect_of_spec:
  assumes "\<forall>d \<in> set (nm_deopt_pcdescs nm). decode_site (nm_deopt_scopes nm) (site_off d) \<noteq> None"
    and "\<And>fp. native_fp fv = Some fp \<Longrightarrow> stack fp \<noteq> None \<and> stack (fp + 8) \<noteq> None"
  shows "redirect_of nm tramp stack fv =
    Some (case native_fp fv of
            Some fp \<Rightarrow> if \<exists>lr. returns_into nm tramp stack fp lr then Some (fp + 8, the (stack fp), the (stack (fp + 8))) else None
          | None \<Rightarrow> None)"
proof (cases "native_fp fv")
  case (Some fp)
  then obtain sf lr where st: "stack fp = Some sf" "stack (fp + 8) = Some lr" using assms(2) by blast
  obtain c where "is_call_return nm lr = Some c" using is_call_return_total [OF assms(1)] by blast
  then show ?thesis using Some st by (auto simp: redirect_of_def returns_into_def)
qed (simp add: redirect_of_def)


lemma collect_redirects_spec:
  assumes "\<forall>d \<in> set (nm_deopt_pcdescs nm). decode_site (nm_deopt_scopes nm) (site_off d) \<noteq> None"
  shows "\<forall>fv \<in> set fvs. \<forall>fp. native_fp fv = Some fp \<longrightarrow> stack fp \<noteq> None \<and> stack (fp + 8) \<noteq> None \<Longrightarrow>
   \<exists>rs. collect_redirects nm tramp stack fvs = Some rs \<and>
     set rs = {(fp + 8, the (stack fp), lr) | fp lr. (\<exists>fv \<in> set fvs. native_fp fv = Some fp) \<and> returns_into nm tramp stack fp lr}"
proof (induction fvs)
  case (Cons fv fvs)
  obtain rs where rs: "collect_redirects nm tramp stack fvs = Some rs"
    "set rs = {(fp + 8, the (stack fp), lr) | fp lr. (\<exists>fv \<in> set fvs. native_fp fv = Some fp) \<and> returns_into nm tramp stack fp lr}"
    using Cons by auto
  have r: "redirect_of nm tramp stack fv =
    Some (case native_fp fv of
            Some fp \<Rightarrow> if \<exists>lr. returns_into nm tramp stack fp lr then Some (fp + 8, the (stack fp), the (stack (fp + 8))) else None
          | None \<Rightarrow> None)"
    using Cons.prems by (intro redirect_of_spec [OF assms]) simp
  have lr: "the (stack (fp + 8)) = lr" if "returns_into nm tramp stack fp lr" for fp lr
    using that by (simp add: returns_into_def)
  show ?case
  proof (cases "\<exists>fp lr. native_fp fv = Some fp \<and> returns_into nm tramp stack fp lr")
    case True
    then obtain fp lr where f: "native_fp fv = Some fp" "returns_into nm tramp stack fp lr" by blast
    then have one: "{(fp + 8, the (stack fp), lr) | fp lr. (\<exists>fv \<in> set (fv # fvs). native_fp fv = Some fp) \<and> returns_into nm tramp stack fp lr} =
      Set.insert (fp + 8, the (stack fp), lr) (set rs)"
      unfolding rs(2) using lr by (auto dest: returns_into_unique)
    have "redirect_of nm tramp stack fv = Some (Some (fp + 8, the (stack fp), lr))" using r f lr by auto
    then show ?thesis unfolding one using rs(1) by simp
  next
    case False
    then have "redirect_of nm tramp stack fv = Some None" using r by (auto split: option.splits)
    moreover have "{(fp + 8, the (stack fp), lr) | fp lr. (\<exists>fv \<in> set (fv # fvs). native_fp fv = Some fp) \<and> returns_into nm tramp stack fp lr} = set rs"
      unfolding rs(2) using False by auto
    ultimately show ?thesis using rs(1) by simp
  qed
qed simp

lemma apply_redirects_stack:
  "jv_stack (apply_redirects i tramp rs vm) x = (if x \<in> fst ` set rs then Some tramp else jv_stack vm x)"
  by (induction i tramp rs vm rule: apply_redirects.induct) auto

lemma apply_redirects_pending_other:
  "k \<notin> (fst \<circ> snd) ` set rs \<Longrightarrow> jv_pending_deopts (apply_redirects i tramp rs vm) k = jv_pending_deopts vm k"
  by (induction i tramp rs vm rule: apply_redirects.induct) auto

lemma apply_redirects_pending:
  "\<exists>s. (s, k, lr) \<in> set rs \<Longrightarrow> \<forall>(s', k', lr') \<in> set rs. k' = k \<longrightarrow> lr' = lr \<Longrightarrow>
   jv_pending_deopts (apply_redirects i tramp rs vm) k = Some \<lparr>pd_orig_ret_pc = lr, pd_nm = i\<rparr>"
proof (induction i tramp rs vm rule: apply_redirects.induct)
  case (2 i tramp slot saved_fp orig rs vm)
  show ?case
  proof (cases "k \<in> (fst \<circ> snd) ` set rs")
    case True
    then obtain s' lr' where "(s', k, lr') \<in> set rs" by auto
    moreover from this have "lr' = lr" using 2(3) by auto
    ultimately show ?thesis using 2 by auto
  next
    case False
    then have "saved_fp = k" "orig = lr" using 2(2) by (auto simp: image_iff)
    then show ?thesis using False by (simp add: apply_redirects_pending_other)
  qed
qed simp

lemma apply_redirects_fields [simp]:
  "jv_lookup (apply_redirects i tramp rs vm) = jv_lookup vm" "jv_table (apply_redirects i tramp rs vm) = jv_table vm"
  "jv_mem (apply_redirects i tramp rs vm) = jv_mem vm" "jv_frames (apply_redirects i tramp rs vm) = jv_frames vm"
  "jv_ring (apply_redirects i tramp rs vm) = jv_ring vm" "jv_not_entrant_addr (apply_redirects i tramp rs vm) = jv_not_entrant_addr vm"
  "jv_deopt_return_addr (apply_redirects i tramp rs vm) = jv_deopt_return_addr vm"
  by (induction i tramp rs vm rule: apply_redirects.induct) simp_all


subsection \<open>One nmethod\<close>

definition entry_sealed :: "jit_vm \<Rightarrow> nmethod \<Rightarrow> bool" where
  "entry_sealed vm nm \<longleftrightarrow> (\<forall>off \<in> {nm_entry_off nm, nm_verified_entry_off nm}.
     branch_dest 0xE9 (nm_code_base nm + off) (jv_mem vm) = Some (int (jv_not_entrant_addr vm)))"

definition in_code :: "nmethod \<Rightarrow> nat \<Rightarrow> bool" where
  "in_code nm x \<longleftrightarrow> nm_code_base nm \<le> x \<and> x < nm_code_base nm + nm_code_len nm"

lemma branch_dest_cong: "\<forall>x. s \<le> x \<and> x < s + 5 \<longrightarrow> mem' x = mem x \<Longrightarrow> branch_dest op1 s mem' = branch_dest op1 s mem"
  by (simp add: branch_dest_def read_le32_def)

lemma write_jmp_spec:
  assumes "off + 5 \<le> ch_len h" "disp32 target (ch_base h + off + 5) \<noteq> None"
  shows "\<exists>mem'. write_jmp_rel32_at h off target mem = Some mem' \<and> branch_dest 0xE9 (ch_base h + off) mem' = Some (int target) \<and>
    (\<forall>x. x < ch_base h + off \<or> ch_base h + off + 5 \<le> x \<longrightarrow> mem' x = mem x)"
  using write_jmp_rel32_exact [where h = h and off = off and target = target and mem = mem] assms by (auto split: option.splits)

lemma stamp_entries_spec:
  assumes "code_ok vm nm"
  shows "\<exists>mem'. stamp_entries nm vm = Some (vm\<lparr>jv_mem := mem'\<rparr>) \<and> entry_sealed (vm\<lparr>jv_mem := mem'\<rparr>) nm \<and>
    (\<forall>x. \<not> in_code nm x \<longrightarrow> mem' x = jv_mem vm x)"
proof -
  let ?b = "nm_code_base nm" and ?e = "nm_entry_off nm" and ?v = "nm_verified_entry_off nm" and ?a = "jv_not_entrant_addr vm"
  have ok: "?e + 5 \<le> nm_code_len nm" "disp32 ?a (?b + ?e + 5) \<noteq> None" "?v + 5 \<le> nm_code_len nm" "disp32 ?a (?b + ?v + 5) \<noteq> None"
    and far: "?e = ?v \<or> ?e + 5 \<le> ?v"
    using assms by (simp_all add: code_ok_def entry_ok_def)
  obtain m1 where m1: "write_jmp_rel32_at (nm_code nm) ?e ?a (jv_mem vm) = Some m1" "branch_dest 0xE9 (?b + ?e) m1 = Some (int ?a)"
    "\<forall>x. x < ?b + ?e \<or> ?b + ?e + 5 \<le> x \<longrightarrow> m1 x = jv_mem vm x"
    using write_jmp_spec [of ?e "nm_code nm" ?a "jv_mem vm"] ok(1,2) by (auto simp: nm_code_def)
  obtain m2 where m2: "write_jmp_rel32_at (nm_code nm) ?v ?a m1 = Some m2" "branch_dest 0xE9 (?b + ?v) m2 = Some (int ?a)"
    "\<forall>x. x < ?b + ?v \<or> ?b + ?v + 5 \<le> x \<longrightarrow> m2 x = m1 x"
    using write_jmp_spec [of ?v "nm_code nm" ?a m1] ok(3,4) by (auto simp: nm_code_def)
  have out1: "m1 x = jv_mem vm x" if "\<not> in_code nm x" for x
  proof -
    have "x < ?b + ?e \<or> ?b + ?e + 5 \<le> x" using that ok(1) unfolding in_code_def by linarith
    then show ?thesis using m1(3) by blast
  qed
  show ?thesis
  proof (cases "?v = ?e")
    case True
    then show ?thesis using m1(1,2) out1 by (intro exI [of _ m1]) (simp add: stamp_entries_def write_jump_at_def entry_sealed_def)
  next
    case False
    then have f: "?e + 5 \<le> ?v" using far by simp
    then have "branch_dest 0xE9 (?b + ?e) m2 = branch_dest 0xE9 (?b + ?e) m1" using m2(3) by (intro branch_dest_cong) simp
    moreover have "m2 x = m1 x" if "\<not> in_code nm x" for x
    proof -
      have "x < ?b + ?v \<or> ?b + ?v + 5 \<le> x" using that ok(3) unfolding in_code_def by linarith
      then show ?thesis using m2(3) by blast
    qed
    ultimately show ?thesis using False m1(1,2) m2(1,2) out1
      by (intro exI [of _ m2]) (simp add: stamp_entries_def write_jump_at_def entry_sealed_def)
  qed
qed

text \<open>The effect of one \<open>make_not_entrant\<close> on each part of the state.\<close>

definition retired :: "nat set \<Rightarrow> jit_vm \<Rightarrow> jit_vm \<Rightarrow> bool" where
  "retired V vm vm' \<longleftrightarrow>
     (\<forall>j. get_nm (jv_table vm') j = (if j \<in> V then map_option (nm_state_update (\<lambda>_. NotEntrant)) (get_nm (jv_table vm) j) else get_nm (jv_table vm) j)) \<and>
     (\<forall>k. tb_by_key (jv_table vm') k = (if tb_by_key (jv_table vm) k \<in> Some ` V then None else tb_by_key (jv_table vm) k)) \<and>
     jv_lookup vm' = jv_lookup vm \<and> jv_frames vm' = jv_frames vm \<and> jv_not_entrant_addr vm' = jv_not_entrant_addr vm \<and>
     jv_deopt_return_addr vm' = jv_deopt_return_addr vm"

definition sealed :: "nat set \<Rightarrow> jit_vm \<Rightarrow> jit_vm \<Rightarrow> bool" where
  "sealed V vm vm' \<longleftrightarrow>
     (\<forall>i nm. i \<in> V \<longrightarrow> get_nm (jv_table vm) i = Some nm \<longrightarrow> entry_sealed vm' nm) \<and>
     (\<forall>x. (\<forall>i nm. i \<in> V \<longrightarrow> get_nm (jv_table vm) i = Some nm \<longrightarrow> \<not> in_code nm x) \<longrightarrow> jv_mem vm' x = jv_mem vm x)"

definition active_in :: "jit_vm \<Rightarrow> nat \<Rightarrow> nat \<Rightarrow> nat \<Rightarrow> bool" where
  "active_in vm i fp lr \<longleftrightarrow> fp \<in> native_fps vm \<and>
     (\<exists>nm. get_nm (jv_table vm) i = Some nm \<and> returns_into nm (jv_deopt_return_addr vm) (jv_stack vm) fp lr)"

definition redirected :: "nat set \<Rightarrow> jit_vm \<Rightarrow> jit_vm \<Rightarrow> bool" where
  "redirected V vm vm' \<longleftrightarrow>
     (\<forall>i fp lr. i \<in> V \<longrightarrow> active_in vm i fp lr \<longrightarrow>
        jv_stack vm' (fp + 8) = Some (jv_deopt_return_addr vm) \<and>
        jv_pending_deopts vm' (the (jv_stack vm fp)) = Some \<lparr>pd_orig_ret_pc = lr, pd_nm = i\<rparr>) \<and>
     (\<forall>x. (\<forall>i fp lr. i \<in> V \<longrightarrow> active_in vm i fp lr \<longrightarrow> x \<noteq> fp + 8) \<longrightarrow> jv_stack vm' x = jv_stack vm x) \<and>
     (\<forall>k. (\<forall>i fp lr. i \<in> V \<longrightarrow> active_in vm i fp lr \<longrightarrow> jv_stack vm fp \<noteq> Some k) \<longrightarrow> jv_pending_deopts vm' k = jv_pending_deopts vm k)"

lemma mne_spec:
  assumes ok: "jit_ok vm" and nm: "alive_in vm i nm"
  shows "\<exists>vm'. make_not_entrant i vm = Some vm' \<and> retired {i} vm vm' \<and> tb_wf (jv_table vm') \<and> ring_ok (jv_ring vm') \<and>
    sealed {i} vm vm' \<and> redirected {i} vm vm' \<and> jv_pending_deopt_flag vm' \<and> jv_poll_flag vm' = 1"
proof -
  have get: "get_nm (jv_table vm) i = Some nm" and al: "nm_state nm = Alive" using nm by (simp_all add: alive_in_def)
  have wf: "tb_wf (jv_table vm)" and fr: "frames_ok vm" and rg: "ring_ok (jv_ring vm)" and cd: "code_ok vm nm"
    using ok nm unfolding jit_ok_def by blast+
  have ix: "indexes_wf (jv_table vm)" using wf by (simp add: tb_wf_def)
  let ?t = "retire NotEntrant i nm (jv_table vm)" and ?tr = "jv_deopt_return_addr vm" and ?st = "jv_stack vm"
  have get': "get_nm ?t i = Some (nm\<lparr>nm_state := NotEntrant\<rparr>)" using retire_get [OF get] by simp
  obtain r where r: "ring_push (EvInvalidate i) (jv_ring vm) = Some r" "ring_ok r" using ring_push_rotated [OF rg] by blast
  let ?vm1 = "vm\<lparr>jv_ring := r, jv_table := ?t\<rparr>"
  have s1: "retire_nm i vm = Some ?vm1" using r get al by (simp add: retire_nm_def set_not_entrant_def)
  have "code_ok ?vm1 nm" using cd by (simp add: code_ok_def entry_ok_def)
  then obtain mem where mem: "stamp_entries nm ?vm1 = Some (?vm1\<lparr>jv_mem := mem\<rparr>)" "entry_sealed (?vm1\<lparr>jv_mem := mem\<rparr>) nm"
    "\<And>x. \<not> in_code nm x \<Longrightarrow> mem x = jv_mem vm x"
    using stamp_entries_spec [of ?vm1 nm] by auto
  let ?vm2 = "?vm1\<lparr>jv_mem := mem\<rparr>"
  have sites: "\<forall>d \<in> set (nm_deopt_pcdescs nm). decode_site (nm_deopt_scopes nm) (site_off d) \<noteq> None" using cd by (simp add: code_ok_def)
  have ri: "returns_into (nm\<lparr>nm_state := NotEntrant\<rparr>) tr st fp lr \<longleftrightarrow> returns_into nm tr st fp lr" for tr st fp lr
    by (simp add: returns_into_def is_call_return_def split: option.split)
  have "\<forall>fv \<in> set (jv_frames vm). \<forall>fp. native_fp fv = Some fp \<longrightarrow> ?st fp \<noteq> None \<and> ?st (fp + 8) \<noteq> None"
    using fr unfolding frames_ok_def native_fps_def by blast
  then obtain rs where rs: "collect_redirects (nm\<lparr>nm_state := NotEntrant\<rparr>) ?tr ?st (jv_frames vm) = Some rs"
    "set rs = {(fp + 8, the (?st fp), lr) | fp lr. fp \<in> native_fps vm \<and> returns_into nm ?tr ?st fp lr}"
    using collect_redirects_spec [of "nm\<lparr>nm_state := NotEntrant\<rparr>" "jv_frames vm" ?st ?tr] sites
    unfolding ri native_fps_def by auto
  let ?vm3 = "apply_redirects i ?tr rs ?vm2"
  have "make_not_entrant i vm = Some (arm_poll ?vm3)"
    using s1 mem(1) get get' rs(1) by (simp add: make_not_entrant_def redirect_returns_into_nm_def)
  moreover have "retired {i} vm (arm_poll ?vm3)"
    using get retire_get [OF get] retire_indexes(1) [OF ix get] by (auto simp: retired_def arm_poll_def)
  moreover have "sealed {i} vm (arm_poll ?vm3)"
    using mem(2,3) get by (auto simp: sealed_def entry_sealed_def arm_poll_def)
  moreover have "redirected {i} vm (arm_poll ?vm3)"
  proof -
    have act: "active_in vm i fp lr \<longleftrightarrow> fp \<in> native_fps vm \<and> returns_into nm ?tr ?st fp lr" for fp lr
      using get by (simp add: active_in_def)
    have inj: "lr' = lr" if "active_in vm i fp lr" "active_in vm i fp' lr'" "the (?st fp') = the (?st fp)" for fp lr fp' lr'
    proof -
      have "fp' = fp" using that fr unfolding act frames_ok_def inj_on_def by (metis option.expand)
      then show ?thesis using that returns_into_unique unfolding act by blast
    qed
    have "jv_stack ?vm3 (fp + 8) = Some ?tr \<and> jv_pending_deopts ?vm3 (the (?st fp)) = Some \<lparr>pd_orig_ret_pc = lr, pd_nm = i\<rparr>"
      if a: "active_in vm i fp lr" for fp lr
    proof
      have r: "(fp + 8, the (?st fp), lr) \<in> set rs" using a unfolding act rs(2) by blast
      then show "jv_stack ?vm3 (fp + 8) = Some ?tr" by (force simp: apply_redirects_stack)
      have "\<forall>(s', k', lr') \<in> set rs. k' = the (?st fp) \<longrightarrow> lr' = lr" using inj [OF a] unfolding act rs(2) by auto
      then show "jv_pending_deopts ?vm3 (the (?st fp)) = Some \<lparr>pd_orig_ret_pc = lr, pd_nm = i\<rparr>"
        using r by (intro apply_redirects_pending) blast+
    qed
    moreover have "jv_stack ?vm3 x = ?st x" if "\<forall>fp lr. active_in vm i fp lr \<longrightarrow> x \<noteq> fp + 8" for x
      using that unfolding act by (auto simp: apply_redirects_stack rs(2))
    moreover have "jv_pending_deopts ?vm3 k = jv_pending_deopts vm k" if "\<forall>fp lr. active_in vm i fp lr \<longrightarrow> ?st fp \<noteq> Some k" for k
    proof -
      have "k \<noteq> the (?st fp)" if "fp \<in> native_fps vm" "returns_into nm ?tr ?st fp lr" for fp lr
        using that \<open>\<forall>fp lr. active_in vm i fp lr \<longrightarrow> ?st fp \<noteq> Some k\<close> fr unfolding act frames_ok_def by (metis option.exhaust_sel)
      then have "k \<notin> (fst \<circ> snd) ` set rs" unfolding rs(2) by fastforce
      then show ?thesis by (simp add: apply_redirects_pending_other)
    qed
    ultimately show ?thesis by (simp add: redirected_def arm_poll_def)
  qed
  ultimately show ?thesis using r(2) retire_wf [OF wf get] by (simp add: arm_poll_def)
qed


subsection \<open>All victims\<close>

lemma native_fps_cong: "jv_frames vm' = jv_frames vm \<Longrightarrow> native_fps vm' = native_fps vm"
  by (simp add: native_fps_def)

lemma mne_stack:
  assumes "jit_ok vm" "retired V vm vm'" "redirected V vm vm'" "fp \<in> native_fps vm"
  shows "jv_stack vm' fp = jv_stack vm fp"
    and "jv_stack vm' (fp + 8) = jv_stack vm (fp + 8) \<or> (\<exists>i \<in> V. \<exists>lr. active_in vm i fp lr) \<and> jv_stack vm' (fp + 8) = Some (jv_deopt_return_addr vm)"
proof -
  have "a + 8 \<noteq> fp" if "a \<in> native_fps vm" for a using assms(1,4) that unfolding jit_ok_def frames_ok_def by blast
  then show "jv_stack vm' fp = jv_stack vm fp" using assms(3) unfolding redirected_def active_in_def by (metis (no_types, lifting))
  show "jv_stack vm' (fp + 8) = jv_stack vm (fp + 8) \<or> (\<exists>i \<in> V. \<exists>lr. active_in vm i fp lr) \<and> jv_stack vm' (fp + 8) = Some (jv_deopt_return_addr vm)"
    using assms(3) unfolding redirected_def by (metis add_right_cancel)
qed

lemma alive_in_retired:
  "retired V vm vm' \<Longrightarrow> alive_in vm' j nm \<longleftrightarrow> j \<notin> V \<and> alive_in vm j nm"
  by (auto simp: retired_def alive_in_def)

lemma retired_ok:
  assumes ok: "jit_ok vm" and rt: "retired V vm vm'" and rd: "redirected V vm vm'" and wf: "tb_wf (jv_table vm')" "ring_ok (jv_ring vm')"
  shows "jit_ok vm'"
proof -
  have fps: "native_fps vm' = native_fps vm" using rt by (intro native_fps_cong) (simp add: retired_def)
  have fr: "frames_ok vm" using ok by (simp add: jit_ok_def)
  have "inj_on (jv_stack vm') (native_fps vm)" using fr mne_stack(1) [OF ok rt rd] unfolding frames_ok_def inj_on_def by metis
  then have "frames_ok vm'" using fr mne_stack [OF ok rt rd] unfolding frames_ok_def fps by (metis option.distinct(1))
  moreover have "code_ok vm' nm \<longleftrightarrow> code_ok vm nm" "deps_ok vm' nm \<longleftrightarrow> deps_ok vm nm" for nm
    using rt by (simp_all add: code_ok_def entry_ok_def deps_ok_def retired_def)
  ultimately show ?thesis using ok wf alive_in_retired [OF rt] unfolding jit_ok_def by blast
qed

lemma in_code_disjoint:
  assumes "tb_wf t" "get_nm t i = Some a" "get_nm t j = Some b" "i \<noteq> j" "in_code a x"
  shows "\<not> in_code b x"
proof -
  have "disjoint_code a b" using assms(1-4) unfolding tb_wf_def slots_wf_def by blast
  with assms(5) show ?thesis by (auto simp: disjoint_code_def in_code_def)
qed

lemma active_in_code: "active_in vm i fp lr \<Longrightarrow> \<exists>nm. get_nm (jv_table vm) i = Some nm \<and> in_code nm lr \<and> jv_stack vm (fp + 8) = Some lr"
  by (auto simp: active_in_def returns_into_def in_code_def)

lemma active_in_step:
  assumes ok: "jit_ok vm" and rt: "retired {i} vm vm'" and rd: "redirected {i} vm vm'" and j: "j \<noteq> i"
  shows "active_in vm' j fp lr \<longleftrightarrow> active_in vm j fp lr"
proof -
  have fps: "native_fps vm' = native_fps vm" using rt by (intro native_fps_cong) (simp add: retired_def)
  have get: "get_nm (jv_table vm') j = get_nm (jv_table vm) j" and tr: "jv_deopt_return_addr vm' = jv_deopt_return_addr vm"
    using rt j by (simp_all add: retired_def)
  have wf: "tb_wf (jv_table vm)" using ok by (simp add: jit_ok_def)
  show ?thesis
  proof (cases "fp \<in> native_fps vm")
    case True
    from mne_stack(2) [OF ok rt rd True]
    consider "jv_stack vm' (fp + 8) = jv_stack vm (fp + 8)" |
      lr' where "active_in vm i fp lr'" "jv_stack vm' (fp + 8) = Some (jv_deopt_return_addr vm)" by blast
    then show ?thesis
    proof cases
      case 1
      then show ?thesis by (simp add: active_in_def fps get tr returns_into_def)
    next
      case 2
      then have "\<not> active_in vm' j fp lr" by (auto simp: active_in_def tr returns_into_def)
      moreover have "\<not> active_in vm j fp lr"
      proof
        assume a: "active_in vm j fp lr"
        obtain na nb where "get_nm (jv_table vm) i = Some na" "in_code na lr'" "get_nm (jv_table vm) j = Some nb" "in_code nb lr" "lr = lr'"
          using active_in_code [OF 2(1)] active_in_code [OF a] by force
        then show False using in_code_disjoint [OF wf, of i na j nb lr] j by blast
      qed
      ultimately show ?thesis by blast
    qed
  qed (simp add: active_in_def fps)
qed

lemma sealed_step:
  assumes wf: "tb_wf (jv_table vm)" and rt: "retired {i} vm vm1" "sealed {i} vm vm1" and V: "i \<notin> V" "retired V vm1 vm2" "sealed V vm1 vm2"
    and nm: "get_nm (jv_table vm) i = Some nm" "code_ok vm nm"
  shows "sealed (Set.insert i V) vm vm2"
proof -
  have get: "get_nm (jv_table vm1) j = get_nm (jv_table vm) j" if "j \<in> V" for j using rt(1) V(1) that by (auto simp: retired_def)
  have addr: "jv_not_entrant_addr vm2 = jv_not_entrant_addr vm1" using V(2) by (simp add: retired_def)
  have out: "jv_mem vm2 x = jv_mem vm1 x" if "\<forall>j b. j \<in> V \<longrightarrow> get_nm (jv_table vm) j = Some b \<longrightarrow> \<not> in_code b x" for x
    using V(3) that get unfolding sealed_def by metis
  have same: "jv_mem vm2 x = jv_mem vm1 x" if "in_code nm x" for x
    using in_code_disjoint [OF wf nm(1) _ _ that] V(1) by (intro out) blast
  have "branch_dest 0xE9 (nm_code_base nm + off) (jv_mem vm2) = branch_dest 0xE9 (nm_code_base nm + off) (jv_mem vm1)"
    if "entry_ok vm nm off" for off
    using that same by (intro branch_dest_cong) (auto simp: entry_ok_def in_code_def)
  then have "entry_sealed vm2 nm" using rt(2) nm addr unfolding sealed_def entry_sealed_def code_ok_def by auto
  then have "\<forall>j b. j \<in> Set.insert i V \<longrightarrow> get_nm (jv_table vm) j = Some b \<longrightarrow> entry_sealed vm2 b"
    using V(3) get nm(1) unfolding sealed_def by (metis insert_iff option.inject)
  moreover have "jv_mem vm2 x = jv_mem vm x" if "\<forall>j b. j \<in> Set.insert i V \<longrightarrow> get_nm (jv_table vm) j = Some b \<longrightarrow> \<not> in_code b x" for x
    using out [of x] rt(2) that unfolding sealed_def by (metis insert_iff singletonD)
  ultimately show ?thesis unfolding sealed_def by blast
qed


lemma redirected_step:
  assumes ok: "jit_ok vm" and rt: "retired {i} vm vm1" "redirected {i} vm vm1" and V: "i \<notin> V" "redirected V vm1 vm2"
  shows "redirected (Set.insert i V) vm vm2"
proof -
  have act: "active_in vm1 j fp lr \<longleftrightarrow> active_in vm j fp lr" if "j \<in> V" for j fp lr
    using active_in_step [OF ok rt, of j fp lr] V(1) that by blast
  have tr: "jv_deopt_return_addr vm1 = jv_deopt_return_addr vm" using rt(1) by (simp add: retired_def)
  have st: "jv_stack vm1 fp = jv_stack vm fp" if "active_in vm j fp lr" for j fp lr
    using mne_stack(1) [OF ok rt] that by (simp add: active_in_def)
  have wf: "tb_wf (jv_table vm)" using ok by (simp add: jit_ok_def)
  have excl: "j = i" if ac: "active_in vm i fp lr" "active_in vm j fp' lr'" "fp' = fp" for j fp lr fp' lr'
  proof (rule ccontr)
    assume "j \<noteq> i"
    obtain na nb where "get_nm (jv_table vm) i = Some na" "in_code na lr" "get_nm (jv_table vm) j = Some nb" "in_code nb lr'" "lr' = lr"
      using active_in_code [OF ac(1)] active_in_code [OF ac(2)] ac(3) by force
    then show False using in_code_disjoint [OF wf, of i na j nb lr] \<open>j \<noteq> i\<close> by blast
  qed
  have inj: "fp' = fp" if "active_in vm i fp lr" "active_in vm j fp' lr'" "jv_stack vm fp' = Some (the (jv_stack vm fp))" for j fp lr fp' lr'
  proof -
    have f: "fp \<in> native_fps vm" "fp' \<in> native_fps vm" using that by (simp_all add: active_in_def)
    then have "jv_stack vm fp = jv_stack vm fp'" using that(3) ok unfolding jit_ok_def frames_ok_def by (metis option.collapse)
    then show ?thesis using f ok unfolding jit_ok_def frames_ok_def by (metis inj_onD)
  qed
  have one: "jv_stack vm1 (fp + 8) = Some (jv_deopt_return_addr vm)" "jv_pending_deopts vm1 (the (jv_stack vm fp)) = Some \<lparr>pd_orig_ret_pc = lr, pd_nm = i\<rparr>"
    if "active_in vm i fp lr" for fp lr using rt(2) that unfolding redirected_def by blast+
  have keep: "jv_stack vm2 x = jv_stack vm1 x" if "\<forall>j fp lr. j \<in> V \<longrightarrow> active_in vm j fp lr \<longrightarrow> x \<noteq> fp + 8" for x
    using V(2) act that unfolding redirected_def by blast
  have keep': "jv_pending_deopts vm2 k = jv_pending_deopts vm1 k" if "\<forall>j fp lr. j \<in> V \<longrightarrow> active_in vm j fp lr \<longrightarrow> jv_stack vm fp \<noteq> Some k" for k
    using V(2) act st that unfolding redirected_def by metis
  have "jv_stack vm2 (fp + 8) = Some (jv_deopt_return_addr vm) \<and> jv_pending_deopts vm2 (the (jv_stack vm fp)) = Some \<lparr>pd_orig_ret_pc = lr, pd_nm = j\<rparr>"
    if j: "j \<in> Set.insert i V" "active_in vm j fp lr" for j fp lr
  proof (cases "j = i")
    case True
    have a: "active_in vm i fp lr" using True j(2) by simp
    have "\<forall>j' fp' lr'. j' \<in> V \<longrightarrow> active_in vm j' fp' lr' \<longrightarrow> fp + 8 \<noteq> fp' + 8" using excl [OF a] V(1) by (metis add_right_cancel)
    moreover have "\<forall>j' fp' lr'. j' \<in> V \<longrightarrow> active_in vm j' fp' lr' \<longrightarrow> jv_stack vm fp' \<noteq> Some (the (jv_stack vm fp))"
      using excl [OF a] inj [OF a] V(1) by metis
    ultimately show ?thesis using one [OF a] keep keep' True by metis
  next
    case False
    then have "active_in vm1 j fp lr" "j \<in> V" using act j by auto
    then show ?thesis using V(2) st [OF j(2)] unfolding redirected_def tr by metis
  qed
  moreover have "jv_stack vm2 x = jv_stack vm x" if "\<forall>j fp lr. j \<in> Set.insert i V \<longrightarrow> active_in vm j fp lr \<longrightarrow> x \<noteq> fp + 8" for x
    using that keep [of x] rt(2) unfolding redirected_def by (metis insert_iff singletonD)
  moreover have "jv_pending_deopts vm2 k = jv_pending_deopts vm k" if "\<forall>j fp lr. j \<in> Set.insert i V \<longrightarrow> active_in vm j fp lr \<longrightarrow> jv_stack vm fp \<noteq> Some k" for k
    using that keep' [of k] rt(2) unfolding redirected_def by (metis insert_iff singletonD)
  ultimately show ?thesis unfolding redirected_def by blast
qed

lemma retired_step:
  "retired {i} vm vm1 \<Longrightarrow> i \<notin> V \<Longrightarrow> retired V vm1 vm2 \<Longrightarrow> retired (Set.insert i V) vm vm2"
  unfolding retired_def by (auto split: if_splits)

lemma make_all_spec:
  "jit_ok vm \<Longrightarrow> distinct is \<Longrightarrow> \<forall>i \<in> set is. \<exists>nm. alive_in vm i nm \<Longrightarrow>
   \<exists>vm'. make_all_not_entrant is vm = Some vm' \<and> jit_ok vm' \<and> retired (set is) vm vm' \<and> sealed (set is) vm vm' \<and> redirected (set is) vm vm' \<and>
     (is \<noteq> [] \<longrightarrow> jv_pending_deopt_flag vm' \<and> jv_poll_flag vm' = 1)"
proof (induction "is" arbitrary: vm)
  case Nil
  then show ?case by (simp add: retired_def sealed_def redirected_def)
next
  case (Cons i "is")
  obtain nm where nm: "alive_in vm i nm" using Cons.prems(3) by auto
  obtain vm1 where vm1: "make_not_entrant i vm = Some vm1" "retired {i} vm vm1" "tb_wf (jv_table vm1)" "ring_ok (jv_ring vm1)"
    "sealed {i} vm vm1" "redirected {i} vm vm1" "jv_pending_deopt_flag vm1" "jv_poll_flag vm1 = 1"
    using mne_spec [OF Cons.prems(1) nm] by blast
  have ok1: "jit_ok vm1" using retired_ok [OF Cons.prems(1) vm1(2,6,3,4)] .
  have i: "i \<notin> set is" using Cons.prems(2) by simp
  have "\<forall>j \<in> set is. \<exists>nm. alive_in vm1 j nm" using Cons.prems(3) i alive_in_retired [OF vm1(2)] by (metis list.set_intros(2) singletonD)
  then obtain vm2 where vm2: "make_all_not_entrant is vm1 = Some vm2" "jit_ok vm2" "retired (set is) vm1 vm2" "sealed (set is) vm1 vm2" "redirected (set is) vm1 vm2"
     "is \<noteq> [] \<longrightarrow> jv_pending_deopt_flag vm2 \<and> jv_poll_flag vm2 = 1"
    using Cons.IH [OF ok1] Cons.prems(2) by auto
  have cd: "get_nm (jv_table vm) i = Some nm" "code_ok vm nm" "tb_wf (jv_table vm)" using Cons.prems(1) nm unfolding jit_ok_def alive_in_def by blast+
  have "jv_pending_deopt_flag vm2 \<and> jv_poll_flag vm2 = 1" using vm2(1,6) vm1(7,8) by (cases "is") auto
  then show ?case
    using vm1(1) vm2(1,2) retired_step [OF vm1(2) i vm2(3)] sealed_step [OF cd(3) vm1(2,5) i vm2(3,4) cd(1,2)]
      redirected_step [OF Cons.prems(1) vm1(2,6) i vm2(5)]
    by simp
qed


subsection \<open>Redefining a method\<close>

definition nm_affected :: "lookup_vm \<Rightarrow> oop \<Rightarrow> oop \<Rightarrow> nmethod \<Rightarrow> bool" where
  "nm_affected vm holder selector nm \<longleftrightarrow> (\<exists>d \<in> nm_deps nm. dep_hit vm holder selector d)"

lemma distinct_ids: "tb_wf t \<Longrightarrow> distinct (map nm_id (all_nms t))"
proof -
  assume "tb_wf t"
  then have ids: "\<And>i nm. get_nm t i = Some nm \<Longrightarrow> nm_id nm = i" by (simp add: tb_wf_def slots_wf_def)
  have "distinct (map nm_id (List.map_filter (\<lambda>s. s) xs)) \<and> (\<forall>nm \<in> set (List.map_filter (\<lambda>s. s) xs). nm_id nm < length xs)"
    if "\<And>i nm. i < length xs \<Longrightarrow> xs ! i = Some nm \<Longrightarrow> nm_id nm = i" for xs :: "nmethod option list"
    using that
  proof (induction xs rule: rev_induct)
    case (snoc x xs)
    have "distinct (map nm_id (List.map_filter (\<lambda>s. s) xs)) \<and> (\<forall>nm \<in> set (List.map_filter (\<lambda>s. s) xs). nm_id nm < length xs)"
      using snoc.prems by (intro snoc.IH) (metis length_append_singleton less_SucI nth_append)
    moreover have "nm_id nm = length xs" if "x = Some nm" for nm using snoc.prems [of "length xs" nm] that by simp
    ultimately show ?case by (cases x) (auto simp: List.map_filter_def)
  qed (simp add: List.map_filter_simps)
  then show ?thesis using ids unfolding all_nms_def get_nm_eq by (metis (no_types, lifting))
qed

lemma invalidate_spec:
  assumes ok: "jit_ok vm"
  shows "\<exists>vm' V. invalidate_dependents holder selector vm = Some vm' \<and> jit_ok vm' \<and> retired V vm vm' \<and> sealed V vm vm' \<and> redirected V vm vm' \<and>
    (V \<noteq> {} \<longrightarrow> jv_pending_deopt_flag vm' \<and> jv_poll_flag vm' = 1) \<and>
    V = {i. \<exists>nm. alive_in vm i nm \<and> nm_affected (jv_lookup vm) holder selector nm}"
proof -
  let ?vs = "map nm_id (filter (nm_affected (jv_lookup vm) holder selector) (iter_alive (jv_table vm)))"
  have wf: "tb_wf (jv_table vm)" using ok by (simp add: jit_ok_def)
  have ids: "nm_id nm = i" if "get_nm (jv_table vm) i = Some nm" for i nm using wf that by (simp add: tb_wf_def slots_wf_def)
  have al: "nm \<in> set (iter_alive (jv_table vm)) \<longleftrightarrow> alive_in vm (nm_id nm) nm" for nm
    using ids by (auto simp: iter_alive_set alive_in_def)
  have "\<forall>nm \<in> set (iter_alive (jv_table vm)). \<forall>d \<in> nm_deps nm. \<exists>ks. chain (jv_lookup vm) (fst d) ks"
  proof (intro ballI)
    fix nm d assume "nm \<in> set (iter_alive (jv_table vm))" "d \<in> nm_deps nm"
    then show "\<exists>ks. chain (jv_lookup vm) (fst d) ks" using ok unfolding al jit_ok_def deps_ok_def by (cases d) fastforce
  qed
  then have v: "affected_by_install vm holder selector = Some ?vs"
    unfolding affected_by_install_def nm_affected_def by (rule collect_victims_eq)
  have dist: "distinct ?vs" using distinct_ids [OF wf] by (simp add: iter_alive_def distinct_map inj_on_def)
  have set: "set ?vs = {i. \<exists>nm. alive_in vm i nm \<and> nm_affected (jv_lookup vm) holder selector nm}"
    using al ids by (auto simp: image_iff alive_in_def iter_alive_set)
  have "\<forall>i \<in> set ?vs. \<exists>nm. alive_in vm i nm" unfolding set by blast
  from make_all_spec [OF ok dist this] obtain vm' where vm': "make_all_not_entrant ?vs vm = Some vm'" "jit_ok vm'"
    "retired (set ?vs) vm vm'" "sealed (set ?vs) vm vm'" "redirected (set ?vs) vm vm'"
    and poll: "?vs \<noteq> [] \<longrightarrow> jv_pending_deopt_flag vm' \<and> jv_poll_flag vm' = 1" by blast
  have "invalidate_dependents holder selector vm = Some vm'" using v vm'(1) by (simp add: invalidate_dependents_def)
  moreover have "set ?vs \<noteq> {} \<longrightarrow> jv_pending_deopt_flag vm' \<and> jv_poll_flag vm' = 1" using poll by (simp only: set_empty)
  ultimately show ?thesis using vm'(2-) set by blast
qed

lemma install_method_effect:
  assumes "jit_ok vm" "dicts_ok (jv_lookup vm)" "length (lv_cache (jv_lookup vm)) = 2 * LOOKUP_CACHE_SIZE"
    "lv_klasses (jv_lookup vm) klass = Some kd" "sel_ok (lv_view (jv_lookup vm)) sel" "ov_is_method (lv_view (jv_lookup vm)) m"
    "lv_methods (jv_lookup vm) m = Some mo" "nesting_ok (jv_lookup vm)" "lv_ic_epoch (jv_lookup vm) + 1 < 2 ^ IC_META_EPOCH_BITS"
    and V: "V = {i. \<exists>nm. alive_in vm i nm \<and> nm_affected (jv_lookup vm) klass sel nm}"
  shows "\<exists>lk vm'. install_method klass sel m vm = Some vm' \<and> jit_ok vm' \<and> jv_lookup vm' = lk \<and> dicts_ok lk \<and> cache_ok lk \<and>
    lv_view lk = lv_view (jv_lookup vm) \<and> (\<forall>k ks. chain lk k ks \<longleftrightarrow> chain (jv_lookup vm) k ks) \<and>
    (\<forall>s' k. bound lk s' k = (if k = klass \<and> s' = sel then Some m else bound (jv_lookup vm) s' k)) \<and>
    retired V (vm\<lparr>jv_lookup := lk\<rparr>) vm' \<and> sealed V vm vm' \<and> redirected V vm vm' \<and>
    (V \<noteq> {} \<longrightarrow> jv_pending_deopt_flag vm' \<and> jv_poll_flag vm' = 1)"
proof -
  let ?lk = "jv_lookup vm"
  obtain lk where lk: "install_binding klass sel m ?lk = Some lk" "lv_view lk = lv_view ?lk"
    "\<And>k. map_option kd_superclass (lv_klasses lk k) = map_option kd_superclass (lv_klasses ?lk k)"
    "dicts_ok lk" "lv_cache lk = cache_flush (lv_cache ?lk)"
    "\<And>s' k. bound lk s' k = (if k = klass \<and> s' = sel then Some m else bound ?lk s' k)"
    using install_spec [OF assms(2-9)] by blast
  have cok: "cache_ok lk" using lk(5) assms(3) by (auto simp: cache_ok_def cache_flush_def entry_is_empty_def EMPTY_ENTRY_def)
  have ch: "chain lk k ks \<longleftrightarrow> chain ?lk k ks" for k ks using chain_iff [of lk ?lk] lk(2,3) by simp
  let ?vm1 = "vm\<lparr>jv_lookup := lk\<rparr>"
  have al1: "alive_in ?vm1 = alive_in vm" by (simp add: alive_in_def fun_eq_iff)
  have aff1: "nm_affected lk = nm_affected ?lk" by (simp add: nm_affected_def dep_hit_def ch fun_eq_iff)
  have act1: "active_in ?vm1 = active_in vm" by (simp add: active_in_def fun_eq_iff native_fps_def)
  have "jit_ok ?vm1" using assms(1) lk(2) ch
    by (simp add: jit_ok_def al1 frames_ok_def native_fps_def code_ok_def entry_ok_def deps_ok_def)
  then obtain vm' where vm': "invalidate_dependents klass sel ?vm1 = Some vm'" "jit_ok vm'" "retired V ?vm1 vm'" "sealed V ?vm1 vm'" "redirected V ?vm1 vm'"
    "V \<noteq> {} \<longrightarrow> jv_pending_deopt_flag vm' \<and> jv_poll_flag vm' = 1"
    using invalidate_spec [of ?vm1 klass sel] V by (auto simp: al1 aff1)
  moreover have "jv_lookup vm' = lk" using vm'(3) by (simp add: retired_def)
  moreover have "install_method klass sel m vm = Some vm'" using lk(1) vm'(1) by (simp add: install_method_def)
  ultimately show ?thesis using lk(2,4,6) cok ch by (intro exI [of _ lk] exI [of _ vm']) (simp add: sealed_def redirected_def act1)
qed

lemma unaffected_lookup:
  assumes "jit_ok vm" "dicts_ok (jv_lookup vm)" "alive_in vm i nm" "(k, s) \<in> nm_deps nm" "\<not> nm_affected (jv_lookup vm) klass sel nm"
    and lk: "dicts_ok lk" "lv_view lk = lv_view (jv_lookup vm)" "\<And>k ks. chain lk k ks \<longleftrightarrow> chain (jv_lookup vm) k ks"
      "\<And>s' k. bound lk s' k = (if k = klass \<and> s' = sel then Some m else bound (jv_lookup vm) s' k)"
  shows "lookup_uncached lk k s = lookup_uncached (jv_lookup vm) k s"
proof -
  obtain ks where ks: "chain (jv_lookup vm) k ks" "sel_ok (lv_view (jv_lookup vm)) s" using assms(1,3,4) unfolding jit_ok_def deps_ok_def by blast
  have "\<not> (s = sel \<and> klass \<in> set ks)" using assms(4,5) ks(1) by (force simp: nm_affected_def dep_hit_def)
  then show ?thesis
    using lookup_uncached_chain [OF lk(1), of s k ks] lookup_uncached_chain [OF assms(2) ks(2,1)] lk(2,3) ks
      resolve_in_update [of lk klass sel m "jv_lookup vm" s ks, OF lk(4)] by auto
qed

lemma nm_affected_superchain:
  assumes "jit_ok vm" "alive_in vm i nm"
  shows "nm_affected (jv_lookup vm) klass sel nm \<longleftrightarrow> (\<exists>(k, s) \<in> nm_deps nm. s = sel \<and> superchain_contains (jv_lookup vm) k klass = Some True)"
proof -
  have ch: "\<exists>ks. chain (jv_lookup vm) k ks" if "(k, s) \<in> nm_deps nm" for k s
    using assms that unfolding jit_ok_def deps_ok_def by blast
  have "superchain_contains (jv_lookup vm) k klass = Some True \<longleftrightarrow> (\<exists>ks. chain (jv_lookup vm) k ks \<and> klass \<in> set ks)"
    if "(k, s) \<in> nm_deps nm" for k s
    using ch [OF that] superchain_contains_chain by fastforce
  then show ?thesis unfolding nm_affected_def dep_hit_def by (intro bex_cong) (auto split: prod.splits)
qed

text \<open>
  C1. Redefining a method never leaves stale compiled code running. \<open>install_method\<close> succeeds; the new
  binding is found by every lookup that reaches it; every nmethod that is still alive was alive before
  and each lookup result it was compiled against (its own key and every inlined callee) is unchanged; every
  nmethod with an affected dependency is not entrant, no lookup returns it, both its entries
  jump to the not-entrant stub, the loop poll is armed, and every native frame returning to a call site in it will return
  to the deoptimization trampoline with its original return address on record. No code byte outside those nmethods
  changes and all invariants are kept.
\<close>
theorem redefinition_safe:
  assumes "jit_ok vm" "dicts_ok (jv_lookup vm)" "length (lv_cache (jv_lookup vm)) = 2 * LOOKUP_CACHE_SIZE"
    "lv_klasses (jv_lookup vm) klass = Some kd" "sel_ok (lv_view (jv_lookup vm)) sel" "ov_is_method (lv_view (jv_lookup vm)) m"
    "lv_methods (jv_lookup vm) m = Some mo" "nesting_ok (jv_lookup vm)" "lv_ic_epoch (jv_lookup vm) + 1 < 2 ^ IC_META_EPOCH_BITS"
    "\<exists>ks. chain (jv_lookup vm) klass ks"
  shows "\<exists>vm'. install_method klass sel m vm = Some vm' \<and> jit_ok vm' \<and> dicts_ok (jv_lookup vm') \<and> cache_ok (jv_lookup vm') \<and>
    lookup_uncached (jv_lookup vm') klass sel = Some (Some m) \<and>
    (\<forall>i nm. alive_in vm' i nm \<longrightarrow> alive_in vm i nm \<and>
       (\<forall>(k, s) \<in> nm_deps nm. lookup_uncached (jv_lookup vm') k s = lookup_uncached (jv_lookup vm) k s)) \<and>
    (\<forall>i nm. alive_in vm i nm \<longrightarrow> (\<exists>(k, s) \<in> nm_deps nm. s = sel \<and> superchain_contains (jv_lookup vm) k klass = Some True) \<longrightarrow>
       get_nm (jv_table vm') i = Some (nm\<lparr>nm_state := NotEntrant\<rparr>) \<and> (\<forall>k s. lookup_nm (jv_table vm') k s \<noteq> Some i) \<and>
       entry_sealed vm' nm \<and> jv_pending_deopt_flag vm' \<and> jv_poll_flag vm' = 1 \<and>
       (\<forall>fp lr. active_in vm i fp lr \<longrightarrow> jv_stack vm' (fp + 8) = Some (jv_deopt_return_addr vm) \<and>
          jv_pending_deopts vm' (the (jv_stack vm fp)) = Some \<lparr>pd_orig_ret_pc = lr, pd_nm = i\<rparr>)) \<and>
    (\<forall>x. (\<forall>i nm. alive_in vm i nm \<longrightarrow> nm_affected (jv_lookup vm) klass sel nm \<longrightarrow> \<not> in_code nm x) \<longrightarrow> jv_mem vm' x = jv_mem vm x)"
proof -
  let ?lk = "jv_lookup vm" and ?V = "{i. \<exists>nm. alive_in vm i nm \<and> nm_affected (jv_lookup vm) klass sel nm}"
  obtain lk vm' where vm': "install_method klass sel m vm = Some vm'" "jit_ok vm'" "jv_lookup vm' = lk" "dicts_ok lk" "cache_ok lk"
    and lk: "lv_view lk = lv_view ?lk" "\<And>k ks. chain lk k ks \<longleftrightarrow> chain ?lk k ks"
      "\<And>s' k. bound lk s' k = (if k = klass \<and> s' = sel then Some m else bound ?lk s' k)"
    and ef: "retired ?V (vm\<lparr>jv_lookup := lk\<rparr>) vm'" "sealed ?V vm vm'" "redirected ?V vm vm'"
      "?V \<noteq> {} \<longrightarrow> jv_pending_deopt_flag vm' \<and> jv_poll_flag vm' = 1"
    using install_method_effect [OF assms(1-9) refl] by blast
  have al: "alive_in (vm\<lparr>jv_lookup := lk\<rparr>) = alive_in vm" by (simp add: alive_in_def fun_eq_iff)
  obtain ks where ks: "chain ?lk klass ks" using assms(10) by blast
  have "lookup_uncached lk klass sel = Some (resolve_in lk sel ks)" using lookup_uncached_chain [OF vm'(4)] lk(1,2) ks assms(5) by simp
  moreover have "resolve_in lk sel ks = Some m" using ks by (cases rule: chain.cases) (simp_all add: lk(3))
  ultimately have new: "lookup_uncached (jv_lookup vm') klass sel = Some (Some m)" using vm'(3) by simp
  have survivors: "\<forall>i nm. alive_in vm' i nm \<longrightarrow> alive_in vm i nm \<and>
      (\<forall>(k, s) \<in> nm_deps nm. lookup_uncached (jv_lookup vm') k s = lookup_uncached ?lk k s)"
  proof (intro allI impI)
    fix i nm assume "alive_in vm' i nm"
    then have a: "alive_in vm i nm" "\<not> nm_affected ?lk klass sel nm" using alive_in_retired [OF ef(1)] by (auto simp: al)
    then show "alive_in vm i nm \<and> (\<forall>(k, s) \<in> nm_deps nm. lookup_uncached (jv_lookup vm') k s = lookup_uncached ?lk k s)"
      using unaffected_lookup [OF assms(1,2) a(1) _ a(2) vm'(4) lk] vm'(3) by blast
  qed
  have victims: "\<forall>i nm. alive_in vm i nm \<longrightarrow> (\<exists>(k, s) \<in> nm_deps nm. s = sel \<and> superchain_contains ?lk k klass = Some True) \<longrightarrow>
       get_nm (jv_table vm') i = Some (nm\<lparr>nm_state := NotEntrant\<rparr>) \<and> (\<forall>k s. lookup_nm (jv_table vm') k s \<noteq> Some i) \<and>
       entry_sealed vm' nm \<and> jv_pending_deopt_flag vm' \<and> jv_poll_flag vm' = 1 \<and>
       (\<forall>fp lr. active_in vm i fp lr \<longrightarrow> jv_stack vm' (fp + 8) = Some (jv_deopt_return_addr vm) \<and>
          jv_pending_deopts vm' (the (jv_stack vm fp)) = Some \<lparr>pd_orig_ret_pc = lr, pd_nm = i\<rparr>)"
  proof (intro allI impI)
    fix i nm assume a: "alive_in vm i nm" "\<exists>(k, s) \<in> nm_deps nm. s = sel \<and> superchain_contains ?lk k klass = Some True"
    then have i: "i \<in> ?V" using nm_affected_superchain [OF assms(1) a(1)] by blast
    have "get_nm (jv_table vm) i = Some nm" using a(1) by (simp add: alive_in_def)
    then show "get_nm (jv_table vm') i = Some (nm\<lparr>nm_state := NotEntrant\<rparr>) \<and> (\<forall>k s. lookup_nm (jv_table vm') k s \<noteq> Some i) \<and>
       entry_sealed vm' nm \<and> jv_pending_deopt_flag vm' \<and> jv_poll_flag vm' = 1 \<and>
       (\<forall>fp lr. active_in vm i fp lr \<longrightarrow> jv_stack vm' (fp + 8) = Some (jv_deopt_return_addr vm) \<and>
          jv_pending_deopts vm' (the (jv_stack vm fp)) = Some \<lparr>pd_orig_ret_pc = lr, pd_nm = i\<rparr>)"
      using ef i unfolding retired_def sealed_def redirected_def lookup_nm_def by auto
  qed
  have frame: "\<forall>x. (\<forall>i nm. alive_in vm i nm \<longrightarrow> nm_affected ?lk klass sel nm \<longrightarrow> \<not> in_code nm x) \<longrightarrow> jv_mem vm' x = jv_mem vm x"
  proof (intro allI impI)
    fix x assume h: "\<forall>i nm. alive_in vm i nm \<longrightarrow> nm_affected ?lk klass sel nm \<longrightarrow> \<not> in_code nm x"
    have "\<not> in_code nm x" if "i \<in> ?V" "get_nm (jv_table vm) i = Some nm" for i nm
      using that h by (auto simp: alive_in_def)
    then show "jv_mem vm' x = jv_mem vm x" using ef(2) unfolding sealed_def by blast
  qed
  show ?thesis using vm'(4,5) unfolding vm'(3) [symmetric]
    by (intro exI [of _ vm'] conjI vm'(1,2) new survivors victims frame)
qed

text \<open>One compiled method for klass \<open>1\<close> and selector \<open>13\<close>, running; the selector is then redefined in the superclass \<open>5\<close>.\<close>

definition demo_jit :: jit_vm where
  "demo_jit = \<lparr>jv_lookup = demo_vm, jv_table = snd (install_nm (demo_nm\<lparr>nm_key_klass := 1, nm_key_selector := 13\<rparr>) new_table),
     jv_mem = (\<lambda>_. 0x90), jv_stack = [1000 \<mapsto> 2000, 1008 \<mapsto> 4100], jv_frames = [FInterpreted 500, FCompiled 1000 4100 0],
     jv_pending_deopts = Map.empty, jv_ring = new_ring, jv_pending_deopt_flag = False, jv_poll_flag = 0,
     jv_not_entrant_addr = 65536, jv_deopt_return_addr = 65600,
     jv_cache = (new_code_cache 4096 65536)\<lparr>cc_top := 64\<rparr>, jv_pics = Map.empty, jv_resolve_addr = 65700\<rparr>"

lemma demo_jit_get: "get_nm (jv_table demo_jit) i = (if i = 0 then Some (demo_nm\<lparr>nm_key_klass := 1, nm_key_selector := 13\<rparr>) else None)"
  by (simp add: demo_jit_def install_nm_def new_table_def demo_nm_def get_nm_eq partition_point_def Let_def)

lemma demo_jit_lookup: "jv_lookup demo_jit = demo_vm"
  by (simp add: demo_jit_def)

lemma demo_jit_wf: "tb_wf (jv_table demo_jit)"
proof (rule reach_wf)
  let ?nm = "demo_nm\<lparr>nm_key_klass := 1, nm_key_selector := 13\<rparr>"
  have "fresh_code ?nm new_table" by (simp add: fresh_code_def demo_nm_def get_nm_eq new_table_def)
  then have "table_step new_table (snd (install_nm ?nm new_table))" using step_install by (metis prod.collapse)
  then show "table_reach (jv_table demo_jit)" using reach_step [OF reach_new] by (simp add: demo_jit_def)
qed

lemma demo_jit_ok: "jit_ok demo_jit"
proof -
  let ?nm = "demo_nm\<lparr>nm_key_klass := 1, nm_key_selector := 13\<rparr>"
  have fps: "native_fps demo_jit = {1000}" by (auto simp: native_fps_def demo_jit_def)
  have "frames_ok demo_jit" unfolding frames_ok_def fps by (simp add: demo_jit_def)
  moreover have "ring_ok (jv_ring demo_jit)" by (simp add: demo_jit_def ring_ok_def new_ring_def PROBE_CAP_def)
  moreover have "chain (jv_lookup demo_jit) 1 [1, 5]" "sel_ok (lv_view (jv_lookup demo_jit)) 13" unfolding demo_jit_lookup by (rule demo_vm_ok)+
  moreover have "code_ok demo_jit ?nm" by (simp add: code_ok_def entry_ok_def disp32_def demo_nm_def demo_jit_def)
  moreover have "nm_deps ?nm = {(1, 13)}" by (simp add: nm_deps_def nm_key_def demo_nm_def)
  ultimately have "code_ok demo_jit ?nm \<and> deps_ok demo_jit ?nm" by (auto simp: deps_ok_def)
  with \<open>frames_ok demo_jit\<close> \<open>ring_ok (jv_ring demo_jit)\<close> show ?thesis
    unfolding jit_ok_def alive_in_def demo_jit_get using demo_jit_wf by (metis option.distinct(1) option.inject)
qed

theorem redefinition_safe_witness:
  "\<exists>vm'. install_method 5 13 17 demo_jit = Some vm' \<and> map_option nm_state (get_nm (jv_table vm') 0) = Some NotEntrant \<and>
     lookup_nm (jv_table vm') 1 13 \<noteq> Some 0 \<and> branch_dest 0xE9 4096 (jv_mem vm') = branch_dest 0xE9 4112 (jv_mem vm') \<and> jv_poll_flag vm' = 1"
proof -
  let ?nm = "demo_nm\<lparr>nm_key_klass := 1, nm_key_selector := 13\<rparr>"
  obtain kd where kd: "lv_klasses demo_vm 5 = Some kd" using demo_vm_ok(9) by blast
  note lk = demo_jit_lookup
  have c5: "\<exists>ks. chain demo_vm 5 ks" 
    by (rule exI, rule chain_top [where kd = "\<lparr>kd_superclass = 9, kd_methods = None\<rparr>"]) (simp_all add: demo_vm_def)
  have al: "alive_in demo_jit 0 ?nm" by (simp add: alive_in_def demo_jit_get demo_nm_def)
  have hit: "\<exists>(k, s) \<in> nm_deps ?nm. s = 13 \<and> superchain_contains demo_vm k 5 = Some True"
    using superchain_contains_chain [OF demo_vm_ok(4), of 5] by (simp add: nm_deps_def nm_key_def demo_nm_def)
  obtain vm' where vm': "install_method 5 13 17 demo_jit = Some vm'"
    "\<forall>i nm. alive_in demo_jit i nm \<longrightarrow> (\<exists>(k, s) \<in> nm_deps nm. s = 13 \<and> superchain_contains demo_vm k 5 = Some True) \<longrightarrow>
       get_nm (jv_table vm') i = Some (nm\<lparr>nm_state := NotEntrant\<rparr>) \<and> (\<forall>k s. lookup_nm (jv_table vm') k s \<noteq> Some i) \<and>
       entry_sealed vm' nm \<and> jv_pending_deopt_flag vm' \<and> jv_poll_flag vm' = 1 \<and>
       (\<forall>fp lr. active_in demo_jit i fp lr \<longrightarrow> jv_stack vm' (fp + 8) = Some (jv_deopt_return_addr demo_jit) \<and>
          jv_pending_deopts vm' (the (jv_stack demo_jit fp)) = Some \<lparr>pd_orig_ret_pc = lr, pd_nm = i\<rparr>)"
    using redefinition_safe [OF demo_jit_ok, unfolded lk, OF demo_vm_ok(1,6) kd demo_vm_ok(3,8,10,5,7) c5]
    by (elim exE conjE) (rule that; simp only: lk)
  then have "get_nm (jv_table vm') 0 = Some (?nm\<lparr>nm_state := NotEntrant\<rparr>)" "lookup_nm (jv_table vm') 1 13 \<noteq> Some 0"
    "entry_sealed vm' ?nm" "jv_poll_flag vm' = 1" using al hit by blast+
  then show ?thesis using vm'(1) by (auto simp: entry_sealed_def demo_nm_def)
qed

end
