(* ===== verification/Flush.thy ===== *)
theory Flush
  imports Invalidation
begin

text \<open>
  Reclaiming compiled code (\<open>src/src/codecache/flush.rs\<close>): \<open>flush_nmethod\<close>, which resets every call
  site that could enter the dying code and returns its block to the code cache, and the sweep of not-entrant nmethods;
  with the operations of the table of polymorphic stubs (\<open>src/src/codecache/pics.rs\<close>) that they use.
\<close>

subsection \<open>Polymorphic stubs\<close>

definition pairs_of :: "pic_table \<Rightarrow> code_handle \<Rightarrow> (oop \<times> nat) list option" where
  "pairs_of pics stub = map_option pic_pairs (pics (ch_base stub))"

definition pic_free :: "code_handle \<Rightarrow> code_cache \<Rightarrow> pic_table \<Rightarrow> (code_cache \<times> pic_table) option" where
  "pic_free stub cache pics = do {
     cache \<leftarrow> cc_free_handle stub cache;
     Some (cache, pics(ch_base stub := None))
   }"

subsection \<open>Flushing\<close>

record patch_site =
  ps_caller_id :: nat
  ps_caller_code :: code_handle
  ps_site_off :: nat
  ps_site_idx :: nat
  ps_free_pic :: "code_handle option"

text \<open>The inner loop body: the patch one call site needs, if any. \<open>lo\<close> and \<open>hi\<close> bound the flushed range.\<close>

definition patch_of :: "pic_table \<Rightarrow> nat \<Rightarrow> nat \<Rightarrow> nmethod \<Rightarrow> nat \<Rightarrow> ic_site \<Rightarrow> patch_site list option" where
  "patch_of pics lo hi nm idx site =
     (let ps = \<lparr>ps_caller_id = nm_id nm, ps_caller_code = nm_code nm, ps_site_off = site_ic_off site,
                ps_site_idx = idx, ps_free_pic = None\<rparr>
      in case site_state site of
           Mono _ target \<Rightarrow> Some (if lo \<le> target \<and> target < hi then [ps] else [])
         | Pic stub \<Rightarrow> do {
             pairs \<leftarrow> pairs_of pics stub;
             Some (if \<exists>(_, t) \<in> set pairs. lo \<le> t \<and> t < hi then [ps\<lparr>ps_free_pic := Some stub\<rparr>] else [])
           }
         | _ \<Rightarrow> Some [])"

fun patches_of_sites :: "pic_table \<Rightarrow> nat \<Rightarrow> nat \<Rightarrow> nmethod \<Rightarrow> nat \<Rightarrow> ic_site list \<Rightarrow> patch_site list option" where
  "patches_of_sites pics lo hi nm idx [] = Some []"
| "patches_of_sites pics lo hi nm idx (s # ss) = do {
     p \<leftarrow> patch_of pics lo hi nm idx s;
     ps \<leftarrow> patches_of_sites pics lo hi nm (idx + 1) ss;
     Some (p @ ps)
   }"

fun collect_patches :: "pic_table \<Rightarrow> nat \<Rightarrow> nat \<Rightarrow> nmethod list \<Rightarrow> patch_site list option" where
  "collect_patches pics lo hi [] = Some []"
| "collect_patches pics lo hi (nm # nms) = do {
     ps \<leftarrow> patches_of_sites pics lo hi nm 0 (nm_ic_sites nm);
     qs \<leftarrow> collect_patches pics lo hi nms;
     Some (ps @ qs)
   }"

definition set_site_unresolved :: "nat \<Rightarrow> nat \<Rightarrow> code_table \<Rightarrow> code_table option" where
  "set_site_unresolved i idx t = do {
     nm \<leftarrow> get_nm t i;
     site \<leftarrow> slice_get (nm_ic_sites nm) idx;
     Some (t\<lparr>tb_slots := (tb_slots t)[i := Some (nm\<lparr>nm_ic_sites := (nm_ic_sites nm)[idx := site\<lparr>site_state := Unresolved\<rparr>]\<rparr>)]\<rparr>)
   }"

definition apply_patch :: "patch_site \<Rightarrow> jit_vm \<Rightarrow> jit_vm option" where
  "apply_patch p vm = do {
     vm \<leftarrow> (case ps_free_pic p of
              Some stub \<Rightarrow> do {
                (cache, pics) \<leftarrow> pic_free stub (jv_cache vm) (jv_pics vm);
                Some (vm\<lparr>jv_cache := cache, jv_pics := pics\<rparr>)
              }
            | None \<Rightarrow> Some vm);
     mem \<leftarrow> patch_call_site_at (ps_caller_code p) (ps_site_off p) (jv_resolve_addr vm) (jv_mem vm);
     table \<leftarrow> set_site_unresolved (ps_caller_id p) (ps_site_idx p) (jv_table vm);
     Some (vm\<lparr>jv_mem := mem, jv_table := table\<rparr>)
   }"

fun apply_patches :: "patch_site list \<Rightarrow> jit_vm \<Rightarrow> jit_vm option" where
  "apply_patches [] vm = Some vm"
| "apply_patches (p # ps) vm = do { vm \<leftarrow> apply_patch p vm; apply_patches ps vm }"

definition flush_nmethod :: "nat \<Rightarrow> jit_vm \<Rightarrow> jit_vm option" where
  "flush_nmethod i vm = do {
     nm \<leftarrow> get_nm (jv_table vm) i;
     let lo = nm_code_base nm; let hi = nm_code_base nm + nm_code_len nm;
     table \<leftarrow> mark_zombie i (jv_table vm);
     let vm = vm\<lparr>jv_table := table\<rparr>;
     ps \<leftarrow> collect_patches (jv_pics vm) lo hi (iter_alive (jv_table vm));
     vm \<leftarrow> apply_patches ps vm;
     (nm, table) \<leftarrow> remove_nm i (jv_table vm);
     cache \<leftarrow> cc_free_handle (nm_code nm) (jv_cache vm);
     Some (vm\<lparr>jv_table := table, jv_cache := cache\<rparr>)
   }"

subsection \<open>The zombie sweep\<close>

text \<open>The nmethods of live compiled frames and of pending deoptimizations; \<open>pending_deopts\<close> has finitely many entries.\<close>

definition referenced_nms :: "jit_vm \<Rightarrow> nat set" where
  "referenced_nms vm = {i. \<exists>fp ret. FCompiled fp ret i \<in> set (jv_frames vm)} \<union> pd_nm ` ran (jv_pending_deopts vm)"

fun flush_all :: "nat list \<Rightarrow> jit_vm \<Rightarrow> jit_vm option" where
  "flush_all [] vm = Some vm"
| "flush_all (i # is) vm = do { vm \<leftarrow> flush_nmethod i vm; flush_all is vm }"

definition sweep_not_entrant_zombies :: "jit_vm \<Rightarrow> jit_vm option" where
  "sweep_not_entrant_zombies vm =
     (let candidates = not_entrant_ids (jv_table vm)
      in if candidates = [] then Some vm
         else do {
           let referenced = referenced_nms vm;
           vm \<leftarrow> flush_all (filter (\<lambda>i. i \<notin> referenced) candidates) vm;
           Some (if not_entrant_ids (jv_table vm) = [] then vm\<lparr>jv_pending_deopt_flag := False, jv_poll_flag := 0\<rparr> else vm)
         })"


subsection \<open>One patch\<close>

definition ps_site :: "patch_site \<Rightarrow> nat" where
  "ps_site p = ch_base (ps_caller_code p) + ps_site_off p"

definition reset_sites :: "(nat \<times> nat) set \<Rightarrow> nat \<Rightarrow> nmethod \<Rightarrow> nmethod" where
  "reset_sites K j nm = nm\<lparr>nm_ic_sites := map (\<lambda>k. if (j, k) \<in> K then (nm_ic_sites nm ! k)\<lparr>site_state := Unresolved\<rparr> else nm_ic_sites nm ! k)
     [0..<length (nm_ic_sites nm)]\<rparr>"

definition call_site_ok :: "jit_vm \<Rightarrow> nmethod \<Rightarrow> nat \<Rightarrow> bool" where
  "call_site_ok vm nm off \<longleftrightarrow> off + 5 \<le> nm_code_len nm \<and> jv_mem vm (nm_code_base nm + off) = 0xE8 \<and>
     disp32 (jv_resolve_addr vm) (nm_code_base nm + off + 5) \<noteq> None"

definition patch_ok :: "jit_vm \<Rightarrow> patch_site \<Rightarrow> bool" where
  "patch_ok vm p \<longleftrightarrow> (\<exists>nm. get_nm (jv_table vm) (ps_caller_id p) = Some nm \<and> ps_caller_code p = nm_code nm \<and>
     ps_site_idx p < length (nm_ic_sites nm) \<and> call_site_ok vm nm (ps_site_off p))"

definition patch_key :: "patch_site \<Rightarrow> nat \<times> nat" where
  "patch_key p = (ps_caller_id p, ps_site_idx p)"

definition freed_stubs :: "patch_site set \<Rightarrow> code_handle set" where
  "freed_stubs P = {s. \<exists>p \<in> P. ps_free_pic p = Some s}"

definition same_indexes :: "code_table \<Rightarrow> code_table \<Rightarrow> bool" where
  "same_indexes t t' \<longleftrightarrow> tb_by_key t' = tb_by_key t \<and> tb_by_block t' = tb_by_block t \<and> tb_osr t' = tb_osr t \<and> tb_by_addr t' = tb_by_addr t"

definition same_rest :: "jit_vm \<Rightarrow> jit_vm \<Rightarrow> bool" where
  "same_rest vm vm' \<longleftrightarrow> jv_lookup vm' = jv_lookup vm \<and> jv_stack vm' = jv_stack vm \<and> jv_frames vm' = jv_frames vm \<and>
     jv_pending_deopts vm' = jv_pending_deopts vm \<and> jv_ring vm' = jv_ring vm \<and> jv_pending_deopt_flag vm' = jv_pending_deopt_flag vm \<and>
     jv_poll_flag vm' = jv_poll_flag vm \<and> jv_not_entrant_addr vm' = jv_not_entrant_addr vm \<and>
     jv_deopt_return_addr vm' = jv_deopt_return_addr vm \<and> jv_resolve_addr vm' = jv_resolve_addr vm"

definition patched_by :: "patch_site set \<Rightarrow> jit_vm \<Rightarrow> jit_vm \<Rightarrow> bool" where
  "patched_by P vm vm' \<longleftrightarrow>
     (\<forall>j. get_nm (jv_table vm') j = map_option (reset_sites (patch_key ` P) j) (get_nm (jv_table vm) j)) \<and>
     same_indexes (jv_table vm) (jv_table vm') \<and>
     (\<forall>b. jv_pics vm' b = (if b \<in> ch_base ` freed_stubs P then None else jv_pics vm b)) \<and>
     (\<forall>p \<in> P. branch_dest 0xE8 (ps_site p) (jv_mem vm') = Some (int (jv_resolve_addr vm))) \<and>
     (\<forall>x. (\<forall>p \<in> P. x \<le> ps_site p \<or> ps_site p + 5 \<le> x) \<longrightarrow> jv_mem vm' x = jv_mem vm x) \<and>
     same_rest vm vm'"

lemma cc_reach_distinct: "cc_reach c hs \<Longrightarrow> distinct hs"
proof -
  assume r: "cc_reach c hs"
  have "block_ok (cc_top c) (block_of c h)" if "h \<in> set hs" for h using cc_reach_inv [OF r] that by (auto simp: cc_inv_def)
  then have pos: "\<forall>h \<in> set hs. 0 < ch_len h" by (simp add: block_of_def)
  have "sorted_wrt (\<lambda>h k. h \<noteq> k) hs"
    by (rule sorted_wrt_mono_rel [OF _ disjoint_handles [OF r]]) (use pos in auto)
  moreover have "sorted_wrt (\<lambda>h k. h \<noteq> k) xs \<Longrightarrow> distinct xs" for xs :: "code_handle list" by (induction xs) auto
  ultimately show ?thesis by blast
qed

lemma cc_release:
  assumes "cc_reach c hs" "h \<in> set hs"
  shows "\<exists>c' hs'. cc_free_handle h c = Some c' \<and> cc_reach c' hs' \<and> set hs' = set hs - {h}"
proof -
  have "block_of c h \<in> set (map (block_of c) hs)" "cc_base c \<le> ch_base h"
    using assms cc_reach_inv [OF assms(1)] by (auto simp: handle_in_def)
  then obtain c' where c': "cc_free_handle h c = Some c'" using cc_free_inv cc_reach_inv [OF assms(1)] by blast
  show ?thesis using c' cc_give [OF assms c'] cc_reach_distinct [OF assms(1)] by (auto simp: set_remove1_eq)
qed

lemma reset_one: "k < length (nm_ic_sites nm) \<Longrightarrow>
   nm\<lparr>nm_ic_sites := (nm_ic_sites nm)[k := (nm_ic_sites nm ! k)\<lparr>site_state := Unresolved\<rparr>]\<rparr> = reset_sites {(j, k)} j nm"
  unfolding reset_sites_def
  by (rule arg_cong [where f = "\<lambda>x. nm\<lparr>nm_ic_sites := x\<rparr>"]) (auto intro!: nth_equalityI simp: nth_list_update)

lemma reset_other: "j \<noteq> i \<Longrightarrow> reset_sites {(i, k)} j nm = nm"
  by (simp add: reset_sites_def map_nth)

lemma apply_patch_spec:
  assumes ok: "patch_ok vm p" and cc: "cc_reach (jv_cache vm) hs" "freed_stubs {p} \<subseteq> set hs"
  shows "\<exists>vm' hs'. apply_patch p vm = Some vm' \<and> patched_by {p} vm vm' \<and> cc_reach (jv_cache vm') hs' \<and> set hs' = set hs - freed_stubs {p}"
proof -
  obtain nm where nm: "get_nm (jv_table vm) (ps_caller_id p) = Some nm" "ps_caller_code p = nm_code nm"
    "ps_site_idx p < length (nm_ic_sites nm)" and site: "call_site_ok vm nm (ps_site_off p)"
    using ok unfolding patch_ok_def by blast
  obtain cache pics hs' where fr: "(case ps_free_pic p of
       Some stub \<Rightarrow> do { (cache, pics) \<leftarrow> pic_free stub (jv_cache vm) (jv_pics vm); Some (vm\<lparr>jv_cache := cache, jv_pics := pics\<rparr>) }
     | None \<Rightarrow> Some vm) = Some (vm\<lparr>jv_cache := cache, jv_pics := pics\<rparr>)"
    "cc_reach cache hs'" "set hs' = set hs - freed_stubs {p}"
    "\<And>b. pics b = (if b \<in> ch_base ` freed_stubs {p} then None else jv_pics vm b)"
  proof (cases "ps_free_pic p")
    case None
    then show ?thesis using that [where cache = "jv_cache vm" and pics = "jv_pics vm" and hs' = hs] cc by (simp add: freed_stubs_def)
  next
    case (Some stub)
    then have "stub \<in> set hs" using cc(2) by (auto simp: freed_stubs_def)
    from cc_release [OF cc(1) this] Some show ?thesis
      using that [where pics = "(jv_pics vm)(ch_base stub := None)"] by (auto simp: freed_stubs_def pic_free_def)
  qed
  obtain mem where mem: "patch_call_rel32_at (nm_code nm) (ps_site_off p) (jv_resolve_addr vm) (jv_mem vm) = Some mem"
    "branch_dest 0xE8 (ps_site p) mem = Some (int (jv_resolve_addr vm))" "\<forall>x. x \<le> ps_site p \<or> ps_site p + 5 \<le> x \<longrightarrow> mem x = jv_mem vm x"
    using patch_call_rel32_exact [where h = "nm_code nm" and off = "ps_site_off p" and target = "jv_resolve_addr vm" and mem = "jv_mem vm"] site
    by (auto simp: call_site_ok_def nm_code_def ps_site_def nm(2) split: option.splits)
  let ?t = "(jv_table vm)\<lparr>tb_slots := (tb_slots (jv_table vm))[ps_caller_id p := Some (reset_sites {patch_key p} (ps_caller_id p) nm)]\<rparr>"
  have t: "set_site_unresolved (ps_caller_id p) (ps_site_idx p) (jv_table vm) = Some ?t"
    using nm by (simp add: set_site_unresolved_def slice_get_def reset_one [where j = "ps_caller_id p"] patch_key_def)
  have "ps_caller_id p < length (tb_slots (jv_table vm))" using nm(1) by (simp add: get_nm_eq split: if_splits)
  then have "get_nm ?t j = map_option (reset_sites {patch_key p} j) (get_nm (jv_table vm) j)" for j
    using get_nm_update [of "ps_caller_id p" "jv_table vm"] nm(1) reset_other [of j "ps_caller_id p"]
    by (cases "get_nm (jv_table vm) j") (auto simp: patch_key_def)
  moreover have "apply_patch p vm = Some (vm\<lparr>jv_cache := cache, jv_pics := pics, jv_mem := mem, jv_table := ?t\<rparr>)"
    using fr(1) t mem(1) nm(2) by (simp add: apply_patch_def patch_call_site_at_def)
  ultimately show ?thesis using mem fr(2-)
    by (intro exI [of _ "vm\<lparr>jv_cache := cache, jv_pics := pics, jv_mem := mem, jv_table := ?t\<rparr>"] exI [of _ hs'])
      (simp add: patched_by_def same_indexes_def same_rest_def)
qed


subsection \<open>All patches\<close>

definition far :: "patch_site \<Rightarrow> patch_site \<Rightarrow> bool" where
  "far p q \<longleftrightarrow> (ps_site p + 5 \<le> ps_site q \<or> ps_site q + 5 \<le> ps_site p) \<and> freed_stubs {p} \<inter> freed_stubs {q} = {}"

lemma reset_sites_simps [simp]:
  "nm_id (reset_sites K j nm) = nm_id nm" "nm_code_base (reset_sites K j nm) = nm_code_base nm" "nm_code_len (reset_sites K j nm) = nm_code_len nm"
  "nm_state (reset_sites K j nm) = nm_state nm" "nm_key (reset_sites K j nm) = nm_key nm" "nm_block_method (reset_sites K j nm) = nm_block_method nm"
  "nm_osr_map (reset_sites K j nm) = nm_osr_map nm" "length (nm_ic_sites (reset_sites K j nm)) = length (nm_ic_sites nm)"
  "nm_code (reset_sites K j nm) = nm_code nm" "nm_key_klass (reset_sites K j nm) = nm_key_klass nm" "nm_key_selector (reset_sites K j nm) = nm_key_selector nm"
  "nm_inline_deps (reset_sites K j nm) = nm_inline_deps nm"
  by (simp_all add: reset_sites_def nm_code_def nm_key_def)

lemma reset_sites_nth: "k < length (nm_ic_sites nm) \<Longrightarrow> nm_ic_sites (reset_sites K j nm) ! k =
    (if (j, k) \<in> K then (nm_ic_sites nm ! k)\<lparr>site_state := Unresolved\<rparr> else nm_ic_sites nm ! k)"
  by (simp add: reset_sites_def)

lemma reset_sites_comp: "reset_sites K j (reset_sites L j nm) = reset_sites (L \<union> K) j nm"
proof -
  have "nm_ic_sites (reset_sites K j (reset_sites L j nm)) = nm_ic_sites (reset_sites (L \<union> K) j nm)"
    by (rule nth_equalityI) (auto simp: reset_sites_nth)
  then show ?thesis unfolding reset_sites_def by simp
qed

lemma patch_ok_step:
  assumes "patched_by {p} vm vm1" "patch_ok vm q" "far p q"
  shows "patch_ok vm1 q"
proof -
  obtain nm where nm: "get_nm (jv_table vm) (ps_caller_id q) = Some nm" "ps_caller_code q = nm_code nm"
    "ps_site_idx q < length (nm_ic_sites nm)" "call_site_ok vm nm (ps_site_off q)"
    using assms(2) unfolding patch_ok_def by blast
  have "ps_site q = nm_code_base nm + ps_site_off q" by (simp add: ps_site_def nm(2) nm_code_def)
  moreover have "jv_mem vm1 (ps_site q) = jv_mem vm (ps_site q)" using assms(1,3) unfolding patched_by_def far_def by auto
  moreover have "jv_resolve_addr vm1 = jv_resolve_addr vm" using assms(1) by (simp add: patched_by_def same_rest_def)
  ultimately have "call_site_ok vm1 (reset_sites (patch_key ` {p}) (ps_caller_id q) nm) (ps_site_off q)" using nm(4) by (simp add: call_site_ok_def)
  moreover have "get_nm (jv_table vm1) (ps_caller_id q) = Some (reset_sites (patch_key ` {p}) (ps_caller_id q) nm)" using assms(1) nm(1) by (simp add: patched_by_def)
  ultimately show ?thesis using nm(2,3) unfolding patch_ok_def by auto
qed

lemma patched_by_step:
  assumes a: "patched_by {p} vm vm1" and b: "patched_by P vm1 vm2" and f: "\<forall>q \<in> P. far p q"
  shows "patched_by (Set.insert p P) vm vm2"
proof -
  have res: "jv_resolve_addr vm1 = jv_resolve_addr vm" "same_rest vm vm2" using a b by (simp_all add: patched_by_def same_rest_def)
  have "get_nm (jv_table vm2) j = map_option (reset_sites (patch_key ` Set.insert p P) j) (get_nm (jv_table vm) j)" for j
    using a b unfolding patched_by_def by (simp add: option.map_comp comp_def reset_sites_comp)
  moreover have "same_indexes (jv_table vm) (jv_table vm2)" using a b by (simp add: patched_by_def same_indexes_def)
  moreover have "jv_pics vm2 x = (if x \<in> ch_base ` freed_stubs (Set.insert p P) then None else jv_pics vm x)" for x
  proof -
    have "freed_stubs (Set.insert p P) = freed_stubs {p} \<union> freed_stubs P" by (auto simp: freed_stubs_def)
    then show ?thesis using a b by (simp add: patched_by_def image_Un)
  qed
  moreover have "branch_dest 0xE8 (ps_site q) (jv_mem vm2) = Some (int (jv_resolve_addr vm))" if "q \<in> Set.insert p P" for q
  proof (cases "q \<in> P")
    case False
    then have "q = p" using that by simp
    moreover have "branch_dest 0xE8 (ps_site p) (jv_mem vm2) = branch_dest 0xE8 (ps_site p) (jv_mem vm1)"
    proof (intro branch_dest_cong allI impI)
      fix x assume x: "ps_site p \<le> x \<and> x < ps_site p + 5"
      have "\<forall>q \<in> P. x \<le> ps_site q \<or> ps_site q + 5 \<le> x"
      proof
        fix q assume "q \<in> P"
        then have "far p q" using f by blast
        then show "x \<le> ps_site q \<or> ps_site q + 5 \<le> x" using x unfolding far_def by linarith
      qed
      then show "jv_mem vm2 x = jv_mem vm1 x" using b unfolding patched_by_def by blast
    qed
    ultimately show ?thesis using a by (simp add: patched_by_def)
  qed (use b res in \<open>simp add: patched_by_def\<close>)
  moreover have "jv_mem vm2 x = jv_mem vm x" if "\<forall>q \<in> Set.insert p P. x \<le> ps_site q \<or> ps_site q + 5 \<le> x" for x
    using that a b unfolding patched_by_def by (metis insert_iff singletonD)
  ultimately show ?thesis using res(2) unfolding patched_by_def by blast
qed

lemma apply_patches_spec:
  "\<forall>p \<in> set ps. patch_ok vm p \<Longrightarrow> sorted_wrt far ps \<Longrightarrow> cc_reach (jv_cache vm) hs \<Longrightarrow> freed_stubs (set ps) \<subseteq> set hs \<Longrightarrow>
   \<exists>vm' hs'. apply_patches ps vm = Some vm' \<and> patched_by (set ps) vm vm' \<and> cc_reach (jv_cache vm') hs' \<and> set hs' = set hs - freed_stubs (set ps)"
proof (induction ps arbitrary: vm hs)
  case Nil
  have "reset_sites {} j nm = nm" for j nm by (simp add: reset_sites_def map_nth)
  then show ?case using Nil by (auto simp: patched_by_def freed_stubs_def same_indexes_def same_rest_def option.map_ident_strong)
next
  case (Cons p ps)
  have fr: "freed_stubs (set (p # ps)) = freed_stubs {p} \<union> freed_stubs (set ps)" by (auto simp: freed_stubs_def)
  have f: "\<forall>q \<in> set ps. far p q" using Cons.prems(2) by simp
  obtain vm1 hs1 where vm1: "apply_patch p vm = Some vm1" "patched_by {p} vm vm1" "cc_reach (jv_cache vm1) hs1" "set hs1 = set hs - freed_stubs {p}"
    using apply_patch_spec [of vm p hs] Cons.prems fr by auto
  have "\<forall>q \<in> set ps. patch_ok vm1 q" using patch_ok_step [OF vm1(2)] Cons.prems(1) f by simp
  moreover have "freed_stubs (set ps) \<subseteq> set hs1"
    using Cons.prems(4) f unfolding vm1(4) far_def freed_stubs_def by fastforce
  ultimately obtain vm2 hs2 where vm2: "apply_patches ps vm1 = Some vm2" "patched_by (set ps) vm1 vm2" "cc_reach (jv_cache vm2) hs2" "set hs2 = set hs1 - freed_stubs (set ps)"
    using Cons.IH [OF _ _ vm1(3)] Cons.prems(2) by auto
  then show ?case using vm1(1,4) patched_by_step [OF vm1(2) vm2(2) f] fr by (intro exI [of _ vm2] exI [of _ hs2]) auto
qed


subsection \<open>Which sites are patched\<close>

text \<open>A call site can enter an nmethod's code, directly or through its polymorphic stub.\<close>

definition enters :: "pic_table \<Rightarrow> nmethod \<Rightarrow> ic_site \<Rightarrow> bool" where
  "enters pics nm s \<longleftrightarrow> (case site_state s of
       Mono _ t \<Rightarrow> in_code nm t
     | Pic stub \<Rightarrow> (case pics (ch_base stub) of Some d \<Rightarrow> \<exists>(_, t) \<in> set (pic_pairs d). in_code nm t | None \<Rightarrow> False)
     | _ \<Rightarrow> False)"

definition mk_patch :: "nmethod \<Rightarrow> nat \<Rightarrow> patch_site" where
  "mk_patch a k = \<lparr>ps_caller_id = nm_id a, ps_caller_code = nm_code a, ps_site_off = site_ic_off (nm_ic_sites a ! k), ps_site_idx = k,
     ps_free_pic = (case site_state (nm_ic_sites a ! k) of Pic s \<Rightarrow> Some s | _ \<Rightarrow> None)\<rparr>"

definition pics_known :: "pic_table \<Rightarrow> nmethod \<Rightarrow> bool" where
  "pics_known pics a \<longleftrightarrow> (\<forall>s \<in> set (nm_ic_sites a). \<forall>stub. site_state s = Pic stub \<longrightarrow> pics (ch_base stub) \<noteq> None)"

definition entering :: "pic_table \<Rightarrow> nmethod \<Rightarrow> nmethod \<Rightarrow> nat list" where
  "entering pics nm a = filter (\<lambda>k. enters pics nm (nm_ic_sites a ! k)) [0..<length (nm_ic_sites a)]"

lemma patch_of_spec:
  assumes "pics_known pics a" "k < length (nm_ic_sites a)"
  shows "patch_of pics (nm_code_base nm) (nm_code_base nm + nm_code_len nm) a k (nm_ic_sites a ! k) =
    Some (if enters pics nm (nm_ic_sites a ! k) then [mk_patch a k] else [])"
proof (cases "site_state (nm_ic_sites a ! k)")
  case (Pic stub)
  moreover obtain d where "pics (ch_base stub) = Some d" using assms Pic unfolding pics_known_def by (metis nth_mem option.exhaust)
  ultimately show ?thesis by (simp add: patch_of_def enters_def mk_patch_def in_code_def pairs_of_def Let_def case_prod_beta)
qed (simp_all add: patch_of_def enters_def mk_patch_def in_code_def Let_def)

lemma patches_of_sites_spec:
  assumes "pics_known pics a"
  shows "n \<le> length (nm_ic_sites a) \<Longrightarrow>
    patches_of_sites pics (nm_code_base nm) (nm_code_base nm + nm_code_len nm) a n (drop n (nm_ic_sites a)) =
    Some (map (mk_patch a) (filter (\<lambda>k. enters pics nm (nm_ic_sites a ! k)) [n..<length (nm_ic_sites a)]))"
proof (induction "length (nm_ic_sites a) - n" arbitrary: n)
  case (Suc m)
  then have n: "n < length (nm_ic_sites a)" by simp
  then show ?case using Suc.hyps(1) [of "n + 1"] Suc.hyps(2) patch_of_spec [OF assms n, of nm]
    by (simp add: Cons_nth_drop_Suc [symmetric] upt_conv_Cons)
qed simp

lemma collect_patches_spec:
  "\<forall>a \<in> set nms. pics_known pics a \<Longrightarrow>
   collect_patches pics (nm_code_base nm) (nm_code_base nm + nm_code_len nm) nms = Some (concat (map (\<lambda>a. map (mk_patch a) (entering pics nm a)) nms))"
proof (induction nms)
  case (Cons a nms)
  then show ?case using patches_of_sites_spec [of pics a 0 nm] by (simp add: entering_def)
qed simp

lemma patch_keys_distinct:
  "distinct (map nm_id nms) \<Longrightarrow> distinct (map patch_key (concat (map (\<lambda>a. map (mk_patch a) (entering pics nm a)) nms)))"
proof (induction nms)
  case (Cons a nms)
  have key: "patch_key (mk_patch b k) = (nm_id b, k)" for b k by (simp add: patch_key_def mk_patch_def)
  have "distinct (map patch_key (map (mk_patch a) (entering pics nm a)))"
    by (simp add: comp_def key entering_def distinct_map inj_on_def)
  moreover have "x \<notin> set (map patch_key (concat (map (\<lambda>a. map (mk_patch a) (entering pics nm a)) nms)))"
    if "x \<in> set (map patch_key (map (mk_patch a) (entering pics nm a)))" for x
    using that Cons.prems by (auto simp: key)
  ultimately show ?case using Cons by (auto simp: key)
qed simp

lemma sorted_wrt_distinct: "distinct xs \<Longrightarrow> \<forall>x \<in> set xs. \<forall>y \<in> set xs. x \<noteq> y \<longrightarrow> R x y \<Longrightarrow> sorted_wrt R xs"
  by (induction xs) auto

subsection \<open>The invariant\<close>

definition sites_ok :: "jit_vm \<Rightarrow> nmethod \<Rightarrow> bool" where
  "sites_ok vm a \<longleftrightarrow> (\<forall>s \<in> set (nm_ic_sites a). call_site_ok vm a (site_ic_off s)) \<and>
     sorted_wrt (\<lambda>s s'. site_ic_off s + 5 \<le> site_ic_off s' \<or> site_ic_off s' + 5 \<le> site_ic_off s) (nm_ic_sites a) \<and> pics_known (jv_pics vm) a"

text \<open>The stub of the polymorphic call site \<open>k\<close> of nmethod \<open>i\<close>.\<close>

definition pic_site :: "jit_vm \<Rightarrow> nat \<times> nat \<Rightarrow> code_handle \<Rightarrow> bool" where
  "pic_site vm ik stub \<longleftrightarrow> (\<exists>a. alive_in vm (fst ik) a \<and> snd ik < length (nm_ic_sites a) \<and> site_state (nm_ic_sites a ! snd ik) = Pic stub)"

definition flush_ok :: "jit_vm \<Rightarrow> code_handle list \<Rightarrow> bool" where
  "flush_ok vm hs \<longleftrightarrow> tb_wf (jv_table vm) \<and> cc_reach (jv_cache vm) hs \<and>
     (\<forall>i a. get_nm (jv_table vm) i = Some a \<longrightarrow> nm_code a \<in> set hs) \<and> (\<forall>i a. alive_in vm i a \<longrightarrow> sites_ok vm a) \<and>
     (\<forall>ik stub. pic_site vm ik stub \<longrightarrow> stub \<in> set hs \<and> (\<forall>j b. get_nm (jv_table vm) j = Some b \<longrightarrow> nm_code b \<noteq> stub)) \<and>
     (\<forall>ik jl s s'. pic_site vm ik s \<longrightarrow> pic_site vm jl s' \<longrightarrow> ch_base s = ch_base s' \<longrightarrow> ik = jl)"

lemma tb_wf_relabel:
  assumes wf: "tb_wf t" and ix: "same_indexes t t'" and g: "\<And>j. get_nm t' j = map_option (reset_sites K j) (get_nm t j)"
  shows "tb_wf t'"
proof -
  have w: "slots_wf t" "indexes_wf t" "addrs_wf t" using wf by (simp_all add: tb_wf_def)
  have "disjoint_code (reset_sites K i a) (reset_sites K j b) \<longleftrightarrow> disjoint_code a b" for i j a b by (simp add: disjoint_code_def)
  then have "slots_wf t'" using w(1) unfolding slots_wf_def g by auto
  moreover have keep: "names_alive t' i P" if "names_alive t i P" "\<forall>a. P a \<longrightarrow> P (reset_sites K i a)" for i P
    using that unfolding names_alive_def g by auto
  have "indexes_wf t'" unfolding indexes_wf_def
  proof (intro conjI allI impI)
    show "names_alive t' i (keyed k)" if "tb_by_key t' k = Some i" for k i
      using that ix indexes_wfD(1) [OF w(2)] by (intro keep) (simp_all add: keyed_def same_indexes_def)
    show "names_alive t' i (\<lambda>nm. nm_block_method nm = Some b)" if "tb_by_block t' b = Some i" for b i
      using that ix indexes_wfD(2) [OF w(2)] by (intro keep) (simp_all add: same_indexes_def)
    show "names_alive t' i (osr_keyed k)" if "tb_osr t' k = Some i" for k i
      using that ix indexes_wfD(3) [OF w(2)] by (intro keep) (simp_all add: osr_keyed_def same_indexes_def)
  qed
  moreover have "addrs_wf t'" using w(3) ix unfolding addrs_wf_def same_indexes_def g by (auto simp: map_option_case split: option.splits)
  ultimately show ?thesis by (simp add: tb_wf_def)
qed


subsection \<open>Flushing is sound\<close>

lemma flush_okD:
  assumes "flush_ok vm hs"
  shows "tb_wf (jv_table vm)" "cc_reach (jv_cache vm) hs" "get_nm (jv_table vm) i = Some a \<Longrightarrow> nm_code a \<in> set hs"
    "alive_in vm i a \<Longrightarrow> sites_ok vm a" "pic_site vm ik stub \<Longrightarrow> stub \<in> set hs"
    "pic_site vm ik stub \<Longrightarrow> get_nm (jv_table vm) j = Some b \<Longrightarrow> nm_code b \<noteq> stub"
    "pic_site vm ik s \<Longrightarrow> pic_site vm jl s' \<Longrightarrow> ch_base s = ch_base s' \<Longrightarrow> ik = jl"
  using assms unfolding flush_ok_def by blast+

text \<open>The patches for the dying nmethod, over the alive nmethods of a state.\<close>

definition flush_patches :: "jit_vm \<Rightarrow> nmethod \<Rightarrow> patch_site list" where
  "flush_patches vm nm = concat (map (\<lambda>a. map (mk_patch a) (entering (jv_pics vm) nm a)) (iter_alive (jv_table vm)))"

lemma flush_patches_set:
  shows "p \<in> set (flush_patches vm nm) \<longleftrightarrow>
    (\<exists>i a k. alive_in vm i a \<and> k < length (nm_ic_sites a) \<and> enters (jv_pics vm) nm (nm_ic_sites a ! k) \<and> p = mk_patch a k)"
proof -
  have "p \<in> set (flush_patches vm nm) \<longleftrightarrow>
    (\<exists>a. a \<in> set (iter_alive (jv_table vm)) \<and> (\<exists>k. k < length (nm_ic_sites a) \<and> enters (jv_pics vm) nm (nm_ic_sites a ! k) \<and> p = mk_patch a k))"
    by (auto simp: flush_patches_def entering_def)
  then show ?thesis unfolding iter_alive_set alive_in_def by blast
qed

lemma mk_patch_simps [simp]:
  "ps_caller_id (mk_patch a k) = nm_id a" "ps_caller_code (mk_patch a k) = nm_code a" "ps_site_idx (mk_patch a k) = k"
  "ps_site_off (mk_patch a k) = site_ic_off (nm_ic_sites a ! k)" "patch_key (mk_patch a k) = (nm_id a, k)"
  "ps_site (mk_patch a k) = nm_code_base a + site_ic_off (nm_ic_sites a ! k)"
  "ps_free_pic (mk_patch a k) = Some s \<longleftrightarrow> site_state (nm_ic_sites a ! k) = Pic s"
  by (auto simp: mk_patch_def patch_key_def ps_site_def nm_code_def split: ic_state.splits)

lemma patches_far:
  assumes ok: "flush_ok vm hs" and a: "alive_in vm i a" "k < length (nm_ic_sites a)" and b: "alive_in vm j b" "l < length (nm_ic_sites b)" and ne: "(i, k) \<noteq> (j, l)"
  shows "far (mk_patch a k) (mk_patch b l)"
proof -
  note d = flush_okD [OF ok]
  have sa: "site_ic_off (nm_ic_sites a ! k) + 5 \<le> nm_code_len a" and sb: "site_ic_off (nm_ic_sites b ! l) + 5 \<le> nm_code_len b"
    using d(4) [OF a(1)] d(4) [OF b(1)] a(2) b(2) by (simp_all add: sites_ok_def call_site_ok_def)
  have "ps_site (mk_patch a k) + 5 \<le> ps_site (mk_patch b l) \<or> ps_site (mk_patch b l) + 5 \<le> ps_site (mk_patch a k)"
  proof (cases "i = j")
    case True
    then have "b = a" "k \<noteq> l" using a b ne by (auto simp: alive_in_def)
    then show ?thesis using d(4) [OF a(1)] a(2) b(2) sorted_wrt_nth_less [of _ "nm_ic_sites a"]
      unfolding sites_ok_def by (auto simp: nat_neq_iff)
  next
    case False
    then have "disjoint_code a b" using d(1) a(1) b(1) by (auto simp: tb_wf_def slots_wf_def alive_in_def)
    then show ?thesis using sa sb by (auto simp: disjoint_code_def)
  qed
  moreover have "freed_stubs {mk_patch a k} \<inter> freed_stubs {mk_patch b l} = {}"
  proof -
    have "pic_site vm (i, k) s" if "site_state (nm_ic_sites a ! k) = Pic s" for s using that a by (auto simp: pic_site_def)
    moreover have "pic_site vm (j, l) s" if "site_state (nm_ic_sites b ! l) = Pic s" for s using that b by (auto simp: pic_site_def)
    ultimately show ?thesis using d(7) ne by (auto simp: freed_stubs_def)
  qed
  ultimately show ?thesis by (simp add: far_def)
qed

lemma flush_patches_ok:
  assumes ok: "flush_ok vm hs"
  shows "\<forall>p \<in> set (flush_patches vm nm). patch_ok vm p" "sorted_wrt far (flush_patches vm nm)" "freed_stubs (set (flush_patches vm nm)) \<subseteq> set hs"
proof -
  note d = flush_okD [OF ok] and m = flush_patches_set
  have id: "nm_id a = i" if "alive_in vm i a" for i a using d(1) that by (simp add: tb_wf_def slots_wf_def alive_in_def)
  show "\<forall>p \<in> set (flush_patches vm nm). patch_ok vm p"
  proof
    fix p assume "p \<in> set (flush_patches vm nm)"
    then obtain i a k where p: "alive_in vm i a" "k < length (nm_ic_sites a)" "p = mk_patch a k" unfolding m by blast
    then have "call_site_ok vm a (site_ic_off (nm_ic_sites a ! k))" using d(4) by (simp add: sites_ok_def)
    then show "patch_ok vm p" using p id [OF p(1)] by (auto simp: patch_ok_def alive_in_def)
  qed
  have "distinct (map nm_id (iter_alive (jv_table vm)))" using distinct_ids [OF d(1)] by (simp add: iter_alive_def distinct_map inj_on_def)
  then have "distinct (map patch_key (flush_patches vm nm))" unfolding flush_patches_def by (rule patch_keys_distinct)
  then have dist: "distinct (flush_patches vm nm)" and inj: "inj_on patch_key (set (flush_patches vm nm))" by (simp_all add: distinct_map)
  show "sorted_wrt far (flush_patches vm nm)"
  proof (rule sorted_wrt_distinct [OF dist], intro ballI impI)
    fix p q assume pq: "p \<in> set (flush_patches vm nm)" "q \<in> set (flush_patches vm nm)" "p \<noteq> q"
    then have "patch_key p \<noteq> patch_key q" using inj by (auto dest: inj_onD)
    then show "far p q" using pq(1,2) patches_far [OF ok] id unfolding m by fastforce
  qed
  show "freed_stubs (set (flush_patches vm nm)) \<subseteq> set hs"
  proof
    fix s assume "s \<in> freed_stubs (set (flush_patches vm nm))"
    then obtain i a k where "alive_in vm i a" "k < length (nm_ic_sites a)" "site_state (nm_ic_sites a ! k) = Pic s"
      unfolding freed_stubs_def by (auto simp: m)
    then have "pic_site vm (i, k) s" by (auto simp: pic_site_def)
    then show "s \<in> set hs" by (rule d(5))
  qed
qed


definition entering_sites :: "jit_vm \<Rightarrow> nat \<Rightarrow> nmethod \<Rightarrow> (nat \<times> nat) set" where
  "entering_sites vm i nm = {(j, k). j \<noteq> i \<and> (\<exists>a. alive_in vm j a \<and> k < length (nm_ic_sites a) \<and> enters (jv_pics vm) nm (nm_ic_sites a ! k))}"

lemma zombie_ok:
  assumes ok: "flush_ok vm hs" and nm: "get_nm (jv_table vm) i = Some nm"
  defines "vm1 \<equiv> vm\<lparr>jv_table := retire Zombie i nm (jv_table vm)\<rparr>"
  shows "flush_ok vm1 hs" "alive_in vm1 j a \<longleftrightarrow> j \<noteq> i \<and> alive_in vm j a" "patch_key ` set (flush_patches vm1 nm) = entering_sites vm i nm"
proof -
  note d = flush_okD [OF ok]
  have get: "get_nm (jv_table vm1) j = (if j = i then Some (nm\<lparr>nm_state := Zombie\<rparr>) else get_nm (jv_table vm) j)" for j
    using retire_get [OF nm, of Zombie j] by (simp add: vm1_def)
  show al: "alive_in vm1 j a \<longleftrightarrow> j \<noteq> i \<and> alive_in vm j a" for j a by (auto simp: alive_in_def get)
  have ps: "pic_site vm ik s" if "pic_site vm1 ik s" for ik s using that by (auto simp: pic_site_def al)
  have code: "\<exists>b'. get_nm (jv_table vm) j = Some b' \<and> nm_code b' = nm_code b" if "get_nm (jv_table vm1) j = Some b" for j b
    using that nm by (auto simp: get nm_code_def split: if_splits)
  have wf: "tb_wf (jv_table vm1)" using retire_wf [OF d(1) nm] by (simp add: vm1_def)
  moreover have "sites_ok vm1 a" if "alive_in vm1 j a" for j a
  proof -
    have "sites_ok vm1 a \<longleftrightarrow> sites_ok vm a" by (simp add: sites_ok_def call_site_ok_def vm1_def)
    then show ?thesis using d(4) that unfolding al by blast
  qed
  moreover have "nm_code b \<in> set hs" if "get_nm (jv_table vm1) j = Some b" for j b using code [OF that] d(3) by metis
  moreover have "nm_code b \<noteq> s" if "get_nm (jv_table vm1) j = Some b" "pic_site vm1 ik s" for j b ik s using code [OF that(1)] d(6) [OF ps [OF that(2)]] by metis
  moreover have "cc_reach (jv_cache vm1) hs" using d(2) by (simp add: vm1_def)
  ultimately show "flush_ok vm1 hs" using d(5,7) ps unfolding flush_ok_def by blast
  have id: "nm_id a = j" if "alive_in vm1 j a" for j a using wf that by (simp add: tb_wf_def slots_wf_def alive_in_def)
  have "jk \<in> patch_key ` set (flush_patches vm1 nm) \<longleftrightarrow> jk \<in> entering_sites vm i nm" for jk
  proof -
    obtain j k where "jk = (j, k)" by fastforce
    moreover have "jv_pics vm1 = jv_pics vm" by (simp add: vm1_def)
    ultimately show ?thesis unfolding image_iff Bex_def flush_patches_set entering_sites_def using id al by fastforce
  qed
  then show "patch_key ` set (flush_patches vm1 nm) = entering_sites vm i nm" by blast
qed

text \<open>The state after the patches, the removal and the release.\<close>

definition flushed :: "nat \<Rightarrow> nmethod \<Rightarrow> jit_vm \<Rightarrow> jit_vm \<Rightarrow> bool" where
  "flushed i nm vm vm' \<longleftrightarrow>
     (\<forall>j. get_nm (jv_table vm') j = (if j = i then None else map_option (reset_sites (entering_sites vm i nm) j) (get_nm (jv_table vm) j))) \<and>
     (\<forall>k. tb_by_key (jv_table vm') k = (if tb_by_key (jv_table vm) k = Some i then None else tb_by_key (jv_table vm) k)) \<and>
     (\<forall>j k a. (j, k) \<in> entering_sites vm i nm \<longrightarrow> alive_in vm j a \<longrightarrow>
        branch_dest 0xE8 (nm_code_base a + site_ic_off (nm_ic_sites a ! k)) (jv_mem vm') = Some (int (jv_resolve_addr vm))) \<and>
     (\<forall>x. (\<forall>j k a. (j, k) \<in> entering_sites vm i nm \<longrightarrow> alive_in vm j a \<longrightarrow>
        x \<le> nm_code_base a + site_ic_off (nm_ic_sites a ! k) \<or> nm_code_base a + site_ic_off (nm_ic_sites a ! k) + 5 \<le> x) \<longrightarrow> jv_mem vm' x = jv_mem vm x) \<and>
     (\<forall>b. jv_pics vm' b = (if \<exists>jk \<in> entering_sites vm i nm. \<exists>s. pic_site vm jk s \<and> ch_base s = b then None else jv_pics vm b)) \<and>
     same_rest vm vm'"

lemma flush_effect:
  assumes ok: "flush_ok vm hs" and nm: "get_nm (jv_table vm) i = Some nm"
  shows "\<exists>vm' hs'. flush_nmethod i vm = Some vm' \<and> flushed i nm vm vm' \<and> tb_wf (jv_table vm') \<and> cc_reach (jv_cache vm') hs' \<and>
    set hs' = set hs - {s. \<exists>jk \<in> entering_sites vm i nm. pic_site vm jk s} - {nm_code nm}"
proof -
  let ?vm1 = "vm\<lparr>jv_table := retire Zombie i nm (jv_table vm)\<rparr>"
  let ?ps = "flush_patches ?vm1 nm"
  note d = flush_okD [OF ok] and z = zombie_ok [OF ok nm]
  have wf1: "tb_wf (jv_table ?vm1)" using flush_okD(1) [OF z(1)] .
  have id: "nm_id a = j" if "alive_in ?vm1 j a" for j a using wf1 that by (simp add: tb_wf_def slots_wf_def alive_in_def)
  have al: "alive_in ?vm1 j a \<longleftrightarrow> j \<noteq> i \<and> alive_in vm j a" for j a by (rule z(2))
  have mem_ps: "p \<in> set ?ps \<longleftrightarrow> (\<exists>j k a. (j, k) \<in> entering_sites vm i nm \<and> alive_in vm j a \<and> p = mk_patch a k)" for p
    unfolding flush_patches_set al entering_sites_def by (fastforce simp: alive_in_def)
  have stubs: "freed_stubs (set ?ps) = {s. \<exists>jk \<in> entering_sites vm i nm. pic_site vm jk s}"
    unfolding freed_stubs_def mem_ps Bex_def entering_sites_def pic_site_def by (fastforce simp: alive_in_def)
  have "\<forall>a \<in> set (iter_alive (jv_table ?vm1)). pics_known (jv_pics ?vm1) a"
    using flush_okD(4) [OF z(1)] by (auto simp: iter_alive_set alive_in_def sites_ok_def)
  then have col: "collect_patches (jv_pics vm) (nm_code_base nm) (nm_code_base nm + nm_code_len nm) (iter_alive (jv_table ?vm1)) = Some ?ps"
    using collect_patches_spec [of "iter_alive (jv_table ?vm1)" "jv_pics vm" nm] by (simp add: flush_patches_def)
  obtain vm2 hs2 where vm2: "apply_patches ?ps ?vm1 = Some vm2" "patched_by (set ?ps) ?vm1 vm2" "cc_reach (jv_cache vm2) hs2" "set hs2 = set hs - freed_stubs (set ?ps)"
    using apply_patches_spec [OF flush_patches_ok(1,2) [OF z(1)] flush_okD(2) [OF z(1)] flush_patches_ok(3) [OF z(1)]] by blast
  have get2: "get_nm (jv_table vm2) j = map_option (reset_sites (entering_sites vm i nm) j) (get_nm (jv_table ?vm1) j)" for j
    using vm2(2) z(3) by (simp add: patched_by_def)
  have ix2: "same_indexes (jv_table ?vm1) (jv_table vm2)" using vm2(2) by (simp add: patched_by_def)
  have wf2: "tb_wf (jv_table vm2)" by (rule tb_wf_relabel [OF wf1 ix2 get2])
  let ?nm2 = "reset_sites (entering_sites vm i nm) i (nm\<lparr>nm_state := Zombie\<rparr>)"
  have nm2: "get_nm (jv_table vm2) i = Some ?nm2" using retire_get [OF nm, of Zombie i] get2 [of i] by simp
  have ix: "indexes_wf (jv_table vm)" using d(1) by (simp add: tb_wf_def)
  have un: "tb_by_key (jv_table vm2) k \<noteq> Some i" "tb_by_block (jv_table vm2) b \<noteq> Some i" "tb_osr (jv_table vm2) ok \<noteq> Some i" for k b ok
    using ix2 retire_indexes [OF ix nm, of Zombie] by (simp_all add: same_indexes_def)
  obtain t3 where t3: "remove_nm i (jv_table vm2) = Some (?nm2, t3)" "tb_wf t3" "\<forall>j. get_nm t3 j = (if j = i then None else get_nm (jv_table vm2) j)"
    "tb_by_key t3 = tb_by_key (jv_table vm2)"
    using remove_wf [OF wf2 un nm2] by blast
  have "nm_code nm \<in> set hs2" using vm2(4) d(3) [OF nm] d(6) [OF _ nm] stubs by auto
  then obtain c3 hs3 where c3: "cc_free_handle (nm_code ?nm2) (jv_cache vm2) = Some c3" "cc_reach c3 hs3" "set hs3 = set hs2 - {nm_code nm}"
    using cc_release [OF vm2(3), of "nm_code nm"] by (auto simp: nm_code_def)
  let ?vm3 = "vm2\<lparr>jv_table := t3, jv_cache := c3\<rparr>"
  have "flush_nmethod i vm = Some ?vm3"
    using nm col vm2(1) t3(1) c3(1) by (simp add: flush_nmethod_def mark_zombie_def)
  moreover have "flushed i nm vm ?vm3" unfolding flushed_def
  proof (intro conjI)
    show "same_rest vm ?vm3" using vm2(2) by (simp add: patched_by_def same_rest_def)
    show "\<forall>j. get_nm (jv_table ?vm3) j = (if j = i then None else map_option (reset_sites (entering_sites vm i nm) j) (get_nm (jv_table vm) j))"
      using t3(3) get2 retire_get [OF nm, of Zombie] by simp
    show "\<forall>k. tb_by_key (jv_table ?vm3) k = (if tb_by_key (jv_table vm) k = Some i then None else tb_by_key (jv_table vm) k)"
      using t3(4) ix2 retire_indexes(1) [OF ix nm, of Zombie] by (simp add: same_indexes_def)
    have "jv_pics vm2 b = (if b \<in> ch_base ` freed_stubs (set ?ps) then None else jv_pics vm b)" for b using vm2(2) by (simp add: patched_by_def)
    moreover have "b \<in> ch_base ` freed_stubs (set ?ps) \<longleftrightarrow> (\<exists>jk \<in> entering_sites vm i nm. \<exists>s. pic_site vm jk s \<and> ch_base s = b)" for b
      unfolding stubs by blast
    ultimately show "\<forall>b. jv_pics ?vm3 b = (if \<exists>jk \<in> entering_sites vm i nm. \<exists>s. pic_site vm jk s \<and> ch_base s = b then None else jv_pics vm b)" by simp
    have br: "branch_dest 0xE8 (ps_site p) (jv_mem vm2) = Some (int (jv_resolve_addr vm))" if "p \<in> set ?ps" for p using vm2(2) that by (simp add: patched_by_def)
    have out: "jv_mem vm2 x = jv_mem vm x" if "\<forall>p \<in> set ?ps. x \<le> ps_site p \<or> ps_site p + 5 \<le> x" for x using vm2(2) that by (simp add: patched_by_def)
    have site: "ps_site (mk_patch a k) = nm_code_base a + site_ic_off (nm_ic_sites a ! k)" for a k by simp
    show "\<forall>j k a. (j, k) \<in> entering_sites vm i nm \<longrightarrow> alive_in vm j a \<longrightarrow>
        branch_dest 0xE8 (nm_code_base a + site_ic_off (nm_ic_sites a ! k)) (jv_mem ?vm3) = Some (int (jv_resolve_addr vm))"
    proof (intro allI impI)
      fix j k a assume "(j, k) \<in> entering_sites vm i nm" "alive_in vm j a"
      then have "mk_patch a k \<in> set ?ps" unfolding mem_ps by blast
      then show "branch_dest 0xE8 (nm_code_base a + site_ic_off (nm_ic_sites a ! k)) (jv_mem ?vm3) = Some (int (jv_resolve_addr vm))"
        using br by fastforce
    qed
    show "\<forall>x. (\<forall>j k a. (j, k) \<in> entering_sites vm i nm \<longrightarrow> alive_in vm j a \<longrightarrow>
        x \<le> nm_code_base a + site_ic_off (nm_ic_sites a ! k) \<or> nm_code_base a + site_ic_off (nm_ic_sites a ! k) + 5 \<le> x) \<longrightarrow> jv_mem ?vm3 x = jv_mem vm x"
    proof (intro allI impI)
      fix x assume h: "\<forall>j k a. (j, k) \<in> entering_sites vm i nm \<longrightarrow> alive_in vm j a \<longrightarrow>
        x \<le> nm_code_base a + site_ic_off (nm_ic_sites a ! k) \<or> nm_code_base a + site_ic_off (nm_ic_sites a ! k) + 5 \<le> x"
      have "\<forall>p \<in> set ?ps. x \<le> ps_site p \<or> ps_site p + 5 \<le> x" using h unfolding Ball_def mem_ps site [symmetric] by blast
      then show "jv_mem ?vm3 x = jv_mem vm x" using out by simp
    qed
  qed
  ultimately show ?thesis using t3(2) c3(2,3) vm2(4) stubs by (intro exI [of _ ?vm3] exI [of _ hs3]) simp
qed


lemma flushed_alive:
  assumes "flushed i nm vm vm'"
  shows "alive_in vm' j b \<longleftrightarrow> j \<noteq> i \<and> (\<exists>a. alive_in vm j a \<and> b = reset_sites (entering_sites vm i nm) j a)"
  using assms by (auto simp: flushed_def alive_in_def)

lemma flushed_opcode:
  assumes ok: "flush_ok vm hs" and fl: "flushed i nm vm vm'" and a: "alive_in vm j a" "k < length (nm_ic_sites a)" "j \<noteq> i"
  shows "jv_mem vm' (nm_code_base a + site_ic_off (nm_ic_sites a ! k)) = 0xE8"
    and "(j, k) \<notin> entering_sites vm i nm \<Longrightarrow> nm_code_base a + site_ic_off (nm_ic_sites a ! k) \<le> x \<Longrightarrow>
       x < nm_code_base a + site_ic_off (nm_ic_sites a ! k) + 5 \<Longrightarrow> jv_mem vm' x = jv_mem vm x"
proof -
  have apart: "x \<le> nm_code_base b + site_ic_off (nm_ic_sites b ! l) \<or> nm_code_base b + site_ic_off (nm_ic_sites b ! l) + 5 \<le> x"
    if "(j, k) \<notin> entering_sites vm i nm" "nm_code_base a + site_ic_off (nm_ic_sites a ! k) \<le> x" "x < nm_code_base a + site_ic_off (nm_ic_sites a ! k) + 5"
      "(j', l) \<in> entering_sites vm i nm" "alive_in vm j' b" for x j' l b
  proof -
    have "l < length (nm_ic_sites b)" using that(4,5) by (auto simp: entering_sites_def alive_in_def)
    moreover have "(j, k) \<noteq> (j', l)" using that(1,4) by auto
    ultimately have "far (mk_patch a k) (mk_patch b l)" using patches_far [OF ok a(1,2) that(5)] by blast
    then show ?thesis using that(2,3) unfolding far_def by auto
  qed
  show same: "jv_mem vm' x = jv_mem vm x"
    if "(j, k) \<notin> entering_sites vm i nm" "nm_code_base a + site_ic_off (nm_ic_sites a ! k) \<le> x" "x < nm_code_base a + site_ic_off (nm_ic_sites a ! k) + 5" for x
    using fl apart [OF that] unfolding flushed_def by blast
  show "jv_mem vm' (nm_code_base a + site_ic_off (nm_ic_sites a ! k)) = 0xE8"
  proof (cases "(j, k) \<in> entering_sites vm i nm")
    case True
    then have "branch_dest 0xE8 (nm_code_base a + site_ic_off (nm_ic_sites a ! k)) (jv_mem vm') = Some (int (jv_resolve_addr vm))"
      using fl a(1) unfolding flushed_def by blast
    then show ?thesis by (simp add: branch_dest_def split: if_splits)
  next
    case False
    then show ?thesis using same [of "nm_code_base a + site_ic_off (nm_ic_sites a ! k)"] flush_okD(4) [OF ok a(1)] a(2)
      by (simp add: sites_ok_def call_site_ok_def)
  qed
qed

lemma flushed_ok:
  assumes ok: "flush_ok vm hs" and nm: "get_nm (jv_table vm) i = Some nm" and fl: "flushed i nm vm vm'"
    and wf: "tb_wf (jv_table vm')" and cc: "cc_reach (jv_cache vm') hs'" "set hs' = set hs - {s. \<exists>jk \<in> entering_sites vm i nm. pic_site vm jk s} - {nm_code nm}"
  shows "flush_ok vm' hs'"
proof -
  note d = flush_okD [OF ok]
  let ?K = "entering_sites vm i nm"
  have get: "\<exists>a. get_nm (jv_table vm) j = Some a \<and> b = reset_sites ?K j a \<and> j \<noteq> i" if "get_nm (jv_table vm') j = Some b" for j b
    using fl that unfolding flushed_def by (auto split: if_splits)
  have ps: "pic_site vm ik s \<and> ik \<notin> ?K" if "pic_site vm' ik s" for ik s
    using that flushed_alive [OF fl] unfolding pic_site_def by (auto simp: reset_sites_nth split: if_splits)
  have res: "jv_resolve_addr vm' = jv_resolve_addr vm" using fl by (simp add: flushed_def same_rest_def)
  have code: "nm_code b \<in> set hs'" if b: "get_nm (jv_table vm') j = Some b" for j b
  proof -
    obtain a where a: "get_nm (jv_table vm) j = Some a" "nm_code b = nm_code a" "j \<noteq> i" using get [OF b] by auto
    then have "disjoint_code a nm" "0 < nm_code_len a" using d(1) nm by (auto simp: tb_wf_def slots_wf_def)
    then have "nm_code a \<noteq> nm_code nm" by (auto simp: disjoint_code_def nm_code_def)
    then show ?thesis using a d(3) [OF a(1)] d(6) [OF _ a(1)] cc(2) by auto
  qed
  have site: "sites_ok vm' b" if b: "alive_in vm' j b" for j b
  proof -
    obtain a where a: "alive_in vm j a" "b = reset_sites ?K j a" "j \<noteq> i" using b flushed_alive [OF fl] by blast
    have off: "site_ic_off (nm_ic_sites b ! k) = site_ic_off (nm_ic_sites a ! k)" if "k < length (nm_ic_sites a)" for k
      using that by (simp add: a(2) reset_sites_nth)
    have so: "sites_ok vm a" using d(4) [OF a(1)] .
    have "call_site_ok vm' b (site_ic_off (nm_ic_sites b ! k))" if k: "k < length (nm_ic_sites a)" for k
      using so k flushed_opcode(1) [OF ok fl a(1) k a(3)] unfolding off [OF k] by (simp add: sites_ok_def call_site_ok_def a(2) res)
    moreover have "map site_ic_off (nm_ic_sites b) = map site_ic_off (nm_ic_sites a)" by (rule nth_equalityI) (simp_all add: a(2) reset_sites_nth)
    then have "sorted_wrt (\<lambda>s s'. site_ic_off s + 5 \<le> site_ic_off s' \<or> site_ic_off s' + 5 \<le> site_ic_off s) (nm_ic_sites b)"
      using so unfolding sites_ok_def sorted_wrt_map [symmetric, of "\<lambda>x y. x + 5 \<le> y \<or> y + 5 \<le> x" site_ic_off] by simp
    moreover have "jv_pics vm' (ch_base stub) \<noteq> None" if k: "k < length (nm_ic_sites a)" "site_state (nm_ic_sites b ! k) = Pic stub" for k stub
    proof -
      have s: "pic_site vm (j, k) stub" "(j, k) \<notin> ?K" 
      proof -
        have "pic_site vm' (j, k) stub" unfolding pic_site_def using b k by (intro exI [of _ b]) (simp add: a(2))
        then show "pic_site vm (j, k) stub" "(j, k) \<notin> ?K" using ps by blast+
      qed
      then have "\<not> (\<exists>jk \<in> ?K. \<exists>s. pic_site vm jk s \<and> ch_base s = ch_base stub)" using d(7) by metis
      moreover have "jv_pics vm (ch_base stub) \<noteq> None" using so s(1) a(1) by (fastforce simp: sites_ok_def pics_known_def pic_site_def alive_in_def)
      ultimately show ?thesis using fl unfolding flushed_def by simp
    qed
    ultimately show ?thesis unfolding sites_ok_def pics_known_def by (auto simp: in_set_conv_nth a(2))
  qed
  have "s \<in> set hs' \<and> (\<forall>j b. get_nm (jv_table vm') j = Some b \<longrightarrow> nm_code b \<noteq> s)" if "pic_site vm' ik s" for ik s
  proof -
    have s: "pic_site vm ik s" "ik \<notin> ?K" using ps [OF that] by auto
    have "\<not> (\<exists>jk \<in> ?K. pic_site vm jk s)" using d(7) [OF s(1)] s(2) by blast
    then have "s \<in> set hs'" using cc(2) d(5) [OF s(1)] d(6) [OF s(1) nm] by auto
    moreover have "nm_code b \<noteq> s" if "get_nm (jv_table vm') j = Some b" for j b using get [OF that] d(6) [OF s(1)] by (metis reset_sites_simps(9))
    ultimately show ?thesis by blast
  qed
  then show ?thesis using wf cc(1) code site d(7) ps unfolding flush_ok_def by blast
qed


lemma entering_sites_iff:
  "alive_in vm j a \<Longrightarrow> (j, k) \<in> entering_sites vm i nm \<longleftrightarrow> j \<noteq> i \<and> k < length (nm_ic_sites a) \<and> enters (jv_pics vm) nm (nm_ic_sites a ! k)"
  by (auto simp: entering_sites_def alive_in_def)

lemma flushed_sites:
  assumes ok: "flush_ok vm hs" and fl: "flushed i nm vm vm'" and a: "alive_in vm j a" "j \<noteq> i"
  shows "\<exists>b. alive_in vm' j b \<and> length (nm_ic_sites b) = length (nm_ic_sites a) \<and> (\<forall>k < length (nm_ic_sites a).
      if enters (jv_pics vm) nm (nm_ic_sites a ! k)
      then site_state (nm_ic_sites b ! k) = Unresolved \<and>
        branch_dest 0xE8 (nm_code_base a + site_ic_off (nm_ic_sites a ! k)) (jv_mem vm') = Some (int (jv_resolve_addr vm))
      else nm_ic_sites b ! k = nm_ic_sites a ! k \<and>
        branch_dest 0xE8 (nm_code_base a + site_ic_off (nm_ic_sites a ! k)) (jv_mem vm') =
        branch_dest 0xE8 (nm_code_base a + site_ic_off (nm_ic_sites a ! k)) (jv_mem vm))"
proof (intro exI [of _ "reset_sites (entering_sites vm i nm) j a"] conjI allI impI)
  show "alive_in vm' j (reset_sites (entering_sites vm i nm) j a)" using flushed_alive [OF fl] a by blast
  fix k assume k: "k < length (nm_ic_sites a)"
  note e = entering_sites_iff [OF a(1), of k i nm]
  show "if enters (jv_pics vm) nm (nm_ic_sites a ! k)
      then site_state (nm_ic_sites (reset_sites (entering_sites vm i nm) j a) ! k) = Unresolved \<and>
        branch_dest 0xE8 (nm_code_base a + site_ic_off (nm_ic_sites a ! k)) (jv_mem vm') = Some (int (jv_resolve_addr vm))
      else nm_ic_sites (reset_sites (entering_sites vm i nm) j a) ! k = nm_ic_sites a ! k \<and>
        branch_dest 0xE8 (nm_code_base a + site_ic_off (nm_ic_sites a ! k)) (jv_mem vm') =
        branch_dest 0xE8 (nm_code_base a + site_ic_off (nm_ic_sites a ! k)) (jv_mem vm)"
  proof (cases "enters (jv_pics vm) nm (nm_ic_sites a ! k)")
    case True
    then have "(j, k) \<in> entering_sites vm i nm" using e a(2) k by blast
    then show ?thesis using True fl a(1) k unfolding flushed_def by (auto simp: reset_sites_nth)
  next
    case False
    then have "(j, k) \<notin> entering_sites vm i nm" using e by blast
    then show ?thesis using False k flushed_opcode(2) [OF ok fl a(1) k a(2)]
      by (auto simp: reset_sites_nth intro!: branch_dest_cong)
  qed
qed simp

text \<open>
  C2. Flushing an nmethod leaves no call from alive code into the freed block. \<open>flush_nmethod\<close> succeeds and keeps
  the invariant; the nmethod is gone from the table, no program counter in its code and no key resolves to it; in
  every other alive nmethod each call site that could enter it (directly or through its polymorphic stub) is unresolved and
  its call instruction goes to the resolve stub, while every other call site is untouched; its block and
  the stubs of those sites are back in the code cache, and no other handle is freed.
\<close>
theorem flush_sound:
  assumes "flush_ok vm hs" "get_nm (jv_table vm) i = Some nm"
  shows "\<exists>vm' hs'. flush_nmethod i vm = Some vm' \<and> flush_ok vm' hs' \<and>
    get_nm (jv_table vm') i = None \<and> (\<forall>pc. in_code nm pc \<longrightarrow> find_by_pc (jv_table vm') pc = None) \<and> (\<forall>k s. lookup_nm (jv_table vm') k s \<noteq> Some i) \<and>
    (\<forall>j a. alive_in vm j a \<and> j \<noteq> i \<longrightarrow>
       (\<exists>b. alive_in vm' j b \<and> length (nm_ic_sites b) = length (nm_ic_sites a) \<and> (\<forall>k < length (nm_ic_sites a).
          if enters (jv_pics vm) nm (nm_ic_sites a ! k)
          then site_state (nm_ic_sites b ! k) = Unresolved \<and>
            branch_dest 0xE8 (nm_code_base a + site_ic_off (nm_ic_sites a ! k)) (jv_mem vm') = Some (int (jv_resolve_addr vm))
          else nm_ic_sites b ! k = nm_ic_sites a ! k \<and>
            branch_dest 0xE8 (nm_code_base a + site_ic_off (nm_ic_sites a ! k)) (jv_mem vm') =
            branch_dest 0xE8 (nm_code_base a + site_ic_off (nm_ic_sites a ! k)) (jv_mem vm)))) \<and>
    set hs' = set hs - Set.insert (nm_code nm) {s. \<exists>jk \<in> entering_sites vm i nm. pic_site vm jk s}"
proof -
  obtain vm' hs' where f: "flush_nmethod i vm = Some vm'" "flushed i nm vm vm'" "tb_wf (jv_table vm')" "cc_reach (jv_cache vm') hs'"
    "set hs' = set hs - {s. \<exists>jk \<in> entering_sites vm i nm. pic_site vm jk s} - {nm_code nm}"
    using flush_effect [OF assms] by blast
  have ok': "flush_ok vm' hs'" by (rule flushed_ok [OF assms f(2-)])
  have get: "get_nm (jv_table vm') i = None" using f(2) by (simp add: flushed_def)
  have pc: "\<forall>pc. in_code nm pc \<longrightarrow> find_by_pc (jv_table vm') pc = None"
  proof (intro allI impI)
    fix pc assume pc: "in_code nm pc"
    have "find_by_pc (jv_table vm') pc \<noteq> Some j" for j
    proof
      assume "find_by_pc (jv_table vm') pc = Some j"
      then obtain b where b: "get_nm (jv_table vm') j = Some b" "in_code b pc"
        using find_by_pc_iff [OF f(3)] by (auto simp: in_code_def)
      then obtain a where "get_nm (jv_table vm) j = Some a" "in_code a pc" "j \<noteq> i"
        using f(2) unfolding flushed_def by (auto simp: in_code_def split: if_splits)
      then show False using in_code_disjoint [OF flush_okD(1) [OF assms(1)] assms(2), of j a pc] pc by blast
    qed
    then show "find_by_pc (jv_table vm') pc = None" by (cases "find_by_pc (jv_table vm') pc") auto
  qed
  have key: "\<forall>k s. lookup_nm (jv_table vm') k s \<noteq> Some i" using f(2) by (simp add: flushed_def lookup_nm_def)
  note sites = flushed_sites [OF assms(1) f(2)]
  have hs: "set hs' = set hs - Set.insert (nm_code nm) {s. \<exists>jk \<in> entering_sites vm i nm. pic_site vm jk s}" using f(5) by blast
  show ?thesis by (intro exI [of _ vm'] exI [of _ hs'] conjI f(1) ok' get pc key hs allI impI sites) simp_all
qed


subsection \<open>The sweep\<close>

lemma flushed_state:
  assumes "flushed i nm vm vm'"
  shows "map_option nm_state (get_nm (jv_table vm') j) = (if j = i then None else map_option nm_state (get_nm (jv_table vm) j))"
  using assms by (simp add: flushed_def option.map_comp comp_def)

lemma flush_all_spec:
  "flush_ok vm hs \<Longrightarrow> distinct is \<Longrightarrow> \<forall>i \<in> set is. get_nm (jv_table vm) i \<noteq> None \<Longrightarrow>
   \<exists>vm' hs'. flush_all is vm = Some vm' \<and> flush_ok vm' hs' \<and> same_rest vm vm' \<and>
     (\<forall>j. map_option nm_state (get_nm (jv_table vm') j) = (if j \<in> set is then None else map_option nm_state (get_nm (jv_table vm) j)))"
proof (induction "is" arbitrary: vm hs)
  case (Cons i "is")
  obtain nm where nm: "get_nm (jv_table vm) i = Some nm" using Cons.prems(3) by auto
  obtain vm1 hs1 where f: "flush_nmethod i vm = Some vm1" "flushed i nm vm vm1" "tb_wf (jv_table vm1)" "cc_reach (jv_cache vm1) hs1"
    "set hs1 = set hs - {s. \<exists>jk \<in> entering_sites vm i nm. pic_site vm jk s} - {nm_code nm}"
    using flush_effect [OF Cons.prems(1) nm] by blast
  have ok1: "flush_ok vm1 hs1" by (rule flushed_ok [OF Cons.prems(1) nm f(2-)])
  note st = flushed_state [OF f(2)]
  have "get_nm (jv_table vm1) j \<noteq> None" if "j \<in> set is" for j
  proof -
    have "j \<noteq> i" "get_nm (jv_table vm) j \<noteq> None" using that Cons.prems(2,3) by auto
    then show ?thesis using st [of j] by (metis option.map_disc_iff)
  qed
  then obtain vm2 hs2 where vm2: "flush_all is vm1 = Some vm2" "flush_ok vm2 hs2" "same_rest vm1 vm2"
    "\<forall>j. map_option nm_state (get_nm (jv_table vm2) j) = (if j \<in> set is then None else map_option nm_state (get_nm (jv_table vm1) j))"
    using Cons.IH [OF ok1] Cons.prems(2) by auto
  have "same_rest vm vm2" using f(2) vm2(3) by (simp add: flushed_def same_rest_def)
  then show ?case using f(1) vm2 st by (intro exI [of _ vm2] exI [of _ hs2]) auto
qed (auto simp: same_rest_def)

lemma not_entrant_ids_set:
  assumes "tb_wf t"
  shows "i \<in> set (not_entrant_ids t) \<longleftrightarrow> map_option nm_state (get_nm t i) = Some NotEntrant" "distinct (not_entrant_ids t)"
proof -
  have ids: "\<And>i nm. get_nm t i = Some nm \<Longrightarrow> nm_id nm = i" using assms by (simp add: tb_wf_def slots_wf_def)
  have "i \<in> set (not_entrant_ids t) \<longleftrightarrow> (\<exists>nm. nm \<in> set (all_nms t) \<and> nm_state nm = NotEntrant \<and> nm_id nm = i)"
    by (auto simp: not_entrant_ids_def)
  also have "\<dots> \<longleftrightarrow> map_option nm_state (get_nm t i) = Some NotEntrant" unfolding all_nms_set using ids by (auto dest: ids)
  finally show "i \<in> set (not_entrant_ids t) \<longleftrightarrow> map_option nm_state (get_nm t i) = Some NotEntrant" .
  show "distinct (not_entrant_ids t)" using distinct_ids [OF assms] by (simp add: not_entrant_ids_def distinct_map inj_on_def)
qed

text \<open>
  C29. The zombie sweep frees exactly the dead retired code. It succeeds and keeps the invariant; an nmethod
  disappears exactly when it is not entrant and no compiled frame and no pending deoptimization refers to it, every other keeps its
  state; the poll flags are cleared exactly when there was retired code and none is left, and nothing
  else about frames, pending deoptimizations or lookup changes.
\<close>
theorem zombie_sweep_exact:
  assumes "flush_ok vm hs"
  shows "\<exists>vm' hs'. sweep_not_entrant_zombies vm = Some vm' \<and> flush_ok vm' hs' \<and>
    (\<forall>j. map_option nm_state (get_nm (jv_table vm') j) =
       (if map_option nm_state (get_nm (jv_table vm) j) = Some NotEntrant \<and> j \<notin> referenced_nms vm then None
        else map_option nm_state (get_nm (jv_table vm) j))) \<and>
    (if not_entrant_ids (jv_table vm) \<noteq> [] \<and> set (not_entrant_ids (jv_table vm)) \<inter> referenced_nms vm = {}
     then \<not> jv_pending_deopt_flag vm' \<and> jv_poll_flag vm' = 0
     else jv_pending_deopt_flag vm' = jv_pending_deopt_flag vm \<and> jv_poll_flag vm' = jv_poll_flag vm) \<and>
    jv_frames vm' = jv_frames vm \<and> jv_stack vm' = jv_stack vm \<and> jv_pending_deopts vm' = jv_pending_deopts vm \<and> jv_lookup vm' = jv_lookup vm"
proof -
  let ?c = "not_entrant_ids (jv_table vm)" and ?v = "filter (\<lambda>i. i \<notin> referenced_nms vm) (not_entrant_ids (jv_table vm))"
  have wf: "tb_wf (jv_table vm)" by (rule flush_okD(1) [OF assms])
  note ne = not_entrant_ids_set [OF wf]
  have "\<forall>i \<in> set ?v. get_nm (jv_table vm) i \<noteq> None" using ne(1) by auto
  then obtain vm1 hs1 where vm1: "flush_all ?v vm = Some vm1" "flush_ok vm1 hs1" "same_rest vm vm1"
    and st: "\<And>j. map_option nm_state (get_nm (jv_table vm1) j) = (if j \<in> set ?v then None else map_option nm_state (get_nm (jv_table vm) j))"
    using flush_all_spec [OF assms, of ?v] ne(2) by auto
  have "set (not_entrant_ids (jv_table vm1)) = set ?c \<inter> referenced_nms vm"
  proof (rule set_eqI)
    fix j
    note n1 = not_entrant_ids_set(1) [OF flush_okD(1) [OF vm1(2)], of j]
    show "j \<in> set (not_entrant_ids (jv_table vm1)) \<longleftrightarrow> j \<in> set ?c \<inter> referenced_nms vm"
    proof (cases "j \<in> set ?v")
      case True
      then show ?thesis unfolding n1 st by simp
    next
      case False
      have "map_option nm_state (get_nm (jv_table vm1) j) = map_option nm_state (get_nm (jv_table vm) j)" unfolding st using False by (simp only: if_False)
      then have "j \<in> set (not_entrant_ids (jv_table vm1)) \<longleftrightarrow> j \<in> set ?c" using n1 ne(1) [of j] by (simp only:)
      then show ?thesis using False by auto
    qed
  qed
  then have left: "not_entrant_ids (jv_table vm1) = [] \<longleftrightarrow> set ?c \<inter> referenced_nms vm = {}" by (metis set_empty)
  let ?vm2 = "vm1\<lparr>jv_pending_deopt_flag := False, jv_poll_flag := 0\<rparr>"
  have "alive_in ?vm2 = alive_in vm1" "sites_ok ?vm2 = sites_ok vm1" by (simp_all add: alive_in_def sites_ok_def call_site_ok_def fun_eq_iff)
  moreover from this have "pic_site ?vm2 = pic_site vm1" by (simp add: pic_site_def fun_eq_iff)
  ultimately have ok2: "flush_ok ?vm2 hs1" using vm1(2) by (simp add: flush_ok_def)
  show ?thesis
  proof (cases "?c = []")
    case True
    then have "map_option nm_state (get_nm (jv_table vm) j) \<noteq> Some NotEntrant" for j using ne(1) [of j] by simp
    then show ?thesis using True assms by (auto simp: sweep_not_entrant_zombies_def)
  next
    case False
    have st': "map_option nm_state (get_nm (jv_table vm1) j) = (if map_option nm_state (get_nm (jv_table vm) j) = Some NotEntrant \<and> j \<notin> referenced_nms vm then None
        else map_option nm_state (get_nm (jv_table vm) j))" for j using st [of j] ne(1) [of j] by simp
    have "sweep_not_entrant_zombies vm = Some (if set ?c \<inter> referenced_nms vm = {} then ?vm2 else vm1)"
      using False vm1(1) left by (simp add: sweep_not_entrant_zombies_def)
    then show ?thesis using False vm1(2,3) ok2 st' by (auto simp: same_rest_def)
  qed
qed


text \<open>
  C30. Flushing does not look at retired callers. The call sites and the code bytes of every nmethod that is not alive
  are left as they are, although a retired nmethod with a frame on the stack keeps running: a call in it that enters the
  flushed code still goes there after the block has been freed.
\<close>
theorem flush_skips_retired_callers:
  assumes ok: "flush_ok vm hs" and nm: "get_nm (jv_table vm) i = Some nm" and a: "get_nm (jv_table vm) j = Some a" "nm_state a \<noteq> Alive" "j \<noteq> i"
  shows "\<exists>vm' hs'. flush_nmethod i vm = Some vm' \<and> get_nm (jv_table vm') j = Some a \<and> (\<forall>x. in_code a x \<longrightarrow> jv_mem vm' x = jv_mem vm x) \<and>
    cc_reach (jv_cache vm') hs' \<and> nm_code nm \<notin> set hs' \<and> jv_frames vm' = jv_frames vm"
proof -
  obtain vm' hs' where f: "flush_nmethod i vm = Some vm'" "flushed i nm vm vm'" "cc_reach (jv_cache vm') hs'"
    "set hs' = set hs - {s. \<exists>jk \<in> entering_sites vm i nm. pic_site vm jk s} - {nm_code nm}"
    using flush_effect [OF ok nm] by blast
  have "(j, k) \<notin> entering_sites vm i nm" for k using a by (auto simp: entering_sites_def alive_in_def)
  then have "reset_sites (entering_sites vm i nm) j a = a" by (simp add: reset_sites_def map_nth)
  then have get: "get_nm (jv_table vm') j = Some a" using f(2) a by (simp add: flushed_def)
  have mem: "jv_mem vm' x = jv_mem vm x" if x: "in_code a x" for x
  proof -
    have "x \<le> nm_code_base b + site_ic_off (nm_ic_sites b ! k) \<or> nm_code_base b + site_ic_off (nm_ic_sites b ! k) + 5 \<le> x"
      if b: "(j', k) \<in> entering_sites vm i nm" "alive_in vm j' b" for j' k b
    proof -
      have "k < length (nm_ic_sites b)" using b by (auto simp: entering_sites_def alive_in_def)
      then have "site_ic_off (nm_ic_sites b ! k) + 5 \<le> nm_code_len b" using flush_okD(4) [OF ok b(2)] by (simp add: sites_ok_def call_site_ok_def)
      moreover have "get_nm (jv_table vm) j' = Some b" "j \<noteq> j'" using b(2) a(1,2) by (auto simp: alive_in_def)
      then have "\<not> in_code b x" using in_code_disjoint [OF flush_okD(1) [OF ok] a(1) _ _ x] by blast
      ultimately show ?thesis unfolding in_code_def by linarith
    qed
    then show ?thesis using f(2) unfolding flushed_def by blast
  qed
  have "jv_frames vm' = jv_frames vm" using f(2) by (simp add: flushed_def same_rest_def)
  then show ?thesis using f(1,3,4) get mem by (intro exI [of _ vm'] exI [of _ hs']) simp
qed


subsection \<open>Witnesses\<close>

text \<open>
  Three nmethods: \<open>0\<close> is retired; \<open>1\<close> is retired, has a frame and a call into \<open>0\<close>; \<open>2\<close> is alive and has a call into \<open>0\<close>.
\<close>

definition mono_site :: "nat \<Rightarrow> nat \<Rightarrow> ic_site" where
  "mono_site off target = \<lparr>site_ic_off = off, site_selector = 33, site_argc = 0, site_state = Mono 17 target, site_super_klass = None\<rparr>"

definition sweep_slots :: "nmethod option list" where
  "sweep_slots = [Some (demo_nm\<lparr>nm_state := NotEntrant\<rparr>),
     Some (demo_nm\<lparr>nm_id := 1, nm_code_base := 4160, nm_state := NotEntrant, nm_ic_sites := [mono_site 20 4112]\<rparr>),
     Some (demo_nm\<lparr>nm_id := 2, nm_code_base := 4224, nm_ic_sites := [mono_site 10 4096]\<rparr>)]"

definition sweep_table :: code_table where
  "sweep_table = new_table\<lparr>tb_slots := sweep_slots, tb_by_key := [(17, 33) \<mapsto> 2], tb_by_addr := [(4096, 0), (4160, 1), (4224, 2)]\<rparr>"

definition sweep_vm :: jit_vm where
  "sweep_vm = demo_jit\<lparr>jv_table := sweep_table, jv_frames := [FCompiled 1000 4190 1],
     jv_mem := write_bytes 4180 (0xE8 # le_bytes32 0xFFFFFFB7) (\<lambda>x. if x = 4234 then 0xE8 else 0x90),
     jv_cache := (new_code_cache 4096 65536)\<lparr>cc_top := 192\<rparr>\<rparr>"

lemma sweep_get: "get_nm (jv_table sweep_vm) i = (if i < 3 then sweep_slots ! i else None)"
  by (simp add: get_nm_eq sweep_vm_def sweep_table_def sweep_slots_def)

lemma less3: "(i :: nat) < 3 \<longleftrightarrow> i = 0 \<or> i = 1 \<or> i = 2"
  by auto

lemma sweep_cases: "get_nm (jv_table sweep_vm) i = Some a \<longleftrightarrow>
    i = 0 \<and> a = demo_nm\<lparr>nm_state := NotEntrant\<rparr> \<or>
    i = 1 \<and> a = demo_nm\<lparr>nm_id := 1, nm_code_base := 4160, nm_state := NotEntrant, nm_ic_sites := [mono_site 20 4112]\<rparr> \<or>
    i = 2 \<and> a = demo_nm\<lparr>nm_id := 2, nm_code_base := 4224, nm_ic_sites := [mono_site 10 4096]\<rparr>"
  unfolding sweep_get less3 by (auto simp: sweep_slots_def)

lemma sweep_cache: "cc_reach (jv_cache sweep_vm) [\<lparr>ch_base = 4224, ch_len = 64\<rparr>, \<lparr>ch_base = 4160, ch_len = 64\<rparr>, \<lparr>ch_base = 4096, ch_len = 64\<rparr>]"
proof -
  let ?c = "\<lambda>n. (new_code_cache 4096 65536)\<lparr>cc_top := n\<rparr>"
  have al: "cc_alloc 64 (?c n) = Some (\<lparr>ch_base = 4096 + n, ch_len = 64\<rparr>, ?c (n + 64))" if "n \<le> 128" for n
    using that by (simp add: cc_alloc_def new_code_cache_def round_up16_def USIZE_LIMIT_def)
  have "?c 0 = new_code_cache 4096 65536" by (simp add: new_code_cache_def)
  then have "cc_reach (?c 0) []" using cc_start [of 4096 65536] by simp
  from cc_take [OF this _ al [of 0]] have "cc_reach (?c 64) [\<lparr>ch_base = 4096, ch_len = 64\<rparr>]" by simp
  from cc_take [OF this _ al [of 64]] have "cc_reach (?c 128) [\<lparr>ch_base = 4160, ch_len = 64\<rparr>, \<lparr>ch_base = 4096, ch_len = 64\<rparr>]" by simp
  from cc_take [OF this _ al [of 128]]
  have "cc_reach (?c 192) [\<lparr>ch_base = 4224, ch_len = 64\<rparr>, \<lparr>ch_base = 4160, ch_len = 64\<rparr>, \<lparr>ch_base = 4096, ch_len = 64\<rparr>]" by simp
  then show ?thesis by (simp add: sweep_vm_def)
qed

lemma sweep_wf: "tb_wf (jv_table sweep_vm)"
proof -
  have "slots_wf (jv_table sweep_vm)" unfolding slots_wf_def sweep_cases by (auto simp: demo_nm_def disjoint_code_def)
  moreover have "indexes_wf (jv_table sweep_vm)" unfolding indexes_wf_def names_alive_def sweep_cases
    by (auto simp: sweep_vm_def sweep_table_def new_table_def keyed_def nm_key_def demo_nm_def split: if_splits)
  moreover have base: "nm_code_base demo_nm = 4096" by (simp add: demo_nm_def)
  have addr: "tb_by_addr (jv_table sweep_vm) = [(4096, 0), (4160, 1), (4224, 2)]" by (simp add: sweep_vm_def sweep_table_def)
  have "(b, i) \<in> {(4096, 0), (4160, 1), (4224, 2)} \<longleftrightarrow> (\<exists>nm. get_nm (jv_table sweep_vm) i = Some nm \<and> nm_code_base nm = b)" for b i
    unfolding sweep_cases conj_disj_distribR ex_disj_distrib by (auto simp: base)
  then have "addrs_wf (jv_table sweep_vm)" unfolding addrs_wf_def addr by simp
  ultimately show ?thesis by (simp add: tb_wf_def)
qed

lemma sweep_mem: "jv_mem sweep_vm 4234 = 0xE8" "branch_dest 0xE8 4180 (jv_mem sweep_vm) = Some 4112"
  by (simp_all add: sweep_vm_def le_bytes32_def branch_dest_def read_le32_def)

lemma sweep_ok: "flush_ok sweep_vm [\<lparr>ch_base = 4224, ch_len = 64\<rparr>, \<lparr>ch_base = 4160, ch_len = 64\<rparr>, \<lparr>ch_base = 4096, ch_len = 64\<rparr>]"
proof -
  have al: "alive_in sweep_vm i a \<longleftrightarrow> i = 2 \<and> a = demo_nm\<lparr>nm_id := 2, nm_code_base := 4224, nm_ic_sites := [mono_site 10 4096]\<rparr>" for i a
    unfolding alive_in_def sweep_cases by (auto simp: demo_nm_def)
  have "jv_resolve_addr sweep_vm = 65700" by (simp add: sweep_vm_def demo_jit_def)
  then have "sites_ok sweep_vm a" if "alive_in sweep_vm i a" for i a
    using that sweep_mem(1) unfolding al by (simp add: sites_ok_def call_site_ok_def pics_known_def mono_site_def demo_nm_def disp32_def)
  moreover have "\<not> pic_site sweep_vm ik s" for ik s unfolding pic_site_def al by (auto simp: mono_site_def)
  moreover have "nm_code a \<in> set [\<lparr>ch_base = 4224, ch_len = 64\<rparr>, \<lparr>ch_base = 4160, ch_len = 64\<rparr>, \<lparr>ch_base = 4096, ch_len = 64\<rparr>]"
    if "get_nm (jv_table sweep_vm) i = Some a" for i a using that unfolding sweep_cases by (auto simp: nm_code_def demo_nm_def)
  ultimately show ?thesis using sweep_wf sweep_cache unfolding flush_ok_def by blast
qed


theorem flush_sound_witness:
  "\<exists>vm'. flush_nmethod 0 sweep_vm = Some vm' \<and> get_nm (jv_table vm') 0 = None \<and> find_by_pc (jv_table vm') 4100 = None \<and>
     (\<exists>b. alive_in vm' 2 b \<and> site_state (nm_ic_sites b ! 0) = Unresolved) \<and>
     branch_dest 0xE8 4234 (jv_mem vm') = Some 65700"
proof -
  let ?nm = "demo_nm\<lparr>nm_state := NotEntrant\<rparr>" and ?a = "demo_nm\<lparr>nm_id := 2, nm_code_base := 4224, nm_ic_sites := [mono_site 10 4096]\<rparr>"
  have nm: "get_nm (jv_table sweep_vm) 0 = Some ?nm" unfolding sweep_cases by simp
  have al: "alive_in sweep_vm 2 ?a \<and> 2 \<noteq> (0 :: nat)" unfolding alive_in_def sweep_cases by (simp add: demo_nm_def)
  have e: "enters (jv_pics sweep_vm) ?nm (nm_ic_sites ?a ! 0)" by (simp add: enters_def mono_site_def in_code_def demo_nm_def)
  have pc: "in_code ?nm 4100" by (simp add: in_code_def demo_nm_def)
  have r: "jv_resolve_addr sweep_vm = 65700" by (simp add: sweep_vm_def demo_jit_def)
  obtain vm' where vm': "flush_nmethod 0 sweep_vm = Some vm'" "get_nm (jv_table vm') 0 = None"
    "\<forall>pc. in_code ?nm pc \<longrightarrow> find_by_pc (jv_table vm') pc = None"
    "\<exists>b. alive_in vm' 2 b \<and> length (nm_ic_sites b) = length (nm_ic_sites ?a) \<and> (\<forall>k < length (nm_ic_sites ?a).
          if enters (jv_pics sweep_vm) ?nm (nm_ic_sites ?a ! k)
          then site_state (nm_ic_sites b ! k) = Unresolved \<and>
            branch_dest 0xE8 (nm_code_base ?a + site_ic_off (nm_ic_sites ?a ! k)) (jv_mem vm') = Some (int (jv_resolve_addr sweep_vm))
          else nm_ic_sites b ! k = nm_ic_sites ?a ! k \<and>
            branch_dest 0xE8 (nm_code_base ?a + site_ic_off (nm_ic_sites ?a ! k)) (jv_mem vm') =
            branch_dest 0xE8 (nm_code_base ?a + site_ic_off (nm_ic_sites ?a ! k)) (jv_mem sweep_vm))"
    using flush_sound [OF sweep_ok nm] al by (elim exE conjE) (rule that; blast)
  then obtain b where "alive_in vm' 2 b" "site_state (nm_ic_sites b ! 0) = Unresolved"
    "branch_dest 0xE8 (nm_code_base ?a + site_ic_off (nm_ic_sites ?a ! 0)) (jv_mem vm') = Some (int (jv_resolve_addr sweep_vm))"
    using e by auto
  then show ?thesis using vm'(1-3) pc r by (auto simp: mono_site_def)
qed

theorem zombie_sweep_exact_witness:
  "\<exists>vm'. sweep_not_entrant_zombies sweep_vm = Some vm' \<and> map_option nm_state (get_nm (jv_table vm') 0) = None \<and>
     map_option nm_state (get_nm (jv_table vm') 1) = Some NotEntrant \<and> map_option nm_state (get_nm (jv_table vm') 2) = Some Alive"
proof -
  have st: "map_option nm_state (get_nm (jv_table sweep_vm) 0) = Some NotEntrant" "map_option nm_state (get_nm (jv_table sweep_vm) 1) = Some NotEntrant"
    "map_option nm_state (get_nm (jv_table sweep_vm) 2) = Some Alive" by (simp_all add: sweep_get sweep_slots_def demo_nm_def)
  have "referenced_nms sweep_vm = {1}" by (auto simp: referenced_nms_def sweep_vm_def demo_jit_def)
  then have ref: "0 \<notin> referenced_nms sweep_vm" "1 \<in> referenced_nms sweep_vm" by simp_all
  obtain vm' where vm': "sweep_not_entrant_zombies sweep_vm = Some vm'"
    and s: "\<forall>j. map_option nm_state (get_nm (jv_table vm') j) =
       (if map_option nm_state (get_nm (jv_table sweep_vm) j) = Some NotEntrant \<and> j \<notin> referenced_nms sweep_vm then None
        else map_option nm_state (get_nm (jv_table sweep_vm) j))"
    using zombie_sweep_exact [OF sweep_ok] by (elim exE conjE) (rule that; assumption)
  have "map_option nm_state (get_nm (jv_table vm') 0) = None" "map_option nm_state (get_nm (jv_table vm') 1) = Some NotEntrant"
    "map_option nm_state (get_nm (jv_table vm') 2) = Some Alive"
    using s [rule_format, of 0] s [rule_format, of 1] s [rule_format, of 2] unfolding st using ref by simp_all
  with vm' show ?thesis by blast
qed

theorem flush_skips_retired_callers_witness:
  "\<exists>vm' hs'. flush_nmethod 0 sweep_vm = Some vm' \<and> FCompiled 1000 4190 1 \<in> set (jv_frames vm') \<and>
     branch_dest 0xE8 4180 (jv_mem vm') = Some 4112 \<and> cc_reach (jv_cache vm') hs' \<and> \<lparr>ch_base = 4096, ch_len = 64\<rparr> \<notin> set hs'"
proof -
  let ?nm = "demo_nm\<lparr>nm_state := NotEntrant\<rparr>"
  let ?a = "demo_nm\<lparr>nm_id := 1, nm_code_base := 4160, nm_state := NotEntrant, nm_ic_sites := [mono_site 20 4112]\<rparr>"
  have nm: "get_nm (jv_table sweep_vm) 0 = Some ?nm" and a: "get_nm (jv_table sweep_vm) 1 = Some ?a" unfolding sweep_cases by simp_all
  obtain vm' hs' where vm': "flush_nmethod 0 sweep_vm = Some vm'" "\<forall>x. in_code ?a x \<longrightarrow> jv_mem vm' x = jv_mem sweep_vm x"
    "cc_reach (jv_cache vm') hs'" "nm_code ?nm \<notin> set hs'" "jv_frames vm' = jv_frames sweep_vm"
    using flush_skips_retired_callers [OF sweep_ok nm a] by auto
  have "in_code ?a x \<longleftrightarrow> 4160 \<le> x \<and> x < 4224" for x by (simp add: in_code_def demo_nm_def)
  then have "branch_dest 0xE8 4180 (jv_mem vm') = branch_dest 0xE8 4180 (jv_mem sweep_vm)" using vm'(2) by (intro branch_dest_cong) simp
  then show ?thesis using vm' sweep_mem(2) by (auto simp: nm_code_def demo_nm_def sweep_vm_def)
qed

end
