(* ===== verification/Lexer.thy ===== *)
theory Lexer
  imports Winvm_Prelude
begin

text \<open>
  The lexer (\<open>src/src/frontend/lexer.rs\<close>). A character is its Unicode scalar value (an \<^typ>\<open>int\<close>), a text a list of them; radixes, scales and
  bytes are \<^typ>\<open>int\<close> in the range the code checks.
  The state keeps the unread rest of the input beside the byte position; line, column and position are
  \<^typ>\<open>nat\<close> (a \<open>u32\<close> column would need a line of four gigabytes to wrap). A float token keeps the decimal text that \<open>lex_number\<close>
  hands to \<open>f64::from_str\<close>, which accepts every such text; its rounding is not modelled. A fallible operation
  returns a sum, the error on the left.
\<close>

type_synonym uchar = int
type_synonym utext = "uchar list"

abbreviation uc :: "char \<Rightarrow> uchar" where "uc \<equiv> of_char"

definition ustr :: "string \<Rightarrow> utext" where
  "ustr s = map of_char s"

definition rbind :: "'e + 'a \<Rightarrow> ('a \<Rightarrow> 'e + 'b) \<Rightarrow> 'e + 'b" where
  "rbind m f = (case m of Inl e \<Rightarrow> Inl e | Inr x \<Rightarrow> f x)"

lemma rbind_simps [simp]: "rbind (Inl e) f = Inl e" "rbind (Inr x) f = f x"
  by (simp_all add: rbind_def)

lemma rbind_Inr: "rbind m f = Inr y \<longleftrightarrow> (\<exists>x. m = Inr x \<and> f x = Inr y)"
  by (cases m) simp_all

subsection \<open>Characters\<close>

definition is_ascii_digit :: "uchar \<Rightarrow> bool" where "is_ascii_digit c \<longleftrightarrow> 48 \<le> c \<and> c \<le> 57"
definition is_ascii_uppercase :: "uchar \<Rightarrow> bool" where "is_ascii_uppercase c \<longleftrightarrow> 65 \<le> c \<and> c \<le> 90"
definition is_ascii_lowercase :: "uchar \<Rightarrow> bool" where "is_ascii_lowercase c \<longleftrightarrow> 97 \<le> c \<and> c \<le> 122"
definition is_ascii_alphabetic :: "uchar \<Rightarrow> bool" where "is_ascii_alphabetic c \<longleftrightarrow> is_ascii_uppercase c \<or> is_ascii_lowercase c"

text \<open>\<open>char::is_whitespace\<close> is Unicode's \<open>White_Space\<close>.\<close>

definition is_whitespace :: "uchar \<Rightarrow> bool" where
  "is_whitespace c \<longleftrightarrow> 9 \<le> c \<and> c \<le> 13 \<or> c = 32 \<or> c = 0x85 \<or> c = 0xA0 \<or> c = 0x1680 \<or> 0x2000 \<le> c \<and> c \<le> 0x200A \<or>
     c = 0x2028 \<or> c = 0x2029 \<or> c = 0x202F \<or> c = 0x205F \<or> c = 0x3000"

definition len_utf8 :: "uchar \<Rightarrow> nat" where
  "len_utf8 c = (if c < 0x80 then 1 else if c < 0x800 then 2 else if c < 0x10000 then 3 else 4)"

definition to_digit36 :: "uchar \<Rightarrow> int option" where
  "to_digit36 c = (if is_ascii_digit c then Some (c - 48) else if is_ascii_uppercase c then Some (c - 55)
     else if is_ascii_lowercase c then Some (c - 87) else None)"

definition to_ascii_lowercase :: "uchar \<Rightarrow> uchar" where
  "to_ascii_lowercase c = (if is_ascii_uppercase c then c + 32 else c)"

text \<open>\<open>str::parse\<close> at \<open>u32\<close>, on a text of digits.\<close>

definition decimal_value :: "utext \<Rightarrow> int" where
  "decimal_value s = foldl (\<lambda>a c. 10 * a + (c - 48)) 0 s"

definition parse_u32 :: "utext \<Rightarrow> int option" where
  "parse_u32 s = (if s \<noteq> [] \<and> list_all is_ascii_digit s \<and> decimal_value s < 2 ^ 32 then Some (decimal_value s) else None)"

function dec :: "int \<Rightarrow> utext" where
  "dec n = (if n < 10 then [48 + n] else dec (n div 10) @ [48 + n mod 10])"
  by pat_completeness auto
termination by (relation "measure nat") auto

declare dec.simps [simp del]

definition BINARY_CHARS :: utext where
  "BINARY_CHARS = ustr ''+-*/'' @ [92] @ ustr ''~<>=&|@%,?!''"

definition is_binary_char :: "uchar \<Rightarrow> bool" where
  "is_binary_char c \<longleftrightarrow> c \<in> set BINARY_CHARS"

definition is_ident_start :: "uchar \<Rightarrow> bool" where
  "is_ident_start c \<longleftrightarrow> is_ascii_alphabetic c \<or> c = uc CHR ''_''"

definition is_ident_cont :: "uchar \<Rightarrow> bool" where
  "is_ident_cont c \<longleftrightarrow> is_ascii_alphabetic c \<or> is_ascii_digit c \<or> c = uc CHR ''_''"

subsection \<open>Tokens\<close>

record src_span =
  sp_line :: nat
  sp_col :: nat

datatype tok =
    Ident utext
  | Keyword utext
  | BinarySel utext
  | IntLit (il_negative: bool) (il_radix: int) (il_digits: utext)
  | ScaledLit (sl_negative: bool) (sl_int_digits: utext) (sl_frac_digits: utext) (sl_scale: int)
  | FloatLit bool utext
  | CharLit uchar
  | StrLit utext
  | SymLit utext
  | LitArrayOpen | ByteArrayOpen | LParen | RParen | LBracket | RBracket | LBrace | RBrace
  | VBar | Semi | Period | Caret | Assign | Colon | Eof

record lex_error =
  le_span :: src_span
  le_msg :: utext
  le_eof :: bool

fun tok_ends_expr :: "tok \<Rightarrow> bool" where
  "tok_ends_expr (Ident _) = True"
| "tok_ends_expr (IntLit _ _ _) = True"
| "tok_ends_expr (ScaledLit _ _ _ _) = True"
| "tok_ends_expr (FloatLit _ _) = True"
| "tok_ends_expr (CharLit _) = True"
| "tok_ends_expr (StrLit _) = True"
| "tok_ends_expr (SymLit _) = True"
| "tok_ends_expr RParen = True"
| "tok_ends_expr RBracket = True"
| "tok_ends_expr RBrace = True"
| "tok_ends_expr _ = False"

subsection \<open>State\<close>

record lexer =
  lx_rest :: utext
  lx_pos :: nat
  lx_line :: nat
  lx_col :: nat
  prev_ends_expr :: bool
  pragma_mode :: bool
  in_literal_seq :: bool

definition new_lexer :: "utext \<Rightarrow> lexer" where
  "new_lexer input = \<lparr>lx_rest = input, lx_pos = 0, lx_line = 1, lx_col = 1, prev_ends_expr = False, pragma_mode = False, in_literal_seq = False\<rparr>"

definition set_pragma_mode :: "bool \<Rightarrow> lexer \<Rightarrow> lexer" where
  "set_pragma_mode v lx = lx\<lparr>pragma_mode := v\<rparr>"

definition set_in_literal_seq :: "bool \<Rightarrow> lexer \<Rightarrow> lexer" where
  "set_in_literal_seq v lx = lx\<lparr>in_literal_seq := v\<rparr>"

definition peek_char_at :: "nat \<Rightarrow> lexer \<Rightarrow> uchar option" where
  "peek_char_at n lx = slice_get (lx_rest lx) n"

definition peek_char :: "lexer \<Rightarrow> uchar option" where
  "peek_char lx = peek_char_at 0 lx"

definition lx_here :: "lexer \<Rightarrow> src_span" where
  "lx_here lx = \<lparr>sp_line = lx_line lx, sp_col = lx_col lx\<rparr>"

definition lx_bump :: "lexer \<Rightarrow> uchar option \<times> lexer" where
  "lx_bump lx = (case lx_rest lx of
       [] \<Rightarrow> (None, lx)
     | c # cs \<Rightarrow> (Some c, lx\<lparr>lx_rest := cs, lx_pos := lx_pos lx + len_utf8 c,
           lx_line := (if c = 10 then lx_line lx + 1 else lx_line lx),
           lx_col := (if c = 10 then 1 else lx_col lx + len_utf8 c)\<rparr>))"

abbreviation skip :: "lexer \<Rightarrow> lexer" where "skip lx \<equiv> snd (lx_bump lx)"

definition lex_err :: "src_span \<Rightarrow> utext \<Rightarrow> lex_error" where
  "lex_err s m = \<lparr>le_span = s, le_msg = m, le_eof = False\<rparr>"

definition lex_err_eof :: "src_span \<Rightarrow> utext \<Rightarrow> lex_error" where
  "lex_err_eof s m = \<lparr>le_span = s, le_msg = m, le_eof = True\<rparr>"

type_synonym 'a lexed = "lex_error + 'a \<times> lexer"

lemma lx_bump_length: "lx_rest lx = c # cs \<Longrightarrow> lx_rest (skip lx) = cs"
  by (simp add: lx_bump_def)

lemma lx_bump_le: "length (lx_rest (skip lx)) = length (lx_rest lx) - 1"
  by (simp add: lx_bump_def split: list.split)

subsection \<open>Trivia\<close>

text \<open>The inner loop, after the opening quote; \<open>None\<close> when the input ends in the comment.\<close>

function comment_loop :: "lexer \<Rightarrow> lexer option" where
  "comment_loop lx =
     (case lx_bump lx of
        (None, _) \<Rightarrow> None
      | (Some c, lx') \<Rightarrow>
          if c = uc CHR 0x22 then (if peek_char lx' = Some (uc CHR 0x22) then comment_loop (skip lx') else Some lx')
          else comment_loop lx')"
  by pat_completeness auto
termination by (relation "measure (\<lambda>lx. length (lx_rest lx))") (auto simp: lx_bump_def split: list.splits)

declare comment_loop.simps [simp del]

lemma comment_loop_shorter: "comment_loop lx = Some lx' \<Longrightarrow> length (lx_rest lx') < length (lx_rest lx)"
proof (induction lx rule: comment_loop.induct)
  case (1 lx)
  show ?case
  proof (cases "lx_rest lx")
    case Nil
    then show ?thesis using 1(3) by (subst (asm) comment_loop.simps) (simp add: lx_bump_def)
  next
    case (Cons c cs)
    obtain lx1 where b: "lx_bump lx = (Some c, lx1)" "lx_rest lx1 = cs" using Cons by (simp add: lx_bump_def)
    have "length (lx_rest (skip lx1)) \<le> length cs" using lx_bump_le [of lx1] b(2) by simp
    then show ?thesis using 1(1) [OF b(1) [symmetric] refl] 1(2) [OF b(1) [symmetric] refl] 1(3) b(2) Cons
      by (subst (asm) comment_loop.simps) (auto simp: b(1) split: if_splits)
  qed
qed

function skip_trivia :: "lexer \<Rightarrow> lex_error + lexer" where
  "skip_trivia lx =
     (case peek_char lx of
        None \<Rightarrow> Inr lx
      | Some c \<Rightarrow>
          if is_whitespace c then skip_trivia (skip lx)
          else if c = uc CHR 0x22 then
            (case comment_loop (skip lx) of
               None \<Rightarrow> Inl (lex_err_eof (lx_here lx) (ustr ''unterminated comment''))
             | Some lx' \<Rightarrow> skip_trivia lx')
          else Inr lx)"
  by pat_completeness auto
termination
proof (relation "measure (\<lambda>lx. length (lx_rest lx))", goal_cases)
  case (2 lx c)
  then show ?case by (auto simp: peek_char_def peek_char_at_def slice_get_def lx_bump_le split: if_splits)
next
  case (3 lx c lx')
  then show ?case using comment_loop_shorter [of "skip lx" lx'] by (simp add: lx_bump_le)
qed simp

declare skip_trivia.simps [simp del]

function consume_while :: "(uchar \<Rightarrow> bool) \<Rightarrow> lexer \<Rightarrow> utext \<times> lexer" where
  "consume_while pred lx =
     (case peek_char lx of
        None \<Rightarrow> ([], lx)
      | Some c \<Rightarrow> if pred c then (let (s, lx') = consume_while pred (skip lx) in (c # s, lx')) else ([], lx))"
  by pat_completeness auto
termination by (relation "measure (\<lambda>(_, lx). length (lx_rest lx))")
    (auto simp: peek_char_def peek_char_at_def slice_get_def lx_bump_le split: if_splits)

declare consume_while.simps [simp del]


lemma peek_char_None: "peek_char lx = None \<longleftrightarrow> lx_rest lx = []"
  by (simp add: peek_char_def peek_char_at_def slice_get_def)

lemma peek_char_Some: "peek_char lx = Some c \<longleftrightarrow> (\<exists>cs. lx_rest lx = c # cs)"
  by (cases "lx_rest lx") (auto simp: peek_char_def peek_char_at_def slice_get_def)

lemma consume_while_le: "length (lx_rest (snd (consume_while pred lx))) \<le> length (lx_rest lx)"
proof (induction pred lx rule: consume_while.induct)
  case (1 pred lx)
  show ?case
  proof (cases "peek_char lx")
    case (Some c)
    then show ?thesis using 1 [OF Some] lx_bump_le [of lx]
      by (subst consume_while.simps) (auto simp: case_prod_beta Let_def)
  qed (subst consume_while.simps, simp)
qed

subsection \<open>Identifiers and numbers\<close>

definition lex_ident_or_keyword :: "lexer \<Rightarrow> tok \<times> lexer" where
  "lex_ident_or_keyword lx =
     (let (ident, lx) = consume_while is_ident_cont lx
      in if peek_char lx = Some (uc CHR '':'') \<and> peek_char_at 1 lx \<noteq> Some (uc CHR ''='')
         then (Keyword (ident @ [uc CHR '':'']), skip lx)
         else (Ident ident, lx))"

definition consume_radix_digit_run :: "lexer \<Rightarrow> utext \<times> lexer" where
  "consume_radix_digit_run lx = consume_while (\<lambda>c. is_ascii_digit c \<or> is_ascii_uppercase c) lx"

definition some_digit :: "uchar option \<Rightarrow> bool" where
  "some_digit oc \<longleftrightarrow> (case oc of Some c \<Rightarrow> is_ascii_digit c | None \<Rightarrow> False)"

definition try_consume_exponent :: "lexer \<Rightarrow> (uchar \<times> bool \<times> utext) option \<times> lexer" where
  "try_consume_exponent lx =
     (case peek_char lx of
        None \<Rightarrow> (None, lx)
      | Some c \<Rightarrow>
          if c \<notin> set (ustr ''eEdD'') then (None, lx)
          else
            let marker = to_ascii_lowercase c;
                neg = (peek_char_at 1 lx = Some (uc CHR ''-''));
                first_digit_offset = (if neg then 2 else 1)
            in if \<not> some_digit (peek_char_at first_digit_offset lx) then (None, lx)
               else
                 let lx = skip lx;
                     lx = (if neg then skip lx else lx);
                     (digits, lx) = consume_while is_ascii_digit lx
                 in (Some (marker, neg, digits), lx))"

definition try_consume_scale :: "int \<Rightarrow> src_span \<Rightarrow> lexer \<Rightarrow> int option lexed" where
  "try_consume_scale dflt start lx =
     (if peek_char lx \<noteq> Some (uc CHR ''s'') then Inr (None, lx)
      else case peek_char_at 1 lx of
        Some c \<Rightarrow>
          if is_ascii_digit c then
            (let (digits, lx) = consume_while is_ascii_digit (skip lx)
             in case parse_u32 digits of
                  None \<Rightarrow> Inl (lex_err start (ustr ''scaled-decimal scale too large''))
                | Some scale \<Rightarrow>
                    if scale > 0xFFFF then Inl (lex_err start (ustr ''scaled-decimal scale too large''))
                    else Inr (Some scale, lx))
          else if is_ident_cont c \<or> c = uc CHR '':'' then Inr (None, lx)
          else Inr (Some dflt, skip lx)
      | None \<Rightarrow> Inr (Some dflt, skip lx))"

text \<open>The three exits of \<open>lex_number\<close>: radix, fraction and plain integer. In the error texts \<open>39\<close> is the quote.\<close>

definition bad_digit :: "int \<Rightarrow> uchar \<Rightarrow> bool" where
  "bad_digit radix c \<longleftrightarrow> (case to_digit36 c of Some d \<Rightarrow> radix \<le> d | None \<Rightarrow> True)"

definition lex_radix :: "bool \<Rightarrow> src_span \<Rightarrow> utext \<Rightarrow> lexer \<Rightarrow> tok lexed" where
  "lex_radix neg start lead lx =
     (let radix_val = (case parse_u32 lead of Some v \<Rightarrow> v | None \<Rightarrow> 0)
      in if \<not> (2 \<le> radix_val \<and> radix_val \<le> 36)
         then Inl (lex_err start (ustr ''radix '' @ dec radix_val @ ustr '' out of range 2..=36''))
         else
           let (rdigits, lx) = consume_radix_digit_run (skip lx)
           in if rdigits = [] then Inl (lex_err start (ustr ''radix literal has no digits after '' @ [39, uc CHR ''r'', 39]))
              else case find (bad_digit radix_val) rdigits of
                Some c \<Rightarrow> Inl (lex_err start (ustr ''digit '' @ [39, c, 39] @ ustr '' is not valid in radix '' @ dec radix_val))
              | None \<Rightarrow> Inr (IntLit neg radix_val rdigits, lx))"

definition exponent_text :: "bool \<Rightarrow> utext \<Rightarrow> utext" where
  "exponent_text neg digits = ustr ''e'' @ (if neg then ustr ''-'' else []) @ digits"

definition lex_fraction :: "bool \<Rightarrow> src_span \<Rightarrow> utext \<Rightarrow> lexer \<Rightarrow> tok lexed" where
  "lex_fraction neg start lead lx =
     (let (frac, lx) = consume_while is_ascii_digit (skip lx)
      in rbind (try_consume_scale (min (int (length frac)) 0xFFFF) start lx) (\<lambda>(scale, lx).
           case scale of
             Some sc \<Rightarrow> Inr (ScaledLit neg lead frac sc, lx)
           | None \<Rightarrow>
               let base = lead @ ustr ''.'' @ frac;
                   (e, lx) = try_consume_exponent lx;
                   full = (case e of Some (_, eneg, digits) \<Rightarrow> base @ exponent_text eneg digits | None \<Rightarrow> base)
               in Inr (FloatLit neg full, lx)))"

definition lex_integer :: "bool \<Rightarrow> src_span \<Rightarrow> utext \<Rightarrow> lexer \<Rightarrow> tok lexed" where
  "lex_integer neg start lead lx =
     rbind (try_consume_scale 0 start lx) (\<lambda>(scale, lx).
       case scale of
         Some sc \<Rightarrow> Inr (ScaledLit neg lead [] sc, lx)
       | None \<Rightarrow>
           let (e, lx) = try_consume_exponent lx
           in case e of
                Some (marker, eneg, exp_digits) \<Rightarrow>
                  if marker = uc CHR ''e'' \<and> \<not> eneg then
                    (case parse_u32 exp_digits of
                       None \<Rightarrow> Inl (lex_err start (ustr ''integer exponent too large''))
                     | Some ex \<Rightarrow>
                         if ex > 10000 then Inl (lex_err start (ustr ''integer exponent too large (limit 10000 digits)''))
                         else Inr (IntLit neg 10 (lead @ replicate (nat ex) (uc CHR ''0'')), lx))
                  else Inr (FloatLit neg (lead @ exponent_text eneg exp_digits), lx)
              | None \<Rightarrow> Inr (IntLit neg 10 lead, lx))"

definition lex_number :: "bool \<Rightarrow> src_span \<Rightarrow> lexer \<Rightarrow> tok lexed" where
  "lex_number neg start lx =
     (let (lead, lx) = consume_while is_ascii_digit lx
      in if peek_char lx = Some (uc CHR ''r'') then lex_radix neg start lead lx
         else if peek_char lx = Some (uc CHR ''.'') \<and> some_digit (peek_char_at 1 lx) then lex_fraction neg start lead lx
         else lex_integer neg start lead lx)"

subsection \<open>Quoted text, operators, symbols\<close>

definition lex_char_literal :: "src_span \<Rightarrow> lexer \<Rightarrow> tok lexed" where
  "lex_char_literal start lx =
     (case lx_bump (skip lx) of
        (Some c, lx) \<Rightarrow> Inr (CharLit c, lx)
      | (None, _) \<Rightarrow> Inl (lex_err_eof start ([39, uc CHR ''$'', 39] @ ustr '' at end of input'')))"

function string_loop :: "lexer \<Rightarrow> (utext \<times> lexer) option" where
  "string_loop lx =
     (case lx_bump lx of
        (None, _) \<Rightarrow> None
      | (Some c, lx') \<Rightarrow>
          if c = 39 then
            (if peek_char lx' = Some 39 then map_option (\<lambda>(s, lx). (39 # s, lx)) (string_loop (skip lx')) else Some ([], lx'))
          else map_option (\<lambda>(s, lx). (c # s, lx)) (string_loop lx'))"
  by pat_completeness auto
termination by (relation "measure (\<lambda>lx. length (lx_rest lx))") (auto simp: lx_bump_def split: list.splits)

declare string_loop.simps [simp del]

definition lex_quoted_text :: "src_span \<Rightarrow> lexer \<Rightarrow> utext lexed" where
  "lex_quoted_text start lx =
     (case string_loop (skip lx) of
        None \<Rightarrow> Inl (lex_err_eof start (ustr ''unterminated string''))
      | Some (s, lx) \<Rightarrow> Inr (s, lx))"

definition lex_string_literal :: "src_span \<Rightarrow> lexer \<Rightarrow> tok lexed" where
  "lex_string_literal start lx = rbind (lex_quoted_text start lx) (\<lambda>(s, lx). Inr (StrLit s, lx))"

definition binary_sel :: "uchar \<Rightarrow> lexer \<Rightarrow> utext \<times> lexer" where
  "binary_sel first lx =
     (let lx = skip lx;
          allow_merge = (\<not> (pragma_mode lx \<and> first = uc CHR ''>''))
      in if allow_merge then
           (case peek_char lx of
              Some c2 \<Rightarrow>
                let mergeable = (is_binary_char c2 \<and> c2 \<noteq> uc CHR ''|'');
                    steals_negative_literal = (c2 = uc CHR ''-'' \<and> some_digit (peek_char_at 1 lx))
                in if mergeable \<and> \<not> steals_negative_literal then ([first, c2], skip lx) else ([first], lx)
            | None \<Rightarrow> ([first], lx))
         else ([first], lx))"

definition lex_binary_sel :: "uchar \<Rightarrow> lexer \<Rightarrow> tok \<times> lexer" where
  "lex_binary_sel first lx = (let (s, lx) = binary_sel first lx in (BinarySel s, lx))"

function symbol_loop :: "lexer \<Rightarrow> utext \<times> lexer" where
  "symbol_loop lx =
     (let (part, lx1) = consume_while is_ident_cont lx
      in if peek_char lx1 = Some (uc CHR '':'')
         then (let lx2 = skip lx1
               in if (case peek_char lx2 of Some c \<Rightarrow> is_ident_start c | None \<Rightarrow> False)
                  then (let (s, lx3) = symbol_loop lx2 in (part @ uc CHR '':'' # s, lx3))
                  else (part @ [uc CHR '':''], lx2))
         else (part, lx1))"
  by pat_completeness auto
termination
proof (relation "measure (\<lambda>lx. length (lx_rest lx))", goal_cases)
  case (2 lx x part lx1 lx2)
  then have "lx1 = snd (consume_while is_ident_cont lx)" by (metis snd_conv)
  then have "length (lx_rest lx1) \<le> length (lx_rest lx)" using consume_while_le by simp
  moreover have "length (lx_rest (skip lx1)) < length (lx_rest lx1)" using 2(3) by (auto simp: peek_char_Some lx_bump_def)
  ultimately show ?case using 2(4) by simp
qed simp

declare symbol_loop.simps [simp del]

definition lex_hash :: "src_span \<Rightarrow> lexer \<Rightarrow> tok lexed" where
  "lex_hash start lx =
     (let lx = skip lx;
          invalid = lex_err start (ustr ''invalid '' @ [39, uc CHR ''#'', 39] @ ustr '' sequence'')
      in case peek_char lx of
           None \<Rightarrow> Inl invalid
         | Some c \<Rightarrow>
             if c = uc CHR ''('' then Inr (LitArrayOpen, skip lx)
             else if c = uc CHR ''['' then Inr (ByteArrayOpen, skip lx)
             else if c = 39 then rbind (lex_quoted_text start lx) (\<lambda>(s, lx). Inr (SymLit s, lx))
             else if is_ident_start c then (let (s, lx) = symbol_loop lx in Inr (SymLit s, lx))
             else if c = uc CHR ''|'' then Inr (SymLit (ustr ''|''), skip lx)
             else if is_binary_char c then (let (s, lx) = binary_sel c lx in Inr (SymLit s, lx))
             else Inl invalid)"

text \<open>The dispatch of \<open>next_token\<close> on the first character of a token.\<close>

definition lex_token :: "uchar \<Rightarrow> src_span \<Rightarrow> lexer \<Rightarrow> tok lexed" where
  "lex_token c start lx =
     (if is_ident_start c then Inr (lex_ident_or_keyword lx)
      else if is_ascii_digit c then lex_number False start lx
      else if c = uc CHR ''-'' then
        (let next_is_digit = some_digit (peek_char_at 1 lx);
             starts_negative = (next_is_digit \<and> (in_literal_seq lx \<or> \<not> prev_ends_expr lx))
         in if starts_negative then lex_number True start (skip lx) else Inr (lex_binary_sel (uc CHR ''-'') lx))
      else if c = uc CHR ''$'' then lex_char_literal start lx
      else if c = 39 then lex_string_literal start lx
      else if c = uc CHR ''#'' then lex_hash start lx
      else if c = uc CHR ''|'' then Inr (VBar, skip lx)
      else if c = uc CHR ''('' then Inr (LParen, skip lx)
      else if c = uc CHR '')'' then Inr (RParen, skip lx)
      else if c = uc CHR ''['' then Inr (LBracket, skip lx)
      else if c = uc CHR '']'' then Inr (RBracket, skip lx)
      else if c = uc CHR ''{'' then Inr (LBrace, skip lx)
      else if c = uc CHR ''}'' then Inr (RBrace, skip lx)
      else if c = uc CHR '';'' then Inr (Semi, skip lx)
      else if c = uc CHR ''.'' then Inr (Period, skip lx)
      else if c = uc CHR ''^'' then Inr (Caret, skip lx)
      else if c = uc CHR '':'' then
        (let lx = skip lx in if peek_char lx = Some (uc CHR ''='') then Inr (Assign, skip lx) else Inr (Colon, lx))
      else if is_binary_char c then Inr (lex_binary_sel c lx)
      else Inl (lex_err start (ustr ''unexpected character '' @ [39, c, 39])))"

definition next_token :: "lexer \<Rightarrow> (tok \<times> src_span) lexed" where
  "next_token lx =
     rbind (skip_trivia lx) (\<lambda>lx.
       let start = lx_here lx
       in case peek_char lx of
            None \<Rightarrow> Inr ((Eof, start), lx)
          | Some c \<Rightarrow> rbind (lex_token c start lx) (\<lambda>(t, lx). Inr ((t, start), lx\<lparr>prev_ends_expr := tok_ends_expr t\<rparr>)))"

text \<open>\<open>int_lit_magnitude\<close>: the inner loop over the bytes, then the carry.\<close>

fun mul_add :: "int \<Rightarrow> int \<Rightarrow> int list \<Rightarrow> int list \<times> int" where
  "mul_add radix carry [] = ([], carry)"
| "mul_add radix carry (b # bs) =
     (let v = b * radix + carry; (bs', c) = mul_add radix (v div 256) bs in (v mod 256 # bs', c))"

function push_carry :: "int \<Rightarrow> int list" where
  "push_carry carry = (if carry > 0 then carry mod 256 # push_carry (carry div 256) else [])"
  by pat_completeness auto
termination by (relation "measure nat") auto

declare push_carry.simps [simp del]

fun magnitude_loop :: "int \<Rightarrow> int list \<Rightarrow> utext \<Rightarrow> int list option" where
  "magnitude_loop radix mag [] = Some mag"
| "magnitude_loop radix mag (c # cs) = do {
     d \<leftarrow> to_digit36 c;
     let (mag, carry) = mul_add radix d mag;
     magnitude_loop radix (mag @ push_carry carry) cs
   }"

definition int_lit_magnitude :: "int \<Rightarrow> utext \<Rightarrow> int list option" where
  "int_lit_magnitude radix digits = magnitude_loop radix [] digits"


subsection \<open>Only whole characters are read\<close>

text \<open>Every operation moves the lexer by single steps of \<open>bump\<close>; \<open>skips\<close> is that relation.\<close>

definition skips :: "lexer \<Rightarrow> lexer \<Rightarrow> bool" where
  "skips lx lx' \<longleftrightarrow> (\<exists>n. lx' = (skip ^^ n) lx)"

lemma skips_refl [simp]: "skips lx lx"
  unfolding skips_def by (rule exI [of _ 0]) simp

lemma skips_trans [trans]: "skips a b \<Longrightarrow> skips b c \<Longrightarrow> skips a c"
proof -
  assume "skips a b" "skips b c"
  then obtain n m where "b = (skip ^^ n) a" "c = (skip ^^ m) b" unfolding skips_def by blast
  then have "c = (skip ^^ (m + n)) a" by (simp add: funpow_add)
  then show ?thesis unfolding skips_def by blast
qed

lemma skips_skip: "skips lx (skip lx)"
  unfolding skips_def by (rule exI [of _ 1]) simp

lemma skips_skipI: "skips a b \<Longrightarrow> skips a (skip b)"
  using skips_trans skips_skip by blast

lemma skips_le: "skips lx lx' \<Longrightarrow> length (lx_rest lx') \<le> length (lx_rest lx)"
proof -
  have "length (lx_rest ((skip ^^ n) lx)) \<le> length (lx_rest lx)" for n
    by (induction n) (auto simp: lx_bump_le)
  then show "skips lx lx' \<Longrightarrow> length (lx_rest lx') \<le> length (lx_rest lx)" by (auto simp: skips_def)
qed

lemma bump_skip: "lx_bump lx = (oc, lx') \<Longrightarrow> lx' = skip lx"
  by simp

lemma consume_while_skips: "skips lx (snd (consume_while pred lx))"
proof (induction pred lx rule: consume_while.induct)
  case (1 pred lx)
  show ?case
  proof (cases "peek_char lx")
    case (Some c)
    then show ?thesis using 1 [OF Some] skips_trans [OF skips_skip]
      by (subst consume_while.simps) (auto simp: case_prod_beta Let_def)
  qed (subst consume_while.simps, simp)
qed

lemma consume_while_first:
  assumes "peek_char lx = Some c" "pred c"
  shows "skips (skip lx) (snd (consume_while pred lx))"
  using assms consume_while_skips [of "skip lx" pred] by (subst consume_while.simps) (simp add: case_prod_beta Let_def)

lemma consume_while_skipsD: "consume_while pred lx = (s, lx') \<Longrightarrow> skips lx lx'"
  using consume_while_skips [of lx pred] by simp

lemma comment_loop_skips: "comment_loop lx = Some lx' \<Longrightarrow> skips lx lx'"
proof (induction lx rule: comment_loop.induct)
  case (1 lx)
  obtain oc lx1 where b: "lx_bump lx = (oc, lx1)" by fastforce
  have s: "skips lx lx1" using bump_skip [OF b] skips_skip by simp
  show ?case
  proof (cases oc)
    case (Some c)
    note b' = b [unfolded Some, symmetric]
    have "skips lx1 lx'" using 1(1) [OF b' refl] 1(2) [OF b' refl] 1(3) skips_trans [OF skips_skip]
      by (subst (asm) comment_loop.simps) (auto simp: b Some split: if_splits)
    then show ?thesis using skips_trans [OF s] by blast
  qed (use 1(3) b in \<open>subst (asm) comment_loop.simps, simp\<close>)
qed

lemma skip_trivia_skips: "skip_trivia lx = Inr lx' \<Longrightarrow> skips lx lx'"
proof (induction lx rule: skip_trivia.induct)
  case (1 lx)
  show ?case
  proof (cases "peek_char lx")
    case None
    then show ?thesis using 1(3) by (subst (asm) skip_trivia.simps) simp
  next
    case (Some c)
    show ?thesis
    proof (cases "is_whitespace c")
      case True
      then show ?thesis using 1(1) [OF Some True] 1(3) skips_trans [OF skips_skip] Some by (subst (asm) skip_trivia.simps) simp
    next
      case False
      show ?thesis
      proof (cases "c = uc CHR 0x22")
        case q: True
        show ?thesis
        proof (cases "comment_loop (skip lx)")
          case None
          then show ?thesis using 1(3) Some False q by (subst (asm) skip_trivia.simps) simp
        next
          case (Some lx1)
          have "skip_trivia lx = skip_trivia lx1" using \<open>peek_char lx = Some c\<close> False q Some by (subst skip_trivia.simps) simp
          then show ?thesis using 1(2) [OF \<open>peek_char lx = Some c\<close> False q Some] 1(3) comment_loop_skips [OF Some] skips_trans skips_skip by metis
        qed
      next
        case nq: False
        then show ?thesis using 1(3) Some False by (subst (asm) skip_trivia.simps) simp
      qed
    qed
  qed
qed

lemma string_loop_skips: "string_loop lx = Some (s, lx') \<Longrightarrow> skips lx lx'"
proof (induction lx arbitrary: s rule: string_loop.induct)
  case (1 lx)
  obtain oc lx1 where b: "lx_bump lx = (oc, lx1)" by fastforce
  have s: "skips lx lx1" using bump_skip [OF b] skips_skip by simp
  show ?case
  proof (cases oc)
    case (Some c)
    note b' = b [unfolded Some, symmetric]
    have "skips lx1 lx'" using 1(1) [OF b' refl] 1(2) [OF b' refl] 1(3) skips_trans [OF skips_skip]
      by (subst (asm) string_loop.simps) (auto simp: b Some split: if_splits)
    then show ?thesis using skips_trans [OF s] by blast
  qed (use 1(3) b in \<open>subst (asm) string_loop.simps, simp\<close>)
qed

lemma symbol_loop_skips: "skips lx (snd (symbol_loop lx))"
proof (induction lx rule: symbol_loop.induct)
  case (1 lx)
  obtain part lx1 where c: "consume_while is_ident_cont lx = (part, lx1)" by fastforce
  have s: "skips lx lx1" using consume_while_skipsD [OF c] .
  show ?case
  proof (cases "peek_char lx1 = Some (uc CHR '':'') \<and> (case peek_char (skip lx1) of Some c \<Rightarrow> is_ident_start c | None \<Rightarrow> False)")
    case True
    then have "skips (skip lx1) (snd (symbol_loop (skip lx1)))" using 1 [OF c [symmetric] refl _ refl] by blast
    then have "skips lx1 (snd (symbol_loop (skip lx1)))" by (rule skips_trans [OF skips_skip])
    moreover have "snd (symbol_loop lx) = snd (symbol_loop (skip lx1))"
      using True c by (subst symbol_loop.simps) (simp add: Let_def case_prod_beta)
    ultimately show ?thesis using skips_trans [OF s] by simp
  next
    case False
    then have "snd (symbol_loop lx) = lx1 \<or> snd (symbol_loop lx) = skip lx1"
      using c by (subst (1 2) symbol_loop.simps) (auto simp: Let_def)
    then show ?thesis using s skips_trans [OF s skips_skip] by auto
  qed
qed

lemma binary_sel_skips: "skips (skip lx) (snd (binary_sel c lx))"
  by (auto simp: binary_sel_def Let_def skips_skip split: option.split)

lemma try_consume_exponent_skips: "skips lx (snd (try_consume_exponent lx))"
proof -
  have "skips lx (snd (consume_while p (skip lx)))" "skips lx (snd (consume_while p (skip (skip lx))))" for p
    using skips_trans [OF skips_skip consume_while_skips] skips_trans [OF skips_skip skips_trans [OF skips_skip consume_while_skips]] by blast+
  then show ?thesis by (simp add: try_consume_exponent_def Let_def case_prod_beta split: option.split)
qed

lemma try_consume_scale_skips: "try_consume_scale d st lx = Inr (r, lx') \<Longrightarrow> skips lx lx'"
  using skips_trans [OF skips_skip consume_while_skips] skips_skip
  by (auto simp: try_consume_scale_def Let_def case_prod_beta split: if_splits option.splits)


lemma lex_quoted_skips: "lex_quoted_text st lx = Inr (s, lx') \<Longrightarrow> skips (skip lx) lx'"
  by (auto simp: lex_quoted_text_def split: option.splits dest: string_loop_skips)

lemma lex_radix_skips: "lex_radix neg st lead lx = Inr (t, lx') \<Longrightarrow> skips lx lx'"
  using skips_trans [OF skips_skip consume_while_skips]
  by (auto simp: lex_radix_def consume_radix_digit_run_def Let_def case_prod_beta split: if_splits option.splits)

lemma lex_fraction_skips: "lex_fraction neg st lead lx = Inr (t, lx') \<Longrightarrow> skips lx lx'"
proof -
  assume a: "lex_fraction neg st lead lx = Inr (t, lx')"
  let ?l = "snd (consume_while is_ascii_digit (skip lx))"
  obtain sc lx1 where s: "try_consume_scale (min (int (length (fst (consume_while is_ascii_digit (skip lx))))) 0xFFFF) st ?l = Inr (sc, lx1)"
    and r: "lx' = lx1 \<or> lx' = snd (try_consume_exponent lx1)"
    using a by (auto simp: lex_fraction_def case_prod_beta Let_def rbind_Inr split: option.splits)
  have "skips lx ?l" by (rule skips_trans [OF skips_skip consume_while_skips])
  then have "skips lx lx1" using try_consume_scale_skips [OF s] skips_trans by blast
  then show ?thesis using r skips_trans [OF _ try_consume_exponent_skips] by blast
qed

lemma lex_integer_skips: "lex_integer neg st lead lx = Inr (t, lx') \<Longrightarrow> skips lx lx'"
proof -
  assume a: "lex_integer neg st lead lx = Inr (t, lx')"
  obtain sc lx1 where s: "try_consume_scale 0 st lx = Inr (sc, lx1)" and r: "lx' = lx1 \<or> lx' = snd (try_consume_exponent lx1)"
    using a by (auto simp: lex_integer_def case_prod_beta Let_def rbind_Inr split: option.splits if_splits)
  then show ?thesis using try_consume_scale_skips [OF s] skips_trans [OF _ try_consume_exponent_skips] by blast
qed

lemma lex_number_skips: "lex_number neg st lx = Inr (t, lx') \<Longrightarrow> skips (snd (consume_while is_ascii_digit lx)) lx'"
  by (auto simp: lex_number_def Let_def case_prod_beta split: if_splits
      dest: lex_radix_skips lex_fraction_skips lex_integer_skips)

lemma number_kinds:
  "lex_radix neg st lead lx = Inr (t, lx') \<Longrightarrow> t \<noteq> Eof" "lex_fraction neg st lead lx = Inr (t, lx') \<Longrightarrow> t \<noteq> Eof"
  "lex_integer neg st lead lx = Inr (t, lx') \<Longrightarrow> t \<noteq> Eof"
  by (auto simp: lex_radix_def lex_fraction_def lex_integer_def Let_def case_prod_beta rbind_Inr split: if_splits option.splits)

lemma lex_number_kind: "lex_number neg st lx = Inr (t, lx') \<Longrightarrow> t \<noteq> Eof"
  unfolding lex_number_def by (auto simp: Let_def case_prod_beta split: if_splits dest: number_kinds)

text \<open>A token starts with the character it was dispatched on.\<close>

lemma lex_token_skips:
  assumes c: "peek_char lx = Some c" and t: "lex_token c st lx = Inr (t, lx')"
  shows "skips (skip lx) lx' \<and> t \<noteq> Eof"
proof -
  have n: "skips (skip lx) lx'" if "is_ascii_digit c" "lex_number neg st lx = Inr (t, lx')" for neg
    using consume_while_first [of lx c is_ascii_digit, OF c that(1)] lex_number_skips [OF that(2)] skips_trans by blast
  have n': "skips (skip lx) lx'" if "lex_number neg st (skip lx) = Inr (t, lx')" for neg
    using consume_while_skips [of "skip lx" is_ascii_digit] lex_number_skips [OF that] skips_trans by blast
  have i: "skips (skip lx) (snd (lex_ident_or_keyword lx))" if "is_ident_start c"
  proof -
    have "is_ident_cont c" using that by (auto simp: is_ident_start_def is_ident_cont_def)
    then have "skips (skip lx) (snd (consume_while is_ident_cont lx))" by (rule consume_while_first [OF c])
    then show ?thesis by (auto simp: lex_ident_or_keyword_def Let_def case_prod_beta intro: skips_skipI)
  qed
  have b: "skips (skip lx) (snd (lex_binary_sel c lx))" by (simp add: lex_binary_sel_def Let_def case_prod_beta binary_sel_skips)
  have ch: "skips (skip lx) lx'" if "lex_char_literal st lx = Inr (t, lx')"
  proof -
    have "lx' = skip (skip lx)" using that by (auto simp: lex_char_literal_def split: prod.splits option.splits)
    then show ?thesis using skips_skip by simp
  qed
  have st: "skips (skip lx) lx'" if "lex_string_literal st lx = Inr (t, lx')"
    using that by (auto simp: lex_string_literal_def rbind_Inr dest: lex_quoted_skips)
  have h: "skips (skip lx) lx'" if "lex_hash st lx = Inr (t, lx')"
    using that symbol_loop_skips [of "skip lx"] skips_trans [OF skips_skip binary_sel_skips, of "skip lx"] skips_skip [of "skip lx"]
    by (auto simp: lex_hash_def Let_def case_prod_beta rbind_Inr split: option.splits if_splits
        dest: lex_quoted_skips intro: skips_trans [OF skips_skip])
  have "skips (skip lx) lx'"
    using t n n' i b ch st h by (auto simp: lex_token_def Let_def skips_skip split: if_splits)
  moreover have "t \<noteq> Eof"
    using t by (auto simp: lex_token_def Let_def lex_ident_or_keyword_def lex_binary_sel_def lex_char_literal_def lex_string_literal_def lex_hash_def
        case_prod_beta rbind_Inr split: if_splits option.splits prod.splits dest: lex_number_kind)
  ultimately show ?thesis ..
qed


subsection \<open>Positions\<close>

text \<open>What line, column and position mean for the part of the input already read: one-based, the column in bytes.\<close>

definition text_line :: "utext \<Rightarrow> nat" where
  "text_line s = 1 + length (filter (\<lambda>c. c = 10) s)"

definition text_col :: "utext \<Rightarrow> nat" where
  "text_col s = 1 + sum_list (map len_utf8 (takeWhile (\<lambda>c. c \<noteq> 10) (rev s)))"

definition text_pos :: "utext \<Rightarrow> nat" where
  "text_pos s = sum_list (map len_utf8 s)"

definition text_span :: "utext \<Rightarrow> src_span" where
  "text_span s = \<lparr>sp_line = text_line s, sp_col = text_col s\<rparr>"

definition has_read :: "utext \<Rightarrow> utext \<Rightarrow> lexer \<Rightarrow> bool" where
  "has_read input s lx \<longleftrightarrow> input = s @ lx_rest lx \<and> lx_pos lx = text_pos s \<and> lx_here lx = text_span s"

lemma has_read_skip:
  assumes "has_read input s lx" "lx_rest lx = c # cs"
  shows "has_read input (s @ [c]) (skip lx)"
  using assms by (simp add: has_read_def lx_bump_def lx_here_def text_span_def text_pos_def text_line_def text_col_def)

lemma has_read_skips:
  assumes "has_read input s lx" "skips lx lx'"
  shows "\<exists>u. has_read input (s @ u) lx' \<and> lx_rest lx = u @ lx_rest lx'"
proof -
  have "\<exists>u. has_read input (s @ u) ((skip ^^ n) lx) \<and> lx_rest lx = u @ lx_rest ((skip ^^ n) lx)" for n
  proof (induction n)
    case 0
    then show ?case using assms(1) by (intro exI [of _ "[]"]) simp
  next
    case (Suc n)
    then obtain u where u: "has_read input (s @ u) ((skip ^^ n) lx)" "lx_rest lx = u @ lx_rest ((skip ^^ n) lx)" by blast
    show ?case
    proof (cases "lx_rest ((skip ^^ n) lx)")
      case Nil
      then have "(skip ^^ Suc n) lx = (skip ^^ n) lx" by (simp add: lx_bump_def)
      then show ?thesis using u by metis
    next
      case (Cons c cs)
      then show ?thesis using has_read_skip [OF u(1) Cons] lx_bump_length [OF Cons] u(2) by (intro exI [of _ "u @ [c]"]) simp
    qed
  qed
  then show ?thesis using assms(2) unfolding skips_def by blast
qed

lemma skips_modes: "skips lx lx' \<Longrightarrow> pragma_mode lx' = pragma_mode lx \<and> in_literal_seq lx' = in_literal_seq lx \<and> prev_ends_expr lx' = prev_ends_expr lx"
proof -
  have "pragma_mode (skip l) = pragma_mode l \<and> in_literal_seq (skip l) = in_literal_seq l \<and> prev_ends_expr (skip l) = prev_ends_expr l" for l
    by (simp add: lx_bump_def split: list.split)
  then have "pragma_mode ((skip ^^ n) lx) = pragma_mode lx \<and> in_literal_seq ((skip ^^ n) lx) = in_literal_seq lx \<and> prev_ends_expr ((skip ^^ n) lx) = prev_ends_expr lx" for n
    by (induction n) simp_all
  then show "skips lx lx' \<Longrightarrow> ?thesis" unfolding skips_def by blast
qed

lemma skip_trivia_error:
  "has_read input s lx \<Longrightarrow> skip_trivia lx = Inl e \<Longrightarrow> le_eof e \<and> (\<exists>u v. input = (s @ u) @ v \<and> le_span e = text_span (s @ u))"
proof (induction lx arbitrary: s rule: skip_trivia.induct)
  case (1 lx)
  obtain c where c: "peek_char lx = Some c"
  proof (cases "peek_char lx")
    case None
    then show ?thesis using 1(4) by (subst (asm) skip_trivia.simps) simp
  qed
  have ih: "le_eof e \<and> (\<exists>u v. input = (s @ u) @ v \<and> le_span e = text_span (s @ u))"
    if sk: "skips lx lx1" and st: "skip_trivia lx1 = Inl e"
      and IH: "\<And>s. has_read input s lx1 \<Longrightarrow> skip_trivia lx1 = Inl e \<Longrightarrow> le_eof e \<and> (\<exists>u v. input = (s @ u) @ v \<and> le_span e = text_span (s @ u))" for lx1
  proof -
    obtain w where "has_read input (s @ w) lx1" using has_read_skips [OF 1(3) sk] by blast
    from IH [OF this st] show ?thesis by (metis append.assoc)
  qed
  show ?case
  proof (cases "is_whitespace c")
    case True
    then have "skip_trivia lx = skip_trivia (skip lx)" using c by (subst skip_trivia.simps) simp
    then show ?thesis using ih [OF skips_skip] 1(1) [OF c True] 1(4) by metis
  next
    case False
    show ?thesis
    proof (cases "c = uc CHR 0x22")
      case q: True
      show ?thesis
      proof (cases "comment_loop (skip lx)")
        case None
        then have "e = lex_err_eof (lx_here lx) (ustr ''unterminated comment'')" using 1(4) c False q by (subst (asm) skip_trivia.simps) simp
        moreover have "input = (s @ []) @ lx_rest lx \<and> lx_here lx = text_span (s @ [])" using 1(3) by (simp add: has_read_def)
        ultimately show ?thesis unfolding lex_err_eof_def by fastforce
      next
        case (Some lx1)
        have "skip_trivia lx = skip_trivia lx1" using c False q Some by (subst skip_trivia.simps) simp
        then show ?thesis using ih [OF skips_trans [OF skips_skip comment_loop_skips [OF Some]]] 1(2) [OF c False q Some] 1(4) by metis
      qed
    next
      case nq: False
      then show ?thesis using 1(4) c False by (subst (asm) skip_trivia.simps) simp
    qed
  qed
qed

lemma lex_token_error: "lex_token c st lx = Inl e \<Longrightarrow> le_span e = st"
  by (auto simp: lex_token_def Let_def lex_number_def lex_radix_def lex_fraction_def lex_integer_def try_consume_scale_def lex_char_literal_def
      lex_string_literal_def lex_quoted_text_def lex_hash_def lex_err_def lex_err_eof_def case_prod_beta rbind_def
      split: if_splits option.splits sum.splits prod.splits)

text \<open>
  C31. The lexer reads the input once, left to right, and knows where it is. From a state that has read a prefix of
  the input, \<open>next_token\<close> either reports an error located in the input at the place of the offending token (or of
  the comment that never ends), or returns a token with the line and byte column where it starts; it has then read some
  trivia and the token's text, which is empty exactly at the end of the input; modes are unchanged and \<open>prev_ends_expr\<close> describes the new token.
\<close>
theorem lexer_positions:
  assumes "has_read input s lx"
  shows "case next_token lx of
      Inl e \<Rightarrow> \<exists>u v. input = (s @ u) @ v \<and> le_span e = text_span (s @ u)
    | Inr ((t, sp), lx') \<Rightarrow> \<exists>u w. has_read input (s @ u @ w) lx' \<and> sp = text_span (s @ u) \<and> lx_rest lx = u @ w @ lx_rest lx' \<and>
        (t = Eof \<longleftrightarrow> w = []) \<and> (t = Eof \<longrightarrow> lx_rest lx' = []) \<and>
        pragma_mode lx' = pragma_mode lx \<and> in_literal_seq lx' = in_literal_seq lx \<and> (t \<noteq> Eof \<longrightarrow> prev_ends_expr lx' = tok_ends_expr t)"
proof (cases "skip_trivia lx")
  case (Inl e)
  then show ?thesis using skip_trivia_error [OF assms Inl] by (simp add: next_token_def)
next
  case (Inr lx1)
  obtain u where u: "has_read input (s @ u) lx1" "lx_rest lx = u @ lx_rest lx1" using has_read_skips [OF assms skip_trivia_skips [OF Inr]] by blast
  have m1: "pragma_mode lx1 = pragma_mode lx \<and> in_literal_seq lx1 = in_literal_seq lx" using skips_modes [OF skip_trivia_skips [OF Inr]] by simp
  have sp: "lx_here lx1 = text_span (s @ u)" using u(1) by (simp add: has_read_def)
  show ?thesis
  proof (cases "peek_char lx1")
    case None
    then have n: "next_token lx = Inr ((Eof, lx_here lx1), lx1)" using Inr by (simp add: next_token_def Let_def)
    have "lx_rest lx1 = []" using None by (simp add: peek_char_None)
    then show ?thesis unfolding n using u sp m1 by (auto intro!: exI [of _ u])
  next
    case (Some c)
    show ?thesis
    proof (cases "lex_token c (lx_here lx1) lx1")
      case (Inl e)
      then have "next_token lx = Inl e" using \<open>skip_trivia lx = Inr lx1\<close> Some by (simp add: next_token_def Let_def)
      moreover have "le_span e = text_span (s @ u)" using lex_token_error [OF Inl] sp by simp
      ultimately show ?thesis using u(1) by (auto simp: has_read_def)
    next
      case (Inr r)
      obtain t lx2 where r: "r = (t, lx2)" by fastforce
      have n: "next_token lx = Inr ((t, lx_here lx1), lx2\<lparr>prev_ends_expr := tok_ends_expr t\<rparr>)"
        using \<open>skip_trivia lx = Inr lx1\<close> Some Inr r by (simp add: next_token_def Let_def)
      note k = lex_token_skips [OF Some Inr [unfolded r]]
      obtain cs where cs: "lx_rest lx1 = c # cs" using Some by (auto simp: peek_char_Some)
      obtain v where v: "has_read input ((s @ u @ [c]) @ v) lx2" "cs = v @ lx_rest lx2"
        using has_read_skips [OF has_read_skip [OF u(1) cs]] k lx_bump_length [OF cs] by fastforce
      have "has_read input (s @ u @ (c # v)) (lx2\<lparr>prev_ends_expr := tok_ends_expr t\<rparr>)" using v(1) by (simp add: has_read_def lx_here_def)
      moreover have "pragma_mode lx2 = pragma_mode lx \<and> in_literal_seq lx2 = in_literal_seq lx"
        using m1 k skips_modes [OF skips_trans [OF skips_skip]] by metis
      ultimately show ?thesis unfolding n sum.case prod.case
        by - (rule exI [of _ u], rule exI [of _ "c # v"], use sp u(2) cs v(2) k in simp)
    qed
  qed
qed

theorem lexer_positions_witness:
  "\<exists>sp lx' u w. next_token (new_lexer (ustr '' ab c'')) = Inr ((Ident (ustr ''ab''), sp), lx') \<and> sp_col sp = 2 \<and>
     has_read (ustr '' ab c'') (u @ w) lx' \<and> sp = text_span u \<and> w \<noteq> []"
proof -
  have r: "has_read (ustr '' ab c'') [] (new_lexer (ustr '' ab c''))"
    by (simp add: has_read_def new_lexer_def text_pos_def lx_here_def text_span_def text_line_def text_col_def)
  obtain t sp lx' where n: "next_token (new_lexer (ustr '' ab c'')) = Inr ((t, sp), lx')" "t = Ident (ustr ''ab'')" "sp_col sp = 2"
    by (rule that, code_simp, code_simp, code_simp)
  then show ?thesis using lexer_positions [OF r] by auto
qed


subsection \<open>Printing and lexing\<close>

definition quote :: "utext \<Rightarrow> utext" where
  "quote s = 39 # concat (map (\<lambda>c. if c = 39 then [39, 39] else [c]) s) @ [39]"

definition is_ident :: "utext \<Rightarrow> bool" where
  "is_ident s \<longleftrightarrow> s \<noteq> [] \<and> is_ident_start (hd s) \<and> list_all is_ident_cont s"

fun print_tok :: "tok \<Rightarrow> utext" where
  "print_tok (Ident s) = s"
| "print_tok (Keyword s) = s"
| "print_tok (BinarySel s) = s"
| "print_tok (IntLit _ r d) = (if r = 10 then d else dec r @ uc CHR ''r'' # d)"
| "print_tok (CharLit c) = [uc CHR ''$'', c]"
| "print_tok (StrLit s) = quote s"
| "print_tok (SymLit s) = uc CHR ''#'' # quote s"
| "print_tok LitArrayOpen = ustr ''#(''"
| "print_tok ByteArrayOpen = ustr ''#[''"
| "print_tok LParen = ustr ''(''"
| "print_tok RParen = ustr '')''"
| "print_tok LBracket = ustr ''[''"
| "print_tok RBracket = ustr '']''"
| "print_tok LBrace = ustr ''{''"
| "print_tok RBrace = ustr ''}''"
| "print_tok VBar = ustr ''|''"
| "print_tok Semi = ustr '';''"
| "print_tok Period = ustr ''.''"
| "print_tok Caret = ustr ''^''"
| "print_tok Assign = ustr '':=''"
| "print_tok Colon = ustr '':''"
| "print_tok _ = []"

text \<open>The tokens whose printed form is unambiguous before a space: all but negative, scaled and floating literals.\<close>

fun printable :: "tok \<Rightarrow> bool" where
  "printable (Ident s) \<longleftrightarrow> is_ident s"
| "printable (Keyword s) \<longleftrightarrow> s \<noteq> [] \<and> is_ident (butlast s) \<and> last s = uc CHR '':''"
| "printable (BinarySel s) \<longleftrightarrow> (length s = 1 \<or> length s = 2) \<and> list_all (\<lambda>c. is_binary_char c \<and> c \<noteq> uc CHR ''|'') s"
| "printable (IntLit neg r d) \<longleftrightarrow> \<not> neg \<and> d \<noteq> [] \<and>
     (if r = 10 then list_all is_ascii_digit d
      else 2 \<le> r \<and> r \<le> 36 \<and> list_all (\<lambda>c. (is_ascii_digit c \<or> is_ascii_uppercase c) \<and> \<not> bad_digit r c) d)"
| "printable (ScaledLit _ _ _ _) \<longleftrightarrow> False"
| "printable (FloatLit _ _) \<longleftrightarrow> False"
| "printable Eof \<longleftrightarrow> False"
| "printable _ \<longleftrightarrow> True"

lemma consume_while_run:
  "lx_rest lx = s @ rest \<Longrightarrow> list_all pred s \<Longrightarrow> rest = [] \<or> \<not> pred (hd rest) \<Longrightarrow>
   \<exists>lx'. consume_while pred lx = (s, lx') \<and> lx_rest lx' = rest \<and> skips lx lx'"
proof (induction s arbitrary: lx)
  case Nil
  then show ?case by (subst consume_while.simps) (cases rest; auto simp: peek_char_def peek_char_at_def slice_get_def)
next
  case (Cons c s)
  have c: "peek_char lx = Some c" using Cons.prems(1) by (simp add: peek_char_Some)
  obtain lx' where "consume_while pred (skip lx) = (s, lx')" "lx_rest lx' = rest" "skips (skip lx) lx'"
    using Cons.IH [of "skip lx"] Cons.prems lx_bump_length [of lx c "s @ rest"] by auto
  then show ?case using c Cons.prems(2) skips_trans [OF skips_skip] by (subst consume_while.simps) simp
qed

lemma string_loop_quote:
  "lx_rest lx = concat (map (\<lambda>c. if c = 39 then [39, 39] else [c]) s) @ 39 # rest \<Longrightarrow> rest = [] \<or> hd rest \<noteq> 39 \<Longrightarrow>
   \<exists>lx'. string_loop lx = Some (s, lx') \<and> lx_rest lx' = rest \<and> skips lx lx'"
proof (induction s arbitrary: lx)
  case Nil
  then obtain lx1 where b: "lx_bump lx = (Some 39, lx1)" "lx_rest lx1 = rest" by (simp add: lx_bump_def)
  then have "peek_char lx1 \<noteq> Some 39" using Nil(2) by (auto simp: peek_char_Some)
  then show ?case using b skips_skip [of lx] by (subst string_loop.simps) simp
next
  case (Cons c s)
  let ?r = "concat (map (\<lambda>c. if c = 39 then [39, 39] else [c]) s) @ 39 # rest"
  obtain lx1 where b: "lx_bump lx = (Some c, lx1)" "lx_rest lx1 = (if c = 39 then 39 # ?r else ?r)"
    using Cons.prems(1) by (cases "c = 39") (simp_all add: lx_bump_def)
  have s1: "skips lx lx1" using skips_skip [of lx] b(1) by simp
  show ?case
  proof (cases "c = 39")
    case True
    have r: "lx_rest (skip lx1) = ?r" "peek_char lx1 = Some 39" using b(2) True by (simp_all add: lx_bump_length peek_char_Some)
    obtain lx' where lx': "string_loop (skip lx1) = Some (s, lx')" "lx_rest lx' = rest" "skips (skip lx1) lx'"
      using Cons.IH [OF r(1) Cons.prems(2)] by blast
    have "skips lx lx'" using skips_trans [OF s1 skips_trans [OF skips_skip lx'(3)]] .
    then show ?thesis using b(1) True r(2) lx'(1,2) by (subst string_loop.simps) simp
  next
    case False
    obtain lx' where "string_loop lx1 = Some (s, lx')" "lx_rest lx' = rest" "skips lx1 lx'"
      using Cons.IH [of lx1] b(2) False Cons.prems(2) by auto
    then show ?thesis using b(1) False skips_trans [OF s1] by (subst string_loop.simps) simp
  qed
qed

lemma lex_quoted_quote:
  assumes "lx_rest lx = quote s @ rest" "rest = [] \<or> hd rest \<noteq> 39"
  shows "\<exists>lx'. lex_quoted_text st lx = Inr (s, lx') \<and> lx_rest lx' = rest"
proof -
  have "lx_rest (skip lx) = concat (map (\<lambda>c. if c = 39 then [39, 39] else [c]) s) @ 39 # rest"
    using assms(1) by (simp add: quote_def lx_bump_def)
  from string_loop_quote [OF this assms(2)] show ?thesis by (auto simp: lex_quoted_text_def)
qed

lemma ident_chars:
  "is_ident_start c \<Longrightarrow> \<not> is_whitespace c \<and> c \<noteq> 34" "is_ascii_digit c \<Longrightarrow> \<not> is_whitespace c \<and> c \<noteq> 34 \<and> \<not> is_ident_start c"
  "is_binary_char c \<Longrightarrow> \<not> is_whitespace c \<and> c \<noteq> 34 \<and> \<not> is_ident_start c \<and> \<not> is_ascii_digit c \<and> c \<notin> {36, 39, 35, 40, 41, 91, 93, 123, 125, 59, 46, 94, 58}"
  by (auto simp: is_ident_start_def is_ascii_alphabetic_def is_ascii_uppercase_def is_ascii_lowercase_def is_whitespace_def is_ascii_digit_def
      is_binary_char_def BINARY_CHARS_def ustr_def)

lemma next_token_start:
  assumes "lx_rest lx = c # cs" "\<not> is_whitespace c" "c \<noteq> 34" "lex_token c (lx_here lx) lx = Inr (t, lx')"
  shows "next_token lx = Inr ((t, lx_here lx), lx'\<lparr>prev_ends_expr := tok_ends_expr t\<rparr>)"
proof -
  have p: "peek_char lx = Some c" using assms(1) by (simp add: peek_char_Some)
  then have "skip_trivia lx = Inr lx" using assms(2,3) by (subst skip_trivia.simps) simp
  then show ?thesis using p assms(4) by (simp add: next_token_def Let_def)
qed


lemma lex_ident_run:
  assumes "is_ident i" "lx_rest lx = i @ rest" "rest = [] \<or> \<not> is_ident_cont (hd rest)"
  shows "\<exists>lx'. consume_while is_ident_cont lx = (i, lx') \<and> lx_rest lx' = rest"
  using consume_while_run [OF assms(2), of is_ident_cont] assms by (auto simp: is_ident_def)

lemma dec_digits: "0 \<le> n \<Longrightarrow> dec n \<noteq> [] \<and> list_all is_ascii_digit (dec n) \<and> decimal_value (dec n) = n"
proof (induction n rule: dec.induct)
  case (1 n)
  show ?case
  proof (cases "n < 10")
    case True
    then show ?thesis using 1(2) by (subst (1 2 3) dec.simps) (simp add: is_ascii_digit_def decimal_value_def)
  next
    case False
    then have IH: "list_all is_ascii_digit (dec (n div 10))" "decimal_value (dec (n div 10)) = n div 10" using 1 by simp_all
    have e: "dec n = dec (n div 10) @ [48 + n mod 10]" using False by (subst dec.simps) simp
    have "decimal_value (dec n) = 10 * decimal_value (dec (n div 10)) + n mod 10" by (simp add: e decimal_value_def)
    moreover have "0 \<le> n mod 10" "n mod 10 \<le> 9" by simp_all
    then have "is_ascii_digit (48 + n mod 10)" unfolding is_ascii_digit_def by linarith
    ultimately show ?thesis using IH by (simp add: e)
  qed
qed

lemma lex_int_print:
  assumes "printable (IntLit neg r d)" "lx_rest lx = print_tok (IntLit neg r d) @ 32 # rest"
  shows "\<exists>lx'. lex_number False st lx = Inr (IntLit neg r d, lx') \<and> lx_rest lx' = 32 # rest"
proof (cases "r = 10")
  case True
  then have d: "list_all is_ascii_digit d" "lx_rest lx = d @ 32 # rest" "\<not> neg" using assms by simp_all
  obtain lx' where lx': "consume_while is_ascii_digit lx = (d, lx')" "lx_rest lx' = 32 # rest"
    using consume_while_run [OF d(2,1)] by (auto simp: is_ascii_digit_def)
  have p: "peek_char lx' = Some 32" using lx'(2) by (simp add: peek_char_Some)
  have "try_consume_exponent lx' = (None, lx')" using p by (simp add: try_consume_exponent_def ustr_def)
  then show ?thesis using lx' p d(3) True by (simp add: lex_number_def lex_integer_def try_consume_scale_def)
next
  case False
  then have r: "2 \<le> r" "r \<le> 36" "\<not> neg" "d \<noteq> []" and d: "list_all (\<lambda>c. is_ascii_digit c \<or> is_ascii_uppercase c) d" "find (bad_digit r) d = None"
    using assms(1) by (auto simp: list_all_iff find_None_iff)
  have rest: "lx_rest lx = dec r @ (114 # d @ 32 # rest)" using assms(2) False by simp
  have dr: "list_all is_ascii_digit (dec r)" "decimal_value (dec r) = r" "dec r \<noteq> []" using dec_digits [of r] r by auto
  obtain lx1 where lx1: "consume_while is_ascii_digit lx = (dec r, lx1)" "lx_rest lx1 = 114 # d @ 32 # rest"
    using consume_while_run [OF rest dr(1)] by (auto simp: is_ascii_digit_def)
  have "lx_rest (skip lx1) = d @ 32 # rest" using lx_bump_length [OF lx1(2)] .
  then obtain lx2 where lx2: "consume_while (\<lambda>c. is_ascii_digit c \<or> is_ascii_uppercase c) (skip lx1) = (d, lx2)" "lx_rest lx2 = 32 # rest"
    using consume_while_run [of "skip lx1" d "32 # rest" "\<lambda>c. is_ascii_digit c \<or> is_ascii_uppercase c"] d(1) by (auto simp: is_ascii_digit_def is_ascii_uppercase_def)
  have "peek_char lx1 = Some 114" using lx1(2) by (simp add: peek_char_Some)
  moreover have "parse_u32 (dec r) = Some r" using dr r by (simp add: parse_u32_def)
  ultimately show ?thesis using lx1(1) lx2 r d(2) by (simp add: lex_number_def lex_radix_def consume_radix_digit_run_def)
qed

lemma binary_sel_print:
  assumes "length s = 1 \<or> length s = 2" "list_all (\<lambda>c. is_binary_char c \<and> c \<noteq> uc CHR ''|'') s" "lx_rest lx = s @ 32 # rest" "\<not> pragma_mode lx"
  shows "\<exists>lx'. binary_sel (hd s) lx = (s, lx') \<and> lx_rest lx' = 32 # rest"
proof -
  have m: "\<not> pragma_mode (skip lx)" using skips_modes [OF skips_skip] assms(4) by simp
  obtain c cs where s: "s = c # cs" using assms(1) by (cases s) auto
  show ?thesis
  proof (cases cs)
    case Nil
    then have r: "lx_rest (skip lx) = 32 # rest" using assms(3) s by (simp add: lx_bump_length)
    then have "peek_char (skip lx) = Some 32" by (simp add: peek_char_Some)
    moreover have "\<not> is_binary_char 32" by (simp add: is_binary_char_def BINARY_CHARS_def ustr_def)
    ultimately show ?thesis using r s Nil m by (simp add: binary_sel_def Let_def)
  next
    case (Cons c2 cs2)
    then have c2: "cs2 = []" "is_binary_char c2" "c2 \<noteq> 124" using assms(1,2) s by auto
    have r: "lx_rest (skip lx) = c2 # 32 # rest" using assms(3) s Cons c2(1) by (simp add: lx_bump_length)
    then have p: "peek_char (skip lx) = Some c2" "peek_char_at 1 (skip lx) = Some 32" by (simp_all add: peek_char_Some peek_char_at_def slice_get_def)
    then have "\<not> some_digit (peek_char_at 1 (skip lx))" by (simp add: some_digit_def is_ascii_digit_def)
    then show ?thesis using p(1) r s Cons c2 m lx_bump_length [OF r] by (simp add: binary_sel_def Let_def)
  qed
qed


lemma lex_ident_print:
  assumes "is_ident s" "lx_rest lx = s @ 32 # rest"
  shows "\<exists>lx'. lex_ident_or_keyword lx = (Ident s, lx') \<and> lx_rest lx' = 32 # rest"
proof -
  have "\<not> is_ident_cont 32" by (simp add: is_ident_cont_def is_ascii_alphabetic_def is_ascii_uppercase_def is_ascii_lowercase_def is_ascii_digit_def)
  then obtain lx1 where c: "consume_while is_ident_cont lx = (s, lx1)" "lx_rest lx1 = 32 # rest"
    using lex_ident_run [OF assms] by auto
  then have "peek_char lx1 = Some 32" by (simp add: peek_char_Some)
  then show ?thesis using c by (simp add: lex_ident_or_keyword_def)
qed

lemma lex_keyword_print:
  assumes "is_ident s" "lx_rest lx = (s @ [58]) @ 32 # rest"
  shows "\<exists>lx'. lex_ident_or_keyword lx = (Keyword (s @ [58]), lx') \<and> lx_rest lx' = 32 # rest"
proof -
  have "\<not> is_ident_cont 58" by (simp add: is_ident_cont_def is_ascii_alphabetic_def is_ascii_uppercase_def is_ascii_lowercase_def is_ascii_digit_def)
  then obtain lx1 where c: "consume_while is_ident_cont lx = (s, lx1)" "lx_rest lx1 = 58 # 32 # rest"
    using lex_ident_run [of s lx "58 # 32 # rest"] assms by auto
  then have "peek_char lx1 = Some 58" "peek_char_at 1 lx1 = Some 32" "lx_rest (skip lx1) = 32 # rest"
    by (simp_all add: peek_char_Some peek_char_at_def slice_get_def lx_bump_length)
  then show ?thesis using c by (simp add: lex_ident_or_keyword_def)
qed

definition lexes_to :: "tok \<Rightarrow> lexer \<Rightarrow> utext \<Rightarrow> bool" where
  "lexes_to t lx rest \<longleftrightarrow> (\<exists>c cs lx'. lx_rest lx = c # cs \<and> \<not> is_whitespace c \<and> c \<noteq> 34 \<and>
     lex_token c (lx_here lx) lx = Inr (t, lx') \<and> lx_rest lx' = rest)"

lemma lexes_toI:
  assumes "lx_rest lx = c # cs" "\<not> is_whitespace c \<and> c \<noteq> 34" "lex_token c (lx_here lx) lx = Inr (t, lx')" "lx_rest lx' = rest"
  shows "lexes_to t lx rest"
  using assms unfolding lexes_to_def by blast

lemma lexes_to_word:
  assumes "is_ident_start c" "lx_rest lx = c # cs" "lex_ident_or_keyword lx = (t, lx')" "lx_rest lx' = rest"
  shows "lexes_to t lx rest"
  by (rule lexes_toI [OF assms(2) ident_chars(1) [OF assms(1)] _ assms(4)]) (simp add: lex_token_def assms(1,3))

lemma lexes_to_int:
  assumes "printable (IntLit neg r d)" "lx_rest lx = print_tok (IntLit neg r d) @ 32 # rest"
  shows "lexes_to (IntLit neg r d) lx (32 # rest)"
proof -
  have "\<exists>c cs. print_tok (IntLit neg r d) = c # cs \<and> is_ascii_digit c"
    using assms(1) dec_digits [of r] by (cases d; cases "dec r") (auto split: if_splits)
  then obtain c cs where c: "print_tok (IntLit neg r d) = c # cs" "is_ascii_digit c" by blast
  obtain lx' where n: "lex_number False (lx_here lx) lx = Inr (IntLit neg r d, lx')" "lx_rest lx' = 32 # rest"
    using lex_int_print [OF assms] by blast
  show ?thesis
  proof (rule lexes_toI [OF _ _ _ n(2)])
    show "lx_rest lx = c # cs @ 32 # rest" using assms(2) c(1) by simp
    show "\<not> is_whitespace c \<and> c \<noteq> 34" using ident_chars(2) [OF c(2)] by simp
    show "lex_token c (lx_here lx) lx = Inr (IntLit neg r d, lx')" using ident_chars(2) [OF c(2)] c(2) n(1) by (simp add: lex_token_def)
  qed
qed

lemma lexes_to_binary:
  assumes "printable (BinarySel s)" "lx_rest lx = s @ 32 # rest" "\<not> pragma_mode lx"
  shows "lexes_to (BinarySel s) lx (32 # rest)"
proof -
  obtain c cs where s: "s = c # cs" using assms(1) by (cases s) auto
  obtain lx' where b: "binary_sel c lx = (s, lx')" "lx_rest lx' = 32 # rest"
    using binary_sel_print [of s lx rest] assms s by auto
  have c: "is_binary_char c" "c \<noteq> 124" using assms(1) s by auto
  have "\<not> some_digit (peek_char_at 1 lx)"
  proof (cases cs)
    case Nil
    then show ?thesis using assms(2) s by (simp add: peek_char_at_def slice_get_def some_digit_def is_ascii_digit_def)
  next
    case (Cons c2 cs2)
    then have "is_binary_char c2" using assms(1) s by simp
    then show ?thesis using ident_chars(3) [of c2] assms(2) s Cons by (simp add: peek_char_at_def slice_get_def some_digit_def)
  qed
  then have "lex_token c (lx_here lx) lx = Inr (BinarySel s, lx')"
    using ident_chars(3) [OF c(1)] c b(1) by (cases "c = 45") (simp_all add: lex_token_def lex_binary_sel_def)
  then show ?thesis using lexes_toI [OF _ _ _ b(2)] ident_chars(3) [OF c(1)] assms(2) s by auto
qed

lemma not_letter: "c \<in> {36, 39, 35, 40, 41, 91, 93, 123, 125, 59, 46, 94, 58, 124} \<Longrightarrow>
   \<not> is_ident_start c \<and> \<not> is_ascii_digit c \<and> \<not> is_whitespace c \<and> c \<noteq> 34 \<and> c \<noteq> 45"
  by (auto simp: is_ident_start_def is_ascii_alphabetic_def is_ascii_uppercase_def is_ascii_lowercase_def is_whitespace_def is_ascii_digit_def)

lemma lexes_to_punct:
  assumes "lx_rest lx = c # 32 # rest" "(c, t) \<in> {(40, LParen), (41, RParen), (91, LBracket), (93, RBracket), (123, LBrace), (125, RBrace),
     (59, Semi), (46, Period), (94, Caret), (124, VBar)}"
  shows "lexes_to t lx (32 # rest)"
proof (rule lexes_toI [OF assms(1) _ _ lx_bump_length [OF assms(1)]])
  have c: "c \<in> {36, 39, 35, 40, 41, 91, 93, 123, 125, 59, 46, 94, 58, 124}" using assms(2) by auto
  show "\<not> is_whitespace c \<and> c \<noteq> 34" using not_letter [OF c] by simp
  show "lex_token c (lx_here lx) lx = Inr (t, skip lx)" using not_letter [OF c] assms(2) by (auto simp: lex_token_def)
qed

lemma lexes_to_quoted:
  "lx_rest lx = quote s @ 32 # rest \<Longrightarrow> lexes_to (StrLit s) lx (32 # rest)"
  "lx_rest lx = 35 # quote s @ 32 # rest \<Longrightarrow> lexes_to (SymLit s) lx (32 # rest)"
proof -
  assume a: "lx_rest lx = quote s @ 32 # rest"
  obtain lx' where q: "lex_quoted_text (lx_here lx) lx = Inr (s, lx')" "lx_rest lx' = 32 # rest" using lex_quoted_quote [OF a] by auto
  show "lexes_to (StrLit s) lx (32 # rest)"
    by (rule lexes_toI [OF _ _ _ q(2), of _ 39]) (use a q(1) not_letter [of 39] in \<open>auto simp: quote_def lex_token_def lex_string_literal_def\<close>)
next
  assume a: "lx_rest lx = 35 # quote s @ 32 # rest"
  have r: "lx_rest (skip lx) = quote s @ 32 # rest" using lx_bump_length [OF a] .
  then have p: "peek_char (skip lx) = Some 39" by (simp add: peek_char_Some quote_def)
  obtain lx' where q: "lex_quoted_text (lx_here lx) (skip lx) = Inr (s, lx')" "lx_rest lx' = 32 # rest" using lex_quoted_quote [OF r] by auto
  show "lexes_to (SymLit s) lx (32 # rest)"
    by (rule lexes_toI [OF a _ _ q(2)]) (use q(1) p not_letter [of 35] in \<open>auto simp: lex_token_def lex_hash_def Let_def\<close>)
qed

lemma lexes_to_two:
  assumes "lx_rest lx = c # d # 32 # rest" "(c, d, t) \<in> {(35, 40, LitArrayOpen), (35, 91, ByteArrayOpen), (58, 61, Assign)} \<or> (c = 36 \<and> t = CharLit d)"
  shows "lexes_to t lx (32 # rest)"
proof -
  obtain lx1 where l: "skip lx = lx1" "lx_rest lx1 = d # 32 # rest" using lx_bump_length [OF assms(1)] by blast
  obtain lx2 where b: "lx_bump lx1 = (Some d, lx2)" and r: "lx_rest lx2 = 32 # rest" using l(2) by (simp add: lx_bump_def)
  have p: "peek_char lx1 = Some d" using l(2) by (simp add: peek_char_Some)
  have c: "c \<in> {36, 39, 35, 40, 41, 91, 93, 123, 125, 59, 46, 94, 58, 124}" using assms(2) by auto
  show ?thesis
  proof (rule lexes_toI [OF assms(1) _ _ r])
    show "\<not> is_whitespace c \<and> c \<noteq> 34" using not_letter [OF c] by simp
    have ch: "lex_char_literal (lx_here lx) lx = Inr (CharLit d, lx2)" unfolding lex_char_literal_def l(1) b by simp
    consider "c = 35" "d = 40" "t = LitArrayOpen" | "c = 35" "d = 91" "t = ByteArrayOpen" | "c = 58" "d = 61" "t = Assign" | "c = 36" "t = CharLit d"
      using assms(2) by blast
    then show "lex_token c (lx_here lx) lx = Inr (t, lx2)" by cases (use ch not_letter [OF c] p l(1) b in \<open>simp_all add: lex_token_def lex_hash_def Let_def\<close>)
  qed
qed

lemma lexes_to_colon:
  assumes "lx_rest lx = 58 # 32 # rest"
  shows "lexes_to Colon lx (32 # rest)"
proof -
  have "peek_char (skip lx) = Some 32" using lx_bump_length [OF assms] by (simp add: peek_char_Some)
  then show ?thesis using lexes_toI [OF assms _ _ lx_bump_length [OF assms], of Colon] not_letter [of 58] by (simp add: lex_token_def)
qed

lemma lexes_to_printed:
  assumes "printable t" "lx_rest lx = print_tok t @ 32 # rest" "\<not> pragma_mode lx"
  shows "lexes_to t lx (32 # rest)"
proof (cases t)
  case (Ident s)
  then obtain c cs where s: "s = c # cs" "is_ident_start c" using assms(1) by (cases s) (auto simp: is_ident_def)
  then show ?thesis using lex_ident_print [of s lx rest] assms Ident by (auto intro: lexes_to_word)
next
  case (Keyword s)
  obtain i where i: "s = i @ [58]" "is_ident i" using assms(1) Keyword append_butlast_last_id [of s] that [of "butlast s"] by simp
  then obtain c cs where s: "i = c # cs" "is_ident_start c" by (cases i) (auto simp: is_ident_def)
  then show ?thesis using lex_keyword_print [of i lx rest] assms Keyword i by (auto intro: lexes_to_word)
next
  case (CharLit c)
  then show ?thesis using assms(2) by (intro lexes_to_two [of lx 36 c]) auto
qed (use assms lexes_to_int lexes_to_binary lexes_to_quoted lexes_to_colon in
     \<open>auto simp: ustr_def intro: lexes_to_punct lexes_to_two\<close>)


subsection \<open>The token stream\<close>

lemma next_token_shorter: "next_token lx = Inr ((t, sp), lx') \<Longrightarrow> t \<noteq> Eof \<Longrightarrow> length (lx_rest lx') < length (lx_rest lx)"
proof -
  assume n: "next_token lx = Inr ((t, sp), lx')" "t \<noteq> Eof"
  obtain lx1 where s: "skip_trivia lx = Inr lx1" using n(1) by (auto simp: next_token_def rbind_Inr)
  obtain c where c: "peek_char lx1 = Some c" using n s by (cases "peek_char lx1") (auto simp: next_token_def Let_def)
  obtain lx2 where l: "lex_token c (lx_here lx1) lx1 = Inr (t, lx2)" "lx_rest lx' = lx_rest lx2"
    using n(1) s c by (auto simp: next_token_def Let_def rbind_Inr)
  have "length (lx_rest lx2) \<le> length (lx_rest (skip lx1))" using lex_token_skips [OF c l(1)] skips_le by blast
  moreover have "length (lx_rest (skip lx1)) < length (lx_rest lx1)" using c by (auto simp: peek_char_Some lx_bump_le)
  moreover have "length (lx_rest lx1) \<le> length (lx_rest lx)" using skip_trivia_skips [OF s] skips_le by blast
  ultimately show ?thesis using l(2) by simp
qed

text \<open>The tokens of a text up to its end, as a client that asks for one after the other sees them.\<close>

function tokens :: "lexer \<Rightarrow> lex_error + tok list" where
  "tokens lx =
     (case next_token lx of
        Inl e \<Rightarrow> Inl e
      | Inr ((t, _), lx') \<Rightarrow> if t = Eof then Inr [] else rbind (tokens lx') (\<lambda>ts. Inr (t # ts)))"
  by pat_completeness auto
termination by (relation "measure (\<lambda>lx. length (lx_rest lx))") (auto simp: next_token_shorter)

declare tokens.simps [simp del]

definition print_toks :: "tok list \<Rightarrow> utext" where
  "print_toks ts = concat (map (\<lambda>t. print_tok t @ [32]) ts)"

lemma next_token_space:
  assumes "lx_rest lx = 32 # rest"
  shows "next_token lx = next_token (skip lx)"
proof -
  have "peek_char lx = Some 32" using assms by (simp add: peek_char_Some)
  moreover have "is_whitespace 32" by (simp add: is_whitespace_def)
  ultimately have "skip_trivia lx = skip_trivia (skip lx)" by (subst skip_trivia.simps) simp
  then show ?thesis by (simp add: next_token_def)
qed

lemma tokens_space: "lx_rest lx = 32 # rest \<Longrightarrow> tokens lx = tokens (skip lx)"
  by (subst (1 2) tokens.simps) (simp add: next_token_space)

lemma tokens_printed:
  "list_all printable ts \<Longrightarrow> lx_rest lx = print_toks ts \<Longrightarrow> \<not> pragma_mode lx \<Longrightarrow> tokens lx = Inr ts"
proof (induction ts arbitrary: lx)
  case Nil
  then have p: "peek_char lx = None" by (simp add: print_toks_def peek_char_None)
  then have "skip_trivia lx = Inr lx" by (subst skip_trivia.simps) simp
  then show ?case using p by (subst tokens.simps) (simp add: next_token_def)
next
  case (Cons t ts)
  have r: "lx_rest lx = print_tok t @ 32 # print_toks ts" using Cons.prems(2) by (simp add: print_toks_def)
  obtain c cs lx1 where l: "lx_rest lx = c # cs" "\<not> is_whitespace c" "c \<noteq> 34" "lex_token c (lx_here lx) lx = Inr (t, lx1)" "lx_rest lx1 = 32 # print_toks ts"
    using lexes_to_printed [OF _ r] Cons.prems(1,3) unfolding lexes_to_def by auto
  define lx2 where "lx2 = lx1\<lparr>prev_ends_expr := tok_ends_expr t\<rparr>"
  have n: "next_token lx = Inr ((t, lx_here lx), lx2)" using next_token_start [OF l(1-4)] by (simp add: lx2_def)
  have r2: "lx_rest lx2 = 32 # print_toks ts" using l(5) by (simp add: lx2_def)
  have c: "peek_char lx = Some c" using l(1) by (simp add: peek_char_Some)
  have "skips lx lx1" using lex_token_skips [OF c l(4)] skips_trans [OF skips_skip] by blast
  then have "\<not> pragma_mode lx2" using skips_modes [of lx lx1] Cons.prems(3) by (simp add: lx2_def)
  then have "tokens (skip lx2) = Inr ts" using Cons.IH [of "skip lx2"] Cons.prems(1) lx_bump_length [OF r2] skips_modes [OF skips_skip, of lx2] by simp
  then have "tokens lx2 = Inr ts" using tokens_space [OF r2] by simp
  moreover have "t \<noteq> Eof" using Cons.prems(1) by auto
  ultimately show ?case using n by (subst tokens.simps) simp
qed

text \<open>
  C16. Printing and lexing. A sequence of tokens other than negative, scaled and floating literals (words,
  keywords, operators of one or two characters, integers in any radix from 2 to 36, characters, strings and quoted
  symbols with any text, quotes included, and all punctuation), written with a space after each, is lexed back to exactly these tokens
  and then the end of the input.
\<close>
theorem lexer_roundtrip:
  assumes "list_all printable ts"
  shows "tokens (new_lexer (print_toks ts)) = Inr ts"
  by (rule tokens_printed [OF assms]) (simp_all add: new_lexer_def)

theorem lexer_roundtrip_witness:
  "let ts = [Ident (ustr ''x''), Assign, IntLit False 16 (ustr ''FF''), BinarySel (ustr ''->''), Keyword (ustr ''at:''), StrLit [97, 39, 98], SymLit (ustr ''+''), Period]
   in tokens (new_lexer (print_toks ts)) = Inr ts \<and> length (print_toks ts) = 32"
proof -
  let ?ts = "[Ident (ustr ''x''), Assign, IntLit False 16 (ustr ''FF''), BinarySel (ustr ''->''), Keyword (ustr ''at:''), StrLit [97, 39, 98], SymLit (ustr ''+''), Period]"
  have "list_all printable ?ts" by code_simp
  from lexer_roundtrip [OF this] have "tokens (new_lexer (print_toks ?ts)) = Inr ?ts" .
  moreover have "length (print_toks ?ts) = 32" by code_simp
  ultimately show ?thesis by (simp only: Let_def simp_thms)
qed


subsection \<open>Magnitudes\<close>

fun le_value :: "int list \<Rightarrow> int" where
  "le_value [] = 0"
| "le_value (b # bs) = b + 256 * le_value bs"

definition radix_value :: "int \<Rightarrow> utext \<Rightarrow> int" where
  "radix_value r s = foldl (\<lambda>a c. r * a + (case to_digit36 c of Some d \<Rightarrow> d | None \<Rightarrow> 0)) 0 s"

definition canonical_magnitude :: "int list \<Rightarrow> bool" where
  "canonical_magnitude m \<longleftrightarrow> list_all (\<lambda>b. 0 \<le> b \<and> b < 256) m \<and> (m \<noteq> [] \<longrightarrow> last m \<noteq> 0)"

lemma le_value_append: "le_value (xs @ ys) = le_value xs + 256 ^ length xs * le_value ys"
  by (induction xs) (simp_all add: algebra_simps)

lemma mul_add_value: "mul_add r c m = (m', c') \<Longrightarrow> le_value m' + 256 ^ length m' * c' = r * le_value m + c \<and> length m' = length m"
proof (induction m arbitrary: c m' c')
  case (Cons b m)
  let ?v = "b * r + c"
  obtain m1 where m1: "mul_add r (?v div 256) m = (m1, c')" "m' = ?v mod 256 # m1"
    using Cons.prems by (auto simp: Let_def split: prod.splits)
  have "le_value m' + 256 ^ length m' * c' = ?v mod 256 + 256 * (le_value m1 + 256 ^ length m1 * c')" by (simp add: m1(2) algebra_simps)
  also have "\<dots> = ?v mod 256 + 256 * (r * le_value m + ?v div 256)" using Cons.IH [OF m1(1)] by argo
  also have "\<dots> = r * le_value (b # m) + c" using mod_mult_div_eq [of ?v 256] by (simp add: algebra_simps)
  finally show ?case using Cons.IH [OF m1(1)] m1(2) by simp
qed simp

lemma mul_add_bytes:
  assumes "2 \<le> r"
  shows "mul_add r c m = (m', c') \<Longrightarrow> 0 \<le> c \<Longrightarrow> canonical_magnitude m \<Longrightarrow>
    list_all (\<lambda>b. 0 \<le> b \<and> b < 256) m' \<and> 0 \<le> c' \<and> (m \<noteq> [] \<longrightarrow> c' = 0 \<longrightarrow> last m' \<noteq> 0) \<and> (m = [] \<longrightarrow> c' = c)"
proof (induction m arbitrary: c m' c')
  case (Cons b m)
  let ?v = "b * r + c"
  obtain m1 where m1: "mul_add r (?v div 256) m = (m1, c')" "m' = ?v mod 256 # m1"
    using Cons.prems(1) by (auto simp: Let_def split: prod.splits)
  have b: "0 \<le> b" "canonical_magnitude m" "m = [] \<Longrightarrow> 0 < b" using Cons.prems(3) by (auto simp: canonical_magnitude_def split: if_splits)
  then have v: "0 \<le> ?v" "m = [] \<Longrightarrow> 0 < ?v" using assms Cons.prems(2) by (auto intro: add_pos_nonneg)
  have "0 \<le> ?v div 256" using v(1) by (simp add: pos_imp_zdiv_nonneg_iff)
  note IH = Cons.IH [OF m1(1) this b(2)]
  have "m1 = [] \<longleftrightarrow> m = []" using mul_add_value [OF m1(1)] by auto
  moreover have "?v mod 256 \<noteq> 0" if "m = []" "c' = 0"
  proof -
    have "?v div 256 = 0" using IH that by simp
    then show ?thesis using v(2) [OF that(1)] mod_mult_div_eq [of ?v 256] by linarith
  qed
  ultimately show ?case using IH m1(2) by auto
qed simp

lemma push_carry_value: "0 \<le> c \<Longrightarrow> le_value (push_carry c) = c \<and> canonical_magnitude (push_carry c) \<and> (push_carry c = [] \<longleftrightarrow> c = 0)"
proof (induction c rule: push_carry.induct)
  case (1 c)
  show ?case
  proof (cases "c > 0")
    case True
    have p: "push_carry c = c mod 256 # push_carry (c div 256)" using True by (subst push_carry.simps) simp
    note IH = 1(1) [OF True]
    have "0 \<le> c div 256" using True by (simp add: pos_imp_zdiv_nonneg_iff)
    with IH have IH: "le_value (push_carry (c div 256)) = c div 256" "canonical_magnitude (push_carry (c div 256))" "push_carry (c div 256) = [] \<longleftrightarrow> c div 256 = 0" by blast+
    have "c mod 256 \<noteq> 0" if "c div 256 = 0" using True that mod_mult_div_eq [of c 256] by linarith
    then show ?thesis unfolding p using IH True by (auto simp: canonical_magnitude_def)
  next
    case False
    then show ?thesis using 1(2) by (subst (1 2 3) push_carry.simps) (simp add: canonical_magnitude_def)
  qed
qed

lemma magnitude_step:
  assumes "2 \<le> r" "canonical_magnitude m" "0 \<le> d" "mul_add r d m = (m', c)"
  shows "canonical_magnitude (m' @ push_carry c) \<and> le_value (m' @ push_carry c) = r * le_value m + d"
proof -
  note v = mul_add_value [OF assms(4)] and b = mul_add_bytes [OF assms(1,4,3,2)]
  note p = push_carry_value [of c]
  have "m' = [] \<longleftrightarrow> m = []" using v by auto
  then show ?thesis using v b p by (auto simp: le_value_append canonical_magnitude_def)
qed

lemma canonical_magnitude_zero: "canonical_magnitude m \<Longrightarrow> m = [] \<longleftrightarrow> le_value m = 0"
proof (induction m)
  case (Cons b m)
  then have b: "0 \<le> b" "canonical_magnitude m" "m = [] \<Longrightarrow> b \<noteq> 0" by (auto simp: canonical_magnitude_def split: if_splits)
  have "0 \<le> le_value m" using Cons.prems by (induction m) (auto simp: canonical_magnitude_def split: if_splits)
  then show ?case using Cons.IH [OF b(2)] b(1,3) by (cases "m = []") auto
qed simp

lemma good_digit: "\<not> bad_digit r c \<Longrightarrow> \<exists>d. to_digit36 c = Some d \<and> 0 \<le> d \<and> d < r"
  by (auto simp: bad_digit_def to_digit36_def is_ascii_digit_def is_ascii_uppercase_def is_ascii_lowercase_def split: if_splits)

lemma magnitude_loop_value:
  assumes "2 \<le> r"
  shows "list_all (\<lambda>c. \<not> bad_digit r c) s \<Longrightarrow> canonical_magnitude m \<Longrightarrow>
    \<exists>m'. magnitude_loop r m s = Some m' \<and> canonical_magnitude m' \<and>
      le_value m' = foldl (\<lambda>a c. r * a + (case to_digit36 c of Some d \<Rightarrow> d | None \<Rightarrow> 0)) (le_value m) s"
proof (induction s arbitrary: m)
  case (Cons c s)
  obtain d where d: "to_digit36 c = Some d" "0 \<le> d" using good_digit [of r c] Cons.prems(1) by auto
  obtain m1 c1 where m1: "mul_add r d m = (m1, c1)" by fastforce
  note s = magnitude_step [OF assms Cons.prems(2) d(2) m1]
  then obtain m' where "magnitude_loop r (m1 @ push_carry c1) s = Some m'" "canonical_magnitude m'"
    "le_value m' = foldl (\<lambda>a c. r * a + (case to_digit36 c of Some d \<Rightarrow> d | None \<Rightarrow> 0)) (r * le_value m + d) s"
    using Cons.IH [of "m1 @ push_carry c1"] Cons.prems(1) by auto
  then show ?case using d(1) m1 by simp
qed simp

text \<open>
  The base-256 magnitude of an integer literal. For digits the lexer has validated, \<open>int_lit_magnitude\<close>
  does not panic and returns the little-endian bytes of the number the digits denote in the radix, without a high zero byte;
  so zero, and only zero, is the empty list.
\<close>
theorem int_lit_magnitude_exact:
  assumes "2 \<le> r" "list_all (\<lambda>c. \<not> bad_digit r c) s"
  shows "\<exists>m. int_lit_magnitude r s = Some m \<and> le_value m = radix_value r s \<and> canonical_magnitude m \<and> (m = [] \<longleftrightarrow> radix_value r s = 0)"
proof -
  obtain m where m: "int_lit_magnitude r s = Some m" "canonical_magnitude m" "le_value m = radix_value r s"
    using magnitude_loop_value [OF assms, of "[]"] unfolding int_lit_magnitude_def radix_value_def by (auto simp: canonical_magnitude_def)
  have "m = [] \<longleftrightarrow> le_value m = 0" using canonical_magnitude_zero [OF m(2)] .
  then show ?thesis using m by auto
qed

theorem int_lit_magnitude_exact_witness:
  "int_lit_magnitude 36 (ustr ''ZZ'') = Some [15, 5] \<and> radix_value 36 (ustr ''ZZ'') = 1295 \<and> canonical_magnitude [15, 5]"
proof -
  have "list_all (\<lambda>c. \<not> bad_digit 36 c) (ustr ''ZZ'')" by code_simp
  moreover have "(2 :: int) \<le> 36" by simp
  ultimately obtain m where m: "int_lit_magnitude 36 (ustr ''ZZ'') = Some m" "le_value m = radix_value 36 (ustr ''ZZ'')" "canonical_magnitude m"
    using int_lit_magnitude_exact [of 36 "ustr ''ZZ''"] by blast
  have "int_lit_magnitude 36 (ustr ''ZZ'') = Some [15, 5]" by code_simp
  then show ?thesis using m by simp
qed

end
