(* ===== verification/Ast.thy ===== *)
theory Ast
  imports Lexer Oops
begin

text \<open>
  The syntax tree (\<open>src/src/frontend/ast.rs\<close>) and what it means for a tree to be well formed: the conditions that
  the comments of \<open>ast.rs\<close> and \<open>parser.rs\<close> call parser-guaranteed and that code generation relies on.
  Constructors that share a name with a token carry the suffix \<open>E\<close>.
\<close>

datatype literal =
    IntL int
  | BigInt (bi_negative: bool) (bi_digits: "int list")
  | FloatL bool utext
  | CharL uchar
  | StrL utext
  | SymbolL utext
  | ArrayL "literal list"
  | ByteArrayL "int list"
  | NilL | TrueL | FalseL

datatype expr =
    SelfRef src_span
  | Var utext src_span
  | Lit literal src_span
  | AssignE utext expr src_span
  | SendE expr utext "expr list" bool src_span
  | CascadeE expr "expr list" src_span
  | CascadeRcvr src_span
  | DynArray "expr list" src_span
  | BlockE block_node
  | ReturnE expr src_span
and block_node = BlockNode (bn_params: "utext list") (bn_temps: "utext list") (bn_body: "expr list") (bn_span: src_span) (bn_scope_id: nat)

primrec expr_span :: "expr \<Rightarrow> src_span" where
  "expr_span (SelfRef s) = s"
| "expr_span (Var _ s) = s"
| "expr_span (Lit _ s) = s"
| "expr_span (AssignE _ _ s) = s"
| "expr_span (SendE _ _ _ _ s) = s"
| "expr_span (CascadeE _ _ s) = s"
| "expr_span (CascadeRcvr s) = s"
| "expr_span (DynArray _ s) = s"
| "expr_span (BlockE b) = bn_span b"
| "expr_span (ReturnE _ s) = s"

datatype ffi_pragma =
    FfiFunction utext utext "utext list"
  | FfiSelector utext utext bool utext "utext list"

record method_node =
  pattern_selector :: utext
  mn_params :: "utext list"
  mn_primitive :: "int option"
  mn_ffi :: "ffi_pragma option"
  mn_temps :: "utext list"
  mn_body :: "expr list"
  mn_class_side :: bool
  mn_span :: src_span

datatype indexable = IxOops | IxBytes

record class_def_node =
  cd_superclass :: utext
  cd_name :: utext
  cd_indexable :: "indexable option"
  cd_inst_vars :: "utext list"
  cd_class_vars :: "utext list"
  cd_methods :: "method_node list"
  cd_span :: src_span

datatype top_item = ClassDef class_def_node | DoIt expr

definition RESERVED :: "utext list" where
  "RESERVED = [ustr ''self'', ustr ''super'', ustr ''nil'', ustr ''true'', ustr ''false'']"

definition is_reserved :: "utext \<Rightarrow> bool" where
  "is_reserved name \<longleftrightarrow> name \<in> set RESERVED"

subsection \<open>Well-formed trees\<close>

text \<open>
  The number of arguments a selector takes: one per colon of a keyword selector, none for a word, one for an operator.
\<close>

definition sel_arity :: "utext \<Rightarrow> nat" where
  "sel_arity s = (if s \<noteq> [] \<and> is_ident_start (hd s) then length (filter (\<lambda>c. c = uc CHR '':'') s) else 1)"

definition big_value :: "bool \<Rightarrow> int list \<Rightarrow> int" where
  "big_value neg ds = (if neg then - le_value ds else le_value ds)"

fun wf_literal :: "literal \<Rightarrow> bool" where
  "wf_literal (IntL v) \<longleftrightarrow> SMI_MIN \<le> v \<and> v \<le> SMI_MAX"
| "wf_literal (BigInt neg ds) \<longleftrightarrow> canonical_magnitude ds \<and> \<not> (SMI_MIN \<le> big_value neg ds \<and> big_value neg ds \<le> SMI_MAX)"
| "wf_literal (ArrayL ls) \<longleftrightarrow> list_all wf_literal ls"
| "wf_literal (ByteArrayL bs) \<longleftrightarrow> list_all (\<lambda>b. 0 \<le> b \<and> b < 256) bs"
| "wf_literal _ \<longleftrightarrow> True"

definition is_self :: "expr \<Rightarrow> bool" where
  "is_self e \<longleftrightarrow> (\<exists>s. e = SelfRef s)"

definition free_names :: "utext list \<Rightarrow> bool" where
  "free_names ns \<longleftrightarrow> list_all (\<lambda>n. is_ident n \<and> \<not> is_reserved n) ns"

text \<open>
  \<open>wf_expr\<close>: in expression position there is no return and no cascade marker; a super send has \<open>self\<close> as its receiver;
  the arguments fit the selector. \<open>wf_seg s rs\<close>: a cascade segment is one or more messages to the marker of the
  cascade's receiver, the innermost a super send exactly when the first message is. \<open>wf_stmt\<close> adds the return.
\<close>

fun wf_expr :: "expr \<Rightarrow> bool" and wf_seg :: "bool \<Rightarrow> src_span \<Rightarrow> expr \<Rightarrow> bool" and wf_stmt :: "expr \<Rightarrow> bool" where
  "wf_expr (SelfRef _) \<longleftrightarrow> True"
| "wf_expr (Var n _) \<longleftrightarrow> is_ident n \<and> \<not> is_reserved n"
| "wf_expr (Lit l _) \<longleftrightarrow> wf_literal l"
| "wf_expr (AssignE n e _) \<longleftrightarrow> is_ident n \<and> \<not> is_reserved n \<and> wf_expr e"
| "wf_expr (SendE r sel args su _) \<longleftrightarrow> wf_expr r \<and> sel_arity sel = length args \<and> list_all wf_expr args \<and> (su \<longrightarrow> is_self r)"
| "wf_expr (CascadeE r segs _) \<longleftrightarrow> wf_expr r \<and> 2 \<le> length segs \<and> (\<exists>s. (s \<longrightarrow> is_self r) \<and> list_all (wf_seg s (expr_span r)) segs)"
| "wf_expr (CascadeRcvr _) \<longleftrightarrow> False"
| "wf_expr (DynArray es _) \<longleftrightarrow> list_all wf_expr es"
| "wf_expr (BlockE (BlockNode ps ts body _ sid)) \<longleftrightarrow> free_names ps \<and> free_names ts \<and> list_all wf_stmt body \<and> sid = 0"
| "wf_expr (ReturnE _ _) \<longleftrightarrow> False"
| "wf_seg s rs (SendE r sel args su _) \<longleftrightarrow> sel_arity sel = length args \<and> list_all wf_expr args \<and>
     (r = CascadeRcvr rs \<and> su = s \<or> wf_seg s rs r \<and> \<not> su)"
| "wf_seg s rs _ \<longleftrightarrow> False"
| "wf_stmt (ReturnE e _) \<longleftrightarrow> wf_expr e"
| "wf_stmt e \<longleftrightarrow> wf_expr e"

definition wf_method :: "method_node \<Rightarrow> bool" where
  "wf_method m \<longleftrightarrow> sel_arity (pattern_selector m) = length (mn_params m) \<and> free_names (mn_params m) \<and> free_names (mn_temps m) \<and>
     list_all wf_stmt (mn_body m) \<and> (mn_primitive m = None \<or> mn_ffi m = None) \<and>
     (case mn_primitive m of Some n \<Rightarrow> 1 \<le> n \<and> n \<le> 65535 | None \<Rightarrow> True)"

definition wf_class_def :: "class_def_node \<Rightarrow> bool" where
  "wf_class_def c \<longleftrightarrow> is_ident (cd_superclass c) \<and> is_ident (cd_name c) \<and> free_names (cd_inst_vars c) \<and>
     list_all is_ident (cd_class_vars c) \<and> list_all wf_method (cd_methods c)"

fun wf_item :: "top_item \<Rightarrow> bool" where
  "wf_item (ClassDef c) \<longleftrightarrow> wf_class_def c"
| "wf_item (DoIt e) \<longleftrightarrow> wf_stmt e"

end
