(* ===== verification/Parser.thy ===== *)
theory Parser
  imports Ast
begin

text \<open>
  The recursive-descent parser (\<open>src/src/frontend/parser.rs\<close>). Every function takes the parser state and returns a
  value with the new state, or stops: with the compile error it reports (the parse is fail-fast, so the state is dropped), with
  a panic, or, in the model only, out of fuel. A loop of the code is \<open>p_loop\<close>, bounded by what is left of the input; a function that
  calls \<open>parse_expression\<close> takes it as the argument \<open>pe\<close>, and \<open>parse_expression\<close> ties the knot with fuel. That the bounds
  suffice, and that nothing panics, is proved below.
\<close>

record compile_error =
  ce_span :: src_span
  ce_msg :: utext
  ce_eof :: bool

datatype p_stop = Compile compile_error | Panic | OutOfFuel

record parser =
  p_lx :: lexer
  p_cur :: "tok \<times> src_span"
  p_peeked :: "(tok \<times> src_span) option"
  literal_seq_depth :: nat

type_synonym 'a parsed = "p_stop + 'a \<times> parser"

datatype class_pragma = PIndexable indexable | PClassVars "utext list" | PIgnored

subsection \<open>Tokens\<close>

definition of_lex_error :: "lex_error \<Rightarrow> compile_error" where
  "of_lex_error e = \<lparr>ce_span = le_span e, ce_msg = le_msg e, ce_eof = le_eof e\<rparr>"

definition p_lex :: "(tok \<times> src_span) lexed \<Rightarrow> p_stop + (tok \<times> src_span) \<times> lexer" where
  "p_lex r = (case r of Inl e \<Rightarrow> Inl (Compile (of_lex_error e)) | Inr x \<Rightarrow> Inr x)"

abbreviation cur_tok :: "parser \<Rightarrow> tok" where "cur_tok p \<equiv> fst (p_cur p)"
abbreviation cur_span :: "parser \<Rightarrow> src_span" where "cur_span p \<equiv> snd (p_cur p)"

definition new_parser :: "utext \<Rightarrow> p_stop + parser" where
  "new_parser input =
     (let lx = new_lexer input
      in rbind (p_lex (next_token lx)) (\<lambda>(t, lx). Inr \<lparr>p_lx = lx, p_cur = t, p_peeked = None, literal_seq_depth = 0\<rparr>))"

definition p_bump :: "parser \<Rightarrow> unit parsed" where
  "p_bump p =
     (case p_peeked p of
        Some t \<Rightarrow> Inr ((), p\<lparr>p_cur := t, p_peeked := None\<rparr>)
      | None \<Rightarrow> rbind (p_lex (next_token (p_lx p))) (\<lambda>(t, lx). Inr ((), p\<lparr>p_cur := t, p_lx := lx\<rparr>)))"

definition peek2 :: "parser \<Rightarrow> tok parsed" where
  "peek2 p =
     (case p_peeked p of
        Some t \<Rightarrow> Inr (fst t, p)
      | None \<Rightarrow> rbind (p_lex (next_token (p_lx p))) (\<lambda>(t, lx). Inr (fst t, p\<lparr>p_peeked := Some t, p_lx := lx\<rparr>)))"

definition p_error :: "parser \<Rightarrow> src_span \<Rightarrow> utext \<Rightarrow> 'a parsed" where
  "p_error p sp msg = Inl (Compile \<lparr>ce_span = sp, ce_msg = msg, ce_eof = (cur_tok p = Eof)\<rparr>)"

definition qt :: "utext \<Rightarrow> utext" where
  "qt s = 39 # s @ [39]"

definition check_not_reserved :: "src_span \<Rightarrow> utext \<Rightarrow> parser \<Rightarrow> unit parsed" where
  "check_not_reserved sp name p =
     (if is_reserved name then p_error p sp (qt name @ ustr '' is a reserved word'') else Inr ((), p))"

fun tok_discriminant :: "tok \<Rightarrow> nat" where
  "tok_discriminant (Ident _) = 0"
| "tok_discriminant (Keyword _) = 1"
| "tok_discriminant (BinarySel _) = 2"
| "tok_discriminant (IntLit _ _ _) = 3"
| "tok_discriminant (ScaledLit _ _ _ _) = 4"
| "tok_discriminant (FloatLit _ _) = 5"
| "tok_discriminant (CharLit _) = 6"
| "tok_discriminant (StrLit _) = 7"
| "tok_discriminant (SymLit _) = 8"
| "tok_discriminant LitArrayOpen = 9"
| "tok_discriminant ByteArrayOpen = 10"
| "tok_discriminant LParen = 11"
| "tok_discriminant RParen = 12"
| "tok_discriminant LBracket = 13"
| "tok_discriminant RBracket = 14"
| "tok_discriminant LBrace = 15"
| "tok_discriminant RBrace = 16"
| "tok_discriminant VBar = 17"
| "tok_discriminant Semi = 18"
| "tok_discriminant Period = 19"
| "tok_discriminant Caret = 20"
| "tok_discriminant Assign = 21"
| "tok_discriminant Colon = 22"
| "tok_discriminant Eof = 23"

definition p_expect :: "tok \<Rightarrow> utext \<Rightarrow> parser \<Rightarrow> unit parsed" where
  "p_expect want msg p =
     (if tok_discriminant (cur_tok p) = tok_discriminant want then p_bump p else p_error p (cur_span p) msg)"

definition expect_ident :: "utext \<Rightarrow> parser \<Rightarrow> utext parsed" where
  "expect_ident msg p =
     (case cur_tok p of
        Ident n \<Rightarrow> rbind (p_bump p) (\<lambda>(_, p). Inr (n, p))
      | _ \<Rightarrow> p_error p (cur_span p) msg)"

definition expect_keyword :: "utext \<Rightarrow> parser \<Rightarrow> unit parsed" where
  "expect_keyword kw p =
     (if cur_tok p = Keyword kw then p_bump p else p_error p (cur_span p) (ustr ''expected '' @ qt kw))"

definition enter_literal_seq :: "parser \<Rightarrow> parser" where
  "enter_literal_seq p =
     (let p = p\<lparr>literal_seq_depth := literal_seq_depth p + 1\<rparr>
      in if literal_seq_depth p = 1 then p\<lparr>p_lx := set_in_literal_seq True (p_lx p)\<rparr> else p)"

definition exit_literal_seq :: "parser \<Rightarrow> parser" where
  "exit_literal_seq p =
     (let p = p\<lparr>literal_seq_depth := literal_seq_depth p - 1\<rparr>
      in if literal_seq_depth p = 0 then p\<lparr>p_lx := set_in_literal_seq False (p_lx p)\<rparr> else p)"

text \<open>A loop: the body continues with a new loop state or breaks with a value. What is left to read bounds its turns.\<close>

datatype ('s, 'a) turn = Continue 's | Break 'a

primrec p_loop :: "nat \<Rightarrow> ('s \<Rightarrow> parser \<Rightarrow> ('s, 'a) turn parsed) \<Rightarrow> 's \<Rightarrow> parser \<Rightarrow> 'a parsed" where
  "p_loop 0 body s p = Inl OutOfFuel"
| "p_loop (Suc n) body s p =
     rbind (body s p) (\<lambda>(r, p). case r of Continue s \<Rightarrow> p_loop n body s p | Break v \<Rightarrow> Inr (v, p))"

definition unread :: "parser \<Rightarrow> nat" where
  "unread p = length (lx_rest (p_lx p)) + (if cur_tok p = Eof then 0 else 1) +
     (case p_peeked p of Some t \<Rightarrow> if fst t = Eof then 0 else 1 | None \<Rightarrow> 0)"

definition parse_loop :: "('s \<Rightarrow> parser \<Rightarrow> ('s, 'a) turn parsed) \<Rightarrow> 's \<Rightarrow> parser \<Rightarrow> 'a parsed" where
  "parse_loop body s p = p_loop (Suc (unread p)) body s p"

subsection \<open>Literals\<close>

text \<open>\<open>u64\<close> from at most eight little-endian bytes: the disjoint shifted bytes are added. \<open>None\<close> is the panic of \<open>int_lit_magnitude\<close>.\<close>

definition intlit_to_literal :: "bool \<Rightarrow> int \<Rightarrow> utext \<Rightarrow> literal option" where
  "intlit_to_literal negative radix digits = do {
     mag \<leftarrow> int_lit_magnitude radix digits;
     let v = le_value mag;
     Some (if length mag \<le> 8 \<and> (if \<not> negative then v \<le> SMI_MAX else v \<le> \<bar>SMI_MIN\<bar>)
           then IntL (if negative then - v else v)
           else BigInt negative mag)
   }"

definition or_panic :: "'a option \<Rightarrow> parser \<Rightarrow> 'a parsed" where
  "or_panic r p = (case r of None \<Rightarrow> Inl Panic | Some x \<Rightarrow> Inr (x, p))"

definition parse_array_elems :: "(parser \<Rightarrow> literal parsed) \<Rightarrow> parser \<Rightarrow> literal list parsed" where
  "parse_array_elems elem p = parse_loop (\<lambda>out p.
     if cur_tok p = RParen then Inr (Break out, p)
     else rbind (elem p) (\<lambda>(l, p). Inr (Continue (out @ [l]), p))) [] p"

definition close_paren :: "utext \<Rightarrow> parser \<Rightarrow> unit parsed" where
  "close_paren msg p = (if cur_tok p \<noteq> RParen then p_error p (cur_span p) msg else p_bump p)"

definition parse_array_literal :: "(parser \<Rightarrow> literal parsed) \<Rightarrow> parser \<Rightarrow> literal parsed" where
  "parse_array_literal elem p =
     rbind (p_bump (enter_literal_seq p)) (\<lambda>(_, p).
     rbind (parse_array_elems elem p) (\<lambda>(elems, p).
       if cur_tok p \<noteq> RParen then p_error p (cur_span p) (ustr ''expected '' @ qt (ustr '')'') @ ustr '' to close array literal'')
       else rbind (p_bump (exit_literal_seq p)) (\<lambda>(_, p). Inr (ArrayL elems, p))))"

definition parse_byte_array_literal :: "parser \<Rightarrow> literal parsed" where
  "parse_byte_array_literal p =
     rbind (p_bump (enter_literal_seq p)) (\<lambda>(_, p).
     rbind (parse_loop (\<lambda>bytes p.
         if cur_tok p = RBracket then Inr (Break bytes, p)
         else case p_cur p of
           (IntLit negative radix digits, sp) \<Rightarrow>
             rbind (p_bump p) (\<lambda>(_, p).
             rbind (or_panic (int_lit_magnitude radix digits) p) (\<lambda>(mag, p).
               if negative \<or> length mag > 1 then p_error p sp (ustr ''byte array element out of range 0..255'')
               else Inr (Continue (bytes @ [case mag of [] \<Rightarrow> 0 | b # _ \<Rightarrow> b]), p)))
         | (_, sp) \<Rightarrow> p_error p sp (ustr ''byte array elements must be integers'')) [] p) (\<lambda>(bytes, p).
       if cur_tok p \<noteq> RBracket then p_error p (cur_span p) (ustr ''expected '' @ qt (ustr '']'') @ ustr '' to close byte array'')
       else rbind (p_bump (exit_literal_seq p)) (\<lambda>(_, p). Inr (ByteArrayL bytes, p))))"

text \<open>The keyword tokens glued into one symbol; the loop state is the selector and the expected column.\<close>

definition glue_keywords :: "parser \<Rightarrow> utext parsed" where
  "glue_keywords p = parse_loop (\<lambda>(sel, expect_col) p.
     case p_cur p of
       (Keyword k, sp) \<Rightarrow>
         if (case expect_col of Some col \<Rightarrow> sp_col sp \<noteq> col | None \<Rightarrow> False) then Inr (Break sel, p)
         else rbind (p_bump p) (\<lambda>(_, p). Inr (Continue (sel @ k, Some (sp_col sp + length k)), p))
     | _ \<Rightarrow> Inr (Break sel, p)) ([], None) p"

definition array_elem :: "(parser \<Rightarrow> literal parsed) \<Rightarrow> parser \<Rightarrow> literal parsed" where
  "array_elem elem p =
     (let sp = cur_span p
      in case cur_tok p of
           IntLit negative radix digits \<Rightarrow> rbind (p_bump p) (\<lambda>(_, p). or_panic (intlit_to_literal negative radix digits) p)
         | FloatLit neg v \<Rightarrow> rbind (p_bump p) (\<lambda>(_, p). Inr (FloatL neg v, p))
         | CharLit c \<Rightarrow> rbind (p_bump p) (\<lambda>(_, p). Inr (CharL c, p))
         | StrLit s \<Rightarrow> rbind (p_bump p) (\<lambda>(_, p). Inr (StrL s, p))
         | SymLit s \<Rightarrow> rbind (p_bump p) (\<lambda>(_, p). Inr (SymbolL s, p))
         | Ident name \<Rightarrow> rbind (p_bump p) (\<lambda>(_, p).
             Inr (if name = ustr ''nil'' then NilL else if name = ustr ''true'' then TrueL
                  else if name = ustr ''false'' then FalseL else SymbolL name, p))
         | Keyword _ \<Rightarrow> rbind (glue_keywords p) (\<lambda>(sel, p). Inr (SymbolL sel, p))
         | BinarySel s \<Rightarrow> rbind (p_bump p) (\<lambda>(_, p). Inr (SymbolL s, p))
         | VBar \<Rightarrow> rbind (p_bump p) (\<lambda>(_, p). Inr (SymbolL (ustr ''|''), p))
         | LParen \<Rightarrow>
             rbind (p_bump p) (\<lambda>(_, p).
             rbind (parse_array_elems elem p) (\<lambda>(elems, p).
             rbind (close_paren (ustr ''expected '' @ qt (ustr '')'')) p) (\<lambda>(_, p). Inr (ArrayL elems, p))))
         | LitArrayOpen \<Rightarrow> parse_array_literal elem p
         | ByteArrayOpen \<Rightarrow> parse_byte_array_literal p
         | ScaledLit _ _ _ _ \<Rightarrow> p_error p sp (ustr ''scaled-decimal literals are not supported inside literal arrays (a ScaledDecimal is built at runtime '' @ [8212] @ ustr '' use a brace array instead)'')
         | _ \<Rightarrow> p_error p sp (ustr ''invalid literal array element''))"

primrec parse_array_elem :: "nat \<Rightarrow> parser \<Rightarrow> literal parsed" where
  "parse_array_elem 0 p = Inl OutOfFuel"
| "parse_array_elem (Suc n) p = array_elem (parse_array_elem n) p"


definition array_literal :: "parser \<Rightarrow> literal parsed" where
  "array_literal p = parse_array_literal (parse_array_elem (Suc (unread p))) p"

subsection \<open>Expressions\<close>

text \<open>\<open>parse_dyn_array\<close>: the loop state is the list of elements.\<close>

definition parse_dyn_array :: "(parser \<Rightarrow> expr parsed) \<Rightarrow> parser \<Rightarrow> expr parsed" where
  "parse_dyn_array pe p =
     (let sp = cur_span p
      in rbind (p_bump p) (\<lambda>(_, p).
         rbind (if cur_tok p = RBrace then Inr ([], p)
                else parse_loop (\<lambda>elems p.
                  rbind (pe p) (\<lambda>(e, p).
                    if cur_tok p = Period then
                      rbind (p_bump p) (\<lambda>(_, p).
                        if cur_tok p = RBrace then Inr (Break (elems @ [e]), p) else Inr (Continue (elems @ [e]), p))
                    else Inr (Break (elems @ [e]), p))) [] p) (\<lambda>(elems, p).
         rbind (p_expect RBrace (ustr ''expected '' @ qt (ustr ''}'') @ ustr '' to close brace array'') p) (\<lambda>(_, p).
           Inr (DynArray elems sp, p)))))"

definition parse_optional_temps :: "parser \<Rightarrow> utext list parsed" where
  "parse_optional_temps p =
     (if cur_tok p = VBar then
        rbind (p_bump p) (\<lambda>(_, p).
        rbind (parse_loop (\<lambda>temps p.
            case cur_tok p of
              Ident n \<Rightarrow>
                rbind (check_not_reserved (cur_span p) n p) (\<lambda>(_, p).
                rbind (p_bump p) (\<lambda>(_, p). Inr (Continue (temps @ [n]), p)))
            | _ \<Rightarrow> Inr (Break temps, p)) [] p) (\<lambda>(temps, p).
        rbind (p_expect VBar (ustr ''expected closing '' @ qt (ustr ''|'') @ ustr '' after temporaries'') p) (\<lambda>(_, p).
          Inr (temps, p))))
      else Inr ([], p))"

definition parse_statement :: "(parser \<Rightarrow> expr parsed) \<Rightarrow> parser \<Rightarrow> expr parsed" where
  "parse_statement pe p =
     (if cur_tok p = Caret then
        (let sp = cur_span p
         in rbind (p_bump p) (\<lambda>(_, p). rbind (pe p) (\<lambda>(v, p). Inr (ReturnE v sp, p))))
      else pe p)"

definition parse_statements :: "(parser \<Rightarrow> expr parsed) \<Rightarrow> parser \<Rightarrow> expr list parsed" where
  "parse_statements pe p =
     (if cur_tok p = RBracket \<or> cur_tok p = Eof then Inr ([], p)
      else parse_loop (\<lambda>stmts p.
        rbind (parse_statement pe p) (\<lambda>(s, p).
          if cur_tok p = Period then
            rbind (p_bump p) (\<lambda>(_, p).
              if cur_tok p = RBracket \<or> cur_tok p = Eof then Inr (Break (stmts @ [s]), p) else Inr (Continue (stmts @ [s]), p))
          else Inr (Break (stmts @ [s]), p))) [] p)"

text \<open>A parameter name: an identifier that is not reserved.\<close>

definition parse_param :: "utext \<Rightarrow> parser \<Rightarrow> utext parsed" where
  "parse_param msg p =
     (let pspan = cur_span p
      in rbind (expect_ident msg p) (\<lambda>(n, p). rbind (check_not_reserved pspan n p) (\<lambda>(_, p). Inr (n, p))))"

definition parse_block_params :: "parser \<Rightarrow> utext list parsed" where
  "parse_block_params p =
     (if cur_tok p = Colon then
        rbind (parse_loop (\<lambda>params p.
            if cur_tok p = Colon then
              rbind (p_bump p) (\<lambda>(_, p).
              rbind (parse_param (ustr ''expected a parameter name after '' @ qt (ustr '':'')) p) (\<lambda>(name, p). Inr (Continue (params @ [name]), p)))
            else Inr (Break params, p)) [] p) (\<lambda>(params, p).
        rbind (p_expect VBar (ustr ''expected '' @ qt (ustr ''|'') @ ustr '' after block parameters'') p) (\<lambda>(_, p). Inr (params, p)))
      else Inr ([], p))"

definition parse_block :: "(parser \<Rightarrow> expr parsed) \<Rightarrow> parser \<Rightarrow> block_node parsed" where
  "parse_block pe p =
     (let sp = cur_span p
      in rbind (p_bump p) (\<lambda>(_, p).
         rbind (parse_block_params p) (\<lambda>(params, p).
         rbind (parse_optional_temps p) (\<lambda>(temps, p).
         rbind (parse_statements pe p) (\<lambda>(body, p).
         rbind (p_expect RBracket (ustr ''expected '' @ qt (ustr '']'') @ ustr '' to close block'') p) (\<lambda>(_, p).
           Inr (BlockNode params temps body sp 0, p)))))))"

text \<open>The reserved words of a primary; the flag says whether it was \<open>super\<close>.\<close>

definition ident_primary :: "utext \<Rightarrow> src_span \<Rightarrow> expr \<times> bool" where
  "ident_primary name sp =
     (if name = ustr ''self'' then (SelfRef sp, False)
      else if name = ustr ''super'' then (SelfRef sp, True)
      else if name = ustr ''nil'' then (Lit NilL sp, False)
      else if name = ustr ''true'' then (Lit TrueL sp, False)
      else if name = ustr ''false'' then (Lit FalseL sp, False)
      else (Var name sp, False))"

text \<open>A scaled decimal becomes a send to \<open>ScaledDecimal\<close>.\<close>

definition scaled_primary :: "bool \<Rightarrow> utext \<Rightarrow> utext \<Rightarrow> int \<Rightarrow> src_span \<Rightarrow> expr option" where
  "scaled_primary negative int_digits frac_digits scale sp = do {
     numerator \<leftarrow> intlit_to_literal negative 10 (int_digits @ frac_digits);
     denominator \<leftarrow> intlit_to_literal False 10 (ustr ''1'' @ replicate (length frac_digits) (uc CHR ''0''));
     Some (SendE (Var (ustr ''ScaledDecimal'') sp) (ustr ''numerator:denominator:scale:'')
             [Lit numerator sp, Lit denominator sp, Lit (IntL scale) sp] False sp)
   }"

definition parse_primary :: "(parser \<Rightarrow> expr parsed) \<Rightarrow> parser \<Rightarrow> (expr \<times> bool) parsed" where
  "parse_primary pe p =
     (let sp = cur_span p
      in case cur_tok p of
           Ident name \<Rightarrow> rbind (p_bump p) (\<lambda>(_, p). Inr (ident_primary name sp, p))
         | LParen \<Rightarrow>
             rbind (p_bump p) (\<lambda>(_, p).
             rbind (pe p) (\<lambda>(e, p).
             rbind (close_paren (ustr ''expected '' @ qt (ustr '')'')) p) (\<lambda>(_, p). Inr ((e, False), p))))
         | LBracket \<Rightarrow> rbind (parse_block pe p) (\<lambda>(b, p). Inr ((BlockE b, False), p))
         | IntLit negative radix digits \<Rightarrow>
             rbind (p_bump p) (\<lambda>(_, p).
             rbind (or_panic (intlit_to_literal negative radix digits) p) (\<lambda>(l, p). Inr ((Lit l sp, False), p)))
         | FloatLit neg v \<Rightarrow> rbind (p_bump p) (\<lambda>(_, p). Inr ((Lit (FloatL neg v) sp, False), p))
         | ScaledLit negative int_digits frac_digits scale \<Rightarrow>
             rbind (p_bump p) (\<lambda>(_, p).
             rbind (or_panic (scaled_primary negative int_digits frac_digits scale sp) p) (\<lambda>(e, p). Inr ((e, False), p)))
         | CharLit c \<Rightarrow> rbind (p_bump p) (\<lambda>(_, p). Inr ((Lit (CharL c) sp, False), p))
         | StrLit s \<Rightarrow> rbind (p_bump p) (\<lambda>(_, p). Inr ((Lit (StrL s) sp, False), p))
         | SymLit s \<Rightarrow> rbind (p_bump p) (\<lambda>(_, p). Inr ((Lit (SymbolL s) sp, False), p))
         | LitArrayOpen \<Rightarrow> rbind (array_literal p) (\<lambda>(l, p). Inr ((Lit l sp, False), p))
         | ByteArrayOpen \<Rightarrow> rbind (parse_byte_array_literal p) (\<lambda>(l, p). Inr ((Lit l sp, False), p))
         | LBrace \<Rightarrow> rbind (parse_dyn_array pe p) (\<lambda>(e, p). Inr ((e, False), p))
         | _ \<Rightarrow> p_error p sp (ustr ''expected an expression''))"

text \<open>The message chains; the mutable flag \<open>is_super\<close> is part of argument and result.\<close>

definition parse_unary_chain :: "expr \<Rightarrow> bool \<Rightarrow> parser \<Rightarrow> (expr \<times> bool) parsed" where
  "parse_unary_chain e is_super p = parse_loop (\<lambda>(e, is_super) p.
     case cur_tok p of
       Ident name \<Rightarrow>
         (let sp = cur_span p
          in rbind (p_bump p) (\<lambda>(_, p). Inr (Continue (SendE e name [] is_super sp, False), p)))
     | _ \<Rightarrow> Inr (Break (e, is_super), p)) (e, is_super) p"

definition binary_op :: "tok \<Rightarrow> utext option" where
  "binary_op t = (case t of BinarySel s \<Rightarrow> Some s | VBar \<Rightarrow> Some (ustr ''|'') | _ \<Rightarrow> None)"

definition parse_binary_chain :: "(parser \<Rightarrow> expr parsed) \<Rightarrow> expr \<Rightarrow> bool \<Rightarrow> parser \<Rightarrow> (expr \<times> bool) parsed" where
  "parse_binary_chain pe base is_super p =
     rbind (parse_unary_chain base is_super p) (\<lambda>(st, p). parse_loop (\<lambda>(e, is_super) p.
       case binary_op (cur_tok p) of
         None \<Rightarrow> Inr (Break (e, is_super), p)
       | Some sel \<Rightarrow>
           (let sp = cur_span p
            in rbind (p_bump p) (\<lambda>(_, p).
               rbind (parse_primary pe p) (\<lambda>((rhs_primary, rhs_is_super), p).
               rbind (parse_unary_chain rhs_primary rhs_is_super p) (\<lambda>((rhs, _), p).
                 Inr (Continue (SendE e sel [rhs] is_super sp, False), p)))))) st p)"

definition parse_keyword_arg :: "(parser \<Rightarrow> expr parsed) \<Rightarrow> parser \<Rightarrow> expr parsed" where
  "parse_keyword_arg pe p =
     rbind (parse_primary pe p) (\<lambda>((arg_primary, arg_is_super), p).
     rbind (parse_binary_chain pe arg_primary arg_is_super p) (\<lambda>((arg, _), p). Inr (arg, p)))"

definition parse_keyword_args :: "(parser \<Rightarrow> expr parsed) \<Rightarrow> parser \<Rightarrow> (utext \<times> expr list) parsed" where
  "parse_keyword_args pe p = parse_loop (\<lambda>(sel, args) p.
     case cur_tok p of
       Keyword k \<Rightarrow>
         rbind (p_bump p) (\<lambda>(_, p).
         rbind (parse_keyword_arg pe p) (\<lambda>(arg, p).
           Inr (Continue (sel @ k, args @ [arg]), p)))
     | _ \<Rightarrow> Inr (Break (sel, args), p)) ([], []) p"

definition parse_keyword_chain :: "(parser \<Rightarrow> expr parsed) \<Rightarrow> expr \<Rightarrow> bool \<Rightarrow> parser \<Rightarrow> (expr \<times> bool) parsed" where
  "parse_keyword_chain pe base is_super p =
     rbind (parse_binary_chain pe base is_super p) (\<lambda>((e, is_super), p).
       case cur_tok p of
         Keyword _ \<Rightarrow>
           (let sp = cur_span p
            in rbind (parse_keyword_args pe p) (\<lambda>((sel, args), p). Inr ((SendE e sel args is_super sp, False), p)))
       | _ \<Rightarrow> Inr ((e, is_super), p))"

definition parse_keyword_expr :: "(parser \<Rightarrow> expr parsed) \<Rightarrow> parser \<Rightarrow> expr parsed" where
  "parse_keyword_expr pe p =
     (let start = cur_span p
      in rbind (parse_primary pe p) (\<lambda>((base, is_super), p).
         rbind (parse_keyword_chain pe base is_super p) (\<lambda>((e, is_super), p).
           if is_super then p_error p start (qt (ustr ''super'') @ ustr '' must be the receiver of a message send'')
           else Inr (e, p))))"

definition parse_cascade_segments :: "(parser \<Rightarrow> expr parsed) \<Rightarrow> bool \<Rightarrow> src_span \<Rightarrow> expr \<Rightarrow> parser \<Rightarrow> expr list parsed" where
  "parse_cascade_segments pe is_super rcvr_span first p = parse_loop (\<lambda>segments p.
     if cur_tok p = Semi then
       rbind (p_bump p) (\<lambda>(_, p).
         let seg_start = cur_span p
         in rbind (parse_keyword_chain pe (CascadeRcvr rcvr_span) is_super p) (\<lambda>((seg, _), p).
              case seg of
                CascadeRcvr _ \<Rightarrow> p_error p seg_start (ustr ''cascade segment has no message'')
              | _ \<Rightarrow> Inr (Continue (segments @ [seg]), p)))
     else Inr (Break segments, p)) [first] p"

definition parse_cascade :: "(parser \<Rightarrow> expr parsed) \<Rightarrow> parser \<Rightarrow> expr parsed" where
  "parse_cascade pe p =
     (let cascade_span = cur_span p
      in rbind (parse_keyword_expr pe p) (\<lambda>(first, p).
         if cur_tok p \<noteq> Semi then Inr (first, p)
         else case first of
           SendE receiver selector args is_super send_span \<Rightarrow>
             (let rcvr_span = expr_span receiver
              in rbind (parse_cascade_segments pe is_super rcvr_span
                          (SendE (CascadeRcvr rcvr_span) selector args is_super send_span) p) (\<lambda>(segments, p).
                   Inr (CascadeE receiver segments cascade_span, p)))
         | other \<Rightarrow> p_error p (expr_span other) (ustr ''cascade requires a message send'')))"

definition expression_body :: "(parser \<Rightarrow> expr parsed) \<Rightarrow> parser \<Rightarrow> expr parsed" where
  "expression_body pe p =
     (case cur_tok p of
        Ident name \<Rightarrow>
          rbind (peek2 p) (\<lambda>(t, p).
            if t = Assign then
              (let sp = cur_span p
               in rbind (check_not_reserved sp name p) (\<lambda>(_, p).
                  rbind (p_bump p) (\<lambda>(_, p).
                  rbind (p_bump p) (\<lambda>(_, p).
                  rbind (pe p) (\<lambda>(v, p). Inr (AssignE name v sp, p))))))
            else parse_cascade pe p)
      | _ \<Rightarrow> parse_cascade pe p)"

primrec parse_expression :: "nat \<Rightarrow> parser \<Rightarrow> expr parsed" where
  "parse_expression 0 p = Inl OutOfFuel"
| "parse_expression (Suc n) p = expression_body (parse_expression n) p"

definition expression :: "parser \<Rightarrow> expr parsed" where
  "expression p = parse_expression (Suc (unread p)) p"


subsection \<open>Pragmas\<close>

definition is_op :: "string \<Rightarrow> tok \<Rightarrow> bool" where
  "is_op s t \<longleftrightarrow> t = BinarySel (ustr s)"

definition p_pragma_mode :: "bool \<Rightarrow> parser \<Rightarrow> parser" where
  "p_pragma_mode v p = p\<lparr>p_lx := set_pragma_mode v (p_lx p)\<rparr>"

text \<open>The nesting depth is the loop state; it is positive, so the unsigned decrement does not wrap.\<close>

definition skip_pragma_body :: "nat \<Rightarrow> parser \<Rightarrow> unit parsed" where
  "skip_pragma_body depth p = parse_loop (\<lambda>depth p.
     if is_op ''<'' (cur_tok p) then rbind (p_bump p) (\<lambda>(_, p). Inr (Continue (depth + 1), p))
     else if is_op ''>'' (cur_tok p) then
       (let depth = depth - 1;
            p = (if depth = 0 then p_pragma_mode False p else p)
        in rbind (p_bump p) (\<lambda>(_, p). Inr (if depth = 0 then Break () else Continue depth, p)))
     else if cur_tok p = Eof then p_error p (cur_span p) (ustr ''unterminated pragma'')
     else rbind (p_bump p) (\<lambda>(_, p). Inr (Continue depth, p))) depth p"

definition expect_ffi_sym :: "utext \<Rightarrow> parser \<Rightarrow> utext parsed" where
  "expect_ffi_sym ctx p =
     (case cur_tok p of
        SymLit s \<Rightarrow> rbind (p_bump p) (\<lambda>(_, p). Inr (s, p))
      | _ \<Rightarrow> p_error p (cur_span p) (ustr ''expected a symbol literal (#foo) after '' @ qt ctx))"

definition expect_ffi_bool :: "utext \<Rightarrow> parser \<Rightarrow> bool parsed" where
  "expect_ffi_bool ctx p =
     (if cur_tok p = Ident (ustr ''true'') then rbind (p_bump p) (\<lambda>(_, p). Inr (True, p))
      else if cur_tok p = Ident (ustr ''false'') then rbind (p_bump p) (\<lambda>(_, p). Inr (False, p))
      else p_error p (cur_span p) (ustr ''expected '' @ qt (ustr ''true'') @ ustr '' or '' @ qt (ustr ''false'') @ ustr '' after '' @ qt ctx))"

fun symbols_of :: "literal list \<Rightarrow> utext list option" where
  "symbols_of [] = Some []"
| "symbols_of (SymbolL s # ls) = map_option ((#) s) (symbols_of ls)"
| "symbols_of (_ # ls) = None"

definition expect_ffi_sym_array :: "utext \<Rightarrow> parser \<Rightarrow> utext list parsed" where
  "expect_ffi_sym_array ctx p =
     (if cur_tok p \<noteq> LitArrayOpen then p_error p (cur_span p) (ustr ''expected '' @ qt (ustr ''#('') @ ustr '' after '' @ qt ctx)
      else
        let sp = cur_span p
        in rbind (array_literal p) (\<lambda>(l, p).
             case l of
               ArrayL elems \<Rightarrow>
                 (case symbols_of elems of
                    Some ss \<Rightarrow> Inr (ss, p)
                  | None \<Rightarrow> p_error p sp (qt ctx @ ustr '' array elements must be bare shape symbols (g, f, h4, '' @ [8230] @ ustr '')''))
             | _ \<Rightarrow> Inl Panic))"

record ffi_parts =
  fp_function :: "utext option"
  fp_selector :: "utext option"
  fp_class :: "utext option"
  fp_class_side :: "bool option"
  fp_ret :: "utext option"
  fp_args :: "utext list option"

definition dup_check :: "'a option \<Rightarrow> src_span \<Rightarrow> utext \<Rightarrow> parser \<Rightarrow> unit parsed" where
  "dup_check slot start name p =
     (if slot \<noteq> None then p_error p start (ustr ''duplicate '' @ qt name @ ustr '' in FFI pragma'') else Inr ((), p))"

text \<open>One keyword part of the pragma, after the keyword has been read.\<close>

definition ffi_part :: "src_span \<Rightarrow> utext \<Rightarrow> ffi_parts \<Rightarrow> parser \<Rightarrow> ffi_parts parsed" where
  "ffi_part start k fp p =
     (if k = ustr ''function:'' then
        rbind (dup_check (fp_function fp) start k p) (\<lambda>(_, p). rbind (expect_ffi_sym k p) (\<lambda>(s, p). Inr (fp\<lparr>fp_function := Some s\<rparr>, p)))
      else if k = ustr ''selector:'' then
        rbind (dup_check (fp_selector fp) start k p) (\<lambda>(_, p). rbind (expect_ffi_sym k p) (\<lambda>(s, p). Inr (fp\<lparr>fp_selector := Some s\<rparr>, p)))
      else if k = ustr ''class:'' then
        rbind (dup_check (fp_class fp) start k p) (\<lambda>(_, p). rbind (expect_ffi_sym k p) (\<lambda>(s, p). Inr (fp\<lparr>fp_class := Some s\<rparr>, p)))
      else if k = ustr ''classSide:'' then
        rbind (dup_check (fp_class_side fp) start k p) (\<lambda>(_, p). rbind (expect_ffi_bool k p) (\<lambda>(b, p). Inr (fp\<lparr>fp_class_side := Some b\<rparr>, p)))
      else if k = ustr ''ret:'' then
        rbind (dup_check (fp_ret fp) start k p) (\<lambda>(_, p). rbind (expect_ffi_sym k p) (\<lambda>(s, p). Inr (fp\<lparr>fp_ret := Some s\<rparr>, p)))
      else if k = ustr ''args:'' then
        rbind (dup_check (fp_args fp) start k p) (\<lambda>(_, p). rbind (expect_ffi_sym_array k p) (\<lambda>(ss, p). Inr (fp\<lparr>fp_args := Some ss\<rparr>, p)))
      else p_error p start (ustr ''unknown keyword '' @ qt k @ ustr '' in <primitive: FFI '' @ [8230] @ ustr ''>''))"

definition ffi_loop :: "src_span \<Rightarrow> parser \<Rightarrow> ffi_parts parsed" where
  "ffi_loop start p = parse_loop (\<lambda>fp p.
     if is_op ''>'' (cur_tok p) then Inr (Break fp, p)
     else case cur_tok p of
       Keyword k \<Rightarrow> rbind (p_bump p) (\<lambda>(_, p). rbind (ffi_part start k fp p) (\<lambda>(fp, p). Inr (Continue fp, p)))
     | _ \<Rightarrow> p_error p (cur_span p) (ustr ''expected a keyword part (function:/selector:/class:/classSide:/ret:/args:) in <primitive: FFI '' @ [8230] @ ustr ''>''))
     \<lparr>fp_function = None, fp_selector = None, fp_class = None, fp_class_side = None, fp_ret = None, fp_args = None\<rparr> p"

definition parse_ffi_pragma_body :: "src_span \<Rightarrow> parser \<Rightarrow> ffi_pragma parsed" where
  "parse_ffi_pragma_body start p =
     rbind (ffi_loop start p) (\<lambda>(fp, p).
     rbind (p_bump (p_pragma_mode False p)) (\<lambda>(_, p).
       case fp_ret fp of
         None \<Rightarrow> p_error p start (ustr ''FFI pragma missing '' @ qt (ustr ''ret:''))
       | Some ret \<Rightarrow>
           (let args = (case fp_args fp of Some a \<Rightarrow> a | None \<Rightarrow> [])
            in case (fp_function fp, fp_selector fp) of
                 (Some name, None) \<Rightarrow> Inr (FfiFunction name ret args, p)
               | (None, Some selector) \<Rightarrow>
                   (case fp_class fp of
                      None \<Rightarrow> p_error p start (ustr ''FFI '' @ qt (ustr ''selector:'') @ ustr '' pragma missing '' @ qt (ustr ''class:''))
                    | Some cls \<Rightarrow> Inr (FfiSelector selector cls (case fp_class_side fp of Some b \<Rightarrow> b | None \<Rightarrow> False) ret args, p))
               | (Some _, Some _) \<Rightarrow> p_error p start (ustr ''FFI pragma must not specify both '' @ qt (ustr ''function:'') @ ustr '' (Tier 1) and ''
                     @ qt (ustr ''selector:'') @ ustr '' (Tier 2)'')
               | (None, None) \<Rightarrow> p_error p start (ustr ''FFI pragma needs '' @ qt (ustr ''function:'') @ ustr '' (Tier 1, POSIX) or ''
                     @ qt (ustr ''selector:'') @ ustr '' (Tier 2, Cocoa)''))))"

text \<open>The integer form, after \<open>primitive:\<close>.\<close>

definition parse_primitive_id :: "src_span \<Rightarrow> parser \<Rightarrow> int parsed" where
  "parse_primitive_id start p =
     (case cur_tok p of
        IntLit negative radix digits \<Rightarrow>
          rbind (p_bump p) (\<lambda>(_, p).
            if \<not> is_op ''>'' (cur_tok p) then p_error p start (ustr ''expected '' @ qt (ustr ''>'') @ ustr '' to close <primitive: N>'')
            else rbind (p_bump (p_pragma_mode False p)) (\<lambda>(_, p).
              if negative then p_error p start (ustr ''primitive id must not be negative'')
              else rbind (or_panic (int_lit_magnitude radix digits) p) (\<lambda>(mag, p).
                let v = le_value (take 8 mag)
                in if length mag > 8 \<or> v = 0 \<or> v > 65535 then p_error p start (ustr ''primitive id out of range 1..=65535'')
                   else Inr (v, p))))
      | _ \<Rightarrow> p_error p start (ustr ''expected an integer after <primitive:''))"

definition parse_method_pragma :: "parser \<Rightarrow> (int option \<times> ffi_pragma option) parsed" where
  "parse_method_pragma p =
     (let start = cur_span p
      in rbind (p_bump (p_pragma_mode True p)) (\<lambda>(_, p).
           if cur_tok p = Keyword (ustr ''primitive:'') then
             rbind (p_bump p) (\<lambda>(_, p).
               if cur_tok p = Ident (ustr ''FFI'') then
                 rbind (p_bump p) (\<lambda>(_, p). rbind (parse_ffi_pragma_body start p) (\<lambda>(ffi, p). Inr ((None, Some ffi), p)))
               else rbind (parse_primitive_id start p) (\<lambda>(v, p). Inr ((Some v, None), p)))
           else rbind (skip_pragma_body 1 p) (\<lambda>(_, p). Inr ((None, None), p))))"

definition parse_ident_run :: "parser \<Rightarrow> utext list parsed" where
  "parse_ident_run p = parse_loop (\<lambda>names p.
     case cur_tok p of
       Ident n \<Rightarrow> rbind (p_bump p) (\<lambda>(_, p). Inr (Continue (names @ [n]), p))
     | _ \<Rightarrow> Inr (Break names, p)) [] p"

definition parse_class_pragma :: "parser \<Rightarrow> class_pragma parsed" where
  "parse_class_pragma p =
     (let start = cur_span p
      in rbind (p_bump (p_pragma_mode True p)) (\<lambda>(_, p).
           if cur_tok p = Keyword (ustr ''indexable:'') then
             rbind (p_bump p) (\<lambda>(_, p).
               case cur_tok p of
                 Ident kind \<Rightarrow>
                   rbind (p_bump p) (\<lambda>(_, p).
                     if is_op ''>'' (cur_tok p) then
                       rbind (p_bump (p_pragma_mode False p)) (\<lambda>(_, p).
                         if kind = ustr ''oops'' then Inr (PIndexable IxOops, p)
                         else if kind = ustr ''bytes'' then Inr (PIndexable IxBytes, p)
                         else p_error p start (ustr ''<indexable:> argument must be '' @ qt (ustr ''oops'') @ ustr '' or '' @ qt (ustr ''bytes'') @ ustr '', got '' @ qt kind))
                     else p_error p start (ustr ''malformed <indexable:> pragma''))
               | _ \<Rightarrow> p_error p start (ustr ''malformed <indexable:> pragma''))
           else if cur_tok p = Keyword (ustr ''classVars:'') then
             rbind (p_bump p) (\<lambda>(_, p).
             rbind (parse_ident_run p) (\<lambda>(names, p).
               if is_op ''>'' (cur_tok p) then rbind (p_bump (p_pragma_mode False p)) (\<lambda>(_, p). Inr (PClassVars names, p))
               else p_error p start (ustr ''malformed <classVars:> pragma'')))
           else rbind (skip_pragma_body 1 p) (\<lambda>(_, p). Inr (PIgnored, p))))"

subsection \<open>Methods and classes\<close>

definition parse_pattern :: "parser \<Rightarrow> (utext \<times> utext list) parsed" where
  "parse_pattern p =
     (case cur_tok p of
        Ident name \<Rightarrow> rbind (p_bump p) (\<lambda>(_, p). Inr ((name, []), p))
      | BinarySel sel \<Rightarrow>
          rbind (p_bump p) (\<lambda>(_, p). rbind (parse_param (ustr ''expected a parameter name after binary selector'') p) (\<lambda>(n, p). Inr ((sel, [n]), p)))
      | VBar \<Rightarrow>
          rbind (p_bump p) (\<lambda>(_, p). rbind (parse_param (ustr ''expected a parameter name after '' @ qt (ustr ''|'')) p) (\<lambda>(n, p). Inr ((ustr ''|'', [n]), p)))
      | Keyword _ \<Rightarrow> parse_loop (\<lambda>(sel, params) p.
          case cur_tok p of
            Keyword k \<Rightarrow>
              rbind (p_bump p) (\<lambda>(_, p).
              rbind (parse_param (ustr ''expected a parameter name after keyword'') p) (\<lambda>(n, p). Inr (Continue (sel @ k, params @ [n]), p)))
          | _ \<Rightarrow> Inr (Break (sel, params), p)) ([], []) p
      | _ \<Rightarrow> p_error p (cur_span p) (ustr ''invalid method pattern''))"

definition parse_pragmas :: "parser \<Rightarrow> (int option \<times> ffi_pragma option) parsed" where
  "parse_pragmas p = parse_loop (\<lambda>(primitive, ffi) p.
     if is_op ''<'' (cur_tok p) then
       (let prim_span = cur_span p
        in rbind (parse_method_pragma p) (\<lambda>((i, pragma_ffi), p).
             if i \<noteq> None \<or> pragma_ffi \<noteq> None then
               (if primitive \<noteq> None \<or> ffi \<noteq> None then p_error p prim_span (ustr ''duplicate primitive pragma'')
                else Inr (Continue (i, pragma_ffi), p))
             else Inr (Continue (primitive, ffi), p)))
     else Inr (Break (primitive, ffi), p)) (None, None) p"

definition parse_method_body :: "parser \<Rightarrow> (int option \<times> ffi_pragma option \<times> utext list \<times> expr list) parsed" where
  "parse_method_body p =
     rbind (parse_pragmas p) (\<lambda>((primitive, ffi), p).
     rbind (parse_optional_temps p) (\<lambda>(temps, p).
     rbind (parse_statements expression p) (\<lambda>(body, p). Inr ((primitive, ffi, temps, body), p))))"

definition parse_method :: "bool \<Rightarrow> parser \<Rightarrow> method_node parsed" where
  "parse_method class_side p =
     (let sp = cur_span p
      in rbind (parse_pattern p) (\<lambda>((sel, params), p).
         rbind (p_expect LBracket (ustr ''expected '' @ qt (ustr ''['') @ ustr '' to start method body'') p) (\<lambda>(_, p).
         rbind (parse_method_body p) (\<lambda>((primitive, ffi, temps, body), p).
         rbind (p_expect RBracket (ustr ''expected '' @ qt (ustr '']'') @ ustr '' to close method body'') p) (\<lambda>(_, p).
           Inr (\<lparr>pattern_selector = sel, mn_params = params, mn_primitive = primitive, mn_ffi = ffi, mn_temps = temps, mn_body = body,
                 mn_class_side = class_side, mn_span = sp\<rparr>, p))))))"

text \<open>The state of the class-body loop: indexable, instance variables, class variables, methods.\<close>

type_synonym class_body = "indexable option \<times> utext list \<times> utext list \<times> method_node list"

definition class_bar_item :: "class_body \<Rightarrow> parser \<Rightarrow> class_body parsed" where
  "class_bar_item cb p =
     (case cb of (ix, ivs, cvs, ms) \<Rightarrow>
      rbind (p_bump p) (\<lambda>(_, p).
      rbind (case cur_tok p of Ident _ \<Rightarrow> rbind (peek2 p) (\<lambda>(t, p). Inr (t = LBracket, p)) | _ \<Rightarrow> Inr (False, p)) (\<lambda>(is_binary_method, p).
        if is_binary_method then
          (let mspan = cur_span p
           in rbind (parse_param (ustr ''expected a parameter name'') p) (\<lambda>(param, p).
              rbind (p_expect LBracket (ustr ''expected '' @ qt (ustr ''['')) p) (\<lambda>(_, p).
              rbind (parse_method_body p) (\<lambda>((primitive, ffi, temps, body), p).
              rbind (p_expect RBracket (ustr ''expected '' @ qt (ustr '']'')) p) (\<lambda>(_, p).
                Inr ((ix, ivs, cvs, ms @ [\<lparr>pattern_selector = ustr ''|'', mn_params = [param], mn_primitive = primitive, mn_ffi = ffi,
                   mn_temps = temps, mn_body = body, mn_class_side = False, mn_span = mspan\<rparr>]), p))))))
        else
          rbind (parse_loop (\<lambda>names p.
              case cur_tok p of
                Ident n \<Rightarrow> rbind (check_not_reserved (cur_span p) n p) (\<lambda>(_, p). rbind (p_bump p) (\<lambda>(_, p). Inr (Continue (names @ [n]), p)))
              | _ \<Rightarrow> Inr (Break names, p)) [] p) (\<lambda>(names, p).
          rbind (p_expect VBar (ustr ''expected closing '' @ qt (ustr ''|'') @ ustr '' after instance variables'') p) (\<lambda>(_, p).
            Inr ((ix, ivs @ names, cvs, ms), p))))))"

definition class_ident_item :: "utext \<Rightarrow> utext \<Rightarrow> parser \<Rightarrow> method_node parsed" where
  "class_ident_item name ident_name p =
     rbind (peek2 p) (\<lambda>(t, p).
       if t = Ident (ustr ''class'') then
         (let mspan = cur_span p
          in rbind (p_bump p) (\<lambda>(_, p).
             rbind (p_bump p) (\<lambda>(_, p).
               if ident_name \<noteq> name then
                 p_error p mspan (qt (ident_name @ ustr '' class'') @ ustr '' does not match the class being defined ('' @ qt name @ ustr '')'')
               else if \<not> is_op ''>>'' (cur_tok p) then p_error p (cur_span p) (ustr ''expected '' @ qt (ustr ''>>'') @ ustr '' after '' @ qt (ustr ''class''))
               else rbind (p_bump p) (\<lambda>(_, p). parse_method True p))))
       else parse_method False p)"

definition class_less_item :: "class_body \<Rightarrow> parser \<Rightarrow> class_body parsed" where
  "class_less_item cb p =
     (case cb of (ix, ivs, cvs, ms) \<Rightarrow>
      rbind (peek2 p) (\<lambda>(t, p).
        case t of
          Ident _ \<Rightarrow> rbind (parse_method False p) (\<lambda>(m, p). Inr ((ix, ivs, cvs, ms @ [m]), p))
        | _ \<Rightarrow>
            rbind (parse_class_pragma p) (\<lambda>(pr, p).
              Inr (case pr of
                     PIndexable ind \<Rightarrow> (Some ind, ivs, cvs, ms)
                   | PClassVars names \<Rightarrow> (ix, ivs, cvs @ names, ms)
                   | PIgnored \<Rightarrow> (ix, ivs, cvs, ms), p))))"

definition class_item :: "utext \<Rightarrow> class_body \<Rightarrow> parser \<Rightarrow> (class_body, class_body) turn parsed" where
  "class_item name cb p =
     (case cb of (ix, ivs, cvs, ms) \<Rightarrow>
      if cur_tok p = RBracket then Inr (Break cb, p)
      else if cur_tok p = Eof then p_error p (cur_span p) (ustr ''unexpected end of input in class body'')
      else if is_op ''<'' (cur_tok p) then rbind (class_less_item cb p) (\<lambda>(cb, p). Inr (Continue cb, p))
      else case cur_tok p of
        VBar \<Rightarrow> rbind (class_bar_item cb p) (\<lambda>(cb, p). Inr (Continue cb, p))
      | Ident ident_name \<Rightarrow> rbind (class_ident_item name ident_name p) (\<lambda>(m, p). Inr (Continue (ix, ivs, cvs, ms @ [m]), p))
      | BinarySel _ \<Rightarrow> rbind (parse_method False p) (\<lambda>(m, p). Inr (Continue (ix, ivs, cvs, ms @ [m]), p))
      | Keyword _ \<Rightarrow> rbind (parse_method False p) (\<lambda>(m, p). Inr (Continue (ix, ivs, cvs, ms @ [m]), p))
      | _ \<Rightarrow> p_error p (cur_span p) (ustr ''expected a class item''))"

definition parse_class_def :: "parser \<Rightarrow> class_def_node parsed" where
  "parse_class_def p =
     (let sp = cur_span p
      in rbind (expect_ident (ustr ''expected superclass name'') p) (\<lambda>(superclass, p).
         rbind (expect_keyword (ustr ''subclass:'') p) (\<lambda>(_, p).
         rbind (expect_ident (ustr ''expected new class name'') p) (\<lambda>(name, p).
         rbind (p_expect LBracket (ustr ''expected '' @ qt (ustr ''['') @ ustr '' to start class body'') p) (\<lambda>(_, p).
         rbind (parse_loop (class_item name) (None, [], [], []) p) (\<lambda>((ix, ivs, cvs, ms), p).
         rbind (p_bump p) (\<lambda>(_, p).
           Inr (\<lparr>cd_superclass = superclass, cd_name = name, cd_indexable = ix, cd_inst_vars = ivs, cd_class_vars = cvs,
                 cd_methods = ms, cd_span = sp\<rparr>, p))))))))"

subsection \<open>Files\<close>

definition at_class_def :: "parser \<Rightarrow> bool parsed" where
  "at_class_def p =
     (case cur_tok p of
        Ident _ \<Rightarrow> rbind (peek2 p) (\<lambda>(t, p). Inr (t = Keyword (ustr ''subclass:''), p))
      | _ \<Rightarrow> Inr (False, p))"

definition parse_items :: "parser \<Rightarrow> top_item list parsed" where
  "parse_items p = parse_loop (\<lambda>items p.
     if cur_tok p = Eof then Inr (Break items, p)
     else
       rbind (at_class_def p) (\<lambda>(is_class_def, p).
         if is_class_def then rbind (parse_class_def p) (\<lambda>(c, p). Inr (Continue (items @ [ClassDef c]), p))
         else
           rbind (parse_statement expression p) (\<lambda>(s, p).
           rbind (p_expect Period (ustr ''expected '' @ qt (ustr ''.'') @ ustr '' after top-level statement'') p) (\<lambda>(_, p).
             Inr (Continue (items @ [DoIt s]), p))))) [] p"

definition parse_file :: "utext \<Rightarrow> p_stop + top_item list" where
  "parse_file input = rbind (new_parser input) (\<lambda>p. rbind (parse_items p) (\<lambda>(items, _). Inr items))"

definition one_item :: "parser \<Rightarrow> top_item parsed" where
  "one_item p =
     rbind (at_class_def p) (\<lambda>(is_class_def, p).
       if is_class_def then rbind (parse_class_def p) (\<lambda>(c, p). Inr (ClassDef c, p))
       else
         rbind (parse_statement expression p) (\<lambda>(s, p).
         rbind (if cur_tok p \<noteq> Eof then p_expect Period (ustr ''expected '' @ qt (ustr ''.'') @ ustr '' after statement'') p else Inr ((), p)) (\<lambda>(_, p).
           Inr (DoIt s, p))))"

definition parse_one_top_item :: "utext \<Rightarrow> p_stop + top_item option" where
  "parse_one_top_item input =
     rbind (new_parser input) (\<lambda>p. if cur_tok p = Eof then Inr None else rbind (one_item p) (\<lambda>(x, _). Inr (Some x)))"

end
