(* ===== verification/Parser_Sound.thy ===== *)
theory Parser_Sound
  imports Parser
begin

text \<open>
  The parser is total and builds only well-formed trees. \<open>pok m R\<close> says that a parse ends with a compile error or with a
  value and a state related by \<open>R\<close>; it rules out panics and exhausted fuel. The lemmas follow the structure of the parser; the part that
  is common to all expression parsers, whatever the fuel, is proved in the locale \<open>expr_parser\<close>, and the message chains, which the code uses both for ordinary
  expressions and for cascade segments, in \<open>message_chain\<close>.
\<close>

subsection \<open>What the lexer promises of its tokens\<close>

fun tok_ok :: "tok \<Rightarrow> bool" where
  "tok_ok (Ident s) \<longleftrightarrow> is_ident s"
| "tok_ok (Keyword s) \<longleftrightarrow> (\<exists>i. s = i @ [uc CHR '':''] \<and> is_ident i)"
| "tok_ok (BinarySel s) \<longleftrightarrow> s \<noteq> [] \<and> list_all is_binary_char s"
| "tok_ok (IntLit _ r d) \<longleftrightarrow> 2 \<le> r \<and> r \<le> 36 \<and> list_all (\<lambda>c. \<not> bad_digit r c) d"
| "tok_ok (ScaledLit _ i f s) \<longleftrightarrow> list_all is_ascii_digit i \<and> list_all is_ascii_digit f \<and> 0 \<le> s \<and> s \<le> 0xFFFF"
| "tok_ok _ \<longleftrightarrow> True"

lemma consume_while_all: "consume_while pred lx = (s, lx') \<Longrightarrow> list_all pred s"
proof (induction pred lx arbitrary: s lx' rule: consume_while.induct)
  case (1 pred lx)
  show ?case
  proof (cases "peek_char lx")
    case None
    then show ?thesis using "1.prems" by (subst (asm) consume_while.simps) simp
  next
    case (Some c)
    then show ?thesis using "1.IH" [OF Some] "1.prems"
      by (subst (asm) consume_while.simps) (auto split: if_splits prod.splits)
  qed
qed

lemma consume_while_nonempty: "consume_while pred lx = (s, lx') \<Longrightarrow> peek_char lx = Some c \<Longrightarrow> pred c \<Longrightarrow> s \<noteq> [] \<and> hd s = c"
  by (subst (asm) consume_while.simps) (auto split: prod.splits)

lemma digit_good: "is_ascii_digit c \<Longrightarrow> \<not> bad_digit 10 c"
  by (simp add: bad_digit_def to_digit36_def is_ascii_digit_def)

lemma digits_good: "list_all is_ascii_digit d \<Longrightarrow> list_all (\<lambda>c. \<not> bad_digit 10 c) d"
  by (auto simp: list_all_iff digit_good)

lemma parse_u32_bounds: "parse_u32 s = Some v \<Longrightarrow> 0 \<le> v"
proof -
  have "0 \<le> foldl (\<lambda>a c. 10 * a + (c - 48)) a s" if "list_all is_ascii_digit s" "0 \<le> a" for a :: int
    using that by (induction s arbitrary: a) (auto simp: is_ascii_digit_def)
  then show "parse_u32 s = Some v \<Longrightarrow> 0 \<le> v" by (auto simp: parse_u32_def decimal_value_def split: if_splits)
qed

lemma scale_ok: "try_consume_scale d st lx = Inr (Some sc, lx') \<Longrightarrow> 0 \<le> d \<Longrightarrow> d \<le> 0xFFFF \<Longrightarrow> 0 \<le> sc \<and> sc \<le> 0xFFFF"
  by (auto simp: try_consume_scale_def Let_def case_prod_beta split: if_splits option.splits dest: parse_u32_bounds)

lemma lex_radix_ok: "lex_radix neg st lead lx = Inr (t, lx') \<Longrightarrow> tok_ok t"
  by (auto simp: lex_radix_def Let_def case_prod_beta find_None_iff list_all_iff split: if_splits option.splits)

lemma lex_fraction_ok: "list_all is_ascii_digit lead \<Longrightarrow> lex_fraction neg st lead lx = Inr (t, lx') \<Longrightarrow> tok_ok t"
proof -
  assume l: "list_all is_ascii_digit lead" "lex_fraction neg st lead lx = Inr (t, lx')"
  obtain frac lx1 where f: "consume_while is_ascii_digit (skip lx) = (frac, lx1)" by fastforce
  then show "tok_ok t" using l consume_while_all [OF f] scale_ok [of "min (int (length frac)) 0xFFFF" st lx1]
    by (auto simp: lex_fraction_def rbind_Inr case_prod_beta Let_def split: option.splits)
qed

lemma lex_integer_ok: "list_all is_ascii_digit lead \<Longrightarrow> lex_integer neg st lead lx = Inr (t, lx') \<Longrightarrow> tok_ok t"
proof -
  assume l: "list_all is_ascii_digit lead" "lex_integer neg st lead lx = Inr (t, lx')"
  have "list_all is_ascii_digit (lead @ replicate n 48)" for n using l(1) by (auto simp: list_all_iff is_ascii_digit_def)
  then show "tok_ok t" using l digits_good scale_ok [of 0 st lx]
    by (auto simp: lex_integer_def rbind_Inr case_prod_beta Let_def split: option.splits if_splits)
qed

lemma lex_number_ok: "lex_number neg st lx = Inr (t, lx') \<Longrightarrow> tok_ok t"
  by (auto simp: lex_number_def Let_def split: prod.splits if_splits
      dest: lex_radix_ok lex_fraction_ok [OF consume_while_all] lex_integer_ok [OF consume_while_all])

lemma lex_ident_ok: "peek_char lx = Some c \<Longrightarrow> is_ident_start c \<Longrightarrow> tok_ok (fst (lex_ident_or_keyword lx))"
proof -
  assume c: "peek_char lx = Some c" "is_ident_start c"
  obtain s lx1 where s: "consume_while is_ident_cont lx = (s, lx1)" by fastforce
  have "is_ident_cont c" using c(2) by (auto simp: is_ident_start_def is_ident_cont_def)
  then have "is_ident s" using consume_while_all [OF s] consume_while_nonempty [OF s c(1)] c(2) by (simp add: is_ident_def)
  then show ?thesis using s by (auto simp: lex_ident_or_keyword_def)
qed

lemma binary_sel_ok: "is_binary_char c \<Longrightarrow> fst (binary_sel c lx) \<noteq> [] \<and> list_all is_binary_char (fst (binary_sel c lx))"
  by (auto simp: binary_sel_def Let_def split: option.splits)

lemma lex_token_ok: "peek_char lx = Some c \<Longrightarrow> lex_token c st lx = Inr (t, lx') \<Longrightarrow> tok_ok t"
proof -
  assume p: "peek_char lx = Some c" and t: "lex_token c st lx = Inr (t, lx')"
  have b: "tok_ok (fst (lex_binary_sel d lx))" if "is_binary_char d" for d
    using binary_sel_ok [OF that, of lx] by (simp add: lex_binary_sel_def case_prod_beta)
  have m: "is_binary_char 45" by (simp add: is_binary_char_def BINARY_CHARS_def ustr_def)
  have i: "tok_ok t" if "is_ident_start c" using lex_ident_ok [OF p that] t that by (simp add: lex_token_def)
  have c: "tok_ok t" if "lex_char_literal st lx = Inr (t, lx')"
    using that by (auto simp: lex_char_literal_def split: prod.splits option.splits)
  have s: "tok_ok t" if "lex_string_literal st lx = Inr (t, lx')" using that by (auto simp: lex_string_literal_def rbind_Inr)
  have h: "tok_ok t" if "lex_hash st lx = Inr (t, lx')"
    using that by (auto simp: lex_hash_def Let_def rbind_Inr case_prod_beta split: option.splits if_splits)
  show ?thesis
  proof (cases "is_ident_start c \<or> is_ascii_digit c \<or> c = 45 \<or> c = 36 \<or> c = 39 \<or> c = 35")
    case True
    then show ?thesis using t i c s h b [of 45] m
      by (auto simp: lex_token_def Let_def split: if_splits dest: lex_number_ok)
  next
    case False
    then show ?thesis using t b [of c] by (auto simp: lex_token_def Let_def split: if_splits)
  qed
qed

lemma next_token_ok: "next_token lx = Inr ((t, sp), lx') \<Longrightarrow> tok_ok t"
  by (auto simp: next_token_def rbind_Inr Let_def split: option.splits dest: lex_token_ok)

lemma next_token_modes: "next_token lx = Inr ((t, sp), lx') \<Longrightarrow> pragma_mode lx' = pragma_mode lx \<and> in_literal_seq lx' = in_literal_seq lx"
proof -
  assume n: "next_token lx = Inr ((t, sp), lx')"
  obtain lx1 where s: "skip_trivia lx = Inr lx1" using n by (auto simp: next_token_def rbind_Inr)
  note m1 = skips_modes [OF skip_trivia_skips [OF s]]
  show ?thesis
  proof (cases "peek_char lx1")
    case None
    then show ?thesis using n s m1 by (simp add: next_token_def Let_def)
  next
    case (Some c)
    obtain lx2 where l: "lex_token c (lx_here lx1) lx1 = Inr (t, lx2)" "lx' = lx2\<lparr>prev_ends_expr := tok_ends_expr t\<rparr>"
      using n s Some by (auto simp: next_token_def Let_def rbind_Inr)
    have "skips lx1 lx2" using lex_token_skips [OF Some l(1)] skips_trans [OF skips_skip] by blast
    then show ?thesis using skips_modes [of lx1 lx2] m1 l(2) by simp
  qed
qed

lemma next_token_le: "next_token lx = Inr ((t, sp), lx') \<Longrightarrow> length (lx_rest lx') + (if t = Eof then 0 else 1) \<le> length (lx_rest lx)"
proof (cases "t = Eof")
  case True
  assume n: "next_token lx = Inr ((t, sp), lx')"
  obtain lx1 where s: "skip_trivia lx = Inr lx1" using n by (auto simp: next_token_def rbind_Inr)
  have "peek_char lx1 = None" using n s True lex_token_skips [of lx1] by (auto simp: next_token_def Let_def rbind_Inr split: option.splits)
  then have "lx' = lx1" using n s by (simp add: next_token_def Let_def)
  then show ?thesis using skips_le [OF skip_trivia_skips [OF s]] True by simp
next
  case False
  assume "next_token lx = Inr ((t, sp), lx')"
  then show ?thesis using next_token_shorter False by fastforce
qed


subsection \<open>Parses that end well\<close>

definition pok :: "'a parsed \<Rightarrow> ('a \<Rightarrow> parser \<Rightarrow> bool) \<Rightarrow> bool" where
  "pok m R \<longleftrightarrow> (case m of Inl (Compile _) \<Rightarrow> True | Inl _ \<Rightarrow> False | Inr (v, p) \<Rightarrow> R v p)"

lemma pok_simps [simp]: "pok (Inr (v, p)) R \<longleftrightarrow> R v p" "pok (p_error p sp msg) R" "\<not> pok (Inl Panic) R" "\<not> pok (Inl OutOfFuel) R"
  "pok (Inl (Compile e)) R"
  by (simp_all add: pok_def p_error_def)

lemma pok_mono: "pok m R \<Longrightarrow> (\<And>v p. R v p \<Longrightarrow> S v p) \<Longrightarrow> pok m S"
  by (auto simp: pok_def split: sum.splits p_stop.splits prod.splits)

lemma pok_bind: "pok m R \<Longrightarrow> (\<And>v p. R v p \<Longrightarrow> pok (f (v, p)) S) \<Longrightarrow> pok (rbind m f) S"
proof (cases m)
  case (Inl e)
  then show "pok m R \<Longrightarrow> ?thesis" by (cases e) simp_all
next
  case (Inr x)
  then show "pok m R \<Longrightarrow> (\<And>v p. R v p \<Longrightarrow> pok (f (v, p)) S) \<Longrightarrow> ?thesis" by (cases x) simp
qed

lemma pok_InrD: "pok m R \<Longrightarrow> m = Inr (v, p) \<Longrightarrow> R v p"
  by simp

lemma pok_if: "(b \<Longrightarrow> pok x R) \<Longrightarrow> (\<not> b \<Longrightarrow> pok y R) \<Longrightarrow> pok (if b then x else y) R"
  by simp

definition p_wf :: "parser \<Rightarrow> bool" where
  "p_wf p \<longleftrightarrow> tok_ok (cur_tok p) \<and> (case p_peeked p of Some t \<Rightarrow> tok_ok (fst t) | None \<Rightarrow> True) \<and>
     (in_literal_seq (p_lx p) \<longleftrightarrow> 0 < literal_seq_depth p)"

text \<open>
  A step keeps the state well formed, reads forward and leaves the modes of the lexer as they were; \<open>eats\<close> is a step that reads a token.
\<close>

definition keeps :: "parser \<Rightarrow> parser \<Rightarrow> bool" where
  "keeps p p' \<longleftrightarrow> p_wf p' \<and> unread p' \<le> unread p \<and> literal_seq_depth p' = literal_seq_depth p \<and> pragma_mode (p_lx p') = pragma_mode (p_lx p)"

definition eats :: "parser \<Rightarrow> parser \<Rightarrow> bool" where
  "eats p p' \<longleftrightarrow> keeps p p' \<and> unread p' < unread p"

lemma keeps_refl: "p_wf p \<Longrightarrow> keeps p p"
  by (simp add: keeps_def)

lemma keeps_wf: "keeps p p' \<Longrightarrow> p_wf p'" "eats p p' \<Longrightarrow> p_wf p'" "eats p p' \<Longrightarrow> keeps p p'"
  "keeps p p' \<Longrightarrow> unread p' \<le> unread p" "eats p p' \<Longrightarrow> unread p' < unread p"
  by (simp_all add: keeps_def eats_def)

lemma keeps_trans [trans]: "keeps a b \<Longrightarrow> keeps b c \<Longrightarrow> keeps a c" "eats a b \<Longrightarrow> keeps b c \<Longrightarrow> eats a c" "keeps a b \<Longrightarrow> eats b c \<Longrightarrow> eats a c"
  "eats a b \<Longrightarrow> eats b c \<Longrightarrow> eats a c"
  by (simp_all add: keeps_def eats_def)

lemma pok_lex:
  "pok (rbind (p_lex (next_token lx)) (\<lambda>(t, lx'). f t lx')) R \<longleftrightarrow> (\<forall>t sp lx'. next_token lx = Inr ((t, sp), lx') \<longrightarrow> pok (f (t, sp) lx') R)"
  by (cases "next_token lx") (auto simp: p_lex_def)

lemma bump_keeps: "p_wf p \<Longrightarrow> pok (p_bump p) (\<lambda>_ p'. keeps p p' \<and> unread p' + (if cur_tok p = Eof then 0 else 1) \<le> unread p)"
proof (cases "p_peeked p")
  case None
  assume wf: "p_wf p"
  have "keeps p p' \<and> unread p' + (if cur_tok p = Eof then 0 else 1) \<le> unread p" if n: "next_token (p_lx p) = Inr ((t, sp), lx')" and p': "p' = p\<lparr>p_cur := (t, sp), p_lx := lx'\<rparr>" for t sp lx' p'
    using wf None next_token_ok [OF n] next_token_modes [OF n] next_token_le [OF n] by (simp add: p' keeps_def p_wf_def unread_def)
  then show ?thesis using None by (simp add: p_bump_def pok_lex)
next
  case (Some t)
  assume "p_wf p"
  then show ?thesis using Some by (simp add: p_bump_def keeps_def p_wf_def unread_def)
qed

lemma bump_eats: "p_wf p \<Longrightarrow> cur_tok p \<noteq> Eof \<Longrightarrow> pok (p_bump p) (\<lambda>_ p'. eats p p')"
  by (rule pok_mono [OF bump_keeps]) (auto simp: eats_def)

lemma peek2_keeps: "p_wf p \<Longrightarrow> pok (peek2 p) (\<lambda>_ p'. keeps p p' \<and> p_cur p' = p_cur p)"
proof (cases "p_peeked p")
  case None
  assume wf: "p_wf p"
  have "keeps p p' \<and> p_cur p' = p_cur p" if n: "next_token (p_lx p) = Inr ((t, sp), lx')" and p': "p' = p\<lparr>p_peeked := Some (t, sp), p_lx := lx'\<rparr>" for t sp lx' p'
    using wf None next_token_ok [OF n] next_token_modes [OF n] next_token_le [OF n] by (simp add: p' keeps_def p_wf_def unread_def)
  then show ?thesis using None by (simp add: peek2_def pok_lex)
next
  case (Some t)
  assume "p_wf p"
  then show ?thesis using Some by (simp add: peek2_def keeps_def)
qed

lemma expect_eats: "p_wf p \<Longrightarrow> want \<noteq> Eof \<Longrightarrow> pok (p_expect want msg p) (\<lambda>_ p'. eats p p')"
proof -
  have "tok_discriminant Eof = tok_discriminant t \<Longrightarrow> t = Eof" for t by (cases t) simp_all
  then have "want \<noteq> Eof \<Longrightarrow> tok_discriminant (cur_tok p) = tok_discriminant want \<Longrightarrow> cur_tok p \<noteq> Eof" by metis
  then show "p_wf p \<Longrightarrow> want \<noteq> Eof \<Longrightarrow> pok (p_expect want msg p) (\<lambda>_ p'. eats p p')"
    using bump_eats [of p] by (auto simp: p_expect_def)
qed

lemma check_not_reserved_ok: "pok (check_not_reserved sp n p) (\<lambda>_ p'. p' = p \<and> \<not> is_reserved n)"
  by (simp add: check_not_reserved_def)

lemma pok_ident: "(\<And>n. t = Ident n \<Longrightarrow> pok (f n) R) \<Longrightarrow> pok g R \<Longrightarrow> pok (case t of Ident n \<Rightarrow> f n | _ \<Rightarrow> g) R"
  by (cases t) simp_all

lemma pok_keyword: "(\<And>k. t = Keyword k \<Longrightarrow> pok (f k) R) \<Longrightarrow> (\<nexists>k. t = Keyword k \<Longrightarrow> pok g R) \<Longrightarrow> pok (case t of Keyword k \<Rightarrow> f k | _ \<Rightarrow> g) R"
  by (cases t) simp_all

lemma expect_ident_eats: "p_wf p \<Longrightarrow> pok (expect_ident msg p) (\<lambda>n p'. eats p p' \<and> is_ident n)"
  unfolding expect_ident_def
proof (rule pok_ident)
  fix n
  assume "p_wf p" "cur_tok p = Ident n"
  then show "pok (rbind (p_bump p) (\<lambda>(_, p). Inr (n, p))) (\<lambda>n p'. eats p p' \<and> is_ident n)"
    by - (rule pok_bind [OF bump_eats], simp_all add: p_wf_def)
qed simp

lemma expect_keyword_eats: "p_wf p \<Longrightarrow> pok (expect_keyword k p) (\<lambda>_ p'. eats p p')"
  using bump_eats [of p] by (simp add: expect_keyword_def)

lemma close_paren_eats: "p_wf p \<Longrightarrow> pok (close_paren msg p) (\<lambda>_ p'. eats p p')"
  using bump_eats [of p] by (simp add: close_paren_def)

lemma p_loop_ok:
  assumes step: "\<And>s q. I s q \<Longrightarrow> pok (body s q) (\<lambda>r q'. case r of Continue s' \<Rightarrow> I s' q' \<and> unread q' < unread q | Break v \<Rightarrow> R v q')"
  shows "I s p \<Longrightarrow> unread p < n \<Longrightarrow> pok (p_loop n body s p) R"
proof (induction n arbitrary: s p)
  case (Suc n)
  show ?case
    by (simp, rule pok_bind [OF step [OF Suc.prems(1)]]) (use Suc in \<open>auto split: turn.splits\<close>)
qed simp

lemma parse_loop_ok:
  assumes "I s p"
    and "\<And>s q. I s q \<Longrightarrow> pok (body s q) (\<lambda>r q'. case r of Continue s' \<Rightarrow> I s' q' \<and> unread q' < unread q | Break v \<Rightarrow> R v q')"
  shows "pok (parse_loop body s p) R"
  unfolding parse_loop_def by (rule p_loop_ok [of I, OF assms(2) assms(1)]) simp_all

text \<open>Loops that collect a list, or anything with an invariant, from where they start.\<close>

lemma collect_loop_ok:
  assumes "p_wf p" "J s"
    and "\<And>s q. keeps p q \<Longrightarrow> J s \<Longrightarrow> pok (body s q) (\<lambda>r q'. case r of Continue s' \<Rightarrow> eats q q' \<and> J s' | Break v \<Rightarrow> keeps q q' \<and> R v)"
  shows "pok (parse_loop body s p) (\<lambda>v p'. keeps p p' \<and> R v)"
proof (rule parse_loop_ok [where I = "\<lambda>s q. keeps p q \<and> J s"])
  show "keeps p p \<and> J s" using assms(1,2) keeps_refl by blast
  fix s q
  assume "keeps p q \<and> J s"
  then show "pok (body s q) (\<lambda>r q'. case r of Continue s' \<Rightarrow> (keeps p q' \<and> J s') \<and> unread q' < unread q | Break v \<Rightarrow> keeps p q' \<and> R v)"
    by - (rule pok_mono [OF assms(3)], auto split: turn.splits dest: keeps_trans keeps_wf)
qed

subsection \<open>Literals\<close>

lemma le_value_bounds: "list_all (\<lambda>b. 0 \<le> b \<and> b < 256) m \<Longrightarrow> 0 \<le> le_value m \<and> le_value m < 256 ^ length m"
  by (induction m) auto

lemma canonical_long: "canonical_magnitude m \<Longrightarrow> 8 < length m \<Longrightarrow> 2 ^ 64 \<le> le_value m"
proof -
  assume m: "canonical_magnitude m" "8 < length m"
  have e: "m = butlast m @ [last m]" using m(2) by (cases m rule: rev_cases) auto
  have l: "0 < last m" "list_all (\<lambda>b. 0 \<le> b \<and> b < 256) (butlast m)"
    using m e by (auto simp: canonical_magnitude_def list_all_iff dest: in_set_butlastD) (metis last_in_set order_le_less list.size(3) not_less_zero)
  have "(256 :: int) ^ 8 \<le> 256 ^ length (butlast m)" using m(2) by (intro power_increasing) auto
  moreover have "(256 :: int) ^ length (butlast m) * 1 \<le> 256 ^ length (butlast m) * last m" using l(1) by (intro mult_left_mono) simp_all
  moreover have "(2 :: int) ^ 64 = 256 ^ 8" by simp
  ultimately have "2 ^ 64 \<le> (256 :: int) ^ length (butlast m) * last m" by linarith
  moreover have "le_value m = le_value (butlast m) + 256 ^ length (butlast m) * last m" by (subst e) (simp add: le_value_append)
  ultimately show ?thesis using le_value_bounds [OF l(2)] by linarith
qed

lemma intlit_to_literal_ok:
  assumes "2 \<le> r" "list_all (\<lambda>c. \<not> bad_digit r c) d"
  shows "\<exists>l. intlit_to_literal neg r d = Some l \<and> wf_literal l \<and>
    (case l of IntL v \<Rightarrow> v = (if neg then - radix_value r d else radix_value r d)
     | BigInt n m \<Rightarrow> n = neg \<and> le_value m = radix_value r d | _ \<Rightarrow> False)"
proof -
  obtain m where m: "int_lit_magnitude r d = Some m" "canonical_magnitude m" "le_value m = radix_value r d"
    using magnitude_loop_value [OF assms, of "[]"] unfolding int_lit_magnitude_def radix_value_def by (auto simp: canonical_magnitude_def)
  have "0 \<le> le_value m" using le_value_bounds [of m] m(2) by (simp add: canonical_magnitude_def)
  moreover have "2 ^ 64 \<le> le_value m" if "8 < length m" using canonical_long [OF m(2) that] .
  ultimately show ?thesis using m by (cases neg; cases "length m \<le> 8") (auto simp: intlit_to_literal_def Let_def big_value_def smi_bounds)
qed


lemma enter_literal_seq_simps:
  "unread (enter_literal_seq p) = unread p" "p_cur (enter_literal_seq p) = p_cur p" "literal_seq_depth (enter_literal_seq p) = Suc (literal_seq_depth p)"
  "pragma_mode (p_lx (enter_literal_seq p)) = pragma_mode (p_lx p)" "p_wf p \<Longrightarrow> p_wf (enter_literal_seq p)"
  by (auto simp: enter_literal_seq_def set_in_literal_seq_def unread_def p_wf_def Let_def)

lemma exit_literal_seq_simps:
  "unread (exit_literal_seq p) = unread p" "p_cur (exit_literal_seq p) = p_cur p" "literal_seq_depth (exit_literal_seq p) = literal_seq_depth p - 1"
  "pragma_mode (p_lx (exit_literal_seq p)) = pragma_mode (p_lx p)" "p_wf p \<Longrightarrow> 0 < literal_seq_depth p \<Longrightarrow> p_wf (exit_literal_seq p)"
  by (auto simp: exit_literal_seq_def set_in_literal_seq_def unread_def p_wf_def Let_def)

lemma keeps_exit: "keeps (enter_literal_seq p) q \<Longrightarrow> keeps p (exit_literal_seq q)" "eats (enter_literal_seq p) q \<Longrightarrow> eats p (exit_literal_seq q)"
  by (simp_all add: eats_def keeps_def enter_literal_seq_simps exit_literal_seq_simps)

text \<open>A bracketed literal: the opening token under literal mode, a body, the closing token back in the old mode.\<close>

lemma literal_seq_ok:
  assumes "p_wf p" "cur_tok p \<noteq> Eof"
    and body: "\<And>q. eats (enter_literal_seq p) q \<Longrightarrow> pok (body q) (\<lambda>v q'. keeps q q' \<and> Q v)"
    and cl: "close \<noteq> Eof" and fin: "\<And>v. Q v \<Longrightarrow> wf_literal (mk v)"
  shows "pok (rbind (p_bump (enter_literal_seq p)) (\<lambda>(_, p). rbind (body p) (\<lambda>(v, p).
      if cur_tok p \<noteq> close then p_error p (cur_span p) msg else rbind (p_bump (exit_literal_seq p)) (\<lambda>(_, p). Inr (mk v, p)))))
    (\<lambda>l p'. eats p p' \<and> wf_literal l)"
proof (rule pok_bind [OF bump_eats])
  show "p_wf (enter_literal_seq p)" "cur_tok (enter_literal_seq p) \<noteq> Eof" using assms(1,2) by (simp_all add: enter_literal_seq_simps)
  fix u q
  assume q: "eats (enter_literal_seq p) q"
  have "pok (if cur_tok r \<noteq> close then p_error r (cur_span r) msg else rbind (p_bump (exit_literal_seq r)) (\<lambda>(_, p). Inr (mk v, p)))
      (\<lambda>l p'. eats p p' \<and> wf_literal l)" if r: "keeps q r \<and> Q v" for v r
  proof (cases "cur_tok r = close")
    case True
    have e: "eats p (exit_literal_seq r)" using keeps_exit(2) keeps_trans(2) [OF q] r by blast
    have "pok (p_bump (exit_literal_seq r)) (\<lambda>_ p'. eats (exit_literal_seq r) p')"
      using bump_eats keeps_wf(2) [OF e] True cl by (simp add: exit_literal_seq_simps)
    then show ?thesis using True r e fin by (auto intro!: pok_bind [of _ "\<lambda>_. eats (exit_literal_seq r)"] dest: keeps_trans(4))
  qed simp
  then show "pok (case (u, q) of (_, p) \<Rightarrow> rbind (body p) (\<lambda>(v, p).
      if cur_tok p \<noteq> close then p_error p (cur_span p) msg else rbind (p_bump (exit_literal_seq p)) (\<lambda>(_, p). Inr (mk v, p))))
    (\<lambda>l p'. eats p p' \<and> wf_literal l)"
    unfolding prod.case by - (rule pok_bind [OF body [OF q]], simp only: prod.case)
qed

lemma byte_elem_ok:
  assumes "p_wf q" "list_all (\<lambda>b. 0 \<le> b \<and> b < 256) bytes"
  shows "pok (if cur_tok q = RBracket then Inr (Break bytes, q)
         else case p_cur q of
           (IntLit negative radix digits, sp) \<Rightarrow>
             rbind (p_bump q) (\<lambda>(_, p).
             rbind (or_panic (int_lit_magnitude radix digits) p) (\<lambda>(mag, p).
               if negative \<or> length mag > 1 then p_error p sp msg
               else Inr (Continue (bytes @ [case mag of [] \<Rightarrow> 0 | b # _ \<Rightarrow> b]), p)))
         | (_, sp) \<Rightarrow> p_error q sp msg')
    (\<lambda>r q'. case r of Continue s' \<Rightarrow> eats q q' \<and> list_all (\<lambda>b. 0 \<le> b \<and> b < 256) s' | Break v \<Rightarrow> keeps q q' \<and> list_all (\<lambda>b. 0 \<le> b \<and> b < 256) v)"
proof (cases "\<exists>n r d sp. p_cur q = (IntLit n r d, sp)")
  case True
  then obtain n r d sp where c: "p_cur q = (IntLit n r d, sp)" by blast
  then have "2 \<le> r" "list_all (\<lambda>c. \<not> bad_digit r c) d" using assms(1) by (simp_all add: p_wf_def)
  then obtain m where m: "int_lit_magnitude r d = Some m" "canonical_magnitude m"
    using magnitude_loop_value [of r d "[]"] by (auto simp: int_lit_magnitude_def canonical_magnitude_def)
  have "list_all (\<lambda>b. 0 \<le> b \<and> b < 256) [case m of [] \<Rightarrow> 0 | b # _ \<Rightarrow> b]" using m(2) by (cases m) (auto simp: canonical_magnitude_def)
  then show ?thesis using c m(1) assms bump_eats [of q] by (auto simp: or_panic_def intro!: pok_bind [of _ "\<lambda>_. eats q"])
next
  case False
  then show ?thesis using assms keeps_refl by (cases "p_cur q"; cases "fst (p_cur q)") auto
qed

lemma or_panic_Some [simp]: "or_panic (Some l) = (\<lambda>p. Inr (l, p))"
  by (simp add: or_panic_def fun_eq_iff)

lemma parse_byte_array_ok:
  assumes "p_wf p" "cur_tok p \<noteq> Eof"
  shows "pok (parse_byte_array_literal p) (\<lambda>l p'. eats p p' \<and> wf_literal l)"
  unfolding parse_byte_array_literal_def
proof (rule literal_seq_ok [OF assms, where Q = "list_all (\<lambda>b. 0 \<le> b \<and> b < 256)"])
  fix q
  assume "eats (enter_literal_seq p) q"
  then have q: "p_wf q" by (rule keeps_wf)
  show "pok (parse_loop (\<lambda>bytes p.
         if cur_tok p = RBracket then Inr (Break bytes, p)
         else case p_cur p of
           (IntLit negative radix digits, sp) \<Rightarrow>
             rbind (p_bump p) (\<lambda>(_, p).
             rbind (or_panic (int_lit_magnitude radix digits) p) (\<lambda>(mag, p).
               if negative \<or> length mag > 1 then p_error p sp (ustr ''byte array element out of range 0..255'')
               else Inr (Continue (bytes @ [case mag of [] \<Rightarrow> 0 | b # _ \<Rightarrow> b]), p)))
         | (_, sp) \<Rightarrow> p_error p sp (ustr ''byte array elements must be integers'')) [] q)
      (\<lambda>v q'. keeps q q' \<and> list_all (\<lambda>b. 0 \<le> b \<and> b < 256) v)"
    by (rule collect_loop_ok [where J = "list_all (\<lambda>b. 0 \<le> b \<and> b < 256)", OF q _ byte_elem_ok]) (simp_all add: keeps_wf(1))
qed simp_all

lemma glue_keywords_ok:
  assumes "p_wf p" "cur_tok p = Keyword k"
  shows "pok (glue_keywords p) (\<lambda>_ p'. eats p p')"
  unfolding glue_keywords_def
proof (rule parse_loop_ok [where I = "\<lambda>(_, c) q. keeps p q \<and> (case c of None \<Rightarrow> cur_tok q = Keyword k | Some _ \<Rightarrow> eats p q)"], goal_cases)
  case 1
  then show ?case using assms keeps_refl by simp
next
  case I: (2 s q)
  obtain sel c where s: "s = (sel, c)" by fastforce
  obtain t sp where t: "p_cur q = (t, sp)" by fastforce
  have q: "keeps p q" using I s by simp
  show ?case
  proof (cases "\<exists>k'. t = Keyword k'")
    case True
    then obtain k' where t': "t = Keyword k'" by blast
    have e: "pok (p_bump q) (\<lambda>_. eats q)" using bump_eats keeps_wf(1) [OF q] t t' by simp
    have "keeps p q'" "eats p q'" "unread q' < unread q" if "eats q q'" for q' using keeps_trans(3) [OF q that] keeps_wf that by auto
    then show ?thesis using I s t t' by (cases c) (auto intro!: pok_bind [OF e])
  next
    case False
    then have "eats p q" using I s t by (cases c) auto
    then show ?thesis using False s t by (cases t) auto
  qed
qed

text \<open>Literal arrays, whatever the fuel of the recursive call.\<close>

locale array_parser =
  fixes elem :: "parser \<Rightarrow> literal parsed" and n :: nat
  assumes elem_ok: "p_wf p \<Longrightarrow> unread p < n \<Longrightarrow> pok (elem p) (\<lambda>l p'. eats p p' \<and> wf_literal l)"
begin

lemma parse_array_elems_ok:
  assumes "p_wf p" "unread p < n"
  shows "pok (parse_array_elems elem p) (\<lambda>ls p'. keeps p p' \<and> list_all wf_literal ls)"
  unfolding parse_array_elems_def
proof (rule collect_loop_ok [where J = "list_all wf_literal", OF assms(1)])
  fix out q
  assume q: "keeps p q" "list_all wf_literal out"
  have "pok (elem q) (\<lambda>l p'. eats q p' \<and> wf_literal l)" using elem_ok keeps_wf(1,4) [OF q(1)] assms(2) by simp
  then show "pok (if cur_tok q = RParen then Inr (Break out, q) else rbind (elem q) (\<lambda>(l, p). Inr (Continue (out @ [l]), p)))
      (\<lambda>r q'. case r of Continue s' \<Rightarrow> eats q q' \<and> list_all wf_literal s' | Break v \<Rightarrow> keeps q q' \<and> list_all wf_literal v)"
    using q keeps_refl [OF keeps_wf(1) [OF q(1)]] by (auto intro!: pok_bind [of "elem q"])
qed simp

lemma parse_array_literal_ok:
  assumes "p_wf p" "cur_tok p \<noteq> Eof" "unread p \<le> n"
  shows "pok (parse_array_literal elem p) (\<lambda>l p'. eats p p' \<and> wf_literal l)"
  unfolding parse_array_literal_def
proof (rule literal_seq_ok [OF assms(1,2), where Q = "list_all wf_literal"])
  fix q
  assume q: "eats (enter_literal_seq p) q"
  then show "pok (parse_array_elems elem q) (\<lambda>v q'. keeps q q' \<and> list_all wf_literal v)"
    using parse_array_elems_ok keeps_wf(2,5) [OF q] assms(3) by (simp add: enter_literal_seq_simps)
qed simp_all

lemma nested_array_ok:
  assumes "p_wf p" "cur_tok p = LParen" "unread p \<le> n"
  shows "pok (rbind (p_bump p) (\<lambda>(_, p).
             rbind (parse_array_elems elem p) (\<lambda>(elems, p).
             rbind (close_paren msg p) (\<lambda>(_, p). Inr (ArrayL elems, p))))) (\<lambda>l p'. eats p p' \<and> wf_literal l)"
proof (rule pok_bind [OF bump_eats])
  fix u q
  assume q: "eats p q"
  have "pok (parse_array_elems elem q) (\<lambda>ls p'. keeps q p' \<and> list_all wf_literal ls)"
    using parse_array_elems_ok keeps_wf(2,5) [OF q] assms(3) by simp
  then show "pok (case (u, q) of (_, p) \<Rightarrow> rbind (parse_array_elems elem p) (\<lambda>(elems, p). rbind (close_paren msg p) (\<lambda>(_, p). Inr (ArrayL elems, p))))
      (\<lambda>l p'. eats p p' \<and> wf_literal l)"
    unfolding prod.case
  proof (rule pok_bind)
    fix ls r
    assume r: "keeps q r \<and> list_all wf_literal ls"
    then have e: "eats p r" using keeps_trans(2) [OF q] by blast
    show "pok (case (ls, r) of (elems, p) \<Rightarrow> rbind (close_paren msg p) (\<lambda>(_, p). Inr (ArrayL elems, p))) (\<lambda>l p'. eats p p' \<and> wf_literal l)"
      unfolding prod.case by (rule pok_bind [OF close_paren_eats [OF keeps_wf(2) [OF e]]]) (use r e in \<open>auto dest: keeps_trans\<close>)
  qed
qed (use assms in simp_all)

lemma array_elem_ok:
  assumes "p_wf p" "unread p \<le> n"
  shows "pok (array_elem elem p) (\<lambda>l p'. eats p p' \<and> wf_literal l)"
proof (cases "cur_tok p = Eof")
  case True
  then show ?thesis by (simp add: array_elem_def)
next
  case False
  note b = bump_eats [OF assms(1) False]
  have s: "pok (rbind (p_bump p) (\<lambda>(_, p). Inr (l, p))) (\<lambda>l p'. eats p p' \<and> wf_literal l)" if "wf_literal l" for l
    by (rule pok_bind [OF b]) (simp add: that)
  show ?thesis
  proof (cases "cur_tok p")
    case (IntLit neg r d)
    then obtain l where "intlit_to_literal neg r d = Some l" "wf_literal l" using assms(1) intlit_to_literal_ok [of r d neg] by (auto simp: p_wf_def)
    then show ?thesis using s IntLit by (simp add: array_elem_def)
  next
    case (Keyword k)
    then show ?thesis using glue_keywords_ok [OF assms(1) Keyword] by (auto simp: array_elem_def intro!: pok_bind [of "glue_keywords p"])
  next
    case LParen
    then show ?thesis using nested_array_ok [OF assms(1) LParen assms(2)] by (simp add: array_elem_def)
  next
    case LitArrayOpen
    then show ?thesis using parse_array_literal_ok [OF assms(1) False assms(2)] by (simp add: array_elem_def)
  next
    case ByteArrayOpen
    then show ?thesis using parse_byte_array_ok [OF assms(1) False] by (simp add: array_elem_def)
  qed (use s in \<open>simp_all add: array_elem_def\<close>)
qed

end

lemma array_parser_elem: "array_parser (parse_array_elem n) n"
proof (induction n)
  case 0
  show ?case by unfold_locales simp
next
  case (Suc n)
  show ?case by unfold_locales (simp add: array_parser.array_elem_ok [OF Suc])
qed

interpretation literal_array: array_parser "parse_array_elem n" n for n
  by (rule array_parser_elem)

lemma array_literal_ok: "p_wf p \<Longrightarrow> cur_tok p \<noteq> Eof \<Longrightarrow> pok (array_literal p) (\<lambda>l p'. eats p p' \<and> wf_literal l)"
  unfolding array_literal_def by (rule literal_array.parse_array_literal_ok) simp_all


subsection \<open>Names\<close>

lemma pok_step: "pok m R \<Longrightarrow> (\<And>v p. R v p \<Longrightarrow> pok (g v p) S) \<Longrightarrow> pok (rbind m (\<lambda>(v, p). g v p)) S"
  by (erule pok_bind) simp

lemmas reading = keeps_def eats_def

lemma parse_param_ok: "p_wf p \<Longrightarrow> pok (parse_param msg p) (\<lambda>n p'. eats p p' \<and> is_ident n \<and> \<not> is_reserved n)"
  unfolding parse_param_def Let_def
  by (rule pok_step [OF expect_ident_eats], assumption, rule pok_step [OF check_not_reserved_ok]) auto

lemma ident_tok: "p_wf p \<Longrightarrow> cur_tok p = Ident n \<Longrightarrow> is_ident n"
  by (simp add: p_wf_def)

lemma name_loop_ok:
  assumes "p_wf p"
  shows "pok (parse_loop (\<lambda>names p. case cur_tok p of
      Ident n \<Rightarrow> rbind (check_not_reserved (cur_span p) n p) (\<lambda>(_, p). rbind (p_bump p) (\<lambda>(_, p). Inr (Continue (names @ [n]), p)))
    | _ \<Rightarrow> Inr (Break names, p)) [] p) (\<lambda>ns p'. keeps p p' \<and> free_names ns)"
proof (rule collect_loop_ok [where J = free_names, OF assms], goal_cases)
  case 1
  show ?case by (simp add: free_names_def)
next
  case (2 s q)
  note q = keeps_wf(1) [OF 2(1)]
  show ?case
  proof (rule pok_ident)
    fix n
    assume n: "cur_tok q = Ident n"
    show "pok (rbind (check_not_reserved (cur_span q) n q) (\<lambda>(_, p). rbind (p_bump p) (\<lambda>(_, p). Inr (Continue (s @ [n]), p))))
      (\<lambda>r q'. case r of Continue s' \<Rightarrow> eats q q' \<and> free_names s' | Break v \<Rightarrow> keeps q q' \<and> free_names v)"
      by (rule pok_step [OF check_not_reserved_ok], rule pok_step [OF bump_eats])
        (use q n 2(2) ident_tok [OF q n] in \<open>auto simp: free_names_def\<close>)
  qed (use 2 keeps_refl [OF q] in simp)
qed

lemma parse_optional_temps_ok: "p_wf p \<Longrightarrow> pok (parse_optional_temps p) (\<lambda>ns p'. keeps p p' \<and> free_names ns)"
proof (cases "cur_tok p = VBar")
  case True
  assume p: "p_wf p"
  have "pok (rbind (p_bump p) (\<lambda>(_, p). rbind (parse_loop (\<lambda>temps p. case cur_tok p of
      Ident n \<Rightarrow> rbind (check_not_reserved (cur_span p) n p) (\<lambda>(_, p). rbind (p_bump p) (\<lambda>(_, p). Inr (Continue (temps @ [n]), p)))
    | _ \<Rightarrow> Inr (Break temps, p)) [] p) (\<lambda>(temps, p). rbind (p_expect VBar m p) (\<lambda>(_, p). Inr (temps, p))))) (\<lambda>ns p'. keeps p p' \<and> free_names ns)" for m
    by (rule pok_step [OF bump_eats], rule p, simp add: True, rule pok_step [OF name_loop_ok], simp add: reading,
        rule pok_step [OF expect_eats]) (auto simp: reading)
  then show ?thesis using True by (simp add: parse_optional_temps_def)
qed (simp add: parse_optional_temps_def keeps_refl free_names_def)

lemma parse_block_params_ok: "p_wf p \<Longrightarrow> pok (parse_block_params p) (\<lambda>ns p'. keeps p p' \<and> free_names ns)"
proof -
  assume p: "p_wf p"
  have l: "pok (parse_loop (\<lambda>params p. if cur_tok p = Colon then rbind (p_bump p) (\<lambda>(_, p). rbind (parse_param m p) (\<lambda>(name, p). Inr (Continue (params @ [name]), p)))
      else Inr (Break params, p)) [] p) (\<lambda>ns p'. keeps p p' \<and> free_names ns)" for m
  proof (rule collect_loop_ok [where J = free_names, OF p], goal_cases)
    case (2 s q)
    note q = keeps_wf(1) [OF 2(1)]
    have "pok (rbind (p_bump q) (\<lambda>(_, p). rbind (parse_param m p) (\<lambda>(name, p). Inr (Continue (s @ [name]), p))))
      (\<lambda>r q'. case r of Continue s' \<Rightarrow> eats q q' \<and> free_names s' | Break v \<Rightarrow> keeps q q' \<and> free_names v)" if "cur_tok q = Colon"
      by (rule pok_step [OF bump_eats], rule q, simp add: that, rule pok_step [OF parse_param_ok]) (use 2(2) in \<open>auto simp: reading free_names_def\<close>)
    then show ?case using 2 keeps_refl [OF q] by simp
  qed (simp add: free_names_def)
  show ?thesis
  proof (cases "cur_tok p = Colon")
    case True
    show ?thesis unfolding parse_block_params_def if_P [OF True]
      by (rule pok_step [OF l], rule pok_step [OF expect_eats]) (auto simp: reading)
  qed (simp add: parse_block_params_def p keeps_refl free_names_def)
qed


subsection \<open>Statements, blocks, primaries\<close>

text \<open>A value with the flag that says whether it was written \<open>super\<close>.\<close>

definition value_ok :: "expr \<Rightarrow> bool \<Rightarrow> bool" where
  "value_ok e s \<longleftrightarrow> wf_expr e \<and> (s \<longrightarrow> is_self e)"

lemma wf_stmt_expr: "wf_expr e \<Longrightarrow> wf_stmt e"
  by (cases e) simp_all

lemma ident_primary_ok: "is_ident n \<Longrightarrow> case ident_primary n sp of (e, s) \<Rightarrow> value_ok e s"
  by (auto simp: ident_primary_def value_ok_def is_self_def is_reserved_def RESERVED_def)

lemma scaled_primary_ok:
  assumes "list_all is_ascii_digit i" "list_all is_ascii_digit f" "0 \<le> sc" "sc \<le> 0xFFFF"
  shows "\<exists>e. scaled_primary neg i f sc sp = Some e \<and> wf_expr e"
proof -
  have "list_all (\<lambda>c. \<not> bad_digit 10 c) (i @ f)" using assms(1,2) digits_good by simp
  then obtain a where a: "intlit_to_literal neg 10 (i @ f) = Some a" "wf_literal a" using intlit_to_literal_ok [of 10 "i @ f" neg] by auto
  have "list_all is_ascii_digit (ustr ''1'' @ replicate (length f) 48)" by (auto simp: list_all_iff ustr_def is_ascii_digit_def)
  then obtain b where b: "intlit_to_literal False 10 (ustr ''1'' @ replicate (length f) 48) = Some b" "wf_literal b"
    using intlit_to_literal_ok [of 10 "ustr ''1'' @ replicate (length f) 48" False] digits_good by auto
  have "is_ident (ustr ''ScaledDecimal'')" "\<not> is_reserved (ustr ''ScaledDecimal'')" "sel_arity (ustr ''numerator:denominator:scale:'') = 3" by code_simp+
  then show ?thesis using a b assms(3,4) by (simp add: scaled_primary_def smi_bounds)
qed

locale expr_parser =
  fixes pe :: "parser \<Rightarrow> expr parsed" and n :: nat
  assumes pe_ok: "p_wf p \<Longrightarrow> unread p < n \<Longrightarrow> pok (pe p) (\<lambda>e p'. eats p p' \<and> wf_expr e)"
begin

lemma parse_statement_ok: "p_wf p \<Longrightarrow> unread p < n \<Longrightarrow> pok (parse_statement pe p) (\<lambda>e p'. eats p p' \<and> wf_stmt e)"
proof (cases "cur_tok p = Caret")
  case True
  assume p: "p_wf p" "unread p < n"
  show ?thesis unfolding parse_statement_def if_P [OF True] Let_def
    by (rule pok_step [OF bump_eats], rule p, simp add: True, rule pok_step [OF pe_ok]) (use p in \<open>auto simp: reading\<close>)
next
  case False
  assume "p_wf p" "unread p < n"
  then show ?thesis using False pok_mono [OF pe_ok] by (simp add: parse_statement_def wf_stmt_expr)
qed

text \<open>The common loop of brace arrays and statement lists: items separated by periods, up to a closing token.\<close>

lemma period_loop_ok:
  assumes "p_wf p" "unread p < n"
    and item: "\<And>q. p_wf q \<Longrightarrow> unread q < n \<Longrightarrow> pok (item q) (\<lambda>e q'. eats q q' \<and> Q e)"
  shows "pok (parse_loop (\<lambda>es p. rbind (item p) (\<lambda>(e, p).
      if cur_tok p = Period then rbind (p_bump p) (\<lambda>(_, p). if fin (cur_tok p) then Inr (Break (es @ [e]), p) else Inr (Continue (es @ [e]), p))
      else Inr (Break (es @ [e]), p))) [] p) (\<lambda>es p'. keeps p p' \<and> list_all Q es)"
proof (rule collect_loop_ok [where J = "list_all Q", OF assms(1)], goal_cases)
  case (2 s q)
  have "p_wf q" "unread q < n" using 2(1) assms(2) by (auto simp: keeps_def)
  note i = item [OF this]
  show ?case
  proof (rule pok_step [OF i])
    fix e r
    assume r: "eats q r \<and> Q e"
    have "pok (rbind (p_bump r) (\<lambda>(_, p). if fin (cur_tok p) then Inr (Break (s @ [e]), p) else Inr (Continue (s @ [e]), p)))
      (\<lambda>t q'. case t of Continue s' \<Rightarrow> eats q q' \<and> list_all Q s' | Break v \<Rightarrow> keeps q q' \<and> list_all Q v)" if "cur_tok r = Period"
      by (rule pok_step [OF bump_eats]) (use r that 2(2) in \<open>auto simp: reading\<close>)
    then show "pok (if cur_tok r = Period then rbind (p_bump r) (\<lambda>(_, p). if fin (cur_tok p) then Inr (Break (s @ [e]), p) else Inr (Continue (s @ [e]), p))
        else Inr (Break (s @ [e]), r)) (\<lambda>t q'. case t of Continue s' \<Rightarrow> eats q q' \<and> list_all Q s' | Break v \<Rightarrow> keeps q q' \<and> list_all Q v)"
      using r 2(2) by (simp add: eats_def)
  qed
qed simp

lemma parse_statements_ok: "p_wf p \<Longrightarrow> unread p < n \<Longrightarrow> pok (parse_statements pe p) (\<lambda>es p'. keeps p p' \<and> list_all wf_stmt es)"
  unfolding parse_statements_def
  using period_loop_ok [of p "parse_statement pe" wf_stmt "\<lambda>t. t = RBracket \<or> t = Eof"] parse_statement_ok keeps_refl by simp

lemma parse_dyn_array_ok:
  assumes "p_wf p" "cur_tok p \<noteq> Eof" "unread p \<le> n"
  shows "pok (parse_dyn_array pe p) (\<lambda>e p'. eats p p' \<and> wf_expr e)"
  unfolding parse_dyn_array_def Let_def
proof (rule pok_step [OF bump_eats [OF assms(1,2)]])
  fix u q
  assume q: "eats p q"
  then have u: "p_wf q" "unread q < n" using assms(3) by (auto simp: reading)
  show "pok (rbind (if cur_tok q = RBrace then Inr ([], q)
                else parse_loop (\<lambda>elems p. rbind (pe p) (\<lambda>(e, p).
                    if cur_tok p = Period then
                      rbind (p_bump p) (\<lambda>(_, p). if cur_tok p = RBrace then Inr (Break (elems @ [e]), p) else Inr (Continue (elems @ [e]), p))
                    else Inr (Break (elems @ [e]), p))) [] q) (\<lambda>(elems, pa).
         rbind (p_expect RBrace (ustr ''expected '' @ qt (ustr ''}'') @ ustr '' to close brace array'') pa) (\<lambda>(_, pa).
           Inr (DynArray elems (cur_span p), pa)))) (\<lambda>e p'. eats p p' \<and> wf_expr e)"
  proof (rule pok_step [of _ "\<lambda>es p'. keeps q p' \<and> list_all wf_expr es"], goal_cases)
    case 1
    show ?case using period_loop_ok [OF u, of pe wf_expr "\<lambda>t. t = RBrace"] pe_ok keeps_refl [OF u(1)] by simp
  next
    case (2 es r)
    show ?case by (rule pok_step [OF expect_eats]) (use q 2 in \<open>auto simp: reading\<close>)
  qed
qed

lemma parse_block_ok:
  assumes "p_wf p" "cur_tok p \<noteq> Eof" "unread p \<le> n"
  shows "pok (parse_block pe p) (\<lambda>b p'. eats p p' \<and> wf_expr (BlockE b))"
  unfolding parse_block_def Let_def
  by (rule pok_step [OF bump_eats [OF assms(1,2)]], rule pok_step [OF parse_block_params_ok], simp add: reading,
      rule pok_step [OF parse_optional_temps_ok], simp add: reading, rule pok_step [OF parse_statements_ok], simp add: reading,
      use assms(3) in \<open>simp add: reading\<close>, rule pok_step [OF expect_eats]) (auto simp: reading)

lemma paren_ok:
  assumes "p_wf p" "cur_tok p \<noteq> Eof" "unread p \<le> n"
  shows "pok (rbind (p_bump p) (\<lambda>(_, p). rbind (pe p) (\<lambda>(e, p). rbind (close_paren m p) (\<lambda>(_, p). Inr ((e, False), p)))))
    (\<lambda>(e, s) p'. eats p p' \<and> value_ok e s)"
  by (rule pok_step [OF bump_eats [OF assms(1,2)]], rule pok_step [OF pe_ok], simp add: reading, use assms(3) in \<open>simp add: reading\<close>,
      rule pok_step [OF close_paren_eats]) (auto simp: reading value_ok_def)

lemma parse_primary_ok:
  assumes "p_wf p" "unread p \<le> n"
  shows "pok (parse_primary pe p) (\<lambda>(e, s) p'. eats p p' \<and> value_ok e s)"
proof (cases "cur_tok p = Eof")
  case True
  then show ?thesis by (simp add: parse_primary_def)
next
  case False
  note b = bump_eats [OF assms(1) False]
  have s: "pok (rbind (p_bump p) (\<lambda>(_, p). Inr ((e, False), p))) (\<lambda>(e, s) p'. eats p p' \<and> value_ok e s)" if "wf_expr e" for e
    by (rule pok_step [OF b]) (simp add: that value_ok_def)
  have l: "pok (rbind m (\<lambda>(l, p). Inr ((Lit l sp, False), p))) (\<lambda>(e, s) p'. eats p p' \<and> value_ok e s)"
    if "pok m (\<lambda>l p'. eats p p' \<and> wf_literal l)" for m sp
    by (rule pok_step [OF that]) (simp add: value_ok_def)
  show ?thesis
  proof (cases "cur_tok p")
    case (Ident i)
    have "pok (rbind (p_bump p) (\<lambda>(_, pa). Inr (ident_primary i (cur_span p), pa))) (\<lambda>(e, s) p'. eats p p' \<and> value_ok e s)"
      by (rule pok_step [OF b]) (use ident_primary_ok [OF ident_tok [OF assms(1) Ident], of "cur_span p"] in auto)
    then show ?thesis using Ident by (simp add: parse_primary_def)
  next
    case (IntLit neg r d)
    then obtain v where "intlit_to_literal neg r d = Some v" "wf_literal v" using assms(1) intlit_to_literal_ok [of r d neg] by (auto simp: p_wf_def)
    then show ?thesis using s [of "Lit v (cur_span p)"] IntLit by (simp add: parse_primary_def)
  next
    case (ScaledLit neg i f sc)
    then obtain e where "scaled_primary neg i f sc (cur_span p) = Some e" "wf_expr e"
      using assms(1) scaled_primary_ok [of i f sc neg "cur_span p"] by (auto simp: p_wf_def)
    then show ?thesis using s [of e] ScaledLit by (simp add: parse_primary_def)
  next
    case LParen
    then show ?thesis using paren_ok [OF assms(1) False assms(2)] by (simp add: parse_primary_def)
  next
    case LBracket
    have "pok (rbind (parse_block pe p) (\<lambda>(b, p). Inr ((BlockE b, False), p))) (\<lambda>(e, s) p'. eats p p' \<and> value_ok e s)"
      by (rule pok_step [OF parse_block_ok [OF assms(1) False assms(2)]]) (simp add: value_ok_def)
    then show ?thesis using LBracket by (simp add: parse_primary_def)
  next
    case LBrace
    have "pok (rbind (parse_dyn_array pe p) (\<lambda>(e, p). Inr ((e, False), p))) (\<lambda>(e, s) p'. eats p p' \<and> value_ok e s)"
      by (rule pok_step [OF parse_dyn_array_ok [OF assms(1) False assms(2)]]) (simp add: value_ok_def)
    then show ?thesis using LBrace by (simp add: parse_primary_def)
  next
    case LitArrayOpen
    then show ?thesis using l [OF array_literal_ok [OF assms(1) False]] by (simp add: parse_primary_def)
  next
    case ByteArrayOpen
    then show ?thesis using l [OF parse_byte_array_ok [OF assms(1) False]] by (simp add: parse_primary_def)
  qed (use s in \<open>simp_all add: parse_primary_def\<close>)
qed

end


subsection \<open>Message chains\<close>

lemma ident_arity: "is_ident s \<Longrightarrow> sel_arity s = 0"
proof -
  assume s: "is_ident s"
  have "c \<noteq> 58" if "is_ident_cont c" for c
    using that by (auto simp: is_ident_cont_def is_ascii_alphabetic_def is_ascii_uppercase_def is_ascii_lowercase_def is_ascii_digit_def)
  then have "filter (\<lambda>c. c = 58) s = []" using s by (auto simp: is_ident_def list_all_iff filter_empty_conv)
  then show ?thesis using s by (simp add: sel_arity_def is_ident_def)
qed

lemma binary_arity: "tok_ok (BinarySel s) \<Longrightarrow> sel_arity s = 1" "sel_arity (ustr ''|'') = 1"
  using ident_chars(3) by (cases s; auto simp: sel_arity_def) code_simp

lemma binary_op_ok: "p_wf p \<Longrightarrow> binary_op (cur_tok p) = Some s \<Longrightarrow> sel_arity s = 1 \<and> cur_tok p \<noteq> Eof"
  using binary_arity by (auto simp: binary_op_def p_wf_def split: tok.splits)

text \<open>A keyword selector under construction, with the number of its parts.\<close>

definition kw_sel :: "utext \<Rightarrow> nat \<Rightarrow> bool" where
  "kw_sel s k \<longleftrightarrow> length (filter (\<lambda>c. c = uc CHR '':'') s) = k \<and> (0 < k \<longrightarrow> s \<noteq> [] \<and> is_ident_start (hd s)) \<and> (k = 0 \<longrightarrow> s = [])"

lemma kw_sel_Nil: "kw_sel [] 0"
  by (simp add: kw_sel_def)

lemma kw_sel_step: "kw_sel s k \<Longrightarrow> tok_ok (Keyword w) \<Longrightarrow> kw_sel (s @ w) (Suc k)"
proof -
  assume s: "kw_sel s k" and w: "tok_ok (Keyword w)"
  obtain i where i: "w = i @ [58]" "is_ident i" using w by auto
  have "length (filter (\<lambda>c. c = 58) i) = 0" using ident_arity [OF i(2)] i(2) by (simp add: sel_arity_def is_ident_def)
  then show ?thesis using s i by (cases s; cases i) (auto simp: kw_sel_def is_ident_def)
qed

lemma kw_sel_arity: "kw_sel s k \<Longrightarrow> 0 < k \<Longrightarrow> sel_arity s = k"
  by (simp add: kw_sel_def sel_arity_def)

text \<open>
  What a chain of messages starting from a base expression needs: a property of expressions (with the pending super flag)
  that sending a message preserves.
\<close>

locale sends =
  fixes J :: "expr \<Rightarrow> bool \<Rightarrow> bool"
  assumes J_send: "J e s \<Longrightarrow> list_all wf_expr args \<Longrightarrow> sel_arity sel = length args \<Longrightarrow> J (SendE e sel args s sp) False"
begin

lemma parse_unary_chain_ok:
  assumes "p_wf p" "J e s"
  shows "pok (parse_unary_chain e s p) (\<lambda>es p'. keeps p p' \<and> (case es of (e, s) \<Rightarrow> J e s))"
  unfolding parse_unary_chain_def
proof (rule collect_loop_ok [where J = "\<lambda>(e, s). J e s", OF assms(1)], goal_cases)
  case (2 es q)
  note q = keeps_wf(1) [OF 2(1)]
  obtain e s where es: "es = (e, s)" by fastforce
  show ?case unfolding es prod.case Let_def
  proof (rule pok_ident)
    fix i
    assume i: "cur_tok q = Ident i"
    have "J (SendE e i [] s sp) False" for sp using J_send 2(2) es ident_arity [OF ident_tok [OF q i]] by simp
    then show "pok (rbind (p_bump q) (\<lambda>(_, p). Inr (Continue (SendE e i [] s (cur_span q), False), p)))
        (\<lambda>r q'. case r of Continue s' \<Rightarrow> eats q q' \<and> (case s' of (e, s) \<Rightarrow> J e s) | Break v \<Rightarrow> keeps q q' \<and> (case v of (e, s) \<Rightarrow> J e s))"
      by - (rule pok_step [OF bump_eats [OF q]], use i in auto)
  qed (use 2 es keeps_refl [OF q] in simp)
qed (use assms in simp)

end

interpretation value_sends: sends value_ok
  by unfold_locales (simp add: value_ok_def)

text \<open>The other instance: segments of a cascade.\<close>

definition seg_ok :: "bool \<Rightarrow> src_span \<Rightarrow> expr \<Rightarrow> bool \<Rightarrow> bool" where
  "seg_ok s0 rs e s \<longleftrightarrow> e = CascadeRcvr rs \<and> s = s0 \<or> wf_seg s0 rs e \<and> \<not> s"

interpretation segment_sends: sends "seg_ok s0 rs" for s0 rs
  by unfold_locales (auto simp: seg_ok_def)

locale message_chain = expr_parser + sends
begin

lemma parse_binary_chain_ok:
  assumes "p_wf p" "J e s" "unread p \<le> n"
  shows "pok (parse_binary_chain pe e s p) (\<lambda>es p'. keeps p p' \<and> (case es of (e, s) \<Rightarrow> J e s))"
  unfolding parse_binary_chain_def
proof (rule pok_step [OF parse_unary_chain_ok [OF assms(1,2)]])
  fix es q
  assume q: "keeps p q \<and> (case es of (e, s) \<Rightarrow> J e s)"
  have "pok (parse_loop (\<lambda>(e, is_super) p.
       case binary_op (cur_tok p) of
         None \<Rightarrow> Inr (Break (e, is_super), p)
       | Some sel \<Rightarrow>
           (let sp = cur_span p
            in rbind (p_bump p) (\<lambda>(_, p).
               rbind (parse_primary pe p) (\<lambda>((rhs_primary, rhs_is_super), p).
               rbind (parse_unary_chain rhs_primary rhs_is_super p) (\<lambda>((rhs, _), p).
                 Inr (Continue (SendE e sel [rhs] is_super sp, False), p)))))) es q) (\<lambda>es p'. keeps q p' \<and> (case es of (e, s) \<Rightarrow> J e s))"
  proof (rule collect_loop_ok [where J = "\<lambda>(e, s). J e s"], goal_cases)
    case (3 es r)
    note r = keeps_wf(1) [OF 3(1)]
    obtain e s where es: "es = (e, s)" by fastforce
    have rn: "unread r \<le> n" using 3(1) q assms(3) by (auto simp: keeps_def)
    show ?case
    proof (cases "binary_op (cur_tok r)")
      case None
      then show ?thesis using 3 es keeps_refl [OF r] by simp
    next
      case (Some sel)
      note o = binary_op_ok [OF r Some]
      have snd: "J (SendE e sel [x] s sp) False" if "wf_expr x" for x sp using J_send 3(2) es o that by simp
      show ?thesis unfolding es prod.case Some option.case Let_def
      proof (rule pok_step [OF bump_eats [OF r]], goal_cases)
        case 1
        then show ?case using o by simp
      next
        case b: (2 u r1)
        then have r1: "p_wf r1" "unread r1 \<le> n" using rn by (auto simp: reading)
        show ?case
        proof (rule pok_step [OF parse_primary_ok [OF r1]], goal_cases)
          case c: (1 x r2)
          obtain x1 x2 where x: "x = (x1, x2)" by fastforce
          have v: "p_wf r2" "value_ok x1 x2" using c x by (auto simp: reading)
          show ?case unfolding x prod.case
            by (rule pok_step [OF value_sends.parse_unary_chain_ok [OF v]]) (use b c x snd in \<open>auto simp: reading value_ok_def\<close>)
        qed
      qed
    qed
  qed (use q keeps_wf in auto)
  then show "pok (parse_loop (\<lambda>(e, is_super) p.
       case binary_op (cur_tok p) of
         None \<Rightarrow> Inr (Break (e, is_super), p)
       | Some sel \<Rightarrow>
           (let sp = cur_span p
            in rbind (p_bump p) (\<lambda>(_, p).
               rbind (parse_primary pe p) (\<lambda>((rhs_primary, rhs_is_super), p).
               rbind (parse_unary_chain rhs_primary rhs_is_super p) (\<lambda>((rhs, _), p).
                 Inr (Continue (SendE e sel [rhs] is_super sp, False), p)))))) es q) (\<lambda>es p'. keeps p p' \<and> (case es of (e, s) \<Rightarrow> J e s))"
    by (rule pok_mono) (use q keeps_trans(1) in blast)
qed

end

sublocale expr_parser \<subseteq> val: message_chain pe n value_ok
  by unfold_locales

sublocale expr_parser \<subseteq> seg: message_chain pe n "seg_ok s0 rs" for s0 rs
  by unfold_locales


text \<open>Loops that run at least once, because a keyword is there when they start.\<close>

lemma keyword_loop_ok:
  assumes p: "p_wf p" "cur_tok p = Keyword k0"
    and part: "\<And>q. eats p q \<Longrightarrow> pok (part q) (\<lambda>x q'. keeps q q' \<and> Q x)"
  shows "pok (parse_loop (\<lambda>(sel, xs) p. case cur_tok p of
       Keyword k \<Rightarrow> rbind (p_bump p) (\<lambda>(_, p). rbind (part p) (\<lambda>(x, p). Inr (Continue (sel @ k, xs @ [x]), p)))
     | _ \<Rightarrow> Inr (Break (sel, xs), p)) ([], []) p)
    (\<lambda>r p'. eats p p' \<and> (case r of (sel, xs) \<Rightarrow> sel_arity sel = length xs \<and> list_all Q xs))"
proof (rule parse_loop_ok [where I = "\<lambda>(sel, xs) q. keeps p q \<and> kw_sel sel (length xs) \<and> list_all Q xs \<and> (if xs = [] then cur_tok q = Keyword k0 else eats p q)"], goal_cases)
  case 1
  then show ?case using p keeps_refl kw_sel_Nil by simp
next
  case I: (2 st q)
  obtain sel xs where st: "st = (sel, xs)" by fastforce
  have q: "p_wf q" "keeps p q" using I st keeps_wf(1) by auto
  show ?case unfolding st prod.case
  proof (rule pok_keyword, goal_cases)
    case (1 k)
    then have tk: "tok_ok (Keyword k)" using q(1) by (simp add: p_wf_def)
    have "kw_sel (sel @ k) (Suc (length xs))" using kw_sel_step [OF _ tk] I st by simp
    then show ?case
      by - (rule pok_step [OF bump_eats [OF q(1)]], simp add: 1, rule pok_step [OF part],
          use q(2) in \<open>simp add: reading\<close>, use I st in \<open>auto simp: reading\<close>)
  next
    case 2
    then show ?case using I st kw_sel_arity [of sel "length xs"] by (auto split: if_splits)
  qed
qed

context expr_parser
begin

lemma parse_keyword_arg_ok:
  assumes "p_wf q" "unread q \<le> n"
  shows "pok (parse_keyword_arg pe q) (\<lambda>x q'. keeps q q' \<and> wf_expr x)"
  unfolding parse_keyword_arg_def
proof (rule pok_step [OF parse_primary_ok [OF assms]], goal_cases)
  case (1 x r)
  obtain a s where x: "x = (a, s)" by fastforce
  have r: "p_wf r" "value_ok a s" "unread r \<le> n" using 1 x assms(2) by (auto simp: reading)
  show ?case unfolding x prod.case
    by (rule pok_step [OF val.parse_binary_chain_ok [OF r]]) (use 1 x in \<open>auto simp: reading value_ok_def\<close>)
qed

lemma parse_keyword_args_ok:
  assumes "p_wf p" "cur_tok p = Keyword k0" "unread p \<le> n"
  shows "pok (parse_keyword_args pe p) (\<lambda>r p'. eats p p' \<and> (case r of (sel, xs) \<Rightarrow> sel_arity sel = length xs \<and> list_all wf_expr xs))"
  unfolding parse_keyword_args_def
  by (rule keyword_loop_ok [OF assms(1,2) parse_keyword_arg_ok]) (use assms(3) in \<open>auto simp: reading\<close>)

end

context message_chain
begin

lemma parse_keyword_chain_ok:
  assumes "p_wf p" "J e s" "unread p \<le> n"
  shows "pok (parse_keyword_chain pe e s p) (\<lambda>es p'. keeps p p' \<and> (case es of (e, s) \<Rightarrow> J e s))"
  unfolding parse_keyword_chain_def
proof (rule pok_step [OF parse_binary_chain_ok [OF assms]], goal_cases)
  case (1 es q)
  obtain e s where es: "es = (e, s)" by fastforce
  have q: "p_wf q" "unread q \<le> n" "J e s" using 1 es assms(3) by (auto simp: reading)
  show ?case unfolding es prod.case Let_def
  proof (rule pok_keyword)
    fix k
    assume k: "cur_tok q = Keyword k"
    show "pok (rbind (parse_keyword_args pe q) (\<lambda>((sel, args), p). Inr ((SendE e sel args s (cur_span q), False), p)))
        (\<lambda>es p'. keeps p p' \<and> (case es of (e, s) \<Rightarrow> J e s))"
      by (rule pok_step [OF parse_keyword_args_ok [OF q(1) k q(2)]]) (use 1 q(3) in \<open>auto simp: reading J_send split: prod.splits\<close>)
  qed (use 1 es in simp)
qed

end


subsection \<open>Expressions\<close>

context expr_parser
begin

lemma parse_keyword_expr_ok:
  assumes "p_wf p" "unread p \<le> n"
  shows "pok (parse_keyword_expr pe p) (\<lambda>e p'. eats p p' \<and> wf_expr e)"
  unfolding parse_keyword_expr_def Let_def
proof (rule pok_step [OF parse_primary_ok [OF assms]], goal_cases)
  case (1 x q)
  obtain b s where x: "x = (b, s)" by fastforce
  have q: "p_wf q" "value_ok b s" "unread q \<le> n" using 1 x assms(2) by (auto simp: reading)
  show ?case unfolding x prod.case
    by (rule pok_step [OF val.parse_keyword_chain_ok [OF q]]) (use 1 x in \<open>auto simp: reading value_ok_def\<close>)
qed

lemma parse_cascade_segments_ok:
  assumes "p_wf p" "cur_tok p = Semi" "unread p \<le> n" "wf_seg s0 rs f"
  shows "pok (parse_cascade_segments pe s0 rs f p) (\<lambda>segs p'. eats p p' \<and> 2 \<le> length segs \<and> list_all (wf_seg s0 rs) segs)"
  unfolding parse_cascade_segments_def
proof (rule parse_loop_ok [where I = "\<lambda>segs q. keeps p q \<and> list_all (wf_seg s0 rs) segs \<and> segs \<noteq> [] \<and> (if length segs = 1 then cur_tok q = Semi else eats p q)"], goal_cases)
  case 1
  then show ?case using assms keeps_refl by simp
next
  case I: (2 segs q)
  have q: "p_wf q" "unread q \<le> n" using I keeps_wf(1) assms(3) by (auto simp: reading)
  show ?case
  proof (cases "cur_tok q = Semi")
    case True
    have base: "seg_ok s0 rs (CascadeRcvr rs) s0" by (simp add: seg_ok_def)
    show ?thesis unfolding if_P [OF True] Let_def
    proof (rule pok_step [OF bump_eats [OF q(1)]], goal_cases)
      case 1
      then show ?case using True by simp
    next
      case b: (2 u r)
      then have r: "p_wf r" "unread r \<le> n" using q(2) by (auto simp: reading)
      show ?case
      proof (rule pok_step [OF seg.parse_keyword_chain_ok [OF r(1) base r(2)]], goal_cases)
        case c: (1 es r2)
        obtain e s where es: "es = (e, s)" by fastforce
        have "wf_seg s0 rs e" if "\<nexists>sp. e = CascadeRcvr sp" using c es that by (auto simp: seg_ok_def)
        then show ?case unfolding es prod.case using I b c by (cases e) (auto simp: reading split: if_splits)
      qed
    qed
  next
    case False
    have "length segs \<noteq> 1" "segs \<noteq> []" using I False by auto
    then have "2 \<le> length segs" by (cases segs; cases "tl segs") auto
    then show ?thesis using I False by auto
  qed
qed

lemma parse_cascade_ok:
  assumes "p_wf p" "unread p \<le> n"
  shows "pok (parse_cascade pe p) (\<lambda>e p'. eats p p' \<and> wf_expr e)"
  unfolding parse_cascade_def Let_def
proof (rule pok_step [OF parse_keyword_expr_ok [OF assms]], goal_cases)
  case (1 e q)
  have q: "p_wf q" "unread q \<le> n" using 1 assms(2) by (auto simp: reading)
  show ?case
  proof (cases "cur_tok q = Semi \<and> (\<exists>r sel args s sp. e = SendE r sel args s sp)")
    case True
    then obtain r sel args s sp where e: "e = SendE r sel args s sp" and semi: "cur_tok q = Semi" by blast
    have f: "wf_seg s (expr_span r) (SendE (CascadeRcvr (expr_span r)) sel args s sp)" using 1 e by simp
    have "pok (rbind (parse_cascade_segments pe s (expr_span r) (SendE (CascadeRcvr (expr_span r)) sel args s sp) q)
        (\<lambda>(segments, pa). Inr (CascadeE r segments (cur_span p), pa))) (\<lambda>e p'. eats p p' \<and> wf_expr e)"
      by (rule pok_step [OF parse_cascade_segments_ok [OF q(1) semi q(2) f]]) (use 1 e in \<open>auto simp: reading\<close>)
    then show ?thesis using e semi by simp
  next
    case False
    then show ?thesis using 1 by (cases e) auto
  qed
qed

lemma expression_body_ok:
  assumes "p_wf p" "unread p \<le> n"
  shows "pok (expression_body pe p) (\<lambda>e p'. eats p p' \<and> wf_expr e)"
  unfolding expression_body_def Let_def
proof (rule pok_ident, goal_cases)
  case (1 name)
  show ?case
  proof (rule pok_step [OF peek2_keeps [OF assms(1)]], goal_cases)
    case p: (1 t q)
    then have q: "p_wf q" "unread q \<le> n" "cur_tok q = Ident name"
      using assms(2) 1 by (auto simp: reading)
    have "pok (rbind (check_not_reserved (cur_span q) name q) (\<lambda>(_, pa). rbind (p_bump pa) (\<lambda>(_, pa). rbind (p_bump pa) (\<lambda>(_, pa).
       rbind (pe pa) (\<lambda>(v, pa). Inr (AssignE name v (cur_span q), pa)))))) (\<lambda>e p'. eats p p' \<and> wf_expr e)"
      by (rule pok_step [OF check_not_reserved_ok], rule pok_step [OF bump_eats], use q in simp, use q in simp,
          rule pok_step [OF bump_keeps], simp add: reading, rule pok_step [OF pe_ok], simp add: reading, use q(2) in \<open>simp add: reading\<close>)
        (use p ident_tok [OF q(1,3)] in \<open>auto simp: reading\<close>)
    moreover have "pok (parse_cascade pe q) (\<lambda>e p'. eats p p' \<and> wf_expr e)" 
      by (rule pok_mono [OF parse_cascade_ok [OF q(1,2)]]) (use p keeps_trans(3) in blast)
    ultimately show ?case by simp
  qed
qed (rule parse_cascade_ok [OF assms])

end

lemma expr_parser_expression: "expr_parser (parse_expression n) n"
proof (induction n)
  case 0
  show ?case by unfold_locales simp
next
  case (Suc n)
  show ?case by unfold_locales (simp add: expr_parser.expression_body_ok [OF Suc])
qed

interpretation expression_fuel: expr_parser "parse_expression n" n for n
  by (rule expr_parser_expression)

interpretation expressions: expr_parser expression n for n
  by unfold_locales (simp add: expression_def expression_fuel.pe_ok del: parse_expression.simps)


subsection \<open>Pragmas\<close>

lemma p_pragma_mode_simps [simp]:
  "unread (p_pragma_mode v p) = unread p" "p_cur (p_pragma_mode v p) = p_cur p" "literal_seq_depth (p_pragma_mode v p) = literal_seq_depth p"
  "pragma_mode (p_lx (p_pragma_mode v p)) = v" "p_wf (p_pragma_mode v p) = p_wf p"
  by (simp_all add: p_pragma_mode_def set_pragma_mode_def unread_def p_wf_def)

lemma is_op_not_eof: "is_op s t \<Longrightarrow> t \<noteq> Eof"
  by (auto simp: is_op_def)

lemma skip_pragma_body_ok:
  assumes "p_wf p" "0 < d"
  shows "pok (skip_pragma_body d p) (\<lambda>_ p'. keeps (p_pragma_mode False p) p')"
  unfolding skip_pragma_body_def
proof (rule parse_loop_ok [where I = "\<lambda>d q. keeps p q \<and> 0 < d"], goal_cases)
  case 1
  then show ?case using assms keeps_refl by simp
next
  case I: (2 d q)
  then have q: "p_wf q" by (simp add: keeps_def)
  have step: "pok (rbind (p_bump q) (\<lambda>(_, p). Inr (Continue e, p)))
      (\<lambda>r q'. case r of Continue s' \<Rightarrow> (keeps p q' \<and> 0 < s') \<and> unread q' < unread q | Break v \<Rightarrow> keeps (p_pragma_mode False p) q')"
    if "0 < e" "cur_tok q \<noteq> Eof" for e
    by (rule pok_step [OF bump_eats [OF q that(2)]]) (use that I in \<open>auto simp: reading\<close>)
  have close: "pok (rbind (p_bump (if d - 1 = 0 then p_pragma_mode False q else q)) (\<lambda>(_, p). Inr (if d - 1 = 0 then Break () else Continue (d - 1), p)))
      (\<lambda>r q'. case r of Continue s' \<Rightarrow> (keeps p q' \<and> 0 < s') \<and> unread q' < unread q | Break v \<Rightarrow> keeps (p_pragma_mode False p) q')"
    if "cur_tok q \<noteq> Eof"
    by (rule pok_step [OF bump_eats]) (use q that I in \<open>auto simp: reading\<close>)
  show ?case unfolding Let_def
    by (intro pok_if) (rule step, simp, use is_op_not_eof in blast, rule close, use is_op_not_eof in blast, simp, rule step, use I in simp, blast)
qed

lemma expect_ffi_sym_ok: "p_wf p \<Longrightarrow> pok (expect_ffi_sym c p) (\<lambda>_ p'. keeps p p')"
proof (cases "\<exists>s. cur_tok p = SymLit s")
  case True
  assume "p_wf p"
  then show ?thesis using True by (auto simp: expect_ffi_sym_def keeps_wf(3) intro!: pok_step [OF bump_eats])
next
  case False
  then show ?thesis by (cases "cur_tok p") (auto simp: expect_ffi_sym_def)
qed

lemma expect_ffi_bool_ok: "p_wf p \<Longrightarrow> pok (expect_ffi_bool c p) (\<lambda>_ p'. keeps p p')"
  unfolding expect_ffi_bool_def
  by (intro pok_if) ((rule pok_step [OF bump_eats], assumption, simp, simp add: keeps_wf(3))+, simp)

lemma parse_array_literal_array: "parse_array_literal elem p = Inr (l, p') \<Longrightarrow> \<exists>ls. l = ArrayL ls"
  by (auto simp: parse_array_literal_def rbind_Inr p_error_def split: if_splits)

lemma expect_ffi_sym_array_ok: "p_wf p \<Longrightarrow> pok (expect_ffi_sym_array c p) (\<lambda>_ p'. keeps p p')"
proof (cases "cur_tok p = LitArrayOpen")
  case True
  assume "p_wf p"
  then have a: "pok (array_literal p) (\<lambda>l p'. eats p p')" using pok_mono [OF array_literal_ok] True by simp
  show ?thesis
  proof (cases "array_literal p")
    case (Inl e)
    then show ?thesis using a True by (cases e) (simp_all add: expect_ffi_sym_array_def)
  next
    case (Inr x)
    obtain l q where x: "x = (l, q)" by fastforce
    obtain ls where "l = ArrayL ls" using parse_array_literal_array Inr x unfolding array_literal_def by blast
    then show ?thesis using a True Inr x keeps_wf(3) by (auto simp: expect_ffi_sym_array_def split: option.split)
  qed
qed (simp add: expect_ffi_sym_array_def)

lemma dup_check_ok: "pok (dup_check s st k p) (\<lambda>_ p'. p' = p)"
  by (simp add: dup_check_def)

lemma ffi_slot_ok:
  "pok (f p) (\<lambda>_ p'. keeps p p') \<Longrightarrow> pok (rbind (dup_check sl start k p) (\<lambda>(_, p). rbind (f p) (\<lambda>(s, p). Inr (g s, p)))) (\<lambda>_ p'. keeps p p')"
  by (rule pok_step [OF dup_check_ok]) (auto intro: pok_step)

lemma ffi_part_ok: "p_wf p \<Longrightarrow> pok (ffi_part start k fp p) (\<lambda>_ p'. keeps p p')"
  unfolding ffi_part_def
  by (intro pok_if ffi_slot_ok expect_ffi_sym_ok expect_ffi_bool_ok expect_ffi_sym_array_ok) simp_all

lemma ffi_loop_ok:
  assumes "p_wf p"
  shows "pok (ffi_loop start p) (\<lambda>_ p'. keeps p p' \<and> is_op ''>'' (cur_tok p'))"
  unfolding ffi_loop_def
proof (rule parse_loop_ok [where I = "\<lambda>_ q. keeps p q"], goal_cases)
  case I: (2 fp q)
  then have q: "p_wf q" by (simp add: keeps_def)
  have kw: "pok (case cur_tok q of Keyword k \<Rightarrow> rbind (p_bump q) (\<lambda>(_, p). rbind (ffi_part start k fp p) (\<lambda>(fp, p). Inr (Continue fp, p)))
     | _ \<Rightarrow> p_error q (cur_span q) m)
     (\<lambda>r q'. case r of Continue s' \<Rightarrow> keeps p q' \<and> unread q' < unread q | Break v \<Rightarrow> keeps p q' \<and> is_op ''>'' (cur_tok q'))" for m
  proof (rule pok_keyword, goal_cases)
    case (1 k)
    show ?case by (rule pok_step [OF bump_eats [OF q]], simp add: 1, rule pok_step [OF ffi_part_ok]) (use I in \<open>auto simp: reading\<close>)
  qed simp
  show ?case by (rule pok_if) (use I in simp, rule kw)
qed (use assms keeps_refl in simp)

lemma parse_ffi_pragma_body_ok:
  assumes "p_wf p"
  shows "pok (parse_ffi_pragma_body start p) (\<lambda>_ p'. keeps (p_pragma_mode False p) p')"
  unfolding parse_ffi_pragma_body_def Let_def
proof (rule pok_step [OF ffi_loop_ok [OF assms]], goal_cases)
  case (1 fp q)
  show ?case
  proof (rule pok_step [OF bump_eats], goal_cases)
    case 3: (3 u r)
    then have "keeps (p_pragma_mode False p) r" using 1 by (auto simp: reading)
    then show ?case by (simp split: option.split)
  qed (use 1 is_op_not_eof in \<open>auto simp: reading\<close>)
qed

lemma parse_primitive_id_ok:
  assumes "p_wf p"
  shows "pok (parse_primitive_id start p) (\<lambda>v p'. keeps (p_pragma_mode False p) p' \<and> 1 \<le> v \<and> v \<le> 65535)"
proof (cases "\<exists>neg r d. cur_tok p = IntLit neg r d")
  case True
  then obtain neg r d where t: "cur_tok p = IntLit neg r d" by blast
  then have rd: "2 \<le> r" "list_all (\<lambda>c. \<not> bad_digit r c) d" using assms by (simp_all add: p_wf_def)
  then obtain m where m: "int_lit_magnitude r d = Some m" "canonical_magnitude m"
    using magnitude_loop_value [of r d "[]"] by (auto simp: int_lit_magnitude_def canonical_magnitude_def)
  then have "0 \<le> le_value (take 8 m)" using le_value_bounds [of "take 8 m"] by (auto simp: canonical_magnitude_def list_all_iff dest: in_set_takeD)
  then have v: "le_value (take 8 m) \<noteq> 0 \<Longrightarrow> 1 \<le> le_value (take 8 m)" by linarith
  show ?thesis unfolding parse_primitive_id_def t tok.case Let_def
  proof (rule pok_step [OF bump_eats [OF assms]], goal_cases)
    case (2 u q)
    have "pok (rbind (p_bump (p_pragma_mode False q)) f) (\<lambda>v p'. keeps (p_pragma_mode False p) p' \<and> 1 \<le> v \<and> v \<le> 65535)"
      if "is_op ''>'' (cur_tok q)" "f = (\<lambda>(_, p). if neg then p_error p start a else rbind (or_panic (int_lit_magnitude r d) p) (\<lambda>(mag, p).
           if length mag > 8 \<or> le_value (take 8 mag) = 0 \<or> le_value (take 8 mag) > 65535 then p_error p start b else Inr (le_value (take 8 mag), p)))" for f a b
      unfolding that(2) by (rule pok_step [OF bump_eats]) (use 2 that is_op_not_eof m v in \<open>auto simp: reading\<close>)
    then show ?case by simp
  qed (use t in simp)
next
  case False
  then show ?thesis by (cases "cur_tok p") (auto simp: parse_primitive_id_def)
qed

definition prim_ok :: "int option \<Rightarrow> ffi_pragma option \<Rightarrow> bool" where
  "prim_ok i f \<longleftrightarrow> (i = None \<or> f = None) \<and> (case i of Some n \<Rightarrow> 1 \<le> n \<and> n \<le> 65535 | None \<Rightarrow> True)"

lemma parse_method_pragma_ok:
  assumes "p_wf p" "cur_tok p \<noteq> Eof" "\<not> pragma_mode (p_lx p)"
  shows "pok (parse_method_pragma p) (\<lambda>r p'. eats p p' \<and> (case r of (i, f) \<Rightarrow> prim_ok i f))"
  unfolding parse_method_pragma_def Let_def
proof (rule pok_step [OF bump_eats], goal_cases)
  case (3 u q)
  then have q: "p_wf q" "keeps (p_pragma_mode False q) r \<Longrightarrow> eats p r" for r using assms(3) by (auto simp: reading)
  have prim: "pok (rbind (p_bump q) (\<lambda>(_, p).
               if cur_tok p = Ident (ustr ''FFI'') then
                 rbind (p_bump p) (\<lambda>(_, p). rbind (parse_ffi_pragma_body (cur_span p0) p) (\<lambda>(ffi, p). Inr ((None, Some ffi), p)))
               else rbind (parse_primitive_id (cur_span p0) p) (\<lambda>(v, p). Inr ((Some v, None), p))))
      (\<lambda>r p'. eats p p' \<and> (case r of (i, f) \<Rightarrow> prim_ok i f))" for p0
  proof (rule pok_step [OF bump_keeps [OF q(1)]], goal_cases)
    case k: (1 v r)
    then have r: "p_wf r" by (simp add: reading)
    have f: "pok (rbind (p_bump r) (\<lambda>(_, p). rbind (parse_ffi_pragma_body (cur_span p0) p) (\<lambda>(ffi, p). Inr ((None, Some ffi), p))))
        (\<lambda>r p'. eats p p' \<and> (case r of (i, f) \<Rightarrow> prim_ok i f))"
      by (rule pok_step [OF bump_keeps [OF r]], rule pok_step [OF parse_ffi_pragma_body_ok], simp add: reading)
        (use k 3 assms(3) in \<open>auto simp: reading prim_ok_def\<close>)
    have i: "pok (rbind (parse_primitive_id (cur_span p0) r) (\<lambda>(v, p). Inr ((Some v, None), p))) (\<lambda>r p'. eats p p' \<and> (case r of (i, f) \<Rightarrow> prim_ok i f))"
      by (rule pok_step [OF parse_primitive_id_ok [OF r]]) (use k 3 assms(3) in \<open>auto simp: reading prim_ok_def\<close>)
    show ?case using f i by simp
  qed
  have "pok (rbind (skip_pragma_body 1 q) (\<lambda>(_, p). Inr ((None, None), p))) (\<lambda>r p'. eats p p' \<and> (case r of (i, f) \<Rightarrow> prim_ok i f))"
    by (rule pok_step [OF skip_pragma_body_ok [OF q(1)]]) (use q(2) in \<open>auto simp: prim_ok_def\<close>)
  then show ?case using prim by simp
qed (use assms in simp_all)


lemma parse_ident_run_ok:
  assumes "p_wf p"
  shows "pok (parse_ident_run p) (\<lambda>ns p'. keeps p p' \<and> list_all is_ident ns)"
  unfolding parse_ident_run_def
proof (rule collect_loop_ok [where J = "list_all is_ident", OF assms], goal_cases)
  case (2 s q)
  note q = keeps_wf(1) [OF 2(1)]
  show ?case
  proof (rule pok_ident, goal_cases)
    case (1 i)
    show ?case by (rule pok_step [OF bump_eats [OF q]], simp add: 1) (use 2(2) ident_tok [OF q 1] in auto)
  qed (use 2 keeps_refl [OF q] in simp)
qed simp

fun class_pragma_ok :: "class_pragma \<Rightarrow> bool" where
  "class_pragma_ok (PClassVars ns) \<longleftrightarrow> list_all is_ident ns"
| "class_pragma_ok _ \<longleftrightarrow> True"

lemma parse_class_pragma_ok:
  assumes "p_wf p" "cur_tok p \<noteq> Eof" "\<not> pragma_mode (p_lx p)"
  shows "pok (parse_class_pragma p) (\<lambda>r p'. eats p p' \<and> class_pragma_ok r)"
  unfolding parse_class_pragma_def Let_def
proof (rule pok_step [OF bump_eats], goal_cases)
  case op: (3 u q)
  then have q: "p_wf q" by (simp add: reading)
  have close: "pok (rbind (p_bump (p_pragma_mode False r)) (\<lambda>(_, p). f p)) (\<lambda>r p'. eats p p' \<and> class_pragma_ok r)"
    if "keeps q r" "is_op ''>'' (cur_tok r)" "\<And>p'. eats p p' \<Longrightarrow> pok (f p') (\<lambda>r p'. eats p p' \<and> class_pragma_ok r)" for r f
    by (rule pok_step [OF bump_eats], use that(1) in \<open>simp add: reading\<close>, use is_op_not_eof that(2) in simp, rule that(3))
      (use that(1) op assms(3) in \<open>auto simp: reading\<close>)
  show ?case
  proof (intro pok_if, goal_cases)
    case 1
    show ?case
    proof (rule pok_step [OF bump_keeps [OF q]], goal_cases)
      case b: (1 v r)
      then have r: "p_wf r" by (simp add: reading)
      show ?case
      proof (rule pok_ident, goal_cases)
        case (1 kind)
        show ?case
          by (rule pok_step [OF bump_keeps [OF r]], rule pok_if, rule close) (use b in \<open>auto simp: reading\<close>)
      qed simp
    qed
  next
    case 2
    show ?case
      by (rule pok_step [OF bump_keeps [OF q]], rule pok_step [OF parse_ident_run_ok], simp add: reading, rule pok_if, rule close)
        (auto simp: reading)
  next
    case 3
    show ?case
      by (rule pok_step [OF skip_pragma_body_ok [OF q]], simp) (use op assms(3) in \<open>auto simp: reading\<close>)
  qed
qed (use assms in simp_all)

subsection \<open>Methods and classes\<close>

lemma parse_pattern_ok:
  assumes "p_wf p"
  shows "pok (parse_pattern p) (\<lambda>r p'. eats p p' \<and> (case r of (sel, ps) \<Rightarrow> sel_arity sel = length ps \<and> free_names ps))"
proof -
  have one: "pok (rbind (p_bump p) (\<lambda>(_, p). rbind (parse_param m p) (\<lambda>(n, p). Inr ((sel, [n]), p))))
      (\<lambda>r p'. eats p p' \<and> (case r of (sel, ps) \<Rightarrow> sel_arity sel = length ps \<and> free_names ps))"
    if "sel_arity sel = 1" "cur_tok p \<noteq> Eof" for sel m
    by (rule pok_step [OF bump_eats [OF assms that(2)]], rule pok_step [OF parse_param_ok]) (use that(1) in \<open>auto simp: reading free_names_def\<close>)
  show ?thesis
  proof (cases "cur_tok p")
    case (Ident i)
    have "pok (rbind (p_bump p) (\<lambda>(_, p). Inr ((i, []), p))) (\<lambda>r p'. eats p p' \<and> (case r of (sel, ps) \<Rightarrow> sel_arity sel = length ps \<and> free_names ps))"
      by (rule pok_step [OF bump_eats [OF assms]]) (use Ident ident_arity [OF ident_tok [OF assms Ident]] in \<open>auto simp: free_names_def\<close>)
    then show ?thesis using Ident by (simp add: parse_pattern_def)
  next
    case (BinarySel s)
    then show ?thesis using one [of s] binary_arity(1) [of s] assms by (simp add: parse_pattern_def p_wf_def)
  next
    case VBar
    then show ?thesis using one [of "ustr ''|''"] binary_arity(2) by (simp add: parse_pattern_def)
  next
    case (Keyword k)
    have par: "pok (parse_param m q) (\<lambda>x q'. keeps q q' \<and> is_ident x \<and> \<not> is_reserved x)" if "eats p q" for m q
      by (rule pok_mono [OF parse_param_ok]) (use that in \<open>auto simp: reading\<close>)
    show ?thesis unfolding parse_pattern_def Keyword tok.case free_names_def by (rule keyword_loop_ok [OF assms Keyword par])
  qed (simp_all add: parse_pattern_def)
qed

lemma parse_pragmas_ok:
  assumes "p_wf p" "\<not> pragma_mode (p_lx p)"
  shows "pok (parse_pragmas p) (\<lambda>r p'. keeps p p' \<and> (case r of (i, f) \<Rightarrow> prim_ok i f))"
  unfolding parse_pragmas_def
proof (rule collect_loop_ok [where J = "\<lambda>(i, f). prim_ok i f", OF assms(1)], goal_cases)
  case 1
  show ?case by (simp add: prim_ok_def)
next
  case (2 st q)
  have q: "p_wf q" "\<not> pragma_mode (p_lx q)" using 2(1) assms(2) by (simp_all add: keeps_def)
  obtain i f where st: "st = (i, f)" by fastforce
  show ?case unfolding st prod.case Let_def
  proof (rule pok_if, goal_cases)
    case 1
    show ?case
      by (rule pok_step [OF parse_method_pragma_ok [OF q(1) is_op_not_eof [OF 1] q(2)]]) (use 2(2) st in \<open>auto simp: reading\<close>)
  qed (use 2(2) st keeps_refl [OF q(1)] in simp)
qed

definition body_ok :: "int option \<times> ffi_pragma option \<times> utext list \<times> expr list \<Rightarrow> bool" where
  "body_ok b \<longleftrightarrow> (case b of (i, f, ts, es) \<Rightarrow> prim_ok i f \<and> free_names ts \<and> list_all wf_stmt es)"

lemma parse_method_body_ok:
  assumes "p_wf p" "\<not> pragma_mode (p_lx p)"
  shows "pok (parse_method_body p) (\<lambda>b p'. keeps p p' \<and> body_ok b)"
  unfolding parse_method_body_def
proof (rule pok_step [OF parse_pragmas_ok [OF assms]], goal_cases)
  case (1 x q)
  obtain i f where x: "x = (i, f)" by fastforce
  show ?case unfolding x prod.case
    by (rule pok_step [OF parse_optional_temps_ok], use 1 in \<open>simp add: reading\<close>,
        rule pok_step [OF expressions.parse_statements_ok [OF _ lessI]], simp add: reading) (use 1 x in \<open>auto simp: reading body_ok_def\<close>)
qed

lemma wf_methodI:
  "sel_arity sel = length ps \<Longrightarrow> free_names ps \<Longrightarrow> body_ok (i, f, ts, es) \<Longrightarrow>
   wf_method \<lparr>pattern_selector = sel, mn_params = ps, mn_primitive = i, mn_ffi = f, mn_temps = ts, mn_body = es, mn_class_side = c, mn_span = sp\<rparr>"
  by (simp add: wf_method_def body_ok_def prim_ok_def)

lemma parse_method_ok:
  assumes "p_wf p" "\<not> pragma_mode (p_lx p)"
  shows "pok (parse_method c p) (\<lambda>m p'. eats p p' \<and> wf_method m)"
  unfolding parse_method_def Let_def
proof (rule pok_step [OF parse_pattern_ok [OF assms(1)]], goal_cases)
  case (1 x q)
  obtain sel ps where x: "x = (sel, ps)" by fastforce
  have q: "p_wf q" using 1 by (simp add: reading)
  show ?case unfolding x prod.case
  proof (rule pok_step [OF expect_eats [OF q]], simp, rule pok_step [OF parse_method_body_ok], goal_cases)
    case (3 u r b r2)
    obtain i f ts es where b: "b = (i, f, ts, es)" by (cases b) auto
    show ?case unfolding b prod.case
      by (rule pok_step [OF expect_eats]) (use 1 x 3 b in \<open>auto simp: reading intro!: wf_methodI\<close>)
  qed (use 1 assms(2) in \<open>auto simp: reading\<close>)
qed


definition cb_ok :: "class_body \<Rightarrow> bool" where
  "cb_ok cb \<longleftrightarrow> (case cb of (ix, ivs, cvs, ms) \<Rightarrow> free_names ivs \<and> list_all is_ident cvs \<and> list_all wf_method ms)"

lemma is_ident_peek_ok:
  "p_wf q \<Longrightarrow> pok (case cur_tok q of Ident _ \<Rightarrow> rbind (peek2 q) (\<lambda>(t, p). Inr (t = want, p)) | _ \<Rightarrow> Inr (False, q)) (\<lambda>_ p'. keeps q p')"
  by (rule pok_ident, rule pok_step [OF peek2_keeps]) (auto simp: keeps_refl)

lemma class_bar_item_ok:
  assumes "p_wf p" "cur_tok p \<noteq> Eof" "\<not> pragma_mode (p_lx p)" "cb_ok cb"
  shows "pok (class_bar_item cb p) (\<lambda>cb p'. eats p p' \<and> cb_ok cb)"
proof -
  obtain ix ivs cvs ms where cb: "cb = (ix, ivs, cvs, ms)" by (cases cb) auto
  show ?thesis unfolding class_bar_item_def cb prod.case Let_def
  proof (rule pok_step [OF bump_eats [OF assms(1,2)]], goal_cases)
    case b: (1 u q)
    then have q: "p_wf q" by (simp add: reading)
    show ?case
    proof (rule pok_step [OF is_ident_peek_ok [OF q]], goal_cases)
      case c: (1 bm r)
      then have r: "p_wf r" "\<not> pragma_mode (p_lx r)" using b assms(3) by (auto simp: reading)
      show ?case
      proof (rule pok_if, goal_cases)
        case 1
        show ?case
        proof (rule pok_step [OF parse_param_ok [OF r(1)]], rule pok_step [OF expect_eats], simp add: reading, simp,
            rule pok_step [OF parse_method_body_ok], simp add: reading, use r(2) in \<open>simp add: reading\<close>, goal_cases)
          case d: (1 n r1 u2 r2 body r3)
          obtain i f ts es where body: "body = (i, f, ts, es)" by (cases body) auto
          have m: "wf_method \<lparr>pattern_selector = ustr ''|'', mn_params = [n], mn_primitive = i, mn_ffi = f, mn_temps = ts, mn_body = es,
              mn_class_side = False, mn_span = sp\<rparr>" for sp
            using d body binary_arity(2) by (intro wf_methodI) (simp_all add: free_names_def)
          show ?case unfolding body prod.case
            by (rule pok_step [OF expect_eats]) (use b c d m cb assms(4) in \<open>auto simp: reading cb_ok_def\<close>)
        qed
      next
        case 2
        show ?case
          by (rule pok_step [OF name_loop_ok [OF r(1)]], rule pok_step [OF expect_eats])
            (use b c cb assms(4) in \<open>auto simp: reading cb_ok_def free_names_def\<close>)
      qed
    qed
  qed
qed

lemma class_ident_item_ok:
  assumes "p_wf p" "\<not> pragma_mode (p_lx p)"
  shows "pok (class_ident_item name i p) (\<lambda>m p'. eats p p' \<and> wf_method m)"
  unfolding class_ident_item_def Let_def
proof (rule pok_step [OF peek2_keeps [OF assms(1)]], goal_cases)
  case (1 t q)
  then have q: "p_wf q" "\<not> pragma_mode (p_lx q)" "keeps p q" using assms(2) by (auto simp: reading)
  show ?case
  proof (rule pok_if, goal_cases)
    case 1
    show ?case
      by (rule pok_step [OF bump_keeps [OF q(1)]], rule pok_step [OF bump_keeps], simp add: reading, intro pok_if, simp, simp,
          rule pok_step [OF bump_keeps], simp add: reading, rule pok_mono [OF parse_method_ok])
        (use q in \<open>auto simp: reading\<close>)
  next
    case 2
    show ?case by (rule pok_mono [OF parse_method_ok [OF q(1,2)]]) (use q(3) in \<open>auto simp: reading\<close>)
  qed
qed

lemma class_less_item_ok:
  assumes "p_wf p" "cur_tok p \<noteq> Eof" "\<not> pragma_mode (p_lx p)" "cb_ok cb"
  shows "pok (class_less_item cb p) (\<lambda>cb p'. eats p p' \<and> cb_ok cb)"
proof -
  obtain ix ivs cvs ms where cb: "cb = (ix, ivs, cvs, ms)" by (cases cb) auto
  show ?thesis unfolding class_less_item_def cb prod.case
  proof (rule pok_step [OF peek2_keeps [OF assms(1)]], goal_cases)
    case (1 t q)
    then have q: "p_wf q" "cur_tok q \<noteq> Eof" "\<not> pragma_mode (p_lx q)" using assms(2,3) by (auto simp: reading)
    show ?case
    proof (rule pok_ident, goal_cases)
      case m: (1 i)
      show ?case by (rule pok_step [OF parse_method_ok [OF q(1,3)]]) (use 1 cb assms(4) in \<open>auto simp: reading cb_ok_def\<close>)
    next
      case 2
      show ?case
      proof (rule pok_step [OF parse_class_pragma_ok [OF q]], goal_cases)
        case (1 pr r)
        then show ?case using \<open>keeps p q \<and> p_cur q = p_cur p\<close> cb assms(4) by (cases pr) (auto simp: reading cb_ok_def)
      qed
    qed
  qed
qed

lemma class_item_ok:
  assumes "p_wf q" "\<not> pragma_mode (p_lx q)" "cb_ok cb"
  shows "pok (class_item name cb q) (\<lambda>r q'. case r of Continue s' \<Rightarrow> eats q q' \<and> cb_ok s' | Break v \<Rightarrow> keeps q q' \<and> cb_ok v)"
proof -
  obtain ix ivs cvs ms where cb: "cb = (ix, ivs, cvs, ms)" by (cases cb) auto
  have item: "pok (rbind m (\<lambda>(cb, p). Inr (Continue cb, p))) (\<lambda>r q'. case r of Continue s' \<Rightarrow> eats q q' \<and> cb_ok s' | Break v \<Rightarrow> keeps q q' \<and> cb_ok v)"
    if "pok m (\<lambda>cb p'. eats q p' \<and> cb_ok cb)" for m :: "class_body parsed"
    by (rule pok_step [OF that]) simp
  have meth: "pok (rbind m (\<lambda>(m, p). Inr (Continue (ix, ivs, cvs, ms @ [m]), p))) (\<lambda>r q'. case r of Continue s' \<Rightarrow> eats q q' \<and> cb_ok s' | Break v \<Rightarrow> keeps q q' \<and> cb_ok v)"
    if "pok m (\<lambda>m p'. eats q p' \<and> wf_method m)" for m
    by (rule pok_step [OF that]) (use assms(3) cb in \<open>simp add: cb_ok_def\<close>)
  note pm = meth [OF parse_method_ok [OF assms(1,2)]]
  show ?thesis unfolding class_item_def cb prod.case
  proof (intro pok_if, goal_cases)
    case 1
    then show ?case using assms cb keeps_refl by simp
  next
    case 3
    then show ?case using item class_less_item_ok assms cb by simp
  next
    case 4
    then show ?case using item [OF class_bar_item_ok [OF assms(1) _ assms(2,3)]] meth [OF class_ident_item_ok [OF assms(1,2)]] pm cb
      by (cases "cur_tok q") simp_all
  qed simp
qed

lemma parse_class_def_ok:
  assumes "p_wf p" "\<not> pragma_mode (p_lx p)"
  shows "pok (parse_class_def p) (\<lambda>c p'. eats p p' \<and> wf_class_def c)"
  unfolding parse_class_def_def Let_def
proof (rule pok_step [OF expect_ident_eats [OF assms(1)]], rule pok_step [OF expect_keyword_eats], simp add: reading,
    rule pok_step [OF expect_ident_eats], simp add: reading, rule pok_step [OF expect_eats], simp add: reading, simp, goal_cases)
  case (1 sn p1 u1 p2 nm p3 u2 p4)
  then have p4: "p_wf p4" "\<not> pragma_mode (p_lx p4)" using assms(2) by (auto simp: reading)
  have l: "pok (parse_loop (class_item nm) (None, [], [], []) p4) (\<lambda>cb p'. keeps p4 p' \<and> cb_ok cb)"
  proof (rule collect_loop_ok [where J = cb_ok, OF p4(1)], goal_cases)
    case (2 cb q)
    then show ?case using class_item_ok p4(2) by (simp add: reading)
  qed (simp add: cb_ok_def free_names_def)
  show ?case
  proof (rule pok_step [OF l], goal_cases)
    case c: (1 cb p5)
    obtain ix ivs cvs ms where cb: "cb = (ix, ivs, cvs, ms)" by (cases cb) auto
    show ?case unfolding cb prod.case
      by (rule pok_step [OF bump_keeps]) (use 1 c cb in \<open>auto simp: reading cb_ok_def wf_class_def_def\<close>)
  qed
qed

subsection \<open>Files\<close>

lemma at_class_def_ok: "p_wf p \<Longrightarrow> pok (at_class_def p) (\<lambda>_ p'. keeps p p')"
  unfolding at_class_def_def by (rule is_ident_peek_ok)

lemma top_statement_ok: "p_wf p \<Longrightarrow> pok (parse_statement expression p) (\<lambda>e p'. eats p p' \<and> wf_stmt e)"
  by (rule expressions.parse_statement_ok [OF _ lessI])

lemma parse_items_ok:
  assumes "p_wf p" "\<not> pragma_mode (p_lx p)"
  shows "pok (parse_items p) (\<lambda>is p'. keeps p p' \<and> list_all wf_item is)"
  unfolding parse_items_def
proof (rule collect_loop_ok [where J = "list_all wf_item", OF assms(1)], goal_cases)
  case (2 s q)
  have q: "p_wf q" "\<not> pragma_mode (p_lx q)" using 2(1) assms(2) by (simp_all add: keeps_def)
  show ?case
  proof (rule pok_if, goal_cases)
    case 1
    show ?case using 2(2) keeps_refl [OF q(1)] by simp
  next
    case c: 2
    show ?case
    proof (rule pok_step [OF at_class_def_ok [OF q(1)]], goal_cases)
      case d: (1 b r)
      then have r: "p_wf r" "\<not> pragma_mode (p_lx r)" using q(2) by (auto simp: reading)
      show ?case
      proof (rule pok_if, goal_cases)
        case 1
        show ?case by (rule pok_step [OF parse_class_def_ok [OF r]]) (use d 2(2) in \<open>auto simp: reading\<close>)
      next
        case e: 2
        show ?case by (rule pok_step [OF top_statement_ok [OF r(1)]], rule pok_step [OF expect_eats]) (use d 2(2) in \<open>auto simp: reading\<close>)
      qed
    qed
  qed
qed simp

lemma new_parser_ok:
  "case new_parser input of Inl e \<Rightarrow> \<exists>c. e = Compile c | Inr p \<Rightarrow> p_wf p \<and> \<not> pragma_mode (p_lx p)"
proof (cases "next_token (new_lexer input)")
  case (Inl e)
  then show ?thesis by (simp add: new_parser_def p_lex_def)
next
  case (Inr x)
  obtain t sp lx where x: "x = ((t, sp), lx)" by (cases x) auto
  show ?thesis using Inr x next_token_ok [of "new_lexer input" t sp lx] next_token_modes [of "new_lexer input" t sp lx]
    by (simp add: new_parser_def p_lex_def p_wf_def new_lexer_def Let_def)
qed

lemma parse_file_result:
  "case parse_file input of Inl e \<Rightarrow> \<exists>c. e = Compile c | Inr items \<Rightarrow> list_all wf_item items"
proof (cases "new_parser input")
  case (Inl e)
  then show ?thesis using new_parser_ok [of input] by (simp add: parse_file_def)
next
  case (Inr p)
  then have "pok (parse_items p) (\<lambda>is p'. keeps p p' \<and> list_all wf_item is)" using new_parser_ok [of input] parse_items_ok by simp
  then show ?thesis using Inr by (auto simp: parse_file_def pok_def rbind_def split: sum.splits p_stop.splits)
qed

lemma pok_finish: "pok m (\<lambda>v _. Q v) \<Longrightarrow> case rbind m (\<lambda>(v, _). Inr (f v)) of Inl e \<Rightarrow> \<exists>c. e = Compile c | Inr x \<Rightarrow> \<exists>v. x = f v \<and> Q v"
  by (auto simp: pok_def rbind_def split: sum.splits p_stop.splits)

lemma one_item_ok:
  assumes "p_wf p" "\<not> pragma_mode (p_lx p)"
  shows "pok (one_item p) (\<lambda>x _. wf_item x)"
  unfolding one_item_def
proof (rule pok_step [OF at_class_def_ok [OF assms(1)]], goal_cases)
  case (1 b r)
  then have r: "p_wf r" "\<not> pragma_mode (p_lx r)" using assms(2) by (auto simp: reading)
  show ?case
  proof (rule pok_if, goal_cases)
    case 1
    show ?case by (rule pok_step [OF parse_class_def_ok [OF r]]) simp
  next
    case 2
    show ?case
    proof (rule pok_step [OF top_statement_ok [OF r(1)]], goal_cases)
      case s: (1 e q)
      then have "pok (p_expect Period m q) (\<lambda>_ p'. True)" for m using pok_mono [OF expect_eats] by (auto simp: reading)
      then show ?case using s by (auto intro!: pok_step [where R = "\<lambda>_ _. True"])
    qed
  qed
qed

lemma parse_one_result:
  "case parse_one_top_item input of Inl e \<Rightarrow> \<exists>c. e = Compile c | Inr None \<Rightarrow> True | Inr (Some x) \<Rightarrow> wf_item x"
proof (cases "new_parser input")
  case (Inl e)
  then show ?thesis using new_parser_ok [of input] by (auto simp: parse_one_top_item_def)
next
  case (Inr p)
  then have "pok (one_item p) (\<lambda>x _. wf_item x)" using new_parser_ok [of input] one_item_ok by simp
  from pok_finish [OF this, of Some] show ?thesis using Inr by (auto simp: parse_one_top_item_def split: sum.splits)
qed

text \<open>
  C15. Parsing any text ends, and ends in one of two ways: with the list of top-level items or with one compile error that has a
  place and a message. No input makes the parser run forever (the bounds of the model are always enough) and none makes it
  panic; the same holds for the entry point of the read-eval-print loop.
\<close>
theorem parser_total:
  "((\<exists>items. parse_file input = Inr items) \<or> (\<exists>e. parse_file input = Inl (Compile e))) \<and>
   ((\<exists>item. parse_one_top_item input = Inr item) \<or> (\<exists>e. parse_one_top_item input = Inl (Compile e)))"
  using parse_file_result [of input] parse_one_result [of input] by (auto split: sum.splits)

text \<open>
  C6. The parser builds only well-formed trees. In every item of a parsed file, at any depth: a return stands only in statement
  position; a cascade marker is only the innermost receiver of a cascade segment, whose super flag agrees with the first message;
  a super send has \<open>self\<close> as receiver; every message and every method has as many arguments as its selector asks for;
  no reserved word is assigned, declared as a parameter, temporary or instance variable, or read as a variable;
  integer literals are small exactly when they fit a small integer and otherwise canonical magnitudes; a method has at most one of a primitive, numbered 1 to 65535, and
  a foreign-call pragma.
\<close>
theorem parser_builds_wf:
  assumes "parse_file input = Inr items"
  shows "list_all wf_item items"
  using parse_file_result [of input] assms by simp

definition demo_source :: utext where
  "demo_source = ustr ''Object subclass: P [ |x| at: i put: v [ <primitive: 12> |t| t := super foo; bar: 3 + i. ^[:z | x := z] ] ] {1. 2r101} size.''"

theorem parser_builds_wf_witness:
  "\<exists>c e. parse_file demo_source = Inr [ClassDef c, DoIt e] \<and> length (cd_methods c) = 1 \<and> list_all wf_item [ClassDef c, DoIt e]"
proof -
  obtain c e where p: "parse_file demo_source = Inr [ClassDef c, DoIt e]" "length (cd_methods c) = 1"
    by (rule that, code_simp, code_simp)
  then show ?thesis using parser_builds_wf [OF p(1)] by blast
qed

subsection \<open>The two entry points agree\<close>

lemma p_loop_appends:
  assumes step: "\<And>s q r q'. body s q = Inr (r, q') \<Longrightarrow> case r of Continue s' \<Rightarrow> (\<exists>z. s' = s @ [z]) | Break v \<Rightarrow> v = s"
  shows "p_loop n body s p = Inr (v, p') \<Longrightarrow> \<exists>ys. v = s @ ys"
proof (induction n arbitrary: s p)
  case (Suc n)
  obtain r q where b: "body s p = Inr (r, q)" "(case r of Continue s \<Rightarrow> p_loop n body s q | Break v \<Rightarrow> Inr (v, q)) = Inr (v, p')"
    using Suc.prems by (auto simp: rbind_Inr)
  show ?case
  proof (cases r)
    case (Continue s')
    then show ?thesis using Suc.IH [of s' q] b step [OF b(1)] by auto
  next
    case (Break w)
    then show ?thesis using b step [OF b(1)] by auto
  qed
qed simp

text \<open>The loop of \<open>parse_file\<close>, one turn at a time.\<close>

lemma parse_items_first:
  assumes "parse_items p = Inr (items, p')"
  shows "if cur_tok p = Eof then items = [] else \<exists>x xs q. items = x # xs \<and> one_item p = Inr (x, q)"
proof -
  let ?b = "\<lambda>items p. if cur_tok p = Eof then Inr (Break items, p)
     else rbind (at_class_def p) (\<lambda>(is_class_def, p).
         if is_class_def then rbind (parse_class_def p) (\<lambda>(c, p). Inr (Continue (items @ [ClassDef c]), p))
         else rbind (parse_statement expression p) (\<lambda>(s, p).
           rbind (p_expect Period (ustr ''expected '' @ qt (ustr ''.'') @ ustr '' after top-level statement'') p) (\<lambda>(_, p).
             Inr (Continue (items @ [DoIt s]), p))))"
  have p: "p_loop (Suc (unread p)) ?b [] p = Inr (items, p')" using assms unfolding parse_items_def parse_loop_def .
  have step: "case r of Continue s' \<Rightarrow> (\<exists>z. s' = s @ [z]) | Break v \<Rightarrow> v = s" if "?b s q = Inr (r, q')" for s q r q'
    using that by (auto simp: rbind_Inr split: if_splits)
  show ?thesis
  proof (cases "cur_tok p = Eof")
    case True
    then show ?thesis using p by simp
  next
    case False
    then obtain r q where r: "?b [] p = Inr (r, q)" "(case r of Continue s \<Rightarrow> p_loop (unread p) ?b s q | Break v \<Rightarrow> Inr (v, q)) = Inr (items, p')"
      using p by (auto simp: rbind_Inr)
    obtain c p1 where c: "at_class_def p = Inr (c, p1)" using r(1) False by (auto simp: rbind_Inr)
    have "\<exists>x. r = Continue [x] \<and> one_item p = Inr (x, q)"
    proof (cases c)
      case True
      then show ?thesis using r(1) False c by (auto simp: one_item_def rbind_Inr)
    next
      case s: False
      obtain e p2 where e: "parse_statement expression p1 = Inr (e, p2)" using r(1) False c s by (auto simp: rbind_Inr)
      have "tok_discriminant (cur_tok p2) = 19 \<and> p_bump p2 = Inr ((), q) \<and> r = Continue [DoIt e]"
        using r(1) False c s e by (auto simp: rbind_Inr p_expect_def p_error_def split: if_splits)
      moreover from this have "cur_tok p2 \<noteq> Eof" by auto
      ultimately show ?thesis using c s e by (simp add: one_item_def p_expect_def)
    qed
    then obtain x where x: "r = Continue [x]" "one_item p = Inr (x, q)" by blast
    then have "p_loop (unread p) ?b [x] q = Inr (items, p')" using r(2) by simp
    from p_loop_appends [OF step this] show ?thesis using x(2) False by auto
  qed
qed

text \<open>
  C32. The entry point of the read-eval-print loop agrees with the file parser. When a text parses as a file, reading one item
  from it gives the first item of the file, and no item exactly when the file has none.
\<close>
theorem one_item_agrees:
  assumes "parse_file input = Inr items"
  shows "parse_one_top_item input = Inr (case items of [] \<Rightarrow> None | x # _ \<Rightarrow> Some x)"
proof -
  obtain p p' where p: "new_parser input = Inr p" "parse_items p = Inr (items, p')" using assms by (auto simp: parse_file_def rbind_Inr)
  show ?thesis using parse_items_first [OF p(2)] p(1) by (auto simp: parse_one_top_item_def split: if_splits)
qed

theorem one_item_agrees_witness:
  "\<exists>x y. parse_file (ustr ''1 foo. ^2.'') = Inr [x, y] \<and> parse_one_top_item (ustr ''1 foo. ^2.'') = Inr (Some x)"
proof -
  obtain x y where p: "parse_file (ustr ''1 foo. ^2.'') = Inr [x, y]" by (rule that, code_simp)
  then show ?thesis using one_item_agrees [OF p] by auto
qed

subsection \<open>Integer literals\<close>

text \<open>
  C33. Integer literals. For digits the lexer has validated, \<open>intlit_to_literal\<close> does not panic and returns the number that is
  written: as a small integer exactly when it lies in the small-integer range, and otherwise as its sign and canonical base-256 magnitude.
\<close>
theorem int_literal_exact:
  assumes "2 \<le> r" "list_all (\<lambda>c. \<not> bad_digit r c) d"
  shows "let v = (if neg then - radix_value r d else radix_value r d) in
    if SMI_MIN \<le> v \<and> v \<le> SMI_MAX then intlit_to_literal neg r d = Some (IntL v)
    else \<exists>m. intlit_to_literal neg r d = Some (BigInt neg m) \<and> canonical_magnitude m \<and> le_value m = radix_value r d"
proof -
  obtain l where l: "intlit_to_literal neg r d = Some l" "wf_literal l" "case l of IntL v \<Rightarrow> v = (if neg then - radix_value r d else radix_value r d)
     | BigInt n m \<Rightarrow> n = neg \<and> le_value m = radix_value r d | _ \<Rightarrow> False" using intlit_to_literal_ok [OF assms] by blast
  then show ?thesis by (cases l) (auto simp: Let_def big_value_def)
qed

theorem int_literal_exact_witness:
  "intlit_to_literal True 10 (ustr ''2305843009213693952'') = Some (IntL SMI_MIN) \<and>
   (\<exists>m. intlit_to_literal False 10 (ustr ''2305843009213693952'') = Some (BigInt False m) \<and> le_value m = 2 ^ 61)"
proof -
  have d: "list_all (\<lambda>c. \<not> bad_digit 10 c) (ustr ''2305843009213693952'')" "radix_value 10 (ustr ''2305843009213693952'') = 2 ^ 61" by code_simp+
  have "(2 :: int) \<le> 10" by simp
  note e = int_literal_exact [OF this d(1), unfolded d(2) Let_def]
  show ?thesis using e [of True] e [of False] by (auto simp: smi_bounds)
qed

subsection \<open>Where the parser departs from its documentation\<close>

text \<open>
  Keywords in a literal array are glued when the next one starts in the column where the last one ended. The line is not
  compared, so keywords on two lines become one symbol when the columns happen to match; one more space keeps them apart.
\<close>

lemma keywords_glued_across_lines:
  "\<exists>a b c d. parse_file (ustr ''#(a:'' @ [10] @ ustr ''    b:).'') = Inr [DoIt (Lit (ArrayL [SymbolL (ustr ''a:b:'')]) a)] \<and>
     parse_file (ustr ''#(a:'' @ [10] @ ustr ''     b:).'') = Inr [DoIt (Lit (ArrayL [SymbolL (ustr ''a:''), SymbolL (ustr ''b:'')]) b)]"
proof -
  obtain a where a: "parse_file (ustr ''#(a:'' @ [10] @ ustr ''    b:).'') = Inr [DoIt (Lit (ArrayL [SymbolL (ustr ''a:b:'')]) a)]" by (rule that, code_simp)
  obtain b where b: "parse_file (ustr ''#(a:'' @ [10] @ ustr ''     b:).'') = Inr [DoIt (Lit (ArrayL [SymbolL (ustr ''a:''), SymbolL (ustr ''b:'')]) b)]" by (rule that, code_simp)
  from a b show ?thesis by blast
qed

text \<open>
  The word \<open>super\<close> alone is rejected as a statement or as the value of an assignment, but accepted as the argument of a message, where it means \<open>self\<close>.
\<close>

lemma bare_super_argument:
  "\<exists>a b c. parse_file (ustr ''x at: super.'') = Inr [DoIt (SendE (Var (ustr ''x'') a) (ustr ''at:'') [SelfRef b] False c)] \<and>
     (\<exists>e. parse_file (ustr ''x := super.'') = Inl (Compile e))"
proof -
  obtain a b c where x: "parse_file (ustr ''x at: super.'') = Inr [DoIt (SendE (Var (ustr ''x'') a) (ustr ''at:'') [SelfRef b] False c)]" by (rule that, code_simp)
  obtain e where y: "parse_file (ustr ''x := super.'') = Inl (Compile e)" by (rule that, code_simp)
  from x y show ?thesis by blast
qed

end
