(* ===== verification/Capture.thy ===== *)
theory Capture
  imports Ast
begin

text \<open>
  Capture analysis (\<open>src/src/frontend/capture.rs\<close>): one walk over a method builds the tree of scopes and numbers the blocks, then
  every variable is given its storage, a frame slot or a slot of the scope's context, and \<open>resolve\<close> finds a reference's
  storage from the scope it occurs in. Scope numbers, counts and slots are natural numbers; the two operands \<open>resolve\<close>
  truncates to a byte are taken modulo 256. The loops that follow parent links take the scope number as fuel: a parent
  is always numbered before its child.
\<close>

subsection \<open>Storage\<close>

record var_slot =
  vs_captured :: bool
  vs_frame_slot :: "nat option"
  vs_ctx_slot :: "nat option"

record scope_info =
  si_parent :: "nat option"
  si_is_method :: bool
  si_argc :: nat
  si_vars :: "(utext \<times> var_slot) list"
  si_nctx :: nat
  si_frame_temp_count :: nat
  si_has_ctx :: bool
  si_captures_ctx :: bool

definition find_var :: "utext \<Rightarrow> scope_info \<Rightarrow> var_slot option" where
  "find_var name s = map_option snd (find (\<lambda>(n, _). n = name) (si_vars s))"

datatype resolved = LocalSlot nat | CapturedSlot (rs_depth: nat) (rs_slot: nat)

text \<open>\<open>depth_to\<close>; \<open>None\<close> is the panic of running off the root.\<close>

primrec depth_to :: "nat \<Rightarrow> scope_info list \<Rightarrow> nat \<Rightarrow> nat \<Rightarrow> nat option" where
  "depth_to 0 scopes from to = None"
| "depth_to (Suc n) scopes from to =
     (if from = to then Some 0
      else do {
        s \<leftarrow> slice_get scopes from;
        p \<leftarrow> si_parent s;
        d \<leftarrow> depth_to n scopes p to;
        Some ((if si_has_ctx s then 1 else 0) + d)
      })"

text \<open>\<open>resolve\<close>: the outer option is a panic, the inner one says whether the name is a slot variable.\<close>

primrec resolve_from :: "nat \<Rightarrow> scope_info list \<Rightarrow> nat \<Rightarrow> nat \<Rightarrow> utext \<Rightarrow> resolved option option" where
  "resolve_from 0 scopes ref sid name = None"
| "resolve_from (Suc n) scopes ref sid name = do {
     scope \<leftarrow> slice_get scopes sid;
     case find_var name scope of
       Some sl \<Rightarrow>
         if vs_captured sl then do {
           d \<leftarrow> depth_to (Suc ref) scopes ref sid;
           c \<leftarrow> vs_ctx_slot sl;
           Some (Some (CapturedSlot (d mod 256) (c mod 256)))
         } else do {
           f \<leftarrow> vs_frame_slot sl;
           Some (Some (LocalSlot f))
         }
     | None \<Rightarrow> (case si_parent scope of None \<Rightarrow> Some None | Some p \<Rightarrow> resolve_from n scopes ref p name)
   }"

definition resolve_name :: "scope_info list \<Rightarrow> nat \<Rightarrow> utext \<Rightarrow> resolved option option" where
  "resolve_name scopes ref name = resolve_from (Suc ref) scopes ref ref name"

subsection \<open>Inlined control flow\<close>

datatype block_pos = RecvPos | ArgPos nat

definition block_argc :: "expr \<Rightarrow> nat option" where
  "block_argc e = (case e of BlockE b \<Rightarrow> Some (length (bn_params b)) | _ \<Rightarrow> None)"

definition sel_in :: "utext \<Rightarrow> string list \<Rightarrow> bool" where
  "sel_in sel names \<longleftrightarrow> sel \<in> set (map ustr names)"

text \<open>The shapes that depend on the number of block parameters only.\<close>

definition simple_positions :: "utext \<Rightarrow> expr \<Rightarrow> expr list \<Rightarrow> block_pos list option" where
  "simple_positions sel receiver args =
     (if sel_in sel [''ifTrue:'', ''ifFalse:'', ''and:'', ''or:''] \<and> length args = 1 \<and> block_argc (args ! 0) = Some 0 then Some [ArgPos 0]
      else if sel_in sel [''ifTrue:ifFalse:'', ''ifFalse:ifTrue:''] \<and> length args = 2 \<and> block_argc (args ! 0) = Some 0 \<and> block_argc (args ! 1) = Some 0
        then Some [ArgPos 0, ArgPos 1]
      else if sel_in sel [''whileTrue:'', ''whileFalse:''] \<and> length args = 1 \<and> block_argc receiver = Some 0 \<and> block_argc (args ! 0) = Some 0
        then Some [RecvPos, ArgPos 0]
      else if sel_in sel [''timesRepeat:''] \<and> length args = 1 \<and> block_argc (args ! 0) = Some 0 then Some [ArgPos 0]
      else if sel_in sel [''ifNil:''] \<and> length args = 1 \<and> block_argc (args ! 0) = Some 0 then Some [ArgPos 0]
      else if sel_in sel [''ifNotNil:''] \<and> length args = 1 \<and> (block_argc (args ! 0) = Some 0 \<or> block_argc (args ! 0) = Some 1) then Some [ArgPos 0]
      else if sel_in sel [''ifNil:ifNotNil:''] \<and> length args = 2 \<and> block_argc (args ! 0) = Some 0 \<and>
          (block_argc (args ! 1) = Some 0 \<or> block_argc (args ! 1) = Some 1) then Some [ArgPos 0, ArgPos 1]
      else if sel_in sel [''ifNotNil:ifNil:''] \<and> length args = 2 \<and> (block_argc (args ! 0) = Some 0 \<or> block_argc (args ! 0) = Some 1) \<and>
          block_argc (args ! 1) = Some 0 then Some [ArgPos 0, ArgPos 1]
      else if sel_in sel [''repeat''] \<and> length args = 0 \<and> block_argc receiver = Some 0 then Some [RecvPos]
      else None)"

definition dissolves :: "block_pos list option \<Rightarrow> block_pos \<Rightarrow> bool" where
  "dissolves ps p \<longleftrightarrow> (case ps of Some v \<Rightarrow> p \<in> set v | None \<Rightarrow> False)"

text \<open>
  \<open>inline_block_positions\<close> and the scan of \<open>to_do_needs_real_send\<close> call each other. The early exit on \<open>found\<close> is a disjunction.
\<close>

function (sequential)
  inline_block_positions :: "utext \<Rightarrow> expr \<Rightarrow> expr list \<Rightarrow> block_pos list option" and
  scan_ref :: "utext \<Rightarrow> bool \<Rightarrow> expr \<Rightarrow> bool" and
  scan_recv :: "utext \<Rightarrow> bool \<Rightarrow> bool \<Rightarrow> expr \<Rightarrow> bool" and
  scan_args :: "utext \<Rightarrow> bool \<Rightarrow> block_pos list option \<Rightarrow> nat \<Rightarrow> expr list \<Rightarrow> bool" and
  scan_body :: "utext \<Rightarrow> bool \<Rightarrow> expr list \<Rightarrow> bool" where
  "inline_block_positions sel receiver [lim, BlockE (BlockNode [v] ts body sp sid)] =
     (if sel_in sel [''to:do:''] then (if scan_body v False body then None else Some [ArgPos 1])
      else simple_positions sel receiver [lim, BlockE (BlockNode [v] ts body sp sid)])"
| "inline_block_positions sel receiver args = simple_positions sel receiver args"
| "scan_ref lv nested (Var n _) = (nested \<and> n = lv)"
| "scan_ref lv nested (AssignE n e _) = (nested \<and> n = lv \<or> scan_ref lv nested e)"
| "scan_ref lv nested (SendE r sel args _ _) =
     (let ps = inline_block_positions sel r args
      in scan_recv lv nested (dissolves ps RecvPos) r \<or> scan_args lv nested ps 0 args)"
| "scan_ref lv nested (CascadeE r segs _) = (scan_ref lv nested r \<or> scan_body lv nested segs)"
| "scan_ref lv nested (ReturnE e _) = scan_ref lv nested e"
| "scan_ref lv nested (DynArray es _) = scan_body lv nested es"
| "scan_ref lv nested (BlockE (BlockNode ps ts body sp sid)) = scan_body lv True body"
| "scan_ref lv nested _ = False"
| "scan_recv lv nested True (BlockE (BlockNode ps ts body sp sid)) = scan_body lv nested body"
| "scan_recv lv nested d e = scan_ref lv nested e"
| "scan_args lv nested ps i [] = False"
| "scan_args lv nested ps i (a # as) = (scan_recv lv nested (dissolves ps (ArgPos i)) a \<or> scan_args lv nested ps (Suc i) as)"
| "scan_body lv nested [] = False"
| "scan_body lv nested (e # es) = (scan_ref lv nested e \<or> scan_body lv nested es)"
  by pat_completeness auto
termination
  by (relation "measure (\<lambda>x. case x of
       Inl (Inl (sel, r, args)) \<Rightarrow> 3 * size_list size args
     | Inl (Inr (lv, nested, e)) \<Rightarrow> 3 * size e
     | Inr (Inl (lv, nested, d, e)) \<Rightarrow> 3 * size e + 1
     | Inr (Inr (Inl (lv, nested, ps, i, args))) \<Rightarrow> 3 * size_list size args + 1
     | Inr (Inr (Inr (lv, nested, es))) \<Rightarrow> 3 * size_list size es + 1)") auto

subsection \<open>The walk\<close>

record scope_builder =
  bld_parent :: "nat option"
  bld_is_method :: bool
  bld_argc :: nat
  bld_names :: "utext list"
  bld_captured :: "bool list"

definition new_scope_names :: "utext list \<Rightarrow> utext list \<Rightarrow> utext list" where
  "new_scope_names params temps = params @ temps"

text \<open>What the walk mutates: the scopes so far, the next scope number, the references in order.\<close>

record cap_state =
  cs_builders :: "scope_builder list"
  cs_next_id :: nat
  cs_refs :: "(nat \<times> utext) list"

definition push_ref :: "nat \<Rightarrow> utext \<Rightarrow> cap_state \<Rightarrow> cap_state" where
  "push_ref sid name st = st\<lparr>cs_refs := cs_refs st @ [(sid, name)]\<rparr>"

definition push_scope :: "nat \<Rightarrow> utext list \<Rightarrow> utext list \<Rightarrow> cap_state \<Rightarrow> cap_state" where
  "push_scope sid params temps st = st\<lparr>cs_next_id := cs_next_id st + 1,
     cs_builders := cs_builders st @ [\<lparr>bld_parent = Some sid, bld_is_method = False, bld_argc = length params,
       bld_names = new_scope_names params temps, bld_captured = replicate (length params + length temps) False\<rparr>]\<rparr>"

definition extend_scope :: "nat \<Rightarrow> utext list \<Rightarrow> utext list \<Rightarrow> cap_state \<Rightarrow> cap_state option" where
  "extend_scope sid params temps st = do {
     b \<leftarrow> slice_get (cs_builders st) sid;
     let names = new_scope_names params temps;
     Some (st\<lparr>cs_builders := (cs_builders st)[sid := b\<lparr>bld_names := bld_names b @ names,
       bld_captured := bld_captured b @ replicate (length names) False\<rparr>]\<rparr>)
   }"

text \<open>The positions of a send; a super send is never inlined.\<close>

definition send_positions :: "bool \<Rightarrow> utext \<Rightarrow> expr \<Rightarrow> expr list \<Rightarrow> block_pos list option" where
  "send_positions su sel receiver args = (if su then None else inline_block_positions sel receiver args)"

text \<open>
  The walk returns the rewritten tree, every real block carrying its scope number. \<open>walk_pos\<close> is the walk of a receiver or an
  argument, whose block is dissolved when \<open>dis\<close>; \<open>None\<close> is an index out of range.
\<close>

function (sequential)
  walk_expr :: "nat \<Rightarrow> expr \<Rightarrow> cap_state \<Rightarrow> (expr \<times> cap_state) option" and
  walk_pos :: "nat \<Rightarrow> bool \<Rightarrow> expr \<Rightarrow> cap_state \<Rightarrow> (expr \<times> cap_state) option" and
  dissolve_block_into :: "nat \<Rightarrow> block_node \<Rightarrow> cap_state \<Rightarrow> (block_node \<times> cap_state) option" and
  walk_args :: "nat \<Rightarrow> block_pos list option \<Rightarrow> nat \<Rightarrow> expr list \<Rightarrow> cap_state \<Rightarrow> (expr list \<times> cap_state) option" and
  walk_block_body :: "nat \<Rightarrow> expr list \<Rightarrow> cap_state \<Rightarrow> (expr list \<times> cap_state) option" where
  "walk_expr sid (Var n sp) st = Some (Var n sp, push_ref sid n st)"
| "walk_expr sid (AssignE n e sp) st = do {
     (e, st) \<leftarrow> walk_expr sid e (push_ref sid n st);
     Some (AssignE n e sp, st)
   }"
| "walk_expr sid (SendE r sel args su sp) st = do {
     let ps = send_positions su sel r args;
     (r, st) \<leftarrow> walk_pos sid (dissolves ps RecvPos) r st;
     (args, st) \<leftarrow> walk_args sid ps 0 args st;
     Some (SendE r sel args su sp, st)
   }"
| "walk_expr sid (CascadeE r segs sp) st = do {
     (r, st) \<leftarrow> walk_expr sid r st;
     (segs, st) \<leftarrow> walk_block_body sid segs st;
     Some (CascadeE r segs sp, st)
   }"
| "walk_expr sid (DynArray es sp) st = do {
     (es, st) \<leftarrow> walk_block_body sid es st;
     Some (DynArray es sp, st)
   }"
| "walk_expr sid (ReturnE e sp) st = do {
     (e, st) \<leftarrow> walk_expr sid e st;
     Some (ReturnE e sp, st)
   }"
| "walk_expr sid (BlockE (BlockNode ps ts body sp _)) st = do {
     let this_id = cs_next_id st;
     (body, st) \<leftarrow> walk_block_body this_id body (push_scope sid ps ts st);
     Some (BlockE (BlockNode ps ts body sp this_id), st)
   }"
| "walk_expr sid e st = Some (e, st)"
| "walk_pos sid True (BlockE b) st = do {
     (b, st) \<leftarrow> dissolve_block_into sid b st;
     Some (BlockE b, st)
   }"
| "walk_pos sid True e st = Some (e, st)"
| "walk_pos sid False e st = walk_expr sid e st"
| "dissolve_block_into sid (BlockNode ps ts body sp i) st = do {
     st \<leftarrow> extend_scope sid ps ts st;
     (body, st) \<leftarrow> walk_block_body sid body st;
     Some (BlockNode ps ts body sp i, st)
   }"
| "walk_args sid ps i [] st = Some ([], st)"
| "walk_args sid ps i (a # as) st = do {
     (a, st) \<leftarrow> walk_pos sid (dissolves ps (ArgPos i)) a st;
     (as, st) \<leftarrow> walk_args sid ps (Suc i) as st;
     Some (a # as, st)
   }"
| "walk_block_body sid [] st = Some ([], st)"
| "walk_block_body sid (e # es) st = do {
     (e, st) \<leftarrow> walk_expr sid e st;
     (es, st) \<leftarrow> walk_block_body sid es st;
     Some (e # es, st)
   }"
  by pat_completeness auto
termination
  by (relation "measure (\<lambda>x. case x of
       Inl (Inl (sid, e, st)) \<Rightarrow> 3 * size e
     | Inl (Inr (sid, d, e, st)) \<Rightarrow> 3 * size e + 1
     | Inr (Inl (sid, b, st)) \<Rightarrow> 3 * size b + 2
     | Inr (Inr (Inl (sid, ps, i, args, st))) \<Rightarrow> 3 * size_list size args + 1
     | Inr (Inr (Inr (sid, es, st))) \<Rightarrow> 3 * size_list size es + 1)") auto

subsection \<open>Marking and numbering\<close>

text \<open>The loops up the parent chain; running off the root is a panic in \<open>mark_chain\<close> only.\<close>

primrec find_defining_scope :: "nat \<Rightarrow> scope_builder list \<Rightarrow> nat \<Rightarrow> utext \<Rightarrow> nat option option" where
  "find_defining_scope 0 bs sid name = None"
| "find_defining_scope (Suc n) bs sid name = do {
     b \<leftarrow> slice_get bs sid;
     if name \<in> set (bld_names b) then Some (Some sid)
     else case bld_parent b of None \<Rightarrow> Some None | Some p \<Rightarrow> find_defining_scope n bs p name
   }"

primrec mark_chain :: "nat \<Rightarrow> scope_builder list \<Rightarrow> nat \<Rightarrow> nat \<Rightarrow> bool list \<Rightarrow> bool list option" where
  "mark_chain 0 bs sid def_scope nc = None"
| "mark_chain (Suc n) bs sid def_scope nc =
     (if sid = def_scope then Some nc
      else do {
        rust_assert (sid < length nc);
        b \<leftarrow> slice_get bs sid;
        p \<leftarrow> bld_parent b;
        mark_chain n bs p def_scope (nc[sid := True])
      })"

definition name_position :: "utext \<Rightarrow> utext list \<Rightarrow> nat option" where
  "name_position name ns = (if name \<in> set ns then Some (length (takeWhile (\<lambda>n. n \<noteq> name) ns)) else None)"

text \<open>One reference: the mark it makes, if its scope is not the defining one, and the scopes that must relay a context.\<close>

definition mark_ref :: "scope_builder list \<Rightarrow> nat \<times> utext \<Rightarrow> (nat \<times> nat) list \<times> bool list \<Rightarrow> ((nat \<times> nat) list \<times> bool list) option" where
  "mark_ref bs ref acc = do {
     let (ref_scope, name) = ref;
     let (to_mark, nc) = acc;
     def \<leftarrow> find_defining_scope (Suc ref_scope) bs ref_scope name;
     case def of
       None \<Rightarrow> Some (to_mark, nc)
     | Some def_scope \<Rightarrow>
         if def_scope = ref_scope then Some (to_mark, nc)
         else do {
           b \<leftarrow> slice_get bs def_scope;
           idx \<leftarrow> name_position name (bld_names b);
           nc \<leftarrow> mark_chain (Suc ref_scope) bs ref_scope def_scope nc;
           Some (to_mark @ [(def_scope, idx)], nc)
         }
   }"

primrec mark_refs :: "scope_builder list \<Rightarrow> (nat \<times> utext) list \<Rightarrow> (nat \<times> nat) list \<times> bool list \<Rightarrow> ((nat \<times> nat) list \<times> bool list) option" where
  "mark_refs bs [] acc = Some acc"
| "mark_refs bs (r # rs) acc = do { acc \<leftarrow> mark_ref bs r acc; mark_refs bs rs acc }"

primrec set_captured :: "(nat \<times> nat) list \<Rightarrow> scope_builder list \<Rightarrow> scope_builder list option" where
  "set_captured [] bs = Some bs"
| "set_captured (k # ks) bs = do {
     let (sid, idx) = k;
     b \<leftarrow> slice_get bs sid;
     rust_assert (idx < length (bld_captured b));
     set_captured ks (bs[sid := b\<lparr>bld_captured := (bld_captured b)[idx := True]\<rparr>])
   }"

text \<open>The two numbering loops of \<open>finalize_scope\<close>: the slots given, and the next free number.\<close>

primrec number_ctx :: "nat \<Rightarrow> bool list \<Rightarrow> nat option list \<times> nat" where
  "number_ctx next [] = ([], next)"
| "number_ctx next (c # cs) =
     (if c then let (ss, n) = number_ctx (next + 1) cs in (Some next # ss, n)
      else let (ss, n) = number_ctx next cs in (None # ss, n))"

primrec number_frame :: "nat \<Rightarrow> nat \<Rightarrow> nat \<Rightarrow> bool list \<Rightarrow> nat option list \<times> nat" where
  "number_frame argc i next [] = ([], next)"
| "number_frame argc i next (c # cs) =
     (if i < argc then let (ss, n) = number_frame argc (i + 1) next cs in (Some i # ss, n)
      else if \<not> c then let (ss, n) = number_frame argc (i + 1) (next + 1) cs in (Some next # ss, n)
      else let (ss, n) = number_frame argc (i + 1) next cs in (None # ss, n))"

definition finalize_scope :: "scope_builder \<Rightarrow> bool \<Rightarrow> scope_info option" where
  "finalize_scope b captures = do {
     let argc = bld_argc b;
     let n = length (bld_names b);
     rust_assert (n \<le> length (bld_captured b));
     let captured = take n (bld_captured b);
     let (ctx_slots, nctx) = number_ctx 0 captured;
     let (frame_slots, next_frame_temp) = number_frame argc 0 argc captured;
     let vars = map (\<lambda>(name, c, f, x). (name, \<lparr>vs_captured = c, vs_frame_slot = f, vs_ctx_slot = x\<rparr>))
                  (zip (bld_names b) (zip captured (zip frame_slots ctx_slots)));
     Some \<lparr>si_parent = bld_parent b, si_is_method = bld_is_method b, si_argc = argc, si_vars = vars, si_nctx = nctx,
       si_frame_temp_count = next_frame_temp - argc, si_has_ctx = (nctx > 0), si_captures_ctx = captures\<rparr>
   }"

primrec finalize_scopes :: "nat \<Rightarrow> bool list \<Rightarrow> scope_builder list \<Rightarrow> scope_info list option" where
  "finalize_scopes i nc [] = Some []"
| "finalize_scopes i nc (b # bs) = do {
     needed \<leftarrow> (if bld_is_method b then Some False else slice_get nc i);
     s \<leftarrow> finalize_scope b needed;
     ss \<leftarrow> finalize_scopes (i + 1) nc bs;
     Some (s # ss)
   }"

definition method_scope :: "method_node \<Rightarrow> scope_builder" where
  "method_scope m = \<lparr>bld_parent = None, bld_is_method = True, bld_argc = length (mn_params m),
     bld_names = new_scope_names (mn_params m) (mn_temps m),
     bld_captured = replicate (length (mn_params m) + length (mn_temps m)) False\<rparr>"

definition walk_method :: "method_node \<Rightarrow> (expr list \<times> cap_state) option" where
  "walk_method m = walk_block_body 0 (mn_body m) \<lparr>cs_builders = [method_scope m], cs_next_id = 1, cs_refs = []\<rparr>"

definition assign_storage :: "cap_state \<Rightarrow> scope_info list option" where
  "assign_storage st = do {
     let bs = cs_builders st;
     (to_mark, needs_chain) \<leftarrow> mark_refs bs (cs_refs st) ([], replicate (length bs) False);
     bs \<leftarrow> set_captured to_mark bs;
     finalize_scopes 0 needs_chain bs
   }"

definition analyze :: "method_node \<Rightarrow> (method_node \<times> scope_info list) option" where
  "analyze m = do {
     (body, st) \<leftarrow> walk_method m;
     scopes \<leftarrow> assign_storage st;
     Some (m\<lparr>mn_body := body\<rparr>, scopes)
   }"

subsection \<open>The walk is total and builds a tree of scopes\<close>

definition builder_ok :: "nat \<Rightarrow> scope_builder \<Rightarrow> bool" where
  "builder_ok i b \<longleftrightarrow> bld_captured b = replicate (length (bld_names b)) False \<and> bld_argc b \<le> length (bld_names b) \<and>
     (case bld_parent b of None \<Rightarrow> i = 0 | Some p \<Rightarrow> p < i) \<and> (bld_is_method b \<longleftrightarrow> i = 0)"

definition builders_ok :: "scope_builder list \<Rightarrow> bool" where
  "builders_ok bs \<longleftrightarrow> (\<forall>i < length bs. builder_ok i (bs ! i))"

definition cap_inv :: "cap_state \<Rightarrow> bool" where
  "cap_inv st \<longleftrightarrow> builders_ok (cs_builders st) \<and> cs_next_id st = length (cs_builders st) \<and>
     (\<forall>(s, n) \<in> set (cs_refs st). s < length (cs_builders st))"

definition walked :: "cap_state \<Rightarrow> ('a \<times> cap_state) option \<Rightarrow> bool" where
  "walked st r \<longleftrightarrow> (\<exists>e st'. r = Some (e, st') \<and> cap_inv st' \<and> length (cs_builders st) \<le> length (cs_builders st'))"

lemma walked_ret: "cap_inv st' \<Longrightarrow> length (cs_builders st) \<le> length (cs_builders st') \<Longrightarrow> walked st (Some (e, st'))"
  by (auto simp: walked_def)

lemma walked_bind:
  assumes "walked st r"
    and "\<And>e st'. cap_inv st' \<Longrightarrow> length (cs_builders st) \<le> length (cs_builders st') \<Longrightarrow> r = Some (e, st') \<Longrightarrow> walked st' (k (e, st'))"
  shows "walked st (r \<bind> k)"
  using assms unfolding walked_def by (metis (no_types, lifting) bind.bind_lunit le_trans)

lemma cap_inv_push_ref: "cap_inv st \<Longrightarrow> sid < length (cs_builders st) \<Longrightarrow> cap_inv (push_ref sid n st)"
  by (auto simp: cap_inv_def push_ref_def)

lemma push_ref_frame [simp]: "cs_builders (push_ref sid n st) = cs_builders st" "cs_next_id (push_ref sid n st) = cs_next_id st"
  by (simp_all add: push_ref_def)

lemma length_push_scope [simp]: "length (cs_builders (push_scope sid ps ts st)) = Suc (length (cs_builders st))"
  by (simp add: push_scope_def)

lemma cap_inv_push_scope: "cap_inv st \<Longrightarrow> sid < length (cs_builders st) \<Longrightarrow> cap_inv (push_scope sid ps ts st)"
  by (auto simp: cap_inv_def push_scope_def builders_ok_def builder_ok_def new_scope_names_def nth_append less_Suc_eq)

lemma extend_scope_ok:
  assumes "cap_inv st" "sid < length (cs_builders st)"
  obtains st' where "extend_scope sid ps ts st = Some st'" "cap_inv st'" "length (cs_builders st') = length (cs_builders st)"
    "cs_refs st' = cs_refs st" "cs_next_id st' = cs_next_id st"
proof (rule that)
  show "extend_scope sid ps ts st = Some (st\<lparr>cs_builders := (cs_builders st)[sid := (cs_builders st ! sid)
      \<lparr>bld_names := bld_names (cs_builders st ! sid) @ ps @ ts,
       bld_captured := bld_captured (cs_builders st ! sid) @ replicate (length ps + length ts) False\<rparr>]\<rparr>)"
    using assms by (simp add: extend_scope_def slice_get_def new_scope_names_def Let_def)
qed (use assms in \<open>auto simp: cap_inv_def builders_ok_def builder_ok_def nth_list_update replicate_add\<close>)

theorem walk_total:
  shows "cap_inv st \<Longrightarrow> sid < length (cs_builders st) \<Longrightarrow> walked st (walk_expr sid e st)"
    and "cap_inv st \<Longrightarrow> sid < length (cs_builders st) \<Longrightarrow> walked st (walk_pos sid d e st)"
    and "cap_inv st \<Longrightarrow> sid < length (cs_builders st) \<Longrightarrow> walked st (dissolve_block_into sid b st)"
    and "cap_inv st \<Longrightarrow> sid < length (cs_builders st) \<Longrightarrow> walked st (walk_args sid ps i as st)"
    and "cap_inv st \<Longrightarrow> sid < length (cs_builders st) \<Longrightarrow> walked st (walk_block_body sid es st)"
proof (induction sid e st and sid d e st and sid b st and sid ps i as st and sid es st
    rule: walk_expr_walk_pos_dissolve_block_into_walk_args_walk_block_body.induct, goal_cases)
  case (3 sid r sel args su sp st)
  then show ?case by (simp add: Let_def) (rule walked_bind, auto intro!: walked_bind walked_ret)
next
  case (4 sid r segs sp st)
  then show ?case by simp (rule walked_bind, auto intro!: walked_bind walked_ret)
next
  case (7 sid ps ts body sp i st)
  then show ?case by (auto simp: walked_def cap_inv_push_scope cap_inv_def [of st] Let_def)
next
  case (22 sid ps ts body sp i st)
  obtain st' where st': "extend_scope sid ps ts st = Some st'" "cap_inv st'" "length (cs_builders st') = length (cs_builders st)"
    using extend_scope_ok [OF 22(2,3)] by metis
  with 22 show ?case by (auto simp: walked_def)
next
  case (24 sid ps i a as st)
  then show ?case by simp (rule walked_bind, auto intro!: walked_bind walked_ret)
next
  case (26 sid e es st)
  then show ?case by simp (rule walked_bind, auto intro!: walked_bind walked_ret)
qed (auto 0 4 simp: walked_def cap_inv_push_ref)

lemma cap_inv_start: "cap_inv \<lparr>cs_builders = [method_scope m], cs_next_id = 1, cs_refs = []\<rparr>"
  by (simp add: cap_inv_def builders_ok_def builder_ok_def method_scope_def new_scope_names_def)

lemma walk_method_total:
  obtains body st where "walk_method m = Some (body, st)" "cap_inv st" "cs_builders st \<noteq> []"
  using walk_total(5) [OF cap_inv_start [of m], of 0 "mn_body m"] by (fastforce simp: walk_method_def walked_def)

subsection \<open>Lexical binding\<close>

text \<open>
  \<open>up par s t l\<close>: following parents from \<open>s\<close> reaches \<open>t\<close>, through the scopes \<open>l\<close> (\<open>s\<close> included, \<open>t\<close> excluded).
  \<open>bound\<close>: the innermost scope around \<open>s\<close> that declares the name is \<open>t\<close>.
\<close>

inductive up :: "(nat \<Rightarrow> nat option) \<Rightarrow> nat \<Rightarrow> nat \<Rightarrow> nat list \<Rightarrow> bool" for par where
  up_refl: "up par s s []"
| up_step: "par s = Some p \<Longrightarrow> up par p t l \<Longrightarrow> up par s t (s # l)"

definition bound :: "(nat \<Rightarrow> nat option) \<Rightarrow> (nat \<Rightarrow> utext set) \<Rightarrow> nat \<Rightarrow> utext \<Rightarrow> nat \<Rightarrow> nat list \<Rightarrow> bool" where
  "bound par names s name t l \<longleftrightarrow> up par s t l \<and> name \<in> names t \<and> (\<forall>x \<in> set l. name \<notin> names x)"

definition downward :: "(nat \<Rightarrow> nat option) \<Rightarrow> bool" where
  "downward par \<longleftrightarrow> (\<forall>s p. par s = Some p \<longrightarrow> p < s)"

lemma up_bounds: "up par s t l \<Longrightarrow> downward par \<Longrightarrow> t \<le> s \<and> (\<forall>x \<in> set l. t < x \<and> x \<le> s)"
  by (induction rule: up.induct) (fastforce simp: downward_def)+

lemma up_self: "up par s s l \<Longrightarrow> downward par \<Longrightarrow> l = []"
  using up_bounds [of par s s l] by (cases l) (auto elim: up.cases)

lemma up_nil: "up par s t [] \<longleftrightarrow> s = t"
  by (auto intro: up_refl elim: up.cases)

lemma up_cons: "up par s t (x # l) \<longleftrightarrow> x = s \<and> (\<exists>p. par s = Some p \<and> up par p t l)"
  by (auto intro: up_step elim: up.cases)

lemma bound_nil: "bound par names s name t [] \<longleftrightarrow> s = t \<and> name \<in> names s"
  by (auto simp: bound_def up_nil)

lemma bound_cons: "bound par names s name t (x # l) \<longleftrightarrow> x = s \<and> name \<notin> names s \<and> (\<exists>p. par s = Some p \<and> bound par names p name t l)"
  by (auto simp: bound_def up_cons)

lemma bound_unique:
  "bound par names s name t l \<Longrightarrow> bound par names s name t' l' \<Longrightarrow> t = t' \<and> l = l'"
proof (induction l arbitrary: s l')
  case (Cons x l)
  then show ?case by (cases l') (auto simp: bound_nil bound_cons)
next
  case Nil
  then show ?case by (cases l') (auto simp: bound_nil bound_cons)
qed

definition bpar :: "scope_builder list \<Rightarrow> nat \<Rightarrow> nat option" where
  "bpar bs s = (if s < length bs then bld_parent (bs ! s) else None)"

definition bnames :: "scope_builder list \<Rightarrow> nat \<Rightarrow> utext set" where
  "bnames bs s = (if s < length bs then set (bld_names (bs ! s)) else {})"

lemma bpar_less: "builders_ok bs \<Longrightarrow> bpar bs s = Some p \<Longrightarrow> p < s \<and> p < length bs"
  by (force simp: builders_ok_def builder_ok_def bpar_def split: if_splits option.splits)

lemma bpar_downward: "builders_ok bs \<Longrightarrow> downward (bpar bs)"
  by (simp add: downward_def bpar_less)

lemma find_defining_scope_spec:
  assumes "builders_ok bs" "sid < length bs" "sid < n"
  shows "\<exists>r. find_defining_scope n bs sid name = Some r \<and>
     (case r of Some t \<Rightarrow> \<exists>l. bound (bpar bs) (bnames bs) sid name t l
      | None \<Rightarrow> \<nexists>t l. bound (bpar bs) (bnames bs) sid name t l)"
  using assms(2,3)
proof (induction n arbitrary: sid)
  case (Suc n)
  show ?case
  proof (cases "name \<in> set (bld_names (bs ! sid))")
    case True
    then have "bound (bpar bs) (bnames bs) sid name sid []" using Suc.prems by (simp add: bound_nil bnames_def)
    then show ?thesis using Suc.prems True by (auto simp: slice_get_def)
  next
    case False
    have nb: "bound (bpar bs) (bnames bs) sid name t l \<longleftrightarrow>
        (\<exists>p l'. l = sid # l' \<and> bpar bs sid = Some p \<and> bound (bpar bs) (bnames bs) p name t l')" for t l
      using False Suc.prems by (cases l) (auto simp: bound_nil bound_cons bnames_def)
    show ?thesis
    proof (cases "bld_parent (bs ! sid)")
      case None
      then show ?thesis using Suc.prems False by (simp add: slice_get_def nb) (simp add: bpar_def)
    next
      case (Some p)
      then have p: "bpar bs sid = Some p" using Suc.prems by (simp add: bpar_def)
      with Suc.IH [of p] Suc.prems bpar_less [OF assms(1) p]
      obtain r where r: "find_defining_scope n bs p name = Some r"
        "case r of Some t \<Rightarrow> \<exists>l. bound (bpar bs) (bnames bs) p name t l | None \<Rightarrow> \<nexists>t l. bound (bpar bs) (bnames bs) p name t l"
        by auto
      moreover have "Ex (bound (bpar bs) (bnames bs) sid name t) \<longleftrightarrow> Ex (bound (bpar bs) (bnames bs) p name t)" for t
        using nb p by (metis option.inject)
      ultimately show ?thesis using Suc.prems False Some by (cases r) (simp_all add: slice_get_def)
    qed
  qed
qed simp

lemma mark_chain_spec:
  assumes "up (bpar bs) s t l" "builders_ok bs" "s < length bs" "s < n" "length nc = length bs"
  shows "\<exists>nc'. mark_chain n bs s t nc = Some nc' \<and> length nc' = length bs \<and> (\<forall>i < length bs. nc' ! i \<longleftrightarrow> nc ! i \<or> i \<in> set l)"
  using assms
proof (induction arbitrary: n nc rule: up.induct)
  case (up_refl s)
  then show ?case by (cases n) auto
next
  case (up_step s p t l)
  obtain m where n: "n = Suc m" using up_step.prems by (cases n) auto
  have lt: "p < s" "p < length bs" using bpar_less up_step.hyps(1) up_step.prems(1) by blast+
  have "t \<le> p" using up_bounds [OF up_step.hyps(2) bpar_downward [OF up_step.prems(1)]] by simp
  then have ne: "s \<noteq> t" using lt by simp
  obtain nc' where nc': "mark_chain m bs p t (nc[s := True]) = Some nc'" "length nc' = length bs"
      "\<forall>i < length bs. nc' ! i \<longleftrightarrow> nc[s := True] ! i \<or> i \<in> set l"
    using up_step.IH [of m "nc[s := True]"] up_step.prems lt n by auto
  have "bld_parent (bs ! s) = Some p" using up_step by (simp add: bpar_def split: if_splits)
  then show ?case using nc' up_step.prems n ne by (auto simp: rust_assert_def slice_get_def nth_list_update)
qed

definition bind_marks :: "scope_builder list \<Rightarrow> nat \<times> utext \<Rightarrow> (nat \<times> nat) set" where
  "bind_marks bs r = {(t, j). \<exists>l. l \<noteq> [] \<and> bound (bpar bs) (bnames bs) (fst r) (snd r) t l \<and> name_position (snd r) (bld_names (bs ! t)) = Some j}"

definition bind_chain :: "scope_builder list \<Rightarrow> nat \<times> utext \<Rightarrow> nat set" where
  "bind_chain bs r = {i. \<exists>t l. bound (bpar bs) (bnames bs) (fst r) (snd r) t l \<and> i \<in> set l}"

lemma bound_less: "bound (bpar bs) (bnames bs) s name t l \<Longrightarrow> t < length bs \<and> name \<in> set (bld_names (bs ! t))"
  by (auto simp: bound_def bnames_def split: if_splits)

lemma mark_ref_spec:
  assumes "builders_ok bs" "fst r < length bs" "length nc = length bs"
  shows "\<exists>tm' nc'. mark_ref bs r (tm, nc) = Some (tm', nc') \<and> set tm' = set tm \<union> bind_marks bs r \<and> length nc' = length bs \<and>
     (\<forall>i < length bs. nc' ! i \<longleftrightarrow> nc ! i \<or> i \<in> bind_chain bs r)"
proof -
  obtain s name where r: "r = (s, name)" by fastforce
  obtain d where d: "find_defining_scope (Suc s) bs s name = Some d"
    "case d of Some t \<Rightarrow> \<exists>l. bound (bpar bs) (bnames bs) s name t l | None \<Rightarrow> \<nexists>t l. bound (bpar bs) (bnames bs) s name t l"
    using find_defining_scope_spec [OF assms(1), of s "Suc s" name] assms(2) r by auto
  show ?thesis
  proof (cases d)
    case None
    with d r assms(3) show ?thesis by (simp del: find_defining_scope.simps mark_chain.simps add: mark_ref_def bind_marks_def bind_chain_def)
  next
    case (Some t)
    with d obtain l where l: "bound (bpar bs) (bnames bs) s name t l" by auto
    have uniq: "bound (bpar bs) (bnames bs) s name t' l' \<longleftrightarrow> t' = t \<and> l' = l" for t' l'
      using l bound_unique by metis
    have ch: "bind_chain bs r = set l" by (simp add: bind_chain_def r uniq)
    show ?thesis
    proof (cases "t = s")
      case True
      then have "l = []" using up_self bpar_downward [OF assms(1)] l by (auto simp: bound_def)
      with True Some d r assms(3) ch show ?thesis by (simp del: find_defining_scope.simps mark_chain.simps add: mark_ref_def bind_marks_def uniq)
    next
      case False
      then have "l \<noteq> []" using l by (auto simp: bound_nil)
      moreover obtain j where j: "name_position name (bld_names (bs ! t)) = Some j" using bound_less [OF l] by (simp add: name_position_def)
      ultimately have m: "bind_marks bs r = {(t, j)}" by (auto simp: bind_marks_def r uniq)
      obtain nc' where "mark_chain (Suc s) bs s t nc = Some nc'" "length nc' = length bs"
        "\<forall>i < length bs. nc' ! i \<longleftrightarrow> nc ! i \<or> i \<in> set l"
        using mark_chain_spec [of bs s t l "Suc s" nc] l assms r by (auto simp: bound_def)
      then show ?thesis using Some False d r j m ch bound_less [OF l] by (simp del: find_defining_scope.simps mark_chain.simps add: mark_ref_def slice_get_def)
    qed
  qed
qed

lemma mark_refs_spec:
  assumes "builders_ok bs" "\<forall>(s, n) \<in> set rs. s < length bs" "length nc = length bs"
  shows "\<exists>tm' nc'. mark_refs bs rs (tm, nc) = Some (tm', nc') \<and> set tm' = set tm \<union> (\<Union>r \<in> set rs. bind_marks bs r) \<and> length nc' = length bs \<and>
     (\<forall>i < length bs. nc' ! i \<longleftrightarrow> nc ! i \<or> i \<in> (\<Union>r \<in> set rs. bind_chain bs r))"
  using assms(2,3)
proof (induction rs arbitrary: tm nc)
  case (Cons r rs)
  obtain tm1 nc1 where 1: "mark_ref bs r (tm, nc) = Some (tm1, nc1)" "set tm1 = set tm \<union> bind_marks bs r" "length nc1 = length bs"
    "\<forall>i < length bs. nc1 ! i \<longleftrightarrow> nc ! i \<or> i \<in> bind_chain bs r"
    using mark_ref_spec [OF assms(1), of r nc tm] Cons.prems by auto
  with Cons.IH [of nc1 tm1] Cons.prems(1) show ?case by fastforce
qed simp

lemma set_captured_spec:
  assumes "\<forall>(i, j) \<in> set ks. i < length bs \<and> j < length (bld_captured (bs ! i))"
  shows "\<exists>bs'. set_captured ks bs = Some bs' \<and> length bs' = length bs \<and>
    (\<forall>i < length bs. \<exists>cs. bs' ! i = (bs ! i)\<lparr>bld_captured := cs\<rparr> \<and> length cs = length (bld_captured (bs ! i)) \<and>
       (\<forall>j < length cs. cs ! j \<longleftrightarrow> bld_captured (bs ! i) ! j \<or> (i, j) \<in> set ks))"
  using assms
proof (induction ks arbitrary: bs)
  case Nil
  have "bs ! i = (bs ! i)\<lparr>bld_captured := bld_captured (bs ! i)\<rparr>" for i by simp
  then show ?case by (auto intro!: exI [where x = "bld_captured (bs ! i)" for i])
next
  case (Cons k ks)
  obtain i0 j0 where k: "k = (i0, j0)" by fastforce
  let ?b = "bs ! i0"
  let ?bs = "bs[i0 := ?b\<lparr>bld_captured := (bld_captured ?b)[j0 := True]\<rparr>]"
  have r: "i0 < length bs" "j0 < length (bld_captured ?b)" using Cons.prems k by auto
  have len: "length (bld_captured (?bs ! i)) = length (bld_captured (bs ! i))" if "i < length bs" for i
    using r by (simp add: nth_list_update)
  have "\<forall>(i, j) \<in> set ks. i < length ?bs \<and> j < length (bld_captured (?bs ! i))" using Cons.prems len by auto
  from Cons.IH [OF this] obtain bs' where bs': "set_captured ks ?bs = Some bs'" "length bs' = length bs"
    and each: "\<forall>i < length bs. \<exists>cs. bs' ! i = (?bs ! i)\<lparr>bld_captured := cs\<rparr> \<and> length cs = length (bld_captured (?bs ! i)) \<and>
       (\<forall>j < length cs. cs ! j \<longleftrightarrow> bld_captured (?bs ! i) ! j \<or> (i, j) \<in> set ks)"
    by auto
  have "\<exists>cs. bs' ! i = (bs ! i)\<lparr>bld_captured := cs\<rparr> \<and> length cs = length (bld_captured (bs ! i)) \<and>
       (\<forall>j < length cs. cs ! j \<longleftrightarrow> bld_captured (bs ! i) ! j \<or> (i, j) \<in> set (k # ks))" if i: "i < length bs" for i
  proof -
    obtain cs where "bs' ! i = (?bs ! i)\<lparr>bld_captured := cs\<rparr>" "length cs = length (bld_captured (?bs ! i))"
       "\<forall>j < length cs. cs ! j \<longleftrightarrow> bld_captured (?bs ! i) ! j \<or> (i, j) \<in> set ks" using each i by blast
    then show ?thesis using i r by (intro exI [of _ cs]) (auto simp: nth_list_update k split: if_splits)
  qed
  then show ?case using bs' r k by (simp add: slice_get_def)
qed

subsection \<open>Numbering\<close>

definition ctx_rank :: "bool list \<Rightarrow> nat \<Rightarrow> nat" where
  "ctx_rank cs j = length (filter id (take j cs))"

definition frame_rank :: "nat \<Rightarrow> bool list \<Rightarrow> nat \<Rightarrow> nat" where
  "frame_rank argc cs j = length (filter Not (drop argc (take j cs)))"

lemma number_ctx_spec:
  "number_ctx n cs = (map (\<lambda>j. if cs ! j then Some (n + ctx_rank cs j) else None) [0..<length cs], n + length (filter id cs))"
proof (induction cs arbitrary: n)
  case (Cons c cs)
  have "map (\<lambda>j. f ((c # cs) ! j) (ctx_rank (c # cs) j)) [0..<length (c # cs)] =
        f c 0 # map (\<lambda>j. f (cs ! j) ((if c then 1 else 0) + ctx_rank cs j)) [0..<length cs]" for f :: "bool \<Rightarrow> nat \<Rightarrow> nat option"
    by (simp add: map_upt_Suc ctx_rank_def del: upt_Suc)
  from this [of "\<lambda>c r. if c then Some (n + r) else None"] show ?case
    by (simp add: Cons.IH del: upt_Suc)
qed simp

lemma number_frame_spec:
  "number_frame argc i n cs =
     (map (\<lambda>j. if i + j < argc then Some (i + j) else if \<not> cs ! j then Some (n + frame_rank (argc - i) cs j) else None) [0..<length cs],
      n + length (filter Not (drop (argc - i) cs)))"
proof (induction cs arbitrary: i n)
  case (Cons c cs)
  have args: "argc \<le> i \<and> argc - i = 0 \<and> argc - Suc i = 0 \<or> i < argc \<and> argc - i = Suc (argc - Suc i)" by arith
  have rank: "frame_rank (argc - i) (c # cs) (Suc j) = (if argc \<le> i \<and> \<not> c then 1 else 0) + frame_rank (argc - Suc i) cs j" for j c
    using args by (auto simp: frame_rank_def)
  have len: "length (filter Not (drop (argc - i) (c # cs))) = (if argc \<le> i \<and> \<not> c then 1 else 0) + length (filter Not (drop (argc - Suc i) cs))"
    using args by auto
  have rank0: "frame_rank 0 (c # cs) (Suc j) = (if c then 0 else 1) + frame_rank 0 cs j" "frame_rank k (c # cs) 0 = 0" for j c k
    by (simp_all add: frame_rank_def)
  show ?case unfolding len
    by (simp add: Cons.IH map_upt_Suc rank rank0 del: upt_Suc)
qed simp

lemma take_split_at:
  assumes "j < k" "k \<le> length cs"
  shows "take k cs = take j cs @ cs ! j # drop (Suc j) (take k cs)"
  using id_take_nth_drop [of j "take k cs"] assms by (simp add: min_def)

lemma ctx_rank_mono:
  assumes "j < k" "k \<le> length cs" "cs ! j"
  shows "ctx_rank cs j < ctx_rank cs k"
  by (subst (2) ctx_rank_def, subst take_split_at [OF assms(1,2)]) (use assms(3) in \<open>simp add: ctx_rank_def\<close>)

lemma frame_rank_mono:
  assumes "argc \<le> j" "j < k" "k \<le> length cs" "\<not> cs ! j"
  shows "frame_rank argc cs j < frame_rank argc cs k"
  by (subst (2) frame_rank_def, subst take_split_at [OF assms(2,3)]) (use assms in \<open>simp add: frame_rank_def\<close>)

definition slot_of :: "nat \<Rightarrow> bool list \<Rightarrow> nat \<Rightarrow> var_slot" where
  "slot_of argc cs j = \<lparr>vs_captured = cs ! j,
     vs_frame_slot = (if j < argc then Some j else if \<not> cs ! j then Some (argc + frame_rank argc cs j) else None),
     vs_ctx_slot = (if cs ! j then Some (ctx_rank cs j) else None)\<rparr>"

definition info_of :: "scope_builder \<Rightarrow> bool \<Rightarrow> scope_info" where
  "info_of b cc = (let cs = bld_captured b; argc = bld_argc b in
     \<lparr>si_parent = bld_parent b, si_is_method = bld_is_method b, si_argc = argc,
      si_vars = map (\<lambda>j. (bld_names b ! j, slot_of argc cs j)) [0..<length (bld_names b)],
      si_nctx = length (filter id cs), si_frame_temp_count = length (filter Not (drop argc cs)),
      si_has_ctx = (length (filter id cs) > 0), si_captures_ctx = cc\<rparr>)"

lemma finalize_scope_spec: "length (bld_captured b) = length (bld_names b) \<Longrightarrow> finalize_scope b cc = Some (info_of b cc)"
proof -
  assume len: "length (bld_captured b) = length (bld_names b)"
  let ?cs = "bld_captured b" and ?n = "length (bld_names b)"
  have "map (\<lambda>(name, c, f, x). (name, \<lparr>vs_captured = c, vs_frame_slot = f, vs_ctx_slot = x\<rparr>))
          (zip (bld_names b) (zip ?cs (zip (fst (number_frame (bld_argc b) 0 (bld_argc b) ?cs)) (fst (number_ctx 0 ?cs))))) =
        map (\<lambda>j. (bld_names b ! j, slot_of (bld_argc b) ?cs j)) [0..<?n]"
    by (rule nth_equalityI) (simp_all add: len number_ctx_spec number_frame_spec slot_of_def)
  moreover have t: "take ?n ?cs = ?cs" using len by simp
  ultimately show ?thesis unfolding finalize_scope_def Let_def t
    by (simp add: info_of_def len number_ctx_spec number_frame_spec Let_def)
qed

lemma finalize_scopes_spec:
  assumes "\<forall>j < length bs. length (bld_captured (bs ! j)) = length (bld_names (bs ! j))" "i + length bs \<le> length nc"
  shows "finalize_scopes i nc bs = Some (map (\<lambda>j. info_of (bs ! j) (\<not> bld_is_method (bs ! j) \<and> nc ! (i + j))) [0..<length bs])"
  using assms
proof (induction bs arbitrary: i)
  case (Cons b bs)
  have "\<forall>j < length bs. length (bld_captured (bs ! j)) = length (bld_names (bs ! j))" using Cons.prems(1) by auto
  moreover have "length (bld_captured b) = length (bld_names b)" using Cons.prems(1) by auto
  ultimately show ?case using Cons.IH [of "i + 1"] Cons.prems(2)
    by (simp add: map_upt_Suc finalize_scope_spec slice_get_def del: upt_Suc)
qed simp

text \<open>What the marking computes from the references and scopes the walk has recorded: the variables a nested block refers to, and the blocks that relay a context.\<close>

definition captured_in :: "cap_state \<Rightarrow> nat \<Rightarrow> nat \<Rightarrow> bool" where
  "captured_in st i j \<longleftrightarrow> (\<exists>r \<in> set (cs_refs st). (i, j) \<in> bind_marks (cs_builders st) r)"

definition relays :: "cap_state \<Rightarrow> nat \<Rightarrow> bool" where
  "relays st i \<longleftrightarrow> (\<exists>r \<in> set (cs_refs st). i \<in> bind_chain (cs_builders st) r)"

definition marked :: "cap_state \<Rightarrow> nat \<Rightarrow> scope_builder" where
  "marked st i = (let b = cs_builders st ! i in b\<lparr>bld_captured := map (captured_in st i) [0..<length (bld_names b)]\<rparr>)"

lemma name_position_less: "name_position name ns = Some j \<Longrightarrow> j < length ns"
proof (induction ns arbitrary: j)
  case (Cons n ns)
  then show ?case by (cases "n = name") (auto simp: name_position_def split: if_splits)
qed (simp add: name_position_def)

lemma bind_marks_range: "(i, j) \<in> bind_marks bs r \<Longrightarrow> i < length bs \<and> j < length (bld_names (bs ! i))"
  by (auto simp: bind_marks_def dest: bound_less name_position_less)

lemma assign_storage_spec:
  assumes "cap_inv st"
  shows "assign_storage st = Some (map (\<lambda>i. info_of (marked st i) (relays st i)) [0..<length (cs_builders st)])"
proof -
  let ?bs = "cs_builders st"
  have ok: "builders_ok ?bs" and refs: "\<forall>(s, n) \<in> set (cs_refs st). s < length ?bs" using assms by (auto simp: cap_inv_def)
  obtain tm nc where tm: "mark_refs ?bs (cs_refs st) ([], replicate (length ?bs) False) = Some (tm, nc)"
      "set tm = (\<Union>r \<in> set (cs_refs st). bind_marks ?bs r)" "length nc = length ?bs"
      "\<forall>i < length ?bs. nc ! i \<longleftrightarrow> i \<in> (\<Union>r \<in> set (cs_refs st). bind_chain ?bs r)"
    using mark_refs_spec [OF ok refs, of "replicate (length ?bs) False" "[]"] by auto
  have nc: "nc ! i \<longleftrightarrow> relays st i" if "i < length ?bs" for i
    using that tm(4) by (simp add: relays_def)
  have cap: "(i, j) \<in> set tm \<longleftrightarrow> captured_in st i j" for i j
    by (simp add: tm(2) captured_in_def)
  have len: "length (bld_captured (?bs ! i)) = length (bld_names (?bs ! i))" "j < length (bld_names (?bs ! i)) \<Longrightarrow> \<not> bld_captured (?bs ! i) ! j"
    if "i < length ?bs" for i j
    using that ok by (auto simp: builders_ok_def builder_ok_def)
  have "\<forall>(i, j) \<in> set tm. i < length ?bs \<and> j < length (bld_captured (?bs ! i))"
    by (auto simp: tm(2) len dest: bind_marks_range)
  from set_captured_spec [OF this] obtain bs' where bs': "set_captured tm ?bs = Some bs'" "length bs' = length ?bs"
    "\<forall>i < length ?bs. \<exists>cs. bs' ! i = (?bs ! i)\<lparr>bld_captured := cs\<rparr> \<and> length cs = length (bld_captured (?bs ! i)) \<and>
       (\<forall>j < length cs. cs ! j \<longleftrightarrow> bld_captured (?bs ! i) ! j \<or> (i, j) \<in> set tm)" by blast
  have m: "bs' ! i = marked st i" if i: "i < length ?bs" for i
  proof -
    obtain cs where cs: "bs' ! i = (?bs ! i)\<lparr>bld_captured := cs\<rparr>" "length cs = length (bld_names (?bs ! i))"
       "\<forall>j < length cs. cs ! j \<longleftrightarrow> captured_in st i j" using bs'(3) i len cap by metis
    have "cs = map (captured_in st i) [0..<length (bld_names (?bs ! i))]"
      by (rule nth_equalityI) (use cs(2,3) in simp_all)
    with cs(1) show ?thesis by (simp add: marked_def Let_def)
  qed
  have root: "\<not> bld_is_method (marked st i) \<or> \<not> relays st i" if "i < length ?bs" for i
  proof -
    have "\<not> relays st 0" using up_bounds [OF _ bpar_downward [OF ok]] by (fastforce simp: relays_def bind_chain_def bound_def)
    then show ?thesis using that ok by (auto simp: marked_def Let_def builders_ok_def builder_ok_def)
  qed
  have "finalize_scopes 0 nc bs' = Some (map (\<lambda>i. info_of (bs' ! i) (\<not> bld_is_method (bs' ! i) \<and> nc ! (0 + i))) [0..<length bs'])"
    by (rule finalize_scopes_spec) (use m bs'(2) tm(3) in \<open>auto simp: marked_def Let_def\<close>)
  moreover have "(\<not> bld_is_method (bs' ! i) \<and> nc ! (0 + i)) = relays st i" if "i < length ?bs" for i
    using root nc m that by auto
  ultimately have "finalize_scopes 0 nc bs' = Some (map (\<lambda>i. info_of (marked st i) (relays st i)) [0..<length ?bs])"
    using m bs'(2) by simp
  then show ?thesis using tm(1) bs'(1) by (simp add: assign_storage_def)
qed

lemma analyze_spec:
  assumes "walk_method m = Some (body, st)"
  shows "cap_inv st" "0 < length (cs_builders st)"
    "analyze m = Some (m\<lparr>mn_body := body\<rparr>, map (\<lambda>i. info_of (marked st i) (relays st i)) [0..<length (cs_builders st)])"
proof -
  show inv: "cap_inv st" using walk_method_total [of m] assms by (metis Pair_inject option.inject)
  show "0 < length (cs_builders st)" using walk_method_total [of m] assms by (metis Pair_inject option.inject length_greater_0_conv)
  show "analyze m = Some (m\<lparr>mn_body := body\<rparr>, map (\<lambda>i. info_of (marked st i) (relays st i)) [0..<length (cs_builders st)])"
    using assms by (simp add: analyze_def assign_storage_spec [OF inv])
qed

subsection \<open>Resolution\<close>

definition spar :: "scope_info list \<Rightarrow> nat \<Rightarrow> nat option" where
  "spar scopes s = (if s < length scopes then si_parent (scopes ! s) else None)"

definition snames :: "scope_info list \<Rightarrow> nat \<Rightarrow> utext set" where
  "snames scopes s = (if s < length scopes then fst ` set (si_vars (scopes ! s)) else {})"

definition hops :: "scope_info list \<Rightarrow> nat list \<Rightarrow> nat" where
  "hops scopes l = length (filter (\<lambda>x. si_has_ctx (scopes ! x)) l)"

lemma find_var_spec:
  "find_var name s = (case name_position name (map fst (si_vars s)) of None \<Rightarrow> None | Some j \<Rightarrow> Some (snd (si_vars s ! j)))"
proof -
  have "map_option snd (find (\<lambda>(n, _). n = name) vs) =
      (case name_position name (map fst vs) of None \<Rightarrow> None | Some j \<Rightarrow> Some (snd (vs ! j)))" for vs :: "(utext \<times> var_slot) list"
  proof (induction vs)
    case (Cons v vs)
    then show ?case by (cases v) (auto simp: name_position_def split: if_splits option.splits)
  qed (simp add: name_position_def)
  then show ?thesis by (simp add: find_var_def)
qed

lemma depth_to_spec: "up (spar scopes) s t l \<Longrightarrow> downward (spar scopes) \<Longrightarrow> s < n \<Longrightarrow> depth_to n scopes s t = Some (hops scopes l)"
proof (induction arbitrary: n rule: up.induct)
  case (up_refl s)
  then show ?case by (cases n) (auto simp: hops_def)
next
  case (up_step s p t l)
  obtain m where n: "n = Suc m" using up_step.prems by (cases n) auto
  have lt: "p < s" using up_step.hyps(1) up_step.prems(1) by (simp add: downward_def)
  have "t \<le> p" using up_bounds [OF up_step.hyps(2) up_step.prems(1)] by simp
  moreover have "s < length scopes" "si_parent (scopes ! s) = Some p" using up_step.hyps(1) by (auto simp: spar_def split: if_splits)
  ultimately show ?case using up_step.IH [of m] up_step.prems n lt by (simp add: slice_get_def hops_def)
qed

text \<open>The storage a name resolves to, given the scope that declares it.\<close>

definition resolution :: "scope_info list \<Rightarrow> utext \<Rightarrow> nat \<Rightarrow> nat list \<Rightarrow> resolved option" where
  "resolution scopes name t l = do {
     v \<leftarrow> find_var name (scopes ! t);
     if vs_captured v then do { c \<leftarrow> vs_ctx_slot v; Some (CapturedSlot (hops scopes l mod 256) (c mod 256)) }
     else map_option LocalSlot (vs_frame_slot v)
   }"

lemma up_trans: "up par a b l \<Longrightarrow> up par b c l' \<Longrightarrow> up par a c (l @ l')"
  by (induction rule: up.induct) (auto intro: up_step)

lemma find_var_None: "sid < length scopes \<Longrightarrow> find_var name (scopes ! sid) = None \<longleftrightarrow> name \<notin> snames scopes sid"
  by (force simp: find_var_spec name_position_def snames_def split: option.splits)

lemma resolve_from_spec:
  assumes "downward (spar scopes)" "\<And>s p. spar scopes s = Some p \<Longrightarrow> p < length scopes"
    "up (spar scopes) ref sid l0" "sid < length scopes" "sid < n"
  shows "bound (spar scopes) (snames scopes) sid name t l \<Longrightarrow> resolve_from n scopes ref sid name = map_option Some (resolution scopes name t (l0 @ l))"
    and "(\<nexists>t l. bound (spar scopes) (snames scopes) sid name t l) \<Longrightarrow> resolve_from n scopes ref sid name = Some None"
  using assms(3-5)
proof (induction n arbitrary: sid l l0)
  case (Suc n)
  note mem = find_var_None [of _ scopes name]
  have below: "p < n" if "spar scopes sid = Some p" "sid < Suc n" for sid p
    using that assms(1) by (auto simp: downward_def less_Suc_eq intro: less_trans)
  {
    case 1
    show ?case
    proof (cases l)
      case Nil
      then have "sid = t" "name \<in> snames scopes sid" using 1 by (auto simp: bound_nil)
      moreover obtain v where "find_var name (scopes ! sid) = Some v" using mem [of sid] 1(3) calculation by (cases "find_var name (scopes ! sid)") auto
      moreover have "depth_to (Suc ref) scopes ref sid = Some (hops scopes l0)" by (rule depth_to_spec [OF 1(2) assms(1)]) simp
      ultimately show ?thesis using 1 Nil
        by (auto simp: slice_get_def resolution_def simp del: depth_to.simps split: option.splits bind_splits)
    next
      case (Cons x l')
      then obtain p where p: "x = sid" "name \<notin> snames scopes sid" "spar scopes sid = Some p" "bound (spar scopes) (snames scopes) p name t l'"
        using 1 by (auto simp: bound_cons)
      have "up (spar scopes) ref p (l0 @ [sid])" by (rule up_trans [OF 1(2)]) (auto intro: up_step up_refl p)
      from Suc.IH(1) [OF p(4) this] have "resolve_from n scopes ref p name = map_option Some (resolution scopes name t (l0 @ l))"
        using below [OF p(3) 1(4)] assms(2) [OF p(3)] p(1) Cons by simp
      then show ?thesis using mem [of sid] p(2,3) 1(3) by (simp add: slice_get_def spar_def)
    qed
  next
    case 2
    have np: "name \<notin> snames scopes sid" using 2(1) bound_nil by metis
    show ?case
    proof (cases "spar scopes sid")
      case None
      then show ?thesis using mem [of sid] np 2(3) by (simp add: slice_get_def spar_def)
    next
      case (Some p)
      have "up (spar scopes) ref p (l0 @ [sid])" by (rule up_trans [OF 2(2)]) (auto intro: up_step up_refl Some)
      moreover have "\<nexists>t l. bound (spar scopes) (snames scopes) p name t l" using 2(1) np Some bound_cons by metis
      ultimately have "resolve_from n scopes ref p name = Some None"
        using Suc.IH(2) [of p] below [OF Some 2(4)] assms(2) [OF Some] by blast
      then show ?thesis using mem [of sid] np Some 2(3) by (simp add: slice_get_def spar_def)
    qed
  }
qed simp_all

lemma resolve_name_spec:
  assumes "downward (spar scopes)" "\<forall>s p. spar scopes s = Some p \<longrightarrow> p < length scopes" "ref < length scopes"
  shows "bound (spar scopes) (snames scopes) ref name t l \<Longrightarrow> resolve_name scopes ref name = map_option Some (resolution scopes name t l)"
    and "(\<nexists>t l. bound (spar scopes) (snames scopes) ref name t l) \<Longrightarrow> resolve_name scopes ref name = Some None"
proof -
  show "resolve_name scopes ref name = map_option Some (resolution scopes name t l)" if "bound (spar scopes) (snames scopes) ref name t l"
    using resolve_from_spec(1) [OF assms(1) assms(2) [rule_format] up_refl assms(3) _ that] by (simp add: resolve_name_def del: resolve_from.simps)
  show "resolve_name scopes ref name = Some None" if "\<nexists>t l. bound (spar scopes) (snames scopes) ref name t l"
    using resolve_from_spec(2) [OF assms(1) assms(2) [rule_format] up_refl assms(3) _ that] by (simp add: resolve_name_def del: resolve_from.simps)
qed

subsection \<open>Scopes read off a tree\<close>

text \<open>
  An independent reading of a tree whose blocks carry scope numbers. \<open>occurrences\<close> lists the expressions of a body in the order they are written, each with
  the innermost scope it is in and whether it is a block that is dissolved into that scope.
\<close>

type_synonym occurrence = "nat \<times> bool \<times> expr"

definition kids :: "occurrence \<Rightarrow> occurrence list" where
  "kids x = (let (s, inlined, e) = x in case e of
       AssignE _ e _ \<Rightarrow> [(s, False, e)]
     | SendE r sel args su _ \<Rightarrow>
         (s, dissolves (send_positions su sel r args) RecvPos, r) #
         map (\<lambda>(i, a). (s, dissolves (send_positions su sel r args) (ArgPos i), a)) (enumerate 0 args)
     | CascadeE r segs _ \<Rightarrow> map (\<lambda>e. (s, False, e)) (r # segs)
     | DynArray es _ \<Rightarrow> map (\<lambda>e. (s, False, e)) es
     | ReturnE e _ \<Rightarrow> [(s, False, e)]
     | BlockE b \<Rightarrow> map (\<lambda>e. (if inlined then s else bn_scope_id b, False, e)) (bn_body b)
     | _ \<Rightarrow> [])"

lemma kids_smaller: "y \<in> set (kids x) \<Longrightarrow> size (snd (snd y)) < size (snd (snd x))"
proof -
  have el: "e \<in> set es \<Longrightarrow> size e \<le> size_list size es" for e and es :: "expr list" by (simp add: size_list_estimation')
  have en: "(i, e) \<in> set (enumerate 0 es) \<Longrightarrow> size e \<le> size_list size es" for i e and es :: "expr list"
    using el by (auto simp: in_set_enumerate_eq)
  obtain s d e where x: "x = (s, d, e)" by (cases x)
  show "y \<in> set (kids x) \<Longrightarrow> size (snd (snd y)) < size (snd (snd x))"
  proof (cases e)
    case (BlockE b)
    then show "y \<in> set (kids x) \<Longrightarrow> ?thesis" using el by (cases b) (fastforce simp: kids_def x less_Suc_eq_le Let_def)
  qed (use el en in \<open>fastforce simp: kids_def x less_Suc_eq_le Let_def\<close>)+
qed

function occurs :: "occurrence \<Rightarrow> occurrence list" where
  "occurs x = x # concat (map occurs (kids x))"
  by pat_completeness auto
termination
  by (relation "measure (\<lambda>x. size (snd (snd x)))") (simp_all add: kids_smaller)

declare occurs.simps [simp del]

definition occurrences :: "expr list \<Rightarrow> occurrence list" where
  "occurrences body = concat (map (\<lambda>e. occurs (0, False, e)) body)"

text \<open>The variables referred to, read and written alike; the blocks that are scopes, with the scope around them; and the names the blocks declare.\<close>

definition refs_in :: "occurrence list \<Rightarrow> (nat \<times> utext) list" where
  "refs_in os = concat (map (\<lambda>(s, _, e). case e of Var n _ \<Rightarrow> [(s, n)] | AssignE n _ _ \<Rightarrow> [(s, n)] | _ \<Rightarrow> []) os)"

definition nests_in :: "occurrence list \<Rightarrow> (nat \<times> nat) list" where
  "nests_in os = concat (map (\<lambda>(s, inlined, e). case e of BlockE b \<Rightarrow> if inlined then [] else [(bn_scope_id b, s)] | _ \<Rightarrow> []) os)"

definition decls_in :: "occurrence list \<Rightarrow> nat \<Rightarrow> utext list" where
  "decls_in os i = concat (map (\<lambda>(s, inlined, e). case e of
     BlockE b \<Rightarrow> if i = (if inlined then s else bn_scope_id b) then bn_params b @ bn_temps b else [] | _ \<Rightarrow> []) os)"

lemma in_append [simp]:
  "refs_in (os @ os') = refs_in os @ refs_in os'" "nests_in (os @ os') = nests_in os @ nests_in os'" "decls_in (os @ os') i = decls_in os i @ decls_in os' i"
  "refs_in [] = []" "nests_in [] = []" "decls_in [] i = []"
  by (simp_all add: refs_in_def nests_in_def decls_in_def)

lemma in_cons:
  "refs_in (x # os) = refs_in [x] @ refs_in os" "nests_in (x # os) = nests_in [x] @ nests_in os" "decls_in (x # os) i = decls_in [x] i @ decls_in os i"
  by (simp_all add: refs_in_def nests_in_def decls_in_def)

lemma occurs_self: "x \<in> set (occurs x)"
  by (subst occurs.simps) simp

lemma occurs_within: "y \<in> set (occurs x) \<Longrightarrow> set (occurs y) \<subseteq> set (occurs x)"
proof (induction x rule: occurs.induct)
  case (1 x)
  show ?case
  proof (cases "y = x")
    case False
    then obtain z where "z \<in> set (kids x)" "y \<in> set (occurs z)" using 1(2) by (subst (asm) occurs.simps) auto
    then show ?thesis using 1(1) [of z] by (subst (2) occurs.simps) auto
  qed simp
qed

lemma refs_within: "y \<in> set (occurrences body) \<Longrightarrow> set (refs_in (occurs y)) \<subseteq> set (refs_in (occurrences body))"
proof -
  assume "y \<in> set (occurrences body)"
  then have "set (occurs y) \<subseteq> set (occurrences body)" using occurs_within by (fastforce simp: occurrences_def)
  then show ?thesis unfolding refs_in_def by auto
qed

subsection \<open>Trees up to block numbers\<close>

primrec unnumbered :: "expr \<Rightarrow> expr" and unnumbered_block :: "block_node \<Rightarrow> block_node" where
  "unnumbered (SelfRef sp) = SelfRef sp"
| "unnumbered (Var n sp) = Var n sp"
| "unnumbered (Lit l sp) = Lit l sp"
| "unnumbered (AssignE n e sp) = AssignE n (unnumbered e) sp"
| "unnumbered (SendE r sel args su sp) = SendE (unnumbered r) sel (map unnumbered args) su sp"
| "unnumbered (CascadeE r segs sp) = CascadeE (unnumbered r) (map unnumbered segs) sp"
| "unnumbered (CascadeRcvr sp) = CascadeRcvr sp"
| "unnumbered (DynArray es sp) = DynArray (map unnumbered es) sp"
| "unnumbered (BlockE b) = BlockE (unnumbered_block b)"
| "unnumbered (ReturnE e sp) = ReturnE (unnumbered e) sp"
| "unnumbered_block (BlockNode ps ts body sp i) = BlockNode ps ts (map unnumbered body) sp 0"

lemma block_argc_simps [simp]:
  "block_argc (SelfRef sp) = None" "block_argc (Var n sp) = None" "block_argc (Lit l sp) = None" "block_argc (AssignE n e sp) = None"
  "block_argc (SendE r sel args su sp) = None" "block_argc (CascadeE r args sp) = None" "block_argc (CascadeRcvr sp) = None" "block_argc (DynArray args sp) = None"
  "block_argc (ReturnE e sp) = None" "block_argc (BlockE b) = Some (length (bn_params b))"
  by (simp_all add: block_argc_def)

lemma block_argc_unnumbered [simp]: "block_argc (unnumbered e) = block_argc e"
proof (cases e)
  case (BlockE b)
  then show ?thesis by (cases b) simp
qed simp_all

lemma simple_positions_cong:
  assumes "block_argc r' = block_argc r" "map block_argc args' = map block_argc args"
  shows "simple_positions sel r' args' = simple_positions sel r args"
proof -
  have len: "length args' = length args" using assms(2) by (rule map_eq_imp_length_eq)
  then have nth: "i < length args \<Longrightarrow> block_argc (args' ! i) = block_argc (args ! i)" for i using assms(2) by (metis nth_map)
  show ?thesis by (simp add: simple_positions_def assms(1) len nth cong: conj_cong)
qed

lemma positions_unnumbered:
  "inline_block_positions sel (unnumbered r) (map unnumbered args) = inline_block_positions sel r args"
  "scan_ref lv nested (unnumbered e) = scan_ref lv nested e"
  "scan_recv lv nested d (unnumbered e) = scan_recv lv nested d e"
  "scan_args lv nested ps i (map unnumbered args) = scan_args lv nested ps i args"
  "scan_body lv nested (map unnumbered es) = scan_body lv nested es"
proof (induction sel r args and lv nested e and lv nested d e and lv nested ps i args and lv nested es
    rule: inline_block_positions_scan_ref_scan_recv_scan_args_scan_body.induct)
  case (1 sel r lim v ts body sp sid)
  then show ?case by (auto intro!: simple_positions_cong)
qed (auto intro!: simple_positions_cong simp: Let_def)

lemma send_positions_unnumbered:
  "unnumbered r' = unnumbered r \<Longrightarrow> map unnumbered args' = map unnumbered args \<Longrightarrow> send_positions su sel r' args' = send_positions su sel r args"
  using positions_unnumbered(1) by (metis send_positions_def)

definition block_expr :: "expr \<Rightarrow> bool" where
  "block_expr e \<longleftrightarrow> block_argc e \<noteq> None"

lemma dissolves_block:
  "dissolves (send_positions su sel r args) RecvPos \<Longrightarrow> block_expr r"
  "dissolves (send_positions su sel r args) (ArgPos i) \<Longrightarrow> i < length args \<Longrightarrow> block_expr (args ! i)"
proof -
  have simple: "(RecvPos \<in> set ps \<longrightarrow> block_expr r) \<and> (\<forall>i. ArgPos i \<in> set ps \<longrightarrow> block_expr (args ! i))"
    if "simple_positions sel r args = Some ps" for ps
    using that by (auto simp: simple_positions_def block_expr_def split: if_splits)
  have all: "(RecvPos \<in> set ps \<longrightarrow> block_expr r) \<and> (\<forall>i. ArgPos i \<in> set ps \<longrightarrow> block_expr (args ! i))"
    if "inline_block_positions sel r args = Some ps" for ps
    using that simple
    by (cases "(sel, r, args)" rule: inline_block_positions.cases) (auto split: if_splits simp: block_expr_def block_argc_def)
  show "dissolves (send_positions su sel r args) RecvPos \<Longrightarrow> block_expr r"
    "dissolves (send_positions su sel r args) (ArgPos i) \<Longrightarrow> i < length args \<Longrightarrow> block_expr (args ! i)"
    using all by (auto simp: dissolves_def send_positions_def split: if_splits option.splits)
qed


subsection \<open>What the walk adds\<close>

definition names_at :: "scope_builder list \<Rightarrow> nat \<Rightarrow> utext list" where
  "names_at bs i = (if i < length bs then bld_names (bs ! i) else [])"

text \<open>The walk of a tree with the occurrences \<open>os\<close> records their references, a scope for every block that is one, and the names where they belong.\<close>

definition adds :: "cap_state \<Rightarrow> occurrence list \<Rightarrow> cap_state \<Rightarrow> bool" where
  "adds st os st' \<longleftrightarrow> cap_inv st' \<and> cs_refs st' = cs_refs st @ refs_in os \<and>
     length (cs_builders st) \<le> length (cs_builders st') \<and>
     map fst (nests_in os) = [length (cs_builders st)..<length (cs_builders st')] \<and>
     map bld_parent (cs_builders st') = map bld_parent (cs_builders st) @ map (\<lambda>n. Some (snd n)) (nests_in os) \<and>
     (\<forall>i. names_at (cs_builders st') i = names_at (cs_builders st) i @ decls_in os i)"

lemma adds_none: "cap_inv st \<Longrightarrow> adds st [] st"
  by (simp add: adds_def)

lemma upt_join: "a \<le> b \<Longrightarrow> b \<le> c \<Longrightarrow> [a..<b] @ [b..<c] = [a..<c]"
  using upt_add_eq_append [of a b "c - b"] by simp

lemma adds_trans: "adds st os st' \<Longrightarrow> adds st' os' st'' \<Longrightarrow> adds st (os @ os') st''"
  by (auto simp: adds_def upt_join)

lemma adds_inv: "adds st os st' \<Longrightarrow> cap_inv st'" "adds st os st' \<Longrightarrow> sid < length (cs_builders st) \<Longrightarrow> sid < length (cs_builders st')"
  by (auto simp: adds_def)

lemma adds_ref:
  assumes "cap_inv st" "sid < length (cs_builders st)"
  shows "adds st [(sid, d, Var n sp)] (push_ref sid n st)" "adds st [(sid, d, AssignE n e sp)] (push_ref sid n st)"
  using cap_inv_push_ref [OF assms] by (simp_all add: adds_def push_ref_def refs_in_def nests_in_def decls_in_def)

lemma adds_quiet:
  assumes "cap_inv st" "refs_in [x] = []" "nests_in [x] = []" "\<And>i. decls_in [x] i = []"
  shows "adds st [x] st"
  using assms by (simp add: adds_def)

lemma adds_scope:
  assumes "cap_inv st" "sid < length (cs_builders st)"
  shows "adds st [(sid, False, BlockE (BlockNode ps ts body sp (cs_next_id st)))] (push_scope sid ps ts st)"
  using cap_inv_push_scope [OF assms, of ps ts] assms(1)
  by (auto simp: adds_def push_scope_def refs_in_def nests_in_def decls_in_def names_at_def cap_inv_def new_scope_names_def nth_append less_Suc_eq)

lemma adds_extend:
  assumes "cap_inv st" "sid < length (cs_builders st)" "extend_scope sid ps ts st = Some st'"
  shows "adds st [(sid, True, BlockE (BlockNode ps ts body sp i))] st'"
proof -
  have st': "st' = st\<lparr>cs_builders := (cs_builders st)[sid := (cs_builders st ! sid)
      \<lparr>bld_names := bld_names (cs_builders st ! sid) @ ps @ ts,
       bld_captured := bld_captured (cs_builders st ! sid) @ replicate (length (ps @ ts)) False\<rparr>]\<rparr>"
    using assms(2,3) by (simp add: extend_scope_def slice_get_def new_scope_names_def Let_def)
  have "cap_inv st'" using extend_scope_ok [OF assms(1,2)] assms(3) by (metis option.inject)
  moreover have "map bld_parent (cs_builders st') = map bld_parent (cs_builders st)"
    using assms(2) by (intro nth_equalityI) (auto simp: st' nth_list_update)
  ultimately show ?thesis
    using assms(2) by (auto simp: adds_def refs_in_def nests_in_def decls_in_def names_at_def st' nth_list_update)
qed

lemma occurs_block: "occurs (s, d, BlockE (BlockNode ps ts body sp i)) =
    (s, d, BlockE (BlockNode ps ts body sp i)) # concat (map (\<lambda>e. occurs (if d then s else i, False, e)) body)"
  by (subst occurs.simps) (simp add: kids_def comp_def)

definition arg_occurs :: "nat \<Rightarrow> block_pos list option \<Rightarrow> nat \<Rightarrow> expr list \<Rightarrow> occurrence list" where
  "arg_occurs s ps i args = concat (map (\<lambda>(k, a). occurs (s, dissolves ps (ArgPos k), a)) (enumerate i args))"

lemma arg_occurs_Cons: "arg_occurs s ps i (a # args) = occurs (s, dissolves ps (ArgPos i), a) @ arg_occurs s ps (Suc i) args"
  by (simp add: arg_occurs_def)

lemma occurs_send: "occurs (s, d, SendE r sel args su sp) = (s, d, SendE r sel args su sp) #
    occurs (s, dissolves (send_positions su sel r args) RecvPos, r) @ arg_occurs s (send_positions su sel r args) 0 args"
proof -
  have "map occurs (map (\<lambda>(i, a). (s, dissolves ps (ArgPos i), a)) (enumerate 0 args)) =
      map (\<lambda>(k, a). occurs (s, dissolves ps (ArgPos k), a)) (enumerate 0 args)" for ps
    by (simp add: comp_def case_prod_unfold)
  then show ?thesis by (subst occurs.simps) (simp add: kids_def arg_occurs_def del: map_map)
qed

lemma walk_adds:
  shows "cap_inv st \<Longrightarrow> sid < length (cs_builders st) \<Longrightarrow> walk_expr sid e st = Some (e', st') \<Longrightarrow>
      unnumbered e' = unnumbered e \<and> adds st (occurs (sid, False, e')) st'"
    and "cap_inv st \<Longrightarrow> sid < length (cs_builders st) \<Longrightarrow> (d \<Longrightarrow> block_expr p) \<Longrightarrow> walk_pos sid d p st = Some (p', st') \<Longrightarrow>
      unnumbered p' = unnumbered p \<and> adds st (occurs (sid, d, p')) st'"
    and "cap_inv st \<Longrightarrow> sid < length (cs_builders st) \<Longrightarrow> dissolve_block_into sid b st = Some (b', st') \<Longrightarrow>
      unnumbered_block b' = unnumbered_block b \<and> adds st (occurs (sid, True, BlockE b')) st'"
    and "cap_inv st \<Longrightarrow> sid < length (cs_builders st) \<Longrightarrow> (\<forall>k < length as. dissolves ps (ArgPos (i + k)) \<longrightarrow> block_expr (as ! k)) \<Longrightarrow>
      walk_args sid ps i as st = Some (as', st') \<Longrightarrow>
      map unnumbered as' = map unnumbered as \<and> adds st (arg_occurs sid ps i as') st'"
    and "cap_inv st \<Longrightarrow> sid < length (cs_builders st) \<Longrightarrow> walk_block_body sid es st = Some (es', st') \<Longrightarrow>
      map unnumbered es' = map unnumbered es \<and> adds st (concat (map (\<lambda>e. occurs (sid, False, e)) es')) st'"
proof (induction sid e st and sid d p st and sid b st and sid ps i as st and sid es st
    arbitrary: e' st' and p' st' and b' st' and as' st' and es' st'
    rule: walk_expr_walk_pos_dissolve_block_into_walk_args_walk_block_body.induct, goal_cases)
  case (1 sid n sp st)
  then show ?case by (auto simp: occurs.simps [of "(sid, False, Var n sp)"] kids_def adds_ref)
next
  case (2 sid n e sp st e' st')
  obtain e1 where w: "walk_expr sid e (push_ref sid n st) = Some (e1, st')" "e' = AssignE n e1 sp"
    using 2(4) by (auto simp: bind_eq_Some_conv)
  note h = 2(1) [OF cap_inv_push_ref [OF 2(2,3)] _ w(1)]
  have "occurs (sid, False, e') = [(sid, False, e')] @ occurs (sid, False, e1)" by (subst occurs.simps) (simp add: w(2) kids_def)
  then show ?case using adds_trans [OF adds_ref(2) [OF 2(2,3)]] h 2(3) w(2) by auto
next
  case (3 sid r sel args su sp st e' st')
  let ?ps = "send_positions su sel r args"
  obtain r1 st1 args1 where w: "walk_pos sid (dissolves ?ps RecvPos) r st = Some (r1, st1)" "walk_args sid ?ps 0 args st1 = Some (args1, st')"
    "e' = SendE r1 sel args1 su sp"
    using 3(5) by (auto simp: bind_eq_Some_conv Let_def)
  have h1: "unnumbered r1 = unnumbered r \<and> adds st (occurs (sid, dissolves ?ps RecvPos, r1)) st1"
    by (rule 3(1) [OF refl 3(3,4) dissolves_block(1) w(1)])
  then have i1: "cap_inv st1" "sid < length (cs_builders st1)" using adds_inv 3(4) by blast+
  have h2: "map unnumbered args1 = map unnumbered args \<and> adds st1 (arg_occurs sid ?ps 0 args1) st'"
    using 3(2) [OF refl w(1) refl i1 _ w(2)] dissolves_block(2) by auto
  have ps: "send_positions su sel r1 args1 = ?ps" using h1 h2 by (intro send_positions_unnumbered) auto
  have "adds st [(sid, False, e')] st" using 3(3) by (intro adds_quiet) (simp_all add: w(3) refs_in_def nests_in_def decls_in_def)
  from adds_trans [OF this adds_trans [OF h1 [THEN conjunct2] h2 [THEN conjunct2]]] show ?case using h1 h2 by (simp add: w(3) occurs_send ps)
next
  case (4 sid r segs sp st e' st')
  obtain r1 st1 segs1 where w: "walk_expr sid r st = Some (r1, st1)" "walk_block_body sid segs st1 = Some (segs1, st')" "e' = CascadeE r1 segs1 sp"
    using 4(5) by (auto simp: bind_eq_Some_conv)
  note h1 = 4(1) [OF 4(3,4) w(1)]
  then have i1: "cap_inv st1" "sid < length (cs_builders st1)" using adds_inv 4(4) by blast+
  note h2 = 4(2) [OF w(1) refl i1 w(2)]
  have "occurs (sid, False, e') = [(sid, False, e')] @ occurs (sid, False, r1) @ concat (map (\<lambda>e. occurs (sid, False, e)) segs1)"
    by (subst occurs.simps) (simp add: w(3) kids_def comp_def)
  moreover have "adds st [(sid, False, e')] st" using 4(3) by (intro adds_quiet) (simp_all add: w(3) refs_in_def nests_in_def decls_in_def)
  ultimately show ?case
    using adds_trans [OF _ adds_trans [OF h1 [THEN conjunct2] h2 [THEN conjunct2]]] h1 h2 w(3) by (metis unnumbered.simps(6))
next
  case (5 sid es sp st e' st')
  obtain es1 where w: "walk_block_body sid es st = Some (es1, st')" "e' = DynArray es1 sp" using 5(4) by (auto simp: bind_eq_Some_conv)
  note h = 5(1) [OF 5(2,3) w(1)]
  have "occurs (sid, False, e') = [(sid, False, e')] @ concat (map (\<lambda>e. occurs (sid, False, e)) es1)"
    by (subst occurs.simps) (simp add: w(2) kids_def comp_def)
  moreover have "adds st [(sid, False, e')] st" using 5(2) by (intro adds_quiet) (simp_all add: w(2) refs_in_def nests_in_def decls_in_def)
  ultimately show ?case using adds_trans [OF _ h [THEN conjunct2]] h w(2) by (metis unnumbered.simps(8))
next
  case (6 sid e sp st e' st')
  obtain e1 where w: "walk_expr sid e st = Some (e1, st')" "e' = ReturnE e1 sp" using 6(4) by (auto simp: bind_eq_Some_conv)
  note h = 6(1) [OF 6(2,3) w(1)]
  have "occurs (sid, False, e') = [(sid, False, e')] @ occurs (sid, False, e1)"
    by (subst occurs.simps) (simp add: w(2) kids_def)
  moreover have "adds st [(sid, False, e')] st" using 6(2) by (intro adds_quiet) (simp_all add: w(2) refs_in_def nests_in_def decls_in_def)
  ultimately show ?case using adds_trans [OF _ h [THEN conjunct2]] h w(2) by (metis unnumbered.simps(10))
next
  case (7 sid ps ts body sp i st e' st')
  obtain body1 where w: "walk_block_body (cs_next_id st) body (push_scope sid ps ts st) = Some (body1, st')"
    "e' = BlockE (BlockNode ps ts body1 sp (cs_next_id st))" using 7(4) by (auto simp: bind_eq_Some_conv Let_def)
  have "cs_next_id st < length (cs_builders (push_scope sid ps ts st))" using 7(2) by (simp add: cap_inv_def)
  note h = 7(1) [OF refl cap_inv_push_scope [OF 7(2,3)] this w(1)]
  show ?case using adds_trans [OF adds_scope [OF 7(2,3)] h [THEN conjunct2]] h by (simp add: w(2) occurs_block)
next
  case (11 sid b st p' st')
  then show ?case by (auto simp: bind_eq_Some_conv)
next
  case (22 sid ps ts body sp i st b' st')
  obtain st1 body1 where w: "extend_scope sid ps ts st = Some st1" "walk_block_body sid body st1 = Some (body1, st')" "b' = BlockNode ps ts body1 sp i"
    using 22(4) by (auto simp: bind_eq_Some_conv)
  note a = adds_extend [OF 22(2,3) w(1)]
  note h = 22(1) [OF w(1) adds_inv(1) [OF a] adds_inv(2) [OF a 22(3)] w(2)]
  show ?case using adds_trans [OF a h [THEN conjunct2]] h by (simp add: w(3) occurs_block)
next
  case (24 sid ps i a as st as' st')
  obtain a1 st1 as1 where w: "walk_pos sid (dissolves ps (ArgPos i)) a st = Some (a1, st1)" "walk_args sid ps (Suc i) as st1 = Some (as1, st')" "as' = a1 # as1"
    using 24(6) by (auto simp: bind_eq_Some_conv)
  have blk: "dissolves ps (ArgPos i) \<Longrightarrow> block_expr a" "\<forall>k < length as. dissolves ps (ArgPos (Suc i + k)) \<longrightarrow> block_expr (as ! k)"
    using 24(5) [rule_format, of 0] 24(5) [rule_format, of "Suc k" for k] by auto
  note h1 = 24(1) [OF 24(3,4) blk(1) w(1)]
  then have i1: "cap_inv st1" "sid < length (cs_builders st1)" using adds_inv 24(4) by blast+
  note h2 = 24(2) [OF w(1) refl i1 blk(2) w(2)]
  show ?case using adds_trans [OF h1 [THEN conjunct2] h2 [THEN conjunct2]] h1 h2 by (simp add: w(3) arg_occurs_Cons)
next
  case (26 sid e es st es' st')
  obtain e1 st1 es1 where w: "walk_expr sid e st = Some (e1, st1)" "walk_block_body sid es st1 = Some (es1, st')" "es' = e1 # es1"
    using 26(5) by (auto simp: bind_eq_Some_conv)
  note h1 = 26(1) [OF 26(3,4) w(1)]
  then have i1: "cap_inv st1" "sid < length (cs_builders st1)" using adds_inv 26(4) by blast+
  note h2 = 26(2) [OF w(1) refl i1 w(2)]
  show ?case using adds_trans [OF h1 [THEN conjunct2] h2 [THEN conjunct2]] h1 h2 by (simp add: w(3))
qed (auto simp: block_expr_def arg_occurs_def adds_none occurs.simps [of "(s, d, SelfRef sp)" for s d sp] occurs.simps [of "(s, d, Lit l sp)" for s d l sp]
     occurs.simps [of "(s, d, CascadeRcvr sp)" for s d sp] kids_def intro!: adds_quiet simp: refs_in_def nests_in_def decls_in_def)


text \<open>The lexical structure of a method whose blocks carry their scope numbers; the method is scope 0.\<close>

definition references :: "method_node \<Rightarrow> (nat \<times> utext) list" where
  "references m = refs_in (occurrences (mn_body m))"

definition nesting :: "method_node \<Rightarrow> (nat \<times> nat) list" where
  "nesting m = nests_in (occurrences (mn_body m))"

definition declared :: "method_node \<Rightarrow> nat \<Rightarrow> utext list" where
  "declared m i = (if i = 0 then mn_params m @ mn_temps m else []) @ decls_in (occurrences (mn_body m)) i"

definition binds :: "method_node \<Rightarrow> nat \<Rightarrow> utext \<Rightarrow> nat \<Rightarrow> nat list \<Rightarrow> bool" where
  "binds m = bound (map_of (nesting m)) (\<lambda>i. set (declared m i))"

lemma map_of_upt: "map fst ps = [a..<a + length ps] \<Longrightarrow> map_of ps s = (if a \<le> s \<and> s < a + length ps then Some (snd (ps ! (s - a))) else None)"
proof (induction ps arbitrary: a)
  case (Cons p ps)
  have "[a..<a + length (p # ps)] = a # [Suc a..<Suc a + length ps]" by (simp add: upt_conv_Cons del: upt_Suc)
  then have "fst p = a" "map fst ps = [Suc a..<Suc a + length ps]" using Cons.prems by (simp_all del: upt_Suc)
  then show ?case using Cons.IH [of "Suc a"] by (cases p) (auto simp: nth_Cons' Suc_diff_Suc)
qed simp

lemma walk_lexical:
  assumes "walk_method m = Some (body, st)"
  defines "m' \<equiv> m\<lparr>mn_body := body\<rparr>"
  shows "map unnumbered body = map unnumbered (mn_body m)" "cs_refs st = references m'" "map fst (nesting m') = [1..<length (cs_builders st)]"
    "map bld_parent (cs_builders st) = None # map (\<lambda>n. Some (snd n)) (nesting m')" "bpar (cs_builders st) = map_of (nesting m')"
    "names_at (cs_builders st) i = declared m' i" "bnames (cs_builders st) = (\<lambda>i. set (declared m' i))"
proof -
  let ?st = "\<lparr>cs_builders = [method_scope m], cs_next_id = 1, cs_refs = []\<rparr>"
  have a: "map unnumbered body = map unnumbered (mn_body m) \<and> adds ?st (occurrences body) st"
    unfolding occurrences_def using assms(1) by (intro walk_adds(5) cap_inv_start) (simp_all add: walk_method_def)
  then show s: "map unnumbered body = map unnumbered (mn_body m)" "cs_refs st = references m'" "map fst (nesting m') = [1..<length (cs_builders st)]"
    "map bld_parent (cs_builders st) = None # map (\<lambda>n. Some (snd n)) (nesting m')"
    by (simp_all add: adds_def references_def nesting_def m'_def method_scope_def)
  show n: "names_at (cs_builders st) i = declared m' i" for i
  proof -
    have "names_at (cs_builders st) i = names_at [method_scope m] i @ decls_in (occurrences body) i" using a by (simp add: adds_def)
    moreover have "names_at [method_scope m] i = (if i = 0 then mn_params m @ mn_temps m else [])" by (simp add: names_at_def method_scope_def new_scope_names_def)
    ultimately show ?thesis by (simp add: declared_def m'_def)
  qed
  have len: "length (cs_builders st) = Suc (length (nesting m'))" using arg_cong [OF s(4), of length] by simp
  have "map fst (nesting m') = [1..<1 + length (nesting m')]" using s(3) len by simp
  note mo = map_of_upt [OF this]
  have "map_of (nesting m') i = bpar (cs_builders st) i" for i
    unfolding mo using arg_cong [OF s(4), of "\<lambda>xs. xs ! i"] len by (cases i) (auto simp: bpar_def)
  then show "bpar (cs_builders st) = map_of (nesting m')" by (intro ext) simp
  show "bnames (cs_builders st) = (\<lambda>i. set (declared m' i))"
    by (rule ext) (simp add: n [symmetric] names_at_def bnames_def)
qed

subsection \<open>Capture analysis is exact\<close>

lemma info_of_parts [simp]:
  "si_parent (info_of b cc) = bld_parent b" "si_is_method (info_of b cc) = bld_is_method b" "si_argc (info_of b cc) = bld_argc b"
  "map fst (si_vars (info_of b cc)) = bld_names b" "length (si_vars (info_of b cc)) = length (bld_names b)"
  "si_captures_ctx (info_of b cc) = cc" "si_has_ctx (info_of b cc) \<longleftrightarrow> 0 < si_nctx (info_of b cc)"
  "j < length (bld_names b) \<Longrightarrow> si_vars (info_of b cc) ! j = (bld_names b ! j, slot_of (bld_argc b) (bld_captured b) j)"
  by (simp_all add: info_of_def Let_def comp_def map_nth)

lemma marked_parts [simp]:
  "bld_parent (marked st i) = bld_parent (cs_builders st ! i)" "bld_is_method (marked st i) = bld_is_method (cs_builders st ! i)"
  "bld_argc (marked st i) = bld_argc (cs_builders st ! i)" "bld_names (marked st i) = bld_names (cs_builders st ! i)"
  "bld_captured (marked st i) = map (captured_in st i) [0..<length (bld_names (cs_builders st ! i))]"
  by (simp_all add: marked_def Let_def)

lemma slot_of_disjoint:
  assumes "k < j" "j < length cs"
  shows "vs_frame_slot (slot_of argc cs j) \<noteq> None \<Longrightarrow> vs_frame_slot (slot_of argc cs k) \<noteq> vs_frame_slot (slot_of argc cs j)"
    and "vs_ctx_slot (slot_of argc cs j) \<noteq> None \<Longrightarrow> vs_ctx_slot (slot_of argc cs k) \<noteq> vs_ctx_slot (slot_of argc cs j)"
  using frame_rank_mono [of argc k j cs] ctx_rank_mono [of k j cs] assms by (auto simp: slot_of_def split: if_splits)

lemma slot_of_range:
  assumes "j < length cs"
  shows "cs ! j \<Longrightarrow> ctx_rank cs j < length (filter id cs)"
    and "argc \<le> j \<Longrightarrow> \<not> cs ! j \<Longrightarrow> frame_rank argc cs j < length (filter Not (drop argc cs))"
  using ctx_rank_mono [of j "length cs" cs] frame_rank_mono [of argc j "length cs" cs] assms
  by (simp_all add: ctx_rank_def frame_rank_def)

lemma filter_id_pos: "0 < length (filter id cs) \<longleftrightarrow> (\<exists>j < length cs. cs ! j)"
proof -
  have "0 < length (filter id cs) \<longleftrightarrow> True \<in> set cs" by (induction cs) auto
  then show ?thesis by (metis in_set_conv_nth)
qed

lemma analyzed_lexical:
  assumes "scopes = map (\<lambda>i. info_of (marked st i) (relays st i)) [0..<length (cs_builders st)]"
  shows "spar scopes = bpar (cs_builders st)" "snames scopes = bnames (cs_builders st)"
proof -
  show "spar scopes = bpar (cs_builders st)" by (rule ext) (simp add: assms spar_def bpar_def)
  have "fst ` set (si_vars (info_of b cc)) = set (bld_names b)" for b cc
    by (metis info_of_parts(4) list.set_map)
  then show "snames scopes = bnames (cs_builders st)" by (intro ext) (simp add: assms snames_def bnames_def)
qed

lemma analyzed:
  assumes "analyze m = Some (m', scopes)"
  shows "\<exists>body. m' = m\<lparr>mn_body := body\<rparr> \<and> map unnumbered body = map unnumbered (mn_body m)"
    "map fst (nesting m') = [1..<length scopes]" "map si_parent scopes = None # map (\<lambda>n. Some (snd n)) (nesting m')"
    "i < length scopes \<Longrightarrow> map fst (si_vars (scopes ! i)) = declared m' i"
    "i < length scopes \<Longrightarrow> j < length (declared m' i) \<Longrightarrow> vs_captured (snd (si_vars (scopes ! i) ! j)) \<longleftrightarrow>
       (\<exists>(s, x) \<in> set (references m'). \<exists>l. l \<noteq> [] \<and> binds m' s x i l \<and> name_position x (declared m' i) = Some j)"
    "i < length scopes \<Longrightarrow> si_captures_ctx (scopes ! i) \<longleftrightarrow> (\<exists>(s, x) \<in> set (references m'). \<exists>t l. binds m' s x t l \<and> i \<in> set l)"
    "binds m' = bound (spar scopes) (snames scopes)" "downward (spar scopes)"
proof -
  obtain body st where w: "walk_method m = Some (body, st)" using walk_method_total by metis
  let ?scopes = "map (\<lambda>i. info_of (marked st i) (relays st i)) [0..<length (cs_builders st)]"
  have m': "m' = m\<lparr>mn_body := body\<rparr>" and scopes: "scopes = ?scopes" using analyze_spec(3) [OF w] assms by auto
  note lex = walk_lexical [OF w, folded m']
  have names: "bld_names (cs_builders st ! i) = declared m' i" if "i < length (cs_builders st)" for i
    using lex(6) [of i] that by (simp add: names_at_def)
  have captured: "captured_in st i j \<longleftrightarrow> (\<exists>(s, x) \<in> set (references m'). \<exists>l. l \<noteq> [] \<and> binds m' s x i l \<and> name_position x (declared m' i) = Some j)"
    if "i < length (cs_builders st)" for i j
    by (simp add: captured_in_def bind_marks_def lex(2,5,7) binds_def names [OF that] case_prod_unfold)
  have relayed: "relays st i \<longleftrightarrow> (\<exists>(s, x) \<in> set (references m'). \<exists>t l. binds m' s x t l \<and> i \<in> set l)" for i
    by (simp add: relays_def bind_chain_def lex(2,5,7) binds_def case_prod_unfold)
  show "\<exists>body. m' = m\<lparr>mn_body := body\<rparr> \<and> map unnumbered body = map unnumbered (mn_body m)" using m' lex(1) by blast
  show "map fst (nesting m') = [1..<length scopes]" by (simp add: lex(3) scopes)
  have "map si_parent ?scopes = map bld_parent (cs_builders st)" by (intro nth_equalityI) simp_all
  then show "map si_parent scopes = None # map (\<lambda>n. Some (snd n)) (nesting m')" by (simp add: scopes lex(4))
  show "map fst (si_vars (scopes ! i)) = declared m' i" if "i < length scopes" using that by (simp add: scopes names)
  show "vs_captured (snd (si_vars (scopes ! i) ! j)) \<longleftrightarrow>
      (\<exists>(s, x) \<in> set (references m'). \<exists>l. l \<noteq> [] \<and> binds m' s x i l \<and> name_position x (declared m' i) = Some j)"
    if "i < length scopes" "j < length (declared m' i)"
    using that by (simp add: scopes names captured slot_of_def)
  show "si_captures_ctx (scopes ! i) \<longleftrightarrow> (\<exists>(s, x) \<in> set (references m'). \<exists>t l. binds m' s x t l \<and> i \<in> set l)" if "i < length scopes"
    using that by (simp add: scopes relayed)
  show "binds m' = bound (spar scopes) (snames scopes)" by (simp add: binds_def analyzed_lexical [OF scopes] lex(5,7))
  have "builders_ok (cs_builders st)" using analyze_spec(1) [OF w] by (simp add: cap_inv_def)
  then show "downward (spar scopes)" by (simp add: analyzed_lexical(1) [OF scopes] bpar_downward)
qed


lemma storage_slots:
  assumes "analyze m = Some (m', scopes)" "i < length scopes"
  shows "\<forall>j < length (si_vars (scopes ! i)). let s = scopes ! i; v = snd (si_vars s ! j) in
        (j < si_argc s \<longrightarrow> vs_frame_slot v = Some j) \<and>
        (if vs_captured v then (\<exists>c. vs_ctx_slot v = Some c \<and> c < si_nctx s) \<and> (si_argc s \<le> j \<longrightarrow> vs_frame_slot v = None)
         else vs_ctx_slot v = None \<and> (\<exists>f. vs_frame_slot v = Some f \<and> f < si_argc s + si_frame_temp_count s)) \<and>
        (\<forall>k < j. let u = snd (si_vars s ! k) in
           (vs_frame_slot v \<noteq> None \<longrightarrow> vs_frame_slot u \<noteq> vs_frame_slot v) \<and> (vs_ctx_slot v \<noteq> None \<longrightarrow> vs_ctx_slot u \<noteq> vs_ctx_slot v))"
    (is "\<forall>j < _. ?ok j")
    and "si_has_ctx (scopes ! i) \<longleftrightarrow> (\<exists>j < length (si_vars (scopes ! i)). vs_captured (snd (si_vars (scopes ! i) ! j)))"
proof -
  obtain body st where w: "walk_method m = Some (body, st)" using walk_method_total by metis
  let ?b = "marked st i"
  have s: "scopes ! i = info_of ?b (relays st i)" using assms analyze_spec(3) [OF w] by auto
  have len: "length (bld_captured ?b) = length (bld_names ?b)" by simp
  have counts: "si_nctx (scopes ! i) = length (filter id (bld_captured ?b))"
    "si_frame_temp_count (scopes ! i) = length (filter Not (drop (bld_argc ?b) (bld_captured ?b)))"
    by (simp_all add: s info_of_def Let_def)
  show "\<forall>j < length (si_vars (scopes ! i)). ?ok j"
  proof (intro allI impI)
    fix j
    assume "j < length (si_vars (scopes ! i))"
    then have j: "j < length (bld_captured ?b)" "j < length (bld_names ?b)" by (simp_all add: s)
    have var: "snd (si_vars (scopes ! i) ! k) = slot_of (bld_argc ?b) (bld_captured ?b) k" if "k \<le> j" for k
      using that j by (simp add: s del: marked_parts)
    show "?ok j"
      using slot_of_range [OF j(1)] slot_of_disjoint [OF _ j(1)]
      by (auto simp: Let_def var counts simp del: marked_parts) (auto simp: slot_of_def s simp del: marked_parts split: if_splits)
  qed
  show "si_has_ctx (scopes ! i) \<longleftrightarrow> (\<exists>j < length (si_vars (scopes ! i)). vs_captured (snd (si_vars (scopes ! i) ! j)))"
    using filter_id_pos [of "bld_captured ?b"] len by (auto simp: s info_of_def Let_def slot_of_def simp del: marked_parts)
qed

text \<open>An occurrence in a nested block of a variable of an enclosing scope resolves to that scope's context.\<close>

lemma outer_occurrence:
  assumes "analyze m = Some (m', scopes)" "(r, x) \<in> set (references m')" "binds m' r x t l" "l \<noteq> []"
  shows "\<exists>j c. name_position x (declared m' t) = Some j \<and> t < length scopes \<and> vs_captured (snd (si_vars (scopes ! t) ! j)) \<and> c < si_nctx (scopes ! t) \<and>
    vs_ctx_slot (snd (si_vars (scopes ! t) ! j)) = Some c \<and> resolve_name scopes r x = Some (Some (CapturedSlot (hops scopes l mod 256) (c mod 256)))"
proof -
  note an = analyzed [OF assms(1)]
  have b: "bound (spar scopes) (snames scopes) r x t l" using assms(3) by (simp add: an(7))
  then have t: "t < length scopes" "x \<in> fst ` set (si_vars (scopes ! t))" by (auto simp: bound_def snames_def split: if_splits)
  then have "x \<in> set (declared m' t)" using an(4) by (metis list.set_map)
  then obtain j where j: "name_position x (declared m' t) = Some j" by (simp add: name_position_def)
  then have lt: "j < length (declared m' t)" by (rule name_position_less)
  have cap: "vs_captured (snd (si_vars (scopes ! t) ! j))" using an(5) [OF t(1) lt] assms(2-4) j by blast
  have "j < length (si_vars (scopes ! t))" using lt an(4) [OF t(1)] by (metis length_map)
  then obtain c where c: "vs_ctx_slot (snd (si_vars (scopes ! t) ! j)) = Some c" "c < si_nctx (scopes ! t)"
    using storage_slots(1) [OF assms(1) t(1), rule_format, of j] cap unfolding Let_def by fastforce
  have "find_var x (scopes ! t) = Some (snd (si_vars (scopes ! t) ! j))" by (simp add: find_var_spec an(4) [OF t(1)] j)
  then have res: "resolution scopes x t l = Some (CapturedSlot (hops scopes l mod 256) (c mod 256))" using cap c(1) by (simp add: resolution_def)
  have sp: "\<forall>s p. spar scopes s = Some p \<longrightarrow> p < length scopes"
    using an(8) by (fastforce simp: downward_def spar_def split: if_splits)
  have "r < length scopes" using b assms(4) by (cases l) (auto simp: bound_cons spar_def split: if_splits)
  then have "resolve_name scopes r x = map_option Some (resolution scopes x t l)" by (rule resolve_name_spec(1) [OF an(8) sp _ b])
  then show ?thesis using res j t(1) cap c by auto
qed

text \<open>
  C35. The storage of a scope is assigned without collisions and in range: a parameter keeps its argument position, an
  uncaptured variable has a frame slot below \<open>argc + frame_temp_count\<close>, a captured one a context slot below \<open>nctx\<close>; two different
  variables never share a frame slot, nor a context slot; a temporary has one kind of storage only; and the scope has a context exactly when one of its variables is captured.
\<close>
theorem storage_disjoint:
  assumes "analyze m = Some (m', scopes)" "i < length scopes"
  shows "(\<forall>j < length (si_vars (scopes ! i)). let s = scopes ! i; v = snd (si_vars s ! j) in
        (j < si_argc s \<longrightarrow> vs_frame_slot v = Some j) \<and>
        (if vs_captured v then (\<exists>c. vs_ctx_slot v = Some c \<and> c < si_nctx s) \<and> (si_argc s \<le> j \<longrightarrow> vs_frame_slot v = None)
         else vs_ctx_slot v = None \<and> (\<exists>f. vs_frame_slot v = Some f \<and> f < si_argc s + si_frame_temp_count s)) \<and>
        (\<forall>k < j. let u = snd (si_vars s ! k) in
           (vs_frame_slot v \<noteq> None \<longrightarrow> vs_frame_slot u \<noteq> vs_frame_slot v) \<and> (vs_ctx_slot v \<noteq> None \<longrightarrow> vs_ctx_slot u \<noteq> vs_ctx_slot v))) \<and>
     (si_has_ctx (scopes ! i) \<longleftrightarrow> (\<exists>j < length (si_vars (scopes ! i)). vs_captured (snd (si_vars (scopes ! i) ! j))))"
  by (rule conjI [OF storage_slots [OF assms]])

text \<open>The method \<open>m: a | b c | [:x | [a. x]]. c := b\<close>.\<close>

definition cap_demo_span :: src_span where
  "cap_demo_span = \<lparr>sp_line = 0, sp_col = 0\<rparr>"

definition cap_demo :: method_node where
  "cap_demo = \<lparr>pattern_selector = ustr ''m:'', mn_params = [ustr ''a''], mn_primitive = None, mn_ffi = None, mn_temps = [ustr ''b'', ustr ''c''],
     mn_body = [BlockE (BlockNode [ustr ''x''] []
         [BlockE (BlockNode [] [] [Var (ustr ''a'') cap_demo_span, Var (ustr ''x'') cap_demo_span] cap_demo_span 0)] cap_demo_span 0),
       AssignE (ustr ''c'') (Var (ustr ''b'') cap_demo_span) cap_demo_span],
     mn_class_side = False, mn_span = cap_demo_span\<rparr>"

definition cap_demo_scopes :: "scope_info list" where
  "cap_demo_scopes = [
     \<lparr>si_parent = None, si_is_method = True, si_argc = 1, si_vars = [
        (ustr ''a'', \<lparr>vs_captured = True, vs_frame_slot = Some 0, vs_ctx_slot = Some 0\<rparr>),
        (ustr ''b'', \<lparr>vs_captured = False, vs_frame_slot = Some 1, vs_ctx_slot = None\<rparr>),
        (ustr ''c'', \<lparr>vs_captured = False, vs_frame_slot = Some 2, vs_ctx_slot = None\<rparr>)],
      si_nctx = 1, si_frame_temp_count = 2, si_has_ctx = True, si_captures_ctx = False\<rparr>,
     \<lparr>si_parent = Some 0, si_is_method = False, si_argc = 1, si_vars = [
        (ustr ''x'', \<lparr>vs_captured = True, vs_frame_slot = Some 0, vs_ctx_slot = Some 0\<rparr>)],
      si_nctx = 1, si_frame_temp_count = 0, si_has_ctx = True, si_captures_ctx = True\<rparr>,
     \<lparr>si_parent = Some 1, si_is_method = False, si_argc = 0, si_vars = [],
      si_nctx = 0, si_frame_temp_count = 0, si_has_ctx = False, si_captures_ctx = True\<rparr>]"

lemma cap_demo_analyze:
  obtains m' where "analyze cap_demo = Some (m', cap_demo_scopes)"
  by (rule that, code_simp)

theorem storage_disjoint_witness:
  "\<exists>m'. analyze cap_demo = Some (m', cap_demo_scopes) \<and> si_has_ctx (cap_demo_scopes ! 0) \<and>
     (\<exists>j < length (si_vars (cap_demo_scopes ! 0)). vs_captured (snd (si_vars (cap_demo_scopes ! 0) ! j)))"
proof -
  obtain m' where a: "analyze cap_demo = Some (m', cap_demo_scopes)" by (rule cap_demo_analyze)
  have "0 < length cap_demo_scopes" "si_has_ctx (cap_demo_scopes ! 0)" by (simp_all add: cap_demo_scopes_def)
  then show ?thesis using a storage_disjoint [OF a, of 0] by blast
qed


end
