(* ===== verification/Contexts.thy ===== *)
theory Contexts
  imports Capture Compiled_Method
begin

text \<open>
  Contexts at run time (\<open>src/src/interpreter/blocks.rs\<close>, \<open>src/src/interpreter/mod.rs\<close>, \<open>src/src/oops/context.rs\<close>) and the agreement
  of the interpreter with capture analysis. Modelled is the part of an activation that concerns contexts. A context reference is an index into the list of contexts ever
  allocated, \<open>None\<close> is nil. The compiled block of a scope carries the flags \<open>has_ctx\<close>, \<open>captures_ctx\<close> and \<open>nctx\<close> of
  its \<open>ScopeInfo\<close> (\<open>set_flags\<close> in \<open>emit_block_literal\<close> and \<open>compile_method_inner\<close>), so the operations take that record.
  \<open>af_lex\<close> and \<open>cl_frame\<close> are ghosts: the frame whose code made the closure. A return is no step: it changes neither contexts nor closures.
\<close>

record 'v ctx_obj =
  home_hint :: "nat option"
  ctx_vals :: "'v option list"

definition alloc_context :: "nat \<Rightarrow> 'v ctx_obj list \<Rightarrow> nat \<times> 'v ctx_obj list" where
  "alloc_context n cs = (length cs, cs @ [\<lparr>home_hint = None, ctx_vals = replicate n None\<rparr>])"

text \<open>\<open>maybe_alloc_context\<close>: the frame's context slot after the call, and the contexts; \<open>cur\<close> is what the slot held.\<close>

definition maybe_alloc_context :: "scope_info \<Rightarrow> nat option \<Rightarrow> nat option \<Rightarrow> 'v ctx_obj list \<Rightarrow> nat option \<times> 'v ctx_obj list" where
  "maybe_alloc_context blk enclosing cur cs =
     (if \<not> si_has_ctx blk then (cur, cs)
      else let (k, cs) = alloc_context (si_nctx blk) cs
           in (Some k, cs[k := (cs ! k)\<lparr>home_hint := enclosing\<rparr>]))"

record 'v act_frame =
  af_scope :: nat
  af_context :: "nat option"
  af_receiver :: 'v
  af_stamp :: nat
  af_fp :: u64
  af_closure :: "nat option"
  af_lex :: "nat option"

definition af_serial :: "'v act_frame \<Rightarrow> u32" where
  "af_serial fr = of_nat (af_stamp fr)"

record 'v closure =
  cl_scope :: nat
  cl_receiver :: 'v
  cl_context :: "nat option"
  cl_home :: oop
  cl_frame :: nat

record 'v rt_state =
  rt_contexts :: "'v ctx_obj list"
  rt_frames :: "'v act_frame list"
  rt_closures :: "'v closure list"
  rt_next_serial :: nat

definition alloc_frame_serial :: "'v rt_state \<Rightarrow> nat \<times> 'v rt_state" where
  "alloc_frame_serial rt = (rt_next_serial rt, rt\<lparr>rt_next_serial := rt_next_serial rt + 1\<rparr>)"

text \<open>
  \<open>push_frame\<close> and \<open>activate_entry\<close>: a method's frame at \<open>fp\<close>, its context slot nil until the context is allocated, the
  receiver the one below the arguments.
\<close>

definition activate_entry :: "scope_info list \<Rightarrow> u64 \<Rightarrow> 'v \<Rightarrow> 'v rt_state \<Rightarrow> 'v rt_state" where
  "activate_entry scopes fp receiver rt =
     (let (serial, rt) = alloc_frame_serial rt;
          (c, cs) = maybe_alloc_context (scopes ! 0) None None (rt_contexts rt)
      in rt\<lparr>rt_contexts := cs, rt_frames := rt_frames rt @ [\<lparr>af_scope = 0, af_context = c, af_receiver = receiver, af_stamp = serial,
           af_fp = fp, af_closure = None, af_lex = None\<rparr>]\<rparr>)"

text \<open>
  \<open>home_ref_for_new_closure\<close>: in a block's frame the home of the closure that was activated, in a method's frame that frame.
\<close>

definition home_ref_for_new_closure :: "scope_info list \<Rightarrow> nat \<Rightarrow> 'v rt_state \<Rightarrow> oop option" where
  "home_ref_for_new_closure scopes f rt =
     (let fr = rt_frames rt ! f
      in if \<not> si_is_method (scopes ! af_scope fr)
         then do { c \<leftarrow> af_closure fr; cl \<leftarrow> slice_get (rt_closures rt) c; Some (cl_home cl) }
         else pack_home_ref \<lparr>hr_proc = 0, hr_serial = af_serial fr, hr_fp = af_fp fr\<rparr>)"

definition make_closure :: "scope_info list \<Rightarrow> nat \<Rightarrow> nat \<Rightarrow> 'v rt_state \<Rightarrow> 'v rt_state option" where
  "make_closure scopes f sid rt = do {
     let current = rt_frames rt ! f;
     home \<leftarrow> home_ref_for_new_closure scopes f rt;
     Some (rt\<lparr>rt_closures := rt_closures rt @ [\<lparr>cl_scope = sid, cl_receiver = af_receiver current,
       cl_context = (if si_captures_ctx (scopes ! sid) then af_context current else None), cl_home = home, cl_frame = f\<rparr>]\<rparr>)
   }"

text \<open>\<open>activate_block_interp\<close>; \<open>None\<close> is the failure of the primitive on a wrong number of arguments.\<close>

definition activate_block_interp :: "scope_info list \<Rightarrow> u64 \<Rightarrow> nat \<Rightarrow> nat \<Rightarrow> 'v rt_state \<Rightarrow> 'v rt_state option" where
  "activate_block_interp scopes fp c n_args rt =
     (let cl = rt_closures rt ! c; blk = scopes ! cl_scope cl
      in if si_argc blk \<noteq> n_args then None
         else
           let (serial, rt) = alloc_frame_serial rt;
               enclosing = (if si_captures_ctx blk then cl_context cl else None);
               (ctx, cs) = (if si_has_ctx blk then maybe_alloc_context blk enclosing None (rt_contexts rt) else (enclosing, rt_contexts rt))
           in Some (rt\<lparr>rt_contexts := cs, rt_frames := rt_frames rt @ [\<lparr>af_scope = cl_scope cl, af_context = ctx, af_receiver = cl_receiver cl,
                af_stamp = serial, af_fp = fp, af_closure = Some c, af_lex = Some (cl_frame cl)\<rparr>]\<rparr>))"

primrec ctx_temp_walk :: "'v ctx_obj list \<Rightarrow> nat option \<Rightarrow> nat \<Rightarrow> nat option" where
  "ctx_temp_walk cs c 0 = do { k \<leftarrow> c; rust_assert (k < length cs); Some k }"
| "ctx_temp_walk cs c (Suc d) = do { k \<leftarrow> c; ctx \<leftarrow> slice_get cs k; ctx_temp_walk cs (home_hint ctx) d }"

definition op_push_ctx_temp :: "nat \<Rightarrow> nat \<Rightarrow> nat \<Rightarrow> 'v rt_state \<Rightarrow> 'v option option" where
  "op_push_ctx_temp f depth idx rt = do {
     k \<leftarrow> ctx_temp_walk (rt_contexts rt) (af_context (rt_frames rt ! f)) depth;
     slice_get (ctx_vals (rt_contexts rt ! k)) idx
   }"

definition op_store_ctx_temp_pop :: "nat \<Rightarrow> nat \<Rightarrow> nat \<Rightarrow> 'v option \<Rightarrow> 'v rt_state \<Rightarrow> 'v rt_state option" where
  "op_store_ctx_temp_pop f depth idx v rt = do {
     k \<leftarrow> ctx_temp_walk (rt_contexts rt) (af_context (rt_frames rt ! f)) depth;
     let ctx = rt_contexts rt ! k;
     rust_assert (idx < length (ctx_vals ctx));
     Some (rt\<lparr>rt_contexts := (rt_contexts rt)[k := ctx\<lparr>ctx_vals := (ctx_vals ctx)[idx := v]\<rparr>]\<rparr>)
   }"

text \<open>
  The runs of a compiled method: it is entered, a frame makes a closure of a block written in its own scope, a closure is
  activated, a context variable is stored, another method's frame takes a serial, in any order and any number of times.
\<close>

inductive running :: "scope_info list \<Rightarrow> 'v rt_state \<Rightarrow> bool" for scopes where
  run_start: "running scopes \<lparr>rt_contexts = [], rt_frames = [], rt_closures = [], rt_next_serial = n\<rparr>"
| run_other: "running scopes rt \<Longrightarrow> running scopes (snd (alloc_frame_serial rt))"
| run_enter: "running scopes rt \<Longrightarrow> running scopes (activate_entry scopes fp receiver rt)"
| run_closure: "running scopes rt \<Longrightarrow> f < length (rt_frames rt) \<Longrightarrow> spar scopes sid = Some (af_scope (rt_frames rt ! f)) \<Longrightarrow>
     make_closure scopes f sid rt = Some rt' \<Longrightarrow> running scopes rt'"
| run_activate: "running scopes rt \<Longrightarrow> c < length (rt_closures rt) \<Longrightarrow> activate_block_interp scopes fp c n_args rt = Some rt' \<Longrightarrow> running scopes rt'"
| run_store: "running scopes rt \<Longrightarrow> f < length (rt_frames rt) \<Longrightarrow> op_store_ctx_temp_pop f d i v rt = Some rt' \<Longrightarrow> running scopes rt'"

subsection \<open>The invariant of contexts\<close>

definition lexical :: "'v rt_state \<Rightarrow> nat \<Rightarrow> nat option" where
  "lexical rt f = (if f < length (rt_frames rt) then af_lex (rt_frames rt ! f) else None)"

text \<open>What a frame's own context or alias is linked to.\<close>

definition encloses :: "scope_info list \<Rightarrow> 'v rt_state \<Rightarrow> 'v act_frame \<Rightarrow> nat option" where
  "encloses scopes rt fr = (if si_captures_ctx (scopes ! af_scope fr) then Option.bind (af_lex fr) (\<lambda>p. af_context (rt_frames rt ! p)) else None)"

definition frame_ok :: "scope_info list \<Rightarrow> 'v rt_state \<Rightarrow> nat \<Rightarrow> bool" where
  "frame_ok scopes rt f \<longleftrightarrow> (let fr = rt_frames rt ! f; s = af_scope fr in
     s < length scopes \<and>
     (case af_lex fr of None \<Rightarrow> s = 0 | Some p \<Rightarrow> p < f \<and> spar scopes s = Some (af_scope (rt_frames rt ! p))) \<and>
     (if si_has_ctx (scopes ! s)
      then \<exists>k. af_context fr = Some k \<and> k < length (rt_contexts rt) \<and> home_hint (rt_contexts rt ! k) = encloses scopes rt fr \<and>
        length (ctx_vals (rt_contexts rt ! k)) = si_nctx (scopes ! s)
      else af_context fr = encloses scopes rt fr))"

definition closure_ok :: "scope_info list \<Rightarrow> 'v rt_state \<Rightarrow> 'v closure \<Rightarrow> bool" where
  "closure_ok scopes rt c \<longleftrightarrow> cl_frame c < length (rt_frames rt) \<and> spar scopes (cl_scope c) = Some (af_scope (rt_frames rt ! cl_frame c)) \<and>
     cl_context c = (if si_captures_ctx (scopes ! cl_scope c) then af_context (rt_frames rt ! cl_frame c) else None)"

definition own_contexts :: "scope_info list \<Rightarrow> 'v rt_state \<Rightarrow> nat option list" where
  "own_contexts scopes rt = map af_context (filter (\<lambda>fr. si_has_ctx (scopes ! af_scope fr)) (rt_frames rt))"

definition rt_inv :: "scope_info list \<Rightarrow> 'v rt_state \<Rightarrow> bool" where
  "rt_inv scopes rt \<longleftrightarrow> (\<forall>f < length (rt_frames rt). frame_ok scopes rt f) \<and> (\<forall>c \<in> set (rt_closures rt). closure_ok scopes rt c) \<and>
     distinct (own_contexts scopes rt)"

definition extends :: "'v rt_state \<Rightarrow> 'v rt_state \<Rightarrow> bool" where
  "extends rt rt' \<longleftrightarrow> (\<exists>fs. rt_frames rt' = rt_frames rt @ fs) \<and> length (rt_contexts rt) \<le> length (rt_contexts rt') \<and>
     (\<forall>k < length (rt_contexts rt). home_hint (rt_contexts rt' ! k) = home_hint (rt_contexts rt ! k) \<and>
        length (ctx_vals (rt_contexts rt' ! k)) = length (ctx_vals (rt_contexts rt ! k)))"

lemma extends_nth: "extends rt rt' \<Longrightarrow> f < length (rt_frames rt) \<Longrightarrow> rt_frames rt' ! f = rt_frames rt ! f \<and> f < length (rt_frames rt')"
  by (auto simp: extends_def nth_append)

lemma frame_ok_extends:
  assumes "frame_ok scopes rt f" "f < length (rt_frames rt)" "extends rt rt'"
  shows "frame_ok scopes rt' f"
proof -
  let ?fr = "rt_frames rt ! f"
  have old: "rt_frames rt' ! p = rt_frames rt ! p" if "p \<le> f" for p using that assms extends_nth by force
  then have "encloses scopes rt' ?fr = encloses scopes rt ?fr"
    using assms(1) by (auto simp: encloses_def frame_ok_def Let_def split: option.splits)
  then show ?thesis using assms old by (auto simp: frame_ok_def Let_def extends_def split: option.splits)
qed

lemma closure_ok_extends: "closure_ok scopes rt c \<Longrightarrow> extends rt rt' \<Longrightarrow> closure_ok scopes rt' c"
  using extends_nth [of rt rt' "cl_frame c"] by (auto simp: closure_ok_def)

lemma maybe_alloc_context_spec:
  "maybe_alloc_context blk encl cur cs =
     (if si_has_ctx blk then (Some (length cs), cs @ [\<lparr>home_hint = encl, ctx_vals = replicate (si_nctx blk) None\<rparr>]) else (cur, cs))"
  by (simp add: maybe_alloc_context_def alloc_context_def)

text \<open>A new activation, of a method or of a closure, whose context slot ends up as the code leaves it.\<close>

definition activated :: "scope_info list \<Rightarrow> 'v act_frame \<Rightarrow> 'v rt_state \<Rightarrow> 'v rt_state" where
  "activated scopes fr rt = (let encl = encloses scopes rt fr; s = af_scope fr in
     if si_has_ctx (scopes ! s)
     then rt\<lparr>rt_contexts := rt_contexts rt @ [\<lparr>home_hint = encl, ctx_vals = replicate (si_nctx (scopes ! s)) None\<rparr>],
             rt_frames := rt_frames rt @ [fr\<lparr>af_context := Some (length (rt_contexts rt))\<rparr>], rt_next_serial := rt_next_serial rt + 1\<rparr>
     else rt\<lparr>rt_frames := rt_frames rt @ [fr\<lparr>af_context := encl\<rparr>], rt_next_serial := rt_next_serial rt + 1\<rparr>)"

lemma activate_entry_activated:
  "activate_entry scopes fp receiver rt = activated scopes \<lparr>af_scope = 0, af_context = None, af_receiver = receiver,
     af_stamp = rt_next_serial rt, af_fp = fp, af_closure = None, af_lex = None\<rparr> rt"
  by (simp add: activate_entry_def alloc_frame_serial_def maybe_alloc_context_spec activated_def encloses_def)

lemma activate_block_activated:
  assumes "closure_ok scopes rt (rt_closures rt ! c)" "activate_block_interp scopes fp c n_args rt = Some rt'"
  shows "rt' = activated scopes \<lparr>af_scope = cl_scope (rt_closures rt ! c), af_context = None, af_receiver = cl_receiver (rt_closures rt ! c),
     af_stamp = rt_next_serial rt, af_fp = fp, af_closure = Some c, af_lex = Some (cl_frame (rt_closures rt ! c))\<rparr> rt"
  using assms by (auto simp: activate_block_interp_def alloc_frame_serial_def maybe_alloc_context_spec activated_def encloses_def closure_ok_def Let_def
    split: if_splits)

lemma rt_inv_activated:
  assumes inv: "rt_inv scopes rt" and s: "af_scope fr < length scopes"
    and lx: "case af_lex fr of None \<Rightarrow> af_scope fr = 0 | Some p \<Rightarrow> p < length (rt_frames rt) \<and> spar scopes (af_scope fr) = Some (af_scope (rt_frames rt ! p))"
  shows "rt_inv scopes (activated scopes fr rt)"
proof -
  let ?rt = "activated scopes fr rt"
  have ext: "extends rt ?rt" by (auto simp: extends_def activated_def Let_def nth_append)
  have len: "length (rt_frames ?rt) = Suc (length (rt_frames rt))" by (simp add: activated_def Let_def)
  have new: "frame_ok scopes ?rt (length (rt_frames rt))"
    using s lx by (cases "af_lex fr") (auto simp: frame_ok_def activated_def encloses_def Let_def nth_append)
  have "\<forall>f < length (rt_frames ?rt). frame_ok scopes ?rt f"
    using new frame_ok_extends [OF _ _ ext] inv by (auto simp: len less_Suc_eq rt_inv_def)
  moreover have "\<forall>c \<in> set (rt_closures ?rt). closure_ok scopes ?rt c"
    using closure_ok_extends [OF _ ext] inv by (auto simp: rt_inv_def activated_def Let_def)
  moreover have "distinct (own_contexts scopes ?rt)"
  proof -
    have "Some (length (rt_contexts rt)) \<notin> set (own_contexts scopes rt)"
      using inv by (fastforce simp: own_contexts_def rt_inv_def frame_ok_def Let_def in_set_conv_nth)
    then show ?thesis using inv by (auto simp: own_contexts_def activated_def Let_def rt_inv_def)
  qed
  ultimately show ?thesis by (simp add: rt_inv_def)
qed

lemma ctx_temp_walk_less: "ctx_temp_walk cs c d = Some k \<Longrightarrow> k < length cs"
  by (induction d arbitrary: c) (auto split: bind_splits)

lemma op_store_parts:
  assumes "op_store_ctx_temp_pop f d i v rt = Some rt'"
  shows "extends rt rt'" "rt_frames rt' = rt_frames rt" "rt_closures rt' = rt_closures rt"
  using assms by (auto simp: op_store_ctx_temp_pop_def extends_def Let_def nth_list_update dest: ctx_temp_walk_less split: bind_splits)

lemma spar_less: "spar scopes s = Some p \<Longrightarrow> s < length scopes"
  by (simp add: spar_def split: if_splits)

lemma running_inv: "running scopes rt \<Longrightarrow> scopes \<noteq> [] \<Longrightarrow> rt_inv scopes rt"
proof (induction rule: running.induct)
  case run_start
  then show ?case by (simp add: rt_inv_def own_contexts_def)
next
  case (run_other rt)
  then have "extends rt (snd (alloc_frame_serial rt))" by (simp add: extends_def alloc_frame_serial_def)
  with run_other show ?case using frame_ok_extends closure_ok_extends by (fastforce simp: rt_inv_def own_contexts_def alloc_frame_serial_def)
next
  case (run_enter rt)
  then show ?case by (auto simp: activate_entry_activated intro: rt_inv_activated)
next
  case (run_closure rt f sid rt')
  have ext: "extends rt rt'" using run_closure(4) by (auto simp: extends_def make_closure_def Let_def split: bind_splits)
  have "rt_frames rt' = rt_frames rt" and cls: "set (rt_closures rt') = insert (last (rt_closures rt')) (set (rt_closures rt))"
    using run_closure(4) by (auto simp: make_closure_def Let_def split: bind_splits)
  moreover have "closure_ok scopes rt' (last (rt_closures rt'))"
    using run_closure by (auto simp: make_closure_def closure_ok_def Let_def split: bind_splits)
  ultimately show ?case using run_closure frame_ok_extends [OF _ _ ext] closure_ok_extends [OF _ ext]
    by (simp add: rt_inv_def own_contexts_def)
next
  case (run_activate rt c fp n_args rt')
  then have ok: "rt_inv scopes rt" "closure_ok scopes rt (rt_closures rt ! c)" by (auto simp: rt_inv_def)
  show ?case unfolding activate_block_activated [OF ok(2) run_activate(3)]
    by (rule rt_inv_activated [OF ok(1)]) (use ok(2) in \<open>auto simp: closure_ok_def spar_less\<close>)
next
  case (run_store rt f d i v rt')
  with op_store_parts [OF run_store(3)] show ?case
    by (auto simp: rt_inv_def own_contexts_def intro: frame_ok_extends closure_ok_extends)
qed

subsection \<open>Captured variables are lexical variables\<close>

definition scope_at :: "'v rt_state \<Rightarrow> nat \<Rightarrow> nat" where
  "scope_at rt f = af_scope (rt_frames rt ! f)"

lemma lexical_up_less: "up (lexical rt) f g fl \<Longrightarrow> rt_inv scopes rt \<Longrightarrow> f < length (rt_frames rt) \<Longrightarrow> g < length (rt_frames rt)"
proof (induction rule: up.induct)
  case (up_step s p t l)
  then have "p < s" by (auto simp: rt_inv_def frame_ok_def lexical_def Let_def split: if_splits)
  with up_step show ?case by simp
qed

lemma walk_reaches:
  assumes "up (spar scopes) s t l" "downward (spar scopes)" "rt_inv scopes rt" "f < length (rt_frames rt)" "scope_at rt f = s"
    "\<forall>x \<in> set l. si_captures_ctx (scopes ! x)" "si_has_ctx (scopes ! t)"
  shows "\<exists>g fl k. up (lexical rt) f g fl \<and> map (scope_at rt) fl = l \<and> g < length (rt_frames rt) \<and> scope_at rt g = t \<and>
     af_context (rt_frames rt ! g) = Some k \<and> k < length (rt_contexts rt) \<and> length (ctx_vals (rt_contexts rt ! k)) = si_nctx (scopes ! t) \<and>
     ctx_temp_walk (rt_contexts rt) (af_context (rt_frames rt ! f)) (hops scopes l) = Some k"
  using assms
proof (induction arbitrary: f rule: up.induct)
  case (up_refl s)
  then have "frame_ok scopes rt f" by (simp add: rt_inv_def)
  then obtain k where "af_context (rt_frames rt ! f) = Some k" "k < length (rt_contexts rt)" "length (ctx_vals (rt_contexts rt ! k)) = si_nctx (scopes ! s)"
    using up_refl by (auto simp: frame_ok_def scope_at_def Let_def)
  then show ?case using up_refl
    by (intro exI [of _ f] exI [of _ "[]"] exI [of _ k]) (simp add: up_nil hops_def)
next
  case (up_step s p t l)
  let ?fr = "rt_frames rt ! f"
  have ok: "frame_ok scopes rt f" and s: "af_scope ?fr = s" using up_step.prems by (auto simp: rt_inv_def scope_at_def)
  from ok up_step.hyps(1) obtain q where q: "af_lex ?fr = Some q" "q < f" "scope_at rt q = p"
    using s up_step.prems by (cases "af_lex ?fr") (auto simp: frame_ok_def Let_def scope_at_def downward_def)
  have encl: "encloses scopes rt ?fr = af_context (rt_frames rt ! q)" using q s up_step.prems by (simp add: encloses_def)
  obtain g fl k where g: "up (lexical rt) q g fl" "map (scope_at rt) fl = l" "g < length (rt_frames rt)" "scope_at rt g = t"
      "af_context (rt_frames rt ! g) = Some k" "k < length (rt_contexts rt)" "length (ctx_vals (rt_contexts rt ! k)) = si_nctx (scopes ! t)"
      "ctx_temp_walk (rt_contexts rt) (af_context (rt_frames rt ! q)) (hops scopes l) = Some k"
    using up_step.IH [of q] up_step.prems q by auto
  have "ctx_temp_walk (rt_contexts rt) (af_context ?fr) (hops scopes (s # l)) = Some k"
    using ok g(8) s encl by (auto simp: frame_ok_def hops_def Let_def slice_get_def)
  moreover have "up (lexical rt) f g (f # fl)" using g(1) q(1) up_step.prems by (auto intro: up.up_step simp: lexical_def)
  moreover have "map (scope_at rt) (f # fl) = s # l" using g(2) up_step.prems by simp
  ultimately show ?case using g(3-7) by (intro exI [of _ g] exI [of _ "f # fl"] exI [of _ k] conjI)
qed

text \<open>The abstract environment: the value of slot \<open>c\<close> of the variables of activation \<open>g\<close>.\<close>

definition abs_env :: "scope_info list \<Rightarrow> 'v rt_state \<Rightarrow> nat \<times> nat \<rightharpoonup> 'v option" where
  "abs_env scopes rt = (\<lambda>(g, c). if g < length (rt_frames rt) \<and> si_has_ctx (scopes ! scope_at rt g) \<and> c < si_nctx (scopes ! scope_at rt g)
     then Some (ctx_vals (rt_contexts rt ! the (af_context (rt_frames rt ! g))) ! c) else None)"

lemma own_context_inj:
  assumes "rt_inv scopes rt" "g < length (rt_frames rt)" "h < length (rt_frames rt)" "si_has_ctx (scopes ! scope_at rt g)"
    "si_has_ctx (scopes ! scope_at rt h)" "af_context (rt_frames rt ! g) = af_context (rt_frames rt ! h)"
  shows "g = h"
proof -
  have "distinct (map f (filter P xs)) \<Longrightarrow> i < length xs \<Longrightarrow> j < length xs \<Longrightarrow> P (xs ! i) \<Longrightarrow> P (xs ! j) \<Longrightarrow> f (xs ! i) = f (xs ! j) \<Longrightarrow> i = j"
    for f :: "'v act_frame \<Rightarrow> nat option" and P xs i j
  proof (induction xs arbitrary: i j)
    case (Cons x xs)
    then show ?case by (cases i; cases j) (auto simp: image_iff split: if_splits dest: nth_mem)
  qed simp
  then show ?thesis using assms by (auto simp: rt_inv_def own_contexts_def scope_at_def)
qed

lemma store_abs:
  assumes inv: "rt_inv scopes rt" and f: "f < length (rt_frames rt)"
    and walk: "ctx_temp_walk (rt_contexts rt) (af_context (rt_frames rt ! f)) d = Some k"
    and g: "g < length (rt_frames rt)" "si_has_ctx (scopes ! scope_at rt g)" "af_context (rt_frames rt ! g) = Some k"
      "length (ctx_vals (rt_contexts rt ! k)) = si_nctx (scopes ! scope_at rt g)" "c < si_nctx (scopes ! scope_at rt g)"
  shows "\<exists>rt'. op_store_ctx_temp_pop f d c v rt = Some rt' \<and> rt_frames rt' = rt_frames rt \<and> abs_env scopes rt' = (abs_env scopes rt)((g, c) \<mapsto> v)"
proof -
  let ?rt = "rt\<lparr>rt_contexts := (rt_contexts rt)[k := (rt_contexts rt ! k)\<lparr>ctx_vals := (ctx_vals (rt_contexts rt ! k))[c := v]\<rparr>]\<rparr>"
  have st: "op_store_ctx_temp_pop f d c v rt = Some ?rt" using walk g by (simp add: op_store_ctx_temp_pop_def Let_def)
  have k: "k < length (rt_contexts rt)" using ctx_temp_walk_less [OF walk] .
  have "abs_env scopes ?rt (h, e) = ((abs_env scopes rt)((g, c) \<mapsto> v)) (h, e)" for h e
  proof (cases "h < length (rt_frames rt) \<and> si_has_ctx (scopes ! scope_at rt h)")
    case True
    then have "frame_ok scopes rt h" using inv by (simp add: rt_inv_def)
    then obtain j where j: "af_context (rt_frames rt ! h) = Some j" using True by (auto simp: frame_ok_def scope_at_def Let_def)
    have "j = k \<longleftrightarrow> h = g" using own_context_inj [OF inv, of h g] True g j by auto
    then show ?thesis using True g k j by (auto simp: abs_env_def scope_at_def nth_list_update)
  qed (use g in \<open>auto simp: abs_env_def scope_at_def\<close>)
  then show ?thesis using st by (intro exI [of _ ?rt]) (auto intro!: ext)
qed

lemma up_det: "up par a b l \<Longrightarrow> up par a c l' \<Longrightarrow> length l = length l' \<Longrightarrow> b = c"
proof (induction arbitrary: l' rule: up.induct)
  case (up_step s p t l)
  then show ?case by (cases l') (auto simp: up_cons)
qed (simp add: up_nil)

lemma up_distinct: "up par s t l \<Longrightarrow> downward par \<Longrightarrow> distinct (t # l)"
proof (induction rule: up.induct)
  case (up_step s p t l)
  from up_bounds [OF up_step.hyps(2) up_step.prems] up_step.hyps(1) up_step.prems show ?case
    using up_step.IH by (fastforce simp: downward_def)
qed simp

lemma hops_limit:
  assumes "up (spar scopes) s t l" "downward (spar scopes)" "s < length scopes" "si_has_ctx (scopes ! t)"
  shows "hops scopes l < length (filter si_has_ctx scopes)"
proof -
  let ?A = "{x. x < length scopes \<and> si_has_ctx (scopes ! x)}"
  have b: "t \<le> s \<and> (\<forall>x \<in> set l. t < x \<and> x \<le> s)" using up_bounds assms by blast
  have "distinct (t # filter (\<lambda>x. si_has_ctx (scopes ! x)) l)" using up_distinct assms by simp
  moreover have "set (t # filter (\<lambda>x. si_has_ctx (scopes ! x)) l) \<subseteq> ?A" using b assms(3,4) by auto
  ultimately have "length (t # filter (\<lambda>x. si_has_ctx (scopes ! x)) l) \<le> card ?A"
    using card_mono [of ?A "set (t # filter (\<lambda>x. si_has_ctx (scopes ! x)) l)"] distinct_card by fastforce
  then show ?thesis by (simp add: hops_def length_filter_conv_card)
qed

text \<open>What a resolution to a context slot says of the scopes.\<close>

lemma captured_resolution:
  assumes walk: "walk_method m = Some (body, st)" and an: "analyze m = Some (m', scopes)"
    and ref: "(s, name) \<in> set (cs_refs st)" and res: "resolve_name scopes s name = Some (Some (CapturedSlot d c))"
    and lim: "\<forall>x \<in> set scopes. si_nctx x \<le> METHOD_NCTX_MAX" "length (filter si_has_ctx scopes) \<le> 256"
  obtains t l where "bound (spar scopes) (snames scopes) s name t l" "downward (spar scopes)" "scopes \<noteq> []" "\<forall>x \<in> set l. si_captures_ctx (scopes ! x)"
    "si_has_ctx (scopes ! t)" "d = hops scopes l" "c < si_nctx (scopes ! t)"
proof -
  have scopes: "scopes = map (\<lambda>i. info_of (marked st i) (relays st i)) [0..<length (cs_builders st)]"
    using analyze_spec(3) [OF walk] an by simp
  note lx = analyzed_lexical [OF scopes]
  have inv: "builders_ok (cs_builders st)" "s < length scopes" using analyze_spec(1) [OF walk] ref scopes by (auto simp: cap_inv_def)
  have len: "length scopes = length (cs_builders st)" by (simp add: scopes)
  have dw: "downward (spar scopes)" "\<forall>x p. spar scopes x = Some p \<longrightarrow> p < length scopes"
    unfolding lx(1) len using bpar_downward [OF inv(1)] bpar_less [OF inv(1)] by blast+
  then obtain t l where b: "bound (spar scopes) (snames scopes) s name t l"
    using resolve_name_spec(2) [OF dw inv(2), where name = name] res by fastforce
  have "resolution scopes name t l = Some (CapturedSlot d c)" using resolve_name_spec(1) [OF dw inv(2) b] res by (cases "resolution scopes name t l") auto
  then obtain j v where v: "name_position name (map fst (si_vars (scopes ! t))) = Some j" "v = snd (si_vars (scopes ! t) ! j)" "vs_captured v"
      "\<exists>e. vs_ctx_slot v = Some e \<and> d = hops scopes l mod 256 \<and> c = e mod 256"
    by (auto simp: resolution_def find_var_spec split: bind_splits option.splits if_splits)
  have t: "t < length scopes" using b by (auto simp: bound_def snames_def split: if_splits)
  have j: "j < length (si_vars (scopes ! t))" using name_position_less [OF v(1)] by simp
  note sl = storage_slots [OF an t]
  have ctx: "si_has_ctx (scopes ! t)" using sl(2) j v by blast
  obtain e where e: "vs_ctx_slot v = Some e" "e < si_nctx (scopes ! t)" "d = hops scopes l mod 256" "c = e mod 256"
    using sl(1) j v by (fastforce simp: Let_def)
  have "si_nctx (scopes ! t) \<le> METHOD_NCTX_MAX" using lim(1) t by simp
  then have "e < 256" using e(2) by (simp add: METHOD_NCTX_MAX_def METHOD_FLAGS_NCTX_BITS_def)
  moreover have "hops scopes l < 256" using hops_limit [OF _ dw(1) inv(2) ctx, of l] b lim(2) by (simp add: bound_def)
  moreover have "\<forall>x \<in> set l. si_captures_ctx (scopes ! x)"
  proof
    fix x
    assume x: "x \<in> set l"
    then have "relays st x" using b ref by (force simp: relays_def bind_chain_def lx)
    moreover have "x < length scopes" using up_bounds [of "spar scopes" s t l] b dw(1) inv(2) x by (auto simp: bound_def)
    ultimately show "si_captures_ctx (scopes ! x)" by (simp add: scopes)
  qed
  ultimately show thesis using that b dw(1) ctx e t by force
qed

text \<open>
  C3. Captured variables are lexical variables. Take a reference of a method that capture analysis resolves to a context
  slot, any state its runs can reach, and an activation of the scope the reference is written in. Then following lexical parents from
  that activation leads to exactly one activation of the scope that declares the name, and the interpreter's context
  instructions, with the operands \<open>resolve\<close> gives, read and write the variable of that activation: the load returns its value, the store succeeds
  and changes that variable and no other one of any activation. Assumed is what the operands' widths need: a scope has at most 255 captured
  variables (\<open>check_limits\<close>), and at most 256 scopes of the method have a context.
\<close>
theorem captured_variables_lexical:
  assumes walk: "walk_method m = Some (body, st)" and an: "analyze m = Some (m', scopes)"
    and ref: "(s, name) \<in> set (cs_refs st)" and res: "resolve_name scopes s name = Some (Some (CapturedSlot d c))"
    and run: "running scopes rt" and f: "f < length (rt_frames rt)" "scope_at rt f = s"
    and lim: "\<forall>x \<in> set scopes. si_nctx x \<le> METHOD_NCTX_MAX" "length (filter si_has_ctx scopes) \<le> 256"
  shows "\<exists>!g. \<exists>t l fl. bound (spar scopes) (snames scopes) s name t l \<and> up (lexical rt) f g fl \<and> map (scope_at rt) fl = l \<and> scope_at rt g = t \<and>
     op_push_ctx_temp f d c rt = abs_env scopes rt (g, c) \<and> abs_env scopes rt (g, c) \<noteq> None \<and>
     (\<forall>v. \<exists>rt'. op_store_ctx_temp_pop f d c v rt = Some rt' \<and> rt_frames rt' = rt_frames rt \<and> abs_env scopes rt' = (abs_env scopes rt)((g, c) \<mapsto> v))"
proof -
  obtain t l where b: "bound (spar scopes) (snames scopes) s name t l" "downward (spar scopes)" "scopes \<noteq> []" "\<forall>x \<in> set l. si_captures_ctx (scopes ! x)"
    "si_has_ctx (scopes ! t)" "d = hops scopes l" "c < si_nctx (scopes ! t)"
    by (rule captured_resolution [OF walk an ref res lim])
  have inv: "rt_inv scopes rt" by (rule running_inv [OF run b(3)])
  have up: "up (spar scopes) s t l" using b(1) by (simp add: bound_def)
  obtain g fl k where g: "up (lexical rt) f g fl" "map (scope_at rt) fl = l" "g < length (rt_frames rt)" "scope_at rt g = t"
      "af_context (rt_frames rt ! g) = Some k" "k < length (rt_contexts rt)" "length (ctx_vals (rt_contexts rt ! k)) = si_nctx (scopes ! t)"
      "ctx_temp_walk (rt_contexts rt) (af_context (rt_frames rt ! f)) d = Some k"
    using walk_reaches [OF up b(2) inv f b(4,5)] b(6) by blast
  have env: "abs_env scopes rt (g, c) = Some (ctx_vals (rt_contexts rt ! k) ! c)" using g b(5,7) by (simp add: abs_env_def)
  show ?thesis
  proof (rule ex1I [of _ g])
    have "op_push_ctx_temp f d c rt = abs_env scopes rt (g, c)" using g b(7) by (simp add: op_push_ctx_temp_def env slice_get_def)
    moreover have "\<exists>rt'. op_store_ctx_temp_pop f d c v rt = Some rt' \<and> rt_frames rt' = rt_frames rt \<and> abs_env scopes rt' = (abs_env scopes rt)((g, c) \<mapsto> v)" for v
      by (rule store_abs [OF inv f(1) g(8,3) _ g(5)]) (use g b in auto)
    ultimately show "\<exists>t l fl. bound (spar scopes) (snames scopes) s name t l \<and> up (lexical rt) f g fl \<and> map (scope_at rt) fl = l \<and> scope_at rt g = t \<and>
     op_push_ctx_temp f d c rt = abs_env scopes rt (g, c) \<and> abs_env scopes rt (g, c) \<noteq> None \<and>
     (\<forall>v. \<exists>rt'. op_store_ctx_temp_pop f d c v rt = Some rt' \<and> rt_frames rt' = rt_frames rt \<and> abs_env scopes rt' = (abs_env scopes rt)((g, c) \<mapsto> v))"
      using b(1) g env by auto
  next
    fix g'
    assume "\<exists>t l fl. bound (spar scopes) (snames scopes) s name t l \<and> up (lexical rt) f g' fl \<and> map (scope_at rt) fl = l \<and> scope_at rt g' = t \<and>
     op_push_ctx_temp f d c rt = abs_env scopes rt (g', c) \<and> abs_env scopes rt (g', c) \<noteq> None \<and>
     (\<forall>v. \<exists>rt'. op_store_ctx_temp_pop f d c v rt = Some rt' \<and> rt_frames rt' = rt_frames rt \<and> abs_env scopes rt' = (abs_env scopes rt)((g', c) \<mapsto> v))"
    then obtain t' l' fl' where "bound (spar scopes) (snames scopes) s name t' l'" "up (lexical rt) f g' fl'" "map (scope_at rt) fl' = l'" by blast
    moreover have "l' = l" using bound_unique calculation(1) b(1) by metis
    ultimately show "g' = g" using up_det [OF _ g(1)] g(2) by (metis length_map)
  qed
qed

text \<open>
  The method \<open>m: a | b c | [:x | [a. x]]. c := b\<close> entered, its block made and activated, the inner block made in that activation and
  activated: the inner block's reference to \<open>a\<close> is one hop from its frame's context, and reaches the context of the method's activation.
\<close>

definition cap_demo_rt :: "nat rt_state" where
  "cap_demo_rt = the (do {
     let rt = activate_entry cap_demo_scopes 100 7 \<lparr>rt_contexts = [], rt_frames = [], rt_closures = [], rt_next_serial = 5\<rparr>;
     rt \<leftarrow> make_closure cap_demo_scopes 0 1 rt;
     rt \<leftarrow> activate_block_interp cap_demo_scopes 200 0 1 rt;
     rt \<leftarrow> make_closure cap_demo_scopes 1 2 rt;
     activate_block_interp cap_demo_scopes 300 1 0 rt
   })"

lemma cap_demo_running: "running cap_demo_scopes cap_demo_rt"
proof -
  let ?r0 = "activate_entry cap_demo_scopes 100 7 \<lparr>rt_contexts = [], rt_frames = [], rt_closures = [], rt_next_serial = 5\<rparr> :: nat rt_state"
  obtain r1 r2 r3 where r: "make_closure cap_demo_scopes 0 1 ?r0 = Some r1" "0 < length (rt_frames ?r0) \<and> spar cap_demo_scopes 1 = Some (af_scope (rt_frames ?r0 ! 0))"
      "activate_block_interp cap_demo_scopes 200 0 1 r1 = Some r2" "0 < length (rt_closures r1)"
      "make_closure cap_demo_scopes 1 2 r2 = Some r3" "1 < length (rt_frames r2) \<and> spar cap_demo_scopes 2 = Some (af_scope (rt_frames r2 ! 1))"
      "activate_block_interp cap_demo_scopes 300 1 0 r3 = Some cap_demo_rt" "1 < length (rt_closures r3)"
    by (rule that, code_simp, code_simp, code_simp, code_simp, code_simp, code_simp, code_simp, code_simp)
  have "running cap_demo_scopes ?r0" by (intro run_enter run_start)
  then have "running cap_demo_scopes r1" by (rule run_closure) (use r(1,2) in simp_all)
  then have "running cap_demo_scopes r2" by (rule run_activate [OF _ r(4,3)])
  then have "running cap_demo_scopes r3" by (rule run_closure) (use r(5,6) in simp_all)
  then show ?thesis by (rule run_activate [OF _ r(8,7)])
qed

theorem captured_variables_lexical_witness:
  "\<exists>body st. walk_method cap_demo = Some (body, st) \<and> (2, ustr ''a'') \<in> set (cs_refs st) \<and>
     resolve_name cap_demo_scopes 2 (ustr ''a'') = Some (Some (CapturedSlot 1 0)) \<and>
     (\<exists>g. scope_at cap_demo_rt g = 0 \<and> op_push_ctx_temp 2 1 0 cap_demo_rt = abs_env cap_demo_scopes cap_demo_rt (g, 0))"
proof -
  obtain m' where an: "analyze cap_demo = Some (m', cap_demo_scopes)" by (rule cap_demo_analyze)
  obtain body st where w: "walk_method cap_demo = Some (body, st)" "(2, ustr ''a'') \<in> set (cs_refs st)"
    by (rule that, code_simp, code_simp)
  have r: "resolve_name cap_demo_scopes 2 (ustr ''a'') = Some (Some (CapturedSlot 1 0))" by code_simp
  have f: "2 < length (rt_frames cap_demo_rt)" "scope_at cap_demo_rt 2 = 2" by code_simp+
  have lim: "\<forall>x \<in> set cap_demo_scopes. si_nctx x \<le> METHOD_NCTX_MAX" "length (filter si_has_ctx cap_demo_scopes) \<le> 256" by code_simp+
  obtain g t l where g: "bound (spar cap_demo_scopes) (snames cap_demo_scopes) 2 (ustr ''a'') t l" "scope_at cap_demo_rt g = t"
      "op_push_ctx_temp 2 1 0 cap_demo_rt = abs_env cap_demo_scopes cap_demo_rt (g, 0)"
    using captured_variables_lexical [OF w(1) an w(2) r cap_demo_running f lim] by blast
  have "bound (spar cap_demo_scopes) (snames cap_demo_scopes) 2 (ustr ''a'') 0 [2, 1]"
    by (simp add: bound_cons bound_nil spar_def snames_def cap_demo_scopes_def) code_simp
  then have "t = 0" using g(1) bound_unique by blast
  then show ?thesis using w r g by blast
qed

subsection \<open>The home of a closure\<close>

definition scopes_ok :: "scope_info list \<Rightarrow> bool" where
  "scopes_ok scopes \<longleftrightarrow> scopes \<noteq> [] \<and> downward (spar scopes) \<and> (\<forall>s < length scopes. si_is_method (scopes ! s) \<longleftrightarrow> s = 0)"

lemma analyze_scopes_ok:
  assumes "analyze m = Some (m', scopes)"
  shows "scopes_ok scopes"
proof -
  obtain body st where w: "walk_method m = Some (body, st)" using walk_method_total by metis
  note a = analyze_spec [OF w]
  have scopes: "scopes = map (\<lambda>i. info_of (marked st i) (relays st i)) [0..<length (cs_builders st)]" using a(3) assms by simp
  have ok: "builders_ok (cs_builders st)" using a(1) by (simp add: cap_inv_def)
  have "downward (spar scopes)" using bpar_downward [OF ok] by (simp add: analyzed_lexical [OF scopes])
  moreover have "si_is_method (scopes ! s) \<longleftrightarrow> s = 0" if "s < length scopes" for s
    using that ok by (auto simp: scopes builders_ok_def builder_ok_def)
  ultimately show ?thesis using a(2) by (auto simp: scopes_ok_def scopes)
qed

text \<open>\<open>home_frame rt f g\<close>: \<open>g\<close> is the activation of the method in which the code of frame \<open>f\<close> is written.\<close>

definition home_frame :: "'v rt_state \<Rightarrow> nat \<Rightarrow> nat \<Rightarrow> bool" where
  "home_frame rt f g \<longleftrightarrow> (\<exists>fl. up (lexical rt) f g fl) \<and> g < length (rt_frames rt) \<and> af_lex (rt_frames rt ! g) = None"

definition home_of :: "'v act_frame \<Rightarrow> oop option" where
  "home_of fr = pack_home_ref \<lparr>hr_proc = 0, hr_serial = af_serial fr, hr_fp = af_fp fr\<rparr>"

definition home_ok :: "'v rt_state \<Rightarrow> nat \<Rightarrow> 'v \<Rightarrow> oop \<Rightarrow> bool" where
  "home_ok rt f receiver home \<longleftrightarrow> (\<exists>g. home_frame rt f g \<and> af_receiver (rt_frames rt ! g) = receiver \<and> home_of (rt_frames rt ! g) = Some home)"

definition activation_ok :: "'v rt_state \<Rightarrow> 'v act_frame \<Rightarrow> bool" where
  "activation_ok rt fr \<longleftrightarrow> (case af_closure fr of None \<Rightarrow> af_lex fr = None \<and> af_scope fr = 0
     | Some c \<Rightarrow> c < length (rt_closures rt) \<and> af_lex fr = Some (cl_frame (rt_closures rt ! c)) \<and> af_receiver fr = cl_receiver (rt_closures rt ! c))"

definition home_inv :: "'v rt_state \<Rightarrow> bool" where
  "home_inv rt \<longleftrightarrow> (\<forall>fr \<in> set (rt_frames rt). activation_ok rt fr) \<and>
     (\<forall>c \<in> set (rt_closures rt). home_ok rt (cl_frame c) (cl_receiver c) (cl_home c)) \<and>
     sorted_wrt (<) (map af_stamp (rt_frames rt)) \<and> (\<forall>fr \<in> set (rt_frames rt). af_stamp fr < rt_next_serial rt)"

definition grows :: "'v rt_state \<Rightarrow> 'v rt_state \<Rightarrow> bool" where
  "grows rt rt' \<longleftrightarrow> (\<exists>fs. rt_frames rt' = rt_frames rt @ fs) \<and> (\<exists>cs. rt_closures rt' = rt_closures rt @ cs)"

lemma up_lexical_grows:
  "up (lexical rt) f g fl \<Longrightarrow> grows rt rt' \<Longrightarrow> up (lexical rt') f g fl"
proof (induction rule: up.induct)
  case (up_step s p t l)
  then have "lexical rt' s = Some p" by (auto simp: lexical_def grows_def nth_append split: if_splits)
  with up_step show ?case by (auto intro: up.up_step)
qed (simp add: up_nil)

lemma home_ok_grows: "home_ok rt f r h \<Longrightarrow> grows rt rt' \<Longrightarrow> home_ok rt' f r h"
  unfolding home_ok_def home_frame_def
  by (elim exE conjE, rule_tac x = g in exI) (auto simp: grows_def nth_append intro: up_lexical_grows [unfolded grows_def])

lemma activation_ok_grows: "activation_ok rt fr \<Longrightarrow> grows rt rt' \<Longrightarrow> activation_ok rt' fr"
  by (auto simp: activation_ok_def grows_def nth_append split: option.splits)

lemma home_inv_activated:
  assumes "home_inv rt" "activation_ok rt fr" "af_stamp fr = rt_next_serial rt"
  shows "home_inv (activated scopes fr rt)"
proof -
  let ?rt = "activated scopes fr rt"
  have g: "grows rt ?rt" by (simp add: grows_def activated_def Let_def)
  obtain c where fs: "rt_frames ?rt = rt_frames rt @ [fr\<lparr>af_context := c\<rparr>]" "rt_closures ?rt = rt_closures rt" "rt_next_serial ?rt = rt_next_serial rt + 1"
    by (cases "si_has_ctx (scopes ! af_scope fr)") (auto simp: activated_def Let_def)
  have "activation_ok rt (fr\<lparr>af_context := c\<rparr>)" using assms(2) by (simp add: activation_ok_def split: option.splits)
  then show ?thesis using assms g home_ok_grows [OF _ g] activation_ok_grows [OF _ g]
    by (auto simp: home_inv_def fs sorted_wrt_append)
qed

lemma closure_home:
  assumes "home_inv rt" "rt_inv scopes rt" "scopes_ok scopes" "f < length (rt_frames rt)" "home_ref_for_new_closure scopes f rt = Some home"
  shows "home_ok rt f (af_receiver (rt_frames rt ! f)) home"
proof -
  let ?fr = "rt_frames rt ! f"
  have act: "activation_ok rt ?fr" using assms(1,4) by (simp add: home_inv_def)
  have ok: "frame_ok scopes rt f" using assms(2,4) by (simp add: rt_inv_def)
  show ?thesis
  proof (cases "af_closure ?fr")
    case None
    then have r: "af_lex ?fr = None" "af_scope ?fr = 0" using act by (auto simp: activation_ok_def)
    then have "home_frame rt f f" using assms(4) up_refl by (force simp: home_frame_def)
    then show ?thesis using assms(3,5) r by (auto simp: home_ok_def home_ref_for_new_closure_def home_of_def scopes_ok_def Let_def)
  next
    case (Some c)
    then have c: "c < length (rt_closures rt)" "af_lex ?fr = Some (cl_frame (rt_closures rt ! c))" "af_receiver ?fr = cl_receiver (rt_closures rt ! c)"
      using act by (auto simp: activation_ok_def)
    have "spar scopes (af_scope ?fr) \<noteq> None" "af_scope ?fr < length scopes" using ok c(2) by (auto simp: frame_ok_def Let_def)
    then have "\<not> si_is_method (scopes ! af_scope ?fr)" using assms(3) by (force simp: scopes_ok_def downward_def)
    then have h: "home = cl_home (rt_closures rt ! c)" using assms(5) Some c(1) by (simp add: home_ref_for_new_closure_def slice_get_def Let_def)
    have "home_ok rt (cl_frame (rt_closures rt ! c)) (cl_receiver (rt_closures rt ! c)) (cl_home (rt_closures rt ! c))"
      using assms(1) c(1) by (simp add: home_inv_def)
    moreover have "lexical rt f = Some (cl_frame (rt_closures rt ! c))" using c(2) assms(4) by (simp add: lexical_def)
    ultimately show ?thesis unfolding h c(3) home_ok_def home_frame_def by (blast intro: up_step)
  qed
qed

lemma running_home: "running scopes rt \<Longrightarrow> scopes_ok scopes \<Longrightarrow> home_inv rt"
proof (induction rule: running.induct)
  case (run_start n)
  then show ?case by (simp add: home_inv_def)
next
  case (run_other rt)
  have "grows rt (snd (alloc_frame_serial rt))" by (simp add: grows_def alloc_frame_serial_def)
  with run_other show ?case using home_ok_grows activation_ok_grows by (fastforce simp: home_inv_def alloc_frame_serial_def less_Suc_eq)
next
  case (run_enter rt fp receiver)
  then show ?case by (auto simp: activate_entry_activated activation_ok_def intro: home_inv_activated)
next
  case (run_closure rt f sid rt')
  then obtain home where h: "home_ref_for_new_closure scopes f rt = Some home" "rt_frames rt' = rt_frames rt" "rt_next_serial rt' = rt_next_serial rt"
    "rt_closures rt' = rt_closures rt @ [\<lparr>cl_scope = sid, cl_receiver = af_receiver (rt_frames rt ! f),
       cl_context = (if si_captures_ctx (scopes ! sid) then af_context (rt_frames rt ! f) else None), cl_home = home, cl_frame = f\<rparr>]"
    by (auto simp: make_closure_def Let_def split: bind_splits)
  have g: "grows rt rt'" by (simp add: grows_def h)
  have inv: "home_inv rt" "rt_inv scopes rt" using run_closure running_inv by (auto simp: scopes_ok_def)
  have "home_ok rt f (af_receiver (rt_frames rt ! f)) home" by (rule closure_home [OF inv run_closure(6,2) h(1)])
  then show ?case using inv(1) home_ok_grows [OF _ g] activation_ok_grows [OF _ g] by (auto simp: home_inv_def h)
next
  case (run_activate rt c fp n_args rt')
  then have "rt_inv scopes rt" using running_inv by (auto simp: scopes_ok_def)
  then have ok: "closure_ok scopes rt (rt_closures rt ! c)" using run_activate by (simp add: rt_inv_def)
  show ?case unfolding activate_block_activated [OF ok run_activate(3)]
    by (rule home_inv_activated) (use run_activate in \<open>auto simp: activation_ok_def\<close>)
next
  case (run_store rt f d i v rt')
  note parts = op_store_parts [OF run_store(3)]
  have "rt_next_serial rt' = rt_next_serial rt" using run_store(3) by (auto simp: op_store_ctx_temp_pop_def Let_def split: bind_splits)
  moreover have g: "grows rt rt'" by (simp add: grows_def parts)
  ultimately show ?case using run_store home_ok_grows [OF _ g] activation_ok_grows [OF _ g] by (simp add: home_inv_def parts)
qed

lemma packed_home_unpacks:
  assumes "pack_home_ref h = Some w"
  shows "unpack_home_ref w = h"
proof -
  have fp: "hr_fp h \<le> HOME_REF_FP_MAX" using assms by (auto simp: pack_home_ref_def split: bind_splits)
  show ?thesis using assms pack_home_ref_eq [OF fp] unpack_pack_home_ref [OF fp] by simp
qed

lemma serials_distinct:
  assumes "home_inv rt" "rt_next_serial rt \<le> 2 ^ 32" "h < length (rt_frames rt)" "g < length (rt_frames rt)"
    "af_serial (rt_frames rt ! h) = af_serial (rt_frames rt ! g)"
  shows "h = g"
proof -
  have lt: "af_stamp (rt_frames rt ! i) < 2 ^ 32" if "i < length (rt_frames rt)" for i
    using assms(1,2) that nth_mem [OF that] by (auto simp: home_inv_def intro: less_le_trans)
  have "af_stamp (rt_frames rt ! h) = af_stamp (rt_frames rt ! g)"
    using assms(5) lt [OF assms(3)] lt [OF assms(4)] by (simp add: af_serial_def word_of_nat_eq_iff take_bit_nat_eq_self)
  moreover have "distinct (map af_stamp (rt_frames rt))" using assms(1) strict_sorted_iff by (auto simp: home_inv_def)
  ultimately show ?thesis using assms(3,4) by (simp add: distinct_conv_nth) (metis length_map nth_map)
qed

lemma home_frame_unique:
  assumes "home_frame rt f g" "home_frame rt f h"
  shows "g = h"
proof -
  have "up par f g l \<Longrightarrow> par g = None \<Longrightarrow> up par f h l' \<Longrightarrow> par h = None \<Longrightarrow> g = h" for par l l'
  proof (induction arbitrary: l' rule: up.induct)
    case (up_step s p t l)
    then show ?case by (cases l') (auto simp: up_cons up_nil)
  next
    case (up_refl s)
    then show ?case by (cases l') (auto simp: up_cons up_nil)
  qed
  then show ?thesis using assms by (auto simp: home_frame_def lexical_def)
qed

text \<open>
  C36. The home of a closure. In every reachable state, every closure belongs to exactly one activation of the method its block is
  written in: the one reached by following lexical parents from the frame that made it, however many blocks lie between. The closure's
  receiver is that activation's receiver, its packed home reference unpacks to that activation's serial and frame
  position, and as long as fewer than \<open>2\<^sup>3\<^sup>2\<close> frames have been pushed no other activation has that serial, so a non-local return can not
  take a later frame at the same position for its home.
\<close>
theorem closure_home_lexical:
  assumes "analyze m = Some (m', scopes)" "running scopes rt" "c \<in> set (rt_closures rt)"
  shows "\<exists>!g. home_frame rt (cl_frame c) g \<and> cl_receiver c = af_receiver (rt_frames rt ! g) \<and>
     unpack_home_ref (cl_home c) = \<lparr>hr_proc = 0, hr_serial = af_serial (rt_frames rt ! g), hr_fp = af_fp (rt_frames rt ! g)\<rparr> \<and>
     (rt_next_serial rt \<le> 2 ^ 32 \<longrightarrow> (\<forall>h < length (rt_frames rt). af_serial (rt_frames rt ! h) = af_serial (rt_frames rt ! g) \<longrightarrow> h = g))"
proof -
  have inv: "home_inv rt" by (rule running_home [OF assms(2) analyze_scopes_ok [OF assms(1)]])
  then obtain g where g: "home_frame rt (cl_frame c) g" "af_receiver (rt_frames rt ! g) = cl_receiver c" "home_of (rt_frames rt ! g) = Some (cl_home c)"
    using assms(3) by (auto simp: home_inv_def home_ok_def)
  have "unpack_home_ref (cl_home c) = \<lparr>hr_proc = 0, hr_serial = af_serial (rt_frames rt ! g), hr_fp = af_fp (rt_frames rt ! g)\<rparr>"
    using g(3) unfolding home_of_def by (rule packed_home_unpacks)
  moreover have "h = g" if "rt_next_serial rt \<le> 2 ^ 32" "h < length (rt_frames rt)" "af_serial (rt_frames rt ! h) = af_serial (rt_frames rt ! g)" for h
    using serials_distinct [OF inv that(1,2) _ that(3)] g(1) by (simp add: home_frame_def)
  ultimately show ?thesis using g home_frame_unique by (intro ex1I [of _ g]) auto
qed


theorem closure_home_lexical_witness:
  "\<exists>g. home_frame cap_demo_rt 1 g \<and> rt_closures cap_demo_rt \<noteq> [] \<and>
     unpack_home_ref (cl_home (rt_closures cap_demo_rt ! 1)) = \<lparr>hr_proc = 0, hr_serial = af_serial (rt_frames cap_demo_rt ! g), hr_fp = af_fp (rt_frames cap_demo_rt ! g)\<rparr>"
proof -
  obtain m' where an: "analyze cap_demo = Some (m', cap_demo_scopes)" by (rule cap_demo_analyze)
  have c: "1 < length (rt_closures cap_demo_rt)" "cl_frame (rt_closures cap_demo_rt ! 1) = 1" by code_simp+
  then have "rt_closures cap_demo_rt ! 1 \<in> set (rt_closures cap_demo_rt)" by simp
  from closure_home_lexical [OF an cap_demo_running this] obtain g where "home_frame cap_demo_rt (cl_frame (rt_closures cap_demo_rt ! 1)) g"
      "unpack_home_ref (cl_home (rt_closures cap_demo_rt ! 1)) = \<lparr>hr_proc = 0, hr_serial = af_serial (rt_frames cap_demo_rt ! g), hr_fp = af_fp (rt_frames cap_demo_rt ! g)\<rparr>"
    by blast
  moreover have "rt_closures cap_demo_rt \<noteq> []" using c(1) by (metis list.size(3) not_less_zero)
  ultimately show ?thesis unfolding c(2) by blast
qed

end
