(* ===== verification/Codegen.thy ===== *)
theory Codegen
  imports Capture Builder Parser
begin

text \<open>
  Code generation (\<open>src/src/frontend/codegen.rs\<close>): a method's syntax tree is turned into calls of the assembler. An emitting function takes the state of the
  compilation and returns the new one, or stops with a compile error or a panic (\<^typ>\<open>p_stop\<close>); \<open>steps\<close> runs such functions one
  after the other. What the generator asks of the rest of the machine (interning, allocation, class and global variables) is the record
  \<open>cg_ops\<close> over an arbitrary machine state, an argument of every function that needs it; a heap object is described by what is
  stored in it. Handles are the oops they hold: collections that move objects while a method is compiled are the business of \<^const>\<open>relocate\<close> in the
  assembler. The functions that call \<open>emit_expr\<close> take it as the argument \<open>ee\<close>, and \<open>emit_expr\<close> ties the knot with the size of the tree as fuel.
\<close>

subsection \<open>The state of a compilation\<close>

datatype lit_obj =
    ObjBig bool "int list" | ObjDouble u64 | ObjChar uchar | ObjStr utext
  | ObjArray nat | ObjBytes "int list" | ObjBlock method_oop

record 'vm cg_ops =
  cgo_intern :: "utext \<Rightarrow> 'vm \<Rightarrow> oop \<times> 'vm"
  cgo_alloc :: "lit_obj \<Rightarrow> 'vm \<Rightarrow> oop \<times> 'vm"
  cgo_at_put :: "oop \<Rightarrow> nat \<Rightarrow> oop \<Rightarrow> 'vm \<Rightarrow> 'vm"
  cgo_nil :: "'vm \<Rightarrow> oop"
  cgo_true :: "'vm \<Rightarrow> oop"
  cgo_false :: "'vm \<Rightarrow> oop"
  cgo_array_klass :: "'vm \<Rightarrow> oop"
  cgo_superclass :: "'vm \<Rightarrow> oop \<Rightarrow> oop option"
  cgo_inst_var_names :: "'vm \<Rightarrow> oop \<Rightarrow> oop list option"
  cgo_class_vars :: "'vm \<Rightarrow> oop \<Rightarrow> oop list option"
  cgo_assoc_key :: "'vm \<Rightarrow> oop \<Rightarrow> oop option"
  cgo_klasses :: "'vm \<Rightarrow> nat"
  cgo_global_lookup :: "'vm \<Rightarrow> oop \<Rightarrow> oop option"
  cgo_global_declare :: "oop \<Rightarrow> 'vm \<Rightarrow> oop \<times> 'vm"
  cgo_float_bits :: "bool \<Rightarrow> utext \<Rightarrow> u64"
  cgo_record_lines :: "oop \<Rightarrow> bool \<Rightarrow> utext \<Rightarrow> (u16 \<times> u32) list \<Rightarrow> 'vm \<Rightarrow> 'vm"

record lit_cache =
  lc_doubles :: "u64 \<rightharpoonup> oop"
  lc_strings :: "utext \<rightharpoonup> oop"
  lc_chars :: "uchar \<rightharpoonup> oop"
  lc_bigints :: "bool \<times> int list \<rightharpoonup> oop"

definition new_cache_lits :: lit_cache where
  "new_cache_lits = \<lparr>lc_doubles = Map.empty, lc_strings = Map.empty, lc_chars = Map.empty, lc_bigints = Map.empty\<rparr>"

text \<open>What stays fixed during a compilation, and what changes; the innermost hoist scope comes first.\<close>

record 'vm cg_ctx =
  cx_ops :: "'vm cg_ops"
  cx_holder :: oop
  cx_class_side :: bool
  cx_top_level :: bool
  cx_scopes :: "scope_info list"
  cx_inst_vars :: "oop list"

record 'vm cg_state =
  cg_vm :: 'vm
  cg_builder :: builder
  cg_cache :: lit_cache
  cg_hoist :: "(utext \<rightharpoonup> u8) list"
  cg_next_slot :: nat
  cg_in_block :: bool

type_synonym 'vm emitter = "'vm cg_state \<Rightarrow> p_stop + 'vm cg_state"

primrec steps :: "('s \<Rightarrow> 'e + 's) list \<Rightarrow> 's \<Rightarrow> 'e + 's" where
  "steps [] st = Inr st"
| "steps (f # fs) st = rbind (f st) (steps fs)"

definition bp :: "(builder \<Rightarrow> builder) \<Rightarrow> 'vm emitter" where
  "bp f st = Inr (st\<lparr>cg_builder := f (cg_builder st)\<rparr>)"

definition bo :: "(builder \<Rightarrow> builder option) \<Rightarrow> 'vm emitter" where
  "bo f st = (case f (cg_builder st) of None \<Rightarrow> Inl Panic | Some b \<Rightarrow> Inr (st\<lparr>cg_builder := b\<rparr>))"

definition with_label :: "(nat \<Rightarrow> 'vm emitter) \<Rightarrow> 'vm emitter" where
  "with_label k st = (let (l, b) = new_label (cg_builder st) in k l (st\<lparr>cg_builder := b\<rparr>))"

definition with_slot :: "(u8 \<Rightarrow> 'vm emitter) \<Rightarrow> 'vm emitter" where
  "with_slot k st = k (of_nat (cg_next_slot st)) (st\<lparr>cg_next_slot := cg_next_slot st + 1\<rparr>)"

definition with_sym :: "'vm cg_ctx \<Rightarrow> utext \<Rightarrow> (oop \<Rightarrow> 'vm emitter) \<Rightarrow> 'vm emitter" where
  "with_sym cx name k st = (let (s, vm) = cgo_intern (cx_ops cx) name (cg_vm st) in k s (st\<lparr>cg_vm := vm\<rparr>))"

definition with_block :: "expr option \<Rightarrow> (block_node \<Rightarrow> 'vm emitter) \<Rightarrow> 'vm emitter" where
  "with_block e k st = (case e of Some (BlockE b) \<Rightarrow> k b st | _ \<Rightarrow> Inl Panic)"

definition cg_error :: "src_span \<Rightarrow> utext \<Rightarrow> p_stop + 'a" where
  "cg_error sp msg = Inl (Compile \<lparr>ce_span = sp, ce_msg = msg, ce_eof = False\<rparr>)"

subsection \<open>Names\<close>

datatype var_ref = VLocal u8 | VCaptured u8 u8 | VInstVar u8 | VGlobal oop

text \<open>The superclass chain, \<open>cgo_klasses\<close> at most; a longer one does not end.\<close>

primrec klass_chain :: "nat \<Rightarrow> 'vm cg_ops \<Rightarrow> 'vm \<Rightarrow> oop \<Rightarrow> oop list option" where
  "klass_chain 0 ops vm k = None"
| "klass_chain (Suc n) ops vm k =
     (case cgo_superclass ops vm k of None \<Rightarrow> Some [k] | Some k' \<Rightarrow> map_option (\<lambda>ks. k # ks) (klass_chain n ops vm k'))"

definition flatten_inst_vars :: "'vm cg_ops \<Rightarrow> 'vm \<Rightarrow> oop \<Rightarrow> oop list option" where
  "flatten_inst_vars ops vm k = do {
     chain \<leftarrow> klass_chain (cgo_klasses ops vm) ops vm k;
     Some (concat (map (\<lambda>k. case cgo_inst_var_names ops vm k of Some ns \<Rightarrow> ns | None \<Rightarrow> []) (rev chain)))
   }"

definition find_class_var :: "'vm cg_ops \<Rightarrow> 'vm \<Rightarrow> oop \<Rightarrow> oop \<Rightarrow> oop option option" where
  "find_class_var ops vm k name = do {
     chain \<leftarrow> klass_chain (cgo_klasses ops vm) ops vm k;
     Some (find (\<lambda>assoc. cgo_assoc_key ops vm assoc = Some name)
       (concat (map (\<lambda>k. case cgo_class_vars ops vm k of Some vs \<Rightarrow> vs | None \<Rightarrow> []) chain)))
   }"

primrec find_hoist :: "utext \<Rightarrow> (utext \<rightharpoonup> u8) list \<Rightarrow> u8 option" where
  "find_hoist name [] = None"
| "find_hoist name (h # hs) = (case h name of Some s \<Rightarrow> Some s | None \<Rightarrow> find_hoist name hs)"

text \<open>Identifiers are ASCII, so the first letter is upper case exactly in the range A to Z.\<close>

definition starts_uppercase :: "utext \<Rightarrow> bool" where
  "starts_uppercase name \<longleftrightarrow> name \<noteq> [] \<and> 65 \<le> hd name \<and> hd name \<le> 90"

definition index_of :: "oop \<Rightarrow> oop list \<Rightarrow> nat option" where
  "index_of x xs = (if x \<in> set xs then Some (length (takeWhile (\<lambda>y. y \<noteq> x) xs)) else None)"

text \<open>The rest of \<open>resolve_var\<close>, for a name that is no slot variable: instance, class and global variables, in this order.\<close>

definition resolve_global :: "'vm cg_ctx \<Rightarrow> utext \<Rightarrow> oop \<Rightarrow> src_span \<Rightarrow> bool \<Rightarrow> 'vm cg_state \<Rightarrow> p_stop + var_ref \<times> 'vm cg_state" where
  "resolve_global cx name gsym sp is_write st =
     (let ops = cx_ops cx; vm = cg_vm st
      in case cgo_global_lookup ops vm gsym of
           Some assoc \<Rightarrow> Inr (VGlobal assoc, st)
         | None \<Rightarrow>
             if cx_top_level cx \<and> is_write \<and> starts_uppercase name
             then let (assoc, vm) = cgo_global_declare ops gsym vm in Inr (VGlobal assoc, st\<lparr>cg_vm := vm\<rparr>)
             else cg_error sp (ustr ''undeclared variable '' @ qt name))"

definition resolve_outer :: "'vm cg_ctx \<Rightarrow> utext \<Rightarrow> src_span \<Rightarrow> bool \<Rightarrow> 'vm cg_state \<Rightarrow> p_stop + var_ref \<times> 'vm cg_state" where
  "resolve_outer cx name sp is_write st =
     (let (gsym, vm) = cgo_intern (cx_ops cx) name (cg_vm st);
          st = st\<lparr>cg_vm := vm\<rparr>
      in case (if cx_class_side cx then None else index_of gsym (cx_inst_vars cx)) of
           Some idx \<Rightarrow> Inr (VInstVar (of_nat idx), st)
         | None \<Rightarrow>
             (case find_class_var (cx_ops cx) vm (cx_holder cx) gsym of
                None \<Rightarrow> Inl OutOfFuel
              | Some (Some assoc) \<Rightarrow> Inr (VGlobal assoc, st)
              | Some None \<Rightarrow> resolve_global cx name gsym sp is_write st))"

definition resolve_var :: "'vm cg_ctx \<Rightarrow> nat \<Rightarrow> utext \<Rightarrow> src_span \<Rightarrow> bool \<Rightarrow> 'vm cg_state \<Rightarrow> p_stop + var_ref \<times> 'vm cg_state" where
  "resolve_var cx sid name sp is_write st =
     (case find_hoist name (cg_hoist st) of
        Some s \<Rightarrow> Inr (VLocal s, st)
      | None \<Rightarrow>
          (case resolve_name (cx_scopes cx) sid name of
             None \<Rightarrow> Inl Panic
           | Some (Some (LocalSlot s)) \<Rightarrow> Inr (VLocal (of_nat s), st)
           | Some (Some (CapturedSlot d c)) \<Rightarrow> Inr (VCaptured (of_nat d) (of_nat c), st)
           | Some None \<Rightarrow> resolve_outer cx name sp is_write st))"

definition limit_text :: "utext \<Rightarrow> nat \<Rightarrow> nat \<Rightarrow> utext" where
  "limit_text what n mx = ustr ''too many '' @ what @ ustr '' ('' @ dec (int n) @ ustr '' > '' @ dec (int mx) @ ustr '')''"

definition check_limits :: "src_span \<Rightarrow> nat \<Rightarrow> nat \<Rightarrow> nat \<Rightarrow> 'vm emitter" where
  "check_limits sp n_args n_temps n_ctx st =
     (if n_args > METHOD_ARGC_MAX then cg_error sp (limit_text (ustr ''parameters'') n_args METHOD_ARGC_MAX)
      else if n_temps > METHOD_NTEMPS_MAX then cg_error sp (limit_text (ustr ''temporaries/locals'') n_temps METHOD_NTEMPS_MAX)
      else if n_ctx > METHOD_NCTX_MAX then cg_error sp (limit_text (ustr ''captured variables'') n_ctx METHOD_NCTX_MAX)
      else Inr st)"

definition emit_load :: "'vm cg_ctx \<Rightarrow> nat \<Rightarrow> utext \<Rightarrow> src_span \<Rightarrow> 'vm emitter" where
  "emit_load cx sid name sp st = rbind (resolve_var cx sid name sp False st) (\<lambda>(r, st).
     case r of
       VLocal s \<Rightarrow> bp (push_temp s) st
     | VCaptured d c \<Rightarrow> bp (push_ctx_temp d c) st
     | VInstVar i \<Rightarrow> bp (push_instvar i) st
     | VGlobal assoc \<Rightarrow> bo (push_global assoc) st)"

definition emit_store :: "'vm cg_ctx \<Rightarrow> nat \<Rightarrow> utext \<Rightarrow> src_span \<Rightarrow> 'vm emitter" where
  "emit_store cx sid name sp st = rbind (resolve_var cx sid name sp True st) (\<lambda>(r, st).
     case r of
       VLocal s \<Rightarrow> bp (store_temp_pop s) st
     | VCaptured d c \<Rightarrow> bp (store_ctx_temp_pop d c) st
     | VInstVar i \<Rightarrow> bp (store_instvar_pop i) st
     | VGlobal assoc \<Rightarrow> bo (store_global_pop assoc) st)"

subsection \<open>Literals\<close>

definition alloc_obj :: "'vm cg_ctx \<Rightarrow> lit_obj \<Rightarrow> 'vm cg_state \<Rightarrow> oop \<times> 'vm cg_state" where
  "alloc_obj cx ob st = (let (v, vm) = cgo_alloc (cx_ops cx) ob (cg_vm st) in (v, st\<lparr>cg_vm := vm\<rparr>))"

text \<open>A cached literal, or a new one entered in the cache with \<open>put\<close>.\<close>

definition cached_lit :: "'vm cg_ctx \<Rightarrow> oop option \<Rightarrow> lit_obj \<Rightarrow> (oop \<Rightarrow> lit_cache \<Rightarrow> lit_cache) \<Rightarrow> 'vm cg_state \<Rightarrow> oop \<times> 'vm cg_state" where
  "cached_lit cx hit ob put st =
     (case hit of Some v \<Rightarrow> (v, st)
      | None \<Rightarrow> let (v, st) = alloc_obj cx ob st in (v, st\<lparr>cg_cache := put v (cg_cache st)\<rparr>))"

fun build_literal_value :: "'vm cg_ctx \<Rightarrow> literal \<Rightarrow> 'vm cg_state \<Rightarrow> p_stop + oop \<times> 'vm cg_state" and
  build_items :: "'vm cg_ctx \<Rightarrow> oop \<Rightarrow> nat \<Rightarrow> literal list \<Rightarrow> 'vm cg_state \<Rightarrow> p_stop + 'vm cg_state" where
  "build_literal_value cx (IntL v) st = (case smi_new v of None \<Rightarrow> Inl Panic | Some w \<Rightarrow> Inr (w, st))"
| "build_literal_value cx (BigInt neg ds) st =
     Inr (cached_lit cx (lc_bigints (cg_cache st) (neg, ds)) (ObjBig neg ds) (\<lambda>v c. c\<lparr>lc_bigints := (lc_bigints c)((neg, ds) \<mapsto> v)\<rparr>) st)"
| "build_literal_value cx (FloatL neg t) st =
     (let bits = cgo_float_bits (cx_ops cx) neg t
      in Inr (cached_lit cx (lc_doubles (cg_cache st) bits) (ObjDouble bits) (\<lambda>v c. c\<lparr>lc_doubles := (lc_doubles c)(bits \<mapsto> v)\<rparr>) st))"
| "build_literal_value cx (CharL ch) st =
     Inr (cached_lit cx (lc_chars (cg_cache st) ch) (ObjChar ch) (\<lambda>v c. c\<lparr>lc_chars := (lc_chars c)(ch \<mapsto> v)\<rparr>) st)"
| "build_literal_value cx (StrL s) st =
     Inr (cached_lit cx (lc_strings (cg_cache st) s) (ObjStr s) (\<lambda>v c. c\<lparr>lc_strings := (lc_strings c)(s \<mapsto> v)\<rparr>) st)"
| "build_literal_value cx (SymbolL s) st = (let (v, vm) = cgo_intern (cx_ops cx) s (cg_vm st) in Inr (v, st\<lparr>cg_vm := vm\<rparr>))"
| "build_literal_value cx (ArrayL items) st =
     (let (arr, st) = alloc_obj cx (ObjArray (length items)) st
      in rbind (build_items cx arr 0 items st) (\<lambda>st. Inr (arr, st)))"
| "build_literal_value cx (ByteArrayL bs) st = Inr (alloc_obj cx (ObjBytes bs) st)"
| "build_literal_value cx NilL st = Inr (cgo_nil (cx_ops cx) (cg_vm st), st)"
| "build_literal_value cx TrueL st = Inr (cgo_true (cx_ops cx) (cg_vm st), st)"
| "build_literal_value cx FalseL st = Inr (cgo_false (cx_ops cx) (cg_vm st), st)"
| "build_items cx arr i [] st = Inr st"
| "build_items cx arr i (it # its) st = rbind (build_literal_value cx it st) (\<lambda>(v, st).
     build_items cx arr (i + 1) its (st\<lparr>cg_vm := cgo_at_put (cx_ops cx) arr i v (cg_vm st)\<rparr>))"

definition emit_literal :: "'vm cg_ctx \<Rightarrow> literal \<Rightarrow> 'vm emitter" where
  "emit_literal cx lit st =
     (case lit of
        NilL \<Rightarrow> bp push_nil st
      | TrueL \<Rightarrow> bp push_true st
      | FalseL \<Rightarrow> bp push_false st
      | _ \<Rightarrow>
          (case lit of
             IntL v \<Rightarrow> if - 128 \<le> v \<and> v \<le> 127 then bp (push_smi_i8 (word_of_int v)) st
               else rbind (build_literal_value cx lit st) (\<lambda>(w, st). bo (push_literal w) st)
           | _ \<Rightarrow> rbind (build_literal_value cx lit st) (\<lambda>(w, st). bo (push_literal w) st)))"

subsection \<open>Dissolved blocks\<close>

primrec hoist_names :: "utext list \<Rightarrow> nat \<Rightarrow> (utext \<rightharpoonup> u8) \<Rightarrow> (utext \<rightharpoonup> u8) \<times> nat" where
  "hoist_names [] next names = (names, next)"
| "hoist_names (p # ps) next names = hoist_names ps (next + 1) (names(p \<mapsto> of_nat next))"

definition push_hoist_scope :: "block_node \<Rightarrow> 'vm emitter" where
  "push_hoist_scope blk st =
     (let (names, next) = hoist_names (bn_params blk @ bn_temps blk) (cg_next_slot st) Map.empty
      in Inr (st\<lparr>cg_next_slot := next, cg_hoist := names # cg_hoist st\<rparr>))"

definition push_hoist :: "(utext \<rightharpoonup> u8) \<Rightarrow> 'vm emitter" where
  "push_hoist names st = Inr (st\<lparr>cg_hoist := names # cg_hoist st\<rparr>)"

definition pop_hoist :: "'vm emitter" where
  "pop_hoist st = Inr (st\<lparr>cg_hoist := tl (cg_hoist st)\<rparr>)"

subsection \<open>Statements\<close>

type_synonym 'vm emit_fn = "nat \<Rightarrow> expr \<Rightarrow> 'vm emitter"

definition stmt_line :: "expr \<Rightarrow> 'vm emitter" where
  "stmt_line e = bp (note_line (of_nat (sp_line (expr_span e))))"

definition emit_statement_discard :: "'vm cg_ctx \<Rightarrow> 'vm emit_fn \<Rightarrow> nat \<Rightarrow> bool \<Rightarrow> expr \<Rightarrow> 'vm emitter" where
  "emit_statement_discard cx ee sid is_block stmt =
     steps (stmt_line stmt #
       (case stmt of
          ReturnE e _ \<Rightarrow> [ee sid e, if is_block then bp nlr_tos else bp ret_tos]
        | AssignE n e sp \<Rightarrow> [ee sid e, emit_store cx sid n sp]
        | _ \<Rightarrow> [ee sid stmt, bp pop_op]))"

definition emit_statement_value :: "'vm cg_ctx \<Rightarrow> 'vm emit_fn \<Rightarrow> nat \<Rightarrow> expr \<Rightarrow> 'vm emitter" where
  "emit_statement_value cx ee sid stmt =
     steps (stmt_line stmt #
       (case stmt of
          AssignE n e sp \<Rightarrow> [ee sid e, bp dup_op, emit_store cx sid n sp]
        | _ \<Rightarrow> [ee sid stmt]))"

definition emit_statement_seq :: "'vm cg_ctx \<Rightarrow> 'vm emit_fn \<Rightarrow> nat \<Rightarrow> expr list \<Rightarrow> 'vm emitter" where
  "emit_statement_seq cx ee sid body st =
     (if body = [] then bp push_nil st
      else
        let in_block = cg_in_block st
        in steps (map (emit_statement_discard cx ee sid in_block) (butlast body) @
             (case last body of
                ReturnE e _ \<Rightarrow> [ee sid e, if in_block then bp nlr_tos else bp ret_tos]
              | _ \<Rightarrow> [emit_statement_value cx ee sid (last body)])) st)"

definition emit_dissolved_body :: "'vm cg_ctx \<Rightarrow> 'vm emit_fn \<Rightarrow> nat \<Rightarrow> block_node \<Rightarrow> 'vm emitter" where
  "emit_dissolved_body cx ee sid blk = steps [push_hoist_scope blk, emit_statement_seq cx ee sid (bn_body blk), pop_hoist]"

text \<open>The slot the first parameter was given; a missing scope or name is a panic.\<close>

definition with_hoisted :: "utext \<Rightarrow> (u8 \<Rightarrow> 'vm emitter) \<Rightarrow> 'vm emitter" where
  "with_hoisted name k st =
     (case cg_hoist st of [] \<Rightarrow> Inl Panic
      | h # _ \<Rightarrow> (case h name of None \<Rightarrow> Inl Panic | Some s \<Rightarrow> k s st))"

definition emit_ifnotnil_arm :: "'vm cg_ctx \<Rightarrow> 'vm emit_fn \<Rightarrow> nat \<Rightarrow> block_node \<Rightarrow> 'vm emitter" where
  "emit_ifnotnil_arm cx ee sid blk =
     (case bn_params blk of
        [] \<Rightarrow> steps [bp pop_op, emit_dissolved_body cx ee sid blk]
      | p # _ \<Rightarrow> steps [push_hoist_scope blk, with_hoisted p (\<lambda>s. bp (store_temp_pop s)),
           emit_statement_seq cx ee sid (bn_body blk), pop_hoist])"

subsection \<open>Inlined control flow\<close>

definition send_named :: "'vm cg_ctx \<Rightarrow> string \<Rightarrow> u8 \<Rightarrow> 'vm emitter" where
  "send_named cx name n = with_sym cx (ustr name) (\<lambda>s. bo (send s n))"

definition two_labels :: "(nat \<Rightarrow> nat \<Rightarrow> 'vm emitter list) \<Rightarrow> 'vm emitter" where
  "two_labels k = with_label (\<lambda>l1. with_label (\<lambda>l2. steps (k l1 l2)))"

text \<open>The receiver on the stack, a copy of it compared with nil.\<close>

definition nil_test :: "'vm cg_ctx \<Rightarrow> 'vm emit_fn \<Rightarrow> nat \<Rightarrow> expr \<Rightarrow> 'vm emitter" where
  "nil_test cx ee sid receiver = steps [ee sid receiver, bp dup_op, bp push_nil, send_named cx ''=='' 1]"

text \<open>The loop test \<open>i <= lim\<close> and the step \<open>i := i + 1\<close> that \<open>timesRepeat:\<close> and \<open>to:do:\<close> share.\<close>

definition loop_test :: "'vm cg_ctx \<Rightarrow> u8 \<Rightarrow> u8 \<Rightarrow> nat \<Rightarrow> 'vm emitter" where
  "loop_test cx i lim l2 = steps [bp (push_temp i), bp (push_temp lim), send_named cx ''<='' 1, bo (br_false_fwd l2)]"

definition loop_step :: "'vm cg_ctx \<Rightarrow> u8 \<Rightarrow> nat \<Rightarrow> nat \<Rightarrow> 'vm emitter" where
  "loop_step cx i l0 l2 = steps [bp (push_temp i), bp (push_smi_i8 1), send_named cx ''+'' 1, bp (store_temp_pop i),
     bo (jump_back l0), bo (bind_label l2)]"

definition emit_times_repeat :: "'vm cg_ctx \<Rightarrow> 'vm emit_fn \<Rightarrow> nat \<Rightarrow> expr \<Rightarrow> block_node \<Rightarrow> 'vm emitter" where
  "emit_times_repeat cx ee sid receiver blk =
     steps [ee sid receiver, bp dup_op,
       with_slot (\<lambda>lim. steps [bp (store_temp_pop lim),
         with_slot (\<lambda>i. steps [bp (push_smi_i8 1), bp (store_temp_pop i),
           two_labels (\<lambda>l0 l2. [bo (bind_label l0), loop_test cx i lim l2,
             emit_statement_seq cx ee sid (bn_body blk), bp pop_op, loop_step cx i l0 l2])])])]"

definition emit_to_do :: "'vm cg_ctx \<Rightarrow> 'vm emit_fn \<Rightarrow> nat \<Rightarrow> expr \<Rightarrow> expr \<Rightarrow> utext \<Rightarrow> block_node \<Rightarrow> 'vm emitter" where
  "emit_to_do cx ee sid receiver limit loop_var blk =
     steps [ee sid receiver, bp dup_op,
       with_slot (\<lambda>i. steps [bp (store_temp_pop i), ee sid limit,
         with_slot (\<lambda>lim. steps [bp (store_temp_pop lim),
           two_labels (\<lambda>l0 l2. [bo (bind_label l0), loop_test cx i lim l2,
             push_hoist [loop_var \<mapsto> i], emit_statement_seq cx ee sid (bn_body blk), pop_hoist, bp pop_op, loop_step cx i l0 l2])])])]"

definition cg_panic :: "'vm emitter" where
  "cg_panic st = Inl Panic"

definition emit_inlined :: "'vm cg_ctx \<Rightarrow> 'vm emit_fn \<Rightarrow> nat \<Rightarrow> utext \<Rightarrow> expr \<Rightarrow> expr list \<Rightarrow> 'vm emitter" where
  "emit_inlined cx ee sid sel receiver args =
     (let arg_block = (\<lambda>i. with_block (slice_get args i)); recv_block = with_block (Some receiver); body = emit_dissolved_body cx ee sid in
      if sel_in sel [''ifTrue:'', ''ifFalse:''] then
        steps [ee sid receiver, two_labels (\<lambda>l1 l2. [
          if sel_in sel [''ifTrue:''] then bo (br_false_fwd l1) else bo (br_true_fwd l1),
          arg_block 0 body, bo (jump_fwd l2), bo (bind_label l1), bp push_nil, bo (bind_label l2)])]
      else if sel_in sel [''ifTrue:ifFalse:'', ''ifFalse:ifTrue:''] then
        (let (t, f) = (if sel_in sel [''ifTrue:ifFalse:''] then (0, 1) else (1, 0))
         in steps [ee sid receiver, two_labels (\<lambda>l1 l2. [bo (br_false_fwd l1),
              arg_block t body, bo (jump_fwd l2), bo (bind_label l1), arg_block f body, bo (bind_label l2)])])
      else if sel_in sel [''and:'', ''or:''] then
        steps [ee sid receiver, two_labels (\<lambda>l1 l2. [
          if sel_in sel [''and:''] then bo (br_false_fwd l1) else bo (br_true_fwd l1),
          arg_block 0 body, bo (jump_fwd l2), bo (bind_label l1),
          if sel_in sel [''and:''] then bp push_false else bp push_true, bo (bind_label l2)])]
      else if sel_in sel [''whileTrue:'', ''whileFalse:''] then
        two_labels (\<lambda>l0 l2. [bo (bind_label l0), recv_block body,
          if sel_in sel [''whileTrue:''] then bo (br_false_fwd l2) else bo (br_true_fwd l2),
          arg_block 0 body, bp pop_op, bo (jump_back l0), bo (bind_label l2), bp push_nil])
      else if sel_in sel [''timesRepeat:''] then arg_block 0 (emit_times_repeat cx ee sid receiver)
      else if sel_in sel [''ifNil:''] then
        steps [nil_test cx ee sid receiver, two_labels (\<lambda>l1 l2. [bo (br_false_fwd l1), bp pop_op,
          arg_block 0 body, bo (jump_fwd l2), bo (bind_label l1), bo (bind_label l2)])]
      else if sel_in sel [''ifNotNil:''] then
        steps [nil_test cx ee sid receiver, two_labels (\<lambda>l1 l2. [bo (br_true_fwd l1),
          arg_block 0 (emit_ifnotnil_arm cx ee sid), bo (jump_fwd l2), bo (bind_label l1), bo (bind_label l2)])]
      else if sel_in sel [''ifNil:ifNotNil:''] then
        steps [nil_test cx ee sid receiver, two_labels (\<lambda>l1 l2. [bo (br_false_fwd l1), bp pop_op,
          arg_block 0 body, bo (jump_fwd l2), bo (bind_label l1), arg_block 1 (emit_ifnotnil_arm cx ee sid), bo (bind_label l2)])]
      else if sel_in sel [''ifNotNil:ifNil:''] then
        steps [nil_test cx ee sid receiver, two_labels (\<lambda>l1 l2. [bo (br_true_fwd l1),
          arg_block 0 (emit_ifnotnil_arm cx ee sid), bo (jump_fwd l2), bo (bind_label l1), bp pop_op, arg_block 1 body, bo (bind_label l2)])]
      else if sel_in sel [''repeat''] then
        with_label (\<lambda>l0. steps [bo (bind_label l0), recv_block body, bp pop_op, bo (jump_back l0), bp push_nil])
      else if sel_in sel [''to:do:''] then
        arg_block 1 (\<lambda>blk. case (bn_params blk, slice_get args 0) of
            (v # _, Some lim) \<Rightarrow> emit_to_do cx ee sid receiver lim v blk
          | _ \<Rightarrow> cg_panic)
      else cg_panic)"

subsection \<open>Expressions\<close>

definition emit_send_expr :: "'vm cg_ctx \<Rightarrow> 'vm emit_fn \<Rightarrow> nat \<Rightarrow> expr \<Rightarrow> utext \<Rightarrow> expr list \<Rightarrow> bool \<Rightarrow> 'vm emitter" where
  "emit_send_expr cx ee sid receiver sel args is_super =
     (if send_positions is_super sel receiver args \<noteq> None then emit_inlined cx ee sid sel receiver args
      else steps (ee sid receiver # map (ee sid) args @
        [with_sym cx sel (\<lambda>s. if is_super then bo (send_super s (of_nat (length args))) else bo (send s (of_nat (length args))))]))"

fun emit_segments :: "'vm emit_fn \<Rightarrow> nat \<Rightarrow> expr list \<Rightarrow> 'vm emitter list" where
  "emit_segments ee sid [] = []"
| "emit_segments ee sid [seg] = [ee sid seg]"
| "emit_segments ee sid (seg # segs) = [bp dup_op, ee sid seg, bp pop_op] @ emit_segments ee sid segs"

fun emit_elems :: "'vm cg_ctx \<Rightarrow> 'vm emit_fn \<Rightarrow> nat \<Rightarrow> oop \<Rightarrow> int \<Rightarrow> expr list \<Rightarrow> 'vm emitter list" where
  "emit_elems cx ee sid at_put_sym i [] = []"
| "emit_elems cx ee sid at_put_sym i (el # els) =
     [bp dup_op, emit_literal cx (IntL (i + 1)), ee sid el, bo (send at_put_sym 2), bp pop_op] @ emit_elems cx ee sid at_put_sym (i + 1) els"

definition emit_dyn_array :: "'vm cg_ctx \<Rightarrow> 'vm emit_fn \<Rightarrow> nat \<Rightarrow> expr list \<Rightarrow> 'vm emitter" where
  "emit_dyn_array cx ee sid elems st =
     (let array_klass = cgo_array_klass (cx_ops cx) (cg_vm st)
      in with_sym cx (ustr ''new:'') (\<lambda>new_colon. with_sym cx (ustr ''at:put:'') (\<lambda>at_put_sym.
           steps ([bo (push_literal array_klass), emit_literal cx (IntL (int (length elems))), bo (send new_colon 1)] @
             emit_elems cx ee sid at_put_sym 0 elems))) st)"

definition emit_prologue :: "scope_info \<Rightarrow> 'vm emitter" where
  "emit_prologue info =
     (if \<not> si_has_ctx info then Inr
      else steps (map (\<lambda>(i, _, v).
          if vs_captured v
          then steps [bp (push_temp (of_nat i)), case vs_ctx_slot v of None \<Rightarrow> cg_panic | Some c \<Rightarrow> bp (store_ctx_temp_pop 0 (of_nat c))]
          else Inr)
        (take (si_argc info) (enumerate 0 (si_vars info)))))"

datatype body_kind = MethodBody | DoItBody | BlockBody

definition emit_body :: "'vm cg_ctx \<Rightarrow> 'vm emit_fn \<Rightarrow> nat \<Rightarrow> expr list \<Rightarrow> body_kind \<Rightarrow> 'vm emitter" where
  "emit_body cx ee sid body kind =
     (if body = [] then (if kind = BlockBody then steps [bp push_nil, bp block_return_tos] else bp ret_self)
      else if kind = MethodBody then steps (map (emit_statement_discard cx ee sid False) body @ [bp ret_self])
      else
        let is_block = (kind = BlockBody)
        in steps (map (emit_statement_discard cx ee sid is_block) (butlast body) @
             (case last body of
                ReturnE e _ \<Rightarrow> [ee sid e, if is_block then bp nlr_tos else bp ret_tos]
              | _ \<Rightarrow> [emit_statement_value cx ee sid (last body), if is_block then bp block_return_tos else bp ret_tos])))"

definition finish_unit :: "'vm cg_ctx \<Rightarrow> oop \<Rightarrow> nat \<Rightarrow> scope_info \<Rightarrow> bool \<Rightarrow> bool \<Rightarrow> 'vm cg_state \<Rightarrow> p_stop + method_oop" where
  "finish_unit cx sel n_args info is_block pf st =
     (let total = cg_next_slot st - n_args
      in case (do {
           m \<leftarrow> finish (cgo_nil (cx_ops cx) (cg_vm st)) sel n_args total (cg_builder st);
           set_flags n_args total (si_has_ctx info) is_block pf (is_block \<and> si_captures_ctx info) (si_nctx info) m
         }) of None \<Rightarrow> Inl Panic | Some m \<Rightarrow> Inr m)"

definition emit_block_literal :: "'vm cg_ctx \<Rightarrow> 'vm emit_fn \<Rightarrow> block_node \<Rightarrow> 'vm emitter" where
  "emit_block_literal cx ee blk st =
     (case slice_get (cx_scopes cx) (bn_scope_id blk) of
        None \<Rightarrow> Inl Panic
      | Some info \<Rightarrow>
          let n_args = length (bn_params blk)
          in rbind (check_limits (bn_span blk) n_args (si_frame_temp_count info) (si_nctx info) st) (\<lambda>st.
             rbind (steps [emit_prologue info, emit_body cx ee (bn_scope_id blk) (bn_body blk) BlockBody]
                 (st\<lparr>cg_builder := new_builder, cg_cache := new_cache_lits, cg_hoist := [],
                     cg_next_slot := si_frame_temp_count info + n_args, cg_in_block := True\<rparr>)) (\<lambda>inner.
             let (sel, vm) = cgo_intern (cx_ops cx) (ustr ''aBlock'') (cg_vm inner); inner = inner\<lparr>cg_vm := vm\<rparr>
             in rbind (finish_unit cx sel n_args info True False inner) (\<lambda>m.
                let (v, vm) = cgo_alloc (cx_ops cx) (ObjBlock m) vm; st = st\<lparr>cg_vm := vm\<rparr>
                in case intern_block_literal v (cg_builder st) of
                     None \<Rightarrow> Inl Panic
                   | Some (lit, b) \<Rightarrow> bo (push_closure lit 0) (st\<lparr>cg_builder := b\<rparr>)))))"

definition emit_expr_body :: "'vm cg_ctx \<Rightarrow> 'vm emit_fn \<Rightarrow> nat \<Rightarrow> expr \<Rightarrow> 'vm emitter" where
  "emit_expr_body cx ee sid e =
     (case e of
        SelfRef _ \<Rightarrow> bp push_self
      | CascadeRcvr _ \<Rightarrow> Inr
      | Var n sp \<Rightarrow> emit_load cx sid n sp
      | Lit l _ \<Rightarrow> emit_literal cx l
      | AssignE n v sp \<Rightarrow> steps [ee sid v, bp dup_op, emit_store cx sid n sp]
      | SendE r sel args su _ \<Rightarrow> emit_send_expr cx ee sid r sel args su
      | CascadeE r segs _ \<Rightarrow> steps (ee sid r # emit_segments ee sid segs)
      | DynArray es _ \<Rightarrow> emit_dyn_array cx ee sid es
      | BlockE b \<Rightarrow> emit_block_literal cx ee b
      | ReturnE _ _ \<Rightarrow> cg_panic)"

primrec emit_expr :: "'vm cg_ctx \<Rightarrow> nat \<Rightarrow> 'vm emit_fn" where
  "emit_expr cx 0 sid e st = Inl OutOfFuel"
| "emit_expr cx (Suc n) sid e st = emit_expr_body cx (emit_expr cx n) sid e st"

subsection \<open>Entry points\<close>

definition PRIM_ID_FFI :: int where "PRIM_ID_FFI = - 1"

primrec intern_all :: "'vm cg_ops \<Rightarrow> utext list \<Rightarrow> 'vm \<Rightarrow> oop list \<times> 'vm" where
  "intern_all ops [] vm = ([], vm)"
| "intern_all ops (t # ts) vm = (let (s, vm) = cgo_intern ops t vm; (ss, vm) = intern_all ops ts vm in (s # ss, vm))"

primrec put_all :: "'vm cg_ops \<Rightarrow> oop \<Rightarrow> nat \<Rightarrow> oop list \<Rightarrow> 'vm \<Rightarrow> 'vm" where
  "put_all ops arr i [] vm = vm"
| "put_all ops arr i (v # vs) vm = put_all ops arr (i + 1) vs (cgo_at_put ops arr i v vm)"

text \<open>The seven slots of the descriptor array, which becomes the method's literal frame.\<close>

definition build_ffi_descriptor :: "'vm cg_ops \<Rightarrow> ffi_pragma \<Rightarrow> 'vm \<Rightarrow> oop list \<times> 'vm" where
  "build_ffi_descriptor ops ffi vm =
     (let (kind, name, klass, class_side, ret, args) = (case ffi of
            FfiFunction n r as \<Rightarrow> (ustr ''function'', n, None, False, r, as)
          | FfiSelector s k cs r as \<Rightarrow> (ustr ''selector'', s, Some k, cs, r, as));
          (kind_sym, vm) = cgo_intern ops kind vm;
          (name_sym, vm) = cgo_intern ops name vm;
          (class_sym, vm) = (case klass of None \<Rightarrow> (None, vm) | Some c \<Rightarrow> map_prod Some id (cgo_intern ops c vm));
          (ret_sym, vm) = cgo_intern ops ret vm;
          (arg_syms, vm) = intern_all ops args vm;
          (args_arr, vm) = cgo_alloc ops (ObjArray (length arg_syms)) vm;
          vm = put_all ops args_arr 0 arg_syms vm
      in ([kind_sym, name_sym, case class_sym of None \<Rightarrow> cgo_nil ops vm | Some c \<Rightarrow> c,
           if class_side then cgo_true ops vm else cgo_false ops vm, ret_sym, args_arr, cgo_nil ops vm], vm))"

definition relative_line :: "u32 \<Rightarrow> u32 \<Rightarrow> u32" where
  "relative_line header ln =
     (let d = (if ln \<ge> header then ln - header else 0); d = (if d = - 1 then d else d + 1) in if d = 0 then 1 else d)"

definition finish_method :: "'vm cg_ctx \<Rightarrow> method_node \<Rightarrow> scope_info \<Rightarrow> 'vm cg_state \<Rightarrow> p_stop + method_oop \<times> 'vm" where
  "finish_method cx m info st =
     (let ops = cx_ops cx; n_args = length (mn_params m);
          lines = (if cx_top_level cx then []
                   else map (\<lambda>(bci, ln). (bci, relative_line (of_nat (sp_line (mn_span m))) ln)) (line_map (cg_builder st)));
          (sel, vm) = cgo_intern ops (pattern_selector m) (cg_vm st);
          pf = (mn_primitive m \<noteq> None \<and> mn_body m \<noteq> [])
      in rbind (finish_unit cx sel n_args info False pf (st\<lparr>cg_vm := vm\<rparr>)) (\<lambda>mo.
         let vm = (if lines = [] then vm else cgo_record_lines ops (cx_holder cx) (cx_class_side cx) (pattern_selector m) lines vm)
         in case (case mn_primitive m of None \<Rightarrow> Some mo | Some pid \<Rightarrow> set_primitive pid mo) of
              None \<Rightarrow> Inl Panic
            | Some mo \<Rightarrow>
                (case mn_ffi m of None \<Rightarrow> Inr (mo, vm)
                 | Some ffi \<Rightarrow>
                     (case set_primitive PRIM_ID_FFI mo of None \<Rightarrow> Inl Panic
                      | Some mo \<Rightarrow> let (desc, vm) = build_ffi_descriptor ops ffi vm in Inr (mo\<lparr>m_literals := desc\<rparr>, vm)))))"

definition compile_fuel :: "method_node \<Rightarrow> nat" where
  "compile_fuel m = Suc (size_list size (mn_body m))"

definition compile_method_inner :: "'vm cg_ops \<Rightarrow> oop \<Rightarrow> bool \<Rightarrow> bool \<Rightarrow> method_node \<Rightarrow> 'vm \<Rightarrow> p_stop + method_oop \<times> 'vm" where
  "compile_method_inner ops holder class_side top_level m vm =
     (case analyze m of
        None \<Rightarrow> Inl Panic
      | Some (m, scopes) \<Rightarrow>
        (case (if class_side then Some [] else flatten_inst_vars ops vm holder) of
           None \<Rightarrow> Inl OutOfFuel
         | Some ivs \<Rightarrow>
           (case slice_get scopes 0 of
              None \<Rightarrow> Inl Panic
            | Some scope0 \<Rightarrow>
                let n_args = length (mn_params m);
                    cx = \<lparr>cx_ops = ops, cx_holder = holder, cx_class_side = class_side, cx_top_level = top_level, cx_scopes = scopes, cx_inst_vars = ivs\<rparr>;
                    st = \<lparr>cg_vm = vm, cg_builder = new_builder, cg_cache = new_cache_lits, cg_hoist = [],
                          cg_next_slot = si_frame_temp_count scope0 + n_args, cg_in_block = False\<rparr>
                in rbind (check_limits (mn_span m) n_args (si_frame_temp_count scope0) (si_nctx scope0) st) (\<lambda>st.
                   rbind (steps [emit_prologue scope0, emit_body cx (emit_expr cx (compile_fuel m)) 0 (mn_body m)
                       (if top_level then DoItBody else MethodBody)] st) (finish_method cx m scope0)))))"

definition compile_method :: "'vm cg_ops \<Rightarrow> oop \<Rightarrow> bool \<Rightarrow> method_node \<Rightarrow> 'vm \<Rightarrow> p_stop + method_oop \<times> 'vm" where
  "compile_method ops holder class_side m vm = compile_method_inner ops holder class_side False m vm"

definition compile_doit :: "'vm cg_ops \<Rightarrow> oop \<Rightarrow> expr \<Rightarrow> 'vm \<Rightarrow> p_stop + method_oop \<times> 'vm" where
  "compile_doit ops holder stmt vm = compile_method_inner ops holder False True
     \<lparr>pattern_selector = ustr ''doIt'', mn_params = [], mn_primitive = None, mn_ffi = None, mn_temps = [], mn_body = [stmt],
      mn_class_side = False, mn_span = expr_span stmt\<rparr> vm"

end
