(* ===== verification/Stack_Flow.thy ===== *)
theory Stack_Flow
  imports Builder
begin

text \<open>
  The operand stack of compiled code. A compiled method is stack safe when every position that can be reached has one stack depth: no
  instruction takes more operands than there are, and all ways to a position agree on the depth. \<open>flow\<close> computes the depth
  along the assembler calls that build a method, the way a bytecode verifier does; if it succeeds, the finished bytes are stack safe.
\<close>

subsection \<open>Stack safety of a method\<close>

text \<open>What an instruction takes and leaves; \<open>ac\<close> gives the argument count of an inline-cache site.\<close>

fun instr_effect :: "(nat \<Rightarrow> nat) \<Rightarrow> instr \<Rightarrow> nat \<times> nat" where
  "instr_effect ac (StoreTemp _) = (1, 1)"
| "instr_effect ac (StoreTempPop _) = (1, 0)"
| "instr_effect ac (StoreInstvarPop _) = (1, 0)"
| "instr_effect ac (StoreGlobalPop _) = (1, 0)"
| "instr_effect ac (StoreCtxTempPop _ _) = (1, 0)"
| "instr_effect ac Pop = (1, 0)"
| "instr_effect ac Dup = (1, 2)"
| "instr_effect ac (PushClosure _ n) = (unat n, 1)"
| "instr_effect ac (Send idx _) = (ac (unat idx) + 1, 1)"
| "instr_effect ac (JumpFwd _) = (0, 0)"
| "instr_effect ac (JumpBack _) = (0, 0)"
| "instr_effect ac (BrTrueFwd _) = (1, 0)"
| "instr_effect ac (BrFalseFwd _) = (1, 0)"
| "instr_effect ac ReturnTos = (1, 0)"
| "instr_effect ac BlockReturnTos = (1, 0)"
| "instr_effect ac NlrTos = (1, 0)"
| "instr_effect ac ReturnSelf = (0, 0)"
| "instr_effect ac _ = (0, 1)"

definition falls_through :: "instr \<Rightarrow> bool" where
  "falls_through i \<longleftrightarrow> (case i of ReturnTos \<Rightarrow> False | ReturnSelf \<Rightarrow> False | BlockReturnTos \<Rightarrow> False | NlrTos \<Rightarrow> False
     | JumpFwd _ \<Rightarrow> False | JumpBack _ \<Rightarrow> False | _ \<Rightarrow> True)"

definition successors :: "instr \<Rightarrow> nat \<Rightarrow> nat set" where
  "successors i next = (if falls_through i then {next} else {}) \<union> set_option (jump_target i next)"

definition ic_argc :: "method_oop \<Rightarrow> nat \<Rightarrow> nat" where
  "ic_argc m idx = nat (smi_value (m_ics m ! (idx * IC_STRIDE + IC_META_OFFSET)))"

definition stack_safe :: "method_oop \<Rightarrow> bool" where
  "stack_safe m \<longleftrightarrow> (\<exists>D :: nat \<rightharpoonup> nat. D 0 = Some 0 \<and>
     (\<forall>pos d. D pos = Some d \<longrightarrow> (\<exists>i next. decode_at (m_bytes m) pos = Some (i, next) \<and>
        (let (pops, pushes) = instr_effect (ic_argc m) i
         in pops \<le> d \<and> (\<forall>t \<in> successors i next. D t = Some (d - pops + pushes))))))"

subsection \<open>Depth along assembler calls\<close>

text \<open>The depth, \<open>None\<close> in code that is not reached, and the depths known for labels.\<close>

type_synonym flow_state = "nat option \<times> (nat \<rightharpoonup> nat)"

fun call_effect :: "call \<Rightarrow> nat \<times> nat" where
  "call_effect (Plain i) = instr_effect (\<lambda>_. 0) i"
| "call_effect (PushLit _) = (0, 1)"
| "call_effect (PushGlob _) = (0, 1)"
| "call_effect (StoreGlob _) = (1, 0)"
| "call_effect (SendTo _ n) = (unat n + 1, 1)"
| "call_effect (SendSuperTo _ n) = (unat n + 1, 1)"
| "call_effect (Closure _ n) = (unat n, 1)"
| "call_effect (FwdTo FJump _) = (0, 0)"
| "call_effect (FwdTo _ _) = (1, 0)"
| "call_effect _ = (0, 0)"

definition call_falls :: "call \<Rightarrow> bool" where
  "call_falls c \<longleftrightarrow> (case c of Plain i \<Rightarrow> falls_through i | FwdTo FJump _ \<Rightarrow> False | BackTo _ \<Rightarrow> False | _ \<Rightarrow> True)"

definition agree :: "nat \<Rightarrow> nat \<Rightarrow> (nat \<rightharpoonup> nat) \<Rightarrow> (nat \<rightharpoonup> nat) option" where
  "agree l k E = (case E l of None \<Rightarrow> Some (E(l \<mapsto> k)) | Some j \<Rightarrow> if j = k then Some E else None)"

text \<open>What a call does to the depths of labels when it is reached with the depth \<open>k\<close> left after its operands.\<close>

definition label_effect :: "call \<Rightarrow> nat \<Rightarrow> (nat \<rightharpoonup> nat) \<Rightarrow> (nat \<rightharpoonup> nat) option" where
  "label_effect c k E = (case c of FwdTo _ l \<Rightarrow> agree l k E | BindAt l \<Rightarrow> agree l k E
     | BackTo l \<Rightarrow> if E l = Some k then Some E else None | _ \<Rightarrow> Some E)"

definition flow1 :: "call \<Rightarrow> flow_state \<Rightarrow> flow_state option" where
  "flow1 c s = (case s of
      (None, E) \<Rightarrow> Some (case c of BindAt l \<Rightarrow> E l | _ \<Rightarrow> None, E)
    | (Some d, E) \<Rightarrow>
        let (pops, pushes) = call_effect c
        in if pops \<le> d then map_option (\<lambda>E. (if call_falls c then Some (d - pops + pushes) else None, E)) (label_effect c (d - pops + pushes) E)
           else None)"

primrec flow :: "call list \<Rightarrow> flow_state \<Rightarrow> flow_state option" where
  "flow [] s = Some s"
| "flow (c # cs) s = flow1 c s \<bind> flow cs"

lemma flow_append: "flow (cs @ cs') s = flow cs s \<bind> flow cs'"
  by (induction cs arbitrary: s) (auto split: bind_splits)

primrec do_calls :: "call list \<Rightarrow> builder \<Rightarrow> builder option" where
  "do_calls [] b = Some b"
| "do_calls (c # cs) b = do_call c b \<bind> do_calls cs"

lemma do_calls_append: "do_calls (cs @ cs') b = do_calls cs b \<bind> do_calls cs'"
  by (induction cs arbitrary: b) (auto split: bind_splits)

subsection \<open>A method with a successful flow is stack safe\<close>

text \<open>
  The invariant of a build with its flow: \<open>ds\<close> has the depth before each emitted instruction, \<open>d\<close> the depth after the last. \<open>nextd\<close> is
  the depth at index \<open>j\<close>.
\<close>

definition nextd :: "nat option list \<Rightarrow> nat option \<Rightarrow> nat \<Rightarrow> nat option" where
  "nextd ds d j = (if j < length ds then ds ! j else d)"

definition asm_falls :: "asm \<Rightarrow> bool" where
  "asm_falls a \<longleftrightarrow> (case a of Ins i \<Rightarrow> falls_through i | Fwd k _ \<Rightarrow> k \<noteq> FJump | Back _ \<Rightarrow> False)"

definition asm_effect :: "(nat \<Rightarrow> nat) \<Rightarrow> asm \<Rightarrow> nat \<times> nat" where
  "asm_effect ac a = (case a of Ins i \<Rightarrow> instr_effect ac i | Fwd k _ \<Rightarrow> (if k = FJump then 0 else 1, 0) | Back _ \<Rightarrow> (0, 0))"

definition asm_label :: "asm \<Rightarrow> nat option" where
  "asm_label a = (case a of Ins _ \<Rightarrow> None | Fwd _ l \<Rightarrow> Some l | Back l \<Rightarrow> Some l)"

definition site_argc :: "builder \<Rightarrow> nat \<Rightarrow> nat" where
  "site_argc b idx = (if idx < length (ic_sites b) then unat (snd (ic_sites b ! idx)) else 0)"

definition depth_ok :: "(nat \<Rightarrow> nat) \<Rightarrow> (nat \<rightharpoonup> nat) \<Rightarrow> asm list \<Rightarrow> nat option list \<Rightarrow> nat option \<Rightarrow> nat \<Rightarrow> bool" where
  "depth_ok ac E as ds d i \<longleftrightarrow> (\<forall>k. ds ! i = Some k \<longrightarrow> (let (pops, pushes) = asm_effect ac (as ! i) in
     pops \<le> k \<and> (asm_falls (as ! i) \<longrightarrow> nextd ds d (Suc i) = Some (k - pops + pushes)) \<and>
     (\<forall>l. asm_label (as ! i) = Some l \<longrightarrow> E l = Some (k - pops + pushes))))"

definition flow_inv :: "builder \<Rightarrow> asm list \<Rightarrow> nat option list \<Rightarrow> flow_state \<Rightarrow> bool" where
  "flow_inv b as ds s \<longleftrightarrow> length ds = length as \<and> nextd ds (fst s) 0 = Some 0 \<and>
     (\<forall>idx su. Ins (Send idx su) \<in> set as \<longrightarrow> unat idx < length (ic_sites b)) \<and>
     (\<forall>i < length as. depth_ok (site_argc b) (snd s) as ds (fst s) i) \<and>
     (\<forall>l t k. lab_of b l = Some t \<longrightarrow> snd s l = Some k \<longrightarrow> (\<exists>j \<le> length as. t = pos_of as j \<and> nextd ds (fst s) j = Some k))"


lemma asm_effect_sites:
  assumes "\<forall>idx su. a = Ins (Send idx su) \<longrightarrow> unat idx < length (ic_sites b)" "\<exists>ys. ic_sites b' = ic_sites b @ ys"
  shows "asm_effect (site_argc b') a = asm_effect (site_argc b) a"
proof (cases a)
  case (Ins i)
  then show ?thesis using assms by (cases i) (auto simp: asm_effect_def site_argc_def nth_append)
qed (auto simp: asm_effect_def)

text \<open>Depths and labels only become better known.\<close>

lemma depth_ok_later:
  assumes "depth_ok ac E as ds d i" "i < length as" "length ds = length as" "E \<subseteq>\<^sub>m E'" "asm_effect ac' (as ! i) = asm_effect ac (as ! i)"
    and "\<And>j k. j \<le> length ds \<Longrightarrow> nextd ds d j = Some k \<Longrightarrow> nextd (ds @ ds') d' j = Some k"
  shows "depth_ok ac' E' (as @ as') (ds @ ds') d' i"
  using assms unfolding depth_ok_def by (auto simp: nth_append map_le_def dom_def Let_def split: prod.splits)

lemma flow_inv_later:
  assumes inv: "flow_inv b as ds (d, E)"
    and E: "E \<subseteq>\<^sub>m E'" and sites: "\<exists>ys. ic_sites b' = ic_sites b @ ys"
    and next': "\<And>j k. j \<le> length ds \<Longrightarrow> nextd ds d j = Some k \<Longrightarrow> nextd (ds @ ds') d' j = Some k"
    and len: "length ds' = length as'"
    and new: "\<forall>i < length as'. depth_ok (site_argc b') E' (as @ as') (ds @ ds') d' (length as + i)"
    and sends: "\<forall>idx su. Ins (Send idx su) \<in> set as' \<longrightarrow> unat idx < length (ic_sites b')"
    and labs: "\<And>l t k. lab_of b' l = Some t \<Longrightarrow> E' l = Some k \<Longrightarrow>
        lab_of b l = Some t \<and> E l = Some k \<or> t = pos_of as (length as) \<and> nextd (ds @ ds') d' (length as) = Some k"
  shows "flow_inv b' (as @ as') (ds @ ds') (d', E')"
proof -
  have old: "depth_ok (site_argc b') E' (as @ as') (ds @ ds') d' i" if i: "i < length as" for i
  proof (rule depth_ok_later)
    show "asm_effect (site_argc b') (as ! i) = asm_effect (site_argc b) (as ! i)"
      by (rule asm_effect_sites [OF _ sites]) (use inv i nth_mem in \<open>force simp: flow_inv_def\<close>)
  qed (use inv i E next' in \<open>auto simp: flow_inv_def\<close>)
  have "depth_ok (site_argc b') E' (as @ as') (ds @ ds') d' i" if "i < length (as @ as')" for i
    using old [of i] new [rule_format, of "i - length as"] that by (cases "i < length as") auto
  moreover have "\<exists>j \<le> length (as @ as'). t = pos_of (as @ as') j \<and> nextd (ds @ ds') d' j = Some k"
    if t: "lab_of b' l = Some t" "E' l = Some k" for l t k
  proof -
    consider "lab_of b l = Some t" "E l = Some k" | "t = pos_of as (length as)" "nextd (ds @ ds') d' (length as) = Some k" using labs [OF t] by blast
    then show ?thesis
    proof cases
      case 1
      then obtain j where "j \<le> length as" "t = pos_of as j" "nextd ds d j = Some k" using inv unfolding flow_inv_def fst_conv snd_conv by blast
      then show ?thesis using next' inv by (intro exI [of _ j]) (auto simp: flow_inv_def pos_of_append)
    next
      case 2
      then show ?thesis by (intro exI [of _ "length as"]) (auto simp: pos_of_append)
    qed
  qed
  moreover have "unat idx < length (ic_sites b')" if "Ins (Send idx su) \<in> set (as @ as')" for idx su
    using that inv sends sites by (fastforce simp: flow_inv_def)
  moreover have "nextd (ds @ ds') d' 0 = Some 0" using inv next' by (auto simp: flow_inv_def)
  ultimately show ?thesis using inv len by (auto simp: flow_inv_def)
qed

subsection \<open>Each call\<close>

definition jump_label :: "call \<Rightarrow> nat option" where
  "jump_label c = (case c of FwdTo _ l \<Rightarrow> Some l | BackTo l \<Rightarrow> Some l | _ \<Rightarrow> None)"

definition moves :: "call \<Rightarrow> bool" where
  "moves c \<longleftrightarrow> (\<exists>f. c = Collect f)"

lemma intern_literal_labels: "intern_literal v b = Some (idx, b1) \<Longrightarrow> labels b1 = labels b \<and> ic_sites b1 = ic_sites b \<and> n_ics b1 = n_ics b"
  by (auto simp: intern_literal_def Let_def split: option.splits bind_splits if_splits)

lemma plain_op_frame: "plain_op i b = Some b' \<Longrightarrow> labels b' = labels b \<and> ic_sites b' = ic_sites b"
  by (cases i) (auto simp: emit_defs)

lemma call_sites:
  assumes "do_call c b = Some b'" "\<not> moves c"
  shows "\<exists>ys. ic_sites b' = ic_sites b @ ys"
proof (cases c)
  case (Plain i)
  then show ?thesis using assms plain_op_frame by auto
next
  case (FwdTo k l)
  then show ?thesis using assms by (cases k) (auto simp: jump_fwd_def br_true_fwd_def br_false_fwd_def dest: emit_fwd_jump_frame)
qed (use assms in \<open>auto simp: moves_def push_literal_def push_global_def store_global_pop_def emit_literal_ref_def send_def send_super_def emit_send_def add_send_def
    push_closure_def intern_block_literal_def new_label_def bind_label_def jump_back_def note_line_def emit_defs Let_def
    dest!: intern_literal_labels split: bind_splits label_state.splits if_splits\<close>)

text \<open>A label's position is known only after it is bound, once; a forward jump goes to a label that is not bound.\<close>

lemma fwd_jump_labels:
  assumes "emit_fwd_jump op l b = Some b'" "asm_inv b as"
  shows "lab_of b l = None" "lab_of b' = lab_of b"
proof -
  show none: "lab_of b l = None"
  proof (rule ccontr)
    assume "lab_of b l \<noteq> None"
    then obtain t where t: "lab_of b l = Some t" by auto
    then have "t \<le> length (code b)" using lab_target_le [OF assms(2)] by simp
    then show False using assms(1) t
      by (auto simp: emit_fwd_jump_def emit_defs Let_def slice_get_def lab_of_def bind_eq_Some_conv split: if_splits label_state.splits)
  qed
  show "lab_of b' = lab_of b"
    using assms(1) none
    by (intro ext) (auto simp: emit_fwd_jump_def emit_defs Let_def slice_get_def lab_of_def nth_list_update bind_eq_Some_conv split: if_splits label_state.splits)
qed

lemma bind_labels:
  assumes "bind_label l b = Some b'"
  shows "lab_of b l = None" "lab_of b' = (lab_of b)(l \<mapsto> length (code b))"
  using assms by (auto simp: bind_label_def Let_def slice_get_def lab_of_def nth_list_update bind_eq_Some_conv split: if_splits label_state.splits intro!: ext)

lemma new_label_lab_of: "lab_of (snd (new_label b)) = lab_of b"
  by (intro ext) (auto simp: new_label_def lab_of_def nth_append)

lemma lab_of_cong: "labels b' = labels b \<Longrightarrow> lab_of b' = lab_of b"
  by (intro ext) (simp add: lab_of_def)

lemma call_labels:
  assumes "do_call c b = Some b'" "asm_inv b as"
  shows "lab_of b' = (case c of BindAt l \<Rightarrow> (lab_of b)(l \<mapsto> length (code b)) | _ \<Rightarrow> lab_of b)"
    and "c = FwdTo k l \<or> c = BindAt l \<Longrightarrow> lab_of b l = None"
proof -
  show "lab_of b' = (case c of BindAt l \<Rightarrow> (lab_of b)(l \<mapsto> length (code b)) | _ \<Rightarrow> lab_of b)"
  proof (cases c)
    case (Plain i)
    then have "labels b' = labels b" using assms(1) plain_op_frame by simp
    then show ?thesis using Plain by (simp add: lab_of_cong [of b' b])
  next
    case (FwdTo k l)
    then have "emit_fwd_jump (fwd_op k) l b = Some b'" using assms(1) by (cases k) (simp_all add: jump_fwd_def br_true_fwd_def br_false_fwd_def)
    then show ?thesis using fwd_jump_labels assms(2) FwdTo by simp
  next
    case (BindAt l)
    then show ?thesis using assms(1) bind_labels by simp
  next
    case NewLabel
    then show ?thesis using assms(1) new_label_lab_of by auto
  qed (use assms(1) in \<open>auto simp: push_literal_def push_global_def store_global_pop_def emit_literal_ref_def send_def send_super_def emit_send_def add_send_def
    push_closure_def intern_block_literal_def jump_back_def note_line_def relocate_def emit_defs Let_def
    dest!: intern_literal_labels split: bind_splits label_state.splits if_splits intro!: lab_of_cong\<close>)
  show "lab_of b l = None" if "c = FwdTo k l \<or> c = BindAt l"
  proof (cases "c = BindAt l")
    case True
    then show ?thesis using assms(1) bind_labels by simp
  next
    case False
    then have c: "c = FwdTo k l" using that by simp
    then have "emit_fwd_jump (fwd_op k) l b = Some b'" using assms(1) by (cases k) (simp_all add: jump_fwd_def br_true_fwd_def br_false_fwd_def)
    then show ?thesis using fwd_jump_labels assms(2) by blast
  qed
qed

text \<open>What a call emits is what \<^const>\<open>call_effect\<close> says of it.\<close>

lemma call_emits_asm:
  assumes "do_call c b = Some b'" "lit_inv b" "emitted c b = [a]"
  shows "asm_effect (site_argc b') a = call_effect c" "asm_falls a = call_falls c" "asm_label a = jump_label c"
    "\<forall>idx su. a = Ins (Send idx su) \<longrightarrow> unat idx < length (ic_sites b')"
proof -
  have plain: "instr_effect ac i = instr_effect ac' i \<and> (\<forall>idx su. i \<noteq> Send idx su)" if "plain_op i b = Some b'" for i ac ac'
    using that by (cases i) simp_all
  have snd: "unat (of_nat (n_ics b) :: u16) = length (ic_sites b) \<and> ic_sites b' = ic_sites b @ [(s, n)]"
    if "emit_send op op' s n b = Some b'" for op op' s n
    using that assms(2) by (auto simp: emit_send_def add_send_def lit_inv_def emit_defs unat_u16_small Let_def bind_eq_Some_conv split: if_splits)
  show "asm_effect (site_argc b') a = call_effect c"
  proof (cases c)
    case (Plain i)
    then show ?thesis using assms plain by (auto simp: asm_effect_def)
  next
    case (SendTo s n)
    then show ?thesis using assms(1,3) snd [of OP_SEND OP_SEND_W s n] by (auto simp: asm_effect_def send_def site_argc_def)
  next
    case (SendSuperTo s n)
    then show ?thesis using assms(1,3) snd [of OP_SEND_SUPER OP_SEND_SUPER_W s n] by (auto simp: asm_effect_def send_super_def site_argc_def)
  next
    case (FwdTo k l)
    then show ?thesis using assms by (cases k) (auto simp: asm_effect_def)
  qed (use assms in \<open>auto simp: asm_effect_def\<close>)
  show "asm_falls a = call_falls c"
  proof (cases c)
    case (FwdTo k l)
    then show ?thesis using assms by (cases k) (auto simp: asm_falls_def call_falls_def)
  qed (use assms in \<open>auto simp: asm_falls_def call_falls_def falls_through_def\<close>)
  show "asm_label a = jump_label c"
    using assms by (cases c) (auto simp: asm_label_def jump_label_def)
  show "\<forall>idx su. a = Ins (Send idx su) \<longrightarrow> unat idx < length (ic_sites b')"
  proof (cases c)
    case (Plain i)
    then show ?thesis using assms plain by auto
  next
    case (SendTo s n)
    then show ?thesis using assms(1,3) snd [of OP_SEND OP_SEND_W s n] by (auto simp: send_def)
  next
    case (SendSuperTo s n)
    then show ?thesis using assms(1,3) snd [of OP_SEND_SUPER OP_SEND_SUPER_W s n] by (auto simp: send_super_def)
  qed (use assms in auto)
qed

lemma call_silent:
  assumes "emitted c b = []" "do_call c b = Some b'"
  shows "call_effect c = (0, 0)" "call_falls c" "jump_label c = None"
  using assms by (cases c; auto simp: call_falls_def jump_label_def)+

lemma agree_le: "agree l k E = Some E' \<Longrightarrow> E \<subseteq>\<^sub>m E' \<and> E' l = Some k \<and> (\<forall>x. x \<noteq> l \<longrightarrow> E' x = E x)"
  by (auto simp: agree_def map_le_def split: option.splits if_splits)

lemma label_effect_le:
  assumes "label_effect c k E = Some E'"
  shows "E \<subseteq>\<^sub>m E'" "\<And>l. jump_label c = Some l \<Longrightarrow> E' l = Some k" "\<And>l. c = BindAt l \<Longrightarrow> E' l = Some k"
    "\<And>l. E' l \<noteq> E l \<Longrightarrow> (\<exists>fk. c = FwdTo fk l) \<or> c = BindAt l"
  using assms by (auto simp: label_effect_def jump_label_def dest: agree_le split: call.splits if_splits) (metis agree_le)+

lemma flow1_inv:
  assumes inv: "flow_inv b as ds s" and bld: "building b as" and lits: "length (literals b) \<le> 65536"
    and c: "do_call c b = Some b'" "\<not> moves c" and fl: "flow1 c s = Some s'"
  shows "flow_inv b' (as @ emitted c b) (ds @ replicate (length (emitted c b)) (fst s)) s'"
proof -
  obtain d E d' E' where s: "s = (d, E)" "s' = (d', E')" by fastforce
  have asm: "asm_inv b as" and lit: "lit_inv b" using building_inv [OF bld] lits by auto
  have len: "length ds = length as" using inv by (simp add: flow_inv_def)
  have pos: "length (code b) = pos_of as (length as)" using asm by (simp add: asm_inv_def pos_of_length)
  note labs = call_labels [OF c(1) asm]
  let ?as = "emitted c b" and ?ds = "replicate (length (emitted c b)) d"
  have len1: "length ?as \<le> 1" by (cases c) simp_all
  have dead: "d' = (case c of BindAt l \<Rightarrow> E l | _ \<Rightarrow> None) \<and> E' = E" if "d = None"
    using fl that by (simp add: s flow1_def)
  have live: "fst (call_effect c) \<le> k \<and> label_effect c (k - fst (call_effect c) + snd (call_effect c)) E = Some E' \<and>
      d' = (if call_falls c then Some (k - fst (call_effect c) + snd (call_effect c)) else None)" if "d = Some k" for k
    using fl that by (auto simp: s flow1_def Let_def split: if_splits prod.splits)
  have le: "E \<subseteq>\<^sub>m E'" using dead live label_effect_le(1) by (cases d) auto
  have keep: "d' = Some k" if "d = Some k" "?as = []" for k using live [OF that(1)] call_silent [OF that(2) c(1)] by simp
  have nx: "nextd (ds @ ?ds) d' j = Some k" if "j \<le> length ds" "nextd ds d j = Some k" for j k
    using that keep len1 by (cases "?as") (auto simp: nextd_def nth_append split: if_splits)
  have new: "depth_ok (site_argc b') E' (as @ ?as) (ds @ ?ds) d' (length as + i)" if i: "i < length ?as" for i
  proof -
    obtain a where a: "?as = [a]" "i = 0" using i len1 by (cases ?as) auto
    note em = call_emits_asm [OF c(1) lit a(1)]
    show ?thesis
      unfolding depth_ok_def using a len em live label_effect_le(2) by (auto simp: nextd_def nth_append Let_def split: prod.splits)
  qed
  have lb: "lab_of b l = Some t \<and> E l = Some k \<or> t = pos_of as (length as) \<and> nextd (ds @ ?ds) d' (length as) = Some k"
    if t: "lab_of b' l = Some t" "E' l = Some k" for l t k
  proof (cases "c = BindAt l")
    case True
    then have "t = pos_of as (length as)" using t(1) labs(1) pos by simp
    moreover have "d' = Some k"
    proof (cases d)
      case (Some e)
      then show ?thesis using live [OF Some] label_effect_le(3) [of c _ E E' l] True t(2) by (auto simp: call_falls_def)
    qed (use True dead t(2) in auto)
    ultimately show ?thesis using True len by (simp add: nextd_def)
  next
    case False
    then have old: "lab_of b l = Some t" using t(1) labs(1) by (auto split: call.splits if_splits)
    moreover have "E' l = E l"
      using dead live label_effect_le(4) False labs(2) old by (cases d) fastforce+
    ultimately show ?thesis using t(2) by simp
  qed
  have sends: "\<forall>idx su. Ins (Send idx su) \<in> set ?as \<longrightarrow> unat idx < length (ic_sites b')"
  proof (cases ?as)
    case (Cons a xs)
    then have "?as = [a]" using len1 by simp
    then show ?thesis using call_emits_asm(4) [OF c(1) lit] by auto
  qed simp
  show ?thesis unfolding s fst_conv
    by (rule flow_inv_later [OF inv [unfolded s] le call_sites [OF c] nx _ _ sends lb]) (use new in auto)
qed

lemma flow_inv_start: "flow_inv new_builder [] [] (Some 0, Map.empty)"
  by (simp add: flow_inv_def nextd_def)

lemma do_calls_literals: "do_calls cs b = Some b' \<Longrightarrow> lit_inv b \<Longrightarrow> length (literals b) \<le> length (literals b')"
proof (induction cs arbitrary: b)
  case (Cons c cs)
  then obtain b1 where "do_call c b = Some b1" "do_calls cs b1 = Some b'" by (auto simp: bind_eq_Some_conv)
  with Cons show ?case using lit_inv_call by fastforce
qed simp

lemma flow_inv_calls:
  assumes "do_calls cs b = Some b'" "flow cs s = Some s'" "flow_inv b as ds s" "building b as" "\<forall>c \<in> set cs. \<not> moves c" "length (literals b') \<le> 65536"
  shows "\<exists>as' ds'. flow_inv b' as' ds' s' \<and> building b' as'"
  using assms
proof (induction cs arbitrary: b s as ds)
  case (Cons c cs)
  obtain b1 where b1: "do_call c b = Some b1" "do_calls cs b1 = Some b'" using Cons.prems(1) by (auto simp: bind_eq_Some_conv)
  obtain s1 where s1: "flow1 c s = Some s1" "flow cs s1 = Some s'" using Cons.prems(2) by (auto simp: bind_eq_Some_conv)
  have "length (literals b) \<le> 65536"
    using do_calls_literals [OF Cons.prems(1)] building_inv [OF Cons.prems(4)] Cons.prems(6) by linarith
  then have "flow_inv b1 (as @ emitted c b) (ds @ replicate (length (emitted c b)) (fst s)) s1"
    using flow1_inv [OF Cons.prems(3,4) _ b1(1) _ s1(1)] Cons.prems(5) by simp
  moreover have "building b1 (as @ emitted c b)" by (rule building_call [OF Cons.prems(4) b1(1)])
  ultimately show ?case using Cons.IH [OF b1(2) s1(2)] Cons.prems(5,6) by simp
qed auto

lemma asm_size_pos: "0 < asm_size a"
proof (cases a)
  case (Ins i)
  then show ?thesis by (cases i rule: instr_bytes.cases) auto
qed simp_all

lemma pos_of_strict: "i < j \<Longrightarrow> j \<le> length as \<Longrightarrow> pos_of as i < pos_of as j"
proof (induction j)
  case (Suc j)
  have "pos_of as j < pos_of as (Suc j)" using Suc.prems asm_size_pos by (simp add: pos_of_Suc)
  then show ?case using Suc by (cases "i = j") auto
qed simp

lemma pos_of_inj: "i \<le> length as \<Longrightarrow> j \<le> length as \<Longrightarrow> pos_of as i = pos_of as j \<Longrightarrow> i = j"
  by (metis linorder_neqE_nat nat_neq_iff pos_of_strict)

subsection \<open>The inline-cache array and the finished method\<close>

lemma fill_ics_spec:
  assumes "fill_ics nil_obj i sites ics = Some ics'"
  shows "length ics' = length ics \<and> (\<forall>j < i * IC_STRIDE. ics' ! j = ics ! j) \<and>
    (\<forall>j < length sites. smi_value (ics' ! ((i + j) * IC_STRIDE + IC_META_OFFSET)) = uint (snd (sites ! j)))"
  using assms
proof (induction sites arbitrary: i ics)
  case (Cons x sites)
  obtain sel ac where x: "x = (sel, ac)" by fastforce
  obtain meta ics1 where meta: "smi_new (push_bit IC_META_ARGC_SHIFT (uint ac)) = Some meta"
    and ics1: "ics1 = ics[i * 4 := sel, i * 4 + 1 := meta, i * 4 + 2 := nil_obj, i * 4 + 3 := nil_obj]" "i * 4 + 3 < length ics"
    and rest: "fill_ics nil_obj (i + 1) sites ics1 = Some ics'"
    using Cons.prems by (auto simp: x at_put_def IC_STRIDE_def IC_SEL_OFFSET_def IC_META_OFFSET_def IC_GUARD_OFFSET_def IC_TARGET_OFFSET_def
      Let_def bind_eq_Some_conv split: if_splits)
  have val: "smi_value meta = uint ac" using meta smi_try_new_SomeD by (simp add: smi_new_eq IC_META_ARGC_SHIFT_def)
  note ih = Cons.IH [OF rest]
  have one: "ics' ! (i * 4 + 1) = meta" using ih ics1 by (simp add: IC_STRIDE_def)
  have "smi_value (ics' ! ((i + j) * IC_STRIDE + IC_META_OFFSET)) = uint (snd ((x # sites) ! j))" if "j < length (x # sites)" for j
    using ih that one val x by (cases j) (auto simp: IC_STRIDE_def IC_META_OFFSET_def)
  moreover have "\<forall>j < i * IC_STRIDE. ics' ! j = ics ! j" using ih ics1 by (simp add: IC_STRIDE_def)
  ultimately show ?case using ih ics1(1) by simp
qed simp

lemma finish_sites:
  assumes "finish nil_obj sel ac nt b = Some m" "idx < length (ic_sites b)"
  shows "ic_argc m idx = site_argc b idx"
proof -
  from assms(1) obtain ics zero where
    "fill_ics nil_obj 0 (ic_sites b) (replicate (n_ics b * IC_STRIDE) nil_obj) = Some ics"
    and fl: "set_flags ac nt False False False False 0
       \<lparr>m_selector = sel, m_holder = nil_obj, m_flags = zero, m_primitive = zero,
        m_counters = zero, m_literals = literals b, m_ics = ics, m_bytes = code b\<rparr> = Some m"
    by (auto simp: finish_def bind_eq_Some_conv)
  moreover have "m_ics m = ics" by (subst set_flags_bytes [OF fl]) simp
  ultimately show ?thesis using fill_ics_spec [of nil_obj 0 "ic_sites b"] assms(2) by (simp add: ic_argc_def site_argc_def)
qed

lemma resolve_effect:
  "instr_effect ac (resolve_asm lab pos a) = asm_effect ac a" "falls_through (resolve_asm lab pos a) = asm_falls a"
proof -
  show "instr_effect ac (resolve_asm lab pos a) = asm_effect ac a"
  proof (cases a)
    case (Fwd k l)
    then show ?thesis by (cases k) (simp_all add: asm_effect_def)
  qed (simp_all add: asm_effect_def)
  show "falls_through (resolve_asm lab pos a) = asm_falls a"
  proof (cases a)
    case (Fwd k l)
    then show ?thesis by (cases k) (simp_all add: asm_falls_def falls_through_def)
  qed (simp_all add: asm_falls_def falls_through_def)
qed

lemma asm_effect_ac:
  "(\<And>idx su. a = Ins (Send idx su) \<Longrightarrow> ac (unat idx) = ac' (unat idx)) \<Longrightarrow> asm_effect ac a = asm_effect ac' a"
proof (cases a)
  case (Ins i)
  assume "\<And>idx su. a = Ins (Send idx su) \<Longrightarrow> ac (unat idx) = ac' (unat idx)"
  with Ins show ?thesis by (cases i) (auto simp: asm_effect_def)
qed (auto simp: asm_effect_def)

lemma plain_not_jump: "building b as \<Longrightarrow> Ins i \<in> set as \<Longrightarrow> jump_target i n = None"
proof (induction rule: building.induct)
  case (building_call b as c b')
  have "jump_target i n = None" if "Ins i \<in> set (emitted c b)"
  proof (cases c)
    case (Plain j)
    then show ?thesis using that building_call.hyps(2) by (cases j) auto
  qed (use that in auto)
  then show ?case using building_call by auto
qed simp

text \<open>
  If the calls that build a method have a flow from the empty stack that does not run off the end, the finished method is stack safe.
\<close>

lemma flow_stack_safe:
  assumes run: "do_calls cs new_builder = Some b" "flow cs (Some 0, Map.empty) = Some (None, E)" "\<forall>c \<in> set cs. \<not> moves c"
    and lits: "length (literals b) \<le> 65536" and fin: "finish nil_obj sel ac nt b = Some m"
  shows "stack_safe m"
proof -
  obtain as ds where inv: "flow_inv b as ds (None, E)" and bld: "building b as"
    using flow_inv_calls [OF run(1,2) flow_inv_start building_new run(3) lits] by blast
  have asm: "asm_inv b as" using building_inv [OF bld] lits by simp
  note parts = finish_parts [OF fin]
  have code: "m_bytes m = layout (lab_of b) 0 as" using asm parts by (simp add: asm_inv_def)
  define D where "D p = (if \<exists>j < length as. p = pos_of as j then ds ! (THE j. j < length as \<and> p = pos_of as j) else None)" for p
  have D: "D (pos_of as j) = nextd ds None j" if "j \<le> length as" for j
  proof -
    have "(THE i. i < length as \<and> pos_of as j = pos_of as i) = j" if "j < length as"
      using that pos_of_inj [of _ as j] by (intro the_equality) (simp, metis less_imp_le)
    moreover have "\<not> (\<exists>i < length as. pos_of as j = pos_of as i)" if "\<not> j < length as" using that \<open>j \<le> length as\<close> pos_of_inj [of j as] by (metis less_imp_le)
    ultimately show ?thesis using inv by (auto simp: D_def nextd_def flow_inv_def)
  qed
  have D0: "D 0 = Some 0" using D [of 0] inv by (simp add: pos_of_def flow_inv_def)
  have step: "\<exists>i next. decode_at (m_bytes m) p = Some (i, next) \<and> (let (pops, pushes) = instr_effect (ic_argc m) i
         in pops \<le> d \<and> (\<forall>t \<in> successors i next. D t = Some (d - pops + pushes)))" if Dp: "D p = Some d" for p d
  proof -
    obtain j where j: "j < length as" "p = pos_of as j" using Dp by (auto simp: D_def split: if_splits)
    let ?a = "as ! j" and ?i = "resolve_asm (lab_of b) (pos_of as j) (as ! j)"
    have dj: "ds ! j = Some d" using Dp D [of j] j inv by (simp add: nextd_def flow_inv_def)
    have ok: "depth_ok (site_argc b) E as ds None j" using inv j by (simp add: flow_inv_def)
    have dec: "decode_at (m_bytes m) p = Some (?i, pos_of as (Suc j))" using layout_decode [OF j(1)] by (simp add: code j)
    have eff: "instr_effect (ic_argc m) ?i = asm_effect (site_argc b) ?a"
      unfolding resolve_effect
      by (rule asm_effect_ac) (use inv j finish_sites [OF fin] nth_mem [OF j(1)] in \<open>force simp: flow_inv_def\<close>)
    obtain pops pushes where pp: "asm_effect (site_argc b) ?a = (pops, pushes)" by fastforce
    have "D t = Some (d - pops + pushes)" if t: "t \<in> successors ?i (pos_of as (Suc j))" for t
    proof (cases "asm_falls ?a \<and> t = pos_of as (Suc j)")
      case True
      then show ?thesis using ok dj pp D [of "Suc j"] j by (simp add: depth_ok_def)
    next
      case False
      then have jt: "jump_target ?i (pos_of as (Suc j)) = Some t" using t by (auto simp: successors_def resolve_effect split: if_splits)
      then obtain l where l: "asm_label ?a = Some l" "(\<exists>fk. ?a = Fwd fk l) \<or> ?a = Back l"
        using plain_not_jump [OF bld] nth_mem [OF j(1)] by (cases ?a) (auto simp: asm_label_def)
      obtain t' where t': "labels b ! l = Bound t'" "jump_target ?i (pos_of as (Suc j)) = Some t'"
        using jump_lands [OF asm _ j(1) l(2)] parts by blast
      have "l < length (labels b)" using asm prog_ok_nth [OF _ j(1), of "lab_of b" _ 0] l(2) by (auto simp: asm_inv_def)
      then have "lab_of b l = Some t" using t' jt by (simp add: lab_of_def)
      moreover have "E l = Some (d - pops + pushes)" using ok dj pp l(1) by (simp add: depth_ok_def)
      ultimately show ?thesis using inv D unfolding flow_inv_def fst_conv snd_conv by metis
    qed
    moreover have "pops \<le> d" using ok dj pp by (simp add: depth_ok_def)
    ultimately show ?thesis using dec eff pp by simp
  qed
  show ?thesis unfolding stack_safe_def using D0 step by blast
qed

end
