(* ===== verification/Codegen_Sound.thy ===== *)
theory Codegen_Sound
  imports Codegen Stack_Flow
begin

text \<open>
  The code generator emits stack-safe code. Every emitting function is given its effect on the depth of the operand stack (\<open>emits\<close>):
  the assembler calls it makes can be entered at any depth that has the operands, keep what is below, and use only labels of their own.
  The effects compose along \<^const>\<open>steps\<close>, and the inlined control structures have one lemma per shape (two arms, loop, endless loop).
  The locale \<open>code_memory\<close> is what the generator relies on from the machine, \<open>expr_emitter\<close> what the statements rely on from \<open>emit_expr\<close>;
  both are interpreted on the model, the first with a machine that keeps the blocks it was asked to allocate.
\<close>

subsection \<open>Code pieces and their effect on the depth\<close>

primrec nlabels :: "call list \<Rightarrow> nat" where
  "nlabels [] = 0"
| "nlabels (c # cs) = (if c = NewLabel then 1 else 0) + nlabels cs"

lemma nlabels_append [simp]: "nlabels (cs @ cs') = nlabels cs + nlabels cs'"
  by (induction cs) auto

text \<open>
  \<open>piece a b n cs\<close>: the calls \<open>cs\<close>, made when there are \<open>n\<close> labels, take \<open>a\<close> operands and leave \<open>b\<close>, or never fall through
  (\<open>None\<close>); they do not touch the labels there were, and unreached they stay unreached.
\<close>

definition leaves :: "nat \<Rightarrow> nat option \<Rightarrow> nat option \<Rightarrow> bool" where
  "leaves k b d \<longleftrightarrow> d = None \<or> (\<exists>j. b = Some j \<and> d = Some (k + j))"

definition fresh_labels :: "nat \<Rightarrow> (nat \<rightharpoonup> nat) \<Rightarrow> bool" where
  "fresh_labels n E \<longleftrightarrow> (\<forall>l \<ge> n. E l = None)"

definition piece :: "nat \<Rightarrow> nat option \<Rightarrow> nat \<Rightarrow> call list \<Rightarrow> bool" where
  "piece a b n cs \<longleftrightarrow> (\<forall>E. fresh_labels n E \<longrightarrow> flow cs (None, E) = Some (None, E) \<and>
     (\<forall>k. \<exists>d E'. flow cs (Some (k + a), E) = Some (d, E') \<and> leaves k b d \<and> fresh_labels (n + nlabels cs) E' \<and> (\<forall>l < n. E' l = E l)))"

lemma piece_dead: "piece a b n cs \<Longrightarrow> fresh_labels n E \<Longrightarrow> flow cs (None, E) = Some (None, E)"
  by (simp add: piece_def)

lemma piece_live:
  assumes "piece a b n cs" "fresh_labels n E"
  obtains d E' where "flow cs (Some (k + a), E) = Some (d, E')" "leaves k b d" "fresh_labels (n + nlabels cs) E'" "\<And>l. l < n \<Longrightarrow> E' l = E l"
  using assms unfolding piece_def by blast

lemma pieceI:
  assumes "\<And>E. fresh_labels n E \<Longrightarrow> flow cs (None, E) = Some (None, E)"
    and "\<And>E k. fresh_labels n E \<Longrightarrow> \<exists>d E'. flow cs (Some (k + a), E) = Some (d, E') \<and> leaves k b d \<and> fresh_labels (n + nlabels cs) E' \<and> (\<forall>l < n. E' l = E l)"
  shows "piece a b n cs"
  using assms by (simp add: piece_def)

lemma fresh_labels_mono: "fresh_labels n E \<Longrightarrow> n \<le> n' \<Longrightarrow> fresh_labels n' E"
  by (simp add: fresh_labels_def)

lemma fresh_labels_upd: "fresh_labels n E \<Longrightarrow> l < n \<Longrightarrow> fresh_labels n (E(l \<mapsto> k))"
  by (simp add: fresh_labels_def)

lemma piece_Nil: "piece a (Some a) n []"
  by (rule pieceI) (simp_all add: leaves_def)

lemma piece_append:
  assumes "piece a (Some b) n cs" "piece b c (n + nlabels cs) cs'"
  shows "piece a c n (cs @ cs')"
proof (rule pieceI)
  fix E k
  assume E: "fresh_labels n E"
  show "flow (cs @ cs') (None, E) = Some (None, E)"
    using piece_dead [OF assms(1) E] piece_dead [OF assms(2) fresh_labels_mono [OF E]] by (simp add: flow_append)
  obtain d E1 where 1: "flow cs (Some (k + a), E) = Some (d, E1)" "leaves k (Some b) d" "fresh_labels (n + nlabels cs) E1" "\<And>l. l < n \<Longrightarrow> E1 l = E l"
    using piece_live [OF assms(1) E, of k] by blast
  show "\<exists>d E'. flow (cs @ cs') (Some (k + a), E) = Some (d, E') \<and> leaves k c d \<and> fresh_labels (n + nlabels (cs @ cs')) E' \<and> (\<forall>l < n. E' l = E l)"
  proof (cases d)
    case None
    then show ?thesis
      using 1 piece_dead [OF assms(2) 1(3)] fresh_labels_mono [OF 1(3)] by (auto simp: flow_append leaves_def)
  next
    case (Some x)
    then have x: "d = Some (k + b)" using 1(2) by (simp add: leaves_def)
    obtain d' E2 where "flow cs' (Some (k + b), E1) = Some (d', E2)" "leaves k c d'" "fresh_labels (n + nlabels cs + nlabels cs') E2" "\<And>l. l < n + nlabels cs \<Longrightarrow> E2 l = E1 l"
      using piece_live [OF assms(2) 1(3), of k] by blast
    then show ?thesis using 1 x by (auto simp: flow_append add.assoc)
  qed
qed

text \<open>Code after a piece that never falls through is not reached.\<close>

lemma piece_append_dead:
  assumes "piece a None n cs" "piece b c (n + nlabels cs) cs'"
  shows "piece a None n (cs @ cs')"
proof (rule pieceI)
  fix E k
  assume E: "fresh_labels n E"
  show "flow (cs @ cs') (None, E) = Some (None, E)"
    using piece_dead [OF assms(1) E] piece_dead [OF assms(2) fresh_labels_mono [OF E]] by (simp add: flow_append)
  obtain d E1 where 1: "flow cs (Some (k + a), E) = Some (d, E1)" "leaves k None d" "fresh_labels (n + nlabels cs) E1" "\<And>l. l < n \<Longrightarrow> E1 l = E l"
    using piece_live [OF assms(1) E, of k] by blast
  then show "\<exists>d E'. flow (cs @ cs') (Some (k + a), E) = Some (d, E') \<and> leaves k None d \<and> fresh_labels (n + nlabels (cs @ cs')) E' \<and> (\<forall>l < n. E' l = E l)"
    using piece_dead [OF assms(2) 1(3)] fresh_labels_mono [OF 1(3)] by (auto simp: flow_append leaves_def)
qed

lemma piece_weaken:
  assumes "piece a b n cs" "\<And>k d. leaves (k + j) b d \<Longrightarrow> leaves k b' d"
  shows "piece (j + a) b' n cs"
proof (rule pieceI)
  fix E k
  assume E: "fresh_labels n E"
  show "flow cs (None, E) = Some (None, E)" by (rule piece_dead [OF assms(1) E])
  obtain d E1 where "flow cs (Some (k + j + a), E) = Some (d, E1)" "leaves (k + j) b d" "fresh_labels (n + nlabels cs) E1" "\<And>l. l < n \<Longrightarrow> E1 l = E l"
    using piece_live [OF assms(1) E, of "k + j"] by blast
  then show "\<exists>d E'. flow cs (Some (k + (j + a)), E) = Some (d, E') \<and> leaves k b' d \<and> fresh_labels (n + nlabels cs) E' \<and> (\<forall>l < n. E' l = E l)"
    using assms(2) by (intro exI [of _ d] exI [of _ E1]) (simp add: add.assoc)
qed

lemma piece_never: "piece a None n cs \<Longrightarrow> piece a b n cs"
  using piece_weaken [of a None n cs 0 b] by (simp add: leaves_def)

lemma piece_frame: "piece a b n cs \<Longrightarrow> piece (j + a) (map_option ((+) j) b) n cs"
  by (erule piece_weaken) (auto simp: leaves_def)

definition label_call :: "call \<Rightarrow> bool" where
  "label_call c \<longleftrightarrow> (case c of NewLabel \<Rightarrow> True | BindAt _ \<Rightarrow> True | FwdTo _ _ \<Rightarrow> True | BackTo _ \<Rightarrow> True | _ \<Rightarrow> False)"

lemma piece_call:
  assumes "\<not> label_call c" "call_effect c = (p, q)"
  shows "piece (j + p) (if call_falls c then Some (j + q) else None) n [c]"
proof (rule pieceI)
  show "flow [c] (None, E) = Some (None, E)" for E
    using assms(1) by (cases c) (simp_all add: flow1_def label_call_def)
  have "label_effect c k E = Some E" for k E
    using assms(1) by (cases c) (simp_all add: label_effect_def label_call_def)
  then show "\<exists>d E'. flow [c] (Some (k + (j + p)), E) = Some (d, E') \<and> leaves k (if call_falls c then Some (j + q) else None) d \<and>
      fresh_labels (n + nlabels [c]) E' \<and> (\<forall>l < n. E' l = E l)" if "fresh_labels n E" for E k
    using that assms by (cases c) (auto simp: flow1_def leaves_def label_call_def)
qed

subsection \<open>Emitting functions\<close>

text \<open>
  \<open>does I f Q\<close>: a run of \<open>f\<close> that ends well makes calls for which \<open>Q\<close> holds (given the number of labels before), and keeps \<open>I\<close> of the machine.
\<close>

definition does :: "('vm \<Rightarrow> bool) \<Rightarrow> 'vm emitter \<Rightarrow> (nat \<Rightarrow> call list \<Rightarrow> bool) \<Rightarrow> bool" where
  "does I f Q \<longleftrightarrow> (\<forall>st st'. I (cg_vm st) \<longrightarrow> f st = Inr st' \<longrightarrow> I (cg_vm st') \<and>
     (\<exists>cs. do_calls cs (cg_builder st) = Some (cg_builder st') \<and> (\<forall>c \<in> set cs. \<not> moves c) \<and> Q (length (labels (cg_builder st))) cs))"

definition emits :: "('vm \<Rightarrow> bool) \<Rightarrow> nat \<Rightarrow> nat option \<Rightarrow> 'vm emitter \<Rightarrow> bool" where
  "emits I a b f \<longleftrightarrow> does I f (piece a b)"

lemma doesI:
  assumes "\<And>st st'. I (cg_vm st) \<Longrightarrow> f st = Inr st' \<Longrightarrow> I (cg_vm st') \<and>
     (\<exists>cs. do_calls cs (cg_builder st) = Some (cg_builder st') \<and> (\<forall>c \<in> set cs. \<not> moves c) \<and> Q (length (labels (cg_builder st))) cs)"
  shows "does I f Q"
  using assms by (simp add: does_def)

lemma doesE:
  assumes "does I f Q" "I (cg_vm st)" "f st = Inr st'"
  obtains cs where "I (cg_vm st')" "do_calls cs (cg_builder st) = Some (cg_builder st')" "\<forall>c \<in> set cs. \<not> moves c" "Q (length (labels (cg_builder st))) cs"
  using assms unfolding does_def by blast

lemma does_mono: "does I f Q \<Longrightarrow> (\<And>n cs. Q n cs \<Longrightarrow> Q' n cs) \<Longrightarrow> does I f Q'"
  unfolding does_def by blast

lemma call_nlabels:
  assumes "do_call c b = Some b'"
  shows "length (labels b') = length (labels b) + (if c = NewLabel then 1 else 0)"
proof (cases c)
  case (Plain i)
  then show ?thesis using assms plain_op_frame by simp
next
  case (FwdTo k l)
  then have "emit_fwd_jump (fwd_op k) l b = Some b'" using assms by (cases k) (simp_all add: jump_fwd_def br_true_fwd_def br_false_fwd_def)
  then show ?thesis using FwdTo
    by (auto simp: emit_fwd_jump_def emit_defs Let_def slice_get_def bind_eq_Some_conv split: if_splits label_state.splits)
qed (use assms in \<open>auto simp: push_literal_def push_global_def store_global_pop_def emit_literal_ref_def send_def send_super_def emit_send_def add_send_def
    push_closure_def intern_block_literal_def new_label_def bind_label_def jump_back_def note_line_def relocate_def emit_defs Let_def
    dest!: intern_literal_labels split: bind_splits label_state.splits if_splits\<close>)

lemma calls_nlabels: "do_calls cs b = Some b' \<Longrightarrow> length (labels b') = length (labels b) + nlabels cs"
proof (induction cs arbitrary: b)
  case (Cons c cs)
  then obtain b1 where "do_call c b = Some b1" "do_calls cs b1 = Some b'" by (auto simp: bind_eq_Some_conv)
  with Cons.IH call_nlabels show ?case by fastforce
qed simp

lemma does_Nil: "does I (steps []) (\<lambda>n cs. cs = [])"
  by (rule doesI) auto

lemma does_Cons:
  assumes "does I f Q" "does I (steps fs) R"
  shows "does I (steps (f # fs)) (\<lambda>n cs. \<exists>c1 c2. cs = c1 @ c2 \<and> Q n c1 \<and> R (n + nlabels c1) c2)"
proof (rule doesI)
  fix st st'
  assume I: "I (cg_vm st)" and run: "steps (f # fs) st = Inr st'"
  then obtain s1 where s1: "f st = Inr s1" "steps fs s1 = Inr st'" by (auto simp: rbind_def split: sum.splits)
  obtain c1 where c1: "I (cg_vm s1)" "do_calls c1 (cg_builder st) = Some (cg_builder s1)" "\<forall>c \<in> set c1. \<not> moves c" "Q (length (labels (cg_builder st))) c1"
    by (rule doesE [OF assms(1) I s1(1)])
  obtain c2 where c2: "I (cg_vm st')" "do_calls c2 (cg_builder s1) = Some (cg_builder st')" "\<forall>c \<in> set c2. \<not> moves c" "R (length (labels (cg_builder s1))) c2"
    by (rule doesE [OF assms(2) c1(1) s1(2)])
  have "do_calls (c1 @ c2) (cg_builder st) = Some (cg_builder st')" using c1(2) c2(2) by (simp add: do_calls_append)
  moreover have "R (length (labels (cg_builder st)) + nlabels c1) c2" using c2(4) calls_nlabels [OF c1(2)] by simp
  ultimately show "I (cg_vm st') \<and> (\<exists>cs. do_calls cs (cg_builder st) = Some (cg_builder st') \<and> (\<forall>c \<in> set cs. \<not> moves c) \<and>
      (\<exists>c1 c2. cs = c1 @ c2 \<and> Q (length (labels (cg_builder st))) c1 \<and> R (length (labels (cg_builder st)) + nlabels c1) c2))"
    using c1 c2 by (metis Un_iff set_append)
qed

lemma steps_append: "steps (fs @ gs) = steps [steps fs, steps gs]"
  by (rule ext, induction fs) (simp_all add: rbind_def split: sum.splits)

lemma steps_nested: "steps (steps fs # gs) = steps (fs @ gs)"
proof (rule ext)
  show "steps (steps fs # gs) st = steps (fs @ gs) st" for st
    by (induction fs arbitrary: st) (auto simp: rbind_def split: sum.splits)
qed

lemma does_bp: "(\<And>b. do_call c b = Some (f b)) \<Longrightarrow> \<not> moves c \<Longrightarrow> does I (bp f) (\<lambda>n cs. cs = [c])"
  by (rule doesI) (auto simp: bp_def)

lemma does_bo: "(\<And>b. do_call c b = f b) \<Longrightarrow> \<not> moves c \<Longrightarrow> does I (bo f) (\<lambda>n cs. cs = [c])"
  by (rule doesI) (auto simp: bo_def split: option.splits)

lemma does_with_label:
  assumes "\<And>l. does I (k l) (Q l)"
  shows "does I (with_label k) (\<lambda>n cs. \<exists>cs'. cs = NewLabel # cs' \<and> Q n (n + 1) cs')"
proof (rule doesI)
  fix st st'
  assume I: "I (cg_vm st)" and run: "with_label k st = Inr st'"
  let ?l = "length (labels (cg_builder st))" and ?b = "snd (new_label (cg_builder st))"
  have r: "k ?l (st\<lparr>cg_builder := ?b\<rparr>) = Inr st'" using run by (simp add: with_label_def new_label_def)
  obtain cs where cs: "I (cg_vm st')" "do_calls cs ?b = Some (cg_builder st')" "\<forall>c \<in> set cs. \<not> moves c" "Q ?l (length (labels ?b)) cs"
    by (rule doesE [OF assms _ r]) (use I in simp_all)
  then have "do_calls (NewLabel # cs) (cg_builder st) = Some (cg_builder st')" "Q ?l (?l + 1) cs" by (simp_all add: new_label_def)
  then show "I (cg_vm st') \<and> (\<exists>cs. do_calls cs (cg_builder st) = Some (cg_builder st') \<and> (\<forall>c \<in> set cs. \<not> moves c) \<and> (\<exists>cs'. cs = NewLabel # cs' \<and> Q ?l (?l + 1) cs'))"
    using cs by (intro conjI exI [of _ "NewLabel # cs"] exI [of _ cs]) (simp_all add: moves_def)
qed

lemma does_state:
  assumes "\<And>st. I (cg_vm st) \<Longrightarrow> \<exists>st0. I (cg_vm st0) \<and> cg_builder st0 = cg_builder st \<and> (\<exists>g. does I g Q \<and> f st = g st0)"
  shows "does I f Q"
proof (rule doesI)
  fix st st'
  assume "I (cg_vm st)" "f st = Inr st'"
  then obtain st0 g where g: "I (cg_vm st0)" "cg_builder st0 = cg_builder st" "does I g Q" "g st0 = Inr st'" using assms by metis
  show "I (cg_vm st') \<and> (\<exists>cs. do_calls cs (cg_builder st) = Some (cg_builder st') \<and> (\<forall>c \<in> set cs. \<not> moves c) \<and> Q (length (labels (cg_builder st))) cs)"
    by (rule doesE [OF g(3,1,4)]) (use g(2) in auto)
qed

subsection \<open>The shapes of inlined control flow\<close>

text \<open>A branch over the first arm, the first arm, a jump over the second; labels \<open>n\<close> and \<open>n + 1\<close> belong to the shape.\<close>

lemma piece_arms:
  assumes c1: "piece a b (n + 2) c1" and c2: "piece a b (n + 2 + nlabels c1) c2" and k: "fk \<noteq> FJump"
  shows "piece (Suc a) b n ([NewLabel, NewLabel, FwdTo fk n] @ c1 @ [FwdTo FJump (n + 1), BindAt n] @ c2 @ [BindAt (n + 1)])" (is "piece _ _ _ ?cs")
proof (rule pieceI)
  fix E j
  assume E: "fresh_labels n E"
  have nl: "nlabels ?cs = 2 + nlabels c1 + nlabels c2" by simp
  have En: "E n = None" "E (Suc n) = None" using E by (simp_all add: fresh_labels_def)
  have eff: "call_effect (FwdTo fk n) = (1, 0)" "call_falls (FwdTo fk n)" using k by (cases fk; simp add: call_falls_def)+
  have E2: "fresh_labels (n + 2) E" using fresh_labels_mono [OF E] by simp
  show "flow ?cs (None, E) = Some (None, E)"
    using piece_dead [OF c1 E2] piece_dead [OF c2 fresh_labels_mono [OF E2]] En by (simp add: flow_append flow1_def)
  let ?E0 = "E(n \<mapsto> j + a)"
  have E0: "fresh_labels (n + 2) ?E0" using fresh_labels_upd [OF E2] by simp
  obtain d1 E1 where 1: "flow c1 (Some (j + a), ?E0) = Some (d1, E1)" "leaves j b d1" "fresh_labels (n + 2 + nlabels c1) E1" "\<And>l. l < n + 2 \<Longrightarrow> E1 l = ?E0 l"
    using piece_live [OF c1 E0, of j] by blast
  have start: "flow (NewLabel # NewLabel # FwdTo fk n # c1 @ r) (Some (j + Suc a), E) = flow r (d1, E1)" for r
    using 1(1) eff En by (simp add: flow_append flow1_def label_effect_def agree_def call_falls_def)
  define E2 where "E2 = (case d1 of None \<Rightarrow> E1 | Some x \<Rightarrow> E1(n + 1 \<mapsto> x))"
  have mid: "flow (FwdTo FJump (n + 1) # BindAt n # r) (d1, E1) = flow r (Some (j + a), E2)" for r
    using 1(4) [of n] 1(4) [of "n + 1"] En by (cases d1) (simp_all add: E2_def flow1_def label_effect_def agree_def call_falls_def)
  have f2: "fresh_labels (n + 2 + nlabels c1) E2" using 1(3) by (cases d1) (simp_all add: E2_def fresh_labels_def)
  obtain d2 E3 where 2: "flow c2 (Some (j + a), E2) = Some (d2, E3)" "leaves j b d2" "fresh_labels (n + 2 + nlabels c1 + nlabels c2) E3" "\<And>l. l < n + 2 + nlabels c1 \<Longrightarrow> E3 l = E2 l"
    using piece_live [OF c2 f2, of j] by blast
  have l2: "E3 (n + 1) = d1" using 1(4) [of "n + 1"] 2(4) [of "n + 1"] En by (cases d1) (simp_all add: E2_def)
  define E4 where "E4 = (case d2 of None \<Rightarrow> E3 | Some x \<Rightarrow> E3(n + 1 \<mapsto> x))"
  have fin: "flow [BindAt (n + 1)] (d2, E3) = Some (if d2 = None then d1 else d2, E4)"
    using 1(2) 2(2) l2 by (cases d2; cases d1) (auto simp: E4_def flow1_def label_effect_def agree_def call_falls_def leaves_def fun_upd_idem_iff)
  have "flow ?cs (Some (j + Suc a), E) = Some (if d2 = None then d1 else d2, E4)"
    using start mid 2(1) fin by (simp add: flow_append)
  moreover have "leaves j b (if d2 = None then d1 else d2)" using 1(2) 2(2) by simp
  moreover have "fresh_labels (n + nlabels ?cs) E4" using 2(3) nl by (cases d2) (simp_all add: E4_def fresh_labels_def)
  moreover have "E4 l = E l" if "l < n" for l
    using that 1(4) [of l] 2(4) [of l] by (cases d1; cases d2) (simp_all add: E2_def E4_def)
  ultimately show "\<exists>d E'. flow ?cs (Some (j + Suc a), E) = Some (d, E') \<and> leaves j b d \<and> fresh_labels (n + nlabels ?cs) E' \<and> (\<forall>l < n. E' l = E l)"
    by blast
qed

text \<open>A loop with a test at its head, and one without.\<close>

lemma piece_loop:
  assumes t: "piece a (Some (Suc a)) (n + 2) t" and c: "piece a (Some a) (n + 2 + nlabels t) c" and k: "fk \<noteq> FJump"
  shows "piece a (Some a) n ([NewLabel, NewLabel, BindAt n] @ t @ [FwdTo fk (n + 1)] @ c @ [BackTo n, BindAt (n + 1)])" (is "piece _ _ _ ?cs")
proof (rule pieceI)
  fix E j
  assume E: "fresh_labels n E"
  have nl: "nlabels ?cs = 2 + nlabels t + nlabels c" by simp
  have En: "E n = None" "E (Suc n) = None" using E by (simp_all add: fresh_labels_def)
  have eff: "call_effect (FwdTo fk (Suc n)) = (1, 0)" "call_falls (FwdTo fk (Suc n))" using k by (cases fk; simp add: call_falls_def)+
  have E2: "fresh_labels (n + 2) E" using fresh_labels_mono [OF E] by simp
  show "flow ?cs (None, E) = Some (None, E)"
    using piece_dead [OF t E2] piece_dead [OF c fresh_labels_mono [OF E2]] En by (simp add: flow_append flow1_def)
  let ?E0 = "E(n \<mapsto> j + a)"
  have E0: "fresh_labels (n + 2) ?E0" using fresh_labels_upd [OF E2] by simp
  obtain d1 E1 where 1: "flow t (Some (j + a), ?E0) = Some (d1, E1)" "leaves j (Some (Suc a)) d1" "fresh_labels (n + 2 + nlabels t) E1" "\<And>l. l < n + 2 \<Longrightarrow> E1 l = ?E0 l"
    using piece_live [OF t E0, of j] by blast
  have start: "flow (NewLabel # NewLabel # BindAt n # t @ r) (Some (j + a), E) = flow r (d1, E1)" for r
    using 1(1) En by (simp add: flow_append flow1_def label_effect_def agree_def call_falls_def)
  show "\<exists>d E'. flow ?cs (Some (j + a), E) = Some (d, E') \<and> leaves j (Some a) d \<and> fresh_labels (n + nlabels ?cs) E' \<and> (\<forall>l < n. E' l = E l)"
  proof (cases d1)
    case None
    have "flow ?cs (Some (j + a), E) = Some (None, E1)"
      using start None piece_dead [OF c 1(3)] 1(4) [of "n + 1"] En by (simp add: flow_append flow1_def)
    moreover have "fresh_labels (n + nlabels ?cs) E1" using fresh_labels_mono [OF 1(3)] nl by simp
    ultimately show ?thesis using 1(4) by (auto simp: leaves_def)
  next
    case (Some x)
    then have x: "d1 = Some (j + Suc a)" using 1(2) by (simp add: leaves_def)
    let ?E2 = "E1(n + 1 \<mapsto> j + a)"
    have f2: "fresh_labels (n + 2 + nlabels t) ?E2" using 1(3) by (simp add: fresh_labels_def)
    obtain d2 E3 where 2: "flow c (Some (j + a), ?E2) = Some (d2, E3)" "leaves j (Some a) d2" "fresh_labels (n + 2 + nlabels t + nlabels c) E3" "\<And>l. l < n + 2 + nlabels t \<Longrightarrow> E3 l = ?E2 l"
      using piece_live [OF c f2, of j] by blast
    have l: "E3 n = Some (j + a)" "E3 (n + 1) = Some (j + a)" using 1(4) [of n] 2(4) [of n] 2(4) [of "n + 1"] by simp_all
    have "flow ?cs (Some (j + a), E) = Some (Some (j + a), E3)"
      using start x eff 1(4) [of "n + 1"] En 2(1,2) l
      by (auto simp: flow_append flow1_def label_effect_def agree_def call_falls_def leaves_def)
    moreover have "fresh_labels (n + nlabels ?cs) E3" using 2(3) nl by (simp add: add.assoc)
    moreover have "E3 l = E l" if "l < n" for l using that 1(4) [of l] 2(4) [of l] by simp
    ultimately show ?thesis by (auto simp: leaves_def)
  qed
qed

lemma piece_forever:
  assumes c: "piece a (Some a) (n + 1) c"
  shows "piece a None n ([NewLabel, BindAt n] @ c @ [BackTo n])" (is "piece _ _ _ ?cs")
proof (rule pieceI)
  fix E j
  assume E: "fresh_labels n E"
  have En: "E n = None" using E by (simp add: fresh_labels_def)
  have E1: "fresh_labels (n + 1) E" using fresh_labels_mono [OF E] by simp
  show "flow ?cs (None, E) = Some (None, E)"
    using piece_dead [OF c E1] En by (simp add: flow_append flow1_def)
  let ?E0 = "E(n \<mapsto> j + a)"
  have E0: "fresh_labels (n + 1) ?E0" using fresh_labels_upd [OF E1] by simp
  obtain d1 E1 where 1: "flow c (Some (j + a), ?E0) = Some (d1, E1)" "leaves j (Some a) d1" "fresh_labels (n + 1 + nlabels c) E1" "\<And>l. l < n + 1 \<Longrightarrow> E1 l = ?E0 l"
    using piece_live [OF c E0, of j] by blast
  have "flow ?cs (Some (j + a), E) = Some (None, E1)"
    using 1(1,2) 1(4) [of n] En by (auto simp: flow_append flow1_def label_effect_def agree_def call_falls_def leaves_def)
  then show "\<exists>d E'. flow ?cs (Some (j + a), E) = Some (d, E') \<and> leaves j None d \<and> fresh_labels (n + nlabels ?cs) E' \<and> (\<forall>l < n. E' l = E l)"
    using 1(3,4) by (auto simp: leaves_def)
qed

subsection \<open>Effects compose\<close>

lemma emits_Nil: "emits I a (Some a) (steps [])"
  unfolding emits_def by (rule does_mono [OF does_Nil]) (simp add: piece_Nil)

lemma emits_Inr: "emits I a (Some a) Inr"
  using emits_Nil [of I a] by (simp add: emits_def does_def)

lemma emits_Cons:
  assumes "emits I a (Some b) f" "emits I b c (steps fs)"
  shows "emits I a c (steps (f # fs))"
  using does_mono [OF does_Cons [OF assms [unfolded emits_def]]] piece_append unfolding emits_def by blast

lemma emits_Cons_dead:
  assumes "emits I a None f" "emits I b c (steps fs)"
  shows "emits I a None (steps (f # fs))"
  using does_mono [OF does_Cons [OF assms [unfolded emits_def]]] piece_append_dead unfolding emits_def by blast

lemma emits_append: "emits I a (Some b) (steps fs) \<Longrightarrow> emits I b (Some c) (steps gs) \<Longrightarrow> emits I a (Some c) (steps (fs @ gs))"
  unfolding steps_append by (rule emits_Cons, assumption, rule emits_Cons [OF _ emits_Nil])

lemma emits_append_dead: "emits I a (Some b) (steps fs) \<Longrightarrow> emits I b None (steps gs) \<Longrightarrow> emits I a None (steps (fs @ gs))"
  unfolding steps_append by (rule emits_Cons, assumption, rule emits_Cons_dead [OF _ emits_Nil])

lemma emits_never: "emits I a None f \<Longrightarrow> emits I a b f"
  unfolding emits_def by (erule does_mono) (rule piece_never)

lemma emits_frame: "emits I a b f \<Longrightarrow> emits I (j + a) (map_option ((+) j) b) f"
  unfolding emits_def by (erule does_mono) (rule piece_frame)

lemma emits_panic: "emits I a b cg_panic"
  by (simp add: emits_def does_def cg_panic_def)

lemma emits_call: "does I f (\<lambda>n cs. cs = [c]) \<Longrightarrow> \<not> label_call c \<Longrightarrow> call_effect c = (p, q) \<Longrightarrow> call_falls c \<Longrightarrow> emits I (j + p) (Some (j + q)) f"
  unfolding emits_def by (erule does_mono) (use piece_call [of c p q j] in auto)

lemma emits_exit: "does I f (\<lambda>n cs. cs = [c]) \<Longrightarrow> \<not> label_call c \<Longrightarrow> call_effect c = (p, q) \<Longrightarrow> \<not> call_falls c \<Longrightarrow> emits I (j + p) None f"
  unfolding emits_def by (erule does_mono) (use piece_call [of c p q j] in auto)

lemmas call_facts = label_call_def moves_def call_falls_def falls_through_def

lemma emits_push:
  "emits I a (Some (Suc a)) (bp push_self)" "emits I a (Some (Suc a)) (bp push_nil)" "emits I a (Some (Suc a)) (bp push_true)"
  "emits I a (Some (Suc a)) (bp push_false)" "emits I a (Some (Suc a)) (bp (push_smi_i8 v))" "emits I a (Some (Suc a)) (bp (push_temp t))"
  "emits I a (Some (Suc a)) (bp (push_instvar i))" "emits I a (Some (Suc a)) (bp (push_ctx_temp d i))"
  "emits I a (Some (Suc a)) (bo (push_literal w))" "emits I a (Some (Suc a)) (bo (push_global w))"
  using emits_call [OF does_bp [of "Plain PushSelf"], of push_self 0 1 I a] emits_call [OF does_bp [of "Plain PushNil"], of push_nil 0 1 I a]
    emits_call [OF does_bp [of "Plain PushTrue"], of push_true 0 1 I a] emits_call [OF does_bp [of "Plain PushFalse"], of push_false 0 1 I a]
    emits_call [OF does_bp [of "Plain (PushSmi v)"], of "push_smi_i8 v" 0 1 I a] emits_call [OF does_bp [of "Plain (PushTemp t)"], of "push_temp t" 0 1 I a]
    emits_call [OF does_bp [of "Plain (PushInstvar i)"], of "push_instvar i" 0 1 I a] emits_call [OF does_bp [of "Plain (PushCtxTemp d i)"], of "push_ctx_temp d i" 0 1 I a]
    emits_call [OF does_bo [of "PushLit w"], of "push_literal w" 0 1 I a] emits_call [OF does_bo [of "PushGlob w"], of "push_global w" 0 1 I a]
  by (simp_all add: call_facts)

lemma emits_pop:
  "emits I (Suc a) (Some a) (bp pop_op)" "emits I (Suc a) (Some a) (bp (store_temp_pop t))" "emits I (Suc a) (Some a) (bp (store_instvar_pop i))"
  "emits I (Suc a) (Some a) (bp (store_ctx_temp_pop d i))" "emits I (Suc a) (Some a) (bo (store_global_pop w))"
  using emits_call [OF does_bp [of "Plain Pop"], of pop_op 1 0 I a] emits_call [OF does_bp [of "Plain (StoreTempPop t)"], of "store_temp_pop t" 1 0 I a]
    emits_call [OF does_bp [of "Plain (StoreInstvarPop i)"], of "store_instvar_pop i" 1 0 I a]
    emits_call [OF does_bp [of "Plain (StoreCtxTempPop d i)"], of "store_ctx_temp_pop d i" 1 0 I a]
    emits_call [OF does_bo [of "StoreGlob w"], of "store_global_pop w" 1 0 I a]
  by (simp_all add: call_facts)

lemma emits_return:
  "emits I (Suc a) None (bp ret_tos)" "emits I (Suc a) None (bp nlr_tos)" "emits I (Suc a) None (bp block_return_tos)" "emits I a None (bp ret_self)"
  using emits_exit [OF does_bp [of "Plain ReturnTos"], of ret_tos 1 0 I a] emits_exit [OF does_bp [of "Plain NlrTos"], of nlr_tos 1 0 I a]
    emits_exit [OF does_bp [of "Plain BlockReturnTos"], of block_return_tos 1 0 I a] emits_exit [OF does_bp [of "Plain ReturnSelf"], of ret_self 0 0 I a]
  by (simp_all add: call_facts)

lemma emits_dup: "emits I (Suc a) (Some (Suc (Suc a))) (bp dup_op)"
  using emits_call [OF does_bp [of "Plain Dup"], of dup_op 1 2 I a] by (simp add: call_facts)

lemma emits_note: "emits I a (Some a) (stmt_line e)"
  unfolding stmt_line_def
  using emits_call [OF does_bp [of "NoteLine (of_nat (sp_line (expr_span e)))"], of "note_line (of_nat (sp_line (expr_span e)))" 0 0 I a] by (simp add: call_facts)

lemma emits_send:
  assumes "unat n = j"
  shows "emits I (a + Suc j) (Some (Suc a)) (bo (send s n))" "emits I (a + Suc j) (Some (Suc a)) (bo (send_super s n))"
  using emits_call [OF does_bo [of "SendTo s n"], of "send s n" "j + 1" 1 I a] emits_call [OF does_bo [of "SendSuperTo s n"], of "send_super s n" "j + 1" 1 I a] assms
  by (simp_all add: call_facts)

lemma emits_closure: "emits I a (Some (Suc a)) (bo (push_closure l 0))"
  using emits_call [OF does_bo [of "Closure l 0"], of "push_closure l 0" 0 1 I a] by (simp add: call_facts)

definition branches :: "('vm \<Rightarrow> bool) \<Rightarrow> (nat \<Rightarrow> 'vm emitter) \<Rightarrow> bool" where
  "branches I br \<longleftrightarrow> (\<exists>fk. fk \<noteq> FJump \<and> (\<forall>l. does I (br l) (\<lambda>n cs. cs = [FwdTo fk l])))"

lemma does_label_call:
  "does I (bo (jump_fwd l)) (\<lambda>n cs. cs = [FwdTo FJump l])" "does I (bo (bind_label l)) (\<lambda>n cs. cs = [BindAt l])"
  "does I (bo (jump_back l)) (\<lambda>n cs. cs = [BackTo l])"
  "does I (bo (br_false_fwd l)) (\<lambda>n cs. cs = [FwdTo FBrFalse l])" "does I (bo (br_true_fwd l)) (\<lambda>n cs. cs = [FwdTo FBrTrue l])"
  by (rule does_bo; simp add: moves_def)+

lemma branches_br:
  "branches I (\<lambda>l. bo (br_false_fwd l))" "branches I (\<lambda>l. bo (br_true_fwd l))"
  "branches I (\<lambda>l. if P then bo (br_false_fwd l) else bo (br_true_fwd l))"
proof -
  show "branches I (\<lambda>l. bo (br_false_fwd l))" "branches I (\<lambda>l. bo (br_true_fwd l))"
    unfolding branches_def using does_label_call(4,5) by blast+
  then show "branches I (\<lambda>l. if P then bo (br_false_fwd l) else bo (br_true_fwd l))" by (cases P) simp_all
qed

lemma does_two_labels:
  assumes "\<And>l1 l2. does I (steps (k l1 l2)) (Q l1 l2)"
  shows "does I (two_labels k) (\<lambda>n cs. \<exists>cs'. cs = NewLabel # NewLabel # cs' \<and> Q n (n + 1) (n + 2) cs')"
  unfolding two_labels_def
  by (rule does_mono [OF does_with_label [OF does_with_label [OF assms]]]) auto

lemma steps_flatten: "steps (xs @ steps ys # zs) = steps (xs @ ys @ zs)"
proof (induction xs)
  case Nil
  show ?case by (simp only: append.simps steps_nested)
next
  case (Cons x xs)
  show ?case by (rule ext) (simp add: Cons)
qed

lemma does_append:
  assumes "does I (steps fs) Q" "does I (steps gs) R"
  shows "does I (steps (fs @ gs)) (\<lambda>n cs. \<exists>c1 c2. cs = c1 @ c2 \<and> Q n c1 \<and> R (n + nlabels c1) c2)"
  using does_Cons [OF assms(1), of "[steps gs]" R] assms(2) steps_flatten [of "[steps fs]" gs "[]"] by (simp add: steps_nested)

lemma emits_arms:
  assumes fs: "emits I a b (steps fs)" and gs: "emits I a b (steps gs)" and br: "branches I br"
  shows "emits I (Suc a) b (two_labels (\<lambda>l1 l2. br l1 # fs @ bo (jump_fwd l2) # bo (bind_label l1) # gs @ [bo (bind_label l2)]))"
proof -
  obtain fk where fk: "fk \<noteq> FJump" "\<And>l. does I (br l) (\<lambda>n cs. cs = [FwdTo fk l])" using br by (auto simp: branches_def)
  note tail = does_append [OF gs [unfolded emits_def] does_Cons [OF does_label_call(2) does_Nil]]
  note body = does_append [OF fs [unfolded emits_def] does_Cons [OF does_label_call(1) does_Cons [OF does_label_call(2) tail]]]
  show ?thesis unfolding emits_def
    by (rule does_mono [OF does_two_labels [OF does_Cons [OF fk(2) body]]]) (use piece_arms fk(1) in fastforce)
qed

lemma emits_loop:
  assumes ts: "emits I a (Some (Suc a)) (steps ts)" and fs: "emits I a (Some a) (steps fs)" and br: "branches I br" and rs: "emits I a b (steps rs)"
  shows "emits I a b (two_labels (\<lambda>l0 l2. bo (bind_label l0) # ts @ br l2 # fs @ bo (jump_back l0) # bo (bind_label l2) # rs))"
proof -
  obtain fk where fk: "fk \<noteq> FJump" "\<And>l. does I (br l) (\<lambda>n cs. cs = [FwdTo fk l])" using br by (auto simp: branches_def)
  note tail = does_append [OF fs [unfolded emits_def] does_Cons [OF does_label_call(3) does_Cons [OF does_label_call(2) rs [unfolded emits_def]]]]
  note body = does_append [OF ts [unfolded emits_def] does_Cons [OF fk(2) tail]]
  show ?thesis unfolding emits_def
  proof (rule does_mono [OF does_two_labels [OF does_Cons [OF does_label_call(2) body]]])
    fix n cs
    assume "\<exists>cs'. cs = NewLabel # NewLabel # cs' \<and> (\<exists>c1 c2. cs' = c1 @ c2 \<and> c1 = [BindAt n] \<and> (\<exists>c1a c2a. c2 = c1a @ c2a \<and> piece a (Some (Suc a)) (n + 2 + nlabels c1) c1a \<and>
      (\<exists>c1b c2b. c2a = c1b @ c2b \<and> c1b = [FwdTo fk (n + 1)] \<and> (\<exists>c1c c2c. c2b = c1c @ c2c \<and> piece a (Some a) (n + 2 + nlabels c1 + nlabels c1a + nlabels c1b) c1c \<and>
      (\<exists>c1d c2d. c2c = c1d @ c2d \<and> c1d = [BackTo n] \<and> (\<exists>c1e c2e. c2d = c1e @ c2e \<and> c1e = [BindAt (n + 1)] \<and>
        piece a b (n + 2 + nlabels c1 + nlabels c1a + nlabels c1b + nlabels c1c + nlabels c1d + nlabels c1e) c2e))))))"
    then obtain t c r where cs: "cs = ([NewLabel, NewLabel, BindAt n] @ t @ [FwdTo fk (n + 1)] @ c @ [BackTo n, BindAt (n + 1)]) @ r"
      and p: "piece a (Some (Suc a)) (n + 2) t" "piece a (Some a) (n + 2 + nlabels t) c" "piece a b (n + 2 + nlabels t + nlabels c) r"
      by auto
    show "piece a b n cs" unfolding cs
      by (rule piece_append [OF piece_loop [OF p(1,2) fk(1)]]) (use p(3) in \<open>simp add: add.assoc\<close>)
  qed
qed

lemma emits_forever:
  assumes "emits I a (Some a) (steps fs)" "emits I a b (steps rs)"
  shows "emits I a None (with_label (\<lambda>l0. steps (bo (bind_label l0) # fs @ bo (jump_back l0) # rs)))"
proof -
  note body = does_append [OF assms(1) [unfolded emits_def] does_Cons [OF does_label_call(3) assms(2) [unfolded emits_def]]]
  show ?thesis unfolding emits_def
  proof (rule does_mono [OF does_with_label [OF does_Cons [OF does_label_call(2) body]]])
    fix n cs
    assume "\<exists>cs'. cs = NewLabel # cs' \<and> (\<exists>c1 c2. cs' = c1 @ c2 \<and> c1 = [BindAt n] \<and> (\<exists>c1a c2a. c2 = c1a @ c2a \<and> piece a (Some a) (n + 1 + nlabels c1) c1a \<and>
      (\<exists>c1b c2b. c2a = c1b @ c2b \<and> c1b = [BackTo n] \<and> piece a b (n + 1 + nlabels c1 + nlabels c1a + nlabels c1b) c2b)))"
    then obtain c r where cs: "cs = ([NewLabel, BindAt n] @ c @ [BackTo n]) @ r" and p: "piece a (Some a) (n + 1) c" "piece a b (n + 1 + nlabels c) r"
      by auto
    show "piece a None n cs" unfolding cs
      by (rule piece_append_dead [OF piece_forever [OF p(1)]]) (use p(2) in \<open>simp add: add.assoc\<close>)
  qed
qed

subsection \<open>Trees the generator can be given\<close>

text \<open>
  The shape of the parser's trees as far as the stack is concerned: no return and no cascade marker where a value is wanted, and argument
  counts that fit the byte of the send instruction. \<open>cg_seg\<close> is a message to a receiver that is on the stack already.
\<close>

fun cg_expr :: "expr \<Rightarrow> bool" and cg_seg :: "expr \<Rightarrow> bool" and cg_stmt :: "expr \<Rightarrow> bool" where
  "cg_expr (AssignE _ e _) \<longleftrightarrow> cg_expr e"
| "cg_expr (SendE r _ args _ _) \<longleftrightarrow> cg_expr r \<and> length args < 256 \<and> list_all cg_expr args"
| "cg_expr (CascadeE r segs _) \<longleftrightarrow> cg_expr r \<and> segs \<noteq> [] \<and> list_all cg_seg segs"
| "cg_expr (DynArray es _) \<longleftrightarrow> list_all cg_expr es"
| "cg_expr (BlockE (BlockNode _ _ body _ _)) \<longleftrightarrow> list_all cg_stmt body"
| "cg_expr (CascadeRcvr _) \<longleftrightarrow> False"
| "cg_expr (ReturnE _ _) \<longleftrightarrow> False"
| "cg_expr _ \<longleftrightarrow> True"
| "cg_seg (CascadeRcvr _) \<longleftrightarrow> True"
| "cg_seg (SendE r _ args _ _) \<longleftrightarrow> cg_seg r \<and> length args < 256 \<and> list_all cg_expr args"
| "cg_seg _ \<longleftrightarrow> False"
| "cg_stmt (ReturnE e _) \<longleftrightarrow> cg_expr e"
| "cg_stmt e \<longleftrightarrow> cg_expr e"

lemma cg_block: "cg_expr (BlockE b) \<longleftrightarrow> list_all cg_stmt (bn_body b)"
  by (cases b) simp

lemma cg_stmt_expr: "cg_stmt e \<Longrightarrow> (\<And>v sp. e \<noteq> ReturnE v sp) \<Longrightarrow> cg_expr e"
  by (cases e) auto

subsection \<open>What the generator relies on\<close>

text \<open>
  A compiled method whose literal frame can be indexed (a 16-bit index) has stack-safe code. The machine keeps the invariant \<open>I\<close> in all that
  the generator asks of it, as long as the blocks it is given are safe.
\<close>

definition method_safe :: "method_oop \<Rightarrow> bool" where
  "method_safe m \<longleftrightarrow> (length (m_literals m) \<le> 65536 \<longrightarrow> stack_safe m)"

lemma stack_safe_cong: "m_bytes m' = m_bytes m \<Longrightarrow> m_ics m' = m_ics m \<Longrightarrow> stack_safe m' = stack_safe m"
  by (simp add: stack_safe_def ic_argc_def [abs_def])

locale code_memory =
  fixes cx :: "'vm cg_ctx" and I :: "'vm \<Rightarrow> bool"
  assumes intern_keeps: "I vm \<Longrightarrow> I (snd (cgo_intern (cx_ops cx) t vm))"
    and alloc_keeps: "I vm \<Longrightarrow> (\<And>m. ob = ObjBlock m \<Longrightarrow> method_safe m) \<Longrightarrow> I (snd (cgo_alloc (cx_ops cx) ob vm))"
    and at_put_keeps: "I vm \<Longrightarrow> I (cgo_at_put (cx_ops cx) arr i v vm)"
    and declare_keeps: "I vm \<Longrightarrow> I (snd (cgo_global_declare (cx_ops cx) s vm))"
begin

definition quiet :: "'vm cg_state \<Rightarrow> 'vm cg_state \<Rightarrow> bool" where
  "quiet st st' \<longleftrightarrow> (I (cg_vm st) \<longrightarrow> I (cg_vm st')) \<and> cg_builder st' = cg_builder st"

lemma emits_after:
  assumes "I (cg_vm st) \<Longrightarrow> f st = Inr st' \<Longrightarrow> \<exists>st0 g. quiet st st0 \<and> emits I a b g \<and> g st0 = Inr st'"
  shows "I (cg_vm st) \<Longrightarrow> f st = Inr st' \<Longrightarrow> I (cg_vm st') \<and>
     (\<exists>cs. do_calls cs (cg_builder st) = Some (cg_builder st') \<and> (\<forall>c \<in> set cs. \<not> moves c) \<and> piece a b (length (labels (cg_builder st))) cs)"
  using assms unfolding quiet_def emits_def does_def by metis

lemma emitsI:
  assumes "\<And>st st'. I (cg_vm st) \<Longrightarrow> f st = Inr st' \<Longrightarrow> \<exists>st0 g. quiet st st0 \<and> emits I a b g \<and> g st0 = Inr st'"
  shows "emits I a b f"
  unfolding emits_def by (rule doesI) (rule emits_after [OF assms])

lemma quiet_refl: "quiet st st"
  by (simp add: quiet_def)

lemma quiet_trans: "quiet a b \<Longrightarrow> quiet b c \<Longrightarrow> quiet a c"
  by (simp add: quiet_def)

lemma quiet_frame:
  "quiet st (st\<lparr>cg_next_slot := n\<rparr>)" "quiet st (st\<lparr>cg_cache := c\<rparr>)" "quiet st (st\<lparr>cg_hoist := h\<rparr>)" "quiet st (st\<lparr>cg_next_slot := n, cg_hoist := h\<rparr>)"
  by (simp_all add: quiet_def)

lemma quiet_vm: "(I (cg_vm st) \<Longrightarrow> I vm) \<Longrightarrow> quiet st (st\<lparr>cg_vm := vm\<rparr>)"
  by (simp add: quiet_def)

lemma quiet_intern: "cgo_intern (cx_ops cx) t (cg_vm st) = (s, vm) \<Longrightarrow> quiet st (st\<lparr>cg_vm := vm\<rparr>)"
  by (rule quiet_vm) (use intern_keeps [of "cg_vm st" t] in simp)

lemma emits_with_sym:
  assumes "\<And>s. emits I a b (k s)"
  shows "emits I a b (with_sym cx t k)"
proof (rule emitsI)
  fix st st'
  assume "with_sym cx t k st = Inr st'"
  then obtain s vm where "cgo_intern (cx_ops cx) t (cg_vm st) = (s, vm)" "k s (st\<lparr>cg_vm := vm\<rparr>) = Inr st'"
    by (auto simp: with_sym_def split: prod.splits)
  then show "\<exists>st0 g. quiet st st0 \<and> emits I a b g \<and> g st0 = Inr st'" using assms quiet_intern by blast
qed

lemma emits_with_slot: "(\<And>s. emits I a b (k s)) \<Longrightarrow> emits I a b (with_slot k)"
  by (rule emitsI) (unfold with_slot_def, blast intro: quiet_frame)

lemma emits_with_hoisted: "(\<And>s. emits I a b (k s)) \<Longrightarrow> emits I a b (with_hoisted name k)"
  by (rule emitsI) (auto simp: with_hoisted_def split: list.splits option.splits intro: quiet_refl)

lemma emits_with_block: "(\<And>blk. e = Some (BlockE blk) \<Longrightarrow> emits I a b (k blk)) \<Longrightarrow> emits I a b (with_block e k)"
  by (rule emitsI) (auto simp: with_block_def split: option.splits expr.splits intro: quiet_refl)

lemma emits_quiet: "(\<And>st st'. f st = Inr st' \<Longrightarrow> quiet st st') \<Longrightarrow> emits I a (Some a) f"
  by (rule emitsI) (metis emits_Inr)

lemma emits_hoist: "emits I a (Some a) (push_hoist_scope blk)" "emits I a (Some a) (push_hoist names)" "emits I a (Some a) pop_hoist"
proof -
  show "emits I a (Some a) (push_hoist_scope blk)"
    by (rule emits_quiet) (auto simp: push_hoist_scope_def intro: quiet_frame split: prod.splits)
  show "emits I a (Some a) (push_hoist names)" "emits I a (Some a) pop_hoist"
    by (rule emits_quiet, auto simp: push_hoist_def pop_hoist_def intro: quiet_frame)+
qed

lemma resolve_global_quiet: "resolve_global cx name gsym sp wr st = Inr (r, st') \<Longrightarrow> quiet st st'"
  using declare_keeps [of "cg_vm st" gsym]
  by (auto simp: resolve_global_def cg_error_def Let_def intro: quiet_refl quiet_vm split: option.splits prod.splits if_splits)

lemma resolve_outer_quiet:
  assumes "resolve_outer cx name sp wr st = Inr (r, st')"
  shows "quiet st st'"
proof -
  obtain s vm where vm: "cgo_intern (cx_ops cx) name (cg_vm st) = (s, vm)" by fastforce
  have "quiet (st\<lparr>cg_vm := vm\<rparr>) st'"
    using assms by (auto simp: resolve_outer_def vm Let_def intro: quiet_refl resolve_global_quiet split: option.splits)
  then show ?thesis using quiet_intern [OF vm] quiet_trans by blast
qed

lemma resolve_quiet: "resolve_var cx sid name sp wr st = Inr (r, st') \<Longrightarrow> quiet st st'"
  by (auto simp: resolve_var_def intro: quiet_refl resolve_outer_quiet split: option.splits resolved.splits)

lemma emits_load: "emits I a (Some (Suc a)) (emit_load cx sid name sp)"
proof (rule emitsI)
  fix st st'
  assume "emit_load cx sid name sp st = Inr st'"
  then obtain r st0 where "resolve_var cx sid name sp False st = Inr (r, st0)" and g: "(case r of VLocal s \<Rightarrow> bp (push_temp s)
     | VCaptured d c \<Rightarrow> bp (push_ctx_temp d c) | VInstVar i \<Rightarrow> bp (push_instvar i) | VGlobal assoc \<Rightarrow> bo (push_global assoc)) st0 = Inr st'"
    by (auto simp: emit_load_def rbind_def split: sum.splits var_ref.splits)
  moreover have "emits I a (Some (Suc a)) (case r of VLocal s \<Rightarrow> bp (push_temp s)
     | VCaptured d c \<Rightarrow> bp (push_ctx_temp d c) | VInstVar i \<Rightarrow> bp (push_instvar i) | VGlobal assoc \<Rightarrow> bo (push_global assoc))"
    by (cases r) (simp_all add: emits_push)
  ultimately show "\<exists>st0 g. quiet st st0 \<and> emits I a (Some (Suc a)) g \<and> g st0 = Inr st'" using resolve_quiet by blast
qed

lemma emits_store: "emits I (Suc a) (Some a) (emit_store cx sid name sp)"
proof (rule emitsI)
  fix st st'
  assume "emit_store cx sid name sp st = Inr st'"
  then obtain r st0 where "resolve_var cx sid name sp True st = Inr (r, st0)" and g: "(case r of VLocal s \<Rightarrow> bp (store_temp_pop s)
     | VCaptured d c \<Rightarrow> bp (store_ctx_temp_pop d c) | VInstVar i \<Rightarrow> bp (store_instvar_pop i) | VGlobal assoc \<Rightarrow> bo (store_global_pop assoc)) st0 = Inr st'"
    by (auto simp: emit_store_def rbind_def split: sum.splits var_ref.splits)
  moreover have "emits I (Suc a) (Some a) (case r of VLocal s \<Rightarrow> bp (store_temp_pop s)
     | VCaptured d c \<Rightarrow> bp (store_ctx_temp_pop d c) | VInstVar i \<Rightarrow> bp (store_instvar_pop i) | VGlobal assoc \<Rightarrow> bo (store_global_pop assoc))"
    by (cases r) (simp_all add: emits_pop)
  ultimately show "\<exists>st0 g. quiet st st0 \<and> emits I (Suc a) (Some a) g \<and> g st0 = Inr st'" using resolve_quiet by blast
qed

lemma alloc_quiet: "(\<And>m. ob \<noteq> ObjBlock m) \<Longrightarrow> alloc_obj cx ob st = (v, st') \<Longrightarrow> quiet st st'"
  using alloc_keeps [of "cg_vm st" ob] by (auto simp: alloc_obj_def intro: quiet_vm split: prod.splits)

lemma cached_quiet:
  assumes "\<And>m. ob \<noteq> ObjBlock m" "cached_lit cx hit ob put st = (v, st')"
  shows "quiet st st'"
proof (cases hit)
  case None
  obtain w st1 where a: "alloc_obj cx ob st = (w, st1)" by fastforce
  have "quiet st st1" by (rule alloc_quiet [OF assms(1) a])
  then show ?thesis using assms(2) None a quiet_trans [OF _ quiet_frame(2)] by (auto simp: cached_lit_def)
qed (use assms quiet_refl in \<open>simp add: cached_lit_def\<close>)

lemma literal_quiet:
  "cx' = cx \<Longrightarrow> build_literal_value cx' l st = Inr (v, st') \<Longrightarrow> quiet st st'"
  "cx' = cx \<Longrightarrow> build_items cx' arr i ls st = Inr st'' \<Longrightarrow> quiet st st''"
proof (induction cx' l st and cx' arr i ls st arbitrary: v st' and st'' rule: build_literal_value_build_items.induct)
  case (7 cx' items st)
  obtain arr st1 where a: "alloc_obj cx' (ObjArray (length items)) st = (arr, st1)" by fastforce
  then have "build_items cx' arr 0 items st1 = Inr st'" using 7 by (auto simp: rbind_def split: sum.splits)
  then have "quiet st1 st'" using 7 a by auto
  moreover have "quiet st st1" using a 7(2) by (auto intro: alloc_quiet)
  ultimately show ?case using quiet_trans by blast
next
  case (13 cx' arr i it its st)
  then obtain v st1 where b: "build_literal_value cx' it st = Inr (v, st1)"
    and r: "build_items cx' arr (i + 1) its (st1\<lparr>cg_vm := cgo_at_put (cx_ops cx') arr i v (cg_vm st1)\<rparr>) = Inr st''"
    by (auto simp: rbind_def split: sum.splits)
  have "quiet st st1" using 13 b by blast
  moreover have "quiet st1 (st1\<lparr>cg_vm := cgo_at_put (cx_ops cx') arr i v (cg_vm st1)\<rparr>)" by (rule quiet_vm) (use at_put_keeps 13(3) in simp)
  moreover have "quiet (st1\<lparr>cg_vm := cgo_at_put (cx_ops cx') arr i v (cg_vm st1)\<rparr>) st''" using 13 b r by blast
  ultimately show ?case using quiet_trans by blast
qed (auto intro: quiet_refl quiet_intern cached_quiet alloc_quiet simp: Let_def split: option.splits prod.splits)

lemma emits_literal: "emits I a (Some (Suc a)) (emit_literal cx l)"
proof -
  have built: "emits I a (Some (Suc a)) (\<lambda>st. rbind (build_literal_value cx l st) (\<lambda>(w, st). bo (push_literal w) st))"
  proof (rule emitsI)
    fix st st'
    assume "rbind (build_literal_value cx l st) (\<lambda>(w, st). bo (push_literal w) st) = Inr st'"
    then obtain w st1 where "build_literal_value cx l st = Inr (w, st1)" "bo (push_literal w) st1 = Inr st'" by (auto simp: rbind_def split: sum.splits)
    then show "\<exists>st0 g. quiet st st0 \<and> emits I a (Some (Suc a)) g \<and> g st0 = Inr st'" using literal_quiet(1) emits_push(9) by blast
  qed
  have eq: "emit_literal cx l = (case l of NilL \<Rightarrow> bp push_nil | TrueL \<Rightarrow> bp push_true | FalseL \<Rightarrow> bp push_false
     | IntL v \<Rightarrow> if - 128 \<le> v \<and> v \<le> 127 then bp (push_smi_i8 (word_of_int v)) else (\<lambda>st. rbind (build_literal_value cx l st) (\<lambda>(w, st). bo (push_literal w) st))
     | _ \<Rightarrow> (\<lambda>st. rbind (build_literal_value cx l st) (\<lambda>(w, st). bo (push_literal w) st)))"
    by (rule ext) (simp add: emit_literal_def split: literal.splits)
  show ?thesis unfolding eq using built by (cases l) (auto intro: emits_push)
qed

text \<open>What is compiled from an empty builder and finished is safe.\<close>

lemma unit_safe:
  assumes f: "emits I 0 None f" and run: "f st = Inr st1" "I (cg_vm st)" "cg_builder st = new_builder"
    and fin: "finish_unit cx sel n info blk pf (st1\<lparr>cg_vm := vm\<rparr>) = Inr m"
  shows "method_safe m" "I (cg_vm st1)"
proof -
  obtain cs where cs: "I (cg_vm st1)" "do_calls cs new_builder = Some (cg_builder st1)" "\<forall>c \<in> set cs. \<not> moves c"
    and p: "piece 0 None (length (labels new_builder)) cs"
    using doesE [OF f [unfolded emits_def] run(2,1)] run(3) by metis
  show "I (cg_vm st1)" by (rule cs(1))
  obtain m0 where m0: "finish (cgo_nil (cx_ops cx) vm) sel n (cg_next_slot st1 - n) (cg_builder st1) = Some m0"
    and fl: "set_flags n (cg_next_slot st1 - n) (si_has_ctx info) blk pf (blk \<and> si_captures_ctx info) (si_nctx info) m0 = Some m"
    using fin by (auto simp: finish_unit_def Let_def bind_eq_Some_conv split: option.splits)
  obtain x where "m = m0\<lparr>m_flags := x\<rparr>" using set_flags_bytes [OF fl] by blast
  then have m: "m_bytes m = m_bytes m0 \<and> m_ics m = m_ics m0 \<and> m_literals m = m_literals m0" by simp
  have "fresh_labels (length (labels new_builder)) Map.empty" by (simp add: fresh_labels_def)
  from piece_live [OF p this, of 0] obtain E where "flow cs (Some 0, Map.empty) = Some (None, E)" by (auto simp: leaves_def)
  from flow_stack_safe [OF cs(2) this cs(3) _ m0] show "method_safe m"
    using finish_parts [OF m0] m stack_safe_cong [of m m0] by (simp add: method_safe_def)
qed

end

subsection \<open>Statements and inlined control flow\<close>

text \<open>What the statements and control structures rely on from the code of an expression.\<close>

locale expr_emitter = code_memory cx I for cx :: "'vm cg_ctx" and I :: "'vm \<Rightarrow> bool" +
  fixes ee :: "'vm emit_fn"
  assumes ee_expr: "cg_expr e \<Longrightarrow> emits I a (Some (Suc a)) (ee sid e)"
    and ee_seg: "cg_seg e \<Longrightarrow> emits I (Suc a) (Some (Suc a)) (ee sid e)"
begin

lemma emits_exit_stmt: "cg_expr e \<Longrightarrow> emits I a None (steps [ee sid e, if blk then bp nlr_tos else bp ret_tos])"
  by (rule emits_Cons [OF ee_expr], assumption, rule emits_Cons_dead [OF _ emits_Nil]) (simp add: emits_return)

lemma emits_one: "emits I a (Some b) f \<Longrightarrow> emits I a (Some b) (steps [f])"
  by (rule emits_Cons [OF _ emits_Nil])

lemma emits_discard:
  assumes "cg_stmt e"
  shows "emits I a (Some a) (emit_statement_discard cx ee sid blk e)"
proof -
  have value': "emits I a (Some a) (steps [ee sid e, bp pop_op])" if "cg_expr e" for e
    by (intro emits_Cons [OF ee_expr [OF that]] emits_one emits_pop)
  have "emits I a (Some a) (steps (case e of ReturnE e _ \<Rightarrow> [ee sid e, if blk then bp nlr_tos else bp ret_tos]
        | AssignE n e sp \<Rightarrow> [ee sid e, emit_store cx sid n sp] | _ \<Rightarrow> [ee sid e, bp pop_op]))"
  proof (cases e)
    case (ReturnE v sp)
    then show ?thesis using assms emits_never [OF emits_exit_stmt] by simp
  next
    case (AssignE n v sp)
    then have "cg_expr v" using assms by simp
    then show ?thesis unfolding AssignE expr.case by (intro emits_Cons [OF ee_expr] emits_one emits_store)
  qed (use assms value' cg_stmt_expr in auto)
  then show ?thesis unfolding emit_statement_discard_def by (rule emits_Cons [OF emits_note])
qed

lemma emits_value:
  assumes "cg_expr e"
  shows "emits I a (Some (Suc a)) (emit_statement_value cx ee sid e)"
proof -
  have "emits I a (Some (Suc a)) (steps (case e of AssignE n e sp \<Rightarrow> [ee sid e, bp dup_op, emit_store cx sid n sp] | _ \<Rightarrow> [ee sid e]))"
  proof (cases e)
    case (AssignE n v sp)
    then have "cg_expr v" using assms by simp
    then show ?thesis unfolding AssignE expr.case by (intro emits_Cons [OF ee_expr] emits_Cons [OF emits_dup] emits_one emits_store)
  qed (use assms ee_expr emits_one in auto)
  then show ?thesis unfolding emit_statement_value_def by (rule emits_Cons [OF emits_note])
qed

lemma emits_discards: "list_all cg_stmt es \<Longrightarrow> emits I a (Some a) (steps (map (emit_statement_discard cx ee sid blk) es))"
proof (induction es)
  case (Cons e es)
  then have "cg_stmt e" "emits I a (Some a) (steps (map (emit_statement_discard cx ee sid blk) es))" by auto
  then show ?case unfolding list.map by (rule emits_Cons [OF emits_discard])
qed (simp add: emits_Nil [unfolded steps.simps] del: steps.simps add: emits_Nil)

lemma emits_seq:
  assumes "list_all cg_stmt body"
  shows "emits I a (Some (Suc a)) (emit_statement_seq cx ee sid body)"
proof -
  have split: "list_all cg_stmt (butlast body)" "body \<noteq> [] \<Longrightarrow> cg_stmt (last body)" using assms by (auto simp: list_all_iff dest: in_set_butlastD)
  have lst: "emits I a (Some (Suc a)) (steps (case last body of ReturnE e _ \<Rightarrow> [ee sid e, if blk then bp nlr_tos else bp ret_tos]
      | _ \<Rightarrow> [emit_statement_value cx ee sid (last body)]))" if "body \<noteq> []" for blk
  proof (cases "\<exists>v sp. last body = ReturnE v sp")
    case True
    then obtain v sp where l: "last body = ReturnE v sp" by blast
    show ?thesis unfolding l expr.case by (rule emits_never [OF emits_exit_stmt]) (use split(2) that l in simp)
  next
    case False
    then have "cg_expr (last body)" using cg_stmt_expr split(2) that by blast
    then show ?thesis using False emits_one [OF emits_value] by (cases "last body") auto
  qed
  let ?f = "\<lambda>blk. if body = [] then bp push_nil
      else steps (map (emit_statement_discard cx ee sid blk) (butlast body) @ (case last body of ReturnE e _ \<Rightarrow> [ee sid e, if blk then bp nlr_tos else bp ret_tos]
      | _ \<Rightarrow> [emit_statement_value cx ee sid (last body)]))"
  have f: "emits I a (Some (Suc a)) (?f blk)" for blk
    using emits_append [OF emits_discards [OF split(1)] lst] by (simp add: emits_push)
  have run: "emit_statement_seq cx ee sid body st = ?f (cg_in_block st) st" for st by (simp add: emit_statement_seq_def Let_def)
  show ?thesis
  proof (rule emitsI)
    fix st st'
    assume "emit_statement_seq cx ee sid body st = Inr st'"
    then show "\<exists>st0 g. quiet st st0 \<and> emits I a (Some (Suc a)) g \<and> g st0 = Inr st'"
      unfolding run by (intro exI [of _ st] exI [of _ "?f (cg_in_block st)"] conjI quiet_refl f)
  qed
qed

lemma emits_dissolved: "list_all cg_stmt (bn_body b) \<Longrightarrow> emits I a (Some (Suc a)) (emit_dissolved_body cx ee sid b)"
  unfolding emit_dissolved_body_def by (intro emits_Cons [OF emits_hoist(1)] emits_Cons [OF emits_seq] emits_one emits_hoist)

lemma emits_arm:
  assumes "list_all cg_stmt (bn_body b)"
  shows "emits I (Suc a) (Some (Suc a)) (emit_ifnotnil_arm cx ee sid b)"
proof (cases "bn_params b")
  case Nil
  then show ?thesis using assms by (simp add: emit_ifnotnil_arm_def emits_Cons [OF emits_pop(1) emits_one [OF emits_dissolved]])
next
  case (Cons p ps)
  show ?thesis unfolding emit_ifnotnil_arm_def Cons list.case
    by (rule emits_Cons [OF emits_hoist(1)], rule emits_Cons [OF emits_with_hoisted [OF emits_pop(2)]],
      rule emits_Cons [OF emits_seq [OF assms]], rule emits_one [OF emits_hoist(3)])
qed

lemma emits_send_named: "unat n = j \<Longrightarrow> emits I (a + Suc j) (Some (Suc a)) (send_named cx name n)"
  unfolding send_named_def by (rule emits_with_sym) (rule emits_send)

lemma emits_binary: "emits I (Suc (Suc a)) (Some (Suc a)) (send_named cx name 1)"
  using emits_send_named [of 1 1 a name] by simp

lemma emits_nil_test:
  assumes "emits I c (Some (Suc a)) (ee sid r)"
  shows "emits I c (Some (Suc (Suc a))) (nil_test cx ee sid r)"
  unfolding nil_test_def
  by (rule emits_Cons [OF assms], rule emits_Cons [OF emits_dup], rule emits_Cons [OF emits_push(2)], rule emits_one [OF emits_binary])

lemma emits_counted_loop:
  assumes "emits I a (Some a) (steps fs)"
  shows "emits I a (Some a) (two_labels (\<lambda>l0 l2. bo (bind_label l0) # loop_test cx i lim l2 # fs @ [loop_step cx i l0 l2]))"
proof -
  let ?ts = "[bp (push_temp i), bp (push_temp lim), send_named cx ''<='' 1]"
    and ?ss = "[bp (push_temp i), bp (push_smi_i8 1), send_named cx ''+'' 1, bp (store_temp_pop i)]"
  have ts: "emits I a (Some (Suc a)) (steps ?ts)"
    by (rule emits_Cons [OF emits_push(6)], rule emits_Cons [OF emits_push(6)], rule emits_one [OF emits_binary])
  have ss: "emits I a (Some a) (steps ?ss)"
    by (rule emits_Cons [OF emits_push(6)], rule emits_Cons [OF emits_push(5)], rule emits_Cons [OF emits_binary], rule emits_one [OF emits_pop(2)])
  have flat: "steps (bo (bind_label l0) # loop_test cx i lim l2 # fs @ [loop_step cx i l0 l2]) =
      steps (bo (bind_label l0) # ?ts @ bo (br_false_fwd l2) # (fs @ ?ss) @ bo (jump_back l0) # bo (bind_label l2) # [])" for l0 l2
    using steps_flatten [of "[bo (bind_label l0)]" "?ts @ [bo (br_false_fwd l2)]" "fs @ [loop_step cx i l0 l2]"]
      steps_flatten [of "bo (bind_label l0) # ?ts @ bo (br_false_fwd l2) # fs" "?ss @ [bo (jump_back l0), bo (bind_label l2)]" "[]"]
    by (simp add: loop_test_def loop_step_def del: steps.simps)
  show ?thesis
    unfolding two_labels_def flat
    by (fold two_labels_def) (rule emits_loop [OF ts emits_append [OF assms ss] branches_br(1) emits_Nil])
qed

lemma emits_times_repeat:
  assumes "emits I c (Some (Suc a)) (ee sid r)" "list_all cg_stmt (bn_body b)"
  shows "emits I c (Some (Suc a)) (emit_times_repeat cx ee sid r b)"
proof -
  have fs: "emits I a (Some a) (steps [emit_statement_seq cx ee sid (bn_body b), bp pop_op])" for a
    by (rule emits_Cons [OF emits_seq [OF assms(2)]], rule emits_one [OF emits_pop(1)])
  note loop = emits_counted_loop [OF fs, unfolded append.simps]
  show ?thesis unfolding emit_times_repeat_def
    by (rule emits_Cons [OF assms(1)], rule emits_Cons [OF emits_dup], rule emits_one, rule emits_with_slot, rule emits_Cons [OF emits_pop(2)],
      rule emits_one, rule emits_with_slot, rule emits_Cons [OF emits_push(5)], rule emits_Cons [OF emits_pop(2)], rule emits_one [OF loop])
qed

lemma emits_to_do:
  assumes "emits I c (Some (Suc a)) (ee sid r)" "cg_expr lim" "list_all cg_stmt (bn_body b)"
  shows "emits I c (Some (Suc a)) (emit_to_do cx ee sid r lim v b)"
proof -
  have fs: "emits I a (Some a) (steps [push_hoist [v \<mapsto> i], emit_statement_seq cx ee sid (bn_body b), pop_hoist, bp pop_op])" for a i
    by (rule emits_Cons [OF emits_hoist(2)], rule emits_Cons [OF emits_seq [OF assms(3)]], rule emits_Cons [OF emits_hoist(3)], rule emits_one [OF emits_pop(1)])
  note loop = emits_counted_loop [OF fs, unfolded append.simps]
  show ?thesis unfolding emit_to_do_def
    by (rule emits_Cons [OF assms(1)], rule emits_Cons [OF emits_dup], rule emits_one, rule emits_with_slot, rule emits_Cons [OF emits_pop(2)],
      rule emits_Cons [OF ee_expr [OF assms(2)]], rule emits_one, rule emits_with_slot, rule emits_Cons [OF emits_pop(2)], rule emits_one [OF loop])
qed

lemmas arms11 = emits_arms [where fs = "[f]" and gs = "[g]" for f g, unfolded append.simps]
lemmas arms20 = emits_arms [where fs = "[f, f']" and gs = "[]" for f f', unfolded append.simps]
lemmas arms10 = emits_arms [where fs = "[f]" and gs = "[]" for f, unfolded append.simps]
lemmas arms21 = emits_arms [where fs = "[f, f']" and gs = "[g]" for f f' g, unfolded append.simps]
lemmas arms12 = emits_arms [where fs = "[f]" and gs = "[g, g']" for f g g', unfolded append.simps]

lemma emits_if: "(P \<Longrightarrow> emits I a b f) \<Longrightarrow> (\<not> P \<Longrightarrow> emits I a b g) \<Longrightarrow> emits I a b (if P then f else g)"
  by simp

lemma while_stuck:
  assumes "\<And>b. r \<noteq> BlockE b"
  shows "emits I a b (two_labels (\<lambda>l0 l2. bo (bind_label l0) # with_block (Some r) k # fs l0 l2))"
    "emits I a b (with_label (\<lambda>l0. steps (bo (bind_label l0) # with_block (Some r) k # gs l0)))"
proof -
  have "with_block (Some r) k st \<noteq> Inr st'" for st st' using assms by (simp add: with_block_def split: expr.splits)
  then have "steps (f # with_block (Some r) k # fs') st \<noteq> Inr st'" for f fs' st st' by (auto simp: rbind_def split: sum.splits)
  then show "emits I a b (two_labels (\<lambda>l0 l2. bo (bind_label l0) # with_block (Some r) k # fs l0 l2))"
    "emits I a b (with_label (\<lambda>l0. steps (bo (bind_label l0) # with_block (Some r) k # gs l0)))"
    by (auto simp: emits_def does_def two_labels_def with_label_def split: prod.splits simp del: steps.simps)
qed

lemma emits_inlined:
  assumes r: "emits I c (Some (Suc a)) (ee sid r)" "\<And>b. r = BlockE b \<Longrightarrow> c = a \<and> list_all cg_stmt (bn_body b)" and args: "list_all cg_expr args"
  shows "emits I c (Some (Suc a)) (emit_inlined cx ee sid sel r args)"
proof -
  have blk: "emits I x y (with_block (slice_get args i) k)" if "\<And>b. list_all cg_stmt (bn_body b) \<Longrightarrow> emits I x y (k b)" for x y i k
  proof (rule emits_with_block, rule that)
    fix b
    assume "slice_get args i = Some (BlockE b)"
    then have "cg_expr (BlockE b)" using args by (auto simp: slice_get_def list_all_length split: if_splits)
    then show "list_all cg_stmt (bn_body b)" by (simp only: cg_block)
  qed
  have body: "emits I x (Some (Suc x)) (with_block (slice_get args i) (emit_dissolved_body cx ee sid))" for x i
    by (rule blk) (rule emits_dissolved)
  have arm: "emits I (Suc x) (Some (Suc x)) (with_block (slice_get args i) (emit_ifnotnil_arm cx ee sid))" for x i
    by (rule blk) (rule emits_arm)
  have recv: "emits I a (Some (Suc a)) (with_block (Some r) (emit_dissolved_body cx ee sid))"
    by (rule emits_with_block, rule emits_dissolved) (use r(2) in auto)
  have popped: "emits I (Suc x) (Some (Suc x)) (steps [bp pop_op, with_block (slice_get args i) (emit_dissolved_body cx ee sid)])" for x i
    by (rule emits_Cons [OF emits_pop(1) emits_one [OF body]])
  have to_do: "emits I c (Some (Suc a)) (with_block (slice_get args 1) (\<lambda>blk. case (bn_params blk, slice_get args 0) of
            (v # _, Some lim) \<Rightarrow> emit_to_do cx ee sid r lim v blk | _ \<Rightarrow> cg_panic))"
  proof (rule blk)
    fix b
    assume b: "list_all cg_stmt (bn_body b)"
    have "cg_expr lim" if "slice_get args 0 = Some lim" for lim
      using args that by (auto simp: slice_get_def list_all_iff split: if_splits dest: nth_mem)
    then show "emits I c (Some (Suc a)) (case (bn_params b, slice_get args 0) of (v # _, Some lim) \<Rightarrow> emit_to_do cx ee sid r lim v b | _ \<Rightarrow> cg_panic)"
      using emits_to_do [OF r(1) _ b] by (auto simp: emits_panic split: list.splits option.splits)
  qed
  note first = emits_Cons [OF r(1) emits_one] and tested = emits_Cons [OF emits_nil_test [OF r(1)] emits_one]
  show ?thesis
    unfolding emit_inlined_def Let_def
  proof (intro emits_if, goal_cases)
    case 1
    show ?case by (rule first, rule arms11 [OF emits_one [OF body] emits_one [OF emits_push(2)]], rule branches_br)
  next
    case 2
    show ?case unfolding prod.case_eq_if by (rule first, rule arms11 [OF emits_one [OF body] emits_one [OF body]], rule branches_br)
  next
    case 3
    have "emits I a (Some (Suc a)) (if sel_in sel [''and:''] then bp push_false else bp push_true)" by (simp add: emits_push)
    then show ?case by (intro first arms11 [OF emits_one [OF body] emits_one] branches_br)
  next
    case 4
    show ?case
    proof (cases "\<exists>b. r = BlockE b")
      case True
      then have c: "c = a" using r(2) by blast
      have "emits I a (Some a) (steps [with_block (slice_get args 0) (emit_dissolved_body cx ee sid), bp pop_op])"
        by (rule emits_Cons [OF body emits_one [OF emits_pop(1)]])
      from emits_loop [OF emits_one [OF recv] this branches_br(3) emits_one [OF emits_push(2)], unfolded append.simps]
      show ?thesis unfolding c .
    next
      case False
      then show ?thesis by (intro while_stuck) auto
    qed
  next
    case 5
    show ?case by (rule blk, rule emits_times_repeat [OF r(1)])
  next
    case 6
    show ?case by (rule tested, rule arms20 [OF popped emits_Nil], rule branches_br)
  next
    case 7
    show ?case by (rule tested, rule arms10 [OF emits_one [OF arm] emits_Nil], rule branches_br)
  next
    case 8
    show ?case by (rule tested, rule arms21 [OF popped emits_one [OF arm]], rule branches_br)
  next
    case 9
    show ?case by (rule tested, rule arms12 [OF emits_one [OF arm] popped], rule branches_br)
  next
    case 10
    show ?case
    proof (cases "\<exists>b. r = BlockE b")
      case True
      then have c: "c = a" using r(2) by blast
      have "emits I a (Some a) (steps [with_block (Some r) (emit_dissolved_body cx ee sid), bp pop_op])"
        by (rule emits_Cons [OF recv emits_one [OF emits_pop(1)]])
      from emits_never [OF emits_forever [OF this emits_one [OF emits_push(2)], unfolded append.simps]]
      show ?thesis unfolding c .
    next
      case False
      then show ?thesis by (intro while_stuck) auto
    qed
  next
    case 11
    show ?case by (rule to_do)
  next
    case 12
    show ?case by (rule emits_panic)
  qed
qed

subsection \<open>Expressions\<close>

lemma emits_args: "list_all cg_expr es \<Longrightarrow> emits I a (Some (a + length es)) (steps (map (ee sid) es))"
proof (induction es arbitrary: a)
  case (Cons e es)
  then have e: "cg_expr e" "emits I (Suc a) (Some (Suc a + length es)) (steps (map (ee sid) es))" using Cons.IH [of "Suc a"] by simp_all
  show ?case using emits_Cons [OF ee_expr [OF e(1)] e(2)] by (simp del: steps.simps)
qed (simp add: emits_Nil del: steps.simps)

lemma emits_send_expr:
  assumes r: "emits I c (Some (Suc a)) (ee sid r)" "\<And>b. r = BlockE b \<Longrightarrow> c = a \<and> list_all cg_stmt (bn_body b)"
    and args: "list_all cg_expr args" "length args < 256"
  shows "emits I c (Some (Suc a)) (emit_send_expr cx ee sid r sel args su)"
proof -
  have n: "unat (of_nat (length args) :: u8) = length args" using args(2) by (simp add: unat_of_nat)
  have "emits I (Suc a + length args) (Some (Suc a)) (with_sym cx sel (\<lambda>s. if su then bo (send_super s (of_nat (length args))) else bo (send s (of_nat (length args)))))"
    by (rule emits_with_sym) (use emits_send [OF n, of I a] in simp)
  then have "emits I c (Some (Suc a)) (steps (ee sid r # map (ee sid) args @
      [with_sym cx sel (\<lambda>s. if su then bo (send_super s (of_nat (length args))) else bo (send s (of_nat (length args))))]))"
    by (rule emits_Cons [OF r(1) emits_append [OF emits_args [OF args(1)] emits_one]])
  then show ?thesis unfolding emit_send_expr_def using emits_inlined [OF r args(1)] by (simp del: steps.simps)
qed

lemma emits_segments: "list_all cg_seg segs \<Longrightarrow> segs \<noteq> [] \<Longrightarrow> emits I (Suc a) (Some (Suc a)) (steps (emit_segments ee sid segs))"
proof (induction segs)
  case (Cons seg segs)
  then have seg: "cg_seg seg" by simp
  show ?case
  proof (cases segs)
    case Nil
    then show ?thesis using emits_one [OF ee_seg [OF seg]] by (simp del: steps.simps)
  next
    case (Cons seg2 segs2)
    then have "emits I (Suc a) (Some (Suc a)) (steps (emit_segments ee sid segs))" using Cons.IH Cons.prems by simp
    from emits_Cons [OF emits_dup emits_Cons [OF ee_seg [OF seg] emits_Cons [OF emits_pop(1) this]]]
    show ?thesis using Cons by (simp del: steps.simps)
  qed
qed simp

lemma emits_elems: "list_all cg_expr es \<Longrightarrow> emits I (Suc a) (Some (Suc a)) (steps (emit_elems cx ee sid s i es))"
proof (induction es arbitrary: i)
  case (Cons e es)
  then have e: "cg_expr e" "emits I (Suc a) (Some (Suc a)) (steps (emit_elems cx ee sid s (i + 1) es))" by auto
  have "emits I (Suc (Suc (Suc (Suc a)))) (Some (Suc (Suc a))) (bo (send s 2))" using emits_send(1) [of 2 "Suc (Suc 0)" I "Suc a" s] by simp
  from emits_Cons [OF emits_dup emits_Cons [OF emits_literal emits_Cons [OF ee_expr [OF e(1)] emits_Cons [OF this emits_Cons [OF emits_pop(1) e(2)]]]]]
  show ?case by (simp del: steps.simps)
qed (simp add: emits_Nil del: steps.simps)

lemma emits_dyn_array:
  assumes "list_all cg_expr es"
  shows "emits I a (Some (Suc a)) (emit_dyn_array cx ee sid es)"
proof -
  have "emits I a (Some (Suc a)) (steps ([bo (push_literal w), emit_literal cx (IntL (int (length es))), bo (send s 1)] @ emit_elems cx ee sid s' 0 es))" for w s s'
    unfolding append.simps
    by (rule emits_Cons [OF emits_push(9)], rule emits_Cons [OF emits_literal], rule emits_Cons [OF _ emits_elems [OF assms]]) (use emits_send(1) [of 1 1 I a s] in simp)
  then have arr: "emits I a (Some (Suc a)) (with_sym cx (ustr ''new:'') (\<lambda>new_colon. with_sym cx (ustr ''at:put:'') (\<lambda>at_put_sym.
           steps ([bo (push_literal w), emit_literal cx (IntL (int (length es))), bo (send new_colon 1)] @ emit_elems cx ee sid at_put_sym 0 es))))" for w
    by (intro emits_with_sym)
  show ?thesis
  proof (rule emitsI)
    fix st st'
    assume "emit_dyn_array cx ee sid es st = Inr st'"
    then show "\<exists>st0 g. quiet st st0 \<and> emits I a (Some (Suc a)) g \<and> g st0 = Inr st'"
      using quiet_refl [of st] arr [of "cgo_array_klass (cx_ops cx) (cg_vm st)"] unfolding emit_dyn_array_def Let_def by blast
  qed
qed

lemma emits_prologue: "emits I a (Some a) (emit_prologue info)"
proof -
  have each: "emits I a (Some a) (case x of (i, nm, v) \<Rightarrow> if vs_captured v
          then steps [bp (push_temp (of_nat i)), case vs_ctx_slot v of None \<Rightarrow> cg_panic | Some c \<Rightarrow> bp (store_ctx_temp_pop 0 (of_nat c))] else Inr)" for x :: "nat \<times> utext \<times> var_slot"
  proof (cases x)
    case (fields i nm v)
    have "emits I (Suc a) (Some a) (case vs_ctx_slot v of None \<Rightarrow> cg_panic | Some c \<Rightarrow> bp (store_ctx_temp_pop 0 (of_nat c)))"
      by (cases "vs_ctx_slot v") (simp_all add: emits_panic emits_pop)
    then show ?thesis using emits_Cons [OF emits_push(6) emits_one] by (simp add: fields emits_Inr del: steps.simps)
  qed
  have "emits I a (Some a) (steps (map (\<lambda>(i, nm, v). if vs_captured v
          then steps [bp (push_temp (of_nat i)), case vs_ctx_slot v of None \<Rightarrow> cg_panic | Some c \<Rightarrow> bp (store_ctx_temp_pop 0 (of_nat c))] else Inr) xs))"
    for xs :: "(nat \<times> utext \<times> var_slot) list"
  proof (induction xs)
    case Nil
    show ?case by (simp add: emits_Nil del: steps.simps)
  next
    case (Cons x xs)
    then show ?case unfolding list.map by (rule emits_Cons [OF each])
  qed
  then show ?thesis unfolding emit_prologue_def by (simp add: emits_Inr del: steps.simps)
qed

text \<open>A unit's body ends in a return.\<close>

lemma emits_body:
  assumes "list_all cg_stmt body"
  shows "emits I a None (emit_body cx ee sid body kind)"
proof -
  have split: "list_all cg_stmt (butlast body)" "body \<noteq> [] \<Longrightarrow> cg_stmt (last body)" using assms by (auto simp: list_all_iff dest: in_set_butlastD)
  have lst: "emits I a None (steps (case last body of ReturnE e _ \<Rightarrow> [ee sid e, if blk then bp nlr_tos else bp ret_tos]
      | _ \<Rightarrow> [emit_statement_value cx ee sid (last body), if blk then bp block_return_tos else bp ret_tos]))" if "body \<noteq> []" for blk
  proof (cases "\<exists>v sp. last body = ReturnE v sp")
    case True
    then obtain v sp where l: "last body = ReturnE v sp" by blast
    show ?thesis unfolding l expr.case by (rule emits_exit_stmt) (use split(2) that l in simp)
  next
    case False
    then have e: "cg_expr (last body)" using cg_stmt_expr split(2) that by blast
    have "emits I (Suc a) None (if blk then bp block_return_tos else bp ret_tos)" by (simp add: emits_return)
    from emits_Cons [OF emits_value [OF e] emits_Cons_dead [OF this emits_Nil]]
    show ?thesis using False by (cases "last body") (simp_all del: steps.simps)
  qed
  have empty: "emits I a None (if kind = BlockBody then steps [bp push_nil, bp block_return_tos] else bp ret_self)"
    by (rule emits_if, rule emits_Cons [OF emits_push(2) emits_Cons_dead [OF emits_return(3) emits_Nil]], rule emits_return(4))
  have meth: "emits I a None (steps (map (emit_statement_discard cx ee sid False) body @ [bp ret_self]))"
    by (rule emits_append_dead [OF emits_discards [OF assms] emits_Cons_dead [OF emits_return(4) emits_Nil]])
  show ?thesis unfolding emit_body_def Let_def
    by (rule emits_if, rule empty, rule emits_if, rule meth, rule emits_append_dead [OF emits_discards [OF split(1)] lst])
qed

subsection \<open>Blocks\<close>

lemma emits_block_literal:
  assumes "list_all cg_stmt (bn_body b)"
  shows "emits I a (Some (Suc a)) (emit_block_literal cx ee b)"
proof (rule emitsI)
  fix st st'
  assume I: "I (cg_vm st)" and run: "emit_block_literal cx ee b st = Inr st'"
  obtain info where info: "slice_get (cx_scopes cx) (bn_scope_id b) = Some info" using run by (auto simp: emit_block_literal_def split: option.splits)
  let ?unit = "steps [emit_prologue info, emit_body cx ee (bn_scope_id b) (bn_body b) BlockBody]"
    and ?st = "st\<lparr>cg_builder := new_builder, cg_cache := new_cache_lits, cg_hoist := [], cg_next_slot := si_frame_temp_count info + length (bn_params b), cg_in_block := True\<rparr>"
  have unit: "emits I 0 None ?unit" by (rule emits_Cons [OF emits_prologue emits_Cons_dead [OF emits_body [OF assms] emits_Nil]])
  obtain inner sel vm m v vm' lit b' where inner: "?unit ?st = Inr inner" and sel: "cgo_intern (cx_ops cx) (ustr ''aBlock'') (cg_vm inner) = (sel, vm)"
    and m: "finish_unit cx sel (length (bn_params b)) info True False (inner\<lparr>cg_vm := vm\<rparr>) = Inr m"
    and v: "cgo_alloc (cx_ops cx) (ObjBlock m) vm = (v, vm')" and lit: "intern_block_literal v (cg_builder st) = Some (lit, b')"
    and st': "bo (push_closure lit 0) (st\<lparr>cg_vm := vm', cg_builder := b'\<rparr>) = Inr st'"
    using run info by (auto simp: emit_block_literal_def check_limits_def cg_error_def rbind_def Let_def simp del: steps.simps
      split: sum.splits if_splits prod.splits option.splits)
  note safe = unit_safe [OF unit inner _ _ m]
  have "I vm" using intern_keeps [of "cg_vm inner" "ustr ''aBlock''"] safe(2) I sel by simp
  then have "I vm'" using alloc_keeps [of vm "ObjBlock m"] safe(1) I v by simp
  then have q: "quiet st (st\<lparr>cg_vm := vm'\<rparr>)" by (simp add: quiet_def)
  have "emits I a (Some a) (bo (map_option snd \<circ> intern_block_literal v))"
    using emits_call [OF does_bo [of "InternBlock v"], of "map_option snd \<circ> intern_block_literal v" 0 0 I a] by (simp add: call_facts)
  then have "emits I a (Some (Suc a)) (steps [bo (map_option snd \<circ> intern_block_literal v), bo (push_closure lit 0)])"
    by (rule emits_Cons [OF _ emits_one [OF emits_closure]])
  moreover have "steps [bo (map_option snd \<circ> intern_block_literal v), bo (push_closure lit 0)] (st\<lparr>cg_vm := vm'\<rparr>) = Inr st'"
    using lit st' by (simp add: bo_def rbind_def split: option.splits)
  ultimately show "\<exists>st0 g. quiet st st0 \<and> emits I a (Some (Suc a)) g \<and> g st0 = Inr st'" using q by blast
qed

lemma emits_expr_body: "cg_expr e \<Longrightarrow> emits I a (Some (Suc a)) (emit_expr_body cx ee sid e)"
proof (cases e)
  case (AssignE n v sp)
  assume "cg_expr e"
  then have "cg_expr v" using AssignE by simp
  then show ?thesis unfolding AssignE emit_expr_body_def expr.case by (intro emits_Cons [OF ee_expr] emits_Cons [OF emits_dup] emits_one emits_store)
next
  case (SendE r sel args su sp)
  assume "cg_expr e"
  then have r: "cg_expr r" "length args < 256" "list_all cg_expr args" using SendE by auto
  have blk: "\<And>b. r = BlockE b \<Longrightarrow> a = a \<and> list_all cg_stmt (bn_body b)" using r(1) cg_block by simp
  show ?thesis unfolding SendE emit_expr_body_def expr.case by (rule emits_send_expr [OF ee_expr [OF r(1)] blk r(3,2)])
next
  case (CascadeE r segs sp)
  assume "cg_expr e"
  then have "cg_expr r" "segs \<noteq> []" "list_all cg_seg segs" using CascadeE by auto
  then show ?thesis unfolding CascadeE emit_expr_body_def expr.case by (intro emits_Cons [OF ee_expr emits_segments])
qed (use cg_block in \<open>auto simp: emit_expr_body_def emits_push emits_load emits_literal emits_dyn_array emits_block_literal\<close>)

lemma emits_seg_body: "cg_seg e \<Longrightarrow> emits I (Suc a) (Some (Suc a)) (emit_expr_body cx ee sid e)"
proof (cases e)
  case (SendE r sel args su sp)
  assume "cg_seg e"
  then have r: "cg_seg r" "length args < 256" "list_all cg_expr args" using SendE by auto
  have blk: "\<And>b. r = BlockE b \<Longrightarrow> Suc a = a \<and> list_all cg_stmt (bn_body b)" using r(1) by auto
  show ?thesis unfolding SendE emit_expr_body_def expr.case by (rule emits_send_expr [OF ee_seg [OF r(1)] blk r(3,2)])
qed (auto simp: emit_expr_body_def emits_Inr)

end

context code_memory
begin

lemma emit_expr_emitter: "expr_emitter cx I (emit_expr cx n)"
proof (induction n)
  case 0
  show ?case by unfold_locales (simp_all add: emits_def does_def)
next
  case (Suc n)
  have eq: "emit_expr cx (Suc n) sid e = emit_expr_body cx (emit_expr cx n) sid e" for sid e by (rule ext) simp
  show ?case
    by unfold_locales (unfold eq, erule expr_emitter.emits_expr_body [OF Suc], erule expr_emitter.emits_seg_body [OF Suc])
qed

lemma unit_emits:
  assumes "list_all cg_stmt body"
  shows "emits I 0 None (steps [emit_prologue info, emit_body cx (emit_expr cx n) sid body kind])"
  by (rule emits_Cons [OF expr_emitter.emits_prologue [OF emit_expr_emitter] emits_Cons_dead [OF expr_emitter.emits_body [OF emit_expr_emitter assms] emits_Nil]])

end

subsection \<open>Trees of the parser\<close>

fun few_args :: "expr \<Rightarrow> bool" where
  "few_args (AssignE _ e _) \<longleftrightarrow> few_args e"
| "few_args (SendE r _ args _ _) \<longleftrightarrow> few_args r \<and> length args < 256 \<and> list_all few_args args"
| "few_args (CascadeE r segs _) \<longleftrightarrow> few_args r \<and> list_all few_args segs"
| "few_args (DynArray es _) \<longleftrightarrow> list_all few_args es"
| "few_args (BlockE (BlockNode _ _ body _ _)) \<longleftrightarrow> list_all few_args body"
| "few_args (ReturnE e _) \<longleftrightarrow> few_args e"
| "few_args _ \<longleftrightarrow> True"

lemma wf_cg:
  "wf_expr e \<Longrightarrow> few_args e \<Longrightarrow> cg_expr e"
  "wf_seg s rs e' \<Longrightarrow> few_args e' \<Longrightarrow> cg_seg e'"
  "wf_stmt e'' \<Longrightarrow> few_args e'' \<Longrightarrow> cg_stmt e''"
  by (induction e and s rs e' and e'' rule: wf_expr_wf_seg_wf_stmt.induct) (auto simp: list_all_iff)

text \<open>The capture analysis keeps the shape.\<close>

definition same_shape :: "expr \<Rightarrow> expr \<Rightarrow> bool" where
  "same_shape e e' \<longleftrightarrow> (cg_expr e \<longrightarrow> cg_expr e') \<and> (cg_seg e \<longrightarrow> cg_seg e') \<and> (cg_stmt e \<longrightarrow> cg_stmt e')"

lemma shapes:
  assumes "list_all2 same_shape es es'"
  shows "length es' = length es" "list_all cg_expr es \<Longrightarrow> list_all cg_expr es'" "list_all cg_seg es \<Longrightarrow> list_all cg_seg es'" "list_all cg_stmt es \<Longrightarrow> list_all cg_stmt es'"
  using assms by (induction rule: list_all2_induct) (auto simp: same_shape_def)

lemma same_shape_parts:
  "same_shape e e' \<Longrightarrow> same_shape (AssignE n e sp) (AssignE n e' sp)"
  "same_shape e e' \<Longrightarrow> same_shape (ReturnE e sp) (ReturnE e' sp)"
  "same_shape r r' \<Longrightarrow> list_all2 same_shape es es' \<Longrightarrow> same_shape (SendE r sel es su sp) (SendE r' sel es' su sp)"
  "same_shape r r' \<Longrightarrow> list_all2 same_shape es es' \<Longrightarrow> same_shape (CascadeE r es sp) (CascadeE r' es' sp)"
  "list_all2 same_shape es es' \<Longrightarrow> same_shape (DynArray es sp) (DynArray es' sp)"
  "(list_all cg_stmt (bn_body b) \<longrightarrow> list_all cg_stmt (bn_body b')) \<Longrightarrow> same_shape (BlockE b) (BlockE b')"
  using shapes [of es es'] by (cases b; cases b'; auto simp: same_shape_def)+

lemma same_shape_refl: "same_shape e e"
  by (simp add: same_shape_def)

lemma walk_shape:
  "walk_expr sid e st = Some (e', st1) \<Longrightarrow> same_shape e e'"
  "walk_pos sid d e st = Some (e', st1) \<Longrightarrow> same_shape e e'"
  "dissolve_block_into sid b st = Some (b', st1) \<Longrightarrow> list_all cg_stmt (bn_body b) \<longrightarrow> list_all cg_stmt (bn_body b')"
  "walk_args sid ps i es st = Some (es', st1) \<Longrightarrow> list_all2 same_shape es es'"
  "walk_block_body sid es st = Some (es', st1) \<Longrightarrow> list_all2 same_shape es es'"
proof (induction sid e st and sid d e st and sid b st and sid ps i es st and sid es st arbitrary: e' st1 and e' st1 and b' st1 and es' st1 and es' st1
    rule: walk_expr_walk_pos_dissolve_block_into_walk_args_walk_block_body.induct)
qed (auto simp: bind_eq_Some_conv Let_def intro!: same_shape_parts same_shape_refl split: prod.splits, blast intro: shapes(4), blast intro: shapes(4))

subsection \<open>A machine that keeps the blocks\<close>

text \<open>Any machine, with a record of the block methods it was asked to allocate.\<close>

definition spy :: "'vm cg_ops \<Rightarrow> ('vm \<times> method_oop list) cg_ops" where
  "spy ops = \<lparr>
     cgo_intern = (\<lambda>t (vm, log). let (s, vm) = cgo_intern ops t vm in (s, vm, log)),
     cgo_alloc = (\<lambda>ob (vm, log). let (v, vm) = cgo_alloc ops ob vm in (v, vm, case ob of ObjBlock m \<Rightarrow> log @ [m] | _ \<Rightarrow> log)),
     cgo_at_put = (\<lambda>arr i v (vm, log). (cgo_at_put ops arr i v vm, log)),
     cgo_nil = cgo_nil ops \<circ> fst, cgo_true = cgo_true ops \<circ> fst, cgo_false = cgo_false ops \<circ> fst,
     cgo_array_klass = cgo_array_klass ops \<circ> fst, cgo_superclass = cgo_superclass ops \<circ> fst,
     cgo_inst_var_names = cgo_inst_var_names ops \<circ> fst, cgo_class_vars = cgo_class_vars ops \<circ> fst,
     cgo_assoc_key = cgo_assoc_key ops \<circ> fst, cgo_klasses = cgo_klasses ops \<circ> fst,
     cgo_global_lookup = cgo_global_lookup ops \<circ> fst,
     cgo_global_declare = (\<lambda>s (vm, log). let (v, vm) = cgo_global_declare ops s vm in (v, vm, log)),
     cgo_float_bits = cgo_float_bits ops,
     cgo_record_lines = (\<lambda>k cs sel ls (vm, log). (cgo_record_lines ops k cs sel ls vm, log))\<rparr>"

interpretation spied: code_memory "cx\<lparr>cx_ops := spy ops\<rparr>" "\<lambda>s. \<forall>m \<in> set (snd s). method_safe m" for cx ops
  by unfold_locales (auto simp: spy_def split: prod.splits lit_obj.splits)

interpretation spied_expr: expr_emitter "cx\<lparr>cx_ops := spy ops\<rparr>" "\<lambda>s. \<forall>m \<in> set (snd s). method_safe m" "emit_expr (cx\<lparr>cx_ops := spy ops\<rparr>) n" for cx ops n
  by (rule spied.emit_expr_emitter)

lemma finish_method_unit:
  assumes "finish_method cx m info st = Inr (mo, vm)" "mn_ffi m = None"
  obtains sel pf vm1 mo1 where "finish_unit cx sel (length (mn_params m)) info False pf (st\<lparr>cg_vm := vm1\<rparr>) = Inr mo1"
    "m_bytes mo = m_bytes mo1" "m_ics mo = m_ics mo1" "m_literals mo = m_literals mo1" "vm1 = snd (cgo_intern (cx_ops cx) (pattern_selector m) (cg_vm st))"
    "vm = vm1 \<or> (\<exists>ls. vm = cgo_record_lines (cx_ops cx) (cx_holder cx) (cx_class_side cx) (pattern_selector m) ls vm1)"
proof -
  obtain sel vm1 where s: "cgo_intern (cx_ops cx) (pattern_selector m) (cg_vm st) = (sel, vm1)" by fastforce
  show thesis
    using assms s
    by (auto simp: finish_method_def rbind_def Let_def set_primitive_def bind_eq_Some_conv split: sum.splits option.splits if_splits intro!: that)
qed

lemma compile_safe:
  assumes wf: "list_all cg_stmt (mn_body m)" and ffi: "mn_ffi m = None"
    and run: "compile_method_inner (spy ops) holder class_side top_level m (vm, []) = Inr (mo, vm', log)"
  shows "\<forall>x \<in> set (mo # log). method_safe x"
proof -
  let ?I = "\<lambda>s :: 'a \<times> method_oop list. \<forall>m \<in> set (snd s). method_safe m"
  obtain body cst scopes where an: "walk_method m = Some (body, cst)" "analyze m = Some (m\<lparr>mn_body := body\<rparr>, scopes)"
    using run by (auto simp: compile_method_inner_def analyze_def bind_eq_Some_conv split: option.splits)
  have cg: "list_all cg_stmt body" using walk_shape(5) shapes(4) an(1) wf unfolding walk_method_def by blast
  obtain ivs scope0 where iv: "(if class_side then Some [] else flatten_inst_vars (spy ops) (vm, []) holder) = Some ivs" "slice_get scopes 0 = Some scope0"
    using run an(2) by (auto simp: compile_method_inner_def split: option.splits)
  define cx where "cx = \<lparr>cx_ops = spy ops, cx_holder = holder, cx_class_side = class_side, cx_top_level = top_level, cx_scopes = scopes, cx_inst_vars = ivs\<rparr>"
  have cx: "cx\<lparr>cx_ops := spy ops\<rparr> = cx" by (simp add: cx_def)
  define fuel where "fuel = compile_fuel (m\<lparr>mn_body := body\<rparr>)"
  define kind where "kind = (if top_level then DoItBody else MethodBody)"
  define st0 where "st0 = \<lparr>cg_vm = (vm, [] :: method_oop list), cg_builder = new_builder, cg_cache = new_cache_lits, cg_hoist = [],
     cg_next_slot = si_frame_temp_count scope0 + length (mn_params m), cg_in_block = False\<rparr>"
  let ?f = "steps [emit_prologue scope0, emit_body cx (emit_expr cx fuel) 0 body kind]"
  obtain st1 where st1: "?f st0 = Inr st1" and fin: "finish_method cx (m\<lparr>mn_body := body\<rparr>) scope0 st1 = Inr (mo, vm', log)"
    using run an(2) iv by (auto simp: compile_method_inner_def check_limits_def cg_error_def Let_def rbind_def cx_def fuel_def kind_def st0_def
      simp del: steps.simps split: if_splits sum.splits)
  have f: "emits ?I 0 None ?f" using spied.unit_emits [where cx = cx and ops = ops, OF cg] unfolding cx .
  obtain sel pf vm1 mo1 where u: "finish_unit cx sel (length (mn_params m)) scope0 False pf (st1\<lparr>cg_vm := vm1\<rparr>) = Inr mo1"
    and eq: "m_bytes mo = m_bytes mo1" "m_ics mo = m_ics mo1" "m_literals mo = m_literals mo1" "snd vm1 = snd (cg_vm st1)" "log = snd vm1"
    by (rule finish_method_unit [OF fin]) (use ffi in \<open>auto simp: cx_def spy_def split: prod.splits\<close>)
  note safe = spied.unit_safe [where cx = cx and ops = ops, unfolded cx, OF f st1 _ _ u]
  have "method_safe mo1" "?I (cg_vm st1)" by (rule safe; simp add: st0_def)+
  then show ?thesis using eq stack_safe_cong [of mo mo1] by (simp add: method_safe_def)
qed

text \<open>
  C4. Compiled code is stack safe. Whatever class the method belongs to and however the machine interns and allocates, if the compiler accepts a method of the parser
  (without an FFI pragma and with no send of more than 255 arguments), then the code it returns and the code of every block it allocated on the way are stack
  safe, as long as the literal frame can be indexed: every reachable instruction finds its operands, all ways to an instruction
  come with the same depth, and no jump and no fall-through leaves the code.
\<close>
theorem codegen_stack_safe:
  assumes "wf_method m" "list_all few_args (mn_body m)" "mn_ffi m = None"
    and "compile_method (spy ops) holder class_side m (vm, []) = Inr (mo, vm', log)"
  shows "\<forall>x \<in> set (mo # log). length (m_literals x) \<le> 65536 \<longrightarrow> stack_safe x"
proof -
  have "list_all cg_stmt (mn_body m)" using assms(1,2) wf_cg(3) by (auto simp: wf_method_def list_all_iff)
  from compile_safe [OF this assms(3) assms(4) [unfolded compile_method_def]] show ?thesis by (simp add: method_safe_def)
qed

lemma limits_code [code_unfold]: "n < BCI_SENTINEL_BASE \<longleftrightarrow> int n < 0x7FFF0000" "n \<le> U16_MAX \<longleftrightarrow> int n \<le> 65535"
  by (simp_all add: BCI_SENTINEL_BASE_def U16_MAX_def)

definition demo_ops :: "nat cg_ops" where
  "demo_ops = \<lparr>cgo_intern = (\<lambda>t vm. (5, vm)), cgo_alloc = (\<lambda>ob vm. (of_nat (8 * vm + 1), vm + 1)), cgo_at_put = (\<lambda>a i v vm. vm),
     cgo_nil = (\<lambda>_. 17), cgo_true = (\<lambda>_. 25), cgo_false = (\<lambda>_. 33), cgo_array_klass = (\<lambda>_. 41), cgo_superclass = (\<lambda>_ _. None),
     cgo_inst_var_names = (\<lambda>_ _. None), cgo_class_vars = (\<lambda>_ _. None), cgo_assoc_key = (\<lambda>_ _. None), cgo_klasses = (\<lambda>_. 1),
     cgo_global_lookup = (\<lambda>_ _. None), cgo_global_declare = (\<lambda>s vm. (s, vm)), cgo_float_bits = (\<lambda>_ _. 0), cgo_record_lines = (\<lambda>_ _ _ _ vm. vm)\<rparr>"

text \<open>\<open>at: x  x ifTrue: [^[x]]. ^x\<close>\<close>

definition cg_demo :: method_node where
  "cg_demo = \<lparr>pattern_selector = ustr ''at:'', mn_params = [ustr ''x''], mn_primitive = None, mn_ffi = None, mn_temps = [],
     mn_body = [SendE (Var (ustr ''x'') cap_demo_span) (ustr ''ifTrue:'')
         [BlockE (BlockNode [] [] [ReturnE (BlockE (BlockNode [] [] [Var (ustr ''x'') cap_demo_span] cap_demo_span 0)) cap_demo_span] cap_demo_span 0)] False cap_demo_span,
       ReturnE (Var (ustr ''x'') cap_demo_span) cap_demo_span],
     mn_class_side = False, mn_span = cap_demo_span\<rparr>"

lemma cg_demo_run:
  "case compile_method (spy demo_ops) 9 False cg_demo (0, []) of Inl _ \<Rightarrow> False
   | Inr (mo, vm, log) \<Rightarrow> length (m_literals mo) = 1 \<and> map (\<lambda>b. (length (m_bytes b), length (m_literals b))) log = [(4, 0)]"
  by code_simp

theorem codegen_stack_safe_witness:
  "\<exists>mo blk vm. compile_method (spy demo_ops) 9 False cg_demo (0, []) = Inr (mo, vm, [blk]) \<and> stack_safe mo \<and> stack_safe blk"
proof -
  obtain mo vm blk where run: "compile_method (spy demo_ops) 9 False cg_demo (0, []) = Inr (mo, vm, [blk])"
    and lits: "length (m_literals mo) = 1" "length (m_literals blk) = 0"
    using cg_demo_run by (auto split: sum.splits)
  have "free_names [ustr ''x''] \<and> is_ident (ustr ''x'') \<and> \<not> is_reserved (ustr ''x'') \<and> sel_arity (ustr ''at:'') = 1 \<and> sel_arity (ustr ''ifTrue:'') = 1" by code_simp
  then have wf: "wf_method cg_demo" by (simp add: wf_method_def cg_demo_def free_names_def)
  have few: "list_all few_args (mn_body cg_demo)" "mn_ffi cg_demo = None" by code_simp+
  from codegen_stack_safe [OF wf few run] show ?thesis using run lits by simp
qed

subsection \<open>Temporaries of dissolved blocks\<close>













end
