(* ===== verification/Codegen_Total.thy ===== *)
theory Codegen_Total
  imports Codegen
begin

text \<open>
  The fuel of the code generator's model is enough: \<^const>\<open>compile_fuel\<close>, the size of the method's tree, for \<^const>\<open>emit_expr\<close>, and the number of classes for the walk up the
  superclass chain, in a class hierarchy without cycles. So \<^const>\<open>OutOfFuel\<close>, which the program does not have, is never a result of compiling.
\<close>

definition fed :: "'vm emitter \<Rightarrow> bool" where
  "fed f \<longleftrightarrow> (\<forall>st. f st \<noteq> Inl OutOfFuel)"

lemma rbind_fed: "rbind x k = Inl OutOfFuel \<longleftrightarrow> x = Inl OutOfFuel \<or> (\<exists>y. x = Inr y \<and> k y = Inl OutOfFuel)"
  by (auto simp: rbind_def split: sum.splits)

lemma fed_steps: "list_all fed fs \<Longrightarrow> fed (steps fs)"
proof (induction fs)
  case (Cons f fs)
  then show ?case unfolding fed_def steps.simps by (auto simp: rbind_fed)
qed (simp add: fed_def)

lemma fed_prim [simp]: "fed (bp f)" "fed (bo g)" "fed cg_panic" "fed Inr" "fed (push_hoist_scope blk)" "fed (push_hoist names)" "fed pop_hoist" "fed (stmt_line e)"
  by (simp_all add: fed_def bp_def bo_def cg_panic_def push_hoist_scope_def push_hoist_def pop_hoist_def stmt_line_def split: option.splits prod.splits)

lemma fed_with:
  "(\<And>l. fed (k l)) \<Longrightarrow> fed (with_label k)" "(\<And>s. fed (k' s)) \<Longrightarrow> fed (with_slot k')" "(\<And>s. fed (g s)) \<Longrightarrow> fed (with_sym cx t g)"
  "(\<And>b. e = Some (BlockE b) \<Longrightarrow> fed (h b)) \<Longrightarrow> fed (with_block e h)" "(\<And>s. fed (k' s)) \<Longrightarrow> fed (with_hoisted nm k')"
  by (auto simp: fed_def with_label_def with_slot_def with_sym_def with_block_def with_hoisted_def split: prod.splits option.splits expr.splits list.splits)

lemma fed_two_labels: "(\<And>l1 l2. list_all fed (k l1 l2)) \<Longrightarrow> fed (two_labels k)"
  unfolding two_labels_def by (intro fed_with fed_steps)

lemma literal_fed: "build_literal_value cx l st \<noteq> Inl OutOfFuel" "build_items cx arr i ls st \<noteq> Inl OutOfFuel"
  by (induction cx l st and cx arr i ls st rule: build_literal_value_build_items.induct)
    (auto simp: Let_def simp: rbind_fed split: option.splits prod.splits)

lemma fed_literal [simp]: "fed (emit_literal cx l)"
  by (auto simp: literal_fed Let_def fed_def emit_literal_def bp_def bo_def simp: rbind_fed split: literal.splits option.splits prod.splits)

lemma fed_send_named [simp]: "fed (send_named cx name n)"
  unfolding send_named_def by (intro fed_with) simp

lemma fed_loop [simp]: "fed (loop_test cx i lim l2)" "fed (loop_step cx i l0 l2)"
  unfolding loop_test_def loop_step_def by (rule fed_steps, simp)+

lemma fed_prologue [simp]: "fed (emit_prologue info)"
proof (cases "si_has_ctx info")
  case True
  then show ?thesis unfolding emit_prologue_def
    by (auto intro!: fed_steps simp: list_all_iff simp del: steps.simps split: option.splits)
qed (simp add: emit_prologue_def)

lemma set_size: "(e :: expr) \<in> set es \<Longrightarrow> size e \<le> size_list size es"
  by (rule size_list_estimation') auto

subsection \<open>Statements and expressions\<close>

text \<open>A class hierarchy: every class has a depth below the number of classes, and its superclass is less deep. Expressions below a size are fed.\<close>

definition hierarchy :: "'vm cg_ops \<Rightarrow> bool" where
  "hierarchy ops \<longleftrightarrow> (\<forall>vm. \<exists>depth. \<forall>k. depth k < cgo_klasses ops vm \<and> (\<forall>k'. cgo_superclass ops vm k = Some k' \<longrightarrow> depth k' < depth k))"

lemma klass_chain_ends: "hierarchy ops \<Longrightarrow> klass_chain (cgo_klasses ops vm) ops vm k \<noteq> None"
proof -
  assume "hierarchy ops"
  then obtain depth :: "oop \<Rightarrow> nat" where d: "\<And>k. depth k < cgo_klasses ops vm" "\<And>k k'. cgo_superclass ops vm k = Some k' \<Longrightarrow> depth k' < depth k"
    unfolding hierarchy_def by metis
  have "depth k < n \<Longrightarrow> klass_chain n ops vm k \<noteq> None" for n k
    by (induction n arbitrary: k) (auto split: option.splits dest!: d(2) intro: less_le_trans)
  then show ?thesis using d(1) by blast
qed

definition fed_below :: "'vm cg_ctx \<Rightarrow> 'vm emit_fn \<Rightarrow> nat \<Rightarrow> bool" where
  "fed_below cx ee N \<longleftrightarrow> hierarchy (cx_ops cx) \<and> (\<forall>sid e. size e < N \<longrightarrow> fed (ee sid e))"

lemma resolve_fed: "hierarchy (cx_ops cx) \<Longrightarrow> resolve_var cx sid name sp wr st \<noteq> Inl OutOfFuel"
proof -
  assume "hierarchy (cx_ops cx)"
  then have fcv: "(find_class_var (cx_ops cx) vm k nm = None) = False" for vm k nm
    by (auto simp: find_class_var_def klass_chain_ends split: bind_splits)
  show ?thesis
    by (auto simp: fcv resolve_var_def resolve_outer_def resolve_global_def cg_error_def Let_def split: option.splits resolved.splits prod.splits if_splits)
qed

lemma fed_access: "fed_below cx ee N \<Longrightarrow> fed (emit_load cx sid name sp)" "fed_below cx ee N \<Longrightarrow> fed (emit_store cx sid name sp)"
  using resolve_fed [of cx] by (auto simp: fed_below_def fed_def emit_load_def emit_store_def bp_def bo_def rbind_fed split: var_ref.splits option.splits)

lemma ee_fed: "fed_below cx ee N \<Longrightarrow> size e < N \<Longrightarrow> fed (ee sid e)"
  by (simp add: fed_below_def)

text \<open>The facts of one expression emitter; \<open>fb\<close> is the assumption they share.\<close>

lemma fed_discard:
  assumes fb: "fed_below cx ee N" and "size e < N"
  shows "fed (emit_statement_discard cx ee sid blk e)" "fed (emit_statement_value cx ee sid e)"
  using assms ee_fed [OF fb] fed_access [OF fb]
  by (auto simp: emit_statement_discard_def emit_statement_value_def intro!: fed_steps split: expr.splits simp del: steps.simps)

lemma body_sizes:
  assumes fb: "fed_below cx ee N" and N: "size_list size body < N"
  shows "list_all fed (map (emit_statement_discard cx ee sid blk) body)" "list_all fed (map (emit_statement_discard cx ee sid blk) (butlast body))"
    "body \<noteq> [] \<Longrightarrow> size (last body) < N"
proof -
  have "size e < N" if "e \<in> set body" for e using set_size [OF that] N by simp
  then show "list_all fed (map (emit_statement_discard cx ee sid blk) body)" "list_all fed (map (emit_statement_discard cx ee sid blk) (butlast body))"
    "body \<noteq> [] \<Longrightarrow> size (last body) < N"
    using fed_discard(1) [OF fb] by (auto simp: list_all_iff dest: in_set_butlastD)
qed

lemma fed_seq:
  assumes fb: "fed_below cx ee N" and N: "size_list size body < N"
  shows "fed (emit_statement_seq cx ee sid body)"
proof -
  have "fed (steps (map (emit_statement_discard cx ee sid blk) (butlast body) @ (case last body of ReturnE e _ \<Rightarrow> [ee sid e, if blk then bp nlr_tos else bp ret_tos]
      | _ \<Rightarrow> [emit_statement_value cx ee sid (last body)])))" if "body \<noteq> []" for blk
    using body_sizes(2) [OF fb N] body_sizes(3) [OF fb N that] fed_discard(2) [OF fb] ee_fed [OF fb]
    by (intro fed_steps) (auto split: expr.splits)
  then show ?thesis unfolding fed_def emit_statement_seq_def Let_def by (simp add: bp_def del: steps.simps)
qed

lemma fed_block:
  assumes fb: "fed_below cx ee N" and N: "size_list size (bn_body b) < N"
  shows "fed (emit_dissolved_body cx ee sid b)" "fed (emit_ifnotnil_arm cx ee sid b)"
proof -
  show d: "fed (emit_dissolved_body cx ee sid b)" unfolding emit_dissolved_body_def by (rule fed_steps) (simp add: fed_seq [OF fb N])
  show "fed (emit_ifnotnil_arm cx ee sid b)"
    unfolding emit_ifnotnil_arm_def using d fed_seq [OF fb N] by (auto intro!: fed_steps fed_with(5) simp del: steps.simps split: list.splits)
qed

lemma fed_counted:
  assumes fb: "fed_below cx ee N" and r: "size r < N" and N: "size_list size (bn_body b) < N"
  shows "fed (emit_times_repeat cx ee sid r b)" "size lim < N \<Longrightarrow> fed (emit_to_do cx ee sid r lim v b)"
  unfolding emit_times_repeat_def emit_to_do_def using fed_seq [OF fb N] ee_fed [OF fb]
  by (auto intro!: fed_steps fed_with(2) fed_two_labels simp: r simp del: steps.simps)

lemma fed_nil_test: "fed_below cx ee N \<Longrightarrow> size r < N \<Longrightarrow> fed (nil_test cx ee sid r)"
  unfolding nil_test_def by (rule fed_steps) (simp add: ee_fed)

lemma block_size: "size_list size (bn_body b) < size (BlockE b)"
  by (cases b) simp

lemma fed_if: "(P \<Longrightarrow> fed f) \<Longrightarrow> (\<not> P \<Longrightarrow> fed g) \<Longrightarrow> fed (if P then f else g)"
  by simp

lemma fed_inlined:
  assumes fb: "fed_below cx ee N" and sz: "size r < N" "size_list size args < N"
  shows "fed (emit_inlined cx ee sid sel r args)"
proof -
  have arg: "size e < N" if "slice_get args i = Some e" for i e
    using that set_size [of e args] sz(2) by (auto simp: slice_get_def split: if_splits)
  have blk: "fed (with_block (slice_get args i) h)" if "\<And>b. size_list size (bn_body b) < N \<Longrightarrow> fed (h b)" for i h
    by (rule fed_with(4), rule that) (use arg block_size in \<open>fastforce intro: less_trans\<close>)
  have recv: "fed (with_block (Some r) (emit_dissolved_body cx ee sid))"
    by (rule fed_with(4)) (use sz(1) block_size in \<open>auto intro!: fed_block [OF fb] intro: less_trans\<close>)
  have to_do: "fed (with_block (slice_get args 1) (\<lambda>blk. case (bn_params blk, slice_get args 0) of
            (v # _, Some lim) \<Rightarrow> emit_to_do cx ee sid r lim v blk | _ \<Rightarrow> cg_panic))"
    by (rule blk) (use arg fed_counted(2) [OF fb sz(1)] in \<open>auto split: list.splits option.splits\<close>)
  note facts = blk [OF fed_block(1) [OF fb]] blk [OF fed_block(2) [OF fb]] recv fed_nil_test [OF fb sz(1)] ee_fed [OF fb sz(1)]
  show ?thesis
    unfolding emit_inlined_def Let_def
    by (intro fed_if to_do; (rule blk, erule fed_counted(1) [OF fb sz(1)])?;
      auto simp: facts intro!: fed_steps fed_two_labels fed_with(1) simp del: steps.simps)
qed

lemma fed_send_expr:
  assumes fb: "fed_below cx ee N" and sz: "size r < N" "size_list size args < N"
  shows "fed (emit_send_expr cx ee sid r sel args su)"
proof -
  have "list_all fed (map (ee sid) args)" using ee_fed [OF fb] set_size [of _ args] sz(2) by (fastforce simp: list_all_iff)
  then have "fed (steps (ee sid r # map (ee sid) args @ [with_sym cx sel (\<lambda>s. if su then bo (send_super s (of_nat (length args))) else bo (send s (of_nat (length args))))]))"
    by (intro fed_steps) (auto intro!: fed_with(3) simp: ee_fed [OF fb sz(1)])
  then show ?thesis unfolding emit_send_expr_def using fed_inlined [OF assms] by (simp del: steps.simps)
qed

lemma fed_parts:
  assumes fb: "fed_below cx ee N" and N: "size_list size es < N"
  shows "list_all fed (emit_segments ee sid es)" "list_all fed (emit_elems cx ee sid s i es)"
  using N
proof -
  show "list_all fed (emit_segments ee sid es)" using N
  proof (induction es)
    case (Cons seg segs)
    then show ?case using ee_fed [OF fb] by (cases segs) auto
  qed simp
  show "list_all fed (emit_elems cx ee sid s i es)" using N ee_fed [OF fb] by (induction es arbitrary: i) auto
qed

lemma fed_dyn_array:
  assumes fb: "fed_below cx ee N" and N: "size_list size es < N"
  shows "fed (emit_dyn_array cx ee sid es)"
proof -
  have "fed (with_sym cx (ustr ''new:'') (\<lambda>new_colon. with_sym cx (ustr ''at:put:'') (\<lambda>at_put_sym.
           steps ([bo (push_literal w), emit_literal cx (IntL (int (length es))), bo (send new_colon 1)] @ emit_elems cx ee sid at_put_sym 0 es))))" for w
    by (intro fed_with(3) fed_steps) (simp add: fed_parts(2) [OF fb N])
  then show ?thesis unfolding fed_def emit_dyn_array_def Let_def by blast
qed

lemma fed_body:
  assumes fb: "fed_below cx ee N" and N: "size_list size body < N"
  shows "fed (emit_body cx ee sid body kind)"
proof -
  have lst: "list_all fed (case last body of ReturnE e _ \<Rightarrow> [ee sid e, if blk then bp nlr_tos else bp ret_tos]
      | _ \<Rightarrow> [emit_statement_value cx ee sid (last body), if blk then bp block_return_tos else bp ret_tos])" if "body \<noteq> []" for blk
    using body_sizes(3) [OF fb N that] ee_fed [OF fb] fed_discard(2) [OF fb] by (auto split: expr.splits)
  show ?thesis unfolding emit_body_def Let_def
    by (intro fed_if fed_steps) (use body_sizes(1,2) [OF fb N] lst in \<open>simp_all del: steps.simps split del: if_split\<close>)
qed

lemma fed_block_literal:
  assumes fb: "fed_below cx ee N" and N: "size (BlockE b) \<le> N"
  shows "fed (emit_block_literal cx ee b)"
proof -
  have "fed (steps [emit_prologue info, emit_body cx ee (bn_scope_id b) (bn_body b) BlockBody])" for info
    by (rule fed_steps) (use block_size [of b] N in \<open>simp add: fed_body [OF fb]\<close>)
  then show ?thesis
    by (auto simp: fed_def emit_block_literal_def check_limits_def cg_error_def finish_unit_def rbind_fed bo_def Let_def simp del: steps.simps
      split: option.splits prod.splits if_splits)
qed

lemma fed_expr_body:
  assumes fb: "fed_below cx ee N" and N: "size e \<le> N"
  shows "fed (emit_expr_body cx ee sid e)"
  using N ee_fed [OF fb] fed_access [OF fb]
  by (cases e) (auto simp: emit_expr_body_def intro!: fed_steps fed_send_expr [OF fb] fed_parts [OF fb] fed_dyn_array [OF fb] fed_block_literal [OF fb] simp del: steps.simps)

lemma emit_expr_fed: "hierarchy (cx_ops cx) \<Longrightarrow> fed_below cx (emit_expr cx n) n"
proof (induction n)
  case 0
  then show ?case by (simp add: fed_below_def)
next
  case (Suc n)
  have "emit_expr cx (Suc n) sid e = emit_expr_body cx (emit_expr cx n) sid e" for sid e by (rule ext) simp
  then show ?case using Suc fed_expr_body [OF Suc.IH [OF Suc.prems]] by (simp add: fed_below_def)
qed

subsection \<open>The compiler returns\<close>

lemma finish_method_fed: "finish_method cx m info st \<noteq> Inl OutOfFuel"
  by (auto simp: finish_method_def finish_unit_def rbind_fed Let_def split: option.splits prod.splits)

lemma compile_fed:
  assumes ch: "hierarchy ops"
  shows "compile_method_inner ops holder class_side top_level m vm \<noteq> Inl OutOfFuel"
proof -
  obtain ks where "klass_chain (cgo_klasses ops vm) ops vm holder = Some ks" using klass_chain_ends [OF ch] by blast
  then have iv: "(if class_side then Some [] else flatten_inst_vars ops vm holder) \<noteq> None" by (simp add: flatten_inst_vars_def)
  have unit: "steps [emit_prologue info, emit_body cx (emit_expr cx (compile_fuel m)) 0 (mn_body m) kind] st \<noteq> Inl OutOfFuel"
    if "cx_ops cx = ops" for cx m info kind st
  proof -
    have "fed (emit_body cx (emit_expr cx (compile_fuel m)) 0 (mn_body m) kind)"
      by (rule fed_body [OF emit_expr_fed]) (simp_all add: that ch compile_fuel_def)
    then have "fed (steps [emit_prologue info, emit_body cx (emit_expr cx (compile_fuel m)) 0 (mn_body m) kind])" by (intro fed_steps) simp
    then show ?thesis by (simp add: fed_def del: steps.simps)
  qed
  show ?thesis
    using iv unit unfolding compile_method_inner_def
    by (auto simp: finish_method_fed rbind_fed Let_def check_limits_def cg_error_def simp del: steps.simps split: option.splits prod.splits if_splits)
qed

text \<open>With a class hierarchy, compiling a method or an expression at top level never runs out of fuel, whatever the tree.\<close>

lemma compile_fuel_enough:
  assumes "hierarchy ops"
  shows "compile_method ops holder class_side m vm \<noteq> Inl OutOfFuel" "compile_doit ops holder stmt vm \<noteq> Inl OutOfFuel"
  using compile_fed [OF assms] by (simp_all add: compile_method_def compile_doit_def)

end
