(* ===== verification/Process_Stack.thy ===== *)
theory Process_Stack
  imports Compiled_Method
begin

text \<open>
  The interpreter's process stack and the frames on it (\<open>src/src/interpreter/stack.rs\<close>), the activation of methods and blocks
  (\<open>push_frame\<close>, \<open>activate_entry\<close> of \<open>interpreter/mod.rs\<close>, \<open>interpreter/blocks.rs\<close>) and the arming of handlers
  (\<open>prim_ensure_like\<close> of \<open>runtime/primitives.rs\<close>), word by word. A stack slot is a tagged word. The object memory is a map
  from object words to objects; \<open>iv_free\<close> lists the addresses that \<open>alloc_words\<close> will answer, so a collection, which renames objects, does not
  show. A panic, a failed assertion and the exit on an exhausted stack or heap are \<^const>\<open>None\<close>.
\<close>

subsection \<open>Objects\<close>

record closure_obj =
  co_method :: oop
  co_home :: oop
  co_copied :: "oop list"

datatype heap_obj =
    MethodObj method_oop
  | ClosureObj closure_obj
  | ContextObj oop "oop list"
  | ArrayObj "oop list"
  | OtherObj

type_synonym objects = "oop \<rightharpoonup> heap_obj"

text \<open>The checked downcasts: a memory word whose object has the format. A typed reference is the word with what it refers to.\<close>

definition mem_obj :: "objects \<Rightarrow> oop \<Rightarrow> heap_obj option" where
  "mem_obj objs o1 = (if is_mem o1 then objs o1 else None)"

definition method_try_from :: "objects \<Rightarrow> oop \<Rightarrow> (oop \<times> method_oop) option" where
  "method_try_from objs o1 = (case mem_obj objs o1 of Some (MethodObj m) \<Rightarrow> Some (o1, m) | _ \<Rightarrow> None)"

definition closure_try_from :: "objects \<Rightarrow> oop \<Rightarrow> (oop \<times> closure_obj) option" where
  "closure_try_from objs o1 = (case mem_obj objs o1 of Some (ClosureObj c) \<Rightarrow> Some (o1, c) | _ \<Rightarrow> None)"

definition array_try_from :: "objects \<Rightarrow> oop \<Rightarrow> (oop \<times> oop list) option" where
  "array_try_from objs o1 = (case mem_obj objs o1 of Some (ArrayObj xs) \<Rightarrow> Some (o1, xs) | _ \<Rightarrow> None)"

definition closure_method :: "objects \<Rightarrow> closure_obj \<Rightarrow> (oop \<times> method_oop) option" where
  "closure_method objs c = method_try_from objs (co_method c)"

definition closure_home_ref :: "closure_obj \<Rightarrow> oop option" where
  "closure_home_ref c = smi_try_from (co_home c)"

definition ncopied :: "closure_obj \<Rightarrow> nat" where
  "ncopied c = length (co_copied c)"

definition copied :: "closure_obj \<Rightarrow> nat \<Rightarrow> oop option" where
  "copied c i = slice_get (co_copied c) i"

subsection \<open>Frame layout (layout.rs)\<close>

definition FRAME_METHOD :: nat where "FRAME_METHOD = 0"
definition FRAME_SAVED_FP :: nat where "FRAME_SAVED_FP = 1"
definition FRAME_SAVED_BCI :: nat where "FRAME_SAVED_BCI = 2"
definition FRAME_CONTEXT :: nat where "FRAME_CONTEXT = 3"
definition FRAME_RECEIVER :: nat where "FRAME_RECEIVER = 4"
definition FRAME_SERIAL :: nat where "FRAME_SERIAL = 5"
definition FRAME_MARKER :: nat where "FRAME_MARKER = 6"
definition FRAME_TEMPS_BASE :: nat where "FRAME_TEMPS_BASE = 7"
definition ENTRY_FRAME_SENTINEL :: int where "ENTRY_FRAME_SENTINEL = -1"
definition FRAME_SERIAL_BITS :: nat where "FRAME_SERIAL_BITS = 32"
definition FRAME_SERIAL_MASK :: int where "FRAME_SERIAL_MASK = push_bit FRAME_SERIAL_BITS 1 - 1"
definition FRAME_MARKER_KIND_SHIFT :: nat where "FRAME_MARKER_KIND_SHIFT = FRAME_SERIAL_BITS"
definition FRAME_MARKER_KIND_MASK :: int where "FRAME_MARKER_KIND_MASK = push_bit FRAME_MARKER_KIND_SHIFT 1"

lemmas frame_slot_defs = FRAME_METHOD_def FRAME_SAVED_FP_def FRAME_SAVED_BCI_def FRAME_CONTEXT_def FRAME_RECEIVER_def
  FRAME_SERIAL_def FRAME_MARKER_def FRAME_TEMPS_BASE_def

text \<open>The conversions \<open>usize as i64\<close> and \<open>i64 as usize\<close>, and the checked subtraction of a \<open>usize\<close>.\<close>

definition usize_as_i64 :: "nat \<Rightarrow> int" where
  "usize_as_i64 n = (if int n \<le> I64_MAX then int n else int n - 2 ^ 64)"

definition i64_as_usize :: "int \<Rightarrow> nat" where
  "i64_as_usize v = nat (v mod 2 ^ 64)"

definition usize_minus :: "nat \<Rightarrow> nat \<Rightarrow> nat option" where
  "usize_minus a b = (if b \<le> a then Some (a - b) else None)"

subsection \<open>The stack\<close>

record process_stack =
  ps_slots :: "oop list"
  ps_sp :: nat
  ps_fp :: nat
  ps_has_frame :: bool

record frame_activation =
  fa_fp :: nat
  fa_has_frame :: bool

definition with_capacity :: "nat \<Rightarrow> process_stack" where
  "with_capacity n = \<lparr>ps_slots = replicate n 0, ps_sp = 0, ps_fp = 0, ps_has_frame = False\<rparr>"

definition activate_frame :: "nat \<Rightarrow> process_stack \<Rightarrow> process_stack" where
  "activate_frame fp st = st\<lparr>ps_fp := fp, ps_has_frame := True\<rparr>"

definition deactivate :: "process_stack \<Rightarrow> process_stack" where
  "deactivate st = st\<lparr>ps_has_frame := False\<rparr>"

definition restore_baseline :: "nat \<Rightarrow> nat \<Rightarrow> bool \<Rightarrow> process_stack \<Rightarrow> process_stack" where
  "restore_baseline sp fp has_frame st = st\<lparr>ps_sp := sp, ps_fp := fp, ps_has_frame := has_frame\<rparr>"

definition save_activation :: "process_stack \<Rightarrow> frame_activation" where
  "save_activation st = \<lparr>fa_fp = ps_fp st, fa_has_frame = ps_has_frame st\<rparr>"

definition restore_activation :: "frame_activation \<Rightarrow> process_stack \<Rightarrow> process_stack" where
  "restore_activation saved st = st\<lparr>ps_fp := fa_fp saved, ps_has_frame := fa_has_frame saved\<rparr>"

definition stack_capacity :: "process_stack \<Rightarrow> nat" where
  "stack_capacity st = length (ps_slots st)"

definition stack_get :: "process_stack \<Rightarrow> nat \<Rightarrow> oop option" where
  "stack_get st idx = slice_get (ps_slots st) idx"

definition stack_set :: "nat \<Rightarrow> oop \<Rightarrow> process_stack \<Rightarrow> process_stack option" where
  "stack_set idx v st = do {
     rust_assert (idx < length (ps_slots st));
     Some (st\<lparr>ps_slots := (ps_slots st)[idx := v]\<rparr>)
   }"

text \<open>\<open>try_push\<close> answers \<open>StackOverflow\<close> as \<open>None\<close>; \<open>push\<close> then ends the process.\<close>

definition try_push :: "oop \<Rightarrow> process_stack \<Rightarrow> process_stack option" where
  "try_push v st =
     (if ps_sp st \<ge> length (ps_slots st) then None
      else Some (st\<lparr>ps_slots := (ps_slots st)[ps_sp st := v], ps_sp := ps_sp st + 1\<rparr>))"

definition stack_push :: "oop \<Rightarrow> process_stack \<Rightarrow> process_stack option" where
  "stack_push v st = (case try_push v st of None \<Rightarrow> None | Some st' \<Rightarrow> Some st')"

primrec push_times :: "nat \<Rightarrow> oop \<Rightarrow> process_stack \<Rightarrow> process_stack option" where
  "push_times 0 v st = Some st"
| "push_times (Suc n) v st = do { st \<leftarrow> stack_push v st; push_times n v st }"

definition ntemps_at_fp :: "objects \<Rightarrow> process_stack \<Rightarrow> nat option" where
  "ntemps_at_fp objs st = do {
     o1 \<leftarrow> stack_get st (ps_fp st + FRAME_METHOD);
     (case method_try_from objs o1 of Some (_, m) \<Rightarrow> ntemps m | None \<Rightarrow> Some 0)
   }"

definition stack_pop :: "objects \<Rightarrow> process_stack \<Rightarrow> (oop \<times> process_stack) option" where
  "stack_pop objs st = do {
     floor \<leftarrow> (if ps_has_frame st then do { n \<leftarrow> ntemps_at_fp objs st; Some (ps_fp st + FRAME_TEMPS_BASE + n) } else Some 0);
     rust_assert (ps_sp st > floor);
     v \<leftarrow> stack_get st (ps_sp st - 1);
     Some (v, st\<lparr>ps_sp := ps_sp st - 1\<rparr>)
   }"

definition stack_top :: "process_stack \<Rightarrow> oop option" where
  "stack_top st = do { i \<leftarrow> usize_minus (ps_sp st) 1; stack_get st i }"

subsection \<open>Frames\<close>

text \<open>A \<open>Frame\<close> is its index \<open>fp\<close>; the entry sentinel as an index makes every access panic, since no index of the stack reaches it.\<close>

datatype marker_kind = Ensure | IfCurtailed

definition frame_method :: "objects \<Rightarrow> process_stack \<Rightarrow> nat \<Rightarrow> (oop \<times> method_oop) option" where
  "frame_method objs st fp = do { o1 \<leftarrow> stack_get st (fp + FRAME_METHOD); method_try_from objs o1 }"

definition smi_slot :: "process_stack \<Rightarrow> nat \<Rightarrow> int option" where
  "smi_slot st idx = do { o1 \<leftarrow> stack_get st idx; s \<leftarrow> smi_try_from o1; Some (smi_value s) }"

definition saved_fp :: "process_stack \<Rightarrow> nat \<Rightarrow> int option" where
  "saved_fp st fp = smi_slot st (fp + FRAME_SAVED_FP)"

definition saved_bci :: "process_stack \<Rightarrow> nat \<Rightarrow> nat option" where
  "saved_bci st fp = do { v \<leftarrow> smi_slot st (fp + FRAME_SAVED_BCI); Some (i64_as_usize v) }"

text \<open>The reads of the error-trace walker: the answer \<open>None\<close> of the code is the inner one.\<close>

definition saved_fp_opt :: "process_stack \<Rightarrow> nat \<Rightarrow> int option" where
  "saved_fp_opt st fp =
     (if fp + FRAME_SAVED_FP \<ge> stack_capacity st then None
      else case stack_get st (fp + FRAME_SAVED_FP) of None \<Rightarrow> None | Some o1 \<Rightarrow> map_option smi_value (smi_try_from o1))"

definition saved_bci_opt :: "process_stack \<Rightarrow> nat \<Rightarrow> nat option" where
  "saved_bci_opt st fp =
     (if fp + FRAME_SAVED_BCI \<ge> stack_capacity st then None
      else case stack_get st (fp + FRAME_SAVED_BCI) of None \<Rightarrow> None | Some o1 \<Rightarrow> map_option (\<lambda>s. i64_as_usize (smi_value s)) (smi_try_from o1))"

definition method_opt :: "objects \<Rightarrow> process_stack \<Rightarrow> nat \<Rightarrow> (oop \<times> method_oop) option" where
  "method_opt objs st fp =
     (if fp + FRAME_METHOD \<ge> stack_capacity st then None
      else case stack_get st (fp + FRAME_METHOD) of None \<Rightarrow> None | Some o1 \<Rightarrow> method_try_from objs o1)"

definition frame_context :: "process_stack \<Rightarrow> nat \<Rightarrow> oop option" where
  "frame_context st fp = stack_get st (fp + FRAME_CONTEXT)"

definition set_context :: "nat \<Rightarrow> oop \<Rightarrow> process_stack \<Rightarrow> process_stack option" where
  "set_context fp c st = stack_set (fp + FRAME_CONTEXT) c st"

definition serial_word :: "process_stack \<Rightarrow> nat \<Rightarrow> int option" where
  "serial_word st fp = smi_slot st (fp + FRAME_SERIAL)"

definition frame_serial :: "process_stack \<Rightarrow> nat \<Rightarrow> u32 option" where
  "frame_serial st fp = do { w \<leftarrow> serial_word st fp; Some (word_of_int (w AND FRAME_SERIAL_MASK)) }"

definition marker :: "process_stack \<Rightarrow> nat \<Rightarrow> oop option" where
  "marker st fp = stack_get st (fp + FRAME_MARKER)"

definition frame_marker_kind :: "process_stack \<Rightarrow> nat \<Rightarrow> marker_kind option" where
  "frame_marker_kind st fp = do {
     w \<leftarrow> serial_word st fp;
     Some (if w AND FRAME_MARKER_KIND_MASK \<noteq> 0 then IfCurtailed else Ensure)
   }"

definition set_marker :: "nat \<Rightarrow> oop \<Rightarrow> marker_kind \<Rightarrow> process_stack \<Rightarrow> process_stack option" where
  "set_marker fp m kind st = do {
     w \<leftarrow> serial_word st fp;
     let serial_bits = w AND FRAME_SERIAL_MASK;
     let kind_bit = (case kind of Ensure \<Rightarrow> 0 | IfCurtailed \<Rightarrow> FRAME_MARKER_KIND_MASK);
     s \<leftarrow> smi_new (serial_bits OR kind_bit);
     st \<leftarrow> stack_set (fp + FRAME_SERIAL) s st;
     stack_set (fp + FRAME_MARKER) m st
   }"

definition clear_marker :: "nat \<Rightarrow> oop \<Rightarrow> process_stack \<Rightarrow> process_stack option" where
  "clear_marker fp nil1 st = stack_set (fp + FRAME_MARKER) nil1 st"

definition frame_receiver :: "process_stack \<Rightarrow> nat \<Rightarrow> oop option" where
  "frame_receiver st fp = stack_get st (fp + FRAME_RECEIVER)"

definition temp_index :: "objects \<Rightarrow> process_stack \<Rightarrow> nat \<Rightarrow> nat \<Rightarrow> nat option" where
  "temp_index objs st fp t = do {
     (_, m) \<leftarrow> frame_method objs st fp;
     ac \<leftarrow> argc m;
     nt \<leftarrow> ntemps m;
     rust_assert (t < ac + nt);
     (if t < ac then do { b \<leftarrow> usize_minus fp ac; Some (b + t) } else Some (fp + FRAME_TEMPS_BASE + (t - ac)))
   }"

definition frame_temp :: "objects \<Rightarrow> process_stack \<Rightarrow> nat \<Rightarrow> nat \<Rightarrow> oop option" where
  "frame_temp objs st fp t = do { idx \<leftarrow> temp_index objs st fp t; stack_get st idx }"

definition set_temp :: "objects \<Rightarrow> nat \<Rightarrow> nat \<Rightarrow> oop \<Rightarrow> process_stack \<Rightarrow> process_stack option" where
  "set_temp objs fp t v st = do { idx \<leftarrow> temp_index objs st fp t; stack_set idx v st }"

definition receiver_slot :: "objects \<Rightarrow> process_stack \<Rightarrow> nat \<Rightarrow> nat option" where
  "receiver_slot objs st fp = do {
     (_, m) \<leftarrow> frame_method objs st fp;
     ac \<leftarrow> argc m;
     b \<leftarrow> usize_minus fp ac;
     usize_minus b 1
   }"

text \<open>\<open>verify\<close> panics at the first violation and returns nothing otherwise.\<close>

definition verify_frame :: "objects \<Rightarrow> process_stack \<Rightarrow> nat \<Rightarrow> unit option" where
  "verify_frame objs st fp = do {
     rust_assert (fp + FRAME_TEMPS_BASE \<le> ps_sp st);
     (_, m) \<leftarrow> frame_method objs st fp;
     _ \<leftarrow> smi_slot st (fp + FRAME_SAVED_FP);
     _ \<leftarrow> smi_slot st (fp + FRAME_SAVED_BCI);
     _ \<leftarrow> smi_slot st (fp + FRAME_SERIAL);
     ac \<leftarrow> argc m;
     rust_assert (fp > ac);
     arg \<leftarrow> stack_get st (fp - ac - 1);
     r \<leftarrow> frame_receiver st fp;
     ib \<leftarrow> is_block_method m;
     (if ib
      then (case closure_try_from objs arg of
          None \<Rightarrow> rust_assert False
        | Some (_, cl) \<Rightarrow> do { c0 \<leftarrow> copied cl 0; rust_assert (r = c0) })
      else rust_assert (r = arg));
     nt \<leftarrow> ntemps m;
     rust_assert (fp + FRAME_TEMPS_BASE + nt \<le> ps_sp st)
   }"


subsection \<open>The virtual machine as the stack sees it\<close>

record nlr_state =
  nlr_home :: home_ref
  nlr_value :: oop
  nlr_closure :: "oop option"

record ivm =
  iv_stack :: process_stack
  iv_objs :: objects
  iv_free :: "oop list"
  iv_nil :: oop
  iv_next_serial :: u32
  iv_method :: "oop option"
  iv_bci :: nat
  iv_nlr :: "nlr_state option"
  iv_curtailing :: bool

text \<open>Running an operation of the stack on the machine's stack.\<close>

definition on_stack :: "(process_stack \<Rightarrow> process_stack option) \<Rightarrow> ivm \<Rightarrow> ivm option" where
  "on_stack f vm = map_option (\<lambda>st. vm\<lparr>iv_stack := st\<rparr>) (f (iv_stack vm))"

definition vm_push :: "oop \<Rightarrow> ivm \<Rightarrow> ivm option" where
  "vm_push v = on_stack (stack_push v)"

definition alloc_serial :: "ivm \<Rightarrow> (u32 \<times> ivm) option" where
  "alloc_serial vm = do {
     rust_assert (iv_next_serial vm + 1 \<noteq> 0);
     Some (iv_next_serial vm, vm\<lparr>iv_next_serial := iv_next_serial vm + 1\<rparr>)
   }"

text \<open>A new object at the next address the memory manager answers; none left is the exit on an exhausted heap.\<close>

definition alloc_object :: "heap_obj \<Rightarrow> ivm \<Rightarrow> (oop \<times> ivm) option" where
  "alloc_object x vm = (case iv_free vm of [] \<Rightarrow> None
     | a # rest \<Rightarrow> Some (a, vm\<lparr>iv_objs := (iv_objs vm)(a \<mapsto> x), iv_free := rest\<rparr>))"

definition put_obj :: "oop \<Rightarrow> heap_obj \<Rightarrow> ivm \<Rightarrow> ivm" where
  "put_obj a x vm = vm\<lparr>iv_objs := (iv_objs vm)(a \<mapsto> x)\<rparr>"

text \<open>The receiver and the \<open>ac\<close> arguments are on the stack; \<open>sfp\<close> and \<open>sbci\<close> are the link to the caller.\<close>

definition push_frame :: "oop \<Rightarrow> method_oop \<Rightarrow> nat \<Rightarrow> int \<Rightarrow> nat \<Rightarrow> ivm \<Rightarrow> ivm option" where
  "push_frame mo m ac sfp sbci vm = do {
     let fp_new = ps_sp (iv_stack vm);
     vm \<leftarrow> vm_push mo vm;
     s \<leftarrow> smi_new sfp;
     vm \<leftarrow> vm_push s vm;
     s \<leftarrow> smi_new (usize_as_i64 sbci);
     vm \<leftarrow> vm_push s vm;
     vm \<leftarrow> vm_push (iv_nil vm) vm;
     b \<leftarrow> usize_minus fp_new ac;
     b \<leftarrow> usize_minus b 1;
     receiver \<leftarrow> stack_get (iv_stack vm) b;
     vm \<leftarrow> vm_push receiver vm;
     (serial, vm) \<leftarrow> alloc_serial vm;
     s \<leftarrow> smi_new (uint serial);
     vm \<leftarrow> vm_push s vm;
     vm \<leftarrow> vm_push (iv_nil vm) vm;
     nt \<leftarrow> ntemps m;
     vm \<leftarrow> on_stack (push_times nt (iv_nil vm)) vm;
     Some (vm\<lparr>iv_stack := activate_frame fp_new (iv_stack vm)\<rparr>)
   }"

definition stack_alloc_context :: "method_oop \<Rightarrow> nat \<Rightarrow> oop \<Rightarrow> ivm \<Rightarrow> ivm option" where
  "stack_alloc_context m fp enclosing vm = do {
     hc \<leftarrow> has_ctx m;
     if \<not> hc then Some vm
     else do {
       n \<leftarrow> nctx m;
       (ctx, vm) \<leftarrow> alloc_object (ContextObj (iv_nil vm) (replicate n (iv_nil vm))) vm;
       let vm = put_obj ctx (ContextObj enclosing (replicate n (iv_nil vm))) vm;
       on_stack (set_context fp ctx) vm
     }
   }"

definition stack_activate_entry :: "oop \<Rightarrow> method_oop \<Rightarrow> nat \<Rightarrow> ivm \<Rightarrow> ivm option" where
  "stack_activate_entry mo m ac vm = do {
     vm \<leftarrow> push_frame mo m ac ENTRY_FRAME_SENTINEL 0 vm;
     stack_alloc_context m (ps_fp (iv_stack vm)) (iv_nil vm) vm
   }"

text \<open>The loop that moves the value captures from \<open>copied\<close> to the first temporaries, \<open>i\<close> upward, \<open>k\<close> still to go.\<close>

fun store_captures :: "closure_obj \<Rightarrow> nat \<Rightarrow> nat \<Rightarrow> nat \<Rightarrow> nat \<Rightarrow> nat \<Rightarrow> ivm \<Rightarrow> ivm option" where
  "store_captures c fp ac value_base i 0 vm = Some vm"
| "store_captures c fp ac value_base i (Suc k) vm = do {
     v \<leftarrow> copied c (value_base + i);
     vm \<leftarrow> on_stack (set_temp (iv_objs vm) fp (ac + i) v) vm;
     store_captures c fp ac value_base (i + 1) k vm
   }"

datatype prim_result = Activated | Fail

definition stack_activate_block :: "oop \<times> closure_obj \<Rightarrow> nat \<Rightarrow> ivm \<Rightarrow> (prim_result \<times> ivm) option" where
  "stack_activate_block cl ac vm = do {
     (bo, blk) \<leftarrow> closure_method (iv_objs vm) (snd cl);
     bac \<leftarrow> argc blk;
     if bac \<noteq> ac then Some (Fail, vm)
     else do {
       let fp_new = ps_sp (iv_stack vm);
       vm \<leftarrow> vm_push bo vm;
       let sfp = usize_as_i64 (ps_fp (iv_stack vm));
       let sbci = iv_bci vm;
       s \<leftarrow> smi_new sfp;
       vm \<leftarrow> vm_push s vm;
       s \<leftarrow> smi_new (usize_as_i64 sbci);
       vm \<leftarrow> vm_push s vm;
       vm \<leftarrow> vm_push (iv_nil vm) vm;
       receiver \<leftarrow> copied (snd cl) 0;
       vm \<leftarrow> vm_push receiver vm;
       (serial, vm) \<leftarrow> alloc_serial vm;
       s \<leftarrow> smi_new (uint serial);
       vm \<leftarrow> vm_push s vm;
       vm \<leftarrow> vm_push (iv_nil vm) vm;
       nt \<leftarrow> ntemps blk;
       vm \<leftarrow> on_stack (push_times nt (iv_nil vm)) vm;
       let vm = vm\<lparr>iv_stack := activate_frame fp_new (iv_stack vm)\<rparr>;
       cc \<leftarrow> captures_ctx blk;
       enclosing \<leftarrow> (if cc then copied (snd cl) 1 else Some (iv_nil vm));
       hc \<leftarrow> has_ctx blk;
       vm \<leftarrow> (if hc then stack_alloc_context blk fp_new enclosing vm else on_stack (set_context fp_new enclosing) vm);
       slot \<leftarrow> receiver_slot (iv_objs vm) (iv_stack vm) fp_new;
       o1 \<leftarrow> stack_get (iv_stack vm) slot;
       (_, c) \<leftarrow> closure_try_from (iv_objs vm) o1;
       (bo, blk) \<leftarrow> closure_method (iv_objs vm) c;
       let value_base = 1 + (if cc then 1 else 0);
       n \<leftarrow> usize_minus (ncopied c) value_base;
       vm \<leftarrow> store_captures c fp_new ac value_base 0 n vm;
       Some (Activated, vm\<lparr>iv_method := Some bo, iv_bci := 0\<rparr>)
     }
   }"

definition home_ref_of_frame :: "ivm \<Rightarrow> oop option" where
  "home_ref_of_frame vm = do {
     let fp = ps_fp (iv_stack vm);
     (_, m) \<leftarrow> frame_method (iv_objs vm) (iv_stack vm) fp;
     ib \<leftarrow> is_block_method m;
     if ib then do {
       slot \<leftarrow> receiver_slot (iv_objs vm) (iv_stack vm) fp;
       o1 \<leftarrow> stack_get (iv_stack vm) slot;
       (_, c) \<leftarrow> closure_try_from (iv_objs vm) o1;
       closure_home_ref c
     } else do {
       serial \<leftarrow> frame_serial (iv_stack vm) fp;
       pack_home_ref \<lparr>hr_proc = 0, hr_serial = serial, hr_fp = of_nat fp\<rparr>
     }
   }"

text \<open>\<open>prim_ensure_like\<close> on the two arguments \<open>protected\<close> and \<open>handler\<close>; \<open>ensure:\<close> and \<open>ifCurtailed:\<close> differ in the kind.\<close>

definition prim_ensure_like :: "oop \<Rightarrow> oop \<Rightarrow> marker_kind \<Rightarrow> ivm \<Rightarrow> (prim_result \<times> ivm) option" where
  "prim_ensure_like arg0 arg1 kind vm =
     (case (closure_try_from (iv_objs vm) arg0, closure_try_from (iv_objs vm) arg1) of
        (Some protected, Some handler) \<Rightarrow> do {
          (_, pm) \<leftarrow> closure_method (iv_objs vm) (snd protected);
          pac \<leftarrow> argc pm;
          args_differ \<leftarrow> (if pac \<noteq> 0 then Some True
            else do { (_, hm) \<leftarrow> closure_method (iv_objs vm) (snd handler); hac \<leftarrow> argc hm; Some (hac \<noteq> 0) });
          if args_differ then Some (Fail, vm)
          else do {
            sp \<leftarrow> usize_minus (ps_sp (iv_stack vm)) 1;
            let vm = vm\<lparr>iv_stack := (iv_stack vm)\<lparr>ps_sp := sp\<rparr>\<rparr>;
            (r, vm) \<leftarrow> stack_activate_block protected 0 vm;
            (case r of
               Activated \<Rightarrow> do { vm \<leftarrow> on_stack (set_marker (ps_fp (iv_stack vm)) (fst handler) kind) vm; Some (Activated, vm) }
             | Fail \<Rightarrow> Some (Fail, vm))
          }
        }
      | _ \<Rightarrow> Some (Fail, vm))"


subsection \<open>Pushing a frame\<close>

text \<open>What a frame holds depends on the slots alone.\<close>

lemma stack_get_upd [simp]:
  "stack_get (st\<lparr>ps_fp := a\<rparr>) i = stack_get st i" "stack_get (st\<lparr>ps_sp := a\<rparr>) i = stack_get st i" "stack_get (st\<lparr>ps_has_frame := b\<rparr>) i = stack_get st i"
  by (simp_all add: stack_get_def)

lemma frame_method_upd [simp]:
  "frame_method objs (st\<lparr>ps_fp := a\<rparr>) fp = frame_method objs st fp" "frame_method objs (st\<lparr>ps_sp := a\<rparr>) fp = frame_method objs st fp"
  "frame_method objs (st\<lparr>ps_has_frame := b\<rparr>) fp = frame_method objs st fp"
  by (simp_all add: frame_method_def)

lemma smi_slot_upd [simp]:
  "smi_slot (st\<lparr>ps_fp := a\<rparr>) i = smi_slot st i" "smi_slot (st\<lparr>ps_sp := a\<rparr>) i = smi_slot st i" "smi_slot (st\<lparr>ps_has_frame := b\<rparr>) i = smi_slot st i"
  by (simp_all add: smi_slot_def)

text \<open>The stack with the words \<open>vs\<close> pushed.\<close>

definition pushed :: "oop list \<Rightarrow> process_stack \<Rightarrow> process_stack" where
  "pushed vs st = st\<lparr>ps_slots := take (ps_sp st) (ps_slots st) @ vs @ drop (ps_sp st + length vs) (ps_slots st), ps_sp := ps_sp st + length vs\<rparr>"

definition fits :: "nat \<Rightarrow> process_stack \<Rightarrow> bool" where
  "fits n st \<longleftrightarrow> ps_sp st + n \<le> length (ps_slots st)"

lemma pushed_simps [simp]:
  "ps_sp (pushed vs st) = ps_sp st + length vs" "ps_fp (pushed vs st) = ps_fp st" "ps_has_frame (pushed vs st) = ps_has_frame st"
  "fits (length vs) st \<Longrightarrow> length (ps_slots (pushed vs st)) = length (ps_slots st)"
  by (auto simp: pushed_def fits_def)

lemma pushed_Nil: "pushed [] st = st"
  by (simp add: pushed_def)

lemma pushed_pushed: "fits (length us) st \<Longrightarrow> pushed vs (pushed us st) = pushed (us @ vs) st"
  by (simp add: pushed_def fits_def ac_simps)

lemma take_pushed: "fits (length vs) st \<Longrightarrow> take (ps_sp st) (ps_slots (pushed vs st)) = take (ps_sp st) (ps_slots st)"
  by (auto simp: pushed_def fits_def)

lemma nth_pushed:
  assumes "fits (length vs) st"
  shows "i < ps_sp st \<Longrightarrow> ps_slots (pushed vs st) ! i = ps_slots st ! i"
    "j < length vs \<Longrightarrow> ps_slots (pushed vs st) ! (ps_sp st + j) = vs ! j"
  using assms by (auto simp: pushed_def fits_def nth_append)

lemma get_pushed:
  assumes "fits (length vs) st"
  shows "i < ps_sp st \<Longrightarrow> stack_get (pushed vs st) i = Some (ps_slots st ! i)"
    "j < length vs \<Longrightarrow> stack_get (pushed vs st) (ps_sp st + j) = Some (vs ! j)"
  using assms nth_pushed [OF assms] by (auto simp: stack_get_def slice_get_def fits_def)

lemma set_pushed:
  assumes "fits (length vs) st" "j < length vs"
  shows "stack_set (ps_sp st + j) v (pushed vs st) = Some (pushed (vs[j := v]) st)"
  using assms by (auto simp: stack_set_def pushed_def fits_def list_update_append)

lemma push_pushed:
  assumes "fits (length vs + 1) st"
  shows "stack_push v (pushed vs st) = Some (pushed (vs @ [v]) st)"
proof -
  let ?n = "ps_sp st + length vs"
  have "drop ?n (ps_slots st) = ps_slots st ! ?n # drop (?n + 1) (ps_slots st)"
    using assms by (simp add: fits_def Cons_nth_drop_Suc)
  then show ?thesis
    using assms by (simp add: stack_push_def try_push_def pushed_def fits_def list_update_append)
qed

lemma push_times_pushed:
  "fits (length vs + n) st \<Longrightarrow> push_times n v (pushed vs st) = Some (pushed (vs @ replicate n v) st)"
proof (induction n arbitrary: vs)
  case (Suc n)
  then show ?case using push_pushed [of vs st v] Suc.IH [of "vs @ [v]"] by (simp add: fits_def)
qed simp

text \<open>A machine whose stack has words pushed.\<close>

definition vm_pushed :: "oop list \<Rightarrow> ivm \<Rightarrow> ivm" where
  "vm_pushed vs vm = vm\<lparr>iv_stack := pushed vs (iv_stack vm)\<rparr>"

lemma vm_pushed_simps [simp]:
  "iv_objs (vm_pushed vs vm) = iv_objs vm" "iv_nil (vm_pushed vs vm) = iv_nil vm" "iv_free (vm_pushed vs vm) = iv_free vm"
  "iv_next_serial (vm_pushed vs vm) = iv_next_serial vm" "iv_bci (vm_pushed vs vm) = iv_bci vm" "iv_stack (vm_pushed vs vm) = pushed vs (iv_stack vm)"
  "iv_nlr (vm_pushed vs vm) = iv_nlr vm" "vm_pushed vs vm\<lparr>iv_stack := st\<rparr> = vm\<lparr>iv_stack := st\<rparr>"
  "vm_pushed vs vm\<lparr>iv_next_serial := n\<rparr> = vm_pushed vs (vm\<lparr>iv_next_serial := n\<rparr>)"
  by (simp_all add: vm_pushed_def)

lemma vm_push_pushed:
  assumes "fits (length vs + 1) (iv_stack vm)"
  shows "vm_push v (vm_pushed vs vm) = Some (vm_pushed (vs @ [v]) vm)"
  using push_pushed [OF assms] by (simp add: vm_push_def on_stack_def vm_pushed_def)

lemma vm_push_first: "fits 1 (iv_stack vm) \<Longrightarrow> vm_push v vm = Some (vm_pushed [v] vm)"
  using vm_push_pushed [of "[]" vm v] by (simp add: vm_pushed_def pushed_Nil)

lemma vm_push_times_pushed:
  assumes "fits (length vs + n) (iv_stack vm)"
  shows "on_stack (push_times n v) (vm_pushed vs vm) = Some (vm_pushed (vs @ replicate n v) vm)"
  using push_times_pushed [OF assms] by (simp add: on_stack_def vm_pushed_def)

lemma vm_pushed_pushed: "fits (length us) (iv_stack vm) \<Longrightarrow> vm_pushed vs (vm_pushed us vm) = vm_pushed (us @ vs) vm"
  by (simp add: vm_pushed_def pushed_pushed)

lemma fits_less: "fits n st \<Longrightarrow> m \<le> n \<Longrightarrow> fits m st"
  by (simp add: fits_def)

text \<open>The words of a frame.\<close>

definition frame_words :: "oop \<Rightarrow> oop \<Rightarrow> oop \<Rightarrow> oop \<Rightarrow> oop \<Rightarrow> oop \<Rightarrow> oop \<Rightarrow> oop list \<Rightarrow> oop list" where
  "frame_words mo sfp sbci ctx rcv ser mk temps = [mo, sfp, sbci, ctx, rcv, ser, mk] @ temps"

lemma length_frame_words [simp]: "length (frame_words mo sfp sbci ctx rcv ser mk temps) = 7 + length temps"
  by (simp add: frame_words_def)

lemma smi_new_serial: "\<exists>s. smi_new (uint (w :: u32)) = Some s \<and> is_smi s \<and> smi_value s = uint w"
proof -
  have "uint w < 2 ^ 32" "- 2305843009213693952 \<le> uint w" using uint_lt2p [of w] uint_ge_0 [of w] by (simp, linarith)
  then have "smi_new (uint w) \<noteq> None" by (simp add: smi_new_eq smi_try_new_None smi_bounds)
  then show ?thesis using smi_try_new_SomeD by (auto simp: smi_new_eq)
qed

lemma push_frame_spec:
  assumes room: "fits (7 + nt) (iv_stack vm)" and nt: "ntemps m = Some nt" and ac: "ac < ps_sp (iv_stack vm)"
    and s1: "smi_new sfp = Some s1" and s2: "smi_new (usize_as_i64 sbci) = Some s2"
    and ser: "iv_next_serial vm + 1 \<noteq> 0" "smi_new (uint (iv_next_serial vm)) = Some s3"
  shows "push_frame mo m ac sfp sbci vm = Some (vm\<lparr>iv_next_serial := iv_next_serial vm + 1, iv_stack := activate_frame (ps_sp (iv_stack vm))
    (pushed (frame_words mo s1 s2 (iv_nil vm) (ps_slots (iv_stack vm) ! (ps_sp (iv_stack vm) - ac - 1)) s3 (iv_nil vm) (replicate nt (iv_nil vm)))
      (iv_stack vm))\<rparr>)"
proof -
  have r: "ps_sp (iv_stack vm) + 7 + nt \<le> length (ps_slots (iv_stack vm))" using room by (simp add: fits_def)
  have g: "stack_get (pushed [mo, s1, s2, iv_nil vm] (iv_stack vm)) (ps_sp (iv_stack vm) - Suc ac) =
      Some (ps_slots (iv_stack vm) ! (ps_sp (iv_stack vm) - Suc ac))"
    using ac r by (intro get_pushed) (auto simp: fits_def)
  show ?thesis
    using ac nt s1 s2 ser g vm_push_times_pushed [of _ nt "vm\<lparr>iv_next_serial := iv_next_serial vm + 1\<rparr>"] r
    by (simp add: push_frame_def vm_push_first vm_pushed_pushed fits_def usize_minus_def alloc_serial_def Let_def Suc_le_eq)
      (simp add: vm_pushed_def frame_words_def)
qed


text \<open>The words of a frame that was just pushed at \<open>sp\<close>, read by the accessors.\<close>

lemma pushed_frame_get:
  assumes "fits (7 + length temps) st" "i < 7 + length temps"
  shows "stack_get (activate_frame fp (pushed (frame_words mo s1 s2 ctx rcv s3 mk temps) st)) (ps_sp st + i) =
    Some (frame_words mo s1 s2 ctx rcv s3 mk temps ! i)"
  using get_pushed(2) [of "frame_words mo s1 s2 ctx rcv s3 mk temps" st i] assms by (simp add: activate_frame_def stack_get_def)

lemma pushed_frame_get_below:
  assumes "fits (7 + length temps) st" "i < ps_sp st"
  shows "stack_get (activate_frame fp (pushed (frame_words mo s1 s2 ctx rcv s3 mk temps) st)) i = Some (ps_slots st ! i)"
  using get_pushed(1) [of "frame_words mo s1 s2 ctx rcv s3 mk temps" st i] assms by (simp add: activate_frame_def stack_get_def)

lemma frame_words_nth [simp]:
  "frame_words mo s1 s2 ctx rcv s3 mk temps ! 0 = mo" "frame_words mo s1 s2 ctx rcv s3 mk temps ! Suc 0 = s1"
  "frame_words mo s1 s2 ctx rcv s3 mk temps ! 2 = s2" "frame_words mo s1 s2 ctx rcv s3 mk temps ! 3 = ctx"
  "frame_words mo s1 s2 ctx rcv s3 mk temps ! 4 = rcv" "frame_words mo s1 s2 ctx rcv s3 mk temps ! 5 = s3"
  "frame_words mo s1 s2 ctx rcv s3 mk temps ! 6 = mk"
  by (simp_all add: frame_words_def)

lemma frame_words_update [simp]:
  "(frame_words mo s1 s2 ctx rcv s3 mk temps)[3 := c] = frame_words mo s1 s2 c rcv s3 mk temps"
  "(frame_words mo s1 s2 ctx rcv s3 mk temps)[7 + i := v] = frame_words mo s1 s2 ctx rcv s3 mk (temps[i := v])"
  by (simp_all add: frame_words_def list_update_append numeral_eq_Suc)

lemma flags_read:
  assumes "flags_value m = Some f"
  shows "\<exists>a. argc m = Some a" "\<exists>n. ntemps m = Some n" "\<exists>h. has_ctx m = Some h" "\<exists>b. is_block_method m = Some b"
    "\<exists>c. captures_ctx m = Some c" "\<exists>n. nctx m = Some n"
  using assms by (simp_all add: argc_def ntemps_def has_ctx_def is_block_method_def captures_ctx_def nctx_def)

lemma argc_flags: "argc m = Some a \<Longrightarrow> \<exists>f. flags_value m = Some f"
  by (auto simp: argc_def bind_eq_Some_conv)

text \<open>A stack with one more frame, active.\<close>

definition with_frame :: "oop \<Rightarrow> oop \<Rightarrow> oop \<Rightarrow> oop \<Rightarrow> oop \<Rightarrow> oop \<Rightarrow> oop \<Rightarrow> oop list \<Rightarrow> process_stack \<Rightarrow> process_stack" where
  "with_frame mo s1 s2 ctx rcv s3 mk temps st =
     activate_frame (ps_sp st) (pushed (frame_words mo s1 s2 ctx rcv s3 mk temps) st)"

lemma set_activate: "stack_set i v (activate_frame fp st) = map_option (activate_frame fp) (stack_set i v st)"
  by (simp add: stack_set_def activate_frame_def rust_assert_def)

lemma with_frame_set:
  assumes "fits (7 + length temps) st"
  shows "stack_set (ps_sp st + 3) c (with_frame mo s1 s2 ctx rcv s3 mk temps st) = Some (with_frame mo s1 s2 c rcv s3 mk temps st)"
    "i < length temps \<Longrightarrow> stack_set (ps_sp st + 7 + i) c (with_frame mo s1 s2 ctx rcv s3 mk temps st) =
       Some (with_frame mo s1 s2 ctx rcv s3 mk (temps[i := c]) st)"
  using set_pushed [of "frame_words mo s1 s2 ctx rcv s3 mk temps" st 3 c]
    set_pushed [of "frame_words mo s1 s2 ctx rcv s3 mk temps" st "7 + i" c] assms
  by (simp_all add: with_frame_def set_activate add.assoc)

lemma with_frame_get:
  assumes "fits (7 + length temps) st"
  shows "i < 7 + length temps \<Longrightarrow> stack_get (with_frame mo s1 s2 ctx rcv s3 mk temps st) (ps_sp st + i) = Some (frame_words mo s1 s2 ctx rcv s3 mk temps ! i)"
    "i < ps_sp st \<Longrightarrow> stack_get (with_frame mo s1 s2 ctx rcv s3 mk temps st) i = Some (ps_slots st ! i)"
  using pushed_frame_get [OF assms] pushed_frame_get_below [OF assms] by (simp_all add: with_frame_def)

lemma with_frame_words:
  fixes mo s1 s2 ctx rcv s3 mk :: oop
  assumes "fits (7 + length temps) st"
  defines "st' \<equiv> with_frame mo s1 s2 ctx rcv s3 mk temps st"
  shows "stack_get st' (ps_sp st) = Some mo" "stack_get st' (ps_sp st + 1) = Some s1" "stack_get st' (ps_sp st + 2) = Some s2"
    "stack_get st' (ps_sp st + 3) = Some ctx" "stack_get st' (ps_sp st + 4) = Some rcv" "stack_get st' (ps_sp st + 5) = Some s3"
    "stack_get st' (ps_sp st + 6) = Some mk"
  using with_frame_get(1) [OF assms(1), of 0] with_frame_get(1) [OF assms(1), of 1] with_frame_get(1) [OF assms(1), of 2] with_frame_get(1) [OF assms(1), of 3]
    with_frame_get(1) [OF assms(1), of 4] with_frame_get(1) [OF assms(1), of 5] with_frame_get(1) [OF assms(1), of 6]
  by (simp_all add: st'_def)

lemma with_frame_simps [simp]:
  "ps_sp (with_frame mo s1 s2 ctx rcv s3 mk temps st) = ps_sp st + 7 + length temps"
  "ps_fp (with_frame mo s1 s2 ctx rcv s3 mk temps st) = ps_sp st" "ps_has_frame (with_frame mo s1 s2 ctx rcv s3 mk temps st)"
  "fits (7 + length temps) st \<Longrightarrow> length (ps_slots (with_frame mo s1 s2 ctx rcv s3 mk temps st)) = length (ps_slots st)"
  by (simp_all add: with_frame_def activate_frame_def)

lemma with_frame_take: "fits (7 + length temps) st \<Longrightarrow> take (ps_sp st) (ps_slots (with_frame mo s1 s2 ctx rcv s3 mk temps st)) = take (ps_sp st) (ps_slots st)"
  using take_pushed [of "frame_words mo s1 s2 ctx rcv s3 mk temps" st] by (simp add: with_frame_def activate_frame_def)

lemma with_frame_method:
  assumes "fits (7 + length temps) st" "method_try_from objs mo = Some (mo, m)"
  shows "frame_method objs (with_frame mo s1 s2 ctx rcv s3 mk temps st) (ps_sp st) = Some (mo, m)"
  using with_frame_words(1) [OF assms(1)] assms(2) by (simp add: frame_method_def FRAME_METHOD_def)

lemma store_captures_spec:
  assumes "fits (7 + length temps) st" "method_try_from (iv_objs vm) mo = Some (mo, m)" "argc m = Some ac" "ntemps m = Some (length temps)"
    "vb + i + k \<le> ncopied c" "i + k \<le> length temps"
  shows "store_captures c (ps_sp st) ac vb i k (vm\<lparr>iv_stack := with_frame mo s1 s2 ctx rcv s3 mk temps st\<rparr>) =
    Some (vm\<lparr>iv_stack := with_frame mo s1 s2 ctx rcv s3 mk (take i temps @ take k (drop (vb + i) (co_copied c)) @ drop (i + k) temps) st\<rparr>)"
  using assms
proof (induction k arbitrary: i temps)
  case (Suc k)
  let ?v = "co_copied c ! (vb + i)"
  have i: "i < length temps" "vb + i < length (co_copied c)" using Suc.prems by (simp_all add: ncopied_def)
  have idx: "temp_index (iv_objs vm) (with_frame mo s1 s2 ctx rcv s3 mk temps st) (ps_sp st) (ac + i) = Some (ps_sp st + 7 + i)"
    using with_frame_method [OF Suc.prems(1,2)] Suc.prems(3,4) i by (simp add: temp_index_def FRAME_TEMPS_BASE_def)
  have ih: "store_captures c (ps_sp st) ac vb (i + 1) k (vm\<lparr>iv_stack := with_frame mo s1 s2 ctx rcv s3 mk (temps[i := ?v]) st\<rparr>) =
    Some (vm\<lparr>iv_stack := with_frame mo s1 s2 ctx rcv s3 mk (take (i + 1) (temps[i := ?v]) @ take k (drop (vb + (i + 1)) (co_copied c)) @ drop (i + 1 + k) (temps[i := ?v])) st\<rparr>)"
    using Suc.prems by (intro Suc.IH) auto
  have eq: "take (i + 1) (temps[i := ?v]) @ take k (drop (vb + (i + 1)) (co_copied c)) @ drop (i + 1 + k) (temps[i := ?v]) =
      take i temps @ take (Suc k) (drop (vb + i) (co_copied c)) @ drop (i + Suc k) temps"
    using i by (simp add: take_Suc_conv_app_nth flip: Cons_nth_drop_Suc)
  show ?case
    using ih [unfolded eq] i idx with_frame_set(2) [OF Suc.prems(1) i(1)] by (simp add: copied_def slice_get_def on_stack_def set_temp_def)
qed simp

lemma serial_mask: "w AND FRAME_SERIAL_MASK = take_bit 32 w"
proof -
  have "FRAME_SERIAL_MASK = mask 32" by (simp add: FRAME_SERIAL_MASK_def FRAME_SERIAL_BITS_def mask_eq_exp_minus_1)
  then show ?thesis by (simp add: take_bit_eq_mask)
qed

lemma smi_new_small:
  assumes "0 \<le> v" "v < 2 ^ 61"
  shows "\<exists>s. smi_new v = Some s \<and> is_smi s \<and> smi_value s = v"
proof -
  have "smi_try_new v \<noteq> None" using assms by (simp add: smi_try_new_None smi_bounds)
  then show ?thesis using smi_try_new_SomeD by (auto simp: smi_new_eq)
qed

lemma push_frame_frame:
  assumes "fits (7 + nt) (iv_stack vm)" "ntemps m = Some nt" "ac < ps_sp (iv_stack vm)" "smi_new sfp = Some s1" "smi_new (usize_as_i64 sbci) = Some s2"
    "iv_next_serial vm + 1 \<noteq> 0"
  shows "\<exists>s3. push_frame mo m ac sfp sbci vm = Some (vm\<lparr>iv_next_serial := iv_next_serial vm + 1, iv_stack :=
      with_frame mo s1 s2 (iv_nil vm) (ps_slots (iv_stack vm) ! (ps_sp (iv_stack vm) - ac - 1)) s3 (iv_nil vm) (replicate nt (iv_nil vm)) (iv_stack vm)\<rparr>) \<and>
    is_smi s3 \<and> smi_value s3 = uint (iv_next_serial vm)"
proof -
  obtain s3 where s3: "smi_new (uint (iv_next_serial vm)) = Some s3" "is_smi s3" "smi_value s3 = uint (iv_next_serial vm)" using smi_new_serial by blast
  show ?thesis using push_frame_spec [OF assms s3(1)] s3(2,3) by (intro exI [of _ s3]) (simp add: with_frame_def)
qed

lemma serial_kind_bits:
  assumes "0 \<le> w" "w < 2 ^ 32"
  shows "w AND FRAME_SERIAL_MASK = w" "w AND FRAME_MARKER_KIND_MASK = 0" "(w OR FRAME_MARKER_KIND_MASK) AND FRAME_SERIAL_MASK = w"
    "(w OR FRAME_MARKER_KIND_MASK) AND FRAME_MARKER_KIND_MASK \<noteq> 0" "0 \<le> w OR FRAME_MARKER_KIND_MASK" "w OR FRAME_MARKER_KIND_MASK < 2 ^ 61"
proof -
  have w: "take_bit 32 w = w" using assms by (simp add: take_bit_int_eq_self)
  have k: "FRAME_MARKER_KIND_MASK = 2 ^ 32" by (simp add: FRAME_MARKER_KIND_MASK_def FRAME_MARKER_KIND_SHIFT_def FRAME_SERIAL_BITS_def)
  have nb: "\<not> bit w 32" using w by (metis bit_take_bit_iff less_irrefl)
  show "w AND FRAME_SERIAL_MASK = w" using w by (simp add: serial_mask)
  have kb: "bit FRAME_MARKER_KIND_MASK n \<longleftrightarrow> n = 32" for n unfolding k bit_exp_iff by auto
  show "w AND FRAME_MARKER_KIND_MASK = 0" by (rule bit_eqI) (use nb in \<open>auto simp: bit_and_iff kb\<close>)
  show "(w OR FRAME_MARKER_KIND_MASK) AND FRAME_SERIAL_MASK = w" unfolding serial_mask
    by (rule bit_eqI) (metis bit_or_iff bit_take_bit_iff kb less_irrefl w)
  have "bit ((w OR FRAME_MARKER_KIND_MASK) AND FRAME_MARKER_KIND_MASK) 32" by (simp add: bit_and_iff bit_or_iff kb)
  then show "(w OR FRAME_MARKER_KIND_MASK) AND FRAME_MARKER_KIND_MASK \<noteq> 0" by auto
  show "0 \<le> w OR FRAME_MARKER_KIND_MASK" using assms by (simp add: k)
  show "w OR FRAME_MARKER_KIND_MASK < 2 ^ 61" using OR_upper [of w 61 "2 ^ 32"] assms by (simp add: k)
qed

text \<open>
  C39. A frame that \<open>push_frame\<close> built for a method that is not a block passes \<open>Frame::verify\<close>, and every accessor reads back what was pushed: the method, the link to the caller, a fresh serial,
  no context and no marker, the receiver, the arguments where the caller left them and nil temporaries; nothing below it changed. A marker set on it is read back with its kind and leaves the
  serial as it was.
\<close>
theorem pushed_frame_reads_back:
  assumes m: "method_try_from (iv_objs vm) mo = Some (mo, m)" "argc m = Some ac" "ntemps m = Some nt" "is_block_method m = Some False"
    and room: "fits (7 + nt) (iv_stack vm)" and args: "ac < ps_sp (iv_stack vm)" and sfp: "SMI_MIN \<le> sfp" "sfp \<le> SMI_MAX" and sbci: "sbci < 2 ^ 61"
    and ser: "iv_next_serial vm + 1 \<noteq> 0"
  shows "\<exists>vm' st'. push_frame mo m ac sfp sbci vm = Some vm' \<and> st' = iv_stack vm' \<and> iv_objs vm' = iv_objs vm \<and> ps_fp st' = ps_sp (iv_stack vm) \<and>
    verify_frame (iv_objs vm) st' (ps_fp st') = Some () \<and> frame_method (iv_objs vm) st' (ps_fp st') = Some (mo, m) \<and>
    saved_fp st' (ps_fp st') = Some sfp \<and> saved_bci st' (ps_fp st') = Some sbci \<and> frame_serial st' (ps_fp st') = Some (iv_next_serial vm) \<and>
    frame_context st' (ps_fp st') = Some (iv_nil vm) \<and> marker st' (ps_fp st') = Some (iv_nil vm) \<and>
    frame_receiver st' (ps_fp st') = Some (ps_slots (iv_stack vm) ! (ps_sp (iv_stack vm) - ac - 1)) \<and>
    (\<forall>t < ac. frame_temp (iv_objs vm) st' (ps_fp st') t = Some (ps_slots (iv_stack vm) ! (ps_sp (iv_stack vm) - ac + t))) \<and>
    (\<forall>t < nt. frame_temp (iv_objs vm) st' (ps_fp st') (ac + t) = Some (iv_nil vm)) \<and>
    (\<forall>i < ps_sp (iv_stack vm). stack_get st' i = Some (ps_slots (iv_stack vm) ! i)) \<and>
    (\<forall>mk kind. \<exists>st2. set_marker (ps_fp st') mk kind st' = Some st2 \<and> marker st2 (ps_fp st') = Some mk \<and> frame_marker_kind st2 (ps_fp st') = Some kind \<and>
       frame_serial st2 (ps_fp st') = Some (iv_next_serial vm))"
proof -
  let ?st = "iv_stack vm"
  obtain s1 where s1: "smi_new sfp = Some s1" "is_smi s1" "smi_value s1 = sfp"
    using sfp smi_try_new_None [of sfp] smi_try_new_SomeD [of sfp] by (cases "smi_try_new sfp") (auto simp: smi_new_eq)
  have "usize_as_i64 sbci = int sbci" using sbci by (simp add: usize_as_i64_def I64_MAX_def)
  then obtain s2 where s2: "smi_new (usize_as_i64 sbci) = Some s2" "is_smi s2" "smi_value s2 = int sbci"
    using smi_new_small [of "int sbci"] sbci by auto
  from push_frame_frame [OF room m(3) args s1(1) s2(1) ser, of mo] obtain s3 where
    p: "push_frame mo m ac sfp sbci vm = Some (vm\<lparr>iv_next_serial := iv_next_serial vm + 1, iv_stack :=
      with_frame mo s1 s2 (iv_nil vm) (ps_slots ?st ! (ps_sp ?st - ac - 1)) s3 (iv_nil vm) (replicate nt (iv_nil vm)) ?st\<rparr>)" 
    and s3: "is_smi s3" "smi_value s3 = uint (iv_next_serial vm)" by blast
  define st' where "st' = with_frame mo s1 s2 (iv_nil vm) (ps_slots ?st ! (ps_sp ?st - ac - 1)) s3 (iv_nil vm) (replicate nt (iv_nil vm)) ?st"
  have room': "fits (7 + length (replicate nt (iv_nil vm))) ?st" using room by simp
  note w = with_frame_words [OF room', where mo = mo and ?s1.0 = s1 and ?s2.0 = s2 and ctx = "iv_nil vm" and rcv = "ps_slots ?st ! (ps_sp ?st - ac - 1)"
      and ?s3.0 = s3 and mk = "iv_nil vm", folded st'_def]
  have below: "stack_get st' i = Some (ps_slots ?st ! i)" if "i < ps_sp ?st" for i using with_frame_get(2) [OF room' that] by (simp add: st'_def)
  have temps: "stack_get st' (ps_sp ?st + 7 + t) = Some (iv_nil vm)" if "t < nt" for t
    using with_frame_get(1) [OF room', of "7 + t"] that by (simp add: st'_def frame_words_def add.assoc)
  have fp: "ps_fp st' = ps_sp ?st" "ps_sp st' = ps_sp ?st + 7 + nt" "length (ps_slots st') = length (ps_slots ?st)" using room' by (simp_all add: st'_def)
  have fm: "frame_method (iv_objs vm) st' (ps_sp ?st) = Some (mo, m)" using w(1) m(1) by (simp add: frame_method_def FRAME_METHOD_def)
  let ?u = "uint (iv_next_serial vm)"
  have u: "0 \<le> ?u" "?u < 2 ^ 32" using uint_lt2p [of "iv_next_serial vm"] by simp_all
  note bits = serial_kind_bits [OF u]
  note sl = smi_slot_def saved_fp_def saved_bci_def serial_word_def frame_slot_defs smi_try_from_def
  have sw: "serial_word st' (ps_sp ?st) = Some ?u" using w s3 by (simp add: sl)
  have "verify_frame (iv_objs vm) st' (ps_sp ?st) = Some ()"
    using fm w below [of "ps_sp ?st - ac - 1"] m s1 s2 s3 args fp by (simp add: verify_frame_def sl frame_receiver_def)
  moreover have "saved_fp st' (ps_sp ?st) = Some sfp" using w s1 by (simp add: sl)
  moreover have "saved_bci st' (ps_sp ?st) = Some sbci" using w s2 sbci by (simp add: sl i64_as_usize_def)
  moreover have "frame_serial st' (ps_sp ?st) = Some (iv_next_serial vm)" using sw bits by (simp add: frame_serial_def)
  moreover have "frame_temp (iv_objs vm) st' (ps_sp ?st) t = Some (ps_slots ?st ! (ps_sp ?st - ac + t))" if "t < ac" for t
    using that fm m args below [of "ps_sp ?st - ac + t"] by (simp add: frame_temp_def temp_index_def usize_minus_def)
  moreover have "frame_temp (iv_objs vm) st' (ps_sp ?st) (ac + t) = Some (iv_nil vm)" if "t < nt" for t
    using that fm m temps [OF that] by (simp add: frame_temp_def temp_index_def FRAME_TEMPS_BASE_def)
  moreover have "\<exists>st2. set_marker (ps_sp ?st) mk kind st' = Some st2 \<and> marker st2 (ps_sp ?st) = Some mk \<and> frame_marker_kind st2 (ps_sp ?st) = Some kind \<and>
      frame_serial st2 (ps_sp ?st) = Some (iv_next_serial vm)" for mk kind
  proof -
    let ?w = "?u OR (case kind of Ensure \<Rightarrow> 0 | IfCurtailed \<Rightarrow> FRAME_MARKER_KIND_MASK)"
    have "0 \<le> ?w \<and> ?w < 2 ^ 61" using bits u by (cases kind) auto
    then obtain s where s: "smi_new ?w = Some s" "is_smi s" "smi_value s = ?w" using smi_new_small by blast
    have "ps_sp ?st + 7 \<le> length (ps_slots st')" using room fp(3) by (simp add: fits_def)
    then show ?thesis using sw s bits
      by (cases kind) (simp_all add: set_marker_def stack_set_def Let_def frame_marker_kind_def frame_serial_def sl marker_def stack_get_def slice_get_def)
  qed
  ultimately show ?thesis
    using p [folded st'_def] fm w below fp
    by (intro exI [of _ "vm\<lparr>iv_next_serial := iv_next_serial vm + 1, iv_stack := st'\<rparr>"] exI [of _ st'])
      (simp add: frame_context_def marker_def frame_receiver_def frame_slot_defs)
qed

text \<open>A method of one argument and one temporary, sent with the receiver 1 and the argument 2 to an idle machine.\<close>

definition flags_method :: "oop \<Rightarrow> method_oop" where
  "flags_method fl = \<lparr>m_selector = 1, m_holder = 1, m_flags = fl, m_primitive = 0, m_counters = 0, m_literals = [], m_ics = [], m_bytes = []\<rparr>"

definition send_vm :: ivm where
  "send_vm = \<lparr>iv_stack = \<lparr>ps_slots = [4, 8] @ replicate 10 0, ps_sp = 2, ps_fp = 0, ps_has_frame = False\<rparr>, iv_objs = [5 \<mapsto> MethodObj (flags_method 68)],
     iv_free = [], iv_nil = 1, iv_next_serial = 7, iv_method = None, iv_bci = 0, iv_nlr = None, iv_curtailing = False\<rparr>"

theorem pushed_frame_reads_back_witness:
  "\<exists>vm'. push_frame 5 (flags_method 68) 1 (-1) 0 send_vm = Some vm' \<and> verify_frame (iv_objs send_vm) (iv_stack vm') 2 = Some () \<and>
     frame_temp (iv_objs send_vm) (iv_stack vm') 2 0 = Some 8 \<and> frame_serial (iv_stack vm') 2 = Some 7"
proof -
  have "method_try_from (iv_objs send_vm) 5 = Some (5, flags_method 68)" "argc (flags_method 68) = Some 1" "ntemps (flags_method 68) = Some 1"
    "is_block_method (flags_method 68) = Some False" "fits (7 + 1) (iv_stack send_vm)" "1 < ps_sp (iv_stack send_vm)" "iv_next_serial send_vm + 1 \<noteq> 0"
    by code_simp+
  moreover have "ps_sp (iv_stack send_vm) = 2" "ps_slots (iv_stack send_vm) ! 1 = 8" "iv_next_serial send_vm = 7" by (simp_all add: send_vm_def)
  ultimately show ?thesis using pushed_frame_reads_back [of send_vm 5 "flags_method 68" 1 1 "-1" 0] by (auto simp: smi_bounds)
qed

subsection \<open>Activating a block\<close>

text \<open>A closure whose block takes \<open>ac\<close> arguments and has \<open>nt\<close> temporaries, its copied values as the generator lays them out.\<close>

definition block_ready :: "objects \<Rightarrow> oop \<times> closure_obj \<Rightarrow> nat \<Rightarrow> nat \<Rightarrow> bool" where
  "block_ready objs cl ac nt \<longleftrightarrow> closure_try_from objs (fst cl) = Some cl \<and>
     (case closure_method objs (snd cl) of None \<Rightarrow> False
      | Some (_, blk) \<Rightarrow> argc blk = Some ac \<and> ntemps blk = Some nt \<and>
          (case captures_ctx blk of None \<Rightarrow> False
           | Some cc \<Rightarrow> 1 + of_bool cc \<le> ncopied (snd cl) \<and> ncopied (snd cl) \<le> 1 + of_bool cc + nt))"

definition free_ok :: "ivm \<Rightarrow> bool" where
  "free_ok vm \<longleftrightarrow> distinct (iv_free vm) \<and> (\<forall>a \<in> set (iv_free vm). is_mem a \<and> iv_objs vm a = None \<and> a \<noteq> iv_nil vm)"

definition allocates :: "ivm \<Rightarrow> ivm \<Rightarrow> bool" where
  "allocates vm vm' \<longleftrightarrow> iv_objs vm' = iv_objs vm \<and> iv_free vm' = iv_free vm \<or>
     (\<exists>a x. iv_free vm = a # iv_free vm' \<and> iv_objs vm' = (iv_objs vm)(a \<mapsto> x))"

lemma allocates_free_ok: "allocates vm vm' \<Longrightarrow> iv_nil vm' = iv_nil vm \<Longrightarrow> free_ok vm \<Longrightarrow> free_ok vm'"
  by (auto simp: allocates_def free_ok_def)

lemma allocates_objs: "allocates vm vm' \<Longrightarrow> free_ok vm \<Longrightarrow> iv_objs vm o1 = Some x \<Longrightarrow> iv_objs vm' o1 = Some x"
  by (auto simp: allocates_def free_ok_def)

lemma allocates_free: "allocates vm vm' \<Longrightarrow> length (iv_free vm) \<le> length (iv_free vm') + 1"
  by (auto simp: allocates_def)

text \<open>Objects that stay what they are keep every typed reference.\<close>

lemma objs_extend:
  assumes "\<And>o1 x. objs o1 = Some x \<Longrightarrow> objs' o1 = Some x"
  shows "method_try_from objs o1 = Some m \<Longrightarrow> method_try_from objs' o1 = Some m"
    "closure_try_from objs o1 = Some c \<Longrightarrow> closure_try_from objs' o1 = Some c"
    "closure_method objs cl = Some m \<Longrightarrow> closure_method objs' cl = Some m"
  using assms
  by (auto simp: closure_method_def method_try_from_def closure_try_from_def mem_obj_def split: if_splits option.splits heap_obj.splits)

lemma method_try_fromD: "method_try_from objs o1 = Some (o2, m) \<Longrightarrow> o2 = o1"
  by (auto simp: method_try_from_def split: option.splits heap_obj.splits)

lemma closure_try_fromD: "closure_try_from objs o1 = Some (o2, c) \<Longrightarrow> o2 = o1"
  by (auto simp: closure_try_from_def split: option.splits heap_obj.splits)

lemma block_context:
  assumes "fits (7 + length temps) st" "has_ctx blk = Some hc" "flags_value blk = Some f" "iv_free vm \<noteq> []" "free_ok vm"
  shows "\<exists>ctx vm1. (if hc then stack_alloc_context blk (ps_sp st) encl (vm\<lparr>iv_stack := with_frame mo s1 s2 c0 rcv s3 mk temps st\<rparr>)
      else on_stack (set_context (ps_sp st) encl) (vm\<lparr>iv_stack := with_frame mo s1 s2 c0 rcv s3 mk temps st\<rparr>)) =
      Some (vm1\<lparr>iv_stack := with_frame mo s1 s2 ctx rcv s3 mk temps st\<rparr>) \<and> allocates vm vm1 \<and>
      (\<exists>os fr. vm1 = vm\<lparr>iv_objs := os, iv_free := fr\<rparr>)"
proof (cases hc)
  case False
  have "\<exists>os fr. vm = vm\<lparr>iv_objs := os, iv_free := fr\<rparr>" by (rule exI [of _ "iv_objs vm"], rule exI [of _ "iv_free vm"]) simp
  then show ?thesis using False with_frame_set(1) [OF assms(1)]
    by (intro exI [of _ encl] exI [of _ vm]) (simp add: on_stack_def set_context_def FRAME_CONTEXT_def allocates_def)
next
  case True
  obtain n where n: "nctx blk = Some n" using flags_read(6) [OF assms(3)] by auto
  obtain a rest where a: "iv_free vm = a # rest" using assms(4) by (cases "iv_free vm") auto
  let ?x = "ContextObj encl (replicate n (iv_nil vm))"
  show ?thesis
    using True assms(2) n a with_frame_set(1) [OF assms(1)]
    by (intro exI [of _ a] exI [of _ "vm\<lparr>iv_objs := (iv_objs vm)(a \<mapsto> ?x), iv_free := rest\<rparr>"])
      (auto simp: stack_alloc_context_def alloc_object_def put_obj_def on_stack_def set_context_def FRAME_CONTEXT_def allocates_def Let_def)
qed

lemma activate_block_spec:
  assumes ready: "block_ready (iv_objs vm) (co, c) ac nt" and room: "fits (7 + nt) (iv_stack vm)" and ac: "ac < ps_sp (iv_stack vm)"
    and arg: "ps_slots (iv_stack vm) ! (ps_sp (iv_stack vm) - ac - 1) = co"
    and s1: "smi_new (usize_as_i64 (ps_fp (iv_stack vm))) = Some s1" and s2: "smi_new (usize_as_i64 (iv_bci vm)) = Some s2"
    and ser: "iv_next_serial vm + 1 \<noteq> 0" and free: "iv_free vm \<noteq> []" "free_ok vm"
  shows "\<exists>vm1 ctx s3 temps bo blk. stack_activate_block (co, c) ac vm =
      Some (Activated, vm1\<lparr>iv_stack := with_frame bo s1 s2 ctx (co_copied c ! 0) s3 (iv_nil vm) temps (iv_stack vm)\<rparr>) \<and>
    closure_method (iv_objs vm) c = Some (bo, blk) \<and> length temps = nt \<and> is_smi s3 \<and> smi_value s3 = uint (iv_next_serial vm) \<and> allocates vm vm1 \<and>
    (\<exists>os fr. vm1 = vm\<lparr>iv_objs := os, iv_free := fr, iv_next_serial := iv_next_serial vm + 1, iv_method := Some bo, iv_bci := 0\<rparr>)"
proof -
  let ?st = "iv_stack vm"
  obtain bo blk cc where b: "closure_method (iv_objs vm) c = Some (bo, blk)" "argc blk = Some ac" "ntemps blk = Some nt" "captures_ctx blk = Some cc"
    and n: "1 + of_bool cc \<le> ncopied c" "ncopied c \<le> 1 + of_bool cc + nt" and cl: "closure_try_from (iv_objs vm) co = Some (co, c)"
    using ready by (auto simp: block_ready_def split: option.splits)
  obtain f where f: "flags_value blk = Some f" using argc_flags [OF b(2)] by auto
  obtain hc where hc: "has_ctx blk = Some hc" using flags_read(3) [OF f] by auto
  obtain s3 where s3: "smi_new (uint (iv_next_serial vm)) = Some s3" "is_smi s3" "smi_value s3 = uint (iv_next_serial vm)"
    using smi_new_serial by blast
  define encl where "encl = (if cc then co_copied c ! 1 else iv_nil vm)"
  define vm0 where "vm0 = vm\<lparr>iv_next_serial := iv_next_serial vm + 1\<rparr>"
  have room': "fits (7 + length (replicate nt (iv_nil vm))) ?st" using room by simp
  have free0: "iv_free vm0 \<noteq> []" "free_ok vm0" using free by (simp_all add: vm0_def free_ok_def)
  from block_context [OF room' hc f free0, of encl bo s1 s2 "iv_nil vm" "co_copied c ! 0" s3 "iv_nil vm"]
  obtain ctx vm1 os fr where c1: "(if hc then stack_alloc_context blk (ps_sp ?st) encl (vm0\<lparr>iv_stack := with_frame bo s1 s2 (iv_nil vm) (co_copied c ! 0) s3 (iv_nil vm) (replicate nt (iv_nil vm)) ?st\<rparr>)
      else on_stack (set_context (ps_sp ?st) encl) (vm0\<lparr>iv_stack := with_frame bo s1 s2 (iv_nil vm) (co_copied c ! 0) s3 (iv_nil vm) (replicate nt (iv_nil vm)) ?st\<rparr>)) =
      Some (vm1\<lparr>iv_stack := with_frame bo s1 s2 ctx (co_copied c ! 0) s3 (iv_nil vm) (replicate nt (iv_nil vm)) ?st\<rparr>)"
    and al: "allocates vm0 vm1" and vm1: "vm1 = vm0\<lparr>iv_objs := os, iv_free := fr\<rparr>"
    by blast
  have ext: "iv_objs vm o1 = Some x \<Longrightarrow> iv_objs vm1 o1 = Some x" for o1 x
    using allocates_objs [OF al free0(2)] by (simp add: vm0_def)
  note ext' = objs_extend [where objs = "iv_objs vm" and objs' = "iv_objs vm1", OF ext]
  have cm: "closure_method (iv_objs vm1) c = Some (bo, blk)" "closure_try_from (iv_objs vm1) co = Some (co, c)"
    using ext' b(1) cl by blast+
  have mt: "method_try_from (iv_objs vm1) bo = Some (bo, blk)"
    using cm(1) method_try_fromD [of "iv_objs vm1" "co_method c" bo blk] by (simp add: closure_method_def)
  have slot: "receiver_slot (iv_objs vm1) (with_frame bo s1 s2 ctx (co_copied c ! 0) s3 (iv_nil vm) (replicate nt (iv_nil vm)) ?st) (ps_sp ?st) = Some (ps_sp ?st - ac - 1)"
    using with_frame_method [OF room' mt] b(2) ac by (simp add: receiver_slot_def usize_minus_def)
  have arg': "stack_get (with_frame bo s1 s2 ctx (co_copied c ! 0) s3 (iv_nil vm) (replicate nt (iv_nil vm)) ?st) (ps_sp ?st - ac - 1) = Some co"
    using with_frame_get(2) [OF room', of "ps_sp ?st - ac - 1"] arg ac by simp
  let ?vb = "1 + of_bool cc"
  from store_captures_spec [where vm = vm1 and temps = "replicate nt (iv_nil vm)" and i = 0 and k = "ncopied c - ?vb" and vb = ?vb and c = c, OF room' mt b(2)]
  have sc: "store_captures c (ps_sp ?st) ac ?vb 0 (ncopied c - ?vb) (vm1\<lparr>iv_stack := with_frame bo s1 s2 ctx (co_copied c ! 0) s3 (iv_nil vm) (replicate nt (iv_nil vm)) ?st\<rparr>) =
      Some (vm1\<lparr>iv_stack := with_frame bo s1 s2 ctx (co_copied c ! 0) s3 (iv_nil vm)
        (take (ncopied c - ?vb) (drop ?vb (co_copied c)) @ drop (ncopied c - ?vb) (replicate nt (iv_nil vm))) ?st\<rparr>)"
    using b(3) n by simp
  have prefix: "stack_activate_block (co, c) ac vm = do {
      vm2 \<leftarrow> (if hc then stack_alloc_context blk (ps_sp ?st) encl (vm0\<lparr>iv_stack := with_frame bo s1 s2 (iv_nil vm) (co_copied c ! 0) s3 (iv_nil vm) (replicate nt (iv_nil vm)) ?st\<rparr>)
        else on_stack (set_context (ps_sp ?st) encl) (vm0\<lparr>iv_stack := with_frame bo s1 s2 (iv_nil vm) (co_copied c ! 0) s3 (iv_nil vm) (replicate nt (iv_nil vm)) ?st\<rparr>));
      slot \<leftarrow> receiver_slot (iv_objs vm2) (iv_stack vm2) (ps_sp ?st);
      o1 \<leftarrow> stack_get (iv_stack vm2) slot;
      (_, c) \<leftarrow> closure_try_from (iv_objs vm2) o1;
      (bo, blk) \<leftarrow> closure_method (iv_objs vm2) c;
      n \<leftarrow> usize_minus (ncopied c) ?vb;
      vm2 \<leftarrow> store_captures c (ps_sp ?st) ac ?vb 0 n vm2;
      Some (Activated, vm2\<lparr>iv_method := Some bo, iv_bci := 0\<rparr>) }"
    using b s1 s2 s3 ser n room hc vm_push_times_pushed [of _ nt "vm\<lparr>iv_next_serial := iv_next_serial vm + 1\<rparr>"]
    by (cases cc; cases "co_copied c = []") (simp_all add: stack_activate_block_def vm_push_first vm_pushed_pushed fits_def alloc_serial_def Let_def copied_def
        slice_get_def ncopied_def encl_def vm0_def Suc_le_eq with_frame_def frame_words_def)
  define temps where "temps = take (ncopied c - ?vb) (drop ?vb (co_copied c)) @ drop (ncopied c - ?vb) (replicate nt (iv_nil vm))"
  have len: "length temps = nt" using n by (simp add: temps_def ncopied_def)
  have res: "stack_activate_block (co, c) ac vm = Some (Activated, (vm1\<lparr>iv_method := Some bo, iv_bci := 0\<rparr>)\<lparr>iv_stack :=
      with_frame bo s1 s2 ctx (co_copied c ! 0) s3 (iv_nil vm) temps ?st\<rparr>)"
    unfolding prefix c1 using slot arg' cm n(1) sc [folded temps_def] by (simp add: usize_minus_def)
  have "allocates vm (vm1\<lparr>iv_method := Some bo, iv_bci := 0\<rparr>)" using al by (simp add: allocates_def vm0_def)
  moreover have "vm1\<lparr>iv_method := Some bo, iv_bci := 0\<rparr> = vm\<lparr>iv_objs := os, iv_free := fr, iv_next_serial := iv_next_serial vm + 1, iv_method := Some bo, iv_bci := 0\<rparr>"
    by (simp add: vm1 vm0_def)
  ultimately show ?thesis using res len b(1) s3(2,3) by blast
qed

end
