(* ===== verification/Unwind.thy ===== *)
theory Unwind
  imports Process_Stack
begin

text \<open>
  Returns, non-local returns and the handlers of \<open>ensure:\<close> and \<open>ifCurtailed:\<close> (\<open>src/src/interpreter/unwind.rs\<close>) on the process stack.
  The functions call each other: returning from a handler's frame resumes the unwinding that activated it. \<open>do_return\<close> carries the depth of this recursion
  as fuel and the others take it as an argument. Sending \<open>cannotReturn:\<close> and running the dispatch loop are arguments of the model, \<open>unwind_env\<close>.
\<close>

definition BCI_RESUME_ENSURE_RET :: nat where "BCI_RESUME_ENSURE_RET = 0x7FFF0001"
definition BCI_RESUME_UNWIND :: nat where "BCI_RESUME_UNWIND = 0x7FFF0002"
definition BCI_RESUME_CANNOT_RETURN :: nat where "BCI_RESUME_CANNOT_RETURN = 0x7FFF0003"

definition SENTINEL_FP :: nat where "SENTINEL_FP = i64_as_usize ENTRY_FRAME_SENTINEL"

datatype marker_class = NoMarker | Handler "oop \<times> closure_obj" | Token "oop \<times> oop list"

definition classify_marker :: "ivm \<Rightarrow> nat \<Rightarrow> marker_class option" where
  "classify_marker vm fp = do {
     m \<leftarrow> marker (iv_stack vm) fp;
     if m = iv_nil vm then Some NoMarker
     else case closure_try_from (iv_objs vm) m of Some cl \<Rightarrow> Some (Handler cl)
       | None \<Rightarrow> (case array_try_from (iv_objs vm) m of Some arr \<Rightarrow> Some (Token arr) | None \<Rightarrow> None)
   }"

datatype unwind_step = RanHandler | ReturnedFromHome "oop option" | CannotReturn | Escaped

datatype scan_result = Marked nat "oop \<times> closure_obj" | ReachedHome | CrossedBoundary nat

text \<open>
  \<open>ue_find\<close> is the lookup of \<open>cannotReturn:\<close> in the class of the closure (none: the process ends with the message), \<open>ue_activate\<close> the activation
  of the method found with one argument, \<open>ue_dispatch\<close> the dispatch loop of a nested run.
\<close>

record unwind_env =
  ue_find :: "ivm \<Rightarrow> oop \<Rightarrow> oop option"
  ue_activate :: "ivm \<Rightarrow> oop \<Rightarrow> nat \<Rightarrow> (unwind_step option \<times> ivm) option"
  ue_dispatch :: "ivm \<Rightarrow> ivm option"

type_synonym returner = "ivm \<Rightarrow> oop \<Rightarrow> (oop option \<times> ivm) option"

definition home_is_live :: "ivm \<Rightarrow> home_ref \<Rightarrow> bool" where
  "home_is_live vm home =
     (if hr_proc home \<noteq> 0 then False
      else if unat (hr_fp home) + FRAME_MARKER \<ge> ps_sp (iv_stack vm) then False
      else case smi_slot (iv_stack vm) (unat (hr_fp home) + FRAME_SERIAL) of
          Some s \<Rightarrow> word_of_int (s AND FRAME_SERIAL_MASK) = hr_serial home
        | None \<Rightarrow> False)"

text \<open>The walk along the saved frame pointers; on a cyclic chain the code would loop, here the fuel ends.\<close>

primrec innermost_marked_frame :: "nat \<Rightarrow> ivm \<Rightarrow> nat \<Rightarrow> nat \<Rightarrow> scan_result option" where
  "innermost_marked_frame 0 vm fp home_fp = None"
| "innermost_marked_frame (Suc n) vm fp home_fp =
     (if fp = home_fp then Some ReachedHome
      else do {
        c \<leftarrow> classify_marker vm fp;
        case c of Handler h \<Rightarrow> Some (Marked fp h)
        | _ \<Rightarrow> do {
            sfp \<leftarrow> saved_fp (iv_stack vm) fp;
            if sfp = ENTRY_FRAME_SENTINEL then Some (CrossedBoundary fp)
            else innermost_marked_frame n vm (i64_as_usize sfp) home_fp
          }
      })"

primrec walk_to_frame :: "nat \<Rightarrow> ivm \<Rightarrow> nat \<Rightarrow> nat \<Rightarrow> unit option" where
  "walk_to_frame 0 vm fp target_fp = None"
| "walk_to_frame (Suc n) vm fp target_fp =
     (if fp = target_fp then Some ()
      else do {
        sfp \<leftarrow> saved_fp (iv_stack vm) fp;
        rust_assert (sfp \<noteq> ENTRY_FRAME_SENTINEL);
        walk_to_frame n vm (i64_as_usize sfp) target_fp
      })"

text \<open>A chain visits each frame once, so the number of slots bounds the two walks.\<close>

definition pop_frames_above :: "nat \<Rightarrow> ivm \<Rightarrow> ivm option" where
  "pop_frames_above target_fp vm = do {
     walk_to_frame (Suc (stack_capacity (iv_stack vm))) vm (ps_fp (iv_stack vm)) target_fp;
     let st = activate_frame target_fp (iv_stack vm);
     (_, m) \<leftarrow> frame_method (iv_objs vm) st target_fp;
     nt \<leftarrow> ntemps m;
     Some (vm\<lparr>iv_stack := st\<lparr>ps_sp := target_fp + FRAME_TEMPS_BASE + nt\<rparr>\<rparr>)
   }"

definition alloc_unwind_token :: "home_ref \<Rightarrow> oop \<Rightarrow> ivm \<Rightarrow> (oop \<times> ivm) option" where
  "alloc_unwind_token home v vm = do {
     home_smi \<leftarrow> pack_home_ref home;
     vm \<leftarrow> vm_push v vm;
     (token, vm) \<leftarrow> alloc_object (ArrayObj [iv_nil vm, iv_nil vm]) vm;
     (v, st) \<leftarrow> stack_pop (iv_objs vm) (iv_stack vm);
     let vm = vm\<lparr>iv_stack := st\<rparr>;
     Some (token, put_obj token (ArrayObj [home_smi, v]) vm)
   }"

definition cannot_return :: "unwind_env \<Rightarrow> oop \<Rightarrow> oop \<Rightarrow> ivm \<Rightarrow> (unwind_step option \<times> ivm) option" where
  "cannot_return env closure v vm = do {
     vm \<leftarrow> vm_push closure vm;
     vm \<leftarrow> vm_push v vm;
     m \<leftarrow> ue_find env vm closure;
     ue_activate env (vm\<lparr>iv_bci := BCI_RESUME_CANNOT_RETURN\<rparr>) m 1
   }"

definition cannot_return_current_closure :: "unwind_env \<Rightarrow> oop \<Rightarrow> ivm \<Rightarrow> (unwind_step option \<times> ivm) option" where
  "cannot_return_current_closure env v vm = do {
     slot \<leftarrow> receiver_slot (iv_objs vm) (iv_stack vm) (ps_fp (iv_stack vm));
     o1 \<leftarrow> stack_get (iv_stack vm) slot;
     cl \<leftarrow> closure_try_from (iv_objs vm) o1;
     cannot_return env (fst cl) v vm
   }"

definition park_nlr :: "home_ref \<Rightarrow> oop \<Rightarrow> oop option \<Rightarrow> ivm \<Rightarrow> ivm option" where
  "park_nlr home v closure vm = do {
     rust_assert (iv_nlr vm = None);
     Some (vm\<lparr>iv_nlr := Some \<lparr>nlr_home = home, nlr_value = v, nlr_closure = closure\<rparr>\<rparr>)
   }"

text \<open>\<open>rec1\<close> is \<open>do_return\<close>.\<close>

definition continue_unwind :: "unwind_env \<Rightarrow> returner \<Rightarrow> home_ref \<Rightarrow> oop \<Rightarrow> oop option \<Rightarrow> ivm \<Rightarrow> (unwind_step \<times> ivm) option" where
  "continue_unwind env rec1 home v closure vm =
     (if ps_fp (iv_stack vm) = SENTINEL_FP then do { vm \<leftarrow> park_nlr home v closure vm; Some (Escaped, vm) }
      else if \<not> home_is_live vm home then do {
        rust_assert (hr_proc home \<noteq> 1);
        (nested, vm) \<leftarrow> (case Option.bind closure (closure_try_from (iv_objs vm)) of
            Some cl \<Rightarrow> cannot_return env (fst cl) v vm
          | None \<Rightarrow> cannot_return_current_closure env v vm);
        Some (case nested of None \<Rightarrow> CannotReturn | Some step \<Rightarrow> step, vm)
      }
      else do {
        scan \<leftarrow> innermost_marked_frame (Suc (stack_capacity (iv_stack vm))) vm (ps_fp (iv_stack vm)) (unat (hr_fp home));
        case scan of
          ReachedHome \<Rightarrow> do {
            vm \<leftarrow> pop_frames_above (unat (hr_fp home)) vm;
            (r, vm) \<leftarrow> rec1 vm v;
            Some (ReturnedFromHome r, vm)
          }
        | CrossedBoundary entry_fp \<Rightarrow> do {
            (_, m) \<leftarrow> frame_method (iv_objs vm) (iv_stack vm) entry_fp;
            ac \<leftarrow> argc m;
            b \<leftarrow> usize_minus entry_fp ac;
            base \<leftarrow> usize_minus b 1;
            let vm = vm\<lparr>iv_stack := deactivate ((iv_stack vm)\<lparr>ps_sp := base\<rparr>)\<rparr>;
            vm \<leftarrow> park_nlr home v closure vm;
            Some (Escaped, vm)
          }
        | Marked mfp handler \<Rightarrow> do {
            vm \<leftarrow> pop_frames_above mfp vm;
            (token, vm) \<leftarrow> alloc_unwind_token home v vm;
            vm \<leftarrow> on_stack (set_marker mfp token Ensure) vm;
            vm \<leftarrow> vm_push (fst handler) vm;
            (activated, vm) \<leftarrow> stack_activate_block handler 0 (vm\<lparr>iv_bci := BCI_RESUME_UNWIND\<rparr>);
            rust_assert (activated = Activated);
            Some (RanHandler, vm)
          }
      })"

definition resume_unwind :: "unwind_env \<Rightarrow> returner \<Rightarrow> ivm \<Rightarrow> (oop option \<times> ivm) option" where
  "resume_unwind env rec1 vm = do {
     sp \<leftarrow> usize_minus (ps_sp (iv_stack vm)) 1;
     let vm = vm\<lparr>iv_stack := (iv_stack vm)\<lparr>ps_sp := sp\<rparr>\<rparr>;
     let fp = ps_fp (iv_stack vm);
     c \<leftarrow> classify_marker vm fp;
     token \<leftarrow> (case c of Token t \<Rightarrow> Some (snd t) | _ \<Rightarrow> None);
     vm \<leftarrow> on_stack (clear_marker fp (iv_nil vm)) vm;
     t0 \<leftarrow> slice_get token 0;
     home \<leftarrow> smi_try_from t0;
     v \<leftarrow> slice_get token 1;
     (step, vm) \<leftarrow> continue_unwind env rec1 (unpack_home_ref home) v None vm;
     Some (case step of ReturnedFromHome r \<Rightarrow> r | RanHandler \<Rightarrow> None | CannotReturn \<Rightarrow> None | Escaped \<Rightarrow> Some NLR_SENTINEL, vm)
   }"

definition resume_ensure_ret :: "returner \<Rightarrow> ivm \<Rightarrow> (oop option \<times> ivm) option" where
  "resume_ensure_ret rec1 vm = do {
     sp \<leftarrow> usize_minus (ps_sp (iv_stack vm)) 1;
     (result, st) \<leftarrow> stack_pop (iv_objs vm) ((iv_stack vm)\<lparr>ps_sp := sp\<rparr>);
     rec1 (vm\<lparr>iv_stack := st\<rparr>) result
   }"

definition pop_and_deliver :: "unwind_env \<Rightarrow> returner \<Rightarrow> ivm \<Rightarrow> oop \<Rightarrow> (oop option \<times> ivm) option" where
  "pop_and_deliver env rec1 vm result = do {
     let fp = ps_fp (iv_stack vm);
     (_, m) \<leftarrow> frame_method (iv_objs vm) (iv_stack vm) fp;
     ac \<leftarrow> argc m;
     b \<leftarrow> usize_minus fp ac;
     base \<leftarrow> usize_minus b 1;
     sfp \<leftarrow> saved_fp (iv_stack vm) fp;
     sbci \<leftarrow> saved_bci (iv_stack vm) fp;
     vm \<leftarrow> on_stack (stack_set base result) vm;
     let vm = vm\<lparr>iv_stack := (iv_stack vm)\<lparr>ps_sp := base + 1\<rparr>\<rparr>;
     if sfp = ENTRY_FRAME_SENTINEL then Some (Some result, vm\<lparr>iv_stack := deactivate ((iv_stack vm)\<lparr>ps_sp := base\<rparr>)\<rparr>)
     else do {
       let vm = vm\<lparr>iv_stack := activate_frame (i64_as_usize sfp) (iv_stack vm)\<rparr>;
       if sbci = BCI_RESUME_ENSURE_RET then resume_ensure_ret rec1 vm
       else if sbci = BCI_RESUME_UNWIND then resume_unwind env rec1 vm
       else if sbci = BCI_RESUME_CANNOT_RETURN then None
       else do {
         (mo, _) \<leftarrow> frame_method (iv_objs vm) (iv_stack vm) (ps_fp (iv_stack vm));
         Some (None, vm\<lparr>iv_method := Some mo, iv_bci := sbci\<rparr>)
       }
     }
   }"

definition intercept_ensure_return :: "nat \<Rightarrow> oop \<times> closure_obj \<Rightarrow> oop \<Rightarrow> ivm \<Rightarrow> (oop option \<times> ivm) option" where
  "intercept_ensure_return fp handler result vm = do {
     vm \<leftarrow> on_stack (clear_marker fp (iv_nil vm)) vm;
     vm \<leftarrow> vm_push result vm;
     vm \<leftarrow> vm_push (fst handler) vm;
     (activated, vm) \<leftarrow> stack_activate_block handler 0 (vm\<lparr>iv_bci := BCI_RESUME_ENSURE_RET\<rparr>);
     rust_assert (activated = Activated);
     Some (None, vm)
   }"

primrec do_return :: "unwind_env \<Rightarrow> nat \<Rightarrow> returner" where
  "do_return env 0 vm result = None"
| "do_return env (Suc n) vm result = do {
     let fp = ps_fp (iv_stack vm);
     c \<leftarrow> classify_marker vm fp;
     case c of
       NoMarker \<Rightarrow> pop_and_deliver env (do_return env n) vm result
     | Token _ \<Rightarrow> None
     | Handler h \<Rightarrow> do {
         k \<leftarrow> frame_marker_kind (iv_stack vm) fp;
         case k of
           IfCurtailed \<Rightarrow> do {
             vm \<leftarrow> on_stack (clear_marker fp (iv_nil vm)) vm;
             pop_and_deliver env (do_return env n) vm result
           }
         | Ensure \<Rightarrow> intercept_ensure_return fp h result vm
       }
   }"

text \<open>The \<open>nlr_tos\<close> instruction (\<open>mod.rs\<close>): \<open>^\<close> in a block. The outer result is that of the dispatch loop, if it stops.\<close>

definition op_nlr_tos :: "unwind_env \<Rightarrow> nat \<Rightarrow> nat \<Rightarrow> ivm \<Rightarrow> (oop option \<times> ivm) option" where
  "op_nlr_tos env n bci vm = do {
     (v, st) \<leftarrow> stack_pop (iv_objs vm) (iv_stack vm);
     let vm = vm\<lparr>iv_stack := st\<rparr>;
     (mo, m) \<leftarrow> frame_method (iv_objs vm) (iv_stack vm) (ps_fp (iv_stack vm));
     ib \<leftarrow> is_block_method m;
     rust_assert ib;
     let vm = vm\<lparr>iv_method := Some mo, iv_bci := bci\<rparr>;
     slot \<leftarrow> receiver_slot (iv_objs vm) (iv_stack vm) (ps_fp (iv_stack vm));
     o1 \<leftarrow> stack_get (iv_stack vm) slot;
     (co, c) \<leftarrow> closure_try_from (iv_objs vm) o1;
     h \<leftarrow> closure_home_ref c;
     (step, vm) \<leftarrow> continue_unwind env (do_return env n) (unpack_home_ref h) v (Some co) vm;
     Some (case step of ReturnedFromHome r \<Rightarrow> r | Escaped \<Rightarrow> Some NLR_SENTINEL | RanHandler \<Rightarrow> None | CannotReturn \<Rightarrow> None, vm)
   }"

subsection \<open>Unwinding for an unhandled error\<close>

definition run_block_to_completion :: "unwind_env \<Rightarrow> oop \<times> closure_obj \<Rightarrow> ivm \<Rightarrow> ivm option" where
  "run_block_to_completion env closure vm = do {
     (_, m) \<leftarrow> closure_method (iv_objs vm) (snd closure);
     ac \<leftarrow> argc m;
     if ac \<noteq> 0 then Some vm
     else do {
       let saved = save_activation (iv_stack vm);
       let saved_method = iv_method vm;
       let saved_b = iv_bci vm;
       vm \<leftarrow> vm_push (fst closure) vm;
       let vm = vm\<lparr>iv_stack := (iv_stack vm)\<lparr>ps_fp := SENTINEL_FP\<rparr>, iv_bci := 0\<rparr>;
       (activated, vm) \<leftarrow> stack_activate_block closure 0 vm;
       vm \<leftarrow> (if activated = Activated then ue_dispatch env vm else Some vm);
       Some (vm\<lparr>iv_stack := restore_activation saved (iv_stack vm), iv_method := saved_method, iv_bci := saved_b\<rparr>)
     }
   }"

primrec collect_handlers :: "nat \<Rightarrow> nat \<Rightarrow> ivm \<Rightarrow> (oop list \<times> ivm) option" where
  "collect_handlers 0 fp vm = None"
| "collect_handlers (Suc n) fp vm = do {
     c \<leftarrow> classify_marker vm fp;
     (hs, vm) \<leftarrow> (case c of
         Handler h \<Rightarrow> do { vm \<leftarrow> on_stack (clear_marker fp (iv_nil vm)) vm; Some ([fst h], vm) }
       | _ \<Rightarrow> Some ([], vm));
     case saved_fp_opt (iv_stack vm) fp of
       None \<Rightarrow> Some (hs, vm)
     | Some sfp \<Rightarrow>
         (if sfp = ENTRY_FRAME_SENTINEL then Some (hs, vm)
          else do { (more_hs, vm) \<leftarrow> collect_handlers n (i64_as_usize sfp) vm; Some (hs @ more_hs, vm) })
   }"

primrec run_curtailment_blocks :: "unwind_env \<Rightarrow> oop list \<Rightarrow> ivm \<Rightarrow> ivm option" where
  "run_curtailment_blocks env [] vm = Some vm"
| "run_curtailment_blocks env (h # hs) vm = do {
     vm \<leftarrow> (case closure_try_from (iv_objs vm) h of Some c \<Rightarrow> run_block_to_completion env c vm | None \<Rightarrow> Some vm);
     run_curtailment_blocks env hs vm
   }"

definition run_curtailment_blocks_on_error :: "unwind_env \<Rightarrow> ivm \<Rightarrow> ivm option" where
  "run_curtailment_blocks_on_error env vm =
     (if iv_curtailing vm then Some vm
      else do {
        let vm = vm\<lparr>iv_curtailing := True\<rparr>;
        let fp = ps_fp (iv_stack vm);
        (hs, vm) \<leftarrow> (if fp = SENTINEL_FP then Some ([], vm) else collect_handlers (Suc (stack_capacity (iv_stack vm))) fp vm);
        vm \<leftarrow> run_curtailment_blocks env hs vm;
        Some (vm\<lparr>iv_curtailing := False\<rparr>)
      })"

end
