(* ===== verification/Unwind_Sound.thy ===== *)
theory Unwind_Sound
  imports Unwind
begin

text \<open>
  Non-local returns run every armed handler between the block and its home, innermost first and each once, and then deliver their value to the caller of the home.
  A handler's body is guest code: it is an argument, constrained to what a running activation can do to the frames below it.
\<close>

subsection \<open>What a frame holds\<close>

record fview =
  fv_argc :: nat
  fv_ntemps :: nat
  fv_sfp :: int
  fv_sbci :: nat
  fv_serial :: u32

definition view_frame :: "ivm \<Rightarrow> nat \<Rightarrow> fview option" where
  "view_frame vm fp = do {
     (_, m) \<leftarrow> frame_method (iv_objs vm) (iv_stack vm) fp;
     ac \<leftarrow> argc m;
     nt \<leftarrow> ntemps m;
     sfp \<leftarrow> saved_fp (iv_stack vm) fp;
     b \<leftarrow> saved_bci (iv_stack vm) fp;
     s \<leftarrow> frame_serial (iv_stack vm) fp;
     Some \<lparr>fv_argc = ac, fv_ntemps = nt, fv_sfp = sfp, fv_sbci = b, fv_serial = s\<rparr>
   }"

lemma view_frame_eq_Some:
  "view_frame vm fp = Some v \<longleftrightarrow> (\<exists>mo m. frame_method (iv_objs vm) (iv_stack vm) fp = Some (mo, m) \<and> argc m = Some (fv_argc v) \<and> ntemps m = Some (fv_ntemps v) \<and>
     saved_fp (iv_stack vm) fp = Some (fv_sfp v) \<and> saved_bci (iv_stack vm) fp = Some (fv_sbci v) \<and> frame_serial (iv_stack vm) fp = Some (fv_serial v))"
  by (cases v) (auto simp: view_frame_def bind_eq_Some_conv split: prod.splits)

text \<open>
  Guest code may change what arrays and contexts hold and may count invocations in a method's header; a method keeps its flags and a closure
  is never changed.
\<close>

definition kept :: "objects \<Rightarrow> objects \<Rightarrow> bool" where
  "kept objs objs' \<longleftrightarrow> (\<forall>o1 x. objs o1 = Some x \<longrightarrow>
     (case x of MethodObj m \<Rightarrow> (\<exists>m'. objs' o1 = Some (MethodObj m') \<and> m_flags m' = m_flags m)
      | ClosureObj c \<Rightarrow> objs' o1 = Some (ClosureObj c)
      | ArrayObj xs \<Rightarrow> (\<exists>ys. objs' o1 = Some (ArrayObj ys))
      | _ \<Rightarrow> True))"

definition agrees :: "nat \<Rightarrow> ivm \<Rightarrow> ivm \<Rightarrow> bool" where
  "agrees n vm vm' \<longleftrightarrow> length (ps_slots (iv_stack vm')) = length (ps_slots (iv_stack vm)) \<and>
     (\<forall>i < n. ps_slots (iv_stack vm') ! i = ps_slots (iv_stack vm) ! i) \<and> iv_nil vm' = iv_nil vm \<and> kept (iv_objs vm) (iv_objs vm')"

lemma kept_refl [simp]: "kept objs objs"
  by (auto simp: kept_def split: heap_obj.splits)

lemma kept_trans: "kept objs objs' \<Longrightarrow> kept objs' objs'' \<Longrightarrow> kept objs objs''"
proof -
  assume k: "kept objs objs'" "kept objs' objs''"
  have "case x of MethodObj m \<Rightarrow> (\<exists>m'. objs'' o1 = Some (MethodObj m') \<and> m_flags m' = m_flags m)
      | ClosureObj c \<Rightarrow> objs'' o1 = Some (ClosureObj c) | ArrayObj xs \<Rightarrow> (\<exists>ys. objs'' o1 = Some (ArrayObj ys)) | _ \<Rightarrow> True" if "objs o1 = Some x" for o1 x
    using k(1) [unfolded kept_def, rule_format, OF that] k(2) [unfolded kept_def, rule_format, of o1] by (cases x) auto
  then show ?thesis by (simp add: kept_def)
qed

lemma kept_extend: "(\<And>o1 x. objs o1 = Some x \<Longrightarrow> objs' o1 = Some x) \<Longrightarrow> kept objs objs'"
  by (auto simp: kept_def split: heap_obj.splits)

lemma agree_refl [simp]: "agrees n vm vm"
  by (simp add: agrees_def)

lemma agree_trans: "agrees n vm vm' \<Longrightarrow> agrees m vm' vm'' \<Longrightarrow> k \<le> n \<Longrightarrow> k \<le> m \<Longrightarrow> agrees k vm vm''"
  by (auto simp: agrees_def intro: kept_trans)

lemma agree_less: "agrees n vm vm' \<Longrightarrow> k \<le> n \<Longrightarrow> agrees k vm vm'"
  by (auto simp: agrees_def)

lemma agree_get: "agrees n vm vm' \<Longrightarrow> i < n \<Longrightarrow> stack_get (iv_stack vm') i = stack_get (iv_stack vm) i"
  by (auto simp: agrees_def stack_get_def slice_get_def)

lemma kept_method: "kept objs objs' \<Longrightarrow> method_try_from objs o1 = Some (mo, m) \<Longrightarrow> \<exists>m'. method_try_from objs' o1 = Some (mo, m') \<and> m_flags m' = m_flags m"
  by (fastforce simp: kept_def method_try_from_def mem_obj_def split: if_splits option.splits heap_obj.splits)

lemma kept_closure: "kept objs objs' \<Longrightarrow> closure_try_from objs o1 = Some cl \<Longrightarrow> closure_try_from objs' o1 = Some cl"
  by (fastforce simp: kept_def closure_try_from_def mem_obj_def split: if_splits option.splits heap_obj.splits)

lemma kept_array: "kept objs objs' \<Longrightarrow> array_try_from objs o1 = Some (o2, xs) \<Longrightarrow> \<exists>ys. array_try_from objs' o1 = Some (o2, ys)"
  by (fastforce simp: kept_def array_try_from_def mem_obj_def split: if_splits option.splits heap_obj.splits)

lemma array_not_closure: "array_try_from objs o1 = Some xs \<Longrightarrow> closure_try_from objs o1 = None"
  by (auto simp: closure_try_from_def array_try_from_def split: option.splits heap_obj.splits)

lemma flags_same:
  assumes "m_flags m' = m_flags m"
  shows "argc m' = argc m" "ntemps m' = ntemps m" "captures_ctx m' = captures_ctx m"
  using assms by (simp_all add: argc_def ntemps_def captures_ctx_def flags_value_def)

lemma kept_block_ready: "kept objs objs' \<Longrightarrow> block_ready objs cl ac nt \<Longrightarrow> block_ready objs' cl ac nt"
proof -
  assume k: "kept objs objs'" and r: "block_ready objs cl ac nt"
  then obtain bo blk where b: "closure_method objs (snd cl) = Some (bo, blk)" by (auto simp: block_ready_def split: option.splits)
  then obtain blk' where b': "closure_method objs' (snd cl) = Some (bo, blk')" "m_flags blk' = m_flags blk"
    using kept_method [OF k, of "co_method (snd cl)" bo blk] by (auto simp: closure_method_def)
  then show ?thesis using r b kept_closure [OF k] by (simp add: block_ready_def flags_same [OF b'(2)])
qed

lemma view_agree:
  assumes "agrees n vm vm'" "fp + 7 \<le> n" "view_frame vm fp = Some v"
  shows "view_frame vm' fp = Some v"
proof -
  note g = agree_get [OF assms(1)]
  obtain mo m where m: "frame_method (iv_objs vm) (iv_stack vm) fp = Some (mo, m)" "argc m = Some (fv_argc v)" "ntemps m = Some (fv_ntemps v)"
    and s: "saved_fp (iv_stack vm) fp = Some (fv_sfp v)" "saved_bci (iv_stack vm) fp = Some (fv_sbci v)" "frame_serial (iv_stack vm) fp = Some (fv_serial v)"
    using assms(3) by (auto simp: view_frame_eq_Some)
  obtain o1 where o1: "stack_get (iv_stack vm) fp = Some o1" "method_try_from (iv_objs vm) o1 = Some (mo, m)"
    using m(1) by (auto simp: frame_method_def FRAME_METHOD_def bind_eq_Some_conv)
  obtain m' where m': "frame_method (iv_objs vm') (iv_stack vm') fp = Some (mo, m')" "m_flags m' = m_flags m"
    using assms(1,2) g [of fp] kept_method [OF _ o1(2), of "iv_objs vm'"] o1(1)
    by (auto simp: frame_method_def FRAME_METHOD_def agrees_def)
  have "saved_fp (iv_stack vm') fp = Some (fv_sfp v)" "saved_bci (iv_stack vm') fp = Some (fv_sbci v)" "frame_serial (iv_stack vm') fp = Some (fv_serial v)"
    using s assms(2) g [of "fp + 1"] g [of "fp + 2"] g [of "fp + 5"]
    by (simp_all add: saved_fp_def saved_bci_def frame_serial_def serial_word_def smi_slot_def frame_slot_defs)
  with m m' show ?thesis by (simp add: view_frame_eq_Some flags_same [OF m'(2)])
qed

lemma classify_agree:
  assumes "agrees n vm vm'" "fp + 7 \<le> n"
  shows "classify_marker vm fp = Some NoMarker \<Longrightarrow> classify_marker vm' fp = Some NoMarker"
    "classify_marker vm fp = Some (Handler cl) \<Longrightarrow> classify_marker vm' fp = Some (Handler cl)"
    "classify_marker vm fp = Some (Token (t, xs)) \<Longrightarrow> \<exists>ys. classify_marker vm' fp = Some (Token (t, ys)) \<and> array_try_from (iv_objs vm') t = Some (t, ys)"
proof -
  have g: "marker (iv_stack vm') fp = marker (iv_stack vm) fp"
    using agree_get [OF assms(1), of "fp + 6"] assms(2) by (simp add: marker_def FRAME_MARKER_def)
  have k: "kept (iv_objs vm) (iv_objs vm')" and nil1: "iv_nil vm' = iv_nil vm" using assms(1) by (auto simp: agrees_def)
  show "classify_marker vm fp = Some NoMarker \<Longrightarrow> classify_marker vm' fp = Some NoMarker"
    using g nil1 by (auto simp: classify_marker_def bind_eq_Some_conv split: if_splits option.splits)
  show "classify_marker vm' fp = Some (Handler cl)" if h: "classify_marker vm fp = Some (Handler cl)"
  proof -
    obtain m where "marker (iv_stack vm) fp = Some m" "m \<noteq> iv_nil vm" "closure_try_from (iv_objs vm) m = Some cl"
      using h by (auto simp: classify_marker_def bind_eq_Some_conv split: if_splits option.splits)
    then show ?thesis using g nil1 kept_closure [OF k, of m cl] by (simp add: classify_marker_def)
  qed
  assume "classify_marker vm fp = Some (Token (t, xs))"
  then obtain m where m: "marker (iv_stack vm) fp = Some m" "m \<noteq> iv_nil vm" "array_try_from (iv_objs vm) m = Some (t, xs)"
    by (auto simp: classify_marker_def bind_eq_Some_conv split: if_splits option.splits)
  have "t = m" using m(3) by (auto simp: array_try_from_def split: option.splits heap_obj.splits)
  with m kept_array [OF k m(3)] g nil1
  show "\<exists>ys. classify_marker vm' fp = Some (Token (t, ys)) \<and> array_try_from (iv_objs vm') t = Some (t, ys)"
    by (auto simp: classify_marker_def array_not_closure)
qed

subsection \<open>The frames between a block and its home\<close>

text \<open>\<open>path vm fs h\<close>: the saved frame pointers lead through \<open>fs\<close> to \<open>h\<close>, and no two frames overlap.\<close>

primrec path :: "ivm \<Rightarrow> nat list \<Rightarrow> nat \<Rightarrow> bool" where
  "path vm [] h \<longleftrightarrow> (\<exists>v. view_frame vm h = Some v \<and> h + 7 + fv_ntemps v \<le> length (ps_slots (iv_stack vm)))"
| "path vm (f # fs) h \<longleftrightarrow> (\<exists>v w. view_frame vm f = Some v \<and> view_frame vm (hd (fs @ [h])) = Some w \<and> fv_sfp v = int (hd (fs @ [h])) \<and>
     hd (fs @ [h]) + 7 + fv_ntemps w + fv_argc v + 1 \<le> f \<and> f + 7 + fv_ntemps v \<le> length (ps_slots (iv_stack vm))) \<and> path vm fs h"

definition armed :: "ivm \<Rightarrow> nat list \<Rightarrow> (oop \<times> closure_obj) list" where
  "armed vm fs = concat (map (\<lambda>f. case classify_marker vm f of Some (Handler cl) \<Rightarrow> [cl] | _ \<Rightarrow> []) fs)"

text \<open>Every marker is one of the three, and an armed handler is a block of no arguments whose frame fits.\<close>

definition marker_ok :: "ivm \<Rightarrow> nat \<Rightarrow> bool" where
  "marker_ok vm f \<longleftrightarrow> (case classify_marker vm f of None \<Rightarrow> False
     | Some (Handler cl) \<Rightarrow> (\<exists>v nt. view_frame vm f = Some v \<and> block_ready (iv_objs vm) cl 0 nt \<and>
         f + 7 + fv_ntemps v + 1 + 7 + nt \<le> length (ps_slots (iv_stack vm)))
     | _ \<Rightarrow> True)"

lemma armed_simps [simp]:
  "armed vm [] = []" "armed vm (f # fs) = (case classify_marker vm f of Some (Handler cl) \<Rightarrow> [cl] | _ \<Rightarrow> []) @ armed vm fs"
  "armed vm (fs @ gs) = armed vm fs @ armed vm gs"
  by (simp_all add: armed_def)

lemma path_append: "path vm (gs @ fs) h \<Longrightarrow> path vm fs h"
  by (induction gs) auto

lemma path_above:
  assumes "path vm fs h" "view_frame vm h = Some w" "f \<in> set fs"
  shows "h + 7 + fv_ntemps w + 1 \<le> f"
  using assms
proof (induction fs arbitrary: f)
  case (Cons g gs)
  show ?case
  proof (cases "gs = []")
    case False
    then have "hd gs \<in> set gs" by simp
    then have "h + 7 + fv_ntemps w + 1 \<le> hd gs" using Cons.IH [of "hd gs"] Cons.prems by auto
    then show ?thesis using Cons.IH [of f] Cons.prems False by auto
  qed (use Cons in auto)
qed simp

lemma path_hd: "path vm fs h \<Longrightarrow> f \<in> set (fs @ [h]) \<Longrightarrow> f \<le> hd (fs @ [h]) \<and> hd (fs @ [h]) + 7 \<le> length (ps_slots (iv_stack vm))"
proof (induction fs arbitrary: f)
  case (Cons g gs)
  then have "\<And>x. x \<in> set (gs @ [h]) \<Longrightarrow> x \<le> hd (gs @ [h])" by auto
  then show ?case using Cons.prems by fastforce
qed auto

lemma path_view: "path vm fs h \<Longrightarrow> f \<in> set (fs @ [h]) \<Longrightarrow> \<exists>v. view_frame vm f = Some v \<and> f + 7 + fv_ntemps v \<le> length (ps_slots (iv_stack vm))"
  by (induction fs) auto

lemma path_length: "path vm fs h \<Longrightarrow> length fs + h \<le> hd (fs @ [h])"
  by (induction fs) auto

lemma path_agree:
  assumes "agrees n vm vm'"
  shows "path vm fs h \<Longrightarrow> \<forall>f \<in> set (fs @ [h]). f + 7 \<le> n \<Longrightarrow> path vm' fs h"
proof (induction fs)
  case Nil
  then show ?case using view_agree [OF assms, of h] assms by (auto simp: agrees_def)
next
  case (Cons f fs)
  have "hd (fs @ [h]) \<in> set (fs @ [h])" by (cases fs) auto
  then show ?case using Cons view_agree [OF assms, of f] view_agree [OF assms, of "hd (fs @ [h])"] assms by (fastforce simp: agrees_def)
qed

lemma classify_agree_ok:
  assumes "agrees n vm vm'" "f + 7 \<le> n" "marker_ok vm f"
  shows "marker_ok vm' f" "armed vm' [f] = armed vm [f]"
proof -
  obtain c where c: "classify_marker vm f = Some c" using assms(3) by (auto simp: marker_ok_def split: option.splits)
  have k: "kept (iv_objs vm) (iv_objs vm')" "length (ps_slots (iv_stack vm')) = length (ps_slots (iv_stack vm))" using assms(1) by (auto simp: agrees_def)
  show "marker_ok vm' f" "armed vm' [f] = armed vm [f]"
    using c assms(3) classify_agree [OF assms(1,2)] view_agree [OF assms(1,2)] kept_block_ready [OF k(1)] k(2)
    by (cases c; fastforce simp: marker_ok_def split: prod.splits)+
qed

lemma markers_agree:
  assumes "agrees n vm vm'" "\<forall>f \<in> set fs. f + 7 \<le> n \<and> marker_ok vm f"
  shows "(\<forall>f \<in> set fs. marker_ok vm' f) \<and> armed vm' fs = armed vm fs"
  using assms(2) classify_agree_ok [OF assms(1)] by (induction fs) auto

text \<open>An index of the stack survives the round trip through a tagged link.\<close>

definition STACK_LIMIT :: nat where "STACK_LIMIT = 2 ^ 61"

lemma i64_as_usize_int: "n < STACK_LIMIT \<Longrightarrow> i64_as_usize (int n) = n"
  by (simp add: i64_as_usize_def STACK_LIMIT_def)

lemma scan_none:
  assumes "length (ps_slots (iv_stack vm)) \<le> STACK_LIMIT"
  shows "path vm fs h \<Longrightarrow> \<forall>f \<in> set fs. marker_ok vm f \<Longrightarrow> armed vm fs = [] \<Longrightarrow> length fs < n \<Longrightarrow>
    innermost_marked_frame n vm (hd (fs @ [h])) h = Some ReachedHome"
proof (induction fs arbitrary: n)
  case Nil
  then show ?case by (cases n) auto
next
  case (Cons f fs)
  obtain k where n: "n = Suc k" using Cons.prems(4) by (cases n) auto
  obtain w where w: "view_frame vm h = Some w" using path_view [OF Cons.prems(1), of h] by auto
  have "f \<noteq> h" using path_above [OF Cons.prems(1) w, of f] by simp
  moreover obtain c where "classify_marker vm f = Some c" "\<And>cl. c \<noteq> Handler cl"
    using Cons.prems(2,3) by (auto simp: marker_ok_def split: option.splits marker_class.splits)
  moreover have "saved_fp (iv_stack vm) f = Some (int (hd (fs @ [h])))" using Cons.prems(1) by (auto simp: view_frame_eq_Some)
  moreover have "hd (fs @ [h]) < STACK_LIMIT" using assms path_hd [of vm fs h] Cons.prems(1) by force
  moreover have "innermost_marked_frame k vm (hd (fs @ [h])) h = Some ReachedHome" using Cons n by auto
  ultimately show ?case by (cases c) (auto simp: n ENTRY_FRAME_SENTINEL_def i64_as_usize_int)
qed

lemma scan_handler:
  assumes "length (ps_slots (iv_stack vm)) \<le> STACK_LIMIT"
  shows "path vm fs h \<Longrightarrow> \<forall>f \<in> set fs. marker_ok vm f \<Longrightarrow> armed vm fs = cl # rest \<Longrightarrow> length fs < n \<Longrightarrow>
    \<exists>gs f fs'. fs = gs @ f # fs' \<and> classify_marker vm f = Some (Handler cl) \<and> armed vm fs' = rest \<and>
      innermost_marked_frame n vm (hd (fs @ [h])) h = Some (Marked f cl)"
proof (induction fs arbitrary: n)
  case (Cons f fs)
  obtain k where n: "n = Suc k" using Cons.prems(4) by (cases n) auto
  obtain w where w: "view_frame vm h = Some w" using path_view [OF Cons.prems(1), of h] by auto
  have ne: "f \<noteq> h" using path_above [OF Cons.prems(1) w, of f] by simp
  obtain c where c: "classify_marker vm f = Some c" using Cons.prems(2) by (auto simp: marker_ok_def split: option.splits)
  show ?case
  proof (cases "\<exists>x. c = Handler x")
    case True
    then show ?thesis using Cons.prems(3) c ne n by (intro exI [of _ "[]"] exI [of _ f] exI [of _ fs]) auto
  next
    case False
    then have "armed vm fs = cl # rest" using Cons.prems(3) c by (cases c) auto
    then obtain gs g fs' where ih: "fs = gs @ g # fs'" "classify_marker vm g = Some (Handler cl)" "armed vm fs' = rest"
        "innermost_marked_frame k vm (hd (fs @ [h])) h = Some (Marked g cl)"
      using Cons.IH [of k] Cons.prems n by auto
    have "saved_fp (iv_stack vm) f = Some (int (hd (fs @ [h])))" using Cons.prems(1) by (auto simp: view_frame_eq_Some)
    moreover have "hd (fs @ [h]) < STACK_LIMIT" using assms path_hd [of vm fs h] Cons.prems(1) by force
    ultimately have "innermost_marked_frame n vm (hd ((f # fs) @ [h])) h = Some (Marked g cl)"
      using False c ne ih(4) by (cases c) (auto simp: n ENTRY_FRAME_SENTINEL_def i64_as_usize_int)
    then show ?thesis using ih by (intro exI [of _ "f # gs"] exI [of _ g] exI [of _ fs']) auto
  qed
qed simp

lemma frame_walk_reaches:
  assumes "length (ps_slots (iv_stack vm)) \<le> STACK_LIMIT"
  shows "path vm (gs @ fs) h \<Longrightarrow> length gs < n \<Longrightarrow> walk_to_frame n vm (hd (gs @ fs @ [h])) (hd (fs @ [h])) = Some ()"
proof (induction gs arbitrary: n)
  case Nil
  then show ?case by (cases n) auto
next
  case (Cons g gs)
  obtain k where n: "n = Suc k" using Cons.prems(2) by (cases n) auto
  have "saved_fp (iv_stack vm) g = Some (int (hd (gs @ fs @ [h])))" using Cons.prems(1) by (auto simp: view_frame_eq_Some)
  moreover have "hd (gs @ fs @ [h]) < STACK_LIMIT" using assms path_hd [of vm "gs @ fs" h] Cons.prems(1) by force
  moreover have "walk_to_frame k vm (hd (gs @ fs @ [h])) (hd (fs @ [h])) = Some ()" using Cons n by auto
  ultimately show ?case by (auto simp: n ENTRY_FRAME_SENTINEL_def i64_as_usize_int)
qed

lemma pop_frames_above_spec:
  assumes "length (ps_slots (iv_stack vm)) \<le> STACK_LIMIT" "path vm (gs @ fs) h" "ps_fp (iv_stack vm) = hd (gs @ fs @ [h])"
    "view_frame vm (hd (fs @ [h])) = Some v"
  shows "pop_frames_above (hd (fs @ [h])) vm = Some (vm\<lparr>iv_stack := (iv_stack vm)\<lparr>ps_fp := hd (fs @ [h]), ps_has_frame := True,
    ps_sp := hd (fs @ [h]) + 7 + fv_ntemps v\<rparr>\<rparr>)"
proof -
  have "hd (gs @ fs @ [h]) + 7 \<le> length (ps_slots (iv_stack vm))" using path_hd [OF assms(2), of h] by simp
  then have "length gs < Suc (stack_capacity (iv_stack vm))" using path_length [OF assms(2)] by (simp add: stack_capacity_def)
  from frame_walk_reaches [OF assms(1,2) this] show ?thesis
    using assms(3,4) by (auto simp: pop_frames_above_def view_frame_eq_Some activate_frame_def FRAME_TEMPS_BASE_def Let_def simp del: walk_to_frame.simps)
qed

subsection \<open>Activating a handler\<close>

lemma set_marker_spec:
  assumes "serial_word st f = Some w" "f + 7 \<le> length (ps_slots st)"
  shows "\<exists>s. set_marker f m Ensure st = Some (st\<lparr>ps_slots := (ps_slots st)[f + 5 := s, f + 6 := m]\<rparr>) \<and> is_smi s \<and> smi_value s = take_bit 32 w"
proof -
  obtain s where s: "smi_new (take_bit 32 w) = Some s" "is_smi s" "smi_value s = take_bit 32 w"
    using smi_new_small [of "take_bit 32 w"] take_bit_int_less_exp [of 32 w] by auto
  then show ?thesis using assms by (auto simp: set_marker_def serial_mask stack_set_def frame_slot_defs Let_def)
qed

lemma view_marked:
  assumes "view_frame vm f = Some v" "serial_word (iv_stack vm) f = Some w"
    and len: "length (ps_slots (iv_stack vm')) = length (ps_slots (iv_stack vm))"
    and low: "\<And>i. i < f + 5 \<Longrightarrow> ps_slots (iv_stack vm') ! i = ps_slots (iv_stack vm) ! i" and k: "kept (iv_objs vm) (iv_objs vm')"
    and s: "stack_get (iv_stack vm') (f + 5) = Some s" "is_smi s" "take_bit 32 (smi_value s) = take_bit 32 w"
  shows "view_frame vm' f = Some v"
proof -
  have g: "stack_get (iv_stack vm') i = stack_get (iv_stack vm) i" if "i < f + 5" for i
    using len low [OF that] by (simp add: stack_get_def slice_get_def)
  obtain mo m where m: "frame_method (iv_objs vm) (iv_stack vm) f = Some (mo, m)" "argc m = Some (fv_argc v)" "ntemps m = Some (fv_ntemps v)"
    and r: "saved_fp (iv_stack vm) f = Some (fv_sfp v)" "saved_bci (iv_stack vm) f = Some (fv_sbci v)" "frame_serial (iv_stack vm) f = Some (fv_serial v)"
    using assms(1) by (auto simp: view_frame_eq_Some)
  obtain o1 where o1: "stack_get (iv_stack vm) f = Some o1" "method_try_from (iv_objs vm) o1 = Some (mo, m)"
    using m(1) by (auto simp: frame_method_def FRAME_METHOD_def bind_eq_Some_conv)
  obtain m' where m': "frame_method (iv_objs vm') (iv_stack vm') f = Some (mo, m')" "m_flags m' = m_flags m"
    using g [of f] kept_method [OF k o1(2)] o1(1) by (auto simp: frame_method_def FRAME_METHOD_def)
  have "fv_serial v = word_of_int (take_bit 32 w)" using r(3) assms(2) by (simp add: frame_serial_def serial_mask)
  then have "frame_serial (iv_stack vm') f = Some (fv_serial v)"
    using s by (simp add: frame_serial_def serial_word_def smi_slot_def serial_mask FRAME_SERIAL_def smi_try_from_def)
  moreover have "saved_fp (iv_stack vm') f = Some (fv_sfp v)" "saved_bci (iv_stack vm') f = Some (fv_sbci v)"
    using r g [of "f + 1"] g [of "f + 2"] by (simp_all add: saved_fp_def saved_bci_def smi_slot_def frame_slot_defs)
  ultimately show ?thesis using m m' by (simp add: view_frame_eq_Some flags_same [OF m'(2)])
qed

lemma alloc_unwind_token_spec:
  assumes "pack_home_ref home = Some hs" "iv_free vm = a # rest" "free_ok vm" "ps_has_frame (iv_stack vm)"
    and m: "frame_method (iv_objs vm) (iv_stack vm) (ps_fp (iv_stack vm)) = Some (mo, m)" "ntemps m = Some nt"
    and sp: "ps_sp (iv_stack vm) = ps_fp (iv_stack vm) + 7 + nt" "ps_sp (iv_stack vm) < length (ps_slots (iv_stack vm))"
  shows "alloc_unwind_token home v vm = Some (a, vm\<lparr>iv_stack := (iv_stack vm)\<lparr>ps_slots := (ps_slots (iv_stack vm))[ps_sp (iv_stack vm) := v]\<rparr>,
    iv_objs := (iv_objs vm)(a \<mapsto> ArrayObj [hs, v]), iv_free := rest\<rparr>)"
proof -
  let ?st = "iv_stack vm" and ?objs = "(iv_objs vm)(a \<mapsto> ArrayObj [iv_nil vm, iv_nil vm])"
  obtain o1 where o1: "ps_fp ?st < length (ps_slots ?st)" "ps_slots ?st ! ps_fp ?st = o1" "method_try_from (iv_objs vm) o1 = Some (mo, m)"
    using m(1) by (auto simp: frame_method_def FRAME_METHOD_def stack_get_def slice_get_def bind_eq_Some_conv split: if_splits)
  have "iv_objs vm o2 = Some x \<Longrightarrow> ?objs o2 = Some x" for o2 x using assms(2,3) by (auto simp: free_ok_def)
  then have "method_try_from ?objs o1 = Some (mo, m)" using objs_extend(1) [of "iv_objs vm" ?objs] o1(3) by blast
  moreover have "?st\<lparr>ps_slots := xs, ps_sp := ps_sp ?st\<rparr> = ?st\<lparr>ps_slots := xs\<rparr>" for xs by simp
  moreover have "(ps_slots ?st)[ps_sp ?st := v] ! ps_fp ?st = o1" "6 + (ps_fp ?st + nt) < ps_sp ?st" using sp(1) o1(2) by simp_all
  ultimately show ?thesis
    using assms(1-4) m(2) sp(2) o1 by (simp add: sp(1) [symmetric] alloc_unwind_token_def vm_push_def on_stack_def stack_push_def try_push_def alloc_object_def stack_pop_def ntemps_at_fp_def
        stack_get_def slice_get_def frame_slot_defs put_obj_def Let_def)
qed

subsection \<open>One step of the unwinding\<close>

text \<open>A frame whose return delivers to its caller, the caller's bytecode resumed at an ordinary index, or ends the run.\<close>

definition plain_return :: "ivm \<Rightarrow> nat \<Rightarrow> bool" where
  "plain_return vm h \<longleftrightarrow> (\<exists>w. view_frame vm h = Some w \<and> fv_argc w + 1 \<le> h \<and>
     fv_sbci w \<notin> {BCI_RESUME_ENSURE_RET, BCI_RESUME_UNWIND, BCI_RESUME_CANNOT_RETURN} \<and>
     (fv_sfp w = ENTRY_FRAME_SENTINEL \<or> (\<exists>p u. fv_sfp w = int p \<and> view_frame vm p = Some u \<and> p + 7 + fv_argc w + 1 \<le> h)))"

text \<open>The home of a non-local return: a frame of that serial with no marker.\<close>

definition home_at :: "ivm \<Rightarrow> nat \<Rightarrow> home_ref \<Rightarrow> bool" where
  "home_at vm h home \<longleftrightarrow> hr_proc home = 0 \<and> unat (hr_fp home) = h \<and> hr_fp home \<le> HOME_REF_FP_MAX \<and> classify_marker vm h = Some NoMarker \<and>
     plain_return vm h \<and> (\<exists>w. view_frame vm h = Some w \<and> fv_serial w = hr_serial home)"

text \<open>A non-local return under way: the frames \<open>fs\<close>, the innermost of them active, are still above the home \<open>h\<close>.\<close>

definition unwinding :: "ivm \<Rightarrow> nat list \<Rightarrow> nat \<Rightarrow> home_ref \<Rightarrow> bool" where
  "unwinding vm fs h home \<longleftrightarrow> ps_fp (iv_stack vm) = hd (fs @ [h]) \<and> path vm fs h \<and> (\<forall>f \<in> set fs. marker_ok vm f) \<and> home_at vm h home \<and>
     h + 6 < ps_sp (iv_stack vm) \<and> length (ps_slots (iv_stack vm)) \<le> STACK_LIMIT \<and> free_ok vm"

text \<open>The handler \<open>cl\<close>, armed on the frame \<open>f\<close>, is running; the frames \<open>fs\<close> are to be unwound after it.\<close>

definition in_handler :: "ivm \<Rightarrow> nat \<Rightarrow> nat list \<Rightarrow> nat \<Rightarrow> home_ref \<Rightarrow> oop \<Rightarrow> oop \<times> closure_obj \<Rightarrow> bool" where
  "in_handler vm f fs h home v cl \<longleftrightarrow> (\<exists>nf w t hs H. view_frame vm f = Some nf \<and> H = f + 8 + fv_ntemps nf \<and> ps_fp (iv_stack vm) = H \<and>
     H + 7 \<le> length (ps_slots (iv_stack vm)) \<and>
     view_frame vm H = Some w \<and> fv_argc w = 0 \<and> fv_sfp w = int f \<and> fv_sbci w = BCI_RESUME_UNWIND \<and> classify_marker vm H = Some NoMarker \<and>
     stack_get (iv_stack vm) (H - 1) = Some (fst cl) \<and> classify_marker vm f = Some (Token (t, [hs, v])) \<and> pack_home_ref home = Some hs) \<and>
     path vm (f # fs) h \<and> (\<forall>g \<in> set fs. marker_ok vm g) \<and> home_at vm h home \<and>
     length (ps_slots (iv_stack vm)) \<le> STACK_LIMIT \<and> free_ok vm"

lemma plain_return_agree:
  assumes "agrees n vm vm'" "h \<le> n" "plain_return vm h" "view_frame vm' h = view_frame vm h"
  shows "plain_return vm' h"
proof -
  obtain w where w: "view_frame vm h = Some w" "fv_argc w + 1 \<le> h" "fv_sbci w \<notin> {BCI_RESUME_ENSURE_RET, BCI_RESUME_UNWIND, BCI_RESUME_CANNOT_RETURN}"
    and p: "fv_sfp w = ENTRY_FRAME_SENTINEL \<or> (\<exists>p u. fv_sfp w = int p \<and> view_frame vm p = Some u \<and> p + 7 + fv_argc w + 1 \<le> h)"
    using assms(3) unfolding plain_return_def by blast
  have "view_frame vm' p = Some u" if "view_frame vm p = Some u" "p + 7 \<le> h" for p u using view_agree [OF assms(1) _ that(1)] that(2) assms(2) by simp
  then have "fv_sfp w = ENTRY_FRAME_SENTINEL \<or> (\<exists>p u. fv_sfp w = int p \<and> view_frame vm' p = Some u \<and> p + 7 + fv_argc w + 1 \<le> h)"
    using p by (metis add.assoc le_add1 le_trans)
  with w assms(4) show ?thesis unfolding plain_return_def by metis
qed

lemma home_at_agree:
  assumes "agrees n vm vm'" "h + 7 \<le> n" "home_at vm h home"
  shows "home_at vm' h home"
proof -
  obtain w where w: "view_frame vm h = Some w" "fv_serial w = hr_serial home" "plain_return vm h" "classify_marker vm h = Some NoMarker"
    using assms(3) by (auto simp: home_at_def)
  have v: "view_frame vm' h = Some w" using view_agree [OF assms(1,2) w(1)] .
  show ?thesis using assms(2,3) v w plain_return_agree [OF assms(1) _ w(3)] classify_agree(1) [OF assms(1,2) w(4)] by (simp add: home_at_def)
qed

lemma home_live:
  assumes "home_at vm h home" "h + 6 < ps_sp (iv_stack vm)"
  shows "home_is_live vm home"
proof -
  obtain w where "view_frame vm h = Some w" "fv_serial w = hr_serial home" using assms(1) by (auto simp: home_at_def)
  then have "frame_serial (iv_stack vm) h = Some (hr_serial home)" by (auto simp: view_frame_eq_Some)
  then show ?thesis using assms
    by (auto simp: home_is_live_def home_at_def frame_serial_def serial_word_def bind_eq_Some_conv frame_slot_defs)
qed

lemma not_sentinel_fp:
  assumes "path vm fs h" "length (ps_slots (iv_stack vm)) \<le> STACK_LIMIT"
  shows "hd (fs @ [h]) \<noteq> SENTINEL_FP"
proof -
  have "hd (fs @ [h]) \<in> set (fs @ [h])" by (cases fs) auto
  then have "hd (fs @ [h]) < STACK_LIMIT" using path_hd [OF assms(1)] assms(2) by fastforce
  then show ?thesis by (simp add: SENTINEL_FP_def i64_as_usize_def ENTRY_FRAME_SENTINEL_def STACK_LIMIT_def)
qed

text \<open>The machine when the handler of frame \<open>f\<close> is about to be activated: the token on \<open>f\<close>, the handler pushed.\<close>

lemma handler_pushed:
  assumes len: "length (ps_slots (iv_stack vm)) \<le> STACK_LIMIT" and p: "path vm (gs @ f # fs) h" and fp: "ps_fp (iv_stack vm) = hd ((gs @ f # fs) @ [h])"
    and nf: "view_frame vm f = Some nf" "f + 8 + fv_ntemps nf \<le> length (ps_slots (iv_stack vm))"
    and hs: "pack_home_ref home = Some hs" and free: "iv_free vm = a # rest" "free_ok vm"
  shows "\<exists>vm'. (do {
      vm \<leftarrow> pop_frames_above f vm;
      (token, vm) \<leftarrow> alloc_unwind_token home v vm;
      vm \<leftarrow> on_stack (set_marker f token Ensure) vm;
      vm_push co vm }) = Some vm' \<and>
    ps_fp (iv_stack vm') = f \<and> ps_sp (iv_stack vm') = f + 8 + fv_ntemps nf \<and> agrees f vm vm' \<and> view_frame vm' f = Some nf \<and>
    classify_marker vm' f = Some (Token (a, [hs, v])) \<and> ps_slots (iv_stack vm') ! (f + 7 + fv_ntemps nf) = co \<and> iv_free vm' = rest \<and> free_ok vm' \<and>
    iv_next_serial vm' = iv_next_serial vm \<and> (\<forall>o1 x. iv_objs vm o1 = Some x \<longrightarrow> iv_objs vm' o1 = Some x)"
proof -
  let ?nt = "fv_ntemps nf" and ?sl = "ps_slots (iv_stack vm)"
  let ?objs = "(iv_objs vm)(a \<mapsto> ArrayObj [hs, v])"
  define vm1 where "vm1 = vm\<lparr>iv_stack := (iv_stack vm)\<lparr>ps_fp := f, ps_has_frame := True, ps_sp := f + 7 + ?nt\<rparr>\<rparr>"
  have pop: "pop_frames_above f vm = Some vm1"
    using pop_frames_above_spec [OF len, of gs "f # fs" h nf] p fp nf(1) by (simp add: vm1_def)
  obtain mo m where m: "frame_method (iv_objs vm) (iv_stack vm) f = Some (mo, m)" "ntemps m = Some ?nt" using nf(1) by (auto simp: view_frame_eq_Some)
  obtain w where w: "serial_word (iv_stack vm) f = Some w" using nf(1) by (auto simp: view_frame_eq_Some frame_serial_def bind_eq_Some_conv)
  define vm2 where "vm2 = vm1\<lparr>iv_stack := (iv_stack vm1)\<lparr>ps_slots := ?sl[f + 7 + ?nt := v]\<rparr>, iv_objs := ?objs, iv_free := rest\<rparr>"
  have tok: "alloc_unwind_token home v vm1 = Some (a, vm2)"
    using alloc_unwind_token_spec [OF hs, of vm1 a rest mo m ?nt v] free m nf(2) by (simp add: vm1_def vm2_def free_ok_def)
  have "?sl[f + 7 + ?nt := v] ! (f + 5) = ?sl ! (f + 5)" by simp
  then have "serial_word (iv_stack vm2) f = Some w"
    using w by (simp add: vm2_def vm1_def serial_word_def smi_slot_def stack_get_def slice_get_def FRAME_SERIAL_def split: if_splits)
  from set_marker_spec [OF this, of a] nf(2)
  obtain s where s: "set_marker f a Ensure (iv_stack vm2) = Some ((iv_stack vm2)\<lparr>ps_slots := (ps_slots (iv_stack vm2))[f + 5 := s, f + 6 := a]\<rparr>)"
    "is_smi s" "smi_value s = take_bit 32 w"
    by (auto simp: vm2_def vm1_def)
  define sl where "sl = ?sl[f + 7 + ?nt := v, f + 5 := s, f + 6 := a, f + 7 + ?nt := co]"
  define vm' where "vm' = vm2\<lparr>iv_stack := (iv_stack vm2)\<lparr>ps_slots := sl, ps_sp := f + 8 + ?nt\<rparr>\<rparr>"
  have run: "(do { vm \<leftarrow> pop_frames_above f vm; (token, vm) \<leftarrow> alloc_unwind_token home v vm; vm \<leftarrow> on_stack (set_marker f token Ensure) vm; vm_push co vm }) = Some vm'"
    using pop tok s(1) nf(2) by (simp add: on_stack_def vm_push_def stack_push_def try_push_def vm'_def sl_def) (simp add: vm2_def vm1_def)
  have sl: "length sl = length ?sl" "\<And>i. i < f + 5 \<Longrightarrow> sl ! i = ?sl ! i" "sl ! (f + 5) = s" "sl ! (f + 6) = a" "sl ! (f + 7 + ?nt) = co"
    using nf(2) by (simp_all add: sl_def)
  have st: "ps_slots (iv_stack vm') = sl" "iv_objs vm' = ?objs" "iv_nil vm' = iv_nil vm" "iv_free vm' = rest" "ps_fp (iv_stack vm') = f"
    "ps_sp (iv_stack vm') = f + 8 + ?nt" "iv_next_serial vm' = iv_next_serial vm"
    by (simp_all add: vm'_def vm2_def vm1_def)
  have ext: "iv_objs vm o1 = Some x \<Longrightarrow> iv_objs vm' o1 = Some x" for o1 x using free by (auto simp: free_ok_def st)
  then have k: "kept (iv_objs vm) (iv_objs vm')" by (rule kept_extend)
  have "agrees f vm vm'" using k sl by (simp add: agrees_def st)
  moreover have "view_frame vm' f = Some nf"
    using view_marked [OF nf(1) w, of vm' s] k sl s nf(2) by (simp add: st stack_get_def slice_get_def)
  moreover have "classify_marker vm' f = Some (Token (a, [hs, v]))"
    using sl nf(2) free by (simp add: classify_marker_def marker_def stack_get_def slice_get_def FRAME_MARKER_def st closure_try_from_def array_try_from_def mem_obj_def free_ok_def)
  moreover have "free_ok vm'" using free by (auto simp: free_ok_def st)
  ultimately show ?thesis using run st sl ext by blast
qed

lemma resume_bci_smi: "\<exists>s. smi_new (usize_as_i64 BCI_RESUME_UNWIND) = Some s \<and> is_smi s \<and> smi_value s = 2147418114"
  "\<exists>s. smi_new (usize_as_i64 BCI_RESUME_ENSURE_RET) = Some s \<and> is_smi s \<and> smi_value s = 2147418113"
  using smi_new_small [of 2147418114] smi_new_small [of 2147418113]
  by (simp_all add: usize_as_i64_def BCI_RESUME_UNWIND_def BCI_RESUME_ENSURE_RET_def I64_MAX_def)

lemma index_smi: "n < STACK_LIMIT \<Longrightarrow> \<exists>s. smi_new (usize_as_i64 n) = Some s \<and> is_smi s \<and> smi_value s = int n"
  using smi_new_small [of "int n"] by (simp add: usize_as_i64_def STACK_LIMIT_def I64_MAX_def)

text \<open>The frame of a block that was just activated.\<close>

lemma activated_view:
  assumes fits1: "fits (7 + length temps) st" and m: "method_try_from (iv_objs vm) bo = Some (bo, blk)" "argc blk = Some ac" "ntemps blk = Some (length temps)"
    and s: "is_smi s1" "is_smi s2" "is_smi s3" "smi_value s3 = uint serial"
    and vm: "iv_stack vm = with_frame bo s1 s2 ctx rcv s3 (iv_nil vm) temps st"
  shows "view_frame vm (ps_sp st) = Some \<lparr>fv_argc = ac, fv_ntemps = length temps, fv_sfp = smi_value s1, fv_sbci = i64_as_usize (smi_value s2), fv_serial = serial\<rparr>"
    "classify_marker vm (ps_sp st) = Some NoMarker"
proof -
  note w = with_frame_words [OF fits1, where mo = bo and ?s1.0 = s1 and ?s2.0 = s2 and ctx = ctx and rcv = rcv and ?s3.0 = s3 and mk = "iv_nil vm"]
  have "take_bit 32 (uint serial) = uint serial" using uint_lt2p [of serial] by (simp add: take_bit_int_eq_self)
  then have "word_of_int (smi_value s3 AND FRAME_SERIAL_MASK) = serial" by (simp add: serial_mask s(4))
  then show "view_frame vm (ps_sp st) = Some \<lparr>fv_argc = ac, fv_ntemps = length temps, fv_sfp = smi_value s1, fv_sbci = i64_as_usize (smi_value s2), fv_serial = serial\<rparr>"
    using w with_frame_method [OF fits1 m(1)] m s(1-3)
    by (simp add: view_frame_def vm saved_fp_def saved_bci_def frame_serial_def serial_word_def smi_slot_def frame_slot_defs smi_try_from_def)
  show "classify_marker vm (ps_sp st) = Some NoMarker" using w(7) by (simp add: classify_marker_def marker_def vm FRAME_MARKER_def)
qed

lemma path_below:
  assumes "path vm (f # fs) h" "g \<in> set (fs @ [h])"
  shows "g + 7 \<le> f"
proof -
  have "g \<le> hd (fs @ [h])" "hd (fs @ [h]) + 7 \<le> f" using path_hd [of vm fs h g] assms by auto
  then show ?thesis by simp
qed

text \<open>A frame that only changed its marker still heads the same path.\<close>

lemma path_remarked:
  assumes "path vm (f # fs) h" "agrees f vm vm'" "view_frame vm' f = view_frame vm f"
  shows "path vm' (f # fs) h"
proof -
  have "path vm' fs h" using path_agree [OF assms(2)] assms(1) path_below [OF assms(1)] by simp
  moreover have hd1: "hd (fs @ [h]) \<in> set (fs @ [h])" by (cases fs) auto
  moreover have "view_frame vm' (hd (fs @ [h])) = Some w" if "view_frame vm (hd (fs @ [h])) = Some w" for w
    using view_agree [OF assms(2) path_below [OF assms(1) hd1] that] .
  ultimately show ?thesis using assms by (fastforce simp: agrees_def)
qed

lemma handler_activated:
  assumes u: "unwinding vm fs h home" and a: "armed vm fs = cl # rest" and free: "2 \<le> length (iv_free vm)" and ser: "iv_next_serial vm + 1 \<noteq> 0"
    and vh: "view_frame vm h = Some vh"
  shows "\<exists>vm' f fs'. continue_unwind env rec1 home v closure vm = Some (RanHandler, vm') \<and> in_handler vm' f fs' h home v cl \<and> armed vm' fs' = rest \<and>
    agrees (h + 7 + fv_ntemps vh) vm vm' \<and> length (iv_free vm) \<le> length (iv_free vm') + 2 \<and> iv_next_serial vm' = iv_next_serial vm + 1"
proof -
  have fp: "ps_fp (iv_stack vm) = hd (fs @ [h])" and p: "path vm fs h" and mk: "\<forall>f \<in> set fs. marker_ok vm f" and hm: "home_at vm h home"
    and sp: "h + 6 < ps_sp (iv_stack vm)" and len: "length (ps_slots (iv_stack vm)) \<le> STACK_LIMIT" and fo: "free_ok vm"
    using u by (simp_all add: unwinding_def)
  have "length fs < Suc (stack_capacity (iv_stack vm))"
    using path_length [OF p] path_hd [OF p, of h] by (simp add: stack_capacity_def)
  from scan_handler [OF len p mk a this] obtain gs f fs' where fs: "fs = gs @ f # fs'" "classify_marker vm f = Some (Handler cl)" "armed vm fs' = rest"
    and scan: "innermost_marked_frame (Suc (stack_capacity (iv_stack vm))) vm (ps_fp (iv_stack vm)) h = Some (Marked f cl)" unfolding fp by blast
  have "marker_ok vm f" using mk fs(1) by simp
  then obtain nf nt where nf: "view_frame vm f = Some nf" "block_ready (iv_objs vm) cl 0 nt" "f + 7 + fv_ntemps nf + 1 + 7 + nt \<le> length (ps_slots (iv_stack vm))"
    using fs(2) by (auto simp: marker_ok_def)
  obtain hs where hs: "pack_home_ref home = Some hs" using pack_home_ref_eq hm by (auto simp: home_at_def)
  obtain t free' where t: "iv_free vm = t # free'" "free' \<noteq> []" using free by (cases "iv_free vm"; cases "tl (iv_free vm)") auto
  have "path vm (gs @ f # fs') h" "ps_fp (iv_stack vm) = hd ((gs @ f # fs') @ [h])" "f + 8 + fv_ntemps nf \<le> length (ps_slots (iv_stack vm))"
    using p fp fs(1) nf(3) by simp_all
  from handler_pushed [OF len this(1,2) nf(1) this(3) hs t(1) fo, of v "fst cl"]
  obtain vm1 where run: "(do { vm \<leftarrow> pop_frames_above f vm; (token, vm) \<leftarrow> alloc_unwind_token home v vm; vm \<leftarrow> on_stack (set_marker f token Ensure) vm; vm_push (fst cl) vm }) = Some vm1"
    and v1: "ps_fp (iv_stack vm1) = f" "ps_sp (iv_stack vm1) = f + 8 + fv_ntemps nf" "agrees f vm vm1" "view_frame vm1 f = Some nf"
      "classify_marker vm1 f = Some (Token (t, [hs, v]))" "ps_slots (iv_stack vm1) ! (f + 7 + fv_ntemps nf) = fst cl" "iv_free vm1 = free'" "free_ok vm1"
      "iv_next_serial vm1 = iv_next_serial vm" "\<And>o1 x. iv_objs vm o1 = Some x \<Longrightarrow> iv_objs vm1 o1 = Some x"
    by blast
  let ?H = "f + 8 + fv_ntemps nf"
  have len1: "length (ps_slots (iv_stack vm1)) = length (ps_slots (iv_stack vm))" using v1(3) by (simp add: agrees_def)
  have br: "block_ready (iv_objs vm1) cl 0 nt" using kept_block_ready [OF kept_extend nf(2)] v1(10) by blast
  obtain s1 where s1: "smi_new (usize_as_i64 f) = Some s1" "is_smi s1" "smi_value s1 = int f" using index_smi [of f] nf(3) len by auto
  obtain s2 where s2: "smi_new (usize_as_i64 BCI_RESUME_UNWIND) = Some s2" "is_smi s2" "smi_value s2 = 2147418114" using resume_bci_smi by blast
  let ?vm1 = "vm1\<lparr>iv_bci := BCI_RESUME_UNWIND\<rparr>"
  obtain co c where cl: "cl = (co, c)" by (cases cl)
  have stk: "iv_stack ?vm1 = iv_stack vm1" by simp
  have "ps_sp (iv_stack vm1) - 0 - 1 = f + 7 + fv_ntemps nf" using v1(2) by simp
  then have arg1: "ps_slots (iv_stack ?vm1) ! (ps_sp (iv_stack ?vm1) - 0 - 1) = co" using v1(6) cl by (simp only: stk fst_conv)
  have "\<exists>vm2 ctx s3 temps bo blk. stack_activate_block (co, c) 0 ?vm1 =
      Some (Activated, vm2\<lparr>iv_stack := with_frame bo s1 s2 ctx (co_copied c ! 0) s3 (iv_nil ?vm1) temps (iv_stack ?vm1)\<rparr>) \<and>
    closure_method (iv_objs ?vm1) c = Some (bo, blk) \<and> length temps = nt \<and> is_smi s3 \<and> smi_value s3 = uint (iv_next_serial ?vm1) \<and> allocates ?vm1 vm2 \<and>
    (\<exists>os fr. vm2 = ?vm1\<lparr>iv_objs := os, iv_free := fr, iv_next_serial := iv_next_serial ?vm1 + 1, iv_method := Some bo, iv_bci := 0\<rparr>)"
    by (rule activate_block_spec [OF _ _ _ arg1]) (use br nf(3) v1 s1(1) s2(1) ser t len1 in \<open>auto simp: cl fits_def free_ok_def\<close>)
  then obtain vm2 ctx s3 temps bo blk os fr where act: "stack_activate_block cl 0 ?vm1 =
      Some (Activated, vm2\<lparr>iv_stack := with_frame bo s1 s2 ctx (co_copied c ! 0) s3 (iv_nil vm1) temps (iv_stack vm1)\<rparr>)"
    and b: "closure_method (iv_objs vm1) c = Some (bo, blk)" "length temps = nt" "is_smi s3" "smi_value s3 = uint (iv_next_serial vm1)" and al: "allocates ?vm1 vm2"
    and vm2: "vm2 = vm1\<lparr>iv_bci := BCI_RESUME_UNWIND, iv_objs := os, iv_free := fr, iv_next_serial := iv_next_serial vm1 + 1, iv_method := Some bo, iv_bci := 0\<rparr>"
    by (auto simp: cl)
  define vm' where "vm' = vm2\<lparr>iv_stack := with_frame bo s1 s2 ctx (co_copied c ! 0) s3 (iv_nil vm1) temps (iv_stack vm1)\<rparr>"
  have cu: "continue_unwind env rec1 home v closure vm = Some (RanHandler, vm')"
    using run scan act not_sentinel_fp [OF p len] fp home_live [OF hm sp] hm
    by (auto simp: continue_unwind_def home_at_def vm'_def bind_eq_Some_conv simp del: innermost_marked_frame.simps split: prod.splits)
  have st': "iv_stack vm' = with_frame bo s1 s2 ctx (co_copied c ! 0) s3 (iv_nil vm') temps (iv_stack vm1)" "iv_nil vm' = iv_nil vm1" "iv_objs vm' = iv_objs vm2"
    "iv_free vm' = iv_free vm2" "iv_next_serial vm' = iv_next_serial vm1 + 1"
    by (simp_all add: vm'_def vm2)
  have al': "allocates vm1 vm'" using al st' by (simp add: allocates_def)
  have ext: "iv_objs vm1 o1 = Some x \<Longrightarrow> iv_objs vm' o1 = Some x" for o1 x using allocates_objs [OF al' v1(8)] .
  have fits1: "fits (7 + length temps) (iv_stack vm1)" using nf(3) v1(2) len1 b(2) by (simp add: fits_def)
  have ps: "ps_slots (iv_stack vm') ! i = ps_slots (iv_stack vm1) ! i" if "i < ?H" for i
    using with_frame_get(2) [OF fits1, of i] that v1(2) fits1 st'(1) by (auto simp: stack_get_def slice_get_def fits_def split: if_splits)
  have ag1: "agrees ?H vm1 vm'" using ps st' fits1 kept_extend [OF ext] by (simp add: agrees_def)
  have ag: "agrees f vm vm'" using agree_trans [OF v1(3) ag1, of f] by simp
  have vf: "view_frame vm' f = Some nf" using view_agree [OF ag1 _ v1(4)] by simp
  have mo: "method_try_from (iv_objs vm') bo = Some (bo, blk)" "argc blk = Some 0" "ntemps blk = Some (length temps)"
    using b(1,2) br objs_extend(3) [of "iv_objs vm1" "iv_objs vm'" c, OF ext] method_try_fromD [of "iv_objs vm'" "co_method c" bo blk]
    by (auto simp: block_ready_def cl closure_method_def)
  note vH = activated_view [OF fits1 mo s1(2) s2(2) b(3,4) st'(1), unfolded v1(2)]
  have tok: "classify_marker vm' f = Some (Token (t, [hs, v]))"
  proof -
    obtain ys where "classify_marker vm' f = Some (Token (t, ys))" "array_try_from (iv_objs vm') t = Some (t, ys)" using classify_agree(3) [OF ag1 _ v1(5)] by auto
    moreover have "array_try_from (iv_objs vm1) t = Some (t, [hs, v])"
      using v1(5) by (auto simp: classify_marker_def bind_eq_Some_conv array_try_from_def split: if_splits option.splits heap_obj.splits)
    then have "array_try_from (iv_objs vm') t = Some (t, [hs, v])" using ext by (auto simp: array_try_from_def mem_obj_def split: if_splits option.splits heap_obj.splits)
    ultimately show ?thesis by simp
  qed
  have arg: "stack_get (iv_stack vm') (?H - 1) = Some (fst cl)"
    using ps [of "?H - 1"] v1(6) nf(3) ag by (simp add: stack_get_def slice_get_def agrees_def ac_simps)
  have pf: "path vm (f # fs') h" using path_append [of vm gs "f # fs'" h] p fs(1) by simp
  have below: "g + 7 \<le> f" if "g \<in> set (fs' @ [h])" for g using path_below [OF pf that] .
  have "path vm' (f # fs') h" using path_remarked [OF pf ag] vf nf(1) by simp
  moreover have mk': "(\<forall>g \<in> set fs'. marker_ok vm' g) \<and> armed vm' fs' = armed vm fs'"
    using markers_agree [OF ag] below mk fs(1) by auto
  moreover have "home_at vm' h home" using home_at_agree [OF ag _ hm] below by simp
  moreover have "free_ok vm'" using allocates_free_ok [OF al' st'(2) v1(8)] .
  moreover have "length (ps_slots (iv_stack vm')) = length (ps_slots (iv_stack vm))" using ag by (simp add: agrees_def)
  ultimately have ih: "in_handler vm' f fs' h home v cl"
    using vf vH tok arg hs nf(3) len s1(3) s2(3) st'(1) v1(2)
    by (auto simp: in_handler_def BCI_RESUME_UNWIND_def i64_as_usize_def)
  have "h + 7 + fv_ntemps vh \<le> f" using path_above [OF pf vh, of f] by simp
  then show ?thesis using cu ih mk' fs(3) agree_less [OF ag] allocates_free [OF al'] v1(7,9) t(1) st'(5) by auto
qed

subsection \<open>Delivering the value\<close>

text \<open>
  The home has returned \<open>v\<close>: its caller is active where the home was called, \<open>v\<close> in the place of the receiver and the arguments, and everything below is as before;
  or the home was an entry frame and \<open>v\<close> is the result of the run.
\<close>

definition delivered :: "ivm \<Rightarrow> nat \<Rightarrow> oop \<Rightarrow> oop option \<Rightarrow> ivm \<Rightarrow> bool" where
  "delivered vm h v r vm' \<longleftrightarrow> (\<exists>w base. view_frame vm h = Some w \<and> base = h - fv_argc w - 1 \<and> agrees base vm vm' \<and>
     (if fv_sfp w = ENTRY_FRAME_SENTINEL then r = Some v \<and> ps_sp (iv_stack vm') = base \<and> \<not> ps_has_frame (iv_stack vm')
      else r = None \<and> ps_sp (iv_stack vm') = base + 1 \<and> ps_slots (iv_stack vm') ! base = v \<and> ps_has_frame (iv_stack vm') \<and>
        int (ps_fp (iv_stack vm')) = fv_sfp w \<and> iv_bci vm' = fv_sbci w \<and>
        (\<exists>mo m. frame_method (iv_objs vm') (iv_stack vm') (ps_fp (iv_stack vm')) = Some (mo, m) \<and> iv_method vm' = Some mo)))"

lemma delivered_below:
  assumes "delivered vm1 h v r vm'" "agrees n vm vm1" "h \<le> n" "view_frame vm h = Some w" "view_frame vm1 h = Some w"
  shows "delivered vm h v r vm'"
proof -
  have "agrees (h - fv_argc w - 1) vm1 vm' \<Longrightarrow> agrees (h - fv_argc w - 1) vm vm'"
    using agree_trans [OF assms(2), of "h - fv_argc w - 1" vm' "h - fv_argc w - 1"] assms(3) by simp
  then show ?thesis using assms(1,4,5) by (auto simp: delivered_def)
qed

lemma delivered_agree: "delivered vm1 h v r vm' \<Longrightarrow> agrees n vm vm1 \<Longrightarrow> h + 7 \<le> n \<Longrightarrow> view_frame vm h = Some w \<Longrightarrow> delivered vm h v r vm'"
  using delivered_below view_agree by (meson add_leD1)

lemma home_returns:
  assumes hm: "plain_return vm h" and nm: "classify_marker vm h = Some NoMarker" and fp: "ps_fp (iv_stack vm) = h" and len: "h + 7 \<le> length (ps_slots (iv_stack vm))" "length (ps_slots (iv_stack vm)) \<le> STACK_LIMIT"
  shows "\<exists>r vm'. do_return env (Suc n) vm v = Some (r, vm') \<and> delivered vm h v r vm'"
proof -
  obtain w where w: "view_frame vm h = Some w" "fv_argc w + 1 \<le> h" "fv_sbci w \<notin> {BCI_RESUME_ENSURE_RET, BCI_RESUME_UNWIND, BCI_RESUME_CANNOT_RETURN}"
    and cases: "fv_sfp w = ENTRY_FRAME_SENTINEL \<or> (\<exists>p u. fv_sfp w = int p \<and> view_frame vm p = Some u \<and> p + 7 + fv_argc w + 1 \<le> h)"
    using hm by (auto simp: plain_return_def)
  obtain mo m where m: "frame_method (iv_objs vm) (iv_stack vm) h = Some (mo, m)" "argc m = Some (fv_argc w)" "saved_fp (iv_stack vm) h = Some (fv_sfp w)"
    "saved_bci (iv_stack vm) h = Some (fv_sbci w)"
    using w(1) by (auto simp: view_frame_eq_Some)
  define base where "base = h - fv_argc w - 1"
  have base: "usize_minus h (fv_argc w) = Some (h - fv_argc w)" "usize_minus (h - fv_argc w) 1 = Some base" "base < h"
    using w(2) by (auto simp: usize_minus_def base_def)
  define vm1 where "vm1 = vm\<lparr>iv_stack := (iv_stack vm)\<lparr>ps_slots := (ps_slots (iv_stack vm))[base := v], ps_sp := base + 1\<rparr>\<rparr>"
  have ag: "agrees base vm vm1" by (simp add: agrees_def vm1_def)
  have set1: "on_stack (stack_set base v) vm = Some (vm\<lparr>iv_stack := (iv_stack vm)\<lparr>ps_slots := (ps_slots (iv_stack vm))[base := v]\<rparr>\<rparr>)"
    using base(3) len by (simp add: on_stack_def stack_set_def)
  show ?thesis
  proof (cases "fv_sfp w = ENTRY_FRAME_SENTINEL")
    case True
    let ?vm' = "vm\<lparr>iv_stack := deactivate ((iv_stack vm)\<lparr>ps_slots := (ps_slots (iv_stack vm))[base := v], ps_sp := base\<rparr>)\<rparr>"
    have "do_return env (Suc n) vm v = Some (Some v, ?vm')"
      using nm m base set1 True by (simp add: fp pop_and_deliver_def Let_def)
    moreover have "delivered vm h v (Some v) ?vm'" using True w(1) base(3) by (auto simp: delivered_def base_def deactivate_def agrees_def)
    ultimately show ?thesis by blast
  next
    case False
    then obtain p u where p: "fv_sfp w = int p" "view_frame vm p = Some u" "p + 7 + fv_argc w + 1 \<le> h" using cases by blast
    then have u: "view_frame vm1 p = Some u" using view_agree [OF ag] by (simp add: base_def)
    then obtain po pm where pm: "frame_method (iv_objs vm1) (iv_stack vm1) p = Some (po, pm)" by (auto simp: view_frame_eq_Some)
    have ip: "i64_as_usize (int p) = p" using i64_as_usize_int [of p] p(3) len by simp
    let ?vm' = "vm1\<lparr>iv_stack := activate_frame p (iv_stack vm1), iv_method := Some po, iv_bci := fv_sbci w\<rparr>"
    have "do_return env (Suc n) vm v = Some (None, ?vm')"
      using nm m base set1 False pm ip w(3) p(1) by (simp add: fp pop_and_deliver_def Let_def) (simp add: vm1_def activate_frame_def)
    moreover have "delivered vm h v None ?vm'"
      using False w(1) base(3) ag pm p(1) len by (auto simp: delivered_def base_def [symmetric] activate_frame_def agrees_def) (simp_all add: vm1_def base_def)
    ultimately show ?thesis by blast
  qed
qed

lemma unwind_delivers:
  assumes u: "unwinding vm fs h home" and a: "armed vm fs = []"
  shows "\<exists>r vm'. continue_unwind env (do_return env (Suc n)) home v closure vm = Some (ReturnedFromHome r, vm') \<and> delivered vm h v r vm'"
proof -
  have fp: "ps_fp (iv_stack vm) = hd (fs @ [h])" and p: "path vm fs h" and mk: "\<forall>f \<in> set fs. marker_ok vm f" and hm: "home_at vm h home"
    and sp: "h + 6 < ps_sp (iv_stack vm)" and len: "length (ps_slots (iv_stack vm)) \<le> STACK_LIMIT"
    using u by (simp_all add: unwinding_def)
  have l: "length fs < Suc (stack_capacity (iv_stack vm))" using path_length [OF p] path_hd [OF p, of h] by (simp add: stack_capacity_def)
  note scan = scan_none [OF len p mk a l]
  obtain w where w: "view_frame vm h = Some w" "h + 7 + fv_ntemps w \<le> length (ps_slots (iv_stack vm))" using path_view [OF p, of h] by auto
  define vm1 where "vm1 = vm\<lparr>iv_stack := (iv_stack vm)\<lparr>ps_fp := h, ps_has_frame := True, ps_sp := h + 7 + fv_ntemps w\<rparr>\<rparr>"
  have pop: "pop_frames_above h vm = Some vm1" using pop_frames_above_spec [OF len, of fs "[]" h w] p fp w by (simp add: vm1_def)
  have ag: "agrees (h + 7) vm vm1" by (simp add: agrees_def vm1_def)
  have "plain_return vm1 h" "classify_marker vm1 h = Some NoMarker" using home_at_agree [OF ag _ hm] by (simp_all add: home_at_def)
  then obtain r vm' where r: "do_return env (Suc n) vm1 v = Some (r, vm')" "delivered vm1 h v r vm'"
    using home_returns [of vm1 h env n v] w len by (auto simp: vm1_def)
  have "continue_unwind env (do_return env (Suc n)) home v closure vm = Some (ReturnedFromHome r, vm')"
    using pop scan r(1) not_sentinel_fp [OF p len] fp home_live [OF hm sp] hm
    by (auto simp: continue_unwind_def home_at_def bind_eq_Some_conv simp del: innermost_marked_frame.simps do_return.simps)
  then show ?thesis using delivered_agree [OF r(2) ag _ w(1)] by blast
qed

text \<open>
  What a handler's body may do before its frame returns: it keeps its own frame's fixed slots and everything below, and the token on the frame it was
  activated for; it uses at most \<open>B\<close> objects and frame serials.
\<close>

definition guest_ran :: "nat \<Rightarrow> ivm \<Rightarrow> ivm \<Rightarrow> bool" where
  "guest_ran B vm vm' \<longleftrightarrow> ps_fp (iv_stack vm') = ps_fp (iv_stack vm) \<and> agrees (ps_fp (iv_stack vm) + 7) vm vm' \<and>
     (\<forall>f t xs. saved_fp (iv_stack vm) (ps_fp (iv_stack vm)) = Some (int f) \<longrightarrow> classify_marker vm f = Some (Token (t, xs)) \<longrightarrow>
        iv_objs vm' t = Some (ArrayObj xs)) \<and>
     (free_ok vm \<longrightarrow> free_ok vm') \<and> length (iv_free vm) \<le> length (iv_free vm') + B \<and> unat (iv_next_serial vm') \<le> unat (iv_next_serial vm) + B"

lemma array_exact: "array_try_from objs t = Some (t', xs) \<Longrightarrow> objs' t = Some (ArrayObj ys) \<Longrightarrow> array_try_from objs' t = Some (t', ys)"
  by (auto simp: array_try_from_def mem_obj_def split: if_splits option.splits heap_obj.splits)

lemma handler_returns:
  assumes ih: "in_handler vm f fs h home v cl" and g: "guest_ran B vm vm1"
  shows "\<exists>vm2. do_return env (Suc n) vm1 x = do { (step, vm3) \<leftarrow> continue_unwind env (do_return env n) home v None vm2;
        Some (case step of ReturnedFromHome r \<Rightarrow> r | RanHandler \<Rightarrow> None | CannotReturn \<Rightarrow> None | Escaped \<Rightarrow> Some NLR_SENTINEL, vm3) } \<and>
      unwinding vm2 (f # fs) h home \<and> armed vm2 (f # fs) = armed vm fs \<and> agrees f vm vm2 \<and> iv_free vm2 = iv_free vm1 \<and> iv_next_serial vm2 = iv_next_serial vm1"
proof -
  obtain nf w t hs H where nf: "view_frame vm f = Some nf" "H = f + 8 + fv_ntemps nf" "ps_fp (iv_stack vm) = H" "H + 7 \<le> length (ps_slots (iv_stack vm))"
    and w: "view_frame vm H = Some w" "fv_argc w = 0" "fv_sfp w = int f" "fv_sbci w = BCI_RESUME_UNWIND" "classify_marker vm H = Some NoMarker"
    and tok: "classify_marker vm f = Some (Token (t, [hs, v]))" "pack_home_ref home = Some hs"
    using ih by (auto simp: in_handler_def)
  have pth: "path vm (f # fs) h" and mk: "\<forall>g \<in> set fs. marker_ok vm g" and hm: "home_at vm h home" and len: "length (ps_slots (iv_stack vm)) \<le> STACK_LIMIT"
    and fo: "free_ok vm" using ih by (simp_all add: in_handler_def)
  have ag: "agrees (H + 7) vm vm1" and fp1: "ps_fp (iv_stack vm1) = H" and fo1: "free_ok vm1" using g fo nf(3) by (simp_all add: guest_ran_def)
  have len1: "length (ps_slots (iv_stack vm1)) = length (ps_slots (iv_stack vm))" using ag by (simp add: agrees_def)
  have "saved_fp (iv_stack vm) H = Some (int f)" using w by (auto simp: view_frame_eq_Some)
  then have t1: "iv_objs vm1 t = Some (ArrayObj [hs, v])" using g tok(1) nf(3) by (simp add: guest_ran_def)
  have w1: "view_frame vm1 H = Some w" "classify_marker vm1 H = Some NoMarker" using view_agree [OF ag _ w(1)] classify_agree(1) [OF ag _ w(5)] by simp_all
  obtain mo m where m: "frame_method (iv_objs vm1) (iv_stack vm1) H = Some (mo, m)" "argc m = Some 0" "saved_fp (iv_stack vm1) H = Some (int f)"
    "saved_bci (iv_stack vm1) H = Some BCI_RESUME_UNWIND"
    using w1(1) w by (auto simp: view_frame_eq_Some)
  define sl where "sl = (ps_slots (iv_stack vm1))[H - 1 := x]"
  define va where "va = vm1\<lparr>iv_stack := (iv_stack vm1)\<lparr>ps_slots := sl, ps_sp := H - 1, ps_fp := f, ps_has_frame := True\<rparr>\<rparr>"
  define vm2 where "vm2 = va\<lparr>iv_stack := (iv_stack va)\<lparr>ps_slots := sl[f + 6 := iv_nil vm1]\<rparr>\<rparr>"
  have aga: "agrees (f + 7) vm va" using agree_less [OF ag, of "f + 7"] nf(2) by (auto simp: agrees_def va_def sl_def)
  have ta: "classify_marker va f = Some (Token (t, [hs, v]))"
  proof -
    obtain ys where "classify_marker va f = Some (Token (t, ys))" "array_try_from (iv_objs va) t = Some (t, ys)" using classify_agree(3) [OF aga _ tok(1)] by auto
    then show ?thesis using t1 by (auto simp: va_def array_try_from_def mem_obj_def split: if_splits)
  qed
  have fl: "f < STACK_LIMIT" "f + 7 \<le> length sl" "H - 1 < length sl" "0 < H" using nf len len1 by (simp_all add: sl_def)
  have hh: "is_smi hs" "unpack_home_ref hs = home"
  proof -
    have "hs = push_bit 2 (home_ref_raw home)" using tok(2) pack_home_ref_eq [of home] hm by (simp add: home_at_def)
    then show "is_smi hs" "unpack_home_ref hs = home" using unpack_pack_home_ref [of home] hm smi_tag_is_smi [of "home_ref_raw home"]
      by (simp_all add: home_at_def SMI_SHIFT_def)
  qed
  have run: "do_return env (Suc n) vm1 x = do { (step, vm3) \<leftarrow> continue_unwind env (do_return env n) home v None vm2;
        Some (case step of ReturnedFromHome r \<Rightarrow> r | RanHandler \<Rightarrow> None | CannotReturn \<Rightarrow> None | Escaped \<Rightarrow> Some NLR_SENTINEL, vm3) }"
  proof -
    have us: "usize_minus H 0 = Some H" "usize_minus H 1 = Some (H - 1)" "usize_minus (Suc (H - 1)) 1 = Some (H - 1)" "H - 1 + 1 = H"
      using fl(4) by (simp_all add: usize_minus_def)
    have nb: "BCI_RESUME_UNWIND \<noteq> BCI_RESUME_ENSURE_RET" by (simp add: BCI_RESUME_UNWIND_def BCI_RESUME_ENSURE_RET_def)
    have set1: "on_stack (stack_set (H - 1) x) vm1 = Some (vm1\<lparr>iv_stack := (iv_stack vm1)\<lparr>ps_slots := sl\<rparr>\<rparr>)"
      using fl(3) by (simp add: on_stack_def stack_set_def sl_def)
    have alt: "va\<lparr>iv_stack := (iv_stack va)\<lparr>ps_sp := H\<rparr>\<rparr> =
        vm1\<lparr>iv_stack := (iv_stack vm1)\<lparr>ps_slots := sl, ps_sp := H, ps_fp := f, ps_has_frame := True\<rparr>\<rparr>"
      by (cases "iv_stack vm1") (simp add: va_def)
    have "do_return env (Suc n) vm1 x = resume_unwind env (do_return env n) (va\<lparr>iv_stack := (iv_stack va)\<lparr>ps_sp := H\<rparr>\<rparr>)"
      using w1(2) m us set1 nb by (simp add: fp1 pop_and_deliver_def Let_def ENTRY_FRAME_SENTINEL_def i64_as_usize_int [OF fl(1)] activate_frame_def alt)
    moreover have "on_stack (clear_marker f (iv_nil vm1)) va = Some vm2"
      using fl(2) by (simp add: on_stack_def clear_marker_def stack_set_def FRAME_MARKER_def va_def vm2_def)
    moreover have "va\<lparr>iv_stack := (iv_stack va)\<lparr>ps_sp := H - 1\<rparr>\<rparr> = va" "ps_fp (iv_stack va) = f" "iv_nil va = iv_nil vm1" by (simp_all add: va_def)
    ultimately show ?thesis
      using ta hh us(2) by (simp add: resume_unwind_def Let_def slice_get_def smi_try_from_def)
  qed
  have st2: "ps_slots (iv_stack vm2) = sl[f + 6 := iv_nil vm1]" "iv_objs vm2 = iv_objs vm1" "iv_nil vm2 = iv_nil vm1" "ps_fp (iv_stack vm2) = f" "ps_sp (iv_stack vm2) = H - 1"
    "iv_free vm2 = iv_free vm1" "iv_next_serial vm2 = iv_next_serial vm1"
    by (simp_all add: vm2_def va_def)
  have low: "ps_slots (iv_stack vm2) ! i = ps_slots (iv_stack vm) ! i" if "i < f + 6" for i
    using ag that nf(2) by (simp add: st2 sl_def agrees_def)
  have ag2: "agrees f vm vm2" using low ag len1 by (simp add: agrees_def st2 sl_def)
  obtain s where s: "stack_get (iv_stack vm) (f + 5) = Some s" "is_smi s"
    using nf(1) by (auto simp: view_frame_eq_Some frame_serial_def serial_word_def smi_slot_def smi_try_from_def FRAME_SERIAL_def bind_eq_Some_conv split: if_splits)
  have l2: "length (ps_slots (iv_stack vm2)) = length (ps_slots (iv_stack vm))" using len1 by (simp add: st2 sl_def)
  have "stack_get (iv_stack vm2) (f + 5) = Some s" using s(1) low [of "f + 5"] l2 by (simp add: stack_get_def slice_get_def split: if_splits)
  moreover have "serial_word (iv_stack vm) f = Some (smi_value s)" using s by (simp add: serial_word_def smi_slot_def smi_try_from_def FRAME_SERIAL_def)
  moreover have "kept (iv_objs vm) (iv_objs vm2)" using ag2 by (simp add: agrees_def)
  ultimately have vf: "view_frame vm2 f = Some nf" using view_marked [OF nf(1) _ l2, of "smi_value s" s] low s(2) by simp
  have cf: "classify_marker vm2 f = Some NoMarker"
    using fl(2) by (simp add: classify_marker_def marker_def stack_get_def slice_get_def FRAME_MARKER_def st2)
  have "path vm2 (f # fs) h" using path_remarked [OF pth ag2] vf nf(1) by simp
  moreover have below: "g \<in> set (fs @ [h]) \<Longrightarrow> g + 7 \<le> f" for g using path_below [OF pth] .
  have mk2: "(\<forall>g \<in> set fs. marker_ok vm2 g) \<and> armed vm2 fs = armed vm fs" using markers_agree [OF ag2] below mk by auto
  moreover have "home_at vm2 h home" using home_at_agree [OF ag2 _ hm] below by simp
  moreover have "free_ok vm2" using fo1 by (simp add: free_ok_def st2)
  ultimately have "unwinding vm2 (f # fs) h home"
    using cf l2 len below [of h] nf(2) by (simp add: unwinding_def st2(4,5) marker_ok_def)
  then show ?thesis using run mk2 cf ag2 st2(6,7) by auto
qed

subsection \<open>The whole unwinding\<close>

text \<open>A handler's frame at its start.\<close>

definition resuming :: "ivm \<Rightarrow> bool" where
  "resuming vm \<longleftrightarrow> (\<exists>w. view_frame vm (ps_fp (iv_stack vm)) = Some w \<and> fv_sbci w \<in> {BCI_RESUME_UNWIND, BCI_RESUME_ENSURE_RET} \<and>
     classify_marker vm (ps_fp (iv_stack vm)) = Some NoMarker)"

definition handler_body :: "nat \<Rightarrow> (ivm \<Rightarrow> ivm \<times> oop) \<Rightarrow> bool" where
  "handler_body B body \<longleftrightarrow> (\<forall>vm. resuming vm \<longrightarrow> guest_ran B vm (fst (body vm)))"

text \<open>
  \<open>k\<close> times: the active handler's body runs, then its frame returns what the body answered. Logged is the closure in the receiver slot of each active frame.
\<close>

primrec run_handlers :: "unwind_env \<Rightarrow> nat \<Rightarrow> (ivm \<Rightarrow> ivm \<times> oop) \<Rightarrow> nat \<Rightarrow> oop option \<times> ivm \<Rightarrow> (oop list \<times> oop option \<times> ivm) option" where
  "run_handlers env n body 0 s = Some ([], s)"
| "run_handlers env n body (Suc k) s = do {
     slot \<leftarrow> receiver_slot (iv_objs (snd s)) (iv_stack (snd s)) (ps_fp (iv_stack (snd s)));
     c \<leftarrow> stack_get (iv_stack (snd s)) slot;
     let (vm, x) = body (snd s);
     s \<leftarrow> do_return env n vm x;
     (cs, s) \<leftarrow> run_handlers env n body k s;
     Some (c # cs, s)
   }"

definition budget :: "nat \<Rightarrow> ivm \<Rightarrow> bool" where
  "budget k vm \<longleftrightarrow> k \<le> length (iv_free vm) \<and> unat (iv_next_serial vm) + k < 2 ^ 32"

lemma budget_serial: "budget k vm \<Longrightarrow> 0 < k \<Longrightarrow> iv_next_serial vm + 1 \<noteq> 0 \<and> unat (iv_next_serial vm + 1) = unat (iv_next_serial vm) + 1"
proof -
  assume "budget k vm" "0 < k"
  then have "unat (iv_next_serial vm) + 1 < 2 ^ 32" by (simp add: budget_def)
  then have "unat (iv_next_serial vm + 1) = unat (iv_next_serial vm) + 1" by (subst unat_add_lem [THEN iffD1]) simp_all
  then show ?thesis by force
qed

lemma handler_step:
  assumes body: "handler_body B body" and ih: "in_handler vm f fs h home v cl" and a: "armed vm fs = rest" and b: "budget (length rest * (B + 2) + B) vm"
  shows "\<exists>vm1 x vm2. body vm = (vm1, x) \<and> do_return env (Suc (Suc n)) vm1 x = do { (step, vm3) \<leftarrow> continue_unwind env (do_return env (Suc n)) home v None vm2;
        Some (case step of ReturnedFromHome r \<Rightarrow> r | RanHandler \<Rightarrow> None | CannotReturn \<Rightarrow> None | Escaped \<Rightarrow> Some NLR_SENTINEL, vm3) } \<and>
      unwinding vm2 (f # fs) h home \<and> armed vm2 (f # fs) = rest \<and> agrees f vm vm2 \<and> budget (length rest * (B + 2)) vm2 \<and> h + 7 \<le> f \<and>
      (\<exists>w. view_frame vm h = Some w \<and> view_frame vm2 h = Some w) \<and>
      (\<exists>slot. receiver_slot (iv_objs vm) (iv_stack vm) (ps_fp (iv_stack vm)) = Some slot \<and> stack_get (iv_stack vm) slot = Some (fst cl))"
proof -
  obtain vm1 x where x: "body vm = (vm1, x)" by (cases "body vm")
  obtain w H where w: "view_frame vm H = Some w" "fv_argc w = 0" "ps_fp (iv_stack vm) = H" "stack_get (iv_stack vm) (H - 1) = Some (fst cl)" "0 < H" "resuming vm"
    and pth: "path vm (f # fs) h"
    using ih by (auto simp: in_handler_def resuming_def)
  have g: "guest_ran B vm vm1" using body w(6) x by (auto simp: handler_body_def dest: spec [of _ vm])
  from handler_returns [OF ih g, of env "Suc n" x]
  obtain vm2 where vm2: "do_return env (Suc (Suc n)) vm1 x = do { (step, vm3) \<leftarrow> continue_unwind env (do_return env (Suc n)) home v None vm2;
      Some (case step of ReturnedFromHome r \<Rightarrow> r | RanHandler \<Rightarrow> None | CannotReturn \<Rightarrow> None | Escaped \<Rightarrow> Some NLR_SENTINEL, vm3) }"
    "unwinding vm2 (f # fs) h home" "armed vm2 (f # fs) = rest" "agrees f vm vm2" "iv_free vm2 = iv_free vm1" "iv_next_serial vm2 = iv_next_serial vm1"
    using a by blast
  have bd: "budget (length rest * (B + 2)) vm2" using b g vm2(5,6) by (simp add: budget_def guest_ran_def)
  have hf: "h + 7 \<le> f" using path_below [OF pth, of h] by simp
  obtain vh where vh: "view_frame vm h = Some vh" using path_view [OF pth, of h] by auto
  have "receiver_slot (iv_objs vm) (iv_stack vm) H = Some (H - 1)"
    using w(1,2,5) by (auto simp: receiver_slot_def view_frame_eq_Some usize_minus_def)
  then show ?thesis using x vm2(1-4) bd hf w(3,4) vh view_agree [OF vm2(4) hf vh] by auto
qed

lemma handlers_run:
  assumes body: "handler_body B body"
  shows "in_handler vm f fs h home v cl \<Longrightarrow> armed vm fs = rest \<Longrightarrow> budget (length rest * (B + 2) + B) vm \<Longrightarrow>
    \<exists>r vm'. run_handlers env (Suc (Suc n)) body (Suc (length rest)) (r0, vm) = Some (map fst (cl # rest), r, vm') \<and> delivered vm h v r vm'"
proof (induction "length rest" arbitrary: vm f fs cl rest r0)
  case 0
  from handler_step [OF body 0(2,3,4)] obtain vm1 x vm2 w slot where s: "body vm = (vm1, x)"
    "do_return env (Suc (Suc n)) vm1 x = do { (step, vm3) \<leftarrow> continue_unwind env (do_return env (Suc n)) home v None vm2;
        Some (case step of ReturnedFromHome r \<Rightarrow> r | RanHandler \<Rightarrow> None | CannotReturn \<Rightarrow> None | Escaped \<Rightarrow> Some NLR_SENTINEL, vm3) }"
    "unwinding vm2 (f # fs) h home" "armed vm2 (f # fs) = rest" "agrees f vm vm2" "h + 7 \<le> f" "view_frame vm h = Some w"
    "receiver_slot (iv_objs vm) (iv_stack vm) (ps_fp (iv_stack vm)) = Some slot" "stack_get (iv_stack vm) slot = Some (fst cl)" by blast
  have "armed vm2 (f # fs) = []" using s(4) 0(1) by simp
  from unwind_delivers [OF s(3) this, of env n v None]
  obtain r vm' where r: "continue_unwind env (do_return env (Suc n)) home v None vm2 = Some (ReturnedFromHome r, vm')" "delivered vm2 h v r vm'" by blast
  then have "do_return env (Suc (Suc n)) vm1 x = Some (r, vm')" using s(2) by simp
  then show ?case using s(1,8,9) 0(1) delivered_agree [OF r(2) s(5,6,7)] by simp
next
  case (Suc k)
  obtain c rest' where rest: "rest = c # rest'" "k = length rest'" using Suc(2) by (cases rest) auto
  from handler_step [OF body Suc(3,4,5)] obtain vm1 x vm2 w slot where s: "body vm = (vm1, x)"
    "do_return env (Suc (Suc n)) vm1 x = do { (step, vm3) \<leftarrow> continue_unwind env (do_return env (Suc n)) home v None vm2;
        Some (case step of ReturnedFromHome r \<Rightarrow> r | RanHandler \<Rightarrow> None | CannotReturn \<Rightarrow> None | Escaped \<Rightarrow> Some NLR_SENTINEL, vm3) }"
    "unwinding vm2 (f # fs) h home" "armed vm2 (f # fs) = rest" "agrees f vm vm2" "h + 7 \<le> f" "view_frame vm h = Some w" "view_frame vm2 h = Some w"
    "receiver_slot (iv_objs vm) (iv_stack vm) (ps_fp (iv_stack vm)) = Some slot" "stack_get (iv_stack vm) slot = Some (fst cl)"
    and bd: "budget (length rest * (B + 2)) vm2" by blast
  have free2: "2 \<le> length (iv_free vm2)" and ser2: "iv_next_serial vm2 + 1 \<noteq> 0" "unat (iv_next_serial vm2 + 1) = unat (iv_next_serial vm2) + 1"
    using bd budget_serial [OF bd] by (simp_all add: budget_def rest)
  from handler_activated [OF s(3) s(4) [unfolded rest(1)] free2 ser2(1) s(8), of env "do_return env (Suc n)" v None]
  obtain vm3 f' fs' where v3: "continue_unwind env (do_return env (Suc n)) home v None vm2 = Some (RanHandler, vm3)" "in_handler vm3 f' fs' h home v c"
    "armed vm3 fs' = rest'" "agrees (h + 7 + fv_ntemps w) vm2 vm3" "length (iv_free vm2) \<le> length (iv_free vm3) + 2" "iv_next_serial vm3 = iv_next_serial vm2 + 1"
    by blast
  have "budget (length rest' * (B + 2) + B) vm3" using bd v3(5,6) ser2(2) by (simp add: budget_def rest algebra_simps)
  from Suc(1) [OF rest(2) v3(2,3) this, of None]
  obtain r vm' where r: "run_handlers env (Suc (Suc n)) body (Suc (length rest')) (None, vm3) = Some (map fst (c # rest'), r, vm')" "delivered vm3 h v r vm'" by blast
  have "delivered vm h v r vm'" using delivered_agree [OF delivered_agree [OF r(2) v3(4) _ s(8)] s(5,6,7)] by simp
  moreover have d: "do_return env (Suc (Suc n)) vm1 x = Some (None, vm3)" using s(2) v3(1) by simp
  have "run_handlers env (Suc (Suc n)) body (Suc (Suc (length rest'))) (r0, vm) = Some (fst cl # map fst (c # rest'), r, vm')"
    unfolding run_handlers.simps(2) [of _ _ _ "Suc (length rest')"] using s(1,9,10) r(1) d by (simp del: run_handlers.simps do_return.simps)
  ultimately show ?case unfolding rest(1) by auto
qed

subsection \<open>Returning from a protected block\<close>

text \<open>A frame armed with the handler \<open>cl\<close> is about to return; \<open>nt\<close> is the number of temporaries of the handler's block.\<close>

definition guarded_return :: "ivm \<Rightarrow> nat \<Rightarrow> oop \<times> closure_obj \<Rightarrow> marker_kind \<Rightarrow> bool" where
  "guarded_return vm f cl kind \<longleftrightarrow> ps_fp (iv_stack vm) = f \<and> ps_has_frame (iv_stack vm) \<and> plain_return vm f \<and> classify_marker vm f = Some (Handler cl) \<and>
     frame_marker_kind (iv_stack vm) f = Some kind \<and> length (ps_slots (iv_stack vm)) \<le> STACK_LIMIT \<and> free_ok vm \<and>
     (\<exists>w nt. view_frame vm f = Some w \<and> f + 7 + fv_ntemps w \<le> ps_sp (iv_stack vm) \<and> block_ready (iv_objs vm) cl 0 nt \<and>
        ps_sp (iv_stack vm) + 9 + nt \<le> length (ps_slots (iv_stack vm)))"

lemma cleared_marker:
  assumes "f + 7 \<le> length (ps_slots (iv_stack vm))" "view_frame vm f = Some w"
    and vm': "ps_slots (iv_stack vm') = (ps_slots (iv_stack vm))[f + 6 := iv_nil vm]" "iv_objs vm' = iv_objs vm" "iv_nil vm' = iv_nil vm"
  shows "agrees f vm vm'" "view_frame vm' f = Some w" "classify_marker vm' f = Some NoMarker"
proof -
  show "agrees f vm vm'" by (simp add: agrees_def vm')
  have "stack_get (iv_stack vm') (f + i) = stack_get (iv_stack vm) (f + i)" if "i < 6" for i
    using that by (simp add: stack_get_def slice_get_def vm')
  from this [of 0] this [of 1] this [of 2] this [of 5] show "view_frame vm' f = Some w"
    using assms(2) by (simp add: view_frame_def frame_method_def saved_fp_def saved_bci_def frame_serial_def serial_word_def smi_slot_def frame_slot_defs vm')
  show "classify_marker vm' f = Some NoMarker" using assms(1) by (simp add: classify_marker_def marker_def stack_get_def slice_get_def FRAME_MARKER_def vm')
qed

lemma curtailed_returns:
  assumes g: "guarded_return vm f cl IfCurtailed"
  shows "\<exists>r vm'. do_return env (Suc n) vm v = Some (r, vm') \<and> delivered vm f v r vm'"
proof -
  obtain w where w: "view_frame vm f = Some w" "f + 7 \<le> length (ps_slots (iv_stack vm))" and pr: "plain_return vm f"
    and h: "ps_fp (iv_stack vm) = f" "classify_marker vm f = Some (Handler cl)" "frame_marker_kind (iv_stack vm) f = Some IfCurtailed"
      "length (ps_slots (iv_stack vm)) \<le> STACK_LIMIT"
    using g by (fastforce simp: guarded_return_def)
  define vm1 where "vm1 = vm\<lparr>iv_stack := (iv_stack vm)\<lparr>ps_slots := (ps_slots (iv_stack vm))[f + 6 := iv_nil vm]\<rparr>\<rparr>"
  have v1: "ps_slots (iv_stack vm1) = (ps_slots (iv_stack vm))[f + 6 := iv_nil vm]" "iv_objs vm1 = iv_objs vm" "iv_nil vm1 = iv_nil vm" "ps_fp (iv_stack vm1) = f"
    using h(1) by (simp_all add: vm1_def)
  note c = cleared_marker [OF w(2,1) v1(1-3)]
  have "plain_return vm1 f" using plain_return_agree [OF c(1) _ pr] c(2) w(1) by simp
  from home_returns [OF this c(3) v1(4), of env n v] obtain r vm' where r: "do_return env (Suc n) vm1 v = Some (r, vm')" "delivered vm1 f v r vm'"
    using w(2) h(4) v1(1) by auto
  have "on_stack (clear_marker f (iv_nil vm)) vm = Some vm1"
    using w(2) by (simp add: on_stack_def clear_marker_def stack_set_def FRAME_MARKER_def vm1_def)
  then have "do_return env (Suc n) vm v = Some (r, vm')"
    using h r(1) c(3) v1(4) by simp
  then show ?thesis using delivered_below [OF r(2) c(1) _ w(1) c(2)] by auto
qed

lemma ensure_activates:
  assumes g: "guarded_return vm f cl Ensure" and w: "view_frame vm f = Some w" and b: "budget 1 vm"
  shows "\<exists>vm' H wh. do_return env (Suc n) vm v = Some (None, vm') \<and> H = ps_sp (iv_stack vm) + 2 \<and> ps_fp (iv_stack vm') = H \<and>
    H + 7 \<le> length (ps_slots (iv_stack vm')) \<and>
    view_frame vm' H = Some wh \<and> fv_argc wh = 0 \<and> fv_sfp wh = int f \<and> fv_sbci wh = BCI_RESUME_ENSURE_RET \<and> classify_marker vm' H = Some NoMarker \<and>
    stack_get (iv_stack vm') (H - 1) = Some (fst cl) \<and> stack_get (iv_stack vm') (H - 2) = Some v \<and> agrees f vm vm' \<and> view_frame vm' f = Some w \<and>
    classify_marker vm' f = Some NoMarker"
proof -
  obtain nt where h: "ps_fp (iv_stack vm) = f" "classify_marker vm f = Some (Handler cl)" "frame_marker_kind (iv_stack vm) f = Some Ensure"
      "length (ps_slots (iv_stack vm)) \<le> STACK_LIMIT" "free_ok vm" "f + 7 + fv_ntemps w \<le> ps_sp (iv_stack vm)" "block_ready (iv_objs vm) cl 0 nt"
      "ps_sp (iv_stack vm) + 9 + nt \<le> length (ps_slots (iv_stack vm))"
    using g w by (auto simp: guarded_return_def)
  let ?sp = "ps_sp (iv_stack vm)" and ?sl = "ps_slots (iv_stack vm)"
  define sl where "sl = ?sl[f + 6 := iv_nil vm, ?sp := v, ?sp + 1 := fst cl]"
  define vm0 where "vm0 = vm\<lparr>iv_stack := (iv_stack vm)\<lparr>ps_slots := ?sl[f + 6 := iv_nil vm]\<rparr>\<rparr>"
  define vm1 where "vm1 = vm\<lparr>iv_stack := (iv_stack vm)\<lparr>ps_slots := sl, ps_sp := ?sp + 2\<rparr>, iv_bci := BCI_RESUME_ENSURE_RET\<rparr>"
  have f7: "f + 7 \<le> length ?sl" "f + 7 \<le> ?sp" using h(6,8) by simp_all
  have v0: "ps_slots (iv_stack vm0) = ?sl[f + 6 := iv_nil vm]" "iv_objs vm0 = iv_objs vm" "iv_nil vm0 = iv_nil vm" by (simp_all add: vm0_def)
  note c0 = cleared_marker [OF f7(1) w v0]
  have v1: "ps_slots (iv_stack vm1) = sl" "iv_objs vm1 = iv_objs vm" "iv_nil vm1 = iv_nil vm" "ps_fp (iv_stack vm1) = f" "ps_sp (iv_stack vm1) = ?sp + 2"
    "iv_bci vm1 = BCI_RESUME_ENSURE_RET" "iv_next_serial vm1 = iv_next_serial vm" "iv_free vm1 = iv_free vm"
    using h(1) by (simp_all add: vm1_def)
  have len1: "length sl = length ?sl" "sl ! ?sp = v" "sl ! (?sp + 1) = fst cl" using h(8) by (simp_all add: sl_def)
  have ag01: "agrees ?sp vm0 vm1" by (simp add: agrees_def v0 v1 sl_def)
  have ser: "iv_next_serial vm1 + 1 \<noteq> 0" "iv_free vm1 \<noteq> []" "free_ok vm1" using budget_serial [OF b] b h(5) by (auto simp: v1 budget_def free_ok_def)
  obtain s1 where s1: "smi_new (usize_as_i64 (ps_fp (iv_stack vm1))) = Some s1" "is_smi s1" "smi_value s1 = int f" using index_smi [of f] h(4,8) f7 v1(4) by auto
  obtain s2 where s2: "smi_new (usize_as_i64 (iv_bci vm1)) = Some s2" "is_smi s2" "smi_value s2 = 2147418113" using resume_bci_smi(2) by (auto simp: v1)
  obtain co c where cl: "cl = (co, c)" by (cases cl)
  have arg1: "ps_slots (iv_stack vm1) ! (ps_sp (iv_stack vm1) - 0 - 1) = co" using len1(3) by (simp add: v1 cl)
  have room: "fits (7 + nt) (iv_stack vm1)" using h(8) len1(1) by (simp add: fits_def v1)
  have br: "block_ready (iv_objs vm1) (co, c) 0 nt" using h(7) by (simp add: v1 cl)
  from activate_block_spec [OF br room _ arg1 s1(1) s2(1) ser]
  obtain vm2 ctx s3 temps bo blk os fr where act: "stack_activate_block (co, c) 0 vm1 =
      Some (Activated, vm2\<lparr>iv_stack := with_frame bo s1 s2 ctx (co_copied c ! 0) s3 (iv_nil vm1) temps (iv_stack vm1)\<rparr>)"
    and bb: "closure_method (iv_objs vm1) c = Some (bo, blk)" "length temps = nt" "is_smi s3" "smi_value s3 = uint (iv_next_serial vm1)" and al: "allocates vm1 vm2"
    and vm2: "vm2 = vm1\<lparr>iv_objs := os, iv_free := fr, iv_next_serial := iv_next_serial vm1 + 1, iv_method := Some bo, iv_bci := 0\<rparr>"
    using v1(5) by auto
  define vm' where "vm' = vm2\<lparr>iv_stack := with_frame bo s1 s2 ctx (co_copied c ! 0) s3 (iv_nil vm1) temps (iv_stack vm1)\<rparr>"
  have vm1': "vm\<lparr>iv_stack := (iv_stack vm)\<lparr>ps_slots := sl, ps_sp := Suc (Suc ?sp)\<rparr>, iv_bci := BCI_RESUME_ENSURE_RET\<rparr> = vm1" by (simp add: vm1_def)
  have "on_stack (clear_marker f (iv_nil vm)) vm = Some vm0"
    using f7 by (simp add: on_stack_def clear_marker_def stack_set_def FRAME_MARKER_def vm0_def)
  moreover have "vm_push v vm0 = Some (vm0\<lparr>iv_stack := (iv_stack vm0)\<lparr>ps_slots := (ps_slots (iv_stack vm0))[?sp := v], ps_sp := ?sp + 1\<rparr>\<rparr>)"
    using h(8) by (simp add: vm_push_def on_stack_def stack_push_def try_push_def vm0_def)
  moreover have "vm_push co (vm0\<lparr>iv_stack := (iv_stack vm0)\<lparr>ps_slots := (ps_slots (iv_stack vm0))[?sp := v], ps_sp := ?sp + 1\<rparr>\<rparr>) =
      Some (vm\<lparr>iv_stack := (iv_stack vm)\<lparr>ps_slots := sl, ps_sp := ?sp + 2\<rparr>\<rparr>)"
    using h(8) by (simp add: vm_push_def on_stack_def stack_push_def try_push_def vm0_def sl_def cl)
  ultimately have ret: "do_return env (Suc n) vm v = Some (None, vm')"
    using h(1-3) act vm1' by (simp add: intercept_ensure_return_def cl vm'_def)
  have st': "iv_stack vm' = with_frame bo s1 s2 ctx (co_copied c ! 0) s3 (iv_nil vm') temps (iv_stack vm1)" "iv_nil vm' = iv_nil vm1" "iv_objs vm' = iv_objs vm2"
    "iv_free vm' = iv_free vm2"
    by (simp_all add: vm'_def vm2)
  have al': "allocates vm1 vm'" using al st' by (simp add: allocates_def)
  have ext: "iv_objs vm1 o1 = Some x \<Longrightarrow> iv_objs vm' o1 = Some x" for o1 x using allocates_objs [OF al' ser(3)] .
  have fits1: "fits (7 + length temps) (iv_stack vm1)" using room bb(2) by simp
  have l': "length (ps_slots (iv_stack vm')) = length ?sl" using st'(1) fits1 len1(1) v1(1) by simp
  have ps: "ps_slots (iv_stack vm') ! i = sl ! i" if "i < ?sp + 2" for i
    using with_frame_get(2) [OF fits1, of i] that v1(1,5) fits1 st'(1) by (auto simp: stack_get_def slice_get_def fits_def split: if_splits)
  have ag1: "agrees (?sp + 2) vm1 vm'" using ps st' l' kept_extend [OF ext] len1(1) by (simp add: agrees_def v1)
  have ag: "agrees ?sp vm0 vm'" using agree_trans [OF ag01 ag1] by simp
  have mo: "method_try_from (iv_objs vm') bo = Some (bo, blk)" "argc blk = Some 0" "ntemps blk = Some (length temps)"
    using bb(1,2) br objs_extend(3) [of "iv_objs vm1" "iv_objs vm'" c, OF ext] method_try_fromD [of "iv_objs vm'" "co_method c" bo blk]
    by (auto simp: block_ready_def closure_method_def)
  note vH = activated_view [OF fits1 mo s1(2) s2(2) bb(3,4) st'(1), unfolded v1(5)]
  have "agrees f vm vm'" using agree_trans [OF c0(1) ag, of f] f7 by simp
  moreover have "view_frame vm' f = Some w" "classify_marker vm' f = Some NoMarker"
    using view_agree [OF ag f7(2) c0(2)] classify_agree(1) [OF ag f7(2) c0(3)] by simp_all
  moreover have "stack_get (iv_stack vm') (?sp + 2 - 1) = Some (fst cl)" "stack_get (iv_stack vm') (?sp + 2 - 2) = Some v"
    using ps [of "?sp + 1"] ps [of ?sp] len1 h(8) l' by (simp_all add: stack_get_def slice_get_def)
  moreover have "ps_fp (iv_stack vm') = ?sp + 2" using st'(1) v1(5) by simp
  ultimately show ?thesis using ret vH s1(3) s2(3) h(8) l' by (auto simp: BCI_RESUME_ENSURE_RET_def i64_as_usize_def)
qed

text \<open>
  C13. A return from a protected block is delivered as if no handler were armed: \<open>ifCurtailed:\<close> disarms its handler and delivers; \<open>ensure:\<close> first activates the handler, and when its
  body returns, whatever it answers, the original value is delivered to the caller.
\<close>
theorem protected_return_transparent:
  assumes "guarded_return vm f cl kind" and "handler_body B body" and "budget 1 vm"
  shows "case kind of
      IfCurtailed \<Rightarrow> \<exists>r vm'. do_return env (Suc (Suc n)) vm v = Some (r, vm') \<and> delivered vm f v r vm'
    | Ensure \<Rightarrow> \<exists>vm1 r vm'. do_return env (Suc (Suc n)) vm v = Some (None, vm1) \<and>
        run_handlers env (Suc (Suc n)) body 1 (None, vm1) = Some ([fst cl], r, vm') \<and> delivered vm f v r vm'"
proof (cases kind)
  case IfCurtailed
  then show ?thesis using curtailed_returns [of vm f cl env "Suc n" v] assms(1) by simp
next
  case Ensure
  have g: "guarded_return vm f cl Ensure" using assms(1) Ensure by simp
  obtain w where w: "view_frame vm f = Some w" and pr: "plain_return vm f" and len: "length (ps_slots (iv_stack vm)) \<le> STACK_LIMIT"
    and sp: "f + 7 + fv_ntemps w \<le> ps_sp (iv_stack vm)"
    using g by (auto simp: guarded_return_def)
  from ensure_activates [OF g w assms(3), of env "Suc n" v] obtain vm1 H wh where ret: "do_return env (Suc (Suc n)) vm v = Some (None, vm1)"
    and H: "H = ps_sp (iv_stack vm) + 2" "ps_fp (iv_stack vm1) = H" "H + 7 \<le> length (ps_slots (iv_stack vm1))"
    and wh: "view_frame vm1 H = Some wh" "fv_argc wh = 0" "fv_sfp wh = int f" "fv_sbci wh = BCI_RESUME_ENSURE_RET" "classify_marker vm1 H = Some NoMarker"
    and slots: "stack_get (iv_stack vm1) (H - 1) = Some (fst cl)" "stack_get (iv_stack vm1) (H - 2) = Some v"
    and f1: "agrees f vm vm1" "view_frame vm1 f = Some w" "classify_marker vm1 f = Some NoMarker"
    by blast
  obtain vm2 x where x: "body vm1 = (vm2, x)" by (cases "body vm1")
  have "resuming vm1" using wh H(2) by (auto simp: resuming_def)
  then have gr: "guest_ran B vm1 vm2" using assms(2) x by (auto simp: handler_body_def dest: spec [of _ vm1])
  have ag: "agrees (H + 7) vm1 vm2" and fp2: "ps_fp (iv_stack vm2) = H" using gr H(2) by (simp_all add: guest_ran_def)
  have len2: "length (ps_slots (iv_stack vm2)) = length (ps_slots (iv_stack vm))" "length (ps_slots (iv_stack vm1)) = length (ps_slots (iv_stack vm))"
    using ag f1(1) by (simp_all add: agrees_def)
  have w2: "view_frame vm2 H = Some wh" "classify_marker vm2 H = Some NoMarker" using view_agree [OF ag _ wh(1)] classify_agree(1) [OF ag _ wh(5)] by simp_all
  obtain mo m where m: "frame_method (iv_objs vm2) (iv_stack vm2) H = Some (mo, m)" "argc m = Some 0" "saved_fp (iv_stack vm2) H = Some (int f)"
    "saved_bci (iv_stack vm2) H = Some BCI_RESUME_ENSURE_RET"
    using w2(1) wh by (auto simp: view_frame_eq_Some)
  define sl where "sl = (ps_slots (iv_stack vm2))[H - 1 := x]"
  define vm3 where "vm3 = vm2\<lparr>iv_stack := (iv_stack vm2)\<lparr>ps_slots := sl, ps_fp := f, ps_has_frame := True, ps_sp := H - 2\<rparr>\<rparr>"
  have ag3: "agrees (f + 7) vm1 vm3" using agree_less [OF ag, of "f + 7"] H(1) sp by (auto simp: agrees_def vm3_def sl_def)
  have f3: "view_frame vm3 f = Some w" "classify_marker vm3 f = Some NoMarker"
    using view_agree [OF ag3 _ f1(2)] classify_agree(1) [OF ag3 _ f1(3)] by simp_all
  have ag': "agrees f vm vm3" using agree_trans [OF f1(1) ag3, of f] by simp
  have pr3: "plain_return vm3 f" using plain_return_agree [OF ag' _ pr] f3(1) w by simp
  from home_returns [OF pr3 f3(2), of env n v] obtain r vm' where r: "do_return env (Suc n) vm3 v = Some (r, vm')" "delivered vm3 f v r vm'"
    using len2 len H sp by (auto simp: vm3_def sl_def)
  have fl: "f < STACK_LIMIT" "H - 1 < length (ps_slots (iv_stack vm2))" using H(3) len len2 H(1) sp by simp_all
  have Hs: "H - 2 = ps_sp (iv_stack vm)" "H - 1 = Suc (H - 2)" "H = Suc (Suc (H - 2))" using H(1) by simp_all
  have set1: "on_stack (stack_set (H - 1) x) vm2 = Some (vm2\<lparr>iv_stack := (iv_stack vm2)\<lparr>ps_slots := sl\<rparr>\<rparr>)"
    using fl(2) by (simp add: on_stack_def stack_set_def sl_def)
  have us: "usize_minus H 0 = Some H" "usize_minus H 1 = Some (H - 1)" "H - 1 + 1 = H" using H(1) by (simp_all add: usize_minus_def)
  define vm2a where "vm2a = vm2\<lparr>iv_stack := (iv_stack vm2)\<lparr>ps_slots := sl, ps_sp := H, ps_fp := f, ps_has_frame := True\<rparr>\<rparr>"
  have d1: "do_return env (Suc (Suc n)) vm2 x = resume_ensure_ret (do_return env (Suc n)) vm2a"
    using w2(2) m us set1 by (simp add: fp2 pop_and_deliver_def Let_def ENTRY_FRAME_SENTINEL_def i64_as_usize_int [OF fl(1)] activate_frame_def vm2a_def
        del: do_return.simps) (simp add: fp2 pop_and_deliver_def Let_def ENTRY_FRAME_SENTINEL_def i64_as_usize_int [OF fl(1)] activate_frame_def vm2a_def)
  have v2: "sl ! (H - 2) = v" "H - 2 < length sl"
    using slots(2) agree_get [OF ag, of "H - 2"] Hs fl(2) by (auto simp: sl_def stack_get_def slice_get_def split: if_splits)
  have nt: "ntemps_at_fp (iv_objs vm2) ((iv_stack vm2)\<lparr>ps_slots := sl, ps_fp := f, ps_has_frame := True, ps_sp := s\<rparr>) = Some (fv_ntemps w)" for s
    using f3(1) by (auto simp: view_frame_eq_Some vm3_def ntemps_at_fp_def frame_method_def stack_get_def bind_eq_Some_conv)
  have "resume_ensure_ret (do_return env (Suc n)) vm2a = do_return env (Suc n) vm3 v"
    using nt v2 Hs sp us by (simp add: resume_ensure_ret_def vm2a_def stack_pop_def stack_get_def slice_get_def vm3_def FRAME_TEMPS_BASE_def del: do_return.simps)
  with d1 r(1) have d: "do_return env (Suc (Suc n)) vm2 x = Some (r, vm')" by simp
  have "receiver_slot (iv_objs vm1) (iv_stack vm1) H = Some (H - 1)"
    using wh(1,2) us by (auto simp: receiver_slot_def view_frame_eq_Some)
  then have "run_handlers env (Suc (Suc n)) body 1 (None, vm1) = Some ([fst cl], r, vm')"
    using x d slots(1) H(2) by (simp del: do_return.simps)
  then show ?thesis using ret delivered_below [OF r(2) ag' _ w f3(1)] Ensure by auto
qed

subsection \<open>Non-local return\<close>

text \<open>
  A block's frame, the innermost of \<open>fs\<close>, is about to execute \<open>nlr_tos\<close> with \<open>v\<close> on top of the stack; the home of its closure is the frame \<open>h\<close>.
\<close>

definition nlr_at :: "ivm \<Rightarrow> nat list \<Rightarrow> nat \<Rightarrow> oop \<Rightarrow> bool" where
  "nlr_at vm fs h v \<longleftrightarrow> (\<exists>st bo bm slot co c hr.
     stack_pop (iv_objs vm) (iv_stack vm) = Some (v, st) \<and>
     frame_method (iv_objs vm) (iv_stack vm) (ps_fp (iv_stack vm)) = Some (bo, bm) \<and> is_block_method bm = Some True \<and>
     receiver_slot (iv_objs vm) (iv_stack vm) (ps_fp (iv_stack vm)) = Some slot \<and> stack_get (iv_stack vm) slot = Some co \<and>
     closure_try_from (iv_objs vm) co = Some (co, c) \<and> closure_home_ref c = Some hr \<and>
     unwinding (vm\<lparr>iv_stack := st\<rparr>) fs h (unpack_home_ref hr))"

lemma stack_popD: "stack_pop objs st = Some (v, st') \<Longrightarrow> st' = st\<lparr>ps_sp := ps_sp st - 1\<rparr>"
  by (auto simp: stack_pop_def bind_eq_Some_conv split: if_splits)

lemma unwinding_regs:
  assumes "unwinding vm fs h home"
  shows "unwinding (vm\<lparr>iv_method := m, iv_bci := b\<rparr>) fs h home \<and> armed (vm\<lparr>iv_method := m, iv_bci := b\<rparr>) fs = armed vm fs"
proof -
  let ?vm' = "vm\<lparr>iv_method := m, iv_bci := b\<rparr>"
  have u: "path vm fs h" "\<forall>f \<in> set fs. marker_ok vm f" "home_at vm h home" "free_ok vm" using assms by (simp_all add: unwinding_def)
  have ag: "agrees (length (ps_slots (iv_stack vm))) vm ?vm'" by (simp add: agrees_def)
  have l: "\<forall>f \<in> set (fs @ [h]). f + 7 \<le> length (ps_slots (iv_stack vm))" using path_hd [OF u(1)] by (meson add_le_mono1 le_trans)
  have "path ?vm' fs h" using path_agree [OF ag u(1) l] .
  moreover have "(\<forall>f \<in> set fs. marker_ok ?vm' f) \<and> armed ?vm' fs = armed vm fs" using markers_agree [OF ag, of fs] l u(2) by auto
  moreover have "home_at ?vm' h home" using home_at_agree [OF ag _ u(3)] l by simp
  moreover have "free_ok ?vm'" using u(4) by (simp add: free_ok_def)
  ultimately show ?thesis using assms by (simp add: unwinding_def)
qed

lemma armed_stack: "ps_slots st = ps_slots (iv_stack vm) \<Longrightarrow> armed (vm\<lparr>iv_stack := st\<rparr>) fs = armed vm fs"
proof -
  assume "ps_slots st = ps_slots (iv_stack vm)"
  then have "classify_marker (vm\<lparr>iv_stack := st\<rparr>) f = classify_marker vm f" for f
    by (cases "marker (iv_stack vm) f") (simp_all add: classify_marker_def marker_def stack_get_def cong: option.case_cong)
  then show ?thesis by (simp add: armed_def)
qed

lemma delivered_pre:
  assumes "delivered (vm\<lparr>iv_stack := st, iv_method := m, iv_bci := b\<rparr>) h v r vm'" "ps_slots st = ps_slots (iv_stack vm)" "h + 7 \<le> length (ps_slots st)"
    "view_frame vm h = Some w"
  shows "delivered vm h v r vm'"
  by (rule delivered_agree [OF assms(1) _ _ assms(4), of "h + 7"]) (use assms(2) in \<open>simp_all add: agrees_def\<close>)

text \<open>
  C5. A non-local return completes. When a block executes \<open>nlr_tos\<close> and its home is still on the stack below it, every handler armed on a frame between the two runs, innermost first
  and each exactly once, and then the value is delivered to the caller of the home, whose frame and everything below it is as before (or is the result of the run, when the home was entered from
  outside). The bodies of the handlers are any guest code that returns; two levels of recursion of \<open>do_return\<close> are enough fuel for any number of handlers.
\<close>
theorem non_local_return_completes:
  assumes "nlr_at vm fs h v" and "handler_body B body" and "budget (length (armed vm fs) * (B + 2)) vm"
  shows "\<exists>s r vm'. op_nlr_tos env (Suc (Suc n)) bci vm = Some s \<and>
    run_handlers env (Suc (Suc n)) body (length (armed vm fs)) s = Some (map fst (armed vm fs), r, vm') \<and> delivered vm h v r vm'"
proof -
  obtain st bo bm slot co c hr where pop: "stack_pop (iv_objs vm) (iv_stack vm) = Some (v, st)"
    and m: "frame_method (iv_objs vm) (iv_stack vm) (ps_fp (iv_stack vm)) = Some (bo, bm)" "is_block_method bm = Some True"
    and cl: "receiver_slot (iv_objs vm) (iv_stack vm) (ps_fp (iv_stack vm)) = Some slot" "stack_get (iv_stack vm) slot = Some co"
      "closure_try_from (iv_objs vm) co = Some (co, c)" "closure_home_ref c = Some hr"
    and u: "unwinding (vm\<lparr>iv_stack := st\<rparr>) fs h (unpack_home_ref hr)"
    using assms(1) by (auto simp: nlr_at_def)
  have st: "st = (iv_stack vm)\<lparr>ps_sp := ps_sp (iv_stack vm) - 1\<rparr>" using stack_popD [OF pop] .
  define vm0 where "vm0 = vm\<lparr>iv_stack := st, iv_method := Some bo, iv_bci := bci\<rparr>"
  have u0: "unwinding vm0 fs h (unpack_home_ref hr)" "armed vm0 fs = armed vm fs"
    using unwinding_regs [OF u, where m = "Some bo" and b = bci] armed_stack [of st vm fs] by (simp_all add: vm0_def st)
  have "path (vm\<lparr>iv_stack := st\<rparr>) fs h" using u by (simp add: unwinding_def)
  then obtain w where w: "view_frame (vm\<lparr>iv_stack := st\<rparr>) h = Some w" "h + 7 + fv_ntemps w \<le> length (ps_slots (iv_stack vm))"
    using path_view [of "vm\<lparr>iv_stack := st\<rparr>" fs h h] by (auto simp: st)
  have w': "view_frame vm h = Some w" "view_frame vm0 h = Some w"
    using w(1) by (simp_all add: vm0_def st view_frame_def saved_fp_def saved_bci_def frame_serial_def serial_word_def)
  have pre: "delivered vm h v r vm'" if "delivered vm0 h v r vm'" for r vm'
    using delivered_pre [OF that [unfolded vm0_def] _ _ w'(1)] w(2) by (simp add: st)
  have "receiver_slot (iv_objs vm) st (ps_fp (iv_stack vm)) = Some slot" using cl(1) by (simp add: receiver_slot_def st)
  then have run: "op_nlr_tos env (Suc (Suc n)) bci vm = do { (step, vm1) \<leftarrow> continue_unwind env (do_return env (Suc (Suc n))) (unpack_home_ref hr) v (Some co) vm0;
     Some (case step of ReturnedFromHome r \<Rightarrow> r | Escaped \<Rightarrow> Some NLR_SENTINEL | RanHandler \<Rightarrow> None | CannotReturn \<Rightarrow> None, vm1) }"
    using pop m cl by (simp add: op_nlr_tos_def Let_def st vm0_def)
  show ?thesis
  proof (cases "armed vm fs")
    case Nil
    then obtain r vm' where "continue_unwind env (do_return env (Suc (Suc n))) (unpack_home_ref hr) v (Some co) vm0 = Some (ReturnedFromHome r, vm')" "delivered vm0 h v r vm'"
      using unwind_delivers [OF u0(1), of env "Suc n" v "Some co"] u0(2) by auto
    then show ?thesis using run pre Nil by (auto simp del: do_return.simps)
  next
    case (Cons a rest)
    have b: "budget (length (a # rest) * (B + 2)) vm0" using assms(3) Cons by (simp add: budget_def vm0_def)
    have f2: "2 \<le> length (iv_free vm0)" and ser: "iv_next_serial vm0 + 1 \<noteq> 0" "unat (iv_next_serial vm0 + 1) = unat (iv_next_serial vm0) + 1"
      using b budget_serial [OF b] by (simp_all add: budget_def)
    from handler_activated [OF u0(1) u0(2) [unfolded Cons] f2 ser(1) w'(2), of env "do_return env (Suc (Suc n))" v "Some co"]
    obtain vm1 f fs' where v1: "continue_unwind env (do_return env (Suc (Suc n))) (unpack_home_ref hr) v (Some co) vm0 = Some (RanHandler, vm1)"
      "in_handler vm1 f fs' h (unpack_home_ref hr) v a" "armed vm1 fs' = rest" "agrees (h + 7 + fv_ntemps w) vm0 vm1" "length (iv_free vm0) \<le> length (iv_free vm1) + 2"
      "iv_next_serial vm1 = iv_next_serial vm0 + 1" by blast
    have "budget (length rest * (B + 2) + B) vm1" using b v1(5,6) ser(2) by (simp add: budget_def algebra_simps)
    from handlers_run [OF assms(2) v1(2,3) this, of env n None] obtain r vm' where
      r: "run_handlers env (Suc (Suc n)) body (Suc (length rest)) (None, vm1) = Some (map fst (a # rest), r, vm')" "delivered vm1 h v r vm'" by blast
    have "delivered vm0 h v r vm'" using delivered_agree [OF r(2) v1(4) _ w'(2)] by simp
    then show ?thesis using run v1(1) r(1) pre Cons by (auto simp del: do_return.simps run_handlers.simps)
  qed
qed

text \<open>
  A method frame at 1, entered from outside; a protected block at 9 with an armed handler; a block at 17 that returns 42 from the method.
\<close>

definition demo_handler :: closure_obj where
  "demo_handler = \<lparr>co_method = 17, co_home = 0, co_copied = [4]\<rparr>"

definition demo_home :: oop where
  "demo_home = push_bit 2 (home_ref_raw \<lparr>hr_proc = 0, hr_serial = 10, hr_fp = 1\<rparr>)"

definition demo_objs :: objects where
  "demo_objs = [5 \<mapsto> MethodObj (flags_method 0), 9 \<mapsto> MethodObj (flags_method 32768), 13 \<mapsto> MethodObj (flags_method 32768), 17 \<mapsto> MethodObj (flags_method 32768),
     21 \<mapsto> ClosureObj \<lparr>co_method = 9, co_home = demo_home, co_copied = [4]\<rparr>, 25 \<mapsto> ClosureObj \<lparr>co_method = 13, co_home = demo_home, co_copied = [4]\<rparr>,
     29 \<mapsto> ClosureObj demo_handler]"

definition demo_slots :: "oop list" where
  "demo_slots = [4, 5, -4, 0, 1, 4, 40, 1, 21, 9, 4, 12, 1, 4, 44, 29, 25, 13, 36, 16, 1, 4, 48, 1, 168] @ replicate 15 0"

definition nlr_vm :: ivm where
  "nlr_vm = \<lparr>iv_stack = \<lparr>ps_slots = demo_slots, ps_sp = 25, ps_fp = 17, ps_has_frame = True\<rparr>, iv_objs = demo_objs, iv_free = [33, 37], iv_nil = 1,
     iv_next_serial = 13, iv_method = Some 13, iv_bci = 0, iv_nlr = None, iv_curtailing = False\<rparr>"

definition demo_popped :: ivm where
  "demo_popped = nlr_vm\<lparr>iv_stack := \<lparr>ps_slots = demo_slots, ps_sp = 24, ps_fp = 17, ps_has_frame = True\<rparr>\<rparr>"

lemma demo_views:
  "view_frame demo_popped 1 = Some \<lparr>fv_argc = 0, fv_ntemps = 0, fv_sfp = -1, fv_sbci = 0, fv_serial = 10\<rparr>"
  "view_frame demo_popped 9 = Some \<lparr>fv_argc = 0, fv_ntemps = 0, fv_sfp = 1, fv_sbci = 3, fv_serial = 11\<rparr>"
  "view_frame demo_popped 17 = Some \<lparr>fv_argc = 0, fv_ntemps = 0, fv_sfp = 9, fv_sbci = 4, fv_serial = 12\<rparr>"
  "classify_marker demo_popped 1 = Some NoMarker" "classify_marker demo_popped 9 = Some (Handler (29, demo_handler))" "classify_marker demo_popped 17 = Some NoMarker"
  "armed nlr_vm [17, 9] = [(29, demo_handler)]"
  by code_simp+

lemma demo_block:
  "block_ready demo_objs (29, demo_handler) 0 0" "unpack_home_ref demo_home = \<lparr>hr_proc = 0, hr_serial = 10, hr_fp = 1\<rparr>" "is_smi demo_home"
  "frame_method demo_objs (iv_stack nlr_vm) 17 = Some (13, flags_method 32768)" "is_block_method (flags_method 32768) = Some True"
  "receiver_slot demo_objs (iv_stack nlr_vm) 17 = Some 16" "stack_get (iv_stack nlr_vm) 16 = Some 25"
  "closure_try_from demo_objs 25 = Some (25, \<lparr>co_method = 13, co_home = demo_home, co_copied = [4]\<rparr>)"
  "stack_pop demo_objs (iv_stack nlr_vm) = Some (168, \<lparr>ps_slots = demo_slots, ps_sp = 24, ps_fp = 17, ps_has_frame = True\<rparr>)"
  by code_simp+

lemma demo_nlr_at: "nlr_at nlr_vm [17, 9] 1 168"
proof -
  have sl: "length demo_slots = 40" by (simp add: demo_slots_def)
  have pp: "iv_stack demo_popped = \<lparr>ps_slots = demo_slots, ps_sp = 24, ps_fp = 17, ps_has_frame = True\<rparr>" "iv_objs demo_popped = demo_objs"
    "iv_free demo_popped = [33, 37]" "iv_nil demo_popped = 1" "iv_objs nlr_vm = demo_objs" "ps_fp (iv_stack nlr_vm) = 17"
    by (simp_all add: demo_popped_def nlr_vm_def)
  have "free_ok demo_popped" by (simp add: free_ok_def pp demo_objs_def is_mem_def oop_tag_defs)
  moreover have "marker_ok demo_popped 17" "marker_ok demo_popped 9" using demo_views demo_block(1) by (simp_all add: marker_ok_def pp sl) auto
  moreover have "path demo_popped [17, 9] 1" using demo_views by (simp add: pp sl)
  moreover have "home_at demo_popped 1 (unpack_home_ref demo_home)"
    using demo_views demo_block(2) by (simp add: home_at_def plain_return_def ENTRY_FRAME_SENTINEL_def home_ref_mask_defs BCI_RESUME_ENSURE_RET_def BCI_RESUME_UNWIND_def BCI_RESUME_CANNOT_RETURN_def)
  ultimately have "unwinding demo_popped [17, 9] 1 (unpack_home_ref demo_home)"
    by (simp add: unwinding_def pp sl STACK_LIMIT_def)
  then show ?thesis
    using demo_block(3-) by (simp add: nlr_at_def pp demo_popped_def closure_home_ref_def smi_try_from_def)
qed

lemma token_array: "classify_marker vm f = Some (Token (t, xs)) \<Longrightarrow> iv_objs vm t = Some (ArrayObj xs)"
proof -
  assume "classify_marker vm f = Some (Token (t, xs))"
  then obtain m where "array_try_from (iv_objs vm) m = Some (t, xs)"
    by (auto simp: classify_marker_def bind_eq_Some_conv split: if_splits option.splits)
  then show ?thesis by (auto simp: array_try_from_def mem_obj_def split: if_splits option.splits heap_obj.splits)
qed

lemma idle_body: "handler_body 0 (\<lambda>vm. (vm, x))"
  by (simp add: handler_body_def guest_ran_def token_array)

theorem non_local_return_completes_witness:
  "\<forall>env. \<exists>s r vm'. op_nlr_tos env 2 5 nlr_vm = Some s \<and> run_handlers env 2 (\<lambda>vm. (vm, 0)) 1 s = Some ([29], r, vm') \<and> delivered nlr_vm 1 168 r vm'"
proof (rule allI, goal_cases)
  case (1 env)
  have "budget (length (armed nlr_vm [17, 9]) * (0 + 2)) nlr_vm" unfolding demo_views(7) by (simp add: budget_def nlr_vm_def)
  from non_local_return_completes [OF demo_nlr_at idle_body this, of env 0 5] show ?case unfolding demo_views(7) by (simp add: numeral_2_eq_2)
qed

definition guarded_vm :: ivm where
  "guarded_vm = nlr_vm\<lparr>iv_stack := \<lparr>ps_slots = demo_slots, ps_sp = 16, ps_fp = 9, ps_has_frame = True\<rparr>\<rparr>"

theorem protected_return_transparent_witness:
  "\<forall>env. \<exists>vm1 r vm'. do_return env 2 guarded_vm 168 = Some (None, vm1) \<and> run_handlers env 2 (\<lambda>vm. (vm, 0)) 1 (None, vm1) = Some ([29], r, vm') \<and>
     delivered guarded_vm 9 168 r vm'"
proof (rule allI, goal_cases)
  case (1 env)
  have v: "view_frame guarded_vm 9 = Some \<lparr>fv_argc = 0, fv_ntemps = 0, fv_sfp = 1, fv_sbci = 3, fv_serial = 11\<rparr>"
    "view_frame guarded_vm 1 = Some \<lparr>fv_argc = 0, fv_ntemps = 0, fv_sfp = -1, fv_sbci = 0, fv_serial = 10\<rparr>"
    "classify_marker guarded_vm 9 = Some (Handler (29, demo_handler))" "frame_marker_kind (iv_stack guarded_vm) 9 = Some Ensure"
    by code_simp+
  have g: "iv_stack guarded_vm = \<lparr>ps_slots = demo_slots, ps_sp = 16, ps_fp = 9, ps_has_frame = True\<rparr>" "iv_objs guarded_vm = demo_objs"
    "iv_free guarded_vm = [33, 37]" "iv_nil guarded_vm = 1" "iv_next_serial guarded_vm = 13"
    by (simp_all add: guarded_vm_def nlr_vm_def)
  have "plain_return guarded_vm 9"
    using v(1,2) by (auto simp: plain_return_def BCI_RESUME_ENSURE_RET_def BCI_RESUME_UNWIND_def BCI_RESUME_CANNOT_RETURN_def intro!: exI [of _ "1::nat"])
  moreover have "free_ok guarded_vm" by (simp add: free_ok_def g demo_objs_def is_mem_def oop_tag_defs)
  moreover have "length demo_slots = 40" by (simp add: demo_slots_def)
  ultimately have "guarded_return guarded_vm 9 (29, demo_handler) Ensure"
    using v demo_block(1) by (auto simp: guarded_return_def g STACK_LIMIT_def)
  moreover have "budget 1 guarded_vm" by (simp add: budget_def g)
  ultimately show ?case using protected_return_transparent [OF _ idle_body, of guarded_vm 9 "(29, demo_handler)" Ensure env 0 168]
    by (simp add: numeral_2_eq_2 del: do_return.simps run_handlers.simps)
qed

subsection \<open>A stale home taken for a live one\<close>

text \<open>
  The frames of one run of the dispatch loop, innermost first: each lies above the one it was called from, no handler is armed in it, and the last is the frame the run was entered with.
\<close>

primrec frames_to_entry :: "ivm \<Rightarrow> nat list \<Rightarrow> nat \<Rightarrow> bool" where
  "frames_to_entry vm [] e \<longleftrightarrow> saved_fp (iv_stack vm) e = Some ENTRY_FRAME_SENTINEL \<and> (\<exists>c. classify_marker vm e = Some c \<and> (\<forall>h. c \<noteq> Handler h))"
| "frames_to_entry vm (f # fs) e \<longleftrightarrow> saved_fp (iv_stack vm) f = Some (int (hd (fs @ [e]))) \<and> hd (fs @ [e]) < f \<and>
     (\<exists>c. classify_marker vm f = Some c \<and> (\<forall>h. c \<noteq> Handler h)) \<and> frames_to_entry vm fs e"

text \<open>The machine just before a block's \<open>^\<close>: the value to return is on top of the stack and the running closure \<open>co\<close> names its home.\<close>

definition at_nlr :: "ivm \<Rightarrow> nat \<Rightarrow> ivm \<Rightarrow> home_ref \<Rightarrow> oop \<Rightarrow> oop \<Rightarrow> bool" where
  "at_nlr vm bci vm1 home v co \<longleftrightarrow> (\<exists>st mo m slot c h.
     stack_pop (iv_objs vm) (iv_stack vm) = Some (v, st) \<and> vm1 = vm\<lparr>iv_stack := st, iv_method := Some mo, iv_bci := bci\<rparr> \<and>
     frame_method (iv_objs vm) st (ps_fp st) = Some (mo, m) \<and> is_block_method m = Some True \<and> receiver_slot (iv_objs vm) st (ps_fp st) = Some slot \<and>
     stack_get st slot = Some co \<and> closure_try_from (iv_objs vm) co = Some (co, c) \<and> closure_home_ref c = Some h \<and> home = unpack_home_ref h)"

definition nlr_outcome :: "unwind_step \<Rightarrow> oop option" where
  "nlr_outcome step = (case step of ReturnedFromHome r \<Rightarrow> r | Escaped \<Rightarrow> Some NLR_SENTINEL | RanHandler \<Rightarrow> None | CannotReturn \<Rightarrow> None)"

lemma op_nlr_tos_eq:
  assumes "at_nlr vm bci vm1 home v co"
  shows "op_nlr_tos env n bci vm = do { (step, vm') \<leftarrow> continue_unwind env (do_return env n) home v (Some co) vm1; Some (nlr_outcome step, vm') }"
  using assms by (auto simp: at_nlr_def op_nlr_tos_def nlr_outcome_def Let_def)

lemma frames_below: "frames_to_entry vm fs e \<Longrightarrow> f \<in> set (fs @ [e]) \<Longrightarrow> f \<le> hd (fs @ [e])"
proof (induction fs)
  case (Cons g fs)
  then show ?case by (cases fs) fastforce+
qed simp

lemma frame_readable: "saved_fp st f = Some w \<Longrightarrow> f < length (ps_slots st)"
  by (auto simp: saved_fp_def smi_slot_def stack_get_def slice_get_def FRAME_SAVED_FP_def bind_eq_Some_conv split: if_splits)

lemma scan_to_entry:
  assumes "frames_to_entry vm fs e" "h \<notin> set (fs @ [e])" "length fs < n" "hd (fs @ [e]) < STACK_LIMIT"
  shows "innermost_marked_frame n vm (hd (fs @ [e])) h = Some (CrossedBoundary e)"
  using assms
proof (induction fs arbitrary: n)
  case Nil
  then obtain k c where n: "n = Suc k" and c: "classify_marker vm e = Some c" "\<forall>h. c \<noteq> Handler h" by (cases n) auto
  show ?case using Nil n c by (cases c) auto
next
  case (Cons f fs)
  let ?g = "hd (fs @ [e])"
  obtain k c where n: "n = Suc k" and c: "classify_marker vm f = Some c" "\<forall>h. c \<noteq> Handler h" using Cons.prems by (cases n) auto
  have g: "?g < STACK_LIMIT" "saved_fp (iv_stack vm) f = Some (int ?g)" using Cons.prems by auto
  then have "int ?g \<noteq> ENTRY_FRAME_SENTINEL" "i64_as_usize (int ?g) = ?g" by (simp_all add: i64_as_usize_int ENTRY_FRAME_SENTINEL_def)
  moreover have "innermost_marked_frame k vm ?g h = Some (CrossedBoundary e)" using Cons g(1) n by simp
  ultimately show ?case using Cons.prems(2) n c g(2) by (cases c) auto
qed

lemma chain_length: "frames_to_entry vm fs e \<Longrightarrow> length fs \<le> hd (fs @ [e])"
proof (induction fs)
  case (Cons f fs)
  then show ?case by (cases fs) fastforce+
qed simp

lemma dead_home_decision:
  assumes chain: "frames_to_entry vm fs e" "ps_fp (iv_stack vm) = hd (fs @ [e])" and cap: "length (ps_slots (iv_stack vm)) \<le> STACK_LIMIT"
    and home: "hr_proc home = 0" "unat (hr_fp home) \<notin> set (fs @ [e])" "unat (hr_fp home) + FRAME_MARKER < ps_sp (iv_stack vm)"
      "smi_slot (iv_stack vm) (unat (hr_fp home) + FRAME_SERIAL) = Some w"
    and entry: "frame_method (iv_objs vm) (iv_stack vm) e = Some (mo, m)" "argc m = Some ac" "ac < e" and nlr: "iv_nlr vm = None"
    and co: "closure_try_from (iv_objs vm) co = Some (co, c)"
  shows "continue_unwind env rec1 home v (Some co) vm =
    (if word_of_int (w AND FRAME_SERIAL_MASK) = hr_serial home
     then Some (Escaped, vm\<lparr>iv_stack := deactivate ((iv_stack vm)\<lparr>ps_sp := e - ac - 1\<rparr>), iv_nlr := Some \<lparr>nlr_home = home, nlr_value = v, nlr_closure = Some co\<rparr>\<rparr>)
     else map_option (\<lambda>(nested, vm'). (case nested of None \<Rightarrow> CannotReturn | Some step \<Rightarrow> step, vm')) (cannot_return env co v vm))"
proof -
  let ?f = "hd (fs @ [e])"
  have "saved_fp (iv_stack vm) ?f \<noteq> None" using chain(1) by (cases fs) auto
  then have f: "?f < length (ps_slots (iv_stack vm))" using frame_readable by blast
  then have ns: "?f \<noteq> SENTINEL_FP" and lim: "?f < STACK_LIMIT"
    using cap by (auto simp: SENTINEL_FP_def i64_as_usize_def ENTRY_FRAME_SENTINEL_def STACK_LIMIT_def)
  have live: "home_is_live vm home \<longleftrightarrow> word_of_int (w AND FRAME_SERIAL_MASK) = hr_serial home"
    using home by (simp add: home_is_live_def)
  have scan: "innermost_marked_frame (Suc (stack_capacity (iv_stack vm))) vm ?f (unat (hr_fp home)) = Some (CrossedBoundary e)"
    using chain_length [OF chain(1)] f by (intro scan_to_entry chain(1) home(2) lim) (simp add: stack_capacity_def)
  show ?thesis
  proof (cases "word_of_int (w AND FRAME_SERIAL_MASK) = hr_serial home")
    case True
    then show ?thesis
      using live scan ns chain(2) entry nlr by (simp add: continue_unwind_def usize_minus_def park_nlr_def Let_def del: innermost_marked_frame.simps)
  next
    case False
    then show ?thesis
      using live ns chain(2) home(1) co by (cases "cannot_return env co v vm") (auto simp: continue_unwind_def)
  qed
qed

text \<open>
  C38. The check that the home of a non-local return is alive can be fooled. Take any block about to execute \<open>^\<close> whose home is gone: no frame of its run of the dispatch loop is at the home's place, which by
  now holds other slots. The outcome hangs on the slot where the home's serial used to be. If it holds no small integer with that serial in its low bits, \<open>cannotReturn:\<close> is sent to the closure. But
  any small integer with those bits, which may be a value of the program, passes for the serial of a living home: \<open>cannotReturn:\<close> is not sent, the scan passes the entry frame, and the whole run
  is abandoned, with the stack cut to the base of the entry frame and the value parked for a home that does not exist.
\<close>
theorem stale_home_taken_for_live:
  assumes "at_nlr vm bci vm1 home v co" "frames_to_entry vm1 fs e" "ps_fp (iv_stack vm1) = hd (fs @ [e])" "length (ps_slots (iv_stack vm1)) \<le> STACK_LIMIT"
    and "hr_proc home = 0" "unat (hr_fp home) \<notin> set (fs @ [e])" "unat (hr_fp home) + FRAME_MARKER < ps_sp (iv_stack vm1)"
    and "smi_slot (iv_stack vm1) (unat (hr_fp home) + FRAME_SERIAL) = Some w"
    and "frame_method (iv_objs vm1) (iv_stack vm1) e = Some (mo, m)" "argc m = Some ac" "ac < e" "iv_nlr vm1 = None"
  shows "op_nlr_tos env n bci vm =
    (if word_of_int (w AND FRAME_SERIAL_MASK) = hr_serial home
     then Some (Some NLR_SENTINEL, vm1\<lparr>iv_stack := deactivate ((iv_stack vm1)\<lparr>ps_sp := e - ac - 1\<rparr>),
       iv_nlr := Some \<lparr>nlr_home = home, nlr_value = v, nlr_closure = Some co\<rparr>\<rparr>)
     else map_option (\<lambda>(nested, vm'). (nlr_outcome (case nested of None \<Rightarrow> CannotReturn | Some step \<Rightarrow> step), vm')) (cannot_return env co v vm1))"
proof -
  obtain c where "closure_try_from (iv_objs vm1) co = Some (co, c)" using assms(1) by (auto simp: at_nlr_def)
  from dead_home_decision [OF assms(2-12) this] show ?thesis
    unfolding op_nlr_tos_eq [OF assms(1)] by (cases "cannot_return env co v vm1") (auto simp: nlr_outcome_def)
qed

text \<open>
  A closure outlived its home, a frame at 1 with the serial 10. It is evaluated by a method of one argument sent to the integer 10; that method's frame is at 2, so that the copy
  of its receiver lies in the slot where the home's serial would be.
\<close>

definition stale_start :: ivm where
  "stale_start = nlr_vm\<lparr>iv_stack := \<lparr>ps_slots = [40, 25] @ replicate 18 0, ps_sp = 2, ps_fp = 0, ps_has_frame = False\<rparr>,
     iv_objs := demo_objs(41 \<mapsto> MethodObj (flags_method 4))\<rparr>"

text \<open>The method is entered, sends \<open>value\<close> to its argument, and the block pushes 42 to return it with \<open>^\<close>.\<close>

definition stale_block :: "ivm option" where
  "stale_block = do {
     vm \<leftarrow> stack_activate_entry 41 (flags_method 4) 1 stale_start;
     arg \<leftarrow> frame_temp (iv_objs vm) (iv_stack vm) (ps_fp (iv_stack vm)) 0;
     vm \<leftarrow> vm_push arg vm;
     cl \<leftarrow> closure_try_from (iv_objs vm) arg;
     (_, vm) \<leftarrow> stack_activate_block cl 0 vm;
     vm_push 168 vm
   }"

definition popped_vm :: "ivm \<Rightarrow> ivm" where
  "popped_vm vm = vm\<lparr>iv_stack := (iv_stack vm)\<lparr>ps_sp := ps_sp (iv_stack vm) - 1\<rparr>, iv_method := Some 13, iv_bci := 5\<rparr>"

lemma stale_facts:
  "map_option (\<lambda>vm. (ps_fp (iv_stack vm), saved_fp (iv_stack vm) 10, saved_fp (iv_stack vm) 2, iv_nlr vm, frame_method (iv_objs vm) (iv_stack vm) 10,
      frame_method (iv_objs vm) (iv_stack vm) 2, receiver_slot (iv_objs vm) (iv_stack vm) 10, stack_get (iv_stack vm) 9, closure_try_from (iv_objs vm) 25,
      map_option fst (stack_pop (iv_objs vm) (iv_stack vm)), classify_marker vm 10, classify_marker vm 2, smi_slot (iv_stack vm) 6,
      ps_sp (iv_stack vm), length (ps_slots (iv_stack vm)))) stale_block =
    Some (10, Some 2, Some (-1), None, Some (13, flags_method 32768), Some (41, flags_method 4), Some 9, Some 25,
      Some (25, \<lparr>co_method = 13, co_home = demo_home, co_copied = [4]\<rparr>), Some 168, Some NoMarker, Some NoMarker, Some 10, 18, 20)"
  by code_simp

theorem stale_home_taken_for_live_witness:
  "\<exists>vm vm'. stale_block = Some vm \<and> ps_fp (iv_stack vm) = 10 \<and> saved_fp (iv_stack vm) 10 = Some 2 \<and> saved_fp (iv_stack vm) 2 = Some ENTRY_FRAME_SENTINEL \<and>
     unpack_home_ref demo_home = \<lparr>hr_proc = 0, hr_serial = 10, hr_fp = 1\<rparr> \<and> (\<forall>env n. op_nlr_tos env n 5 vm = Some (Some NLR_SENTINEL, vm')) \<and>
     iv_nlr vm' = Some \<lparr>nlr_home = unpack_home_ref demo_home, nlr_value = 168, nlr_closure = Some 25\<rparr> \<and> ps_sp (iv_stack vm') = 0"
proof -
  obtain vm where vm: "stale_block = Some vm" using stale_facts by auto
  have fp: "ps_fp (iv_stack vm) = 10" "saved_fp (iv_stack vm) 10 = Some 2" "saved_fp (iv_stack vm) 2 = Some (-1)" "iv_nlr vm = None"
    "ps_sp (iv_stack vm) = 18" "length (ps_slots (iv_stack vm)) = 20"
    using stale_facts by (simp_all add: vm)
  have f: "frame_method (iv_objs vm) (iv_stack vm) 10 = Some (13, flags_method 32768)" "frame_method (iv_objs vm) (iv_stack vm) 2 = Some (41, flags_method 4)"
    "receiver_slot (iv_objs vm) (iv_stack vm) 10 = Some 9" "stack_get (iv_stack vm) 9 = Some 25"
    "closure_try_from (iv_objs vm) 25 = Some (25, \<lparr>co_method = 13, co_home = demo_home, co_copied = [4]\<rparr>)"
    "map_option fst (stack_pop (iv_objs vm) (iv_stack vm)) = Some 168" "classify_marker vm 10 = Some NoMarker" "classify_marker vm 2 = Some NoMarker"
    "smi_slot (iv_stack vm) 6 = Some 10"
    using stale_facts by (simp_all add: vm)
  obtain st where pop: "stack_pop (iv_objs vm) (iv_stack vm) = Some (168, st)" using f(6) by auto
  have st: "st = (iv_stack vm)\<lparr>ps_sp := 17\<rparr>" using stack_popD [OF pop] fp(5) by simp
  let ?vm = "vm\<lparr>iv_stack := st, iv_method := Some 13, iv_bci := 5\<rparr>"
  have same: "stack_get st i = stack_get (iv_stack vm) i" for i by (simp add: st stack_get_def)
  have q: "is_block_method (flags_method 32768) = Some True" "argc (flags_method 4) = Some 1" by code_simp+
  have fm: "frame_method objs st i = frame_method objs (iv_stack vm) i" "receiver_slot objs st i = receiver_slot objs (iv_stack vm) i" for objs i
    by (simp_all add: frame_method_def receiver_slot_def same)
  have "iv_objs ?vm = iv_objs vm" "iv_nil ?vm = iv_nil vm" "iv_stack ?vm = st" by simp_all
  then have regs: "classify_marker ?vm i = classify_marker vm i" "saved_fp st i = saved_fp (iv_stack vm) i" for i
    by (simp_all only: classify_marker_def marker_def same saved_fp_def smi_slot_def)
  have fpst: "ps_fp st = 10" using fp(1) by (simp add: st)
  have "at_nlr vm 5 ?vm (unpack_home_ref demo_home) 168 25"
    unfolding at_nlr_def
    using pop f(1,3-5) q(1) demo_block(3) by (intro exI) (auto simp: closure_home_ref_def smi_try_from_def same fm fpst)
  moreover have "frames_to_entry ?vm [10] 2"
    using fp(2,3) f(7,8) by (simp add: ENTRY_FRAME_SENTINEL_def regs)
  moreover have "word_of_int (10 AND FRAME_SERIAL_MASK) = (10 :: u32)" "smi_slot st 6 = Some 10" "frame_method (iv_objs vm) st 2 = Some (41, flags_method 4)"
    using f(2,9) by (simp_all add: FRAME_SERIAL_MASK_def FRAME_SERIAL_BITS_def fm same smi_slot_def)
  ultimately have "op_nlr_tos env n 5 vm = Some (Some NLR_SENTINEL, ?vm\<lparr>iv_stack := deactivate (st\<lparr>ps_sp := 0\<rparr>),
      iv_nlr := Some \<lparr>nlr_home = unpack_home_ref demo_home, nlr_value = 168, nlr_closure = Some 25\<rparr>\<rparr>)" for env n
    using stale_home_taken_for_live [where vm = vm and bci = 5 and v = 168 and co = 25 and home = "unpack_home_ref demo_home" and fs = "[10]" and e = 2
        and w = 10 and mo = 41 and m = "flags_method 4" and ac = 1 and env = env and n = n]
      fp q(2) demo_block(2) by (simp add: st STACK_LIMIT_def frame_slot_defs)
  then show ?thesis using vm fp demo_block(2) by (auto simp: ENTRY_FRAME_SENTINEL_def deactivate_def)
qed

end
