(* ===== verification/Spec2Isabelle.thy ===== *)
theory Spec2Isabelle
  imports Oops Scopes Builder Method_Dict Heap_Spaces Code_Table Lookup Flush Parser_Sound Contexts Codegen_Sound Codegen_Total Unwind_Sound
begin

text \<open>
  A verification library for WINVM, a Smalltalk virtual machine with a just-in-time compiler (\<open>src/src/\<close>).

  \<^bold>\<open>The program.\<close> Source text goes through the lexer and the recursive-descent parser (\<open>frontend/lexer.rs\<close>, \<open>parser.rs\<close>, \<open>ast.rs\<close>)
  and is compiled to bytecode by a capture analysis (\<open>frontend/capture.rs\<close>) and a code generator (\<open>frontend/codegen.rs\<close>) that drives the assembler of
  \<open>bytecode/builder.rs\<close>. Values are tagged words (\<open>oops/\<close>) in a generational heap
  (\<open>memory/\<close>). A message is sent by looking its selector up along the superclass chain, through method dictionaries
  (\<open>oops/method_dict.rs\<close>) and a global cache (\<open>runtime/lookup.rs\<close>). Hot methods are compiled to machine code that lives in the code cache
  (\<open>codecache/mod.rs\<close>) and is registered in the code table (\<open>codecache/nmethod.rs\<close>) with the metadata that deoptimization reads
  (\<open>compiler/scopes.rs\<close>). Redefining a method makes the compiled code that depends on it not entrant (\<open>runtime/deps.rs\<close>,
  \<open>codecache/flush.rs\<close>); when no frame runs it any more it is flushed and its memory reused.

  \<^bold>\<open>The theories\<close>, in the order of dependency:
  \<^item> \<open>Winvm_Prelude\<close>: machine types, partial slice operations, lemmas on lists, words and bit fields, the collections \<open>field_defs\<close>,
    \<open>codec_simps\<close>, \<open>step_defs\<close>, and the interfaces \<open>word_field\<close>, \<open>word_field_pair\<close> (a packed field, two that do not disturb each other) and \<open>codec\<close>
    (a writer and a reader of a byte stream). They are interpreted on the fields of mark words and method headers, and on the LEB128, location,
    on-stack-replacement and instruction codecs.
  \<^item> \<open>Oops\<close> (\<open>oops/mod.rs\<close>, \<open>smi.rs\<close>, \<open>mark.rs\<close>, \<open>home_ref.rs\<close>, \<open>layout.rs\<close>): tagged words, small-integer arithmetic with its overflow
    checks, mark words, home references.
  \<^item> \<open>Leb128\<close>, \<open>Scopes\<close> (\<open>compiler/scopes.rs\<close>): the variable-length integers and the recorder, packer and reader of scope descriptors and program-counter
    descriptors; reading back what was recorded loses nothing.
  \<^item> \<open>Compiled_Method\<close> (\<open>bytecode/method.rs\<close>), \<open>Bytecode\<close> (\<open>bytecode/opcode.rs\<close>), \<open>Builder\<close> (\<open>bytecode/builder.rs\<close>): method headers, the instruction decoder, and the
    assembler with labels, back patching and literal interning. The assembler refines a list of instructions with symbolic labels:
    what it emits decodes to them and every jump lands on its label.
  \<^item> \<open>Linear_Probing\<close>, \<open>Method_Dict\<close> (\<open>oops/method_dict.rs\<close>): open addressing; a dictionary implements a map (locale \<open>map_store\<close>).
  \<^item> \<open>Heap_Spaces\<close> (\<open>memory/layout.rs\<close>, \<open>cards.rs\<close>, \<open>offsets.rs\<close>, \<open>spaces.rs\<close>, \<open>store.rs\<close>, \<open>alloc.rs\<close>): space bounds, bump allocation, the old generation with its offset
    table, and the store barrier: no old object holds an unrecorded reference to a new one.
  \<^item> \<open>Code_Cache\<close> (\<open>codecache/mod.rs\<close>): the allocator of executable memory and the patching of calls and jumps.
  \<^item> \<open>Code_Table\<close> (\<open>codecache/nmethod.rs\<close>): installing, finding, retiring, flushing and rekeying compiled methods; oop maps. Two alive
    nmethods may share a key, so a collection is described by the highest slot that claims it.
  \<^item> \<open>Lookup\<close> (\<open>runtime/lookup.rs\<close>): the lookup cache, the walk and the installation of a method.
  \<^item> \<open>Probe_Ring\<close> (\<open>runtime/vm_state.rs\<close>): the ring of recent events implements a bounded queue.
  \<^item> \<open>Invalidation\<close> (\<open>runtime/deps.rs\<close>, \<open>codecache/flush.rs\<close>, \<open>runtime/frames.rs\<close>): the composition of lookup, code table, code cache and return redirection when a
    method is redefined. \<open>Flush\<close> (\<open>codecache/flush.rs\<close>, \<open>codecache/pics.rs\<close>): reclaiming a compiled method and the zombie sweep.
  \<^item> \<open>Lexer\<close>, \<open>Ast\<close>, \<open>Parser\<close>, \<open>Parser_Sound\<close> (\<open>frontend/\<close>): the front end down to the syntax tree. The interfaces \<open>array_parser\<close>, \<open>expr_parser\<close>, \<open>sends\<close> and
    \<open>message_chain\<close> hold what is true of a parser whatever the fuel of its recursive call and whatever a chain of messages starts from; they are interpreted on the
    parser's own functions.
  \<^item> \<open>Capture\<close> (\<open>frontend/capture.rs\<close>): which variables of a method body live in a context, where each of them is stored, and which scopes own a context. The scopes,
    references and declarations of a tree are read off it a second time, independently of the walk (\<open>occurrences\<close>), and the analysis is proved to find exactly what they say.
  \<^item> \<open>Contexts\<close> (\<open>interpreter/blocks.rs\<close>, \<open>oops/context.rs\<close>): activating methods and blocks and reaching captured variables through the chain of contexts, over an explicit store.
    The storage that \<open>Capture\<close> assigns implements lexical scoping: a load sees the last store to the same variable of the same activation.
  \<^item> \<open>Codegen\<close> (\<open>frontend/codegen.rs\<close>): the whole generator, the inlined control constructs, cascades and the compilation of blocks into methods of their own included.
    \<open>Stack_Flow\<close> verifies bytecode by an assignment of operand-stack depths to program points and proves that verified code never pops an empty operand stack.
    \<open>Codegen_Sound\<close> proves that every method and block the generator emits is verified; what an expression emits is stated once over the interface \<open>expr_emitter\<close>, whatever the
    fuel of the recursive call, and the bookkeeping of positions over \<open>code_memory\<close>. \<open>Codegen_Total\<close> proves that the fuel of the model is enough.
  \<^item> \<open>Process_Stack\<close> (\<open>interpreter/stack.rs\<close>, \<open>push_frame\<close> and \<open>activate_entry\<close> of \<open>interpreter/mod.rs\<close>, \<open>interpreter/blocks.rs\<close>, \<open>prim_ensure_like\<close> of
    \<open>runtime/primitives.rs\<close>): the interpreter's stack word by word, the frames on it and the activation of methods and blocks; a pushed frame reads back what was pushed.
  \<^item> \<open>Unwind\<close>, \<open>Unwind_Sound\<close> (\<open>interpreter/unwind.rs\<close>, the \<open>nlr_tos\<close> instruction): returns, non-local returns and the handlers of \<open>ensure:\<close> and \<open>ifCurtailed:\<close>. A frame is read
    through \<open>view_frame\<close>, the frames between a block and its home are a \<open>path\<close>, and \<open>agrees\<close> says that two machines agree below a slot; guest code is an argument bound by
    \<open>guest_ran\<close>. A non-local return runs every armed handler once, innermost first, and delivers its value; a protected return is delivered as if no handler were armed.

  \<^bold>\<open>Conventions.\<close> A Rust function is one definition with its name, or a name with a component prefix where two components share it. A structure is a record,
  an enumeration a datatype, a machine integer a word or an integer with the range the code checks; a panic, an assertion or an index out of range is
  \<^const>\<open>None\<close>, and a fallible function of the front end returns a sum whose left side is the error.

  \<^bold>\<open>Bounds and fuel.\<close> Loops are recursive functions with a termination proof. The walk up the superclass chain takes the number of classes as fuel
  (enough because the chain does not repeat); a probe of a table takes its capacity. In the parser every loop may take as many turns as there are characters and tokens left, and
  \<open>parse_expression\<close> and \<open>parse_array_elem\<close> may nest as deeply; \<open>parser_total\<close> proves that these bounds are never reached.
  The code generator takes the size of the syntax tree as fuel (\<open>compile_fuel\<close>), enough in any class hierarchy without cycles (\<open>compile_fuel_enough\<close>).
  \<open>do_return\<close> takes the depth of its recursion as fuel; two levels suffice for a non-local return past any number of handlers. The walks along the frames take the number of slots of the stack,
  which a chain of frames that do not overlap cannot exceed.

  \<^bold>\<open>What is not modelled.\<close> The scavenger and the compacting collector, the dispatch loop and the send paths of the interpreter, the optimizing compiler and its emitters, machine-code
  stubs, primitives, foreign interfaces, the debugger and the user interfaces. Where a modelled operation meets them it takes what it needs as
  arguments: the object view of \<open>Lookup\<close> and \<open>Method_Dict\<close>, the frame list of \<open>Invalidation\<close>, the relocation map of \<open>Code_Table\<close>, the dispatch loop and the sending
  of \<open>cannotReturn:\<close> in \<open>Unwind\<close>, where also the addresses of new objects are a list the memory manager supplies, so that moving objects does not show. A float literal
  keeps its text, since the rounding is the standard library's. Concurrency does not occur in the modelled parts: one thread mutates them.
\<close>

end
